(* ===== verification/Prelude.thy ===== *)
theory Prelude
  imports Main "HOL-Library.AList" "HOL-Library.Char_ord" "HOL-Library.Code_Target_Nat"
begin

text \<open>
  The vocabulary every component shares: JavaScript strings and the string operations the
  sources call, results with errors, insertion-ordered maps and sets, and the list lemmas
  that more than one component uses.

  A JavaScript string is a sequence of UTF-16 code units, so it is a list of numbers here and
  \<open>charCodeAt\<close> is list indexing.  Isabelle's \<open>char\<close> has eight bits and could not hold the
  ellipsis (0x2026) or the byte order mark (0xFEFF) that the sources test for.  A literal of
  the source is written \<open>js ''text''\<close>.

  JavaScript numbers that count lines, indices and lengths are \<open>nat\<close>; the loss of precision
  above \<open>2 ^ 53\<close> is not modelled.
\<close>

section \<open>Fact collections\<close>

named_theorems scan_simps \<open>closed forms of the index-based scanners\<close>
named_theorems res_simps \<open>unfolding of the result monad\<close>

section \<open>Strings\<close>

type_synonym jstring = "nat list"

definition js :: "string \<Rightarrow> jstring" where
  "js s = map of_char s"

lemma js_Nil [simp]: "js [] = []"
  by (simp add: js_def)

lemma js_Cons [simp]: "js (c # cs) = of_char c # js cs"
  by (simp add: js_def)

lemma length_js [simp]: "length (js s) = length s"
  by (simp add: js_def)

subsection \<open>Slices and prefixes\<close>

text \<open>\<open>s.slice(a, b)\<close> for \<open>0 \<le> a\<close> and \<open>0 \<le> b\<close>.\<close>

definition slice :: "'a list \<Rightarrow> nat \<Rightarrow> nat \<Rightarrow> 'a list" where
  "slice s a b = take (b - a) (drop a s)"

text \<open>\<open>s.startsWith(p, i)\<close>.\<close>

definition starts_with_at :: "'a list \<Rightarrow> 'a list \<Rightarrow> nat \<Rightarrow> bool" where
  "starts_with_at s p i = (take (length p) (drop i s) = p)"

definition starts_with :: "'a list \<Rightarrow> 'a list \<Rightarrow> bool" where
  "starts_with s p = (take (length p) s = p)"

lemma slice_full [simp]: "slice s 0 (length s) = s"
  by (simp add: slice_def)

lemma length_slice: "b \<le> length s \<Longrightarrow> length (slice s a b) = b - a"
  by (simp add: slice_def)

lemma starts_with_append [simp]: "starts_with (p @ s) p"
  by (simp add: starts_with_def)

lemma starts_with_length: "starts_with s p \<Longrightarrow> length p \<le> length s"
  by (metis length_take min.cobounded1 starts_with_def)

lemma starts_with_iff: "starts_with s p \<longleftrightarrow> (\<exists>t. s = p @ t)"
  by (metis append_eq_conv_conj append_take_drop_id starts_with_def)

text \<open>\<open>xs[i]\<close> of an array or string: \<open>undefined\<close> outside the bounds.\<close>

definition nth_opt :: "'a list \<Rightarrow> nat \<Rightarrow> 'a option" where
  "nth_opt xs i = (if i < length xs then Some (xs ! i) else None)"

lemma nth_opt_Some: "nth_opt xs i = Some x \<longleftrightarrow> i < length xs \<and> xs ! i = x"
  by (auto simp: nth_opt_def)

lemma nth_opt_None [simp]: "length xs \<le> i \<Longrightarrow> nth_opt xs i = None"
  by (simp add: nth_opt_def)

lemma nth_opt_less [simp]: "i < length xs \<Longrightarrow> nth_opt xs i = Some (xs ! i)"
  by (simp add: nth_opt_def)

subsection \<open>White space and trimming\<close>

text \<open>What \<open>String.prototype.trim\<close> and the regular expression class \<open>\s\<close> call white space.\<close>

definition is_js_space :: "nat \<Rightarrow> bool" where
  "is_js_space c = ((9 \<le> c \<and> c \<le> 13) \<or> c = 32 \<or> c = 160 \<or> c = 0x1680 \<or>
     (0x2000 \<le> c \<and> c \<le> 0x200A) \<or> c = 0x2028 \<or> c = 0x2029 \<or> c = 0x202F \<or>
     c = 0x205F \<or> c = 0x3000 \<or> c = 0xFEFF)"

definition trim_start :: "jstring \<Rightarrow> jstring" where
  "trim_start s = dropWhile is_js_space s"

definition trim_end :: "jstring \<Rightarrow> jstring" where
  "trim_end s = rev (dropWhile is_js_space (rev s))"

definition trim :: "jstring \<Rightarrow> jstring" where
  "trim s = trim_end (trim_start s)"

lemma trim_end_Nil_iff: "trim_end s = [] \<longleftrightarrow> (\<forall>c\<in>set s. is_js_space c)"
  by (simp add: trim_end_def)

lemma trim_start_Nil_iff: "trim_start s = [] \<longleftrightarrow> (\<forall>c\<in>set s. is_js_space c)"
  by (simp add: trim_start_def)

lemma trim_Nil_iff: "trim s = [] \<longleftrightarrow> (\<forall>c\<in>set s. is_js_space c)"
proof
  assume "trim s = []"
  then have dw: "\<forall>c\<in>set (dropWhile is_js_space s). is_js_space c"
    by (simp add: trim_def trim_end_Nil_iff trim_start_def)
  have "dropWhile is_js_space s = []"
    using dw hd_dropWhile[of is_js_space s] by (cases "dropWhile is_js_space s") auto
  then show "\<forall>c\<in>set s. is_js_space c" by simp
next
  assume "\<forall>c\<in>set s. is_js_space c"
  then show "trim s = []"
    by (auto simp: trim_def trim_end_Nil_iff trim_start_def dest: set_dropWhileD)
qed

subsection \<open>Splitting and joining lines\<close>

text \<open>\<open>s.split("\n")\<close> and \<open>lines.join("\n")\<close>.\<close>

abbreviation (input) LF :: nat where "LF \<equiv> 10"
abbreviation (input) CR :: nat where "CR \<equiv> 13"

fun split_on :: "'a \<Rightarrow> 'a list \<Rightarrow> 'a list list" where
  "split_on d [] = [[]]"
| "split_on d (c # cs) =
     (if c = d then [] # split_on d cs
      else (case split_on d cs of [] \<Rightarrow> [[c]] | l # ls \<Rightarrow> (c # l) # ls))"

fun join_with :: "'a list \<Rightarrow> 'a list list \<Rightarrow> 'a list" where
  "join_with d [] = []"
| "join_with d [l] = l"
| "join_with d (l # ls) = l @ d @ join_with d ls"

abbreviation split_lines :: "jstring \<Rightarrow> jstring list" where
  "split_lines \<equiv> split_on LF"

abbreviation join_lines :: "jstring list \<Rightarrow> jstring" where
  "join_lines \<equiv> join_with [LF]"

lemma split_on_not_Nil [simp]: "split_on d s \<noteq> []"
  by (cases s) (auto split: list.splits)

lemma length_split_on_pos [simp]: "0 < length (split_on d s)"
  by simp

lemma split_on_no_sep: "l \<in> set (split_on d s) \<Longrightarrow> d \<notin> set l"
proof (induction s arbitrary: l)
  case Nil
  then show ?case by simp
next
  case (Cons c cs)
  then show ?case
    by (cases "split_on d cs") (auto split: if_splits)
qed

lemma join_with_Cons:
  "ls \<noteq> [] \<Longrightarrow> join_with d (l # ls) = l @ d @ join_with d ls"
  by (cases ls) auto

lemma join_split: "join_with [d] (split_on d s) = s"
proof (induction s)
  case Nil
  then show ?case by simp
next
  case (Cons c cs)
  then show ?case
    by (cases "split_on d cs"; cases "tl (split_on d cs)") (auto simp: join_with_Cons)
qed

lemma split_on_append_sep:
  "d \<notin> set l \<Longrightarrow> split_on d (l @ d # s) = l # split_on d s"
  by (induction l) auto

lemma split_on_none: "d \<notin> set l \<Longrightarrow> split_on d l = [l]"
  by (induction l) auto

lemma split_join:
  "ls \<noteq> [] \<Longrightarrow> (\<forall>l\<in>set ls. d \<notin> set l) \<Longrightarrow> split_on d (join_with [d] ls) = ls"
proof (induction ls)
  case Nil
  then show ?case by simp
next
  case (Cons l ls)
  then show ?case
    by (cases ls) (auto simp: split_on_append_sep split_on_none)
qed

lemma split_lines_append:
  "split_on d (a @ b) = butlast (split_on d a) @ split_on d (last (split_on d a) @ b)"
proof (induction a)
  case (Cons c a)
  show ?case
  proof (cases "split_on d a")
    case (Cons l ls)
    show ?thesis
    proof (cases "ls = []")
      case True
      then have "split_on d (a @ b) = split_on d (l @ b)" using Cons.IH Cons by simp
      then show ?thesis using Cons True by simp
    next
      case False
      then have "split_on d (a @ b) = l # butlast ls @ split_on d (last ls @ b)"
        using Cons.IH Cons by simp
      then show ?thesis using Cons False by simp
    qed
  qed simp
qed simp

lemma last_split_snoc: "last (split_on d (s @ [d])) = []"
proof -
  have "d \<notin> set (last (split_on d s))" by (rule split_on_no_sep [of _ _ s]) simp
  then have "split_on d (last (split_on d s) @ [d]) = [last (split_on d s), []]"
    using split_on_append_sep [of d "last (split_on d s)" "[]"] by simp
  then show ?thesis using split_lines_append [of d s "[d]"] by simp
qed

lemma set_join_lines: "set (join_with [d] ls) \<subseteq> insert d (\<Union>l\<in>set ls. set l)"
proof (induction ls)
  case (Cons l ls)
  then show ?case by (cases ls) auto
qed simp

subsection \<open>Decimal numerals\<close>

text \<open>The text \<open>`${n}`\<close> of a natural number, and its value read digit by digit.\<close>

fun dec :: "nat \<Rightarrow> jstring" where
  "dec n = (if n < 10 then [48 + n] else dec (n div 10) @ [48 + n mod 10])"

declare dec.simps [simp del]

definition dec_value :: "jstring \<Rightarrow> nat" where
  "dec_value s = foldl (\<lambda>v c. v * 10 + (c - 48)) 0 s"

definition is_digit :: "nat \<Rightarrow> bool" where
  "is_digit c = (48 \<le> c \<and> c \<le> 57)"

lemma dec_not_Nil [simp]: "dec n \<noteq> []"
  by (subst dec.simps) simp

lemma dec_digits: "\<forall>c\<in>set (dec n). is_digit c"
proof (induction n rule: dec.induct)
  case (1 n)
  have "n mod 10 < 10" by simp
  with 1 show ?case
    by (subst dec.simps) (auto simp: is_digit_def)
qed

lemma dec_value_dec [simp]: "dec_value (dec n) = n"
proof (induction n rule: dec.induct)
  case (1 n)
  then show ?case
    by (subst dec.simps) (auto simp: dec_value_def)
qed

lemma hd_dec_pos: "0 < n \<Longrightarrow> 48 < hd (dec n)"
proof (induction n rule: dec.induct)
  case (1 n)
  show ?case
  proof (cases "n < 10")
    case True
    then show ?thesis using 1 by (simp add: dec.simps [of n])
  next
    case False
    with 1 have "48 < hd (dec (n div 10))" by simp
    with False show ?thesis by (subst dec.simps) simp
  qed
qed

section \<open>Results\<close>

text \<open>
  A function that throws returns \<open>Inl\<close> of the error; a function that returns normally
  returns \<open>Inr\<close> of the value.
\<close>

definition rbind :: "'e + 'a \<Rightarrow> ('a \<Rightarrow> 'e + 'b) \<Rightarrow> 'e + 'b" where
  "rbind m f = (case m of Inl e \<Rightarrow> Inl e | Inr x \<Rightarrow> f x)"

lemma rbind_simps [simp, res_simps]:
  "rbind (Inl e) f = Inl e"
  "rbind (Inr x) f = f x"
  by (simp_all add: rbind_def)

lemma rbind_Inr_iff: "rbind m f = Inr y \<longleftrightarrow> (\<exists>x. m = Inr x \<and> f x = Inr y)"
  by (cases m) auto

lemma rbind_Inl_iff:
  "rbind m f = Inl e \<longleftrightarrow> m = Inl e \<or> (\<exists>x. m = Inr x \<and> f x = Inl e)"
  by (cases m) auto

lemma rbind_assoc: "rbind (rbind m f) g = rbind m (\<lambda>x. rbind (f x) g)"
  by (cases m) auto

text \<open>A loop whose body can throw: the first error ends it.\<close>

fun rfold :: "('s \<Rightarrow> 'a \<Rightarrow> 'e + 's) \<Rightarrow> 's \<Rightarrow> 'a list \<Rightarrow> 'e + 's" where
  "rfold f s [] = Inr s"
| "rfold f s (x # xs) = rbind (f s x) (\<lambda>s'. rfold f s' xs)"

fun rmap :: "('a \<Rightarrow> 'e + 'b) \<Rightarrow> 'a list \<Rightarrow> 'e + 'b list" where
  "rmap f [] = Inr []"
| "rmap f (x # xs) = rbind (f x) (\<lambda>y. rbind (rmap f xs) (\<lambda>ys. Inr (y # ys)))"

lemma rfold_append: "rfold f s (xs @ ys) = rbind (rfold f s xs) (\<lambda>s'. rfold f s' ys)"
  by (induction xs arbitrary: s) (auto simp: rbind_assoc)

lemma rfold_invariant:
  assumes "\<And>s x s'. P s \<Longrightarrow> x \<in> set xs \<Longrightarrow> f s x = Inr s' \<Longrightarrow> P s'"
    and "P s" and "rfold f s xs = Inr s'"
  shows "P s'"
  using assms
proof (induction xs arbitrary: s)
  case Nil
  then show ?case by simp
next
  case (Cons x xs)
  from Cons.prems(3) obtain s1 where s1: "f s x = Inr s1" "rfold f s1 xs = Inr s'"
    by (auto simp: rbind_Inr_iff)
  have "P s1" using Cons.prems(1) [of s x s1] Cons.prems(2) s1(1) by simp
  moreover have "\<And>s y s'. P s \<Longrightarrow> y \<in> set xs \<Longrightarrow> f s y = Inr s' \<Longrightarrow> P s'"
    using Cons.prems(1) by (meson list.set_intros(2))
  ultimately show ?case using Cons.IH s1(2) by blast
qed

lemma rmap_Inr_length: "rmap f xs = Inr ys \<Longrightarrow> length ys = length xs"
  by (induction xs arbitrary: ys) (auto simp: rbind_Inr_iff)

lemma rmap_Inr_map: "rmap f xs = Inr ys \<Longrightarrow> map f xs = map Inr ys"
  by (induction xs arbitrary: ys) (auto simp: rbind_Inr_iff)

section \<open>Insertion-ordered maps and sets\<close>

text \<open>
  A JavaScript \<open>Map\<close> keeps its keys in the order of their first insertion and \<open>set\<close> on an
  existing key keeps the position: this is \<^const>\<open>AList.update\<close> on association lists.
  A \<open>Set\<close> is a list without duplicates that \<open>add\<close> extends at the end.
\<close>

definition map_get :: "('k \<times> 'v) list \<Rightarrow> 'k \<Rightarrow> 'v option" where
  "map_get m k = map_of m k"

definition map_set :: "('k \<times> 'v) list \<Rightarrow> 'k \<Rightarrow> 'v \<Rightarrow> ('k \<times> 'v) list" where
  "map_set m k v = AList.update k v m"

definition map_keys :: "('k \<times> 'v) list \<Rightarrow> 'k list" where
  "map_keys m = map fst m"

definition set_add :: "'a list \<Rightarrow> 'a \<Rightarrow> 'a list" where
  "set_add xs x = (if x \<in> set xs then xs else xs @ [x])"

lemma map_get_set: "map_get (map_set m k v) = (map_get m)(k \<mapsto> v)"
  by (auto simp: map_get_def map_set_def update_conv)

lemma map_get_set_same [simp]: "map_get (map_set m k v) k = Some v"
  by (simp add: map_get_set)

lemma map_get_set_other [simp]: "k \<noteq> k' \<Longrightarrow> map_get (map_set m k v) k' = map_get m k'"
  by (simp add: map_get_set)

lemma distinct_map_set: "distinct (map_keys m) \<Longrightarrow> distinct (map_keys (map_set m k v))"
  by (simp add: map_keys_def map_set_def distinct_update)

lemma keys_map_set_mem: "k \<in> set (map_keys m) \<Longrightarrow> map_keys (map_set m k v) = map_keys m"
  by (simp add: map_keys_def map_set_def update_keys)

lemma keys_map_set_new: "k \<notin> set (map_keys m) \<Longrightarrow> map_set m k v = m @ [(k, v)]"
  by (induction m) (auto simp: map_keys_def map_set_def)

lemma keys_map_set_set: "set (map_keys (map_set m k v)) = insert k (set (map_keys m))"
  by (simp add: map_keys_def map_set_def dom_update)

lemma set_set_add [simp]: "set (set_add xs x) = insert x (set xs)"
  by (auto simp: set_add_def)

lemma foldl_set_add: "set (foldl set_add xs ys) = set xs \<union> set ys"
  by (induction ys arbitrary: xs) auto

lemma distinct_set_add: "distinct xs \<Longrightarrow> distinct (set_add xs x)"
  by (simp add: set_add_def)

section \<open>Scanning forward while a predicate holds\<close>

text \<open>\<open>while (i < e \<and> p(s[i])) i++\<close>: the loop under most hand-written scanners.\<close>

function scan_while :: "('a \<Rightarrow> bool) \<Rightarrow> 'a list \<Rightarrow> nat \<Rightarrow> nat \<Rightarrow> nat" where
  "scan_while p s i e = (if i < e \<and> p (s ! i) then scan_while p s (Suc i) e else i)"
  by pat_completeness auto
termination
  by (relation "measure (\<lambda>(p, s, i, e). e - i)") auto

declare scan_while.simps [simp del]

lemma scan_while_eq:
  "e \<le> length s \<Longrightarrow> i \<le> e \<Longrightarrow>
   scan_while p s i e = i + length (takeWhile p (slice s i e))"
proof (induction p s i e rule: scan_while.induct)
  case (1 p s i e)
  show ?case
  proof (cases "i < e")
    case False
    then show ?thesis
      by (simp add: scan_while.simps [of p s i e] slice_def)
  next
    case True
    have sl: "slice s i e = s ! i # slice s (Suc i) e"
      using True 1(2) by (simp add: slice_def Cons_nth_drop_Suc [symmetric] take_Cons' )
    show ?thesis
      using 1 True by (simp add: scan_while.simps [of p s i e] sl)
  qed
qed

lemma scan_while_ge: "i \<le> scan_while p s i e"
proof (induction p s i e rule: scan_while.induct)
  case (1 p s i e)
  then show ?case by (auto simp: scan_while.simps [of p s i e])
qed

lemma scan_while_le: "i \<le> e \<Longrightarrow> scan_while p s i e \<le> e"
proof (induction p s i e rule: scan_while.induct)
  case (1 p s i e)
  then show ?case by (auto simp: scan_while.simps [of p s i e])
qed

lemma scan_while_stop:
  "scan_while p s i e < e \<Longrightarrow> \<not> p (s ! scan_while p s i e)"
proof (induction p s i e rule: scan_while.induct)
  case (1 p s i e)
  then show ?case
    by (cases "i < e \<and> p (s ! i)") (auto simp: scan_while.simps [of p s i e])
qed

lemma scan_while_all:
  "i \<le> k \<Longrightarrow> k < scan_while p s i e \<Longrightarrow> p (s ! k)"
proof (induction p s i e rule: scan_while.induct)
  case (1 p s i e)
  show ?case
  proof (cases "i < e \<and> p (s ! i)")
    case True
    with 1 have "i < k \<Longrightarrow> p (s ! k)"
      by (auto simp: scan_while.simps [of p s i e])
    with True 1(2) show ?thesis by (cases "i = k") auto
  next
    case False
    with 1 show ?thesis by (simp add: scan_while.simps [of p s i e])
  qed
qed

lemma scan_while_stay: "i < e \<Longrightarrow> \<not> p (s ! i) \<Longrightarrow> scan_while p s i e = i"
  by (simp add: scan_while.simps)

lemma scan_while_end [simp]: "scan_while p s e e = e"
  by (simp add: scan_while.simps)

end
