(* ===== verification/Tool_Choice.thy ===== *)
theory Tool_Choice
  imports Prelude
begin

text \<open>
  The tool choices an agent session forces on the calls of the model:
  \<open>packages/coding-agent/src/session/tool-choice-queue.ts\<close>, the places of \<open>agent-session.ts\<close> that
  drive the queue, \<open>utils/tool-choice.ts\<close>, and \<open>tools/resolve.ts\<close>, whose previews wait in the queue.
  An iterator is the list of the values it has still to yield, which is what the sources push
  (\<open>onceGen\<close> and arrays); the callbacks answer without using the queue.  What they are called
  with is kept as a log.
\<close>

section \<open>Tool choices\<close>

datatype tool_choice =
    ChAuto
  | ChNone
  | ChAny
  | ChRequired
  | ChFunction jstring
  | ChFunctionObject jstring
  | ChTool jstring

text \<open>\<open>typeof choice === "string"\<close>.\<close>

fun is_mode :: "tool_choice \<Rightarrow> bool" where
  "is_mode (ChFunction _) = False"
| "is_mode (ChFunctionObject _) = False"
| "is_mode (ChTool _) = False"
| "is_mode _ = True"

text \<open>The model is given by its \<open>api\<close>.\<close>

definition buildNamedToolChoice :: "jstring \<Rightarrow> jstring option \<Rightarrow> tool_choice option" where
  "buildNamedToolChoice toolName model =
     (case model of
        None \<Rightarrow> None
      | Some api \<Rightarrow>
          if api \<in> {js ''anthropic-messages'', js ''bedrock-converse-stream''} then Some (ChTool toolName)
          else if api \<in> {js ''openai-codex-responses'', js ''openai-responses'', js ''openai-completions'',
              js ''azure-openai-responses''} then Some (ChFunction toolName)
          else if api = js ''ollama-chat'' then Some (ChFunction toolName)
          else if api \<in> {js ''google-generative-ai'', js ''google-gemini-cli'', js ''google-vertex''} then Some ChRequired
          else None)"

section \<open>The queue\<close>

datatype reject_reason = RejAborted | RejError | RejCleared | RejRemoved

datatype reject_outcome = Requeue | DropYield

record ('h, 'f) callbacks =
  cb_onResolved :: "'h option"
  cb_onRejected :: "(tool_choice \<Rightarrow> reject_reason \<Rightarrow> reject_outcome option) option"
  cb_onInvoked :: "'f option"

record ('h, 'f) directive =
  td_generator :: "tool_choice list"
  td_label :: jstring
  td_callbacks :: "('h, 'f) callbacks"

record ('h, 'f) push_options =
  po_now :: bool
  po_label :: "jstring option"
  po_callbacks :: "('h, 'f) callbacks"

datatype 'h fired = FiredResolved 'h tool_choice | FiredRejected tool_choice reject_reason

record ('h, 'f) choice_queue =
  tq_queue :: "('h, 'f) directive list"
  tq_inFlight :: "(('h, 'f) directive \<times> tool_choice) option"
  tq_lastResolvedLabel :: "jstring option"
  tq_fired :: "'h fired list"

definition queue_new :: "('h, 'f) choice_queue" where
  "queue_new = \<lparr>tq_queue = [], tq_inFlight = None, tq_lastResolvedLabel = None, tq_fired = []\<rparr>"

definition push_choices :: "tool_choice list \<Rightarrow> ('h, 'f) push_options \<Rightarrow> ('h, 'f) choice_queue \<Rightarrow> ('h, 'f) choice_queue" where
  "push_choices generator options q =
     (let d = \<lparr>td_generator = generator,
               td_label = (case po_label options of Some l \<Rightarrow> l | None \<Rightarrow> js ''anonymous''),
               td_callbacks = po_callbacks options\<rparr>
      in if po_now options then q\<lparr>tq_queue := d # tq_queue q\<rparr>
         else q\<lparr>tq_queue := tq_queue q @ [d]\<rparr>)"

definition pushOnce :: "tool_choice \<Rightarrow> ('h, 'f) push_options \<Rightarrow> ('h, 'f) choice_queue \<Rightarrow> ('h, 'f) choice_queue" where
  "pushOnce choice = push_choices [choice]"

definition pushSequence :: "tool_choice list \<Rightarrow> ('h, 'f) push_options \<Rightarrow> ('h, 'f) choice_queue \<Rightarrow> ('h, 'f) choice_queue" where
  "pushSequence choices = push_choices choices"

text \<open>
  The loop of \<open>nextToolChoice\<close>: exhausted directives are taken off the head.  The directive in
  flight is only read for its label and callbacks, so that it is kept as it was.
\<close>

fun advance :: "('h, 'f) directive list \<Rightarrow> (('h, 'f) directive \<times> tool_choice) option \<times> ('h, 'f) directive list" where
  "advance [] = (None, [])"
| "advance (d # ds) =
     (case td_generator d of
        [] \<Rightarrow> advance ds
      | c # cs \<Rightarrow> (Some (d, c), d\<lparr>td_generator := cs\<rparr> # ds))"

definition nextToolChoice :: "('h, 'f) choice_queue \<Rightarrow> tool_choice option \<times> ('h, 'f) choice_queue" where
  "nextToolChoice q =
     (case advance (tq_queue q) of
        (None, ds) \<Rightarrow> (None, q\<lparr>tq_queue := ds\<rparr>)
      | (Some (d, c), ds) \<Rightarrow> (Some c, q\<lparr>tq_queue := ds, tq_inFlight := Some (d, c)\<rparr>))"

definition resolve_choice :: "('h, 'f) choice_queue \<Rightarrow> ('h, 'f) choice_queue" where
  "resolve_choice q =
     (case tq_inFlight q of
        None \<Rightarrow> q
      | Some (d, c) \<Rightarrow>
          q\<lparr>tq_inFlight := None, tq_lastResolvedLabel := Some (td_label d),
            tq_fired := tq_fired q @
              (case cb_onResolved (td_callbacks d) of None \<Rightarrow> [] | Some h \<Rightarrow> [FiredResolved h c])\<rparr>)"

definition requeued_label :: "jstring \<Rightarrow> jstring" where
  "requeued_label l = l @ js ''-requeued''"

definition reject_choice :: "reject_reason \<Rightarrow> ('h, 'f) choice_queue \<Rightarrow> ('h, 'f) choice_queue" where
  "reject_choice reason q =
     (case tq_inFlight q of
        None \<Rightarrow> q
      | Some (d, c) \<Rightarrow>
          (case cb_onRejected (td_callbacks d) of
             None \<Rightarrow> q\<lparr>tq_inFlight := None\<rparr>
           | Some f \<Rightarrow>
               q\<lparr>tq_inFlight := None, tq_fired := tq_fired q @ [FiredRejected c reason],
                 tq_queue :=
                   (if f c reason = Some Requeue
                    then \<lparr>td_generator = [c], td_label = requeued_label (td_label d),
                          td_callbacks = (td_callbacks d)\<lparr>cb_onResolved := None\<rparr>\<rparr> # tq_queue q
                    else tq_queue q)\<rparr>))"

definition hasInFlight :: "('h, 'f) choice_queue \<Rightarrow> bool" where
  "hasInFlight q = (tq_inFlight q \<noteq> None)"

definition peekInFlightInvoker :: "('h, 'f) choice_queue \<Rightarrow> 'f option" where
  "peekInFlightInvoker q =
     (case tq_inFlight q of None \<Rightarrow> None | Some (d, _) \<Rightarrow> cb_onInvoked (td_callbacks d))"

definition removeByLabel :: "jstring \<Rightarrow> ('h, 'f) choice_queue \<Rightarrow> ('h, 'f) choice_queue" where
  "removeByLabel label q =
     (let q1 = (case tq_inFlight q of
                  None \<Rightarrow> q
                | Some (d, _) \<Rightarrow> if td_label d = label then reject_choice RejRemoved q else q)
      in q1\<lparr>tq_queue := filter (\<lambda>d. td_label d \<noteq> label) (tq_queue q1)\<rparr>)"

definition clear_choices :: "('h, 'f) choice_queue \<Rightarrow> ('h, 'f) choice_queue" where
  "clear_choices q =
     (let q1 = (if hasInFlight q then reject_choice RejCleared q else q)
      in q1\<lparr>tq_queue := [], tq_lastResolvedLabel := None\<rparr>)"

definition consumeLastServedLabel :: "('h, 'f) choice_queue \<Rightarrow> jstring option \<times> ('h, 'f) choice_queue" where
  "consumeLastServedLabel q = (tq_lastResolvedLabel q, q\<lparr>tq_lastResolvedLabel := None\<rparr>)"

definition inspect :: "('h, 'f) choice_queue \<Rightarrow> jstring list" where
  "inspect q = map td_label (tq_queue q)"

section \<open>What the session does with the queue\<close>

definition requeue_always :: "tool_choice \<Rightarrow> reject_reason \<Rightarrow> reject_outcome option" where
  "requeue_always choice reason = Some Requeue"

definition no_callbacks :: "('h, 'f) callbacks" where
  "no_callbacks = \<lparr>cb_onResolved = None, cb_onRejected = None, cb_onInvoked = None\<rparr>"

definition force_options :: "('h, 'f) push_options" where
  "force_options = \<lparr>po_now = False, po_label = Some (js ''user-force''),
     po_callbacks = no_callbacks\<lparr>cb_onRejected := Some requeue_always\<rparr>\<rparr>"

definition setForcedToolChoice ::
  "jstring list \<Rightarrow> jstring option \<Rightarrow> jstring \<Rightarrow> ('h, 'f) choice_queue \<Rightarrow> jstring + ('h, 'f) choice_queue" where
  "setForcedToolChoice activeToolNames model toolName q =
     (if toolName \<notin> set activeToolNames
      then Inl (js ''Tool '' @ [34] @ toolName @ [34] @ js '' is not currently active.'')
      else case buildNamedToolChoice toolName model of
          None \<Rightarrow> Inl (js ''Current model does not support forcing a specific tool.'')
        | Some forced \<Rightarrow>
            if is_mode forced then Inl (js ''Current model does not support forcing a specific tool.'')
            else Inr (pushSequence [forced, ChNone] force_options q))"

datatype turn_stop = TurnAborted | TurnError | TurnServed

definition turn_end :: "turn_stop \<Rightarrow> ('h, 'f) choice_queue \<Rightarrow> ('h, 'f) choice_queue" where
  "turn_end stop q =
     (if hasInFlight q
      then (case stop of TurnAborted \<Rightarrow> reject_choice RejAborted q | TurnError \<Rightarrow> reject_choice RejError q
            | TurnServed \<Rightarrow> resolve_choice q)
      else q)"

definition abort_settle :: "('h, 'f) choice_queue \<Rightarrow> ('h, 'f) choice_queue" where
  "abort_settle q = (if hasInFlight q then reject_choice RejAborted q else q)"

definition eager_options :: "('h, 'f) push_options" where
  "eager_options = \<lparr>po_now = False, po_label = Some (js ''eager-todo''), po_callbacks = no_callbacks\<rparr>"

definition has_pending_user_directive :: "('h, 'f) choice_queue \<Rightarrow> bool" where
  "has_pending_user_directive q = (js ''user-force'' \<in> set (inspect q))"

section \<open>Previews that wait for a decision\<close>

datatype resolve_action = Apply | Discard

record resolve_params =
  rp_action :: resolve_action
  rp_reason :: jstring
  rp_extra :: "(jstring \<times> jstring) list option"

datatype tool_error = ToolErr jstring | OtherErr jstring

record 'd tool_payload =
  pl_content :: jstring
  pl_details :: "'d option"

record 'd resolve_details =
  rd_action :: resolve_action
  rd_reason :: jstring
  rd_sourceToolName :: jstring
  rd_label :: jstring
  rd_extra :: "(jstring \<times> jstring) list option"
  rd_sourceResultDetails :: "'d option"

text \<open>What a tool with a preview passes: its label and name and the functions that end the preview.\<close>

record 'd preview =
  pv_label :: jstring
  pv_sourceToolName :: jstring
  pv_apply :: "jstring \<Rightarrow> (jstring \<times> jstring) list option \<Rightarrow> tool_error + 'd tool_payload"
  pv_reject :: "(jstring \<Rightarrow> (jstring \<times> jstring) list option \<Rightarrow> tool_error + 'd tool_payload option) option"

record 'd tool_session =
  ts_queue :: "(unit, 'd preview) choice_queue option"
  ts_steered :: "jstring list"

text \<open>\<open>ts_steered\<close>: the tools whose reminder has been steered into the conversation.\<close>

definition steerReminder :: "'d preview \<Rightarrow> 'd tool_session \<Rightarrow> 'd tool_session" where
  "steerReminder options s = s\<lparr>ts_steered := ts_steered s @ [pv_sourceToolName options]\<rparr>"

definition preview_options :: "'d preview \<Rightarrow> (unit, 'd preview) push_options" where
  "preview_options options =
     \<lparr>po_now = True, po_label = Some (js ''pending-action:'' @ pv_sourceToolName options),
      po_callbacks = \<lparr>cb_onResolved = None, cb_onRejected = Some requeue_always, cb_onInvoked = Some options\<rparr>\<rparr>"

definition pushDirective :: "tool_choice \<Rightarrow> 'd preview \<Rightarrow> 'd tool_session \<Rightarrow> 'd tool_session" where
  "pushDirective forced options s = s\<lparr>ts_queue := map_option (pushOnce forced (preview_options options)) (ts_queue s)\<rparr>"

definition queueResolveHandler :: "tool_choice option \<Rightarrow> 'd preview \<Rightarrow> 'd tool_session \<Rightarrow> 'd tool_session" where
  "queueResolveHandler forced options s =
     (case (ts_queue s, forced) of
        (Some _, Some f) \<Rightarrow> if is_mode f then s else steerReminder options (pushDirective f options s)
      | _ \<Rightarrow> s)"

definition resolved_with :: "resolve_params \<Rightarrow> 'd preview \<Rightarrow> 'd tool_payload \<Rightarrow> 'd resolve_details tool_payload" where
  "resolved_with params options result =
     \<lparr>pl_content = pl_content result,
      pl_details = Some \<lparr>rd_action = rp_action params, rd_reason = rp_reason params,
        rd_sourceToolName = pv_sourceToolName options, rd_label = pv_label options,
        rd_extra = rp_extra params, rd_sourceResultDetails = pl_details result\<rparr>\<rparr>"

text \<open>
  The invocation of a preview, with its effect on the session when the application throws: the
  directive is pushed again and the reminder sent again.
\<close>

definition runResolveInvocation ::
  "tool_choice \<Rightarrow> resolve_params \<Rightarrow> 'd preview \<Rightarrow> 'd tool_session
    \<Rightarrow> (tool_error + 'd resolve_details tool_payload) \<times> 'd tool_session" where
  "runResolveInvocation forced params options s =
     (case rp_action params of
        Apply \<Rightarrow>
          (case pv_apply options (rp_reason params) (rp_extra params) of
             Inr result \<Rightarrow> (Inr (resolved_with params options result), s)
           | Inl err \<Rightarrow>
               (Inl (case err of ToolErr m \<Rightarrow> ToolErr m | OtherErr m \<Rightarrow> ToolErr (js ''Apply failed: '' @ m)),
                steerReminder options (pushDirective forced options s)))
      | Discard \<Rightarrow>
          (let discarded = resolved_with params options
                 \<lparr>pl_content = js ''Discarded: '' @ pv_label options @ js ''. Reason: '' @ rp_reason params,
                  pl_details = None\<rparr>
           in case pv_reject options of
                None \<Rightarrow> (Inr discarded, s)
              | Some reject \<Rightarrow>
                  (case reject (rp_reason params) (rp_extra params) of
                     Inl err \<Rightarrow> (Inl err, s)
                   | Inr None \<Rightarrow> (Inr discarded, s)
                   | Inr (Some result) \<Rightarrow> (Inr (resolved_with params options result), s))))"

text \<open>
  The \<open>resolve\<close> tool, for a signal that is not aborted: the handler in flight, or else the
  standing one, is a preview (\<open>forced\<close>: the choice it was pushed with).
\<close>

definition resolve_execute ::
  "tool_choice \<Rightarrow> 'd preview option \<Rightarrow> resolve_params \<Rightarrow> 'd tool_session
    \<Rightarrow> (tool_error + 'd resolve_details tool_payload) \<times> 'd tool_session" where
  "resolve_execute forced standing params s =
     (case (case ts_queue s of None \<Rightarrow> None | Some q \<Rightarrow> peekInFlightInvoker q) of
        Some options \<Rightarrow> runResolveInvocation forced params options s
      | None \<Rightarrow>
          (case standing of
             Some options \<Rightarrow>
               (fst (runResolveInvocation forced params options s), s)
           | None \<Rightarrow> (Inl (ToolErr (js ''No pending action to resolve. Nothing to apply or discard.'')), s)))"

section \<open>The abstract queue\<close>

text \<open>
  What the queue promises: the values are served first in first out, those pushed with \<open>now\<close>
  and those that are requeued before all others, each with the label and the callbacks of its
  directive.
\<close>

type_synonym ('h, 'f) choice_item = "jstring \<times> ('h, 'f) callbacks \<times> tool_choice"

record ('h, 'f) choice_fifo =
  fq_items :: "('h, 'f) choice_item list"
  fq_inFlight :: "('h, 'f) choice_item option"
  fq_served :: "jstring option"
  fq_fired :: "'h fired list"

definition items_of :: "('h, 'f) directive \<Rightarrow> ('h, 'f) choice_item list" where
  "items_of d = map (\<lambda>c. (td_label d, td_callbacks d, c)) (td_generator d)"

text \<open>The values of all directives in order.\<close>

definition all_items :: "('h, 'f) directive list \<Rightarrow> ('h, 'f) choice_item list" where
  "all_items ds = concat (map items_of ds)"

definition fifo_of :: "('h, 'f) choice_queue \<Rightarrow> ('h, 'f) choice_fifo" where
  "fifo_of q =
     \<lparr>fq_items = all_items (tq_queue q),
      fq_inFlight = map_option (\<lambda>(d, c). (td_label d, td_callbacks d, c)) (tq_inFlight q),
      fq_served = tq_lastResolvedLabel q, fq_fired = tq_fired q\<rparr>"

datatype ('h, 'f) choice_op =
    PushOp "tool_choice list" "('h, 'f) push_options"
  | NextOp
  | TurnEndOp turn_stop
  | AbortOp
  | RemoveOp jstring
  | ClearOp
  | ServedOp
  | PeekOp

datatype 'f queue_out = Quiet | Choice "tool_choice option" | Served "jstring option" | Invoker "'f option"

definition queue_do :: "('h, 'f) choice_op \<Rightarrow> ('h, 'f) choice_queue \<Rightarrow> 'f queue_out \<times> ('h, 'f) choice_queue" where
  "queue_do op q =
     (case op of
        PushOp choices options \<Rightarrow> (Quiet, push_choices choices options q)
      | NextOp \<Rightarrow> map_prod Choice id (nextToolChoice q)
      | TurnEndOp stop \<Rightarrow> (Quiet, turn_end stop q)
      | AbortOp \<Rightarrow> (Quiet, abort_settle q)
      | RemoveOp label \<Rightarrow> (Quiet, removeByLabel label q)
      | ClearOp \<Rightarrow> (Quiet, clear_choices q)
      | ServedOp \<Rightarrow> map_prod Served id (consumeLastServedLabel q)
      | PeekOp \<Rightarrow> (Invoker (peekInFlightInvoker q), q))"

definition fifo_reject :: "reject_reason \<Rightarrow> ('h, 'f) choice_fifo \<Rightarrow> ('h, 'f) choice_fifo" where
  "fifo_reject reason s =
     (case fq_inFlight s of
        None \<Rightarrow> s
      | Some (l, cb, c) \<Rightarrow>
          (case cb_onRejected cb of
             None \<Rightarrow> s\<lparr>fq_inFlight := None\<rparr>
           | Some f \<Rightarrow>
               s\<lparr>fq_inFlight := None, fq_fired := fq_fired s @ [FiredRejected c reason],
                 fq_items := (if f c reason = Some Requeue
                    then [(requeued_label l, cb\<lparr>cb_onResolved := None\<rparr>, c)] else []) @ fq_items s\<rparr>))"

definition fifo_resolve :: "('h, 'f) choice_fifo \<Rightarrow> ('h, 'f) choice_fifo" where
  "fifo_resolve s =
     (case fq_inFlight s of
        None \<Rightarrow> s
      | Some (l, cb, c) \<Rightarrow>
          s\<lparr>fq_inFlight := None, fq_served := Some l,
            fq_fired := fq_fired s @ (case cb_onResolved cb of None \<Rightarrow> [] | Some h \<Rightarrow> [FiredResolved h c])\<rparr>)"

definition fifo_do :: "('h, 'f) choice_op \<Rightarrow> ('h, 'f) choice_fifo \<Rightarrow> 'f queue_out \<times> ('h, 'f) choice_fifo" where
  "fifo_do op s =
     (case op of
        PushOp choices options \<Rightarrow>
          (let new = map (\<lambda>c. (case po_label options of Some l \<Rightarrow> l | None \<Rightarrow> js ''anonymous'', po_callbacks options, c)) choices
           in (Quiet, s\<lparr>fq_items := (if po_now options then new @ fq_items s else fq_items s @ new)\<rparr>))
      | NextOp \<Rightarrow>
          (case fq_items s of
             [] \<Rightarrow> (Choice None, s)
           | (l, cb, c) # rest \<Rightarrow> (Choice (Some c), s\<lparr>fq_items := rest, fq_inFlight := Some (l, cb, c)\<rparr>))
      | TurnEndOp stop \<Rightarrow>
          (Quiet, case stop of TurnAborted \<Rightarrow> fifo_reject RejAborted s | TurnError \<Rightarrow> fifo_reject RejError s
                  | TurnServed \<Rightarrow> fifo_resolve s)
      | AbortOp \<Rightarrow> (Quiet, fifo_reject RejAborted s)
      | RemoveOp label \<Rightarrow>
          (let s1 = (case fq_inFlight s of None \<Rightarrow> s
                     | Some (l, _, _) \<Rightarrow> if l = label then fifo_reject RejRemoved s else s)
           in (Quiet, s1\<lparr>fq_items := filter (\<lambda>(l, _, _). l \<noteq> label) (fq_items s1)\<rparr>))
      | ClearOp \<Rightarrow> (Quiet, (fifo_reject RejCleared s)\<lparr>fq_items := [], fq_served := None\<rparr>)
      | ServedOp \<Rightarrow> (Served (fq_served s), s\<lparr>fq_served := None\<rparr>)
      | PeekOp \<Rightarrow>
          (Invoker (case fq_inFlight s of None \<Rightarrow> None | Some (_, cb, _) \<Rightarrow> cb_onInvoked cb), s))"

section \<open>Runs\<close>

fun run_ops :: "('op \<Rightarrow> 's \<Rightarrow> 'out \<times> 's) \<Rightarrow> 'op list \<Rightarrow> 's \<Rightarrow> 'out list \<times> 's" where
  "run_ops f [] s = ([], s)"
| "run_ops f (x # xs) s = (let (out, s1) = f x s; (outs, s2) = run_ops f xs s1 in (out # outs, s2))"

lemma run_ops_append:
  "run_ops f (xs @ ys) s =
     (fst (run_ops f xs s) @ fst (run_ops f ys (snd (run_ops f xs s))), snd (run_ops f ys (snd (run_ops f xs s))))"
  by (induction xs arbitrary: s) (simp_all add: Let_def split_beta)

text \<open>An implementation whose single operations agree with an abstract machine agrees with it in every run.\<close>

locale functional_refinement =
  fixes step :: "'op \<Rightarrow> 's \<Rightarrow> 'out \<times> 's"
    and astep :: "'op \<Rightarrow> 'a \<Rightarrow> 'out \<times> 'a"
    and abstraction :: "'s \<Rightarrow> 'a"
  assumes simulates: "astep op (abstraction s) = map_prod id abstraction (step op s)"
begin

lemma run_simulates: "run_ops astep ops (abstraction s) = map_prod id abstraction (run_ops step ops s)"
  by (induction ops arbitrary: s) (simp_all add: simulates Let_def split_beta)

end

lemma items_of_generator [simp]: "items_of (d\<lparr>td_generator := cs\<rparr>) = map (\<lambda>c. (td_label d, td_callbacks d, c)) cs"
  by (simp add: items_of_def)

lemma all_items_simps [simp]:
  "all_items [] = []" "all_items (d # ds) = items_of d @ all_items ds" "all_items (ds @ es) = all_items ds @ all_items es"
  by (simp_all add: all_items_def)

lemma advance_items:
  "advance ds = (taken, rest) \<Longrightarrow>
   (case all_items ds of
      [] \<Rightarrow> taken = None \<and> all_items rest = []
    | (l, cb, c) # xs \<Rightarrow> (\<exists>d. taken = Some (d, c) \<and> td_label d = l \<and> td_callbacks d = cb) \<and> all_items rest = xs)"
  by (induction ds arbitrary: taken rest rule: advance.induct) (auto simp: items_of_def split: list.splits)

lemma filter_items:
  "all_items (filter (\<lambda>d. td_label d \<noteq> label) ds) = filter (\<lambda>(l, _, _). l \<noteq> label) (all_items ds)"
  by (induction ds) (auto simp: items_of_def filter_map o_def)

lemma fifo_in_flight: "fq_inFlight (fifo_of q) = map_option (\<lambda>(d, c). (td_label d, td_callbacks d, c)) (tq_inFlight q)"
  by (simp add: fifo_of_def)

lemma fifo_of_reject: "fifo_reject reason (fifo_of q) = fifo_of (reject_choice reason q)"
  by (auto simp: fifo_reject_def reject_choice_def fifo_of_def items_of_def split: option.splits)

lemma fifo_of_resolve: "fifo_resolve (fifo_of q) = fifo_of (resolve_choice q)"
  by (auto simp: fifo_resolve_def resolve_choice_def fifo_of_def split: option.splits)

lemma reject_nothing: "\<not> hasInFlight q \<Longrightarrow> reject_choice reason q = q"
  by (cases "tq_inFlight q") (simp_all add: reject_choice_def hasInFlight_def)

lemma resolve_nothing: "\<not> hasInFlight q \<Longrightarrow> resolve_choice q = q"
  by (cases "tq_inFlight q") (simp_all add: resolve_choice_def hasInFlight_def)

lemma fifo_of_next: "fifo_do NextOp (fifo_of q) = map_prod id fifo_of (queue_do NextOp q)"
proof -
  obtain taken rest where a: "advance (tq_queue q) = (taken, rest)" by (cases "advance (tq_queue q)")
  show ?thesis
    using advance_items [OF a]
    by (cases "all_items (tq_queue q)") (auto simp: fifo_do_def queue_do_def nextToolChoice_def fifo_of_def a)
qed

lemma fifo_of_remove: "fifo_do (RemoveOp label) (fifo_of q) = map_prod id fifo_of (queue_do (RemoveOp label) q)"
proof -
  let ?q1 = "case tq_inFlight q of None \<Rightarrow> q | Some (d, _) \<Rightarrow> if td_label d = label then reject_choice RejRemoved q else q"
  have s1: "(case fq_inFlight (fifo_of q) of None \<Rightarrow> fifo_of q
         | Some (l, _, _) \<Rightarrow> if l = label then fifo_reject RejRemoved (fifo_of q) else fifo_of q) = fifo_of ?q1"
    by (cases "tq_inFlight q") (auto simp: fifo_of_reject fifo_in_flight)
  show ?thesis
    unfolding fifo_do_def queue_do_def removeByLabel_def choice_op.case Let_def s1
    by (simp add: filter_items fifo_of_def)
qed

lemma queue_simulates: "fifo_do op (fifo_of q) = map_prod id fifo_of (queue_do op q)"
proof (cases op)
  case (PushOp choices options)
  then show ?thesis
    by (simp add: fifo_do_def queue_do_def push_choices_def fifo_of_def Let_def items_of_def)
next
  case NextOp
  then show ?thesis by (simp add: fifo_of_next)
next
  case (TurnEndOp stop)
  then show ?thesis
    by (cases stop) (auto simp: fifo_do_def queue_do_def turn_end_def fifo_of_reject fifo_of_resolve
        reject_nothing resolve_nothing)
next
  case AbortOp
  then show ?thesis
    by (auto simp: fifo_do_def queue_do_def abort_settle_def fifo_of_reject reject_nothing)
next
  case (RemoveOp label)
  then show ?thesis by (simp add: fifo_of_remove)
next
  case ClearOp
  then show ?thesis
    by (auto simp: fifo_do_def queue_do_def clear_choices_def fifo_of_reject reject_nothing)
       (auto simp: fifo_of_def)
qed (auto simp: fifo_do_def queue_do_def consumeLastServedLabel_def peekInFlightInvoker_def fifo_of_def split: option.splits)

interpretation tool_choices: functional_refinement queue_do fifo_do fifo_of
  by unfold_locales (rule queue_simulates)

text \<open>
  C39: The queue of tool choices refines a queue of single values: over any sequence of pushes,
  turns, aborts, removals and clears it yields the same choices, labels and handlers as the
  abstract queue, in which a requeued value goes first and the values of a directive stay in
  order, and it fires the same callbacks.  The iterators are finite lists, and the callbacks do not
  use the queue.
\<close>

theorem queue_is_fifo: "map_prod id fifo_of (run_ops queue_do ops q) = run_ops fifo_do ops (fifo_of q)"
  by (rule tool_choices.run_simulates [symmetric])

section \<open>Consequences\<close>

lemma queue_outputs: "fst (run_ops queue_do ops q) = fst (run_ops fifo_do ops (fifo_of q))"
  by (simp add: tool_choices.run_simulates)

lemma queue_state: "fifo_of (snd (run_ops queue_do ops q)) = snd (run_ops fifo_do ops (fifo_of q))"
  by (simp add: tool_choices.run_simulates)

definition stop_of :: "bool \<Rightarrow> turn_stop" where
  "stop_of aborted = (if aborted then TurnAborted else TurnError)"

text \<open>The turns of a preview that end before the model has decided: each is aborted or fails.\<close>

definition lost_turns :: "bool list \<Rightarrow> ('h, 'f) choice_op list" where
  "lost_turns stops = concat (map (\<lambda>aborted. [NextOp, PeekOp, TurnEndOp (stop_of aborted)]) stops)"

definition reason_of :: "bool \<Rightarrow> reject_reason" where
  "reason_of aborted = (if aborted then RejAborted else RejError)"

lemma lost_turns_Cons:
  "lost_turns (aborted # stops) = [NextOp, PeekOp, TurnEndOp (stop_of aborted)] @ lost_turns stops"
  by (simp add: lost_turns_def)

lemma fifo_lost_turn:
  assumes "fq_items s = (l, cb, c) # rest" and "cb_onRejected cb = Some requeue_always"
  shows "run_ops fifo_do [NextOp, PeekOp, TurnEndOp (stop_of aborted)] s =
    ([Choice (Some c), Invoker (cb_onInvoked cb), Quiet],
     s\<lparr>fq_items := (requeued_label l, cb\<lparr>cb_onResolved := None\<rparr>, c) # rest, fq_inFlight := None,
       fq_fired := fq_fired s @ [FiredRejected c (reason_of aborted)]\<rparr>)"
  using assms by (simp add: fifo_do_def fifo_reject_def stop_of_def reason_of_def requeue_always_def)

lemma fifo_lost_turns:
  assumes "fq_items s = (l, cb, c) # rest" and "cb_onRejected cb = Some requeue_always" and "fq_inFlight s = None"
    and "cb_onResolved cb = None"
  shows "run_ops fifo_do (lost_turns stops) s =
    (concat (map (\<lambda>_. [Choice (Some c), Invoker (cb_onInvoked cb), Quiet]) stops),
     s\<lparr>fq_items := ((requeued_label ^^ length stops) l, cb, c) # rest,
       fq_fired := fq_fired s @ map (\<lambda>aborted. FiredRejected c (reason_of aborted)) stops\<rparr>)"
  using assms
proof (induction stops arbitrary: s l)
  case Nil
  then show ?case by (simp add: lost_turns_def)
next
  case (Cons aborted stops)
  have cb: "cb\<lparr>cb_onResolved := None\<rparr> = cb" using Cons.prems(4) by simp
  let ?s1 = "s\<lparr>fq_items := (requeued_label l, cb, c) # rest, fq_inFlight := None,
       fq_fired := fq_fired s @ [FiredRejected c (reason_of aborted)]\<rparr>"
  have "run_ops fifo_do (lost_turns stops) ?s1 =
    (concat (map (\<lambda>_. [Choice (Some c), Invoker (cb_onInvoked cb), Quiet]) stops),
     ?s1\<lparr>fq_items := ((requeued_label ^^ length stops) (requeued_label l), cb, c) # rest,
       fq_fired := fq_fired ?s1 @ map (\<lambda>aborted. FiredRejected c (reason_of aborted)) stops\<rparr>)"
    using Cons.prems by (intro Cons.IH) simp_all
  moreover have "run_ops fifo_do [NextOp, PeekOp, TurnEndOp (stop_of aborted)] s =
      ([Choice (Some c), Invoker (cb_onInvoked cb), Quiet], ?s1)"
    using fifo_lost_turn [OF Cons.prems(1,2), of aborted] by (simp only: cb)
  ultimately show ?case
    using Cons.prems(3) by (simp only: lost_turns_Cons run_ops_append) (simp add: funpow_swap1)
qed

text \<open>
  The turn in which the model decides about a preview: its call is forced, the \<open>resolve\<close> tool runs
  with the decision, and the turn ends.
\<close>

definition deciding_turn ::
  "tool_choice \<Rightarrow> 'd preview option \<Rightarrow> resolve_params \<Rightarrow> (unit, 'd preview) choice_queue \<Rightarrow> 'd tool_session
    \<Rightarrow> tool_choice option \<times> (tool_error + 'd resolve_details tool_payload) \<times> (unit, 'd preview) choice_queue option" where
  "deciding_turn forced standing params q s =
     (let (c, q1) = nextToolChoice q;
          (r, s1) = resolve_execute forced standing params (s\<lparr>ts_queue := Some q1\<rparr>)
      in (c, r, map_option (turn_end TurnServed) (ts_queue s1)))"

definition preview_item :: "tool_choice \<Rightarrow> 'd preview \<Rightarrow> (unit, 'd preview) choice_item" where
  "preview_item forced p =
     (js ''pending-action:'' @ pv_sourceToolName p, po_callbacks (preview_options p), forced)"

lemma preview_callbacks [simp]:
  "cb_onRejected (po_callbacks (preview_options p)) = Some requeue_always"
  "cb_onResolved (po_callbacks (preview_options p)) = None"
  "cb_onInvoked (po_callbacks (preview_options p)) = Some p"
  by (simp_all add: preview_options_def)

lemma fifo_of_turn_end:
  "fifo_of (turn_end stop q) = snd (fifo_do (TurnEndOp stop) (fifo_of q))"
  using queue_simulates [of "TurnEndOp stop" q] by (simp add: queue_do_def)

lemma peek_fifo:
  "peekInFlightInvoker q = (case fq_inFlight (fifo_of q) of None \<Rightarrow> None | Some (_, cb, _) \<Rightarrow> cb_onInvoked cb)"
  by (auto simp: peekInFlightInvoker_def fifo_in_flight split: option.splits)

lemma push_preview_items:
  "fifo_of (pushOnce forced (preview_options p) q) = (fifo_of q)\<lparr>fq_items := preview_item forced p # fq_items (fifo_of q)\<rparr>"
  by (simp add: pushOnce_def push_choices_def preview_options_def fifo_of_def preview_item_def items_of_def)

lemma served_items:
  "fq_items (fifo_of (turn_end TurnServed q)) = fq_items (fifo_of q)" "\<not> hasInFlight (turn_end TurnServed q)"
  by (auto simp: fifo_of_def turn_end_def resolve_choice_def hasInFlight_def split: option.splits)

lemma run_resolve_session:
  "ts_queue (snd (runResolveInvocation forced params p s)) =
     (if rp_action params = Apply \<and> isl (pv_apply p (rp_reason params) (rp_extra params))
      then map_option (pushOnce forced (preview_options p)) (ts_queue s) else ts_queue s)"
  by (auto simp: runResolveInvocation_def steerReminder_def pushDirective_def Let_def
      split: resolve_action.splits sum.splits option.splits)

lemma run_resolve_answer: "fst (runResolveInvocation forced params p s) = fst (runResolveInvocation forced params p s')"
  by (auto simp: runResolveInvocation_def Let_def split: resolve_action.splits sum.splits option.splits)

lemma next_item:
  fixes q :: "('h, 'f) choice_queue"
  assumes "fq_items (fifo_of q) = (l, cb, c) # rest"
  shows "fst (nextToolChoice q) = Some c" "fq_items (fifo_of (snd (nextToolChoice q))) = rest"
    "peekInFlightInvoker (snd (nextToolChoice q)) = cb_onInvoked cb"
proof -
  obtain x q1 where n: "nextToolChoice q = (x, q1)" by (cases "nextToolChoice q")
  have "(Choice (Some c) :: 'f queue_out, (fifo_of q)\<lparr>fq_items := rest, fq_inFlight := Some (l, cb, c)\<rparr>) =
      (Choice x, fifo_of q1)"
    using fifo_of_next [of q] assms by (simp add: fifo_do_def queue_do_def n)
  then have "x = Some c" and f: "fifo_of q1 = (fifo_of q)\<lparr>fq_items := rest, fq_inFlight := Some (l, cb, c)\<rparr>"
    by simp_all
  then show "fst (nextToolChoice q) = Some c" "fq_items (fifo_of (snd (nextToolChoice q))) = rest"
    "peekInFlightInvoker (snd (nextToolChoice q)) = cb_onInvoked cb"
    by (simp_all add: n f peek_fifo)
qed

lemma deciding_turn_item:
  assumes "fq_items (fifo_of q) = (l, cb, c) # rest" and "cb_onInvoked cb = Some p"
    and "deciding_turn forced standing params q s = (choice, answer, q')"
  shows "choice = Some c \<and> answer = fst (runResolveInvocation forced params p s) \<and>
    fq_items (fifo_of (the q')) =
      (if rp_action params = Apply \<and> isl (pv_apply p (rp_reason params) (rp_extra params))
       then [preview_item forced p] else []) @ rest"
proof -
  obtain q1 where n: "nextToolChoice q = (Some c, q1)" "fq_items (fifo_of q1) = rest" "peekInFlightInvoker q1 = Some p"
    using next_item [OF assms(1)] assms(2) by (cases "nextToolChoice q") auto
  let ?s1 = "s\<lparr>ts_queue := Some q1\<rparr>"
  have "resolve_execute forced standing params ?s1 = runResolveInvocation forced params p ?s1"
    by (simp add: resolve_execute_def n(3))
  then have "choice = Some c" "answer = fst (runResolveInvocation forced params p ?s1)"
    "q' = map_option (turn_end TurnServed) (ts_queue (snd (runResolveInvocation forced params p ?s1)))"
    using assms(3) n(1) by (auto simp: deciding_turn_def split_beta)
  then show ?thesis
    using run_resolve_answer [of forced params p ?s1 s] n(2)
    by (simp add: run_resolve_session served_items push_preview_items)
qed

lemma lost_turns_items:
  assumes "fq_items (fifo_of q) = preview_item forced p # rest" and "\<not> hasInFlight q"
  shows "fst (run_ops queue_do (lost_turns stops) q) =
      concat (map (\<lambda>_. [Choice (Some forced), Invoker (Some p), Quiet]) stops)"
    and "\<exists>l. fq_items (fifo_of (snd (run_ops queue_do (lost_turns stops) q))) =
      (l, po_callbacks (preview_options p), forced) # rest"
proof -
  have "fq_inFlight (fifo_of q) = None" using assms(2) by (cases "tq_inFlight q") (simp_all add: fifo_in_flight hasInFlight_def)
  note run = fifo_lost_turns [OF assms(1) [unfolded preview_item_def] preview_callbacks(1) this preview_callbacks(2), of stops]
  show "fst (run_ops queue_do (lost_turns stops) q) =
      concat (map (\<lambda>_. [Choice (Some forced), Invoker (Some p), Quiet]) stops)"
    by (simp add: queue_outputs run)
  show "\<exists>l. fq_items (fifo_of (snd (run_ops queue_do (lost_turns stops) q))) =
      (l, po_callbacks (preview_options p), forced) # rest"
    by (simp add: queue_state run)
qed

text \<open>
  C40: A preview is not lost by turns that are aborted or fail.  However many of these follow its
  registration (with a choice that names the tool), with nothing else pushed, removed or cleared in between, each
  forces the \<open>resolve\<close> tool and offers the handler of the preview; the turn in which the model calls
  the tool answers with the preview's own result, and afterwards the queue holds what it held before,
  behind the preview once more when applying it has failed.  (A turn that ends regularly without
  that call drops the preview: \<open>ignored_preview_is_dropped\<close>.)
\<close>

theorem preview_waits_for_decision:
  assumes "ts_queue s = Some q" and "\<not> is_mode forced"
    and "ts_queue (queueResolveHandler (Some forced) p s) = Some q1"
    and "run_ops queue_do (lost_turns stops) (turn_end TurnServed q1) = (outs, q2)"
    and "deciding_turn forced standing params q2 s = (choice, answer, q3)"
  shows "outs = concat (map (\<lambda>_. [Choice (Some forced), Invoker (Some p), Quiet]) stops) \<and>
    choice = Some forced \<and> answer = fst (runResolveInvocation forced params p s) \<and>
    fq_items (fifo_of (the q3)) =
      (if rp_action params = Apply \<and> isl (pv_apply p (rp_reason params) (rp_extra params))
       then [preview_item forced p] else []) @ fq_items (fifo_of q)"
proof -
  have q1: "q1 = pushOnce forced (preview_options p) q"
    using assms(1-3) by (simp add: queueResolveHandler_def steerReminder_def pushDirective_def)
  have items: "fq_items (fifo_of (turn_end TurnServed q1)) = preview_item forced p # fq_items (fifo_of q)"
    by (simp add: served_items q1 push_preview_items)
  obtain l where "fq_items (fifo_of q2) = (l, po_callbacks (preview_options p), forced) # fq_items (fifo_of q)"
    using lost_turns_items(2) [OF items served_items(2), of stops] assms(4) by auto
  from deciding_turn_item [OF this preview_callbacks(3) assms(5)]
  show ?thesis using lost_turns_items(1) [OF items served_items(2), of stops] assms(4) by simp
qed

definition example_preview :: "unit preview" where
  "example_preview = \<lparr>pv_label = js ''AST Edit'', pv_sourceToolName = js ''ast_edit'',
     pv_apply = (\<lambda>reason extra. if reason = js ''bad'' then Inl (OtherErr (js ''overlap'')) else Inr \<lparr>pl_content = js ''done'', pl_details = None\<rparr>),
     pv_reject = None\<rparr>"

theorem preview_waits_for_decision_witness:
  "\<exists>q1 outs q2 q3.
     ts_queue (queueResolveHandler (Some (ChTool (js ''resolve''))) example_preview \<lparr>ts_queue = Some queue_new, ts_steered = []\<rparr>) = Some q1 \<and>
     run_ops queue_do (lost_turns [True, False]) (turn_end TurnServed q1) = (outs, q2) \<and> length outs = 6 \<and>
     deciding_turn (ChTool (js ''resolve'')) None \<lparr>rp_action = Apply, rp_reason = js ''bad'', rp_extra = None\<rparr> q2
       \<lparr>ts_queue = Some queue_new, ts_steered = []\<rparr> =
       (Some (ChTool (js ''resolve'')), Inl (ToolErr (js ''Apply failed: overlap'')), q3) \<and>
     fq_items (fifo_of (the q3)) = [preview_item (ChTool (js ''resolve'')) example_preview]"
proof -
  let ?f = "ChTool (js ''resolve'')"
  let ?s = "\<lparr>ts_queue = Some queue_new, ts_steered = []\<rparr> :: unit tool_session"
  let ?params = "\<lparr>rp_action = Apply, rp_reason = js ''bad'', rp_extra = None\<rparr>"
  obtain q1 where q1: "ts_queue (queueResolveHandler (Some ?f) example_preview ?s) = Some q1"
    by (simp add: queueResolveHandler_def steerReminder_def pushDirective_def)
  obtain outs q2 where q2: "run_ops queue_do (lost_turns [True, False]) (turn_end TurnServed q1) = (outs, q2)"
    by fastforce
  obtain choice answer q3 where d: "deciding_turn ?f None ?params q2 ?s = (choice, answer, q3)"
    by (metis prod_cases3)
  have s: "ts_queue ?s = Some queue_new" and f: "\<not> is_mode ?f" by simp_all
  have bad: "pv_apply example_preview (js ''bad'') None = Inl (OtherErr (js ''overlap''))"
    by (simp add: example_preview_def)
  have empty: "fq_items (fifo_of (queue_new :: (unit, unit preview) choice_queue)) = []"
    by (simp add: fifo_of_def queue_new_def)
  note R = preview_waits_for_decision [OF s f q1 q2 d]
  have "choice = Some ?f" using R by blast
  moreover have "length outs = 6" using R by simp
  moreover have "answer = Inl (ToolErr (js ''Apply failed: overlap''))"
    using R bad by (simp add: runResolveInvocation_def)
  moreover have "fq_items (fifo_of (the q3)) = [preview_item ?f example_preview]"
    using R bad empty by simp
  ultimately show ?thesis using q1 q2 d by blast
qed

section \<open>Where the labels and the shape of a choice matter\<close>

text \<open>
  A forced choice that is replayed after an abort is served under another label, so that neither the
  test for a directive of the user nor the test for the label last served finds it.
\<close>

lemma replayed_force_is_not_recognised:
  "let q1 = snd (run_ops queue_do [PushOp [ChTool (js ''edit''), ChNone] force_options, NextOp, TurnEndOp TurnAborted] queue_new);
       q2 = snd (run_ops queue_do [NextOp, TurnEndOp TurnServed] q1)
   in inspect q1 = [js ''user-force-requeued'', js ''user-force''] \<and>
      fst (consumeLastServedLabel q2) = Some (js ''user-force-requeued'')"
  by code_simp

text \<open>A directive that is removed while it is in flight comes back when its callback requeues it.\<close>

lemma removed_directive_comes_back:
  "fst (nextToolChoice (removeByLabel (js ''user-force'')
     (snd (run_ops queue_do [PushOp [ChTool (js ''edit''), ChNone] force_options, NextOp] queue_new)))) =
   Some (ChTool (js ''edit''))"
  by code_simp

text \<open>For a model that is forced by a mode, the preview of a tool is not registered at all.\<close>

lemma preview_not_registered:
  "queueResolveHandler (buildNamedToolChoice (js ''resolve'') (Some (js ''google-vertex''))) p s = s"
  by (cases "ts_queue s") (simp_all add: queueResolveHandler_def buildNamedToolChoice_def)

text \<open>A preview that the model ignores in a turn that ends regularly is dropped.\<close>

lemma ignored_preview_is_dropped:
  "fq_items (fifo_of (turn_end TurnServed (snd (nextToolChoice (pushOnce forced (preview_options p) q))))) =
     fq_items (fifo_of q)"
  using next_item(2) [of "pushOnce forced (preview_options p) q"]
  by (simp add: served_items push_preview_items preview_item_def)

text \<open>A sequence that has been served completely is still listed, until the next call looks for a choice.\<close>

lemma served_directive_still_listed:
  "has_pending_user_directive (snd (run_ops queue_do
     [PushOp [ChTool (js ''edit''), ChNone] force_options, NextOp, TurnEndOp TurnServed, NextOp, TurnEndOp TurnServed] queue_new))"
  by code_simp

end
