(* ===== verification/Hl_Types.thy ===== *)
theory Hl_Types
  imports Prelude
begin

text \<open>
  The data of the hashline package (\<open>packages/hashline/src/types.ts\<close>): cursors, edits and
  results, and the errors and warnings of the whole package as datatypes with one
  constructor per \<open>throw\<close> and per warning of the sources (\<open>messages.ts\<close> holds most of
  their texts).  The wording of the messages is not modelled; the values a message
  interpolates are the arguments of the constructor.
\<close>

section \<open>Cursors and edits\<close>

text \<open>An \<open>Anchor\<close> is its only field, the line number (1-indexed).\<close>

datatype cursor = Bof | Eof | BeforeAnchor nat | AfterAnchor nat

text \<open>
  The last field of \<open>Insert\<close> is whether \<open>mode\<close> is \<open>"replacement"\<close>.  The optional
  \<open>oldAssertion\<close> of a delete is never written by the package and is left out.
\<close>

datatype edit =
    Insert (cursor_of: cursor) (text_of: jstring) (lineNum: nat) (index: nat) (replacement: bool)
  | Delete (anchor_of: nat) (lineNum: nat) (index: nat)
  | Block (anchor_of: nat) (payloads_of: "jstring list") (lineNum: nat) (index: nat)

datatype parsed_range = ParsedRange (start_line: nat) (end_line: nat)

record block_span =
  span_start :: nat
  span_end :: nat

text \<open>
  The injected tree-sitter resolver: path, text and line to a span, or \<open>None\<close> for \<open>null\<close>.
\<close>

type_synonym block_resolver = "jstring \<Rightarrow> jstring \<Rightarrow> nat \<Rightarrow> block_span option"

section \<open>Warnings and errors\<close>

datatype warning =
    BareBodyAutoPiped
  | RecoveryExternal
  | RecoverySessionChain
  | RecoverySessionReplay
  | HeadtailDrift
  | BoundaryEchoRepaired nat nat nat
  | DroppedTrailing nat nat
  | DroppedLeading nat nat
  | KeptClosers nat nat

datatype contamination =
    ApplyPatchSentinel
  | UnifiedDiffHunk
  | BracketedHunk
  | DeleteWithColon
  | BareNumber
  | BareRange jstring jstring

datatype (plugins only: code size) hl_error =
    TokenizerClosed
  | BadLid nat jstring
  | RangeOrder nat nat nat
  | PayloadWithoutHeader nat jstring
  | RawWithoutHeader nat jstring
  | DeleteTakesNoBody nat
  | DeleteBlockTakesNoBody nat
  | Contaminated nat contamination
  | MinusRowRejected nat
  | EmptyBlock nat
  | EmptyReplace nat
  | EmptyInsert nat
  | OverlappingDeletes nat nat nat
  | LineDoesNotExist nat nat
  | UnresolvedBlockInternal
  | BlockUnresolved nat nat
  | BlockResolverUnavailable nat
  | MalformedHeader jstring
  | EmptyHeaderPath
  | UnifiedDiffFirstLine
  | NoHeaderOnFirstLine jstring
  | NoSections
  | ConflictingTags jstring jstring jstring
  | MissingSnapshotTag jstring
  | FileNotFound jstring
  | SectionFileMissing jstring
  | FilesystemFailure jstring
  | Mismatch jstring jstring jstring "jstring list" "nat list" bool
  | DuplicateTarget jstring jstring
  | NoChanges jstring
  | InvalidLineReference jstring
  | LineNumberBelowOne nat jstring

type_synonym 'a res = "hl_error + 'a"

section \<open>Results\<close>

record apply_result =
  ar_text :: jstring
  ar_first :: "nat option"
  ar_warnings :: "warning list"

text \<open>The line numbers an edit is anchored to (\<open>getEditAnchors\<close> of \<open>apply.ts\<close>, \<open>recovery.ts\<close>).\<close>

fun getCursorAnchors :: "cursor \<Rightarrow> nat list" where
  "getCursorAnchors (BeforeAnchor n) = [n]"
| "getCursorAnchors (AfterAnchor n) = [n]"
| "getCursorAnchors Bof = []"
| "getCursorAnchors Eof = []"

fun getEditAnchors :: "edit \<Rightarrow> nat list" where
  "getEditAnchors (Delete a _ _) = [a]"
| "getEditAnchors (Block a _ _ _) = [a]"
| "getEditAnchors (Insert c _ _ _ _) = getCursorAnchors c"

definition is_block :: "edit \<Rightarrow> bool" where
  "is_block e = (case e of Block _ _ _ _ \<Rightarrow> True | _ \<Rightarrow> False)"

lemma is_block_simps [simp]:
  "is_block (Block a p l i)"
  "\<not> is_block (Insert c t l i r)"
  "\<not> is_block (Delete a l i)"
  by (simp_all add: is_block_def)

end
