(* ===== verification/JS_Regex.thy ===== *)
theory JS_Regex
  imports Prelude
begin

text \<open>
  Regular expressions as the sources write them.  A pattern literal becomes a term of the
  type \<open>re\<close> with the same shape, and \<open>re_run\<close> is the backtracking matcher of the language:
  it returns every way to match from a position, in the order in which the language tries
  them (greedy repetitions first, lazy ones last), so the first element is the match that
  \<open>exec\<close> reports.  \<open>Matches\<close> is the declarative meaning, and \<open>re_run_correct\<close> shows
  that the matcher finds exactly the end positions that the meaning allows; client proofs
  use the meaning, witnesses evaluate the matcher.
\<close>

datatype re =
    Cls "nat \<Rightarrow> bool"
  | Eps
  | Cat re re
  | Alt re re
  | Star bool re
  | Cap nat re
  | Bol
  | Eol
  | Look bool re
  | WordB

type_synonym caps = "(nat \<times> jstring) list"

text \<open>Word characters and decimal digits of the class escapes \<open>\w\<close> and \<open>\d\<close>.\<close>

definition is_word_char :: "nat \<Rightarrow> bool" where
  "is_word_char c = (is_digit c \<or> (65 \<le> c \<and> c \<le> 90) \<or> (97 \<le> c \<and> c \<le> 122) \<or> c = 95)"

definition word_at :: "jstring \<Rightarrow> nat \<Rightarrow> bool" where
  "word_at s i = (i < length s \<and> is_word_char (s ! i))"

definition word_boundary :: "jstring \<Rightarrow> nat \<Rightarrow> bool" where
  "word_boundary s i = ((0 < i \<and> word_at s (i - 1)) \<noteq> word_at s i)"

function (sequential) re_run :: "re \<Rightarrow> jstring \<Rightarrow> nat \<times> caps \<Rightarrow> (nat \<times> caps) list" where
  "re_run (Cls p) s (i, c) = (if i < length s \<and> p (s ! i) then [(Suc i, c)] else [])"
| "re_run Eps s x = [x]"
| "re_run (Cat a b) s x = concat (map (re_run b s) (re_run a s x))"
| "re_run (Alt a b) s x = re_run a s x @ re_run b s x"
| "re_run (Star g r) s (i, c) =
     (let more = concat (map (\<lambda>(j, d).
            if i < j \<and> j \<le> length s then re_run (Star g r) s (j, d) else [])
          (re_run r s (i, c)))
      in if g then more @ [(i, c)] else (i, c) # more)"
| "re_run (Cap n r) s (i, c) =
     map (\<lambda>(j, d). (j, (n, slice s i j) # d)) (re_run r s (i, c))"
| "re_run Bol s (i, c) = (if i = 0 then [(i, c)] else [])"
| "re_run Eol s (i, c) = (if i = length s then [(i, c)] else [])"
| "re_run (Look pos r) s (i, c) = (if (re_run r s (i, c) \<noteq> []) = pos then [(i, c)] else [])"
| "re_run WordB s (i, c) = (if word_boundary s i then [(i, c)] else [])"
  by pat_completeness auto
termination
  by (relation "measures [\<lambda>(r, s, x). size r, \<lambda>(r, s, x). length s - fst x]") auto

declare re_run.simps(5) [simp del]

section \<open>The meaning of a pattern\<close>

text \<open>
  The meaning of a pattern in a subject \<open>s\<close> is the relation between the positions where a
  match starts and where it ends; repetition is reflexive transitive closure.
\<close>

primrec den :: "jstring \<Rightarrow> re \<Rightarrow> (nat \<times> nat) set" where
  "den s (Cls p) = {(i, Suc i) | i. i < length s \<and> p (s ! i)}"
| "den s Eps = Id"
| "den s (Cat a b) = den s a O den s b"
| "den s (Alt a b) = den s a \<union> den s b"
| "den s (Star g r) = (den s r)\<^sup>*"
| "den s (Cap n r) = den s r"
| "den s Bol = {(0, 0)}"
| "den s Eol = {(length s, length s)}"
| "den s (Look pos r) = {(i, i) | i. (\<exists>j. (i, j) \<in> den s r) = pos}"
| "den s WordB = {(i, i) | i. word_boundary s i}"

lemma den_mono: "(i, j) \<in> den s r \<Longrightarrow> i \<le> j \<and> (i < j \<longrightarrow> j \<le> length s)"
proof (induction r arbitrary: i j)
  case (Cat a b)
  then show ?case by fastforce
next
  case (Star g r)
  from Star.prems have "(i, j) \<in> (den s r)\<^sup>*" by simp
  then show ?case
  proof (induction rule: rtrancl_induct)
    case (step y z)
    with Star.IH [of y z] show ?case by auto
  qed simp
qed auto

lemma star_step: "(i, j) \<in> R\<^sup>* \<Longrightarrow> i = j \<or> (\<exists>k. (i, k) \<in> R \<and> i \<noteq> k \<and> (k, j) \<in> R\<^sup>*)"
proof (induction rule: converse_rtrancl_induct)
  case (step y z)
  then show ?case by (cases "y = z") auto
qed simp

definition ends_of :: "(nat \<times> caps) list \<Rightarrow> nat set" where
  "ends_of ms = fst ` set ms"

lemma ends_of_concat:
  assumes "\<And>j d. (j, d) \<in> set xs \<Longrightarrow> P j \<Longrightarrow> ends_of (f (j, d)) = A j"
  shows "ends_of (concat (map (\<lambda>(j, d). if P j then f (j, d) else []) xs)) =
    (\<Union>j\<in>{j \<in> ends_of xs. P j}. A j)"
  using assms
proof (induction xs)
  case (Cons x xs)
  have "ends_of (concat (map (\<lambda>(j, d). if P j then f (j, d) else []) xs)) =
      (\<Union>j\<in>{j \<in> ends_of xs. P j}. A j)"
    using Cons.prems by (intro Cons.IH) simp
  moreover have "P (fst x) \<Longrightarrow> ends_of (f x) = A (fst x)"
    using Cons.prems [of "fst x" "snd x"] by simp
  ultimately show ?case
    by (cases x) (auto simp: ends_of_def image_Un)
qed (simp add: ends_of_def)

lemma star_unfold_step:
  "insert i (\<Union>j\<in>{j. (i, j) \<in> den s r \<and> i < j \<and> j \<le> length s}. {k. (j, k) \<in> (den s r)\<^sup>*}) =
   {k. (i, k) \<in> (den s r)\<^sup>*}" (is "?L = ?R")
proof
  show "?L \<subseteq> ?R" by (auto intro: converse_rtrancl_into_rtrancl)
  show "?R \<subseteq> ?L"
  proof
    fix k assume "k \<in> ?R"
    then consider "i = k" | j where "(i, j) \<in> den s r" "i \<noteq> j" "(j, k) \<in> (den s r)\<^sup>*"
      using star_step [of i k "den s r"] by blast
    then show "k \<in> ?L"
    proof cases
      case 2
      with den_mono [of i j s r] have "i < j" "j \<le> length s" by auto
      with 2 show ?thesis by blast
    qed simp
  qed
qed

theorem re_run_correct: "ends_of (re_run r s (i, c)) = {j. (i, j) \<in> den s r}"
proof (induction r s "(i, c)" arbitrary: i c rule: re_run.induct)
  case (1 p s i c)
  then show ?case by (auto simp: ends_of_def)
next
  case (3 a b s i c)
  have "ends_of (re_run (Cat a b) s (i, c)) =
      (\<Union>j\<in>{j \<in> ends_of (re_run a s (i, c)). True}. {k. (j, k) \<in> den s b})"
    using ends_of_concat [of "re_run a s (i, c)" "\<lambda>_. True" "re_run b s"] 3(2)
    by simp
  also have "\<dots> = {k. (i, k) \<in> den s (Cat a b)}"
    using 3(1) by auto
  finally show ?case .
next
  case (5 g r s i c)
  define more where "more = concat (map (\<lambda>(j, d).
      if i < j \<and> j \<le> length s then re_run (Star g r) s (j, d) else []) (re_run r s (i, c)))"
  have "ends_of more = (\<Union>j\<in>{j \<in> ends_of (re_run r s (i, c)). i < j \<and> j \<le> length s}.
      {k. (j, k) \<in> (den s r)\<^sup>*})"
    unfolding more_def
  proof (rule ends_of_concat)
    fix j d
    assume "(j, d) \<in> set (re_run r s (i, c))" "i < j \<and> j \<le> length s"
    then show "ends_of (re_run (Star g r) s (j, d)) = {k. (j, k) \<in> (den s r)\<^sup>*}"
      using 5(2) [of "(j, d)" j d] by (simp only: den.simps)
  qed
  moreover have "ends_of (re_run (Star g r) s (i, c)) = insert i (ends_of more)"
    by (simp add: re_run.simps(5) [of g r s i c] more_def Let_def ends_of_def)
  moreover have "ends_of (re_run r s (i, c)) = {j. (i, j) \<in> den s r}"
    by (rule 5(1))
  ultimately show ?case
    using star_unfold_step [of i s r] by simp
next
  case (9 pos r s i c)
  have "ends_of (re_run r s (i, c)) = {} \<longleftrightarrow> (\<forall>j. (i, j) \<notin> den s r)"
    unfolding 9 by blast
  then have "re_run r s (i, c) \<noteq> [] \<longleftrightarrow> (\<exists>j. (i, j) \<in> den s r)"
    by (simp add: ends_of_def)
  then show ?case by (auto simp: ends_of_def)
qed (auto simp: ends_of_def image_Un image_image case_prod_beta)

lemma re_run_Nil_iff: "re_run r s (i, c) = [] \<longleftrightarrow> (\<forall>j. (i, j) \<notin> den s r)"
  using re_run_correct [of r s i c] by (auto simp: ends_of_def)

section \<open>Derived forms\<close>

definition Opt :: "bool \<Rightarrow> re \<Rightarrow> re" where
  "Opt g r = (if g then Alt r Eps else Alt Eps r)"

definition Plus :: "bool \<Rightarrow> re \<Rightarrow> re" where
  "Plus g r = Cat r (Star g r)"

primrec Rep :: "nat \<Rightarrow> re \<Rightarrow> re" where
  "Rep 0 r = Eps"
| "Rep (Suc n) r = Cat r (Rep n r)"

primrec Upto :: "nat \<Rightarrow> re \<Rightarrow> re" where
  "Upto 0 r = Eps"
| "Upto (Suc n) r = Opt True (Cat r (Upto n r))"

primrec Cats :: "re list \<Rightarrow> re" where
  "Cats [] = Eps"
| "Cats (r # rs) = Cat r (Cats rs)"

primrec Alts :: "re list \<Rightarrow> re" where
  "Alts [] = Cls (\<lambda>_. False)"
| "Alts (r # rs) = Alt r (Alts rs)"

definition Lit :: "jstring \<Rightarrow> re" where
  "Lit cs = Cats (map (\<lambda>c. Cls (\<lambda>x. x = c)) cs)"

definition one_of :: "jstring \<Rightarrow> re" where
  "one_of cs = Cls (\<lambda>x. x \<in> set cs)"

abbreviation Sp :: re where "Sp \<equiv> Cls is_js_space"
abbreviation NonSp :: re where "NonSp \<equiv> Cls (\<lambda>c. \<not> is_js_space c)"
abbreviation Dig :: re where "Dig \<equiv> Cls is_digit"

text \<open>The dot: any code unit but a line terminator.\<close>

definition is_line_terminator :: "nat \<Rightarrow> bool" where
  "is_line_terminator c = (c = 10 \<or> c = 13 \<or> c = 0x2028 \<or> c = 0x2029)"

abbreviation Dot :: re where "Dot \<equiv> Cls (\<lambda>c. \<not> is_line_terminator c)"

section \<open>The entry points the sources call\<close>

text \<open>\<open>exec\<close>: the leftmost start position, and there the first match in priority order.\<close>

fun exec_from :: "re \<Rightarrow> jstring \<Rightarrow> nat list \<Rightarrow> (nat \<times> nat \<times> caps) option" where
  "exec_from r s [] = None"
| "exec_from r s (i # is) =
     (case re_run r s (i, []) of [] \<Rightarrow> exec_from r s is | (j, c) # _ \<Rightarrow> Some (i, j, c))"

definition re_exec :: "re \<Rightarrow> jstring \<Rightarrow> (nat \<times> nat \<times> caps) option" where
  "re_exec r s = exec_from r s [0..<Suc (length s)]"

definition re_test :: "re \<Rightarrow> jstring \<Rightarrow> bool" where
  "re_test r s = (re_exec r s \<noteq> None)"

text \<open>\<open>s.replace(r, "")\<close> with a pattern that is not global: the first match is cut out.\<close>

definition re_remove :: "re \<Rightarrow> jstring \<Rightarrow> jstring" where
  "re_remove r s = (case re_exec r s of None \<Rightarrow> s | Some (i, j, _) \<Rightarrow> take i s @ drop j s)"

definition cap_get :: "caps \<Rightarrow> nat \<Rightarrow> jstring option" where
  "cap_get c n = map_of c n"

lemma exec_from_None: "exec_from r s is = None \<longleftrightarrow> (\<forall>i\<in>set is. \<forall>j. (i, j) \<notin> den s r)"
proof (induction "is")
  case (Cons i "is")
  then show ?case
    by (auto simp: re_run_Nil_iff split: list.splits)
       (metis list.distinct(1) re_run_Nil_iff)
qed simp

lemma re_test_iff: "re_test r s \<longleftrightarrow> (\<exists>i j. i \<le> length s \<and> (i, j) \<in> den s r)"
  by (auto simp: re_test_def re_exec_def exec_from_None less_Suc_eq_le simp del: upt_Suc)

lemma re_test_Bol: "re_test (Cat Bol r) s \<longleftrightarrow> (\<exists>j. (0, j) \<in> den s r)"
  by (auto simp: re_test_iff)

section \<open>The first match\<close>

text \<open>
  \<open>first_match r s x y\<close>: the first way in which \<open>r\<close> matches from \<open>x\<close> ends in \<open>y\<close>.  These rules
  follow the greedy choices, for patterns whose first attempt succeeds.
\<close>

definition first_match :: "re \<Rightarrow> jstring \<Rightarrow> nat \<times> caps \<Rightarrow> nat \<times> caps \<Rightarrow> bool" where
  "first_match r s x y \<longleftrightarrow> (\<exists>more. re_run r s x = y # more)"

lemma first_match_Cat: "first_match a s x y \<Longrightarrow> first_match b s y z \<Longrightarrow> first_match (Cat a b) s x z"
  by (auto simp: first_match_def)

lemma first_match_Eps: "first_match Eps s x x"
  by (simp add: first_match_def)

lemma first_match_Cls: "i < length s \<Longrightarrow> p (s ! i) \<Longrightarrow> first_match (Cls p) s (i, c) (Suc i, c)"
  by (simp add: first_match_def)

lemma first_match_Bol: "first_match Bol s (0, c) (0, c)"
  by (simp add: first_match_def)

lemma first_match_Eol: "i = length s \<Longrightarrow> first_match Eol s (i, c) (i, c)"
  by (simp add: first_match_def)

lemma first_match_Cap:
  "first_match r s (i, c) (j, d) \<Longrightarrow> first_match (Cap n r) s (i, c) (j, (n, slice s i j) # d)"
  by (auto simp: first_match_def)

lemma first_match_Alt: "first_match a s x y \<Longrightarrow> first_match (Alt a b) s x y"
  by (auto simp: first_match_def)

lemma first_match_Opt: "first_match r s x y \<Longrightarrow> first_match (Opt True r) s x y"
  by (simp add: Opt_def first_match_Alt)

lemma first_match_star_stop:
  "i = length s \<or> \<not> p (s ! i) \<Longrightarrow> first_match (Star True (Cls p)) s (i, c) (i, c)"
  by (auto simp: first_match_def re_run.simps(5) [of True "Cls p" s i c])

lemma first_match_star:
  assumes "i \<le> j" "j \<le> length s" "\<forall>k. i \<le> k \<and> k < j \<longrightarrow> p (s ! k)" "j = length s \<or> \<not> p (s ! j)"
  shows "first_match (Star True (Cls p)) s (i, c) (j, c)"
  using assms(1-3)
proof (induction "j - i" arbitrary: i)
  case 0
  then have "i = j" by simp
  then show ?case using assms(4) first_match_star_stop by blast
next
  case (Suc n)
  then have i: "i < length s" "p (s ! i)" by auto
  have "first_match (Star True (Cls p)) s (Suc i, c) (j, c)"
    using Suc.prems Suc.hyps(2) by (intro Suc.hyps(1)) auto
  then show ?case using i by (auto simp: first_match_def re_run.simps(5) [of True "Cls p" s i c])
qed

lemma first_match_exec: "first_match r s (0, []) (j, c) \<Longrightarrow> re_exec r s = Some (0, j, c)"
  by (auto simp: first_match_def re_exec_def upt_conv_Cons simp del: upt_Suc)

end
