(* ===== verification/Hl_Format.thy ===== *)
theory Hl_Format
  imports Hl_Types JS_Regex
begin

text \<open>
  The format primitives of \<open>packages/hashline/src/format.ts\<close>: sigils and keywords, the hunk
  header and section header printers, numbered lines, and the content tag.  The 32-bit hash
  \<open>Bun.hash.xxHash32\<close> is a built-in of the runtime whose code is not part of the
  repository: it is the parameter \<open>xxh\<close> of every definition that computes a tag.
\<close>

section \<open>Sigils and keywords\<close>

definition HL_FILE_PREFIX :: jstring where "HL_FILE_PREFIX = [0xB6]"
definition HL_PAYLOAD_REPLACE :: jstring where "HL_PAYLOAD_REPLACE = js ''+''"
definition HL_REPLACE_KEYWORD :: jstring where "HL_REPLACE_KEYWORD = js ''replace''"
definition HL_BLOCK_KEYWORD :: jstring where "HL_BLOCK_KEYWORD = js ''block''"
definition HL_DELETE_KEYWORD :: jstring where "HL_DELETE_KEYWORD = js ''delete''"
definition HL_INSERT_KEYWORD :: jstring where "HL_INSERT_KEYWORD = js ''insert''"
definition HL_INSERT_BEFORE :: jstring where "HL_INSERT_BEFORE = js ''before''"
definition HL_INSERT_AFTER :: jstring where "HL_INSERT_AFTER = js ''after''"
definition HL_INSERT_HEAD :: jstring where "HL_INSERT_HEAD = js ''head''"
definition HL_INSERT_TAIL :: jstring where "HL_INSERT_TAIL = js ''tail''"
definition HL_HEADER_COLON :: jstring where "HL_HEADER_COLON = js '':''"
definition HL_FILE_HASH_SEP :: jstring where "HL_FILE_HASH_SEP = js ''#''"
definition HL_RANGE_SEP :: jstring where "HL_RANGE_SEP = js ''..''"
definition HL_LINE_BODY_SEP :: jstring where "HL_LINE_BODY_SEP = js '':''"
definition HL_FILE_HASH_LENGTH :: nat where "HL_FILE_HASH_LENGTH = 4"

lemmas hl_keywords =
  HL_REPLACE_KEYWORD_def HL_BLOCK_KEYWORD_def HL_DELETE_KEYWORD_def HL_INSERT_KEYWORD_def
  HL_INSERT_BEFORE_def HL_INSERT_AFTER_def HL_INSERT_HEAD_def HL_INSERT_TAIL_def
lemmas hl_sigils =
  HL_FILE_PREFIX_def HL_PAYLOAD_REPLACE_def HL_HEADER_COLON_def HL_FILE_HASH_SEP_def
  HL_RANGE_SEP_def HL_LINE_BODY_SEP_def HL_FILE_HASH_LENGTH_def

section \<open>Printers\<close>

definition formatReplaceHeader :: "nat \<Rightarrow> nat \<Rightarrow> jstring" where
  "formatReplaceHeader s e =
     HL_REPLACE_KEYWORD @ js '' '' @ dec s @ HL_RANGE_SEP @ dec e @ HL_HEADER_COLON"

definition formatDeleteHeader :: "nat \<Rightarrow> nat \<Rightarrow> jstring" where
  "formatDeleteHeader s e =
     (if s = e then HL_DELETE_KEYWORD @ js '' '' @ dec s
      else HL_DELETE_KEYWORD @ js '' '' @ dec s @ HL_RANGE_SEP @ dec e)"

fun formatInsertHeader :: "cursor \<Rightarrow> jstring" where
  "formatInsertHeader (BeforeAnchor n) =
     HL_INSERT_KEYWORD @ js '' '' @ HL_INSERT_BEFORE @ js '' '' @ dec n @ HL_HEADER_COLON"
| "formatInsertHeader (AfterAnchor n) =
     HL_INSERT_KEYWORD @ js '' '' @ HL_INSERT_AFTER @ js '' '' @ dec n @ HL_HEADER_COLON"
| "formatInsertHeader Bof =
     HL_INSERT_KEYWORD @ js '' '' @ HL_INSERT_HEAD @ HL_HEADER_COLON"
| "formatInsertHeader Eof =
     HL_INSERT_KEYWORD @ js '' '' @ HL_INSERT_TAIL @ HL_HEADER_COLON"

definition formatHashlineHeader :: "jstring \<Rightarrow> jstring \<Rightarrow> jstring" where
  "formatHashlineHeader filePath fileHash =
     HL_FILE_PREFIX @ filePath @ HL_FILE_HASH_SEP @ fileHash"

definition formatNumberedLine :: "nat \<Rightarrow> jstring \<Rightarrow> jstring" where
  "formatNumberedLine lineNumber line = dec lineNumber @ HL_LINE_BODY_SEP @ line"

definition formatNumberedLines :: "jstring \<Rightarrow> nat \<Rightarrow> jstring" where
  "formatNumberedLines text startLine =
     (let lines = split_lines text
      in join_lines (map (\<lambda>(i, line). formatNumberedLine (startLine + i) line)
           (zip [0..<length lines] lines)))"

section \<open>The content tag\<close>

text \<open>
  \<open>text.replace(/[ \t\r]+(?=\n|$)/g, "")\<close>: a run of blanks is dropped when a line feed or the
  end of the text follows it.  At a blank the greedy run is the maximal one; when what
  follows the run is neither, no shorter run matches either (a blank follows it) and the
  scan resumes one unit later.
\<close>

definition is_hash_blank :: "nat \<Rightarrow> bool" where
  "is_hash_blank c = (c = 32 \<or> c = 9 \<or> c = 13)"

fun normalizeFileHashText :: "jstring \<Rightarrow> jstring" where
  "normalizeFileHashText [] = []"
| "normalizeFileHashText (c # cs) =
     (let rest = dropWhile is_hash_blank cs
      in if is_hash_blank c \<and> (rest = [] \<or> hd rest = LF)
         then normalizeFileHashText cs
         else c # normalizeFileHashText cs)"

text \<open>\<open>low16.toString(16).padStart(4, "0").toUpperCase()\<close> of a number below \<open>2 ^ 16\<close>.\<close>

definition hex_digit :: "nat \<Rightarrow> nat" where
  "hex_digit d = (if d < 10 then 48 + d else 55 + d)"

definition hex4 :: "nat \<Rightarrow> jstring" where
  "hex4 n = [hex_digit (n div 4096 mod 16), hex_digit (n div 256 mod 16),
     hex_digit (n div 16 mod 16), hex_digit (n mod 16)]"

definition computeFileHash :: "(jstring \<Rightarrow> nat) \<Rightarrow> jstring \<Rightarrow> jstring" where
  "computeFileHash xxh text =
     (let normalized = normalizeFileHashText text;
          low16 = xxh normalized mod 0x10000
      in hex4 low16)"

end
