(* ===== verification/Tokenizer.thy ===== *)
theory Tokenizer
  imports Hl_Format
begin

text \<open>
  The line classifier of \<open>packages/hashline/src/tokenizer.ts\<close>.  The scanners work on a line,
  a start index and an exclusive end index, as in the source; a scanner that returns
  \<open>null\<close> returns \<open>None\<close>.  The class \<open>Tokenizer\<close> is the record \<open>tokenizer\<close> and its methods
  pass the record on.
\<close>

section \<open>Character classes and scanners\<close>

definition CHAR_HASH :: nat where "CHAR_HASH = 35"
definition CHAR_TAB :: nat where "CHAR_TAB = 9"
definition CHAR_SPACE :: nat where "CHAR_SPACE = 32"
definition CHAR_DOT :: nat where "CHAR_DOT = 46"
definition CHAR_HYPHEN :: nat where "CHAR_HYPHEN = 45"
definition CHAR_COLON :: nat where "CHAR_COLON = 58"
definition CHAR_PAYLOAD_REPLACE :: nat where "CHAR_PAYLOAD_REPLACE = 43"
definition CHAR_ELLIPSIS :: nat where "CHAR_ELLIPSIS = 0x2026"

lemmas char_codes = CHAR_HASH_def CHAR_TAB_def CHAR_SPACE_def CHAR_DOT_def CHAR_HYPHEN_def
  CHAR_COLON_def CHAR_PAYLOAD_REPLACE_def CHAR_ELLIPSIS_def

definition isDigitCode :: "nat \<Rightarrow> bool" where
  "isDigitCode code = (48 \<le> code \<and> code \<le> 57)"

definition isNonZeroDigitCode :: "nat \<Rightarrow> bool" where
  "isNonZeroDigitCode code = (48 < code \<and> code \<le> 57)"

definition isHexDigitCode :: "nat \<Rightarrow> bool" where
  "isHexDigitCode code =
     (isDigitCode code \<or> (65 \<le> code \<and> code \<le> 70) \<or> (97 \<le> code \<and> code \<le> 102))"

definition isWhitespaceCode :: "nat \<Rightarrow> bool" where
  "isWhitespaceCode code = (code = CHAR_SPACE \<or> (CHAR_TAB \<le> code \<and> code \<le> 13))"

definition skipWhitespace :: "jstring \<Rightarrow> nat \<Rightarrow> nat \<Rightarrow> nat" where
  "skipWhitespace line i e = scan_while isWhitespaceCode line i e"

fun trimEnd_from :: "jstring \<Rightarrow> nat \<Rightarrow> nat" where
  "trimEnd_from line 0 = 0"
| "trimEnd_from line (Suc e) =
     (if isWhitespaceCode (line ! e) then trimEnd_from line e else Suc e)"

definition trimEndIndex :: "jstring \<Rightarrow> nat" where
  "trimEndIndex line = trimEnd_from line (length line)"

definition isEmptyLine :: "jstring \<Rightarrow> bool" where
  "isEmptyLine line = (length line = 0)"

definition markerLineEquals :: "jstring \<Rightarrow> jstring \<Rightarrow> bool" where
  "markerLineEquals line marker =
     (let e = trimEndIndex line in e = length marker \<and> starts_with line marker)"

text \<open>\<open>splitHashlineLines\<close>: the loop over \<open>index\<close> with the start of the current line.\<close>

function split_loop :: "jstring \<Rightarrow> nat \<Rightarrow> nat \<Rightarrow> jstring list" where
  "split_loop text start i =
     (if i < length text then
        (if text ! i \<noteq> LF then split_loop text start (Suc i)
         else
           (let e = (if start < i \<and> text ! (i - 1) = CR then i - 1 else i)
            in slice text start e # split_loop text (Suc i) (Suc i)))
      else if start < length text then
        (let e = length text;
             e' = (if start < e \<and> text ! (e - 1) = CR then e - 1 else e)
         in [slice text start e'])
      else [])"
  by pat_completeness auto
termination
  by (relation "measure (\<lambda>(text, start, i). length text - i)") auto

declare split_loop.simps [simp del]

definition splitHashlineLines :: "jstring \<Rightarrow> jstring list" where
  "splitHashlineLines text = (if length text = 0 then [[]] else split_loop text 0 0)"

definition cloneCursor :: "cursor \<Rightarrow> cursor" where
  "cloneCursor c = c"

text \<open>\<open>scanLineNumber\<close>: the value accumulated digit by digit and the index after it.\<close>

function digits_loop :: "jstring \<Rightarrow> nat \<Rightarrow> nat \<Rightarrow> nat \<Rightarrow> nat \<times> nat" where
  "digits_loop line n i e =
     (if i < e \<and> isDigitCode (line ! i)
      then digits_loop line (n * 10 + (line ! i - 48)) (Suc i) e
      else (n, i))"
  by pat_completeness auto
termination
  by (relation "measure (\<lambda>(line, n, i, e). e - i)") auto

declare digits_loop.simps [simp del]

definition scanLineNumber :: "jstring \<Rightarrow> nat \<Rightarrow> nat \<Rightarrow> (nat \<times> nat) option" where
  "scanLineNumber line i e =
     (if i \<ge> e \<or> \<not> isNonZeroDigitCode (line ! i) then None
      else Some (digits_loop line 0 i e))"

definition parseLid :: "jstring \<Rightarrow> nat \<Rightarrow> nat res" where
  "parseLid raw ln =
     (let e = trimEndIndex raw; numberStart = skipWhitespace raw 0 e
      in case scanLineNumber raw numberStart e of
           None \<Rightarrow> Inl (BadLid ln raw)
         | Some (n, next) \<Rightarrow>
             if skipWhitespace raw next e \<noteq> e then Inl (BadLid ln raw) else Inr n)"

function range_separator_loop :: "jstring \<Rightarrow> nat \<Rightarrow> nat \<Rightarrow> bool \<Rightarrow> nat \<times> bool" where
  "range_separator_loop line c e consumed =
     (if c < e then
        (if isWhitespaceCode (line ! c) then range_separator_loop line (Suc c) e True
         else if line ! c = CHAR_HYPHEN \<or> line ! c = CHAR_ELLIPSIS
         then range_separator_loop line (Suc c) e True
         else if line ! c = CHAR_DOT \<and> Suc c < e \<and> line ! Suc c = CHAR_DOT
         then range_separator_loop line (c + 2) e True
         else (c, consumed))
      else (c, consumed))"
  by pat_completeness auto
termination
  by (relation "measure (\<lambda>(line, c, e, b). e - c)") auto

declare range_separator_loop.simps [simp del]

definition scanRangeSeparator :: "jstring \<Rightarrow> nat \<Rightarrow> nat \<Rightarrow> nat option" where
  "scanRangeSeparator line i e =
     (case range_separator_loop line i e False of (c, consumed) \<Rightarrow>
        if \<not> consumed then None
        else if c \<ge> e \<or> \<not> isNonZeroDigitCode (line ! c) then None
        else Some c)"

definition scanHeaderRange :: "jstring \<Rightarrow> nat \<Rightarrow> nat \<Rightarrow> bool \<Rightarrow> (parsed_range \<times> nat) option" where
  "scanHeaderRange line i e allowSingle =
     (case scanLineNumber line (skipWhitespace line i e) e of
        None \<Rightarrow> None
      | Some (start, startNext) \<Rightarrow>
          (case scanRangeSeparator line startNext e of
             None \<Rightarrow>
               if \<not> allowSingle then None
               else Some (ParsedRange start start, skipWhitespace line startNext e)
           | Some afterFirst \<Rightarrow>
               (case scanLineNumber line afterFirst e of
                  None \<Rightarrow> None
                | Some (endNum, endNext) \<Rightarrow>
                    Some (ParsedRange start endNum, skipWhitespace line endNext e))))"

section \<open>Hunk headers\<close>

datatype block_target =
    TReplace parsed_range
  | TBlock nat
  | TDelete parsed_range
  | TDeleteBlock nat
  | TInsertBefore nat
  | TInsertAfter nat
  | TBof
  | TEof

definition scanKeyword :: "jstring \<Rightarrow> nat \<Rightarrow> nat \<Rightarrow> jstring \<Rightarrow> nat option" where
  "scanKeyword line i e keyword =
     (if \<not> starts_with_at line keyword i then None
      else
        (let next = i + length keyword
         in if next < e \<and> \<not> isWhitespaceCode (line ! next) \<and> line ! next \<noteq> CHAR_COLON
            then None else Some next))"

definition consumeOptionalColon :: "jstring \<Rightarrow> nat \<Rightarrow> nat \<Rightarrow> nat" where
  "consumeOptionalColon line i e =
     (let cursor = skipWhitespace line i e
      in if cursor < e \<and> line ! cursor = CHAR_COLON
         then skipWhitespace line (Suc cursor) e else cursor)"

definition scanInsertTarget :: "jstring \<Rightarrow> nat \<Rightarrow> nat \<Rightarrow> (block_target \<times> nat) option" where
  "scanInsertTarget line i e =
     (let cursor = skipWhitespace line i e
      in case scanKeyword line cursor e HL_INSERT_BEFORE of
           Some beforeEnd \<Rightarrow>
             (case scanLineNumber line (skipWhitespace line beforeEnd e) e of
                None \<Rightarrow> None
              | Some (n, next) \<Rightarrow> Some (TInsertBefore n, consumeOptionalColon line next e))
         | None \<Rightarrow>
       (case scanKeyword line cursor e HL_INSERT_AFTER of
           Some afterEnd \<Rightarrow>
             (case scanLineNumber line (skipWhitespace line afterEnd e) e of
                None \<Rightarrow> None
              | Some (n, next) \<Rightarrow> Some (TInsertAfter n, consumeOptionalColon line next e))
         | None \<Rightarrow>
       (case scanKeyword line cursor e HL_INSERT_HEAD of
           Some headEnd \<Rightarrow> Some (TBof, consumeOptionalColon line headEnd e)
         | None \<Rightarrow>
       (case scanKeyword line cursor e HL_INSERT_TAIL of
           Some tailEnd \<Rightarrow> Some (TEof, consumeOptionalColon line tailEnd e)
         | None \<Rightarrow> None))))"

text \<open>The body of \<open>scanHunkAnchor\<close> after the keyword \<open>replace\<close>, and after \<open>delete\<close>.\<close>

definition scanReplaceTarget :: "jstring \<Rightarrow> nat \<Rightarrow> nat \<Rightarrow> (block_target \<times> nat) option" where
  "scanReplaceTarget line replaceEnd e =
     (case scanKeyword line (skipWhitespace line replaceEnd e) e HL_BLOCK_KEYWORD of
        Some blockEnd \<Rightarrow>
          (case scanLineNumber line (skipWhitespace line blockEnd e) e of
             None \<Rightarrow> None
           | Some (n, next) \<Rightarrow> Some (TBlock n, consumeOptionalColon line next e))
      | None \<Rightarrow>
          (case scanHeaderRange line replaceEnd e True of
             None \<Rightarrow> None
           | Some (rng, next) \<Rightarrow> Some (TReplace rng, consumeOptionalColon line next e)))"

definition scanDeleteTarget :: "jstring \<Rightarrow> nat \<Rightarrow> nat \<Rightarrow> (block_target \<times> nat) option" where
  "scanDeleteTarget line deleteEnd e =
     (case scanKeyword line (skipWhitespace line deleteEnd e) e HL_BLOCK_KEYWORD of
        Some blockEnd \<Rightarrow>
          (case scanLineNumber line (skipWhitespace line blockEnd e) e of
             None \<Rightarrow> None
           | Some (n, anchorNext) \<Rightarrow>
               (let next = skipWhitespace line anchorNext e
                in if next < e \<and> line ! next = CHAR_COLON then None
                   else Some (TDeleteBlock n, next)))
      | None \<Rightarrow>
          (case scanHeaderRange line deleteEnd e True of
             None \<Rightarrow> None
           | Some (rng, rangeNext) \<Rightarrow>
               (let next = skipWhitespace line rangeNext e
                in if next < e \<and> line ! next = CHAR_COLON then None
                   else Some (TDelete rng, next))))"

definition scanHunkAnchor :: "jstring \<Rightarrow> nat \<Rightarrow> nat \<Rightarrow> (block_target \<times> nat) option" where
  "scanHunkAnchor line start e =
     (let cursor = skipWhitespace line start e
      in case scanKeyword line cursor e HL_REPLACE_KEYWORD of
           Some replaceEnd \<Rightarrow> scanReplaceTarget line replaceEnd e
         | None \<Rightarrow>
       (case scanKeyword line cursor e HL_DELETE_KEYWORD of
           Some deleteEnd \<Rightarrow> scanDeleteTarget line deleteEnd e
         | None \<Rightarrow>
       (case scanKeyword line cursor e HL_INSERT_KEYWORD of
           Some insertEnd \<Rightarrow> scanInsertTarget line insertEnd e
         | None \<Rightarrow> None)))"

definition tryParseHunkHeader :: "jstring \<Rightarrow> block_target option" where
  "tryParseHunkHeader line =
     (let e = trimEndIndex line; start = skipWhitespace line 0 e
      in if start \<ge> e then None
         else case scanHunkAnchor line start e of
                None \<Rightarrow> None
              | Some (target, next) \<Rightarrow> if next \<noteq> e then None else Some target)"

section \<open>Section headers\<close>

text \<open>\<open>toUpperCase\<close> of a string of hexadecimal digits.\<close>

definition hex_upper :: "jstring \<Rightarrow> jstring" where
  "hex_upper s = map (\<lambda>c. if 97 \<le> c \<and> c \<le> 122 then c - 32 else c) s"

definition path_stop :: "nat \<Rightarrow> bool" where
  "path_stop c = (c = CHAR_HASH \<or> c = CHAR_SPACE \<or> c = CHAR_TAB)"

definition tryParseHeader :: "jstring \<Rightarrow> (jstring \<times> jstring option) option" where
  "tryParseHeader line =
     (if \<not> starts_with line HL_FILE_PREFIX then None
      else
        (let e = trimEndIndex line; pathStart = length HL_FILE_PREFIX
         in if pathStart \<ge> e then None
            else
              (let i = scan_while (\<lambda>c. \<not> path_stop c) line pathStart e
               in if i = pathStart then None
                  else
                    (let path = slice line pathStart i
                     in if i < e \<and> line ! i = CHAR_HASH then
                          (let hashStart = Suc i; hashEnd = hashStart + HL_FILE_HASH_LENGTH
                           in if hashEnd > e then None
                              else if \<not> list_all isHexDigitCode (slice line hashStart hashEnd)
                              then None
                              else if skipWhitespace line hashEnd e \<noteq> e then None
                              else Some (path, Some (hex_upper (slice line hashStart hashEnd))))
                        else if skipWhitespace line i e \<noteq> e then None
                        else Some (path, None)))))"

section \<open>Classification of a line\<close>

datatype token =
    TokBlank nat
  | TokEnvelopeBegin nat
  | TokEnvelopeEnd nat
  | TokAbort nat
  | TokHeader nat jstring "jstring option"
  | TokOpBlock nat block_target
  | TokPayload nat jstring
  | TokRaw nat jstring

definition BEGIN_PATCH_MARKER :: jstring where "BEGIN_PATCH_MARKER = js ''*** Begin Patch''"
definition END_PATCH_MARKER :: jstring where "END_PATCH_MARKER = js ''*** End Patch''"
definition ABORT_MARKER :: jstring where "ABORT_MARKER = js ''*** Abort''"

lemmas patch_markers = BEGIN_PATCH_MARKER_def END_PATCH_MARKER_def ABORT_MARKER_def

definition isHunkLead :: "jstring \<Rightarrow> bool" where
  "isHunkLead line =
     (let lead = skipWhitespace line 0 (length line)
      in starts_with_at line HL_REPLACE_KEYWORD lead \<or>
         starts_with_at line HL_DELETE_KEYWORD lead \<or>
         starts_with_at line HL_INSERT_KEYWORD lead)"

definition classifyLine :: "jstring \<Rightarrow> nat \<Rightarrow> token" where
  "classifyLine line ln =
     (if isEmptyLine line then TokBlank ln
      else if markerLineEquals line BEGIN_PATCH_MARKER then TokEnvelopeBegin ln
      else if markerLineEquals line END_PATCH_MARKER then TokEnvelopeEnd ln
      else if markerLineEquals line ABORT_MARKER then TokAbort ln
      else
        (case (if starts_with line HL_FILE_PREFIX then tryParseHeader line else None) of
           Some (path, hash) \<Rightarrow> TokHeader ln path hash
         | None \<Rightarrow>
             (case (if isHunkLead line then tryParseHunkHeader line else None) of
                Some target \<Rightarrow> TokOpBlock ln target
              | None \<Rightarrow>
                  if line ! 0 = CHAR_PAYLOAD_REPLACE then TokPayload ln (drop 1 line)
                  else TokRaw ln line)))"

section \<open>The class \<open>Tokenizer\<close>\<close>

record tokenizer =
  buffer :: jstring
  nextLineNum :: nat
  closed :: bool

definition new_tokenizer :: tokenizer where
  "new_tokenizer = \<lparr>buffer = [], nextLineNum = 1, closed = False\<rparr>"

function drain_loop :: "jstring \<Rightarrow> nat \<Rightarrow> nat \<Rightarrow> nat \<Rightarrow> token list \<times> nat \<times> nat" where
  "drain_loop buf start i ln =
     (if i < length buf then
        (if buf ! i \<noteq> LF then drain_loop buf start (Suc i) ln
         else
           (let stop = (if start < i \<and> buf ! (i - 1) = CR then i - 1 else i)
            in case drain_loop buf (Suc i) (Suc i) (Suc ln) of (ts, start', ln') \<Rightarrow>
                 (classifyLine (slice buf start stop) ln # ts, start', ln')))
      else ([], start, ln))"
  by pat_completeness auto
termination
  by (relation "measure (\<lambda>(buf, start, i, ln). length buf - i)") auto

declare drain_loop.simps [simp del]

definition drainCompleteLines :: "tokenizer \<Rightarrow> token list \<times> tokenizer" where
  "drainCompleteLines t =
     (case drain_loop (buffer t) 0 0 (nextLineNum t) of (ts, start, ln) \<Rightarrow>
        (ts, t\<lparr>buffer := (if start < length (buffer t) then drop start (buffer t) else []),
               nextLineNum := ln\<rparr>))"

definition tok_feed :: "tokenizer \<Rightarrow> jstring \<Rightarrow> (token list \<times> tokenizer) res" where
  "tok_feed t chunk =
     (if closed t then Inl TokenizerClosed
      else if length chunk = 0 then Inr ([], t)
      else Inr (drainCompleteLines (t\<lparr>buffer := buffer t @ chunk\<rparr>)))"

definition tok_end :: "tokenizer \<Rightarrow> token list \<times> tokenizer" where
  "tok_end t =
     (if closed t then ([], t)
      else
        (let buf = buffer t; t' = t\<lparr>closed := True, buffer := []\<rparr>
         in if length buf = 0 then ([], t')
            else
              (let stop = (if buf ! (length buf - 1) = CR then length buf - 1 else length buf)
               in ([classifyLine (slice buf 0 stop) (nextLineNum t)],
                   t'\<lparr>nextLineNum := Suc (nextLineNum t)\<rparr>))))"

definition tok_reset :: "tokenizer \<Rightarrow> tokenizer" where
  "tok_reset t = \<lparr>buffer = [], nextLineNum = 1, closed = False\<rparr>"

definition tokenizeAll :: "tokenizer \<Rightarrow> jstring \<Rightarrow> (token list \<times> tokenizer) res" where
  "tokenizeAll t text =
     rbind (tok_feed (tok_reset t) text) (\<lambda>(first, t1).
       (case tok_end t1 of (rest, t2) \<Rightarrow> Inr (first @ rest, t2)))"

definition tokenize :: "jstring \<Rightarrow> nat \<Rightarrow> token" where
  "tokenize line ln = classifyLine line ln"

definition isOp :: "jstring \<Rightarrow> bool" where
  "isOp line = (tryParseHunkHeader line \<noteq> None)"

definition isHeader :: "jstring \<Rightarrow> bool" where
  "isHeader line = (tryParseHeader line \<noteq> None)"

definition isEnvelopeMarker :: "jstring \<Rightarrow> bool" where
  "isEnvelopeMarker line =
     (markerLineEquals line BEGIN_PATCH_MARKER \<or> markerLineEquals line END_PATCH_MARKER \<or>
      markerLineEquals line ABORT_MARKER)"

section \<open>Splitting a buffer into lines\<close>

text \<open>
  The loops over \<open>index\<close> and \<open>start\<close> compute the pieces between line feeds; the last piece
  is what remains buffered.
\<close>

definition chop_cr :: "jstring \<Rightarrow> jstring" where
  "chop_cr l = (if l \<noteq> [] \<and> last l = CR then butlast l else l)"

definition complete_lines :: "jstring \<Rightarrow> jstring list" where
  "complete_lines s = butlast (split_lines s)"

definition remainder :: "jstring \<Rightarrow> jstring" where
  "remainder s = last (split_lines s)"

fun classify_from :: "nat \<Rightarrow> jstring list \<Rightarrow> token list" where
  "classify_from ln [] = []"
| "classify_from ln (l # ls) = classifyLine l ln # classify_from (Suc ln) ls"

lemma classify_from_append:
  "classify_from ln (xs @ ys) = classify_from ln xs @ classify_from (ln + length xs) ys"
  by (induction xs arbitrary: ln) auto

lemma slice_chop:
  assumes "start \<le> i" "i \<le> length buf"
  shows "slice buf start (if start < i \<and> buf ! (i - 1) = CR then i - 1 else i) =
    chop_cr (slice buf start i)"
proof (cases "start < i")
  case True
  then obtain k where k: "i = Suc k" "start \<le> k" by (cases i) auto
  then have "slice buf start i = slice buf start k @ [buf ! k]"
    using assms by (simp add: slice_def Suc_diff_le take_Suc_conv_app_nth)
  then show ?thesis using True k by (simp add: chop_cr_def)
next
  case False
  then show ?thesis using assms by (simp add: slice_def chop_cr_def)
qed

lemma split_lines_LF:
  assumes "start \<le> i" "i < length buf" "buf ! i = LF" "LF \<notin> set (slice buf start i)"
  shows "split_lines (drop start buf) = slice buf start i # split_lines (drop (Suc i) buf)"
proof -
  have "drop start buf = take (i - start) (drop start buf) @ drop (i - start) (drop start buf)"
    by (simp only: append_take_drop_id)
  also have "drop (i - start) (drop start buf) = LF # drop (Suc i) buf"
    using assms Cons_nth_drop_Suc [of i buf] by simp
  finally show ?thesis
    using split_on_append_sep [OF assms(4), of "drop (Suc i) buf"] by (simp add: slice_def)
qed

lemma slice_Suc_no_LF:
  assumes "start \<le> i" "i < length buf" "buf ! i \<noteq> LF" "LF \<notin> set (slice buf start i)"
  shows "LF \<notin> set (slice buf start (Suc i))"
  using assms by (simp add: slice_def Suc_diff_le take_Suc_conv_app_nth)

lemma complete_remainder_Cons:
  "split_lines s = l # split_lines t \<Longrightarrow>
   complete_lines s = l # complete_lines t \<and> remainder s = remainder t"
  by (simp add: complete_lines_def remainder_def)

lemma complete_remainder_none:
  "LF \<notin> set s \<Longrightarrow> complete_lines s = [] \<and> remainder s = s"
  by (simp add: complete_lines_def remainder_def split_on_none)

lemma join_with_last: "ls \<noteq> [] \<Longrightarrow> \<exists>p. join_with d ls = p @ last ls"
proof (induction ls)
  case (Cons l ls)
  show ?case
  proof (cases "ls = []")
    case False
    then obtain p where "join_with d ls = p @ last ls" using Cons.IH by blast
    then show ?thesis using False by (intro exI [of _ "l @ d @ p"]) (simp add: join_with_Cons)
  qed simp
qed simp

lemma remainder_length: "length (remainder s) \<le> length s"
proof -
  have "length (last (split_on d s)) \<le> length s" for d :: nat
  proof (induction s)
    case (Cons c cs)
    then show ?case
      by (cases "split_on d cs") (auto split: if_splits)
  qed simp
  then show ?thesis by (simp add: remainder_def)
qed

lemma drop_remainder: "drop (length s - length (remainder s)) s = remainder s"
proof -
  have "\<exists>p. s = p @ last (split_lines s)"
    using join_with_last [of "split_lines s" "[LF]"] by (simp add: join_split)
  then obtain p where "s = p @ remainder s" by (auto simp: remainder_def)
  then show ?thesis by (metis add_diff_cancel_right' append_eq_conv_conj length_append)
qed

lemma remainder_no_LF: "LF \<notin> set (remainder s)"
  using split_on_no_sep [of "last (split_lines s)" LF s] by (simp add: remainder_def)

lemma drain_loop_eq:
  assumes "start \<le> i" "i \<le> length buf" "LF \<notin> set (slice buf start i)"
  shows "drain_loop buf start i ln =
    (classify_from ln (map chop_cr (complete_lines (drop start buf))),
     length buf - length (remainder (drop start buf)),
     ln + length (complete_lines (drop start buf)))"
  using assms
proof (induction buf start i ln rule: drain_loop.induct)
  case (1 buf start i ln)
  show ?case
  proof (cases "i < length buf")
    case False
    then have "LF \<notin> set (drop start buf)" using 1 by (simp add: slice_def)
    then show ?thesis
      using False 1 complete_remainder_none [of "drop start buf"]
      by (subst drain_loop.simps) auto
  next
    case True
    show ?thesis
    proof (cases "buf ! i = LF")
      case False
      then show ?thesis
        using True 1 slice_Suc_no_LF [of start i buf]
        by (simp add: drain_loop.simps [of buf start i ln])
    next
      case LF: True
      define stop where "stop = (if start < i \<and> buf ! (i - 1) = CR then i - 1 else i)"
      have ch: "slice buf start stop = chop_cr (slice buf start i)"
        unfolding stop_def using 1 True by (intro slice_chop) auto
      have cr: "complete_lines (drop start buf) =
          slice buf start i # complete_lines (drop (Suc i) buf)"
        "remainder (drop start buf) = remainder (drop (Suc i) buf)"
        using complete_remainder_Cons [OF split_lines_LF [of start i buf]] 1 True LF by auto
      have "drain_loop buf (Suc i) (Suc i) (Suc ln) =
          (classify_from (Suc ln) (map chop_cr (complete_lines (drop (Suc i) buf))),
           length buf - length (remainder (drop (Suc i) buf)),
           Suc ln + length (complete_lines (drop (Suc i) buf)))"
        using 1(2) [OF True] LF True by (simp add: slice_def)
      then show ?thesis
        using True LF ch [unfolded stop_def] cr
        by (auto simp: drain_loop.simps [of buf start i ln] Let_def split: if_splits)
    qed
  qed
qed

lemma drainCompleteLines_eq:
  "drainCompleteLines t =
    (classify_from (nextLineNum t) (map chop_cr (complete_lines (buffer t))),
     t\<lparr>buffer := remainder (buffer t),
       nextLineNum := nextLineNum t + length (complete_lines (buffer t))\<rparr>)"
proof -
  let ?b = "buffer t"
  have "drain_loop ?b 0 0 (nextLineNum t) =
    (classify_from (nextLineNum t) (map chop_cr (complete_lines ?b)),
     length ?b - length (remainder ?b), nextLineNum t + length (complete_lines ?b))"
    using drain_loop_eq [of 0 0 ?b] by (simp add: slice_def)
  moreover have "(if length ?b - length (remainder ?b) < length ?b
      then drop (length ?b - length (remainder ?b)) ?b else []) = remainder ?b"
    using drop_remainder [of ?b] by auto
  ultimately show ?thesis by (simp add: drainCompleteLines_def)
qed

section \<open>Feeding a tokenizer\<close>

lemma complete_lines_append:
  "complete_lines (a @ b) = complete_lines a @ complete_lines (remainder a @ b)"
  unfolding complete_lines_def remainder_def
  by (subst split_lines_append) (simp add: butlast_append)

lemma remainder_append: "remainder (a @ b) = remainder (remainder a @ b)"
  unfolding remainder_def by (subst split_lines_append) simp

lemma complete_remainder [simp]:
  "complete_lines (remainder s) = []" "remainder (remainder s) = remainder s"
  using complete_remainder_none [OF remainder_no_LF] by blast+

text \<open>Between calls the buffer holds no complete line.\<close>

definition tok_inv :: "tokenizer \<Rightarrow> bool" where
  "tok_inv t = (LF \<notin> set (buffer t))"

lemma tok_inv_new [simp]: "tok_inv new_tokenizer" "tok_inv (tok_reset t)"
  by (simp_all add: tok_inv_def new_tokenizer_def tok_reset_def)

lemma tok_feed_eq:
  assumes "tok_inv t" "\<not> closed t"
  shows "tok_feed t chunk = Inr
    (classify_from (nextLineNum t) (map chop_cr (complete_lines (buffer t @ chunk))),
     t\<lparr>buffer := remainder (buffer t @ chunk),
       nextLineNum := nextLineNum t + length (complete_lines (buffer t @ chunk))\<rparr>)"
proof (cases "chunk = []")
  case True
  then show ?thesis
    using assms complete_remainder_none [of "buffer t"]
    by (simp add: tok_feed_def tok_inv_def)
next
  case False
  then show ?thesis
    using assms by (simp add: tok_feed_def drainCompleteLines_eq)
qed

lemma tok_feed_inv:
  "tok_inv t \<Longrightarrow> tok_feed t chunk = Inr (ts, t') \<Longrightarrow> tok_inv t' \<and> closed t' = closed t"
  using tok_feed_eq [of t chunk]
  by (cases "closed t") (auto simp: tok_inv_def remainder_no_LF tok_feed_def)

lemma tok_end_eq:
  "\<not> closed t \<Longrightarrow> tok_end t =
    (if buffer t = [] then [] else [classifyLine (chop_cr (buffer t)) (nextLineNum t)],
     t\<lparr>closed := True, buffer := [],
       nextLineNum := nextLineNum t + (if buffer t = [] then 0 else 1)\<rparr>)"
  by (auto simp: tok_end_def Let_def chop_cr_def slice_def last_conv_nth butlast_conv_take)

text \<open>
  A whole input arriving in chunks, as the streaming callers feed it: the tokens of all the
  chunks, then those of \<open>end()\<close>.
\<close>

fun feed_chunks :: "tokenizer \<Rightarrow> jstring list \<Rightarrow> (token list \<times> tokenizer) res" where
  "feed_chunks t [] = Inr ([], t)"
| "feed_chunks t (c # cs) =
     rbind (tok_feed t c) (\<lambda>(ts, t1). rbind (feed_chunks t1 cs) (\<lambda>(us, t2). Inr (ts @ us, t2)))"

definition stream_tokens :: "jstring list \<Rightarrow> (token list \<times> tokenizer) res" where
  "stream_tokens cs =
     rbind (feed_chunks new_tokenizer cs) (\<lambda>(ts, t). case tok_end t of (us, t') \<Rightarrow> Inr (ts @ us, t'))"

lemma feed_chunks_concat:
  "tok_inv t \<Longrightarrow> \<not> closed t \<Longrightarrow> feed_chunks t cs = tok_feed t (concat cs)"
proof (induction cs arbitrary: t)
  case Nil
  then show ?case by (simp add: tok_feed_def)
next
  case (Cons c cs)
  define t1 where "t1 = t\<lparr>buffer := remainder (buffer t @ c),
       nextLineNum := nextLineNum t + length (complete_lines (buffer t @ c))\<rparr>"
  have inv: "tok_inv t1" "\<not> closed t1"
    using Cons.prems by (simp_all add: t1_def tok_inv_def remainder_no_LF)
  have "feed_chunks t1 cs = tok_feed t1 (concat cs)" by (rule Cons.IH [OF inv])
  then show ?case
    using tok_feed_eq [OF Cons.prems] tok_feed_eq [OF inv]
      complete_lines_append [of "buffer t @ c" "concat cs"]
      remainder_append [of "buffer t @ c" "concat cs"]
    by (simp add: t1_def classify_from_append)
qed

text \<open>
  C37: the tokens of an input do not depend on how it was cut into chunks: feeding any list of
  chunks and ending gives exactly what \<open>tokenizeAll\<close> gives on their concatenation (tokens,
  line numbers and final tokenizer state), and feeding never fails.
\<close>

theorem stream_tokens_tokenizeAll:
  "stream_tokens cs = tokenizeAll t (concat cs)"
  unfolding stream_tokens_def tokenizeAll_def
  by (subst feed_chunks_concat) (simp_all add: new_tokenizer_def tok_reset_def tok_inv_def)

lemma split_loop_eq:
  assumes "start \<le> i" "i \<le> length tx" "LF \<notin> set (slice tx start i)"
  shows "split_loop tx start i =
    map chop_cr (complete_lines (drop start tx)) @
    (if remainder (drop start tx) = [] then [] else [chop_cr (remainder (drop start tx))])"
  using assms
proof (induction tx start i rule: split_loop.induct)
  case (1 tx start i)
  show ?case
  proof (cases "i < length tx")
    case False
    then have n: "LF \<notin> set (drop start tx)" using 1 by (simp add: slice_def)
    have "slice tx start (if start < length tx \<and> tx ! (length tx - 1) = CR
        then length tx - 1 else length tx) = chop_cr (drop start tx)"
      using slice_chop [of start "length tx" tx] 1 False by (simp add: slice_def)
    then show ?thesis
      using False 1 complete_remainder_none [OF n]
      by (subst split_loop.simps) (auto simp: Let_def)
  next
    case True
    show ?thesis
    proof (cases "tx ! i = LF")
      case False
      then show ?thesis
        using True 1 slice_Suc_no_LF [of start i tx]
        by (simp add: split_loop.simps [of tx start i])
    next
      case LF: True
      define stop where "stop = (if start < i \<and> tx ! (i - 1) = CR then i - 1 else i)"
      have ch: "slice tx start stop = chop_cr (slice tx start i)"
        unfolding stop_def using 1 True by (intro slice_chop) auto
      have cr: "complete_lines (drop start tx) =
          slice tx start i # complete_lines (drop (Suc i) tx)"
        "remainder (drop start tx) = remainder (drop (Suc i) tx)"
        using complete_remainder_Cons [OF split_lines_LF [of start i tx]] 1 True LF by auto
      have "split_loop tx (Suc i) (Suc i) =
        map chop_cr (complete_lines (drop (Suc i) tx)) @
        (if remainder (drop (Suc i) tx) = [] then [] else [chop_cr (remainder (drop (Suc i) tx))])"
        using 1(2) [OF True] LF True by (simp add: slice_def)
      then show ?thesis
        using True LF ch [unfolded stop_def] cr
        by (auto simp: split_loop.simps [of tx start i] Let_def split: if_splits)
    qed
  qed
qed

lemma tokenizeAll_lines:
  "tokenizeAll t tx = Inr
    (classify_from 1 (if tx = [] then [] else splitHashlineLines tx),
     \<lparr>buffer = [], nextLineNum = 1 + length (if tx = [] then [] else splitHashlineLines tx),
      closed = True\<rparr>)"
proof -
  have "splitHashlineLines tx = map chop_cr (complete_lines tx) @
      (if remainder tx = [] then [] else [chop_cr (remainder tx)])" if "tx \<noteq> []"
    using that split_loop_eq [where tx = tx and start = 0 and i = 0] by (simp add: splitHashlineLines_def slice_def)
  then show ?thesis
    by (cases "tx = []")
       (simp_all add: tokenizeAll_def tok_feed_eq tok_end_eq tok_reset_def tok_inv_def
         classify_from_append complete_remainder_none)
qed

section \<open>Scanning what the printers print\<close>

lemma digits_loop_eq:
  "i \<le> e \<Longrightarrow> e \<le> length line \<Longrightarrow>
   digits_loop line n i e =
     (foldl (\<lambda>v c. v * 10 + (c - 48)) n (takeWhile isDigitCode (slice line i e)),
      scan_while isDigitCode line i e)"
proof (induction line n i e rule: digits_loop.induct)
  case (1 line n i e)
  show ?case
  proof (cases "i < e")
    case False
    then show ?thesis
      by (simp add: digits_loop.simps [of line n i e] slice_def scan_while.simps)
  next
    case True
    have sl: "slice line i e = line ! i # slice line (Suc i) e"
      using True 1(3) by (simp add: slice_def Cons_nth_drop_Suc [symmetric] take_Cons')
    show ?thesis
      using 1 True by (simp add: digits_loop.simps [of line n i e] sl
          scan_while.simps [of isDigitCode line i e])
  qed
qed

lemma isDigitCode_is_digit: "isDigitCode = is_digit"
  by (auto simp: isDigitCode_def is_digit_def fun_eq_iff)

lemma takeWhile_dec:
  "c = [] \<or> \<not> isDigitCode (hd c) \<Longrightarrow> takeWhile isDigitCode (dec n @ c) = dec n"
proof -
  assume c: "c = [] \<or> \<not> isDigitCode (hd c)"
  have "takeWhile isDigitCode (dec n @ c) = dec n @ takeWhile isDigitCode c"
    using dec_digits [of n] by (intro takeWhile_append2) (simp add: isDigitCode_is_digit)
  also have "takeWhile isDigitCode c = []" using c by (cases c) auto
  finally show ?thesis by simp
qed

lemma hd_dec_nonzero: "0 < n \<Longrightarrow> isNonZeroDigitCode (hd (dec n))"
  using hd_dec_pos [of n] dec_digits [of n] by (auto simp: isNonZeroDigitCode_def is_digit_def)

lemma slice_to_end: "slice s i (length s) = drop i s"
  by (simp add: slice_def)

text \<open>A printed positive number is read back, wherever it stands in the line.\<close>

lemma scanLineNumber_dec:
  assumes "drop i line = dec n @ c" "i \<le> length line" "0 < n" "c = [] \<or> \<not> isDigitCode (hd c)"
  shows "scanLineNumber line i (length line) = Some (n, i + length (dec n))"
proof -
  have len: "length line = i + length (dec n) + length c"
    using assms(1,2) by (metis add.assoc le_add_diff_inverse length_append length_drop)
  have "0 < length (dec n)" by simp
  then have lt: "i < length line" using len by linarith
  have "line ! i = hd (dec n)"
    using assms(1) lt by (metis dec_not_Nil hd_append2 hd_drop_conv_nth)
  then have nz: "isNonZeroDigitCode (line ! i)" using hd_dec_nonzero [OF assms(3)] by simp
  have tw: "takeWhile isDigitCode (slice line i (length line)) = dec n"
    using assms(1) takeWhile_dec [OF assms(4), of n] by (simp only: slice_to_end)
  show ?thesis
    using lt nz tw digits_loop_eq [of i "length line" line 0]
    by (simp add: scanLineNumber_def scan_while_eq dec_value_def [symmetric])
qed

lemma skipWhitespace_stay:
  "i < e \<Longrightarrow> \<not> isWhitespaceCode (line ! i) \<Longrightarrow> skipWhitespace line i e = i"
  by (simp add: skipWhitespace_def scan_while_stay)

lemma skipWhitespace_end [simp]: "skipWhitespace line e e = e"
  by (simp add: skipWhitespace_def)

lemma skipWhitespace_space:
  "Suc i < e \<Longrightarrow> line ! i = 32 \<Longrightarrow> \<not> isWhitespaceCode (line ! Suc i) \<Longrightarrow>
   skipWhitespace line i e = Suc i"
  unfolding skipWhitespace_def
  by (subst scan_while.simps)
     (simp add: scan_while_stay isWhitespaceCode_def CHAR_SPACE_def)

lemma trimEndIndex_full:
  "line \<noteq> [] \<Longrightarrow> \<not> isWhitespaceCode (last line) \<Longrightarrow> trimEndIndex line = length line"
  by (cases "length line") (auto simp: trimEndIndex_def last_conv_nth)

lemma digit_not_blank: "is_digit c \<Longrightarrow> \<not> isWhitespaceCode c"
  by (auto simp: is_digit_def isWhitespaceCode_def char_codes)

lemma starts_with_at_drop: "starts_with_at s p i \<longleftrightarrow> starts_with (drop i s) p"
  by (simp add: starts_with_at_def starts_with_def)

lemma scanKeyword_hit:
  assumes "drop i line = kw @ c" "c = [] \<or> isWhitespaceCode (hd c) \<or> hd c = CHAR_COLON"
    and "i \<le> length line"
  shows "scanKeyword line i (length line) kw = Some (i + length kw)"
proof -
  have start: "starts_with_at line kw i" using assms(1) by (simp add: starts_with_at_drop)
  have rest: "drop (i + length kw) line = c"
    using assms(1) by (metis append_eq_conv_conj drop_drop add.commute)
  show ?thesis
  proof (cases c)
    case Nil
    with rest have "\<not> i + length kw < length line" by simp
    with start show ?thesis by (simp add: scanKeyword_def Let_def)
  next
    case (Cons x xs)
    then have "line ! (i + length kw) = x" using rest by (metis nth_via_drop)
    with Cons assms(2) start show ?thesis by (auto simp: scanKeyword_def Let_def)
  qed
qed

lemma scanKeyword_miss:
  "drop i line = x # c \<Longrightarrow> kw \<noteq> [] \<Longrightarrow> x \<noteq> hd kw \<Longrightarrow> scanKeyword line i e kw = None"
  by (cases kw) (auto simp: scanKeyword_def starts_with_at_drop starts_with_def)

lemma dec_Cons: "\<exists>d ds. dec n = d # ds \<and> is_digit d"
proof -
  have "hd (dec n) \<in> set (dec n)" by simp
  then have "is_digit (hd (dec n))" using dec_digits by blast
  then show ?thesis by (cases "dec n") auto
qed

lemma rangeSeparator_dots:
  assumes "drop i line = 46 # 46 # d # c" "is_digit d" "48 < d" "e = length line"
  shows "scanRangeSeparator line i e = Some (i + 2)"
proof -
  have d1: "drop (Suc i) line = 46 # d # c" and d2: "drop (i + 2) line = d # c"
    using assms(1) by (metis drop_Suc list.sel(3) tl_drop,
        metis drop_Suc list.sel(3) tl_drop add_2_eq_Suc')
  have nth: "line ! i = 46" "line ! Suc i = 46" "line ! (i + 2) = d"
    using assms(1) d1 d2 by (metis nth_via_drop)+
  have len: "i + 2 < length line"
    using d2 by (metis drop_eq_Nil2 linorder_not_less list.distinct(1))
  have "range_separator_loop line (i + 2) e True = (i + 2, True)"
    using nth len assms
    by (subst range_separator_loop.simps)
       (auto simp: isWhitespaceCode_def char_codes is_digit_def)
  then have "range_separator_loop line i e False = (i + 2, True)"
    using nth len assms
    by (subst range_separator_loop.simps) (auto simp: isWhitespaceCode_def char_codes)
  then show ?thesis
    using nth len assms by (simp add: scanRangeSeparator_def isNonZeroDigitCode_def is_digit_def)
qed
lemma drop_after: "drop i s = x @ r \<Longrightarrow> drop (i + length x) s = r"
  by (metis append_eq_conv_conj drop_drop add.commute)

lemma drop_Cons_facts:
  assumes "drop i s = x # r"
  shows "i < length s" "s ! i = x" "drop (Suc i) s = r"
  using assms
  by (metis drop_eq_Nil2 linorder_not_less list.distinct(1), metis nth_via_drop,
      metis drop_Suc list.sel(3) tl_drop)

lemma consumeOptionalColon_end:
  "drop i line = js '':'' \<Longrightarrow> consumeOptionalColon line i (length line) = length line"
proof -
  assume a: "drop i line = js '':''"
  then have i: "i < length line" "line ! i = 58" "drop (Suc i) line = []"
    using drop_Cons_facts [of i line 58 "[]"] by simp_all
  then have "length line = Suc i" by simp
  with i skipWhitespace_stay [of i "length line" line] show ?thesis
    by (simp add: consumeOptionalColon_def isWhitespaceCode_def char_codes)
qed

lemma scanLineNumber_dec_at:
  assumes "drop i line = dec n @ c" "0 < n" "c = [] \<or> \<not> isDigitCode (hd c)"
  shows "scanLineNumber line i (length line) = Some (n, i + length (dec n))"
proof (rule scanLineNumber_dec [OF assms(1) _ assms(2,3)])
  have "drop i line \<noteq> []" using assms(1) by simp
  then show "i \<le> length line" by simp
qed

lemma skip_to_dec:
  assumes "drop i line = 32 # dec n @ c"
  shows "skipWhitespace line i (length line) = Suc i"
proof -
  obtain d ds where d: "dec n = d # ds" "is_digit d" using dec_Cons by blast
  note f = drop_Cons_facts [OF assms]
  have "drop (Suc i) line = d # ds @ c" using f(3) d(1) by simp
  note g = drop_Cons_facts [OF this]
  show ?thesis
    using f g d(2) digit_not_blank by (intro skipWhitespace_space) auto
qed

lemma scanHeaderRange_dec:
  assumes "drop i line = 32 # dec s @ [46, 46] @ dec e @ c" "0 < s" "0 < e"
    and "c = [] \<or> c = js '':''"
  shows "scanHeaderRange line i (length line) True =
    Some (ParsedRange s e, length line - length c)"
proof -
  let ?E = "length line"
  have sk: "skipWhitespace line i ?E = Suc i" using assms(1) by (intro skip_to_dec) simp
  have d1: "drop (Suc i) line = dec s @ [46, 46] @ dec e @ c"
    using drop_Cons_facts(3) [OF assms(1)] by simp
  have n1: "scanLineNumber line (Suc i) ?E = Some (s, Suc i + length (dec s))"
    by (rule scanLineNumber_dec_at [OF d1 assms(2)]) (simp add: isDigitCode_def)
  let ?j = "Suc i + length (dec s)"
  have d2: "drop ?j line = [46, 46] @ dec e @ c" by (rule drop_after [OF d1])
  obtain d ds where d: "dec e = d # ds" "is_digit d" using dec_Cons by blast
  have "48 < d" using hd_dec_pos [OF assms(3)] d(1) by simp
  then have sep: "scanRangeSeparator line ?j ?E = Some (?j + 2)"
    using d2 d by (intro rangeSeparator_dots [where d = d and c = "ds @ c"]) simp_all
  have d3: "drop (?j + 2) line = dec e @ c" using drop_after [OF d2] by simp
  have n2: "scanLineNumber line (?j + 2) ?E = Some (e, ?j + 2 + length (dec e))"
    by (rule scanLineNumber_dec_at [OF d3 assms(3)]) (use assms(4) in \<open>auto simp: isDigitCode_def\<close>)
  let ?k = "?j + 2 + length (dec e)"
  have d4: "drop ?k line = c" by (rule drop_after [OF d3])
  have "drop (?j + 2) line \<noteq> []" using d3 by simp
  then have lt: "?j + 2 < ?E" by simp
  have "length (drop (?j + 2) line) = length (dec e) + length c" using d3 by simp
  with lt have k: "?k = ?E - length c" by simp
  have "skipWhitespace line ?k ?E = ?k"
  proof (cases "c = []")
    case True
    then have "?k = ?E" using k by simp
    then show ?thesis by simp
  next
    case False
    then have "drop ?k line = 58 # []" using d4 assms(4) by simp
    note f = drop_Cons_facts [OF this]
    show ?thesis
      using f by (intro skipWhitespace_stay) (simp_all add: isWhitespaceCode_def char_codes)
  qed
  then show ?thesis
    by (simp only: scanHeaderRange_def sk n1 sep n2 k option.case prod.case)
qed

lemma tryParseHunkHeader_full:
  assumes "line \<noteq> []" "\<not> isWhitespaceCode (hd line)" "\<not> isWhitespaceCode (last line)"
    and "scanHunkAnchor line 0 (length line) = Some (t, length line)"
  shows "tryParseHunkHeader line = Some t"
proof -
  have "line ! 0 = hd line" "0 < length line" using assms(1) by (simp_all add: hd_conv_nth)
  then have "skipWhitespace line 0 (length line) = 0"
    using assms(2) by (intro skipWhitespace_stay) simp_all
  then show ?thesis
    using assms by (simp add: tryParseHunkHeader_def trimEndIndex_full)
qed

definition hunk_keyword :: "jstring \<Rightarrow> bool" where
  "hunk_keyword kw \<longleftrightarrow> kw = HL_REPLACE_KEYWORD \<or> kw = HL_DELETE_KEYWORD \<or> kw = HL_INSERT_KEYWORD"

lemma classify_hunk:
  assumes "hunk_keyword kw" "line = kw @ rest" "\<not> isWhitespaceCode (last line)"
    and "scanHunkAnchor line 0 (length line) = Some (t, length line)"
  shows "classifyLine line ln = TokOpBlock ln t"
proof -
  have hd: "hd line \<in> {114, 100, 105}" "line \<noteq> []"
    using assms(1,2) by (auto simp: hunk_keyword_def hl_keywords)
  then have nw: "\<not> isWhitespaceCode (hd line)" by (auto simp: isWhitespaceCode_def char_codes)
  have "line ! 0 = hd line" using hd(2) by (simp add: hd_conv_nth)
  then have "skipWhitespace line 0 (length line) = 0"
    using nw hd(2) by (intro skipWhitespace_stay) simp_all
  then have lead: "isHunkLead line"
    using assms(1,2) by (auto simp: isHunkLead_def hunk_keyword_def starts_with_at_drop)
  have markers: "\<not> starts_with line BEGIN_PATCH_MARKER" "\<not> starts_with line END_PATCH_MARKER"
      "\<not> starts_with line ABORT_MARKER" "\<not> starts_with line HL_FILE_PREFIX"
    using hd by (cases line; auto simp: starts_with_def patch_markers HL_FILE_PREFIX_def)+
  show ?thesis
    using hd(2) lead markers tryParseHunkHeader_full [OF hd(2) nw assms(3,4)]
    by (simp add: classifyLine_def isEmptyLine_def markerLineEquals_def Let_def)
qed
lemma print_replace:
  assumes "0 < s" "0 < e"
  shows "classifyLine (formatReplaceHeader s e) ln = TokOpBlock ln (TReplace (ParsedRange s e))"
proof -
  define line where "line = formatReplaceHeader s e"
  have line: "line = js ''replace'' @ 32 # dec s @ [46, 46] @ dec e @ js '':''"
    by (simp add: line_def formatReplaceHeader_def hl_keywords hl_sigils)
  have d0: "drop 7 line = 32 # dec s @ [46, 46] @ dec e @ js '':''" by (simp add: line)
  have kw: "scanKeyword line 0 (length line) HL_REPLACE_KEYWORD = Some 7"
    using scanKeyword_hit [of 0 line HL_REPLACE_KEYWORD "32 # dec s @ [46, 46] @ dec e @ js '':''"]
    by (simp add: line HL_REPLACE_KEYWORD_def isWhitespaceCode_def char_codes)
  have sk0: "skipWhitespace line 0 (length line) = 0"
    by (rule skipWhitespace_stay) (simp_all add: line isWhitespaceCode_def char_codes)
  have sk: "skipWhitespace line 7 (length line) = 8" using skip_to_dec [OF d0] by simp
  obtain d ds where d: "dec s = d # ds" "is_digit d" using dec_Cons by blast
  have "drop 8 line = d # ds @ [46, 46] @ dec e @ js '':''" by (simp add: line d)
  then have nb: "scanKeyword line 8 (length line) HL_BLOCK_KEYWORD = None"
    using d(2) by (intro scanKeyword_miss) (auto simp: HL_BLOCK_KEYWORD_def is_digit_def)
  have rng: "scanHeaderRange line 7 (length line) True =
      Some (ParsedRange s e, length line - length (js '':''))"
    using assms by (intro scanHeaderRange_dec [OF d0]) simp_all
  have "drop (length line - 1) line = js '':''" by (simp add: line)
  then have "consumeOptionalColon line (length line - 1) (length line) = length line"
    by (rule consumeOptionalColon_end)
  then have "scanHunkAnchor line 0 (length line) = Some (TReplace (ParsedRange s e), length line)"
    using sk0 kw sk nb rng by (simp add: scanHunkAnchor_def scanReplaceTarget_def)
  then have "classifyLine line ln = TokOpBlock ln (TReplace (ParsedRange s e))"
    by (intro classify_hunk [where kw = HL_REPLACE_KEYWORD])
       (simp_all add: hunk_keyword_def line HL_REPLACE_KEYWORD_def isWhitespaceCode_def char_codes)
  then show ?thesis by (simp add: line_def)
qed

lemma scanHeaderRange_single:
  assumes "drop i line = 32 # dec s" "0 < s"
  shows "scanHeaderRange line i (length line) True = Some (ParsedRange s s, length line)"
proof -
  let ?E = "length line"
  have sk: "skipWhitespace line i ?E = Suc i"
    using skip_to_dec [of i line s "[]"] assms(1) by simp
  have d1: "drop (Suc i) line = dec s @ []"
    using drop_Cons_facts(3) [OF assms(1)] by simp
  have n1: "scanLineNumber line (Suc i) ?E = Some (s, Suc i + length (dec s))"
    by (rule scanLineNumber_dec_at [OF d1 assms(2)]) simp
  have "drop (Suc i + length (dec s)) line = []" using drop_after [OF d1] by simp
  moreover have "Suc i < ?E" using d1 by (metis append_Nil2 dec_not_Nil drop_eq_Nil2 linorder_not_less)
  moreover have "length (drop (Suc i) line) = length (dec s)" using d1 by simp
  ultimately have k: "Suc i + length (dec s) = ?E" by simp
  have "scanRangeSeparator line ?E ?E = None"
    by (simp add: scanRangeSeparator_def range_separator_loop.simps)
  then show ?thesis
    unfolding scanHeaderRange_def sk n1 k by simp
qed

lemma print_delete:
  assumes "0 < s" "0 < e"
  shows "classifyLine (formatDeleteHeader s e) ln = TokOpBlock ln (TDelete (ParsedRange s e))"
proof -
  define line where "line = formatDeleteHeader s e"
  define tail where "tail = (if s = e then dec s else dec s @ [46, 46] @ dec e)"
  have line: "line = js ''delete'' @ 32 # tail"
    by (simp add: line_def tail_def formatDeleteHeader_def hl_keywords hl_sigils)
  have d0: "drop 6 line = 32 # tail" by (simp add: line)
  have kw0: "scanKeyword line 0 (length line) HL_REPLACE_KEYWORD = None"
    using scanKeyword_miss [of 0 line 100 "tl line"] by (simp add: line HL_REPLACE_KEYWORD_def)
  have kw: "scanKeyword line 0 (length line) HL_DELETE_KEYWORD = Some 6"
    using scanKeyword_hit [of 0 line HL_DELETE_KEYWORD "32 # tail"]
    by (simp add: line HL_DELETE_KEYWORD_def isWhitespaceCode_def char_codes)
  have sk0: "skipWhitespace line 0 (length line) = 0"
    by (rule skipWhitespace_stay) (simp_all add: line isWhitespaceCode_def char_codes)
  obtain d ds where d: "dec s = d # ds" "is_digit d" using dec_Cons by blast
  have sk: "skipWhitespace line 6 (length line) = 7"
    using skip_to_dec [of 6 line s "if s = e then [] else [46, 46] @ dec e"] d0
    by (auto simp: tail_def split: if_splits)
  have "drop 7 line = d # ds @ (if s = e then [] else [46, 46] @ dec e)"
    using d(1) by (auto simp: line tail_def)
  then have nb: "scanKeyword line 7 (length line) HL_BLOCK_KEYWORD = None"
    using d(2) by (intro scanKeyword_miss) (auto simp: HL_BLOCK_KEYWORD_def is_digit_def)
  have rng: "scanHeaderRange line 6 (length line) True = Some (ParsedRange s e, length line)"
  proof (cases "s = e")
    case True
    then show ?thesis using scanHeaderRange_single [of 6 line s] assms d0 by (simp add: tail_def)
  next
    case False
    then show ?thesis
      using scanHeaderRange_dec [of 6 line s e "[]"] assms d0 by (simp add: tail_def)
  qed
  have "scanHunkAnchor line 0 (length line) = Some (TDelete (ParsedRange s e), length line)"
    using sk0 kw0 kw sk nb rng by (simp add: scanHunkAnchor_def scanDeleteTarget_def)
  moreover have "last line = last tail" by (simp add: line tail_def)
  moreover have "is_digit (last tail)"
    using dec_digits [of s] dec_digits [of e] by (simp add: tail_def)
  ultimately have "classifyLine line ln = TokOpBlock ln (TDelete (ParsedRange s e))"
    using digit_not_blank
    by (intro classify_hunk [where kw = HL_DELETE_KEYWORD])
       (simp_all add: hunk_keyword_def line HL_DELETE_KEYWORD_def)
  then show ?thesis by (simp add: line_def)
qed

text \<open>The part of a printed insert header behind the keyword \<open>insert\<close>.\<close>

lemma print_insert_target:
  assumes "line = js ''insert'' @ 32 # rest" "rest \<noteq> []" "\<not> isWhitespaceCode (hd rest)"
    and "last rest = 58" "scanInsertTarget line 6 (length line) = Some (t, length line)"
  shows "classifyLine line ln = TokOpBlock ln t"
proof -
  have kws: "scanKeyword line 0 (length line) HL_REPLACE_KEYWORD = None"
      "scanKeyword line 0 (length line) HL_DELETE_KEYWORD = None"
    using scanKeyword_miss [of 0 line 105 "tl line"]
    by (simp_all add: assms(1) HL_REPLACE_KEYWORD_def HL_DELETE_KEYWORD_def)
  have kw: "scanKeyword line 0 (length line) HL_INSERT_KEYWORD = Some 6"
    using scanKeyword_hit [of 0 line HL_INSERT_KEYWORD "32 # rest"]
    by (simp add: assms(1) HL_INSERT_KEYWORD_def isWhitespaceCode_def char_codes)
  have sk0: "skipWhitespace line 0 (length line) = 0"
    by (rule skipWhitespace_stay) (simp_all add: assms(1) isWhitespaceCode_def char_codes)
  have "scanHunkAnchor line 0 (length line) = Some (t, length line)"
    using sk0 kws kw assms(5) by (simp add: scanHunkAnchor_def)
  then show ?thesis
    using assms(2,4)
    by (intro classify_hunk [where kw = HL_INSERT_KEYWORD and rest = "32 # rest"])
       (simp_all add: hunk_keyword_def assms(1) HL_INSERT_KEYWORD_def isWhitespaceCode_def char_codes)
qed

lemma insert_skip:
  assumes "line = js ''insert'' @ 32 # x # rest" "\<not> isWhitespaceCode x"
  shows "skipWhitespace line 6 (length line) = 7" "drop 7 line = x # rest"
  using assms skipWhitespace_space [of 6 "length line" line] by (simp_all add: assms(1))

lemma scan_anchor_number:
  assumes "drop i line = 32 # dec n @ js '':''" "0 < n"
  shows "scanLineNumber line (skipWhitespace line i (length line)) (length line) =
      Some (n, length line - 1)"
    "consumeOptionalColon line (length line - 1) (length line) = length line"
proof -
  have sk: "skipWhitespace line i (length line) = Suc i" by (rule skip_to_dec [OF assms(1)])
  have d1: "drop (Suc i) line = dec n @ js '':''" by (rule drop_Cons_facts(3) [OF assms(1)])
  have n: "scanLineNumber line (Suc i) (length line) = Some (n, Suc i + length (dec n))"
    by (rule scanLineNumber_dec_at [OF d1 assms(2)]) (simp add: isDigitCode_def)
  have d2: "drop (Suc i + length (dec n)) line = js '':''" by (rule drop_after [OF d1])
  then have "length (drop (Suc i + length (dec n)) line) = 1" by simp
  then have k: "Suc i + length (dec n) = length line - 1" by simp
  show "scanLineNumber line (skipWhitespace line i (length line)) (length line) =
      Some (n, length line - 1)"
    using n k sk by simp
  show "consumeOptionalColon line (length line - 1) (length line) = length line"
    using d2 k consumeOptionalColon_end by simp
qed

lemma print_insert_before:
  assumes "0 < n"
  shows "classifyLine (formatInsertHeader (BeforeAnchor n)) ln = TokOpBlock ln (TInsertBefore n)"
proof -
  define line where "line = formatInsertHeader (BeforeAnchor n)"
  have line: "line = js ''insert'' @ 32 # js ''before'' @ 32 # dec n @ js '':''"
    by (simp add: line_def hl_keywords hl_sigils)
  have sk: "skipWhitespace line 6 (length line) = 7"
    by (rule insert_skip(1) [where x = 98 and rest = "js ''efore'' @ 32 # dec n @ js '':''"])
       (simp_all add: line isWhitespaceCode_def char_codes)
  have "drop 7 line = HL_INSERT_BEFORE @ 32 # dec n @ js '':''"
    by (simp add: line HL_INSERT_BEFORE_def)
  then have kw: "scanKeyword line 7 (length line) HL_INSERT_BEFORE = Some 13"
    using scanKeyword_hit [of 7 line HL_INSERT_BEFORE "32 # dec n @ js '':''"]
    by (simp add: line isWhitespaceCode_def char_codes HL_INSERT_BEFORE_def)
  have "drop 13 line = 32 # dec n @ js '':''" by (simp add: line)
  note sc = scan_anchor_number [OF this assms]
  have "scanInsertTarget line 6 (length line) = Some (TInsertBefore n, length line)"
    using sk kw sc by (simp add: scanInsertTarget_def)
  then have "classifyLine line ln = TokOpBlock ln (TInsertBefore n)"
    by (intro print_insert_target [where rest = "js ''before'' @ 32 # dec n @ js '':''"])
       (simp_all add: line isWhitespaceCode_def char_codes)
  then show ?thesis by (simp add: line_def)
qed

lemma print_insert_after:
  assumes "0 < n"
  shows "classifyLine (formatInsertHeader (AfterAnchor n)) ln = TokOpBlock ln (TInsertAfter n)"
proof -
  define line where "line = formatInsertHeader (AfterAnchor n)"
  have line: "line = js ''insert'' @ 32 # js ''after'' @ 32 # dec n @ js '':''"
    by (simp add: line_def hl_keywords hl_sigils)
  have sk: "skipWhitespace line 6 (length line) = 7"
    and d7: "drop 7 line = 97 # js ''fter'' @ 32 # dec n @ js '':''"
    by (rule insert_skip [where x = 97]; simp add: line isWhitespaceCode_def char_codes)+
  have kb: "scanKeyword line 7 (length line) HL_INSERT_BEFORE = None"
    by (rule scanKeyword_miss [OF d7]) (simp_all add: HL_INSERT_BEFORE_def)
  have "drop 7 line = HL_INSERT_AFTER @ 32 # dec n @ js '':''"
    by (simp add: line HL_INSERT_AFTER_def)
  then have kw: "scanKeyword line 7 (length line) HL_INSERT_AFTER = Some 12"
    using scanKeyword_hit [of 7 line HL_INSERT_AFTER "32 # dec n @ js '':''"]
    by (simp add: line isWhitespaceCode_def char_codes HL_INSERT_AFTER_def)
  have "drop 12 line = 32 # dec n @ js '':''" by (simp add: line)
  note sc = scan_anchor_number [OF this assms]
  have "scanInsertTarget line 6 (length line) = Some (TInsertAfter n, length line)"
    using sk kb kw sc by (simp add: scanInsertTarget_def)
  then have "classifyLine line ln = TokOpBlock ln (TInsertAfter n)"
    by (intro print_insert_target [where rest = "js ''after'' @ 32 # dec n @ js '':''"])
       (simp_all add: line isWhitespaceCode_def char_codes)
  then show ?thesis by (simp add: line_def)
qed

lemma print_insert_head: "classifyLine (formatInsertHeader Bof) ln = TokOpBlock ln TBof"
  by code_simp

lemma print_insert_tail: "classifyLine (formatInsertHeader Eof) ln = TokOpBlock ln TEof"
  by code_simp

section \<open>Section headers\<close>

definition plain_path :: "jstring \<Rightarrow> bool" where
  "plain_path p \<longleftrightarrow> p \<noteq> [] \<and> (\<forall>c\<in>set p. \<not> path_stop c)"

lemma hex_digit_facts:
  "d < 16 \<Longrightarrow> isHexDigitCode (hex_digit d) \<and> \<not> (97 \<le> hex_digit d \<and> hex_digit d \<le> 122) \<and>
     \<not> isWhitespaceCode (hex_digit d)"
  by (auto simp: hex_digit_def isHexDigitCode_def isDigitCode_def isWhitespaceCode_def char_codes)

lemma hex4_facts:
  "length (hex4 n) = 4" "list_all isHexDigitCode (hex4 n)" "hex_upper (hex4 n) = hex4 n"
  "\<not> isWhitespaceCode (last (hex4 n))"
  using hex_digit_facts [of "n div 4096 mod 16"] hex_digit_facts [of "n div 256 mod 16"]
    hex_digit_facts [of "n div 16 mod 16"] hex_digit_facts [of "n mod 16"]
  by (auto simp: hex4_def hex_upper_def)

lemma scan_path:
  assumes "drop i line = p @ x # r" "\<forall>c\<in>set p. \<not> q c" "q x"
  shows "scan_while (\<lambda>c. \<not> q c) line i (length line) = i + length p"
proof -
  have "drop i line \<noteq> []" using assms(1) by simp
  then have "i < length line" by simp
  moreover have "takeWhile (\<lambda>c. \<not> q c) (p @ x # r) = p"
    using assms(2,3) by (subst takeWhile_append2) auto
  ultimately show ?thesis by (simp add: scan_while_eq slice_to_end assms(1))
qed

lemma tryParseHeader_print:
  assumes "plain_path p"
  shows "tryParseHeader (formatHashlineHeader p (hex4 n)) = Some (p, Some (hex4 n))"
proof -
  define line where "line = formatHashlineHeader p (hex4 n)"
  have line: "line = 0xB6 # p @ 35 # hex4 n"
    by (simp add: line_def formatHashlineHeader_def hl_sigils)
  have len: "length line = length p + 6" by (simp add: line hex4_facts)
  have te: "trimEndIndex line = length line"
    by (rule trimEndIndex_full) (simp_all add: line hex4_facts, simp add: hex4_def)
  have sc: "scan_while (\<lambda>c. \<not> path_stop c) line 1 (length line) = 1 + length p"
    using assms by (intro scan_path [where x = 35 and r = "hex4 n"])
      (simp_all add: line plain_path_def path_stop_def char_codes)
  have at: "line ! Suc (length p) = 35" by (simp add: line nth_append)
  have hash: "slice line (Suc (Suc (length p))) (Suc (Suc (length p)) + 4) = hex4 n"
    by (simp add: line slice_def hex4_facts)
  have path: "slice line 1 (1 + length p) = p" by (simp add: line slice_def)
  have pre: "starts_with line [0xB6]" by (simp add: line starts_with_def)
  have fin: "skipWhitespace line (6 + length p) (length p + 6) = length p + 6"
    by (simp add: skipWhitespace_def add.commute)
  show ?thesis
    using assms te sc at hash path hex4_facts len pre fin
    by (simp add: line_def [symmetric] tryParseHeader_def HL_FILE_PREFIX_def HL_FILE_HASH_LENGTH_def
        plain_path_def CHAR_HASH_def Let_def)
qed

text \<open>The printable targets and the header line the printers give for each.\<close>

fun print_target :: "block_target \<Rightarrow> jstring option" where
  "print_target (TReplace (ParsedRange s e)) = Some (formatReplaceHeader s e)"
| "print_target (TDelete (ParsedRange s e)) = Some (formatDeleteHeader s e)"
| "print_target (TInsertBefore n) = Some (formatInsertHeader (BeforeAnchor n))"
| "print_target (TInsertAfter n) = Some (formatInsertHeader (AfterAnchor n))"
| "print_target TBof = Some (formatInsertHeader Bof)"
| "print_target TEof = Some (formatInsertHeader Eof)"
| "print_target _ = None"

fun target_lines :: "block_target \<Rightarrow> nat list" where
  "target_lines (TReplace (ParsedRange s e)) = [s, e]"
| "target_lines (TDelete (ParsedRange s e)) = [s, e]"
| "target_lines (TInsertBefore n) = [n]"
| "target_lines (TInsertAfter n) = [n]"
| "target_lines (TBlock n) = [n]"
| "target_lines (TDeleteBlock n) = [n]"
| "target_lines _ = []"

lemma print_target_classify:
  assumes "print_target t = Some line" "\<forall>n\<in>set (target_lines t). 0 < n"
  shows "classifyLine line ln = TokOpBlock ln t"
proof (cases t)
  case (TReplace r)
  then show ?thesis using assms by (cases r) (auto simp: print_replace)
next
  case (TDelete r)
  then show ?thesis using assms by (cases r) (auto simp: print_delete)
qed (use assms in \<open>auto simp: print_insert_before print_insert_after print_insert_head
      print_insert_tail simp del: formatInsertHeader.simps\<close>)

lemma header_not_marker:
  "\<not> markerLineEquals (formatHashlineHeader p h) BEGIN_PATCH_MARKER"
  "\<not> markerLineEquals (formatHashlineHeader p h) END_PATCH_MARKER"
  "\<not> markerLineEquals (formatHashlineHeader p h) ABORT_MARKER"
  by (auto simp: markerLineEquals_def starts_with_def formatHashlineHeader_def hl_sigils
      patch_markers Let_def)

lemma classify_header:
  "plain_path p \<Longrightarrow>
   classifyLine (formatHashlineHeader p (hex4 n)) ln = TokHeader ln p (Some (hex4 n))"
  using header_not_marker
  by (simp add: classifyLine_def tryParseHeader_print isEmptyLine_def)
     (simp add: formatHashlineHeader_def hl_sigils starts_with_def)

text \<open>A body row \<open>+TEXT\<close> is read as its text.\<close>

lemma classify_payload: "classifyLine (HL_PAYLOAD_REPLACE @ tx) ln = TokPayload ln tx"
proof -
  have "skipWhitespace (43 # tx) 0 (Suc (length tx)) = 0"
    by (rule skipWhitespace_stay) (simp_all add: isWhitespaceCode_def char_codes)
  then have "\<not> isHunkLead (43 # tx)"
    by (auto simp: isHunkLead_def starts_with_at_def hl_keywords)
  then show ?thesis
    by (simp add: classifyLine_def HL_PAYLOAD_REPLACE_def isEmptyLine_def markerLineEquals_def
        starts_with_def patch_markers HL_FILE_PREFIX_def Let_def CHAR_PAYLOAD_REPLACE_def)
qed

text \<open>
  What the printers of \<open>format.ts\<close> write, the tokenizer reads back: every printed hunk
  header is the op token with the same target, and every printed section header is the
  header token with the same path and tag.
\<close>

theorem printed_headers_tokenize:
  assumes "print_target t = Some line" "\<forall>n\<in>set (target_lines t). 0 < n" "plain_path p"
  shows "classifyLine line ln = TokOpBlock ln t \<and>
    classifyLine (formatHashlineHeader p (computeFileHash xxh body)) ln =
      TokHeader ln p (Some (computeFileHash xxh body))"
  using print_target_classify [OF assms(1,2)] classify_header [OF assms(3)]
  by (simp add: computeFileHash_def Let_def)

theorem printed_headers_tokenize_witness:
  "classifyLine (js ''replace 2..13:'') 7 = TokOpBlock 7 (TReplace (ParsedRange 2 13)) \<and>
   classifyLine (formatHashlineHeader (js ''a.ts'') (computeFileHash (\<lambda>_. 0xA1B2) [])) 7 =
     TokHeader 7 (js ''a.ts'') (Some (computeFileHash (\<lambda>_. 0xA1B2) []))"
proof (rule printed_headers_tokenize)
  show "print_target (TReplace (ParsedRange 2 13)) = Some (js ''replace 2..13:'')" by code_simp
  show "\<forall>n\<in>set (target_lines (TReplace (ParsedRange 2 13))). 0 < n" by simp
  show "plain_path (js ''a.ts'')" by (simp add: plain_path_def path_stop_def char_codes)
qed

end
