(* ===== verification/Parser.thy ===== *)
theory Parser
  imports Tokenizer
begin

text \<open>
  The token-driven state machine of \<open>packages/hashline/src/parser.ts\<close> that lowers hunks to
  edits.  The class \<open>Executor\<close> is the record \<open>executor\<close>; each private method is a function
  on it, and a method that can throw returns a result.  An executor that threw is discarded
  by its callers, so the state at the time of the error is not kept.
\<close>

section \<open>Ranges and foreign syntax\<close>

definition validateRangeOrder :: "parsed_range \<Rightarrow> nat \<Rightarrow> unit res" where
  "validateRangeOrder rng ln =
     (if end_line rng < start_line rng
      then Inl (RangeOrder ln (start_line rng) (end_line rng)) else Inr ())"

definition expandRange :: "parsed_range \<Rightarrow> nat list" where
  "expandRange rng = [start_line rng..<Suc (end_line rng)]"

definition isSkippableCommentLine :: "jstring \<Rightarrow> bool" where
  "isSkippableCommentLine line = starts_with (trim_start line) (js ''#'')"

text \<open>The patterns of \<open>detectApplyPatchContamination\<close>, in the order of the source.\<close>

definition Num :: re where
  "Num = Cat (Cls (\<lambda>c. 49 \<le> c \<and> c \<le> 57)) (Star True Dig)"

text \<open>\<open>/^@@\s+[-+]?\d+,\d+\s+[-+]?\d+,\d+\s+@@/\<close>\<close>

definition UNIFIED_DIFF_RE :: re where
  "UNIFIED_DIFF_RE = Cats [Bol, Lit (js ''@@''), Plus True Sp,
     Opt True (one_of (js ''-+'')), Plus True Dig, Lit (js '',''), Plus True Dig, Plus True Sp,
     Opt True (one_of (js ''-+'')), Plus True Dig, Lit (js '',''), Plus True Dig, Plus True Sp,
     Lit (js ''@@'')]"

text \<open>\<open>/^delete\s+[1-9]\d*(?:\s*(?:\.\.|-|...|\s)\s*[1-9]\d*)?\s*:/\<close> with the ellipsis 0x2026\<close>

definition DELETE_COLON_RE :: re where
  "DELETE_COLON_RE = Cats [Bol, Lit (js ''delete''), Plus True Sp, Num,
     Opt True (Cats [Star True Sp,
       Alts [Lit (js ''..''), Lit (js ''-''), Lit [0x2026], Sp], Star True Sp, Num]),
     Star True Sp, Lit (js '':'')]"

text \<open>\<open>/^[1-9]\d*\s*$/\<close>\<close>

definition BARE_NUMBER_RE :: re where
  "BARE_NUMBER_RE = Cats [Bol, Num, Star True Sp, Eol]"

text \<open>\<open>/^([1-9]\d*)\s*[-. ...]+\s*([1-9]\d*)\s*:?$/\<close> with the ellipsis 0x2026\<close>

definition BARE_RANGE_RE :: re where
  "BARE_RANGE_RE = Cats [Bol, Cap 1 Num, Star True Sp,
     Plus True (one_of (0x2026 # js ''-. '')), Star True Sp, Cap 2 Num, Star True Sp,
     Opt True (Lit (js '':'')), Eol]"

definition detectApplyPatchContamination :: "jstring \<Rightarrow> contamination option" where
  "detectApplyPatchContamination str =
     (let trimmed = trim_start str
      in if length trimmed = 0 then None
         else if starts_with trimmed (js ''*** Update File:'') \<or>
            starts_with trimmed (js ''*** Add File:'') \<or>
            starts_with trimmed (js ''*** Delete File:'') \<or>
            starts_with trimmed (js ''*** Move to:'')
         then Some ApplyPatchSentinel
         else if re_test UNIFIED_DIFF_RE trimmed then Some UnifiedDiffHunk
         else if starts_with trimmed (js ''@@'') then Some BracketedHunk
         else if re_test DELETE_COLON_RE trimmed then Some DeleteWithColon
         else if re_test BARE_NUMBER_RE trimmed then Some BareNumber
         else case re_exec BARE_RANGE_RE trimmed of
                Some (_, _, caps) \<Rightarrow>
                  (case (cap_get caps 1, cap_get caps 2) of
                     (Some a, Some b) \<Rightarrow> Some (BareRange a b) | _ \<Rightarrow> None)
              | None \<Rightarrow> None)"

section \<open>The executor\<close>

record payload_row =
  row_text :: jstring
  row_line :: nat

record pending_hunk =
  p_target :: block_target
  p_line :: nat
  p_payloads :: "payload_row list"

record executor =
  edits :: "edit list"
  warnings :: "warning list"
  editIndex :: nat
  pending :: "pending_hunk option"
  terminated :: bool
  skippableComments :: "(jstring \<times> nat) list"

definition new_executor :: executor where
  "new_executor = \<lparr>edits = [], warnings = [], editIndex = 0, pending = None,
     terminated = False, skippableComments = []\<rparr>"

definition pushInsert :: "executor \<Rightarrow> cursor \<Rightarrow> jstring \<Rightarrow> nat \<Rightarrow> bool \<Rightarrow> executor" where
  "pushInsert x cursor str ln mode =
     x\<lparr>edits := edits x @ [Insert (cloneCursor cursor) str ln (editIndex x) mode],
       editIndex := Suc (editIndex x)\<rparr>"

definition pushDelete :: "executor \<Rightarrow> nat \<Rightarrow> nat \<Rightarrow> executor" where
  "pushDelete x anchor ln =
     x\<lparr>edits := edits x @ [Delete anchor ln (editIndex x)], editIndex := Suc (editIndex x)\<rparr>"

definition pushBlock :: "executor \<Rightarrow> nat \<Rightarrow> payload_row list \<Rightarrow> nat \<Rightarrow> executor" where
  "pushBlock x anchor payloads ln =
     x\<lparr>edits := edits x @ [Block anchor (map row_text payloads) ln (editIndex x)],
       editIndex := Suc (editIndex x)\<rparr>"

definition emitPayloadRows ::
  "executor \<Rightarrow> cursor \<Rightarrow> payload_row list \<Rightarrow> nat \<Rightarrow> bool \<Rightarrow> executor" where
  "emitPayloadRows x cursor payloads ln mode =
     foldl (\<lambda>y payload. pushInsert y cursor (row_text payload) ln mode) x payloads"

definition pushDeletes :: "executor \<Rightarrow> nat list \<Rightarrow> nat \<Rightarrow> executor" where
  "pushDeletes x anchors ln = foldl (\<lambda>y anchor. pushDelete y anchor ln) x anchors"

definition flushPending :: "executor \<Rightarrow> executor res" where
  "flushPending x =
     (case pending x of
        None \<Rightarrow> Inr x
      | Some p \<Rightarrow>
          (let ln = p_line p; payloads = p_payloads p; y = x\<lparr>pending := None\<rparr>
           in case p_target p of
                TDelete rng \<Rightarrow> Inr (pushDeletes y (expandRange rng) ln)
              | TDeleteBlock a \<Rightarrow> Inr (pushBlock y a [] ln)
              | TBlock a \<Rightarrow>
                  if payloads = [] then Inl (EmptyBlock ln) else Inr (pushBlock y a payloads ln)
              | TReplace rng \<Rightarrow>
                  if payloads = [] then Inl (EmptyReplace ln)
                  else Inr (pushDeletes
                         (emitPayloadRows y (BeforeAnchor (start_line rng)) payloads ln True)
                         (expandRange rng) ln)
              | TInsertBefore a \<Rightarrow>
                  if payloads = [] then Inl (EmptyInsert ln)
                  else Inr (emitPayloadRows y (BeforeAnchor a) payloads ln False)
              | TInsertAfter a \<Rightarrow>
                  if payloads = [] then Inl (EmptyInsert ln)
                  else Inr (emitPayloadRows y (AfterAnchor a) payloads ln False)
              | TBof \<Rightarrow>
                  if payloads = [] then Inl (EmptyInsert ln)
                  else Inr (emitPayloadRows y Bof payloads ln False)
              | TEof \<Rightarrow>
                  if payloads = [] then Inl (EmptyInsert ln)
                  else Inr (emitPayloadRows y Eof payloads ln False)))"

definition addPayload :: "executor \<Rightarrow> pending_hunk \<Rightarrow> jstring \<Rightarrow> nat \<Rightarrow> executor" where
  "addPayload x p str ln =
     x\<lparr>pending := Some (p\<lparr>p_payloads := p_payloads p @ [\<lparr>row_text = str, row_line = ln\<rparr>]\<rparr>)\<rparr>"

definition handleLiteralPayload :: "executor \<Rightarrow> jstring \<Rightarrow> nat \<Rightarrow> executor res" where
  "handleLiteralPayload x str ln =
     (case pending x of
        None \<Rightarrow> Inl (PayloadWithoutHeader ln (HL_PAYLOAD_REPLACE @ str))
      | Some p \<Rightarrow>
          (case p_target p of
             TDelete _ \<Rightarrow> Inl (DeleteTakesNoBody ln)
           | TDeleteBlock _ \<Rightarrow> Inl (DeleteBlockTakesNoBody ln)
           | _ \<Rightarrow> Inr (addPayload x p str ln)))"

definition addBarePipedWarning :: "executor \<Rightarrow> executor" where
  "addBarePipedWarning x =
     (if BareBodyAutoPiped \<in> set (warnings x) then x
      else x\<lparr>warnings := warnings x @ [BareBodyAutoPiped]\<rparr>)"

definition handleRaw :: "executor \<Rightarrow> jstring \<Rightarrow> nat \<Rightarrow> executor res" where
  "handleRaw x str ln =
     (case detectApplyPatchContamination str of
        Some c \<Rightarrow> Inl (Contaminated ln c)
      | None \<Rightarrow>
          (case pending x of
             Some p \<Rightarrow>
               if length (trim str) = 0 then Inr x
               else (case p_target p of
                       TDelete _ \<Rightarrow> Inl (DeleteTakesNoBody ln)
                     | TDeleteBlock _ \<Rightarrow> Inl (DeleteBlockTakesNoBody ln)
                     | _ \<Rightarrow>
                         if nth_opt (trim_start str) 0 = Some 45 then Inl (MinusRowRejected ln)
                         else Inr (addPayload (addBarePipedWarning x) p str ln))
           | None \<Rightarrow>
               if length (trim str) = 0 then Inr x else Inl (RawWithoutHeader ln str)))"

definition consumePendingSkippableComments :: "executor \<Rightarrow> executor res" where
  "consumePendingSkippableComments x =
     (if skippableComments x = [] then Inr x
      else rbind (rfold (\<lambda>y (str, ln). handleRaw y str ln) x (skippableComments x))
             (\<lambda>y. Inr (y\<lparr>skippableComments := []\<rparr>)))"

fun target_range :: "block_target \<Rightarrow> parsed_range option" where
  "target_range (TReplace rng) = Some rng"
| "target_range (TDelete rng) = Some rng"
| "target_range _ = None"

fun ex_feed :: "executor \<Rightarrow> token \<Rightarrow> executor res" where
  "ex_feed x tok =
     (if terminated x then Inr x
      else case tok of
        TokEnvelopeBegin _ \<Rightarrow> consumePendingSkippableComments x
      | TokEnvelopeEnd _ \<Rightarrow>
          rbind (consumePendingSkippableComments x) (\<lambda>y. Inr (y\<lparr>terminated := True\<rparr>))
      | TokAbort _ \<Rightarrow> Inr (x\<lparr>terminated := True\<rparr>)
      | TokHeader _ _ _ \<Rightarrow> rbind (consumePendingSkippableComments x) flushPending
      | TokBlank _ \<Rightarrow> consumePendingSkippableComments x
      | TokPayload ln str \<Rightarrow>
          rbind (consumePendingSkippableComments x) (\<lambda>y. handleLiteralPayload y str ln)
      | TokRaw ln str \<Rightarrow>
          if pending x = None \<and> isSkippableCommentLine str
          then Inr (x\<lparr>skippableComments := skippableComments x @ [(str, ln)]\<rparr>)
          else rbind (consumePendingSkippableComments x) (\<lambda>y. handleRaw y str ln)
      | TokOpBlock ln target \<Rightarrow>
          rbind (case target_range target of
                   Some rng \<Rightarrow> validateRangeOrder rng ln | None \<Rightarrow> Inr ()) (\<lambda>_.
          rbind (flushPending (x\<lparr>skippableComments := []\<rparr>)) (\<lambda>y.
          Inr (y\<lparr>pending := Some \<lparr>p_target = target, p_line = ln, p_payloads = []\<rparr>\<rparr>))))"

section \<open>Overlapping deletes\<close>

definition record_delete :: "(nat \<times> nat list) list \<Rightarrow> edit \<Rightarrow> (nat \<times> nat list) list" where
  "record_delete m e =
     (case e of
        Delete a ln _ \<Rightarrow>
          map_set m a (set_add (case map_get m a of None \<Rightarrow> [] | Some ls \<Rightarrow> ls) ln)
      | _ \<Rightarrow> m)"

definition sourceLinesByAnchor :: "edit list \<Rightarrow> (nat \<times> nat list) list" where
  "sourceLinesByAnchor es = foldl record_delete [] es"

definition validateNoOverlappingDeletes :: "edit list \<Rightarrow> unit res" where
  "validateNoOverlappingDeletes es =
     (case find (\<lambda>(a, ls). \<not> length ls < 2) (sourceLinesByAnchor es) of
        None \<Rightarrow> Inr ()
      | Some (a, ls) \<Rightarrow>
          (let s = sort ls in Inl (OverlappingDeletes (s ! 1) a (s ! 0))))"

section \<open>Ending and the entry points\<close>

type_synonym parsed = "edit list \<times> warning list"

definition finish :: "executor \<Rightarrow> parsed res" where
  "finish x = rbind (validateNoOverlappingDeletes (edits x)) (\<lambda>_. Inr (edits x, warnings x))"

definition ex_end :: "executor \<Rightarrow> parsed res" where
  "ex_end x = rbind (consumePendingSkippableComments x) (\<lambda>y. rbind (flushPending y) finish)"

definition flushStreaming :: "executor \<Rightarrow> executor res" where
  "flushStreaming x =
     (case pending x of
        None \<Rightarrow> Inr (x\<lparr>pending := None\<rparr>)
      | Some p \<Rightarrow>
          if p_payloads p \<noteq> [] then flushPending x
          else (case p_target p of
                  TDelete _ \<Rightarrow> flushPending x
                | TDeleteBlock _ \<Rightarrow> flushPending x
                | _ \<Rightarrow> Inr (x\<lparr>pending := None\<rparr>)))"

definition ex_endStreaming :: "executor \<Rightarrow> parsed res" where
  "ex_endStreaming x =
     rbind (consumePendingSkippableComments x) (\<lambda>y. rbind (flushStreaming y) finish)"

definition ex_reset :: "executor \<Rightarrow> executor" where
  "ex_reset x = new_executor"

definition drain :: "executor \<Rightarrow> tokenizer \<Rightarrow> parsed res" where
  "drain x t = rbind (rfold ex_feed x (fst (tok_end t))) ex_end"

definition parsePatch :: "jstring \<Rightarrow> parsed res" where
  "parsePatch diff =
     rbind (tok_feed new_tokenizer diff) (\<lambda>(ts, t).
     rbind (rfold ex_feed new_executor ts) (\<lambda>x. drain x t))"

definition parsePatchStreaming :: "jstring \<Rightarrow> parsed res" where
  "parsePatchStreaming diff =
     rbind (tok_feed new_tokenizer diff) (\<lambda>(ts, t).
     rbind (rfold ex_feed new_executor ts) (\<lambda>x.
     rbind (rfold ex_feed x (fst (tok_end t))) ex_endStreaming))"

section \<open>What a hunk lowers to\<close>

text \<open>
  The edits of one hunk with target, body rows, line of its header and index of the first
  edit.  \<open>flushPending_eq\<close> shows that flushing appends exactly these.
\<close>

fun inserts_at :: "nat \<Rightarrow> cursor \<Rightarrow> nat \<Rightarrow> bool \<Rightarrow> jstring list \<Rightarrow> edit list" where
  "inserts_at k c ln r [] = []"
| "inserts_at k c ln r (row # rows) = Insert c row ln k r # inserts_at (Suc k) c ln r rows"

fun deletes_at :: "nat \<Rightarrow> nat \<Rightarrow> nat list \<Rightarrow> edit list" where
  "deletes_at k ln [] = []"
| "deletes_at k ln (a # as) = Delete a ln k # deletes_at (Suc k) ln as"

fun lower :: "block_target \<Rightarrow> jstring list \<Rightarrow> nat \<Rightarrow> nat \<Rightarrow> edit list" where
  "lower (TReplace rng) rows ln k =
     inserts_at k (BeforeAnchor (start_line rng)) ln True rows @
     deletes_at (k + length rows) ln (expandRange rng)"
| "lower (TDelete rng) rows ln k = deletes_at k ln (expandRange rng)"
| "lower (TBlock a) rows ln k = [Block a rows ln k]"
| "lower (TDeleteBlock a) rows ln k = [Block a [] ln k]"
| "lower (TInsertBefore a) rows ln k = inserts_at k (BeforeAnchor a) ln False rows"
| "lower (TInsertAfter a) rows ln k = inserts_at k (AfterAnchor a) ln False rows"
| "lower TBof rows ln k = inserts_at k Bof ln False rows"
| "lower TEof rows ln k = inserts_at k Eof ln False rows"

fun takes_body :: "block_target \<Rightarrow> bool" where
  "takes_body (TDelete _) = False"
| "takes_body (TDeleteBlock _) = False"
| "takes_body _ = True"

fun empty_body_error :: "block_target \<Rightarrow> nat \<Rightarrow> hl_error" where
  "empty_body_error (TReplace _) ln = EmptyReplace ln"
| "empty_body_error (TBlock _) ln = EmptyBlock ln"
| "empty_body_error _ ln = EmptyInsert ln"

lemma length_inserts_at [simp]: "length (inserts_at k c ln r rows) = length rows"
  by (induction rows arbitrary: k) auto

lemma length_deletes_at [simp]: "length (deletes_at k ln as) = length as"
  by (induction as arbitrary: k) auto

lemma emitPayloadRows_eq:
  "emitPayloadRows x c rows ln r =
   x\<lparr>edits := edits x @ inserts_at (editIndex x) c ln r (map row_text rows),
     editIndex := editIndex x + length rows\<rparr>"
  unfolding emitPayloadRows_def
  by (induction rows arbitrary: x) (auto simp: pushInsert_def cloneCursor_def)

lemma pushDeletes_eq:
  "pushDeletes x as ln =
   x\<lparr>edits := edits x @ deletes_at (editIndex x) ln as, editIndex := editIndex x + length as\<rparr>"
  unfolding pushDeletes_def
  by (induction as arbitrary: x) (auto simp: pushDelete_def)

definition append_edits :: "executor \<Rightarrow> edit list \<Rightarrow> executor" where
  "append_edits x es = x\<lparr>edits := edits x @ es, editIndex := editIndex x + length es\<rparr>"

lemma append_edits_sel [simp]:
  "edits (append_edits x es) = edits x @ es"
  "editIndex (append_edits x es) = editIndex x + length es"
  "warnings (append_edits x es) = warnings x"
  "pending (append_edits x es) = pending x"
  "terminated (append_edits x es) = terminated x"
  "skippableComments (append_edits x es) = skippableComments x"
  by (simp_all add: append_edits_def)

theorem flushPending_eq:
  "flushPending x =
   (case pending x of
      None \<Rightarrow> Inr x
    | Some p \<Rightarrow>
        if takes_body (p_target p) \<and> p_payloads p = []
        then Inl (empty_body_error (p_target p) (p_line p))
        else Inr (append_edits (x\<lparr>pending := None\<rparr>)
          (lower (p_target p) (map row_text (p_payloads p)) (p_line p) (editIndex x))))"
  by (cases "pending x"; cases "p_target (the (pending x))")
     (auto simp: flushPending_def emitPayloadRows_eq pushDeletes_eq pushBlock_def append_edits_def Let_def)

section \<open>Indices and modes of the produced edits\<close>

definition indexed_from :: "nat \<Rightarrow> edit list \<Rightarrow> bool" where
  "indexed_from k es \<longleftrightarrow> map index es = [k..<k + length es]"

lemma indexed_append:
  "indexed_from k (xs @ ys) \<longleftrightarrow> indexed_from k xs \<and> indexed_from (k + length xs) ys"
proof -
  have "[k..<k + (length xs + length ys)] =
      [k..<k + length xs] @ [k + length xs..<k + length xs + length ys]"
    using upt_add_eq_append [of k "k + length xs" "length ys"] by (simp add: add.assoc)
  then show ?thesis
    by (simp add: indexed_from_def append_eq_append_conv add.assoc)
qed

lemma indexed_Cons: "indexed_from k (e # es) \<longleftrightarrow> index e = k \<and> indexed_from (Suc k) es"
  using indexed_append [of k "[e]" es] by (simp add: indexed_from_def)

lemma indexed_inserts: "indexed_from k (inserts_at k c ln r rows)"
  by (induction rows arbitrary: k) (auto simp: indexed_Cons, simp add: indexed_from_def)

lemma indexed_deletes: "indexed_from k (deletes_at k ln as)"
  by (induction as arbitrary: k) (auto simp: indexed_Cons, simp add: indexed_from_def)

lemma indexed_lower: "indexed_from k (lower t rows ln k)"
  by (cases t) (auto simp: indexed_append indexed_inserts indexed_deletes indexed_Cons
      indexed_from_def [of _ "[]"])

text \<open>The shape the applier relies on: replacement inserts sit before an anchor.\<close>

fun edit_ok :: "edit \<Rightarrow> bool" where
  "edit_ok (Insert c _ _ _ r) = (r \<longrightarrow> (\<exists>n. c = BeforeAnchor n))"
| "edit_ok (Delete _ _ _) = True"
| "edit_ok (Block _ _ _ _) = True"

lemma edit_ok_inserts: "(r \<longrightarrow> (\<exists>n. c = BeforeAnchor n)) \<Longrightarrow> list_all edit_ok (inserts_at k c ln r rows)"
  by (induction rows arbitrary: k) auto

lemma edit_ok_deletes: "list_all edit_ok (deletes_at k ln as)"
  by (induction as arbitrary: k) auto

lemma edit_ok_lower: "list_all edit_ok (lower t rows ln k)"
  by (cases t) (auto simp: edit_ok_inserts edit_ok_deletes)

definition ex_inv :: "executor \<Rightarrow> bool" where
  "ex_inv x \<longleftrightarrow> editIndex x = length (edits x) \<and> indexed_from 0 (edits x) \<and>
     list_all edit_ok (edits x)"

lemma ex_inv_new [simp]: "ex_inv new_executor"
  by (simp add: ex_inv_def new_executor_def indexed_from_def)

lemma ex_inv_cong:
  "edits y = edits x \<Longrightarrow> editIndex y = editIndex x \<Longrightarrow> ex_inv x \<Longrightarrow> ex_inv y"
  by (simp add: ex_inv_def)

lemma flushPending_inv: "flushPending x = Inr y \<Longrightarrow> ex_inv x \<Longrightarrow> ex_inv y"
  by (auto simp: flushPending_eq ex_inv_def indexed_append indexed_lower edit_ok_lower
      split: option.splits if_splits)

lemma handleRaw_frame:
  "handleRaw x str ln = Inr y \<Longrightarrow> edits y = edits x \<and> editIndex y = editIndex x \<and>
     terminated y = terminated x"
  by (auto simp: handleRaw_def addPayload_def addBarePipedWarning_def Let_def
      split: option.splits if_splits block_target.splits)

lemma handleLiteral_frame:
  "handleLiteralPayload x str ln = Inr y \<Longrightarrow> edits y = edits x \<and> editIndex y = editIndex x"
  by (auto simp: handleLiteralPayload_def addPayload_def
      split: option.splits block_target.splits)

lemma consume_frame:
  assumes "consumePendingSkippableComments x = Inr y"
  shows "edits y = edits x \<and> editIndex y = editIndex x \<and> terminated y = terminated x"
proof (cases "skippableComments x = []")
  case True
  then show ?thesis using assms by (simp add: consumePendingSkippableComments_def)
next
  case False
  then obtain z where z: "rfold (\<lambda>y (str, ln). handleRaw y str ln) x (skippableComments x) = Inr z"
      "y = z\<lparr>skippableComments := []\<rparr>"
    using assms by (auto simp: consumePendingSkippableComments_def rbind_Inr_iff)
  have "edits z = edits x \<and> editIndex z = editIndex x \<and> terminated z = terminated x"
    by (rule rfold_invariant [where P = "\<lambda>y. edits y = edits x \<and> editIndex y = editIndex x \<and>
          terminated y = terminated x", OF _ _ z(1)]) (auto dest: handleRaw_frame)
  then show ?thesis using z(2) by simp
qed

lemma ex_feed_inv: "ex_feed x tok = Inr y \<Longrightarrow> ex_inv x \<Longrightarrow> ex_inv y"
  by (cases tok)
     (auto simp: rbind_Inr_iff ex_inv_def dest!: consume_frame handleRaw_frame handleLiteral_frame
       dest: flushPending_inv [unfolded ex_inv_def] split: if_splits option.splits)

section \<open>Overlapping deletes\<close>

text \<open>The map of source lines holds, for each deleted line, the headers that delete it.\<close>

definition delete_sources :: "edit list \<Rightarrow> nat \<Rightarrow> nat set" where
  "delete_sources es a = {ln. \<exists>i. Delete a ln i \<in> set es}"

definition sources_inv :: "(nat \<times> nat list) list \<Rightarrow> edit list \<Rightarrow> bool" where
  "sources_inv m es \<longleftrightarrow> distinct (map_keys m) \<and>
     (\<forall>a. case map_get m a of
            None \<Rightarrow> delete_sources es a = {}
          | Some ls \<Rightarrow> distinct ls \<and> set ls = delete_sources es a)"

lemma delete_sources_snoc:
  "delete_sources (es @ [e]) a =
   delete_sources es a \<union> (case e of Delete b ln _ \<Rightarrow> if a = b then {ln} else {} | _ \<Rightarrow> {})"
  by (auto simp: delete_sources_def split: edit.splits)

lemma record_delete_inv:
  "sources_inv m es \<Longrightarrow> sources_inv (record_delete m e) (es @ [e])"
proof (cases e)
  case (Delete b ln i)
  assume inv: "sources_inv m es"
  show ?thesis
    unfolding sources_inv_def
  proof (intro conjI allI)
    show "distinct (map_keys (record_delete m e))"
      using inv Delete by (simp add: record_delete_def sources_inv_def distinct_map_set)
  next
    fix a
    show "case map_get (record_delete m e) a of None \<Rightarrow> delete_sources (es @ [e]) a = {}
       | Some ls \<Rightarrow> distinct ls \<and> set ls = delete_sources (es @ [e]) a"
      using inv [unfolded sources_inv_def, THEN conjunct2, rule_format, of a] Delete
      by (cases "a = b")
         (auto simp: record_delete_def map_get_set delete_sources_snoc distinct_set_add
           split: option.splits)
  qed
qed (simp_all add: sources_inv_def record_delete_def delete_sources_snoc cong: option.case_cong)

lemma sourceLinesByAnchor_inv: "sources_inv (sourceLinesByAnchor es) es"
proof (induction es rule: rev_induct)
  case Nil
  then show ?case
    by (simp add: sourceLinesByAnchor_def sources_inv_def map_keys_def map_get_def delete_sources_def)
next
  case (snoc e es)
  then show ?case
    using record_delete_inv by (simp add: sourceLinesByAnchor_def)
qed

definition single_source :: "edit list \<Rightarrow> bool" where
  "single_source es \<longleftrightarrow>
     (\<forall>a l1 i1 l2 i2. Delete a l1 i1 \<in> set es \<longrightarrow> Delete a l2 i2 \<in> set es \<longrightarrow> l1 = l2)"

lemma distinct_short_iff:
  "distinct ls \<Longrightarrow> length ls < 2 \<longleftrightarrow> (\<forall>x\<in>set ls. \<forall>y\<in>set ls. x = y)"
  by (cases ls; cases "tl ls") auto

lemma validateNoOverlappingDeletes_ok:
  "validateNoOverlappingDeletes es = Inr () \<longleftrightarrow> single_source es"
proof -
  let ?m = "sourceLinesByAnchor es"
  note inv = sourceLinesByAnchor_inv [of es, unfolded sources_inv_def]
  have get: "(a, ls) \<in> set ?m \<longleftrightarrow> map_get ?m a = Some ls" for a ls
    using inv by (simp add: map_get_def map_keys_def)
  have "validateNoOverlappingDeletes es = Inr () \<longleftrightarrow> (\<forall>(a, ls)\<in>set ?m. length ls < 2)"
    using find_None_iff [of "\<lambda>(a, ls). \<not> length ls < 2" ?m]
    by (auto simp: validateNoOverlappingDeletes_def Let_def split: option.splits)
  also have "\<dots> \<longleftrightarrow> (\<forall>a ls. map_get ?m a = Some ls \<longrightarrow> length ls < 2)"
    using get by blast
  also have "\<dots> \<longleftrightarrow> (\<forall>a. \<forall>x\<in>delete_sources es a. \<forall>y\<in>delete_sources es a. x = y)"
  proof (intro iff_allI)
    fix a
    show "(\<forall>ls. map_get ?m a = Some ls \<longrightarrow> length ls < 2) \<longleftrightarrow>
        (\<forall>x\<in>delete_sources es a. \<forall>y\<in>delete_sources es a. x = y)"
      using inv [THEN conjunct2, rule_format, of a]
      by (cases "map_get ?m a") (auto simp: distinct_short_iff)
  qed
  also have "\<dots> \<longleftrightarrow> single_source es"
    by (auto simp: delete_sources_def single_source_def)
  finally show ?thesis .
qed

lemma finish_Inr: "finish x = Inr r \<longleftrightarrow> single_source (edits x) \<and> r = (edits x, warnings x)"
  using validateNoOverlappingDeletes_ok [of "edits x"]
  by (auto simp: finish_def rbind_Inr_iff)

section \<open>The parser as a function of the token sequence\<close>

definition tokens_of :: "jstring \<Rightarrow> token list" where
  "tokens_of diff = classify_from 1 (if diff = [] then [] else splitHashlineLines diff)"

lemma feed_then_end:
  assumes "tok_feed new_tokenizer diff = Inr (ts, t)"
  shows "ts @ fst (tok_end t) = tokens_of diff"
proof -
  have "tok_reset new_tokenizer = new_tokenizer" by (simp add: tok_reset_def new_tokenizer_def)
  then have "tokenizeAll new_tokenizer diff = Inr (ts @ fst (tok_end t), snd (tok_end t))"
    using assms by (simp add: tokenizeAll_def split: prod.splits)
  then show ?thesis using tokenizeAll_lines [of new_tokenizer diff] by (simp add: tokens_of_def)
qed

lemma feed_new_ok: "\<exists>ts t. tok_feed new_tokenizer diff = Inr (ts, t)"
  using tok_feed_eq [OF tok_inv_new(1), of diff] by (simp add: new_tokenizer_def)

lemma parsePatch_tokens:
  "parsePatch diff = rbind (rfold ex_feed new_executor (tokens_of diff)) ex_end"
proof -
  obtain ts t where f: "tok_feed new_tokenizer diff = Inr (ts, t)" using feed_new_ok by blast
  then show ?thesis
    by (simp add: parsePatch_def drain_def feed_then_end [OF f, symmetric] rfold_append rbind_assoc)
qed

lemma parsePatchStreaming_tokens:
  "parsePatchStreaming diff = rbind (rfold ex_feed new_executor (tokens_of diff)) ex_endStreaming"
proof -
  obtain ts t where f: "tok_feed new_tokenizer diff = Inr (ts, t)" using feed_new_ok by blast
  then show ?thesis
    by (simp add: parsePatchStreaming_def feed_then_end [OF f, symmetric] rfold_append rbind_assoc)
qed

lemma flushPending_nil: "pending x = None \<Longrightarrow> flushPending x = Inr x"
  by (simp add: flushPending_def)

lemma flushStreaming_flush: "flushPending x = Inr y \<Longrightarrow> flushStreaming x = Inr y"
  by (cases "pending x"; cases "p_target (the (pending x))")
     (auto simp: flushStreaming_def flushPending_eq split: if_splits)

text \<open>
  A successful parse yields well-formed edits: their \<open>index\<close> fields count from zero in
  list order, a replacement insert is always anchored before a line, and no line is deleted
  by two different hunks.
\<close>

theorem parsePatch_well_formed:
  assumes "parsePatch diff = Inr (es, ws)"
  shows "map index es = [0..<length es] \<and> list_all edit_ok es \<and> single_source es"
proof -
  obtain x y z where x: "rfold ex_feed new_executor (tokens_of diff) = Inr x"
      and y: "consumePendingSkippableComments x = Inr y" and z: "flushPending y = Inr z"
      and f: "finish z = Inr (es, ws)"
    using assms by (auto simp: parsePatch_tokens ex_end_def rbind_Inr_iff)
  have "ex_inv x"
    by (rule rfold_invariant [where P = ex_inv, OF _ ex_inv_new x]) (auto dest: ex_feed_inv simp del: ex_feed.simps)
  then have "ex_inv y" using consume_frame [OF y] by (auto intro: ex_inv_cong)
  then have "ex_inv z" by (rule flushPending_inv [OF z])
  then show ?thesis using f by (auto simp: finish_Inr ex_inv_def indexed_from_def)
qed

theorem parsePatch_well_formed_witness:
  "map index [Delete 2 1 0, Delete 3 1 1] = [0..<length [Delete 2 1 0, Delete 3 1 1]] \<and>
   list_all edit_ok [Delete 2 1 0, Delete 3 1 1] \<and> single_source [Delete 2 1 0, Delete 3 1 1]"
proof (rule parsePatch_well_formed)
  show "parsePatch (js ''delete 2..3'') = Inr ([Delete 2 1 0, Delete 3 1 1], [])" by code_simp
qed

text \<open>
  The streaming parser agrees with the authoritative one whenever that succeeds, so a
  preview never shows edits that the final parse of the same text would not make.
\<close>

theorem streaming_agrees:
  assumes "parsePatch diff = Inr r"
  shows "parsePatchStreaming diff = Inr r"
  using assms
  by (auto simp: parsePatch_tokens parsePatchStreaming_tokens ex_end_def ex_endStreaming_def
      rbind_Inr_iff dest: flushStreaming_flush)

theorem streaming_agrees_witness:
  "parsePatchStreaming (js ''delete 7'') = Inr ([Delete 7 1 0], [])"
  by (rule streaming_agrees) code_simp

section \<open>Printing a patch and parsing it back\<close>

type_synonym hunk = "block_target \<times> jstring list"

definition row_ok :: "jstring \<Rightarrow> bool" where
  "row_ok r \<longleftrightarrow> LF \<notin> set r \<and> (r \<noteq> [] \<longrightarrow> last r \<noteq> CR)"

definition range_ok :: "block_target \<Rightarrow> bool" where
  "range_ok t \<longleftrightarrow> (case target_range t of
     Some rng \<Rightarrow> start_line rng \<le> end_line rng | None \<Rightarrow> True)"

definition hunk_ok :: "hunk \<Rightarrow> bool" where
  "hunk_ok h \<longleftrightarrow> print_target (fst h) \<noteq> None \<and> (\<forall>n\<in>set (target_lines (fst h)). 0 < n) \<and>
     range_ok (fst h) \<and> list_all row_ok (snd h) \<and> (takes_body (fst h) \<longleftrightarrow> snd h \<noteq> [])"

definition render_hunk :: "hunk \<Rightarrow> jstring list" where
  "render_hunk h = the (print_target (fst h)) # map (\<lambda>r. HL_PAYLOAD_REPLACE @ r) (snd h)"

definition render_hunks :: "hunk list \<Rightarrow> jstring" where
  "render_hunks hs = join_lines (concat (map render_hunk hs))"

fun lower_all :: "nat \<Rightarrow> nat \<Rightarrow> hunk list \<Rightarrow> edit list" where
  "lower_all k ln [] = []"
| "lower_all k ln ((t, rows) # hs) =
     lower t rows ln k @ lower_all (k + length (lower t rows ln k)) (ln + 1 + length rows) hs"

fun deleted_lines :: "hunk \<Rightarrow> nat list" where
  "deleted_lines (TReplace rng, rows) = expandRange rng"
| "deleted_lines (TDelete rng, rows) = expandRange rng"
| "deleted_lines _ = []"

subsection \<open>The lines of a rendered hunk\<close>

lemma no_LF_dec [simp]: "10 \<notin> set (dec n)" "13 \<notin> set (dec n)"
  using dec_digits [of n] by (auto simp: is_digit_def)

lemma print_target_clean:
  assumes "print_target t = Some l"
  shows "l \<noteq> []" "10 \<notin> set l" "13 \<notin> set l"
proof -
  have "l \<noteq> [] \<and> 10 \<notin> set l \<and> 13 \<notin> set l"
    using assms
    by (cases t rule: print_target.cases)
       (auto simp: formatReplaceHeader_def formatDeleteHeader_def hl_keywords hl_sigils
         split: if_splits)
  then show "l \<noteq> []" "10 \<notin> set l" "13 \<notin> set l" by auto
qed

definition clean_line :: "jstring \<Rightarrow> bool" where
  "clean_line l \<longleftrightarrow> l \<noteq> [] \<and> LF \<notin> set l \<and> last l \<noteq> CR"

lemma clean_chop: "clean_line l \<Longrightarrow> chop_cr l = l"
  by (simp add: clean_line_def chop_cr_def)

lemma render_hunk_clean: "hunk_ok h \<Longrightarrow> list_all clean_line (render_hunk h)"
  using print_target_clean [of "fst h"]
  by (auto simp: hunk_ok_def render_hunk_def clean_line_def row_ok_def list_all_iff HL_PAYLOAD_REPLACE_def)
     (metis last_in_set)+

lemma splitHashlineLines_clean:
  assumes "ls \<noteq> []" "list_all clean_line ls"
  shows "splitHashlineLines (join_lines ls) = ls"
proof -
  have ne: "join_lines ls \<noteq> []"
    using assms by (cases ls; cases "tl ls") (auto simp: clean_line_def)
  have sp: "split_lines (join_lines ls) = ls"
    using assms by (intro split_join) (auto simp: list_all_iff clean_line_def)
  have "splitHashlineLines (join_lines ls) = map chop_cr (butlast ls) @
      (if last ls = [] then [] else [chop_cr (last ls)])"
    using ne split_loop_eq [where tx = "join_lines ls" and start = 0 and i = 0]
    by (simp add: splitHashlineLines_def slice_def complete_lines_def remainder_def sp)
  also have "\<dots> = map chop_cr (butlast ls) @ map chop_cr [last ls]"
    using assms by (simp add: list_all_iff clean_line_def)
  also have "\<dots> = map chop_cr ls"
    by (metis append_butlast_last_id assms(1) map_append)
  also have "\<dots> = ls"
    using assms(2) clean_chop by (simp add: list_all_iff map_idI)
  finally show ?thesis .
qed

subsection \<open>Feeding one hunk\<close>

fun hunk_tokens :: "nat \<Rightarrow> hunk \<Rightarrow> token list" where
  "hunk_tokens ln (t, rows) =
     TokOpBlock ln t # map (\<lambda>(i, r). TokPayload (ln + 1 + i) r) (zip [0..<length rows] rows)"

lemma classify_rows:
  "classify_from ln (map (\<lambda>r. HL_PAYLOAD_REPLACE @ r) rows) =
   map (\<lambda>(i, r). TokPayload (ln + i) r) (zip [0..<length rows] rows)"
proof (induction rows arbitrary: ln)
  case (Cons r rows)
  have "zip [0..<Suc (length rows)] (r # rows) =
      (0, r) # map (\<lambda>(i, r). (Suc i, r)) (zip [0..<length rows] rows)"
    by (simp add: upt_conv_Cons zip_map1 [symmetric] map_Suc_upt [symmetric] del: upt_Suc)
  then show ?case
    using Cons [of "Suc ln"] by (simp add: classify_payload comp_def case_prod_beta)
qed simp

lemma classify_hunk_tokens: "hunk_ok h \<Longrightarrow> classify_from ln (render_hunk h) = hunk_tokens ln h"
  by (cases h) (auto simp: hunk_ok_def render_hunk_def classify_rows
      intro: print_target_classify)

lemma feed_rows:
  assumes "pending x = Some p" "takes_body (p_target p)" "\<not> terminated x" "skippableComments x = []"
  shows "rfold ex_feed x (map (\<lambda>(i, r). TokPayload (f i) r) (zip ks rows)) =
    Inr (x\<lparr>pending := Some (p\<lparr>p_payloads := p_payloads p @
      map (\<lambda>(i, r). \<lparr>row_text = r, row_line = f i\<rparr>) (zip ks rows)\<rparr>)\<rparr>)"
  using assms
proof (induction rows arbitrary: x p ks)
  case Nil
  then show ?case by simp
next
  case (Cons r rows)
  show ?case
  proof (cases ks)
    case Nil
    then show ?thesis using Cons.prems by simp
  next
    case (Cons i ks')
    have h: "handleLiteralPayload x r (f i) = Inr (addPayload x p r (f i))"
      using Cons.prems(1,2)
      by (cases "p_target p") (auto simp: handleLiteralPayload_def)
    have "ex_feed x (TokPayload (f i) r) = Inr (addPayload x p r (f i))"
      using Cons.prems h by (simp add: consumePendingSkippableComments_def)
    then show ?thesis
      using Cons.IH [of "addPayload x p r (f i)" "p\<lparr>p_payloads := p_payloads p @
          [\<lparr>row_text = r, row_line = f i\<rparr>]\<rparr>" ks'] Cons.prems Cons
      by (simp add: addPayload_def del: ex_feed.simps)
  qed
qed

lemma ex_feed_op:
  assumes "\<not> terminated x" "range_ok t" "flushPending (x\<lparr>skippableComments := []\<rparr>) = Inr y"
  shows "ex_feed x (TokOpBlock ln t) =
    Inr (y\<lparr>pending := Some \<lparr>p_target = t, p_line = ln, p_payloads = []\<rparr>\<rparr>)"
  using assms by (auto simp: range_ok_def validateRangeOrder_def split: option.splits)

definition hunk_pending :: "nat \<Rightarrow> hunk \<Rightarrow> pending_hunk" where
  "hunk_pending ln h = \<lparr>p_target = fst h, p_line = ln,
     p_payloads = map (\<lambda>(i, r). \<lparr>row_text = r, row_line = ln + 1 + i\<rparr>)
       (zip [0..<length (snd h)] (snd h))\<rparr>"

lemma hunk_pending_rows: "map row_text (p_payloads (hunk_pending ln h)) = snd h"
proof -
  have "map row_text (p_payloads (hunk_pending ln h)) = map snd (zip [0..<length (snd h)] (snd h))"
    by (simp add: hunk_pending_def comp_def case_prod_beta)
  then show ?thesis by simp
qed

lemma feed_hunk:
  assumes "hunk_ok h" "\<not> terminated x" "skippableComments x = []"
    and "flushPending x = Inr y" "skippableComments y = []" "\<not> terminated y"
  shows "rfold ex_feed x (hunk_tokens ln h) = Inr (y\<lparr>pending := Some (hunk_pending ln h)\<rparr>)"
proof -
  obtain t rows where h: "h = (t, rows)" by (cases h)
  have x: "x\<lparr>skippableComments := []\<rparr> = x" using assms(3) by simp
  have op: "ex_feed x (TokOpBlock ln t) =
      Inr (y\<lparr>pending := Some \<lparr>p_target = t, p_line = ln, p_payloads = []\<rparr>\<rparr>)"
    using assms(1,2,4) x by (intro ex_feed_op) (auto simp: hunk_ok_def h)
  show ?thesis
  proof (cases "takes_body t")
    case True
    then show ?thesis
      using op assms(5,6) feed_rows [where x = "y\<lparr>pending := Some \<lparr>p_target = t, p_line = ln,
          p_payloads = []\<rparr>\<rparr>" and p = "\<lparr>p_target = t, p_line = ln, p_payloads = []\<rparr>"
          and f = "\<lambda>i. ln + 1 + i" and rows = rows and ks = "[0..<length rows]"]
      by (simp add: h hunk_pending_def del: ex_feed.simps)
  next
    case False
    then have "rows = []" using assms(1) by (simp add: hunk_ok_def h)
    then show ?thesis using op by (simp add: h hunk_pending_def del: ex_feed.simps)
  qed
qed

lemma flush_hunk:
  assumes "hunk_ok h" "pending x = Some (hunk_pending ln h)"
  shows "flushPending x =
    Inr (append_edits (x\<lparr>pending := None\<rparr>) (lower (fst h) (snd h) ln (editIndex x)))"
proof -
  have "p_payloads (hunk_pending ln h) = [] \<longleftrightarrow> snd h = []"
    using hunk_pending_rows [of ln h] by (metis list.map_disc_iff)
  moreover have "p_target (hunk_pending ln h) = fst h" "p_line (hunk_pending ln h) = ln"
    by (simp_all add: hunk_pending_def)
  ultimately show ?thesis
    using assms by (simp add: flushPending_eq hunk_pending_rows hunk_ok_def)
qed

subsection \<open>Feeding all hunks\<close>

fun all_tokens :: "nat \<Rightarrow> hunk list \<Rightarrow> token list" where
  "all_tokens ln [] = []"
| "all_tokens ln (h # hs) = hunk_tokens ln h @ all_tokens (ln + 1 + length (snd h)) hs"

lemma length_render_hunk [simp]: "length (render_hunk h) = Suc (length (snd h))"
  by (simp add: render_hunk_def)

lemma classify_all:
  "list_all hunk_ok hs \<Longrightarrow> classify_from ln (concat (map render_hunk hs)) = all_tokens ln hs"
  by (induction hs arbitrary: ln)
     (auto simp: classify_from_append classify_hunk_tokens simp del: hunk_tokens.simps)

text \<open>The state of a quiet executor: nothing buffered but the pending hunk.\<close>

definition quiet :: "executor \<Rightarrow> bool" where
  "quiet x \<longleftrightarrow> \<not> terminated x \<and> skippableComments x = [] \<and> warnings x = []"

lemma feed_all:
  assumes "list_all hunk_ok hs" "quiet x" "flushPending x = Inr y" "quiet y" "pending y = None"
  shows "\<exists>z z'. rfold ex_feed x (all_tokens ln hs) = Inr z \<and> quiet z \<and>
    flushPending z = Inr z' \<and> quiet z' \<and>
    edits z' = edits y @ lower_all (editIndex y) ln hs"
  using assms
proof (induction hs arbitrary: x y ln)
  case Nil
  then show ?case by (intro exI [of _ x] exI [of _ y]) simp
next
  case (Cons h hs)
  let ?x1 = "y\<lparr>pending := Some (hunk_pending ln h)\<rparr>"
  let ?y1 = "append_edits y (lower (fst h) (snd h) ln (editIndex y))"
  have f: "rfold ex_feed x (hunk_tokens ln h) = Inr ?x1"
    using Cons.prems by (intro feed_hunk) (auto simp: quiet_def)
  have y0: "?x1\<lparr>pending := None\<rparr> = y" using Cons.prems(5) by simp
  have fl: "flushPending ?x1 = Inr ?y1"
    using flush_hunk [of h ?x1 ln] Cons.prems(1) y0 by simp
  have "\<exists>z z'. rfold ex_feed ?x1 (all_tokens (ln + 1 + length (snd h)) hs) = Inr z \<and> quiet z \<and>
    flushPending z = Inr z' \<and> quiet z' \<and>
    edits z' = edits ?y1 @ lower_all (editIndex ?y1) (ln + 1 + length (snd h)) hs"
    using Cons.prems fl by (intro Cons.IH) (auto simp: quiet_def)
  then show ?case
    using f by (cases h) (auto simp: rfold_append simp del: hunk_tokens.simps ex_feed.simps)
qed

lemma lower_deletes:
  "Delete a l i \<in> set (lower t rows ln k) \<Longrightarrow> l = ln \<and> a \<in> set (deleted_lines (t, rows))"
proof -
  have ins: "Delete a l i \<notin> set (inserts_at k c ln r rows)" for k c r
    by (induction rows arbitrary: k) auto
  have del: "Delete a l i \<in> set (deletes_at k ln as) \<Longrightarrow> l = ln \<and> a \<in> set as" for k as
    by (induction as arbitrary: k) auto
  show "Delete a l i \<in> set (lower t rows ln k) \<Longrightarrow> l = ln \<and> a \<in> set (deleted_lines (t, rows))"
    using ins del by (cases t) auto
qed

lemma lower_all_deletes:
  "Delete a l i \<in> set (lower_all k ln hs) \<Longrightarrow> a \<in> set (concat (map deleted_lines hs))"
proof (induction k ln hs rule: lower_all.induct)
  case (2 k ln t rows hs)
  then show ?case using lower_deletes [of a l i t rows ln k] by auto
qed simp

lemma lower_all_single_source:
  "distinct (concat (map deleted_lines hs)) \<Longrightarrow> single_source (lower_all k ln hs)"
proof (induction k ln hs rule: lower_all.induct)
  case (1 k ln)
  then show ?case by (simp add: single_source_def)
next
  case (2 k ln t rows hs)
  let ?A = "lower t rows ln k" and ?B = "lower_all (k + length (lower t rows ln k)) (ln + 1 + length rows) hs"
  have dj: "set (deleted_lines (t, rows)) \<inter> set (concat (map deleted_lines hs)) = {}"
    using "2.prems" by auto
  have B: "single_source ?B" using 2 by simp
  show ?case
    unfolding single_source_def
  proof (intro allI impI)
    fix a l1 i1 l2 i2
    assume d: "Delete a l1 i1 \<in> set (lower_all k ln ((t, rows) # hs))"
      "Delete a l2 i2 \<in> set (lower_all k ln ((t, rows) # hs))"
    have A: "Delete a l i \<in> set ?A \<Longrightarrow> l = ln \<and> a \<in> set (deleted_lines (t, rows))" for l i
      by (rule lower_deletes)
    have Bd: "Delete a l i \<in> set ?B \<Longrightarrow> a \<in> set (concat (map deleted_lines hs))" for l i
      by (rule lower_all_deletes)
    from d have "(Delete a l1 i1 \<in> set ?A \<or> Delete a l1 i1 \<in> set ?B) \<and>
        (Delete a l2 i2 \<in> set ?A \<or> Delete a l2 i2 \<in> set ?B)" by simp
    then show "l1 = l2"
      using A [of l1 i1] A [of l2 i2] Bd [of l1 i1] Bd [of l2 i2] dj
        B [unfolded single_source_def, rule_format, of a l1 i1 l2 i2] by blast
  qed
qed

lemma parse_rendered:
  assumes "list_all hunk_ok hs" "distinct (concat (map deleted_lines hs))"
  shows "parsePatch (render_hunks hs) = Inr (lower_all 0 1 hs, [])"
proof -
  have toks: "tokens_of (render_hunks hs) = all_tokens 1 hs"
  proof (cases "hs = []")
    case True
    then show ?thesis by (simp add: tokens_of_def render_hunks_def)
  next
    case False
    let ?ls = "concat (map render_hunk hs)"
    have clean: "list_all clean_line ?ls" using assms(1) render_hunk_clean
      by (induction hs) auto
    have ne: "?ls \<noteq> []" using False by (cases hs) (auto simp: render_hunk_def)
    have "join_lines ?ls \<noteq> []"
      using ne clean by (cases ?ls; cases "tl ?ls") (auto simp: clean_line_def)
    then show ?thesis
      using splitHashlineLines_clean [OF ne clean] classify_all [OF assms(1), of 1]
      by (simp add: tokens_of_def render_hunks_def)
  qed
  obtain z z' where z: "rfold ex_feed new_executor (all_tokens 1 hs) = Inr z" "quiet z"
      "flushPending z = Inr z'" "quiet z'" "edits z' = lower_all 0 1 hs"
    using feed_all [OF assms(1), of new_executor new_executor 1]
    by (auto simp: quiet_def new_executor_def flushPending_def)
  have c: "consumePendingSkippableComments z = Inr z"
    using z(2) by (simp add: consumePendingSkippableComments_def quiet_def)
  have "finish z' = Inr (lower_all 0 1 hs, [])"
    using z(4,5) lower_all_single_source [OF assms(2)] by (simp add: finish_Inr quiet_def)
  then show ?thesis
    using z c by (simp add: parsePatch_tokens toks ex_end_def)
qed

text \<open>
  Parsing what the printers write gives back exactly the edits that the hunks mean, with
  consecutive indices and the header lines they came from, and no warning: for any list of
  printable hunks with positive ordered ranges, non-empty bodies of single-line rows, and
  disjoint deleted ranges.
\<close>

theorem parse_render_hunks:
  assumes "list_all hunk_ok hs" "distinct (concat (map deleted_lines hs))"
  shows "parsePatch (render_hunks hs) = Inr (lower_all 0 1 hs, [])"
  by (rule parse_rendered [OF assms])

theorem parse_render_hunks_witness:
  "parsePatch (render_hunks [(TReplace (ParsedRange 2 3), [js ''a'', []]), (TEof, [js ''-b''])]) =
   Inr (lower_all 0 1 [(TReplace (ParsedRange 2 3), [js ''a'', []]), (TEof, [js ''-b''])], [])"
proof (rule parse_render_hunks)
  show "list_all hunk_ok [(TReplace (ParsedRange 2 3), [js ''a'', []]), (TEof, [js ''-b''])]"
    by (simp add: hunk_ok_def range_ok_def row_ok_def)
  show "distinct (concat (map deleted_lines
      [(TReplace (ParsedRange 2 3), [js ''a'', []]), (TEof, [js ''-b''])]))"
    by (simp add: expandRange_def)
qed

section \<open>The envelope ends the parse\<close>

lemma rfold_terminated: "terminated x \<Longrightarrow> rfold ex_feed x ts = Inr x"
  by (induction ts) auto

lemma splitHashlineLines_eq:
  "tx \<noteq> [] \<Longrightarrow> splitHashlineLines tx = map chop_cr (complete_lines tx) @
     (if remainder tx = [] then [] else [chop_cr (remainder tx)])"
  using split_loop_eq [where tx = tx and start = 0 and i = 0]
  by (simp add: splitHashlineLines_def slice_def)

lemma complete_lines_LF: "complete_lines (a @ LF # b) = complete_lines a @ remainder a # complete_lines b"
proof -
  have "split_lines (remainder a @ LF # b) = remainder a # split_lines b"
    by (rule split_on_append_sep [OF remainder_no_LF])
  then show ?thesis
    using complete_lines_append [of a "LF # b"] complete_remainder_Cons [of "remainder a @ LF # b"]
    by simp
qed

lemma tokens_of_prefix:
  assumes "a \<noteq> []" "remainder a \<noteq> []"
  shows "\<exists>more. tokens_of (a @ LF # b) = tokens_of a @ more"
  using assms
  by (simp add: tokens_of_def splitHashlineLines_eq complete_lines_LF classify_from_append)

definition stop_marker :: "jstring \<Rightarrow> bool" where
  "stop_marker m \<longleftrightarrow> m = END_PATCH_MARKER \<or> m = ABORT_MARKER"

lemma stop_marker_token:
  "stop_marker m \<Longrightarrow> classifyLine (chop_cr m) ln = TokEnvelopeEnd ln \<or>
     classifyLine (chop_cr m) ln = TokAbort ln"
  unfolding stop_marker_def
proof (elim disjE)
  assume m: "m = END_PATCH_MARKER"
  have "classifyLine (chop_cr END_PATCH_MARKER) ln = TokEnvelopeEnd ln" by code_simp
  then show ?thesis by (simp add: m)
next
  assume m: "m = ABORT_MARKER"
  have "classifyLine (chop_cr ABORT_MARKER) ln = TokAbort ln" by code_simp
  then show ?thesis by (simp add: m)
qed

lemma feed_stop_terminates:
  "tok = TokEnvelopeEnd ln \<or> tok = TokAbort ln \<Longrightarrow> ex_feed x tok = Inr y \<Longrightarrow> terminated y"
  by (auto simp: rbind_Inr_iff split: if_splits)

lemma stop_marker_line: "stop_marker m \<Longrightarrow> m \<noteq> [] \<and> LF \<notin> set m"
  by (auto simp: stop_marker_def patch_markers)

text \<open>
  Whatever follows an \<open>*** End Patch\<close> or \<open>*** Abort\<close> line has no influence on the
  parse, so text a model emits behind the patch can neither add edits nor make it fail.
\<close>

theorem parse_ignores_after_marker:
  assumes "stop_marker m"
  shows "parsePatch (body @ LF # m @ LF # rest) = parsePatch (body @ LF # m)"
proof -
  let ?a = "body @ LF # m"
  note ml = stop_marker_line [OF assms]
  have rem: "remainder ?a = m"
    using ml complete_remainder_none [of m] split_on_append_sep [OF remainder_no_LF, of body m]
      remainder_append [of body "LF # m"] by (simp add: remainder_def split_on_none)
  obtain more where more: "tokens_of (?a @ LF # rest) = tokens_of ?a @ more"
    using tokens_of_prefix [of ?a rest] ml rem by auto
  have last: "tokens_of ?a = classify_from 1 (map chop_cr (complete_lines ?a)) @
      [classifyLine (chop_cr m) (1 + length (complete_lines ?a))]"
    using rem ml by (simp add: tokens_of_def splitHashlineLines_eq classify_from_append)
  have "rfold ex_feed new_executor (tokens_of ?a @ more) = rfold ex_feed new_executor (tokens_of ?a)"
  proof (cases "rfold ex_feed new_executor (tokens_of ?a)")
    case (Inl e)
    then show ?thesis by (simp add: rfold_append)
  next
    case (Inr x)
    then obtain y where "ex_feed y (classifyLine (chop_cr m) (1 + length (complete_lines ?a))) = Inr x"
      by (auto simp: last rfold_append rbind_Inr_iff simp del: ex_feed.simps)
    then have "terminated x"
      using feed_stop_terminates stop_marker_token [OF assms] by blast
    then show ?thesis using Inr rfold_terminated by (simp add: rfold_append)
  qed
  then show ?thesis using more by (simp add: parsePatch_tokens)
qed

theorem parse_ignores_after_marker_witness:
  "parsePatch (js ''delete 4'' @ LF # ABORT_MARKER @ LF # js ''junk'') =
   parsePatch (js ''delete 4'' @ LF # ABORT_MARKER)"
  by (rule parse_ignores_after_marker) (simp add: stop_marker_def)
end
