(* ===== verification/Apply.thy ===== *)
theory Apply
  imports Hl_Format "HOL-Library.Sublist"
begin

text \<open>
  The applier of \<open>packages/hashline/src/apply.ts\<close>: bounds check, replacement-boundary
  repair, and the bottom-up splice loop.  The array \<open>lineOrigins\<close> that the source updates
  beside the lines is never read, so it has no counterpart here.
\<close>

section \<open>Bounds\<close>

definition isReplacementInsert :: "edit \<Rightarrow> bool" where
  "isReplacementInsert e = (case e of Insert _ _ _ _ r \<Rightarrow> r | _ \<Rightarrow> False)"

definition validateLineBounds :: "edit list \<Rightarrow> jstring list \<Rightarrow> unit res" where
  "validateLineBounds es fileLines =
     (case find (\<lambda>a. a < 1 \<or> length fileLines < a) (concat (map getEditAnchors es)) of
        None \<Rightarrow> Inr ()
      | Some a \<Rightarrow> Inl (LineDoesNotExist a (length fileLines)))"

fun cloneAppliedEdit :: "edit \<Rightarrow> nat \<Rightarrow> edit" where
  "cloneAppliedEdit (Delete a ln _) i = Delete a ln i"
| "cloneAppliedEdit (Insert c str ln _ r) i = Insert c str ln i r"
| "cloneAppliedEdit (Block a p ln _) i = Block a p ln i"

section \<open>Insertion at the ends\<close>

text \<open>\<open>xs.splice(i, n, ...ys)\<close> for \<open>i\<close> within bounds.\<close>

definition splice_at :: "'a list \<Rightarrow> nat \<Rightarrow> nat \<Rightarrow> 'a list \<Rightarrow> 'a list" where
  "splice_at xs i n ys = take i xs @ ys @ drop (i + n) xs"

definition insertAtStart :: "jstring list \<Rightarrow> jstring list \<Rightarrow> jstring list" where
  "insertAtStart fileLines lines =
     (if length lines = 0 then fileLines
      else if length fileLines = 1 \<and> fileLines ! 0 = [] then splice_at fileLines 0 1 lines
      else splice_at fileLines 0 0 lines)"

definition insertAtEnd :: "jstring list \<Rightarrow> jstring list \<Rightarrow> jstring list \<times> nat option" where
  "insertAtEnd fileLines lines =
     (if length lines = 0 then (fileLines, None)
      else if length fileLines = 1 \<and> fileLines ! 0 = []
      then (splice_at fileLines 0 1 lines, Some 1)
      else
        (let hasTrailingNewline =
               length fileLines > 0 \<and> fileLines ! (length fileLines - 1) = [];
             insertIndex =
               (if hasTrailingNewline then length fileLines - 1 else length fileLines)
         in (splice_at fileLines insertIndex 0 lines, Some (insertIndex + 1))))"

section \<open>Delimiter balance\<close>

text \<open>\<open>STRUCTURAL_CLOSER_RE = /^\s*[)\]}]+[;,]?\s*$/\<close>\<close>

definition STRUCTURAL_CLOSER_RE :: re where
  "STRUCTURAL_CLOSER_RE = Cats [Bol, Star True Sp, Plus True (one_of (js '')]}'')),
     Opt True (one_of (js '';,'')), Star True Sp, Eol]"

record balance =
  paren :: int
  bracket :: int
  brace :: int

definition zero_balance :: balance where
  "zero_balance = \<lparr>paren = 0, bracket = 0, brace = 0\<rparr>"

definition count_delimiter :: "balance \<Rightarrow> nat \<Rightarrow> balance" where
  "count_delimiter b ch =
     (if ch = 40 then b\<lparr>paren := paren b + 1\<rparr>
      else if ch = 41 then b\<lparr>paren := paren b - 1\<rparr>
      else if ch = 91 then b\<lparr>bracket := bracket b + 1\<rparr>
      else if ch = 93 then b\<lparr>bracket := bracket b - 1\<rparr>
      else if ch = 123 then b\<lparr>brace := brace b + 1\<rparr>
      else if ch = 125 then b\<lparr>brace := brace b - 1\<rparr>
      else b)"

text \<open>
  The inner loop over one line: the balance, whether a block comment is open, and the open
  quote.  Code units: star 42, slash 47, backslash 92, the three quotes 34, 39 and 96.
\<close>

function balance_line ::
  "jstring \<Rightarrow> nat \<Rightarrow> balance \<Rightarrow> bool \<Rightarrow> nat option \<Rightarrow> balance \<times> bool \<times> nat option" where
  "balance_line line i b inBlockComment quote =
     (if length line \<le> i then (b, inBlockComment, quote)
      else
        (let ch = line ! i
         in if inBlockComment then
              (if ch = 42 \<and> nth_opt line (i + 1) = Some 47
               then balance_line line (i + 2) b False quote
               else balance_line line (i + 1) b True quote)
            else case quote of
              Some q \<Rightarrow>
                if ch = 92 then balance_line line (i + 2) b False quote
                else if ch = q then balance_line line (i + 1) b False None
                else balance_line line (i + 1) b False quote
            | None \<Rightarrow>
                if ch = 34 \<or> ch = 39 \<or> ch = 96 then balance_line line (i + 1) b False (Some ch)
                else if ch = 47 \<and> nth_opt line (i + 1) = Some 47 then (b, False, None)
                else if ch = 47 \<and> nth_opt line (i + 1) = Some 42
                then balance_line line (i + 2) b True None
                else balance_line line (i + 1) (count_delimiter b ch) False None))"
  by pat_completeness auto
termination
  by (relation "measure (\<lambda>(line, i, b, c, q). length line - i)") auto

declare balance_line.simps [simp del]

fun balance_lines :: "jstring list \<Rightarrow> balance \<Rightarrow> bool \<Rightarrow> nat option \<Rightarrow> balance" where
  "balance_lines [] b inBlockComment quote = b"
| "balance_lines (line # ls) b inBlockComment quote =
     (case balance_line line 0 b inBlockComment quote of (b', c', q') \<Rightarrow>
        balance_lines ls b' c' (if q' = Some 34 \<or> q' = Some 39 then None else q'))"

definition computeDelimiterBalance :: "jstring list \<Rightarrow> balance" where
  "computeDelimiterBalance ls = balance_lines ls zero_balance False None"

definition balanceDelta :: "balance \<Rightarrow> balance \<Rightarrow> balance" where
  "balanceDelta a b = \<lparr>paren = paren a - paren b, bracket = bracket a - bracket b,
     brace = brace a - brace b\<rparr>"

definition balanceNegate :: "balance \<Rightarrow> balance" where
  "balanceNegate a = \<lparr>paren = - paren a, bracket = - bracket a, brace = - brace a\<rparr>"

definition balanceEqual :: "balance \<Rightarrow> balance \<Rightarrow> bool" where
  "balanceEqual a b = (paren a = paren b \<and> bracket a = bracket b \<and> brace a = brace b)"

definition balanceIsZero :: "balance \<Rightarrow> bool" where
  "balanceIsZero a = (paren a = 0 \<and> bracket a = 0 \<and> brace a = 0)"

section \<open>Replacement groups\<close>

record replacement_group =
  insertIndices :: "nat list"
  deleteIndices :: "nat list"
  payload :: "jstring list"
  startLine :: nat
  endLine :: nat

text \<open>The first loop of \<open>findReplacementGroup\<close>: the run of replacement inserts.\<close>

function collect_inserts ::
  "edit list \<Rightarrow> nat \<Rightarrow> nat \<Rightarrow> nat \<Rightarrow> nat list \<times> jstring list \<times> nat" where
  "collect_inserts es ln anchorLine i =
     (if i < length es then
        (case es ! i of
           Insert (BeforeAnchor a) str l _ True \<Rightarrow>
             if l = ln \<and> a = anchorLine then
               (case collect_inserts es ln anchorLine (Suc i) of (is, ps, j) \<Rightarrow>
                  (i # is, str # ps, j))
             else ([], [], i)
         | _ \<Rightarrow> ([], [], i))
      else ([], [], i))"
  by pat_completeness auto
termination
  by (relation "measure (\<lambda>(es, ln, a, i). length es - i)") auto

declare collect_inserts.simps [simp del]

text \<open>The second loop: the contiguous deletes of the same hunk.\<close>

function collect_deletes :: "edit list \<Rightarrow> nat \<Rightarrow> nat \<Rightarrow> nat \<Rightarrow> nat list" where
  "collect_deletes es ln expectedLine i =
     (if i < length es then
        (case es ! i of
           Delete a l _ \<Rightarrow>
             if l = ln \<and> a = expectedLine
             then i # collect_deletes es ln (Suc expectedLine) (Suc i)
             else []
         | _ \<Rightarrow> [])
      else [])"
  by pat_completeness auto
termination
  by (relation "measure (\<lambda>(es, ln, a, i). length es - i)") auto

declare collect_deletes.simps [simp del]

definition findReplacementGroup :: "edit list \<Rightarrow> nat \<Rightarrow> replacement_group option" where
  "findReplacementGroup es start =
     (case nth_opt es start of
        Some (Insert (BeforeAnchor anchorLine) _ ln _ True) \<Rightarrow>
          (case collect_inserts es ln anchorLine start of (inserts, ps, i) \<Rightarrow>
             (let deletes = collect_deletes es ln anchorLine i
              in if length deletes = 0 then None
                 else Some \<lparr>insertIndices = inserts, deleteIndices = deletes, payload = ps,
                        startLine = anchorLine,
                        endLine = anchorLine + length deletes - 1\<rparr>))
      | _ \<Rightarrow> None)"

section \<open>Boundary repair\<close>

text \<open>The loops that look for the largest count, from a maximum down to 1; 0 when there is none.\<close>

fun find_down :: "(nat \<Rightarrow> bool) \<Rightarrow> nat \<Rightarrow> nat" where
  "find_down P 0 = 0"
| "find_down P (Suc k) = (if P (Suc k) then Suc k else find_down P k)"

definition is_closer :: "jstring \<Rightarrow> bool" where
  "is_closer line = re_test STRUCTURAL_CLOSER_RE line"

definition findDuplicateSuffix :: "replacement_group \<Rightarrow> jstring list \<Rightarrow> balance \<Rightarrow> nat" where
  "findDuplicateSuffix g fileLines delta =
     (let p = payload g; e = endLine g; maxK = min (length p) (length fileLines - e)
      in find_down (\<lambda>k.
           list_all (\<lambda>t. p ! (length p - k + t) = fileLines ! (e + t)) [0..<k] \<and>
           (k = 1 \<longrightarrow> is_closer (p ! (length p - 1))) \<and>
           balanceEqual (computeDelimiterBalance (drop (length p - k) p)) delta) maxK)"

definition findDuplicatePrefix :: "replacement_group \<Rightarrow> jstring list \<Rightarrow> balance \<Rightarrow> nat" where
  "findDuplicatePrefix g fileLines delta =
     (let p = payload g; s = startLine g; maxJ = min (length p) (s - 1)
      in find_down (\<lambda>j.
           list_all (\<lambda>t. p ! t = fileLines ! (s - 1 - j + t)) [0..<j] \<and>
           (j = 1 \<longrightarrow> is_closer (p ! 0)) \<and>
           balanceEqual (computeDelimiterBalance (take j p)) delta) maxJ)"

text \<open>\<open>for (m = 1; m <= maxM; m++)\<close> with the early exit at the first line that is no closer.\<close>

function dropped_closers_loop ::
  "replacement_group \<Rightarrow> jstring list \<Rightarrow> balance \<Rightarrow> nat \<Rightarrow> nat \<Rightarrow> nat" where
  "dropped_closers_loop g fileLines wanted maxM m =
     (if maxM < m then 0
      else if \<not> is_closer (case nth_opt fileLines (endLine g - m) of Some l \<Rightarrow> l | None \<Rightarrow> [])
      then 0
      else if balanceEqual
           (computeDelimiterBalance (slice fileLines (endLine g - m) (endLine g))) wanted
      then m
      else dropped_closers_loop g fileLines wanted maxM (Suc m))"
  by pat_completeness auto
termination
  by (relation "measure (\<lambda>(g, ls, w, maxM, m). Suc maxM - m)") auto

declare dropped_closers_loop.simps [simp del]

definition findDroppedSuffixClosers :: "replacement_group \<Rightarrow> jstring list \<Rightarrow> balance \<Rightarrow> nat" where
  "findDroppedSuffixClosers g fileLines delta =
     (let wanted = balanceNegate delta; maxM = length (deleteIndices g)
      in dropped_closers_loop g fileLines wanted maxM 1)"

definition hasNonWhitespace :: "jstring \<Rightarrow> bool" where
  "hasNonWhitespace str =
     list_ex (\<lambda>code. code \<noteq> 9 \<and> code \<noteq> 10 \<and> code \<noteq> 11 \<and> code \<noteq> 12 \<and> code \<noteq> 13 \<and> code \<noteq> 32) str"

definition countDuplicateLeadingBoundaryLines :: "replacement_group \<Rightarrow> jstring list \<Rightarrow> nat" where
  "countDuplicateLeadingBoundaryLines g fileLines =
     (let p = payload g; s = startLine g; mx = min (length p) (s - 1)
      in find_down (\<lambda>c.
           list_all (\<lambda>t. p ! t = fileLines ! (s - 1 - c + t)) [0..<c] \<and>
           list_ex (\<lambda>t. hasNonWhitespace (p ! t)) [0..<c]) mx)"

definition countDuplicateTrailingBoundaryLines :: "replacement_group \<Rightarrow> jstring list \<Rightarrow> nat" where
  "countDuplicateTrailingBoundaryLines g fileLines =
     (let p = payload g; e = endLine g; mx = min (length p) (length fileLines - e)
      in find_down (\<lambda>c.
           list_all (\<lambda>t. p ! (length p - c + t) = fileLines ! (e + t)) [0..<c] \<and>
           list_ex (\<lambda>t. hasNonWhitespace (p ! (length p - c + t))) [0..<c]) mx)"

definition findBoundaryEcho :: "replacement_group \<Rightarrow> jstring list \<Rightarrow> (nat \<times> nat) option" where
  "findBoundaryEcho g fileLines =
     (let leadingMax = countDuplicateLeadingBoundaryLines g fileLines
      in if leadingMax = 0 then None
         else
           (let trailingMax = countDuplicateTrailingBoundaryLines g fileLines
            in if trailingMax = 0 then None
               else if leadingMax + trailingMax \<ge> length (payload g) then None
               else Some (leadingMax, trailingMax)))"

text \<open>
  The body of the loop for one group: which inserts and deletes survive, and the warning.
\<close>

definition repair_group ::
  "replacement_group \<Rightarrow> jstring list \<Rightarrow> edit list \<Rightarrow> edit list \<Rightarrow> edit list \<times> warning list" where
  "repair_group g fileLines inserts deletes =
     (case findBoundaryEcho g fileLines of
        Some (leading, trailing) \<Rightarrow>
          (slice inserts leading (length inserts - trailing) @ deletes,
           [BoundaryEchoRepaired (startLine g) leading trailing])
      | None \<Rightarrow>
          (let delta = balanceDelta (computeDelimiterBalance (payload g))
                 (computeDelimiterBalance (slice fileLines (startLine g - 1) (endLine g)))
           in if balanceIsZero delta then (inserts @ deletes, [])
              else
                (let dupSuffix = findDuplicateSuffix g fileLines delta
                 in if dupSuffix > 0 then
                      (take (length inserts - dupSuffix) inserts @ deletes,
                       [DroppedTrailing (startLine g) dupSuffix])
                    else
                      (let dupPrefix = findDuplicatePrefix g fileLines delta
                       in if dupPrefix > 0 then
                            (drop dupPrefix inserts @ deletes,
                             [DroppedLeading (startLine g) dupPrefix])
                          else
                            (let dropped = findDroppedSuffixClosers g fileLines delta
                             in if dropped > 0 then
                                  (inserts @ take (length deletes - dropped) deletes,
                                   [KeptClosers (startLine g) dropped])
                                else (inserts @ deletes, []))))))"

lemma collect_deletes_gt: "k \<in> set (collect_deletes es ln a i) \<Longrightarrow> i \<le> k \<and> k < length es"
proof (induction es ln a i rule: collect_deletes.induct)
  case (1 es ln a i)
  show ?case
  proof (cases "i < length es")
    case True
    with 1 show ?thesis
      by (cases "es ! i")
         (auto simp: collect_deletes.simps [of es ln a i] Suc_le_eq split: if_splits)
  next
    case False
    with 1 show ?thesis by (simp add: collect_deletes.simps [of es ln a i])
  qed
qed

lemma collect_inserts_ge:
  fixes es ln a i
  shows "i \<le> length es \<Longrightarrow> i \<le> snd (snd (collect_inserts es ln a i))"
proof (induction es ln a i rule: collect_inserts.induct)
  case (1 es ln a i)
  show ?case
  proof (cases "\<exists>str ix. i < length es \<and> es ! i = Insert (BeforeAnchor a) str ln ix True")
    case True
    then obtain str ix where e: "i < length es" "es ! i = Insert (BeforeAnchor a) str ln ix True"
      by blast
    have "Suc i \<le> snd (snd (collect_inserts es ln a (Suc i)))"
      using 1 e by auto
    with e show ?thesis
      by (cases "collect_inserts es ln a (Suc i)") (auto simp: collect_inserts.simps [of es ln a i])
  next
    case False
    then show ?thesis
      by (auto simp: collect_inserts.simps [of es ln a i]
          split: edit.splits cursor.splits bool.splits)
  qed
qed

lemma findReplacementGroup_progress:
  "findReplacementGroup es i = Some g \<Longrightarrow> i \<le> last (deleteIndices g) \<and> last (deleteIndices g) < length es"
proof -
  assume a: "findReplacementGroup es i = Some g"
  then have i: "i < length es"
    by (auto simp: findReplacementGroup_def nth_opt_def split: if_splits option.splits)
  obtain c str ln ix r where e: "es ! i = Insert c str ln ix r"
    using a i by (auto simp: findReplacementGroup_def split: edit.splits)
  obtain n where n: "c = BeforeAnchor n" "r"
    using a i e by (auto simp: findReplacementGroup_def split: cursor.splits bool.splits)
  obtain ins ps j where ci: "collect_inserts es ln n i = (ins, ps, j)" by (cases "collect_inserts es ln n i")
  have d: "deleteIndices g = collect_deletes es ln n j" "deleteIndices g \<noteq> []"
    using a i e n ci by (auto simp: findReplacementGroup_def Let_def split: if_splits)
  have "i \<le> j" using collect_inserts_ge [of i es n ln] collect_inserts_ge [of i es ln n] ci i
    by (auto simp: less_imp_le)
  moreover have "last (deleteIndices g) \<in> set (collect_deletes es ln n j)" using d by simp
  ultimately show ?thesis using collect_deletes_gt [of _ es ln n j] by force
qed

function repair_loop :: "edit list \<Rightarrow> jstring list \<Rightarrow> nat \<Rightarrow> edit list \<times> warning list" where
  "repair_loop es fileLines i =
     (if i < length es then
        (case findReplacementGroup es i of
           None \<Rightarrow>
             (case repair_loop es fileLines (Suc i) of (out, ws) \<Rightarrow> (es ! i # out, ws))
         | Some g \<Rightarrow>
             (case repair_group g fileLines (map (\<lambda>k. es ! k) (insertIndices g))
                     (map (\<lambda>k. es ! k) (deleteIndices g)) of
                (kept, w) \<Rightarrow>
                  (case repair_loop es fileLines (last (deleteIndices g) + 1) of
                     (out, ws) \<Rightarrow> (kept @ out, w @ ws))))
      else ([], []))"
  by pat_completeness auto
termination
  by (relation "measure (\<lambda>(es, ls, i). length es - i)")
     (auto dest: findReplacementGroup_progress)

declare repair_loop.simps [simp del]

definition repairReplacementBoundaries ::
  "edit list \<Rightarrow> jstring list \<Rightarrow> edit list \<times> warning list" where
  "repairReplacementBoundaries es fileLines = repair_loop es fileLines 0"

section \<open>Applying edits\<close>

text \<open>
  The buckets of \<open>bucketAnchorEditsByLine\<close>, in insertion order, each with the edits in list
  order (their \<open>idx\<close> ascends, so sorting a bucket by \<open>idx\<close> leaves it as it is).
\<close>

definition edit_line :: "edit \<Rightarrow> nat" where
  "edit_line e = (case e of
     Delete a _ _ \<Rightarrow> a
   | Insert (BeforeAnchor n) _ _ _ _ \<Rightarrow> n
   | Insert (AfterAnchor n) _ _ _ _ \<Rightarrow> n
   | _ \<Rightarrow> 0)"

definition bucket_add :: "(nat \<times> edit list) list \<Rightarrow> edit \<Rightarrow> (nat \<times> edit list) list" where
  "bucket_add m e =
     map_set m (edit_line e) ((case map_get m (edit_line e) of None \<Rightarrow> [] | Some b \<Rightarrow> b) @ [e])"

definition bucketAnchorEditsByLine :: "edit list \<Rightarrow> (nat \<times> edit list) list" where
  "bucketAnchorEditsByLine es = foldl bucket_add [] es"

definition is_bof_insert :: "edit \<Rightarrow> bool" where
  "is_bof_insert e = (case e of Insert Bof _ _ _ _ \<Rightarrow> True | _ \<Rightarrow> False)"

definition is_eof_insert :: "edit \<Rightarrow> bool" where
  "is_eof_insert e = (case e of Insert Eof _ _ _ _ \<Rightarrow> True | _ \<Rightarrow> False)"

definition is_after_insert :: "edit \<Rightarrow> bool" where
  "is_after_insert e = (case e of Insert (AfterAnchor _) _ _ _ _ \<Rightarrow> True | _ \<Rightarrow> False)"

definition is_insert :: "edit \<Rightarrow> bool" where
  "is_insert e = (case e of Insert _ _ _ _ _ \<Rightarrow> True | _ \<Rightarrow> False)"

definition is_delete :: "edit \<Rightarrow> bool" where
  "is_delete e = (case e of Delete _ _ _ \<Rightarrow> True | _ \<Rightarrow> False)"

lemma edit_kind_simps [simp]:
  "\<not> is_bof_insert (Delete a l i)" "\<not> is_eof_insert (Delete a l i)"
  "\<not> is_after_insert (Delete a l i)" "\<not> is_insert (Delete a l i)" "is_delete (Delete a l i)"
  "is_insert (Insert c str l i r)" "\<not> is_delete (Insert c str l i r)"
  "is_bof_insert (Insert c str l i r) \<longleftrightarrow> c = Bof"
  "is_eof_insert (Insert c str l i r) \<longleftrightarrow> c = Eof"
  "is_after_insert (Insert c str l i r) \<longleftrightarrow> (\<exists>a. c = AfterAnchor a)"
  "isReplacementInsert (Insert c str l i r) \<longleftrightarrow> r" "\<not> isReplacementInsert (Delete a l i)"
  by (auto simp: is_bof_insert_def is_eof_insert_def is_after_insert_def is_insert_def
      is_delete_def isReplacementInsert_def split: cursor.splits)

definition replacement_lines :: "edit list \<Rightarrow> jstring list" where
  "replacement_lines b = map text_of (filter isReplacementInsert b)"

definition after_lines :: "edit list \<Rightarrow> jstring list" where
  "after_lines b = map text_of (filter (\<lambda>e. \<not> isReplacementInsert e \<and> is_after_insert e) b)"

definition before_lines :: "edit list \<Rightarrow> jstring list" where
  "before_lines b = map text_of
     (filter (\<lambda>e. \<not> isReplacementInsert e \<and> \<not> is_after_insert e \<and> is_insert e) b)"

text \<open>What one bucket makes of its line.\<close>

definition bucket_output :: "edit list \<Rightarrow> jstring \<Rightarrow> jstring list" where
  "bucket_output b currentLine =
     (if list_ex is_delete b
      then before_lines b @ replacement_lines b @ after_lines b
      else before_lines b @ replacement_lines b @ [currentLine] @ after_lines b)"

definition minFirst :: "nat option \<Rightarrow> nat \<Rightarrow> nat option" where
  "minFirst first line = (case first of
     None \<Rightarrow> Some line | Some f \<Rightarrow> if line < f then Some line else Some f)"

definition apply_bucket ::
  "(nat \<times> edit list) list \<Rightarrow> jstring list \<times> nat option \<Rightarrow> nat \<Rightarrow> jstring list \<times> nat option" where
  "apply_bucket byLine st line =
     (case st of (fileLines, first) \<Rightarrow>
       (case map_get byLine line of
          None \<Rightarrow> (fileLines, first)
        | Some bucket \<Rightarrow>
            (let idx = line - 1;
                 currentLine = (case nth_opt fileLines idx of Some l \<Rightarrow> l | None \<Rightarrow> [])
             in if before_lines bucket = [] \<and> replacement_lines bucket = [] \<and>
                   after_lines bucket = [] \<and> \<not> list_ex is_delete bucket
                then (fileLines, first)
                else (splice_at fileLines idx 1 (bucket_output bucket currentLine),
                      minFirst first line))))"

definition applyEdits :: "jstring \<Rightarrow> edit list \<Rightarrow> apply_result res" where
  "applyEdits body es =
     (if length es = 0 then Inr \<lparr>ar_text = body, ar_first = None, ar_warnings = []\<rparr>
      else if list_ex is_block es then Inl UnresolvedBlockInternal
      else
        (let fileLines = split_lines body;
             targetEdits = map (\<lambda>(i, e). cloneAppliedEdit e i) (zip [0..<length es] es)
         in rbind (validateLineBounds targetEdits fileLines) (\<lambda>_.
            (case repairReplacementBoundaries targetEdits fileLines of (repaired, ws) \<Rightarrow>
              (let bofLines = map text_of (filter is_bof_insert repaired);
                   eofLines = map text_of (filter is_eof_insert repaired);
                   anchorEdits = filter (\<lambda>e. \<not> is_bof_insert e \<and> \<not> is_eof_insert e) repaired;
                   byLine = bucketAnchorEditsByLine anchorEdits;
                   order = rev (sort (map_keys byLine))
               in case foldl (apply_bucket byLine) (fileLines, None) order of
                    (lines1, first1) \<Rightarrow>
                      (let lines2 = (if length bofLines > 0 then insertAtStart lines1 bofLines
                             else lines1);
                           first2 = (if length bofLines > 0 then minFirst first1 1 else first1)
                       in case insertAtEnd lines2 eofLines of (lines3, eofChanged) \<Rightarrow>
                            Inr \<lparr>ar_text = join_lines lines3,
                                 ar_first = (case eofChanged of
                                   None \<Rightarrow> first2 | Some l \<Rightarrow> minFirst first2 l),
                                 ar_warnings = ws\<rparr>))))))"

section \<open>Buckets\<close>

lemma map_get_snoc_bucket:
  "map_get (bucketAnchorEditsByLine es) k =
     (if filter (\<lambda>e. edit_line e = k) es = [] then None
      else Some (filter (\<lambda>e. edit_line e = k) es))"
proof (induction es rule: rev_induct)
  case Nil
  then show ?case by (simp add: bucketAnchorEditsByLine_def map_get_def)
next
  case (snoc e es)
  have "bucketAnchorEditsByLine (es @ [e]) = bucket_add (bucketAnchorEditsByLine es) e"
    by (simp add: bucketAnchorEditsByLine_def)
  with snoc show ?case by (auto simp: bucket_add_def map_get_set)
qed

lemma bucket_add_keys:
  "set (map_keys (bucket_add m e)) = insert (edit_line e) (set (map_keys m))"
  "distinct (map_keys m) \<Longrightarrow> distinct (map_keys (bucket_add m e))"
  by (auto simp: bucket_add_def distinct_map_set keys_map_set_set)

lemma bucket_keys:
  "distinct (map_keys (bucketAnchorEditsByLine es)) \<and>
   set (map_keys (bucketAnchorEditsByLine es)) = edit_line ` set es"
proof (induction es rule: rev_induct)
  case Nil
  then show ?case by (simp add: bucketAnchorEditsByLine_def map_keys_def)
next
  case (snoc e es)
  have "bucketAnchorEditsByLine (es @ [e]) = bucket_add (bucketAnchorEditsByLine es) e"
    by (simp add: bucketAnchorEditsByLine_def)
  with snoc show ?case
    by (simp add: bucket_add_keys)
qed

section \<open>The bottom-up splice loop is a line-wise map\<close>

definition anchored :: "edit \<Rightarrow> bool" where
  "anchored e = (\<not> is_bof_insert e \<and> \<not> is_eof_insert e)"

definition edits_at :: "edit list \<Rightarrow> nat \<Rightarrow> edit list" where
  "edits_at es k = filter (\<lambda>e. anchored e \<and> edit_line e = k) es"

definition line_wise :: "edit list \<Rightarrow> jstring list \<Rightarrow> jstring list" where
  "line_wise es ls = concat (map (\<lambda>i. bucket_output (edits_at es (Suc i)) (ls ! i)) [0..<length ls])"

lemma bucket_output_Nil [simp]: "bucket_output [] l = [l]"
  by (simp add: bucket_output_def before_lines_def replacement_lines_def after_lines_def)

lemma concat_map_single: "m \<le> length ls \<Longrightarrow> concat (map (\<lambda>i. [ls ! i]) [0..<m]) = take m ls"
  by (induction m) (auto simp: take_Suc_conv_app_nth)

lemma concat_map_single_from:
  "k \<le> m \<Longrightarrow> m \<le> length ls \<Longrightarrow> concat (map (\<lambda>i. [ls ! i]) [k..<m]) = drop k (take m ls)"
  by (induction m) (auto simp: take_Suc_conv_app_nth le_Suc_eq)

lemma splice_down:
  fixes out :: "nat \<Rightarrow> jstring \<Rightarrow> jstring list"
  assumes "sorted_wrt (>) ks" "\<forall>k\<in>set ks. 1 \<le> k \<and> k \<le> m" "m \<le> length ls"
  shows "foldl (\<lambda>xs k. splice_at xs (k - 1) 1 (out k (case nth_opt xs (k - 1) of Some l \<Rightarrow> l | None \<Rightarrow> []))) (take m ls @ suf) ks =
    concat (map (\<lambda>i. if Suc i \<in> set ks then out (Suc i) (ls ! i) else [ls ! i]) [0..<m]) @ suf"
  using assms
proof (induction ks arbitrary: m suf)
  case Nil
  then show ?case by (simp only: concat_map_single foldl_Nil list.set empty_iff if_False)
next
  case (Cons k ks)
  have k: "1 \<le> k" "k \<le> m" "k - 1 < m" using Cons.prems by auto
  have lt: "\<forall>j\<in>set ks. 1 \<le> j \<and> j \<le> k - 1" using Cons.prems by fastforce
  let ?F = "\<lambda>i. if Suc i \<in> set (k # ks) then out (Suc i) (ls ! i) else [ls ! i]"
  let ?F' = "\<lambda>i. if Suc i \<in> set ks then out (Suc i) (ls ! i) else [ls ! i]"
  let ?suf = "out k (ls ! (k - 1)) @ drop k (take m ls) @ suf"
  have st: "splice_at (take m ls @ suf) (k - 1) 1 (out k (case nth_opt (take m ls @ suf) (k - 1) of Some l \<Rightarrow> l | None \<Rightarrow> [])) =
      take (k - 1) ls @ ?suf"
    using k Cons.prems(3) by (simp add: splice_at_def nth_append min_def nth_opt_def)
  have ih: "foldl (\<lambda>xs k. splice_at xs (k - 1) 1 (out k (case nth_opt xs (k - 1) of Some l \<Rightarrow> l | None \<Rightarrow> []))) (take (k - 1) ls @ ?suf) ks =
      concat (map ?F' [0..<k - 1]) @ ?suf"
    using Cons.IH [of "k - 1" ?suf] Cons.prems lt k by simp
  have up: "[0..<m] = [0..<k - 1] @ (k - 1) # [k..<m]"
    using k upt_add_eq_append [of 0 "k - 1" "m - (k - 1)"] by (simp add: upt_conv_Cons)
  have lo: "map ?F [0..<k - 1] = map ?F' [0..<k - 1]" by auto
  have hi: "map ?F [k..<m] = map (\<lambda>i. [ls ! i]) [k..<m]" using lt by fastforce
  have "concat (map ?F [0..<m]) = concat (map ?F' [0..<k - 1]) @ out k (ls ! (k - 1)) @ drop k (take m ls)"
    unfolding up map_append concat_append list.map lo hi
    using k Cons.prems(3) concat_map_single_from [of k m ls] by simp
  then show ?case using st ih by simp
qed

lemma foldl_minFirst_desc:
  "sorted_wrt (>) ks \<Longrightarrow> (\<forall>k\<in>set ks. \<forall>f. first = Some f \<longrightarrow> k < f) \<Longrightarrow>
   foldl minFirst first ks = (if ks = [] then first else Some (last ks))"
  by (induction ks arbitrary: first) (auto simp: minFirst_def split: option.splits)

lemma hd_sort_Min_aux: "sorted xs \<Longrightarrow> xs \<noteq> [] \<Longrightarrow> hd xs = Min (set (xs :: nat list))"
  by (cases xs) (auto intro!: Min_eqI [symmetric])

lemma sorted_rev_desc: "distinct xs \<Longrightarrow> sorted_wrt (>) (rev (sort (xs :: nat list)))"
  unfolding sorted_wrt_rev by (simp add: strict_sorted_iff)

section \<open>The loop, line by line\<close>

text \<open>
  The result of the loop over the buckets without splices, in the terms of the code's own
  helpers; \<open>applyEdits_lines\<close> below identifies it with the specification, which is stated
  over the edits alone.
\<close>

definition least_line :: "nat list \<Rightarrow> nat option" where
  "least_line ks = (if ks = [] then None else Some (Min (set ks)))"

definition apply_lines :: "edit list \<Rightarrow> jstring list \<Rightarrow> jstring list \<times> nat option" where
  "apply_lines es ls =
     (let bof = map text_of (filter is_bof_insert es);
          eof = map text_of (filter is_eof_insert es);
          headed = insertAtStart (line_wise es ls) bof;
          touched = map edit_line (filter anchored es) @ (if bof = [] then [] else [1])
      in case insertAtEnd headed eof of
           (final, None) \<Rightarrow> (final, least_line touched)
         | (final, Some k) \<Rightarrow> (final, least_line (touched @ [k])))"

section \<open>The specification\<close>

text \<open>
  What the applier promises, over the edits alone: no bucket, no splice, no order of
  application and none of the code's helpers. A line of the file gives the rows put before it,
  the rows that stand for it, itself unless an edit deletes it, and the rows put after it;
  head rows go in front and tail rows to the end, in front of an empty last line, and either
  takes the place of a lone empty line. The first changed line is the least of the lines the
  edits name, line one for head rows and the place of the first tail row.
\<close>

fun rows_before :: "nat \<Rightarrow> edit \<Rightarrow> jstring list" where
  "rows_before k (Insert (BeforeAnchor n) str ln i r) = (if n = k \<and> \<not> r then [str] else [])"
| "rows_before k e = []"

fun rows_instead :: "nat \<Rightarrow> edit \<Rightarrow> jstring list" where
  "rows_instead k (Insert (BeforeAnchor n) str ln i r) = (if n = k \<and> r then [str] else [])"
| "rows_instead k (Insert (AfterAnchor n) str ln i r) = (if n = k \<and> r then [str] else [])"
| "rows_instead k e = []"

fun rows_after :: "nat \<Rightarrow> edit \<Rightarrow> jstring list" where
  "rows_after k (Insert (AfterAnchor n) str ln i r) = (if n = k \<and> \<not> r then [str] else [])"
| "rows_after k e = []"

fun rows_head :: "edit \<Rightarrow> jstring list" where
  "rows_head (Insert Bof str ln i r) = [str]"
| "rows_head e = []"

fun rows_tail :: "edit \<Rightarrow> jstring list" where
  "rows_tail (Insert Eof str ln i r) = [str]"
| "rows_tail e = []"

fun deletes_line :: "nat \<Rightarrow> edit \<Rightarrow> bool" where
  "deletes_line k (Delete a ln i) = (a = k)"
| "deletes_line k e = False"

fun named_lines :: "edit \<Rightarrow> nat list" where
  "named_lines (Delete a ln i) = [a]"
| "named_lines (Insert (BeforeAnchor n) str ln i r) = [n]"
| "named_lines (Insert (AfterAnchor n) str ln i r) = [n]"
| "named_lines (Insert Bof str ln i r) = [1]"
| "named_lines e = []"

definition line_spec :: "edit list \<Rightarrow> nat \<Rightarrow> jstring \<Rightarrow> jstring list" where
  "line_spec es k l =
     concat (map (rows_before k) es) @ concat (map (rows_instead k) es) @
     (if list_ex (deletes_line k) es then [] else [l]) @ concat (map (rows_after k) es)"

definition with_head :: "jstring list \<Rightarrow> jstring list \<Rightarrow> jstring list" where
  "with_head rows ls = (if rows = [] then ls else if ls = [[]] then rows else rows @ ls)"

definition with_tail :: "jstring list \<Rightarrow> jstring list \<Rightarrow> jstring list" where
  "with_tail rows ls =
     (if rows = [] then ls else if ls = [[]] then rows
      else if ls \<noteq> [] \<and> last ls = [] then butlast ls @ rows @ [[]] else ls @ rows)"

definition tail_at :: "jstring list \<Rightarrow> jstring list \<Rightarrow> nat list" where
  "tail_at rows ls =
     (if rows = [] then []
      else if ls \<noteq> [] \<and> last ls = [] then [length ls] else [Suc (length ls)])"

definition apply_spec :: "edit list \<Rightarrow> jstring list \<Rightarrow> jstring list \<times> nat option" where
  "apply_spec es ls =
     (let lines = concat (map2 (line_spec es) [1..<Suc (length ls)] ls);
          headed = with_head (concat (map rows_head es)) lines;
          tail = concat (map rows_tail es);
          changed = set (concat (map named_lines es) @ tail_at tail headed)
      in (with_tail tail headed, if changed = {} then None else Some (Min changed)))"


lemma map_filter_concat:
  "(\<And>x. x \<in> set xs \<Longrightarrow> (if P x then [f x] else []) = g x) \<Longrightarrow>
   map f (filter P xs) = concat (map g xs)"
  by (induction xs) (auto split: if_splits, metis+)

lemma rows_pick:
  assumes "\<not> is_block e"
  shows "(if (anchored e \<and> edit_line e = k) \<and> \<not> isReplacementInsert e \<and> \<not> is_after_insert e \<and> is_insert e
      then [text_of e] else []) = rows_before k e"
    "(if (anchored e \<and> edit_line e = k) \<and> isReplacementInsert e then [text_of e] else []) = rows_instead k e"
    "(if (anchored e \<and> edit_line e = k) \<and> \<not> isReplacementInsert e \<and> is_after_insert e
      then [text_of e] else []) = rows_after k e"
    "(anchored e \<and> edit_line e = k \<and> is_delete e) = deletes_line k e"
    "(if is_bof_insert e then [text_of e] else []) = rows_head e"
    "(if is_eof_insert e then [text_of e] else []) = rows_tail e"
    "set (named_lines e) =
      (if anchored e then {edit_line e} else {}) \<union> (if rows_head e = [] then {} else {1})"
  using assms
  by (cases e; cases "cursor_of e"; simp add: is_block_def anchored_def edit_line_def)+

lemma parts_spec:
  assumes nb: "\<forall>e\<in>set es. \<not> is_block e"
  shows "before_lines (edits_at es k) = concat (map (rows_before k) es)"
    "replacement_lines (edits_at es k) = concat (map (rows_instead k) es)"
    "after_lines (edits_at es k) = concat (map (rows_after k) es)"
    "list_ex is_delete (edits_at es k) = list_ex (deletes_line k) es"
    "map text_of (filter is_bof_insert es) = concat (map rows_head es)"
    "map text_of (filter is_eof_insert es) = concat (map rows_tail es)"
    "set (map edit_line (filter anchored es)) \<union> (if concat (map rows_head es) = [] then {} else {1}) =
      set (concat (map named_lines es))"
proof -
  note pick = rows_pick [OF nb [rule_format]]
  show "before_lines (edits_at es k) = concat (map (rows_before k) es)"
    "replacement_lines (edits_at es k) = concat (map (rows_instead k) es)"
    "after_lines (edits_at es k) = concat (map (rows_after k) es)"
    "map text_of (filter is_bof_insert es) = concat (map rows_head es)"
    "map text_of (filter is_eof_insert es) = concat (map rows_tail es)"
    unfolding before_lines_def replacement_lines_def after_lines_def edits_at_def filter_filter
    by (rule map_filter_concat, rule pick, assumption)+
  show "list_ex is_delete (edits_at es k) = list_ex (deletes_line k) es"
    using pick(4) by (auto simp: list_ex_iff edits_at_def)
  have "set (concat (map named_lines es)) = (\<Union>e\<in>set es. set (named_lines e))" by simp
  also have "\<dots> = (\<Union>e\<in>set es. (if anchored e then {edit_line e} else {}) \<union>
      (if rows_head e = [] then {} else {1}))"
    by (rule SUP_cong [OF refl pick(7)])
  also have "\<dots> = set (map edit_line (filter anchored es)) \<union>
      (if concat (map rows_head es) = [] then {} else {1})" by (auto split: if_splits)
  finally show "set (map edit_line (filter anchored es)) \<union>
      (if concat (map rows_head es) = [] then {} else {1}) = set (concat (map named_lines es))" ..
qed

lemma bucket_output_spec:
  assumes "\<forall>e\<in>set es. \<not> is_block e"
  shows "bucket_output (edits_at es k) l = line_spec es k l"
  using parts_spec(1-4) [OF assms, of k] by (simp add: bucket_output_def line_spec_def)

lemma line_wise_spec:
  assumes "\<forall>e\<in>set es. \<not> is_block e"
  shows "line_wise es ls = concat (map2 (line_spec es) [1..<Suc (length ls)] ls)"
proof -
  have "map2 (line_spec es) [1..<Suc (length ls)] ls =
      map (\<lambda>i. line_spec es (Suc i) (ls ! i)) [0..<length ls]"
    by (rule nth_equalityI) (simp_all del: upt_Suc)
  then show ?thesis by (simp add: line_wise_def bucket_output_spec [OF assms] del: upt_Suc)
qed

lemma insertAtStart_spec: "insertAtStart ls rows = with_head rows ls"
  by (cases ls) (auto simp: insertAtStart_def with_head_def splice_at_def)

lemma insertAtEnd_spec:
  "insertAtEnd ls rows =
     (with_tail rows ls, case tail_at rows ls of [] \<Rightarrow> None | k # _ \<Rightarrow> Some k)"
proof (cases ls rule: rev_cases)
  case (snoc xs x)
  then show ?thesis
    by (cases xs) (auto simp: insertAtEnd_def with_tail_def tail_at_def splice_at_def Let_def nth_append)
qed (simp add: insertAtEnd_def with_tail_def tail_at_def splice_at_def)

lemma least_line_spec: "least_line ks = (if set ks = {} then None else Some (Min (set ks)))"
  by (simp add: least_line_def)

lemma apply_lines_spec:
  assumes "\<forall>e\<in>set es. \<not> is_block e"
  shows "apply_lines es ls = apply_spec es ls"
proof -
  let ?bof = "concat (map rows_head es)" and ?eof = "concat (map rows_tail es)"
  let ?touched = "map edit_line (filter anchored es) @ (if ?bof = [] then [] else [1])"
  have named: "set (?touched @ ks) = set (concat (map named_lines es) @ ks)" for ks
    unfolding set_append parts_spec(7) [OF assms, symmetric] by simp
  let ?headed = "with_head ?bof (line_wise es ls)"
  have "apply_lines es ls =
      (with_tail ?eof ?headed, least_line (?touched @ tail_at ?eof ?headed))"
    unfolding apply_lines_def Let_def parts_spec(5,6) [OF assms] insertAtStart_spec insertAtEnd_spec
    by (simp add: tail_at_def)
  then show ?thesis
    unfolding least_line_spec named apply_spec_def Let_def line_wise_spec [OF assms] .
qed

section \<open>The loop gives the line-wise result\<close>

lemma foldl_buckets:
  assumes nb: "\<forall>e\<in>set es. \<not> is_block e" and anc: "\<forall>e\<in>set es. anchored e"
    and ks: "set ks \<subseteq> edit_line ` set es"
  shows "foldl (apply_bucket (bucketAnchorEditsByLine es)) (xs, first) ks =
    (foldl (\<lambda>xs k. splice_at xs (k - 1) 1 (bucket_output (edits_at es k)
        (case nth_opt xs (k - 1) of Some l \<Rightarrow> l | None \<Rightarrow> []))) xs ks,
     foldl minFirst first ks)"
  using ks
proof (induction ks arbitrary: xs first)
  case Nil
  then show ?case by simp
next
  case (Cons k ks)
  have at: "filter (\<lambda>e. edit_line e = k) es = edits_at es k"
    using anc by (auto simp: edits_at_def intro: filter_cong)
  obtain e where e: "e \<in> set es" "edit_line e = k" using Cons.prems by auto
  have ne: "e \<in> set (edits_at es k)" using e anc by (simp add: edits_at_def)
  have act: "is_delete e \<or> is_insert e"
    using nb e by (cases e) (auto simp: is_delete_def is_insert_def is_block_def)
  have acts: "\<not> (before_lines (edits_at es k) = [] \<and> replacement_lines (edits_at es k) = [] \<and>
      after_lines (edits_at es k) = [] \<and> \<not> list_ex is_delete (edits_at es k))"
    using ne act
    by (auto simp: before_lines_def replacement_lines_def after_lines_def filter_empty_conv
        list_ex_iff)
  show ?case
    using Cons ne acts
    by (auto simp: apply_bucket_def map_get_snoc_bucket at Let_def)
qed


lemma edit_line_anchor:
  "\<not> is_block e \<Longrightarrow> anchored e \<Longrightarrow> edit_line e \<in> set (getEditAnchors e)"
  by (auto simp: edit_line_def anchored_def is_bof_insert_def is_eof_insert_def
      split: edit.splits cursor.splits)

lemma splice_loop_line_wise:
  assumes nb: "\<forall>e\<in>set es. \<not> is_block e" and anc: "\<forall>e\<in>set es. anchored e"
    and bd: "\<forall>e\<in>set es. \<forall>a\<in>set (getEditAnchors e). 1 \<le> a \<and> a \<le> length ls"
  shows "foldl (apply_bucket (bucketAnchorEditsByLine es)) (ls, None)
      (rev (sort (map_keys (bucketAnchorEditsByLine es)))) =
    (line_wise es ls, least_line (map edit_line es))"
proof -
  let ?ks = "rev (sort (map_keys (bucketAnchorEditsByLine es)))"
  have ks: "set ?ks = edit_line ` set es" using bucket_keys [of es] by simp
  have desc: "sorted_wrt (>) ?ks" using bucket_keys [of es] by (simp add: sorted_rev_desc)
  have line: "edit_line e \<in> set (getEditAnchors e)" if "e \<in> set es" for e
    using that anc nb edit_line_anchor by blast
  have rng: "\<forall>k\<in>set ?ks. 1 \<le> k \<and> k \<le> length ls" using ks line bd by force
  have at: "edits_at es (Suc i) = []" if "Suc i \<notin> set ?ks" for i
    using that ks by (force simp: edits_at_def filter_empty_conv)
  have first: "foldl minFirst None ?ks = least_line (map edit_line es)"
  proof (cases "es = []")
    case True
    then show ?thesis by (simp add: least_line_def bucketAnchorEditsByLine_def map_keys_def)
  next
    case False
    then have ne: "?ks \<noteq> []" using ks by force
    have "last ?ks = Min (set ?ks)"
    proof -
      have "last ?ks = hd (sort (map_keys (bucketAnchorEditsByLine es)))" by (simp add: last_rev)
      also have "\<dots> = Min (set (sort (map_keys (bucketAnchorEditsByLine es))))"
        using ne by (metis hd_sort_Min_aux set_rev rev_is_Nil_conv sorted_sort)
      finally show ?thesis by simp
    qed
    with False ne ks show ?thesis
      using foldl_minFirst_desc [OF desc, of None] by (simp add: least_line_def)
  qed
  have lines: "concat (map (\<lambda>i. if Suc i \<in> set ?ks then bucket_output (edits_at es (Suc i)) (ls ! i)
      else [ls ! i]) [0..<length ls]) = line_wise es ls"
    unfolding line_wise_def
    by (intro arg_cong [where f = concat] map_cong) (auto simp: at)
  have "foldl (\<lambda>xs k. splice_at xs (k - 1) 1 (bucket_output (edits_at es k)
        (case nth_opt xs (k - 1) of Some l \<Rightarrow> l | None \<Rightarrow> []))) ls ?ks = line_wise es ls"
    using splice_down [OF desc rng order_refl, of "\<lambda>k. bucket_output (edits_at es k)" "[]"] lines
    by simp
  then show ?thesis
    using foldl_buckets [OF nb anc, of ?ks ls None] ks first by simp
qed

section \<open>What boundary repair may change\<close>

lemma slice_Cons_nth: "i < j \<Longrightarrow> j \<le> length xs \<Longrightarrow> slice xs i j = xs ! i # slice xs (Suc i) j"
  by (simp add: slice_def Cons_nth_drop_Suc [symmetric] take_Cons')

lemma map_nth_upt_slice: "j \<le> length xs \<Longrightarrow> map ((!) xs) [i..<j] = slice xs i j"
  by (auto simp: slice_def intro!: nth_equalityI)

lemma collect_inserts_spec:
  "collect_inserts es ln a i = (ii, ps, j) \<Longrightarrow> i \<le> length es \<Longrightarrow>
   i \<le> j \<and> j \<le> length es \<and> ii = [i..<j] \<and> ps = map text_of (slice es i j) \<and>
   (\<forall>k\<in>{i..<j}. isReplacementInsert (es ! k))"
proof (induction es ln a i arbitrary: ii ps j rule: collect_inserts.induct)
  case (1 es ln a i)
  show ?case
  proof (cases "\<exists>str ix. i < length es \<and> es ! i = Insert (BeforeAnchor a) str ln ix True")
    case True
    then obtain str ix where e: "i < length es" "es ! i = Insert (BeforeAnchor a) str ln ix True"
      by blast
    obtain ii' ps' j' where r: "collect_inserts es ln a (Suc i) = (ii', ps', j')"
      by (cases "collect_inserts es ln a (Suc i)")
    have eq: "ii = i # ii'" "ps = str # ps'" "j = j'"
      using 1(2) e r by (simp_all add: collect_inserts.simps [of es ln a i])
    have ih: "Suc i \<le> j' \<and> j' \<le> length es \<and> ii' = [Suc i..<j'] \<and>
        ps' = map text_of (slice es (Suc i) j') \<and>
        (\<forall>k\<in>{Suc i..<j'}. isReplacementInsert (es ! k))"
      using 1(1) e r by auto
    have "\<forall>k\<in>{i..<j'}. isReplacementInsert (es ! k)"
    proof
      fix k assume "k \<in> {i..<j'}"
      then show "isReplacementInsert (es ! k)"
        using ih e by (cases "k = i") (auto simp: isReplacementInsert_def)
    qed
    then show ?thesis using eq ih e by (auto simp: upt_conv_Cons slice_Cons_nth)
  next
    case False
    then have "ii = [] \<and> ps = [] \<and> j = i"
      using 1(2) by (auto simp: collect_inserts.simps [of es ln a i]
          split: edit.splits cursor.splits bool.splits if_splits)
    then show ?thesis using 1(3) by (simp add: slice_def)
  qed
qed

lemma collect_deletes_spec:
  "i \<le> length es \<Longrightarrow> \<exists>k. i \<le> k \<and> k \<le> length es \<and> collect_deletes es ln a i = [i..<k] \<and>
   (\<forall>t<k - i. \<exists>x. es ! (i + t) = Delete (a + t) ln x)"
proof (induction es ln a i rule: collect_deletes.induct)
  case (1 es ln a i)
  show ?case
  proof (cases "\<exists>x. i < length es \<and> es ! i = Delete a ln x")
    case True
    then obtain x where e: "i < length es" "es ! i = Delete a ln x" by blast
    obtain k where k: "Suc i \<le> k" "k \<le> length es" "collect_deletes es ln (Suc a) (Suc i) = [Suc i..<k]"
        "\<forall>t<k - Suc i. \<exists>x. es ! (Suc i + t) = Delete (Suc a + t) ln x"
      using 1(1) [OF e(1) e(2)] e by auto
    have "\<exists>x. es ! (i + t) = Delete (a + t) ln x" if "t < k - i" for t
      using that k(4) e by (cases t) auto
    then show ?thesis
      using k e by (intro exI [of _ k]) (auto simp: collect_deletes.simps [of es ln a i] upt_conv_Cons)
  next
    case False
    then have "collect_deletes es ln a i = []"
      by (auto simp: collect_deletes.simps [of es ln a i] split: edit.splits)
    then show ?thesis using 1(2) by auto
  qed
qed

text \<open>A group is a slice of the edits: its inserts, then its deletes.\<close>

definition group_at :: "edit list \<Rightarrow> nat \<Rightarrow> replacement_group \<Rightarrow> nat \<Rightarrow> nat \<Rightarrow> bool" where
  "group_at es i g j k =
     (i < j \<and> j < k \<and> k \<le> length es \<and> insertIndices g = [i..<j] \<and> deleteIndices g = [j..<k] \<and>
      payload g = map text_of (slice es i j) \<and> endLine g = startLine g + (k - j) - 1 \<and>
      (\<forall>m\<in>{i..<j}. isReplacementInsert (es ! m)) \<and>
      (\<forall>t<k - j. \<exists>l x. es ! (j + t) = Delete (startLine g + t) l x))"

lemma findReplacementGroup_shape:
  assumes a: "findReplacementGroup es i = Some g"
  obtains j k where "group_at es i g j k"
proof -
  have i: "i < length es"
    using a by (auto simp: findReplacementGroup_def nth_opt_def split: if_splits option.splits)
  obtain c str ln ix r where e: "es ! i = Insert c str ln ix r"
    using a i by (auto simp: findReplacementGroup_def split: edit.splits)
  obtain n where n: "c = BeforeAnchor n" "r"
    using a i e by (auto simp: findReplacementGroup_def split: cursor.splits bool.splits)
  obtain ii ps j where ci: "collect_inserts es ln n i = (ii, ps, j)"
    by (cases "collect_inserts es ln n i")
  have cs: "i \<le> j" "j \<le> length es" "ii = [i..<j]" "ps = map text_of (slice es i j)"
      "\<forall>k\<in>{i..<j}. isReplacementInsert (es ! k)"
    using collect_inserts_spec [OF ci] i by auto
  obtain ii' ps' where ci': "collect_inserts es ln n (Suc i) = (ii', ps', j)"
    using ci e n i
    by (cases "collect_inserts es ln n (Suc i)") (simp add: collect_inserts.simps [of es ln n i])
  then have ij: "i < j" using collect_inserts_spec [OF ci'] i by auto
  obtain k where k: "j \<le> k" "k \<le> length es" "collect_deletes es ln n j = [j..<k]"
      "\<forall>t<k - j. \<exists>x. es ! (j + t) = Delete (n + t) ln x"
    using collect_deletes_spec [OF cs(2), of ln n] by auto
  have g: "g = \<lparr>insertIndices = ii, deleteIndices = [j..<k], payload = ps, startLine = n,
      endLine = n + length [j..<k] - 1\<rparr>" "j < k"
    using a i e n ci k by (auto simp: findReplacementGroup_def Let_def split: if_splits)
  have "group_at es i g j k"
    using g cs k ij unfolding group_at_def by auto
  then show ?thesis by (rule that)
qed

lemma find_down_cases:
  assumes "Q 0" and "\<And>k. 0 < k \<Longrightarrow> k \<le> n \<Longrightarrow> P k \<Longrightarrow> Q k"
  shows "Q (find_down P n)"
  using assms by (induction n) auto

lemma is_closer_Nil: "\<not> is_closer []"
  by code_simp

lemma dropped_closers_loop_spec:
  assumes "0 < dropped_closers_loop g ls w mx m" and "m \<le> Suc mx"
  shows "m \<le> dropped_closers_loop g ls w mx m \<and> dropped_closers_loop g ls w mx m \<le> mx \<and>
    (\<forall>t\<in>{m..dropped_closers_loop g ls w mx m}.
       endLine g - t < length ls \<and> is_closer (ls ! (endLine g - t)))"
  using assms
proof (induction g ls w mx m rule: dropped_closers_loop.induct)
  case (1 g ls w mx m)
  let ?l = "case nth_opt ls (endLine g - m) of Some l \<Rightarrow> l | None \<Rightarrow> []"
  let ?eq = "balanceEqual (computeDelimiterBalance (slice ls (endLine g - m) (endLine g))) w"
  have m: "\<not> mx < m" "is_closer ?l"
    using 1(2) by (auto simp: dropped_closers_loop.simps [of g ls w mx m] split: if_splits)
  have c: "endLine g - m < length ls \<and> is_closer (ls ! (endLine g - m))"
    using m(2) is_closer_Nil by (auto simp: nth_opt_def split: if_splits)
  show ?case
  proof (cases ?eq)
    case True
    with m c show ?thesis by (simp add: dropped_closers_loop.simps [of g ls w mx m])
  next
    case False
    then have eq: "dropped_closers_loop g ls w mx m = dropped_closers_loop g ls w mx (Suc m)"
      using m by (simp add: dropped_closers_loop.simps [of g ls w mx m])
    have ih: "Suc m \<le> dropped_closers_loop g ls w mx (Suc m) \<and>
        dropped_closers_loop g ls w mx (Suc m) \<le> mx \<and>
        (\<forall>t\<in>{Suc m..dropped_closers_loop g ls w mx (Suc m)}.
           endLine g - t < length ls \<and> is_closer (ls ! (endLine g - t)))"
      using 1(1) [OF m(1) _ False] 1(2) m eq by auto
    then show ?thesis using c unfolding eq
      by (metis Suc_leD Suc_le_eq atLeastAtMost_iff le_neq_implies_less)
  qed
qed

text \<open>
  The three ways a group is trimmed: \<open>a\<close> leading and \<open>b\<close> trailing payload rows that restate the
  lines around the range, \<open>d\<close> deletes of structural closers at its end.
\<close>

definition trimmed :: "replacement_group \<Rightarrow> jstring list \<Rightarrow> nat \<Rightarrow> nat \<Rightarrow> nat \<Rightarrow> bool" where
  "trimmed g ls a b d =
     (a + b \<le> length (payload g) \<and> a \<le> startLine g - 1 \<and> b \<le> length ls - endLine g \<and>
      d \<le> length (deleteIndices g) \<and>
      (\<forall>t<a. payload g ! t = ls ! (startLine g - 1 - a + t)) \<and>
      (\<forall>t<b. payload g ! (length (payload g) - b + t) = ls ! (endLine g + t)) \<and>
      (\<forall>t\<in>{1..d}. endLine g - t < length ls \<and> is_closer (ls ! (endLine g - t))) \<and>
      (d = 0 \<or> a = 0 \<and> b = 0))"

lemma trimmed_zero [simp]: "trimmed g ls 0 0 0"
  by (simp add: trimmed_def)

lemma leading_trimmed: "trimmed g ls (countDuplicateLeadingBoundaryLines g ls) 0 0"
  unfolding countDuplicateLeadingBoundaryLines_def Let_def
  by (rule find_down_cases) (auto simp: trimmed_def list_all_iff)

lemma trailing_trimmed: "trimmed g ls 0 (countDuplicateTrailingBoundaryLines g ls) 0"
  unfolding countDuplicateTrailingBoundaryLines_def Let_def
  by (rule find_down_cases) (auto simp: trimmed_def list_all_iff)

lemma echo_trimmed:
  assumes "findBoundaryEcho g ls = Some (a, b)"
  shows "0 < a \<and> 0 < b \<and> trimmed g ls a b 0"
proof -
  have "a = countDuplicateLeadingBoundaryLines g ls" "b = countDuplicateTrailingBoundaryLines g ls"
    "0 < a" "0 < b" "a + b < length (payload g)"
    using assms by (auto simp: findBoundaryEcho_def Let_def split: if_splits)
  then show ?thesis
    using leading_trimmed [of g ls] trailing_trimmed [of g ls] by (auto simp: trimmed_def)
qed

lemma suffix_trimmed: "trimmed g ls 0 (findDuplicateSuffix g ls delta) 0"
  unfolding findDuplicateSuffix_def Let_def
  by (rule find_down_cases) (auto simp: trimmed_def list_all_iff)

lemma prefix_trimmed: "trimmed g ls (findDuplicatePrefix g ls delta) 0 0"
  unfolding findDuplicatePrefix_def Let_def
  by (rule find_down_cases) (auto simp: trimmed_def list_all_iff)

lemma closers_trimmed: "trimmed g ls 0 0 (findDroppedSuffixClosers g ls delta)"
proof (cases "0 < findDroppedSuffixClosers g ls delta")
  case True
  then show ?thesis
    using dropped_closers_loop_spec [of g ls "balanceNegate delta" "length (deleteIndices g)" 1]
    by (simp add: findDroppedSuffixClosers_def Let_def trimmed_def)
qed (simp add: trimmed_def)

lemma repair_group_trimmed:
  assumes "repair_group g ls ins del = (kept, w)" and "length ins = length (payload g)"
    and "length del = length (deleteIndices g)"
  obtains a b d where "trimmed g ls a b d"
    "kept = slice ins a (length ins - b) @ take (length del - d) del"
    "w = [] \<longleftrightarrow> a = 0 \<and> b = 0 \<and> d = 0" "length w \<le> 1"
proof (cases "findBoundaryEcho g ls")
  case (Some p)
  obtain a b where "p = (a, b)" by (cases p)
  with Some assms echo_trimmed [of g ls a b] show ?thesis
    by (intro that [of a b 0]) (auto simp: repair_group_def)
next
  case None
  define delta where "delta = balanceDelta (computeDelimiterBalance (payload g))
    (computeDelimiterBalance (slice ls (startLine g - 1) (endLine g)))"
  note eq = assms(1) [unfolded repair_group_def None Let_def option.case delta_def [symmetric]]
  consider (zero) "balanceIsZero delta"
    | (suf) "\<not> balanceIsZero delta" "0 < findDuplicateSuffix g ls delta"
    | (pre) "\<not> balanceIsZero delta" "findDuplicateSuffix g ls delta = 0"
        "0 < findDuplicatePrefix g ls delta"
    | (clo) "\<not> balanceIsZero delta" "findDuplicateSuffix g ls delta = 0"
        "findDuplicatePrefix g ls delta = 0" by auto
  then show ?thesis
  proof cases
    case zero
    with eq show ?thesis by (intro that [of 0 0 0]) auto
  next
    case suf
    with eq show ?thesis
      by (intro that [OF suffix_trimmed [of g ls delta]]) (auto simp: slice_def)
  next
    case pre
    with eq show ?thesis
      by (intro that [OF prefix_trimmed [of g ls delta]]) (auto simp: slice_def)
  next
    case clo
    with eq show ?thesis
      by (intro that [OF closers_trimmed [of g ls delta]]) (auto split: if_splits)
  qed
qed


definition in_bounds :: "edit list \<Rightarrow> jstring list \<Rightarrow> bool" where
  "in_bounds es ls = (\<forall>e\<in>set es. \<forall>a\<in>set (getEditAnchors e). 1 \<le> a \<and> a \<le> length ls)"

text \<open>Why boundary repair may drop an edit.\<close>

definition droppable :: "jstring list \<Rightarrow> edit \<Rightarrow> bool" where
  "droppable ls e =
     (case e of
        Insert _ str _ _ r \<Rightarrow> r \<and> str \<in> set ls
      | Delete a _ _ \<Rightarrow> is_closer (ls ! (a - 1))
      | Block _ _ _ _ \<Rightarrow> False)"

lemma slice_append_parts: "i \<le> j \<Longrightarrow> j \<le> k \<Longrightarrow> slice xs i j @ slice xs j k = slice xs i k"
  using take_add [of "j - i" "k - j" "drop i xs"] by (simp add: slice_def)

lemma slice_drop: "i \<le> k \<Longrightarrow> slice xs i k @ drop k xs = drop i xs"
  using append_take_drop_id [of "k - i" "drop i xs"] by (simp add: slice_def)

lemma subseq_take: "subseq (take n xs) xs"
  using subseq_rev_drop_many [of "take n xs" "take n xs" "drop n xs"] by simp

lemma subseq_drop: "subseq (drop n xs) xs"
  using subseq_drop_many [of "drop n xs" "drop n xs" "take n xs"] by simp

lemma subseq_slice: "subseq (slice xs i j) xs"
  unfolding slice_def by (rule subseq_order.trans [OF subseq_take subseq_drop])

lemma in_slice: "x \<in> set (slice xs i j) \<longleftrightarrow> (\<exists>k. i \<le> k \<and> k < j \<and> k < length xs \<and> x = xs ! k)"
proof
  assume "x \<in> set (slice xs i j)"
  then obtain m where "m < j - i" "i + m < length xs" "x = xs ! (i + m)"
    by (auto simp: slice_def in_set_conv_nth)
  then show "\<exists>k. i \<le> k \<and> k < j \<and> k < length xs \<and> x = xs ! k"
    by (intro exI [of _ "i + m"]) auto
next
  assume "\<exists>k. i \<le> k \<and> k < j \<and> k < length xs \<and> x = xs ! k"
  then obtain k where "i \<le> k" "k < j" "k < length xs" "x = xs ! k" by blast
  then show "x \<in> set (slice xs i j)"
    by (auto simp: slice_def in_set_conv_nth intro!: exI [of _ "k - i"])
qed

text \<open>One group: what is kept of it, and why the rest may go.\<close>

lemma repair_group_sound:
  assumes g: "group_at es i g j k" and bd: "in_bounds es ls"
    and r: "repair_group g ls (slice es i j) (slice es j k) = (kept, w)"
  shows "subseq kept (slice es i k) \<and> (w = [] \<longleftrightarrow> kept = slice es i k) \<and>
    (\<forall>e\<in>set (slice es i k) - set kept. droppable ls e)"
proof -
  have ijk: "i < j" "j < k" "k \<le> length es" and g': "payload g = map text_of (slice es i j)"
      "endLine g = startLine g + (k - j) - 1" "length (deleteIndices g) = k - j"
      "\<forall>m\<in>{i..<j}. isReplacementInsert (es ! m)"
    and del: "\<forall>t<k - j. \<exists>l x. es ! (j + t) = Delete (startLine g + t) l x"
    using g by (auto simp: group_at_def)
  have li: "length (slice es i j) = j - i" "length (slice es j k) = k - j"
    using ijk by (simp_all add: length_slice)
  obtain a b d where t: "trimmed g ls a b d"
    and k: "kept = slice (slice es i j) a (length (slice es i j) - b) @
      take (length (slice es j k) - d) (slice es j k)"
    and w: "w = [] \<longleftrightarrow> a = 0 \<and> b = 0 \<and> d = 0"
    using repair_group_trimmed [OF r] g' li by (metis length_map)
  have full: "slice es i j @ slice es j k = slice es i k"
    using ijk by (simp add: slice_append_parts)
  have sub: "subseq kept (slice es i k)"
    unfolding k full [symmetric] by (intro list_emb_append_mono subseq_slice subseq_take)
  have ab: "a + b \<le> j - i" "d \<le> k - j" using t g' li by (auto simp: trimmed_def)
  have len: "length kept = (j - i - a - b) + (k - j - d)"
    unfolding k length_append length_take using li by (simp add: length_slice)
  have iff: "w = [] \<longleftrightarrow> kept = slice es i k"
  proof
    assume "w = []"
    then show "kept = slice es i k" using w k full by simp
  next
    assume "kept = slice es i k"
    then have "length kept = (j - i) + (k - j)"
      using full li by (metis length_append)
    then show "w = []" using w len ab by auto
  qed
  have s1: "1 \<le> startLine g" "startLine g \<le> length ls"
  proof -
    have "es ! j \<in> set es" using ijk by simp
    moreover obtain l x where "es ! j = Delete (startLine g) l x" using del ijk by force
    ultimately show "1 \<le> startLine g" "startLine g \<le> length ls"
      using bd by (force simp: in_bounds_def)+
  qed
  have why: "droppable ls e" if e: "e \<in> set (slice es i k)" "e \<notin> set kept" for e
  proof -
    consider (ins) m where "m < j - i" "e = es ! (i + m)" | (del) m where "m < k - j" "e = es ! (j + m)"
    proof -
      obtain n where n: "i \<le> n" "n < k" "e = es ! n" using e by (auto simp: in_slice)
      show thesis
      proof (cases "n < j")
        case True
        then show thesis using n that(1) [of "n - i"] by simp
      next
        case False
        then show thesis using n that(2) [of "n - j"] by simp
      qed
    qed
    then show ?thesis
    proof cases
      case ins
      have nth: "slice es i j ! m = e" "payload g ! m = text_of e"
        using ins g' li ijk by (simp_all add: slice_def)
      have rep: "isReplacementInsert e" using ins g' ijk by simp
      have "m < a \<or> j - i - b \<le> m"
      proof (rule ccontr)
        assume "\<not> ?thesis"
        then have "e \<in> set (slice (slice es i j) a (length (slice es i j) - b))"
          using nth li ins by (force simp: in_slice)
        with e k show False by simp
      qed
      then have "text_of e \<in> set ls"
      proof
        assume "m < a"
        then have "text_of e = ls ! (startLine g - 1 - a + m)" "startLine g - 1 - a + m < length ls"
          using t nth s1 by (auto simp: trimmed_def)
        then show ?thesis by simp
      next
        assume m: "j - i - b \<le> m"
        define q where "q = m - (j - i - b)"
        have lp: "length (payload g) = j - i" using g' li by simp
        have q: "q < b" "length (payload g) - b + q = m"
          using m ins(1) ab(1) unfolding q_def lp by linarith+
        have "payload g ! (length (payload g) - b + q) = ls ! (endLine g + q)"
          using t q(1) by (auto simp: trimmed_def)
        then have "text_of e = ls ! (endLine g + q)" using q nth by simp
        moreover have "endLine g + q < length ls" using t q(1) by (auto simp: trimmed_def)
        ultimately have "text_of e \<in> set ls" by simp
        then show ?thesis by simp
      qed
      with rep show ?thesis
        by (auto simp: droppable_def isReplacementInsert_def split: edit.splits)
    next
      case del
      obtain l x where d: "e = Delete (startLine g + m) l x"
        using del \<open>\<forall>t<k - j. \<exists>l x. es ! (j + t) = Delete (startLine g + t) l x\<close> by force
      have "k - j - d \<le> m"
      proof (rule ccontr)
        assume "\<not> ?thesis"
        then have "e \<in> set (take (length (slice es j k) - d) (slice es j k))"
          using li del ijk by (auto simp: in_set_conv_nth slice_def intro!: exI [of _ m])
        with e k show False by simp
      qed
      then have mem: "k - j - m \<in> {1..d}" and eq: "endLine g - (k - j - m) = startLine g + m - 1"
        using del ab s1 g' by auto
      from mem t have "is_closer (ls ! (endLine g - (k - j - m)))" by (simp add: trimmed_def)
      then have "is_closer (ls ! (startLine g + m - 1))" using eq by simp
      then show ?thesis using d by (simp add: droppable_def)
    qed
  qed
  show ?thesis using sub iff why by blast
qed

lemma repair_loop_sound:
  "in_bounds es ls \<Longrightarrow> i \<le> length es \<Longrightarrow> repair_loop es ls i = (out, ws) \<Longrightarrow>
   subseq out (drop i es) \<and> (ws = [] \<longleftrightarrow> out = drop i es) \<and>
   (\<forall>e\<in>set (drop i es) - set out. droppable ls e)"
proof (induction es ls i arbitrary: out ws rule: repair_loop.induct)
  case (1 es ls i)
  show ?case
  proof (cases "i < length es")
    case False
    then show ?thesis using 1 by (simp add: repair_loop.simps [of es ls "length es"])
  next
    case i: True
    show ?thesis
    proof (cases "findReplacementGroup es i")
      case None
      obtain out' ws' where r: "repair_loop es ls (Suc i) = (out', ws')"
        by (cases "repair_loop es ls (Suc i)")
      have eq: "out = es ! i # out'" "ws = ws'"
        using 1(5) i None r by (simp_all add: repair_loop.simps [of es ls i])
      show ?thesis
        using 1(1) [OF i None 1(3) _ r] i eq by (simp add: Cons_nth_drop_Suc [symmetric])
    next
      case (Some g)
      obtain j k where g: "group_at es i g j k" using findReplacementGroup_shape [OF Some] .
      then have ijk: "i < j" "j < k" "k \<le> length es" and lastd: "last (deleteIndices g) + 1 = k"
        and mp: "map ((!) es) (insertIndices g) = slice es i j"
          "map ((!) es) (deleteIndices g) = slice es j k"
        by (auto simp: group_at_def map_nth_upt_slice)
      obtain kept w where kw: "repair_group g ls (slice es i j) (slice es j k) = (kept, w)"
        by (cases "repair_group g ls (slice es i j) (slice es j k)")
      obtain out' ws' where r: "repair_loop es ls k = (out', ws')"
        by (cases "repair_loop es ls k")
      have eq: "out = kept @ out'" "ws = w @ ws'"
        using 1(5) i Some kw r lastd mp
        by (simp_all add: repair_loop.simps [of es ls i])
      note sound = repair_group_sound [OF g 1(3) kw]
      have ih: "subseq out' (drop k es) \<and> (ws' = [] \<longleftrightarrow> out' = drop k es) \<and>
          (\<forall>e\<in>set (drop k es) - set out'. droppable ls e)"
        using 1(2) [OF i Some, of kept w out' ws'] 1(3) kw r lastd mp ijk by simp
      have d: "slice es i k @ drop k es = drop i es" using ijk by (simp add: slice_drop)
      have "ws = [] \<longleftrightarrow> out = drop i es"
      proof
        assume "out = drop i es"
        then have "kept @ out' = slice es i k @ drop k es" using d eq by simp
        moreover have "length kept \<le> length (slice es i k)" "length out' \<le> length (drop k es)"
          using sound ih list_emb_length by blast+
        moreover have "length kept + length out' = length (slice es i k) + length (drop k es)"
          using calculation(1) by (metis length_append)
        ultimately have "kept = slice es i k \<and> out' = drop k es" by simp
        then show "ws = []" using sound ih eq by simp
      qed (use sound ih eq d in auto)
      moreover have "subseq out (drop i es)"
        unfolding eq d [symmetric] using sound ih by (simp add: list_emb_append_mono)
      moreover have "\<forall>e\<in>set (drop i es) - set out. droppable ls e"
        unfolding eq d [symmetric] using sound ih by auto
      ultimately show ?thesis by blast
    qed
  qed
qed

section \<open>Properties of the applier\<close>

text \<open>The edits with the index stamps \<open>applyEdits\<close> gives its copies.\<close>

definition stamped :: "edit list \<Rightarrow> edit list" where
  "stamped es = map (\<lambda>(i, e). cloneAppliedEdit e i) (zip [0..<length es] es)"

lemma length_stamped [simp]: "length (stamped es) = length es"
  by (simp add: stamped_def)

lemma nth_stamped: "i < length es \<Longrightarrow> stamped es ! i = cloneAppliedEdit (es ! i) i"
  by (simp add: stamped_def)

lemma clone_sel [simp]:
  "getEditAnchors (cloneAppliedEdit e i) = getEditAnchors e"
  "is_block (cloneAppliedEdit e i) = is_block e"
  by (cases e; simp)+

lemma in_bounds_stamped [simp]: "in_bounds (stamped es) ls = in_bounds es ls"
  by (simp add: in_bounds_def all_set_conv_all_nth nth_stamped)

lemma block_stamped: "(\<forall>e\<in>set (stamped es). \<not> is_block e) = (\<forall>e\<in>set es. \<not> is_block e)"
  by (simp add: all_set_conv_all_nth nth_stamped)

lemma in_bounds_find:
  "in_bounds es ls \<longleftrightarrow> find (\<lambda>a. a < 1 \<or> length ls < a) (concat (map getEditAnchors es)) = None"
  by (auto simp: in_bounds_def find_None_iff not_less Suc_le_eq)

lemma validateLineBounds_Inr: "validateLineBounds es ls = Inr () \<longleftrightarrow> in_bounds es ls"
  by (simp add: validateLineBounds_def in_bounds_find split: option.splits)

lemma subseq_set: "subseq xs ys \<Longrightarrow> set xs \<subseteq> set ys"
  by (auto dest: list_emb_set)

lemma validateLineBounds_Inl:
  assumes "\<not> in_bounds es ls"
  obtains a where "validateLineBounds es ls = Inl (LineDoesNotExist a (length ls))"
    "a < 1 \<or> length ls < a"
proof -
  obtain a where "find (\<lambda>a. a < 1 \<or> length ls < a) (concat (map getEditAnchors es)) = Some a"
    using assms
    by (cases "find (\<lambda>a. a < 1 \<or> length ls < a) (concat (map getEditAnchors es))")
       (auto simp: in_bounds_def find_None_iff not_less)
  moreover then have "a < 1 \<or> length ls < a" by (auto simp: find_Some_iff)
  ultimately show ?thesis using that by (simp add: validateLineBounds_def)
qed

lemma in_bounds_subseq: "subseq xs es \<Longrightarrow> in_bounds es ls \<Longrightarrow> in_bounds xs ls"
  using subseq_set by (fastforce simp: in_bounds_def)

lemma filter_simps_ends:
  "filter is_bof_insert (filter anchored es) = []" "filter is_eof_insert (filter anchored es) = []"
  by (auto simp: filter_empty_conv anchored_def)

lemma line_wise_anchored: "line_wise (filter anchored es) ls = line_wise es ls"
  by (simp add: line_wise_def edits_at_def conj_commute)

lemma applyEdits_eq:
  assumes ne: "es \<noteq> []" and nb: "\<forall>e\<in>set es. \<not> is_block e"
    and bd: "in_bounds es (split_lines body)"
    and rep: "repairReplacementBoundaries (stamped es) (split_lines body) = (rep, ws)"
    and spec: "apply_lines rep (split_lines body) = (final, first)"
  shows "applyEdits body es =
    Inr \<lparr>ar_text = join_lines final, ar_first = first, ar_warnings = ws\<rparr>"
proof -
  let ?ls = "split_lines body" and ?anc = "filter anchored rep"
  have sub: "subseq rep (stamped es)"
    using repair_loop_sound [of "stamped es" ?ls 0 rep ws] bd rep
    by (simp add: repairReplacementBoundaries_def)
  have nb': "\<forall>e\<in>set rep. \<not> is_block e"
    using nb subseq_set [OF sub] block_stamped by blast
  have bd': "in_bounds rep ?ls" using in_bounds_subseq [OF sub] bd by simp
  have v: "validateLineBounds (stamped es) ?ls = Inr ()" using bd by (simp add: validateLineBounds_Inr)
  have nblock: "\<not> list_ex is_block es" using nb by (simp add: list_ex_iff)
  have loop: "foldl (apply_bucket (bucketAnchorEditsByLine ?anc)) (?ls, None)
      (rev (sort (map_keys (bucketAnchorEditsByLine ?anc)))) =
      (line_wise rep ?ls, least_line (map edit_line ?anc))"
  proof -
    have "\<forall>e\<in>set ?anc. \<not> is_block e" "\<forall>e\<in>set ?anc. anchored e" using nb' by auto
    moreover have "\<forall>e\<in>set ?anc. \<forall>a\<in>set (getEditAnchors e). 1 \<le> a \<and> a \<le> length ?ls"
      using bd' by (simp only: in_bounds_def set_filter) blast
    ultimately show ?thesis
      using splice_loop_line_wise [of ?anc ?ls] by (simp only: line_wise_anchored)
  qed
  have anc: "(\<lambda>e. \<not> is_bof_insert e \<and> \<not> is_eof_insert e) = anchored"
    by (simp add: anchored_def fun_eq_iff)
  have least: "minFirst (least_line ks) k = least_line (ks @ [k])" for ks k
  proof (cases "ks = []")
    case False
    then have "Min (set (ks @ [k])) = min k (Min (set ks))" by simp
    with False show ?thesis unfolding minFirst_def least_line_def min_def by (simp del: Min_gr_iff Min_ge_iff)
  qed (simp add: minFirst_def least_line_def)
  let ?bof = "map text_of (filter is_bof_insert rep)"
  let ?eof = "map text_of (filter is_eof_insert rep)"
  obtain l3 ec where l3: "insertAtEnd (insertAtStart (line_wise rep ?ls) ?bof) ?eof = (l3, ec)"
    by (cases "insertAtEnd (insertAtStart (line_wise rep ?ls) ?bof) ?eof")
  define touched where "touched = map edit_line (filter anchored rep)"
  have start: "(if 0 < length ?bof then insertAtStart (line_wise rep ?ls) ?bof
      else line_wise rep ?ls) = insertAtStart (line_wise rep ?ls) ?bof"
    by (simp add: insertAtStart_def)
  have one: "(if 0 < length ?bof then minFirst (least_line touched) 1 else least_line touched) =
      least_line (touched @ (if ?bof = [] then [] else [1]))"
    by (simp add: least)
  have fin: "final = l3" "first = (case ec of
        None \<Rightarrow> least_line (touched @ (if ?bof = [] then [] else [1]))
      | Some k \<Rightarrow> minFirst (least_line (touched @ (if ?bof = [] then [] else [1]))) k)"
    using spec l3 unfolding apply_lines_def Let_def
    by (auto simp: touched_def least split: option.splits)
  have "applyEdits body es =
      (let lines1 = line_wise rep ?ls; first1 = least_line touched;
           lines2 = (if 0 < length ?bof then insertAtStart lines1 ?bof else lines1);
           first2 = (if 0 < length ?bof then minFirst first1 1 else first1)
       in case insertAtEnd lines2 ?eof of (lines3, eofChanged) \<Rightarrow>
         Inr \<lparr>ar_text = join_lines lines3,
              ar_first = (case eofChanged of None \<Rightarrow> first2 | Some l \<Rightarrow> minFirst first2 l),
              ar_warnings = ws\<rparr>)"
    unfolding applyEdits_def Let_def stamped_def [symmetric]
    using ne nblock v by (simp only: rep prod.case anc loop length_0_conv if_False rbind_simps touched_def)
  then show ?thesis unfolding Let_def start one l3 prod.case fin .
qed

lemma applyEdits_checked:
  assumes "applyEdits body es = Inr r" and "es \<noteq> []"
  shows "\<forall>e\<in>set es. \<not> is_block e" "in_bounds es (split_lines body)"
proof -
  show "\<forall>e\<in>set es. \<not> is_block e"
    using assms by (auto simp: applyEdits_def list_ex_iff split: if_splits)
  show "in_bounds es (split_lines body)"
  proof (rule ccontr)
    assume "\<not> ?thesis"
    then obtain a where "validateLineBounds (stamped es) (split_lines body) =
        Inl (LineDoesNotExist a (length (split_lines body)))"
      using validateLineBounds_Inl [of "stamped es"] by auto
    then show False using assms
      by (auto simp: applyEdits_def stamped_def [symmetric] Let_def split: if_splits)
  qed
qed

lemma repair_sound:
  assumes "in_bounds es ls" and "repairReplacementBoundaries es ls = (out, ws)"
  shows "subseq out es \<and> (ws = [] \<longleftrightarrow> out = es) \<and> (\<forall>e\<in>set es - set out. droppable ls e)"
  using repair_loop_sound [of es ls 0 out ws] assms by (simp add: repairReplacementBoundaries_def)

lemma applyEdits_spec:
  assumes "applyEdits body es = Inr r" and "es \<noteq> []"
  shows "\<exists>rep ws final first.
    repairReplacementBoundaries (stamped es) (split_lines body) = (rep, ws) \<and>
    apply_lines rep (split_lines body) = (final, first) \<and>
    r = \<lparr>ar_text = join_lines final, ar_first = first, ar_warnings = ws\<rparr>"
proof -
  obtain rep ws where rep: "repairReplacementBoundaries (stamped es) (split_lines body) = (rep, ws)"
    by (cases "repairReplacementBoundaries (stamped es) (split_lines body)")
  obtain final first where sp: "apply_lines rep (split_lines body) = (final, first)"
    by (cases "apply_lines rep (split_lines body)")
  show ?thesis
    using applyEdits_eq [OF assms(2) applyEdits_checked [OF assms] rep sp] assms(1) rep sp by auto
qed

lemma applyEdits_full:
  assumes ok: "applyEdits body es = Inr r" and ne: "es \<noteq> []"
  shows "\<exists>rep ws final first.
    repairReplacementBoundaries (stamped es) (split_lines body) = (rep, ws) \<and>
    subseq rep (stamped es) \<and> (ws = [] \<longleftrightarrow> rep = stamped es) \<and>
    (\<forall>e\<in>set (stamped es) - set rep. droppable (split_lines body) e) \<and>
    apply_spec rep (split_lines body) = (final, first) \<and>
    r = \<lparr>ar_text = join_lines final, ar_first = first, ar_warnings = ws\<rparr>"
proof -
  obtain rep ws final first where rep: "repairReplacementBoundaries (stamped es) (split_lines body) = (rep, ws)"
    and r: "apply_lines rep (split_lines body) = (final, first)"
      "r = \<lparr>ar_text = join_lines final, ar_first = first, ar_warnings = ws\<rparr>"
    using applyEdits_spec [OF assms] by blast
  have safe: "subseq rep (stamped es) \<and> (ws = [] \<longleftrightarrow> rep = stamped es) \<and>
      (\<forall>e\<in>set (stamped es) - set rep. droppable (split_lines body) e)"
    using repair_sound [OF _ rep] applyEdits_checked(2) [OF assms] by simp
  have "\<forall>e\<in>set rep. \<not> is_block e"
    using applyEdits_checked(1) [OF assms] safe subseq_set block_stamped by blast
  then show ?thesis using rep safe r apply_lines_spec by metis
qed

text \<open>
  C36: a successful application is the specification of the repaired edits, stated over the
  edits alone: each line of the file gives, on its own, the rows put before it, the rows that
  stand for it, itself unless deleted, and the rows put after it; head rows come first and
  tail rows last (in front of an empty last line); the first changed line is the least line
  named. The repair drops edits only, with a warning, and only rows that repeat a line of
  the file or deletions of closing brackets.
\<close>

theorem applyEdits_refines:
  assumes "applyEdits body es = Inr r" and "es \<noteq> []"
  shows "\<exists>rep ws final first.
    repairReplacementBoundaries (stamped es) (split_lines body) = (rep, ws) \<and>
    subseq rep (stamped es) \<and> (ws = [] \<longleftrightarrow> rep = stamped es) \<and>
    (\<forall>e\<in>set (stamped es) - set rep. droppable (split_lines body) e) \<and>
    apply_spec rep (split_lines body) = (final, first) \<and>
    r = \<lparr>ar_text = join_lines final, ar_first = first, ar_warnings = ws\<rparr>"
  by (rule applyEdits_full [OF assms])

theorem applyEdits_refines_witness:
  "\<exists>rep ws final first.
    repairReplacementBoundaries (stamped [Delete 1 1 0]) (split_lines (js ''ab'')) = (rep, ws) \<and>
    subseq rep (stamped [Delete 1 1 0]) \<and> (ws = [] \<longleftrightarrow> rep = stamped [Delete 1 1 0]) \<and>
    (\<forall>e\<in>set (stamped [Delete 1 1 0]) - set rep. droppable (split_lines (js ''ab'')) e) \<and>
    apply_spec rep (split_lines (js ''ab'')) = (final, first) \<and>
    \<lparr>ar_text = [], ar_first = Some 1, ar_warnings = []\<rparr> =
      \<lparr>ar_text = join_lines final, ar_first = first, ar_warnings = ws\<rparr>"
proof (rule applyEdits_refines)
  show "applyEdits (js ''ab'') [Delete 1 1 0] =
      Inr \<lparr>ar_text = [], ar_first = Some 1, ar_warnings = []\<rparr>" by code_simp
qed simp

text \<open>
  The applier succeeds exactly on edits without unresolved block whose anchors all lie in
  the file, and otherwise its error is one of the two the code throws, with an anchor that is
  really out of the file.
\<close>

theorem applyEdits_total:
  "case applyEdits body es of
     Inr r \<Rightarrow> es = [] \<or> list_all (\<lambda>e. \<not> is_block e) es \<and> in_bounds es (split_lines body)
   | Inl UnresolvedBlockInternal \<Rightarrow> list_ex is_block es
   | Inl (LineDoesNotExist a n) \<Rightarrow> \<not> list_ex is_block es \<and> \<not> in_bounds es (split_lines body) \<and>
       n = length (split_lines body) \<and> a \<notin> {1..n}
   | Inl _ \<Rightarrow> False"
proof -
  let ?ls = "split_lines body"
  consider (nil) "es = []" | (blk) "es \<noteq> []" "list_ex is_block es"
    | (out) "es \<noteq> []" "\<not> list_ex is_block es" "\<not> in_bounds es ?ls"
    | (ok) "es \<noteq> []" "\<not> list_ex is_block es" "in_bounds es ?ls" by blast
  then show ?thesis
  proof cases
    case out
    then obtain a where "validateLineBounds (stamped es) ?ls = Inl (LineDoesNotExist a (length ?ls))"
        "a < 1 \<or> length ?ls < a"
      using validateLineBounds_Inl [of "stamped es" ?ls] by auto
    with out show ?thesis by (auto simp: applyEdits_def stamped_def [symmetric] Let_def)
  next
    case ok
    obtain rep ws where rep: "repairReplacementBoundaries (stamped es) ?ls = (rep, ws)"
      by (cases "repairReplacementBoundaries (stamped es) ?ls")
    obtain final first where "apply_lines rep ?ls = (final, first)" by (cases "apply_lines rep ?ls")
    then show ?thesis
      using applyEdits_eq [OF ok(1) _ ok(3) rep] ok by (auto simp: list_ex_iff list_all_iff)
  qed (auto simp: applyEdits_def)
qed

text \<open>
  Boundary repair never invents, reorders or duplicates an edit; it warns exactly when it
  changed something; and whatever it drops is a replacement row whose text is already a line
  of the file, or the deletion of a line that holds only closing brackets.
\<close>

theorem repair_safe:
  assumes "in_bounds es ls" and "repairReplacementBoundaries es ls = (out, ws)"
  shows "subseq out es \<and> (ws = [] \<longleftrightarrow> out = es) \<and> (\<forall>e\<in>set es - set out. droppable ls e)"
  by (rule repair_sound [OF assms])

theorem repair_safe_witness:
  "let es = [Insert (BeforeAnchor 1) (js ''x'') 1 0 True,
             Insert (BeforeAnchor 1) (js ''}'') 1 1 True, Delete 1 1 2];
       ls = [js ''y'', js ''}'']
   in fst (repairReplacementBoundaries es ls) \<noteq> es \<and>
      subseq (fst (repairReplacementBoundaries es ls)) es \<and>
      (snd (repairReplacementBoundaries es ls) = [] \<longleftrightarrow> fst (repairReplacementBoundaries es ls) = es) \<and>
      (\<forall>e\<in>set es - set (fst (repairReplacementBoundaries es ls)). droppable ls e)"
proof -
  let ?es = "[Insert (BeforeAnchor 1) (js ''x'') 1 0 True,
             Insert (BeforeAnchor 1) (js ''}'') 1 1 True, Delete 1 1 2]"
  let ?ls = "[js ''y'', js ''}'']"
  have "in_bounds ?es ?ls" by (simp add: in_bounds_def)
  moreover have "fst (repairReplacementBoundaries ?es ?ls) \<noteq> ?es" by code_simp
  ultimately show ?thesis
    unfolding Let_def using repair_safe [of ?es ?ls] by (metis prod.collapse)
qed

section \<open>Lines no edit deletes\<close>

definition survivors :: "edit list \<Rightarrow> jstring list \<Rightarrow> jstring list" where
  "survivors es ls = concat (map (\<lambda>i.
     if list_ex (\<lambda>e. is_delete e \<and> edit_line e = Suc i) es then [] else [ls ! i]) [0..<length ls])"

lemma subseq_concat_map:
  "(\<forall>x\<in>set xs. subseq (f x) (g x)) \<Longrightarrow> subseq (concat (map f xs)) (concat (map g xs))"
  by (induction xs) (auto intro: list_emb_append_mono)

lemma subseq_filter_cong: "subseq xs ys \<Longrightarrow> subseq (filter P xs) (filter P ys)"
  by (rule subseq_filter)

lemma survivors_line_wise: "subseq (survivors es ls) (line_wise es ls)"
  unfolding survivors_def line_wise_def
proof (rule subseq_concat_map, intro ballI)
  fix i
  let ?b = "edits_at es (Suc i)"
  have "list_ex is_delete ?b \<Longrightarrow> list_ex (\<lambda>e. is_delete e \<and> edit_line e = Suc i) es"
    by (auto simp: list_ex_iff edits_at_def)
  then show "subseq (if list_ex (\<lambda>e. is_delete e \<and> edit_line e = Suc i) es then [] else [ls ! i])
      (bucket_output ?b (ls ! i))"
    by (auto simp: bucket_output_def subseq_singleton_left)
qed

lemma survivors_mono: "set xs \<subseteq> set es \<Longrightarrow> subseq (survivors es ls) (survivors xs ls)"
  unfolding survivors_def by (rule subseq_concat_map) (auto simp: list_ex_iff)

abbreviation (input) nonempty :: "jstring list \<Rightarrow> jstring list" where
  "nonempty ls \<equiv> filter (\<lambda>l. l \<noteq> []) ls"

lemma nonempty_splice_empty:
  "subseq (nonempty xs) (nonempty (insertAtStart xs ys))"
  "subseq (nonempty xs) (nonempty (fst (insertAtEnd xs ys)))"
proof -
  show "subseq (nonempty xs) (nonempty (insertAtStart xs ys))"
    by (cases xs) (auto simp: insertAtStart_def splice_at_def intro: list_emb_append2)
  have "subseq xs (take k xs @ ys @ drop k xs)" for k
    using list_emb_append_mono [of "(=)" "take k xs" "take k xs" "drop k xs" "ys @ drop k xs"]
    by (simp add: list_emb_append2)
  then have "subseq (nonempty xs) (nonempty (take k xs @ ys @ drop k xs))" for k
    using subseq_filter by blast
  then show "subseq (nonempty xs) (nonempty (fst (insertAtEnd xs ys)))"
    by (cases "length xs = 1 \<and> xs ! 0 = []")
       (auto simp: insertAtEnd_def splice_at_def Let_def length_Suc_conv simp del: filter_append)
qed

definition single_line_rows :: "edit list \<Rightarrow> bool" where
  "single_line_rows es = list_all (\<lambda>e. is_insert e \<longrightarrow> LF \<notin> set (text_of e)) es"

lemma replacement_is_insert: "isReplacementInsert e \<Longrightarrow> is_insert e"
  by (cases e) (auto simp: isReplacementInsert_def is_insert_def)

lemma after_is_insert: "is_after_insert e \<Longrightarrow> is_insert e"
  by (cases e) (auto simp: is_after_insert_def is_insert_def)

lemma bucket_rows: "x \<in> set (bucket_output b l) \<Longrightarrow> x = l \<or> x \<in> text_of ` set (filter is_insert b)"
  by (auto simp: bucket_output_def before_lines_def replacement_lines_def after_lines_def
      dest: replacement_is_insert after_is_insert split: if_splits)

lemma ends_are_inserts:
  "text_of ` set (filter is_bof_insert es) \<subseteq> text_of ` set (filter is_insert es)"
  "text_of ` set (filter is_eof_insert es) \<subseteq> text_of ` set (filter is_insert es)"
proof -
  have "is_bof_insert e \<Longrightarrow> is_insert e" "is_eof_insert e \<Longrightarrow> is_insert e" for e
    by (cases e; simp add: is_bof_insert_def is_eof_insert_def is_insert_def)+
  then show "text_of ` set (filter is_bof_insert es) \<subseteq> text_of ` set (filter is_insert es)"
    "text_of ` set (filter is_eof_insert es) \<subseteq> text_of ` set (filter is_insert es)" by auto
qed

lemma apply_lines_rows:
  assumes "apply_lines es ls = (final, first)" "x \<in> set final"
  shows "x \<in> set ls \<or> x \<in> text_of ` set (filter is_insert es)"
proof -
  let ?T = "text_of ` set (filter is_insert es)"
  have lw: "set (line_wise es ls) \<subseteq> set ls \<union> ?T"
  proof
    fix y assume "y \<in> set (line_wise es ls)"
    then obtain i where "i < length ls" "y \<in> set (bucket_output (edits_at es (Suc i)) (ls ! i))"
      by (auto simp: line_wise_def)
    then show "y \<in> set ls \<union> ?T" using bucket_rows by (fastforce simp: edits_at_def)
  qed
  have st: "set (insertAtStart a b) \<subseteq> set a \<union> set b" for a b
    by (auto simp: insertAtStart_def splice_at_def dest: in_set_takeD in_set_dropD)
  have en: "set (fst (insertAtEnd a b)) \<subseteq> set a \<union> set b" for a b
    by (auto simp: insertAtEnd_def splice_at_def Let_def dest: in_set_takeD in_set_dropD)
  let ?bof = "map text_of (filter is_bof_insert es)" and ?eof = "map text_of (filter is_eof_insert es)"
  have "final = fst (insertAtEnd (insertAtStart (line_wise es ls) ?bof) ?eof)"
    using assms(1) by (auto simp: apply_lines_def Let_def split: prod.splits option.splits)
  then have "set final \<subseteq> set (line_wise es ls) \<union> set ?bof \<union> set ?eof"
    using st [of "line_wise es ls" ?bof] en [of "insertAtStart (line_wise es ls) ?bof" ?eof] by blast
  then have "set final \<subseteq> set ls \<union> ?T"
    using lw ends_are_inserts [of es] by (simp add: subset_iff) blast
  then show ?thesis using assms(2) by blast
qed

lemma clone_simps [simp]:
  "is_delete (cloneAppliedEdit e i) = is_delete e" "edit_line (cloneAppliedEdit e i) = edit_line e"
  "is_insert (cloneAppliedEdit e i) = is_insert e"
  by (cases e; simp add: is_delete_def edit_line_def is_insert_def)+

lemma clone_text [simp]: "is_insert e \<Longrightarrow> text_of (cloneAppliedEdit e i) = text_of e"
  by (cases e) (auto simp: is_insert_def)

lemma stamped_ex: "list_ex (\<lambda>e. is_delete e \<and> edit_line e = k) (stamped es) =
    list_ex (\<lambda>e. is_delete e \<and> edit_line e = k) es"
  by (simp add: list_ex_length nth_stamped cong: conj_cong)

lemma survivors_stamped [simp]: "survivors (stamped es) ls = survivors es ls"
  by (simp add: survivors_def stamped_ex)

lemma single_line_stamped [simp]: "single_line_rows (stamped es) = single_line_rows es"
  by (simp add: single_line_rows_def list_all_length nth_stamped cong: imp_cong)

text \<open>
  A line with content that no edit deletes is still in the result, in its place among the
  others: applying edits loses nothing but the deleted lines (and, at the ends, an empty line
  that stands for an empty file).
\<close>

theorem undeleted_lines_survive:
  assumes ok: "applyEdits body es = Inr r" and rows: "single_line_rows es"
  shows "subseq (filter (\<lambda>l. l \<noteq> []) (survivors es (split_lines body))) (split_lines (ar_text r))"
proof (cases "es = []")
  case True
  have "survivors [] ls = ls" for ls :: "jstring list"
    using concat_map_single [of "length ls" ls] by (simp add: survivors_def del: concat_map_singleton)
  then show ?thesis using True ok by (auto simp: applyEdits_def subseq_filter_left)
next
  case False
  let ?ls = "split_lines body"
  obtain rep ws final first where rep: "repairReplacementBoundaries (stamped es) ?ls = (rep, ws)"
    and sp: "apply_lines rep ?ls = (final, first)" and r: "ar_text r = join_lines final"
    using applyEdits_spec [OF ok False] by auto
  have sub: "set rep \<subseteq> set (stamped es)"
    using repair_sound [OF _ rep] applyEdits_checked(2) [OF ok False] subseq_set
    by (metis in_bounds_stamped)
  have "subseq (survivors es ?ls) (line_wise rep ?ls)"
    using survivors_mono [OF sub, of ?ls] survivors_line_wise [of rep ?ls] subseq_order.trans by auto
  moreover have "final = fst (insertAtEnd (insertAtStart (line_wise rep ?ls)
      (map text_of (filter is_bof_insert rep))) (map text_of (filter is_eof_insert rep)))"
    using sp by (auto simp: apply_lines_def Let_def split: prod.splits option.splits)
  ultimately have "subseq (nonempty (survivors es ?ls)) (nonempty final)"
    using nonempty_splice_empty subseq_filter subseq_order.trans by metis
  moreover have "subseq (nonempty final) (split_lines (join_lines final))"
  proof (cases "final = []")
    case nonempty: False
    have "\<forall>l\<in>set final. LF \<notin> set l"
    proof
      fix l assume "l \<in> set final"
      then consider "l \<in> set ?ls" | e where "e \<in> set (stamped es)" "is_insert e" "l = text_of e"
        using apply_lines_rows [OF sp] sub by auto
      then show "LF \<notin> set l"
      proof cases
        case 1
        then show ?thesis by (rule split_on_no_sep)
      next
        case 2
        then show ?thesis
          using rows single_line_stamped [of es] unfolding single_line_rows_def list_all_iff by blast
      qed
    qed
    then show ?thesis using nonempty split_join [of final LF] by (simp add: subseq_filter_left)
  qed simp
  ultimately show ?thesis using r subseq_order.trans by metis
qed


theorem undeleted_lines_survive_witness:
  "subseq (filter (\<lambda>l. l \<noteq> []) (survivors [Delete 2 1 0, Insert Eof (js ''z'') 2 1 False]
       (split_lines [97, 10, 98, 10, 99])))
     (split_lines (ar_text \<lparr>ar_text = [97, 10, 99, 10, 122], ar_first = Some 2, ar_warnings = []\<rparr>))"
proof (rule undeleted_lines_survive)
  show "applyEdits [97, 10, 98, 10, 99] [Delete 2 1 0, Insert Eof (js ''z'') 2 1 False] =
      Inr \<lparr>ar_text = [97, 10, 99, 10, 122], ar_first = Some 2, ar_warnings = []\<rparr>"
    by code_simp
  show "single_line_rows [Delete 2 1 0, Insert Eof (js ''z'') 2 1 False]"
    by (simp add: single_line_rows_def is_insert_def)
qed

end
