(* ===== verification/Edit_Semantics.thy ===== *)
theory Edit_Semantics
  imports Parser Apply
begin

text \<open>
  What a hunk does to a file: the parser's lowering followed by the applier, as an operation
  on the list of lines.
\<close>

section \<open>Edits that act on a block of lines\<close>

fun hunk_effect :: "block_target \<Rightarrow> jstring list \<Rightarrow> jstring list \<Rightarrow> jstring list" where
  "hunk_effect (TReplace rng) rows ls = take (start_line rng - 1) ls @ rows @ drop (end_line rng) ls"
| "hunk_effect (TDelete rng) rows ls = take (start_line rng - 1) ls @ drop (end_line rng) ls"
| "hunk_effect (TInsertBefore a) rows ls = take (a - 1) ls @ rows @ drop (a - 1) ls"
| "hunk_effect (TInsertAfter a) rows ls = take a ls @ rows @ drop a ls"
| "hunk_effect TBof rows ls = (if ls = [[]] then rows else rows @ ls)"
| "hunk_effect TEof rows ls =
     (if ls = [[]] then rows else if last ls = [] then butlast ls @ rows @ [[]] else ls @ rows)"
| "hunk_effect _ rows ls = ls"

lemma edits_at_append [simp]: "edits_at (xs @ ys) k = edits_at xs k @ edits_at ys k"
  by (simp add: edits_at_def)

lemma edits_at_inserts:
  "edits_at (inserts_at i c ln r rows) k =
     (if c \<in> {BeforeAnchor k, AfterAnchor k} then inserts_at i c ln r rows else [])"
  by (induction rows arbitrary: i)
     (auto simp: edits_at_def anchored_def is_bof_insert_def is_eof_insert_def edit_line_def
       split: cursor.splits)

lemma edits_at_deletes:
  "distinct as \<Longrightarrow> \<exists>i'. edits_at (deletes_at i ln as) k = (if k \<in> set as then [Delete k ln i'] else [])"
  by (induction as arbitrary: i)
     (auto simp: edits_at_def anchored_def is_bof_insert_def is_eof_insert_def edit_line_def)

lemma inserts_at_parts:
  "replacement_lines (inserts_at i c ln r rows) = (if r then rows else [])"
  "before_lines (inserts_at i c ln r rows) = (if r \<or> (\<exists>a. c = AfterAnchor a) then [] else rows)"
  "after_lines (inserts_at i c ln r rows) = (if \<not> r \<and> (\<exists>a. c = AfterAnchor a) then rows else [])"
  "\<not> list_ex is_delete (inserts_at i c ln r rows)"
  by (induction rows arbitrary: i) (auto simp: replacement_lines_def before_lines_def after_lines_def)

lemma parts_append:
  "replacement_lines (xs @ ys) = replacement_lines xs @ replacement_lines ys"
  "before_lines (xs @ ys) = before_lines xs @ before_lines ys"
  "after_lines (xs @ ys) = after_lines xs @ after_lines ys"
  by (simp_all add: replacement_lines_def before_lines_def after_lines_def)

lemma parts_delete:
  "replacement_lines [Delete k l i] = []" "before_lines [Delete k l i] = []"
  "after_lines [Delete k l i] = []"
  by (simp_all add: replacement_lines_def before_lines_def after_lines_def)

lemma bucket_inserts:
  "bucket_output (inserts_at i c ln r rows) l =
     (if \<not> r \<and> (\<exists>a. c = AfterAnchor a) then l # rows else rows @ [l])"
  by (simp add: bucket_output_def inserts_at_parts)

lemma bucket_insert_delete:
  "bucket_output (inserts_at i c ln r rows @ [Delete k ln' i']) l = rows"
  by (simp add: bucket_output_def inserts_at_parts parts_append parts_delete)

lemma bucket_delete: "bucket_output [Delete k ln' i'] l = []"
  using bucket_insert_delete [of 0 Bof 0 True "[]"] by simp

lemma concat_map_const_Nil: "(\<forall>x\<in>set xs. f x = []) \<Longrightarrow> concat (map f xs) = []"
  by (induction xs) auto

lemma concat_map_keep:
  assumes "\<And>k. a \<le> k \<Longrightarrow> k < b \<Longrightarrow> f k = [ls ! k]" "a \<le> b" "b \<le> length ls"
  shows "concat (map f [a..<b]) = drop a (take b ls)"
proof -
  have "concat (map f [a..<b]) = concat (map (\<lambda>i. [ls ! i]) [a..<b])"
    using assms(1) by (intro arg_cong [where f = concat] map_cong) auto
  then show ?thesis using concat_map_single_from [OF assms(2,3)] by (simp only:)
qed

text \<open>Rows in front of line \<open>s\<close>, then the lines from \<open>s\<close> up to \<open>q\<close> deleted.\<close>

lemma line_wise_replace:
  assumes s: "1 \<le> s" "s \<le> q" "q \<le> Suc (length ls)" "s \<le> length ls"
  shows "line_wise (inserts_at i (BeforeAnchor s) ln r rows @ deletes_at j ln [s..<q]) ls =
    take (s - 1) ls @ rows @ drop (q - 1) ls"
proof -
  let ?es = "inserts_at i (BeforeAnchor s) ln r rows @ deletes_at j ln [s..<q]"
  define f where "f = (\<lambda>i. bucket_output (edits_at ?es (Suc i)) (ls ! i))"
  have lo: "f k = [ls ! k]" if "k < s - 1" for k
    using that edits_at_deletes [of "[s..<q]" j ln "Suc k"]
    by (auto simp: f_def edits_at_inserts)
  have hi: "f k = [ls ! k]" if "q - 1 \<le> k" "s \<le> k" for k
    using that edits_at_deletes [of "[s..<q]" j ln "Suc k"]
    by (auto simp: f_def edits_at_inserts)
  have mid: "f k = []" if "s - 1 < k" "k < q - 1" for k
    using that edits_at_deletes [of "[s..<q]" j ln "Suc k"] s
    by (auto simp: f_def edits_at_inserts bucket_delete)
  have first: "f (s - 1) = rows @ (if s < q then [] else [ls ! (s - 1)])"
    using edits_at_deletes [of "[s..<q]" j ln s] s
    by (auto simp: f_def edits_at_inserts bucket_insert_delete bucket_inserts)
  have up: "[0..<length ls] = [0..<s - 1] @ (s - 1) # [s..<max s (q - 1)] @ [max s (q - 1)..<length ls]"
    using s upt_add_eq_append [of 0 "s - 1" "length ls - (s - 1)"]
      upt_add_eq_append [of s "max s (q - 1)" "length ls - max s (q - 1)"]
    by (auto simp: upt_conv_Cons max_def)
  have "concat (map f [0..<s - 1]) = take (s - 1) ls"
    using concat_map_keep [of 0 "s - 1" f ls] lo s by simp
  moreover have "concat (map f [s..<max s (q - 1)]) = []"
    using s by (intro concat_map_const_Nil ballI mid) auto
  moreover have "concat (map f [max s (q - 1)..<length ls]) = drop (max s (q - 1)) ls"
    using concat_map_keep [of "max s (q - 1)" "length ls" f ls] hi s by simp
  moreover have "(if s < q then [] else [ls ! (s - 1)]) @ drop (max s (q - 1)) ls = drop (q - 1) ls"
    using s Cons_nth_drop_Suc [of "s - 1" ls] by (cases "s < q") (auto simp: max_def)
  ultimately show ?thesis
    unfolding line_wise_def f_def [symmetric] up map_append list.map concat_append concat.simps first
    by (simp only: append.assoc append_Nil)
qed


section \<open>Edits without a replacement group\<close>

lemma no_group:
  assumes "\<forall>e\<in>set es. \<not> isReplacementInsert e"
  shows "findReplacementGroup es i = None"
proof (cases "findReplacementGroup es i")
  case (Some g)
  then obtain j k where g: "group_at es i g j k" by (rule findReplacementGroup_shape)
  then have "isReplacementInsert (es ! i)" "i < length es" by (auto simp: group_at_def)
  with assms show ?thesis by auto
qed

lemma repair_loop_no_group:
  "\<forall>e\<in>set es. \<not> isReplacementInsert e \<Longrightarrow> i \<le> length es \<Longrightarrow> repair_loop es ls i = (drop i es, [])"
proof (induction es ls i rule: repair_loop.induct)
  case (1 es ls i)
  then show ?case
    using no_group [OF 1(3), of i]
    by (cases "i < length es")
       (auto simp: repair_loop.simps [of es ls i] repair_loop.simps [of es ls "length es"]
         Cons_nth_drop_Suc)
qed

lemma repair_no_group:
  "\<forall>e\<in>set es. \<not> isReplacementInsert e \<Longrightarrow> repairReplacementBoundaries es ls = (es, [])"
  by (simp add: repairReplacementBoundaries_def repair_loop_no_group)

text \<open>Stamping the edits of a hunk changes their indices only.\<close>

fun stamp_from :: "nat \<Rightarrow> edit list \<Rightarrow> edit list" where
  "stamp_from k [] = []"
| "stamp_from k (e # es) = cloneAppliedEdit e k # stamp_from (Suc k) es"

lemma stamped_from: "stamped es = stamp_from 0 es"
proof -
  have "map (\<lambda>(i, e). cloneAppliedEdit e i) (zip [k..<k + length es] es) = stamp_from k es" for k
  proof (induction es arbitrary: k)
    case (Cons e es)
    have "[k..<k + length (e # es)] = k # [Suc k..<Suc k + length es]"
      using upt_conv_Cons [of k "k + length (e # es)"] by (simp del: upt_Suc)
    then show ?case by (simp only: zip_Cons_Cons list.map prod.case stamp_from.simps Cons.IH)
  qed simp
  from this [of 0] show ?thesis by (simp add: stamped_def)
qed

lemma stamp_from_append: "stamp_from k (xs @ ys) = stamp_from k xs @ stamp_from (k + length xs) ys"
  by (induction xs arbitrary: k) auto

lemma stamp_from_inserts: "stamp_from k (inserts_at j c ln r rows) = inserts_at k c ln r rows"
  by (induction rows arbitrary: k j) auto

lemma stamp_from_deletes: "stamp_from k (deletes_at j ln as) = deletes_at k ln as"
  by (induction as arbitrary: k j) auto

lemma stamped_hunk:
  "stamped (inserts_at j c ln r rows @ deletes_at j' ln as) =
   inserts_at 0 c ln r rows @ deletes_at (length rows) ln as"
  by (simp add: stamped_from stamp_from_append stamp_from_inserts stamp_from_deletes)

lemma stamped_inserts: "stamped (inserts_at j c ln r rows) = inserts_at 0 c ln r rows"
  using stamped_hunk [of j c ln r rows 0 "[]"] by simp

lemma stamped_deletes: "stamped (deletes_at j ln as) = deletes_at 0 ln as"
  using stamped_hunk [of 0 Bof ln True "[]" j as] by simp

lemma set_inserts_at: "e \<in> set (inserts_at j c ln r rows) \<Longrightarrow> \<exists>row i. e = Insert c row ln i r"
  by (induction rows arbitrary: j) auto

lemma set_deletes_at: "e \<in> set (deletes_at j ln as) \<Longrightarrow> \<exists>a i. a \<in> set as \<and> e = Delete a ln i"
  by (induction as arbitrary: j) (auto, blast)


section \<open>The effect of one hunk\<close>

lemma line_wise_none: "\<forall>e\<in>set es. \<not> anchored e \<Longrightarrow> line_wise es ls = ls"
proof -
  assume "\<forall>e\<in>set es. \<not> anchored e"
  then have "edits_at es k = []" for k by (auto simp: edits_at_def filter_empty_conv)
  then show ?thesis
    using concat_map_keep [of 0 "length ls" "\<lambda>i. [ls ! i]" ls]
    by (simp add: line_wise_def del: concat_map_singleton)
qed

lemma line_wise_after:
  assumes "1 \<le> a" "a \<le> length ls"
  shows "line_wise (inserts_at i (AfterAnchor a) ln False rows) ls = take a ls @ rows @ drop a ls"
proof -
  define f where
    "f = (\<lambda>k. bucket_output (edits_at (inserts_at i (AfterAnchor a) ln False rows) (Suc k)) (ls ! k))"
  have out: "f k = [ls ! k]" if "k \<noteq> a - 1" for k
    using that assms by (auto simp: f_def edits_at_inserts)
  have at: "f (a - 1) = ls ! (a - 1) # rows"
    using assms by (simp add: f_def edits_at_inserts bucket_inserts)
  have up: "[0..<length ls] = [0..<a - 1] @ (a - 1) # [a..<length ls]"
    using assms upt_add_eq_append [of 0 "a - 1" "length ls - (a - 1)"] by (simp add: upt_conv_Cons)
  have "concat (map f [0..<a - 1]) = take (a - 1) ls"
    using concat_map_keep [of 0 "a - 1" f ls] out assms by simp
  moreover have "concat (map f [a..<length ls]) = drop a ls"
    using concat_map_keep [of a "length ls" f ls] out assms by simp
  moreover have "take (a - 1) ls @ [ls ! (a - 1)] = take a ls"
    using assms take_Suc_conv_app_nth [of "a - 1" ls] by simp
  ultimately show ?thesis
    unfolding line_wise_def f_def [symmetric] up map_append list.map concat_append concat.simps at
    by (metis append.assoc append_Cons append_Nil)
qed

lemma filter_inserts_ends:
  "filter is_bof_insert (inserts_at i c ln r rows) = (if c = Bof then inserts_at i c ln r rows else [])"
  "filter is_eof_insert (inserts_at i c ln r rows) = (if c = Eof then inserts_at i c ln r rows else [])"
  "filter is_bof_insert (deletes_at i ln as) = []" "filter is_eof_insert (deletes_at i ln as) = []"
  "map text_of (inserts_at i c ln r rows) = rows"
  by (induction rows arbitrary: i) (auto, (induction as arbitrary: i, auto)+)

lemma anchored_inserts: "c = Bof \<or> c = Eof \<Longrightarrow> \<forall>e\<in>set (inserts_at i c ln r rows). \<not> anchored e"
  by (auto dest!: set_inserts_at simp: anchored_def)

definition line_ok :: "block_target \<Rightarrow> nat \<Rightarrow> bool" where
  "line_ok t n = (case t of
     TReplace rng \<Rightarrow> 1 \<le> start_line rng \<and> start_line rng \<le> end_line rng \<and> end_line rng \<le> n
   | TDelete rng \<Rightarrow> 1 \<le> start_line rng \<and> start_line rng \<le> end_line rng \<and> end_line rng \<le> n
   | TInsertBefore a \<Rightarrow> 1 \<le> a \<and> a \<le> n
   | TInsertAfter a \<Rightarrow> 1 \<le> a \<and> a \<le> n
   | TBof \<Rightarrow> True | TEof \<Rightarrow> True | TBlock _ \<Rightarrow> False | TDeleteBlock _ \<Rightarrow> False)"

lemma hunk_in_bounds:
  "line_ok t (length ls) \<Longrightarrow> in_bounds (lower t rows ln k) ls"
  by (cases t)
     (auto simp: in_bounds_def line_ok_def expandRange_def dest!: set_inserts_at set_deletes_at)

lemma hunk_no_block: "line_ok t n \<Longrightarrow> \<forall>e\<in>set (lower t rows ln k). \<not> is_block e"
  by (cases t) (auto simp: line_ok_def dest!: set_inserts_at set_deletes_at)

text \<open>Everything but a replacement acts exactly as written.\<close>

lemma insertAtStart_effect:
  "rows \<noteq> [] \<Longrightarrow> insertAtStart ls rows = hunk_effect TBof rows ls"
  by (auto simp: insertAtStart_def splice_at_def length_Suc_conv)

lemma insertAtEnd_effect:
  assumes "ls \<noteq> []" "rows \<noteq> []"
  shows "fst (insertAtEnd ls rows) = hunk_effect TEof rows ls"
proof (cases ls rule: rev_cases)
  case (snoc xs x)
  then show ?thesis
    using assms by (cases xs) (auto simp: insertAtEnd_def splice_at_def Let_def nth_append)
qed (use assms in simp)

lemma insert_none [simp]: "insertAtStart ls [] = ls" "insertAtEnd ls [] = (ls, None)"
  by (simp_all add: insertAtStart_def insertAtEnd_def)

lemma exact_hunk:
  assumes ok: "line_ok t (length (split_lines body))" and t: "\<forall>rng. t \<noteq> TReplace rng"
    and rows: "rows \<noteq> [] \<or> \<not> takes_body t"
  shows "\<exists>r. applyEdits body (lower t rows ln k) = Inr r \<and> ar_warnings r = [] \<and>
    ar_text r = join_lines (hunk_effect t rows (split_lines body))"
proof -
  let ?ls = "split_lines body" and ?es = "lower t rows ln k"
  have st: "stamped ?es = lower t rows ln 0"
    using t ok by (cases t) (simp_all add: stamped_inserts stamped_deletes line_ok_def)
  have "0 < length ?es" using ok t rows by (cases t) (auto simp: line_ok_def expandRange_def)
  then have ne: "?es \<noteq> []" by auto
  have nr: "\<forall>e\<in>set (lower t rows ln 0). \<not> isReplacementInsert e"
    using t by (cases t) (auto dest!: set_inserts_at set_deletes_at simp: isReplacementInsert_def)
  have rep: "repairReplacementBoundaries (stamped ?es) ?ls = (lower t rows ln 0, [])"
    unfolding st by (rule repair_no_group [OF nr])
  obtain final first where sp: "apply_lines (lower t rows ln 0) ?ls = (final, first)"
    by (cases "apply_lines (lower t rows ln 0) ?ls")
  have "final = hunk_effect t rows ?ls"
  proof -
    have fin: "final = fst (insertAtEnd (insertAtStart (line_wise (lower t rows ln 0) ?ls)
        (map text_of (filter is_bof_insert (lower t rows ln 0))))
        (map text_of (filter is_eof_insert (lower t rows ln 0))))"
      using sp by (auto simp: apply_lines_def Let_def split: prod.splits option.splits)
    have ls: "?ls \<noteq> []" by simp
    show ?thesis
    proof (cases t)
      case (TDelete rng)
      then show ?thesis
        using ok fin line_wise_replace [of "start_line rng" "Suc (end_line rng)" ?ls 0 ln True "[]" 0]
        by (simp add: line_ok_def expandRange_def filter_inserts_ends del: upt_Suc)
    next
      case (TInsertBefore a)
      then show ?thesis
        using ok fin line_wise_replace [of a a ?ls 0 ln False rows 0]
        by (simp add: line_ok_def filter_inserts_ends)
    next
      case (TInsertAfter a)
      then show ?thesis
        using ok fin line_wise_after [of a ?ls 0 ln rows]
        by (simp add: line_ok_def filter_inserts_ends)
    next
      case TBof
      then show ?thesis
        using fin rows insertAtStart_effect [of rows ?ls]
          line_wise_none [OF anchored_inserts [of Bof 0 ln False rows]]
        by (simp add: filter_inserts_ends)
    next
      case TEof
      then show ?thesis
        using fin rows insertAtEnd_effect [OF ls, of rows]
          line_wise_none [OF anchored_inserts [of Eof 0 ln False rows]]
        by (simp add: filter_inserts_ends)
    qed (use ok t in \<open>simp_all add: line_ok_def\<close>)
  qed
  then show ?thesis
    using applyEdits_eq [OF ne hunk_no_block [OF ok] hunk_in_bounds [OF ok] rep sp] by simp
qed

lemma collect_inserts_run:
  "rest = [] \<or> is_delete (hd rest) \<Longrightarrow>
   collect_inserts (pre @ inserts_at k (BeforeAnchor a) ln True rows @ rest) ln a (length pre) =
     ([length pre..<length pre + length rows], rows, length pre + length rows)"
proof (induction rows arbitrary: pre k)
  case Nil
  then show ?case
    by (cases rest)
       (auto simp: collect_inserts.simps [of _ ln a "length pre"] nth_append is_delete_def
         split: edit.splits)
next
  case (Cons row rows)
  let ?e = "Insert (BeforeAnchor a) row ln k True"
  have "pre @ inserts_at k (BeforeAnchor a) ln True (row # rows) @ rest =
      (pre @ [?e]) @ inserts_at (Suc k) (BeforeAnchor a) ln True rows @ rest" by simp
  moreover have "collect_inserts ((pre @ [?e]) @ inserts_at (Suc k) (BeforeAnchor a) ln True rows @ rest)
      ln a (length (pre @ [?e])) = ([Suc (length pre)..<Suc (length pre) + length rows], rows,
        Suc (length pre) + length rows)"
    using Cons.IH [OF Cons.prems, of "pre @ [?e]" "Suc k"] by simp
  ultimately show ?case
    using upt_conv_Cons [of "length pre" "length pre + length (row # rows)"]
    by (simp add: collect_inserts.simps [of _ ln a "length pre"] nth_append del: upt_Suc)
qed

lemma collect_deletes_run:
  "collect_deletes (pre @ deletes_at k ln [a..<a + n]) ln a (length pre) =
     [length pre..<length pre + n]"
proof (induction n arbitrary: pre k a)
  case 0
  then show ?case by (simp add: collect_deletes.simps [of _ ln a "length pre"])
next
  case (Suc n)
  let ?e = "Delete a ln k"
  have ab: "[a..<a + Suc n] = a # [Suc a..<Suc a + n]"
    using upt_conv_Cons [of a "a + Suc n"] by simp
  have "pre @ deletes_at k ln [a..<a + Suc n] = (pre @ [?e]) @ deletes_at (Suc k) ln [Suc a..<Suc a + n]"
    by (simp only: ab deletes_at.simps append.assoc append.simps)
  moreover have "collect_deletes ((pre @ [?e]) @ deletes_at (Suc k) ln [Suc a..<Suc a + n]) ln (Suc a)
      (length (pre @ [?e])) = [Suc (length pre)..<Suc (length pre) + n]"
    using Suc.IH [of "pre @ [?e]" "Suc k" "Suc a"] by simp
  moreover have "[length pre..<length pre + Suc n] = length pre # [Suc (length pre)..<Suc (length pre) + n]"
    using upt_conv_Cons [of "length pre" "length pre + Suc n"] by simp
  ultimately show ?case
    by (simp add: collect_deletes.simps [of _ ln a "length pre"] nth_append del: upt_Suc)
qed

text \<open>The edits of a replacement hunk form exactly one group.\<close>

lemma replace_group:
  assumes "rows \<noteq> []" "0 < n"
  shows "findReplacementGroup (inserts_at k (BeforeAnchor a) ln True rows @ deletes_at k' ln [a..<a + n]) 0 =
    Some \<lparr>insertIndices = [0..<length rows], deleteIndices = [length rows..<length rows + n],
      payload = rows, startLine = a, endLine = a + n - 1\<rparr>"
proof -
  let ?ins = "inserts_at k (BeforeAnchor a) ln True rows" and ?del = "deletes_at k' ln [a..<a + n]"
  obtain row rs where r: "rows = row # rs" using assms by (cases rows) auto
  have "?del \<noteq> [] \<and> is_delete (hd ?del)" using assms(2) by (simp add: upt_conv_Cons)
  then have ci: "collect_inserts (?ins @ ?del) ln a 0 = ([0..<length rows], rows, length rows)"
    using collect_inserts_run [of ?del "[]" k a ln rows] by simp
  have cd: "collect_deletes (?ins @ ?del) ln a (length rows) = [length rows..<length rows + n]"
    using collect_deletes_run [of ?ins k' ln a n] by simp
  have first: "nth_opt (?ins @ ?del) 0 = Some (Insert (BeforeAnchor a) row ln k True)"
    by (simp add: r nth_opt_def)
  show ?thesis
    unfolding findReplacementGroup_def first using ci cd assms(2) by simp
qed


lemma slice_inserts_at:
  "slice (inserts_at k c ln r rows) x y = inserts_at (k + x) c ln r (slice rows x y)"
proof -
  have d: "drop x (inserts_at k c ln r rows) = inserts_at (k + x) c ln r (drop x rows)" for x
    by (induction rows arbitrary: k x) (auto simp: drop_Cons' )
  have t: "take n (inserts_at k c ln r rows) = inserts_at k c ln r (take n rows)" for n k rows
    by (induction rows arbitrary: k n) (auto simp: take_Cons')
  show ?thesis by (simp add: slice_def d t)
qed

lemma take_deletes_at: "take n (deletes_at k ln as) = deletes_at k ln (take n as)"
  by (induction as arbitrary: k n) (auto simp: take_Cons')

text \<open>
  A replacement: the rows in place of the range, up to \<open>a\<close> leading and \<open>b\<close> trailing rows that
  repeat the lines around it, or the last \<open>d\<close> lines of the range, all closers, kept.
\<close>

definition replace_outcome ::
  "parsed_range \<Rightarrow> jstring list \<Rightarrow> jstring list \<Rightarrow> nat \<Rightarrow> nat \<Rightarrow> nat \<Rightarrow> jstring list \<Rightarrow> bool" where
  "replace_outcome rng rows ls a b d final =
     (final = take (start_line rng - 1) ls @ slice rows a (length rows - b) @
        drop (end_line rng - d) ls \<and>
      a + b \<le> length rows \<and> a \<le> start_line rng - 1 \<and> end_line rng + b \<le> length ls \<and>
      start_line rng + d \<le> Suc (end_line rng) \<and>
      take a rows = slice ls (start_line rng - 1 - a) (start_line rng - 1) \<and>
      drop (length rows - b) rows = slice ls (end_line rng) (end_line rng + b) \<and>
      list_all is_closer (slice ls (end_line rng - d) (end_line rng)) \<and>
      (d = 0 \<or> a = 0 \<and> b = 0))"

lemma trimmed_outcome:
  assumes t: "trimmed g ls a b d" and g: "payload g = rows" "startLine g = s" "endLine g = e"
      "length (deleteIndices g) = Suc e - s"
    and se: "1 \<le> s" "s \<le> e" "e \<le> length ls"
  shows "a + b \<le> length rows \<and> a \<le> s - 1 \<and> e + b \<le> length ls \<and> s + d \<le> Suc e \<and>
    take a rows = slice ls (s - 1 - a) (s - 1) \<and>
    drop (length rows - b) rows = slice ls e (e + b) \<and>
    list_all is_closer (slice ls (e - d) e) \<and> (d = 0 \<or> a = 0 \<and> b = 0)"
proof -
  note t' = t [unfolded trimmed_def g]
  have le: "a + b \<le> length rows" "a \<le> s - 1" "e + b \<le> length ls" "s + d \<le> Suc e"
    "d = 0 \<or> a = 0 \<and> b = 0" using t' se by auto
  have "take a rows = slice ls (s - 1 - a) (s - 1)"
    using t' le se by (intro nth_equalityI) (auto simp: slice_def)
  moreover have "drop (length rows - b) rows = slice ls e (e + b)"
    using t' le se by (intro nth_equalityI) (auto simp: slice_def)
  moreover have "list_all is_closer (slice ls (e - d) e)"
  proof -
    have "is_closer (ls ! k)" if "e - d \<le> k" "k < e" for k
    proof -
      have "e - k \<in> {1..d}" "e - (e - k) = k" using that le se by auto
      then show ?thesis using t' by metis
    qed
    then show ?thesis by (auto simp: list_all_iff in_slice)
  qed
  ultimately show ?thesis using le by blast
qed

lemma replace_hunk:
  assumes ok: "line_ok (TReplace rng) (length (split_lines body))" and rows: "rows \<noteq> []"
  shows "\<exists>r a b d final. applyEdits body (lower (TReplace rng) rows ln k) = Inr r \<and>
    ar_text r = join_lines final \<and> replace_outcome rng rows (split_lines body) a b d final \<and>
    (ar_warnings r = [] \<longleftrightarrow> a = 0 \<and> b = 0 \<and> d = 0)"
proof -
  let ?ls = "split_lines body" and ?es = "lower (TReplace rng) rows ln k"
  obtain s e where rng: "rng = ParsedRange s e" by (cases rng)
  have se: "1 \<le> s" "s \<le> e" "e \<le> length ?ls" using ok rng by (simp_all add: line_ok_def)
  define n where "n = Suc e - s"
  have n: "0 < n" "Suc e = s + n" using se by (auto simp: n_def)
  let ?ins = "inserts_at 0 (BeforeAnchor s) ln True rows"
  let ?del = "deletes_at (length rows) ln [s..<s + n]"
  have st: "stamped ?es = ?ins @ ?del"
    using rng n(2) by (simp add: stamped_hunk expandRange_def del: upt_Suc)
  define g where "g = \<lparr>insertIndices = [0..<length rows],
    deleteIndices = [length rows..<length rows + n], payload = rows, startLine = s,
    endLine = s + n - 1\<rparr>"
  have grp: "findReplacementGroup (?ins @ ?del) 0 = Some g"
    unfolding g_def by (rule replace_group [OF rows n(1)])
  have maps: "map ((!) (?ins @ ?del)) (insertIndices g) = ?ins"
    "map ((!) (?ins @ ?del)) (deleteIndices g) = ?del"
    by (simp_all add: g_def map_nth_upt_slice slice_def)
  have lastd: "last (deleteIndices g) + 1 = length (?ins @ ?del)" using n by (simp add: g_def)
  obtain kept w where kw: "repair_group g ?ls ?ins ?del = (kept, w)"
    by (cases "repair_group g ?ls ?ins ?del")
  have stop: "repair_loop (?ins @ ?del) ?ls (length (?ins @ ?del)) = ([], [])"
    by (subst repair_loop.simps) simp
  have rep: "repairReplacementBoundaries (stamped ?es) ?ls = (kept, w)"
    unfolding st repairReplacementBoundaries_def
    using rows by (subst repair_loop.simps) (simp add: grp maps kw lastd [simplified] stop [simplified])
  obtain a b d where t: "trimmed g ?ls a b d"
    and k: "kept = slice ?ins a (length ?ins - b) @ take (length ?del - d) ?del"
    and w: "w = [] \<longleftrightarrow> a = 0 \<and> b = 0 \<and> d = 0"
    by (rule repair_group_trimmed [OF kw]) (simp_all add: g_def)
  have dn: "d \<le> n" "a + b \<le> length rows" using t by (auto simp: trimmed_def g_def)
  have kept: "kept = inserts_at a (BeforeAnchor s) ln True (slice rows a (length rows - b)) @
      deletes_at (length rows) ln [s..<s + (n - d)]"
    unfolding k by (simp add: slice_inserts_at take_deletes_at take_upt)
  obtain final first where sp: "apply_lines kept ?ls = (final, first)" by (cases "apply_lines kept ?ls")
  have "final = line_wise kept ?ls"
    using sp by (simp add: apply_lines_def Let_def kept filter_inserts_ends)
  moreover have "line_wise kept ?ls = take (s - 1) ?ls @ slice rows a (length rows - b) @
      drop (s + (n - d) - 1) ?ls"
    unfolding kept using se n by (intro line_wise_replace) auto
  moreover have "s + (n - d) - 1 = e - d" using n dn by linarith
  ultimately have final: "final = take (s - 1) ?ls @ slice rows a (length rows - b) @ drop (e - d) ?ls"
    by simp
  have ne: "?es \<noteq> []" using rng rows by (cases rows) auto
  have app: "applyEdits body ?es = Inr \<lparr>ar_text = join_lines final, ar_first = first, ar_warnings = w\<rparr>"
    by (rule applyEdits_eq [OF ne hunk_no_block [OF ok] hunk_in_bounds [OF ok] rep sp])
  have "replace_outcome rng rows ?ls a b d final"
    using trimmed_outcome [OF t _ _ _ _ se] final dn rng n by (simp add: replace_outcome_def g_def)
  then show ?thesis using app w by (intro exI conjI) auto
qed


text \<open>
  An insert or delete hunk whose lines are in the file does to the file's lines exactly
  what it says (insert the rows there, delete the range there) and nothing else, with no
  warning, whatever its place in the patch.
\<close>

theorem hunk_exact:
  assumes "line_ok t (length (split_lines body))" "\<forall>rng. t \<noteq> TReplace rng"
    and "rows \<noteq> [] \<or> \<not> takes_body t"
  shows "\<exists>r. applyEdits body (lower t rows ln k) = Inr r \<and> ar_warnings r = [] \<and>
    ar_text r = join_lines (hunk_effect t rows (split_lines body))"
  by (rule exact_hunk [OF assms])

theorem hunk_exact_witness:
  "\<exists>r. applyEdits [97, 10, 98, 10] (lower TEof [js ''c''] 1 0) = Inr r \<and> ar_warnings r = [] \<and>
    ar_text r = join_lines [js ''a'', js ''b'', js ''c'', []]"
proof -
  have e: "hunk_effect TEof [js ''c''] (split_lines [97, 10, 98, 10]) =
      [js ''a'', js ''b'', js ''c'', []]" by simp
  show ?thesis unfolding e [symmetric] by (rule hunk_exact) (simp_all add: line_ok_def)
qed

text \<open>
  A replacement hunk puts its rows in place of the range; when boundary repair departs
  from that, it leaves out only leading and trailing rows equal to the lines that border the
  range, or keeps only trailing lines of the range that are bare closers, never both, and it
  says so in a warning.
\<close>

theorem replace_hunk_result:
  assumes "line_ok (TReplace rng) (length (split_lines body))" and "rows \<noteq> []"
  shows "\<exists>r a b d final. applyEdits body (lower (TReplace rng) rows ln k) = Inr r \<and>
    ar_text r = join_lines final \<and> replace_outcome rng rows (split_lines body) a b d final \<and>
    (ar_warnings r = [] \<longleftrightarrow> a = 0 \<and> b = 0 \<and> d = 0)"
  by (rule replace_hunk [OF assms])

theorem replace_hunk_result_witness:
  "\<exists>r a b d final.
    applyEdits (js ''f('' @ LF # js ''x'' @ LF # js '')'') (lower (TReplace (ParsedRange 2 2)) [js ''y'', js '')''] 1 0) = Inr r \<and>
    ar_text r = join_lines final \<and>
    replace_outcome (ParsedRange 2 2) [js ''y'', js '')'']
      (split_lines (js ''f('' @ LF # js ''x'' @ LF # js '')'')) a b d final \<and>
    (ar_warnings r = [] \<longleftrightarrow> a = 0 \<and> b = 0 \<and> d = 0)"
  by (rule replace_hunk_result) (simp_all add: line_ok_def)

end
