(* ===== verification/Block.thy ===== *)
theory Block
  imports Edit_Semantics
begin

text \<open>
  Expansion of deferred block edits (\<open>packages/hashline/src/block.ts\<close>).  The tree-sitter
  resolver is injected by the host, so it is an argument: \<open>None\<close> when the host wires none.
\<close>

definition hasBlockEdit :: "edit list \<Rightarrow> bool" where
  "hasBlockEdit es = list_ex is_block es"

datatype on_unresolved = Throw | Drop

text \<open>The two inner loops, from the running index \<open>synthIndex\<close>.\<close>

definition synth_inserts :: "nat \<Rightarrow> nat \<Rightarrow> nat \<Rightarrow> jstring list \<Rightarrow> edit list" where
  "synth_inserts synthIndex s ln payloads =
     map (\<lambda>(i, p). Insert (BeforeAnchor s) p ln (synthIndex + i) True)
       (zip [0..<length payloads] payloads)"

definition synth_deletes :: "nat \<Rightarrow> nat \<Rightarrow> nat \<Rightarrow> nat \<Rightarrow> edit list" where
  "synth_deletes synthIndex s e ln =
     map (\<lambda>(i, line). Delete line ln (synthIndex + i)) (zip [0..<Suc e - s] [s..<Suc e])"

fun resolve_loop ::
  "edit list \<Rightarrow> jstring \<Rightarrow> jstring \<Rightarrow> block_resolver option \<Rightarrow> on_unresolved \<Rightarrow> nat \<Rightarrow> edit list res" where
  "resolve_loop [] body path resolver mode synthIndex = Inr []"
| "resolve_loop (e # es) body path resolver mode synthIndex =
     (case e of
        Block a payloads ln _ \<Rightarrow>
          (case (case resolver of Some f \<Rightarrow> f path body a | None \<Rightarrow> None) of
             None \<Rightarrow>
               (case mode of
                  Drop \<Rightarrow> resolve_loop es body path resolver mode synthIndex
                | Throw \<Rightarrow>
                    Inl (if resolver = None then BlockResolverUnavailable ln
                         else BlockUnresolved ln a))
           | Some span \<Rightarrow>
               (let ins = synth_inserts synthIndex (span_start span) ln payloads;
                    k = synthIndex + length ins;
                    del = synth_deletes k (span_start span) (span_end span) ln
                in rbind (resolve_loop es body path resolver mode (k + length del))
                     (\<lambda>rest. Inr (ins @ del @ rest))))
      | _ \<Rightarrow> rbind (resolve_loop es body path resolver mode synthIndex) (\<lambda>rest. Inr (e # rest)))"

definition resolveBlockEdits ::
  "edit list \<Rightarrow> jstring \<Rightarrow> jstring \<Rightarrow> block_resolver option \<Rightarrow> on_unresolved \<Rightarrow> edit list res" where
  "resolveBlockEdits es body path resolver mode =
     (if \<not> hasBlockEdit es then Inr es else resolve_loop es body path resolver mode 0)"

section \<open>Expansion is the parser's lowering of an explicit range\<close>

lemma synth_inserts_eq: "synth_inserts k s ln payloads = inserts_at k (BeforeAnchor s) ln True payloads"
proof (induction payloads arbitrary: k)
  case (Cons p ps)
  have "[0..<length (p # ps)] = 0 # map Suc [0..<length ps]"
    by (simp add: upt_conv_Cons map_Suc_upt del: upt_Suc)
  then show ?case
    using Cons [of "Suc k"]
    by (simp add: synth_inserts_def zip_map1 split_def comp_def del: upt_Suc)
qed (simp add: synth_inserts_def)

lemma synth_deletes_eq: "synth_deletes k s e ln = deletes_at k ln [s..<Suc e]"
proof -
  have "map (\<lambda>(i, line). Delete line ln (k + i)) (zip [0..<length as] as) = deletes_at k ln as" for k as
  proof (induction as arbitrary: k)
    case (Cons a as)
    have "[0..<length (a # as)] = 0 # map Suc [0..<length as]"
      by (simp add: upt_conv_Cons map_Suc_upt del: upt_Suc)
    then show ?case using Cons [of "Suc k"]
      by (simp add: zip_map1 split_def comp_def del: upt_Suc)
  qed simp
  from this [of k "[s..<Suc e]"] show ?thesis by (simp add: synth_deletes_def del: upt_Suc)
qed

text \<open>The edits an explicit range hunk would have given in place of a block edit.\<close>

fun expand_edit :: "block_resolver \<Rightarrow> jstring \<Rightarrow> jstring \<Rightarrow> edit \<Rightarrow> edit list" where
  "expand_edit f path body (Block a payloads ln i) =
     (case f path body a of
        None \<Rightarrow> []
      | Some span \<Rightarrow> lower (TReplace (ParsedRange (span_start span) (span_end span))) payloads ln 0)"
| "expand_edit f path body e = [e]"

lemma stamp_from_unstamped:
  "stamp_from k (inserts_at i c ln r rows) = stamp_from k (inserts_at 0 c ln r rows)"
  "stamp_from k (deletes_at i ln as) = stamp_from k (deletes_at j ln as)"
  by (simp_all add: stamp_from_inserts stamp_from_deletes)

lemma resolve_loop_expand:
  "resolve_loop es body path (Some f) mode n = Inr out \<Longrightarrow>
   length out = length (concat (map (expand_edit f path body) es)) \<and>
   stamp_from k out = stamp_from k (concat (map (expand_edit f path body) es))"
proof (induction es arbitrary: n out k)
  case Nil
  then show ?case by simp
next
  case (Cons e es)
  show ?case
  proof (cases e)
    case (Block a payloads ln i)
    show ?thesis
    proof (cases "f path body a")
      case None
      then show ?thesis using Cons Block by (cases mode) auto
    next
      case (Some span)
      then obtain rest m where r: "resolve_loop es body path (Some f) mode m = Inr rest"
          "out = synth_inserts n (span_start span) ln payloads @
            synth_deletes (n + length payloads) (span_start span) (span_end span) ln @ rest"
        using Cons.prems Block by (auto simp: Let_def rbind_Inr_iff synth_inserts_eq)
      then show ?thesis
        using Cons.IH [OF r(1)] Block Some
        by (simp add: synth_inserts_eq synth_deletes_eq stamp_from_append expandRange_def
            stamp_from_inserts stamp_from_deletes del: upt_Suc)
    qed
  qed (use Cons in \<open>auto simp: rbind_Inr_iff\<close>)
qed

lemma resolve_loop_no_blocks:
  "resolve_loop es body path r mode n = Inr out \<Longrightarrow> \<forall>e\<in>set out. \<not> is_block e"
  by (induction es arbitrary: n out)
     (auto simp: rbind_Inr_iff Let_def synth_inserts_eq synth_deletes_eq
       dest!: set_inserts_at set_deletes_at split: edit.splits option.splits on_unresolved.splits
       simp del: upt_Suc)

lemma resolve_no_blocks:
  "resolveBlockEdits es body path r mode = Inr out \<Longrightarrow> \<forall>e\<in>set out. \<not> is_block e"
  using resolve_loop_no_blocks
  by (fastforce simp: resolveBlockEdits_def hasBlockEdit_def list_ex_iff split: if_splits)

text \<open>The index of an edit has no influence on what \<open>applyEdits\<close> does.\<close>

lemma applyEdits_stamped:
  assumes "stamped es = stamped es'"
  shows "applyEdits body es = applyEdits body es'"
proof -
  have l: "length es = length es'" using assms length_stamped by metis
  have "(\<forall>e\<in>set es. \<not> is_block e) = (\<forall>e\<in>set es'. \<not> is_block e)"
    using assms block_stamped by metis
  then have "list_ex is_block es = list_ex is_block es'" by (auto simp: list_ex_iff)
  then show ?thesis
    unfolding applyEdits_def stamped_def [symmetric] by (simp only: assms l)
qed

lemma expand_id: "\<forall>e\<in>set es. \<not> is_block e \<Longrightarrow> concat (map (expand_edit f path body) es) = es"
proof (induction es)
  case (Cons e es)
  then show ?case by (cases e) auto
qed simp

text \<open>
  A block edit acts exactly as the explicit range hunk over the span the resolver names:
  the expanded list has no block edit left, and applying it to any text gives the result of
  applying the list in which every block edit is written as the range replacement.
\<close>

theorem block_edits_are_range_edits:
  assumes "resolveBlockEdits es src path (Some f) mode = Inr out"
  shows "list_all (\<lambda>e. \<not> is_block e) out \<and>
    applyEdits body out = applyEdits body (concat (map (expand_edit f path src) es))"
proof (cases "hasBlockEdit es")
  case True
  then have "resolve_loop es src path (Some f) mode 0 = Inr out"
    using assms by (simp add: resolveBlockEdits_def)
  then have "stamped out = stamped (concat (map (expand_edit f path src) es))"
    using resolve_loop_expand by (simp add: stamped_from)
  then have "applyEdits body out = applyEdits body (concat (map (expand_edit f path src) es))"
    by (rule applyEdits_stamped)
  then show ?thesis using resolve_no_blocks [OF assms] by (simp add: list_all_iff)
next
  case False
  then have nb: "\<forall>e\<in>set es. \<not> is_block e" and "out = es"
    using assms by (auto simp: resolveBlockEdits_def hasBlockEdit_def list_ex_iff)
  then show ?thesis using expand_id by (simp add: list_all_iff)
qed

theorem block_edits_are_range_edits_witness:
  "list_all (\<lambda>e. \<not> is_block e)
     [Insert (BeforeAnchor 1) (js ''y'') 3 0 True, Delete 1 3 1, Delete 2 3 2] \<and>
   applyEdits [97, 10, 98, 10] [Insert (BeforeAnchor 1) (js ''y'') 3 0 True, Delete 1 3 1, Delete 2 3 2] =
   applyEdits [97, 10, 98, 10] (concat (map (expand_edit
     (\<lambda>p b n. Some \<lparr>span_start = n, span_end = n + 1\<rparr>) (js ''f.ts'') [97, 10, 98, 10])
     [Block 1 [js ''y''] 3 0]))"
proof (rule block_edits_are_range_edits)
  show "resolveBlockEdits [Block 1 [js ''y''] 3 0] [97, 10, 98, 10] (js ''f.ts'')
      (Some (\<lambda>p b n. Some \<lparr>span_start = n, span_end = n + 1\<rparr>)) Throw =
      Inr [Insert (BeforeAnchor 1) (js ''y'') 3 0 True, Delete 1 3 1, Delete 2 3 2]"
    by code_simp
qed

definition block_span_of :: "block_resolver option \<Rightarrow> jstring \<Rightarrow> jstring \<Rightarrow> edit \<Rightarrow> block_span option" where
  "block_span_of resolver path body e =
     (case resolver of Some f \<Rightarrow> f path body (anchor_of e) | None \<Rightarrow> None)"

lemma resolve_loop_error:
  "resolve_loop es body path resolver mode n = Inl err \<longleftrightarrow>
   mode = Throw \<and> (\<exists>e. find (\<lambda>e. is_block e \<and> block_span_of resolver path body e = None) es = Some e \<and>
     err = (if resolver = None then BlockResolverUnavailable (lineNum e)
            else BlockUnresolved (lineNum e) (anchor_of e)))"
proof (induction es arbitrary: n)
  case (Cons e es)
  show ?case
    using Cons
    by (cases e; cases mode)
       (auto simp: rbind_Inl_iff Let_def block_span_of_def split: option.splits)
qed simp

text \<open>
  Expansion fails only in the mode of the final apply, and then with the message for the
  first block edit that has no span: unavailable when the host wired no resolver, unresolved
  otherwise; in the preview mode it never fails.
\<close>

theorem block_expansion_errors:
  "case resolveBlockEdits es body path resolver mode of
     Inl err \<Rightarrow> mode = Throw \<and>
       (\<exists>e. find (\<lambda>e. is_block e \<and> block_span_of resolver path body e = None) es = Some e \<and>
         err = (if resolver = None then BlockResolverUnavailable (lineNum e)
                else BlockUnresolved (lineNum e) (anchor_of e)))
   | Inr out \<Rightarrow> mode = Drop \<or>
       find (\<lambda>e. is_block e \<and> block_span_of resolver path body e = None) es = None"
proof (cases "resolveBlockEdits es body path resolver mode")
  case (Inl err)
  then show ?thesis
    using resolve_loop_error [of es body path resolver mode 0 err]
    by (auto simp: resolveBlockEdits_def split: if_splits)
next
  case (Inr out)
  show ?thesis
  proof (cases "hasBlockEdit es")
    case True
    then have "resolve_loop es body path resolver mode 0 = Inr out"
      using Inr by (simp add: resolveBlockEdits_def)
    then have "\<And>err. resolve_loop es body path resolver mode 0 \<noteq> Inl err" by simp
    then show ?thesis using Inr unfolding resolve_loop_error
      by (cases "find (\<lambda>e. is_block e \<and> block_span_of resolver path body e = None) es"; cases mode) auto
  next
    case False
    then show ?thesis using Inr by (auto simp: hasBlockEdit_def list_ex_iff find_None_iff)
  qed
qed

end
