(* ===== verification/Input.thy ===== *)
theory Input
  imports Block
begin

text \<open>
  The splitter of an authored patch (\<open>packages/hashline/src/input.ts\<close>): path clean-up, section
  headers, sections, merging of sections with the same path, and the methods of
  \<open>PatchSection\<close>.  Of \<open>node:path\<close> the sources use \<open>isAbsolute\<close>, \<open>resolve\<close> and \<open>relative\<close>: their POSIX
  versions are written out on path segments, with the working directory of the process as
  the parameter \<open>pcwd\<close>.
\<close>

section \<open>Paths\<close>

definition SLASH :: nat where "SLASH = 47"

definition isAbsolute :: "jstring \<Rightarrow> bool" where
  "isAbsolute p = starts_with p [SLASH]"

fun add_segment :: "jstring list \<Rightarrow> jstring \<Rightarrow> jstring list" where
  "add_segment st seg =
     (if seg = [] \<or> seg = js ''.'' then st
      else if seg = js ''..'' then butlast st
      else st @ [seg])"

definition path_segments :: "jstring \<Rightarrow> jstring list" where
  "path_segments p = foldl add_segment [] (split_on SLASH p)"

definition path_resolve :: "jstring \<Rightarrow> jstring \<Rightarrow> jstring" where
  "path_resolve pcwd p =
     SLASH # join_with [SLASH] (path_segments (if isAbsolute p then p else pcwd @ SLASH # p))"

fun strip_common :: "'a list \<Rightarrow> 'a list \<Rightarrow> 'a list \<times> 'a list" where
  "strip_common (x # xs) (y # ys) = (if x = y then strip_common xs ys else (x # xs, y # ys))"
| "strip_common xs ys = (xs, ys)"

definition path_relative :: "jstring \<Rightarrow> jstring \<Rightarrow> jstring" where
  "path_relative from_path to_path =
     (case strip_common (path_segments from_path) (path_segments to_path) of
        (f, t) \<Rightarrow> join_with [SLASH] (replicate (length f) (js ''..'') @ t))"

definition unquoteHashlinePath :: "jstring \<Rightarrow> jstring" where
  "unquoteHashlinePath pathText =
     (if length pathText < 2 then pathText
      else
        (let first = pathText ! 0; final = pathText ! (length pathText - 1)
         in if (first = 34 \<or> first = 39) \<and> first = final
            then slice pathText 1 (length pathText - 1) else pathText))"

text \<open>
  The flag \<open>i\<close>: a letter of the pattern matches its two ASCII cases (no other code unit folds
  onto an ASCII letter in the non-Unicode mode).
\<close>

definition same_letter :: "nat \<Rightarrow> nat \<Rightarrow> bool" where
  "same_letter c x = (x = c \<or> 97 \<le> c \<and> c \<le> 122 \<and> x = c - 32)"

definition LitI :: "jstring \<Rightarrow> re" where
  "LitI cs = Cats (map (\<lambda>c. Cls (same_letter c)) cs)"

definition NonAlnum :: re where
  "NonAlnum = Cls (\<lambda>c. \<not> ((65 \<le> c \<and> c \<le> 90) \<or> (97 \<le> c \<and> c \<le> 122) \<or> is_digit c))"

text \<open>
  \<open>/^\*{0,3}\s*(?:(?:update|add|delete|move)[^A-Za-z0-9]*(?:file|to)?[^A-Za-z0-9]*:)?\s*\*{0,3}\s*/i\<close>
\<close>

definition APPLY_PATCH_PATH_NOISE_RE :: re where
  "APPLY_PATCH_PATH_NOISE_RE = Cats [Bol, Upto 3 (Lit (js ''*'')), Star True Sp,
     Opt True (Cats [Alts [LitI (js ''update''), LitI (js ''add''), LitI (js ''delete''), LitI (js ''move'')],
       Star True NonAlnum, Opt True (Alts [LitI (js ''file''), LitI (js ''to'')]),
       Star True NonAlnum, Lit (js '':'')]),
     Star True Sp, Upto 3 (Lit (js ''*'')), Star True Sp]"

definition stripApplyPatchPathNoise :: "jstring \<Rightarrow> jstring" where
  "stripApplyPatchPathNoise pathText = re_remove APPLY_PATCH_PATH_NOISE_RE pathText"

definition normalizeHashlinePath :: "jstring \<Rightarrow> jstring \<Rightarrow> jstring option \<Rightarrow> jstring" where
  "normalizeHashlinePath pcwd rawPath cwd =
     (let unquoted = stripApplyPatchPathNoise (unquoteHashlinePath (trim rawPath))
      in case cwd of
           Some (d # ds) \<Rightarrow>
             if \<not> isAbsolute unquoted then unquoted
             else
               (let relative = path_relative (path_resolve pcwd (d # ds)) (path_resolve pcwd unquoted);
                    isWithinCwd = (relative = [] \<or>
                      (\<not> starts_with relative (js ''..'') \<and> \<not> isAbsolute relative))
                in if isWithinCwd then (if relative = [] then js ''.'' else relative) else unquoted)
         | _ \<Rightarrow> unquoted)"

section \<open>Headers\<close>

record raw_section =
  rs_path :: jstring
  rs_fileHash :: "jstring option"
  rs_diff :: jstring

text \<open>\<open>/^(\S+?)(?:#([0-9A-Fa-f]{4}))?\s*$/\<close>\<close>

definition Hex :: re where
  "Hex = Cls isHexDigitCode"

definition RECOVERY_HEADER_RE :: re where
  "RECOVERY_HEADER_RE = Cats [Bol, Cap 1 (Plus False NonSp),
     Opt True (Cat (Lit (js ''#'')) (Cap 2 (Rep HL_FILE_HASH_LENGTH Hex))), Star True Sp, Eol]"

definition tryParseRecoveryHeader ::
  "jstring \<Rightarrow> jstring \<Rightarrow> jstring option \<Rightarrow> raw_section option" where
  "tryParseRecoveryHeader pcwd line cwd =
     (if \<not> starts_with line HL_FILE_PREFIX then None
      else
        (let body = stripApplyPatchPathNoise (trim (drop (length HL_FILE_PREFIX) line))
         in if length body = 0 then None
            else
              (case re_exec RECOVERY_HEADER_RE body of
                 None \<Rightarrow> None
               | Some (_, _, caps) \<Rightarrow>
                   (let path = normalizeHashlinePath pcwd
                          (case cap_get caps 1 of Some p \<Rightarrow> p | None \<Rightarrow> []) cwd
                    in if length path = 0 then None
                       else Some \<lparr>rs_path = path, rs_fileHash = map_option hex_upper (cap_get caps 2),
                              rs_diff = []\<rparr>))))"

definition parseHashlineHeaderLine ::
  "jstring \<Rightarrow> jstring \<Rightarrow> jstring option \<Rightarrow> raw_section option res" where
  "parseHashlineHeaderLine pcwd line cwd =
     (let trimmed = trim_end line
      in if \<not> starts_with trimmed HL_FILE_PREFIX then Inr None
         else
           (case tokenize trimmed 0 of
              TokHeader _ path fileHash \<Rightarrow>
                (let parsedPath = normalizeHashlinePath pcwd path cwd
                 in if length parsedPath = 0 then Inl EmptyHeaderPath
                    else Inr (Some \<lparr>rs_path = parsedPath, rs_fileHash = fileHash, rs_diff = []\<rparr>))
            | _ \<Rightarrow>
                (case tryParseRecoveryHeader pcwd trimmed cwd of
                   Some recovered \<Rightarrow> Inr (Some recovered)
                 | None \<Rightarrow> Inl (MalformedHeader trimmed))))"

section \<open>Splitting\<close>

definition strip_bom :: "jstring \<Rightarrow> jstring" where
  "strip_bom input = (if starts_with input [0xFEFF] then drop 1 input else input)"

fun drop_leading :: "jstring list \<Rightarrow> jstring list" where
  "drop_leading [] = []"
| "drop_leading (l # ls) =
     (let head = chop_cr l
      in if length (trim head) = 0 \<or> (case tokenize head 0 of TokEnvelopeBegin _ \<Rightarrow> True | _ \<Rightarrow> False)
         then drop_leading ls else l # ls)"

definition stripLeadingBlankLines :: "jstring \<Rightarrow> jstring" where
  "stripLeadingBlankLines input = join_lines (drop_leading (split_lines (strip_bom input)))"

text \<open>\<open>s.split(/\r?\n/)\<close>\<close>

definition split_crlf :: "jstring \<Rightarrow> jstring list" where
  "split_crlf s = (let ls = split_lines s in map chop_cr (butlast ls) @ [last ls])"

definition containsRecognizableHashlineOperations :: "jstring \<Rightarrow> bool" where
  "containsRecognizableHashlineOperations input = list_ex isOp (split_crlf input)"

record split_options =
  so_cwd :: "jstring option"
  so_path :: "jstring option"

text \<open>\<open>lines.some(line => parseHashlineHeaderLine(line) !== null)\<close>, which may throw.\<close>

fun some_header :: "jstring \<Rightarrow> jstring option \<Rightarrow> jstring list \<Rightarrow> bool res" where
  "some_header pcwd cwd [] = Inr False"
| "some_header pcwd cwd (l # ls) =
     rbind (parseHashlineHeaderLine pcwd l cwd)
       (\<lambda>h. if h \<noteq> None then Inr True else some_header pcwd cwd ls)"

definition normalizeFallbackInput :: "jstring \<Rightarrow> jstring \<Rightarrow> split_options \<Rightarrow> jstring res" where
  "normalizeFallbackInput pcwd input opts =
     rbind (some_header pcwd (so_cwd opts) (split_crlf (strip_bom input)))
       (\<lambda>hasExplicitHeader.
          if hasExplicitHeader then Inr input
          else
            (case so_path opts of
               Some (c # cs) \<Rightarrow>
                 if \<not> containsRecognizableHashlineOperations input then Inr input
                 else
                   (let fallbackPath = normalizeHashlinePath pcwd (c # cs) (so_cwd opts)
                    in if length fallbackPath = 0 then Inr input
                       else Inr (HL_FILE_PREFIX @ fallbackPath @ LF # input))
             | _ \<Rightarrow> Inr input))"

text \<open>The state of the splitting loop, and \<open>flush\<close>.\<close>

record split_state =
  ss_sections :: "raw_section list"
  ss_current :: "raw_section option"
  ss_lines :: "jstring list"

definition flush_section :: "split_state \<Rightarrow> split_state" where
  "flush_section st =
     (case ss_current st of
        None \<Rightarrow> st
      | Some cur \<Rightarrow>
          (let hasOps = list_ex (\<lambda>line. length (trim line) > 0) (ss_lines st)
           in st\<lparr>ss_sections := (if hasOps
                  then ss_sections st @ [cur\<lparr>rs_diff := join_lines (ss_lines st)\<rparr>]
                  else ss_sections st),
                ss_lines := []\<rparr>))"

fun split_sections_loop ::
  "jstring \<Rightarrow> jstring option \<Rightarrow> split_state \<Rightarrow> jstring list \<Rightarrow> split_state res" where
  "split_sections_loop pcwd cwd st [] = Inr st"
| "split_sections_loop pcwd cwd st (line # rest) =
     (let trimmed = trim_end line
      in case tokenize line 0 of
           TokEnvelopeEnd _ \<Rightarrow> Inr st
         | TokAbort _ \<Rightarrow> Inr st
         | TokEnvelopeBegin _ \<Rightarrow> split_sections_loop pcwd cwd st rest
         | _ \<Rightarrow>
             rbind (if starts_with trimmed HL_FILE_PREFIX then parseHashlineHeaderLine pcwd line cwd
                    else Inr None)
               (\<lambda>header. case header of
                  Some h \<Rightarrow> split_sections_loop pcwd cwd
                    ((flush_section st)\<lparr>ss_current := Some h, ss_lines := []\<rparr>) rest
                | None \<Rightarrow> split_sections_loop pcwd cwd (st\<lparr>ss_lines := ss_lines st @ [line]\<rparr>) rest))"

definition splitRawSections :: "jstring \<Rightarrow> jstring \<Rightarrow> split_options \<Rightarrow> raw_section list res" where
  "splitRawSections pcwd input opts =
     rbind (normalizeFallbackInput pcwd input opts) (\<lambda>normalized.
       (let stripped = stripLeadingBlankLines normalized;
            lines = split_crlf stripped;
            firstLine = (case nth_opt lines 0 of Some l \<Rightarrow> l | None \<Rightarrow> [])
        in rbind (parseHashlineHeaderLine pcwd firstLine (so_cwd opts)) (\<lambda>header.
             if header = None then
               (if re_test UNIFIED_DIFF_RE (trim_end firstLine) then Inl UnifiedDiffFirstLine
                else Inl (NoHeaderOnFirstLine (slice firstLine 0 120)))
             else
               rbind (split_sections_loop pcwd (so_cwd opts)
                   \<lparr>ss_sections = [], ss_current = None, ss_lines = []\<rparr> lines)
                 (\<lambda>st. Inr (ss_sections (flush_section st))))))"

section \<open>Merging\<close>

record merge_entry =
  me_fileHash :: "jstring option"
  me_diffs :: "jstring list"

definition merge_section ::
  "(jstring \<times> merge_entry) list \<Rightarrow> raw_section \<Rightarrow> (jstring \<times> merge_entry) list res" where
  "merge_section byPath sec =
     (case map_get byPath (rs_path sec) of
        Some existing \<Rightarrow>
          (case (me_fileHash existing, rs_fileHash sec) of
             (Some a, Some b) \<Rightarrow>
               if a \<noteq> b then Inl (ConflictingTags (rs_path sec) a b)
               else Inr (map_set byPath (rs_path sec)
                      (existing\<lparr>me_diffs := me_diffs existing @ [rs_diff sec]\<rparr>))
           | (None, Some b) \<Rightarrow>
               Inr (map_set byPath (rs_path sec)
                 (existing\<lparr>me_fileHash := Some b, me_diffs := me_diffs existing @ [rs_diff sec]\<rparr>))
           | (_, None) \<Rightarrow>
               Inr (map_set byPath (rs_path sec)
                 (existing\<lparr>me_diffs := me_diffs existing @ [rs_diff sec]\<rparr>)))
      | None \<Rightarrow>
          Inr (map_set byPath (rs_path sec)
            \<lparr>me_fileHash = rs_fileHash sec, me_diffs = [rs_diff sec]\<rparr>))"

definition mergeSamePathSections :: "raw_section list \<Rightarrow> raw_section list res" where
  "mergeSamePathSections secs =
     rbind (rfold merge_section [] secs) (\<lambda>byPath.
       Inr (map (\<lambda>(p, entry). \<lparr>rs_path = p, rs_fileHash = me_fileHash entry,
              rs_diff = join_lines (me_diffs entry)\<rparr>) byPath))"

text \<open>A \<open>PatchSection\<close> is its raw section; its parse is cached but pure.\<close>

definition patch_parse :: "jstring \<Rightarrow> jstring \<Rightarrow> split_options \<Rightarrow> raw_section list res" where
  "patch_parse pcwd input opts = rbind (splitRawSections pcwd input opts) mergeSamePathSections"

definition patch_parseSingle :: "jstring \<Rightarrow> jstring \<Rightarrow> split_options \<Rightarrow> raw_section res" where
  "patch_parseSingle pcwd input opts =
     rbind (patch_parse pcwd input opts) (\<lambda>secs.
       case secs of [] \<Rightarrow> Inl NoSections | s # _ \<Rightarrow> Inr s)"

section \<open>Sections\<close>

definition section_parse :: "raw_section \<Rightarrow> parsed res" where
  "section_parse sec = parsePatch (rs_diff sec)"

definition anchor_scoped :: "edit \<Rightarrow> bool" where
  "anchor_scoped e =
     (case e of
        Delete _ _ _ \<Rightarrow> True
      | Block _ _ _ _ \<Rightarrow> True
      | Insert c _ _ _ _ \<Rightarrow> (case c of BeforeAnchor _ \<Rightarrow> True | AfterAnchor _ \<Rightarrow> True | _ \<Rightarrow> False))"

definition section_hasAnchorScopedEdit :: "raw_section \<Rightarrow> bool res" where
  "section_hasAnchorScopedEdit sec =
     rbind (section_parse sec) (\<lambda>(es, _). Inr (list_ex anchor_scoped es))"

definition section_anchor_lines :: "edit list \<Rightarrow> nat list" where
  "section_anchor_lines es = sort (foldl (\<lambda>acc e. foldl set_add acc (getEditAnchors e)) [] es)"

definition section_collectAnchorLines :: "raw_section \<Rightarrow> nat list res" where
  "section_collectAnchorLines sec =
     rbind (section_parse sec) (\<lambda>(es, _). Inr (section_anchor_lines es))"

definition section_applyTo ::
  "raw_section \<Rightarrow> jstring \<Rightarrow> block_resolver option \<Rightarrow> apply_result res" where
  "section_applyTo sec body resolver =
     rbind (section_parse sec) (\<lambda>(es, ws).
     rbind (resolveBlockEdits es body (rs_path sec) resolver Throw) (\<lambda>resolved.
     rbind (applyEdits body resolved) (\<lambda>result.
       Inr (result\<lparr>ar_warnings := ws @ ar_warnings result\<rparr>))))"

definition section_applyPartialTo ::
  "raw_section \<Rightarrow> jstring \<Rightarrow> block_resolver option \<Rightarrow> apply_result res" where
  "section_applyPartialTo sec body resolver =
     rbind (parsePatchStreaming (rs_diff sec)) (\<lambda>(es, ws).
     rbind (resolveBlockEdits es body (rs_path sec) resolver Drop) (\<lambda>resolved.
     rbind (applyEdits body resolved) (\<lambda>result.
       Inr (result\<lparr>ar_warnings := ws @ ar_warnings result\<rparr>))))"

section \<open>What merging promises\<close>

definition same_path :: "jstring \<Rightarrow> raw_section list \<Rightarrow> raw_section list" where
  "same_path p secs = filter (\<lambda>s. rs_path s = p) secs"

definition tags_of :: "jstring \<Rightarrow> raw_section list \<Rightarrow> jstring list" where
  "tags_of p secs = concat (map (\<lambda>s. case rs_fileHash s of None \<Rightarrow> [] | Some t \<Rightarrow> [t]) (same_path p secs))"

definition first_of :: "'a list \<Rightarrow> 'a option" where
  "first_of xs = (case xs of [] \<Rightarrow> None | x # _ \<Rightarrow> Some x)"

text \<open>The paths in the order of their first section.\<close>

definition path_order :: "raw_section list \<Rightarrow> jstring list" where
  "path_order secs = foldl set_add [] (map rs_path secs)"

definition merged_section :: "raw_section list \<Rightarrow> jstring \<Rightarrow> raw_section" where
  "merged_section secs p =
     \<lparr>rs_path = p, rs_fileHash = first_of (tags_of p secs),
      rs_diff = join_lines (map rs_diff (same_path p secs))\<rparr>"

definition merge_inv :: "raw_section list \<Rightarrow> (jstring \<times> merge_entry) list \<Rightarrow> bool" where
  "merge_inv secs m \<longleftrightarrow>
     map_keys m = path_order secs \<and>
     (\<forall>p. map_get m p = (if same_path p secs = [] then None
        else Some \<lparr>me_fileHash = first_of (tags_of p secs), me_diffs = map rs_diff (same_path p secs)\<rparr>)) \<and>
     (\<forall>p. \<forall>a\<in>set (tags_of p secs). first_of (tags_of p secs) = Some a)"

lemma same_path_snoc:
  "same_path p (secs @ [s]) = same_path p secs @ (if rs_path s = p then [s] else [])"
  by (simp add: same_path_def)

lemma tags_of_snoc:
  "tags_of p (secs @ [s]) = tags_of p secs @
     (if rs_path s = p then (case rs_fileHash s of None \<Rightarrow> [] | Some t \<Rightarrow> [t]) else [])"
  by (simp add: tags_of_def same_path_snoc)

lemma tags_of_mono: "set (tags_of p secs) \<subseteq> set (tags_of p (secs @ [s]))"
  by (simp add: tags_of_def same_path_def)

lemma same_path_Nil: "same_path p secs = [] \<longleftrightarrow> p \<notin> rs_path ` set secs"
  by (auto simp: same_path_def filter_empty_conv)

lemma tags_of_same: "same_path p secs = [] \<Longrightarrow> tags_of p secs = []"
  by (simp add: tags_of_def)

lemma path_order_snoc: "path_order (secs @ [s]) = set_add (path_order secs) (rs_path s)"
  by (simp add: path_order_def)

lemma path_order_set: "set (path_order secs) = rs_path ` set secs"
  by (induction secs rule: rev_induct) (auto simp: path_order_snoc, simp add: path_order_def)

lemma path_order_distinct: "distinct (path_order secs)"
  by (induction secs rule: rev_induct) (auto simp: path_order_snoc distinct_set_add, simp add: path_order_def)

lemma first_of_snoc: "first_of (xs @ [x]) = (if xs = [] then Some x else first_of xs)"
  by (cases xs) (auto simp: first_of_def)

lemma first_of_simps [simp]: "first_of [] = None" "first_of (x # xs) = Some x"
  by (simp_all add: first_of_def)

lemma first_of_None: "first_of xs = None \<longleftrightarrow> xs = []"
  by (cases xs) (auto simp: first_of_def)

lemma merge_section_step:
  assumes inv: "merge_inv secs m"
  shows "case merge_section m s of
     Inr m' \<Rightarrow> merge_inv (secs @ [s]) m'
   | Inl e \<Rightarrow> \<exists>a b. e = ConflictingTags (rs_path s) a b \<and> a \<noteq> b \<and> a \<in> set (tags_of (rs_path s) secs) \<and>
       rs_fileHash s = Some b"
proof -
  let ?p = "rs_path s"
  have keys: "map_keys m = path_order secs" and tags: "\<And>p a. a \<in> set (tags_of p secs) \<Longrightarrow> first_of (tags_of p secs) = Some a"
    and get: "\<And>p. map_get m p = (if same_path p secs = [] then None
        else Some \<lparr>me_fileHash = first_of (tags_of p secs), me_diffs = map rs_diff (same_path p secs)\<rparr>)"
    using inv by (auto simp: merge_inv_def)
  have mem: "?p \<in> set (map_keys m) \<longleftrightarrow> same_path ?p secs \<noteq> []"
    by (simp add: keys path_order_set same_path_Nil)
  have order: "map_keys (map_set m ?p e) = path_order (secs @ [s])" for e
    using mem keys keys_map_set_mem [of ?p m e] keys_map_set_new [of ?p m e]
    by (auto simp: path_order_snoc set_add_def map_keys_def)
  have upd: "merge_inv (secs @ [s]) (map_set m ?p
      \<lparr>me_fileHash = first_of (tags_of ?p (secs @ [s])), me_diffs = map rs_diff (same_path ?p (secs @ [s]))\<rparr>)"
    if ok: "\<And>b. rs_fileHash s = Some b \<Longrightarrow> first_of (tags_of ?p secs) \<in> {None, Some b}"
  proof -
    have "first_of (tags_of p (secs @ [s])) = Some a" if "a \<in> set (tags_of p (secs @ [s]))" for p a
    proof (cases "rs_path s = p \<and> rs_fileHash s \<noteq> None")
      case True
      then obtain t where t: "rs_path s = p" "rs_fileHash s = Some t" by blast
      then have snoc: "tags_of p (secs @ [s]) = tags_of p secs @ [t]" by (simp add: tags_of_snoc)
      have "first_of (tags_of p secs) \<noteq> None \<longrightarrow> first_of (tags_of p secs) = Some t"
        using ok [OF t(2)] unfolding t(1) by auto
      then show ?thesis
        using that tags [of a p] unfolding snoc first_of_snoc first_of_None by auto
    next
      case False
      then have "tags_of p (secs @ [s]) = tags_of p secs"
        by (cases "rs_fileHash s") (simp_all add: tags_of_snoc)
      then show ?thesis using that tags by simp
    qed
    moreover have "map_get (map_set m ?p
        \<lparr>me_fileHash = first_of (tags_of ?p (secs @ [s])), me_diffs = map rs_diff (same_path ?p (secs @ [s]))\<rparr>) p =
        (if same_path p (secs @ [s]) = [] then None
         else Some \<lparr>me_fileHash = first_of (tags_of p (secs @ [s])), me_diffs = map rs_diff (same_path p (secs @ [s]))\<rparr>)" for p
    proof (cases "p = ?p")
      case True
      then show ?thesis by (simp add: same_path_snoc)
    next
      case False
      then show ?thesis using get [of p] by (simp add: same_path_snoc tags_of_snoc)
    qed
    ultimately show ?thesis unfolding merge_inv_def using order by blast
  qed
  show ?thesis
  proof (cases "same_path ?p secs = []")
    case True
    then have "merge_section m s = Inr (map_set m ?p \<lparr>me_fileHash = rs_fileHash s, me_diffs = [rs_diff s]\<rparr>)"
      using get by (simp add: merge_section_def)
    moreover have "rs_fileHash s = first_of (tags_of ?p (secs @ [s]))"
      using tags_of_same [OF True] by (simp add: tags_of_snoc first_of_def split: option.splits)
    ultimately show ?thesis
      using upd tags_of_same [OF True] True by (simp add: same_path_snoc first_of_def)
  next
    case False
    then have g: "map_get m ?p = Some \<lparr>me_fileHash = first_of (tags_of ?p secs), me_diffs = map rs_diff (same_path ?p secs)\<rparr>"
      using get by simp
    show ?thesis
    proof (cases "\<exists>a b. first_of (tags_of ?p secs) = Some a \<and> rs_fileHash s = Some b \<and> a \<noteq> b")
      case True
      then obtain a b where ab: "first_of (tags_of ?p secs) = Some a" "rs_fileHash s = Some b" "a \<noteq> b" by blast
      then have "a \<in> set (tags_of ?p secs)" by (cases "tags_of ?p secs") (auto simp: first_of_def)
      with ab g show ?thesis by (simp add: merge_section_def)
    next
      case ok: False
      then have "merge_section m s = Inr (map_set m ?p
        \<lparr>me_fileHash = first_of (tags_of ?p (secs @ [s])), me_diffs = map rs_diff (same_path ?p (secs @ [s]))\<rparr>)"
        using g
        by (auto simp: merge_section_def same_path_snoc tags_of_snoc first_of_snoc first_of_None split: option.splits)
      moreover have "\<And>b. rs_fileHash s = Some b \<Longrightarrow> first_of (tags_of ?p secs) \<in> {None, Some b}"
        using ok by (cases "first_of (tags_of ?p secs)") auto
      ultimately show ?thesis using upd by simp
    qed
  qed
qed

lemma merge_fold:
  "case rfold merge_section [] secs of
     Inr m \<Rightarrow> merge_inv secs m
   | Inl e \<Rightarrow> \<exists>p a b. e = ConflictingTags p a b \<and> a \<noteq> b \<and> {a, b} \<subseteq> set (tags_of p secs)"
proof (induction secs rule: rev_induct)
  case Nil
  then show ?case by (simp add: merge_inv_def path_order_def map_keys_def map_get_def same_path_def tags_of_def)
next
  case (snoc s secs)
  show ?case
  proof (cases "rfold merge_section [] secs")
    case (Inl e)
    then obtain p a b where e: "e = ConflictingTags p a b" "a \<noteq> b" "{a, b} \<subseteq> set (tags_of p secs)"
      using snoc by auto
    have "{a, b} \<subseteq> set (tags_of p (secs @ [s]))" by (rule subset_trans [OF e(3) tags_of_mono])
    moreover have "rfold merge_section [] (secs @ [s]) = Inl e" using Inl by (simp add: rfold_append)
    ultimately show ?thesis using e(1,2) by auto
  next
    case (Inr m)
    then have inv: "merge_inv secs m" using snoc by simp
    show ?thesis
    proof (cases "merge_section m s")
      case (Inl e)
      then obtain a b where e: "e = ConflictingTags (rs_path s) a b" "a \<noteq> b"
          "a \<in> set (tags_of (rs_path s) secs)" "rs_fileHash s = Some b"
        using merge_section_step [OF inv, of s] by auto
      have "b \<in> set (tags_of (rs_path s) (secs @ [s]))" using e(4) by (simp add: tags_of_def same_path_def)
      moreover have "a \<in> set (tags_of (rs_path s) (secs @ [s]))" by (rule subsetD [OF tags_of_mono e(3)])
      moreover have "rfold merge_section [] (secs @ [s]) = Inl e"
        using Inl \<open>rfold merge_section [] secs = Inr m\<close> by (simp add: rfold_append)
      ultimately show ?thesis using e(1,2) by auto
    next
      case (Inr m')
      then show ?thesis
        using merge_section_step [OF inv, of s] \<open>rfold merge_section [] secs = Inr m\<close>
        by (simp add: rfold_append)
    qed
  qed
qed

lemma map_by_keys:
  "distinct (map fst m) \<Longrightarrow> map (\<lambda>(k, e). F k e) m = map (\<lambda>k. F k (the (map_of m k))) (map fst m)"
  by (auto simp: comp_def intro!: map_cong)

text \<open>
  Merging gives one section per path, in the order of first occurrence, whose diff is the
  diffs of that path's sections in order and whose tag is the one tag they all agree on; it
  fails exactly when two sections of a path carry different tags, naming them.
\<close>

theorem merge_sections_spec:
  "case mergeSamePathSections secs of
     Inr out \<Rightarrow> out = map (merged_section secs) (path_order secs) \<and> distinct (path_order secs) \<and>
       set (path_order secs) = rs_path ` set secs \<and>
       (\<forall>p. card (set (tags_of p secs)) \<le> 1)
   | Inl e \<Rightarrow> \<exists>p a b. e = ConflictingTags p a b \<and> a \<noteq> b \<and> {a, b} \<subseteq> set (tags_of p secs)"
proof (cases "rfold merge_section [] secs")
  case (Inl e)
  then show ?thesis using merge_fold [of secs] by (simp add: mergeSamePathSections_def)
next
  case (Inr m)
  then have inv: "merge_inv secs m" using merge_fold [of secs] by simp
  have dist: "distinct (map fst m)" using inv path_order_distinct by (simp add: merge_inv_def map_keys_def)
  have keys: "map fst m = path_order secs" using inv by (simp add: merge_inv_def map_keys_def)
  have "map (\<lambda>(p, entry). \<lparr>rs_path = p, rs_fileHash = me_fileHash entry, rs_diff = join_lines (me_diffs entry)\<rparr>) m =
      map (\<lambda>p. \<lparr>rs_path = p, rs_fileHash = me_fileHash (the (map_get m p)),
        rs_diff = join_lines (me_diffs (the (map_get m p)))\<rparr>) (path_order secs)"
    using map_by_keys [OF dist, of "\<lambda>p entry. \<lparr>rs_path = p, rs_fileHash = me_fileHash entry,
      rs_diff = join_lines (me_diffs entry)\<rparr>"] by (simp only: keys map_get_def)
  also have "\<dots> = map (merged_section secs) (path_order secs)"
  proof (rule map_cong)
    fix p assume "p \<in> set (path_order secs)"
    then have "same_path p secs \<noteq> []" by (simp add: path_order_set same_path_Nil)
    then show "\<lparr>rs_path = p, rs_fileHash = me_fileHash (the (map_get m p)),
        rs_diff = join_lines (me_diffs (the (map_get m p)))\<rparr> = merged_section secs p"
      using inv by (simp add: merge_inv_def merged_section_def)
  qed simp
  finally have out: "mergeSamePathSections secs = Inr (map (merged_section secs) (path_order secs))"
    using Inr by (simp add: mergeSamePathSections_def)
  have "card (set (tags_of p secs)) \<le> 1" for p
  proof -
    have "\<forall>a\<in>set (tags_of p secs). first_of (tags_of p secs) = Some a" using inv by (simp add: merge_inv_def)
    then have "set (tags_of p secs) \<subseteq> {the (first_of (tags_of p secs))}" by auto
    then show ?thesis by (metis card_mono card.empty finite.intros is_singletonI is_singleton_altdef)
  qed
  then show ?thesis using out path_order_distinct path_order_set by simp
qed

section \<open>Printing a patch and splitting it again\<close>

type_synonym patch_doc = "(jstring \<times> nat \<times> hunk list) list"

fun section_lines :: "jstring \<times> nat \<times> hunk list \<Rightarrow> jstring list" where
  "section_lines (p, n, hs) = formatHashlineHeader p (hex4 n) # concat (map render_hunk hs)"

definition render_patch :: "patch_doc \<Rightarrow> jstring" where
  "render_patch doc = join_lines (concat (map section_lines doc))"

fun doc_section :: "jstring \<times> nat \<times> hunk list \<Rightarrow> raw_section" where
  "doc_section (p, n, hs) = \<lparr>rs_path = p, rs_fileHash = Some (hex4 n), rs_diff = render_hunks hs\<rparr>"

text \<open>A relative path that the clean-up of headers leaves alone.\<close>

definition clean_path :: "jstring \<Rightarrow> bool" where
  "clean_path p \<longleftrightarrow> plain_path p \<and> trim p = p \<and> unquoteHashlinePath p = p \<and>
     stripApplyPatchPathNoise p = p \<and> \<not> isAbsolute p \<and> LF \<notin> set p"

fun section_ok :: "jstring \<times> nat \<times> hunk list \<Rightarrow> bool" where
  "section_ok (p, n, hs) \<longleftrightarrow> clean_path p \<and> hs \<noteq> [] \<and> list_all hunk_ok hs"

lemma normalize_clean: "clean_path p \<Longrightarrow> normalizeHashlinePath pcwd p cwd = p"
  by (simp add: normalizeHashlinePath_def clean_path_def split: option.splits list.splits)

lemma hex_digit_props: "d < 16 \<Longrightarrow> \<not> is_js_space (hex_digit d) \<and> hex_digit d \<noteq> CR \<and> hex_digit d \<noteq> LF"
  by (auto simp: hex_digit_def is_js_space_def)

lemma hex4_clean: "\<not> is_js_space (last (hex4 n))" "last (hex4 n) \<noteq> CR" "LF \<notin> set (hex4 n)" "hex4 n \<noteq> []"
proof -
  have d: "k mod 16 < 16" for k :: nat by simp
  show "\<not> is_js_space (last (hex4 n))" "last (hex4 n) \<noteq> CR" "LF \<notin> set (hex4 n)" "hex4 n \<noteq> []"
    unfolding hex4_def
    using hex_digit_props [OF d, of "n div 4096"] hex_digit_props [OF d, of "n div 256"]
      hex_digit_props [OF d, of "n div 16"] hex_digit_props [OF d, of n] by auto
qed

lemma trim_end_keep: "l \<noteq> [] \<Longrightarrow> \<not> is_js_space (last l) \<Longrightarrow> trim_end l = l"
  by (cases l rule: rev_cases) (auto simp: trim_end_def)

lemma header_shape:
  "formatHashlineHeader p (hex4 n) = 0xB6 # p @ 35 # hex4 n"
  by (simp add: formatHashlineHeader_def hl_sigils)

lemma header_clean: "clean_path p \<Longrightarrow> clean_line (formatHashlineHeader p (hex4 n))"
  using hex4_clean [of n] by (simp add: clean_line_def header_shape clean_path_def)

lemma header_trim [simp]:
  "trim_end (formatHashlineHeader p (hex4 n)) = formatHashlineHeader p (hex4 n)"
  using hex4_clean [of n] by (intro trim_end_keep) (simp_all add: header_shape)

lemma header_parse:
  assumes "clean_path p"
  shows "parseHashlineHeaderLine pcwd (formatHashlineHeader p (hex4 n)) cwd =
    Inr (Some \<lparr>rs_path = p, rs_fileHash = Some (hex4 n), rs_diff = []\<rparr>)"
proof -
  have "plain_path p" "p \<noteq> []" using assms by (auto simp: clean_path_def plain_path_def)
  moreover have "starts_with (formatHashlineHeader p (hex4 n)) HL_FILE_PREFIX"
    by (simp add: formatHashlineHeader_def)
  ultimately show ?thesis
    using normalize_clean [OF assms]
    by (simp add: parseHashlineHeaderLine_def tokenize_def classify_header)
qed

text \<open>Lines inside a section.\<close>

definition body_line :: "jstring \<Rightarrow> bool" where
  "body_line l \<longleftrightarrow> \<not> starts_with (trim_end l) HL_FILE_PREFIX \<and>
     (\<exists>ln t. tokenize l 0 = TokOpBlock ln t \<or> (\<exists>s. tokenize l 0 = TokPayload ln s))"

lemma trim_end_prefix: "\<exists>r. l = trim_end l @ r"
  by (metis append_Nil2 rev_append rev_rev_ident takeWhile_dropWhile_id trim_end_def)

lemma not_header: "l \<noteq> [] \<Longrightarrow> hd l \<noteq> 0xB6 \<Longrightarrow> \<not> starts_with (trim_end l) HL_FILE_PREFIX"
  using trim_end_prefix [of l] by (auto simp: starts_with_iff HL_FILE_PREFIX_def)

lemma print_target_hd:
  assumes "print_target t = Some l"
  shows "hd l \<in> {100, 105, 114}"
  using assms
  by (cases t rule: print_target.cases)
     (auto simp: formatReplaceHeader_def formatDeleteHeader_def hl_keywords hl_sigils split: if_splits)

lemma hunk_body_lines:
  assumes "hunk_ok h" "l \<in> set (render_hunk h)"
  shows "body_line l \<and> clean_line l"
proof -
  have cl: "clean_line l" using render_hunk_clean [OF assms(1)] assms(2) by (simp add: list_all_iff)
  obtain line where line: "print_target (fst h) = Some line" "\<forall>n\<in>set (target_lines (fst h)). 0 < n"
    using assms(1) by (auto simp: hunk_ok_def)
  consider "l = line" | r where "l = HL_PAYLOAD_REPLACE @ r"
    using assms(2) line by (auto simp: render_hunk_def)
  then have "body_line l"
  proof cases
    case 1
    have "hd l \<noteq> 0xB6" using print_target_hd [OF line(1)] 1 by auto
    then show ?thesis
      using not_header [of l] cl print_target_classify [OF line, of 0] 1
      by (auto simp: body_line_def clean_line_def tokenize_def)
  next
    case 2
    then have "\<not> starts_with (trim_end l) HL_FILE_PREFIX"
      by (intro not_header) (simp_all add: HL_PAYLOAD_REPLACE_def)
    then show ?thesis using 2 classify_payload [of r 0] by (auto simp: body_line_def tokenize_def)
  qed
  then show ?thesis using cl by simp
qed

lemma body_loop:
  "\<forall>l\<in>set ls. body_line l \<Longrightarrow>
   split_sections_loop pcwd cwd st (ls @ rest) =
   split_sections_loop pcwd cwd (st\<lparr>ss_lines := ss_lines st @ ls\<rparr>) rest"
proof (induction ls arbitrary: st)
  case (Cons l ls)
  then have "body_line l" by simp
  then show ?case using Cons by (auto simp: body_line_def Let_def)
qed simp

lemma hunks_have_content:
  assumes "hs \<noteq> []" "list_all hunk_ok hs"
  shows "list_ex (\<lambda>line. length (trim line) > 0) (concat (map render_hunk hs))"
proof -
  obtain h hs' where hs: "hs = h # hs'" using assms(1) by (cases hs) auto
  then have ok: "hunk_ok h" using assms(2) by simp
  then obtain line where line: "print_target (fst h) = Some line" by (auto simp: hunk_ok_def)
  then have "line \<in> set (render_hunk h)" by (simp add: render_hunk_def)
  then have "line \<noteq> []" using hunk_body_lines [OF ok] by (auto simp: clean_line_def)
  moreover have "\<not> is_js_space (hd line)" using print_target_hd [OF line] by (auto simp: is_js_space_def)
  ultimately have "trim line \<noteq> []" by (auto simp: trim_Nil_iff)
  then show ?thesis using \<open>line \<in> set (render_hunk h)\<close> hs by (auto simp: list_ex_iff)
qed

lemma sections_loop:
  "list_all section_ok doc \<Longrightarrow>
   \<exists>st'. split_sections_loop pcwd cwd st (concat (map section_lines doc)) = Inr st' \<and>
     ss_sections (flush_section st') = ss_sections (flush_section st) @ map doc_section doc"
proof (induction doc arbitrary: st)
  case (Cons d doc)
  obtain p n hs where d: "d = (p, n, hs)" by (cases d)
  have ok: "clean_path p" "hs \<noteq> []" "list_all hunk_ok hs" using Cons.prems d by simp_all
  let ?h = "formatHashlineHeader p (hex4 n)" and ?b = "concat (map render_hunk hs)"
  let ?sec = "\<lparr>rs_path = p, rs_fileHash = Some (hex4 n), rs_diff = []\<rparr>"
  let ?st1 = "(flush_section st)\<lparr>ss_current := Some ?sec, ss_lines := []\<rparr>"
  have tok: "tokenize ?h 0 = TokHeader 0 p (Some (hex4 n))"
    using ok(1) by (simp add: tokenize_def classify_header clean_path_def)
  have pre: "starts_with ?h HL_FILE_PREFIX" by (simp add: formatHashlineHeader_def)
  have body: "\<forall>l\<in>set ?b. body_line l" using hunk_body_lines ok(3) by (auto simp: list_all_iff)
  have "split_sections_loop pcwd cwd st (?h # ?b @ concat (map section_lines doc)) =
      split_sections_loop pcwd cwd (?st1\<lparr>ss_lines := ?b\<rparr>) (concat (map section_lines doc))"
    using tok pre header_parse [OF ok(1), of pcwd n cwd] body_loop [OF body, of pcwd cwd ?st1]
    by simp
  moreover obtain st' where st': "split_sections_loop pcwd cwd (?st1\<lparr>ss_lines := ?b\<rparr>)
        (concat (map section_lines doc)) = Inr st'"
      "ss_sections (flush_section st') = ss_sections (flush_section (?st1\<lparr>ss_lines := ?b\<rparr>)) @ map doc_section doc"
    using Cons.IH [of "?st1\<lparr>ss_lines := ?b\<rparr>"] Cons.prems by auto
  moreover have "ss_sections (flush_section (?st1\<lparr>ss_lines := ?b\<rparr>)) =
      ss_sections (flush_section st) @ [doc_section d]"
    using hunks_have_content [OF ok(2,3)] d by (simp add: flush_section_def render_hunks_def)
  ultimately show ?case using d by simp
qed simp

lemma merge_distinct:
  "distinct (map rs_path secs) \<Longrightarrow> mergeSamePathSections secs = Inr secs"
proof -
  assume dist: "distinct (map rs_path secs)"
  have "rfold merge_section [] secs =
      Inr (map (\<lambda>s. (rs_path s, \<lparr>me_fileHash = rs_fileHash s, me_diffs = [rs_diff s]\<rparr>)) secs)"
    using dist
  proof (induction secs rule: rev_induct)
    case (snoc s secs)
    let ?m = "map (\<lambda>s. (rs_path s, \<lparr>me_fileHash = rs_fileHash s, me_diffs = [rs_diff s]\<rparr>)) secs"
    have "map_keys ?m = map rs_path secs" by (simp add: map_keys_def comp_def)
    then have "rs_path s \<notin> set (map_keys ?m)" using snoc.prems by simp
    then have "map_get ?m (rs_path s) = None" "map_set ?m (rs_path s) e = ?m @ [(rs_path s, e)]" for e
      by (simp_all only: map_get_def map_of_eq_None_iff map_keys_def list.set_map [symmetric]
          keys_map_set_new not_False_eq_True)
    then show ?case using snoc by (simp add: rfold_append merge_section_def)
  qed simp
  moreover have "map ((\<lambda>(p, entry). \<lparr>rs_path = p, rs_fileHash = me_fileHash entry,
      rs_diff = join_lines (me_diffs entry)\<rparr>) \<circ>
      (\<lambda>s. (rs_path s, \<lparr>me_fileHash = rs_fileHash s, me_diffs = [rs_diff s]\<rparr>))) secs = secs"
    by (rule map_idI) simp
  ultimately show ?thesis by (simp add: mergeSamePathSections_def)
qed

lemma split_crlf_clean:
  assumes "ls \<noteq> []" "list_all clean_line ls"
  shows "split_crlf (join_lines ls) = ls"
proof -
  have "split_lines (join_lines ls) = ls"
    using assms by (intro split_join) (auto simp: list_all_iff clean_line_def)
  moreover have "map chop_cr (butlast ls) = butlast ls"
    using assms(2) by (intro map_idI) (auto simp: list_all_iff clean_chop dest: in_set_butlastD)
  ultimately show ?thesis using assms(1) by (simp add: split_crlf_def)
qed

lemma parse_render_patch:
  assumes "doc \<noteq> []" "list_all section_ok doc" "distinct (map fst doc)"
  shows "patch_parse pcwd (render_patch doc) opts = Inr (map doc_section doc)"
proof -
  let ?ls = "concat (map section_lines doc)"
  obtain p n hs doc' where doc: "doc = (p, n, hs) # doc'" using assms(1) by (cases doc) auto
  have okp: "clean_path p" using assms(2) doc by simp
  define h where "h = formatHashlineHeader p (hex4 n)"
  obtain rest where ls: "?ls = h # rest" using doc by (simp add: h_def)
  have clean: "list_all clean_line ?ls"
    using assms(2) hunk_body_lines header_clean by (fastforce simp: list_all_iff)
  have ne: "?ls \<noteq> []" using ls by simp
  have hd: "\<exists>r. render_patch doc = 0xB6 # r"
    unfolding render_patch_def ls by (cases rest) (auto simp: h_def header_shape)
  have bom: "strip_bom (render_patch doc) = render_patch doc"
    using hd by (auto simp: strip_bom_def starts_with_def)
  have crlf: "split_crlf (render_patch doc) = ?ls"
    unfolding render_patch_def by (rule split_crlf_clean [OF ne clean])
  have hp: "parseHashlineHeaderLine pcwd h cwd =
      Inr (Some \<lparr>rs_path = p, rs_fileHash = Some (hex4 n), rs_diff = []\<rparr>)" for cwd
    unfolding h_def by (rule header_parse [OF okp])
  have fb: "normalizeFallbackInput pcwd (render_patch doc) opts = Inr (render_patch doc)"
    by (simp add: normalizeFallbackInput_def bom crlf ls hp)
  have "trim h \<noteq> []" by (auto simp: trim_Nil_iff h_def header_shape is_js_space_def)
  moreover have "tokenize h 0 = TokHeader 0 p (Some (hex4 n))"
    using okp by (simp add: h_def tokenize_def classify_header clean_path_def)
  moreover have "chop_cr h = h" using header_clean [OF okp] clean_chop by (simp add: h_def)
  ultimately have "drop_leading ?ls = ?ls" by (simp add: ls)
  moreover have "split_lines (render_patch doc) = ?ls"
    unfolding render_patch_def using ne clean by (intro split_join) (auto simp: list_all_iff clean_line_def)
  ultimately have st: "stripLeadingBlankLines (render_patch doc) = render_patch doc"
    by (simp add: stripLeadingBlankLines_def bom) (simp add: render_patch_def)
  obtain st' where st': "split_sections_loop pcwd (so_cwd opts)
        \<lparr>ss_sections = [], ss_current = None, ss_lines = []\<rparr> ?ls = Inr st'"
      "ss_sections (flush_section st') = map doc_section doc"
    using sections_loop [OF assms(2), of pcwd "so_cwd opts"
      "\<lparr>ss_sections = [], ss_current = None, ss_lines = []\<rparr>"] by (auto simp: flush_section_def)
  have first: "nth_opt ?ls 0 = Some h" by (simp add: ls)
  have "splitRawSections pcwd (render_patch doc) opts = Inr (map doc_section doc)"
    unfolding splitRawSections_def fb rbind_simps Let_def st crlf first option.case hp st'
    by (simp add: st'(2))
  moreover have "map rs_path (map doc_section doc) = map fst doc" by auto
  ultimately show ?thesis using assms(3) merge_distinct [of "map doc_section doc"]
    by (simp only: patch_parse_def rbind_simps)
qed

text \<open>
  C6: a patch written from section headers and hunks, with relative paths that header clean-up
  leaves alone and no path twice, is split into exactly those sections: path, tag and hunk
  text of each, in order, whatever fallback path or working directory is given.
\<close>

theorem patch_roundtrip:
  assumes "doc \<noteq> []" "list_all section_ok doc" "distinct (map fst doc)"
  shows "patch_parse pcwd (render_patch doc) opts = Inr (map doc_section doc)"
  by (rule parse_render_patch [OF assms])


theorem patch_roundtrip_witness:
  "patch_parse (js ''/w'') (render_patch
       [(js ''src/a.ts'', 6699, [(TReplace (ParsedRange 2 3), [js ''x''])]), (js ''b.md'', 7, [(TEof, [js ''end''])])])
     \<lparr>so_cwd = Some (js ''/w''), so_path = None\<rparr> =
   Inr (map doc_section
       [(js ''src/a.ts'', 6699, [(TReplace (ParsedRange 2 3), [js ''x''])]), (js ''b.md'', 7, [(TEof, [js ''end''])])])"
proof (rule patch_roundtrip)
  have "clean_path (js ''src/a.ts'')" "clean_path (js ''b.md'')" by code_simp+
  then show "list_all section_ok
      [(js ''src/a.ts'', 6699, [(TReplace (ParsedRange 2 3), [js ''x''])]), (js ''b.md'', 7, [(TEof, [js ''end''])])]"
    by (simp add: hunk_ok_def range_ok_def row_ok_def)
qed simp_all

end
