(* ===== verification/Snapshots.thy ===== *)
theory Snapshots
  imports Hl_Format
begin

text \<open>
  The snapshot store (\<open>packages/hashline/src/snapshots.ts\<close>): the interface \<open>SnapshotStore\<close> as a
  locale, the class \<open>InMemorySnapshotStore\<close> over an LRU cache, and the proof that the class
  keeps the interface's promises.  The package \<open>lru-cache\<close> is not part of the repository: its
  operations are the record \<open>lru_ops\<close>, and what the store relies on is \<open>lru_laws\<close>.

  Snapshots are objects that the sources compare by identity; \<open>sn_id\<close> is the identity, given out
  at allocation.  The field \<open>recordedAt\<close> is written and never read anywhere in the repository,
  so it is left out.
\<close>

record snapshot =
  sn_id :: nat
  sn_path :: jstring
  sn_text :: jstring
  sn_hash :: jstring

section \<open>The cache\<close>

record 'c lru_ops =
  lru_get :: "'c \<Rightarrow> jstring \<Rightarrow> snapshot list option \<times> 'c"
  lru_set :: "'c \<Rightarrow> jstring \<Rightarrow> snapshot list \<Rightarrow> 'c"
  lru_delete :: "'c \<Rightarrow> jstring \<Rightarrow> 'c"
  lru_clear :: "'c \<Rightarrow> 'c"
  lru_peek :: "'c \<Rightarrow> jstring \<Rightarrow> snapshot list option"

text \<open>
  Documented behaviour of \<open>lru-cache\<close>: \<open>get\<close> returns the cached value and changes only the recency;
  \<open>set\<close> stores the value and may evict other keys; \<open>delete\<close> and \<open>clear\<close> remove.  \<open>peek\<close> is the
  look-up that leaves the recency alone.
\<close>

definition lru_laws :: "'c lru_ops \<Rightarrow> bool" where
  "lru_laws ops \<longleftrightarrow>
     (\<forall>c k. fst (lru_get ops c k) = lru_peek ops c k \<and>
        lru_peek ops (snd (lru_get ops c k)) = lru_peek ops c) \<and>
     (\<forall>c k v. lru_peek ops (lru_set ops c k v) k = Some v \<and>
        (\<forall>k'. k' \<noteq> k \<longrightarrow> lru_peek ops (lru_set ops c k v) k' \<in> {lru_peek ops c k', None})) \<and>
     (\<forall>c k. lru_peek ops (lru_delete ops c k) = (lru_peek ops c)(k := None)) \<and>
     (\<forall>c. lru_peek ops (lru_clear ops c) = (\<lambda>_. None))"

lemma lru_lawsD:
  assumes "lru_laws ops"
  shows "fst (lru_get ops c k) = lru_peek ops c k"
    "lru_peek ops (snd (lru_get ops c k)) = lru_peek ops c"
    "lru_peek ops (lru_set ops c k v) k = Some v"
    "k' \<noteq> k \<Longrightarrow> lru_peek ops (lru_set ops c k v) k' = lru_peek ops c k' \<or>
      lru_peek ops (lru_set ops c k v) k' = None"
    "lru_peek ops (lru_delete ops c k) = (lru_peek ops c)(k := None)"
    "lru_peek ops (lru_clear ops c) = (\<lambda>_. None)"
  using assms by (auto simp: lru_laws_def)

section \<open>The in-memory store\<close>

definition DEFAULT_MAX_PATHS :: nat where "DEFAULT_MAX_PATHS = 30"
definition DEFAULT_MAX_VERSIONS_PER_PATH :: nat where "DEFAULT_MAX_VERSIONS_PER_PATH = 4"

record 'c mem_store =
  ms_versions :: 'c
  ms_maxVersionsPerPath :: nat
  ms_nextId :: nat

text \<open>The constructor, from the empty cache of the given size.\<close>

definition mem_new :: "(nat \<Rightarrow> 'c) \<Rightarrow> nat option \<Rightarrow> nat option \<Rightarrow> 'c mem_store" where
  "mem_new new_cache maxPaths maxVersionsPerPath =
     \<lparr>ms_versions = new_cache (case maxPaths of Some n \<Rightarrow> n | None \<Rightarrow> DEFAULT_MAX_PATHS),
      ms_maxVersionsPerPath = (case maxVersionsPerPath of Some n \<Rightarrow> n
        | None \<Rightarrow> DEFAULT_MAX_VERSIONS_PER_PATH),
      ms_nextId = 0\<rparr>"

definition mem_head ::
  "'c lru_ops \<Rightarrow> 'c mem_store \<Rightarrow> jstring \<Rightarrow> snapshot option \<times> 'c mem_store" where
  "mem_head ops st path =
     (case lru_get ops (ms_versions st) path of (history, c) \<Rightarrow>
        (case history of Some h \<Rightarrow> nth_opt h 0 | None \<Rightarrow> None, st\<lparr>ms_versions := c\<rparr>))"

definition mem_byHash ::
  "'c lru_ops \<Rightarrow> 'c mem_store \<Rightarrow> jstring \<Rightarrow> jstring \<Rightarrow> snapshot option \<times> 'c mem_store" where
  "mem_byHash ops st path hash =
     (case lru_get ops (ms_versions st) path of (history, c) \<Rightarrow>
        (case history of Some h \<Rightarrow> find (\<lambda>v. sn_hash v = hash) h | None \<Rightarrow> None,
         st\<lparr>ms_versions := c\<rparr>))"

definition mem_record ::
  "'c lru_ops \<Rightarrow> (jstring \<Rightarrow> nat) \<Rightarrow> 'c mem_store \<Rightarrow> jstring \<Rightarrow> jstring \<Rightarrow> jstring \<times> 'c mem_store" where
  "mem_record ops xxh st path fullText =
     (let hash = computeFileHash xxh fullText
      in case lru_get ops (ms_versions st) path of (got, c) \<Rightarrow>
           (let history = (case got of Some h \<Rightarrow> h | None \<Rightarrow> []); st1 = st\<lparr>ms_versions := c\<rparr>
            in case find (\<lambda>v. sn_hash v = hash) history of
                 Some existing \<Rightarrow>
                   (hash,
                    if map_option sn_id (nth_opt history 0) \<noteq> Some (sn_id existing)
                    then st1\<lparr>ms_versions := lru_set ops c path
                      (existing # filter (\<lambda>v. sn_id v \<noteq> sn_id existing) history)\<rparr>
                    else st1)
               | None \<Rightarrow>
                   (let snap = \<lparr>sn_id = ms_nextId st, sn_path = path, sn_text = fullText,
                          sn_hash = hash\<rparr>
                    in (hash, st1\<lparr>ms_versions := lru_set ops c path
                          (take (ms_maxVersionsPerPath st) (snap # history)),
                        ms_nextId := Suc (ms_nextId st)\<rparr>))))"

definition mem_invalidate :: "'c lru_ops \<Rightarrow> 'c mem_store \<Rightarrow> jstring \<Rightarrow> 'c mem_store" where
  "mem_invalidate ops st path = st\<lparr>ms_versions := lru_delete ops (ms_versions st) path\<rparr>"

definition mem_clear :: "'c lru_ops \<Rightarrow> 'c mem_store \<Rightarrow> 'c mem_store" where
  "mem_clear ops st = st\<lparr>ms_versions := lru_clear ops (ms_versions st)\<rparr>"

section \<open>The invariant of the store\<close>

definition history_ok :: "(jstring \<Rightarrow> nat) \<Rightarrow> nat \<Rightarrow> nat \<Rightarrow> jstring \<Rightarrow> snapshot list \<Rightarrow> bool" where
  "history_ok xxh maxV nxt path h =
     (h \<noteq> [] \<and> length h \<le> maxV \<and> distinct (map sn_hash h) \<and> distinct (map sn_id h) \<and>
      list_all (\<lambda>v. sn_path v = path \<and> sn_hash v = computeFileHash xxh (sn_text v) \<and>
        sn_id v < nxt) h)"

definition mem_ok :: "'c lru_ops \<Rightarrow> (jstring \<Rightarrow> nat) \<Rightarrow> 'c mem_store \<Rightarrow> bool" where
  "mem_ok ops xxh st =
     (1 \<le> ms_maxVersionsPerPath st \<and>
      (\<forall>p h. lru_peek ops (ms_versions st) p = Some h \<longrightarrow>
         history_ok xxh (ms_maxVersionsPerPath st) (ms_nextId st) p h))"

text \<open>The versions of a path, newest first.\<close>

definition mem_history :: "'c lru_ops \<Rightarrow> 'c mem_store \<Rightarrow> jstring \<Rightarrow> snapshot list" where
  "mem_history ops st path = (case lru_peek ops (ms_versions st) path of Some h \<Rightarrow> h | None \<Rightarrow> [])"

lemma mem_history_ok:
  "mem_ok ops xxh st \<Longrightarrow> mem_history ops st p \<noteq> [] \<Longrightarrow>
   history_ok xxh (ms_maxVersionsPerPath st) (ms_nextId st) p (mem_history ops st p)"
  by (auto simp: mem_ok_def mem_history_def split: option.splits)

lemma history_ok_Suc: "history_ok xxh m n p h \<Longrightarrow> history_ok xxh m (Suc n) p h"
  by (auto simp: history_ok_def list_all_iff less_SucI)

lemma history_ok_cons:
  assumes "h = [] \<or> history_ok xxh m n p h" "1 \<le> m" "computeFileHash xxh t \<notin> set (map sn_hash h)"
  shows "history_ok xxh m (Suc n) p (take m
    (\<lparr>sn_id = n, sn_path = p, sn_text = t, sn_hash = computeFileHash xxh t\<rparr> # h))"
proof -
  obtain k where k: "m = Suc k" using assms(2) by (cases m) auto
  have "distinct (map sn_hash (take k h))" "distinct (map sn_id (take k h))"
    using assms(1) by (auto simp: history_ok_def take_map [symmetric])
  moreover have "\<forall>v\<in>set (take k h). v \<in> set h" by (meson in_set_takeD)
  ultimately show ?thesis
    using assms by (auto simp: history_ok_def k list_all_iff less_SucI)
qed

lemma find_by_hash:
  "find (\<lambda>v. sn_hash v = x) h = Some v \<Longrightarrow> v \<in> set h \<and> sn_hash v = x"
  by (auto simp: find_Some_iff)

lemma find_by_hash_None: "find (\<lambda>v. sn_hash v = x) h = None \<longleftrightarrow> x \<notin> set (map sn_hash h)"
  by (auto simp: find_None_iff)

lemma history_ok_promote:
  assumes "history_ok xxh m n p h" "v \<in> set h"
  shows "history_ok xxh m n p (v # filter (\<lambda>w. sn_id w \<noteq> sn_id v) h)"
proof -
  let ?r = "filter (\<lambda>w. sn_id w \<noteq> sn_id v) h"
  have d: "distinct (map sn_hash h)" "distinct (map sn_id h)" using assms by (auto simp: history_ok_def)
  have "length ?r < length h" using assms(2) by (intro length_filter_less) auto
  moreover have "sn_hash v \<notin> set (map sn_hash ?r)"
  proof
    assume "sn_hash v \<in> set (map sn_hash ?r)"
    then obtain w where w: "w \<in> set h" "sn_id w \<noteq> sn_id v" "sn_hash w = sn_hash v" by auto
    then have "w = v" using d(1) assms(2) by (auto simp: distinct_map inj_on_def)
    with w show False by simp
  qed
  ultimately show ?thesis
    using assms d by (auto simp: history_ok_def list_all_iff distinct_map_filter)
qed


section \<open>The contract of a snapshot store\<close>

text \<open>
  What the patcher and recovery rely on.  The abstraction \<open>hist\<close> is the list of versions of a
  path, newest first; \<open>tag\<close> is the content tag.
\<close>

locale snapshot_store =
  fixes hist :: "'s \<Rightarrow> jstring \<Rightarrow> snapshot list"
    and inv :: "'s \<Rightarrow> bool"
    and tag :: "jstring \<Rightarrow> jstring"
    and head :: "'s \<Rightarrow> jstring \<Rightarrow> snapshot option \<times> 's"
    and byHash :: "'s \<Rightarrow> jstring \<Rightarrow> jstring \<Rightarrow> snapshot option \<times> 's"
    and record_text :: "'s \<Rightarrow> jstring \<Rightarrow> jstring \<Rightarrow> jstring \<times> 's"
    and invalidate :: "'s \<Rightarrow> jstring \<Rightarrow> 's"
    and clear :: "'s \<Rightarrow> 's"
  assumes head_law: "inv s \<Longrightarrow> fst (head s p) = nth_opt (hist s p) 0 \<and>
      hist (snd (head s p)) = hist s \<and> inv (snd (head s p))"
    and byHash_law: "inv s \<Longrightarrow> fst (byHash s p h) = find (\<lambda>v. sn_hash v = h) (hist s p) \<and>
      hist (snd (byHash s p h)) = hist s \<and> inv (snd (byHash s p h))"
    and record_law: "inv s \<Longrightarrow> fst (record_text s p t) = tag t \<and> inv (snd (record_text s p t)) \<and>
      (\<exists>v vs. hist (snd (record_text s p t)) p = v # vs \<and> sn_hash v = tag t \<and>
         (tag t \<notin> sn_hash ` set (hist s p) \<longrightarrow> sn_text v = t) \<and>
         (tag t \<in> sn_hash ` set (hist s p) \<longrightarrow> v \<in> set (hist s p)) \<and>
         set vs \<subseteq> set (hist s p))"
    and record_other_law: "inv s \<Longrightarrow> p' \<noteq> p \<Longrightarrow>
      hist (snd (record_text s p t)) p' = hist s p' \<or> hist (snd (record_text s p t)) p' = []"
    and invalidate_law: "inv s \<Longrightarrow> hist (invalidate s p) = (hist s)(p := []) \<and> inv (invalidate s p)"
    and clear_law: "inv s \<Longrightarrow> hist (clear s) = (\<lambda>_. []) \<and> inv (clear s)"
    and versions_law: "inv s \<Longrightarrow> v \<in> set (hist s p) \<Longrightarrow> sn_path v = p \<and> sn_hash v = tag (sn_text v)"
    and distinct_law: "inv s \<Longrightarrow> distinct (map sn_hash (hist s p))"
begin

lemma record_then_byHash:
  assumes "inv s" "record_text s p t = (h, s')"
  obtains v where "fst (byHash s' p h) = Some v" "sn_hash v = tag t"
    "fst (head s' p) = Some v" "tag (sn_text v) = tag t"
proof -
  obtain v vs where v: "hist s' p = v # vs" "sn_hash v = tag t" and h: "h = tag t" "inv s'"
    using record_law [OF assms(1), of p t] assms(2) by auto
  have "tag (sn_text v) = tag t" using versions_law [OF h(2), of v p] v by simp
  then show thesis
    using that [of v] v h head_law [OF h(2), of p] byHash_law [OF h(2), of p h] by simp
qed

lemma record_fresh_then_byHash:
  assumes "inv s" "record_text s p t = (h, s')" "fst (byHash s p (tag t)) = None"
  shows "\<exists>v. fst (byHash s' p h) = Some v \<and> sn_text v = t"
proof -
  have "tag t \<notin> sn_hash ` set (hist s p)"
    using byHash_law [OF assms(1), of p "tag t"] assms(3) find_by_hash_None [of "tag t" "hist s p"]
    by (metis list.set_map)
  then obtain v vs where v: "hist s' p = v # vs" "sn_hash v = tag t" "sn_text v = t"
    and h: "h = tag t" "inv s'"
    using record_law [OF assms(1), of p t] assms(2) by auto
  then show ?thesis using byHash_law [OF h(2), of p h] by simp
qed

lemma byHash_text:
  "inv s \<Longrightarrow> fst (byHash s p h) = Some v \<Longrightarrow> tag (sn_text v) = h \<and> sn_path v = p \<and> sn_hash v = h"
  using byHash_law [of s p h] versions_law [of s v p] by (auto dest: find_by_hash)

lemma head_is_unique_version:
  assumes "inv s" "fst (head s p) = Some v" "fst (byHash s p h) = Some w"
  shows "v = w \<longleftrightarrow> sn_hash v = h"
proof -
  obtain vs where "hist s p = v # vs"
    using head_law [OF assms(1), of p] assms(2) by (cases "hist s p") (auto simp: nth_opt_def)
  then show ?thesis
    using byHash_law [OF assms(1), of p h] byHash_text [OF assms(1,3)] assms(3) by auto
qed

lemma record_versions:
  assumes "inv s" "w \<in> set (hist (snd (record_text s p t)) q)"
  shows "w \<in> set (hist s q) \<or> q = p \<and> sn_text w = t"
proof (cases "q = p")
  case True
  then show ?thesis using record_law [OF assms(1), of p t] assms(2) by auto
next
  case False
  then show ?thesis using record_other_law [OF assms(1) False, of t] assms(2) by auto
qed

end

section \<open>The in-memory store keeps the contract\<close>

lemma mem_set:
  assumes laws: "lru_laws ops" and ok: "mem_ok ops xxh st"
    and c: "lru_peek ops c = lru_peek ops (ms_versions st)"
    and new: "history_ok xxh (ms_maxVersionsPerPath st) n p new" and n: "ms_nextId st \<le> n"
  shows "mem_ok ops xxh (st\<lparr>ms_versions := lru_set ops c p new, ms_nextId := n\<rparr>) \<and>
    mem_history ops (st\<lparr>ms_versions := lru_set ops c p new, ms_nextId := n\<rparr>) p = new \<and>
    (\<forall>q. q \<noteq> p \<longrightarrow>
      mem_history ops (st\<lparr>ms_versions := lru_set ops c p new, ms_nextId := n\<rparr>) q \<in>
        {mem_history ops st q, []})"
proof -
  let ?st = "st\<lparr>ms_versions := lru_set ops c p new, ms_nextId := n\<rparr>"
  have at: "lru_peek ops (lru_set ops c p new) p = Some new" by (rule lru_lawsD(3) [OF laws])
  have other: "lru_peek ops (lru_set ops c p new) q = lru_peek ops (ms_versions st) q \<or>
      lru_peek ops (lru_set ops c p new) q = None" if "q \<noteq> p" for q
    using lru_lawsD(4) [OF laws that, of c new] c by simp
  have up: "history_ok xxh m k q h \<Longrightarrow> k \<le> n \<Longrightarrow> history_ok xxh m n q h" for m k q h
    by (auto simp: history_ok_def list_all_iff)
  have "history_ok xxh (ms_maxVersionsPerPath st) n q h"
    if "lru_peek ops (lru_set ops c p new) q = Some h" for q h
  proof (cases "q = p")
    case False
    then have "lru_peek ops (ms_versions st) q = Some h" using other [OF False] that by auto
    then show ?thesis using ok n up unfolding mem_ok_def by blast
  qed (use that at new in simp)
  then have "mem_ok ops xxh ?st" using ok by (simp add: mem_ok_def)
  moreover have "mem_history ops ?st p = new" by (simp add: mem_history_def at)
  moreover have "mem_history ops ?st q \<in> {mem_history ops st q, []}" if "q \<noteq> p" for q
    using other [OF that] by (auto simp: mem_history_def)
  ultimately show ?thesis by blast
qed

lemma mem_record_cases:
  assumes "lru_laws ops" "mem_ok ops xxh st"
  shows "fst (mem_record ops xxh st p t) = computeFileHash xxh t \<and>
    mem_ok ops xxh (snd (mem_record ops xxh st p t)) \<and>
    (\<exists>v vs. mem_history ops (snd (mem_record ops xxh st p t)) p = v # vs \<and>
      sn_hash v = computeFileHash xxh t \<and>
      (computeFileHash xxh t \<notin> sn_hash ` set (mem_history ops st p) \<longrightarrow> sn_text v = t) \<and>
      (computeFileHash xxh t \<in> sn_hash ` set (mem_history ops st p) \<longrightarrow> v \<in> set (mem_history ops st p)) \<and>
      set vs \<subseteq> set (mem_history ops st p)) \<and>
    (\<forall>p'. p' \<noteq> p \<longrightarrow> mem_history ops (snd (mem_record ops xxh st p t)) p' \<in>
      {mem_history ops st p', []})"
proof -
  let ?x = "computeFileHash xxh t"
  obtain got c where g: "lru_get ops (ms_versions st) p = (got, c)"
    by (cases "lru_get ops (ms_versions st) p")
  have got: "got = lru_peek ops (ms_versions st) p" "lru_peek ops c = lru_peek ops (ms_versions st)"
    using lru_lawsD(1,2) [OF assms(1), where c = "ms_versions st" and k = p] g by simp_all
  let ?h = "mem_history ops st p"
  have h: "(case got of Some h \<Rightarrow> h | None \<Rightarrow> []) = ?h" using got by (simp add: mem_history_def)
  have hok: "?h = [] \<or> history_ok xxh (ms_maxVersionsPerPath st) (ms_nextId st) p ?h"
    using mem_history_ok [OF assms(2)] by blast
  have max1: "1 \<le> ms_maxVersionsPerPath st" using assms(2) by (simp add: mem_ok_def)
  show ?thesis
  proof (cases "find (\<lambda>v. sn_hash v = ?x) ?h")
    case (Some v)
    then have v: "v \<in> set ?h" "sn_hash v = ?x" using find_by_hash by blast+
    then have hok': "history_ok xxh (ms_maxVersionsPerPath st) (ms_nextId st) p ?h" using hok by auto
    let ?new = "v # filter (\<lambda>w. sn_id w \<noteq> sn_id v) ?h"
    show ?thesis
    proof (cases "map_option sn_id (nth_opt ?h 0) \<noteq> Some (sn_id v)")
      case True
      then have r: "mem_record ops xxh st p t =
          (?x, st\<lparr>ms_versions := lru_set ops c p ?new, ms_nextId := ms_nextId st\<rparr>)"
        using g h Some by (simp add: mem_record_def Let_def)
      show ?thesis
        using mem_set [OF assms got(2) history_ok_promote [OF hok' v(1)] order_refl] v
        unfolding r by (auto simp: image_iff)
    next
      case False
      then have r: "mem_record ops xxh st p t = (?x, st\<lparr>ms_versions := c\<rparr>)"
        using g h Some by (simp add: mem_record_def Let_def)
      obtain w ws where w: "?h = w # ws" using v(1) by (cases ?h) auto
      then have "sn_id w = sn_id v" using False by simp
      moreover have "distinct (map sn_id ?h)" using hok' by (simp add: history_ok_def)
      ultimately have "w = v" using v(1) w by (auto simp: distinct_map inj_on_def)
      moreover have "mem_history ops (st\<lparr>ms_versions := c\<rparr>) = mem_history ops st"
        "mem_ok ops xxh (st\<lparr>ms_versions := c\<rparr>)"
        using assms(2) got(2) by (simp_all add: mem_history_def mem_ok_def fun_eq_iff)
      ultimately show ?thesis using w v unfolding r by auto
    qed
  next
    case None
    let ?snap = "\<lparr>sn_id = ms_nextId st, sn_path = p, sn_text = t, sn_hash = ?x\<rparr>"
    let ?new = "take (ms_maxVersionsPerPath st) (?snap # ?h)"
    have fresh: "?x \<notin> set (map sn_hash ?h)" using None find_by_hash_None by blast
    have r: "mem_record ops xxh st p t =
        (?x, st\<lparr>ms_versions := lru_set ops c p ?new, ms_nextId := Suc (ms_nextId st)\<rparr>)"
      using g h None by (simp add: mem_record_def Let_def)
    have new: "?new = ?snap # take (ms_maxVersionsPerPath st - 1) ?h"
      using max1 by (cases "ms_maxVersionsPerPath st") auto
    have "mem_ok ops xxh (snd (mem_record ops xxh st p t)) \<and>
        mem_history ops (snd (mem_record ops xxh st p t)) p = ?new \<and>
        (\<forall>q. q \<noteq> p \<longrightarrow> mem_history ops (snd (mem_record ops xxh st p t)) q \<in> {mem_history ops st q, []})"
      unfolding r snd_conv
      by (rule mem_set [OF assms got(2) history_ok_cons [OF hok max1 fresh]]) simp
    moreover have "fst (mem_record ops xxh st p t) = ?x" unfolding r by simp
    ultimately show ?thesis using fresh new by (auto dest: in_set_takeD)
  qed
qed

theorem mem_store_contract:
  assumes "lru_laws ops"
  shows "snapshot_store (mem_history ops) (mem_ok ops xxh) (computeFileHash xxh) (mem_head ops)
    (mem_byHash ops) (mem_record ops xxh) (mem_invalidate ops) (mem_clear ops)"
proof
  note laws = lru_lawsD [OF assms]
  have keep: "mem_history ops (s\<lparr>ms_versions := snd (lru_get ops (ms_versions s) p)\<rparr>) = mem_history ops s"
    "mem_ok ops xxh (s\<lparr>ms_versions := snd (lru_get ops (ms_versions s) p)\<rparr>) = mem_ok ops xxh s" for s p
    using laws(2) [where c = "ms_versions s" and k = p] by (simp_all add: mem_history_def mem_ok_def fun_eq_iff)
  fix s p h t q v
  assume ok: "mem_ok ops xxh s"
  have g: "lru_get ops (ms_versions s) p = (lru_peek ops (ms_versions s) p, snd (lru_get ops (ms_versions s) p))"
    using laws(1) [where c = "ms_versions s" and k = p] by (metis prod.collapse)
  show "fst (mem_head ops s p) = nth_opt (mem_history ops s p) 0 \<and>
      mem_history ops (snd (mem_head ops s p)) = mem_history ops s \<and> mem_ok ops xxh (snd (mem_head ops s p))"
    using ok keep [of s p] by (subst (1 2 3) mem_head_def, subst (1 2 3) g)
      (auto simp: mem_history_def nth_opt_def split: option.splits)
  show "fst (mem_byHash ops s p h) = find (\<lambda>v. sn_hash v = h) (mem_history ops s p) \<and>
      mem_history ops (snd (mem_byHash ops s p h)) = mem_history ops s \<and>
      mem_ok ops xxh (snd (mem_byHash ops s p h))"
    using ok keep [of s p] by (subst (1 2 3) mem_byHash_def, subst (1 2 3) g)
      (auto simp: mem_history_def split: option.splits)
  show "q \<noteq> p \<Longrightarrow> mem_history ops (snd (mem_record ops xxh s p t)) q = mem_history ops s q \<or>
      mem_history ops (snd (mem_record ops xxh s p t)) q = []"
    using mem_record_cases [OF assms ok, of p t] by auto
  show "mem_history ops (mem_invalidate ops s p) = (mem_history ops s)(p := []) \<and>
      mem_ok ops xxh (mem_invalidate ops s p)"
    using ok laws(5) [where c = "ms_versions s" and k = p]
    by (auto simp: mem_invalidate_def mem_history_def mem_ok_def fun_eq_iff)
  show "mem_history ops (mem_clear ops s) = (\<lambda>_. []) \<and> mem_ok ops xxh (mem_clear ops s)"
    using ok laws(6) [where c = "ms_versions s"]
    by (auto simp: mem_clear_def mem_history_def mem_ok_def fun_eq_iff)
  have hk: "mem_history ops s p \<noteq> [] \<Longrightarrow>
      history_ok xxh (ms_maxVersionsPerPath s) (ms_nextId s) p (mem_history ops s p)"
    by (rule mem_history_ok [OF ok])
  show "v \<in> set (mem_history ops s p) \<Longrightarrow> sn_path v = p \<and> sn_hash v = computeFileHash xxh (sn_text v)"
    using hk by (cases "mem_history ops s p = []") (auto simp: history_ok_def list_all_iff)
  show "distinct (map sn_hash (mem_history ops s p))"
    using hk by (cases "mem_history ops s p = []") (auto simp: history_ok_def)
  have "\<exists>v vs. mem_history ops (snd (mem_record ops xxh s p t)) p = v # vs \<and>
      sn_hash v = computeFileHash xxh t \<and>
      (computeFileHash xxh t \<notin> sn_hash ` set (mem_history ops s p) \<longrightarrow> sn_text v = t) \<and>
      (computeFileHash xxh t \<in> sn_hash ` set (mem_history ops s p) \<longrightarrow> v \<in> set (mem_history ops s p)) \<and>
      set vs \<subseteq> set (mem_history ops s p)"
    "fst (mem_record ops xxh s p t) = computeFileHash xxh t"
    "mem_ok ops xxh (snd (mem_record ops xxh s p t))"
    using mem_record_cases [OF assms ok, of p t] by simp_all
  then show "fst (mem_record ops xxh s p t) = computeFileHash xxh t \<and>
      mem_ok ops xxh (snd (mem_record ops xxh s p t)) \<and>
      (\<exists>v vs. mem_history ops (snd (mem_record ops xxh s p t)) p = v # vs \<and>
      sn_hash v = computeFileHash xxh t \<and>
      (computeFileHash xxh t \<notin> sn_hash ` set (mem_history ops s p) \<longrightarrow> sn_text v = t) \<and>
      (computeFileHash xxh t \<in> sn_hash ` set (mem_history ops s p) \<longrightarrow> v \<in> set (mem_history ops s p)) \<and>
      set vs \<subseteq> set (mem_history ops s p))" by blast
qed


section \<open>An instance of the cache\<close>

text \<open>
  A recency list of bounded length, newest first: it satisfies the laws, so they are not
  vacuous, and the store can be run on it.
\<close>

type_synonym lru_list = "nat \<times> (jstring \<times> snapshot list) list"

definition drop_key :: "jstring \<Rightarrow> (jstring \<times> snapshot list) list \<Rightarrow> (jstring \<times> snapshot list) list" where
  "drop_key k m = filter (\<lambda>e. fst e \<noteq> k) m"

definition lru_list_ops :: "lru_list lru_ops" where
  "lru_list_ops =
     \<lparr>lru_get = \<lambda>(mx, m) k. (case map_of m k of
          None \<Rightarrow> (None, (mx, m)) | Some v \<Rightarrow> (Some v, (mx, (k, v) # drop_key k m))),
      lru_set = \<lambda>(mx, m) k v. (mx, (k, v) # take (mx - 1) (drop_key k m)),
      lru_delete = \<lambda>(mx, m) k. (mx, drop_key k m),
      lru_clear = \<lambda>(mx, m). (mx, []),
      lru_peek = \<lambda>(mx, m) k. map_of m k\<rparr>"

lemma map_of_drop_key: "map_of (drop_key k m) k' = (if k' = k then None else map_of m k')"
  by (induction m) (auto simp: drop_key_def)

lemma map_of_take: "map_of (take n m) k \<in> {map_of m k, None}"
  by (induction m arbitrary: n) (auto simp: take_Cons' split: if_splits)

lemma lru_list_laws: "lru_laws lru_list_ops"
  unfolding lru_laws_def
proof (intro conjI allI impI)
  fix c :: lru_list and k k' :: jstring and v
  obtain mx m where c: "c = (mx, m)" by (cases c)
  show "fst (lru_get lru_list_ops c k) = lru_peek lru_list_ops c k"
    "lru_peek lru_list_ops (snd (lru_get lru_list_ops c k)) = lru_peek lru_list_ops c"
    "lru_peek lru_list_ops (lru_set lru_list_ops c k v) k = Some v"
    "lru_peek lru_list_ops (lru_delete lru_list_ops c k) = (lru_peek lru_list_ops c)(k := None)"
    "lru_peek lru_list_ops (lru_clear lru_list_ops c) = (\<lambda>_. None)"
    by (auto simp: c lru_list_ops_def map_of_drop_key fun_eq_iff split: option.splits)
  show "k' \<noteq> k \<Longrightarrow> lru_peek lru_list_ops (lru_set lru_list_ops c k v) k' \<in> {lru_peek lru_list_ops c k', None}"
    using map_of_take [of "mx - 1" "drop_key k m" k']
    by (auto simp: c lru_list_ops_def map_of_drop_key)
qed

interpretation mem: snapshot_store "mem_history lru_list_ops" "mem_ok lru_list_ops xxh"
  "computeFileHash xxh" "mem_head lru_list_ops" "mem_byHash lru_list_ops"
  "mem_record lru_list_ops xxh" "mem_invalidate lru_list_ops" "mem_clear lru_list_ops"
  for xxh :: "jstring \<Rightarrow> nat"
  by (rule mem_store_contract [OF lru_list_laws])

lemma mem_new_ok:
  "(\<And>p. lru_peek ops (new_cache n) p = None) \<Longrightarrow> mv \<noteq> Some 0 \<Longrightarrow>
   mem_ok ops xxh (mem_new new_cache (Some n) mv)"
  by (auto simp: mem_ok_def mem_new_def DEFAULT_MAX_VERSIONS_PER_PATH_def split: option.splits)

section \<open>Properties\<close>

text \<open>
  C38: every operation of the store keeps its invariant: each path has at most the configured
  number of versions, with pairwise different tags, and each version carries the tag of its
  own text and its path.
\<close>

theorem store_invariant:
  assumes "lru_laws ops" "mem_ok ops xxh st"
  shows "mem_ok ops xxh (snd (mem_head ops st p)) \<and> mem_ok ops xxh (snd (mem_byHash ops st p h)) \<and>
    mem_ok ops xxh (snd (mem_record ops xxh st p t)) \<and> mem_ok ops xxh (mem_invalidate ops st p) \<and>
    mem_ok ops xxh (mem_clear ops st)"
proof -
  note store = mem_store_contract [OF assms(1), of xxh]
  show ?thesis
    using snapshot_store.head_law [OF store assms(2), of p]
      snapshot_store.byHash_law [OF store assms(2), of p h]
      snapshot_store.record_law [OF store assms(2), of p t]
      snapshot_store.invalidate_law [OF store assms(2), of p]
      snapshot_store.clear_law [OF store assms(2)] by blast
qed

abbreviation (input) empty_store :: "lru_list mem_store" where
  "empty_store \<equiv> mem_new (\<lambda>n. (n, [])) (Some 30) None"

lemma empty_store_ok: "mem_ok lru_list_ops xxh empty_store"
  by (rule mem_new_ok) (simp_all add: lru_list_ops_def)

theorem store_invariant_witness:
  "mem_ok lru_list_ops length (snd (mem_head lru_list_ops empty_store (js ''f''))) \<and>
   mem_ok lru_list_ops length (snd (mem_byHash lru_list_ops empty_store (js ''f'') (js ''0001''))) \<and>
   mem_ok lru_list_ops length (snd (mem_record lru_list_ops length empty_store (js ''f'') (js ''x''))) \<and>
   mem_ok lru_list_ops length (mem_invalidate lru_list_ops empty_store (js ''f'')) \<and>
   mem_ok lru_list_ops length (mem_clear lru_list_ops empty_store)"
  by (rule store_invariant [OF lru_list_laws empty_store_ok])

text \<open>
  Recording a text returns its content tag, and a look-up of that tag afterwards finds the
  newest version of the path, whose text has that tag; it is the recorded text itself when no
  version of the path had the tag before.  The versions of other paths stay or are evicted.
\<close>

theorem record_then_lookup:
  assumes "lru_laws ops" "mem_ok ops xxh st" "mem_record ops xxh st p t = (h, st')"
  shows "h = computeFileHash xxh t \<and>
    (\<exists>v. fst (mem_byHash ops st' p h) = Some v \<and> fst (mem_head ops st' p) = Some v \<and>
       computeFileHash xxh (sn_text v) = h \<and>
       (fst (mem_byHash ops st p h) = None \<longrightarrow> sn_text v = t)) \<and>
    (\<forall>q. q \<noteq> p \<longrightarrow> mem_history ops st' q \<in> {mem_history ops st q, []})"
proof -
  note store = mem_store_contract [OF assms(1), of xxh]
  have h: "h = computeFileHash xxh t" "mem_ok ops xxh st'"
    using snapshot_store.record_law [OF store assms(2), of p t] assms(3) by simp_all
  obtain v where v: "fst (mem_byHash ops st' p h) = Some v" "fst (mem_head ops st' p) = Some v"
      "computeFileHash xxh (sn_text v) = h"
    using snapshot_store.record_then_byHash [OF store assms(2,3)] h(1) by metis
  have "fst (mem_byHash ops st p h) = None \<longrightarrow> sn_text v = t"
    using snapshot_store.record_fresh_then_byHash [OF store assms(2,3)] v(1) h(1) by auto
  moreover have "\<forall>q. q \<noteq> p \<longrightarrow> mem_history ops st' q \<in> {mem_history ops st q, []}"
  proof (intro allI impI)
    fix q :: jstring
    assume "q \<noteq> p"
    then show "mem_history ops st' q \<in> {mem_history ops st q, []}"
      using snapshot_store.record_other_law [OF store assms(2), of q p t] assms(3) by simp
  qed
  ultimately show ?thesis
    by (intro conjI exI [of _ v] h(1) v)
qed

theorem record_then_lookup_witness:
  "let (h, st') = mem_record lru_list_ops length empty_store (js ''f'') (js ''x'') in
    h = computeFileHash length (js ''x'') \<and>
    (\<exists>v. fst (mem_byHash lru_list_ops st' (js ''f'') h) = Some v \<and>
       fst (mem_head lru_list_ops st' (js ''f'')) = Some v \<and>
       computeFileHash length (sn_text v) = h \<and>
       (fst (mem_byHash lru_list_ops empty_store (js ''f'') h) = None \<longrightarrow> sn_text v = js ''x'')) \<and>
    (\<forall>q. q \<noteq> js ''f'' \<longrightarrow> mem_history lru_list_ops st' q \<in> {mem_history lru_list_ops empty_store q, []})"
  unfolding case_prod_beta Let_def
  by (rule record_then_lookup [OF lru_list_laws empty_store_ok prod.collapse [symmetric]])

text \<open>
  The store does not always keep what was observed last: a text that has the tag of a
  version already recorded (it differs in blanks at line ends, or collides) gives back the old
  tag, and a look-up by that tag still answers with the old text.
\<close>

theorem record_keeps_first_text:
  assumes "lru_laws ops" "mem_ok ops xxh st" "fst (mem_byHash ops st p (computeFileHash xxh t1)) = None"
    and "computeFileHash xxh t2 = computeFileHash xxh t1"
  shows "let st1 = snd (mem_record ops xxh st p t1); (h, st2) = mem_record ops xxh st1 p t2 in
    h = computeFileHash xxh t1 \<and> map_option sn_text (fst (mem_byHash ops st2 p h)) = Some t1"
proof -
  note store = mem_store_contract [OF assms(1), of xxh]
  let ?x = "computeFileHash xxh t1"
  obtain h1 st1 where r1: "mem_record ops xxh st p t1 = (h1, st1)" by fastforce
  have h1: "h1 = ?x" and ok1: "mem_ok ops xxh st1"
    using snapshot_store.record_law [OF store assms(2), of p t1] r1 by simp_all
  obtain v where v: "fst (mem_byHash ops st1 p ?x) = Some v" "sn_text v = t1"
    using snapshot_store.record_fresh_then_byHash [OF store assms(2) r1 assms(3)] h1 by blast
  obtain h2 st2 where r2: "mem_record ops xxh st1 p t2 = (h2, st2)" by fastforce
  have h2: "h2 = ?x" and ok2: "mem_ok ops xxh st2"
    using snapshot_store.record_law [OF store ok1, of p t2] r2 assms(4) by simp_all
  have "v \<in> set (mem_history ops st1 p)" "sn_hash v = ?x"
    using snapshot_store.byHash_law [OF store ok1, of p ?x] v(1) find_by_hash [of ?x _ v] by auto
  then have mem: "?x \<in> sn_hash ` set (mem_history ops st1 p)" by force
  obtain w ws where w: "mem_history ops st2 p = w # ws" "sn_hash w = ?x" "w \<in> set (mem_history ops st1 p)"
    using snapshot_store.record_law [OF store ok1, of p t2] r2 assms(4) mem by auto
  have "w = v"
    using snapshot_store.distinct_law [OF store ok1, of p] w(2,3) \<open>v \<in> set _\<close> \<open>sn_hash v = ?x\<close>
    by (auto simp: distinct_map inj_on_def)
  then have "fst (mem_byHash ops st2 p ?x) = Some v"
    using snapshot_store.byHash_law [OF store ok2, of p ?x] w by simp
  then show ?thesis using r1 r2 h2 v(2) by simp
qed

theorem record_keeps_first_text_witness:
  "let st1 = snd (mem_record lru_list_ops length empty_store (js ''f'') (js ''x''));
       (h, st2) = mem_record lru_list_ops length st1 (js ''f'') (js ''x '') in
    h = computeFileHash length (js ''x'') \<and>
    map_option sn_text (fst (mem_byHash lru_list_ops st2 (js ''f'') h)) = Some (js ''x'')"
proof (rule record_keeps_first_text [OF lru_list_laws empty_store_ok])
  show "fst (mem_byHash lru_list_ops empty_store (js ''f'') (computeFileHash length (js ''x''))) = None"
    by (simp add: mem_byHash_def lru_list_ops_def mem_new_def)
  show "computeFileHash length (js ''x '') = computeFileHash length (js ''x'')"
    by (simp add: computeFileHash_def is_hash_blank_def Let_def)
qed

end
