(* ===== verification/Recovery.thy ===== *)
theory Recovery
  imports Apply Snapshots
begin

text \<open>
  Recovery from a stale tag (\<open>packages/hashline/src/recovery.ts\<close>).  The three-way merge is the
  package \<open>diff\<close>, which is not part of the repository: \<open>structuredPatch\<close> (with three lines of
  context) and \<open>applyPatch\<close> are the fields of \<open>diff_ops\<close>, and \<open>applyPatch\<close> answers \<open>None\<close> for
  \<open>false\<close>.  The store is any \<open>SnapshotStore\<close>, as the record of its operations.
\<close>

record 's store_ops =
  so_head :: "'s \<Rightarrow> jstring \<Rightarrow> snapshot option \<times> 's"
  so_byHash :: "'s \<Rightarrow> jstring \<Rightarrow> jstring \<Rightarrow> snapshot option \<times> 's"
  so_record :: "'s \<Rightarrow> jstring \<Rightarrow> jstring \<Rightarrow> jstring \<times> 's"

definition mem_store_ops :: "'c lru_ops \<Rightarrow> (jstring \<Rightarrow> nat) \<Rightarrow> 'c mem_store store_ops" where
  "mem_store_ops ops xxh =
     \<lparr>so_head = mem_head ops, so_byHash = mem_byHash ops, so_record = mem_record ops xxh\<rparr>"

record 'p diff_ops =
  structuredPatch :: "jstring \<Rightarrow> jstring \<Rightarrow> 'p"
  applyPatch :: "jstring \<Rightarrow> 'p \<Rightarrow> nat \<Rightarrow> jstring option"

definition RECOVERY_FUZZ_FACTOR :: nat where "RECOVERY_FUZZ_FACTOR = 0"

record recovery_result =
  rr_text :: jstring
  rr_first :: "nat option"
  rr_warnings :: "warning list"

section \<open>The helpers\<close>

text \<open>
  The loop compares \<open>aLines[i]\<close> with \<open>bLines[i]\<close>, \<open>undefined\<close> past the end of the shorter list.
\<close>

definition findFirstChangedLine :: "jstring \<Rightarrow> jstring \<Rightarrow> nat option" where
  "findFirstChangedLine a b =
     (if a = b then None
      else
        (let aLines = split_lines a; bLines = split_lines b;
             mx = max (length aLines) (length bLines)
         in map_option Suc (find (\<lambda>i. nth_opt aLines i \<noteq> nth_opt bLines i) [0..<mx])))"

definition applyEditsToSnapshot ::
  "'p diff_ops \<Rightarrow> jstring \<Rightarrow> jstring \<Rightarrow> edit list \<Rightarrow> warning \<Rightarrow> recovery_result option" where
  "applyEditsToSnapshot diff previousText currentText es recoveryWarning =
     (case applyEdits previousText es of
        Inl _ \<Rightarrow> None
      | Inr applied \<Rightarrow>
          if ar_text applied = previousText then None
          else
            (case applyPatch diff currentText (structuredPatch diff previousText (ar_text applied))
                    RECOVERY_FUZZ_FACTOR of
               None \<Rightarrow> None
             | Some merged \<Rightarrow>
                 if merged = currentText then None
                 else
                   (let firstChangedLine =
                          (case findFirstChangedLine currentText merged of
                             Some k \<Rightarrow> Some k | None \<Rightarrow> ar_first applied);
                        hasNetChange = (firstChangedLine \<noteq> None)
                    in Some \<lparr>rr_text = merged, rr_first = firstChangedLine,
                         rr_warnings = (if hasNetChange then recoveryWarning # ar_warnings applied
                           else ar_warnings applied)\<rparr>)))"

definition collectAnchorLines :: "edit list \<Rightarrow> nat list" where
  "collectAnchorLines es = concat (map getEditAnchors es)"

definition verifyAnchorContent :: "jstring \<Rightarrow> jstring \<Rightarrow> edit list \<Rightarrow> bool" where
  "verifyAnchorContent previousText currentText es =
     (let lines = collectAnchorLines es
      in if length lines = 0 then True
         else
           (let prev = split_lines previousText; curr = split_lines currentText
            in list_all (\<lambda>line. \<not> (line < 1 \<or> length prev \<le> line - 1 \<or> length curr \<le> line - 1) \<and>
                 prev ! (line - 1) = curr ! (line - 1)) lines))"

definition replaySessionChainOnCurrent ::
  "jstring \<Rightarrow> jstring \<Rightarrow> edit list \<Rightarrow> recovery_result option" where
  "replaySessionChainOnCurrent previousText currentText es =
     (if length (split_lines previousText) \<noteq> length (split_lines currentText) then None
      else if \<not> verifyAnchorContent previousText currentText es then None
      else
        (case applyEdits currentText es of
           Inl _ \<Rightarrow> None
         | Inr applied \<Rightarrow>
             if ar_text applied = currentText then None
             else Some \<lparr>rr_text = ar_text applied, rr_first = ar_first applied,
                    rr_warnings = RecoverySessionReplay # ar_warnings applied\<rparr>))"

text \<open>\<open>head === snapshot\<close>\<close>

definition isHeadSnapshot :: "snapshot option \<Rightarrow> snapshot \<Rightarrow> bool" where
  "isHeadSnapshot head snap = (map_option sn_id head = Some (sn_id snap))"

section \<open>Recovery\<close>

definition tryRecover ::
  "'s store_ops \<Rightarrow> 'p diff_ops \<Rightarrow> 's \<Rightarrow> jstring \<Rightarrow> jstring \<Rightarrow> jstring \<Rightarrow> edit list \<Rightarrow>
   recovery_result option \<times> 's" where
  "tryRecover store diff s path currentText fileHash es =
     (case so_byHash store s path fileHash of
        (None, s1) \<Rightarrow> (None, s1)
      | (Some snap, s1) \<Rightarrow>
          (case so_head store s1 path of (head, s2) \<Rightarrow>
             (let isHead = isHeadSnapshot head snap;
                  recoveryWarning = (if isHead then RecoveryExternal else RecoverySessionChain)
              in case applyEditsToSnapshot diff (sn_text snap) currentText es recoveryWarning of
                   Some merged \<Rightarrow> (Some merged, s2)
                 | None \<Rightarrow>
                     if \<not> isHead then (replaySessionChainOnCurrent (sn_text snap) currentText es, s2)
                     else (None, s2))))"

section \<open>Lemmas\<close>

lemma split_lines_inj: "split_lines a = split_lines b \<Longrightarrow> a = b"
  by (metis join_split)

lemma nth_opt_ext:
  assumes "\<forall>i<max (length xs) (length ys). nth_opt xs i = nth_opt ys i"
  shows "xs = ys"
proof -
  have len: "length xs = length ys"
  proof (rule ccontr)
    assume "length xs \<noteq> length ys"
    then have "nth_opt xs (min (length xs) (length ys)) \<noteq> nth_opt ys (min (length xs) (length ys))"
      by (auto simp: nth_opt_def min_def)
    moreover have "min (length xs) (length ys) < max (length xs) (length ys)"
      using \<open>length xs \<noteq> length ys\<close> by (auto simp: min_def max_def)
    ultimately show False using assms by blast
  qed
  then show ?thesis using assms by (auto intro!: nth_equalityI simp: nth_opt_def)
qed

lemma findFirstChangedLine_None: "findFirstChangedLine a b = None \<longleftrightarrow> a = b"
proof
  assume n: "findFirstChangedLine a b = None"
  show "a = b"
  proof (rule ccontr)
    assume ne: "a \<noteq> b"
    then have "split_lines a = split_lines b"
      using n by (intro nth_opt_ext) (auto simp: findFirstChangedLine_def Let_def find_None_iff)
    with ne split_lines_inj show False by blast
  qed
qed (simp add: findFirstChangedLine_def)

lemma findFirstChangedLine_Some:
  assumes "findFirstChangedLine a b = Some k"
  shows "1 \<le> k \<and> nth_opt (split_lines a) (k - 1) \<noteq> nth_opt (split_lines b) (k - 1) \<and>
    take (k - 1) (split_lines a) = take (k - 1) (split_lines b)"
proof -
  let ?A = "split_lines a" and ?B = "split_lines b"
  obtain i where i: "find (\<lambda>i. nth_opt ?A i \<noteq> nth_opt ?B i) [0..<max (length ?A) (length ?B)] = Some i"
      "k = Suc i"
    using assms by (auto simp: findFirstChangedLine_def Let_def split: if_splits)
  then have d: "nth_opt ?A i \<noteq> nth_opt ?B i" "\<forall>j<i. nth_opt ?A j = nth_opt ?B j"
      "i < max (length ?A) (length ?B)"
    by (auto simp: find_Some_iff)
  have "take i ?A = take i ?B"
  proof (rule nth_opt_ext, intro allI impI)
    fix j assume j: "j < max (length (take i ?A)) (length (take i ?B))"
    then have "j < i" by auto
    then show "nth_opt (take i ?A) j = nth_opt (take i ?B) j"
      using d(2) by (auto simp: nth_opt_def split: if_splits)
  qed
  then show ?thesis using d i(2) by simp
qed

lemma verifyAnchorContent_iff:
  "verifyAnchorContent a b es \<longleftrightarrow>
   (\<forall>e\<in>set es. \<forall>n\<in>set (getEditAnchors e). 1 \<le> n \<and> n \<le> length (split_lines a) \<and>
      n \<le> length (split_lines b) \<and> split_lines a ! (n - 1) = split_lines b ! (n - 1))"
  by (auto simp: verifyAnchorContent_def collectAnchorLines_def Let_def list_all_iff not_le
      Suc_le_eq) (force+)?


section \<open>Properties\<close>

text \<open>
  The first changed line is exact: there is none only for equal texts; otherwise the texts
  have the same lines before it and differ at it (one of them may end there).
\<close>

theorem first_changed_line_exact:
  "case findFirstChangedLine a b of
     None \<Rightarrow> a = b
   | Some k \<Rightarrow> 1 \<le> k \<and> nth_opt (split_lines a) (k - 1) \<noteq> nth_opt (split_lines b) (k - 1) \<and>
       take (k - 1) (split_lines a) = take (k - 1) (split_lines b)"
  using findFirstChangedLine_None [of a b] findFirstChangedLine_Some [of a b]
  by (auto split: option.splits)

text \<open>How a recovery may come about, from the version \<open>snap\<close> that the tag names.\<close>

definition merged_from ::
  "'p diff_ops \<Rightarrow> snapshot \<Rightarrow> jstring \<Rightarrow> edit list \<Rightarrow> recovery_result \<Rightarrow> bool" where
  "merged_from diff snap cur es r =
     (\<exists>a ban. applyEdits (sn_text snap) es = Inr a \<and> ar_text a \<noteq> sn_text snap \<and>
        applyPatch diff cur (structuredPatch diff (sn_text snap) (ar_text a)) 0 = Some (rr_text r) \<and>
        ban \<in> {RecoveryExternal, RecoverySessionChain} \<and> rr_warnings r = ban # ar_warnings a \<and>
        rr_first r = findFirstChangedLine cur (rr_text r))"

definition replayed_from :: "snapshot \<Rightarrow> jstring \<Rightarrow> edit list \<Rightarrow> recovery_result \<Rightarrow> bool" where
  "replayed_from snap cur es r =
     (\<exists>a. applyEdits cur es = Inr a \<and> rr_text r = ar_text a \<and> rr_first r = ar_first a \<and>
        rr_warnings r = RecoverySessionReplay # ar_warnings a \<and>
        length (split_lines (sn_text snap)) = length (split_lines cur) \<and>
        (\<forall>e\<in>set es. \<forall>n\<in>set (getEditAnchors e). 1 \<le> n \<and> n \<le> length (split_lines cur) \<and>
           split_lines (sn_text snap) ! (n - 1) = split_lines cur ! (n - 1)))"

lemma applyEditsToSnapshot_Some:
  assumes "applyEditsToSnapshot diff (sn_text snap) cur es ban = Some r"
    and "ban \<in> {RecoveryExternal, RecoverySessionChain}"
  shows "rr_text r \<noteq> cur \<and> merged_from diff snap cur es r"
proof -
  obtain a m where a: "applyEdits (sn_text snap) es = Inr a" "ar_text a \<noteq> sn_text snap"
      "applyPatch diff cur (structuredPatch diff (sn_text snap) (ar_text a)) 0 = Some m" "m \<noteq> cur"
    using assms(1) by (auto simp: applyEditsToSnapshot_def RECOVERY_FUZZ_FACTOR_def
        split: sum.splits if_splits option.splits)
  obtain k where k: "findFirstChangedLine cur m = Some k"
    using findFirstChangedLine_None [of cur m] a(4) by (cases "findFirstChangedLine cur m") auto
  have "r = \<lparr>rr_text = m, rr_first = Some k, rr_warnings = ban # ar_warnings a\<rparr>"
    using assms(1) a k by (simp add: applyEditsToSnapshot_def RECOVERY_FUZZ_FACTOR_def)
  then show ?thesis using a k assms(2) by (auto simp: merged_from_def)
qed

lemma replay_Some:
  assumes "replaySessionChainOnCurrent (sn_text snap) cur es = Some r"
  shows "rr_text r \<noteq> cur \<and> replayed_from snap cur es r"
  using assms
  by (auto simp: replaySessionChainOnCurrent_def replayed_from_def verifyAnchorContent_iff
      split: if_splits sum.splits)

lemma tryRecover_Some:
  assumes "tryRecover store diff s p cur h es = (Some r, s')"
  shows "\<exists>snap. fst (so_byHash store s p h) = Some snap \<and> rr_text r \<noteq> cur \<and>
    (merged_from diff snap cur es r \<or>
     replayed_from snap cur es r \<and>
     \<not> isHeadSnapshot (fst (so_head store (snd (so_byHash store s p h)) p)) snap)"
proof -
  obtain snap s1 where b: "so_byHash store s p h = (Some snap, s1)"
    using assms by (auto simp: tryRecover_def split: prod.splits option.splits)
  obtain hd s2 where hd: "so_head store s1 p = (hd, s2)" by (cases "so_head store s1 p")
  let ?ban = "if isHeadSnapshot hd snap then RecoveryExternal else RecoverySessionChain"
  show ?thesis
  proof (cases "applyEditsToSnapshot diff (sn_text snap) cur es ?ban")
    case (Some m)
    then have "r = m" using assms b hd by (simp add: tryRecover_def Let_def)
    then show ?thesis using applyEditsToSnapshot_Some [OF Some] b by auto
  next
    case None
    then have "\<not> isHeadSnapshot hd snap" "replaySessionChainOnCurrent (sn_text snap) cur es = Some r"
      using assms b hd by (auto simp: tryRecover_def Let_def split: if_splits)
    then show ?thesis using replay_Some b hd by auto
  qed
qed

lemma recovery_guarded:
  assumes "lru_laws ops" "mem_ok ops xxh st"
    and "tryRecover (mem_store_ops ops xxh) diff st p cur h es = (Some r, st')"
  shows "rr_text r \<noteq> cur \<and> (\<exists>snap\<in>set (mem_history ops st p).
    computeFileHash xxh (sn_text snap) = h \<and>
    (merged_from diff snap cur es r \<or>
     replayed_from snap cur es r \<and> mem_history ops st p ! 0 \<noteq> snap))"
proof -
  note store = mem_store_contract [OF assms(1), of xxh]
  obtain snap where snap: "fst (mem_byHash ops st p h) = Some snap" "rr_text r \<noteq> cur"
    "merged_from diff snap cur es r \<or> replayed_from snap cur es r \<and>
     \<not> isHeadSnapshot (fst (mem_head ops (snd (mem_byHash ops st p h)) p)) snap"
    using tryRecover_Some [OF assms(3)] by (auto simp: mem_store_ops_def)
  have h: "computeFileHash xxh (sn_text snap) = h"
    using snapshot_store.byHash_text [OF store assms(2) snap(1)] by simp
  note b = snapshot_store.byHash_law [OF store assms(2), of p h]
  have mem: "snap \<in> set (mem_history ops st p)" using b snap(1) find_by_hash by metis
  have "fst (mem_head ops (snd (mem_byHash ops st p h)) p) = nth_opt (mem_history ops st p) 0"
    using snapshot_store.head_law [OF store, of "snd (mem_byHash ops st p h)" p] b by simp
  moreover have "0 < length (mem_history ops st p)" using mem by (cases "mem_history ops st p") auto
  ultimately have "mem_history ops st p ! 0 \<noteq> snap"
    if "\<not> isHeadSnapshot (fst (mem_head ops (snd (mem_byHash ops st p h)) p)) snap"
    using that by (auto simp: isHeadSnapshot_def nth_opt_def)
  then show ?thesis using snap h mem by blast
qed

text \<open>
  Recovery never applies stale edits blindly: a recovered text differs from the live one
  and comes either from merging, without fuzz, the edits applied to a recorded version that
  has the stale tag, or from replaying them on the live text when that version is no longer
  the newest, has as many lines, and has the same content at every line an edit names; the
  first warning says which.
\<close>

theorem recovery_is_guarded:
  assumes "lru_laws ops" "mem_ok ops xxh st"
    and "tryRecover (mem_store_ops ops xxh) diff st p cur h es = (Some r, st')"
  shows "rr_text r \<noteq> cur \<and> (\<exists>snap\<in>set (mem_history ops st p).
    computeFileHash xxh (sn_text snap) = h \<and>
    (merged_from diff snap cur es r \<or>
     replayed_from snap cur es r \<and> mem_history ops st p ! 0 \<noteq> snap))"
  by (rule recovery_guarded [OF assms])

text \<open>A merge that only accepts the text the patch was made for: the least a diff library does.\<close>

definition exact_diff :: "(jstring \<times> jstring) diff_ops" where
  "exact_diff = \<lparr>structuredPatch = \<lambda>a b. (a, b),
     applyPatch = \<lambda>cur (a, b) fuzz. if cur = a then Some b else None\<rparr>"

text \<open>The store after reading \<open>a\<close>/\<open>b\<close> and then seeing \<open>a\<close>/\<open>c\<close>.\<close>

definition two_versions :: "lru_list mem_store" where
  "two_versions =
     snd (mem_record lru_list_ops sum_list
       (snd (mem_record lru_list_ops sum_list empty_store (js ''f'') [97, 10, 98]))
       (js ''f'') [97, 10, 99])"

lemma two_versions_ok: "mem_ok lru_list_ops sum_list two_versions"
  unfolding two_versions_def
  using mem_record_cases [OF lru_list_laws] empty_store_ok by blast

theorem recovery_is_guarded_witness:
  "rr_text \<lparr>rr_text = [99], rr_first = Some 1, rr_warnings = [RecoverySessionReplay]\<rparr> \<noteq> [97, 10, 99] \<and>
   (\<exists>snap\<in>set (mem_history lru_list_ops two_versions (js ''f'')).
    computeFileHash sum_list (sn_text snap) = js ''00CD'' \<and>
    (merged_from exact_diff snap [97, 10, 99] [Delete 1 1 0]
       \<lparr>rr_text = [99], rr_first = Some 1, rr_warnings = [RecoverySessionReplay]\<rparr> \<or>
     replayed_from snap [97, 10, 99] [Delete 1 1 0]
       \<lparr>rr_text = [99], rr_first = Some 1, rr_warnings = [RecoverySessionReplay]\<rparr> \<and>
     mem_history lru_list_ops two_versions (js ''f'') ! 0 \<noteq> snap))"
proof (rule recovery_is_guarded [OF lru_list_laws])
  show "mem_ok lru_list_ops sum_list two_versions" by (rule two_versions_ok)
  have "fst (tryRecover (mem_store_ops lru_list_ops sum_list) exact_diff two_versions (js ''f'')
      [97, 10, 99] (js ''00CD'') [Delete 1 1 0]) =
      Some \<lparr>rr_text = [99], rr_first = Some 1, rr_warnings = [RecoverySessionReplay]\<rparr>"
    by code_simp
  then show "tryRecover (mem_store_ops lru_list_ops sum_list) exact_diff two_versions (js ''f'')
      [97, 10, 99] (js ''00CD'') [Delete 1 1 0] =
      (Some \<lparr>rr_text = [99], rr_first = Some 1, rr_warnings = [RecoverySessionReplay]\<rparr>,
       snd (tryRecover (mem_store_ops lru_list_ops sum_list) exact_diff two_versions (js ''f'')
      [97, 10, 99] (js ''00CD'') [Delete 1 1 0]))"
    by (metis prod.collapse)
qed

end
