(* ===== verification/Fs.thy ===== *)
theory Fs
  imports Hl_Types
begin

text \<open>
  The storage seam (\<open>packages/hashline/src/fs.ts\<close>): the interface \<open>Filesystem\<close> as a record of
  operations with a locale for its contract, and \<open>InMemoryFilesystem\<close>, which keeps it.  An
  \<open>async\<close> method returns its settled promise at once: the package awaits every call before the
  next, so its own calls do not interleave.  \<open>NodeFilesystem\<close> only forwards to the runtime.
\<close>

section \<open>The interface\<close>

definition isNotFound :: "hl_error \<Rightarrow> bool" where
  "isNotFound e = (case e of FileNotFound _ \<Rightarrow> True | _ \<Rightarrow> False)"

record 'f fs_ops =
  fs_readText :: "'f \<Rightarrow> jstring \<Rightarrow> jstring res"
  fs_preflightWrite :: "'f \<Rightarrow> jstring \<Rightarrow> unit res"
  fs_writeText :: "'f \<Rightarrow> jstring \<Rightarrow> jstring \<Rightarrow> jstring res \<times> 'f"
  fs_canonicalPath :: "jstring \<Rightarrow> jstring"

text \<open>The default methods of the abstract class.\<close>

definition default_preflightWrite :: "'f \<Rightarrow> jstring \<Rightarrow> unit res" where
  "default_preflightWrite f path = Inr ()"

definition default_exists :: "('f \<Rightarrow> jstring \<Rightarrow> jstring res) \<Rightarrow> 'f \<Rightarrow> jstring \<Rightarrow> bool res" where
  "default_exists readText f path =
     (case readText f path of
        Inr _ \<Rightarrow> Inr True
      | Inl e \<Rightarrow> if isNotFound e then Inr False else Inl e)"

definition default_canonicalPath :: "jstring \<Rightarrow> jstring" where
  "default_canonicalPath path = path"

text \<open>
  What a write promises: the text it reports is what a read of that path gives from then on,
  and files with another canonical path are untouched.
\<close>

locale filesystem =
  fixes ops :: "'f fs_ops"
  assumes write_read: "fs_writeText ops f p c = (Inr w, f') \<Longrightarrow> fs_readText ops f' p = Inr w"
    and write_other: "fs_writeText ops f p c = (Inr w, f') \<Longrightarrow>
      fs_canonicalPath ops q \<noteq> fs_canonicalPath ops p \<Longrightarrow>
      fs_readText ops f' q = fs_readText ops f q"
    and write_error: "fs_writeText ops f p c = (Inl e, f') \<Longrightarrow>
      fs_canonicalPath ops q \<noteq> fs_canonicalPath ops p \<Longrightarrow>
      fs_readText ops f' q = fs_readText ops f q"
begin

lemma write_frame:
  "fs_writeText ops f p c = (r, f') \<Longrightarrow> fs_canonicalPath ops q \<noteq> fs_canonicalPath ops p \<Longrightarrow>
   fs_readText ops f' q = fs_readText ops f q"
  using write_other write_error by (cases r) blast+

lemma write_then_exists:
  "fs_writeText ops f p c = (Inr w, f') \<Longrightarrow> default_exists (fs_readText ops) f' p = Inr True"
  using write_read by (simp add: default_exists_def)

end

section \<open>The in-memory file system\<close>

text \<open>The private \<open>Map\<close> from paths to contents, in insertion order.\<close>

type_synonym mem_fs = "(jstring \<times> jstring) list"

definition mem_fs_new :: "(jstring \<times> jstring) list \<Rightarrow> mem_fs" where
  "mem_fs_new initial = foldl (\<lambda>m (p, c). map_set m p c) [] initial"

definition mem_readText :: "mem_fs \<Rightarrow> jstring \<Rightarrow> jstring res" where
  "mem_readText m path = (case map_get m path of None \<Rightarrow> Inl (FileNotFound path) | Some t \<Rightarrow> Inr t)"

definition mem_writeText :: "mem_fs \<Rightarrow> jstring \<Rightarrow> jstring \<Rightarrow> jstring res \<times> mem_fs" where
  "mem_writeText m path content = (Inr content, map_set m path content)"

definition mem_exists :: "mem_fs \<Rightarrow> jstring \<Rightarrow> bool" where
  "mem_exists m path = (map_get m path \<noteq> None)"

definition mem_fs_set :: "mem_fs \<Rightarrow> jstring \<Rightarrow> jstring \<Rightarrow> mem_fs" where
  "mem_fs_set m path content = map_set m path content"

definition mem_fs_get :: "mem_fs \<Rightarrow> jstring \<Rightarrow> jstring option" where
  "mem_fs_get m path = map_get m path"

definition mem_fs_delete :: "mem_fs \<Rightarrow> jstring \<Rightarrow> bool \<times> mem_fs" where
  "mem_fs_delete m path = (map_get m path \<noteq> None, AList.delete path m)"

definition mem_fs_clear :: "mem_fs \<Rightarrow> mem_fs" where
  "mem_fs_clear m = []"

definition mem_fs_entries :: "mem_fs \<Rightarrow> (jstring \<times> jstring) list" where
  "mem_fs_entries m = m"

definition mem_fs_ops :: "mem_fs fs_ops" where
  "mem_fs_ops = \<lparr>fs_readText = mem_readText, fs_preflightWrite = default_preflightWrite,
     fs_writeText = mem_writeText, fs_canonicalPath = default_canonicalPath\<rparr>"

interpretation mem_files: filesystem mem_fs_ops
  by unfold_locales
     (auto simp: mem_fs_ops_def mem_writeText_def mem_readText_def default_canonicalPath_def map_get_set)

lemma mem_exists_default: "default_exists mem_readText m p = Inr (mem_exists m p)"
  by (auto simp: default_exists_def mem_readText_def mem_exists_def isNotFound_def split: option.splits)

lemma mem_fs_new_get:
  "map_get (mem_fs_new init) p = map_of (rev init) p"
proof (induction init rule: rev_induct)
  case (snoc e es)
  then show ?case
    by (cases e) (auto simp: mem_fs_new_def map_get_set)
qed (simp add: mem_fs_new_def map_get_def)

text \<open>
  The in-memory file system is a map: it starts with the last content given for each path,
  a write or set is seen by every later read of that path and no other, a delete or clear
  makes the path missing, and a missing path is reported by the not-found error and nothing
  else.
\<close>

theorem mem_fs_is_map:
  "mem_readText (mem_fs_new init) p =
     (case map_of (rev init) p of None \<Rightarrow> Inl (FileNotFound p) | Some t \<Rightarrow> Inr t) \<and>
   mem_readText (snd (mem_writeText m q c)) p = (if p = q then Inr c else mem_readText m p) \<and>
   mem_fs_get (mem_fs_set m q c) p = (if p = q then Some c else mem_fs_get m p) \<and>
   mem_readText (snd (mem_fs_delete m q)) p = (if p = q then Inl (FileNotFound p) else mem_readText m p) \<and>
   fst (mem_fs_delete m q) = mem_exists m q \<and>
   mem_readText (mem_fs_clear m) p = Inl (FileNotFound p) \<and>
   default_exists mem_readText m p = Inr (mem_exists m p)"
  using mem_exists_default
  by (auto simp: mem_readText_def mem_fs_new_get mem_writeText_def mem_fs_set_def mem_fs_get_def
      mem_fs_delete_def mem_fs_clear_def mem_exists_def map_get_set)
     (auto simp: map_get_def delete_conv)

end
