(* ===== verification/Normalize.thy ===== *)
theory Normalize
  imports Prelude
begin

text \<open>
  Line endings and the byte order mark (\<open>packages/hashline/src/normalize.ts\<close>): what the patcher
  removes before it edits and puts back when it writes.
\<close>

datatype line_ending = CRLF | LFOnly

text \<open>\<open>s.indexOf(p)\<close>, \<open>None\<close> for -1.\<close>

definition index_of :: "jstring \<Rightarrow> jstring \<Rightarrow> nat option" where
  "index_of s p = find (starts_with_at s p) [0..<Suc (length s)]"

definition detectLineEnding :: "jstring \<Rightarrow> line_ending" where
  "detectLineEnding content =
     (let crlfIdx = index_of content [CR, LF]; lfIdx = index_of content [LF]
      in case lfIdx of
           None \<Rightarrow> LFOnly
         | Some l \<Rightarrow> (case crlfIdx of None \<Rightarrow> LFOnly | Some c \<Rightarrow> if c < l then CRLF else LFOnly))"

text \<open>\<open>text.replace(/\r\n?/g, "\n")\<close>\<close>

fun normalizeToLF :: "jstring \<Rightarrow> jstring" where
  "normalizeToLF [] = []"
| "normalizeToLF [c] = (if c = CR then [LF] else [c])"
| "normalizeToLF (c # d # ds) =
     (if c = CR then LF # normalizeToLF (if d = LF then ds else d # ds)
      else c # normalizeToLF (d # ds))"

text \<open>\<open>text.replace(/\n/g, "\r\n")\<close>\<close>

definition restoreLineEndings :: "jstring \<Rightarrow> line_ending \<Rightarrow> jstring" where
  "restoreLineEndings str ending =
     (case ending of
        CRLF \<Rightarrow> concat (map (\<lambda>c. if c = LF then [CR, LF] else [c]) str)
      | LFOnly \<Rightarrow> str)"

definition BOM :: jstring where "BOM = [0xFEFF]"

definition stripBom :: "jstring \<Rightarrow> jstring \<times> jstring" where
  "stripBom content = (if starts_with content BOM then (BOM, drop 1 content) else ([], content))"

section \<open>Lemmas\<close>

lemma normalizeToLF_no_CR: "CR \<notin> set (normalizeToLF s)"
  by (induction s rule: normalizeToLF.induct) (auto split: list.splits)

lemma normalizeToLF_id: "CR \<notin> set s \<Longrightarrow> normalizeToLF s = s"
  by (induction s rule: normalizeToLF.induct) auto

lemma restore_Cons [simp]:
  "restoreLineEndings (c # cs) CRLF = (if c = LF then [CR, LF] else [c]) @ restoreLineEndings cs CRLF"
  "restoreLineEndings [] e = []" "restoreLineEndings s LFOnly = s"
  by (auto simp: restoreLineEndings_def split: line_ending.splits)

lemma normalize_restore: "CR \<notin> set s \<Longrightarrow> normalizeToLF (restoreLineEndings s e) = s"
proof (cases e)
  case CRLF
  have cons: "c \<noteq> CR \<Longrightarrow> normalizeToLF (c # cs) = c # normalizeToLF cs" for c cs
    by (cases cs) auto
  show "CR \<notin> set s \<Longrightarrow> ?thesis" unfolding CRLF by (induction s) (auto simp: cons)
qed (simp add: normalizeToLF_id)

lemma index_of_None: "index_of s p = None \<longleftrightarrow> (\<forall>i\<le>length s. \<not> starts_with_at s p i)"
  by (auto simp: index_of_def find_None_iff less_Suc_eq_le simp del: upt_Suc)

lemma index_of_Some:
  "index_of s p = Some i \<longleftrightarrow> i \<le> length s \<and> starts_with_at s p i \<and> (\<forall>j<i. \<not> starts_with_at s p j)"
proof -
  have "[0..<Suc (length s)] ! j = j" if "j \<le> length s" for j
    using nth_upt [of 0 j "Suc (length s)"] that by (simp del: upt_Suc)
  then show ?thesis
    by (fastforce simp: index_of_def find_Some_iff less_Suc_eq_le simp del: upt_Suc)
qed

lemma starts_with_at_one: "starts_with_at s [c] i \<longleftrightarrow> i < length s \<and> s ! i = c"
proof (cases "drop i s")
  case (Cons a list)
  then have "i < length s" "s ! i = a"
    by (metis drop_eq_Nil linorder_not_less list.distinct(1), metis Cons nth_via_drop)
  then show ?thesis using Cons by (auto simp: starts_with_at_def)
qed (auto simp: starts_with_at_def)

lemma index_of_append_one:
  "d \<notin> set a \<Longrightarrow> index_of (a @ d # b) [d] = Some (length a)"
  by (auto simp: index_of_Some starts_with_at_one nth_append)


lemma detect_restored:
  assumes "CR \<notin> set s" "LF \<in> set s \<or> e = LFOnly"
  shows "detectLineEnding (restoreLineEndings s e) = e"
proof (cases e)
  case LFOnly
  have "index_of s [CR, LF] = None"
  proof -
    have "\<not> starts_with_at s [CR, LF] i" for i
    proof
      assume "starts_with_at s [CR, LF] i"
      then have "set [CR, LF] \<subseteq> set s" unfolding starts_with_at_def by (metis set_drop_subset set_take_subset subset_trans)
      then show False using assms(1) by simp
    qed
    then show ?thesis by (simp add: index_of_None)
  qed
  then show ?thesis using LFOnly by (simp add: detectLineEnding_def Let_def split: option.splits)
next
  case CRLF
  then have "LF \<in> set s" using assms(2) by simp
  then obtain a b where s: "s = a @ LF # b" "LF \<notin> set a" by (metis split_list_first)
  have ra: "restoreLineEndings (a @ r) CRLF = a @ restoreLineEndings r CRLF" for r
    using s(2) by (induction a) auto
  let ?t = "restoreLineEndings s CRLF"
  have t: "?t = (a @ [CR]) @ LF # restoreLineEndings b CRLF" by (simp add: s(1) ra)
  have lf: "index_of ?t [LF] = Some (Suc (length a))"
    unfolding t using s(2) index_of_append_one [of _ "a @ [CR]"] by simp
  have cr: "index_of ?t [CR, LF] = Some (length a)"
    unfolding index_of_Some
  proof (intro conjI allI impI)
    show "starts_with_at ?t [CR, LF] (length a)" by (simp add: t starts_with_at_def)
    fix j assume j: "j < length a"
    then have "?t ! j \<in> set a" by (simp add: t nth_append)
    then have "?t ! j \<noteq> CR" using assms(1) s(1) by auto
    moreover have "drop j ?t = ?t ! j # drop (Suc j) ?t"
      using j by (intro Cons_nth_drop_Suc [symmetric]) (simp add: t)
    ultimately show "\<not> starts_with_at ?t [CR, LF] j" by (simp add: starts_with_at_def)
  qed (simp add: t)
  show ?thesis using lf cr CRLF by (simp add: detectLineEnding_def Let_def)
qed

section \<open>The shape of a file survives an edit\<close>

text \<open>
  A file whose line endings are uniform is split into mark, ending and text, and putting
  mark and ending back on any edited text gives a file that is split into the same mark and
  ending and that text: an edit never changes the shape of the file.
\<close>

theorem file_shape_roundtrip:
  assumes "CR \<notin> set x" "LF \<in> set x \<or> e = LFOnly" "bom = BOM \<or> bom = [] \<and> \<not> starts_with x BOM"
  shows "stripBom (bom @ restoreLineEndings x e) = (bom, restoreLineEndings x e) \<and>
    detectLineEnding (restoreLineEndings x e) = e \<and>
    normalizeToLF (restoreLineEndings x e) = x"
proof -
  have "starts_with (restoreLineEndings x e) BOM \<longleftrightarrow> starts_with x BOM"
    by (cases e; cases x) (auto simp: starts_with_def BOM_def)
  then have "stripBom (bom @ restoreLineEndings x e) = (bom, restoreLineEndings x e)"
    using assms(3) by (auto simp: stripBom_def BOM_def starts_with_def)
  then show ?thesis using detect_restored [OF assms(1,2)] normalize_restore [OF assms(1)] by simp
qed

theorem file_shape_roundtrip_witness:
  "stripBom (BOM @ restoreLineEndings [97, 10, 98] CRLF) = (BOM, restoreLineEndings [97, 10, 98] CRLF) \<and>
    detectLineEnding (restoreLineEndings [97, 10, 98] CRLF) = CRLF \<and>
    normalizeToLF (restoreLineEndings [97, 10, 98] CRLF) = [97, 10, 98]"
  by (rule file_shape_roundtrip) simp_all

end
