(* ===== verification/Patcher.thy ===== *)
theory Patcher
  imports Input Recovery Fs Normalize
begin

text \<open>
  The orchestrator (\<open>packages/hashline/src/patcher.ts\<close>): reads each section's file, checks the
  snapshot tag (with recovery), applies the edits in memory and writes the result.  The
  storage, the snapshot store, the diff package, the hash and the block resolver are the
  fields of \<open>env\<close>; the state that the awaited calls thread through is \<open>world\<close>.  A step that
  throws returns its error together with the state it leaves.
\<close>

record ('f, 's, 'p) env =
  en_fs :: "'f fs_ops"
  en_snapshots :: "'s store_ops"
  en_diff :: "'p diff_ops"
  en_xxh :: "jstring \<Rightarrow> nat"
  en_blockResolver :: "block_resolver option"

record ('f, 's) world =
  w_fs :: 'f
  w_snaps :: 's

datatype section_op = Create | Update | Noop

record patch_section_result =
  pr_path :: jstring
  pr_canonicalPath :: jstring
  pr_op :: section_op
  pr_before :: jstring
  pr_after :: jstring
  pr_persisted :: jstring
  pr_written :: jstring
  pr_fileHash :: jstring
  pr_header :: jstring
  pr_firstChangedLine :: "nat option"
  pr_warnings :: "warning list"

record prepared_section =
  pp_section :: raw_section
  pp_canonicalPath :: jstring
  pp_exists :: bool
  pp_rawContent :: jstring
  pp_bom :: jstring
  pp_lineEnding :: line_ending
  pp_normalized :: jstring
  pp_applyResult :: apply_result
  pp_parseWarnings :: "warning list"

definition isNoop :: "prepared_section \<Rightarrow> bool" where
  "isNoop pp = (ar_text (pp_applyResult pp) = pp_normalized pp)"

definition hasAnchorScopedEdit :: "edit list \<Rightarrow> bool" where
  "hasAnchorScopedEdit es = list_ex anchor_scoped es"

definition assertSectionHashPresent :: "jstring \<Rightarrow> jstring option \<Rightarrow> unit res" where
  "assertSectionHashPresent path fileHash =
     (if fileHash \<noteq> None then Inr () else Inl (MissingSnapshotTag path))"

definition recoveryToApplyResult :: "recovery_result \<Rightarrow> apply_result" where
  "recoveryToApplyResult r = \<lparr>ar_text = rr_text r, ar_first = rr_first r, ar_warnings = rr_warnings r\<rparr>"

definition mergeWarnings :: "warning list list \<Rightarrow> warning list" where
  "mergeWarnings sources = concat sources"

text \<open>The loop of \<open>assertUniqueCanonicalPaths\<close> over the map of paths seen.\<close>

fun unique_loop :: "(jstring \<times> jstring) list \<Rightarrow> prepared_section list \<Rightarrow> unit res" where
  "unique_loop seen [] = Inr ()"
| "unique_loop seen (pp # pps) =
     (case map_get seen (pp_canonicalPath pp) of
        Some previous \<Rightarrow> Inl (DuplicateTarget previous (rs_path (pp_section pp)))
      | None \<Rightarrow> unique_loop (map_set seen (pp_canonicalPath pp) (rs_path (pp_section pp))) pps)"

definition assertUniqueCanonicalPaths :: "prepared_section list \<Rightarrow> unit res" where
  "assertUniqueCanonicalPaths pps = unique_loop [] pps"

section \<open>Reading and the tag\<close>

definition tryRead :: "('f, 's, 'p) env \<Rightarrow> ('f, 's) world \<Rightarrow> jstring \<Rightarrow> (bool \<times> jstring) res" where
  "tryRead env w path =
     (case fs_readText (en_fs env) (w_fs w) path of
        Inr content \<Rightarrow> Inr (True, content)
      | Inl e \<Rightarrow> if isNotFound e then Inr (False, []) else Inl e)"

definition mismatchError ::
  "('f, 's, 'p) env \<Rightarrow> 's \<Rightarrow> raw_section \<Rightarrow> edit list \<Rightarrow> jstring \<Rightarrow> jstring \<Rightarrow> jstring \<Rightarrow> bool \<Rightarrow>
   hl_error \<times> 's" where
  "mismatchError env s sec es canonicalPath normalized expected hashRecognized =
     (case so_record (en_snapshots env) s canonicalPath normalized of (actualFileHash, s') \<Rightarrow>
        (Mismatch (rs_path sec) expected actualFileHash (split_lines normalized)
           (section_anchor_lines es) hashRecognized, s'))"

text \<open>The second half of \<open>#applyWithRecovery\<close>, on the resolved edits.\<close>

definition apply_resolved ::
  "('f, 's, 'p) env \<Rightarrow> 's \<Rightarrow> raw_section \<Rightarrow> edit list \<Rightarrow> jstring \<Rightarrow> jstring \<Rightarrow> jstring option \<Rightarrow>
   bool \<Rightarrow> edit list \<Rightarrow> apply_result res \<times> 's" where
  "apply_resolved env s sec es canonicalPath normalized expected liveMatches resolved =
     (case expected of
        None \<Rightarrow> (applyEdits normalized resolved, s)
      | Some h \<Rightarrow>
          if liveMatches then (applyEdits normalized resolved, s)
          else if \<not> hasAnchorScopedEdit resolved then
            (rbind (applyEdits normalized resolved)
               (\<lambda>result. Inr (result\<lparr>ar_warnings := HeadtailDrift # ar_warnings result\<rparr>)), s)
          else
            (case tryRecover (en_snapshots env) (en_diff env) s canonicalPath normalized h resolved of
               (Some recovered, s1) \<Rightarrow> (Inr (recoveryToApplyResult recovered), s1)
             | (None, s1) \<Rightarrow>
                 (case so_byHash (en_snapshots env) s1 canonicalPath h of (snap, s2) \<Rightarrow>
                    (case mismatchError env s2 sec es canonicalPath normalized h (snap \<noteq> None) of
                       (e, s3) \<Rightarrow> (Inl e, s3)))))"

definition applyWithRecovery ::
  "('f, 's, 'p) env \<Rightarrow> 's \<Rightarrow> raw_section \<Rightarrow> jstring \<Rightarrow> bool \<Rightarrow> jstring \<Rightarrow> edit list \<Rightarrow>
   apply_result res \<times> 's" where
  "applyWithRecovery env s sec canonicalPath fileExists normalized es =
     (let expected = (if fileExists then rs_fileHash sec else None);
          liveMatches = (case expected of
            Some h \<Rightarrow> computeFileHash (en_xxh env) normalized = h | None \<Rightarrow> False)
      in if hasBlockEdit es then
           (case (if expected = None \<or> liveMatches then (Some normalized, s)
                  else (case so_byHash (en_snapshots env) s canonicalPath (the expected) of
                    (snap, s1) \<Rightarrow> (map_option sn_text snap, s1))) of
              (None, s1) \<Rightarrow>
                (case mismatchError env s1 sec es canonicalPath normalized
                        (case expected of Some h \<Rightarrow> h | None \<Rightarrow> []) False of
                   (e, s2) \<Rightarrow> (Inl e, s2))
            | (Some baseText, s1) \<Rightarrow>
                (case resolveBlockEdits es baseText (rs_path sec) (en_blockResolver env) Throw of
                   Inl e \<Rightarrow> (Inl e, s1)
                 | Inr resolved \<Rightarrow>
                     apply_resolved env s1 sec es canonicalPath normalized expected liveMatches resolved))
         else apply_resolved env s sec es canonicalPath normalized expected liveMatches es)"

section \<open>Prepare and commit\<close>

definition prepare ::
  "('f, 's, 'p) env \<Rightarrow> ('f, 's) world \<Rightarrow> raw_section \<Rightarrow> prepared_section res \<times> ('f, 's) world" where
  "prepare env w sec =
     (case section_parse sec of
        Inl e \<Rightarrow> (Inl e, w)
      | Inr (es, parseWarnings) \<Rightarrow>
     (case assertSectionHashPresent (rs_path sec) (rs_fileHash sec) of
        Inl e \<Rightarrow> (Inl e, w)
      | Inr _ \<Rightarrow>
     (let canonicalPath = fs_canonicalPath (en_fs env) (rs_path sec)
      in case fs_preflightWrite (en_fs env) (w_fs w) (rs_path sec) of
           Inl e \<Rightarrow> (Inl e, w)
         | Inr _ \<Rightarrow>
     (case tryRead env w (rs_path sec) of
        Inl e \<Rightarrow> (Inl e, w)
      | Inr (fileExists, rawContent) \<Rightarrow>
          if \<not> fileExists then (Inl (SectionFileMissing (rs_path sec)), w)
          else
     (case stripBom rawContent of (bom, str) \<Rightarrow>
        (let lineEnding = detectLineEnding str; normalized = normalizeToLF str
         in case applyWithRecovery env (w_snaps w) sec canonicalPath fileExists normalized es of
              (Inl e, s) \<Rightarrow> (Inl e, w\<lparr>w_snaps := s\<rparr>)
            | (Inr applyResult, s) \<Rightarrow>
                (Inr \<lparr>pp_section = sec, pp_canonicalPath = canonicalPath, pp_exists = fileExists,
                   pp_rawContent = rawContent, pp_bom = bom, pp_lineEnding = lineEnding,
                   pp_normalized = normalized, pp_applyResult = applyResult,
                   pp_parseWarnings = parseWarnings\<rparr>, w\<lparr>w_snaps := s\<rparr>)))))))"

definition commit ::
  "('f, 's, 'p) env \<Rightarrow> ('f, 's) world \<Rightarrow> prepared_section \<Rightarrow>
   patch_section_result res \<times> ('f, 's) world" where
  "commit env w pp =
     (let sec = pp_section pp; normalized = pp_normalized pp;
          after = ar_text (pp_applyResult pp);
          ws = mergeWarnings [pp_parseWarnings pp, ar_warnings (pp_applyResult pp)]
      in if after = normalized then
           (case so_record (en_snapshots env) (w_snaps w) (pp_canonicalPath pp) normalized of
              (hash, s) \<Rightarrow>
                (Inr \<lparr>pr_path = rs_path sec, pr_canonicalPath = pp_canonicalPath pp, pr_op = Noop,
                   pr_before = normalized, pr_after = normalized, pr_persisted = pp_rawContent pp,
                   pr_written = pp_rawContent pp, pr_fileHash = hash,
                   pr_header = formatHashlineHeader (rs_path sec) hash,
                   pr_firstChangedLine = None, pr_warnings = ws\<rparr>, w\<lparr>w_snaps := s\<rparr>))
         else
           (let persisted = pp_bom pp @ restoreLineEndings after (pp_lineEnding pp)
            in case fs_writeText (en_fs env) (w_fs w) (rs_path sec) persisted of
                 (Inl e, f) \<Rightarrow> (Inl e, w\<lparr>w_fs := f\<rparr>)
               | (Inr written, f) \<Rightarrow>
                   (case so_record (en_snapshots env) (w_snaps w) (pp_canonicalPath pp) after of
                      (fileHash, s) \<Rightarrow>
                        (Inr \<lparr>pr_path = rs_path sec, pr_canonicalPath = pp_canonicalPath pp,
                           pr_op = (if pp_exists pp then Update else Create),
                           pr_before = normalized, pr_after = after, pr_persisted = persisted,
                           pr_written = written, pr_fileHash = fileHash,
                           pr_header = formatHashlineHeader (rs_path sec) fileHash,
                           pr_firstChangedLine = ar_first (pp_applyResult pp),
                           pr_warnings = ws\<rparr>, w\<lparr>w_fs := f, w_snaps := s\<rparr>))))"

section \<open>Whole patches\<close>

fun prepare_all ::
  "('f, 's, 'p) env \<Rightarrow> ('f, 's) world \<Rightarrow> raw_section list \<Rightarrow>
   prepared_section list res \<times> ('f, 's) world" where
  "prepare_all env w [] = (Inr [], w)"
| "prepare_all env w (sec # secs) =
     (case prepare env w sec of
        (Inl e, w1) \<Rightarrow> (Inl e, w1)
      | (Inr pp, w1) \<Rightarrow>
          (case prepare_all env w1 secs of
             (Inl e, w2) \<Rightarrow> (Inl e, w2) | (Inr pps, w2) \<Rightarrow> (Inr (pp # pps), w2)))"

fun commit_all ::
  "('f, 's, 'p) env \<Rightarrow> ('f, 's) world \<Rightarrow> prepared_section list \<Rightarrow>
   patch_section_result list res \<times> ('f, 's) world" where
  "commit_all env w [] = (Inr [], w)"
| "commit_all env w (pp # pps) =
     (case commit env w pp of
        (Inl e, w1) \<Rightarrow> (Inl e, w1)
      | (Inr r, w1) \<Rightarrow>
          (case commit_all env w1 pps of
             (Inl e, w2) \<Rightarrow> (Inl e, w2) | (Inr rs, w2) \<Rightarrow> (Inr (r # rs), w2)))"

definition check_batch :: "prepared_section list \<Rightarrow> unit res" where
  "check_batch pps =
     rbind (assertUniqueCanonicalPaths pps) (\<lambda>_.
       case find isNoop pps of
         Some pp \<Rightarrow> Inl (NoChanges (rs_path (pp_section pp))) | None \<Rightarrow> Inr ())"

definition patcher_apply ::
  "('f, 's, 'p) env \<Rightarrow> ('f, 's) world \<Rightarrow> raw_section list \<Rightarrow>
   patch_section_result list res \<times> ('f, 's) world" where
  "patcher_apply env w secs =
     (if length secs = 1 then
        (case prepare env w (secs ! 0) of
           (Inl e, w1) \<Rightarrow> (Inl e, w1)
         | (Inr pp, w1) \<Rightarrow>
             (case commit env w1 pp of (Inl e, w2) \<Rightarrow> (Inl e, w2) | (Inr r, w2) \<Rightarrow> (Inr [r], w2)))
      else
        (case prepare_all env w secs of
           (Inl e, w1) \<Rightarrow> (Inl e, w1)
         | (Inr pps, w1) \<Rightarrow>
             (case check_batch pps of Inl e \<Rightarrow> (Inl e, w1) | Inr _ \<Rightarrow> commit_all env w1 pps)))"

definition preflight ::
  "('f, 's, 'p) env \<Rightarrow> ('f, 's) world \<Rightarrow> raw_section list \<Rightarrow> unit res \<times> ('f, 's) world" where
  "preflight env w secs =
     (case prepare_all env w secs of
        (Inl e, w1) \<Rightarrow> (Inl e, w1) | (Inr pps, w1) \<Rightarrow> (check_batch pps, w1))"

section \<open>Preparing never writes\<close>

lemma prepare_fs: "prepare env w sec = (r, w') \<Longrightarrow> w_fs w' = w_fs w"
  by (auto simp: prepare_def Let_def split: sum.splits prod.splits if_splits)

lemma prepare_all_fs: "prepare_all env w secs = (r, w') \<Longrightarrow> w_fs w' = w_fs w"
proof (induction secs arbitrary: w r w')
  case (Cons sec secs)
  then show ?case
    by (auto split: sum.splits prod.splits dest!: prepare_fs)
qed simp

section \<open>What is written\<close>

lemma commit_error:
  "commit env w pp = (Inl e, w') \<Longrightarrow>
   \<exists>f' persisted. fs_writeText (en_fs env) (w_fs w) (rs_path (pp_section pp)) persisted = (Inl e, f')"
  by (auto simp: commit_def Let_def split: if_splits prod.splits sum.splits)

lemma commit_all_error:
  "commit_all env w pps = (Inl e, w') \<Longrightarrow> \<exists>f p c f'. fs_writeText (en_fs env) f p c = (Inl e, f')"
  by (induction pps arbitrary: w w')
     (force split: prod.splits sum.splits dest!: commit_error)+

lemma patcher_apply_error:
  assumes "patcher_apply env w secs = (Inl e, w')"
  shows "w_fs w' = w_fs w \<or> (\<exists>f p c f'. fs_writeText (en_fs env) f p c = (Inl e, f'))"
proof (cases "length secs = 1")
  case True
  obtain r1 w1 where p: "prepare env w (secs ! 0) = (r1, w1)" by fastforce
  show ?thesis
  proof (cases r1)
    case (Inl a)
    then show ?thesis using assms True p prepare_fs [OF p] by (simp add: patcher_apply_def)
  next
    case (Inr pp)
    then have "commit env w1 pp = (Inl e, w')"
      using assms True p by (simp add: patcher_apply_def split: prod.splits sum.splits)
    then show ?thesis using commit_error by blast
  qed
next
  case False
  obtain r1 w1 where p: "prepare_all env w secs = (r1, w1)" by fastforce
  have fs: "w_fs w1 = w_fs w" by (rule prepare_all_fs [OF p])
  show ?thesis
  proof (cases r1)
    case (Inl a)
    then show ?thesis using assms False p fs by (simp add: patcher_apply_def)
  next
    case (Inr pps)
    show ?thesis
    proof (cases "check_batch pps")
      case (Inl a)
      then show ?thesis using assms False p Inr fs by (simp add: patcher_apply_def)
    next
      case (Inr u)
      then have "commit_all env w1 pps = (Inl e, w')"
        using assms False p \<open>r1 = Inr pps\<close> by (simp add: patcher_apply_def)
      then show ?thesis using commit_all_error by blast
    qed
  qed
qed

lemma prepare_section:
  "prepare env w sec = (Inr pp, w') \<Longrightarrow>
   pp_section pp = sec \<and> pp_canonicalPath pp = fs_canonicalPath (en_fs env) (rs_path sec) \<and>
   pp_exists pp \<and> fs_readText (en_fs env) (w_fs w) (rs_path sec) = Inr (pp_rawContent pp)"
  by (auto simp: prepare_def Let_def tryRead_def split: sum.splits prod.splits if_splits)

lemma prepare_all_sections:
  "prepare_all env w secs = (Inr pps, w') \<Longrightarrow>
   list_all2 (\<lambda>sec pp. pp_section pp = sec \<and>
     pp_canonicalPath pp = fs_canonicalPath (en_fs env) (rs_path sec) \<and> pp_exists pp \<and>
     fs_readText (en_fs env) (w_fs w) (rs_path sec) = Inr (pp_rawContent pp)) secs pps"
proof (induction secs arbitrary: w w' pps)
  case (Cons sec secs)
  obtain pp w1 where p: "prepare env w sec = (Inr pp, w1)"
    using Cons.prems by (auto split: prod.splits sum.splits)
  obtain pps1 where r: "prepare_all env w1 secs = (Inr pps1, w')" "pps = pp # pps1"
    using Cons.prems p by (auto split: prod.splits sum.splits)
  show ?case using Cons.IH [OF r(1)] prepare_section [OF p] prepare_fs [OF p] r(2) by simp
qed simp

lemma unique_loop_ok:
  "unique_loop seen pps = Inr u \<longleftrightarrow>
   distinct (map pp_canonicalPath pps) \<and> (\<forall>pp\<in>set pps. map_get seen (pp_canonicalPath pp) = None)"
proof (induction pps arbitrary: seen)
  case (Cons pp pps)
  show ?case
  proof (cases "map_get seen (pp_canonicalPath pp)")
    case None
    then have "unique_loop seen (pp # pps) = Inr u \<longleftrightarrow> distinct (map pp_canonicalPath pps) \<and>
        (\<forall>q\<in>set pps. map_get (map_set seen (pp_canonicalPath pp) (rs_path (pp_section pp)))
           (pp_canonicalPath q) = None)"
      using Cons.IH by simp
    also have "\<dots> \<longleftrightarrow> distinct (map pp_canonicalPath (pp # pps)) \<and>
        (\<forall>q\<in>set (pp # pps). map_get seen (pp_canonicalPath q) = None)"
      using None by (auto simp: map_get_set split: if_splits) (metis imageI)
    finally show ?thesis .
  qed simp
qed simp

lemma check_batch_ok:
  "check_batch pps = Inr u \<longleftrightarrow> distinct (map pp_canonicalPath pps) \<and> (\<forall>pp\<in>set pps. \<not> isNoop pp)"
proof -
  have "check_batch pps = Inr u \<longleftrightarrow>
      assertUniqueCanonicalPaths pps = Inr () \<and> find isNoop pps = None"
    by (cases "assertUniqueCanonicalPaths pps") (auto simp: check_batch_def split: option.splits)
  then show ?thesis
    by (auto simp: assertUniqueCanonicalPaths_def unique_loop_ok find_None_iff map_get_def)
qed

text \<open>
  What the result of a section says about the file before and after: \<open>before\<close> is its text
  without mark and with LF line ends, and \<open>persisted\<close> is \<open>after\<close> in the shape the file had.
\<close>

definition live_text :: "jstring \<Rightarrow> jstring" where
  "live_text raw = normalizeToLF (snd (stripBom raw))"

definition in_shape_of :: "jstring \<Rightarrow> jstring \<Rightarrow> jstring" where
  "in_shape_of raw after =
     fst (stripBom raw) @ restoreLineEndings after (detectLineEnding (snd (stripBom raw)))"

definition result_of :: "('f, 's, 'p) env \<Rightarrow> 'f \<Rightarrow> raw_section \<Rightarrow> patch_section_result \<Rightarrow> bool" where
  "result_of env f sec r =
     (pr_path r = rs_path sec \<and> pr_canonicalPath r = fs_canonicalPath (en_fs env) (rs_path sec) \<and>
      (\<exists>raw. fs_readText (en_fs env) f (rs_path sec) = Inr raw \<and> pr_before r = live_text raw \<and>
         (if pr_after r = pr_before r then pr_op r = Noop \<and> pr_persisted r = raw \<and> pr_written r = raw
          else pr_op r = Update \<and> pr_persisted r = in_shape_of raw (pr_after r))))"

lemma prepare_shape:
  "prepare env w sec = (Inr pp, w') \<Longrightarrow>
   pp_section pp = sec \<and> pp_canonicalPath pp = fs_canonicalPath (en_fs env) (rs_path sec) \<and>
   pp_exists pp \<and> fs_readText (en_fs env) (w_fs w) (rs_path sec) = Inr (pp_rawContent pp) \<and>
   pp_bom pp = fst (stripBom (pp_rawContent pp)) \<and>
   pp_lineEnding pp = detectLineEnding (snd (stripBom (pp_rawContent pp))) \<and>
   pp_normalized pp = live_text (pp_rawContent pp)"
  by (auto simp: prepare_def Let_def tryRead_def live_text_def
      split: sum.splits prod.splits if_splits)

definition prepared_from :: "('f, 's, 'p) env \<Rightarrow> 'f \<Rightarrow> raw_section \<Rightarrow> prepared_section \<Rightarrow> bool" where
  "prepared_from env f sec pp =
     (pp_section pp = sec \<and> pp_canonicalPath pp = fs_canonicalPath (en_fs env) (rs_path sec) \<and>
      pp_exists pp \<and> fs_readText (en_fs env) f (rs_path sec) = Inr (pp_rawContent pp) \<and>
      pp_bom pp = fst (stripBom (pp_rawContent pp)) \<and>
      pp_lineEnding pp = detectLineEnding (snd (stripBom (pp_rawContent pp))) \<and>
      pp_normalized pp = live_text (pp_rawContent pp))"

lemma prepare_from: "prepare env w sec = (Inr pp, w') \<Longrightarrow> prepared_from env (w_fs w) sec pp"
  using prepare_shape [of env w sec pp w'] by (simp add: prepared_from_def)

lemma prepare_all_from:
  "prepare_all env w secs = (Inr pps, w') \<Longrightarrow> list_all2 (prepared_from env (w_fs w)) secs pps"
proof (induction secs arbitrary: w w' pps)
  case (Cons sec secs)
  obtain pp w1 where p: "prepare env w sec = (Inr pp, w1)"
    using Cons.prems by (auto split: prod.splits sum.splits)
  obtain pps1 where r: "prepare_all env w1 secs = (Inr pps1, w')" "pps = pp # pps1"
    using Cons.prems p by (auto split: prod.splits sum.splits)
  show ?case using Cons.IH [OF r(1)] prepare_from [OF p] prepare_fs [OF p] r(2) by simp
qed simp

lemma commit_result:
  assumes "commit env w pp = (Inr r, w')" "prepared_from env f sec pp"
  shows "result_of env f sec r \<and>
    (if pr_op r = Noop then isNoop pp \<and> w_fs w' = w_fs w \<and> pr_written r = pp_rawContent pp
     else \<not> isNoop pp \<and>
       fs_writeText (en_fs env) (w_fs w) (pr_path r) (pr_persisted r) = (Inr (pr_written r), w_fs w'))"
  using assms
  by (auto simp: commit_def Let_def prepared_from_def result_of_def in_shape_of_def isNoop_def
      split: if_splits prod.splits sum.splits)

context filesystem
begin

lemma commit_frame:
  assumes "commit env w pp = (Inr r, w')" "prepared_from env f sec pp" "en_fs env = ops"
    and "fs_canonicalPath ops q \<noteq> fs_canonicalPath ops (rs_path sec) \<or> pr_op r = Noop"
  shows "fs_readText ops (w_fs w') q = fs_readText ops (w_fs w) q"
  using commit_result [OF assms(1,2)] assms(3,4) write_other
  by (auto simp: result_of_def split: if_splits)

lemma commit_all_result:
  assumes "commit_all env w pps = (Inr rs, w')" "list_all2 (prepared_from env f) secs pps"
    and "en_fs env = ops" "distinct (map pp_canonicalPath pps)"
    and "\<forall>pp\<in>set pps. fs_readText ops (w_fs w) (rs_path (pp_section pp)) = Inr (pp_rawContent pp)"
  shows "list_all2 (result_of env f) secs rs \<and>
    (\<forall>r\<in>set rs. fs_readText ops (w_fs w') (pr_path r) = Inr (pr_written r)) \<and>
    (\<forall>q. fs_canonicalPath ops q \<notin> pr_canonicalPath ` {r \<in> set rs. pr_op r = Update} \<longrightarrow>
       fs_readText ops (w_fs w') q = fs_readText ops (w_fs w) q)"
  using assms
proof (induction pps arbitrary: w rs secs)
  case (Cons pp pps)
  obtain r w1 where c: "commit env w pp = (Inr r, w1)"
    using Cons.prems(1) by (auto split: prod.splits sum.splits)
  obtain rs1 where r: "commit_all env w1 pps = (Inr rs1, w')" "rs = r # rs1"
    using Cons.prems(1) c by (auto split: prod.splits sum.splits)
  obtain sec secs1 where s: "secs = sec # secs1" "prepared_from env f sec pp"
      "list_all2 (prepared_from env f) secs1 pps"
    using Cons.prems(2) by (auto simp: list_all2_Cons2)
  have sec: "pp_section pp = sec" "pp_canonicalPath pp = fs_canonicalPath ops (rs_path sec)"
    using s(2) Cons.prems(3) by (auto simp: prepared_from_def)
  have canon: "\<forall>pp'\<in>set pps. pp_canonicalPath pp' = fs_canonicalPath ops (rs_path (pp_section pp'))"
    using s(3) Cons.prems(3) by (fastforce simp: prepared_from_def list_all2_conv_all_nth in_set_conv_nth)
  note res = commit_result [OF c s(2)]
  have rp: "pr_path r = rs_path sec" "pr_canonicalPath r = fs_canonicalPath ops (rs_path sec)"
    using res Cons.prems(3) by (auto simp: result_of_def)
  have frame: "fs_readText ops (w_fs w1) q = fs_readText ops (w_fs w) q"
    if "fs_canonicalPath ops q \<noteq> fs_canonicalPath ops (rs_path sec) \<or> pr_op r = Noop" for q
    by (rule commit_frame [OF c s(2) Cons.prems(3) that])
  have raw1: "\<forall>pp'\<in>set pps. fs_readText ops (w_fs w1) (rs_path (pp_section pp')) = Inr (pp_rawContent pp')"
  proof
    fix pp' assume p': "pp' \<in> set pps"
    then have "pp_canonicalPath pp' \<noteq> pp_canonicalPath pp"
      using Cons.prems(4) by auto (metis imageI)
    then have "fs_canonicalPath ops (rs_path (pp_section pp')) \<noteq> fs_canonicalPath ops (rs_path sec)"
      using canon p' sec(2) by metis
    then show "fs_readText ops (w_fs w1) (rs_path (pp_section pp')) = Inr (pp_rawContent pp')"
      using frame Cons.prems(5) p' by simp
  qed
  note ih = Cons.IH [OF r(1) s(3) Cons.prems(3) _ raw1]
  have ih': "list_all2 (result_of env f) secs1 rs1"
    "\<forall>r\<in>set rs1. fs_readText ops (w_fs w') (pr_path r) = Inr (pr_written r)"
    "\<forall>q. fs_canonicalPath ops q \<notin> pr_canonicalPath ` {r \<in> set rs1. pr_op r = Update} \<longrightarrow>
       fs_readText ops (w_fs w') q = fs_readText ops (w_fs w1) q"
    using ih Cons.prems(4) by auto
  have own: "fs_readText ops (w_fs w1) (pr_path r) = Inr (pr_written r)"
  proof (cases "pr_op r = Noop")
    case True
    then show ?thesis using res frame Cons.prems(5) rp sec by auto
  next
    case False
    then show ?thesis using res write_read Cons.prems(3) by auto
  qed
  have others: "pr_canonicalPath ` set rs1 = pp_canonicalPath ` set pps"
  proof -
    have "map pr_canonicalPath rs1 = map pp_canonicalPath pps"
      using ih'(1) s(3) by (auto simp: list_all2_conv_all_nth result_of_def prepared_from_def
          intro!: nth_equalityI)
    then show ?thesis by (metis list.set_map)
  qed
  have "fs_readText ops (w_fs w') (pr_path r) = Inr (pr_written r)"
  proof -
    have "fs_canonicalPath ops (rs_path sec) \<notin> pp_canonicalPath ` set pps"
      using Cons.prems(4) sec(2) by auto
    then have "fs_canonicalPath ops (pr_path r) \<notin> pr_canonicalPath ` {r \<in> set rs1. pr_op r = Update}"
      using others rp by auto
    then show ?thesis using ih'(3) own by simp
  qed
  moreover have "fs_readText ops (w_fs w') q = fs_readText ops (w_fs w) q"
    if "fs_canonicalPath ops q \<notin> pr_canonicalPath ` {r \<in> set rs. pr_op r = Update}" for q
  proof -
    have "pr_op r = Noop \<or> pr_op r = Update" using res by (auto simp: result_of_def split: if_splits)
    then have "fs_readText ops (w_fs w1) q = fs_readText ops (w_fs w) q"
    proof (cases "pr_op r = Noop")
      case False
      then have "pr_canonicalPath r \<in> pr_canonicalPath ` {r \<in> set rs. pr_op r = Update}"
        using \<open>pr_op r = Noop \<or> pr_op r = Update\<close> r(2) by auto
      then show ?thesis using that frame rp by metis
    qed (rule frame, simp)
    then show ?thesis using that ih'(3) r(2) by auto
  qed
  ultimately show ?case using ih' res r(2) s(1) by simp
qed simp

end

lemma commit_all_ops:
  "commit_all env w pps = (Inr rs, w') \<Longrightarrow> list_all2 (\<lambda>pp r. pr_op r = Noop \<longrightarrow> isNoop pp) pps rs"
proof (induction pps arbitrary: w rs)
  case (Cons pp pps)
  obtain r w1 where c: "commit env w pp = (Inr r, w1)"
    using Cons.prems by (auto split: prod.splits sum.splits)
  then obtain rs1 where r: "commit_all env w1 pps = (Inr rs1, w')" "rs = r # rs1"
    using Cons.prems by (auto split: prod.splits sum.splits)
  have "pr_op r = Noop \<longrightarrow> isNoop pp"
    using c by (auto simp: commit_def Let_def isNoop_def split: if_splits prod.splits sum.splits)
  then show ?case using Cons.IH [OF r(1)] r(2) by simp
qed simp

lemma patcher_success:
  assumes "filesystem (en_fs env)" "patcher_apply env w secs = (Inr rs, w')"
  shows "list_all2 (result_of env (w_fs w)) secs rs \<and> distinct (map pr_canonicalPath rs) \<and>
    (\<forall>r\<in>set rs. fs_readText (en_fs env) (w_fs w') (pr_path r) = Inr (pr_written r)) \<and>
    (\<forall>q. fs_canonicalPath (en_fs env) q \<notin> pr_canonicalPath ` {r \<in> set rs. pr_op r = Update} \<longrightarrow>
       fs_readText (en_fs env) (w_fs w') q = fs_readText (en_fs env) (w_fs w) q) \<and>
    (length secs \<noteq> 1 \<longrightarrow> (\<forall>r\<in>set rs. pr_op r = Update))"
proof -
  obtain pps w1 where p: "prepare_all env w secs = (Inr pps, w1)" "commit_all env w1 pps = (Inr rs, w')"
    "length secs \<noteq> 1 \<longrightarrow> check_batch pps = Inr ()"
  proof (cases "length secs = 1")
    case True
    then obtain sec where sec: "secs = [sec]" by (auto simp: length_Suc_conv)
    show ?thesis using assms(2) that unfolding patcher_apply_def sec
      by (auto split: prod.splits sum.splits)
  next
    case False
    then show ?thesis using assms(2) that unfolding patcher_apply_def
      by (auto split: prod.splits sum.splits)
  qed
  have fs: "w_fs w1 = w_fs w" by (rule prepare_all_fs [OF p(1)])
  note pfrom = prepare_all_from [OF p(1)]
  have len: "length pps = length secs" using pfrom by (simp add: list_all2_conv_all_nth)
  have dist: "distinct (map pp_canonicalPath pps)"
    using p(3) len check_batch_ok by (cases pps; cases "length secs = 1") (auto simp: length_Suc_conv)
  have raw: "\<forall>pp\<in>set pps. fs_readText (en_fs env) (w_fs w1) (rs_path (pp_section pp)) = Inr (pp_rawContent pp)"
    using pfrom fs by (fastforce simp: prepared_from_def list_all2_conv_all_nth in_set_conv_nth)
  note all = filesystem.commit_all_result [OF assms(1) p(2) pfrom refl dist raw]
  have "map pr_canonicalPath rs = map pp_canonicalPath pps"
    using all pfrom by (auto simp: list_all2_conv_all_nth result_of_def prepared_from_def
        intro!: nth_equalityI)
  moreover have "pr_op r = Update" if "length secs \<noteq> 1" "r \<in> set rs" for r
  proof -
    obtain i where i: "i < length rs" "r = rs ! i" using \<open>r \<in> set rs\<close> by (auto simp: in_set_conv_nth)
    then have "i < length pps" "pr_op r = Noop \<longrightarrow> isNoop (pps ! i)" "result_of env (w_fs w) (secs ! i) r"
      using commit_all_ops [OF p(2)] all len by (auto simp: list_all2_conv_all_nth)
    moreover have "\<not> isNoop (pps ! i)"
      using p(3) that(1) \<open>i < length pps\<close> by (simp add: check_batch_ok)
    ultimately show ?thesis by (auto simp: result_of_def split: if_splits)
  qed
  ultimately show ?thesis using all dist fs by simp
qed

section \<open>The tag\<close>

text \<open>The edits a section means for the text they are resolved against.\<close>

definition resolved_for :: "('f, 's, 'p) env \<Rightarrow> raw_section \<Rightarrow> edit list \<Rightarrow> jstring \<Rightarrow> edit list res" where
  "resolved_for env sec es body =
     (if hasBlockEdit es then resolveBlockEdits es body (rs_path sec) (en_blockResolver env) Throw
      else Inr es)"

definition prepared_with ::
  "('f, 's, 'p) env \<Rightarrow> raw_section \<Rightarrow> jstring \<Rightarrow> warning list \<Rightarrow> apply_result \<Rightarrow> prepared_section" where
  "prepared_with env sec raw ws a =
     \<lparr>pp_section = sec, pp_canonicalPath = fs_canonicalPath (en_fs env) (rs_path sec),
      pp_exists = True, pp_rawContent = raw, pp_bom = fst (stripBom raw),
      pp_lineEnding = detectLineEnding (snd (stripBom raw)), pp_normalized = live_text raw,
      pp_applyResult = a, pp_parseWarnings = ws\<rparr>"

lemma prepare_eq:
  assumes "section_parse sec = Inr (es, pw)" "rs_fileHash sec = Some h"
    and "fs_preflightWrite (en_fs env) (w_fs w) (rs_path sec) = Inr ()"
    and "fs_readText (en_fs env) (w_fs w) (rs_path sec) = Inr raw"
  shows "prepare env w sec =
    (case applyWithRecovery env (w_snaps w) sec (fs_canonicalPath (en_fs env) (rs_path sec)) True
            (live_text raw) es of
       (Inl e, s) \<Rightarrow> (Inl e, w\<lparr>w_snaps := s\<rparr>)
     | (Inr a, s) \<Rightarrow> (Inr (prepared_with env sec raw pw a), w\<lparr>w_snaps := s\<rparr>))"
  using assms
  by (simp add: prepare_def tryRead_def assertSectionHashPresent_def live_text_def prepared_with_def
      Let_def split: prod.splits sum.splits)

lemma prepare_Inr:
  assumes "prepare env w sec = (Inr pp, w')"
  obtains es pw h raw where "section_parse sec = Inr (es, pw)" "rs_fileHash sec = Some h"
    "fs_preflightWrite (en_fs env) (w_fs w) (rs_path sec) = Inr ()"
    "fs_readText (en_fs env) (w_fs w) (rs_path sec) = Inr raw"
    "applyWithRecovery env (w_snaps w) sec (fs_canonicalPath (en_fs env) (rs_path sec)) True
       (live_text raw) es = (Inr (pp_applyResult pp), w_snaps w')"
    "pp = prepared_with env sec raw pw (pp_applyResult pp)"
  using assms
  by (auto simp: prepare_def tryRead_def assertSectionHashPresent_def live_text_def prepared_with_def
      Let_def split: prod.splits sum.splits if_splits)

lemma apply_live:
  assumes "rs_fileHash sec = Some h" "computeFileHash (en_xxh env) body = h"
  shows "applyWithRecovery env s sec p True body es =
    (rbind (resolved_for env sec es body) (applyEdits body), s)"
  using assms
  by (auto simp: applyWithRecovery_def resolved_for_def apply_resolved_def Let_def
      split: sum.splits)

lemma prepare_live:
  assumes "section_parse sec = Inr (es, pw)" "rs_fileHash sec = Some h"
    and "fs_preflightWrite (en_fs env) (w_fs w) (rs_path sec) = Inr ()"
    and "fs_readText (en_fs env) (w_fs w) (rs_path sec) = Inr raw"
    and "computeFileHash (en_xxh env) (live_text raw) = h"
  shows "prepare env w sec =
    (case rbind (resolved_for env sec es (live_text raw)) (applyEdits (live_text raw)) of
       Inl e \<Rightarrow> Inl e | Inr a \<Rightarrow> Inr (prepared_with env sec raw pw a), w)"
  by (simp add: prepare_eq [OF assms(1-4)] apply_live [OF assms(2,5)] split: sum.splits)

text \<open>What a stale tag leaves possible.\<close>

lemma apply_stale:
  assumes "applyWithRecovery env s sec p True body es = (Inr a, s')"
    and "rs_fileHash sec = Some h" "computeFileHash (en_xxh env) body \<noteq> h"
  shows "\<exists>base resolved s1. resolved_for env sec es base = Inr resolved \<and>
    (if hasBlockEdit es
     then \<exists>snap. so_byHash (en_snapshots env) s p h = (Some snap, s1) \<and> base = sn_text snap
     else s1 = s) \<and>
    (\<not> list_ex anchor_scoped resolved \<and>
       (\<exists>b. applyEdits body resolved = Inr b \<and> a = b\<lparr>ar_warnings := HeadtailDrift # ar_warnings b\<rparr>) \<or>
     list_ex anchor_scoped resolved \<and>
       (\<exists>r. tryRecover (en_snapshots env) (en_diff env) s1 p body h resolved = (Some r, s') \<and>
         a = recoveryToApplyResult r))"
proof -
  have rest: "\<not> list_ex anchor_scoped resolved \<and>
       (\<exists>b. applyEdits body resolved = Inr b \<and> a = b\<lparr>ar_warnings := HeadtailDrift # ar_warnings b\<rparr>) \<or>
     list_ex anchor_scoped resolved \<and>
       (\<exists>r. tryRecover (en_snapshots env) (en_diff env) s1 p body h resolved = (Some r, s') \<and>
         a = recoveryToApplyResult r)"
    if "apply_resolved env s1 sec es p body (Some h) False resolved = (Inr a, s')" for s1 resolved
    using that
    by (cases "applyEdits body resolved")
       (auto simp: apply_resolved_def hasAnchorScopedEdit_def split: if_splits prod.splits option.splits)
  show ?thesis
  proof (cases "hasBlockEdit es")
    case True
    obtain o1 s1 where b: "so_byHash (en_snapshots env) s p h = (o1, s1)" by fastforce
    obtain snap where o1: "o1 = Some snap"
      using assms True b by (cases o1) (auto simp: applyWithRecovery_def Let_def split: prod.splits)
    obtain resolved where r: "resolveBlockEdits es (sn_text snap) (rs_path sec) (en_blockResolver env) Throw
        = Inr resolved"
      "apply_resolved env s1 sec es p body (Some h) False resolved = (Inr a, s')"
      using assms True b o1
      by (auto simp: applyWithRecovery_def Let_def split: prod.splits sum.splits)
    show ?thesis
      using True b o1 r rest [OF r(2)]
      by (intro exI [of _ "sn_text snap"] exI [of _ resolved] exI [of _ s1])
         (simp add: resolved_for_def)
  next
    case False
    then have "apply_resolved env s sec es p body (Some h) False es = (Inr a, s')"
      using assms by (simp add: applyWithRecovery_def Let_def)
    from rest [OF this] show ?thesis
      using False by (intro exI [of _ body] exI [of _ es] exI [of _ s]) (simp add: resolved_for_def)
  qed
qed

end
