(* ===== verification/Patcher_Correct.thy ===== *)
theory Patcher_Correct
  imports Patcher Edit_Semantics
begin

text \<open>
  What the patcher guarantees: nothing is written unless everything was prepared, a success
  changes exactly the files of the patch, a live tag means a direct application and a stale
  one a guarded one, and the tag that a result carries is live for the next patch.
\<close>

section \<open>Examples\<close>

text \<open>The patcher on the in-memory file system and store, without a resolver.\<close>

definition mem_env :: "(mem_fs, lru_list mem_store, jstring \<times> jstring) env" where
  "mem_env = \<lparr>en_fs = mem_fs_ops, en_snapshots = mem_store_ops lru_list_ops sum_list,
     en_diff = exact_diff, en_xxh = sum_list, en_blockResolver = None\<rparr>"

definition mem_world :: "(jstring \<times> jstring) list \<Rightarrow> (mem_fs, lru_list mem_store) world" where
  "mem_world files = \<lparr>w_fs = mem_fs_new files, w_snaps = empty_store\<rparr>"

lemma mem_env_fs: "filesystem (en_fs mem_env)"
  unfolding mem_env_def env.simps by (rule mem_files.filesystem_axioms)

section \<open>All or nothing\<close>

text \<open>
  C2: a patch that fails has written nothing, whatever failed (parse, missing tag, missing
  file, stale tag, two sections for one file, a section without effect), in whichever section,
  unless the failure is that of a write itself.
\<close>

theorem failed_patch_writes_nothing:
  assumes "patcher_apply env w secs = (Inl e, w')"
  shows "w_fs w' = w_fs w \<or> (\<exists>f p c f'. fs_writeText (en_fs env) f p c = (Inl e, f'))"
  by (rule patcher_apply_error [OF assms])

definition two_files :: "(mem_fs, lru_list mem_store) world" where
  "two_files = mem_world [(js ''a'', js ''x''), (js ''b'', js ''y'')]"

definition stale_patch :: "raw_section list" where
  "stale_patch =
     [doc_section (js ''a'', 120, [(TEof, [js ''z''])]),
      doc_section (js ''b'', 7, [(TDelete (ParsedRange 1 1), [])])]"

theorem failed_patch_writes_nothing_witness:
  "let w' = snd (patcher_apply mem_env two_files stale_patch);
       e = Mismatch (js ''b'') (js ''0007'') (js ''0079'') [js ''y''] [1] False
   in w_fs w' = w_fs two_files \<or> (\<exists>f p c f'. fs_writeText (en_fs mem_env) f p c = (Inl e, f'))"
proof -
  have "fst (patcher_apply mem_env two_files stale_patch) =
      Inl (Mismatch (js ''b'') (js ''0007'') (js ''0079'') [js ''y''] [1] False)"
    by code_simp
  then have "patcher_apply mem_env two_files stale_patch =
      (Inl (Mismatch (js ''b'') (js ''0007'') (js ''0079'') [js ''y''] [1] False),
       snd (patcher_apply mem_env two_files stale_patch))" by (metis prod.collapse)
  from failed_patch_writes_nothing [OF this] show ?thesis by (simp add: Let_def)
qed

section \<open>Success\<close>

text \<open>
  C3: when a patch succeeds there is one result per section, in order, all for different files;
  each file of a result reads as what was written, every other file is unchanged, \<open>before\<close> is
  the text the file had, \<open>persisted\<close> is \<open>after\<close> with the mark and line ends the file had, and
  a section without effect is possible only in a patch of one section.
\<close>

theorem applied_patch_changes_its_files_only:
  assumes "filesystem (en_fs env)" "patcher_apply env w secs = (Inr rs, w')"
  shows "list_all2 (result_of env (w_fs w)) secs rs \<and> distinct (map pr_canonicalPath rs) \<and>
    (\<forall>r\<in>set rs. fs_readText (en_fs env) (w_fs w') (pr_path r) = Inr (pr_written r)) \<and>
    (\<forall>q. fs_canonicalPath (en_fs env) q \<notin> pr_canonicalPath ` {r \<in> set rs. pr_op r = Update} \<longrightarrow>
       fs_readText (en_fs env) (w_fs w') q = fs_readText (en_fs env) (w_fs w) q) \<and>
    (length secs \<noteq> 1 \<longrightarrow> (\<forall>r\<in>set rs. pr_op r = Update))"
  by (rule patcher_success [OF assms])

definition live_patch :: "raw_section list" where
  "live_patch =
     [doc_section (js ''a'', 120, [(TEof, [js ''z''])]),
      doc_section (js ''b'', 121, [(TBof, [js ''u''])])]"

theorem applied_patch_changes_its_files_only_witness:
  "let rs = projr (fst (patcher_apply mem_env two_files live_patch));
       w' = snd (patcher_apply mem_env two_files live_patch)
   in list_all2 (result_of mem_env (w_fs two_files)) live_patch rs \<and> distinct (map pr_canonicalPath rs) \<and>
    (\<forall>r\<in>set rs. fs_readText (en_fs mem_env) (w_fs w') (pr_path r) = Inr (pr_written r)) \<and>
    (\<forall>q. fs_canonicalPath (en_fs mem_env) q \<notin> pr_canonicalPath ` {r \<in> set rs. pr_op r = Update} \<longrightarrow>
       fs_readText (en_fs mem_env) (w_fs w') q = fs_readText (en_fs mem_env) (w_fs two_files) q) \<and>
    (length live_patch \<noteq> 1 \<longrightarrow> (\<forall>r\<in>set rs. pr_op r = Update))"
proof -
  have ok: "\<not> isl (fst (patcher_apply mem_env two_files live_patch))" by code_simp
  let ?r = "patcher_apply mem_env two_files live_patch"
  have "?r = (Inr (projr (fst ?r)), snd ?r)"
    by (rule prod_eqI) (use ok in \<open>simp_all add: sum.collapse(2)\<close>)
  from applied_patch_changes_its_files_only [OF mem_env_fs this] show ?thesis unfolding Let_def .
qed

section \<open>The tag decides\<close>

text \<open>
  A section whose tag is that of the live text is prepared by expanding its blocks against
  the live text and applying the edits to it, directly: no recovery, no warning of its own,
  and neither files nor store change; it fails exactly when that application does.
\<close>

theorem live_tag_applies_directly:
  assumes "section_parse sec = Inr (es, pw)" "rs_fileHash sec = Some h"
    and "fs_preflightWrite (en_fs env) (w_fs w) (rs_path sec) = Inr ()"
    and "fs_readText (en_fs env) (w_fs w) (rs_path sec) = Inr raw"
    and "computeFileHash (en_xxh env) (live_text raw) = h"
  shows "prepare env w sec =
    (case rbind (resolved_for env sec es (live_text raw)) (applyEdits (live_text raw)) of
       Inl e \<Rightarrow> Inl e | Inr a \<Rightarrow> Inr (prepared_with env sec raw pw a), w)"
  by (rule prepare_live [OF assms])

theorem live_tag_applies_directly_witness:
  "prepare mem_env two_files (doc_section (js ''a'', 120, [(TEof, [js ''z''])])) =
    (case rbind (resolved_for mem_env (doc_section (js ''a'', 120, [(TEof, [js ''z''])]))
             [Insert Eof (js ''z'') 1 0 False] (live_text (js ''x'')))
            (applyEdits (live_text (js ''x''))) of
       Inl e \<Rightarrow> Inl e
     | Inr a \<Rightarrow> Inr (prepared_with mem_env (doc_section (js ''a'', 120, [(TEof, [js ''z''])])) (js ''x'') [] a),
     two_files)"
proof (rule live_tag_applies_directly)
  show "section_parse (doc_section (js ''a'', 120, [(TEof, [js ''z''])])) =
      Inr ([Insert Eof (js ''z'') 1 0 False], [])" by code_simp
  show "rs_fileHash (doc_section (js ''a'', 120, [(TEof, [js ''z''])])) = Some (js ''0078'')" by code_simp
  show "fs_preflightWrite (en_fs mem_env) (w_fs two_files)
      (rs_path (doc_section (js ''a'', 120, [(TEof, [js ''z''])]))) = Inr ()" by code_simp
  show "fs_readText (en_fs mem_env) (w_fs two_files)
      (rs_path (doc_section (js ''a'', 120, [(TEof, [js ''z''])]))) = Inr (js ''x'')" by code_simp
  show "computeFileHash (en_xxh mem_env) (live_text (js ''x'')) = js ''0078''" by code_simp
qed

lemma stale_prepare:
  assumes "lru_laws ops" "mem_ok ops (en_xxh env) (w_snaps w)"
    and "en_snapshots env = mem_store_ops ops (en_xxh env)"
    and "prepare env w sec = (Inr pp, w')" "rs_fileHash sec = Some h"
    and "computeFileHash (en_xxh env) (pp_normalized pp) \<noteq> h"
  shows "\<exists>es ws base resolved. section_parse sec = Inr (es, ws) \<and>
    resolved_for env sec es base = Inr resolved \<and>
    (hasBlockEdit es \<longrightarrow> computeFileHash (en_xxh env) base = h) \<and>
    (\<not> list_ex anchor_scoped resolved \<and>
       (\<exists>b. applyEdits (pp_normalized pp) resolved = Inr b \<and>
          pp_applyResult pp = b\<lparr>ar_warnings := HeadtailDrift # ar_warnings b\<rparr>) \<or>
     list_ex anchor_scoped resolved \<and>
       (\<exists>r. pp_applyResult pp = recoveryToApplyResult r \<and> rr_text r \<noteq> pp_normalized pp \<and>
          (\<exists>snap\<in>set (mem_history ops (w_snaps w) (pp_canonicalPath pp)).
             computeFileHash (en_xxh env) (sn_text snap) = h \<and>
             (merged_from (en_diff env) snap (pp_normalized pp) resolved r \<or>
              replayed_from snap (pp_normalized pp) resolved r \<and>
              mem_history ops (w_snaps w) (pp_canonicalPath pp) ! 0 \<noteq> snap))))"
proof -
  note store = mem_store_contract [OF assms(1), of "en_xxh env"]
  obtain es ws raw where p: "section_parse sec = Inr (es, ws)"
    "applyWithRecovery env (w_snaps w) sec (fs_canonicalPath (en_fs env) (rs_path sec)) True
       (live_text raw) es = (Inr (pp_applyResult pp), w_snaps w')"
    "pp = prepared_with env sec raw ws (pp_applyResult pp)"
    using prepare_Inr [OF assms(4)] by metis
  have pp: "pp_normalized pp = live_text raw" "pp_canonicalPath pp = fs_canonicalPath (en_fs env) (rs_path sec)"
    by (subst p(3), simp add: prepared_with_def)+
  note p2 = p(2) [folded pp]
  obtain base resolved s1 where a: "resolved_for env sec es base = Inr resolved"
    "if hasBlockEdit es
     then \<exists>snap. so_byHash (en_snapshots env) (w_snaps w) (pp_canonicalPath pp) h = (Some snap, s1) \<and>
       base = sn_text snap
     else s1 = w_snaps w"
    "\<not> list_ex anchor_scoped resolved \<and>
       (\<exists>b. applyEdits (pp_normalized pp) resolved = Inr b \<and>
          pp_applyResult pp = b\<lparr>ar_warnings := HeadtailDrift # ar_warnings b\<rparr>) \<or>
     list_ex anchor_scoped resolved \<and>
       (\<exists>r. tryRecover (en_snapshots env) (en_diff env) s1 (pp_canonicalPath pp) (pp_normalized pp) h resolved =
           (Some r, w_snaps w') \<and>
         pp_applyResult pp = recoveryToApplyResult r)"
    using apply_stale [OF p2 assms(5,6)] by metis
  have s1: "mem_history ops s1 = mem_history ops (w_snaps w) \<and> mem_ok ops (en_xxh env) s1 \<and>
      (hasBlockEdit es \<longrightarrow> computeFileHash (en_xxh env) base = h)"
  proof (cases "hasBlockEdit es")
    case True
    then obtain snap where b: "mem_byHash ops (w_snaps w) (pp_canonicalPath pp) h = (Some snap, s1)"
      "base = sn_text snap" using a(2) assms(3) by (auto simp: mem_store_ops_def)
    then show ?thesis
      using snapshot_store.byHash_law [OF store assms(2), of "pp_canonicalPath pp" h]
        snapshot_store.byHash_text [OF store assms(2), of "pp_canonicalPath pp" h snap] by simp
  qed (use a(2) assms(2) in simp)
  show ?thesis
  proof (cases "list_ex anchor_scoped resolved")
    case True
    then obtain r where r: "tryRecover (mem_store_ops ops (en_xxh env)) (en_diff env) s1
        (pp_canonicalPath pp) (pp_normalized pp) h resolved = (Some r, w_snaps w')"
      "pp_applyResult pp = recoveryToApplyResult r" using a(3) assms(3) by auto
    have "mem_ok ops (en_xxh env) s1" "mem_history ops s1 = mem_history ops (w_snaps w)" using s1 by auto
    with recovery_guarded [OF assms(1) _ r(1)] show ?thesis using p(1) a(1) s1 r(2) True
      by (intro exI conjI) auto
  next
    case False
    then show ?thesis using p(1) a(1,3) s1 by (intro exI conjI) auto
  qed
qed

text \<open>
  C4: a section with a stale tag that is prepared all the same either has only head and tail
  inserts, applied to the live text under the drift warning, or was recovered from a recorded
  version with that tag by an exact merge or a replay with equal anchor lines; block edits
  were placed on a version with that tag, never on the drifted text.
\<close>

theorem stale_tag_is_guarded:
  assumes "lru_laws ops" "mem_ok ops (en_xxh env) (w_snaps w)"
    and "en_snapshots env = mem_store_ops ops (en_xxh env)"
    and "prepare env w sec = (Inr pp, w')" "rs_fileHash sec = Some h"
    and "computeFileHash (en_xxh env) (pp_normalized pp) \<noteq> h"
  shows "\<exists>es ws base resolved. section_parse sec = Inr (es, ws) \<and>
    resolved_for env sec es base = Inr resolved \<and>
    (hasBlockEdit es \<longrightarrow> computeFileHash (en_xxh env) base = h) \<and>
    (\<not> list_ex anchor_scoped resolved \<and>
       (\<exists>b. applyEdits (pp_normalized pp) resolved = Inr b \<and>
          pp_applyResult pp = b\<lparr>ar_warnings := HeadtailDrift # ar_warnings b\<rparr>) \<or>
     list_ex anchor_scoped resolved \<and>
       (\<exists>r. pp_applyResult pp = recoveryToApplyResult r \<and> rr_text r \<noteq> pp_normalized pp \<and>
          (\<exists>snap\<in>set (mem_history ops (w_snaps w) (pp_canonicalPath pp)).
             computeFileHash (en_xxh env) (sn_text snap) = h \<and>
             (merged_from (en_diff env) snap (pp_normalized pp) resolved r \<or>
              replayed_from snap (pp_normalized pp) resolved r \<and>
              mem_history ops (w_snaps w) (pp_canonicalPath pp) ! 0 \<noteq> snap))))"
  by (rule stale_prepare [OF assms])

definition drifted :: "(mem_fs, lru_list mem_store) world" where
  "drifted = \<lparr>w_fs = mem_fs_new [(js ''f'', [97, 10, 99])], w_snaps = two_versions\<rparr>"

definition drifted_section :: raw_section where
  "drifted_section = doc_section (js ''f'', 205, [(TDelete (ParsedRange 1 1), [])])"

theorem stale_tag_is_guarded_witness:
  "let (res, w') = prepare mem_env drifted drifted_section; pp = projr res in
   (\<exists>es ws base resolved. section_parse drifted_section = Inr (es, ws) \<and>
    resolved_for mem_env drifted_section es base = Inr resolved \<and>
    (hasBlockEdit es \<longrightarrow> computeFileHash (en_xxh mem_env) base = js ''00CD'') \<and>
    (\<not> list_ex anchor_scoped resolved \<and>
       (\<exists>b. applyEdits (pp_normalized pp) resolved = Inr b \<and>
          pp_applyResult pp = b\<lparr>ar_warnings := HeadtailDrift # ar_warnings b\<rparr>) \<or>
     list_ex anchor_scoped resolved \<and>
       (\<exists>r. pp_applyResult pp = recoveryToApplyResult r \<and> rr_text r \<noteq> pp_normalized pp \<and>
          (\<exists>snap\<in>set (mem_history lru_list_ops (w_snaps drifted) (pp_canonicalPath pp)).
             computeFileHash (en_xxh mem_env) (sn_text snap) = js ''00CD'' \<and>
             (merged_from (en_diff mem_env) snap (pp_normalized pp) resolved r \<or>
              replayed_from snap (pp_normalized pp) resolved r \<and>
              mem_history lru_list_ops (w_snaps drifted) (pp_canonicalPath pp) ! 0 \<noteq> snap)))))"
proof -
  let ?p = "prepare mem_env drifted drifted_section"
  have ok: "\<not> isl (fst ?p)" by code_simp
  have p: "?p = (Inr (projr (fst ?p)), snd ?p)"
    by (rule prod_eqI) (use ok in \<open>simp_all add: sum.collapse(2)\<close>)
  have st: "mem_ok lru_list_ops (en_xxh mem_env) (w_snaps drifted)"
    using two_versions_ok by (simp add: mem_env_def drifted_def)
  have op: "en_snapshots mem_env = mem_store_ops lru_list_ops (en_xxh mem_env)"
    by (simp add: mem_env_def)
  have h: "rs_fileHash drifted_section = Some (js ''00CD'')" by code_simp
  have ne: "computeFileHash (en_xxh mem_env) (pp_normalized (projr (fst ?p))) \<noteq> js ''00CD''"
    by code_simp
  from stale_tag_is_guarded [OF lru_list_laws st op p h ne]
  show ?thesis unfolding case_prod_beta Let_def .
qed

section \<open>The tag of a result\<close>

lemma mem_record_tag: "fst (mem_record ops xxh s p t) = computeFileHash xxh t"
  by (auto simp: mem_record_def Let_def split: prod.splits option.splits)

lemma live_text_in_shape:
  assumes "CR \<notin> set after" "fst (stripBom raw) = BOM \<or> \<not> starts_with after BOM"
  shows "live_text (in_shape_of raw after) = after"
proof -
  let ?e = "detectLineEnding (snd (stripBom raw))"
  have b: "starts_with (restoreLineEndings after ?e) BOM \<longleftrightarrow> starts_with after BOM"
    by (cases ?e; cases after) (auto simp: starts_with_def BOM_def)
  have "fst (stripBom raw) = BOM \<or> fst (stripBom raw) = []" by (simp add: stripBom_def)
  then have "snd (stripBom (in_shape_of raw after)) = restoreLineEndings after ?e"
    using assms(2) b by (auto simp: in_shape_of_def stripBom_def BOM_def starts_with_def)
  then show ?thesis using normalize_restore [OF assms(1)] by (simp add: live_text_def)
qed

lemma commit_tag:
  assumes "commit env w pp = (Inr r, w')" "en_snapshots env = mem_store_ops ops (en_xxh env)"
  shows "pr_fileHash r = computeFileHash (en_xxh env) (pr_after r) \<and>
    pr_header r = formatHashlineHeader (pr_path r) (pr_fileHash r)"
  using assms mem_record_tag [of ops "en_xxh env"]
  by (auto simp: commit_def Let_def mem_store_ops_def split: if_splits prod.splits sum.splits)
     (metis fst_conv)+

lemma commit_all_tags:
  "commit_all env w pps = (Inr rs, w') \<Longrightarrow> en_snapshots env = mem_store_ops ops (en_xxh env) \<Longrightarrow>
   \<forall>r\<in>set rs. pr_fileHash r = computeFileHash (en_xxh env) (pr_after r) \<and>
     pr_header r = formatHashlineHeader (pr_path r) (pr_fileHash r)"
proof (induction pps arbitrary: w rs)
  case (Cons pp pps)
  obtain r w1 where c: "commit env w pp = (Inr r, w1)"
    using Cons.prems(1) by (auto split: prod.splits sum.splits)
  then obtain rs1 where "commit_all env w1 pps = (Inr rs1, w')" "rs = r # rs1"
    using Cons.prems(1) by (auto split: prod.splits sum.splits)
  then show ?case using Cons.IH Cons.prems(2) commit_tag [OF c Cons.prems(2)] by simp
qed simp

lemma patcher_tags:
  assumes "patcher_apply env w secs = (Inr rs, w')" "en_snapshots env = mem_store_ops ops (en_xxh env)"
  shows "\<forall>r\<in>set rs. pr_fileHash r = computeFileHash (en_xxh env) (pr_after r) \<and>
     pr_header r = formatHashlineHeader (pr_path r) (pr_fileHash r)"
proof (cases "length secs = 1")
  case True
  then show ?thesis using assms(1) commit_tag [OF _ assms(2)] unfolding patcher_apply_def
    by (fastforce split: prod.splits sum.splits)
next
  case False
  then show ?thesis using assms(1) commit_all_tags [OF _ assms(2)] unfolding patcher_apply_def
    by (fastforce split: prod.splits sum.splits)
qed

lemma result_live:
  assumes "filesystem (en_fs env)" "en_snapshots env = mem_store_ops ops (en_xxh env)"
    and "patcher_apply env w secs = (Inr rs, w')" "r \<in> set rs"
    and "pr_written r = pr_persisted r" "CR \<notin> set (pr_after r)" "\<not> starts_with (pr_after r) BOM"
  shows "fs_readText (en_fs env) (w_fs w') (pr_path r) = Inr (pr_written r) \<and>
    live_text (pr_written r) = pr_after r \<and>
    computeFileHash (en_xxh env) (live_text (pr_written r)) = pr_fileHash r"
proof -
  note ok = patcher_success [OF assms(1,3)]
  obtain i where "i < length rs" "r = rs ! i" using assms(4) by (auto simp: in_set_conv_nth)
  moreover have "list_all2 (result_of env (w_fs w)) secs rs" using ok by blast
  ultimately have "result_of env (w_fs w) (secs ! i) r" by (auto simp: list_all2_conv_all_nth)
  then have "live_text (pr_written r) = pr_after r"
    using live_text_in_shape [OF assms(6)] assms(5,7)
    by (auto simp: result_of_def split: if_splits)
  then show ?thesis using ok assms(4) patcher_tags [OF assms(3,2)] by auto
qed

text \<open>
  C5: the tag that a result carries is live: when the storage kept the text as it was given, a
  next section for that file under that tag is prepared directly on the text the result
  reports, without recovery, for every patch whose result is free of carriage returns and
  does not begin with a byte order mark.  (A result with either reads back as another text.)
\<close>

theorem result_tag_is_live:
  assumes "filesystem (en_fs env)" "en_snapshots env = mem_store_ops ops (en_xxh env)"
    and "patcher_apply env w secs = (Inr rs, w')" "r \<in> set rs"
    and "pr_written r = pr_persisted r" "CR \<notin> set (pr_after r)" "\<not> starts_with (pr_after r) BOM"
    and "rs_path sec = pr_path r" "rs_fileHash sec = Some (pr_fileHash r)"
    and "section_parse sec = Inr (es, pw)"
    and "fs_preflightWrite (en_fs env) (w_fs w') (pr_path r) = Inr ()"
  shows "prepare env w' sec =
    (case rbind (resolved_for env sec es (pr_after r)) (applyEdits (pr_after r)) of
       Inl e \<Rightarrow> Inl e | Inr a \<Rightarrow> Inr (prepared_with env sec (pr_written r) pw a), w')"
proof -
  have live: "fs_readText (en_fs env) (w_fs w') (pr_path r) = Inr (pr_written r)"
    "live_text (pr_written r) = pr_after r"
    "computeFileHash (en_xxh env) (live_text (pr_written r)) = pr_fileHash r"
    using result_live [OF assms(1-7)] by blast+
  have "prepare env w' sec =
    (case rbind (resolved_for env sec es (live_text (pr_written r)))
        (applyEdits (live_text (pr_written r))) of
       Inl e \<Rightarrow> Inl e | Inr a \<Rightarrow> Inr (prepared_with env sec (pr_written r) pw a), w')"
    by (rule prepare_live [OF assms(10,9)]) (use assms(8,11) live(1,3) in \<open>simp_all only:\<close>)
  then show ?thesis unfolding live(2) .
qed

definition first_patch :: "raw_section list" where
  "first_patch = [doc_section (js ''a'', 120, [(TEof, [js ''z''])])]"

theorem result_tag_is_live_witness:
  "let (res, w') = patcher_apply mem_env two_files first_patch; r = hd (projr res);
       sec = doc_section (js ''a'', 252, [(TBof, [js ''u''])])
   in prepare mem_env w' sec =
    (case rbind (resolved_for mem_env sec [Insert Bof (js ''u'') 1 0 False] (pr_after r))
            (applyEdits (pr_after r)) of
       Inl e \<Rightarrow> Inl e | Inr a \<Rightarrow> Inr (prepared_with mem_env sec (pr_written r) [] a), w')"
proof -
  let ?p = "patcher_apply mem_env two_files first_patch"
  let ?sec = "doc_section (js ''a'', 252, [(TBof, [js ''u''])])"
  have ok: "\<not> isl (fst ?p)" by code_simp
  have p: "?p = (Inr (projr (fst ?p)), snd ?p)"
    by (rule prod_eqI) (use ok in \<open>simp_all add: sum.collapse(2)\<close>)
  have op: "en_snapshots mem_env = mem_store_ops lru_list_ops (en_xxh mem_env)"
    by (simp add: mem_env_def)
  have "projr (fst ?p) \<noteq> []" by code_simp
  then have r: "hd (projr (fst ?p)) \<in> set (projr (fst ?p))" by (rule hd_in_set)
  have facts: "pr_written (hd (projr (fst ?p))) = pr_persisted (hd (projr (fst ?p)))"
    "CR \<notin> set (pr_after (hd (projr (fst ?p))))" "\<not> starts_with (pr_after (hd (projr (fst ?p)))) BOM"
    "rs_path ?sec = pr_path (hd (projr (fst ?p)))"
    "rs_fileHash ?sec = Some (pr_fileHash (hd (projr (fst ?p))))"
    "section_parse ?sec = Inr ([Insert Bof (js ''u'') 1 0 False], [])"
    "fs_preflightWrite (en_fs mem_env) (w_fs (snd ?p)) (pr_path (hd (projr (fst ?p)))) = Inr ()"
    by code_simp+
  from result_tag_is_live [OF mem_env_fs op p r facts]
  show ?thesis unfolding case_prod_beta Let_def .
qed

text \<open>
  The condition on carriage returns is needed: a row with a carriage return in it is written as it is and
  reads back as two lines, so that the tag of the result is not the tag of the file.
\<close>

lemma result_with_return_is_stale:
  "let (res, w') = patcher_apply mem_env (mem_world [(js ''a'', js ''x'')])
         [doc_section (js ''a'', 120, [(TEof, [js ''y'' @ CR # js ''z''])])]
   in fs_readText (en_fs mem_env) (w_fs w') (js ''a'') = Inr (js ''x'' @ LF # js ''y'' @ CR # js ''z'') \<and>
      pr_fileHash (hd (projr res)) \<noteq>
        computeFileHash (en_xxh mem_env) (live_text (js ''x'' @ LF # js ''y'' @ CR # js ''z''))"
  by code_simp

section \<open>From the text of a patch to the file\<close>

text \<open>What a hunk makes of the lines: boundary repair may trim or keep rows of a replacement.\<close>

definition hunk_result :: "block_target \<Rightarrow> jstring list \<Rightarrow> jstring list \<Rightarrow> jstring list \<Rightarrow> bool" where
  "hunk_result t rows ls final =
     (case t of
        TReplace rng \<Rightarrow> (\<exists>a b d. replace_outcome rng rows ls a b d final)
      | _ \<Rightarrow> final = hunk_effect t rows ls)"

definition plain_text :: "jstring \<Rightarrow> bool" where
  "plain_text s \<longleftrightarrow> CR \<notin> set s \<and> 0xFEFF \<notin> set s"

lemma plain_join: "plain_text (join_lines ls) \<longleftrightarrow> (\<forall>l\<in>set ls. plain_text l)"
proof (induction ls)
  case (Cons l ls)
  then show ?case by (cases ls) (auto simp: plain_text_def)
qed (simp add: plain_text_def)

lemma hunk_result_lines:
  "hunk_result t rows ls final \<Longrightarrow> l \<in> set final \<Longrightarrow> l \<in> set ls \<or> l \<in> set rows \<or> l = []"
  by (cases t)
     (auto simp: hunk_result_def replace_outcome_def slice_def simp del: take_take take_drop drop_take
       split: if_splits dest!: in_set_takeD in_set_dropD dest: in_set_butlastD)

lemma applied_hunk:
  assumes "line_ok t (length (split_lines body))" "takes_body t \<longleftrightarrow> rows \<noteq> []"
  shows "\<exists>r final. applyEdits body (lower t rows ln k) = Inr r \<and> ar_text r = join_lines final \<and>
    hunk_result t rows (split_lines body) final"
proof (cases "\<exists>rng. t = TReplace rng")
  case True
  then obtain rng where t: "t = TReplace rng" by blast
  then have ok: "line_ok (TReplace rng) (length (split_lines body))" "rows \<noteq> []" using assms by auto
  from replace_hunk [OF ok, of ln k] show ?thesis unfolding t hunk_result_def block_target.case by blast
next
  case False
  then show ?thesis
    using exact_hunk [OF assms(1), of rows ln k] assms(2)
    by (cases t) (auto simp: hunk_result_def)
qed

lemma one_hunk_section:
  assumes "hunk_ok (t, rows)" "line_ok t k"
  shows "section_parse (doc_section (p, n, [(t, rows)])) = Inr (lower t rows 1 0, [])"
    and "hasBlockEdit (lower t rows 1 0) = False"
proof -
  have "distinct (concat (map deleted_lines [(t, rows)]))"
    by (cases t) (simp_all add: expandRange_def)
  then show "section_parse (doc_section (p, n, [(t, rows)])) = Inr (lower t rows 1 0, [])"
    using parse_rendered [of "[(t, rows)]"] assms(1) by (simp add: section_parse_def)
  show "hasBlockEdit (lower t rows 1 0) = False"
    using hunk_no_block [OF assms(2)] by (auto simp: hasBlockEdit_def list_ex_iff is_block_def split: edit.splits)
qed

text \<open>A storage that accepts every write and keeps the text as it is.\<close>

definition verbatim :: "'f fs_ops \<Rightarrow> bool" where
  "verbatim ops \<longleftrightarrow> filesystem ops \<and> (\<forall>f p. fs_preflightWrite ops f p = Inr ()) \<and>
     (\<forall>f p c. fst (fs_writeText ops f p c) = Inr c)"

lemma commit_verbatim:
  assumes "verbatim (en_fs env)"
  shows "\<exists>r w'. commit env w pp = (Inr r, w') \<and> pr_written r = pr_persisted r \<and>
    pr_after r = ar_text (pp_applyResult pp)"
proof (cases "ar_text (pp_applyResult pp) = pp_normalized pp")
  case True
  then show ?thesis by (simp add: commit_def Let_def split: prod.splits)
next
  case False
  have w: "fs_writeText (en_fs env) f p c = (Inr c, snd (fs_writeText (en_fs env) f p c))" for f p c
    using assms by (metis verbatim_def prod.collapse)
  show ?thesis using False by (subst commit_def, subst w) (simp add: Let_def split: prod.splits)
qed

text \<open>
  C1: the whole path from the text of a patch to the file: a printed patch with one line hunk
  and the tag of the live file is parsed, applied and written, and the file then holds exactly the
  lines that the hunk makes of the lines it had, behind the byte order mark and with the line ends
  that the file had (a patch without effect leaves it as it was); the text reads back as these
  lines, and the result carries its tag.  The storage keeps what is written as it is, and neither the
  text of the file nor the rows of the hunk contain a carriage return or a byte order mark.
\<close>

theorem patch_text_edits_file:
  assumes "verbatim (en_fs env)" "en_snapshots env = mem_store_ops ops (en_xxh env)"
    and "fs_readText (en_fs env) (w_fs w) p = Inr raw"
    and "hex4 n = computeFileHash (en_xxh env) (live_text raw)"
    and "clean_path p" "hunk_ok (t, rows)" "line_ok t (length (split_lines (live_text raw)))"
    and "\<forall>l\<in>set (live_text raw # rows). plain_text l"
  shows "\<exists>secs r w' final. patch_parse pcwd (render_patch [(p, n, [(t, rows)])]) opts = Inr secs \<and>
    patcher_apply env w secs = (Inr [r], w') \<and>
    hunk_result t rows (split_lines (live_text raw)) final \<and>
    fs_readText (en_fs env) (w_fs w') p =
      Inr (if join_lines final = live_text raw then raw
           else fst (stripBom raw) @ restoreLineEndings (join_lines final) (detectLineEnding (snd (stripBom raw)))) \<and>
    fs_readText (en_fs env) (w_fs w') p = Inr (pr_written r) \<and>
    live_text (pr_written r) = join_lines final \<and>
    pr_fileHash r = computeFileHash (en_xxh env) (join_lines final)"
proof -
  let ?sec = "doc_section (p, n, [(t, rows)])"
  have fs: "filesystem (en_fs env)" using assms(1) by (simp add: verbatim_def)
  have parse: "patch_parse pcwd (render_patch [(p, n, [(t, rows)])]) opts = Inr [?sec]"
    using parse_render_patch [of "[(p, n, [(t, rows)])]" pcwd opts] assms(5,6) by simp
  have "takes_body t \<longleftrightarrow> rows \<noteq> []" using assms(6) by (simp add: hunk_ok_def)
  with applied_hunk [OF assms(7), of rows 1 0]
  obtain a final where a: "applyEdits (live_text raw) (lower t rows 1 0) = Inr a"
    "ar_text a = join_lines final" "hunk_result t rows (split_lines (live_text raw)) final" by metis
  note sec = one_hunk_section(1) [OF assms(6,7), of p n] one_hunk_section(2) [OF assms(6,7)]
  have "resolved_for env ?sec (lower t rows 1 0) (live_text raw) = Inr (lower t rows 1 0)"
    using sec(2) by (simp add: resolved_for_def)
  moreover have "prepare env w ?sec =
      (case rbind (resolved_for env ?sec (lower t rows 1 0) (live_text raw)) (applyEdits (live_text raw)) of
         Inl e \<Rightarrow> Inl e | Inr a \<Rightarrow> Inr (prepared_with env ?sec raw [] a), w)"
    by (rule prepare_live [OF sec(1)])
       (use assms(1,3,4) in \<open>simp_all add: verbatim_def\<close>)
  ultimately have prep: "prepare env w ?sec = (Inr (prepared_with env ?sec raw [] a), w)"
    using a(1) by simp
  obtain r w' where c: "commit env w (prepared_with env ?sec raw [] a) = (Inr r, w')"
    "pr_written r = pr_persisted r" "pr_after r = join_lines final"
    using commit_verbatim [OF assms(1)] a(2) by (fastforce simp: prepared_with_def)
  have app: "patcher_apply env w [?sec] = (Inr [r], w')"
    using prep c(1) by (simp add: patcher_apply_def)
  have lines: "\<forall>l\<in>set (split_lines (live_text raw)). plain_text l"
    using assms(8) plain_join [of "split_lines (live_text raw)"] by (simp add: join_split)
  have "plain_text []" by (simp add: plain_text_def)
  then have "plain_text (pr_after r)"
    using hunk_result_lines [OF a(3)] lines assms(8) by (auto simp: c(3) plain_join)
  then have plain: "CR \<notin> set (pr_after r)" "\<not> starts_with (pr_after r) BOM"
    by (cases "pr_after r"; auto simp: plain_text_def starts_with_def BOM_def)+
  have live: "fs_readText (en_fs env) (w_fs w') (pr_path r) = Inr (pr_written r)"
    "live_text (pr_written r) = pr_after r"
    "computeFileHash (en_xxh env) (live_text (pr_written r)) = pr_fileHash r"
    using result_live [OF fs assms(2) app _ c(2) plain] by auto
  have of: "result_of env (w_fs w) ?sec r" using patcher_success [OF fs app] by simp
  then have path: "pr_path r = p" by (auto simp: result_of_def)
  have "pr_written r = (if join_lines final = live_text raw then raw else in_shape_of raw (join_lines final))"
    using of assms(3) c(2,3) by (auto simp: result_of_def split: if_splits)
  then show ?thesis using parse app live a(3) c(3) path by (intro exI conjI) (auto simp: in_shape_of_def)
qed

definition crlf_file :: "(mem_fs, lru_list mem_store) world" where
  "crlf_file = mem_world [(js ''a'', 0xFEFF # js ''x'' @ [CR, LF])]"

theorem patch_text_edits_file_witness:
  "\<exists>secs r w' final.
    patch_parse (js ''/w'') (render_patch [(js ''a'', 130, [(TReplace (ParsedRange 1 1), [js ''y'', js ''z''])])])
      \<lparr>so_cwd = None, so_path = None\<rparr> = Inr secs \<and>
    patcher_apply mem_env crlf_file secs = (Inr [r], w') \<and>
    hunk_result (TReplace (ParsedRange 1 1)) [js ''y'', js ''z''] (split_lines (live_text (0xFEFF # js ''x'' @ [CR, LF]))) final \<and>
    fs_readText (en_fs mem_env) (w_fs w') (js ''a'') =
      Inr (if join_lines final = live_text (0xFEFF # js ''x'' @ [CR, LF]) then 0xFEFF # js ''x'' @ [CR, LF]
           else fst (stripBom (0xFEFF # js ''x'' @ [CR, LF])) @
             restoreLineEndings (join_lines final) (detectLineEnding (snd (stripBom (0xFEFF # js ''x'' @ [CR, LF]))))) \<and>
    fs_readText (en_fs mem_env) (w_fs w') (js ''a'') = Inr (pr_written r) \<and>
    live_text (pr_written r) = join_lines final \<and>
    pr_fileHash r = computeFileHash (en_xxh mem_env) (join_lines final)"
proof (rule patch_text_edits_file)
  show "verbatim (en_fs mem_env)"
    using mem_env_fs
    by (simp add: verbatim_def mem_env_def mem_fs_ops_def default_preflightWrite_def mem_writeText_def)
  show "en_snapshots mem_env = mem_store_ops lru_list_ops (en_xxh mem_env)" by (simp add: mem_env_def)
  show "fs_readText (en_fs mem_env) (w_fs crlf_file) (js ''a'') = Inr (0xFEFF # js ''x'' @ [CR, LF])" by code_simp
  show "hex4 130 = computeFileHash (en_xxh mem_env) (live_text (0xFEFF # js ''x'' @ [CR, LF]))" by code_simp
  show "clean_path (js ''a'')" by code_simp
  show "hunk_ok (TReplace (ParsedRange 1 1), [js ''y'', js ''z''])"
    by (simp add: hunk_ok_def range_ok_def row_ok_def)
  show "line_ok (TReplace (ParsedRange 1 1)) (length (split_lines (live_text (0xFEFF # js ''x'' @ [CR, LF]))))"
    by code_simp
  show "\<forall>l\<in>set (live_text (0xFEFF # js ''x'' @ [CR, LF]) # [js ''y'', js ''z'']). plain_text l" by code_simp
qed

end
