(* ===== verification/Mismatch.thy ===== *)
theory Mismatch
  imports Hl_Format
begin

text \<open>
  The diagnostic for a tag that no longer fits (\<open>packages/hashline/src/mismatch.ts\<close>): line
  references, the context rows, and the message of \<open>MismatchError\<close>.
\<close>

section \<open>Line references\<close>

text \<open>\<open>/^\s*[>+\-*]*\s*(\d+)(?::.*)?\s*$/\<close>\<close>

definition LINE_REF_RE :: re where
  "LINE_REF_RE = Cats [Bol, Star True Sp, Star True (one_of (js ''>+-*'')), Star True Sp,
     Cap 1 (Plus True Dig), Opt True (Cat (Lit (js '':'')) (Star True Dot)), Star True Sp, Eol]"

definition parseTag :: "jstring \<Rightarrow> nat res" where
  "parseTag ref =
     (case re_exec LINE_REF_RE ref of
        Some (_, _, caps) \<Rightarrow>
          (case cap_get caps 1 of
             Some digits \<Rightarrow>
               (let line = dec_value digits
                in if line < 1 then Inl (LineNumberBelowOne line ref) else Inr line)
           | None \<Rightarrow> Inl (InvalidLineReference ref))
      | None \<Rightarrow> Inl (InvalidLineReference ref))"

definition validateLineRef :: "nat \<Rightarrow> jstring list \<Rightarrow> unit res" where
  "validateLineRef line fileLines =
     (if line < 1 \<or> length fileLines < line then Inl (LineDoesNotExist line (length fileLines))
      else Inr ())"

section \<open>The context rows\<close>

definition MISMATCH_CONTEXT :: nat where "MISMATCH_CONTEXT = 2"

definition add_context :: "jstring list \<Rightarrow> nat list \<Rightarrow> nat \<Rightarrow> nat list" where
  "add_context fileLines displayLines line =
     (if line < 1 \<or> length fileLines < line then displayLines
      else foldl set_add displayLines
        [max 1 (line - MISMATCH_CONTEXT)..<Suc (min (length fileLines) (line + MISMATCH_CONTEXT))])"

definition getMismatchDisplayLines :: "nat list \<Rightarrow> jstring list \<Rightarrow> nat list" where
  "getMismatchDisplayLines anchorLines fileLines =
     sort (foldl (add_context fileLines) [] anchorLines)"

section \<open>The message\<close>

record mismatch_details =
  md_path :: "jstring option"
  md_expected :: jstring
  md_actual :: jstring
  md_fileLines :: "jstring list"
  md_anchorLines :: "nat list option"
  md_hashRecognized :: "bool option"

definition rejectionHeader :: "mismatch_details \<Rightarrow> jstring list" where
  "rejectionHeader d =
     (let pathText = (case md_path d of Some (c # cs) \<Rightarrow> js '' for '' @ c # cs | _ \<Rightarrow> []);
          hashRecognized = (case md_hashRecognized d of Some b \<Rightarrow> b | None \<Rightarrow> True)
      in if \<not> hashRecognized then
           [js ''Edit rejected'' @ pathText @ js '': hash '' @ HL_FILE_HASH_SEP @ md_expected d @
              js '' is not from this session.'',
            js ''The current file hashes to '' @ HL_FILE_HASH_SEP @ md_actual d @
              js ''. Re-read the file with `read` to copy a current '' @ HL_FILE_PREFIX @
              js ''path'' @ HL_FILE_HASH_SEP @ js ''tag header '' @ [0x2014] @
              js '' never invent the tag and never reuse one from a prior session.'']
         else
           [js ''Edit rejected'' @ pathText @ js '': file changed between read and edit.'',
            js ''Section is bound to '' @ HL_FILE_HASH_SEP @ md_expected d @
              js '', but the current file hashes to '' @ HL_FILE_HASH_SEP @ md_actual d @
              js ''. If a prior edit in this session modified this file, copy the '' @ HL_FILE_PREFIX @
              js ''path'' @ HL_FILE_HASH_SEP @
              js ''newhash header from that edit'' @ [39] @ js ''s response; otherwise re-read the file with '' @
              js ''`read` to refresh the tag before retrying.''])"

text \<open>The loop over the display lines; \<open>previous\<close> is \<open>None\<close> for -1.\<close>

fun message_rows :: "mismatch_details \<Rightarrow> nat list \<Rightarrow> nat option \<Rightarrow> nat list \<Rightarrow> jstring list" where
  "message_rows d anchorSet previous [] = []"
| "message_rows d anchorSet previous (num # rest) =
     (let gap = (case previous of Some p \<Rightarrow> p + 1 < num | None \<Rightarrow> False);
          str = (case nth_opt (md_fileLines d) (num - 1) of Some l \<Rightarrow> l | None \<Rightarrow> []);
          marker = (if num \<in> set anchorSet then js ''*'' else js '' '')
      in (if gap then [js ''...''] else []) @
         [marker @ formatNumberedLine num str] @ message_rows d anchorSet (Some num) rest)"

definition formatMessage :: "mismatch_details \<Rightarrow> jstring" where
  "formatMessage d =
     (let anchors = (case md_anchorLines d of Some a \<Rightarrow> a | None \<Rightarrow> []);
          anchorSet = foldl set_add [] anchors;
          lines = rejectionHeader d;
          displayLines = getMismatchDisplayLines anchors (md_fileLines d)
      in if length displayLines = 0 then join_lines lines
         else join_lines (lines @ [[]] @ message_rows d anchorSet None displayLines))"

section \<open>Properties\<close>

lemma distinct_foldl_set_add: "distinct xs \<Longrightarrow> distinct (foldl set_add xs ys)"
  by (induction ys arbitrary: xs) (auto simp: distinct_set_add)

lemma add_context_set:
  "set (add_context ls ds a) = set ds \<union>
     {n. 1 \<le> a \<and> a \<le> length ls \<and> 1 \<le> n \<and> n \<le> length ls \<and> a \<le> n + 2 \<and> n \<le> a + 2}"
  by (auto simp: add_context_def foldl_set_add MISMATCH_CONTEXT_def simp del: upt_Suc)

lemma add_context_fold:
  "set (foldl (add_context ls) ds as) = set ds \<union>
     {n. \<exists>a\<in>set as. 1 \<le> a \<and> a \<le> length ls \<and> 1 \<le> n \<and> n \<le> length ls \<and> a \<le> n + 2 \<and> n \<le> a + 2}"
  by (induction as arbitrary: ds) (auto simp: add_context_set)

lemma distinct_add_context_fold: "distinct ds \<Longrightarrow> distinct (foldl (add_context ls) ds as)"
  by (induction as arbitrary: ds) (auto simp: add_context_def distinct_foldl_set_add)

text \<open>
  The context of a mismatch is exact: in ascending order and each once, the lines of the
  file at most two away from an anchored line that exists, and no others.
\<close>

theorem display_lines_exact:
  "sorted_wrt (<) (getMismatchDisplayLines as ls) \<and>
   set (getMismatchDisplayLines as ls) =
     {n. n \<in> {1..length ls} \<and> list_ex (\<lambda>a. a \<in> {1..length ls} \<and> a \<le> n + 2 \<and> n \<le> a + 2) as}"
proof -
  have "distinct (getMismatchDisplayLines as ls)"
    by (simp add: getMismatchDisplayLines_def distinct_add_context_fold)
  then have "sorted_wrt (<) (getMismatchDisplayLines as ls)"
    by (simp add: strict_sorted_iff getMismatchDisplayLines_def)
  then show ?thesis
    by (auto simp: getMismatchDisplayLines_def add_context_fold list_ex_iff)
qed

lemma is_digit_not_space: "is_digit c \<Longrightarrow> \<not> is_js_space c"
  by (auto simp: is_digit_def is_js_space_def)

text \<open>
  A numbered line of a read result is accepted as a line reference and names its line:
  \<open>parseTag\<close> reads back the number that \<open>formatNumberedLine\<close> printed, whatever the line holds
  (it is a single line), and the bare number too.
\<close>

theorem line_reference_roundtrip:
  assumes "0 < n" "\<forall>c\<in>set l. \<not> is_line_terminator c"
  shows "parseTag (formatNumberedLine n l) = Inr n \<and> parseTag (dec n) = Inr n"
proof -
  have digits: "\<forall>k<length (dec n). is_digit (dec n ! k)" using dec_digits by (meson nth_mem)
  have pos: "0 < length (dec n)" by simp
  have core: "re_exec LINE_REF_RE (dec n @ r) = Some (0, length (dec n @ r), [(1, dec n)])"
    if r: "r = [] \<or> r = js '':'' @ l" for r
  proof -
    let ?s = "dec n @ r"
    have d0: "is_digit (?s ! 0)" using digits pos by (simp add: nth_append)
    have stay: "first_match (Star True (Cls p)) ?s (0, []) (0, [])" if "\<not> p (?s ! 0)" for p
      using that by (intro first_match_star_stop) simp
    have sp: "\<not> is_js_space (?s ! 0)" using d0 is_digit_not_space by blast
    have mark: "?s ! 0 \<notin> set (js ''>+-*'')" using d0 by (auto simp: is_digit_def)
    have stop: "length (dec n) = length ?s \<or> \<not> is_digit (?s ! length (dec n))"
      using r by (auto simp: nth_append is_digit_def)
    note stay_sp = stay [of is_js_space, OF sp]
    note stay_mark = stay [of "\<lambda>x. x \<in> set (js ''>+-*'')", OF mark]
    have num: "first_match (Plus True Dig) ?s (0, []) (length (dec n), [])"
      unfolding Plus_def
    proof (rule first_match_Cat)
      show "first_match Dig ?s (0, []) (1, [])" using first_match_Cls [of 0 ?s is_digit] d0 pos by simp
      show "first_match (Star True Dig) ?s (1, []) (length (dec n), [])"
        using digits stop pos by (intro first_match_star) (auto simp: nth_append Suc_le_eq)
    qed
    let ?c = "[(1, dec n)]"
    have cap: "first_match (Cap 1 (Plus True Dig)) ?s (0, []) (length (dec n), ?c)"
      using first_match_Cap [OF num] by (simp add: slice_def)
    have tail: "first_match (Opt True (Cat (Lit (js '':'')) (Star True Dot))) ?s (length (dec n), ?c) (length ?s, ?c)"
    proof (cases "r = []")
      case True
      then show ?thesis
        by (simp add: Opt_def Lit_def first_match_def)
    next
      case False
      then have r': "r = js '':'' @ l" using r by simp
      have "first_match (Lit (js '':'')) ?s (length (dec n), ?c) (Suc (length (dec n)), ?c)"
        using first_match_Cls [of "length (dec n)" ?s "\<lambda>x. x = 58" ?c]
        by (simp add: Lit_def r' first_match_def nth_append)
      moreover have "first_match (Star True Dot) ?s (Suc (length (dec n)), ?c) (length ?s, ?c)"
        using assms(2) by (intro first_match_star) (auto simp: r' nth_append nth_Cons')
      ultimately show ?thesis by (intro first_match_Opt first_match_Cat)
    qed
    have fin: "first_match (Star True Sp) ?s (length ?s, ?c) (length ?s, ?c)"
      by (intro first_match_star_stop) simp
    have "first_match LINE_REF_RE ?s (0, []) (length ?s, ?c)"
      unfolding LINE_REF_RE_def Cats.simps one_of_def
      by (intro first_match_Cat [OF first_match_Bol] first_match_Cat [OF stay_sp]
          first_match_Cat [OF stay_mark] first_match_Cat [OF cap] first_match_Cat [OF tail]
          first_match_Cat [OF fin] first_match_Cat [OF first_match_Eol] first_match_Eps) simp
    then show ?thesis by (rule first_match_exec)
  qed
  have "parseTag (dec n @ r) = Inr n" if "r = [] \<or> r = js '':'' @ l" for r
    using core [OF that] assms(1) by (simp add: parseTag_def cap_get_def)
  from this [of "[]"] this [of "js '':'' @ l"] show ?thesis
    by (simp add: formatNumberedLine_def HL_LINE_BODY_SEP_def)
qed

theorem line_reference_roundtrip_witness:
  "parseTag (formatNumberedLine 42 (js ''a: 7'')) = Inr 42 \<and> parseTag (dec 42) = Inr 42"
  by (rule line_reference_roundtrip) (simp_all add: is_line_terminator_def)

end
