(* ===== verification/Prefixes.thy ===== *)
theory Prefixes
  imports JS_Regex Hl_Format
begin

text \<open>
  Recovery of raw text from echoed \<open>read\<close> output (\<open>packages/hashline/src/prefixes.ts\<close>): line
  numbers and diff markers at the start of lines are recognised by regular expressions and cut.
\<close>

section \<open>The patterns\<close>

text \<open>\<open>/^\s*(?:>>>|>>)?\s*(?:[+*-]\s*)?\d+:/\<close>\<close>

definition HL_PREFIX_RE :: re where
  "HL_PREFIX_RE = Cats [Bol, Star True Sp, Opt True (Alts [Lit (js ''>>>''), Lit (js ''>>'')]),
     Star True Sp, Opt True (Cat (one_of (js ''+*-'')) (Star True Sp)), Plus True Dig, Lit (js '':'')]"

text \<open>\<open>/^\s*(?:>>>|>>)?\s*\+\s*\d+:/\<close>\<close>

definition HL_PREFIX_PLUS_RE :: re where
  "HL_PREFIX_PLUS_RE = Cats [Bol, Star True Sp, Opt True (Alts [Lit (js ''>>>''), Lit (js ''>>'')]),
     Star True Sp, Lit (js ''+''), Star True Sp, Plus True Dig, Lit (js '':'')]"

definition HexDigit :: re where
  "HexDigit = Cls (\<lambda>c. is_digit c \<or> (97 \<le> c \<and> c \<le> 102) \<or> (65 \<le> c \<and> c \<le> 70))"

text \<open>\<open>/^\s*P\S+#[0-9a-fA-F]{3}\s*$/\<close> where \<open>P\<close> is the pilcrow sign\<close>

definition HL_HEADER_RE :: re where
  "HL_HEADER_RE = Cats [Bol, Star True Sp, Lit [0xB6], Plus True NonSp, Lit (js ''#''),
     Rep 3 HexDigit, Star True Sp, Eol]"

text \<open>\<open>/^[+](?![+])/\<close>\<close>

definition DIFF_PLUS_RE :: re where
  "DIFF_PLUS_RE = Cats [Bol, Lit (js ''+''), Look False (Lit (js ''+''))]"

text \<open>
  \<open>/^\[(?:Showing lines \d+-\d+ of \d+|\d+ more lines? in (?:file|\S+))\b.*\bUse :L?\d+/\<close>
\<close>

definition READ_TRUNCATION_NOTICE_RE :: re where
  "READ_TRUNCATION_NOTICE_RE = Cats [Bol, Lit (js ''[''),
     Alts [Cats [Lit (js ''Showing lines ''), Plus True Dig, Lit (js ''-''), Plus True Dig,
             Lit (js '' of ''), Plus True Dig],
           Cats [Plus True Dig, Lit (js '' more line''), Opt True (Lit (js ''s'')), Lit (js '' in ''),
             Alts [Lit (js ''file''), Plus True NonSp]]],
     WordB, Star True Dot, WordB, Lit (js ''Use :''), Opt True (Lit (js ''L'')), Plus True Dig]"

section \<open>The functions\<close>

lemma exec_from_range: "exec_from r s is = Some (i, j, c) \<Longrightarrow> i \<in> set is \<and> (i, j) \<in> den s r"
proof (induction "is")
  case (Cons k ks)
  show ?case
  proof (cases "re_run r s (k, [])")
    case Nil
    then show ?thesis using Cons by simp
  next
    case (Cons x xs)
    then have "i = k" "x = (j, c)" using Cons.prems by (cases x; simp)+
    then have "j \<in> ends_of (re_run r s (k, []))" using Cons by (simp add: ends_of_def)
    then show ?thesis using re_run_correct [of r s k "[]"] \<open>i = k\<close> by simp
  qed
qed simp

lemma re_remove_shorter: "re_remove r s = s \<or> length (re_remove r s) < length s"
proof (cases "re_exec r s")
  case (Some m)
  obtain i j c where m: "m = (i, j, c)" by (cases m)
  have "i \<le> length s" "i \<le> j \<and> (i < j \<longrightarrow> j \<le> length s)"
    using exec_from_range [of r s "[0..<Suc (length s)]" i j c] Some m den_mono [of i j s r]
    by (auto simp: re_exec_def simp del: upt_Suc)
  then show ?thesis using Some m by (cases "i = j") (auto simp: re_remove_def)
qed (simp add: re_remove_def)

text \<open>The \<open>do\<close> loop: cut the prefix until nothing changes.\<close>

function stripLeadingHashlinePrefixes :: "jstring \<Rightarrow> jstring" where
  "stripLeadingHashlinePrefixes line =
     (let result = re_remove HL_PREFIX_RE line
      in if result \<noteq> line then stripLeadingHashlinePrefixes result else result)"
  by pat_completeness auto
termination
  by (relation "measure length") (use re_remove_shorter in auto)

declare stripLeadingHashlinePrefixes.simps [simp del]

record line_prefix_stats =
  nonEmpty :: nat
  headerCount :: nat
  hashPrefixCount :: nat
  diffPlusHashPrefixCount :: nat
  diffPlusCount :: nat
  truncationNoticeCount :: nat

definition bump :: "bool \<Rightarrow> nat \<Rightarrow> nat" where
  "bump b n = (if b then Suc n else n)"

definition line_stats :: "line_prefix_stats \<Rightarrow> jstring \<Rightarrow> line_prefix_stats" where
  "line_stats st line =
     (if length line = 0 then st
      else if re_test READ_TRUNCATION_NOTICE_RE line then
        st\<lparr>truncationNoticeCount := Suc (truncationNoticeCount st)\<rparr>
      else if re_test HL_HEADER_RE line then
        st\<lparr>nonEmpty := Suc (nonEmpty st), headerCount := Suc (headerCount st)\<rparr>
      else
        st\<lparr>nonEmpty := Suc (nonEmpty st),
           hashPrefixCount := bump (re_test HL_PREFIX_RE line) (hashPrefixCount st),
           diffPlusHashPrefixCount :=
             bump (re_test HL_PREFIX_PLUS_RE line) (diffPlusHashPrefixCount st),
           diffPlusCount := bump (re_test DIFF_PLUS_RE line) (diffPlusCount st)\<rparr>)"

definition collectLinePrefixStats :: "jstring list \<Rightarrow> line_prefix_stats" where
  "collectLinePrefixStats lines =
     foldl line_stats \<lparr>nonEmpty = 0, headerCount = 0, hashPrefixCount = 0,
       diffPlusHashPrefixCount = 0, diffPlusCount = 0, truncationNoticeCount = 0\<rparr> lines"

definition stripNewLinePrefixes :: "jstring list \<Rightarrow> jstring list" where
  "stripNewLinePrefixes lines =
     (let stats = collectLinePrefixStats lines
      in if nonEmpty stats = 0 then lines
         else
           (let contentLineCount = nonEmpty stats - headerCount stats;
                stripHash = (contentLineCount > 0 \<and> hashPrefixCount stats = contentLineCount);
                stripPlus = (\<not> stripHash \<and> diffPlusHashPrefixCount stats = 0 \<and>
                  diffPlusCount stats > 0 \<and> 2 * diffPlusCount stats \<ge> nonEmpty stats)
            in if \<not> stripHash \<and> \<not> stripPlus \<and> diffPlusHashPrefixCount stats = 0 then lines
               else
                 map (\<lambda>line.
                    if stripHash then stripLeadingHashlinePrefixes line
                    else if stripPlus then re_remove DIFF_PLUS_RE line
                    else if diffPlusHashPrefixCount stats > 0 \<and> re_test HL_PREFIX_PLUS_RE line
                      then re_remove HL_PREFIX_RE line
                    else line)
                  (filter (\<lambda>line. \<not> re_test READ_TRUNCATION_NOTICE_RE line \<and>
                     \<not> (stripHash \<and> re_test HL_HEADER_RE line)) lines)))"

definition stripHashlinePrefixes :: "jstring list \<Rightarrow> jstring list" where
  "stripHashlinePrefixes lines =
     (let stats = collectLinePrefixStats lines
      in if nonEmpty stats = 0 then lines
         else
           (let contentLineCount = nonEmpty stats - headerCount stats
            in if contentLineCount = 0 \<or> hashPrefixCount stats \<noteq> contentLineCount then lines
               else
                 map stripLeadingHashlinePrefixes
                  (filter (\<lambda>line. \<not> re_test READ_TRUNCATION_NOTICE_RE line \<and>
                     \<not> re_test HL_HEADER_RE line) lines)))"

datatype parse_input = Nothing | Lines "jstring list" | Block_Text jstring

definition hashlineParseText :: "parse_input \<Rightarrow> jstring list" where
  "hashlineParseText edit =
     (case edit of
        Nothing \<Rightarrow> []
      | Lines ls \<Rightarrow> stripNewLinePrefixes ls
      | Block_Text s \<Rightarrow>
          (let trimmed = (if s \<noteq> [] \<and> last s = LF then take (length s - 1) s else s)
           in stripNewLinePrefixes (split_lines (filter (\<lambda>c. c \<noteq> CR) trimmed))))"

section \<open>Matching\<close>

lemma den_star_Cls:
  "(i, j) \<in> (den s (Cls p))\<^sup>* \<longleftrightarrow>
   i \<le> j \<and> (i = j \<or> j \<le> length s) \<and> (\<forall>k. i \<le> k \<and> k < j \<longrightarrow> p (s ! k))"
proof
  assume "(i, j) \<in> (den s (Cls p))\<^sup>*"
  then show "i \<le> j \<and> (i = j \<or> j \<le> length s) \<and> (\<forall>k. i \<le> k \<and> k < j \<longrightarrow> p (s ! k))"
    by (induction rule: rtrancl_induct) (auto simp: less_Suc_eq)
next
  assume a: "i \<le> j \<and> (i = j \<or> j \<le> length s) \<and> (\<forall>k. i \<le> k \<and> k < j \<longrightarrow> p (s ! k))"
  then show "(i, j) \<in> (den s (Cls p))\<^sup>*"
  proof (induction "j - i" arbitrary: i)
    case (Suc n)
    then have "(i, Suc i) \<in> den s (Cls p)" "(Suc i, j) \<in> (den s (Cls p))\<^sup>*" by auto
    then show ?case by (rule converse_rtrancl_into_rtrancl)
  qed simp
qed

lemma den_Lit1: "(i, j) \<in> den s (Lit [c]) \<longleftrightarrow> j = Suc i \<and> i < length s \<and> s ! i = c"
  by (auto simp: Lit_def)

lemma den_star [simp]:
  "(i, j) \<in> den s (Star g (Cls p)) \<longleftrightarrow>
   i \<le> j \<and> (i = j \<or> j \<le> length s) \<and> (\<forall>k. i \<le> k \<and> k < j \<longrightarrow> p (s ! k))"
  using den_star_Cls by simp

lemma re_test_Cats_Bol: "re_test (Cats (Bol # rs)) s \<longleftrightarrow> (\<exists>j. (0, j) \<in> den s (Cats rs))"
  using re_test_Bol [of "Cats rs" s] by simp

lemma star_Sp_zero:
  "\<forall>k<j. is_js_space (s ! k) \<Longrightarrow> s = [] \<or> \<not> is_js_space (hd s) \<Longrightarrow> s \<noteq> [] \<Longrightarrow> j = 0"
  by (cases s) auto

lemma Rep3: "Rep 3 r = Cat r (Cat r (Cat r Eps))"
  by (simp add: numeral_3_eq_3)

lemma not_truncation: "s = [] \<or> hd s \<noteq> 91 \<Longrightarrow> \<not> re_test READ_TRUNCATION_NOTICE_RE s"
  unfolding READ_TRUNCATION_NOTICE_RE_def re_test_Cats_Bol
  by (cases s) (auto simp: den_Lit1 simp del: den.simps(1) simp flip: One_nat_def)

lemma not_header_line:
  "s = [] \<or> \<not> is_js_space (hd s) \<and> hd s \<noteq> 0xB6 \<Longrightarrow> \<not> re_test HL_HEADER_RE s"
  unfolding HL_HEADER_RE_def re_test_Cats_Bol
  by (cases s) (auto simp: den_Lit1 simp del: den.simps(5) dest!: star_Sp_zero)

lemma add_4: "m + 4 = Suc (Suc (Suc (Suc m)))" for m :: nat
  by simp

lemma den_HexDigit: "(i, j) \<in> den s HexDigit \<Longrightarrow> j = Suc i \<and> i < length s"
  by (auto simp: HexDigit_def)

lemma header_shape_3:
  assumes "re_test HL_HEADER_RE s"
  shows "\<exists>m. Suc (Suc (Suc m)) < length s \<and> s ! m = 35 \<and>
    (\<forall>k. Suc (Suc (Suc (Suc m))) \<le> k \<and> k < length s \<longrightarrow> is_js_space (s ! k))"
  using assms unfolding HL_HEADER_RE_def re_test_Cats_Bol Rep3
  by (force simp: den_Lit1 simp del: den.simps(5) dest!: den_HexDigit)

lemma printed_header_not_header:
  "\<not> re_test HL_HEADER_RE (formatHashlineHeader path (hex4 n))"
proof
  let ?s = "formatHashlineHeader path (hex4 n)"
  obtain a b c d where h: "hex4 n = [hex_digit a, hex_digit b, hex_digit c, hex_digit d]"
    "a < 16" "b < 16" "c < 16" "d < 16" by (simp add: hex4_def)
  have tail: "?s = (0xB6 # path @ [35]) @ hex4 n"
    by (simp add: formatHashlineHeader_def HL_FILE_PREFIX_def HL_FILE_HASH_SEP_def)
  assume "re_test HL_HEADER_RE ?s"
  then obtain m where m: "m + 4 \<le> length ?s" "?s ! m = 35"
      "\<forall>k. m + 4 \<le> k \<and> k < length ?s \<longrightarrow> is_js_space (?s ! k)"
    using header_shape_3 [of ?s] unfolding add_4 Suc_le_eq by blast
  have last4: "?s ! (length ?s - 1) = hex_digit d" "?s ! (length ?s - 4) = hex_digit a"
    unfolding tail by (simp_all add: h nth_append)
  have hx: "\<not> is_js_space (hex_digit d)" "hex_digit a \<noteq> 35"
    using h(2,5) by (auto simp: hex_digit_def is_js_space_def)
  have "m + 4 = length ?s"
  proof (rule ccontr)
    assume "m + 4 \<noteq> length ?s"
    then have "m + 4 \<le> length ?s - 1" "length ?s - 1 < length ?s" using m(1) by auto
    then show False using m(3) last4(1) hx(1) by metis
  qed
  then show False using m(2) last4(2) hx(2) by (metis add_diff_cancel_right')
qed

lemma den_Opt: "(i, j) \<in> den s (Opt g r) \<longleftrightarrow> j = i \<or> (i, j) \<in> den s r"
  by (auto simp: Opt_def)

lemma den_Lit_first: "(i, j) \<in> den s (Lit (c # cs)) \<Longrightarrow> s ! i = c"
  by (auto simp: Lit_def)

lemma not_prefixed:
  assumes "s \<noteq> []" "\<not> is_js_space (hd s)" "hd s \<notin> {62, 43, 42, 45}" "\<not> is_digit (hd s)"
  shows "\<not> re_test HL_PREFIX_RE s"
proof
  assume "re_test HL_PREFIX_RE s"
  then obtain a b c d e where m: "(0, a) \<in> den s (Star True Sp)"
      "(a, b) \<in> den s (Opt True (Alts [Lit (js ''>>>''), Lit (js ''>>'')]))"
      "(b, c) \<in> den s (Star True Sp)"
      "(c, d) \<in> den s (Opt True (Cat (one_of (js ''+*-'')) (Star True Sp)))"
      "(d, e) \<in> den s (Plus True Dig)"
    unfolding HL_PREFIX_RE_def re_test_Cats_Bol by auto
  have h: "s ! 0 = hd s" using assms(1) by (simp add: hd_conv_nth)
  have "a = 0" using m(1) assms(1,2) star_Sp_zero [of a s] by (simp del: den.simps(5))
  moreover have "b = a" using m(2) assms(3) h \<open>a = 0\<close>
    by (auto simp: den_Opt dest: den_Lit_first)
  moreover have "c = b" using m(3) assms(1,2) star_Sp_zero [of c s] calculation
    by (simp del: den.simps(5))
  moreover have "d = c" using m(4) assms(3) h calculation
    by (auto simp: den_Opt one_of_def simp del: den.simps(5))
  ultimately have "is_digit (s ! 0)" using m(5) by (auto simp: Plus_def simp del: den.simps(5))
  then show False using assms(4) h by simp
qed

lemma first_match_Opt_skip: "(\<And>y. y \<notin> set (re_run r s x)) \<Longrightarrow> first_match (Opt True r) s x x"
  by (cases "re_run r s x") (auto simp: first_match_def Opt_def)

lemma first_match_Plus:
  assumes "i < j" "j \<le> length s" "\<forall>k. i \<le> k \<and> k < j \<longrightarrow> p (s ! k)" "j = length s \<or> \<not> p (s ! j)"
  shows "first_match (Plus True (Cls p)) s (i, c) (j, c)"
  unfolding Plus_def
  by (rule first_match_Cat [OF first_match_Cls first_match_star]) (use assms in auto)

text \<open>A numbered line: the pattern takes exactly the number and its colon.\<close>

lemma numbered_exec:
  "re_exec HL_PREFIX_RE (formatNumberedLine n l) = Some (0, Suc (length (dec n)), [])"
proof (rule first_match_exec)
  let ?s = "formatNumberedLine n l" and ?k = "length (dec n)"
  have d: "\<forall>c\<in>set (dec n). is_digit c" "dec n \<noteq> []" using dec_digits [of n] by auto
  have s: "?s = dec n @ 58 # l" by (simp add: formatNumberedLine_def HL_LINE_BODY_SEP_def)
  have at: "i < ?k \<Longrightarrow> is_digit (?s ! i)" "?s ! ?k = 58" "?k < length ?s" "0 < ?k" for i
    using d by (auto simp: s nth_append)
  have h: "\<not> is_js_space (?s ! 0)" "?s ! 0 \<noteq> 62" "?s ! 0 \<notin> set (js ''+*-'')" "\<not> is_digit 58"
    using at(1) [of 0] at(4) by (auto simp: is_js_space_def is_digit_def)
  have "first_match (Star True Sp) ?s (0, []) (0, [])" by (rule first_match_star_stop) (use h in simp)
  moreover have "first_match (Opt True (Alts [Lit (js ''>>>''), Lit (js ''>>'')])) ?s (0, []) (0, [])"
    by (rule first_match_Opt_skip) (use h(2) in \<open>auto simp: Lit_def\<close>)
  moreover have "first_match (Opt True (Cat (one_of (js ''+*-'')) (Star True Sp))) ?s (0, []) (0, [])"
    by (rule first_match_Opt_skip) (use h(3) in \<open>auto simp: one_of_def\<close>)
  moreover have "first_match (Plus True Dig) ?s (0, []) (?k, [])"
    by (rule first_match_Plus) (use at h(4) in auto)
  moreover have "first_match (Lit (js '':'')) ?s (?k, []) (Suc ?k, [])"
    using at by (simp add: Lit_def first_match_def)
  ultimately show "first_match HL_PREFIX_RE ?s (0, []) (Suc ?k, [])"
    unfolding HL_PREFIX_RE_def Cats.simps
    by (blast intro: first_match_Cat first_match_Bol first_match_Eps)
qed

lemma numbered_line_facts:
  "re_test HL_PREFIX_RE (formatNumberedLine n l)" "re_remove HL_PREFIX_RE (formatNumberedLine n l) = l"
  "\<not> re_test READ_TRUNCATION_NOTICE_RE (formatNumberedLine n l)"
  "\<not> re_test HL_HEADER_RE (formatNumberedLine n l)" "formatNumberedLine n l \<noteq> []"
proof -
  have s: "formatNumberedLine n l = dec n @ 58 # l"
    by (simp add: formatNumberedLine_def HL_LINE_BODY_SEP_def)
  show "re_test HL_PREFIX_RE (formatNumberedLine n l)" by (simp add: re_test_def numbered_exec)
  show "re_remove HL_PREFIX_RE (formatNumberedLine n l) = l" 
    unfolding re_remove_def numbered_exec by (simp add: s)
  have "is_digit (hd (formatNumberedLine n l))"
    using dec_digits [of n] by (cases "dec n") (auto simp: s)
  then have "hd (formatNumberedLine n l) \<noteq> 91" "\<not> is_js_space (hd (formatNumberedLine n l))"
    "hd (formatNumberedLine n l) \<noteq> 0xB6" by (auto simp: is_digit_def is_js_space_def)
  then show "\<not> re_test READ_TRUNCATION_NOTICE_RE (formatNumberedLine n l)"
    "\<not> re_test HL_HEADER_RE (formatNumberedLine n l)"
    using not_truncation not_header_line by blast+
  show "formatNumberedLine n l \<noteq> []" by (simp add: s)
qed

lemma strip_numbered: "stripLeadingHashlinePrefixes (formatNumberedLine n l) = stripLeadingHashlinePrefixes l"
proof -
  have "length l < length (formatNumberedLine n l)" by (simp add: formatNumberedLine_def)
  then have "l \<noteq> formatNumberedLine n l" by auto
  then show ?thesis
    using stripLeadingHashlinePrefixes.simps [of "formatNumberedLine n l"] numbered_line_facts(2) by simp
qed

lemma strip_none: "\<not> re_test HL_PREFIX_RE l \<Longrightarrow> stripLeadingHashlinePrefixes l = l"
  by (subst stripLeadingHashlinePrefixes.simps) (simp add: re_test_def re_remove_def del: not_None_eq)

lemma stats_numbered:
  "nonEmpty (foldl line_stats st (map (\<lambda>(n, l). formatNumberedLine n l) nls)) = nonEmpty st + length nls \<and>
   headerCount (foldl line_stats st (map (\<lambda>(n, l). formatNumberedLine n l) nls)) = headerCount st \<and>
   hashPrefixCount (foldl line_stats st (map (\<lambda>(n, l). formatNumberedLine n l) nls)) =
     hashPrefixCount st + length nls"
proof (induction nls arbitrary: st)
  case (Cons nl nls)
  obtain n l where nl: "nl = (n, l)" by (cases nl)
  show ?case
    using Cons.IH [of "line_stats st (formatNumberedLine n l)"] numbered_line_facts [of n l]
    by (simp add: nl line_stats_def bump_def)
qed simp

lemma echoed_stripped:
  assumes "nls \<noteq> []"
  shows "stripHashlinePrefixes (map (\<lambda>(n, l). formatNumberedLine n l) nls) =
      map (stripLeadingHashlinePrefixes \<circ> snd) nls"
    and "stripNewLinePrefixes (map (\<lambda>(n, l). formatNumberedLine n l) nls) =
      map (stripLeadingHashlinePrefixes \<circ> snd) nls"
proof -
  let ?ls = "map (\<lambda>(n, l). formatNumberedLine n l) nls"
  let ?st = "collectLinePrefixStats ?ls"
  have st: "nonEmpty ?st = length nls" "headerCount ?st = 0" "hashPrefixCount ?st = length nls"
    using stats_numbered [of _ nls] by (simp_all add: collectLinePrefixStats_def)
  have f: "filter (\<lambda>line. \<not> re_test READ_TRUNCATION_NOTICE_RE line \<and> \<not> re_test HL_HEADER_RE line) ?ls = ?ls"
    by (rule filter_True) (use numbered_line_facts in auto)
  have m: "map stripLeadingHashlinePrefixes ?ls = map (stripLeadingHashlinePrefixes \<circ> snd) nls"
    by (auto simp: strip_numbered)
  show "stripHashlinePrefixes ?ls = map (stripLeadingHashlinePrefixes \<circ> snd) nls"
    using assms st f m by (simp add: stripHashlinePrefixes_def Let_def)
  show "stripNewLinePrefixes ?ls = map (stripLeadingHashlinePrefixes \<circ> snd) nls"
    using assms st f m by (simp add: stripNewLinePrefixes_def Let_def)
qed

lemma numbered_lines_eq:
  "split_lines (formatNumberedLines body k) =
   map (\<lambda>(n, l). formatNumberedLine n l) (zip [k..<k + length (split_lines body)] (split_lines body))"
proof -
  let ?ls = "split_lines body"
  let ?f = "map (\<lambda>(i, line). formatNumberedLine (k + i) line) (zip [0..<length ?ls] ?ls)"
  have "?f = map (\<lambda>(n, l). formatNumberedLine n l) (zip [k..<k + length ?ls] ?ls)"
    by (auto intro: nth_equalityI)
  moreover have "LF \<notin> set (formatNumberedLine n l)" if "l \<in> set ?ls" for n l
    using that dec_digits [of n] split_on_no_sep [OF that]
    by (auto simp: formatNumberedLine_def HL_LINE_BODY_SEP_def is_digit_def)
  then have "split_lines (join_lines ?f) = ?f"
    by (intro split_join) (auto dest: set_zip_rightD)
  ultimately show ?thesis by (simp add: formatNumberedLines_def Let_def)
qed

section \<open>Properties\<close>

text \<open>
  Numbering the lines of a text and stripping the numbers again gives back its lines, in
  the strict and the opportunistic mode, whatever the first number, when no line of the text
  itself looks numbered.
\<close>

theorem numbering_stripped:
  assumes "\<forall>l\<in>set (split_lines body). \<not> re_test HL_PREFIX_RE l"
  shows "stripHashlinePrefixes (split_lines (formatNumberedLines body k)) = split_lines body \<and>
    stripNewLinePrefixes (split_lines (formatNumberedLines body k)) = split_lines body"
proof -
  let ?nls = "zip [k..<k + length (split_lines body)] (split_lines body)"
  have "?nls \<noteq> []" by (metis length_greater_0_conv length_map length_split_on_pos length_zip
      map_snd_zip length_upt diff_add_inverse min.idem)
  moreover have "map (stripLeadingHashlinePrefixes \<circ> snd) ?nls = split_lines body"
    using assms strip_none by (intro nth_equalityI) auto
  ultimately show ?thesis unfolding numbered_lines_eq using echoed_stripped by metis
qed

theorem numbering_stripped_witness:
  "stripHashlinePrefixes (split_lines (formatNumberedLines (js ''if x:'' @ LF # js ''  y'') 7)) =
     split_lines (js ''if x:'' @ LF # js ''  y'') \<and>
   stripNewLinePrefixes (split_lines (formatNumberedLines (js ''if x:'' @ LF # js ''  y'') 7)) =
     split_lines (js ''if x:'' @ LF # js ''  y'')"
  by (rule numbering_stripped) code_simp

text \<open>
  The header pattern is out of step with the headers that are printed: it wants three hex
  digits where a tag has four, so it matches no printed header, and echoed output that begins
  with its header is not stripped at all, while the same lines without the header are.
\<close>

theorem echoed_header_blocks_stripping:
  "\<not> re_test HL_HEADER_RE (formatHashlineHeader path (computeFileHash xxh content)) \<and>
   stripHashlinePrefixes (formatHashlineHeader path (computeFileHash xxh content) #
       map (\<lambda>(n, l). formatNumberedLine n l) nls) =
     formatHashlineHeader path (computeFileHash xxh content) #
       map (\<lambda>(n, l). formatNumberedLine n l) nls \<and>
   stripHashlinePrefixes (map (\<lambda>(n, l). formatNumberedLine n l) nls) =
     map (stripLeadingHashlinePrefixes \<circ> snd) nls"
proof -
  define h where "h = formatHashlineHeader path (computeFileHash xxh content)"
  have hd: "h = 0xB6 # path @ [35] @ computeFileHash xxh content"
    by (simp add: h_def formatHashlineHeader_def HL_FILE_PREFIX_def HL_FILE_HASH_SEP_def)
  have no: "\<not> re_test HL_HEADER_RE h"
    using printed_header_not_header by (simp add: h_def computeFileHash_def Let_def)
  have np: "\<not> re_test HL_PREFIX_RE h"
    by (rule not_prefixed) (simp_all add: hd is_js_space_def is_digit_def)
  have nt: "\<not> re_test READ_TRUNCATION_NOTICE_RE h" by (rule not_truncation) (simp add: hd)
  let ?ls = "map (\<lambda>(n, l). formatNumberedLine n l) nls"
  have st: "nonEmpty (collectLinePrefixStats (h # ?ls)) = Suc (length nls)"
    "headerCount (collectLinePrefixStats (h # ?ls)) = 0"
    "hashPrefixCount (collectLinePrefixStats (h # ?ls)) = length nls"
    using stats_numbered [of _ nls] no np nt
    by (simp_all add: collectLinePrefixStats_def line_stats_def bump_def) (simp_all add: hd)
  have "stripHashlinePrefixes (h # ?ls) = h # ?ls"
    using st by (simp add: stripHashlinePrefixes_def Let_def)
  moreover have "stripHashlinePrefixes ?ls = map (stripLeadingHashlinePrefixes \<circ> snd) nls"
    using echoed_stripped by (cases "nls = []")
      (simp_all add: stripHashlinePrefixes_def collectLinePrefixStats_def)
  ultimately show ?thesis using no by (simp add: h_def)
qed

end
