(* ===== verification/Hash_Stream.thy ===== *)
theory Hash_Stream
  imports Normalize Tokenizer
begin

text \<open>
  Numbered lines of a byte stream in bounded chunks (\<open>packages/hashline/src/stream.ts\<close>).  The
  runtime's \<open>TextDecoder\<close> and \<open>Buffer.byteLength\<close> are parameters; the source is the list of the
  byte chunks it delivers, and the result is the list of the strings the generator yields.
\<close>

section \<open>Options\<close>

record stream_options =
  so_startLine :: "nat option"
  so_maxChunkLines :: "nat option"
  so_maxChunkBytes :: "nat option"

record resolved_stream_options =
  startLine :: nat
  maxChunkLines :: nat
  maxChunkBytes :: nat

definition or_default :: "'a option \<Rightarrow> 'a \<Rightarrow> 'a" where
  "or_default x d = (case x of Some v \<Rightarrow> v | None \<Rightarrow> d)"

definition resolveStreamOptions :: "stream_options \<Rightarrow> resolved_stream_options" where
  "resolveStreamOptions options =
     \<lparr>startLine = or_default (so_startLine options) 1,
      maxChunkLines = or_default (so_maxChunkLines options) 200,
      maxChunkBytes = or_default (so_maxChunkBytes options) (64 * 1024)\<rparr>"

section \<open>The chunk emitter\<close>

text \<open>The variables that the closures of \<open>createChunkEmitter\<close> share.\<close>

record emitter =
  em_lineNumber :: nat
  em_outLines :: "jstring list"
  em_outBytes :: nat

definition createChunkEmitter :: "resolved_stream_options \<Rightarrow> emitter" where
  "createChunkEmitter options =
     \<lparr>em_lineNumber = startLine options, em_outLines = [], em_outBytes = 0\<rparr>"

definition em_flush :: "emitter \<Rightarrow> jstring option \<times> emitter" where
  "em_flush em =
     (if em_outLines em = [] then (None, em)
      else (Some (join_lines (em_outLines em)), em\<lparr>em_outLines := [], em_outBytes := 0\<rparr>))"

text \<open>\<open>if (flushed) chunks.push(flushed)\<close>: the empty string is not pushed.\<close>

definition push_flushed :: "jstring option \<Rightarrow> jstring list" where
  "push_flushed flushed = (case flushed of Some (c # cs) \<Rightarrow> [c # cs] | _ \<Rightarrow> [])"

definition em_pushLine ::
  "(jstring \<Rightarrow> nat) \<Rightarrow> resolved_stream_options \<Rightarrow> emitter \<Rightarrow> jstring \<Rightarrow> jstring list \<times> emitter" where
  "em_pushLine byteLength options em line =
     (let formatted = formatNumberedLine (em_lineNumber em) line;
          em0 = em\<lparr>em_lineNumber := Suc (em_lineNumber em)\<rparr>;
          sepBytes = (if length (em_outLines em0) = 0 then 0 else 1);
          lineBytes = byteLength formatted;
          wouldOverflow = (length (em_outLines em0) \<ge> maxChunkLines options \<or>
            em_outBytes em0 + sepBytes + lineBytes > maxChunkBytes options);
          (chunks1, em1) =
            (if length (em_outLines em0) > 0 \<and> wouldOverflow
             then (case em_flush em0 of (flushed, em) \<Rightarrow> (push_flushed flushed, em))
             else ([], em0));
          em2 = em1\<lparr>em_outLines := em_outLines em1 @ [formatted]\<rparr>;
          em3 = em2\<lparr>em_outBytes := em_outBytes em2 +
            ((if length (em_outLines em2) = 1 then 0 else 1) + lineBytes)\<rparr>;
          (chunks2, em4) =
            (if length (em_outLines em3) \<ge> maxChunkLines options \<or>
                em_outBytes em3 \<ge> maxChunkBytes options
             then (case em_flush em3 of (flushed, em) \<Rightarrow> (push_flushed flushed, em))
             else ([], em3))
      in (chunks1 @ chunks2, em4))"

section \<open>The stream\<close>

text \<open>The reads of a reader: a read without a value is skipped.\<close>

definition bytesFromReadableStream :: "'b option list \<Rightarrow> 'b list" where
  "bytesFromReadableStream reads = concat (map (\<lambda>r. case r of Some v \<Rightarrow> [v] | None \<Rightarrow> []) reads)"

record ('d, 'b) text_decoder =
  td_new :: 'd
  td_decode :: "'d \<Rightarrow> 'b \<Rightarrow> jstring \<times> 'd"
  td_end :: "'d \<Rightarrow> jstring"

text \<open>The \<open>while\<close> loop over the complete lines of \<open>pending\<close>.\<close>

function emit_lines ::
  "(jstring \<Rightarrow> nat) \<Rightarrow> resolved_stream_options \<Rightarrow> jstring \<Rightarrow> bool \<Rightarrow> emitter \<Rightarrow>
   jstring list \<times> jstring \<times> bool \<times> emitter" where
  "emit_lines byteLength options rest sawAnyLine em =
     (case index_of rest [LF] of
        None \<Rightarrow> ([], rest, sawAnyLine, em)
      | Some nl \<Rightarrow>
          (let line = chop_cr (take nl rest);
               (outs, em1) = em_pushLine byteLength options em line;
               (more, rest1, saw1, em2) = emit_lines byteLength options (drop (Suc nl) rest) True em1
           in (outs @ more, rest1, saw1, em2)))"
  by pat_completeness auto
termination
  by (relation "measure (\<lambda>(b, o', rest, s, em). length rest)")
     (auto simp: index_of_Some starts_with_at_one)

declare emit_lines.simps [simp del]

fun emit_chunks ::
  "(jstring \<Rightarrow> nat) \<Rightarrow> resolved_stream_options \<Rightarrow> ('d, 'b) text_decoder \<Rightarrow> 'd \<Rightarrow> 'b list \<Rightarrow>
   jstring \<Rightarrow> bool \<Rightarrow> emitter \<Rightarrow> jstring list \<times> 'd \<times> jstring \<times> bool \<times> emitter" where
  "emit_chunks byteLength options decoder d [] rest saw em = ([], d, rest, saw, em)"
| "emit_chunks byteLength options decoder d (chunk # chunks) rest saw em =
     (let (piece, d1) = td_decode decoder d chunk;
          (outs, rest1, saw1, em1) = emit_lines byteLength options (rest @ piece) saw em;
          (more, d2, rest2, saw2, em2) = emit_chunks byteLength options decoder d1 chunks rest1 saw1 em1
      in (outs @ more, d2, rest2, saw2, em2))"

definition streamHashLines ::
  "(jstring \<Rightarrow> nat) \<Rightarrow> ('d, 'b) text_decoder \<Rightarrow> 'b list \<Rightarrow> stream_options \<Rightarrow> jstring list" where
  "streamHashLines byteLength decoder chunks options =
     (let resolved = resolveStreamOptions options;
          (outs, d, rest, saw, em) = emit_chunks byteLength resolved decoder (td_new decoder) chunks
             [] False (createChunkEmitter resolved);
          rest1 = rest @ td_end decoder d;
          (outs1, saw1, em1) =
            (if length rest1 > 0
             then (case em_pushLine byteLength resolved em (chop_cr rest1) of
                     (o1, em1) \<Rightarrow> (o1, True, em1))
             else ([], saw, em));
          (outs2, em2) = (if \<not> saw1 then em_pushLine byteLength resolved em1 [] else ([], em1));
          (final, em3) = em_flush em2
      in outs @ outs1 @ outs2 @ push_flushed final)"

section \<open>The lines of a text\<close>

text \<open>
  The lines that are numbered: those between line feeds, without a carriage return at the end;
  what follows the last line feed only when it is not empty; one empty line for an empty text.
\<close>

definition stream_lines :: "jstring \<Rightarrow> jstring list" where
  "stream_lines body =
     (let ls = split_lines body;
          full = map chop_cr (butlast ls) @ (if last ls = [] then [] else [chop_cr (last ls)])
      in if full = [] then [[]] else full)"

fun push_all ::
  "(jstring \<Rightarrow> nat) \<Rightarrow> resolved_stream_options \<Rightarrow> emitter \<Rightarrow> jstring list \<Rightarrow>
   jstring list \<times> emitter" where
  "push_all byteLength options em [] = ([], em)"
| "push_all byteLength options em (l # ls) =
     (let (outs, em1) = em_pushLine byteLength options em l;
          (more, em2) = push_all byteLength options em1 ls
      in (outs @ more, em2))"

lemma push_all_append:
  "push_all bl o' em (xs @ ys) =
   (let (a, em1) = push_all bl o' em xs; (b, em2) = push_all bl o' em1 ys in (a @ b, em2))"
  by (induction xs arbitrary: em) (auto simp: Let_def split: prod.splits)

lemma index_of_LF_None: "index_of s [LF] = None \<longleftrightarrow> LF \<notin> set s"
  unfolding index_of_None starts_with_at_one in_set_conv_nth by (meson less_imp_le)

lemma index_of_LF_Some:
  assumes "index_of s [LF] = Some i"
  shows "s = take i s @ LF # drop (Suc i) s" "LF \<notin> set (take i s)"
proof -
  have i: "i < length s" "s ! i = LF" "\<forall>j<i. j < length s \<longrightarrow> s ! j \<noteq> LF"
    using assms by (auto simp: index_of_Some starts_with_at_one)
  then show "s = take i s @ LF # drop (Suc i) s" by (metis id_take_nth_drop)
  show "LF \<notin> set (take i s)" using i by (auto simp: in_set_conv_nth)
qed

lemma emit_lines_push:
  "emit_lines bl o' rest saw em =
   (case push_all bl o' em (map chop_cr (butlast (split_lines rest))) of
      (outs, em') \<Rightarrow> (outs, last (split_lines rest), saw \<or> LF \<in> set rest, em'))"
proof (induction bl o' rest saw em rule: emit_lines.induct)
  case (1 bl o' rest saw em)
  show ?case
  proof (cases "index_of rest [LF]")
    case None
    then have "LF \<notin> set rest" by (simp add: index_of_LF_None)
    then show ?thesis using None
      by (subst emit_lines.simps) (simp add: split_on_none)
  next
    case (Some nl)
    note r = index_of_LF_Some [OF Some]
    obtain o1 em1 where p: "em_pushLine bl o' em (chop_cr (take nl rest)) = (o1, em1)" by fastforce
    note ih = "1.IH" [OF Some refl p [symmetric] refl]
    have "split_lines rest = take nl rest # split_lines (drop (Suc nl) rest)"
      using r split_on_append_sep by metis
    moreover have "LF \<in> set rest" using r(1) by (metis in_set_conv_decomp)
    ultimately show ?thesis
      using Some p ih by (subst emit_lines.simps) (simp add: Let_def split: prod.splits)
  qed
qed

section \<open>What the emitter yields\<close>

text \<open>The size of a chunk: its lines and the separators between them.\<close>

definition chunk_bytes :: "(jstring \<Rightarrow> nat) \<Rightarrow> jstring list \<Rightarrow> nat" where
  "chunk_bytes byteLength g = sum_list (map byteLength g) + (length g - 1)"

definition chunk_ok :: "(jstring \<Rightarrow> nat) \<Rightarrow> resolved_stream_options \<Rightarrow> jstring list \<Rightarrow> bool" where
  "chunk_ok byteLength options g \<longleftrightarrow> g \<noteq> [] \<and>
     (length g = 1 \<or> length g \<le> maxChunkLines options \<and> chunk_bytes byteLength g \<le> maxChunkBytes options)"

definition em_ok :: "(jstring \<Rightarrow> nat) \<Rightarrow> resolved_stream_options \<Rightarrow> emitter \<Rightarrow> bool" where
  "em_ok byteLength options em \<longleftrightarrow>
     em_outBytes em = chunk_bytes byteLength (em_outLines em) \<and> [] \<notin> set (em_outLines em) \<and>
     (em_outLines em = [] \<or> chunk_ok byteLength options (em_outLines em))"

lemma join_not_Nil: "g \<noteq> [] \<Longrightarrow> [] \<notin> set g \<Longrightarrow> join_lines g \<noteq> []"
  by (cases g; cases "tl g") auto

lemma push_flushed_join: "g \<noteq> [] \<Longrightarrow> [] \<notin> set g \<Longrightarrow> push_flushed (Some (join_lines g)) = [join_lines g]"
  using join_not_Nil [of g] by (cases "join_lines g") (auto simp: push_flushed_def)

lemma formatNumberedLine_not_Nil: "formatNumberedLine n l \<noteq> []"
  by (simp add: formatNumberedLine_def HL_LINE_BODY_SEP_def)

text \<open>One line: it goes behind the lines held back, which may be yielded before and after.\<close>

lemma em_pushLine_groups:
  assumes "em_ok bl o' em" "em_pushLine bl o' em line = (outs, em')"
  shows "\<exists>gs. outs = map join_lines gs \<and> (\<forall>g\<in>set gs. chunk_ok bl o' g) \<and> em_ok bl o' em' \<and>
    em_lineNumber em' = Suc (em_lineNumber em) \<and>
    concat gs @ em_outLines em' =
      em_outLines em @ [formatNumberedLine (em_lineNumber em) line]"
proof -
  let ?f = "formatNumberedLine (em_lineNumber em) line" and ?ls = "em_outLines em"
  let ?over = "length ?ls \<ge> maxChunkLines o' \<or>
    em_outBytes em + (if length ?ls = 0 then 0 else 1) + bl ?f > maxChunkBytes o'"
  define first where "first = (if length ?ls > 0 \<and> ?over then [?ls] else [])"
  define held where "held = (if length ?ls > 0 \<and> ?over then [?f] else ?ls @ [?f])"
  define full where "full \<longleftrightarrow> length held \<ge> maxChunkLines o' \<or> chunk_bytes bl held \<ge> maxChunkBytes o'"
  have ls: "em_outBytes em = chunk_bytes bl ?ls" "[] \<notin> set ?ls" "?ls = [] \<or> chunk_ok bl o' ?ls"
    using assms(1) by (simp_all add: em_ok_def)
  have held: "held \<noteq> []" "[] \<notin> set held" "chunk_ok bl o' held"
    using ls formatNumberedLine_not_Nil [of "em_lineNumber em" line]
    by (auto simp: held_def chunk_ok_def chunk_bytes_def not_le)
  have "em_pushLine bl o' em line =
      (map join_lines first @ (if full then [join_lines held] else []),
       \<lparr>em_lineNumber = Suc (em_lineNumber em), em_outLines = (if full then [] else held),
        em_outBytes = (if full then 0 else chunk_bytes bl held)\<rparr>)"
  proof -
    define b where "b = bl ?f"
    have hb: "chunk_bytes bl held = (if length ?ls > 0 \<and> ?over then b
        else em_outBytes em + ((if ?ls = [] then 0 else 1) + b))"
      using ls(1) by (auto simp: held_def chunk_bytes_def b_def)
    have p1: "push_flushed (Some (join_lines ?ls)) = [join_lines ?ls]" if "?ls \<noteq> []"
      by (rule push_flushed_join [OF that ls(2)])
    have p2: "push_flushed (Some (join_lines held)) = [join_lines held]"
      by (rule push_flushed_join [OF held(1,2)])
    show ?thesis
    proof (cases "length ?ls > 0 \<and> ?over")
      case True
      have h: "held = [?f]" "first = [?ls]"
        unfolding held_def first_def by (rule if_P [OF True])+
      have hb1: "chunk_bytes bl held = b" unfolding hb using True by (rule if_P)
      have o: "?ls \<noteq> []" "maxChunkLines o' \<le> length ?ls \<or> maxChunkBytes o' < Suc (em_outBytes em + bl ?f)"
        using True by (auto split: if_splits)
      have "em_pushLine bl o' em line =
         (let em3 = em\<lparr>em_lineNumber := Suc (em_lineNumber em), em_outLines := [?f], em_outBytes := b\<rparr>
          in if full then (join_lines ?ls # push_flushed (Some (join_lines [?f])),
               em3\<lparr>em_outLines := [], em_outBytes := 0\<rparr>) else ([join_lines ?ls], em3))"
        using o p1 hb1 h unfolding em_pushLine_def full_def
        by (auto simp: Let_def em_flush_def b_def)
      then show ?thesis using p2 h hb1 by (auto simp: Let_def)
    next
      case False
      then have h: "held = ?ls @ [?f]" "first = []" by (auto simp: held_def first_def)
      have "em_pushLine bl o' em line =
         (let em3 = em\<lparr>em_lineNumber := Suc (em_lineNumber em), em_outLines := held,
              em_outBytes := chunk_bytes bl held\<rparr>
          in if full then (push_flushed (Some (join_lines held)),
               em3\<lparr>em_outLines := [], em_outBytes := 0\<rparr>) else ([], em3))"
        using False hb h unfolding em_pushLine_def full_def
        by (auto simp: Let_def em_flush_def b_def)
      then show ?thesis using p2 h by (auto simp: Let_def)
    qed
  qed
  then show ?thesis using assms(2) held ls
    by (intro exI [of _ "first @ (if full then [held] else [])"])
       (auto simp: first_def held_def em_ok_def chunk_ok_def chunk_bytes_def split: if_splits)
qed

text \<open>The lines with their numbers, from a first number.\<close>

definition numbered :: "nat \<Rightarrow> jstring list \<Rightarrow> jstring list" where
  "numbered k ls = map (\<lambda>(i, l). formatNumberedLine (k + i) l) (zip [0..<length ls] ls)"

lemma numbered_Cons: "numbered k (l # ls) = formatNumberedLine k l # numbered (Suc k) ls"
  by (simp add: numbered_def upt_conv_Cons map_Suc_upt [symmetric] zip_map1 comp_def case_prod_beta'
      del: upt_Suc)

lemma push_all_groups:
  assumes "em_ok bl o' em" "push_all bl o' em ls = (outs, em')"
  shows "\<exists>gs. outs = map join_lines gs \<and> (\<forall>g\<in>set gs. chunk_ok bl o' g) \<and> em_ok bl o' em' \<and>
    concat gs @ em_outLines em' = em_outLines em @ numbered (em_lineNumber em) ls"
  using assms
proof (induction ls arbitrary: em outs)
  case Nil
  then show ?case by (intro exI [of _ "[]"]) (simp add: numbered_def)
next
  case (Cons l ls)
  obtain o1 em1 where p: "em_pushLine bl o' em l = (o1, em1)" by fastforce
  obtain o2 where q: "push_all bl o' em1 ls = (o2, em')" "outs = o1 @ o2"
    using Cons.prems(2) p by (auto split: prod.splits)
  obtain g1 where g1: "o1 = map join_lines g1" "\<forall>g\<in>set g1. chunk_ok bl o' g" "em_ok bl o' em1"
      "em_lineNumber em1 = Suc (em_lineNumber em)"
      "concat g1 @ em_outLines em1 = em_outLines em @ [formatNumberedLine (em_lineNumber em) l]"
    using em_pushLine_groups [OF Cons.prems(1) p] by blast
  obtain g2 where g2: "o2 = map join_lines g2" "\<forall>g\<in>set g2. chunk_ok bl o' g" "em_ok bl o' em'"
      "concat g2 @ em_outLines em' = em_outLines em1 @ numbered (em_lineNumber em1) ls"
    using Cons.IH [OF g1(3) q(1)] by blast
  have "concat g1 @ concat g2 @ em_outLines em' =
      em_outLines em @ formatNumberedLine (em_lineNumber em) l # numbered (Suc (em_lineNumber em)) ls"
    using g1(4,5) g2(4) by (metis append.assoc append_Cons append_Nil)
  then show ?case using g1 g2 q(2) by (intro exI [of _ "g1 @ g2"]) (auto simp: numbered_Cons)
qed

lemma em_flush_groups:
  assumes "em_ok bl o' em"
  shows "\<exists>gs. push_flushed (fst (em_flush em)) = map join_lines gs \<and>
    (\<forall>g\<in>set gs. chunk_ok bl o' g) \<and> concat gs = em_outLines em"
proof (cases "em_outLines em = []")
  case True
  then show ?thesis by (intro exI [of _ "[]"]) (simp add: em_flush_def push_flushed_def)
next
  case False
  then show ?thesis
    using assms push_flushed_join [of "em_outLines em"]
    by (intro exI [of _ "[em_outLines em]"]) (simp add: em_flush_def em_ok_def)
qed

text \<open>The decoded text of a list of chunks.\<close>

fun decoded :: "('d, 'b) text_decoder \<Rightarrow> 'd \<Rightarrow> 'b list \<Rightarrow> jstring \<times> 'd" where
  "decoded decoder d [] = ([], d)"
| "decoded decoder d (chunk # chunks) =
     (let (piece, d1) = td_decode decoder d chunk; (rest, d2) = decoded decoder d1 chunks
      in (piece @ rest, d2))"

definition stream_text :: "('d, 'b) text_decoder \<Rightarrow> 'b list \<Rightarrow> jstring" where
  "stream_text decoder chunks =
     (let (body, d) = decoded decoder (td_new decoder) chunks in body @ td_end decoder d)"

lemma emit_chunks_push:
  "LF \<notin> set rest \<Longrightarrow>
   emit_chunks bl o' decoder d chunks rest saw em =
   (let (body, d') = decoded decoder d chunks;
        (outs, em') = push_all bl o' em (map chop_cr (butlast (split_lines (rest @ body))))
    in (outs, d', last (split_lines (rest @ body)), saw \<or> LF \<in> set body, em'))"
proof (induction chunks arbitrary: d rest saw em)
  case Nil
  then show ?case by (simp add: split_on_none)
next
  case (Cons chunk chunks)
  obtain piece d1 where p: "td_decode decoder d chunk = (piece, d1)" by fastforce
  obtain body d2 where b: "decoded decoder d1 chunks = (body, d2)" by fastforce
  let ?x = "rest @ piece"
  have no: "LF \<notin> set (last (split_lines ?x))"
    by (rule split_on_no_sep [of _ _ ?x]) simp
  note app = split_lines_append [of LF ?x body]
  have bl: "butlast (split_lines (?x @ body)) =
      butlast (split_lines ?x) @ butlast (split_lines (last (split_lines ?x) @ body))"
    "last (split_lines (?x @ body)) = last (split_lines (last (split_lines ?x) @ body))"
    unfolding app by (simp_all add: butlast_append)
  show ?case
    using Cons.prems p b
    by (simp add: emit_lines_push Cons.IH [OF no] Let_def bl [unfolded append_assoc] push_all_append
        split: prod.splits)
qed

lemma butlast_split_Nil: "butlast (split_lines s) = [] \<longleftrightarrow> LF \<notin> set s"
proof
  assume n: "butlast (split_lines s) = []"
  then have "split_lines s = [last (split_lines s)]"
    by (metis append_butlast_last_id append_Nil split_on_not_Nil)
  then have "s = last (split_lines s)" by (metis join_split join_with.simps(2))
  moreover have "LF \<notin> set (last (split_lines s))" by (rule split_on_no_sep [of _ _ s]) simp
  ultimately show "LF \<notin> set s" by simp
qed (simp add: split_on_none)

lemma stream_eq:
  assumes td: "\<And>d. LF \<notin> set (td_end decoder d)"
    and push: "push_all byteLength (resolveStreamOptions options)
      (createChunkEmitter (resolveStreamOptions options)) (stream_lines (stream_text decoder chunks)) =
    (outs, em)"
  shows "streamHashLines byteLength decoder chunks options = outs @ push_flushed (fst (em_flush em))"
proof -
  let ?o = "resolveStreamOptions options"
  let ?em = "createChunkEmitter ?o"
  obtain body d where b: "decoded decoder (td_new decoder) chunks = (body, d)" by fastforce
  let ?tail = "td_end decoder d"
  obtain o1 em1 where p: "push_all byteLength ?o ?em (map chop_cr (butlast (split_lines body))) = (o1, em1)"
    by fastforce
  have c: "emit_chunks byteLength ?o decoder (td_new decoder) chunks [] False ?em =
      (o1, d, last (split_lines body), LF \<in> set body, em1)"
    using emit_chunks_push [of "[]" byteLength ?o decoder "td_new decoder" chunks False ?em] b p by simp
  define rest where "rest = last (split_lines body) @ ?tail"
  have "LF \<notin> set (last (split_lines body))" by (rule split_on_no_sep [of _ _ body]) simp
  then have "LF \<notin> set rest" using td by (simp add: rest_def)
  then have sp: "split_lines (body @ ?tail) = butlast (split_lines body) @ [rest]"
    using split_lines_append [of LF body ?tail] by (simp add: rest_def split_on_none)
  have body: "stream_text decoder chunks = body @ ?tail" by (simp add: stream_text_def b)
  have lines: "stream_lines (stream_text decoder chunks) =
      (let full = map chop_cr (butlast (split_lines body)) @ (if rest = [] then [] else [chop_cr rest])
       in if full = [] then [[]] else full)"
    by (simp add: body stream_lines_def sp Let_def)
  note saw = butlast_split_Nil [of body]
  show ?thesis
  proof (cases "rest = []")
    case False
    obtain o2 em2 where p2: "em_pushLine byteLength ?o em1 (chop_cr rest) = (o2, em2)" by fastforce
    have "(outs, em) = (o1 @ o2, em2)"
      using push False p p2 by (simp add: lines push_all_append Let_def)
    then show ?thesis
      using c False p2 by (simp add: streamHashLines_def Let_def rest_def split: prod.splits)
  next
    case True
    show ?thesis
    proof (cases "LF \<in> set body")
      case True
      then have "(outs, em) = (o1, em1)" using push \<open>rest = []\<close> p saw by (simp add: lines Let_def)
      then show ?thesis
        using c True \<open>rest = []\<close> by (simp add: streamHashLines_def Let_def rest_def split: prod.splits)
    next
      case False
      then have "(o1, em1) = ([], ?em)" using p saw by simp
      moreover obtain o2 em2 where p2: "em_pushLine byteLength ?o ?em [] = (o2, em2)" by fastforce
      ultimately have "(outs, em) = (o2, em2)" "em1 = ?em" "o1 = []"
        using push False \<open>rest = []\<close> saw by (simp_all add: lines Let_def)
      then show ?thesis
        using c False \<open>rest = []\<close> p2 by (simp add: streamHashLines_def Let_def rest_def split: prod.splits)
    qed
  qed
qed

section \<open>Properties\<close>

text \<open>
  C35: whatever byte chunks the source is cut into, the strings that are yielded are the
  numbered lines of the decoded text in order, joined in groups; a group is never empty and
  keeps both bounds unless it is a single line, which is yielded whole however long it is.
  (The decoder holds back at most an incomplete character, never a line feed.)
\<close>

theorem stream_chunks_bounded:
  assumes "\<And>d. LF \<notin> set (td_end decoder d)"
  shows "\<exists>gs. streamHashLines byteLength decoder chunks options = map join_lines gs \<and>
    concat gs = numbered (or_default (so_startLine options) 1) (stream_lines (stream_text decoder chunks)) \<and>
    (\<forall>g\<in>set gs. g \<noteq> [] \<and> (length g = 1 \<or>
       length g \<le> or_default (so_maxChunkLines options) 200 \<and>
       chunk_bytes byteLength g \<le> or_default (so_maxChunkBytes options) 65536))"
proof -
  let ?o = "resolveStreamOptions options"
  let ?em = "createChunkEmitter ?o"
  obtain outs em where p: "push_all byteLength ?o ?em (stream_lines (stream_text decoder chunks)) = (outs, em)"
    by fastforce
  have ok: "em_ok byteLength ?o ?em" by (simp add: em_ok_def createChunkEmitter_def chunk_bytes_def)
  obtain g1 where g1: "outs = map join_lines g1" "\<forall>g\<in>set g1. chunk_ok byteLength ?o g"
      "em_ok byteLength ?o em"
      "concat g1 @ em_outLines em = em_outLines ?em @
        numbered (em_lineNumber ?em) (stream_lines (stream_text decoder chunks))"
    using push_all_groups [OF ok p] by blast
  obtain g2 where g2: "push_flushed (fst (em_flush em)) = map join_lines g2"
      "\<forall>g\<in>set g2. chunk_ok byteLength ?o g" "concat g2 = em_outLines em"
    using em_flush_groups [OF g1(3)] by blast
  have "streamHashLines byteLength decoder chunks options = map join_lines (g1 @ g2)"
    using stream_eq [OF assms p] g1(1) g2(1) by simp
  moreover have "concat (g1 @ g2) =
      numbered (or_default (so_startLine options) 1) (stream_lines (stream_text decoder chunks))"
    using g1(4) g2(3) by (simp add: createChunkEmitter_def resolveStreamOptions_def)
  moreover have "\<forall>g\<in>set (g1 @ g2). chunk_ok byteLength ?o g" using g1(2) g2(2) by auto
  ultimately show ?thesis
    by (intro exI [of _ "g1 @ g2"]) (simp add: chunk_ok_def resolveStreamOptions_def)
qed

text \<open>A decoder for byte chunks that are ASCII.\<close>

definition ascii_decoder :: "(unit, nat list) text_decoder" where
  "ascii_decoder = \<lparr>td_new = (), td_decode = \<lambda>d b. (b, d), td_end = \<lambda>d. []\<rparr>"

theorem stream_chunks_bounded_witness:
  "\<exists>gs. streamHashLines length ascii_decoder [js ''a'', LF # js ''b'', [LF]]
      \<lparr>so_startLine = None, so_maxChunkLines = Some 1, so_maxChunkBytes = None\<rparr> = map join_lines gs \<and>
    concat gs = numbered (or_default None 1)
      (stream_lines (stream_text ascii_decoder [js ''a'', LF # js ''b'', [LF]])) \<and>
    (\<forall>g\<in>set gs. g \<noteq> [] \<and> (length g = 1 \<or> length g \<le> or_default (Some 1) 200 \<and>
       chunk_bytes length g \<le> or_default None 65536))"
  using stream_chunks_bounded [of ascii_decoder length "[js ''a'', LF # js ''b'', [LF]]"
      "\<lparr>so_startLine = None, so_maxChunkLines = Some 1, so_maxChunkBytes = None\<rparr>"]
  by (simp add: ascii_decoder_def)

end
