(* ===== verification/Diff_Preview.thy ===== *)
theory Diff_Preview
  imports Normalize
begin

text \<open>
  The numbered diff of an edit (\<open>generateDiffString\<close> of
  \<open>packages/coding-agent/src/edit/diff.ts\<close>) and its compact preview with post-edit line numbers
  (\<open>packages/hashline/src/diff-preview.ts\<close>).  \<open>Diff.diffLines\<close> of the package \<open>diff\<close> is not part
  of the repository: its result is an argument of the model.
\<close>

section \<open>The numbered diff\<close>

record diff_part =
  dp_added :: bool
  dp_removed :: bool
  dp_value :: jstring

record diff_result =
  dr_diff :: jstring
  dr_firstChangedLine :: "nat option"

definition formatNumberedDiffLine :: "jstring \<Rightarrow> nat \<Rightarrow> jstring \<Rightarrow> jstring" where
  "formatNumberedDiffLine prefix lineNum content = prefix @ dec lineNum @ js ''|'' @ content"

text \<open>The local variables of \<open>generateDiffString\<close>.\<close>

record gen_state =
  gs_output :: "jstring list"
  gs_old :: nat
  gs_new :: nat
  gs_lastWasChange :: bool
  gs_first :: "nat option"

definition raw_lines :: "jstring \<Rightarrow> jstring list" where
  "raw_lines value = (let raw = split_lines value in if last raw = [] then butlast raw else raw)"

definition is_change :: "diff_part \<Rightarrow> bool" where
  "is_change part = (dp_added part \<or> dp_removed part)"

fun push_change :: "bool \<Rightarrow> jstring list \<Rightarrow> gen_state \<Rightarrow> gen_state" where
  "push_change added [] st = st"
| "push_change added (line # lines) st =
     push_change added lines
       (if added
        then st\<lparr>gs_output := gs_output st @ [formatNumberedDiffLine (js ''+'') (gs_new st) line],
               gs_new := Suc (gs_new st)\<rparr>
        else st\<lparr>gs_output := gs_output st @ [formatNumberedDiffLine (js ''-'') (gs_old st) line],
               gs_old := Suc (gs_old st)\<rparr>)"

fun push_context :: "jstring list \<Rightarrow> gen_state \<Rightarrow> gen_state" where
  "push_context [] st = st"
| "push_context (line # lines) st =
     push_context lines
       (st\<lparr>gs_output := gs_output st @ [formatNumberedDiffLine (js '' '') (gs_old st) line],
          gs_old := Suc (gs_old st), gs_new := Suc (gs_new st)\<rparr>)"

definition skip_lines :: "nat \<Rightarrow> gen_state \<Rightarrow> gen_state" where
  "skip_lines k st = st\<lparr>gs_old := gs_old st + k, gs_new := gs_new st + k\<rparr>"

text \<open>The branch for an unchanged part; \<open>contextLimit\<close> is already clamped at zero.\<close>

definition context_part :: "nat \<Rightarrow> bool \<Rightarrow> jstring list \<Rightarrow> gen_state \<Rightarrow> gen_state" where
  "context_part contextLimit nextPartIsChange raw st =
     (let lastWasChange = gs_lastWasChange st in
      (if lastWasChange \<or> nextPartIsChange then
         (let (leadingSkip, middleSkip, trailingSkip, linesToShow) =
              (if lastWasChange \<and> nextPartIsChange then
                 (if length raw > contextLimit * 2 then
                    (let leadingContext = take contextLimit raw;
                         trailingContext = drop (length raw - contextLimit) raw
                     in (0, length raw - length leadingContext - length trailingContext, 0,
                         leadingContext @ trailingContext))
                  else (0, 0, 0, raw))
               else if nextPartIsChange then
                 (length raw - contextLimit, 0, 0, drop (length raw - contextLimit) raw)
               else (0, 0, length raw - contextLimit, take contextLimit raw));
              st1 = (if leadingSkip > 0 then skip_lines leadingSkip st else st);
              firstChunkLength = (if middleSkip > 0 then contextLimit else length linesToShow);
              st2 = push_context (take firstChunkLength linesToShow) st1;
              st3 = (if middleSkip > 0
                     then push_context (drop firstChunkLength linesToShow)
                       (skip_lines middleSkip
                         (st2\<lparr>gs_output := gs_output st2 @
                            [formatNumberedDiffLine (js '' '') (gs_old st2) (js ''...'')]\<rparr>))
                     else st2)
          in if trailingSkip > 0 then skip_lines trailingSkip st3 else st3)
       else skip_lines (length raw) st)\<lparr>gs_lastWasChange := False\<rparr>)"

fun gen_loop :: "nat \<Rightarrow> diff_part list \<Rightarrow> gen_state \<Rightarrow> gen_state" where
  "gen_loop contextLimit [] st = st"
| "gen_loop contextLimit (part # parts) st =
     (let raw = raw_lines (dp_value part)
      in gen_loop contextLimit parts
        (if is_change part then
           (push_change (dp_added part) raw
             (st\<lparr>gs_first := (if gs_first st = None then Some (gs_new st) else gs_first st)\<rparr>))
             \<lparr>gs_lastWasChange := True\<rparr>
         else
           context_part contextLimit (case parts of p # _ \<Rightarrow> is_change p | [] \<Rightarrow> False) raw st))"

definition generateDiffString :: "diff_part list \<Rightarrow> int \<Rightarrow> diff_result" where
  "generateDiffString parts contextLines =
     (let st = gen_loop (nat (max 0 contextLines)) parts
            \<lparr>gs_output = [], gs_old = 1, gs_new = 1, gs_lastWasChange = False, gs_first = None\<rparr>
      in \<lparr>dr_diff = join_lines (gs_output st), dr_firstChangedLine = gs_first st\<rparr>)"

section \<open>The preview\<close>

text \<open>
  \<open>Number.parseInt(s, 10)\<close>, \<open>None\<close> for \<open>NaN\<close>, and how a number is printed; line numbers stay far
  below the range where a double is not exact.
\<close>

definition parse_digits :: "jstring \<Rightarrow> nat option" where
  "parse_digits s = (let ds = takeWhile is_digit s in if ds = [] then None else Some (dec_value ds))"

definition parseInt :: "jstring \<Rightarrow> int option" where
  "parseInt s =
     (case dropWhile is_js_space s of
        [] \<Rightarrow> None
      | c # cs \<Rightarrow>
          if c = 45 then map_option (\<lambda>n. - int n) (parse_digits cs)
          else if c = 43 then map_option int (parse_digits cs)
          else map_option int (parse_digits (c # cs)))"

definition show_number :: "int option \<Rightarrow> jstring" where
  "show_number x =
     (case x of
        None \<Rightarrow> js ''NaN''
      | Some i \<Rightarrow> if i < 0 then js ''-'' @ dec (nat (- i)) else dec (nat i))"

record compact_diff_preview =
  cd_preview :: jstring
  cd_addedLines :: nat
  cd_removedLines :: nat

text \<open>The callback of \<open>map\<close>, with the two counters it updates.\<close>

definition preview_line :: "nat \<times> nat \<Rightarrow> jstring \<Rightarrow> jstring \<times> nat \<times> nat" where
  "preview_line counters line =
     (case counters of (addedLines, removedLines) \<Rightarrow>
      (case line of
         [] \<Rightarrow> (line, counters)
       | kind # body \<Rightarrow>
           if kind \<noteq> 43 \<and> kind \<noteq> 45 \<and> kind \<noteq> 32 then (line, counters)
           else
             (case index_of body (js ''|'') of
                None \<Rightarrow> (line, counters)
              | Some sep \<Rightarrow>
                  (let lineNumber = parseInt (take sep body); content = drop (Suc sep) body
                   in if kind = 43 then
                        (js ''+'' @ show_number lineNumber @ js '':'' @ content,
                         Suc addedLines, removedLines)
                      else if kind = 45 then
                        (js ''-'' @ show_number lineNumber @ js '':'' @ content,
                         addedLines, Suc removedLines)
                      else
                        (let newLineNumber = map_option (\<lambda>n. n + int addedLines - int removedLines) lineNumber
                         in (js '' '' @ show_number newLineNumber @ js '':'' @ content, counters))))))"

fun preview_lines :: "nat \<times> nat \<Rightarrow> jstring list \<Rightarrow> jstring list \<times> nat \<times> nat" where
  "preview_lines counters [] = ([], counters)"
| "preview_lines counters (l # ls) =
     (let (l', c1) = preview_line counters l; (ls', c2) = preview_lines c1 ls in (l' # ls', c2))"

definition buildCompactDiffPreview :: "jstring \<Rightarrow> compact_diff_preview" where
  "buildCompactDiffPreview diff =
     (let lines = (if length diff = 0 then [] else split_lines diff);
          (formatted, addedLines, removedLines) = preview_lines (0, 0) lines
      in \<lparr>cd_preview = join_lines formatted, cd_addedLines = addedLines,
          cd_removedLines = removedLines\<rparr>)"

section \<open>Rows\<close>

text \<open>
  A row of the diff: its sign, the number that the diff prints, the position of the line after
  the edit (for a removed row, its old number), the content, and whether the row is the placeholder
  for lines that are left out.
\<close>

datatype diff_row =
  Row (row_sign: nat) (row_number: nat) (row_post: nat) (row_content: jstring) (row_elided: bool)

definition print_row :: "diff_row \<Rightarrow> jstring" where
  "print_row row = formatNumberedDiffLine [row_sign row] (row_number row) (row_content row)"

definition preview_row :: "diff_row \<Rightarrow> jstring" where
  "preview_row row = [row_sign row] @ dec (row_post row) @ js '':'' @ row_content row"

text \<open>
  What the diff shows, with the positions of the lines in the old text (from \<open>a\<close> on) and in the new
  text (from \<open>b\<close> on) instead of running numbers.  All changed lines are shown; a line of an unchanged part is shown
  when it lies within \<open>c\<close> lines of a change at the part's begin or end; and where both ends are
  changes and the part is longer than \<open>2 * c\<close>, a placeholder stands for the lines in between.
\<close>

definition line_rows :: "nat \<Rightarrow> nat \<Rightarrow> nat \<Rightarrow> jstring list \<Rightarrow> diff_row list" where
  "line_rows sg a b ls = map (\<lambda>i. Row sg (a + i) (b + i) (ls ! i) False) [0..<length ls]"

definition context_rows :: "nat \<Rightarrow> bool \<Rightarrow> bool \<Rightarrow> nat \<Rightarrow> nat \<Rightarrow> jstring list \<Rightarrow> diff_row list" where
  "context_rows c before after a b ls =
     concat (map (\<lambda>i.
       (if before \<and> after \<and> 2 * c < length ls \<and> i = c then [Row 32 (a + i) (b + i) (js ''...'') True] else []) @
       (if before \<and> i < c \<or> after \<and> length ls \<le> i + c then [Row 32 (a + i) (b + i) (ls ! i) False] else []))
     [0..<length ls])"

fun diff_rows :: "nat \<Rightarrow> bool \<Rightarrow> nat \<Rightarrow> nat \<Rightarrow> diff_part list \<Rightarrow> diff_row list" where
  "diff_rows c before a b [] = []"
| "diff_rows c before a b (part # parts) =
     (let ls = raw_lines (dp_value part); k = length ls
      in if dp_added part then line_rows 43 b b ls @ diff_rows c True a (b + k) parts
         else if dp_removed part then line_rows 45 a a ls @ diff_rows c True (a + k) b parts
         else context_rows c before (case parts of p # _ \<Rightarrow> is_change p | [] \<Rightarrow> False) a b ls @
           diff_rows c False (a + k) (b + k) parts)"

definition row_count :: "nat \<Rightarrow> diff_row list \<Rightarrow> nat" where
  "row_count s rows = length (filter (\<lambda>row. row_sign row = s) rows)"

text \<open>The printed numbers fit the positions: \<open>d\<close> is new minus old line number so far.\<close>

fun chain :: "int \<Rightarrow> diff_row list \<Rightarrow> bool" where
  "chain d [] = True"
| "chain d (Row s n k c e # rows) =
     (if s = 43 then k = n \<and> chain (d + 1) rows
      else if s = 45 then k = n \<and> chain (d - 1) rows
      else s = 32 \<and> int k = int n + d \<and> chain d rows)"

lemma row_count_append [simp]: "row_count s (xs @ ys) = row_count s xs + row_count s ys"
  by (simp add: row_count_def)

lemma chain_append:
  "chain d (xs @ ys) \<longleftrightarrow> chain d xs \<and> chain (d + int (row_count 43 xs) - int (row_count 45 xs)) ys"
proof (induction xs arbitrary: d)
  case (Cons x xs)
  then show ?case by (cases x) (auto simp: row_count_def algebra_simps)
qed (simp add: row_count_def)

section \<open>The diff prints these rows\<close>

lemma line_rows_Nil [simp]: "line_rows s a b [] = []"
  by (simp add: line_rows_def)

lemma line_rows_Cons: "line_rows s a b (l # ls) = Row s a b l False # line_rows s (Suc a) (Suc b) ls"
  by (simp add: line_rows_def upt_conv_Cons map_Suc_upt [symmetric] del: upt_Suc map_Suc_upt)

lemma push_context_rows:
  "push_context ls st = st\<lparr>gs_output := gs_output st @ map print_row (line_rows 32 (gs_old st) (gs_new st) ls),
     gs_old := gs_old st + length ls, gs_new := gs_new st + length ls\<rparr>"
  by (induction ls arbitrary: st) (simp_all add: line_rows_Cons print_row_def)

lemma push_added_rows:
  "push_change True ls st = st\<lparr>gs_output := gs_output st @ map print_row (line_rows 43 (gs_new st) (gs_new st) ls),
     gs_new := gs_new st + length ls\<rparr>"
  by (induction ls arbitrary: st) (simp_all add: line_rows_Cons print_row_def)

lemma push_removed_rows:
  "push_change False ls st = st\<lparr>gs_output := gs_output st @ map print_row (line_rows 45 (gs_old st) (gs_old st) ls),
     gs_old := gs_old st + length ls\<rparr>"
  by (induction ls arbitrary: st) (simp_all add: line_rows_Cons print_row_def)

lemma concat_map_shown:
  "(\<And>i. i \<in> set is \<Longrightarrow> f i = [g i]) \<Longrightarrow> concat (map f is) = map g is"
  "(\<And>i. i \<in> set is \<Longrightarrow> f i = []) \<Longrightarrow> concat (map f is) = []"
  by (induction "is") simp_all

lemma line_rows_take: "line_rows s a b (take k ls) = map (\<lambda>i. Row s (a + i) (b + i) (ls ! i) False) [0..<min k (length ls)]"
  by (simp add: line_rows_def min.commute)

lemma line_rows_drop:
  "k \<le> length ls \<Longrightarrow> line_rows s (a + k) (b + k) (drop k ls) =
     map (\<lambda>i. Row s (a + i) (b + i) (ls ! i) False) [k..<length ls]"
  unfolding line_rows_def by (rule nth_equalityI) (simp_all add: add.assoc)

lemma upt_split: "k \<le> n \<Longrightarrow> [0..<n] = [0..<k] @ [k..<n]"
  using upt_add_eq_append [of 0 k "n - k"] by simp

lemma context_rows_both:
  assumes "2 * c < length ls"
  shows "context_rows c True True a b ls =
    line_rows 32 a b (take c ls) @ [Row 32 (a + c) (b + c) (js ''...'') True] @
    line_rows 32 (a + (length ls - c)) (b + (length ls - c)) (drop (length ls - c) ls)"
proof -
  have u: "[0..<length ls] = [0..<c] @ c # [Suc c..<length ls - c] @ [length ls - c..<length ls]"
    using assms upt_split [of c "length ls"] upt_conv_Cons [of c "length ls"]
      upt_add_eq_append [of "Suc c" "length ls - c" c] by simp
  have m: "min c (length ls) = c" using assms by simp
  let ?f = "\<lambda>i. (if True \<and> True \<and> 2 * c < length ls \<and> i = c then [Row 32 (a + i) (b + i) (js ''...'') True] else []) @
       (if True \<and> i < c \<or> True \<and> length ls \<le> i + c then [Row 32 (a + i) (b + i) (ls ! i) False] else [])"
  let ?g = "\<lambda>i. Row 32 (a + i) (b + i) (ls ! i) False"
  have "concat (map ?f [0..<c]) = map ?g [0..<c]"
    by (rule concat_map_shown(1)) auto
  moreover have "concat (map ?f [Suc c..<length ls - c]) = []"
    by (rule concat_map_shown(2)) auto
  moreover have "concat (map ?f [length ls - c..<length ls]) = map ?g [length ls - c..<length ls]"
    by (rule concat_map_shown(1)) (use assms in auto)
  moreover have "?f c = [Row 32 (a + c) (b + c) (js ''...'') True]" using assms by simp
  ultimately show ?thesis
    unfolding context_rows_def u line_rows_take m line_rows_drop [OF diff_le_self]
    by (simp only: map_append concat_append list.map concat.simps append_Cons append_Nil)
qed

lemma context_rows_close: "\<not> 2 * c < length ls \<Longrightarrow> context_rows c True True a b ls = line_rows 32 a b ls"
  unfolding context_rows_def line_rows_def by (intro concat_map_shown(1)) auto

lemma context_rows_after:
  "context_rows c False True a b ls =
     line_rows 32 (a + (length ls - c)) (b + (length ls - c)) (drop (length ls - c) ls)"
  unfolding context_rows_def line_rows_drop [OF diff_le_self] upt_split [of "length ls - c" "length ls", OF diff_le_self]
    map_append concat_append
  by (subst concat_map_shown(2), force, subst concat_map_shown(1)) auto

lemma context_rows_before: "context_rows c True False a b ls = line_rows 32 a b (take c ls)"
  unfolding context_rows_def line_rows_take upt_split [of "min c (length ls)" "length ls", OF min.cobounded2]
    map_append concat_append
  by (subst concat_map_shown(1), force, subst concat_map_shown(2)) auto

lemma context_rows_none: "context_rows c False False a b ls = []"
  unfolding context_rows_def by (rule concat_map_shown(2)) simp

lemma context_part_rows:
  "context_part c nxt ls st = st\<lparr>gs_output := gs_output st @
       map print_row (context_rows c (gs_lastWasChange st) nxt (gs_old st) (gs_new st) ls),
     gs_old := gs_old st + length ls, gs_new := gs_new st + length ls, gs_lastWasChange := False\<rparr>"
proof -
  consider "gs_lastWasChange st" nxt "2 * c < length ls" | "gs_lastWasChange st" nxt "\<not> 2 * c < length ls"
    | "\<not> gs_lastWasChange st" nxt | "gs_lastWasChange st" "\<not> nxt" | "\<not> gs_lastWasChange st" "\<not> nxt"
    by blast
  then show ?thesis
  proof cases
    case 1
    then have "take c (take c ls @ drop (length ls - c) ls) = take c ls"
      "drop c (take c ls @ drop (length ls - c) ls) = drop (length ls - c) ls"
      "length ls - length (take c ls) - length (drop (length ls - c) ls) = length ls - c - c"
      "0 < length ls - c - c" "c * 2 < length ls" "gs_old st + c + (length ls - c - c) = gs_old st + (length ls - c)"
      "gs_new st + c + (length ls - c - c) = gs_new st + (length ls - c)" "min (length ls) c = c"
      by auto
    with 1 show ?thesis
      by (simp add: context_part_def Let_def context_rows_both push_context_rows skip_lines_def print_row_def
          del: drop_append take_append)
  next
    case 2
    then show ?thesis
      by (simp add: context_part_def Let_def context_rows_close push_context_rows mult.commute)
  next
    case 3
    then show ?thesis
      by (simp add: context_part_def Let_def context_rows_after push_context_rows skip_lines_def)
  next
    case 4
    then show ?thesis
      by (simp add: context_part_def Let_def context_rows_before push_context_rows skip_lines_def min_def)
  next
    case 5
    then show ?thesis by (simp add: context_part_def context_rows_none skip_lines_def)
  qed
qed

lemma gen_loop_rows:
  "gs_output (gen_loop c parts st) =
     gs_output st @ map print_row (diff_rows c (gs_lastWasChange st) (gs_old st) (gs_new st) parts)"
proof (induction parts arbitrary: st)
  case (Cons p parts)
  consider (add) "dp_added p" | (del) "\<not> dp_added p" "dp_removed p" | (ctx) "\<not> dp_added p" "\<not> dp_removed p"
    by blast
  then show ?case
    by cases (simp_all add: Cons.IH Let_def is_change_def push_added_rows push_removed_rows context_part_rows)
qed simp

section \<open>Where the rows stand\<close>

text \<open>
  The parts that are in the new and in the old text, and the numbers of changed lines.
\<close>

definition new_side :: "diff_part list \<Rightarrow> diff_part list" where
  "new_side parts = filter (\<lambda>p. dp_added p \<or> \<not> dp_removed p) parts"

definition old_side :: "diff_part list \<Rightarrow> diff_part list" where
  "old_side parts = filter (\<lambda>p. \<not> dp_added p) parts"

definition side_lines :: "diff_part list \<Rightarrow> jstring list" where
  "side_lines parts = concat (map (\<lambda>p. raw_lines (dp_value p)) parts)"

definition added_lines :: "diff_part list \<Rightarrow> nat" where
  "added_lines parts = sum_list (map (\<lambda>p. length (raw_lines (dp_value p))) (filter dp_added parts))"

definition removed_lines :: "diff_part list \<Rightarrow> nat" where
  "removed_lines parts =
     sum_list (map (\<lambda>p. length (raw_lines (dp_value p))) (filter (\<lambda>p. dp_removed p \<and> \<not> dp_added p) parts))"

lemma raw_lines_no_LF: "l \<in> set (raw_lines v) \<Longrightarrow> LF \<notin> set l"
  by (rule split_on_no_sep [of _ _ v]) (auto simp: raw_lines_def Let_def split: if_splits dest: in_set_butlastD)

text \<open>\<open>ls\<close> stands in \<open>xs\<close> at the positions from \<open>k\<close> on, counted from one.\<close>

definition stands_at :: "jstring list \<Rightarrow> nat \<Rightarrow> jstring list \<Rightarrow> bool" where
  "stands_at xs k ls \<longleftrightarrow> 1 \<le> k \<and> (\<exists>us vs. xs = us @ ls @ vs \<and> Suc (length us) = k)"

lemma stands_at_append: "stands_at xs k (ls @ ms) \<Longrightarrow> stands_at xs k ls \<and> stands_at xs (k + length ls) ms"
proof -
  assume "stands_at xs k (ls @ ms)"
  then obtain us vs where x: "xs = us @ ls @ (ms @ vs)" "xs = (us @ ls) @ ms @ vs" "Suc (length us) = k" "1 \<le> k"
    unfolding stands_at_def by auto
  have "Suc (length (us @ ls)) = k + length ls" using x(3) by simp
  then show ?thesis unfolding stands_at_def using x by (metis trans_le_add1)
qed

lemma stands_at_nth: "stands_at xs k ls \<Longrightarrow> i < length ls \<Longrightarrow> nth_opt xs (k + i - 1) = Some (ls ! i)"
  unfolding stands_at_def by (auto simp: nth_opt_def nth_append)

definition row_stands :: "jstring list \<Rightarrow> jstring list \<Rightarrow> diff_row \<Rightarrow> bool" where
  "row_stands olds news row \<longleftrightarrow> LF \<notin> set (row_content row) \<and> row_sign row \<in> {43, 45, 32} \<and>
     (row_elided row \<longrightarrow> row_sign row = 32) \<and>
     (\<not> row_elided row \<longrightarrow> 1 \<le> row_post row \<and>
        nth_opt (if row_sign row = 45 then olds else news) (row_post row - 1) = Some (row_content row))"

lemma line_rows_stand:
  assumes "\<forall>l\<in>set ls. LF \<notin> set l" "s \<in> {43, 45, 32}" "stands_at (if s = 45 then olds else news) b ls"
  shows "\<forall>row\<in>set (line_rows s a b ls). row_stands olds news row"
proof -
  have "1 \<le> b" using assms(3) by (simp add: stands_at_def)
  then show ?thesis
    using assms stands_at_nth [OF assms(3)] by (auto simp: line_rows_def row_stands_def)
qed

lemma context_rows_stand:
  assumes "\<forall>l\<in>set ls. LF \<notin> set l" "stands_at news b ls"
  shows "\<forall>row\<in>set (context_rows c before after a b ls). row_stands olds news row"
proof -
  have "1 \<le> b" using assms(2) by (simp add: stands_at_def)
  then show ?thesis
    using assms(1) stands_at_nth [OF assms(2)] by (auto simp: context_rows_def row_stands_def)
qed

lemma diff_rows_stand:
  assumes "stands_at olds a (side_lines (old_side parts))" "stands_at news b (side_lines (new_side parts))"
  shows "\<forall>row\<in>set (diff_rows c before a b parts). row_stands olds news row"
  using assms
proof (induction parts arbitrary: before a b)
  case (Cons p parts)
  let ?ls = "raw_lines (dp_value p)"
  have lf: "\<forall>l\<in>set ?ls. LF \<notin> set l" using raw_lines_no_LF by blast
  consider (add) "dp_added p" | (del) "\<not> dp_added p" "dp_removed p" | (ctx) "\<not> dp_added p" "\<not> dp_removed p"
    by blast
  then show ?case
  proof cases
    case add
    then have "stands_at news b (?ls @ side_lines (new_side parts))" "stands_at olds a (side_lines (old_side parts))"
      using Cons.prems by (simp_all add: new_side_def old_side_def side_lines_def)
    note this(2) stands_at_append [OF this(1)]
    then show ?thesis
      using add Cons.IH [of a "b + length ?ls" True] line_rows_stand [OF lf, of 43 olds news b b] by (simp add: Let_def ball_Un)
  next
    case del
    then have "stands_at olds a (?ls @ side_lines (old_side parts))" "stands_at news b (side_lines (new_side parts))"
      using Cons.prems by (simp_all add: new_side_def old_side_def side_lines_def)
    note this(2) stands_at_append [OF this(1)]
    then show ?thesis
      using del Cons.IH [of "a + length ?ls" b True] line_rows_stand [OF lf, of 45 olds news a a] by (simp add: Let_def ball_Un)
  next
    case ctx
    then have "stands_at olds a (?ls @ side_lines (old_side parts))" "stands_at news b (?ls @ side_lines (new_side parts))"
      using Cons.prems by (simp_all add: new_side_def old_side_def side_lines_def)
    note stands_at_append [OF this(1)] stands_at_append [OF this(2)]
    then show ?thesis
      using ctx Cons.IH [of "a + length ?ls" "b + length ?ls" False] context_rows_stand [OF lf, of news b]
      by (simp add: Let_def ball_Un)
  qed
qed simp

lemma line_rows_counts [simp]: "row_count s (line_rows s' a b ls) = (if s = s' then length ls else 0)"
  by (simp add: row_count_def line_rows_def)

lemma context_rows_counts: "s \<noteq> 32 \<Longrightarrow> row_count s (context_rows c before after a b ls) = 0"
  by (auto simp: row_count_def context_rows_def filter_empty_conv)

lemma diff_rows_counts:
  "row_count 43 (diff_rows c before a b parts) = added_lines parts"
  "row_count 45 (diff_rows c before a b parts) = removed_lines parts"
proof -
  have "row_count 43 (diff_rows c before a b parts) = added_lines parts \<and>
      row_count 45 (diff_rows c before a b parts) = removed_lines parts"
  proof (induction parts arbitrary: before a b)
    case Nil
    then show ?case by (simp add: row_count_def added_lines_def removed_lines_def)
  next
    case (Cons p parts)
    then show ?case
      by (auto simp: Let_def added_lines_def removed_lines_def context_rows_counts)
  qed
  then show "row_count 43 (diff_rows c before a b parts) = added_lines parts"
    "row_count 45 (diff_rows c before a b parts) = removed_lines parts" by blast+
qed

lemma line_rows_chain: "s \<in> {43, 45} \<Longrightarrow> chain d (line_rows s a a ls)"
  by (induction ls arbitrary: a d) (auto simp: line_rows_Cons)

lemma chain_context:
  "\<forall>row\<in>set rows. row_sign row = 32 \<and> int (row_post row) = int (row_number row) + d \<Longrightarrow> chain d rows"
proof (induction rows)
  case (Cons row rows)
  then show ?case by (cases row) simp
qed simp

lemma diff_rows_chain: "chain (int b - int a) (diff_rows c before a b parts)"
proof (induction parts arbitrary: before a b)
  case (Cons p parts)
  let ?k = "length (raw_lines (dp_value p))"
  have ctx: "chain (int b - int a) (context_rows c before after a b ls)" for after ls
    by (rule chain_context) (auto simp: context_rows_def)
  show ?case
    using Cons.IH [of "b + ?k" a True] Cons.IH [of b "a + ?k" True] Cons.IH [of "b + ?k" "a + ?k" False]
    by (simp add: Let_def chain_append line_rows_chain ctx context_rows_counts algebra_simps)
qed simp

section \<open>The preview of printed rows\<close>

lemma digits_take: "takeWhile is_digit (dec n) = dec n"
  using dec_digits by (simp add: takeWhile_eq_all_conv)

lemma parseInt_dec: "parseInt (dec n) = Some (int n)"
proof -
  obtain c cs where c: "dec n = c # cs" by (cases "dec n") auto
  have "is_digit c" using dec_digits [of n] c by simp
  then have "\<not> is_js_space c" "c \<noteq> 45" "c \<noteq> 43" by (auto simp: is_digit_def is_js_space_def)
  then have "parseInt (dec n) = map_option int (parse_digits (dec n))" by (simp add: parseInt_def c)
  then show ?thesis by (simp add: parse_digits_def digits_take)
qed

lemma index_of_bar: "index_of (dec n @ 124 # c) [124] = Some (length (dec n))"
  by (rule index_of_append_one) (use dec_digits [of n] in \<open>auto simp: is_digit_def\<close>)

lemma preview_line_row:
  assumes "chain (int a - int r) (row # rows)"
  shows "preview_line (a, r) (print_row row) =
    (preview_row row, a + row_count 43 [row], r + row_count 45 [row])"
proof (cases row)
  case (Row s n k c e)
  have p: "print_row row = s # dec n @ 124 # c" by (simp add: Row print_row_def formatNumberedDiffLine_def)
  have s: "s \<in> {43, 45, 32}" using assms by (auto simp: Row split: if_splits)
  have k: "int k = (if s = 32 then int n + int a - int r else int n)"
    using s assms by (elim insertE) (simp_all add: Row)
  have "preview_line (a, r) (print_row row) =
    (if s = 43 then (43 # show_number (Some (int n)) @ 58 # c, Suc a, r)
     else if s = 45 then (45 # show_number (Some (int n)) @ 58 # c, a, Suc r)
     else (32 # show_number (Some (int n + int a - int r)) @ 58 # c, a, r))"
  proof -
    show ?thesis
      using s unfolding p preview_line_def prod.case list.case
      by (elim insertE) (simp_all add: index_of_bar parseInt_dec Let_def)
  qed
  moreover have "show_number (Some (int k)) = dec k" by (simp add: show_number_def)
  ultimately show ?thesis
    using s k by (elim insertE) (simp_all add: preview_row_def Row row_count_def)
qed

lemma preview_rows:
  "chain (int a - int r) rows \<Longrightarrow> preview_lines (a, r) (map print_row rows) =
   (map preview_row rows, a + row_count 43 rows, r + row_count 45 rows)"
proof (induction rows arbitrary: a r)
  case (Cons row rows)
  have d: "int (a + row_count 43 [row]) - int (r + row_count 45 [row]) =
      int a - int r + int (row_count 43 [row]) - int (row_count 45 [row])" by simp
  have "chain (int a - int r) ([row] @ rows)" using Cons.prems by simp
  then have "chain (int (a + row_count 43 [row]) - int (r + row_count 45 [row])) rows"
    unfolding chain_append d by simp
  from Cons.IH [OF this] preview_line_row [OF Cons.prems] show ?case
    by (auto simp: row_count_def)
qed (simp add: row_count_def)

section \<open>Properties\<close>

lemma raw_lines_append:
  assumes "a = [] \<or> last a = LF"
  shows "raw_lines (a @ b) = raw_lines a @ raw_lines b"
proof (cases "a = []")
  case False
  then have "a = butlast a @ [LF]" using assms by (metis append_butlast_last_id)
  then have l: "last (split_on LF a) = []" using last_split_snoc by metis
  have "split_on LF (a @ b) = butlast (split_on LF a) @ split_on LF b"
    using split_lines_append [of LF a b] l by simp
  then show ?thesis using l by (auto simp: raw_lines_def Let_def butlast_append)
qed (simp add: raw_lines_def)

lemma raw_lines_concat:
  "list_all (\<lambda>v. last v = LF) (butlast vs) \<Longrightarrow> raw_lines (concat vs) = concat (map raw_lines vs)"
proof (induction vs)
  case (Cons v vs)
  show ?case
  proof (cases "vs = []")
    case False
    then show ?thesis using Cons raw_lines_append [of v "concat vs"] by simp
  qed simp
qed (simp add: raw_lines_def)

text \<open>
  What \<open>diffLines\<close> documents of its result: the parts that are kept or removed make up the old text
  and those that are kept or added the new text, and they are made of whole lines, so all but the last
  of either text end with a line feed.
\<close>

definition parts_make :: "diff_part list \<Rightarrow> jstring \<Rightarrow> bool" where
  "parts_make parts content \<longleftrightarrow>
     concat (map dp_value parts) = content \<and> list_all (\<lambda>v. last v = LF) (butlast (map dp_value parts))"

definition parts_of :: "diff_part list \<Rightarrow> jstring \<Rightarrow> jstring \<Rightarrow> bool" where
  "parts_of parts oldContent newContent \<longleftrightarrow>
     parts_make (old_side parts) oldContent \<and> parts_make (new_side parts) newContent"

lemma side_lines_make: "parts_make parts content \<Longrightarrow> side_lines parts = raw_lines content"
  using raw_lines_concat [of "map dp_value parts"] by (simp add: parts_make_def side_lines_def comp_def)

lemma raw_line_of: "nth_opt (raw_lines content) i = Some l \<Longrightarrow> nth_opt (split_lines content) i = Some l"
  by (auto simp: raw_lines_def Let_def nth_opt_def nth_butlast split: if_splits)

definition shown_rows :: "diff_part list \<Rightarrow> int \<Rightarrow> diff_row list" where
  "shown_rows parts ctx = diff_rows (nat (max 0 ctx)) False 1 1 parts"

lemma shown_rows_stand:
  assumes "parts_of parts oldContent newContent" "row \<in> set (shown_rows parts ctx)"
  shows "row_stands (raw_lines oldContent) (raw_lines newContent) row"
proof -
  have "stands_at xs 1 xs" for xs by (simp add: stands_at_def)
  then show ?thesis
    using assms diff_rows_stand [of "raw_lines oldContent" 1 parts "raw_lines newContent" 1 "nat (max 0 ctx)" False]
    by (auto simp: parts_of_def shown_rows_def dest!: side_lines_make)
qed

lemma preview_shown:
  assumes "parts_of parts oldContent newContent"
  shows "buildCompactDiffPreview (dr_diff (generateDiffString parts ctx)) =
      \<lparr>cd_preview = join_lines (map preview_row (shown_rows parts ctx)), cd_addedLines = added_lines parts,
       cd_removedLines = removed_lines parts\<rparr>"
proof -
  let ?rows = "shown_rows parts ctx"
  have out: "dr_diff (generateDiffString parts ctx) = join_lines (map print_row ?rows)"
    by (simp add: generateDiffString_def Let_def gen_loop_rows shown_rows_def)
  have lf: "LF \<notin> set (print_row row)" if "row \<in> set ?rows" for row
    using shown_rows_stand [OF assms that] dec_digits [of "row_number row"]
    by (auto simp: print_row_def formatNumberedDiffLine_def row_stands_def is_digit_def)
  have "(if length (join_lines (map print_row ?rows)) = 0 then [] else split_lines (join_lines (map print_row ?rows))) =
      map print_row ?rows"
  proof (cases ?rows)
    case (Cons row rest)
    then have "join_lines (map print_row ?rows) \<noteq> []"
      by (cases rest) (simp_all add: print_row_def formatNumberedDiffLine_def)
    moreover have "split_lines (join_lines (map print_row ?rows)) = map print_row ?rows"
      using Cons lf by (intro split_join) auto
    ultimately show ?thesis by simp
  qed simp
  moreover have "preview_lines (0, 0) (map print_row ?rows) =
      (map preview_row ?rows, added_lines parts, removed_lines parts)"
    using preview_rows [of 0 0 ?rows] diff_rows_chain [of 1 1 "nat (max 0 ctx)" False parts]
    by (simp add: shown_rows_def diff_rows_counts)
  ultimately show ?thesis by (simp add: buildCompactDiffPreview_def out)
qed

text \<open>
  C7: the preview of an edit shows exactly the changed lines and the lines around them, anchored in the text
  after the edit.  For every list of parts that makes up the old and the new text, the preview consists
  of the rows \<open>shown_rows\<close>, no row holds a line feed, only a context row can be the placeholder for lines
  left out, each other added or context row carries the number of a line of the new text with
  that content, each removed row that of a line of the old text, and the
  counters are the numbers of added and removed lines.
\<close>

theorem preview_anchors_new_text:
  assumes "parts_of parts oldContent newContent"
  shows "buildCompactDiffPreview (dr_diff (generateDiffString parts ctx)) =
      \<lparr>cd_preview = join_lines (map preview_row (shown_rows parts ctx)), cd_addedLines = added_lines parts,
       cd_removedLines = removed_lines parts\<rparr> \<and>
    (\<forall>row\<in>set (shown_rows parts ctx). LF \<notin> set (row_content row) \<and> row_sign row \<in> {43, 45, 32} \<and>
       (row_elided row \<longrightarrow> row_sign row = 32) \<and>
       (\<not> row_elided row \<longrightarrow> 1 \<le> row_post row \<and>
          nth_opt (split_lines (if row_sign row = 45 then oldContent else newContent)) (row_post row - 1) =
            Some (row_content row)))"
proof (rule conjI [OF preview_shown [OF assms]], rule ballI)
  fix row assume "row \<in> set (shown_rows parts ctx)"
  from shown_rows_stand [OF assms this]
  show "LF \<notin> set (row_content row) \<and> row_sign row \<in> {43, 45, 32} \<and>
       (row_elided row \<longrightarrow> row_sign row = 32) \<and>
       (\<not> row_elided row \<longrightarrow> 1 \<le> row_post row \<and>
          nth_opt (split_lines (if row_sign row = 45 then oldContent else newContent)) (row_post row - 1) =
            Some (row_content row))"
    by (cases "row_sign row = 45") (auto simp: row_stands_def intro: raw_line_of)
qed

text \<open>One line replaced by two, between unchanged lines.\<close>

definition sample_parts :: "diff_part list" where
  "sample_parts =
     [\<lparr>dp_added = False, dp_removed = False, dp_value = js ''a'' @ [LF]\<rparr>,
      \<lparr>dp_added = False, dp_removed = True, dp_value = js ''b'' @ [LF]\<rparr>,
      \<lparr>dp_added = True, dp_removed = False, dp_value = js ''x'' @ LF # js ''y'' @ [LF]\<rparr>,
      \<lparr>dp_added = False, dp_removed = False, dp_value = js ''c''\<rparr>]"

definition sample_old :: jstring where
  "sample_old = js ''a'' @ LF # js ''b'' @ LF # js ''c''"

definition sample_new :: jstring where
  "sample_new = js ''a'' @ LF # js ''x'' @ LF # js ''y'' @ LF # js ''c''"

theorem preview_anchors_new_text_witness:
  "buildCompactDiffPreview (dr_diff (generateDiffString sample_parts 2)) =
      \<lparr>cd_preview = join_lines (map preview_row (shown_rows sample_parts 2)), cd_addedLines = added_lines sample_parts,
       cd_removedLines = removed_lines sample_parts\<rparr> \<and>
    shown_rows sample_parts 2 \<noteq> [] \<and> LF \<notin> set (row_content (hd (shown_rows sample_parts 2)))"
proof -
  have parts: "parts_of sample_parts sample_old sample_new" by code_simp
  have ne: "shown_rows sample_parts 2 \<noteq> []" by code_simp
  then show ?thesis using preview_anchors_new_text [OF parts, of 2] by (meson list.set_sel(1))
qed

end
