(* ===== verification/Swarm_Schema.thy ===== *)
theory Swarm_Schema
  imports JS_Regex Complex_Main
begin

text \<open>
  Swarm definitions (\<open>packages/swarm-extension/src/swarm/schema.ts\<close>).  The YAML reader belongs to
  the runtime: \<open>parseSwarmYaml\<close> starts from the value it returns, as \<open>raw_swarm\<close>, whose
  unchecked fields are arbitrary values (\<open>yaml\<close>).  An object is the list of its entries in the
  order in which the language enumerates them.  The field \<open>target_count\<close> is not checked by the source: it is any
  number of the language, or a value of another type with the number that a comparison converts it to.
\<close>

section \<open>Raw values\<close>

datatype yaml =
    YUndefined
  | YNull
  | YBool bool
  | YNum int
  | YStr jstring
  | YList "yaml list"
  | YObj "(jstring \<times> yaml) list"

text \<open>Truthiness, property access, and \<open>typeof x === "string"\<close>.\<close>

fun truthy :: "yaml \<Rightarrow> bool" where
  "truthy YUndefined = False"
| "truthy YNull = False"
| "truthy (YBool b) = b"
| "truthy (YNum i) = (i \<noteq> 0)"
| "truthy (YStr s) = (s \<noteq> [])"
| "truthy (YList _) = True"
| "truthy (YObj _) = True"

fun is_string :: "yaml \<Rightarrow> bool" where
  "is_string (YStr _) = True"
| "is_string _ = False"

fun the_string :: "yaml \<Rightarrow> jstring" where
  "the_string (YStr s) = s"
| "the_string _ = []"

text \<open>
  Numbers, with the comparison of the language: nothing compares with \<open>NaN\<close>.  (A finite number is a
  rational; that a double has only so many digits is not modelled.)
\<close>

datatype js_number = Finite rat | PosInf | NegInf | NotANumber

fun num_less :: "js_number \<Rightarrow> js_number \<Rightarrow> bool" where
  "num_less (Finite x) (Finite y) = (x < y)"
| "num_less (Finite x) PosInf = True"
| "num_less NegInf (Finite y) = True"
| "num_less NegInf PosInf = True"
| "num_less _ _ = False"

text \<open>What \<open>target_count\<close> may hold: a number, or another value with the number it is converted to.\<close>

datatype target_count = TargetNumber (target_number: js_number) | TargetOther (target_number: js_number)

abbreviation count_of :: "nat \<Rightarrow> target_count" where
  "count_of n \<equiv> TargetNumber (Finite (of_nat n))"

record raw_swarm =
  raw_name :: yaml
  raw_workspace :: yaml
  raw_mode :: yaml
  raw_target_count :: "target_count option"
  raw_model :: yaml
  raw_agents :: yaml

datatype swarm_error =
    NoSwarmKey
  | NameRequired
  | NameInvalid
  | WorkspaceRequired
  | NoAgents
  | InvalidMode yaml
  | RoleRequired jstring
  | TaskRequired jstring
  | TypeError
  | Deadlock "jstring list"

section \<open>Definitions\<close>

datatype swarm_mode = Pipeline | Parallel | Sequential

record swarm_agent =
  ag_name :: jstring
  ag_role :: jstring
  ag_task :: jstring
  ag_extraContext :: "jstring option"
  ag_reportsTo :: "yaml list"
  ag_waitsFor :: "yaml list"
  ag_model :: "jstring option"

record swarm_definition =
  sd_name :: jstring
  sd_workspace :: jstring
  sd_mode :: swarm_mode
  sd_targetCount :: target_count
  sd_model :: "jstring option"
  sd_agents :: "(jstring \<times> swarm_agent) list"
  sd_agentOrder :: "jstring list"

definition VALID_MODES :: "(jstring \<times> swarm_mode) list" where
  "VALID_MODES = [(js ''pipeline'', Pipeline), (js ''parallel'', Parallel), (js ''sequential'', Sequential)]"

text \<open>\<open>/^[a-zA-Z0-9._-]+$/\<close>\<close>

definition VALID_SWARM_NAME :: re where
  "VALID_SWARM_NAME = Cats [Bol, Plus True (Cls (\<lambda>c. (97 \<le> c \<and> c \<le> 122) \<or> (65 \<le> c \<and> c \<le> 90) \<or>
     is_digit c \<or> c = 46 \<or> c = 95 \<or> c = 45)), Eol]"

text \<open>\<open>typeof v === "string" ? v.trim() : undefined\<close>, and \<open>v?.trim()\<close>, which may throw.\<close>

definition trimmed_string :: "yaml \<Rightarrow> jstring option" where
  "trimmed_string v = (case v of YStr s \<Rightarrow> Some (trim s) | _ \<Rightarrow> None)"

definition optional_trim :: "yaml \<Rightarrow> swarm_error + jstring option" where
  "optional_trim v =
     (case v of YUndefined \<Rightarrow> Inr None | YNull \<Rightarrow> Inr None | YStr s \<Rightarrow> Inr (Some (trim s))
      | _ \<Rightarrow> Inl TypeError)"

definition array_or_empty :: "yaml \<Rightarrow> yaml list" where
  "array_or_empty v = (case v of YList xs \<Rightarrow> xs | _ \<Rightarrow> [])"

text \<open>\<open>config.field\<close>: reading a field of \<open>null\<close> or \<open>undefined\<close> throws; other values that are
  not objects have no such field.\<close>

definition field :: "yaml \<Rightarrow> jstring \<Rightarrow> yaml" where
  "field v k = (case v of YObj m \<Rightarrow> (case map_of m k of Some x \<Rightarrow> x | None \<Rightarrow> YUndefined) | _ \<Rightarrow> YUndefined)"

text \<open>\<open>Object.entries(v)\<close> of an object or an array.\<close>

definition object_entries :: "yaml \<Rightarrow> (jstring \<times> yaml) list" where
  "object_entries v =
     (case v of
        YObj m \<Rightarrow> m
      | YList xs \<Rightarrow> map (\<lambda>(i, x). (dec i, x)) (zip [0..<length xs] xs)
      | _ \<Rightarrow> [])"

definition is_object :: "yaml \<Rightarrow> bool" where
  "is_object v = (case v of YObj _ \<Rightarrow> True | YList _ \<Rightarrow> True | YNull \<Rightarrow> True | _ \<Rightarrow> False)"

text \<open>One pass of the loop over the entries.\<close>

definition parse_agent :: "jstring \<Rightarrow> yaml \<Rightarrow> swarm_error + swarm_agent" where
  "parse_agent name config =
     (if config = YNull \<or> config = YUndefined then Inl TypeError
      else if \<not> truthy (field config (js ''role'')) \<or> \<not> is_string (field config (js ''role''))
        then Inl (RoleRequired name)
      else if \<not> truthy (field config (js ''task'')) \<or> \<not> is_string (field config (js ''task''))
        then Inl (TaskRequired name)
      else rbind (optional_trim (field config (js ''extra_context''))) (\<lambda>extra.
        Inr \<lparr>ag_name = name, ag_role = the_string (field config (js ''role'')),
          ag_task = trim (the_string (field config (js ''task''))), ag_extraContext = extra,
          ag_reportsTo = array_or_empty (field config (js ''reports_to'')),
          ag_waitsFor = array_or_empty (field config (js ''waits_for'')),
          ag_model = trimmed_string (field config (js ''model''))\<rparr>))"

fun parse_agents ::
  "(jstring \<times> yaml) list \<Rightarrow> jstring list \<times> (jstring \<times> swarm_agent) list \<Rightarrow>
   swarm_error + jstring list \<times> (jstring \<times> swarm_agent) list" where
  "parse_agents [] st = Inr st"
| "parse_agents ((name, config) # entries) (agentOrder, agents) =
     rbind (parse_agent name config) (\<lambda>a.
       parse_agents entries (agentOrder @ [name], map_set agents name a))"

definition parseSwarmYaml :: "raw_swarm option \<Rightarrow> swarm_error + swarm_definition" where
  "parseSwarmYaml raw =
     (case raw of
        None \<Rightarrow> Inl NoSwarmKey
      | Some swarm \<Rightarrow>
          if \<not> truthy (raw_name swarm) \<or> \<not> is_string (raw_name swarm) then Inl NameRequired
          else if \<not> re_test VALID_SWARM_NAME (the_string (raw_name swarm)) then Inl NameInvalid
          else if \<not> truthy (raw_workspace swarm) \<or> \<not> is_string (raw_workspace swarm)
            then Inl WorkspaceRequired
          else if \<not> truthy (raw_agents swarm) \<or> \<not> is_object (raw_agents swarm) \<or>
              length (object_entries (raw_agents swarm)) = 0 then Inl NoAgents
          else
            (let mode = (case raw_mode swarm of
                 YUndefined \<Rightarrow> YStr (js ''sequential'') | YNull \<Rightarrow> YStr (js ''sequential'') | m \<Rightarrow> m)
             in case (if is_string mode then map_get VALID_MODES (the_string mode) else None) of
                  None \<Rightarrow> Inl (InvalidMode mode)
                | Some md \<Rightarrow>
                    rbind (parse_agents (object_entries (raw_agents swarm)) ([], []))
                      (\<lambda>(agentOrder, agents).
                        Inr \<lparr>sd_name = the_string (raw_name swarm),
                          sd_workspace = the_string (raw_workspace swarm), sd_mode = md,
                          sd_targetCount = (case raw_target_count swarm of Some n \<Rightarrow> n | None \<Rightarrow> count_of 1),
                          sd_model = trimmed_string (raw_model swarm), sd_agents = agents,
                          sd_agentOrder = agentOrder\<rparr>)))"

section \<open>Validation\<close>

datatype validation_error =
    EmptyModel
  | WaitsForUnknown jstring yaml
  | WaitsForItself jstring
  | ReportsToUnknown jstring yaml
  | ReportsToItself jstring
  | EmptyAgentModel jstring
  | TargetCountTooSmall
  | TargetCountNotPipeline

definition known :: "jstring list \<Rightarrow> yaml \<Rightarrow> bool" where
  "known names v = (case v of YStr s \<Rightarrow> s \<in> set names | _ \<Rightarrow> False)"

definition validate_agent :: "jstring list \<Rightarrow> jstring \<Rightarrow> swarm_agent \<Rightarrow> validation_error list" where
  "validate_agent agentNames name agent =
     concat (map (\<lambda>dep.
       (if \<not> known agentNames dep then [WaitsForUnknown name dep] else []) @
       (if dep = YStr name then [WaitsForItself name] else [])) (ag_waitsFor agent)) @
     concat (map (\<lambda>target.
       (if \<not> known agentNames target then [ReportsToUnknown name target] else []) @
       (if target = YStr name then [ReportsToItself name] else [])) (ag_reportsTo agent)) @
     (if ag_model agent = Some [] then [EmptyAgentModel name] else [])"

definition validateSwarmDefinition :: "swarm_definition \<Rightarrow> validation_error list" where
  "validateSwarmDefinition def =
     (let agentNames = map_keys (sd_agents def)
      in (if sd_model def = Some [] then [EmptyModel] else []) @
         concat (map (\<lambda>(name, agent). validate_agent agentNames name agent) (sd_agents def)) @
         (if num_less (target_number (sd_targetCount def)) (Finite 1) then [TargetCountTooSmall] else []) @
         (if sd_mode def \<noteq> Pipeline \<and> sd_targetCount def \<noteq> count_of 1 then [TargetCountNotPipeline] else []))"

section \<open>What a parsed definition looks like\<close>

definition swarm_ok :: "swarm_definition \<Rightarrow> bool" where
  "swarm_ok def \<longleftrightarrow> distinct (map_keys (sd_agents def)) \<and>
     (distinct (sd_agentOrder def) \<longrightarrow> sd_agentOrder def = map_keys (sd_agents def)) \<and>
     set (sd_agentOrder def) = set (map_keys (sd_agents def)) \<and> sd_agents def \<noteq> [] \<and>
     (\<forall>(name, a)\<in>set (sd_agents def). ag_name a = name \<and> ag_role a \<noteq> []) \<and>
     re_test VALID_SWARM_NAME (sd_name def) \<and> sd_workspace def \<noteq> []"

lemma parse_agent_ok: "parse_agent name config = Inr a \<Longrightarrow> ag_name a = name \<and> ag_role a \<noteq> []"
  by (auto simp: parse_agent_def rbind_Inr_iff split: if_splits)
     (cases "field config (js ''role'')"; simp)+

text \<open>The loop keeps one entry per name, in the order of first occurrence.\<close>

lemma parse_agents_inv:
  assumes "parse_agents entries (order, agents) = Inr (order', agents')"
    and "distinct (map_keys agents)" "set order = set (map_keys agents)"
    and "distinct order \<longrightarrow> order = map_keys agents"
    and "\<forall>(name, a)\<in>set agents. ag_name a = name \<and> ag_role a \<noteq> []"
  shows "distinct (map_keys agents') \<and> set order' = set (map_keys agents') \<and>
    (distinct order' \<longrightarrow> order' = map_keys agents') \<and>
    (\<forall>(name, a)\<in>set agents'. ag_name a = name \<and> ag_role a \<noteq> []) \<and>
    set order' = set order \<union> fst ` set entries"
  using assms
proof (induction entries arbitrary: order agents)
  case (Cons e entries)
  obtain name config where e: "e = (name, config)" by (cases e)
  obtain a where a: "parse_agent name config = Inr a"
      "parse_agents entries (order @ [name], map_set agents name a) = Inr (order', agents')"
    using Cons.prems(1) by (auto simp: e rbind_Inr_iff)
  have ag: "\<forall>(n, x)\<in>set (map_set agents name a). ag_name x = n \<and> ag_role x \<noteq> []"
  proof (intro ballI, clarify)
    fix n x assume "(n, x) \<in> set (map_set agents name a)"
    then have "map_get (map_set agents name a) n = Some x"
      using distinct_map_set [OF Cons.prems(2)] by (simp add: map_get_def map_keys_def)
    then have "n = name \<and> x = a \<or> map_get agents n = Some x"
      by (cases "n = name") simp_all
    then show "ag_name x = n \<and> ag_role x \<noteq> []"
      using parse_agent_ok [OF a(1)] Cons.prems(5) by (auto simp: map_get_def dest!: map_of_SomeD)
  qed
  have ord: "distinct (order @ [name]) \<longrightarrow> order @ [name] = map_keys (map_set agents name a)"
    using Cons.prems(3,4) keys_map_set_new [of name agents a] by (auto simp: map_keys_def)
  have "set (order @ [name]) = set (map_keys (map_set agents name a))"
    using Cons.prems(3) by (simp add: keys_map_set_set)
  from Cons.IH [OF a(2) distinct_map_set [OF Cons.prems(2)] this ord ag] show ?case
    by (auto simp: e)
qed simp

lemma parse_ok: "parseSwarmYaml raw = Inr def \<Longrightarrow> swarm_ok def"
proof -
  assume p: "parseSwarmYaml raw = Inr def"
  obtain swarm where s: "raw = Some swarm" using p by (cases raw) (simp_all add: parseSwarmYaml_def)
  have c: "truthy (raw_name swarm)" "is_string (raw_name swarm)"
    "re_test VALID_SWARM_NAME (the_string (raw_name swarm))" "truthy (raw_workspace swarm)"
    "is_string (raw_workspace swarm)" "object_entries (raw_agents swarm) \<noteq> []"
    using p by (auto simp: parseSwarmYaml_def s split: if_splits)
  obtain order agents md where a: "parse_agents (object_entries (raw_agents swarm)) ([], []) = Inr (order, agents)"
    "def = \<lparr>sd_name = the_string (raw_name swarm), sd_workspace = the_string (raw_workspace swarm),
       sd_mode = md, sd_targetCount = (case raw_target_count swarm of Some n \<Rightarrow> n | None \<Rightarrow> count_of 1),
       sd_model = trimmed_string (raw_model swarm), sd_agents = agents, sd_agentOrder = order\<rparr>"
    using p c by (auto simp: parseSwarmYaml_def s Let_def rbind_Inr_iff split: if_splits option.splits)
  have w: "the_string (raw_workspace swarm) \<noteq> []"
    using c(4,5) by (cases "raw_workspace swarm") auto
  have inv: "distinct (map_keys agents) \<and> set order = set (map_keys agents) \<and>
    (distinct order \<longrightarrow> order = map_keys agents) \<and>
    (\<forall>(name, a)\<in>set agents. ag_name a = name \<and> ag_role a \<noteq> []) \<and>
    set order = fst ` set (object_entries (raw_agents swarm))"
  proof -
    have e: "distinct (map_keys ([] :: (jstring \<times> swarm_agent) list))" "set ([] :: jstring list) = set (map_keys ([] :: (jstring \<times> swarm_agent) list))"
      "distinct ([] :: jstring list) \<longrightarrow> [] = map_keys ([] :: (jstring \<times> swarm_agent) list)"
      "\<forall>(name, a)\<in>set ([] :: (jstring \<times> swarm_agent) list). ag_name a = name \<and> ag_role a \<noteq> []"
      by (simp_all add: map_keys_def)
    note res = parse_agents_inv [OF a(1) e]
    note parts = res [THEN conjunct1] res [THEN conjunct2, THEN conjunct1]
      res [THEN conjunct2, THEN conjunct2, THEN conjunct1]
      res [THEN conjunct2, THEN conjunct2, THEN conjunct2, THEN conjunct1]
    have "set order = fst ` set (object_entries (raw_agents swarm))"
      using res [THEN conjunct2, THEN conjunct2, THEN conjunct2, THEN conjunct2] by simp
    then show ?thesis by (intro conjI parts)
  qed
  then have oe: "set order = fst ` set (object_entries (raw_agents swarm))" and
    ok: "set order = set (map_keys agents)" by blast+
  have "set (map_keys agents) \<noteq> {}" unfolding ok [symmetric] oe using c(6) by simp
  then have "agents \<noteq> []" by (auto simp: map_keys_def)
  then show ?thesis using inv c(3) w by (simp add: swarm_ok_def a(2))
qed

end
