(* ===== verification/Swarm_Dag.thy ===== *)
theory Swarm_Dag
  imports Swarm_Schema "HOL-Library.List_Lexorder"
begin

text \<open>
  Dependencies of swarm agents (\<open>packages/swarm-extension/src/swarm/dag.ts\<close>): the graph of a
  definition, cycle detection by Kahn's algorithm, and the execution waves.
\<close>

section \<open>The graph\<close>

text \<open>A graph maps each name to the set of names it depends on.\<close>

type_synonym deps = "(jstring \<times> jstring list) list"

text \<open>\<open>deps.get(k)!.add(d)\<close> for a key \<open>k\<close>\<close>

definition add_dep :: "deps \<Rightarrow> jstring \<Rightarrow> jstring \<Rightarrow> deps" where
  "add_dep deps k d =
     (case map_get deps k of Some s \<Rightarrow> map_set deps k (set_add s d) | None \<Rightarrow> deps)"

definition has_key :: "deps \<Rightarrow> jstring \<Rightarrow> bool" where
  "has_key deps k = (map_get deps k \<noteq> None)"

definition add_waits :: "deps \<Rightarrow> jstring \<times> swarm_agent \<Rightarrow> deps" where
  "add_waits deps na =
     foldl (\<lambda>deps dep. case dep of
         YStr d \<Rightarrow> if has_key deps d then add_dep deps (fst na) d else deps
       | _ \<Rightarrow> deps) deps (ag_waitsFor (snd na))"

definition add_reports :: "deps \<Rightarrow> jstring \<times> swarm_agent \<Rightarrow> deps" where
  "add_reports deps na =
     foldl (\<lambda>deps target. case target of
         YStr t \<Rightarrow> if has_key deps t then add_dep deps t (fst na) else deps
       | _ \<Rightarrow> deps) deps (ag_reportsTo (snd na))"

definition hasExplicitDeps :: "deps \<Rightarrow> bool" where
  "hasExplicitDeps deps = list_ex (\<lambda>s. length s > 0) (map snd deps)"

text \<open>\<open>for (let i = 1; i < order.length; i++) deps.get(order[i])!.add(order[i - 1])\<close>\<close>

fun add_chain :: "deps \<Rightarrow> jstring list \<Rightarrow> deps" where
  "add_chain deps (a # b # rest) = add_chain (add_dep deps b a) (b # rest)"
| "add_chain deps _ = deps"

definition buildDependencyGraph :: "swarm_definition \<Rightarrow> deps" where
  "buildDependencyGraph def =
     (let deps0 = foldl (\<lambda>m name. map_set m name []) [] (map_keys (sd_agents def));
          deps1 = foldl add_waits deps0 (sd_agents def);
          deps2 = foldl add_reports deps1 (sd_agents def)
      in if (sd_mode def = Pipeline \<or> sd_mode def = Sequential) \<and> \<not> hasExplicitDeps deps2
         then add_chain deps2 (sd_agentOrder def) else deps2)"

section \<open>Cycle detection\<close>

definition push_forward :: "(jstring \<times> jstring list) list \<Rightarrow> jstring \<Rightarrow> jstring \<Rightarrow> (jstring \<times> jstring list) list" where
  "push_forward forward dep node =
     map_set forward dep ((case map_get forward dep of Some l \<Rightarrow> l | None \<Rightarrow> []) @ [node])"

text \<open>The first loop: in-degrees, and for each dependency its dependents.\<close>

definition degrees :: "deps \<Rightarrow> (jstring \<times> int) list" where
  "degrees deps = foldl (\<lambda>m (node, nodeDeps). map_set m node (int (length nodeDeps))) [] deps"

definition dependents :: "deps \<Rightarrow> (jstring \<times> jstring list) list" where
  "dependents deps =
     foldl (\<lambda>m (node, nodeDeps). foldl (\<lambda>m dep. push_forward m dep node) m nodeDeps) [] deps"

text \<open>The inner loop over the dependents of a node.\<close>

fun relax :: "jstring list \<Rightarrow> (jstring \<times> int) list \<times> jstring list \<Rightarrow> (jstring \<times> int) list \<times> jstring list" where
  "relax [] st = st"
| "relax (depNode # rest) (inDegree, queue) =
     (case map_get inDegree depNode of
        None \<Rightarrow> relax rest (inDegree, queue)
      | Some degree \<Rightarrow>
          (let newDegree = degree - 1
           in relax rest (map_set inDegree depNode newDegree,
                if newDegree = 0 then queue @ [depNode] else queue)))"

definition positive :: "(jstring \<times> int) list \<Rightarrow> nat" where
  "positive m = card {k. \<exists>v. map_get m k = Some v \<and> 0 < v}"

lemma positive_set:
  assumes "map_get m k = Some v"
  shows "positive (map_set m k (v - 1)) + (if v - 1 = 0 then 1 else 0) = positive m"
proof -
  let ?P = "\<lambda>m. {k. \<exists>v. map_get m k = Some v \<and> 0 < v}"
  have fin: "finite (?P m)"
    by (rule finite_subset [of _ "dom (map_of m)"]) (auto simp: map_get_def finite_dom_map_of)
  consider "1 < v" | "v = 1" | "v < 1" by linarith
  then show ?thesis
  proof cases
    case 2
    have "?P (map_set m k (v - 1)) = ?P m - {k}" using 2 by (auto simp: map_get_set split: if_splits)
    moreover have "k \<in> ?P m" using assms 2 by simp
    ultimately show ?thesis using fin 2 card_Suc_Diff1 [of "?P m" k] by (simp add: positive_def)
  next
    case 1
    have "?P (map_set m k (v - 1)) = ?P m"
      using 1 assms by (auto simp: map_get_set split: if_splits)
    then show ?thesis using 1 by (simp add: positive_def)
  next
    case 3
    have "?P (map_set m k (v - 1)) = ?P m"
      using 3 assms by (auto simp: map_get_set split: if_splits)
    then show ?thesis using 3 by (simp add: positive_def)
  qed
qed

lemma relax_measure:
  "relax ds (m, q) = (m', q') \<Longrightarrow> positive m' + length q' = positive m + length q"
proof (induction ds arbitrary: m q)
  case (Cons d ds)
  show ?case
  proof (cases "map_get m d")
    case None
    then show ?thesis using Cons by simp
  next
    case (Some v)
    let ?m = "map_set m d (v - 1)" and ?q = "if v - 1 = 0 then q @ [d] else q"
    have "relax ds (?m, ?q) = (m', q')" using Cons.prems Some by (simp add: Let_def)
    from Cons.IH [OF this] show ?thesis using positive_set [OF Some] by (auto split: if_splits)
  qed
qed simp

text \<open>The loop over the queue; it ends because every push uses up a positive in-degree.\<close>

function kahn ::
  "(jstring \<times> jstring list) list \<Rightarrow> (jstring \<times> int) list \<Rightarrow> jstring list \<Rightarrow> jstring list \<Rightarrow> jstring list" where
  "kahn forward inDegree [] sorted_nodes = sorted_nodes"
| "kahn forward inDegree (node # queue) sorted_nodes =
     (let (inDegree', queue') =
          relax (case map_get forward node of Some l \<Rightarrow> l | None \<Rightarrow> []) (inDegree, queue)
      in kahn forward inDegree' queue' (sorted_nodes @ [node]))"
  by pat_completeness auto
termination
  by (relation "measure (\<lambda>(f, m, q, s). positive m + length q)") (auto dest!: relax_measure [OF sym])

definition detectCycles :: "deps \<Rightarrow> jstring list option" where
  "detectCycles deps =
     (let inDegree = degrees deps; forward = dependents deps;
          queue = map fst (filter (\<lambda>(node, degree). degree = 0) inDegree);
          sorted_nodes = kahn forward inDegree queue []
      in if length sorted_nodes < length deps
         then Some (filter (\<lambda>k. k \<notin> set sorted_nodes) (map_keys deps)) else None)"

section \<open>Waves\<close>

definition ready :: "deps \<Rightarrow> jstring list \<Rightarrow> jstring \<Rightarrow> bool" where
  "ready deps completed node =
     list_all (\<lambda>dep. dep \<in> set completed)
       (case map_get deps node of Some s \<Rightarrow> s | None \<Rightarrow> [])"

function waves_loop ::
  "deps \<Rightarrow> jstring list \<Rightarrow> jstring list \<Rightarrow> jstring list list \<Rightarrow> swarm_error + jstring list list" where
  "waves_loop deps completed remaining waves =
     (if length remaining = 0 then Inr waves
      else
        (let wave = filter (ready deps completed) remaining
         in if length wave = 0 then Inl (Deadlock remaining)
            else
              (let wave = sort wave
               in waves_loop deps (foldl set_add completed wave)
                    (filter (\<lambda>n. n \<notin> set wave) remaining) (waves @ [wave]))))"
  by pat_completeness auto
termination
proof (relation "measure (\<lambda>(deps, completed, remaining, waves). length remaining)")
  fix deps completed remaining waves x xa
  assume "length remaining \<noteq> 0" "x = filter (ready deps completed) remaining" "length x \<noteq> 0" "xa = sort x"
  then have "set xa = {n \<in> set remaining. ready deps completed n}" "length xa = length x" by auto
  then have "xa \<noteq> []" "set xa = {n \<in> set remaining. ready deps completed n}" using \<open>length x \<noteq> 0\<close> by auto
  then obtain n where "n \<in> set remaining" "n \<in> set xa" by (metis (no_types, lifting) list.set_sel(1) mem_Collect_eq)
  then have "length (filter (\<lambda>n. n \<notin> set xa) remaining) < length remaining"
    by (intro length_filter_less) auto
  then show "((deps, foldl set_add completed xa, filter (\<lambda>n. n \<notin> set xa) remaining, waves @ [xa]),
      (deps, completed, remaining, waves)) \<in> measure (\<lambda>(deps, completed, remaining, waves). length remaining)"
    by simp
qed simp

declare waves_loop.simps [simp del]

definition buildExecutionWaves :: "deps \<Rightarrow> swarm_error + jstring list list" where
  "buildExecutionWaves deps = waves_loop deps [] (map_keys deps) []"

section \<open>Dependencies as a relation\<close>

definition deps_of :: "deps \<Rightarrow> jstring \<Rightarrow> jstring list" where
  "deps_of deps n = (case map_get deps n of Some s \<Rightarrow> s | None \<Rightarrow> [])"

definition deprel :: "deps \<Rightarrow> (jstring \<times> jstring) set" where
  "deprel deps = {(d, n). d \<in> set (deps_of deps n)}"

text \<open>What every graph that \<open>buildDependencyGraph\<close> makes satisfies.\<close>

definition wf_deps :: "deps \<Rightarrow> bool" where
  "wf_deps deps \<longleftrightarrow> distinct (map_keys deps) \<and>
     (\<forall>n\<in>set (map_keys deps). distinct (deps_of deps n) \<and> set (deps_of deps n) \<subseteq> set (map_keys deps))"

lemma deps_of_key: "d \<in> set (deps_of deps n) \<Longrightarrow> n \<in> set (map_keys deps)"
proof (cases "map_of deps n")
  case (Some s)
  then show ?thesis using map_of_SomeD [OF Some] by (force simp: map_keys_def)
qed (simp add: deps_of_def map_get_def)

lemma deps_of_entry: "distinct (map_keys deps) \<Longrightarrow> (n, s) \<in> set deps \<Longrightarrow> deps_of deps n = s"
  by (simp add: deps_of_def map_get_def map_keys_def)

lemma finite_deprel: "finite (deprel deps)"
proof (rule finite_subset)
  show "deprel deps \<subseteq> (\<Union>n\<in>set (map_keys deps). set (deps_of deps n) \<times> {n})"
    using deps_of_key by (auto simp: deprel_def)
qed auto

abbreviation settled :: "deps \<Rightarrow> jstring set" where
  "settled deps \<equiv> Wellfounded.acc (deprel deps)"

lemma settledI: "(\<And>d. d \<in> set (deps_of deps n) \<Longrightarrow> d \<in> settled deps) \<Longrightarrow> n \<in> settled deps"
  by (rule accI) (simp add: deprel_def)

lemma settled_dep: "n \<in> settled deps \<Longrightarrow> d \<in> set (deps_of deps n) \<Longrightarrow> d \<in> settled deps"
  by (rule acc_downward) (auto simp: deprel_def)

text \<open>A closed set of nodes without progress has no settled node, and the settled ones are
  those that no cycle leads to.\<close>

lemma not_settled:
  assumes "\<And>n. n \<in> A \<Longrightarrow> \<exists>d\<in>A. d \<in> set (deps_of deps n)" "n \<in> A"
  shows "n \<notin> settled deps"
proof
  assume "n \<in> settled deps"
  then show False using assms(2)
  proof (induction rule: acc.induct)
    case (accI x)
    then obtain d where "d \<in> A" "d \<in> set (deps_of deps x)" using assms(1) by blast
    then show ?case using accI.IH by (auto simp: deprel_def)
  qed
qed

lemma settled_no_cycle: "c \<in> settled deps \<Longrightarrow> (c, c) \<notin> (deprel deps)\<^sup>+"
proof (induction rule: acc.induct)
  case (accI x)
  show ?case
  proof
    assume "(x, x) \<in> (deprel deps)\<^sup>+"
    then obtain y where "(x, y) \<in> (deprel deps)\<^sup>*" "(y, x) \<in> deprel deps" by (meson tranclD2)
    then have "(y, y) \<in> (deprel deps)\<^sup>+" by (meson rtrancl_into_trancl2)
    then show False using accI.IH \<open>(y, x) \<in> deprel deps\<close> by blast
  qed
qed

lemma settled_iff: "n \<in> settled deps \<longleftrightarrow> \<not> (\<exists>c. (c, c) \<in> (deprel deps)\<^sup>+ \<and> (c, n) \<in> (deprel deps)\<^sup>*)"
proof
  assume n: "n \<in> settled deps"
  show "\<not> (\<exists>c. (c, c) \<in> (deprel deps)\<^sup>+ \<and> (c, n) \<in> (deprel deps)\<^sup>*)"
  proof
    assume "\<exists>c. (c, c) \<in> (deprel deps)\<^sup>+ \<and> (c, n) \<in> (deprel deps)\<^sup>*"
    then obtain c where c: "(c, c) \<in> (deprel deps)\<^sup>+" "(c, n) \<in> (deprel deps)\<^sup>*" by blast
    have cs: "c \<in> settled deps" using acc_downwards [OF n c(2)] .
    then show False using c(1) settled_no_cycle by blast
  qed
next
  assume no: "\<not> (\<exists>c. (c, c) \<in> (deprel deps)\<^sup>+ \<and> (c, n) \<in> (deprel deps)\<^sup>*)"
  let ?R = "deprel deps" and ?B = "{x. (x, n) \<in> (deprel deps)\<^sup>*}"
  define S where "S = ?R \<inter> (UNIV \<times> ?B)"
  have "acyclic S"
  proof (rule acyclicI, rule allI, rule notI)
    fix x assume x: "(x, x) \<in> S\<^sup>+"
    then have "(x, x) \<in> ?R\<^sup>+" by (rule trancl_mono) (auto simp: S_def)
    moreover have "(x, n) \<in> ?R\<^sup>*" using x by (cases rule: tranclE) (auto simp: S_def)
    ultimately show False using no by blast
  qed
  moreover have "finite S" using finite_deprel by (simp add: S_def)
  ultimately have wf: "wf S" using finite_acyclic_wf by blast
  have "(x, n) \<in> ?R\<^sup>* \<longrightarrow> x \<in> settled deps" for x
    using wf
  proof (induction x rule: wf_induct_rule)
    case (less x)
    show ?case
    proof
      assume x: "(x, n) \<in> ?R\<^sup>*"
      show "x \<in> settled deps"
      proof (rule settledI)
        fix d assume "d \<in> set (deps_of deps x)"
        then have "(d, x) \<in> ?R" by (simp add: deprel_def)
        moreover from this have "(d, n) \<in> ?R\<^sup>*" using x by (rule converse_rtrancl_into_rtrancl)
        ultimately show "d \<in> settled deps" using less x by (auto simp: S_def)
      qed
    qed
  qed
  then show "n \<in> settled deps" by blast
qed

lemma acyclic_settled: "acyclic (deprel deps) \<longleftrightarrow> (\<forall>n\<in>set (map_keys deps). n \<in> settled deps)"
proof
  assume "acyclic (deprel deps)"
  then show "\<forall>n\<in>set (map_keys deps). n \<in> settled deps" by (auto simp: settled_iff acyclic_def)
next
  assume a: "\<forall>n\<in>set (map_keys deps). n \<in> settled deps"
  show "acyclic (deprel deps)"
  proof (rule acyclicI, rule allI, rule notI)
    fix c assume c: "(c, c) \<in> (deprel deps)\<^sup>+"
    then obtain d where "(d, c) \<in> deprel deps" by (meson tranclD2)
    then have "c \<in> set (map_keys deps)" using deps_of_key by (auto simp: deprel_def)
    then show False using a c settled_iff by blast
  qed
qed

section \<open>The loops of the detection\<close>

lemma degrees_eq:
  assumes "distinct (map_keys deps)"
  shows "degrees deps = map (\<lambda>(n, s). (n, int (length s))) deps"
proof -
  have "foldl (\<lambda>m (node, nodeDeps). map_set m node (int (length nodeDeps))) m ds =
      m @ map (\<lambda>(n, s). (n, int (length s))) ds"
    if "distinct (map_keys m @ map_keys ds)" for m and ds :: deps
    using that
  proof (induction ds arbitrary: m)
    case (Cons e ds)
    obtain n s where e: "e = (n, s)" by (cases e)
    have "map_set m n (int (length s)) = m @ [(n, int (length s))]"
      by (rule keys_map_set_new) (use Cons.prems in \<open>auto simp: e map_keys_def\<close>)
    then show ?case
      using Cons.IH [of "m @ [(n, int (length s))]"] Cons.prems by (auto simp: e map_keys_def)
  qed simp
  from this [of "[]" deps] show ?thesis using assms by (simp add: degrees_def map_keys_def)
qed

definition get0 :: "('k \<times> 'v list) list \<Rightarrow> 'k \<Rightarrow> 'v list" where
  "get0 m k = (case map_get m k of Some l \<Rightarrow> l | None \<Rightarrow> [])"

lemma get0_push: "get0 (push_forward m dep node) d = get0 m d @ (if d = dep then [node] else [])"
  by (simp add: get0_def push_forward_def map_get_set)

lemma get0_pushes:
  "distinct s \<Longrightarrow> get0 (foldl (\<lambda>m dep. push_forward m dep node) m s) d =
   get0 m d @ (if d \<in> set s then [node] else [])"
  by (induction s arbitrary: m) (auto simp: get0_push)

lemma dependents_eq:
  assumes "\<forall>(n, s)\<in>set deps. distinct s"
  shows "get0 (dependents deps) d = map fst (filter (\<lambda>(n, s). d \<in> set s) deps)"
proof -
  have "get0 (foldl (\<lambda>m (node, nodeDeps). foldl (\<lambda>m dep. push_forward m dep node) m nodeDeps) m ds) d =
      get0 m d @ map fst (filter (\<lambda>(n, s). d \<in> set s) ds)" if "\<forall>(n, s)\<in>set ds. distinct s" for m ds
    using that by (induction ds arbitrary: m) (auto simp: get0_pushes)
  from this [of deps "[]"] show ?thesis using assms by (simp add: dependents_def get0_def map_get_def)
qed

lemma relax_eq:
  assumes "distinct ds" "relax ds (m, q) = (m', q')"
  shows "(\<forall>k. map_get m' k = (if k \<in> set ds then map_option (\<lambda>v. v - 1) (map_get m k) else map_get m k)) \<and>
    q' = q @ filter (\<lambda>k. map_get m k = Some 1) ds"
  using assms
proof (induction ds arbitrary: m q)
  case (Cons d ds)
  show ?case
  proof (cases "map_get m d")
    case None
    then show ?thesis using Cons by auto
  next
    case (Some v)
    let ?m = "map_set m d (v - 1)"
    have r: "relax ds (?m, if v - 1 = 0 then q @ [d] else q) = (m', q')"
      using Cons.prems Some by (simp add: Let_def)
    have f: "filter (\<lambda>k. map_get ?m k = Some 1) ds = filter (\<lambda>k. map_get m k = Some 1) ds"
      using Cons.prems(1) by (intro filter_cong) (auto simp: map_get_set)
    show ?thesis using Cons.IH [OF _ r] Cons.prems(1) Some f by (auto simp: map_get_set)
  qed
qed simp

section \<open>Kahn's algorithm\<close>

text \<open>
  The invariant: the in-degree of a node counts its dependencies that are not sorted yet, the
  queue holds the nodes that wait for none, and everything sorted is settled.
\<close>

definition open_deps :: "deps \<Rightarrow> jstring list \<Rightarrow> jstring \<Rightarrow> jstring list" where
  "open_deps deps done n = filter (\<lambda>d. d \<notin> set done) (deps_of deps n)"

definition kahn_inv :: "deps \<Rightarrow> (jstring \<times> int) list \<Rightarrow> jstring list \<Rightarrow> jstring list \<Rightarrow> bool" where
  "kahn_inv deps m q done \<longleftrightarrow> distinct (done @ q) \<and> set done \<subseteq> settled deps \<and>
     (\<forall>n\<in>set (map_keys deps). map_get m n = Some (int (length (open_deps deps done n)))) \<and>
     set q = {n \<in> set (map_keys deps). open_deps deps done n = []} - set done \<and>
     (\<forall>n\<in>set done. n \<in> set (map_keys deps) \<and> open_deps deps done n = [])"

lemma open_deps_snoc: "open_deps deps (done @ [x]) n = filter (\<lambda>d. d \<noteq> x) (open_deps deps done n)"
  by (auto simp: open_deps_def intro: filter_cong)

lemma length_remove_one:
  "distinct xs \<Longrightarrow> length (filter (\<lambda>d. d \<noteq> x) xs) = length xs - (if x \<in> set xs then 1 else 0)"
proof (induction xs)
  case (Cons a xs)
  have "filter (\<lambda>d. d \<noteq> a) xs = xs" using Cons.prems by (intro filter_True) auto
  then show ?case using Cons by (cases xs) auto
qed simp

lemma kahn_step:
  assumes wf: "wf_deps deps" and inv: "kahn_inv deps m (node # q) done"
    and r: "relax (get0 (dependents deps) node) (m, q) = (m', q')"
  shows "kahn_inv deps m' q' (done @ [node])"
proof -
  let ?K = "set (map_keys deps)" and ?ds = "get0 (dependents deps) node"
  have keys: "distinct (map_keys deps)" using wf by (simp add: wf_deps_def)
  have entries: "deps_of deps n = s" "distinct s" if "(n, s) \<in> set deps" for n s
    using deps_of_entry [OF keys that] wf that by (force simp: wf_deps_def map_keys_def)+
  have ds: "?ds = map fst (filter (\<lambda>(n, s). node \<in> set s) deps)"
    by (rule dependents_eq) (use entries in auto)
  have dds: "distinct ?ds" unfolding ds using keys
    by (simp add: map_keys_def distinct_map_filter)
  have mem: "n \<in> set ?ds \<longleftrightarrow> n \<in> ?K \<and> node \<in> set (deps_of deps n)" for n
    unfolding ds using entries(1) deps_of_key by (force simp: map_keys_def)
  note eq = relax_eq [OF dds r]
  have node: "node \<in> ?K" "open_deps deps done node = []" "node \<notin> set done" "node \<notin> set q"
    using inv by (auto simp: kahn_inv_def)
  have opn: "node \<in> set (open_deps deps done n) \<longleftrightarrow> n \<in> set ?ds" if "n \<in> ?K" for n
    using that node(3) by (simp add: open_deps_def mem)
  have dopen: "distinct (open_deps deps done n)" if "n \<in> ?K" for n
    using that wf by (simp add: wf_deps_def open_deps_def)
  have len: "length (open_deps deps (done @ [node]) n) =
      length (open_deps deps done n) - (if n \<in> set ?ds then 1 else 0)" if "n \<in> ?K" for n
    using length_remove_one [OF dopen [OF that]] opn [OF that] by (simp add: open_deps_snoc)
  have pos: "0 < length (open_deps deps done n)" if "n \<in> set ?ds" for n
    using opn [of n] that mem by (cases "open_deps deps done n") auto
  have m': "map_get m' n = Some (int (length (open_deps deps (done @ [node]) n)))" if "n \<in> ?K" for n
  proof -
    have "map_get m n = Some (int (length (open_deps deps done n)))"
      using inv that by (simp add: kahn_inv_def)
    then show ?thesis using eq len [OF that] pos [of n] by (auto simp: of_nat_diff Suc_le_eq)
  qed
  have new: "set q' = set q \<union> {n \<in> set ?ds. length (open_deps deps done n) = 1}"
    using eq inv mem by (auto simp: kahn_inv_def)
  have qs: "set q = {n \<in> ?K. open_deps deps done n = []} - set done - {node}"
    using inv by (auto simp: kahn_inv_def)
  have nil: "open_deps deps (done @ [node]) n = [] \<longleftrightarrow>
      open_deps deps done n = [] \<or> n \<in> set ?ds \<and> length (open_deps deps done n) = 1" if "n \<in> ?K" for n
    using len [OF that] pos [of n] by (cases "n \<in> set ?ds") (auto simp: le_Suc_eq)
  have fresh: "n \<notin> set done" "n \<noteq> node" "n \<notin> set q" if "n \<in> set ?ds" for n
    using pos [OF that] inv node by (auto simp: kahn_inv_def)
  have "set q' = {n \<in> ?K. open_deps deps (done @ [node]) n = []} - set (done @ [node])"
    unfolding new qs using nil fresh mem by auto
  moreover have "distinct ((done @ [node]) @ q')"
  proof -
    have "q' = q @ filter (\<lambda>k. map_get m k = Some 1) ?ds" using eq by blast
    then show ?thesis using inv dds fresh by (auto simp: kahn_inv_def)
  qed
  moreover have "node \<in> settled deps"
  proof (rule settledI)
    fix d assume "d \<in> set (deps_of deps node)"
    then have "d \<in> set done" using node(2) by (auto simp: open_deps_def filter_empty_conv)
    then show "d \<in> settled deps" using inv by (auto simp: kahn_inv_def)
  qed
  moreover have "\<forall>n\<in>set (done @ [node]). n \<in> ?K \<and> open_deps deps (done @ [node]) n = []"
    using inv node by (auto simp: kahn_inv_def open_deps_snoc)
  ultimately show ?thesis using m' inv by (auto simp: kahn_inv_def)
qed

lemma kahn_settled:
  assumes "wf_deps deps" "kahn_inv deps m q done"
  shows "distinct (kahn (dependents deps) m q done) \<and>
    set (kahn (dependents deps) m q done) = set (map_keys deps) \<inter> settled deps"
  using assms
proof (induction "dependents deps" m q "done" rule: kahn.induct)
  case (1 m "done")
  have inv: "distinct done" "set done \<subseteq> settled deps" "set done \<subseteq> set (map_keys deps)"
    "{n \<in> set (map_keys deps). open_deps deps done n = []} \<subseteq> set done"
    using 1 by (auto simp: kahn_inv_def)
  have "n \<notin> settled deps" if "n \<in> set (map_keys deps) - set done" for n
  proof (rule not_settled [OF _ that])
    fix k assume k: "k \<in> set (map_keys deps) - set done"
    then have "open_deps deps done k \<noteq> []" using inv(4) by auto
    then obtain d where "d \<in> set (deps_of deps k)" "d \<notin> set done"
      by (auto simp: open_deps_def filter_empty_conv)
    then show "\<exists>d\<in>set (map_keys deps) - set done. d \<in> set (deps_of deps k)"
      using 1(1) k by (auto simp: wf_deps_def)
  qed
  then show ?case using inv by auto
next
  case (2 m node q "done")
  obtain m' q' where r: "relax (get0 (dependents deps) node) (m, q) = (m', q')" by fastforce
  have "kahn_inv deps m' q' (done @ [node])" by (rule kahn_step [OF 2(2,3) r])
  with 2(1) [OF _ refl 2(2)] r show ?case by (simp add: get0_def)
qed

lemma detect_settled:
  assumes "wf_deps deps"
  shows "detectCycles deps = (let bad = filter (\<lambda>k. k \<notin> settled deps) (map_keys deps)
    in if bad = [] then None else Some bad)"
proof -
  have keys: "distinct (map_keys deps)" using assms by (simp add: wf_deps_def)
  let ?m = "degrees deps"
  let ?q = "map fst (filter (\<lambda>(node, degree). degree = 0) ?m)"
  have m: "?m = map (\<lambda>(n, s). (n, int (length s))) deps" by (rule degrees_eq [OF keys])
  have mget: "map_get ?m n = Some (int (length (deps_of deps n)))" if key: "n \<in> set (map_keys deps)" for n
  proof -
    obtain s where "map_of deps n = Some s"
      using key by (cases "map_of deps n") (auto simp: map_of_eq_None_iff map_keys_def)
    then show ?thesis by (simp add: m map_get_def deps_of_def map_of_map)
  qed
  have q: "set ?q = {n \<in> set (map_keys deps). deps_of deps n = []}"
    using deps_of_entry [OF keys] by (force simp: m map_keys_def)
  have dq: "distinct ?q" using keys by (simp add: m map_keys_def filter_map comp_def case_prod_beta'
      distinct_map_filter)
  have inv: "kahn_inv deps ?m ?q []"
    using mget q dq by (simp add: kahn_inv_def open_deps_def)
  note k = kahn_settled [OF assms inv]
  let ?s = "kahn (dependents deps) ?m ?q []"
  let ?bad = "filter (\<lambda>k. k \<notin> settled deps) (map_keys deps)"
  have "length ?s = card (set (map_keys deps) \<inter> settled deps)" using k distinct_card by metis
  moreover have "length deps = card (set (map_keys deps))" using distinct_card [OF keys] by (simp add: map_keys_def)
  moreover have "card (set (map_keys deps) \<inter> settled deps) < card (set (map_keys deps)) \<longleftrightarrow> ?bad \<noteq> []"
  proof
    assume "card (set (map_keys deps) \<inter> settled deps) < card (set (map_keys deps))"
    then show "?bad \<noteq> []" by (metis filter_empty_conv Int_absorb2 less_irrefl subsetI)
  next
    assume "?bad \<noteq> []"
    then have "set (map_keys deps) \<inter> settled deps \<subset> set (map_keys deps)"
      by (auto simp: filter_empty_conv)
    then show "card (set (map_keys deps) \<inter> settled deps) < card (set (map_keys deps))"
      by (simp add: psubset_card_mono)
  qed
  moreover have "filter (\<lambda>k. k \<notin> set ?s) (map_keys deps) = ?bad"
    using k by (intro filter_cong) auto
  ultimately show ?thesis by (simp add: detectCycles_def Let_def)
qed

section \<open>The waves\<close>

text \<open>A wave: the open nodes all of whose dependencies are completed, in order.\<close>

definition wave_at :: "deps \<Rightarrow> jstring list list \<Rightarrow> jstring list \<Rightarrow> bool" where
  "wave_at deps earlier wave \<longleftrightarrow> wave \<noteq> [] \<and> distinct wave \<and> sorted wave \<and>
     set wave = {n \<in> set (map_keys deps). n \<notin> set (concat earlier) \<and>
       set (deps_of deps n) \<subseteq> set (concat earlier)}"

definition waves_ok :: "deps \<Rightarrow> jstring list list \<Rightarrow> bool" where
  "waves_ok deps ws \<longleftrightarrow> (\<forall>i<length ws. wave_at deps (take i ws) (ws ! i))"

lemma waves_ok_snoc: "waves_ok deps (ws @ [w]) \<longleftrightarrow> waves_ok deps ws \<and> wave_at deps ws w"
  by (auto simp: waves_ok_def nth_append less_Suc_eq)

lemma waves_loop_spec:
  assumes "wf_deps deps" "waves_ok deps ws" "set completed = set (concat ws)"
    and "remaining = filter (\<lambda>n. n \<notin> set completed) (map_keys deps)"
    and "set completed \<subseteq> settled deps \<inter> set (map_keys deps)" "distinct (concat ws)"
  shows "case waves_loop deps completed remaining ws of
      Inr ws' \<Rightarrow> waves_ok deps ws' \<and> distinct (concat ws') \<and> set (concat ws') = set (map_keys deps) \<and>
        set (map_keys deps) \<subseteq> settled deps
    | Inl e \<Rightarrow> e = Deadlock (filter (\<lambda>k. k \<notin> settled deps) (map_keys deps)) \<and>
        filter (\<lambda>k. k \<notin> settled deps) (map_keys deps) \<noteq> []"
  using assms
proof (induction deps completed remaining ws rule: waves_loop.induct)
  case (1 deps completed remaining waves)
  let ?K = "map_keys deps" and ?wave = "filter (ready deps completed) remaining"
  have rdy: "ready deps completed n \<longleftrightarrow> set (deps_of deps n) \<subseteq> set completed" for n
    by (auto simp: ready_def deps_of_def list_all_iff split: option.splits)
  have dk: "distinct ?K" using 1(2) by (simp add: wf_deps_def)
  show ?case
  proof (cases "remaining = []")
    case True
    then have "set ?K \<subseteq> set completed" using 1(5) by (auto simp: filter_empty_conv)
    then show ?thesis using True 1(3,4,6,7) by (subst waves_loop.simps) auto
  next
    case False
    show ?thesis
    proof (cases "?wave = []")
      case True
      have "n \<notin> settled deps" if "n \<in> set remaining" for n
      proof (rule not_settled [OF _ that])
        fix k assume k: "k \<in> set remaining"
        then obtain d where d: "d \<in> set (deps_of deps k)" "d \<notin> set completed"
          using True rdy by (auto simp: filter_empty_conv)
        then show "\<exists>d\<in>set remaining. d \<in> set (deps_of deps k)"
          using 1(2) 1(5) k by (auto simp: wf_deps_def)
      qed
      then have "remaining = filter (\<lambda>k. k \<notin> settled deps) ?K"
        using 1(5,6) by (auto intro!: filter_cong)
      then show ?thesis using True False by (subst waves_loop.simps) simp
    next
      case ne: False
      let ?w = "sort ?wave"
      let ?c = "foldl set_add completed ?w" and ?r = "filter (\<lambda>n. n \<notin> set ?w) remaining"
      have "length ?w = length ?wave" by simp
      then have "?w \<noteq> []" using ne by (metis length_0_conv)
      moreover have "set ?w = {n \<in> set ?K. n \<notin> set (concat waves) \<and>
          set (deps_of deps n) \<subseteq> set (concat waves)}"
        unfolding set_sort using 1(4,5) rdy by auto
      moreover have "distinct ?w" using dk 1(5) by simp
      ultimately have at: "wave_at deps waves ?w" unfolding wave_at_def by (intro conjI) simp_all
      have ok: "waves_ok deps (waves @ [?w])" using 1(3) at by (simp add: waves_ok_snoc)
      have c: "set ?c = set (concat (waves @ [?w]))" using 1(4) by (simp add: foldl_set_add)
      have r: "?r = filter (\<lambda>n. n \<notin> set ?c) ?K"
        using 1(5) by (auto simp: foldl_set_add intro!: filter_cong)
      have "n \<in> settled deps" if "n \<in> set ?wave" for n
        by (rule settledI) (use that rdy 1(6) in auto)
      then have s: "set ?c \<subseteq> settled deps \<inter> set ?K"
        using 1(5,6) by (auto simp: foldl_set_add)
      have d: "distinct (concat (waves @ [?w]))"
        using 1(7) 1(4) 1(5) dk by auto
      have "waves_loop deps completed remaining waves = waves_loop deps ?c ?r (waves @ [?w])"
        using False ne by (subst waves_loop.simps) (simp add: Let_def)
      then show ?thesis
        using "1.IH" [OF _ refl _ refl 1(2) ok c r s d] False ne by simp
    qed
  qed
qed

lemma waves_spec:
  assumes "wf_deps deps"
  shows "case buildExecutionWaves deps of
      Inr ws \<Rightarrow> detectCycles deps = None \<and> waves_ok deps ws \<and> distinct (concat ws) \<and>
        set (concat ws) = set (map_keys deps)
    | Inl e \<Rightarrow> (\<exists>ns. detectCycles deps = Some ns \<and> e = Deadlock ns)"
proof -
  have "waves_ok deps []" by (simp add: waves_ok_def)
  from waves_loop_spec [OF assms this, of "[]" "map_keys deps"]
  have "case waves_loop deps [] (map_keys deps) [] of
      Inr ws' \<Rightarrow> waves_ok deps ws' \<and> distinct (concat ws') \<and> set (concat ws') = set (map_keys deps) \<and>
        set (map_keys deps) \<subseteq> settled deps
    | Inl e \<Rightarrow> e = Deadlock (filter (\<lambda>k. k \<notin> settled deps) (map_keys deps)) \<and>
        filter (\<lambda>k. k \<notin> settled deps) (map_keys deps) \<noteq> []" by simp
  then show ?thesis
    by (auto simp: buildExecutionWaves_def detect_settled [OF assms] Let_def filter_empty_conv
        split: sum.splits)
qed

lemma cycles_spec:
  assumes "wf_deps deps"
  shows "(detectCycles deps = None \<longleftrightarrow> acyclic (deprel deps)) \<and>
    (\<forall>ns. detectCycles deps = Some ns \<longrightarrow> ns \<noteq> [] \<and>
       set ns = {n \<in> set (map_keys deps).
         \<exists>c. (c, c) \<in> (deprel deps)\<^sup>+ \<and> (c, n) \<in> (deprel deps)\<^sup>*})"
  by (auto simp: detect_settled [OF assms] Let_def acyclic_settled filter_empty_conv settled_iff
      split: if_splits)

section \<open>The graph of a definition\<close>

lemma has_key_iff: "has_key deps k \<longleftrightarrow> k \<in> set (map_keys deps)"
  by (simp add: has_key_def map_get_def map_keys_def map_of_eq_None_iff)

lemma deps_of_add: "deps_of (add_dep deps k d) n =
    (if n = k \<and> has_key deps k then set_add (deps_of deps n) d else deps_of deps n)"
  by (auto simp: add_dep_def deps_of_def has_key_def map_get_set split: option.splits)

lemma keys_add_dep [simp]: "map_keys (add_dep deps k d) = map_keys deps"
  using has_key_iff [of deps k]
  by (auto simp: add_dep_def has_key_def keys_map_set_mem split: option.splits)

lemma wf_add_dep: "wf_deps deps \<Longrightarrow> d \<in> set (map_keys deps) \<Longrightarrow> wf_deps (add_dep deps k d)"
  by (auto simp: wf_deps_def deps_of_add distinct_set_add)

lemma deprel_add_dep:
  "k \<in> set (map_keys deps) \<Longrightarrow> deprel (add_dep deps k d) = insert (d, k) (deprel deps)"
  by (auto simp: deprel_def deps_of_add has_key_iff split: if_splits)

text \<open>What a step of building does: it keeps the keys and adds some edges between them.\<close>

definition adds :: "deps \<Rightarrow> deps \<Rightarrow> (jstring \<times> jstring) set \<Rightarrow> bool" where
  "adds deps deps' E \<longleftrightarrow> wf_deps deps' \<and> map_keys deps' = map_keys deps \<and>
     deprel deps' = deprel deps \<union> E"

lemma adds_trans: "adds a b E \<Longrightarrow> adds b c F \<Longrightarrow> adds a c (E \<union> F)"
  by (auto simp: adds_def)

lemma adds_one:
  "wf_deps deps \<Longrightarrow> k \<in> set (map_keys deps) \<Longrightarrow> d \<in> set (map_keys deps) \<Longrightarrow>
   adds deps (add_dep deps k d) {(d, k)}"
  by (simp add: adds_def wf_add_dep deprel_add_dep)

lemma adds_none: "wf_deps deps \<Longrightarrow> adds deps deps {}"
  by (simp add: adds_def)

lemma adds_foldl:
  assumes "\<And>x deps. wf_deps deps \<Longrightarrow> map_keys deps = K \<Longrightarrow> x \<in> set xs \<Longrightarrow> adds deps (f deps x) (E x)"
    and "wf_deps deps" "map_keys deps = K"
  shows "adds deps (foldl f deps xs) (\<Union>x\<in>set xs. E x)"
  using assms
proof (induction xs arbitrary: deps)
  case Nil
  then show ?case by (simp add: adds_none)
next
  case (Cons x xs)
  have s: "adds deps (f deps x) (E x)" using Cons.prems by simp
  have "adds (f deps x) (foldl f (f deps x) xs) (\<Union>x\<in>set xs. E x)"
    by (rule Cons.IH) (use Cons.prems s in \<open>auto simp: adds_def\<close>)
  from adds_trans [OF s this] show ?case by simp
qed

definition waits_edges :: "jstring list \<Rightarrow> jstring \<times> swarm_agent \<Rightarrow> (jstring \<times> jstring) set" where
  "waits_edges K na = {(d, fst na) | d. YStr d \<in> set (ag_waitsFor (snd na)) \<and> d \<in> set K}"

definition reports_edges :: "jstring list \<Rightarrow> jstring \<times> swarm_agent \<Rightarrow> (jstring \<times> jstring) set" where
  "reports_edges K na = {(fst na, t) | t. YStr t \<in> set (ag_reportsTo (snd na)) \<and> t \<in> set K}"

lemma add_waits_adds:
  assumes "wf_deps deps" "map_keys deps = K" "fst na \<in> set K"
  shows "adds deps (add_waits deps na) (waits_edges K na)"
proof -
  let ?E = "\<lambda>y. case y of YStr d \<Rightarrow> if d \<in> set K then {(d, fst na)} else {} | _ \<Rightarrow> {}"
  have "adds deps (add_waits deps na) (\<Union>y\<in>set (ag_waitsFor (snd na)). ?E y)"
    unfolding add_waits_def
    by (rule adds_foldl [where K = K])
       (use assms in \<open>auto simp: has_key_iff intro: adds_one adds_none split: yaml.splits\<close>)
  moreover have "(\<Union>y\<in>set (ag_waitsFor (snd na)). ?E y) = waits_edges K na"
    by (auto simp: waits_edges_def split: yaml.splits if_splits)
  ultimately show ?thesis by simp
qed

lemma add_reports_adds:
  assumes "wf_deps deps" "map_keys deps = K" "fst na \<in> set K"
  shows "adds deps (add_reports deps na) (reports_edges K na)"
proof -
  let ?E = "\<lambda>y. case y of YStr t \<Rightarrow> if t \<in> set K then {(fst na, t)} else {} | _ \<Rightarrow> {}"
  have "adds deps (add_reports deps na) (\<Union>y\<in>set (ag_reportsTo (snd na)). ?E y)"
    unfolding add_reports_def
    by (rule adds_foldl [where K = K])
       (use assms in \<open>auto simp: has_key_iff intro: adds_one adds_none split: yaml.splits\<close>)
  moreover have "(\<Union>y\<in>set (ag_reportsTo (snd na)). ?E y) = reports_edges K na"
    by (auto simp: reports_edges_def split: yaml.splits if_splits)
  ultimately show ?thesis by simp
qed

text \<open>The edges that the declarations name, and those of the chain.\<close>

definition declared_edges :: "swarm_definition \<Rightarrow> (jstring \<times> jstring) set" where
  "declared_edges def =
     (\<Union>na\<in>set (sd_agents def). waits_edges (map_keys (sd_agents def)) na \<union>
        reports_edges (map_keys (sd_agents def)) na)"

definition chain_edges :: "jstring list \<Rightarrow> (jstring \<times> jstring) set" where
  "chain_edges order = set (zip order (tl order))"

lemma add_chain_adds:
  "wf_deps deps \<Longrightarrow> set order \<subseteq> set (map_keys deps) \<Longrightarrow> adds deps (add_chain deps order) (chain_edges order)"
proof (induction deps order rule: add_chain.induct)
  case (1 deps a b rest)
  have s: "adds deps (add_dep deps b a) {(a, b)}" by (rule adds_one) (use 1 in auto)
  have "adds (add_dep deps b a) (add_chain (add_dep deps b a) (b # rest)) (chain_edges (b # rest))"
    by (rule "1.IH") (use 1 in \<open>auto intro: wf_add_dep\<close>)
  from adds_trans [OF s this] show ?case by (simp add: chain_edges_def)
qed (simp_all add: adds_none chain_edges_def)

lemma empty_deps:
  assumes "distinct K"
  shows "wf_deps (foldl (\<lambda>m name. map_set m name []) ([] :: deps) K)"
    "map_keys (foldl (\<lambda>m name. map_set m name []) ([] :: deps) K) = K"
    "deprel (foldl (\<lambda>m name. map_set m name []) ([] :: deps) K) = {}"
proof -
  have "foldl (\<lambda>m name. map_set m name []) m K = m @ map (\<lambda>n. (n, [])) K"
    if "distinct (map_keys m @ K)" for m :: deps
    using that assms
  proof (induction K arbitrary: m)
    case (Cons n K)
    have "map_set m n [] = m @ [(n, [])]"
      by (rule keys_map_set_new) (use Cons.prems in \<open>auto simp: map_keys_def\<close>)
    then show ?case using Cons.IH [of "m @ [(n, [])]"] Cons.prems by (auto simp: map_keys_def)
  qed simp
  from this [of "[]"] have e: "foldl (\<lambda>m name. map_set m name []) ([] :: deps) K = map (\<lambda>n. (n, [])) K"
    using assms by (simp add: map_keys_def)
  have d: "deps_of (map (\<lambda>n. (n, [])) K) n = []" for n
    by (auto simp: deps_of_def map_get_def map_of_map_restrict restrict_map_def split: option.splits)
  show "wf_deps (foldl (\<lambda>m name. map_set m name []) ([] :: deps) K)"
    "map_keys (foldl (\<lambda>m name. map_set m name []) ([] :: deps) K) = K"
    "deprel (foldl (\<lambda>m name. map_set m name []) ([] :: deps) K) = {}"
    unfolding e using assms d by (simp_all add: wf_deps_def map_keys_def comp_def deprel_def)
qed

lemma hasExplicitDeps_iff:
  assumes "wf_deps deps"
  shows "hasExplicitDeps deps \<longleftrightarrow> deprel deps \<noteq> {}"
proof -
  have k: "distinct (map_keys deps)" using assms by (simp add: wf_deps_def)
  show ?thesis
  proof
    assume "hasExplicitDeps deps"
    then obtain n s d where "(n, s) \<in> set deps" "d \<in> set s"
      by (auto simp: hasExplicitDeps_def list_ex_iff) (metis length_greater_0_conv list.set_sel(1))
    then show "deprel deps \<noteq> {}" using deps_of_entry [OF k] by (auto simp: deprel_def)
  next
    assume "deprel deps \<noteq> {}"
    then obtain n d where "d \<in> set (deps_of deps n)" by (auto simp: deprel_def)
    then obtain s where "map_of deps n = Some s" "d \<in> set s"
      by (cases "map_of deps n") (simp_all add: deps_of_def map_get_def)
    then show "hasExplicitDeps deps"
      using map_of_SomeD by (force simp: hasExplicitDeps_def list_ex_iff)
  qed
qed

lemma graph_spec:
  assumes "swarm_ok def"
  shows "wf_deps (buildDependencyGraph def) \<and>
    map_keys (buildDependencyGraph def) = map_keys (sd_agents def) \<and>
    deprel (buildDependencyGraph def) =
      (if (sd_mode def = Pipeline \<or> sd_mode def = Sequential) \<and> declared_edges def = {}
       then chain_edges (sd_agentOrder def) else declared_edges def)"
proof -
  let ?K = "map_keys (sd_agents def)"
  have dk: "distinct ?K" and ord: "set (sd_agentOrder def) = set ?K"
    using assms by (auto simp: swarm_ok_def)
  define d0 where "d0 = foldl (\<lambda>m name. map_set m name []) ([] :: deps) ?K"
  define d1 where "d1 = foldl add_waits d0 (sd_agents def)"
  define d2 where "d2 = foldl add_reports d1 (sd_agents def)"
  note e0 = empty_deps [OF dk, folded d0_def]
  have key: "fst na \<in> set ?K" if "na \<in> set (sd_agents def)" for na
    using that by (simp add: map_keys_def)
  have a1: "adds d0 d1 (\<Union>na\<in>set (sd_agents def). waits_edges ?K na)"
    unfolding d1_def by (rule adds_foldl [where K = ?K]) (use e0 key add_waits_adds in auto)
  have a2: "adds d1 d2 (\<Union>na\<in>set (sd_agents def). reports_edges ?K na)"
    unfolding d2_def
    by (rule adds_foldl [where K = ?K]) (use e0 a1 key add_reports_adds in \<open>auto simp: adds_def\<close>)
  have d2: "wf_deps d2" "map_keys d2 = ?K" "deprel d2 = declared_edges def"
    using a1 a2 e0 by (auto simp: adds_def declared_edges_def)
  have b: "buildDependencyGraph def =
      (if (sd_mode def = Pipeline \<or> sd_mode def = Sequential) \<and> declared_edges def = {}
       then add_chain d2 (sd_agentOrder def) else d2)"
    using hasExplicitDeps_iff [OF d2(1)] d2(3)
    by (simp add: buildDependencyGraph_def Let_def d0_def d1_def d2_def)
  have "adds d2 (add_chain d2 (sd_agentOrder def)) (chain_edges (sd_agentOrder def))"
    by (rule add_chain_adds) (use d2 ord in auto)
  then show ?thesis using b d2 by (auto simp: adds_def)
qed

section \<open>Properties\<close>

text \<open>
  The graph of a parsed definition has exactly its agents as nodes, depends only on agents,
  and has exactly the declared edges (what an agent waits for, and reporters of an agent);
  only a pipeline or sequential swarm that declares none is chained in declaration order.
\<close>

theorem dependency_graph_exact:
  assumes "parseSwarmYaml raw = Inr def"
  shows "wf_deps (buildDependencyGraph def) \<and>
    map_keys (buildDependencyGraph def) = map_keys (sd_agents def) \<and>
    deprel (buildDependencyGraph def) =
      (if (sd_mode def = Pipeline \<or> sd_mode def = Sequential) \<and> declared_edges def = {}
       then chain_edges (sd_agentOrder def) else declared_edges def)"
  by (rule graph_spec [OF parse_ok [OF assms]])

definition sample_agent :: "yaml list \<Rightarrow> yaml" where
  "sample_agent waits = YObj [(js ''role'', YStr (js ''writer'')), (js ''task'', YStr (js ''write'')),
     (js ''waits_for'', YList waits)]"

definition sample_swarm :: raw_swarm where
  "sample_swarm = \<lparr>raw_name = YStr (js ''s''), raw_workspace = YStr (js ''w''), raw_mode = YUndefined,
     raw_target_count = None, raw_model = YUndefined,
     raw_agents = YObj [(js ''a'', sample_agent [YStr (js ''b'')]), (js ''b'', sample_agent [])]\<rparr>"

theorem dependency_graph_exact_witness:
  "let def = projr (parseSwarmYaml (Some sample_swarm)) in
   wf_deps (buildDependencyGraph def) \<and>
    map_keys (buildDependencyGraph def) = map_keys (sd_agents def) \<and>
    deprel (buildDependencyGraph def) =
      (if (sd_mode def = Pipeline \<or> sd_mode def = Sequential) \<and> declared_edges def = {}
       then chain_edges (sd_agentOrder def) else declared_edges def)"
proof -
  have "\<not> isl (parseSwarmYaml (Some sample_swarm))" by code_simp
  then have "parseSwarmYaml (Some sample_swarm) = Inr (projr (parseSwarmYaml (Some sample_swarm)))"
    by (simp add: sum.collapse(2))
  from dependency_graph_exact [OF this] show ?thesis unfolding Let_def .
qed

text \<open>
  C34: cycle detection is exact: it answers none exactly for graphs without a cycle, and
  otherwise with the nodes that lie on a cycle or depend, directly or not, on one.
\<close>

theorem cycle_detection_exact:
  assumes "wf_deps deps"
  shows "(detectCycles deps = None \<longleftrightarrow> acyclic (deprel deps)) \<and>
    (\<forall>ns. detectCycles deps = Some ns \<longrightarrow> ns \<noteq> [] \<and>
       set ns = {n \<in> set (map_keys deps).
         \<exists>c. (c, c) \<in> (deprel deps)\<^sup>+ \<and> (c, n) \<in> (deprel deps)\<^sup>*})"
  by (rule cycles_spec [OF assms])

definition two_cycle :: deps where
  "two_cycle = [(js ''a'', [js ''b'']), (js ''b'', [js ''a'']), (js ''c'', [js ''b'']), (js ''d'', [])]"

theorem cycle_detection_exact_witness:
  "detectCycles two_cycle = Some [js ''a'', js ''b'', js ''c''] \<and> \<not> acyclic (deprel two_cycle) \<and>
   {n \<in> set (map_keys two_cycle).
      \<exists>c. (c, c) \<in> (deprel two_cycle)\<^sup>+ \<and> (c, n) \<in> (deprel two_cycle)\<^sup>*} =
     {js ''a'', js ''b'', js ''c''}"
proof -
  have d: "detectCycles two_cycle = Some [js ''a'', js ''b'', js ''c'']" by code_simp
  have "wf_deps two_cycle" by code_simp
  from cycle_detection_exact [OF this] d show ?thesis by simp
qed

text \<open>
  C33: the waves are a schedule: when they exist, every node is in exactly one wave, and each
  wave is, sorted, all the nodes not yet run whose dependencies all ran in earlier waves; the
  deadlock error occurs exactly when the cycle detection reports nodes, and names those.
\<close>

theorem waves_are_a_schedule:
  assumes "wf_deps deps"
  shows "case buildExecutionWaves deps of
      Inr ws \<Rightarrow> detectCycles deps = None \<and> waves_ok deps ws \<and> distinct (concat ws) \<and>
        set (concat ws) = set (map_keys deps)
    | Inl e \<Rightarrow> (\<exists>ns. detectCycles deps = Some ns \<and> e = Deadlock ns)"
  by (rule waves_spec [OF assms])

definition diamond :: deps where
  "diamond = [(js ''d'', [js ''c'', js ''b'']), (js ''c'', [js ''a'']), (js ''b'', [js ''a'']), (js ''a'', [])]"

theorem waves_are_a_schedule_witness:
  "buildExecutionWaves diamond = Inr [[js ''a''], [js ''b'', js ''c''], [js ''d'']] \<and>
   (case buildExecutionWaves diamond of
      Inr ws \<Rightarrow> detectCycles diamond = None \<and> waves_ok diamond ws \<and> distinct (concat ws) \<and>
        set (concat ws) = set (map_keys diamond)
    | Inl e \<Rightarrow> (\<exists>ns. detectCycles diamond = Some ns \<and> e = Deadlock ns))"
proof
  show "buildExecutionWaves diamond = Inr [[js ''a''], [js ''b'', js ''c''], [js ''d'']]" by code_simp
qed (rule waves_are_a_schedule, code_simp)

end
