(* ===== verification/Swarm_Pipeline.thy ===== *)
theory Swarm_Pipeline
  imports Swarm_Dag
begin

text \<open>
  Running a swarm: the state tracker (\<open>swarm/state.ts\<close>), the execution of one agent
  (\<open>swarm/executor.ts\<close>) and the controller (\<open>swarm/pipeline.ts\<close>) of
  \<open>packages/swarm-extension/src\<close>.  The controller is a step relation: the agents of a wave
  run concurrently and their subprocesses, which belong to the environment, settle in any
  order with any outcome, and the abort signal may be raised at any moment.  Logs and the copy
  of the state on disk are not modelled, except that a write may fail and end the run; times are
  arguments of the steps.
\<close>

section \<open>The state tracker\<close>

datatype pipeline_status = Idle | Running_Pipeline | Completed_Pipeline | Failed_Pipeline | Aborted_Pipeline
datatype agent_status = Pending | Waiting | Running | Completed | Failed

record agent_state =
  as_name :: jstring
  as_status :: agent_status
  as_iteration :: nat
  as_wave :: nat
  as_startedAt :: "nat option"
  as_completedAt :: "nat option"
  as_error :: "jstring option"

record swarm_state =
  sw_name :: jstring
  sw_status :: pipeline_status
  sw_mode :: swarm_mode
  sw_iteration :: nat
  sw_targetCount :: target_count
  sw_agents :: "(jstring \<times> agent_state) list"
  sw_startedAt :: nat
  sw_completedAt :: "nat option"

definition tracker_new :: "jstring \<Rightarrow> nat \<Rightarrow> swarm_state" where
  "tracker_new name now =
     \<lparr>sw_name = name, sw_status = Idle, sw_mode = Sequential, sw_iteration = 0, sw_targetCount = count_of 1,
      sw_agents = [], sw_startedAt = now, sw_completedAt = None\<rparr>"

definition tracker_init :: "jstring list \<Rightarrow> target_count \<Rightarrow> swarm_mode \<Rightarrow> nat \<Rightarrow> swarm_state \<Rightarrow> swarm_state" where
  "tracker_init agentNames targetCount mode now st =
     st\<lparr>sw_targetCount := targetCount, sw_mode := mode, sw_status := Running_Pipeline,
        sw_startedAt := now,
        sw_agents := foldl (\<lambda>m name. map_set m name
          \<lparr>as_name = name, as_status = Pending, as_iteration = 0, as_wave = 0, as_startedAt = None,
           as_completedAt = None, as_error = None\<rparr>) (sw_agents st) agentNames\<rparr>"

text \<open>\<open>updateAgent\<close>: the partial update is a function on the agent's state.\<close>

definition updateAgent :: "jstring \<Rightarrow> (agent_state \<Rightarrow> agent_state) \<Rightarrow> swarm_state \<Rightarrow> swarm_state" where
  "updateAgent name update st =
     (case map_get (sw_agents st) name of
        None \<Rightarrow> st
      | Some agent \<Rightarrow> st\<lparr>sw_agents := map_set (sw_agents st) name (update agent)\<rparr>)"

section \<open>One agent\<close>

record agent_request =
  rq_cwd :: jstring
  rq_name :: jstring
  rq_description :: jstring
  rq_systemPrompt :: jstring
  rq_task :: jstring
  rq_index :: nat
  rq_id :: jstring
  rq_modelOverride :: "jstring option"

record single_result =
  sr_index :: nat
  sr_id :: jstring
  sr_agent :: jstring
  sr_task :: jstring
  sr_exitCode :: int
  sr_output :: jstring
  sr_stderr :: jstring
  sr_error :: "jstring option"

definition buildSystemPrompt :: "swarm_agent \<Rightarrow> jstring" where
  "buildSystemPrompt agent =
     join_with [LF, LF]
       ([js ''You are a '' @ ag_role agent @ js ''.''] @
        (case ag_extraContext agent of Some (c # cs) \<Rightarrow> [c # cs] | _ \<Rightarrow> []))"

definition agent_id :: "jstring \<Rightarrow> jstring \<Rightarrow> nat \<Rightarrow> jstring" where
  "agent_id swarmName name iteration =
     js ''swarm-'' @ swarmName @ js ''-'' @ name @ js ''-'' @ dec iteration"

text \<open>\<open>executeSwarmAgent\<close> up to the call of \<open>runSubprocess\<close>, and from its settling on.\<close>

definition agent_request_of :: "swarm_definition \<Rightarrow> jstring \<Rightarrow> nat \<Rightarrow> swarm_agent \<Rightarrow> nat \<Rightarrow> agent_request" where
  "agent_request_of def workspace iteration agent index =
     \<lparr>rq_cwd = workspace, rq_name = ag_name agent,
      rq_description = js ''Swarm agent: '' @ ag_role agent,
      rq_systemPrompt = buildSystemPrompt agent, rq_task = ag_task agent, rq_index = index,
      rq_id = agent_id (sd_name def) (ag_name agent) iteration,
      rq_modelOverride = (case ag_model agent of Some m \<Rightarrow> Some m | None \<Rightarrow> sd_model def)\<rparr>"

definition exec_begin :: "nat \<Rightarrow> nat \<Rightarrow> jstring \<Rightarrow> swarm_state \<Rightarrow> swarm_state" where
  "exec_begin iteration now name st =
     updateAgent name (\<lambda>a. a\<lparr>as_status := Running, as_iteration := iteration,
       as_startedAt := Some now\<rparr>) st"

definition exec_end :: "nat \<Rightarrow> jstring \<Rightarrow> jstring + single_result \<Rightarrow> swarm_state \<Rightarrow> swarm_state" where
  "exec_end now name outcome st =
     (case outcome of
        Inr result \<Rightarrow>
          updateAgent name (\<lambda>a. a\<lparr>as_status := (if sr_exitCode result = 0 then Completed else Failed),
            as_completedAt := Some now, as_error := sr_error result\<rparr>) st
      | Inl error \<Rightarrow>
          updateAgent name (\<lambda>a. a\<lparr>as_status := Failed, as_completedAt := Some now,
            as_error := Some error\<rparr>) st)"

text \<open>The callback of the wave catches the error and makes a failed result of it.\<close>

definition settled_result :: "jstring \<Rightarrow> nat \<Rightarrow> jstring \<Rightarrow> agent_request \<Rightarrow> jstring + single_result \<Rightarrow> single_result" where
  "settled_result swarmName iteration agentName rq outcome =
     (case outcome of
        Inr result \<Rightarrow> result
      | Inl error \<Rightarrow>
          \<lparr>sr_index = rq_index rq, sr_id = agent_id swarmName agentName iteration,
           sr_agent = agentName, sr_task = rq_task rq, sr_exitCode = 1, sr_output = [],
           sr_stderr = error, sr_error = Some error\<rparr>)"

section \<open>The controller\<close>

record pipeline_result =
  pl_status :: pipeline_status
  pl_iterations :: target_count
  pl_agentResults :: "(jstring \<times> single_result list) list"
  pl_errors :: "jstring list"

record pipeline_progress =
  pg_iteration :: nat
  pg_targetCount :: target_count
  pg_currentWave :: nat
  pg_totalWaves :: nat
  pg_agents :: "(jstring \<times> agent_status \<times> nat) list"

datatype phase = AtIteration | AtWave | InWave | Returned pipeline_result

record controller =
  ct_phase :: phase
  ct_iteration :: nat
  ct_wave :: nat
  ct_agentIndex :: nat
  ct_running :: "(jstring \<times> agent_request) list"
  ct_settled :: "(jstring \<times> single_result) list"
  ct_results :: "(jstring \<times> single_result) list"
  ct_allResults :: "(jstring \<times> single_result list) list"
  ct_errors :: "jstring list"
  ct_progress :: "pipeline_progress list"
  ct_aborted :: bool
  ct_tracker :: swarm_state

definition run_start :: "swarm_definition \<Rightarrow> swarm_state \<Rightarrow> controller" where
  "run_start def tracker =
     \<lparr>ct_phase = AtIteration, ct_iteration = 0, ct_wave = 0, ct_agentIndex = 0, ct_running = [],
      ct_settled = [], ct_results = [],
      ct_allResults = foldl (\<lambda>m name. map_set m name []) [] (map_keys (sd_agents def)),
      ct_errors = [], ct_progress = [], ct_aborted = False, ct_tracker = tracker\<rparr>"

definition buildProgressSnapshot :: "swarm_state \<Rightarrow> (jstring \<times> agent_status \<times> nat) list" where
  "buildProgressSnapshot st = map (\<lambda>(name, a). (name, as_status a, as_iteration a)) (sw_agents st)"

definition emitProgress :: "swarm_definition \<Rightarrow> jstring list list \<Rightarrow> controller \<Rightarrow> controller" where
  "emitProgress def waves c =
     c\<lparr>ct_progress := ct_progress c @
        [\<lparr>pg_iteration = ct_iteration c, pg_targetCount = sd_targetCount def,
          pg_currentWave = ct_wave c, pg_totalWaves = length waves,
          pg_agents = buildProgressSnapshot (ct_tracker c)\<rparr>]\<rparr>"

definition begin_iteration :: "controller \<Rightarrow> controller" where
  "begin_iteration c =
     c\<lparr>ct_phase := AtWave, ct_wave := 0, ct_agentIndex := 0, ct_results := [],
        ct_tracker := (ct_tracker c)\<lparr>sw_iteration := ct_iteration c\<rparr>\<rparr>"

definition return_aborted :: "controller \<Rightarrow> controller" where
  "return_aborted c =
     c\<lparr>ct_tracker := (ct_tracker c)\<lparr>sw_status := Aborted_Pipeline\<rparr>,
        ct_phase := Returned \<lparr>pl_status = Aborted_Pipeline, pl_iterations = count_of (ct_iteration c),
          pl_agentResults = ct_allResults c, pl_errors = ct_errors c\<rparr>\<rparr>"

definition return_finished :: "swarm_definition \<Rightarrow> nat \<Rightarrow> controller \<Rightarrow> controller" where
  "return_finished def now c =
     (let status = (if length (ct_errors c) > 0 then Failed_Pipeline else Completed_Pipeline)
      in c\<lparr>ct_tracker := (ct_tracker c)\<lparr>sw_status := status, sw_completedAt := Some now\<rparr>,
            ct_phase := Returned \<lparr>pl_status = status, pl_iterations = sd_targetCount def,
              pl_agentResults = ct_allResults c, pl_errors = ct_errors c\<rparr>\<rparr>)"

text \<open>
  The start of a wave: its agents are marked as waiting, then the callbacks of \<open>map\<close> run up to
  their first \<open>await\<close>, in order: each takes an index, marks its agent as running, and starts
  its subprocess.
\<close>

definition wave_requests ::
  "swarm_definition \<Rightarrow> jstring \<Rightarrow> nat \<Rightarrow> nat \<Rightarrow> jstring list \<Rightarrow> (jstring \<times> agent_request) list" where
  "wave_requests def workspace iteration agentIndex wave =
     map (\<lambda>(i, name). (name, agent_request_of def workspace iteration
         (the (map_get (sd_agents def) name)) (agentIndex + i)))
       (zip [0..<length wave] wave)"

definition begin_wave ::
  "swarm_definition \<Rightarrow> jstring list list \<Rightarrow> jstring \<Rightarrow> nat \<Rightarrow> controller \<Rightarrow> controller" where
  "begin_wave def waves workspace now c =
     (let wave = waves ! ct_wave c;
          waiting = foldl (\<lambda>st name. updateAgent name (\<lambda>a. a\<lparr>as_status := Waiting,
              as_iteration := ct_iteration c, as_wave := ct_wave c\<rparr>) st) (ct_tracker c) wave;
          c1 = emitProgress def waves (c\<lparr>ct_tracker := waiting\<rparr>)
      in c1\<lparr>ct_phase := InWave, ct_settled := [],
           ct_running := wave_requests def workspace (ct_iteration c) (ct_agentIndex c) wave,
           ct_agentIndex := ct_agentIndex c + length wave,
           ct_tracker := foldl (\<lambda>st name. exec_begin (ct_iteration c) now name st) waiting wave\<rparr>)"

text \<open>
  The subprocess of one running agent settles.  A write of the tracker that fails before the
  subprocess starts (\<open>executor.ts\<close> 70--75, outside its \<open>try\<close>) is not a case of its own: the
  result of the agent is that of a subprocess that throws, but the source leaves its status
  at running where the model has failed.
\<close>

definition settle_agent ::
  "swarm_definition \<Rightarrow> nat \<Rightarrow> jstring \<Rightarrow> agent_request \<Rightarrow> jstring + single_result \<Rightarrow>
   controller \<Rightarrow> controller" where
  "settle_agent def now name rq outcome c =
     c\<lparr>ct_running := filter (\<lambda>e. fst e \<noteq> name) (ct_running c),
        ct_settled := ct_settled c @
          [(name, settled_result (sd_name def) (ct_iteration c) name rq outcome)],
        ct_tracker := exec_end now name outcome (ct_tracker c)\<rparr>"

text \<open>\<open>Promise.all\<close> gives the results in the order of the wave.\<close>

definition wave_results :: "jstring list \<Rightarrow> (jstring \<times> single_result) list \<Rightarrow> (jstring \<times> single_result) list" where
  "wave_results wave results = map (\<lambda>name. (name, the (map_of results name))) wave"

definition end_wave :: "swarm_definition \<Rightarrow> jstring list list \<Rightarrow> controller \<Rightarrow> controller" where
  "end_wave def waves c =
     (let c1 = c\<lparr>ct_results := foldl (\<lambda>m (name, result). map_set m name result) (ct_results c)
            (wave_results (waves ! ct_wave c) (ct_settled c))\<rparr>
      in (emitProgress def waves c1)\<lparr>ct_phase := AtWave, ct_wave := Suc (ct_wave c)\<rparr>)"

definition show_int :: "int \<Rightarrow> jstring" where
  "show_int i = (if i < 0 then js ''-'' @ dec (nat (- i)) else dec (nat i))"

definition result_error :: "nat \<Rightarrow> jstring \<Rightarrow> single_result \<Rightarrow> jstring list" where
  "result_error iteration agentName result =
     (if sr_exitCode result \<noteq> 0 then
        [agentName @ js '' (iteration '' @ dec (iteration + 1) @ js ''): '' @
         (case sr_error result of Some (c # cs) \<Rightarrow> c # cs
          | _ \<Rightarrow> js ''exit code '' @ show_int (sr_exitCode result))]
      else [])"

definition end_iteration :: "controller \<Rightarrow> controller" where
  "end_iteration c =
     c\<lparr>ct_phase := AtIteration, ct_iteration := Suc (ct_iteration c),
        ct_allResults := foldl (\<lambda>m (name, result). map_set m name (the (map_get m name) @ [result]))
          (ct_allResults c) (ct_results c),
        ct_errors := ct_errors c @
          concat (map (\<lambda>(name, result). result_error (ct_iteration c) name result) (ct_results c))\<rparr>"

text \<open>
  The \<open>catch\<close> of \<open>run\<close>: a write of the tracker or the progress callback has thrown outside the
  agents, possibly after the first \<open>marked\<close> agents of the next wave were marked as waiting.
\<close>

definition return_fatal ::
  "jstring list list \<Rightarrow> nat \<Rightarrow> nat \<Rightarrow> jstring \<Rightarrow> controller \<Rightarrow> controller" where
  "return_fatal waves marked now error c =
     (let errors = ct_errors c @ [error];
          tracker = foldl (\<lambda>st name. updateAgent name (\<lambda>a. a\<lparr>as_status := Waiting,
              as_iteration := ct_iteration c, as_wave := ct_wave c\<rparr>) st) (ct_tracker c)
            (if marked = 0 then [] else take marked (waves ! ct_wave c))
      in c\<lparr>ct_errors := errors,
           ct_tracker := tracker\<lparr>sw_status := Failed_Pipeline, sw_completedAt := Some now\<rparr>,
           ct_phase := Returned \<lparr>pl_status = Failed_Pipeline, pl_iterations = count_of 0,
             pl_agentResults = ct_allResults c, pl_errors = errors\<rparr>\<rparr>)"

section \<open>The steps\<close>

text \<open>\<open>iteration < targetCount\<close>\<close>

definition another :: "swarm_definition \<Rightarrow> nat \<Rightarrow> bool" where
  "another def iteration = num_less (Finite (of_nat iteration)) (target_number (sd_targetCount def))"

inductive step :: "swarm_definition \<Rightarrow> jstring list list \<Rightarrow> jstring \<Rightarrow> controller \<Rightarrow> controller \<Rightarrow> bool"
  for def waves workspace where
  Abort: "\<not> ct_aborted c \<Longrightarrow> step def waves workspace c (c\<lparr>ct_aborted := True\<rparr>)"
| Begin_Iteration: "ct_phase c = AtIteration \<Longrightarrow> another def (ct_iteration c) \<Longrightarrow>
    \<not> ct_aborted c \<Longrightarrow> step def waves workspace c (begin_iteration c)"
| Return_Aborted: "ct_phase c = AtIteration \<Longrightarrow> another def (ct_iteration c) \<Longrightarrow>
    ct_aborted c \<Longrightarrow> step def waves workspace c (return_aborted c)"
| Return_Finished: "ct_phase c = AtIteration \<Longrightarrow> \<not> another def (ct_iteration c) \<Longrightarrow>
    step def waves workspace c (return_finished def now c)"
| Begin_Wave: "ct_phase c = AtWave \<Longrightarrow> ct_wave c < length waves \<Longrightarrow> \<not> ct_aborted c \<Longrightarrow>
    step def waves workspace c (begin_wave def waves workspace now c)"
| Settle: "ct_phase c = InWave \<Longrightarrow> (name, rq) \<in> set (ct_running c) \<Longrightarrow>
    step def waves workspace c (settle_agent def now name rq outcome c)"
| End_Wave: "ct_phase c = InWave \<Longrightarrow> ct_running c = [] \<Longrightarrow>
    step def waves workspace c (end_wave def waves c)"
| End_Iteration: "ct_phase c = AtWave \<Longrightarrow> \<not> ct_wave c < length waves \<or> ct_aborted c \<Longrightarrow>
    step def waves workspace c (end_iteration c)"
| Fatal: "ct_phase c = AtIteration \<and> marked = 0 \<or>
      ct_phase c = AtWave \<and> (marked = 0 \<or> ct_wave c < length waves \<and> \<not> ct_aborted c) \<Longrightarrow>
    step def waves workspace c (return_fatal waves marked now error c)"

inductive reachable :: "swarm_definition \<Rightarrow> jstring list list \<Rightarrow> jstring \<Rightarrow> swarm_state \<Rightarrow> controller \<Rightarrow> bool"
  for def waves workspace tracker where
  Start: "reachable def waves workspace tracker (run_start def tracker)"
| Step: "reachable def waves workspace tracker c \<Longrightarrow> step def waves workspace c c' \<Longrightarrow>
    reachable def waves workspace tracker c'"

lemmas controller_steps = begin_iteration_def return_aborted_def return_finished_def
  settle_agent_def end_iteration_def end_wave_def begin_wave_def emitProgress_def Let_def

section \<open>The tracker\<close>

lemma keys_updateAgent [simp]: "map_keys (sw_agents (updateAgent n f st)) = map_keys (sw_agents st)"
proof (cases "map_get (sw_agents st) n")
  case (Some a)
  then have "n \<in> set (map_keys (sw_agents st))"
    by (force simp: map_get_def map_keys_def dest: map_of_SomeD)
  then show ?thesis using Some by (simp add: updateAgent_def keys_map_set_mem)
qed (simp add: updateAgent_def)

definition agent_of :: "swarm_state \<Rightarrow> jstring \<Rightarrow> agent_state option" where
  "agent_of st n = map_get (sw_agents st) n"

lemma agent_of_update:
  "agent_of (updateAgent n f st) k = (if k = n then map_option f (agent_of st n) else agent_of st k)"
  by (auto simp: agent_of_def updateAgent_def map_get_set split: option.splits)

lemma agent_of_updates:
  assumes "distinct ns"
  shows "agent_of (foldl (\<lambda>st n. updateAgent n f st) st ns) k =
    (if k \<in> set ns then map_option f (agent_of st k) else agent_of st k)"
  using assms by (induction ns arbitrary: st) (auto simp: agent_of_update)

lemma keys_updates [simp]:
  "map_keys (sw_agents (foldl (\<lambda>st n. updateAgent n f st) st ns)) = map_keys (sw_agents st)"
  by (induction ns arbitrary: st) simp_all

lemma exec_end_eq:
  "exec_end now n outcome st = updateAgent n (\<lambda>a. a\<lparr>
     as_status := (case outcome of Inr r \<Rightarrow> if sr_exitCode r = 0 then Completed else Failed | Inl _ \<Rightarrow> Failed),
     as_completedAt := Some now,
     as_error := (case outcome of Inr r \<Rightarrow> sr_error r | Inl e \<Rightarrow> Some e)\<rparr>) st"
  by (cases outcome) (simp_all add: exec_end_def)

section \<open>The invariant\<close>

text \<open>The definition and the waves fit each other.\<close>

definition waves_fit :: "swarm_definition \<Rightarrow> jstring list list \<Rightarrow> bool" where
  "waves_fit def waves \<longleftrightarrow> distinct (concat waves) \<and> distinct (map_keys (sd_agents def)) \<and>
     set (concat waves) = set (map_keys (sd_agents def))"

definition active :: "controller \<Rightarrow> bool" where
  "active c \<longleftrightarrow> ct_phase c = AtWave \<or> ct_phase c = InWave"

definition results_of :: "controller \<Rightarrow> jstring \<Rightarrow> single_result list" where
  "results_of c n = (case map_get (ct_allResults c) n of Some rs \<Rightarrow> rs | None \<Rightarrow> [])"

definition ctrl_inv :: "swarm_definition \<Rightarrow> jstring list list \<Rightarrow> controller \<Rightarrow> bool" where
  "ctrl_inv def waves c \<longleftrightarrow>
     map_keys (ct_allResults c) = map_keys (sd_agents def) \<and>
     map_keys (sd_agents def) = map_keys (sw_agents (ct_tracker c)) \<and>
     (active c \<longrightarrow> ct_wave c \<le> length waves \<and> another def (ct_iteration c) \<and>
        distinct (map_keys (ct_results c)) \<and>
        set (map_keys (ct_results c)) = set (concat (take (ct_wave c) waves))) \<and>
     (ct_phase c = InWave \<longrightarrow> ct_wave c < length waves \<and>
        distinct (map fst (ct_running c) @ map fst (ct_settled c)) \<and>
        set (map fst (ct_running c) @ map fst (ct_settled c)) = set (waves ! ct_wave c) \<and>
        (\<forall>n\<in>set (map fst (ct_running c)). \<exists>a. agent_of (ct_tracker c) n = Some a \<and>
           as_status a = Running \<and> as_iteration a = ct_iteration c \<and> as_wave a = ct_wave c) \<and>
        (\<forall>(n, r)\<in>set (ct_settled c). \<exists>a. agent_of (ct_tracker c) n = Some a \<and>
           as_status a = (if sr_exitCode r = 0 then Completed else Failed)))"

lemma wave_in_concat: "i < length waves \<Longrightarrow> set (waves ! i) \<subseteq> set (concat waves)"
  by (metis UN_upper nth_mem set_concat)

lemma waves_disjoint:
  assumes "distinct (concat waves)" "i < length waves"
  shows "distinct (waves ! i)" "set (waves ! i) \<inter> set (concat (take i waves)) = {}"
proof -
  have "waves = take i waves @ waves ! i # drop (Suc i) waves" using assms(2) by (rule id_take_nth_drop)
  then have "concat waves = concat (take i waves) @ waves ! i @ concat (drop (Suc i) waves)"
    by (metis concat.simps(2) concat_append)
  then show "distinct (waves ! i)" "set (waves ! i) \<inter> set (concat (take i waves)) = {}"
    using assms(1) by auto
qed

section \<open>The steps keep the invariant\<close>

lemma foldl_map_set_keys:
  "\<forall>(n, x)\<in>set xs. n \<in> set (map_keys m) \<Longrightarrow> map_keys (foldl (\<lambda>m (n, x). map_set m n (f m n x)) m xs) = map_keys m"
  by (induction xs arbitrary: m) (auto simp: keys_map_set_mem)

lemma foldl_map_set_results:
  assumes "distinct (map_keys m)"
  shows "set (map_keys (foldl (\<lambda>m (n, x). map_set m n x) m xs)) = set (map_keys m) \<union> fst ` set xs \<and>
    distinct (map_keys (foldl (\<lambda>m (n, x). map_set m n x) m xs))"
  using assms
proof (induction xs arbitrary: m)
  case (Cons e xs)
  obtain n x where e: "e = (n, x)" by (cases e)
  show ?case using Cons.IH [of "map_set m n x"] Cons.prems
    by (auto simp: e keys_map_set_set distinct_map_set)
qed simp

lemma inv_start:
  assumes "waves_fit def waves" "map_keys (sw_agents tracker) = map_keys (sd_agents def)"
  shows "ctrl_inv def waves (run_start def tracker)"
proof -
  have "map_keys (foldl (\<lambda>m name. map_set m name []) ([] :: (jstring \<times> single_result list) list) K) = K"
    if "distinct K" for K :: "jstring list"
  proof -
    have "map_keys (foldl (\<lambda>m name. map_set m name []) m K) = map_keys m @ K"
      if "distinct (map_keys m @ K)" for m :: "(jstring \<times> single_result list) list"
      using that
    proof (induction K arbitrary: m)
      case (Cons n K)
      have "map_keys (map_set m n []) = map_keys m @ [n]"
        by (subst keys_map_set_new) (use Cons.prems in \<open>auto simp: map_keys_def\<close>)
      then show ?case using Cons.IH [of "map_set m n []"] Cons.prems by simp
    qed simp
    from this [of "[]"] show ?thesis using that by (simp add: map_keys_def)
  qed
  then show ?thesis using assms by (simp add: ctrl_inv_def run_start_def active_def waves_fit_def)
qed

lemma inv_begin_wave:
  assumes inv: "ctrl_inv def waves c" and fit: "waves_fit def waves"
    and ph: "ct_phase c = AtWave" "ct_wave c < length waves"
  shows "ctrl_inv def waves (begin_wave def waves workspace now c)"
proof -
  let ?w = "waves ! ct_wave c"
  have dw: "distinct ?w" using waves_disjoint [OF _ ph(2)] fit by (simp add: waves_fit_def)
  have run: "map fst (wave_requests def workspace i k ?w) = ?w" for i k
    by (auto simp: wave_requests_def intro!: nth_equalityI)
  have runs: "fst ` set (wave_requests def workspace i k ?w) = set ?w" for i k
    using run [of i k] by (metis set_map)
  have sub: "set ?w \<subseteq> set (map_keys (sw_agents (ct_tracker c)))"
    using wave_in_concat [OF ph(2)] fit inv by (simp add: waves_fit_def ctrl_inv_def)
  have tr: "\<exists>a. agent_of (ct_tracker (begin_wave def waves workspace now c)) n = Some a \<and>
      as_status a = Running \<and> as_iteration a = ct_iteration c \<and> as_wave a = ct_wave c"
    if mem: "n \<in> set ?w" for n
  proof -
    obtain a where "agent_of (ct_tracker c) n = Some a"
      using mem sub by (cases "agent_of (ct_tracker c) n")
        (auto simp: agent_of_def map_get_def map_keys_def map_of_eq_None_iff)
    then show ?thesis
      using mem by (simp add: begin_wave_def emitProgress_def Let_def exec_begin_def agent_of_updates [OF dw])
  qed
  let ?c = "begin_wave def waves workspace now c"
  have "ct_phase ?c = InWave" "ct_wave ?c = ct_wave c" "ct_iteration ?c = ct_iteration c"
    "ct_results ?c = ct_results c" "ct_allResults ?c = ct_allResults c" "ct_settled ?c = []"
    "map_keys (sw_agents (ct_tracker ?c)) = map_keys (sw_agents (ct_tracker c))"
    "map fst (ct_running ?c) = ?w"
    by (simp_all add: begin_wave_def emitProgress_def Let_def exec_begin_def run)
  then show ?thesis using inv ph tr dw unfolding ctrl_inv_def active_def by simp
qed

lemma inv_settle:
  assumes inv: "ctrl_inv def waves c" and ph: "ct_phase c = InWave" "(name, rq) \<in> set (ct_running c)"
  shows "ctrl_inv def waves (settle_agent def now name rq outcome c)"
proof -
  let ?c = "settle_agent def now name rq outcome c"
  let ?r = "settled_result (sd_name def) (ct_iteration c) name rq outcome"
  have old: "distinct (map fst (ct_running c) @ map fst (ct_settled c))"
    "set (map fst (ct_running c) @ map fst (ct_settled c)) = set (waves ! ct_wave c)"
    "\<forall>n\<in>set (map fst (ct_running c)). \<exists>a. agent_of (ct_tracker c) n = Some a \<and>
       as_status a = Running \<and> as_iteration a = ct_iteration c \<and> as_wave a = ct_wave c"
    "\<forall>(n, r)\<in>set (ct_settled c). \<exists>a. agent_of (ct_tracker c) n = Some a \<and>
       as_status a = (if sr_exitCode r = 0 then Completed else Failed)"
    using inv ph(1) by (simp_all add: ctrl_inv_def)
  have mem: "name \<in> set (map fst (ct_running c))" using ph(2) by force
  have fresh: "name \<notin> set (map fst (ct_settled c))" using old(1) mem by auto
  have run: "map fst (ct_running ?c) = filter (\<lambda>n. n \<noteq> name) (map fst (ct_running c))"
    by (simp add: settle_agent_def filter_map comp_def)
  have set: "ct_settled ?c = ct_settled c @ [(name, ?r)]" by (simp add: settle_agent_def)
  have tr: "agent_of (ct_tracker ?c) n = (if n = name then map_option (\<lambda>a. a\<lparr>
     as_status := (case outcome of Inr r \<Rightarrow> if sr_exitCode r = 0 then Completed else Failed | Inl _ \<Rightarrow> Failed),
     as_completedAt := Some now,
     as_error := (case outcome of Inr r \<Rightarrow> sr_error r | Inl e \<Rightarrow> Some e)\<rparr>) (agent_of (ct_tracker c) name)
     else agent_of (ct_tracker c) n)" for n
    by (simp add: settle_agent_def exec_end_eq agent_of_update)
  have st: "(case outcome of Inr r \<Rightarrow> if sr_exitCode r = 0 then Completed else Failed | Inl _ \<Rightarrow> Failed) =
      (if sr_exitCode ?r = 0 then Completed else Failed)"
    by (cases outcome) (simp_all add: settled_result_def)
  obtain a where a: "agent_of (ct_tracker c) name = Some a" using old(3) mem by blast
  have "\<forall>n\<in>set (map fst (ct_running ?c)). \<exists>a. agent_of (ct_tracker ?c) n = Some a \<and>
       as_status a = Running \<and> as_iteration a = ct_iteration c \<and> as_wave a = ct_wave c"
    unfolding run tr using old(3) by auto
  moreover have "\<forall>(n, r)\<in>set (ct_settled ?c). \<exists>a. agent_of (ct_tracker ?c) n = Some a \<and>
       as_status a = (if sr_exitCode r = 0 then Completed else Failed)"
    unfolding set tr st using old(4) fresh a by force
  moreover have "distinct (map fst (ct_running ?c) @ map fst (ct_settled ?c))"
    "set (map fst (ct_running ?c) @ map fst (ct_settled ?c)) = set (waves ! ct_wave c)"
    unfolding run set using old(1,2) mem fresh by auto
  moreover have "ct_phase ?c = InWave" "ct_wave ?c = ct_wave c" "ct_iteration ?c = ct_iteration c"
    "ct_results ?c = ct_results c" "ct_allResults ?c = ct_allResults c"
    "map_keys (sw_agents (ct_tracker ?c)) = map_keys (sw_agents (ct_tracker c))"
    using ph(1) by (simp_all add: settle_agent_def exec_end_eq)
  ultimately show ?thesis using inv ph(1) unfolding ctrl_inv_def active_def by simp
qed

lemma inv_end_wave:
  assumes inv: "ctrl_inv def waves c" and ph: "ct_phase c = InWave"
  shows "ctrl_inv def waves (end_wave def waves c)"
proof -
  let ?w = "waves ! ct_wave c" and ?rs = "wave_results (waves ! ct_wave c) (ct_settled c)"
  have k: "fst ` set ?rs = set ?w" by (force simp: wave_results_def)
  have w: "ct_wave c < length waves" using inv ph by (simp add: ctrl_inv_def)
  have d: "distinct (map_keys (ct_results c))" using inv ph by (simp add: ctrl_inv_def active_def)
  have "set (concat (take (Suc (ct_wave c)) waves)) = set (concat (take (ct_wave c) waves)) \<union> set ?w"
    using w by (simp add: take_Suc_conv_app_nth)
  then show ?thesis
    using inv ph w k foldl_map_set_results [OF d, of ?rs]
    by (simp add: ctrl_inv_def active_def end_wave_def emitProgress_def Let_def)
qed

lemma inv_end_iteration:
  assumes inv: "ctrl_inv def waves c" and fit: "waves_fit def waves" and ph: "ct_phase c = AtWave"
  shows "ctrl_inv def waves (end_iteration c)"
proof -
  have "set (concat (take (ct_wave c) waves)) \<subseteq> set (concat waves)" by (auto dest: in_set_takeD)
  then have sub: "set (map_keys (ct_results c)) \<subseteq> set (map_keys (ct_allResults c))"
    using inv fit ph by (auto simp: ctrl_inv_def active_def waves_fit_def)
  have "map_keys (foldl (\<lambda>m (name, result). map_set m name (the (map_get m name) @ [result]))
          (ct_allResults c) (ct_results c)) = map_keys (ct_allResults c)"
    by (rule foldl_map_set_keys) (use sub in \<open>force simp: map_keys_def\<close>)
  then show ?thesis using inv ph by (simp add: ctrl_inv_def active_def end_iteration_def)
qed

lemma inv_step:
  assumes "step def waves workspace c c'" "ctrl_inv def waves c" "waves_fit def waves"
  shows "ctrl_inv def waves c'"
  using assms(1)
proof (cases rule: step.cases)
  case Abort
  then show ?thesis using assms(2) by (simp add: ctrl_inv_def active_def)
next
  case Begin_Iteration
  then show ?thesis using assms(2) by (simp add: ctrl_inv_def active_def begin_iteration_def map_keys_def)
next
  case Return_Aborted
  then show ?thesis using assms(2) by (simp add: ctrl_inv_def active_def return_aborted_def)
next
  case Return_Finished
  then show ?thesis using assms(2) by (simp add: ctrl_inv_def active_def return_finished_def Let_def)
next
  case Begin_Wave
  then show ?thesis using inv_begin_wave assms(2,3) by simp
next
  case Settle
  then show ?thesis using inv_settle assms(2) by simp
next
  case End_Wave
  then show ?thesis using inv_end_wave assms(2) by simp
next
  case End_Iteration
  then show ?thesis using inv_end_iteration assms(2,3) by simp
next
  case Fatal
  then show ?thesis using assms(2) by (simp add: ctrl_inv_def active_def return_fatal_def Let_def)
qed

lemma reachable_inv:
  assumes "reachable def waves workspace tracker c" "waves_fit def waves"
    and "map_keys (sw_agents tracker) = map_keys (sd_agents def)"
  shows "ctrl_inv def waves c"
  using assms(1)
proof (induction rule: reachable.induct)
  case Start
  then show ?case using inv_start assms(2,3) by blast
next
  case (Step c c')
  then show ?case using inv_step assms(2) by blast
qed

section \<open>What the results say\<close>

lemma push_results:
  assumes "distinct (map fst xs)" "fst ` set xs \<subseteq> set (map_keys m)"
  shows "map_get (foldl (\<lambda>m (n, r). map_set m n (the (map_get m n) @ [r])) m xs) k =
    (case map_of xs k of Some r \<Rightarrow> Some (the (map_get m k) @ [r]) | None \<Rightarrow> map_get m k)"
  using assms
proof (induction xs arbitrary: m)
  case (Cons e xs)
  obtain n r where e: "e = (n, r)" by (cases e)
  let ?m = "map_set m n (the (map_get m n) @ [r])"
  have "n \<in> set (map_keys m)" using Cons.prems(2) e by simp
  then have "map_keys ?m = map_keys m" by (rule keys_map_set_mem)
  moreover have "map_of xs n = None" using Cons.prems(1) e by (simp add: map_of_eq_None_iff)
  ultimately show ?case using Cons.IH [of ?m] Cons.prems e
    by (auto simp: map_get_set split: option.splits)
qed simp

definition agents_of :: "swarm_definition \<Rightarrow> jstring set" where
  "agents_of def = set (map_keys (sd_agents def))"

definition exits_zero :: "swarm_definition \<Rightarrow> controller \<Rightarrow> bool" where
  "exits_zero def c \<longleftrightarrow> (\<forall>n\<in>agents_of def. \<forall>r\<in>set (results_of c n). sr_exitCode r = 0)"

text \<open>\<open>n\<close> is the number of iterations that the loop over \<open>targetCount\<close> makes.\<close>

definition all_rounds :: "swarm_definition \<Rightarrow> nat \<Rightarrow> bool" where
  "all_rounds def n \<longleftrightarrow> (\<forall>i<n. another def i) \<and> \<not> another def n"

definition outcome_ok :: "swarm_definition \<Rightarrow> controller \<Rightarrow> pipeline_result \<Rightarrow> bool" where
  "outcome_ok def c r \<longleftrightarrow>
     pl_agentResults r = ct_allResults c \<and> pl_errors r = ct_errors c \<and>
     (case pl_status r of
        Completed_Pipeline \<Rightarrow> pl_errors r = [] \<and> exits_zero def c \<and>
          pl_iterations r = sd_targetCount def \<and> all_rounds def (ct_iteration c)
      | Failed_Pipeline \<Rightarrow> pl_errors r \<noteq> [] \<and> (pl_iterations r = count_of 0 \<or>
          \<not> exits_zero def c \<and> pl_iterations r = sd_targetCount def \<and>
          all_rounds def (ct_iteration c))
      | Aborted_Pipeline \<Rightarrow> ct_aborted c \<and> pl_iterations r = count_of (ct_iteration c) \<and> another def (ct_iteration c)
      | _ \<Rightarrow> False)"

definition result_inv :: "swarm_definition \<Rightarrow> controller \<Rightarrow> bool" where
  "result_inv def c \<longleftrightarrow>
     (\<forall>n\<in>agents_of def. length (results_of c n) \<le> ct_iteration c \<and>
        (\<not> ct_aborted c \<longrightarrow> length (results_of c n) = ct_iteration c)) \<and>
     (case ct_phase c of
        Returned r \<Rightarrow> outcome_ok def c r
      | _ \<Rightarrow> (ct_errors c = [] \<longleftrightarrow> exits_zero def c) \<and>
          (\<forall>i<ct_iteration c. another def i))"

lemma result_error_nil [simp]: "result_error i n r = [] \<longleftrightarrow> sr_exitCode r = 0"
  by (simp add: result_error_def)

lemma results_after_iteration:
  assumes inv: "ctrl_inv def waves c" and fit: "waves_fit def waves" and ph: "ct_phase c = AtWave"
    and n: "n \<in> agents_of def"
  shows "results_of (end_iteration c) n =
    results_of c n @ (case map_get (ct_results c) n of Some r \<Rightarrow> [r] | None \<Rightarrow> [])"
proof -
  have "set (concat (take (ct_wave c) waves)) \<subseteq> set (concat waves)" by (auto dest: in_set_takeD)
  then have sub: "set (map_keys (ct_results c)) \<subseteq> set (map_keys (ct_allResults c))"
    and d: "distinct (map_keys (ct_results c))"
    using inv fit ph by (auto simp: ctrl_inv_def active_def waves_fit_def)
  have "n \<in> set (map_keys (ct_allResults c))" using inv n by (simp add: ctrl_inv_def agents_of_def)
  then obtain rs where rs: "map_get (ct_allResults c) n = Some rs"
    by (cases "map_get (ct_allResults c) n") (auto simp: map_get_def map_keys_def map_of_eq_None_iff)
  show ?thesis
    using push_results [of "ct_results c" "ct_allResults c" n] sub d rs
    by (simp add: results_of_def end_iteration_def map_get_def map_keys_def split: option.splits)
qed

lemma inv2_end_iteration:
  assumes inv: "ctrl_inv def waves c" and fit: "waves_fit def waves" and ph: "ct_phase c = AtWave"
    and r: "result_inv def c" and last: "\<not> ct_wave c < length waves \<or> ct_aborted c"
  shows "result_inv def (end_iteration c)"
proof -
  let ?c = "end_iteration c"
  note res = results_after_iteration [OF inv fit ph]
  have keys: "distinct (map_keys (ct_results c))" "set (map_keys (ct_results c)) \<subseteq> agents_of def"
    and w: "ct_wave c \<le> length waves" and it: "another def (ct_iteration c)"
    using inv fit ph in_set_takeD
    by (auto simp: ctrl_inv_def active_def waves_fit_def agents_of_def dest!: in_set_takeD)
  have full: "agents_of def = set (map_keys (ct_results c))" if "\<not> ct_aborted c"
  proof -
    have "take (ct_wave c) waves = waves" using that last w by simp
    then show ?thesis using inv fit ph by (simp add: ctrl_inv_def active_def waves_fit_def agents_of_def)
  qed
  have get: "map_get (ct_results c) n \<noteq> None \<longleftrightarrow> n \<in> set (map_keys (ct_results c))" for n
    by (simp add: map_get_def map_keys_def map_of_eq_None_iff)
  have len: "\<forall>n\<in>agents_of def. length (results_of ?c n) \<le> ct_iteration ?c \<and>
        (\<not> ct_aborted ?c \<longrightarrow> length (results_of ?c n) = ct_iteration ?c)"
  proof
    fix n assume n: "n \<in> agents_of def"
    have "length (results_of c n) \<le> ct_iteration c \<and> (\<not> ct_aborted c \<longrightarrow> length (results_of c n) = ct_iteration c)"
      using r n by (simp add: result_inv_def)
    moreover have "map_get (ct_results c) n \<noteq> None" if "\<not> ct_aborted c" using full [OF that] get n by blast
    ultimately show "length (results_of ?c n) \<le> ct_iteration ?c \<and>
        (\<not> ct_aborted ?c \<longrightarrow> length (results_of ?c n) = ct_iteration ?c)"
      using res [OF n] by (auto simp: end_iteration_def split: option.splits)
  qed
  have new: "(\<forall>(n, x)\<in>set (ct_results c). sr_exitCode x = 0) \<longleftrightarrow>
      (\<forall>n\<in>agents_of def. \<forall>x. map_get (ct_results c) n = Some x \<longrightarrow> sr_exitCode x = 0)"
    using keys by (force simp: map_get_def map_keys_def dest: map_of_SomeD)
  have "exits_zero def ?c \<longleftrightarrow> exits_zero def c \<and> (\<forall>(n, x)\<in>set (ct_results c). sr_exitCode x = 0)"
    unfolding new by (auto simp: exits_zero_def res split: option.splits)
  moreover have "ct_errors ?c = [] \<longleftrightarrow> ct_errors c = [] \<and> (\<forall>(n, x)\<in>set (ct_results c). sr_exitCode x = 0)"
    by (auto simp: end_iteration_def)
  ultimately have "ct_errors ?c = [] \<longleftrightarrow> exits_zero def ?c" using r ph by (simp add: result_inv_def)
  moreover have "\<forall>i<Suc (ct_iteration c). another def i"
    using r ph it by (auto simp: result_inv_def less_Suc_eq)
  ultimately show ?thesis using len by (simp add: result_inv_def) (simp add: end_iteration_def)
qed

lemma same_results:
  assumes "ct_allResults c' = ct_allResults c"
  shows "exits_zero def c' = exits_zero def c" "results_of c' = results_of c"
  using assms by (simp_all add: exits_zero_def results_of_def fun_eq_iff)

lemma inv2_step:
  assumes "step def waves workspace c c'" "ctrl_inv def waves c" "waves_fit def waves" "result_inv def c"
  shows "result_inv def c'"
  using assms(1)
proof (cases rule: step.cases)
  case Abort
  then show ?thesis using assms(4)
    by (auto simp: result_inv_def outcome_ok_def exits_zero_def results_of_def
        split: phase.splits pipeline_status.splits)
next
  case Begin_Iteration
  then show ?thesis using assms(4)
    by (simp add: result_inv_def begin_iteration_def exits_zero_def results_of_def)
next
  case Return_Aborted
  then show ?thesis using assms(4)
    by (simp add: result_inv_def return_aborted_def outcome_ok_def exits_zero_def results_of_def)
next
  case Return_Finished
  have e: "exits_zero def c' = exits_zero def c" "results_of c' = results_of c"
    by (rule same_results; simp add: Return_Finished return_finished_def Let_def)+
  have it: "all_rounds def (ct_iteration c)"
    using assms(4) Return_Finished by (simp add: result_inv_def all_rounds_def)
  have "outcome_ok def c' (\<lparr>pl_status = if ct_errors c \<noteq> [] then Failed_Pipeline else Completed_Pipeline,
      pl_iterations = sd_targetCount def, pl_agentResults = ct_allResults c, pl_errors = ct_errors c\<rparr>)"
    using assms(4) Return_Finished e(1) it
    by (simp add: outcome_ok_def result_inv_def) (simp add: return_finished_def Let_def)
  then show ?thesis
    using assms(4) Return_Finished e by (simp add: result_inv_def) (simp add: return_finished_def Let_def)
next
  case Begin_Wave
  then show ?thesis using assms(4)
    by (simp add: result_inv_def begin_wave_def emitProgress_def Let_def exits_zero_def results_of_def)
next
  case Settle
  then show ?thesis using assms(4)
    by (simp add: result_inv_def settle_agent_def exits_zero_def results_of_def)
next
  case End_Wave
  then show ?thesis using assms(4)
    by (simp add: result_inv_def end_wave_def emitProgress_def Let_def exits_zero_def results_of_def)
next
  case End_Iteration
  then show ?thesis using inv2_end_iteration assms by simp
next
  case Fatal
  then show ?thesis using assms(4)
    by (auto simp: result_inv_def return_fatal_def Let_def outcome_ok_def exits_zero_def results_of_def)
qed

lemma start_results: "results_of (run_start def tracker) n = []"
proof -
  have "map_get (foldl (\<lambda>m name. map_set m name []) m K) n \<in> {None, Some []}"
    if "map_get m n \<in> {None, Some []}" for m :: "(jstring \<times> single_result list) list" and K
    using that by (induction K arbitrary: m) (auto simp: map_get_set)
  from this [of "[]" "map_keys (sd_agents def)"] show ?thesis
    by (auto simp: results_of_def run_start_def map_get_def)
qed

lemma reachable_results:
  assumes "reachable def waves workspace tracker c" "waves_fit def waves"
    and "map_keys (sw_agents tracker) = map_keys (sd_agents def)"
  shows "result_inv def c"
  using assms(1)
proof (induction rule: reachable.induct)
  case Start
  have "exits_zero def (run_start def tracker)" by (simp add: exits_zero_def start_results)
  moreover have "ct_phase (run_start def tracker) = AtIteration" "ct_errors (run_start def tracker) = []"
    "ct_iteration (run_start def tracker) = 0"
    by (simp_all add: run_start_def)
  ultimately show ?case by (simp add: result_inv_def start_results)
next
  case (Step c c')
  then show ?case using inv2_step reachable_inv assms(2,3) by blast
qed

section \<open>Every run returns\<close>

definition wave_cost :: "jstring list list \<Rightarrow> nat" where
  "wave_cost ws = sum_list (map (\<lambda>w. length w + 2) ws)"

text \<open>An upper bound of the number of steps that are still to come.\<close>

definition rounds_of :: "swarm_definition \<Rightarrow> nat" where
  "rounds_of def = (case target_number (sd_targetCount def) of Finite q \<Rightarrow> nat \<lceil>q\<rceil> | _ \<Rightarrow> 0)"

lemma another_iff:
  assumes "target_number (sd_targetCount def) \<noteq> PosInf"
  shows "another def i \<longleftrightarrow> i < rounds_of def"
proof (cases "target_number (sd_targetCount def)")
  case (Finite q)
  have "of_nat i < q \<longleftrightarrow> int i < \<lceil>q\<rceil>"
    by (simp add: less_ceiling_iff)
  then show ?thesis by (auto simp: another_def rounds_of_def Finite)
qed (use assms in \<open>simp_all add: another_def rounds_of_def\<close>)

definition steps_left :: "swarm_definition \<Rightarrow> jstring list list \<Rightarrow> controller \<Rightarrow> nat" where
  "steps_left def waves c =
     (if ct_aborted c then 0 else 1) +
     (let rounds = rounds_of def - ct_iteration c; round = wave_cost waves + 3
      in case ct_phase c of
           AtIteration \<Rightarrow> rounds * round + 1
         | AtWave \<Rightarrow> (rounds - 1) * round + 2 + wave_cost (drop (ct_wave c) waves)
         | InWave \<Rightarrow> (rounds - 1) * round + 3 + wave_cost (drop (Suc (ct_wave c)) waves) + length (ct_running c)
         | Returned r \<Rightarrow> 0)"

lemma wave_cost_drop:
  "i < length ws \<Longrightarrow> wave_cost (drop i ws) = length (ws ! i) + 2 + wave_cost (drop (Suc i) ws)"
  by (simp add: wave_cost_def Cons_nth_drop_Suc [symmetric])

lemma step_decreases:
  assumes "step def waves workspace c c'" "ctrl_inv def waves c" "target_number (sd_targetCount def) \<noteq> PosInf"
  shows "steps_left def waves c' < steps_left def waves c"
  using assms(1)
proof (cases rule: step.cases)
  case Abort
  then show ?thesis by (simp add: steps_left_def Let_def split: phase.splits)
next
  case Begin_Iteration
  then obtain k where "rounds_of def - ct_iteration c = Suc k"
    using another_iff [OF assms(3)] by (metis Suc_diff_Suc)
  then show ?thesis using Begin_Iteration by (simp add: steps_left_def begin_iteration_def)
next
  case Return_Aborted
  then show ?thesis by (simp add: steps_left_def return_aborted_def)
next
  case Return_Finished
  then show ?thesis by (simp add: steps_left_def return_finished_def Let_def)
next
  case Begin_Wave
  then show ?thesis
    by (simp add: steps_left_def begin_wave_def emitProgress_def Let_def wave_cost_drop wave_requests_def)
next
  case (Settle name rq now outcome)
  have "length (filter (\<lambda>e. fst e \<noteq> name) (ct_running c)) < length (ct_running c)"
    by (rule length_filter_less [of "(name, rq)"]) (use Settle in auto)
  then show ?thesis using Settle by (simp add: steps_left_def settle_agent_def Let_def)
next
  case End_Wave
  then show ?thesis by (simp add: steps_left_def end_wave_def emitProgress_def Let_def)
next
  case End_Iteration
  have "another def (ct_iteration c)" using assms(2) End_Iteration by (simp add: ctrl_inv_def active_def)
  then obtain k where "rounds_of def - ct_iteration c = Suc k"
    using another_iff [OF assms(3)] by (metis Suc_diff_Suc)
  moreover from this have "rounds_of def - Suc (ct_iteration c) = k" by simp
  ultimately show ?thesis using End_Iteration by (simp add: steps_left_def end_iteration_def)
next
  case Fatal
  then show ?thesis by (auto simp: steps_left_def return_fatal_def Let_def)
qed

lemma step_enabled:
  assumes "ctrl_inv def waves c" "\<And>r. ct_phase c \<noteq> Returned r"
  shows "\<exists>c'. step def waves workspace c c' \<and> ct_aborted c' = ct_aborted c \<and>
    (\<exists>r. ct_phase c' = Returned r) = (ct_phase c = AtIteration \<and>
       (ct_aborted c \<or> \<not> another def (ct_iteration c)))"
proof (cases "ct_phase c")
  case AtIteration
  consider "\<not> another def (ct_iteration c)"
    | "another def (ct_iteration c)" "ct_aborted c"
    | "another def (ct_iteration c)" "\<not> ct_aborted c" by blast
  then show ?thesis
  proof cases
    case 1
    then show ?thesis using Return_Finished [OF AtIteration 1, of waves workspace 0] AtIteration
      by (intro exI [of _ "return_finished def 0 c"]) (simp add: return_finished_def Let_def)
  next
    case 2
    then show ?thesis using Return_Aborted [OF AtIteration 2] AtIteration
      by (intro exI [of _ "return_aborted c"]) (simp add: return_aborted_def)
  next
    case 3
    then show ?thesis using Begin_Iteration [OF AtIteration 3] AtIteration
      by (intro exI [of _ "begin_iteration c"]) (simp add: begin_iteration_def)
  qed
next
  case AtWave
  show ?thesis
  proof (cases "\<not> ct_wave c < length waves \<or> ct_aborted c")
    case True
    then show ?thesis using End_Iteration [OF AtWave True] AtWave
      by (intro exI [of _ "end_iteration c"]) (simp add: end_iteration_def)
  next
    case False
    then show ?thesis using Begin_Wave [OF AtWave, of waves def workspace 0] AtWave
      by (intro exI [of _ "begin_wave def waves workspace 0 c"]) (simp add: begin_wave_def emitProgress_def Let_def)
  qed
next
  case InWave
  show ?thesis
  proof (cases "ct_running c")
    case Nil
    then show ?thesis using End_Wave [OF InWave Nil] InWave
      by (intro exI [of _ "end_wave def waves c"]) (simp add: end_wave_def emitProgress_def Let_def)
  next
    case (Cons e es)
    obtain n rq where "e = (n, rq)" by (cases e)
    then show ?thesis using Settle [OF InWave, of n rq def waves workspace 0 "Inl []"] InWave Cons
      by (intro exI [of _ "settle_agent def 0 n rq (Inl []) c"]) (simp add: settle_agent_def)
  qed
next
  case (Returned r)
  then show ?thesis using assms(2) by blast
qed

end
