(* ===== verification/Swarm_Run.thy ===== *)
theory Swarm_Run
  imports Swarm_Pipeline
begin

text \<open>
  Starting a swarm (\<open>handleRun\<close> of \<open>packages/swarm-extension/src/extension.ts\<close>, and the same
  steps in \<open>cli.ts\<close>): parse, validate, check for cycles, compute the waves, initialise the
  tracker; and the properties of the whole run.
\<close>

section \<open>The start\<close>

datatype refusal =
    Unparsable swarm_error
  | Invalid "validation_error list"
  | Cyclic "jstring list"
  | Wave_Failure swarm_error

definition handleRun ::
  "raw_swarm option \<Rightarrow> nat \<Rightarrow> nat \<Rightarrow> refusal + swarm_definition \<times> jstring list list \<times> swarm_state" where
  "handleRun raw created started =
     (case parseSwarmYaml raw of
        Inl e \<Rightarrow> Inl (Unparsable e)
      | Inr def \<Rightarrow>
          (let validationErrors = validateSwarmDefinition def
           in if length validationErrors > 0 then Inl (Invalid validationErrors)
              else let deps = buildDependencyGraph def
                   in case detectCycles deps of
                        Some cycleNodes \<Rightarrow> Inl (Cyclic cycleNodes)
                      | None \<Rightarrow>
                          (case buildExecutionWaves deps of
                             Inl e \<Rightarrow> Inl (Wave_Failure e)
                           | Inr waves \<Rightarrow>
                               Inr (def, waves, tracker_init (map_keys (sd_agents def))
                                 (sd_targetCount def) (sd_mode def) started
                                 (tracker_new (sd_name def) created)))))"

lemma init_keys:
  assumes "distinct K"
  shows "map_keys (foldl (\<lambda>m name. map_set m name (f name)) [] K) = K"
proof -
  have "map_keys (foldl (\<lambda>m name. map_set m name (f name)) m K) = map_keys m @ K"
    if "distinct (map_keys m @ K)" for m
    using that
  proof (induction K arbitrary: m)
    case (Cons n K)
    have "map_keys (map_set m n (f n)) = map_keys m @ [n]"
      by (subst keys_map_set_new) (use Cons.prems in \<open>auto simp: map_keys_def\<close>)
    then show ?case using Cons.IH [of "map_set m n (f n)"] Cons.prems by simp
  qed simp
  from this [of "[]"] show ?thesis using assms by (simp add: map_keys_def)
qed

lemma launched:
  assumes "handleRun raw created started = Inr (def, waves, tracker)"
  shows "waves_fit def waves" "waves_ok (buildDependencyGraph def) waves"
    "map_keys (sw_agents tracker) = map_keys (sd_agents def)"
    "wf_deps (buildDependencyGraph def)"
proof -
  let ?deps = "buildDependencyGraph def"
  have p: "parseSwarmYaml raw = Inr def"
    and w: "buildExecutionWaves ?deps = Inr waves"
    and t: "tracker = tracker_init (map_keys (sd_agents def)) (sd_targetCount def) (sd_mode def) started
        (tracker_new (sd_name def) created)"
    using assms by (auto simp: handleRun_def Let_def split: sum.splits option.splits if_splits)
  have ok: "swarm_ok def" by (rule parse_ok [OF p])
  then have dk: "distinct (map_keys (sd_agents def))" by (simp add: swarm_ok_def)
  from graph_spec [OF ok] show wf: "wf_deps ?deps" by simp
  from waves_spec [OF wf] graph_spec [OF ok] dk w
  show "waves_fit def waves" "waves_ok ?deps waves" by (simp_all add: waves_fit_def)
  show "map_keys (sw_agents tracker) = map_keys (sd_agents def)"
    using init_keys [OF dk] by (simp add: t tracker_init_def tracker_new_def)
qed

text \<open>After the cycle check the wave computation cannot fail.\<close>

lemma no_wave_failure: "handleRun raw created started \<noteq> Inl (Wave_Failure e)"
proof
  assume "handleRun raw created started = Inl (Wave_Failure e)"
  then obtain def where p: "parseSwarmYaml raw = Inr def"
    and c: "detectCycles (buildDependencyGraph def) = None"
    and w: "buildExecutionWaves (buildDependencyGraph def) = Inl e"
    by (auto simp: handleRun_def Let_def split: sum.splits option.splits if_splits)
  have "wf_deps (buildDependencyGraph def)" using graph_spec [OF parse_ok [OF p]] by simp
  from waves_spec [OF this] c w show False by simp
qed

lemma dependency_earlier:
  assumes "waves_ok deps waves" "i < length waves" "n \<in> set (waves ! i)" "d \<in> set (deps_of deps n)"
  shows "d \<in> set (concat (take i waves))"
  using assms unfolding waves_ok_def wave_at_def by blast

section \<open>Properties\<close>

text \<open>
  C8: in a run of an accepted swarm, whenever the subprocess of an agent is running, every
  agent it depends on has already got its result in this same iteration, and the agent itself
  has none, is shown as running in that iteration, and belongs to the current wave.
\<close>

theorem dependencies_finish_first:
  assumes "handleRun raw created started = Inr (def, waves, tracker)"
    and "reachable def waves workspace tracker c"
    and "ct_phase c = InWave" "(n, rq) \<in> set (ct_running c)"
  shows "set (deps_of (buildDependencyGraph def) n) \<subseteq> set (map_keys (ct_results c)) \<and>
    n \<notin> set (map_keys (ct_results c)) \<and> n \<notin> fst ` set (ct_settled c) \<and>
    n \<in> set (waves ! ct_wave c) \<and>
    (\<exists>a. agent_of (ct_tracker c) n = Some a \<and> as_status a = Running \<and> as_iteration a = ct_iteration c)"
proof -
  note l = launched [OF assms(1)]
  have inv: "ctrl_inv def waves c" by (rule reachable_inv [OF assms(2) l(1,3)])
  have m: "n \<in> set (map fst (ct_running c))" using assms(4) by force
  have w: "ct_wave c < length waves"
    and d: "distinct (map fst (ct_running c) @ map fst (ct_settled c))"
    and s: "set (map fst (ct_running c) @ map fst (ct_settled c)) = set (waves ! ct_wave c)"
    and r: "set (map_keys (ct_results c)) = set (concat (take (ct_wave c) waves))"
    and a: "\<exists>a. agent_of (ct_tracker c) n = Some a \<and> as_status a = Running \<and> as_iteration a = ct_iteration c"
    using inv assms(3) m by (auto simp: ctrl_inv_def active_def simp del: set_concat)
  have n: "n \<in> set (waves ! ct_wave c)" using s m by auto
  show ?thesis
    using waves_disjoint(2) [OF _ w] l(1) n d m r a dependency_earlier [OF l(2) w n]
    by (auto simp: waves_fit_def simp del: set_concat)
qed

definition two_agents :: "swarm_definition \<times> jstring list list \<times> swarm_state" where
  "two_agents = projr (handleRun (Some sample_swarm) 1 2)"

lemma two_agents_run:
  "handleRun (Some sample_swarm) 1 2 = Inr (fst two_agents, fst (snd two_agents), snd (snd two_agents))"
proof -
  have "\<not> isl (handleRun (Some sample_swarm) 1 2)" by code_simp
  then show ?thesis by (simp add: two_agents_def sum.collapse(2))
qed

lemma two_agents_waves: "fst (snd two_agents) = [[js ''b''], [js ''a'']]" "sd_targetCount (fst two_agents) = count_of 1"
  by code_simp+

text \<open>A run of that swarm: \<open>b\<close> has finished, \<open>a\<close> runs.\<close>

definition ok_result :: single_result where
  "ok_result = \<lparr>sr_index = 0, sr_id = [], sr_agent = [], sr_task = [], sr_exitCode = 0,
     sr_output = [], sr_stderr = [], sr_error = None\<rparr>"

definition b_runs :: controller where
  "b_runs = begin_wave (fst two_agents) (fst (snd two_agents)) [] 3
     (begin_iteration (run_start (fst two_agents) (snd (snd two_agents))))"

definition b_done :: "controller \<Rightarrow> controller" where
  "b_done c = end_wave (fst two_agents) (fst (snd two_agents))
     (settle_agent (fst two_agents) 4 (js ''b'') (snd (hd (ct_running c))) (Inr ok_result) c)"

definition a_runs :: controller where
  "a_runs = begin_wave (fst two_agents) (fst (snd two_agents)) [] 5 (b_done b_runs)"

abbreviation two_agents_reach :: "controller \<Rightarrow> bool" where
  "two_agents_reach \<equiv> reachable (fst two_agents) (fst (snd two_agents)) [] (snd (snd two_agents))"

lemma reach_b_runs: "two_agents_reach b_runs"
proof -
  have "two_agents_reach (begin_iteration (run_start (fst two_agents) (snd (snd two_agents))))"
    by (rule Step [OF Start], rule Begin_Iteration) code_simp+
  then show ?thesis unfolding b_runs_def by (rule Step, intro Begin_Wave) code_simp+
qed

lemma reach_b_done:
  assumes "two_agents_reach c" "ct_phase c = InWave" "ct_running c = [(js ''b'', rq)]"
  shows "two_agents_reach (b_done c)"
proof -
  have "two_agents_reach (settle_agent (fst two_agents) 4 (js ''b'') (snd (hd (ct_running c))) (Inr ok_result) c)"
    by (rule Step [OF assms(1)], rule Settle) (simp_all add: assms(2,3))
  then show ?thesis unfolding b_done_def
    by (rule Step, intro End_Wave) (simp_all add: settle_agent_def assms(2,3))
qed

lemma b_runs_state: "ct_phase b_runs = InWave" "ct_running b_runs = [(js ''b'', snd (hd (ct_running b_runs)))]"
  by code_simp+

lemma reach_a_runs: "two_agents_reach a_runs"
  unfolding a_runs_def
  by (rule Step [OF reach_b_done [OF reach_b_runs b_runs_state]], rule Begin_Wave) code_simp+

theorem dependencies_finish_first_witness:
  "set (deps_of (buildDependencyGraph (fst two_agents)) (js ''a'')) \<subseteq> set (map_keys (ct_results a_runs)) \<and>
    deps_of (buildDependencyGraph (fst two_agents)) (js ''a'') = [js ''b''] \<and>
    js ''a'' \<notin> set (map_keys (ct_results a_runs))"
proof -
  have "(js ''a'', snd (hd (ct_running a_runs))) \<in> set (ct_running a_runs)" by code_simp
  moreover have "ct_phase a_runs = InWave" by code_simp
  moreover have "deps_of (buildDependencyGraph (fst two_agents)) (js ''a'') = [js ''b'']" by code_simp
  ultimately show ?thesis
    using dependencies_finish_first [OF two_agents_run reach_a_runs] by blast
qed



lemma reach_finish:
  assumes "two_agents_reach c" "ct_phase c = AtWave" "ct_iteration c = 0" "\<not> ct_wave c < 2 \<or> ct_aborted c"
  shows "two_agents_reach (return_finished (fst two_agents) 9 (end_iteration c))"
proof -
  have "two_agents_reach (end_iteration c)"
    by (rule Step [OF assms(1)], rule End_Iteration) (use assms two_agents_waves in simp_all)
  then show ?thesis
    by (rule Step, intro Return_Finished) (use assms two_agents_waves in \<open>simp_all add: end_iteration_def another_def\<close>)
qed




text \<open>
  An abort that comes while the last iteration is running is not reported: the remaining
  waves are skipped, yet the run is reported as completed with all its iterations, although an
  agent was never started.
\<close>

theorem late_abort_reported_as_completed:
  "\<exists>def waves tracker c r n. handleRun (Some sample_swarm) 1 2 = Inr (def, waves, tracker) \<and>
     reachable def waves [] tracker c \<and> ct_aborted c \<and> ct_phase c = Returned r \<and>
     pl_status r = Completed_Pipeline \<and> pl_iterations r = sd_targetCount def \<and>
     (n, []) \<in> set (pl_agentResults r) \<and>
     map_option as_status (agent_of (ct_tracker c) n) = Some Pending"
proof -
  let ?a = "b_runs\<lparr>ct_aborted := True\<rparr>"
  let ?c = "return_finished (fst two_agents) 9 (end_iteration (b_done ?a))"
  have "two_agents_reach ?a" by (rule Step [OF reach_b_runs], rule Abort) code_simp
  then have "two_agents_reach (b_done ?a)" by (rule reach_b_done) (use b_runs_state in simp_all)
  then have c: "two_agents_reach ?c" by (rule reach_finish) code_simp+
  obtain r where r: "ct_phase ?c = Returned r" by (simp add: return_finished_def Let_def)
  have "(case ct_phase ?c of Returned r \<Rightarrow> pl_status r = Completed_Pipeline \<and>
      pl_iterations r = sd_targetCount (fst two_agents) \<and> (js ''a'', []) \<in> set (pl_agentResults r) | _ \<Rightarrow> False)"
    "ct_aborted ?c" "map_option as_status (agent_of (ct_tracker ?c) (js ''a'')) = Some Pending"
    by code_simp+
  then show ?thesis using two_agents_run c r
    by (intro exI [of _ "fst two_agents"] exI [of _ "fst (snd two_agents)"] exI [of _ "snd (snd two_agents)"]
        exI [of _ ?c] exI [of _ r] exI [of _ "js ''a''"]) simp
qed

text \<open>
  C25: every run of an accepted swarm returns, unless its \<open>target_count\<close> is positive infinity, whatever the order and the
  outcomes of its subprocesses and whenever it is aborted: its steps are well-founded, and as long as it has
  not returned some step other than an abort is possible.
\<close>

theorem every_run_returns:
  assumes "handleRun raw created started = Inr (def, waves, tracker)"
    and "target_number (sd_targetCount def) \<noteq> PosInf"
  shows "wf {(c', c). reachable def waves workspace tracker c \<and> step def waves workspace c c'} \<and>
    (\<forall>c. reachable def waves workspace tracker c \<longrightarrow>
       (\<exists>r. ct_phase c = Returned r) \<or>
       (\<exists>c'. step def waves workspace c c' \<and> ct_aborted c' = ct_aborted c))"
proof
  note l = launched [OF assms(1)]
  have inv: "ctrl_inv def waves c" if "reachable def waves workspace tracker c" for c
    by (rule reachable_inv [OF that l(1,3)])
  have "{(c', c). reachable def waves workspace tracker c \<and> step def waves workspace c c'} \<subseteq>
      measure (steps_left def waves)"
    using step_decreases [OF _ _ assms(2)] inv by auto
  then show "wf {(c', c). reachable def waves workspace tracker c \<and> step def waves workspace c c'}"
    by (rule wf_subset [OF wf_measure])
  show "\<forall>c. reachable def waves workspace tracker c \<longrightarrow>
       (\<exists>r. ct_phase c = Returned r) \<or>
       (\<exists>c'. step def waves workspace c c' \<and> ct_aborted c' = ct_aborted c)"
    using step_enabled inv by metis
qed

theorem every_run_returns_witness:
  "wf {(c', c). two_agents_reach c \<and> step (fst two_agents) (fst (snd two_agents)) [] c c'} \<and>
   (\<exists>c'. step (fst two_agents) (fst (snd two_agents)) [] a_runs c' \<and> \<not> ct_aborted c')"
proof -
  have "\<not> ct_aborted a_runs" "\<nexists>r. ct_phase a_runs = Returned r"
    by (code_simp, simp add: a_runs_def begin_wave_def Let_def emitProgress_def)
  then show ?thesis
    using every_run_returns [OF two_agents_run, of "[]"] reach_a_runs two_agents_waves(2) by auto
qed

text \<open>
  The exception is real: \<open>.inf\<close> is accepted as the count of a pipeline, and no such run ever reports that
  it is complete; and \<open>.nan\<close> is accepted too, and its run is complete before any agent was started.
\<close>

definition counted_swarm :: "js_number \<Rightarrow> raw_swarm" where
  "counted_swarm n = sample_swarm\<lparr>raw_mode := YStr (js ''pipeline''), raw_target_count := Some (TargetNumber n)\<rparr>"

lemma infinite_count_accepted:
  "\<not> isl (handleRun (Some (counted_swarm PosInf)) 1 2)"
  by code_simp

lemma infinite_run_never_completes:
  assumes "handleRun raw created started = Inr (def, waves, tracker)" "target_number (sd_targetCount def) = PosInf"
    and "reachable def waves workspace tracker c" "ct_phase c = Returned r"
  shows "pl_status r \<noteq> Completed_Pipeline \<and> (pl_status r = Failed_Pipeline \<longrightarrow> pl_iterations r = count_of 0)"
proof -
  note l = launched [OF assms(1)]
  have "result_inv def c" by (rule reachable_results [OF assms(3) l(1,3)])
  moreover have "\<not> all_rounds def n" for n using assms(2) by (simp add: all_rounds_def another_def)
  ultimately show ?thesis using assms(4) by (auto simp: result_inv_def outcome_ok_def)
qed

lemma nan_count_completes_at_once:
  "let (def, waves, tracker) = projr (handleRun (Some (counted_swarm NotANumber)) 1 2)
   in \<not> isl (handleRun (Some (counted_swarm NotANumber)) 1 2) \<and>
      step def waves [] (run_start def tracker) (return_finished def 9 (run_start def tracker)) \<and>
      ct_errors (run_start def tracker) = [] \<and> map snd (ct_allResults (run_start def tracker)) = [[], []]"
proof -
  obtain def waves tracker where h: "projr (handleRun (Some (counted_swarm NotANumber)) 1 2) = (def, waves, tracker)"
    by (metis prod_cases3)
  have "\<not> isl (handleRun (Some (counted_swarm NotANumber)) 1 2)" by code_simp
  moreover have "target_number (sd_targetCount (fst (projr (handleRun (Some (counted_swarm NotANumber)) 1 2)))) = NotANumber"
    "map fst (sd_agents (fst (projr (handleRun (Some (counted_swarm NotANumber)) 1 2)))) = [js ''a'', js ''b'']"
    by code_simp+
  then have n: "target_number (sd_targetCount def) = NotANumber" "map_keys (sd_agents def) = [js ''a'', js ''b'']"
    by (simp_all only: h fst_conv map_keys_def)
  have "step def waves [] (run_start def tracker) (return_finished def 9 (run_start def tracker))"
    by (rule Return_Finished) (simp_all add: run_start_def another_def n(1))
  moreover have "ct_errors (run_start def tracker) = []" "map snd (ct_allResults (run_start def tracker)) = [[], []]"
    by (simp_all add: run_start_def n(2) map_set_def)
  ultimately show ?thesis unfolding h Let_def prod.case by blast
qed

end
