(* ===== verification/Json.thy ===== *)
theory Json
  imports Prelude
begin

text \<open>
  JSON values and \<open>JSON.stringify\<close> of the language's standard library, which the token
  estimates and the context digest of the agent are computed from.  A number is carried as
  the text it is printed as; an object is the list of its own properties in enumeration
  order, and a property whose value is \<open>undefined\<close> is absent.
\<close>

datatype json =
    JNull
  | JBool bool
  | JNum jstring
  | JString jstring
  | JArray "json list"
  | JObject "(jstring \<times> json) list"

definition hex_digit :: "nat \<Rightarrow> nat" where
  "hex_digit n = (if n < 10 then 48 + n else 87 + n)"

text \<open>Four lower case hex digits.\<close>

definition hex_unit :: "nat \<Rightarrow> jstring" where
  "hex_unit c = [hex_digit (c div 4096 mod 16), hex_digit (c div 256 mod 16),
     hex_digit (c div 16 mod 16), hex_digit (c mod 16)]"

definition escape_unit :: "nat \<Rightarrow> jstring" where
  "escape_unit c =
     (if c = 8 then js [CHR 0x5C, CHR ''b''] else if c = 9 then js [CHR 0x5C, CHR ''t'']
      else if c = 10 then js [CHR 0x5C, CHR ''n''] else if c = 12 then js [CHR 0x5C, CHR ''f'']
      else if c = 13 then js [CHR 0x5C, CHR ''r''] else if c = 34 then [92, 34]
      else if c = 92 then [92, 92]
      else if c < 32 then [92, 117] @ hex_unit c else [c])"

definition is_lead :: "nat \<Rightarrow> bool" where
  "is_lead c = (0xD800 \<le> c \<and> c \<le> 0xDBFF)"

definition is_trail :: "nat \<Rightarrow> bool" where
  "is_trail c = (0xDC00 \<le> c \<and> c \<le> 0xDFFF)"

text \<open>A surrogate that is not part of a pair is escaped.\<close>

fun quote_units :: "jstring \<Rightarrow> jstring" where
  "quote_units [] = []"
| "quote_units [c] = (if is_lead c \<or> is_trail c then [92, 117] @ hex_unit c else escape_unit c)"
| "quote_units (c # d # s) =
     (if is_lead c \<and> is_trail d then c # d # quote_units s
      else if is_lead c \<or> is_trail c then [92, 117] @ hex_unit c @ quote_units (d # s)
      else escape_unit c @ quote_units (d # s))"

definition json_quote :: "jstring \<Rightarrow> jstring" where
  "json_quote s = [34] @ quote_units s @ [34]"

fun stringify :: "json \<Rightarrow> jstring" where
  "stringify JNull = js ''null''"
| "stringify (JBool b) = (if b then js ''true'' else js ''false'')"
| "stringify (JNum s) = s"
| "stringify (JString s) = json_quote s"
| "stringify (JArray vs) = js ''['' @ join_with (js '','') (map stringify vs) @ js '']''"
| "stringify (JObject kvs) =
     js ''{'' @ join_with (js '','') (map (\<lambda>kv. json_quote (fst kv) @ js '':'' @ stringify (snd kv)) kvs) @ js ''}''"

text \<open>A property of an object value; \<open>None\<close> stands for \<open>undefined\<close>.\<close>

fun json_field :: "json \<Rightarrow> jstring \<Rightarrow> json option" where
  "json_field (JObject kvs) k = map_of kvs k"
| "json_field _ k = None"

end
