(* ===== verification/Session_Types.thy ===== *)
theory Session_Types
  imports Json
begin

text \<open>
  Messages and session entries: \<open>packages/ai/src/types.ts\<close> (content blocks and provider
  messages), \<open>packages/agent/src/compaction/messages.ts\<close> and \<open>entries.ts\<close>,
  \<open>packages/coding-agent/src/session/messages.ts\<close> and the types of
  \<open>session-manager.ts\<close>.  Fields that no modelled operation reads (signatures of text
  blocks, attribution, display details, costs, timing of responses) are left out.  A time
  stamp is its number of milliseconds, so the conversions between ISO text and number are
  the identity.
\<close>

section \<open>Content\<close>

datatype content = TextContent jstring | ImageContent jstring jstring

datatype msg_content = Plain jstring | Blocks "content list"

record tool_call =
  tc_id :: jstring
  tc_name :: jstring
  tc_arguments :: "(jstring \<times> json) list"

datatype assistant_block =
    TextBlock jstring
  | ThinkingBlock jstring "jstring option"
  | RedactedThinking jstring
  | ToolCall tool_call

section \<open>Messages\<close>

record usage =
  us_input :: nat
  us_output :: nat
  us_cacheRead :: nat
  us_cacheWrite :: nat
  us_totalTokens :: nat
  us_premiumRequests :: "nat option"

datatype stop_reason = StopStop | StopLength | StopToolUse | StopError | StopAborted

record assistant_message =
  am_content :: "assistant_block list"
  am_provider :: jstring
  am_model :: jstring
  am_usage :: usage
  am_stopReason :: stop_reason
  am_errorMessage :: "jstring option"
  am_replay :: bool

text \<open>\<open>am_replay\<close>: a provider payload of type \<open>openaiResponsesHistory\<close> is present.\<close>

record tool_result =
  tr_toolCallId :: jstring
  tr_toolName :: jstring
  tr_content :: "content list"
  tr_taskUsage :: "usage option"
  tr_isError :: bool
  tr_prunedAt :: "nat option"

text \<open>\<open>tr_taskUsage\<close>: the object \<open>details.usage\<close>, where there is one.\<close>

record provider_payload =
  pp_provider :: jstring
  pp_items :: "json list"

datatype message =
    UserMessage msg_content
  | DeveloperMessage msg_content
  | AssistantMessage assistant_message
  | ToolResultMessage tool_result
  | BashExecution jstring jstring
  | PythonExecution jstring jstring
  | CustomMessage jstring msg_content
  | HookMessage jstring msg_content
  | BranchSummaryMessage jstring jstring nat
  | CompactionSummaryMessage jstring nat nat "jstring option" "provider_payload option"
  | FileMention "(jstring \<times> jstring) list"

section \<open>Entries\<close>

record compaction =
  cp_summary :: jstring
  cp_shortSummary :: "jstring option"
  cp_firstKeptEntryId :: jstring
  cp_tokensBefore :: nat
  cp_details :: "(jstring list \<times> jstring list) option"
  cp_preserveData :: "(jstring \<times> json) list option"
  cp_fromExtension :: bool

text \<open>
  \<open>cp_details\<close>: the lists \<open>readFiles\<close> and \<open>modifiedFiles\<close>.  A branch summary has \<open>fromId\<close>, the
  summary, its details and whether an extension wrote it.
\<close>

datatype entry_kind =
    Message message
  | ThinkingLevelChange "jstring option"
  | ModelChange jstring "jstring option"
  | ServiceTierChange "jstring option"
  | Compaction compaction
  | BranchSummary jstring jstring "(jstring list \<times> jstring list) option" bool
  | CustomEntry jstring
  | CustomMessageEntry jstring msg_content
  | Label jstring "jstring option"
  | TtsrInjection "jstring list"
  | MCPToolSelection "jstring list"
  | SessionInit jstring jstring "jstring list"
  | ModeChange jstring "json option"

record entry =
  en_id :: jstring
  en_parentId :: "jstring option"
  en_timestamp :: nat
  en_kind :: entry_kind

definition is_compaction :: "entry \<Rightarrow> bool" where
  "is_compaction e = (case en_kind e of Compaction _ \<Rightarrow> True | _ \<Rightarrow> False)"

definition is_message :: "entry \<Rightarrow> bool" where
  "is_message e = (case en_kind e of Message _ \<Rightarrow> True | _ \<Rightarrow> False)"

definition is_label :: "entry \<Rightarrow> bool" where
  "is_label e = (case en_kind e of Label _ _ \<Rightarrow> True | _ \<Rightarrow> False)"

record session_header =
  hd_version :: "nat option"
  hd_id :: jstring
  hd_parentSession :: "jstring option"

datatype file_entry = Header session_header | Entry entry

text \<open>The entries of a session file, without its header.\<close>

fun entries_of :: "file_entry list \<Rightarrow> entry list" where
  "entries_of [] = []"
| "entries_of (Header h # fs) = entries_of fs"
| "entries_of (Entry e # fs) = e # entries_of fs"

lemma entries_of_append [simp]: "entries_of (xs @ ys) = entries_of xs @ entries_of ys"
  by (induction xs rule: entries_of.induct) simp_all

lemma entries_of_map [simp]: "entries_of (map Entry es) = es"
  by (induction es) simp_all

end
