(* ===== verification/Session_Tree.thy ===== *)
theory Session_Tree
  imports Session_Types
begin

text \<open>
  The session tree of \<open>packages/coding-agent/src/session/session-manager.ts\<close>: the entries in
  file order, the index by id, the labels and the leaf pointer, with the operations that
  append, move the leaf, branch and prune.  Writing the file is not modelled (\<open>_persist\<close> and
  the flags it uses are left out), nor are artifacts, drafts and turn budgets; time stamps and
  random ids are arguments of the operations.
\<close>

section \<open>State\<close>

record usage_statistics =
  st_input :: nat
  st_output :: nat
  st_cacheRead :: nat
  st_cacheWrite :: nat
  st_premiumRequests :: nat

record session =
  sm_sessionId :: jstring
  sm_fileEntries :: "file_entry list"
  sm_byId :: "(jstring \<times> entry) list"
  sm_labelsById :: "(jstring \<times> jstring) list"
  sm_leafId :: "jstring option"
  sm_usageStatistics :: usage_statistics

definition no_usage :: usage_statistics where
  "no_usage = \<lparr>st_input = 0, st_output = 0, st_cacheRead = 0, st_cacheWrite = 0, st_premiumRequests = 0\<rparr>"

definition CURRENT_SESSION_VERSION :: nat where "CURRENT_SESSION_VERSION = 3"

definition newSession :: "jstring \<Rightarrow> jstring option \<Rightarrow> session" where
  "newSession sid parent =
     \<lparr>sm_sessionId = sid,
      sm_fileEntries = [Header \<lparr>hd_version = Some CURRENT_SESSION_VERSION, hd_id = sid, hd_parentSession = parent\<rparr>],
      sm_byId = [], sm_labelsById = [], sm_leafId = None, sm_usageStatistics = no_usage\<rparr>"

section \<open>Ids\<close>

text \<open>
  \<open>generateId\<close>: at most a hundred random draws of eight hex characters, then a snowflake id that
  is not checked against the used ones.  The draws and the fallback are the argument.
\<close>

type_synonym id_source = "(nat \<Rightarrow> jstring) \<times> jstring"

definition generateId :: "id_source \<Rightarrow> jstring list \<Rightarrow> jstring" where
  "generateId src used =
     (case find (\<lambda>i. fst src i \<notin> set used) [0..<100] of
        Some i \<Rightarrow> fst src i | None \<Rightarrow> snd src)"

section \<open>The index\<close>

definition add_usage :: "usage \<Rightarrow> usage_statistics \<Rightarrow> usage_statistics" where
  "add_usage u st =
     \<lparr>st_input = st_input st + us_input u, st_output = st_output st + us_output u,
      st_cacheRead = st_cacheRead st + us_cacheRead u, st_cacheWrite = st_cacheWrite st + us_cacheWrite u,
      st_premiumRequests = st_premiumRequests st + (case us_premiumRequests u of Some n \<Rightarrow> n | None \<Rightarrow> 0)\<rparr>"

definition count_usage :: "entry \<Rightarrow> usage_statistics \<Rightarrow> usage_statistics" where
  "count_usage e st =
     (case en_kind e of
        Message (AssistantMessage m) \<Rightarrow> add_usage (am_usage m) st
      | Message (ToolResultMessage r) \<Rightarrow>
          (if tr_toolName r = js ''task''
           then (case tr_taskUsage r of Some u \<Rightarrow> add_usage u st | None \<Rightarrow> st) else st)
      | _ \<Rightarrow> st)"

definition set_label :: "(jstring \<times> jstring) list \<Rightarrow> jstring \<Rightarrow> jstring option \<Rightarrow> (jstring \<times> jstring) list" where
  "set_label m target label =
     (case label of Some (c # cs) \<Rightarrow> map_set m target (c # cs) | _ \<Rightarrow> AList.delete target m)"

definition index_entry :: "session \<Rightarrow> entry \<Rightarrow> session" where
  "index_entry s e =
     s\<lparr>sm_byId := map_set (sm_byId s) (en_id e) e, sm_leafId := Some (en_id e),
        sm_labelsById := (case en_kind e of
            Label target label \<Rightarrow> set_label (sm_labelsById s) target label | _ \<Rightarrow> sm_labelsById s),
        sm_usageStatistics := count_usage e (sm_usageStatistics s)\<rparr>"

definition buildIndex :: "session \<Rightarrow> session" where
  "buildIndex s =
     foldl index_entry (s\<lparr>sm_byId := [], sm_labelsById := [], sm_leafId := None,
       sm_usageStatistics := no_usage\<rparr>) (entries_of (sm_fileEntries s))"

section \<open>Appending\<close>

definition appendEntry :: "session \<Rightarrow> entry \<Rightarrow> session" where
  "appendEntry s e =
     s\<lparr>sm_fileEntries := sm_fileEntries s @ [Entry e], sm_byId := map_set (sm_byId s) (en_id e) e,
        sm_leafId := Some (en_id e), sm_usageStatistics := count_usage e (sm_usageStatistics s)\<rparr>"

text \<open>
  The append operations (\<open>appendMessage\<close>, \<open>appendModelChange\<close>, \<open>appendCompaction\<close> and so on)
  differ only in the kind of the entry.
\<close>

definition append_kind :: "session \<Rightarrow> id_source \<Rightarrow> nat \<Rightarrow> entry_kind \<Rightarrow> session" where
  "append_kind s src now kind =
     appendEntry s \<lparr>en_id = generateId src (map_keys (sm_byId s)), en_parentId = sm_leafId s,
       en_timestamp = now, en_kind = kind\<rparr>"

definition appendMessage :: "session \<Rightarrow> id_source \<Rightarrow> nat \<Rightarrow> message \<Rightarrow> session" where
  "appendMessage s src now m = append_kind s src now (Message m)"

definition appendThinkingLevelChange :: "session \<Rightarrow> id_source \<Rightarrow> nat \<Rightarrow> jstring option \<Rightarrow> session" where
  "appendThinkingLevelChange s src now level = append_kind s src now (ThinkingLevelChange level)"

definition appendServiceTierChange :: "session \<Rightarrow> id_source \<Rightarrow> nat \<Rightarrow> jstring option \<Rightarrow> session" where
  "appendServiceTierChange s src now tier = append_kind s src now (ServiceTierChange tier)"

definition appendModeChange :: "session \<Rightarrow> id_source \<Rightarrow> nat \<Rightarrow> jstring \<Rightarrow> json option \<Rightarrow> session" where
  "appendModeChange s src now mode data = append_kind s src now (ModeChange mode data)"

definition appendModelChange :: "session \<Rightarrow> id_source \<Rightarrow> nat \<Rightarrow> jstring \<Rightarrow> jstring option \<Rightarrow> session" where
  "appendModelChange s src now model role = append_kind s src now (ModelChange model role)"

definition appendSessionInit ::
  "session \<Rightarrow> id_source \<Rightarrow> nat \<Rightarrow> jstring \<Rightarrow> jstring \<Rightarrow> jstring list \<Rightarrow> session" where
  "appendSessionInit s src now systemPrompt task tools =
     append_kind s src now (SessionInit systemPrompt task tools)"

definition appendCompaction :: "session \<Rightarrow> id_source \<Rightarrow> nat \<Rightarrow> compaction \<Rightarrow> session" where
  "appendCompaction s src now c = append_kind s src now (Compaction c)"

definition appendCustomEntry :: "session \<Rightarrow> id_source \<Rightarrow> nat \<Rightarrow> jstring \<Rightarrow> session" where
  "appendCustomEntry s src now customType = append_kind s src now (CustomEntry customType)"

definition appendCustomMessageEntry ::
  "session \<Rightarrow> id_source \<Rightarrow> nat \<Rightarrow> jstring \<Rightarrow> msg_content \<Rightarrow> session" where
  "appendCustomMessageEntry s src now customType content =
     append_kind s src now (CustomMessageEntry customType content)"

definition appendMCPToolSelection :: "session \<Rightarrow> id_source \<Rightarrow> nat \<Rightarrow> jstring list \<Rightarrow> session" where
  "appendMCPToolSelection s src now names = append_kind s src now (MCPToolSelection names)"

definition appendTtsrInjection :: "session \<Rightarrow> id_source \<Rightarrow> nat \<Rightarrow> jstring list \<Rightarrow> session" where
  "appendTtsrInjection s src now rules = append_kind s src now (TtsrInjection rules)"

datatype session_error = EntryNotFound jstring

definition appendLabelChange ::
  "session \<Rightarrow> id_source \<Rightarrow> nat \<Rightarrow> jstring \<Rightarrow> jstring option \<Rightarrow> session_error + session" where
  "appendLabelChange s src now target label =
     (if map_get (sm_byId s) target = None then Inl (EntryNotFound target)
      else let s' = append_kind s src now (Label target label)
           in Inr (s'\<lparr>sm_labelsById := set_label (sm_labelsById s') target label\<rparr>))"

section \<open>Walking the tree\<close>

text \<open>
  \<open>while (current) { path.unshift(current); current = current.parentId ? byId.get(current.parentId) : undefined }\<close>
  has no bound of its own: on a cycle of parents it does not return.
\<close>

definition parent_of :: "(jstring \<times> entry) list \<Rightarrow> entry \<Rightarrow> entry option" where
  "parent_of byId e =
     (case en_parentId e of Some (c # cs) \<Rightarrow> map_get byId (c # cs) | _ \<Rightarrow> None)"

partial_function (option) walk :: "(jstring \<times> entry) list \<Rightarrow> entry \<Rightarrow> entry list \<Rightarrow> entry list option" where
  [code]: "walk byId current path =
     (case parent_of byId current of
        None \<Rightarrow> Some (current # path)
      | Some p \<Rightarrow> walk byId p (current # path))"

definition getLeafEntry :: "session \<Rightarrow> entry option" where
  "getLeafEntry s =
     (case sm_leafId s of Some (c # cs) \<Rightarrow> map_get (sm_byId s) (c # cs) | _ \<Rightarrow> None)"

definition getBranch :: "session \<Rightarrow> jstring option \<Rightarrow> entry list option" where
  "getBranch s fromId =
     (case (case fromId of Some i \<Rightarrow> Some i | None \<Rightarrow> sm_leafId s) of
        Some (c # cs) \<Rightarrow>
          (case map_get (sm_byId s) (c # cs) of Some e \<Rightarrow> walk (sm_byId s) e [] | None \<Rightarrow> Some [])
      | _ \<Rightarrow> Some [])"

partial_function (option) last_role :: "(jstring \<times> entry) list \<Rightarrow> entry \<Rightarrow> jstring option option" where
  [code]: "last_role byId current =
     (case en_kind current of
        ModelChange model role \<Rightarrow> Some (Some (case role of Some r \<Rightarrow> r | None \<Rightarrow> js ''default''))
      | _ \<Rightarrow> (case parent_of byId current of None \<Rightarrow> Some None | Some p \<Rightarrow> last_role byId p))"

definition getLastModelChangeRole :: "session \<Rightarrow> jstring option option" where
  "getLastModelChangeRole s =
     (case getLeafEntry s of None \<Rightarrow> Some None | Some e \<Rightarrow> last_role (sm_byId s) e)"

definition getEntry :: "session \<Rightarrow> jstring \<Rightarrow> entry option" where
  "getEntry s i = map_get (sm_byId s) i"

definition getChildren :: "session \<Rightarrow> jstring \<Rightarrow> entry list" where
  "getChildren s p = filter (\<lambda>e. en_parentId e = Some p) (map snd (sm_byId s))"

definition getLabel :: "session \<Rightarrow> jstring \<Rightarrow> jstring option" where
  "getLabel s i = map_get (sm_labelsById s) i"

definition getEntries :: "session \<Rightarrow> entry list" where
  "getEntries s = entries_of (sm_fileEntries s)"

definition getHeader :: "session \<Rightarrow> session_header option" where
  "getHeader s =
     (case find (\<lambda>f. case f of Header _ \<Rightarrow> True | _ \<Rightarrow> False) (sm_fileEntries s) of
        Some (Header h) \<Rightarrow> Some h | _ \<Rightarrow> None)"

definition rules_of :: "entry list \<Rightarrow> jstring list" where
  "rules_of path = foldl (\<lambda>acc e. case en_kind e of
      TtsrInjection names \<Rightarrow> foldl set_add acc names | _ \<Rightarrow> acc) [] path"

definition getInjectedTtsrRules :: "session \<Rightarrow> jstring list option" where
  "getInjectedTtsrRules s = map_option rules_of (getBranch s None)"

section \<open>Branching\<close>

definition branch :: "session \<Rightarrow> jstring \<Rightarrow> session_error + session" where
  "branch s i =
     (if map_get (sm_byId s) i = None then Inl (EntryNotFound i) else Inr (s\<lparr>sm_leafId := Some i\<rparr>))"

definition resetLeaf :: "session \<Rightarrow> session" where
  "resetLeaf s = s\<lparr>sm_leafId := None\<rparr>"

definition branchWithSummary ::
  "session \<Rightarrow> id_source \<Rightarrow> nat \<Rightarrow> jstring option \<Rightarrow> jstring \<Rightarrow> (jstring list \<times> jstring list) option \<Rightarrow> bool \<Rightarrow>
   session_error + session" where
  "branchWithSummary s src now i summary details fromExtension =
     (if (case i of None \<Rightarrow> False | Some i \<Rightarrow> map_get (sm_byId s) i = None)
      then Inl (EntryNotFound (the i))
      else Inr (append_kind (s\<lparr>sm_leafId := i\<rparr>) src now
        (BranchSummary (case i of Some i \<Rightarrow> i | None \<Rightarrow> js ''root'') summary details fromExtension)))"

text \<open>The labels that are written again at the end of a path, one under the other.\<close>

fun relabel ::
  "id_source list \<Rightarrow> nat \<Rightarrow> jstring list \<Rightarrow> jstring option \<Rightarrow> (jstring \<times> jstring) list \<Rightarrow> entry list" where
  "relabel srcs now used parent [] = []"
| "relabel srcs now used parent ((target, label) # rest) =
     (let i = generateId (hd srcs) used
      in \<lparr>en_id = i, en_parentId = parent, en_timestamp = now, en_kind = Label target (Some label)\<rparr>
         # relabel (tl srcs) now (used @ [i]) (Some i) rest)"

definition path_and_labels :: "id_source list \<Rightarrow> nat \<Rightarrow> (jstring \<times> jstring) list \<Rightarrow> entry list \<Rightarrow> entry list" where
  "path_and_labels srcs now labels path =
     (let kept = filter (\<lambda>e. \<not> is_label e) path; ids = map en_id kept;
          toWrite = filter (\<lambda>tl. fst tl \<in> set ids) labels
      in kept @ relabel srcs now ids (if kept = [] then None else Some (en_id (last kept))) toWrite)"

text \<open>The outer option is that of the walk to the root.\<close>

definition createBranchedSession ::
  "session \<Rightarrow> jstring \<Rightarrow> jstring option \<Rightarrow> id_source list \<Rightarrow> nat \<Rightarrow> jstring \<Rightarrow> (session_error + session) option" where
  "createBranchedSession s newId parentSession srcs now leaf =
     map_option (\<lambda>path.
       if length path = 0 then Inl (EntryNotFound leaf)
       else Inr (buildIndex (s\<lparr>sm_sessionId := newId,
         sm_fileEntries := Header \<lparr>hd_version = Some CURRENT_SESSION_VERSION, hd_id = newId, hd_parentSession = parentSession\<rparr>
           # map Entry (path_and_labels srcs now (sm_labelsById s) path)\<rparr>)))
     (getBranch s (Some leaf))"

definition pruneToActiveBranch :: "session \<Rightarrow> id_source list \<Rightarrow> nat \<Rightarrow> (int \<times> session) option" where
  "pruneToActiveBranch s srcs now =
     (case sm_leafId s of
        Some (c # cs) \<Rightarrow>
          (case getHeader s of
             None \<Rightarrow> Some (0, s)
           | Some h \<Rightarrow>
               map_option (\<lambda>path.
                 if length path = 0 then (0, s)
                 else let s' = buildIndex (s\<lparr>sm_fileEntries := Header h #
                            map Entry (path_and_labels srcs now (sm_labelsById s) path)\<rparr>)
                      in (int (length (getEntries s)) - int (length (getEntries s')), s'))
               (getBranch s (Some (c # cs))))
      | _ \<Rightarrow> Some (0, s))"

section \<open>Well-formed sessions\<close>

text \<open>Every entry has a fresh id and hangs under an earlier entry or under the root.\<close>

fun parents_ok :: "jstring set \<Rightarrow> entry list \<Rightarrow> bool" where
  "parents_ok K [] \<longleftrightarrow> True"
| "parents_ok K (e # es) \<longleftrightarrow>
     (case en_parentId e of None \<Rightarrow> True | Some p \<Rightarrow> p \<in> K) \<and> en_id e \<notin> K \<and> en_id e \<noteq> [] \<and>
     parents_ok (insert (en_id e) K) es"

lemma parents_ok_append:
  "parents_ok K (es @ fs) \<longleftrightarrow> parents_ok K es \<and> parents_ok (K \<union> en_id ` set es) fs"
  by (induction es arbitrary: K) (auto simp: Un_commute)

lemma parents_ok_distinct:
  "parents_ok K es \<Longrightarrow> distinct (map en_id es) \<and> set (map en_id es) \<inter> K = {} \<and> [] \<notin> set (map en_id es)"
proof (induction es arbitrary: K)
  case (Cons e es)
  then have "parents_ok (insert (en_id e) K) es" "en_id e \<notin> K" "en_id e \<noteq> []" by simp_all
  with Cons.IH [of "insert (en_id e) K"] show ?case by auto
qed simp

definition tree_ok :: "session \<Rightarrow> bool" where
  "tree_ok s \<longleftrightarrow> parents_ok {} (getEntries s) \<and>
     sm_byId s = map (\<lambda>e. (en_id e, e)) (getEntries s) \<and>
     (case sm_leafId s of None \<Rightarrow> True | Some l \<Rightarrow> l \<in> en_id ` set (getEntries s))"

text \<open>A random source whose fallback, too, is fresh.\<close>

definition source_ok :: "id_source \<Rightarrow> session \<Rightarrow> bool" where
  "source_ok src s \<longleftrightarrow> (\<forall>i. fst src i \<noteq> []) \<and> snd src \<noteq> [] \<and> snd src \<notin> set (map_keys (sm_byId s))"

lemma generateId_fresh:
  assumes "\<forall>i. fst src i \<noteq> []" "snd src \<noteq> []" "snd src \<notin> set used"
  shows "generateId src used \<notin> set used \<and> generateId src used \<noteq> []"
proof (cases "find (\<lambda>i. fst src i \<notin> set used) [0..<100]")
  case None
  then show ?thesis using assms by (simp add: generateId_def)
next
  case (Some i)
  then have "fst src i \<notin> set used" by (auto simp: find_Some_iff)
  then show ?thesis using assms Some by (simp add: generateId_def)
qed

section \<open>Paths to the root\<close>

definition root_path :: "entry list \<Rightarrow> bool" where
  "root_path p \<longleftrightarrow> p \<noteq> [] \<and> en_parentId (hd p) = None \<and>
     successively (\<lambda>a b. en_parentId b = Some (en_id a)) p"

lemma root_path_snoc:
  "root_path (p @ [e]) \<longleftrightarrow> (if p = [] then en_parentId e = None
     else root_path p \<and> en_parentId e = Some (en_id (last p)))"
  by (auto simp: root_path_def successively_append_iff)

text \<open>The path to an entry, found in the entries from the newest to the oldest.\<close>

fun path_in :: "entry list \<Rightarrow> jstring \<Rightarrow> entry list" where
  "path_in [] i = []"
| "path_in (e # older) i =
     (if en_id e = i then (case en_parentId e of None \<Rightarrow> [] | Some p \<Rightarrow> path_in older p) @ [e]
      else path_in older i)"

definition path_to :: "entry list \<Rightarrow> jstring \<Rightarrow> entry list" where
  "path_to es i = path_in (rev es) i"

lemma path_to_snoc [simp]:
  "path_to (es @ [e]) i =
     (if en_id e = i then (case en_parentId e of None \<Rightarrow> [] | Some p \<Rightarrow> path_to es p) @ [e] else path_to es i)"
  by (simp add: path_to_def split: option.splits)

lemma path_to_Nil [simp]: "path_to [] i = []"
  by (simp add: path_to_def)

lemma parents_ok_snoc [simp]:
  "parents_ok {} (es @ [e]) \<longleftrightarrow> parents_ok {} es \<and>
     (case en_parentId e of None \<Rightarrow> True | Some p \<Rightarrow> p \<in> en_id ` set es) \<and>
     en_id e \<notin> en_id ` set es \<and> en_id e \<noteq> []"
  by (auto simp: parents_ok_append)

lemma walk_path_to:
  assumes "parents_ok {} es" "\<forall>f\<in>set es. map_get m (en_id f) = Some f" "e \<in> set es"
  shows "walk m e p = Some (path_to es (en_id e) @ p)"
  using assms
proof (induction es arbitrary: e p rule: rev_induct)
  case (snoc x es)
  have ok: "parents_ok {} es" "\<forall>f\<in>set es. map_get m (en_id f) = Some f" using snoc.prems by simp_all
  show ?case
  proof (cases "e = x")
    case False
    then have e: "e \<in> set es" using snoc.prems(3) by simp
    then have "en_id x \<noteq> en_id e" using snoc.prems(1) by force
    then show ?thesis using snoc.IH [OF ok e] by simp
  next
    case x: True
    show ?thesis
    proof (cases "en_parentId x")
      case None
      then show ?thesis using x by (simp add: walk.simps parent_of_def)
    next
      case (Some q)
      then obtain f where f: "f \<in> set es" "en_id f = q" using snoc.prems(1) by auto
      then have "q \<noteq> []" using parents_ok_distinct [OF ok(1)] by force
      then obtain c cs where q: "q = c # cs" by (cases q) auto
      have "map_get m q = Some f" using ok(2) f by auto
      then have "walk m x p = walk m f (x # p)" using Some q by (subst walk.simps) (simp add: parent_of_def)
      then show ?thesis using snoc.IH [OF ok f(1), of "x # p"] x Some f(2) by simp
    qed
  qed
qed simp

lemma path_to_root_path:
  assumes "parents_ok {} es" "i \<in> en_id ` set es"
  shows "root_path (path_to es i) \<and> en_id (last (path_to es i)) = i \<and> set (path_to es i) \<subseteq> set es"
  using assms
proof (induction es arbitrary: i rule: rev_induct)
  case (snoc x es)
  have ok: "parents_ok {} es" using snoc.prems by simp
  show ?case
  proof (cases "en_id x = i")
    case False
    then have "i \<in> en_id ` set es" using snoc.prems(2) by auto
    from snoc.IH [OF ok this] False show ?thesis by auto
  next
    case x: True
    show ?thesis
    proof (cases "en_parentId x")
      case None
      then show ?thesis using x by (simp add: root_path_def)
    next
      case (Some q)
      then have "q \<in> en_id ` set es" using snoc.prems(1) by simp
      from snoc.IH [OF ok this] have "root_path (path_to es q)" "en_id (last (path_to es q)) = q"
        "set (path_to es q) \<subseteq> set es" by simp_all
      then show ?thesis using x Some by (auto simp: root_path_snoc) (simp add: root_path_def)
    qed
  qed
qed simp

lemma path_to_append:
  assumes "parents_ok {} (es @ fs)" "i \<in> en_id ` set es"
  shows "path_to (es @ fs) i = path_to es i"
  using assms(1)
proof (induction fs rule: rev_induct)
  case (snoc f fs)
  then have ok: "parents_ok {} ((es @ fs) @ [f])" by simp
  then have "en_id f \<notin> en_id ` set (es @ fs)" "parents_ok {} (es @ fs)"
    unfolding parents_ok_snoc by blast+
  then have "en_id f \<noteq> i" "path_to (es @ fs) i = path_to es i" using snoc.IH assms(2) by auto
  then have "path_to ((es @ fs) @ [f]) i = path_to es i" by (simp only: path_to_snoc if_False)
  then show ?case by simp
qed simp

section \<open>Branches of well-formed sessions\<close>

lemma byId_get:
  assumes "tree_ok s" "e \<in> set (getEntries s)"
  shows "map_get (sm_byId s) (en_id e) = Some e"
proof -
  have "distinct (map en_id (getEntries s))" using assms(1) parents_ok_distinct by (auto simp: tree_ok_def)
  then show ?thesis using assms by (simp add: tree_ok_def map_get_def map_of_eq_Some_iff comp_def)
qed

lemma byId_None:
  assumes "tree_ok s" shows "map_get (sm_byId s) i = None \<longleftrightarrow> i \<notin> en_id ` set (getEntries s)"
  using assms by (simp add: tree_ok_def map_get_def map_of_eq_None_iff image_image)

lemma branch_spec:
  assumes "tree_ok s" "i \<in> en_id ` set (getEntries s)"
  shows "getBranch s (Some i) = Some (path_to (getEntries s) i)"
proof -
  obtain e where e: "e \<in> set (getEntries s)" "en_id e = i" using assms(2) by auto
  have ok: "parents_ok {} (getEntries s)" using assms(1) by (simp add: tree_ok_def)
  have "i \<noteq> []" using parents_ok_distinct [OF ok] e by force
  then obtain c cs where i: "i = c # cs" by (cases i) auto
  have "map_get (sm_byId s) (c # cs) = Some e" using byId_get [OF assms(1) e(1)] e(2) i by simp
  moreover have "walk (sm_byId s) e [] = Some (path_to (getEntries s) i)"
    using walk_path_to [OF ok _ e(1), of "sm_byId s" "[]"] byId_get [OF assms(1)] e(2) by simp
  ultimately show ?thesis using i by (simp add: getBranch_def)
qed

lemma leaf_branch:
  assumes "tree_ok s"
  shows "getBranch s None = Some (case sm_leafId s of None \<Rightarrow> [] | Some l \<Rightarrow> path_to (getEntries s) l)"
proof (cases "sm_leafId s")
  case None
  then show ?thesis by (simp add: getBranch_def)
next
  case (Some l)
  then have "getBranch s None = getBranch s (Some l)" by (simp add: getBranch_def)
  then show ?thesis using branch_spec [OF assms, of l] Some assms by (simp add: tree_ok_def)
qed


section \<open>The operations keep sessions well-formed\<close>

lemma tree_new: "tree_ok (newSession i p)"
  by (simp add: tree_ok_def newSession_def getEntries_def)

lemma entries_append [simp]: "getEntries (append_kind s src now k) = getEntries s @
    [\<lparr>en_id = generateId src (map_keys (sm_byId s)), en_parentId = sm_leafId s, en_timestamp = now, en_kind = k\<rparr>]"
  by (simp add: getEntries_def append_kind_def appendEntry_def)

lemma append_fresh:
  assumes "tree_ok s" "source_ok src s"
  shows "generateId src (map_keys (sm_byId s)) \<notin> en_id ` set (getEntries s)"
    "generateId src (map_keys (sm_byId s)) \<noteq> []"
proof -
  have "map_keys (sm_byId s) = map en_id (getEntries s)"
    using assms(1) by (simp add: tree_ok_def map_keys_def comp_def)
  then show "generateId src (map_keys (sm_byId s)) \<notin> en_id ` set (getEntries s)"
    "generateId src (map_keys (sm_byId s)) \<noteq> []"
    using generateId_fresh [of src "map_keys (sm_byId s)"] assms(2) by (simp_all add: source_ok_def)
qed

lemma tree_append:
  assumes "tree_ok s" "source_ok src s"
  shows "tree_ok (append_kind s src now k)"
proof -
  let ?e = "\<lparr>en_id = generateId src (map_keys (sm_byId s)), en_parentId = sm_leafId s, en_timestamp = now, en_kind = k\<rparr>"
  have new: "en_id ?e \<notin> set (map_keys (sm_byId s))"
    using generateId_fresh [of src "map_keys (sm_byId s)"] assms(2) by (simp add: source_ok_def)
  have "sm_byId (append_kind s src now k) = sm_byId s @ [(en_id ?e, ?e)]"
    using keys_map_set_new [OF new] by (simp add: append_kind_def appendEntry_def)
  moreover have "sm_leafId (append_kind s src now k) = Some (en_id ?e)"
    by (simp add: append_kind_def appendEntry_def)
  ultimately show ?thesis
    using append_fresh [OF assms] assms(1) by (simp add: tree_ok_def split: option.splits)
qed

lemma tree_leaf:
  assumes "tree_ok s" "case i of None \<Rightarrow> True | Some l \<Rightarrow> map_get (sm_byId s) l \<noteq> None"
  shows "tree_ok (s\<lparr>sm_leafId := i\<rparr>)"
  using assms byId_None [OF assms(1)] by (auto simp: tree_ok_def getEntries_def split: option.splits)

lemma tree_labels: "tree_ok (s\<lparr>sm_labelsById := l\<rparr>) = tree_ok s"
  by (simp add: tree_ok_def getEntries_def cong: option.case_cong)

lemma index_entries:
  assumes "distinct (map en_id es)" "set (map en_id es) \<inter> set (map_keys (sm_byId s)) = {}"
  shows "sm_byId (foldl index_entry s es) = sm_byId s @ map (\<lambda>e. (en_id e, e)) es \<and>
    sm_leafId (foldl index_entry s es) = (if es = [] then sm_leafId s else Some (en_id (last es))) \<and>
    sm_fileEntries (foldl index_entry s es) = sm_fileEntries s"
  using assms
proof (induction es arbitrary: s)
  case (Cons e es)
  have new: "map_set (sm_byId s) (en_id e) e = sm_byId s @ [(en_id e, e)]"
    by (rule keys_map_set_new) (use Cons.prems in auto)
  have "sm_byId (index_entry s e) = sm_byId s @ [(en_id e, e)]" by (simp add: index_entry_def new)
  moreover from this have "set (map en_id es) \<inter> set (map_keys (sm_byId (index_entry s e))) = {}"
    using Cons.prems by (auto simp: map_keys_def)
  moreover have "sm_fileEntries (index_entry s e) = sm_fileEntries s" "sm_leafId (index_entry s e) = Some (en_id e)"
    by (simp_all add: index_entry_def)
  ultimately show ?case using Cons.IH [of "index_entry s e"] Cons.prems by simp
qed simp

lemma build_spec:
  assumes "distinct (map en_id (getEntries s))"
  shows "sm_byId (buildIndex s) = map (\<lambda>e. (en_id e, e)) (getEntries s)"
    "sm_leafId (buildIndex s) = (if getEntries s = [] then None else Some (en_id (last (getEntries s))))"
    "getEntries (buildIndex s) = getEntries s"
  using index_entries [of "getEntries s" "s\<lparr>sm_byId := [], sm_labelsById := [], sm_leafId := None,
       sm_usageStatistics := no_usage\<rparr>"] assms
  by (simp_all add: buildIndex_def getEntries_def map_keys_def)

lemma tree_build:
  assumes "parents_ok {} (getEntries s)"
  shows "tree_ok (buildIndex s)"
  using build_spec [of s] parents_ok_distinct [OF assms] assms by (simp add: tree_ok_def)

section \<open>Labels\<close>

definition labels_ok :: "(jstring \<times> jstring) list \<Rightarrow> bool" where
  "labels_ok m \<longleftrightarrow> distinct (map_keys m) \<and> [] \<notin> snd ` set m"

lemma labels_set: "labels_ok m \<Longrightarrow> labels_ok (set_label m t l)"
proof -
  assume ok: "labels_ok m"
  have del: "labels_ok (AList.delete t m)"
    using ok by (auto simp: labels_ok_def map_keys_def distinct_map_filter AList.delete_eq)
  have upd: "labels_ok (map_set m t (c # cs))" for c cs
  proof -
    have "[] \<notin> snd ` set (map_set m t (c # cs))"
      using ok by (induction m) (auto simp: labels_ok_def map_set_def map_keys_def split: if_splits)
    then show ?thesis using ok by (simp add: labels_ok_def distinct_map_set)
  qed
  show ?thesis using del upd by (auto simp: set_label_def split: option.splits list.splits)
qed

definition label_entry :: "(jstring \<times> jstring) list \<Rightarrow> entry \<Rightarrow> (jstring \<times> jstring) list" where
  "label_entry m e = (case en_kind e of Label t l \<Rightarrow> set_label m t l | _ \<Rightarrow> m)"

lemma index_labels: "sm_labelsById (foldl index_entry s es) = foldl label_entry (sm_labelsById s) es"
  by (induction es arbitrary: s) (simp_all add: index_entry_def label_entry_def)

lemma build_labels: "sm_labelsById (buildIndex s) = foldl label_entry [] (getEntries s)"
  by (simp add: buildIndex_def index_labels getEntries_def)

lemma labels_fold: "labels_ok m \<Longrightarrow> labels_ok (foldl label_entry m es)"
  by (induction es arbitrary: m) (auto simp: label_entry_def labels_set split: entry_kind.splits)

section \<open>Sound sessions\<close>

definition session_ok :: "session \<Rightarrow> bool" where
  "session_ok s \<longleftrightarrow> tree_ok s \<and> labels_ok (sm_labelsById s) \<and> (\<exists>h fs. sm_fileEntries s = Header h # fs)"

lemma ok_build:
  assumes "parents_ok {} es" "sm_fileEntries s = Header h # map Entry es"
  shows "session_ok (buildIndex s)"
proof -
  have "tree_ok (buildIndex s)" by (rule tree_build) (use assms in \<open>simp add: getEntries_def\<close>)
  moreover have "labels_ok (sm_labelsById (buildIndex s))"
    unfolding build_labels by (rule labels_fold) (simp add: labels_ok_def map_keys_def)
  moreover have "sm_fileEntries (buildIndex s) = Header h # map Entry es"
  proof -
    have "sm_fileEntries (foldl index_entry t xs) = sm_fileEntries t" for t xs
      by (induction xs arbitrary: t) (simp_all add: index_entry_def)
    then show ?thesis using assms(2) by (simp add: buildIndex_def)
  qed
  ultimately show ?thesis by (simp add: session_ok_def)
qed

lemma ok_append: "session_ok s \<Longrightarrow> source_ok src s \<Longrightarrow> session_ok (append_kind s src now k)"
  using tree_append by (auto simp: session_ok_def append_kind_def appendEntry_def)

section \<open>Pruning\<close>

lemma root_path_parents:
  assumes "root_path p" "distinct (map en_id p)" "[] \<notin> en_id ` set p"
  shows "parents_ok {} p \<and> path_to p (en_id (last p)) = p"
  using assms
proof (induction p rule: rev_induct)
  case (snoc e p)
  show ?case
  proof (cases "p = []")
    case False
    then have r: "root_path p" "en_parentId e = Some (en_id (last p))" using snoc.prems(1) by (simp_all add: root_path_snoc)
    then have "parents_ok {} p" "path_to p (en_id (last p)) = p" using snoc.IH snoc.prems(2,3) by simp_all
    then show ?thesis using r(2) False snoc.prems(2,3) by (auto simp: image_iff)
  qed (use snoc.prems in \<open>simp add: root_path_def path_to_def\<close>)
qed (simp add: root_path_def)

lemma relabel_path:
  assumes "root_path p"
  shows "root_path (p @ relabel srcs now used (Some (en_id (last p))) ls)"
  using assms
proof (induction ls arbitrary: p srcs used)
  case (Cons l ls)
  obtain t x where l: "l = (t, x)" by (cases l)
  let ?e = "\<lparr>en_id = generateId (hd srcs) used, en_parentId = Some (en_id (last p)), en_timestamp = now,
      en_kind = Label t (Some x)\<rparr>"
  have "root_path (p @ [?e])" using Cons.prems by (simp add: root_path_snoc) (auto simp: root_path_def)
  from Cons.IH [OF this, of "tl srcs" "used @ [en_id ?e]"] show ?case by (simp add: l Let_def)
qed simp

lemma relabel_labels: "filter (\<lambda>e. \<not> is_label e) (relabel srcs now used parent ls) = []"
  by (induction ls arbitrary: srcs used parent) (auto simp: Let_def is_label_def)

lemma relabel_index:
  assumes "distinct (map fst ls)" "[] \<notin> snd ` set ls" "fst ` set ls \<inter> set (map_keys m) = {}"
  shows "foldl label_entry m (relabel srcs now used parent ls) = m @ ls"
  using assms
proof (induction ls arbitrary: srcs used parent m)
  case (Cons l ls)
  obtain t x where l: "l = (t, x)" by (cases l)
  obtain c cs where x: "x = c # cs" using Cons.prems(2) l by (cases x) auto
  have "map_set m t x = m @ [(t, x)]" by (rule keys_map_set_new) (use Cons.prems(3) l in auto)
  then show ?case
    using Cons.IH [of "m @ [(t, x)]" "tl srcs" "used @ [generateId (hd srcs) used]"] Cons.prems
    by (auto simp: l x Let_def label_entry_def set_label_def map_keys_def)
qed simp

lemma unlabelled_index:
  "filter is_label es = [] \<Longrightarrow> foldl label_entry m es = m"
  by (induction es arbitrary: m) (auto simp: label_entry_def is_label_def split: entry_kind.splits)

lemma path_labels_index:
  assumes "labels_ok labels"
  shows "foldl label_entry [] (path_and_labels srcs now labels path) =
    filter (\<lambda>tl. fst tl \<in> set (map en_id (filter (\<lambda>e. \<not> is_label e) path))) labels"
proof -
  let ?k = "filter (\<lambda>e. \<not> is_label e) path"
  have "filter is_label ?k = []" by (simp add: filter_empty_conv)
  moreover have "distinct (map fst (filter P labels))" "[] \<notin> snd ` set (filter P labels)" for P
    using assms by (auto simp: labels_ok_def map_keys_def distinct_map_filter)
  ultimately show ?thesis
    by (simp add: path_and_labels_def Let_def unlabelled_index relabel_index map_keys_def)
qed


lemma map_of_filter_keys: "map_of (filter (\<lambda>x. fst x \<in> K) m) k = (if k \<in> K then map_of m k else None)"
  by (induction m) auto

lemma prune_spec:
  assumes ok: "session_ok s" and br: "getBranch s None = Some path" "path \<noteq> []"
    and path: "root_path (path_and_labels srcs now (sm_labelsById s) path)"
    and ids: "distinct (map en_id (path_and_labels srcs now (sm_labelsById s) path))"
      "[] \<notin> en_id ` set (path_and_labels srcs now (sm_labelsById s) path)"
  shows "\<exists>n s'. pruneToActiveBranch s srcs now = Some (n, s') \<and> session_ok s' \<and>
    getEntries s' = path_and_labels srcs now (sm_labelsById s) path \<and>
    getBranch s' None = Some (path_and_labels srcs now (sm_labelsById s) path) \<and>
    (\<forall>i\<in>en_id ` {e \<in> set path. \<not> is_label e}. getLabel s' i = getLabel s i)"
proof -
  let ?P = "path_and_labels srcs now (sm_labelsById s) path"
  obtain h fs where h: "sm_fileEntries s = Header h # fs" using ok by (auto simp: session_ok_def)
  obtain c cs where l: "sm_leafId s = Some (c # cs)"
    using br by (auto simp: getBranch_def split: option.splits list.splits)
  let ?t = "s\<lparr>sm_fileEntries := Header h # map Entry ?P\<rparr>"
  let ?s = "buildIndex ?t"
  have b: "getBranch s (Some (c # cs)) = Some path" using br(1) l by (simp add: getBranch_def)
  have prune: "pruneToActiveBranch s srcs now = Some (int (length (getEntries s)) - int (length (getEntries ?s)), ?s)"
    using l h b br(2) by (simp add: pruneToActiveBranch_def getHeader_def Let_def)
  have po: "parents_ok {} ?P" "path_to ?P (en_id (last ?P)) = ?P"
    using root_path_parents [OF path ids] by simp_all
  have es: "getEntries ?t = ?P" by (simp add: getEntries_def)
  have s': "session_ok ?s" by (rule ok_build [OF po(1)]) simp
  have ne: "?P \<noteq> []" using path by (auto simp: root_path_def)
  have es': "getEntries ?s = ?P" "sm_leafId ?s = Some (en_id (last ?P))"
    using build_spec [of ?t] ids(1) ne es by simp_all
  have br': "getBranch ?s None = Some ?P"
    using leaf_branch [of ?s] s' es' po(2) by (simp add: session_ok_def)
  have lab: "sm_labelsById ?s = filter (\<lambda>tl. fst tl \<in> set (map en_id (filter (\<lambda>e. \<not> is_label e) path))) (sm_labelsById s)"
    using path_labels_index ok by (simp add: build_labels es session_ok_def)
  show ?thesis using prune s' es'(1) br' lab
    by (auto simp: getLabel_def map_get_def map_of_filter_keys)
qed

section \<open>Reachable sessions\<close>

text \<open>
  When a branch may be written out on its own: its labels stand at the end, and the ids drawn
  for the labels that are written again are new.
\<close>

definition labels_last :: "entry list \<Rightarrow> bool" where
  "labels_last path \<longleftrightarrow> (\<exists>kept lbls. path = kept @ lbls \<and> list_all (\<lambda>e. \<not> is_label e) kept \<and> list_all is_label lbls)"

definition writes_ok :: "id_source list \<Rightarrow> nat \<Rightarrow> session \<Rightarrow> entry list \<Rightarrow> bool" where
  "writes_ok srcs now s path \<longleftrightarrow> labels_last path \<and>
     distinct (map en_id (path_and_labels srcs now (sm_labelsById s) path)) \<and>
     [] \<notin> en_id ` set (path_and_labels srcs now (sm_labelsById s) path)"

lemma branch_path:
  assumes t: "tree_ok s" and b: "getBranch s i = Some path" "path \<noteq> []"
  shows "root_path path"
proof -
  obtain c cs e where l: "(case i of Some i \<Rightarrow> Some i | None \<Rightarrow> sm_leafId s) = Some (c # cs)"
      "map_get (sm_byId s) (c # cs) = Some e"
    using b by (auto simp: getBranch_def split: option.splits list.splits)
  then have e: "c # cs \<in> en_id ` set (getEntries s)"
    using t by (auto simp: tree_ok_def map_get_def dest!: map_of_SomeD)
  have "getBranch s i = getBranch s (Some (c # cs))" using l(1) by (auto simp: getBranch_def split: option.splits)
  then have "path = path_to (getEntries s) (c # cs)" using branch_spec [OF t e] b(1) by simp
  then show ?thesis using path_to_root_path e t by (simp add: tree_ok_def)
qed

lemma written_path:
  assumes "root_path path" "path = kept @ lbls" "kept \<noteq> []"
    and "list_all (\<lambda>e. \<not> is_label e) kept" "list_all is_label lbls"
  shows "\<exists>ls. path_and_labels srcs now labels path = kept @ relabel srcs now (map en_id kept) (Some (en_id (last kept))) ls"
    and "root_path (path_and_labels srcs now labels path)"
proof -
  have rk: "root_path kept" using assms(1,2,3) by (auto simp: root_path_def successively_append_iff)
  have f: "filter (\<lambda>e. \<not> is_label e) path = kept"
    using assms(2,4,5) by (simp add: list_all_iff filter_empty_conv)
  then show p: "\<exists>ls. path_and_labels srcs now labels path =
      kept @ relabel srcs now (map en_id kept) (Some (en_id (last kept))) ls"
    using assms(3) by (simp add: path_and_labels_def Let_def) blast
  show "root_path (path_and_labels srcs now labels path)" using p relabel_path [OF rk] by auto
qed

lemma labels_only:
  assumes "list_all is_label path"
  shows "path_and_labels srcs now labels path = []"
proof -
  have "filter (\<lambda>e. \<not> is_label e) path = []" using assms by (simp add: list_all_iff filter_empty_conv)
  then show ?thesis by (simp add: path_and_labels_def Let_def)
qed

lemma rewritten_ok:
  assumes "session_ok s" "getBranch s i = Some path" "writes_ok srcs now s path"
    and "sm_fileEntries t = Header h # map Entry (path_and_labels srcs now (sm_labelsById s) path)"
  shows "session_ok (buildIndex t)"
proof -
  obtain kept lbls where k: "path = kept @ lbls" "list_all (\<lambda>e. \<not> is_label e) kept" "list_all is_label lbls"
    using assms(3) by (auto simp: writes_ok_def labels_last_def)
  have "parents_ok {} (path_and_labels srcs now (sm_labelsById s) path)"
  proof (cases "kept = []")
    case True
    then show ?thesis using k labels_only by simp
  next
    case False
    then have "root_path path" using branch_path [of s i path] assms(1,2) k(1) by (simp add: session_ok_def)
    from written_path(2) [OF this k(1) False k(2,3)] show ?thesis
      using root_path_parents assms(3) by (simp add: writes_ok_def)
  qed
  then show ?thesis by (rule ok_build [OF _ assms(4)])
qed

inductive session_reach :: "session \<Rightarrow> bool" where
  New: "session_reach (newSession i p)"
| Load: "parents_ok {} es \<Longrightarrow>
    session_reach (buildIndex ((newSession i p)\<lparr>sm_fileEntries := Header h # map Entry es\<rparr>))"
| Append: "session_reach s \<Longrightarrow> source_ok src s \<Longrightarrow> session_reach (append_kind s src now k)"
| Set_Label: "session_reach s \<Longrightarrow> source_ok src s \<Longrightarrow> appendLabelChange s src now t l = Inr s' \<Longrightarrow> session_reach s'"
| Move_Leaf: "session_reach s \<Longrightarrow> branch s i = Inr s' \<Longrightarrow> session_reach s'"
| Reset_Leaf: "session_reach s \<Longrightarrow> session_reach (resetLeaf s)"
| Summarize: "session_reach s \<Longrightarrow> source_ok src s \<Longrightarrow> branchWithSummary s src now b summary details ext = Inr s' \<Longrightarrow> session_reach s'"
| Prune: "session_reach s \<Longrightarrow> getBranch s None = Some path \<Longrightarrow> writes_ok srcs now s path \<Longrightarrow>
    pruneToActiveBranch s srcs now = Some (n, s') \<Longrightarrow> session_reach s'"
| Branch_Off: "session_reach s \<Longrightarrow> getBranch s (Some leaf) = Some path \<Longrightarrow> writes_ok srcs now s path \<Longrightarrow>
    createBranchedSession s i p srcs now leaf = Some (Inr s') \<Longrightarrow> session_reach s'"

lemma reach_ok: "session_reach s \<Longrightarrow> session_ok s"
proof (induction rule: session_reach.induct)
  case (New i p)
  then show ?case using tree_new by (simp add: session_ok_def labels_ok_def newSession_def map_keys_def)
next
  case (Load es hdr i p)
  then show ?case by (intro ok_build [where h = hdr and es = es]) simp_all
next
  case (Append s src now k)
  then show ?case by (simp add: ok_append)
next
  case (Set_Label s src now t l s')
  then have "s' = (append_kind s src now (Label t l))\<lparr>sm_labelsById :=
      set_label (sm_labelsById (append_kind s src now (Label t l))) t l\<rparr>"
    by (auto simp: appendLabelChange_def Let_def split: if_splits)
  moreover have "session_ok (append_kind s src now (Label t l))" using Set_Label ok_append by blast
  ultimately show ?case by (auto simp: session_ok_def tree_labels labels_set)
next
  case (Move_Leaf s i s')
  then show ?case using tree_leaf [of s "Some i"] by (auto simp: branch_def session_ok_def split: if_splits)
next
  case (Reset_Leaf s)
  then show ?case using tree_leaf [of s None] by (auto simp: resetLeaf_def session_ok_def)
next
  case (Summarize s src now b summary details ext s')
  then have c: "case b of None \<Rightarrow> True | Some l \<Rightarrow> map_get (sm_byId s) l \<noteq> None"
    and s': "s' = append_kind (s\<lparr>sm_leafId := b\<rparr>) src now
        (BranchSummary (case b of Some i \<Rightarrow> i | None \<Rightarrow> js ''root'') summary details ext)"
    by (auto simp: branchWithSummary_def split: if_splits option.splits)
  have "session_ok (s\<lparr>sm_leafId := b\<rparr>)"
    using Summarize.IH tree_leaf [OF _ c] by (auto simp: session_ok_def)
  then show ?case unfolding s' by (rule ok_append) (use Summarize in \<open>simp add: source_ok_def\<close>)
next
  case (Prune s path srcs now n s')
  show ?case
  proof (cases "s' = s")
    case False
    then obtain c cs h where l: "sm_leafId s = Some (c # cs)" "getHeader s = Some h"
      using Prune(4) by (auto simp: pruneToActiveBranch_def split: option.splits list.splits)
    have b: "getBranch s (Some (c # cs)) = Some path" using Prune(2) l by (simp add: getBranch_def)
    let ?t = "s\<lparr>sm_fileEntries := Header h # map Entry (path_and_labels srcs now (sm_labelsById s) path)\<rparr>"
    have "s' = buildIndex ?t"
      using Prune(4) l b False by (auto simp: pruneToActiveBranch_def Let_def split: if_splits)
    moreover have "session_ok (buildIndex ?t)" by (rule rewritten_ok [OF Prune.IH Prune(2,3)]) simp
    ultimately show ?thesis by simp
  qed (use Prune in simp)
next
  case (Branch_Off s leaf path srcs now i p s')
  then show ?case using rewritten_ok by (auto simp: createBranchedSession_def split: if_splits)
qed

section \<open>Properties\<close>

text \<open>
  C21: every session that the operations produce from a new or a loaded one, with new ids drawn
  for what they append, is a tree: walking from any of its entries up returns, with a path that
  starts at a root, ends at the entry, and steps from parent to child through entries of the
  session.  The operations are appending, labels, moving and resetting the leaf, summaries of
  branches, and, where no label stands before another entry on the branch that is kept, pruning
  to the active branch and branching off to a session of its own.  With a label in the middle
  of the branch these two break the tree (\<open>prune_loses_history_at_label\<close>).
\<close>

theorem session_is_tree:
  assumes "session_reach s"
  shows "tree_ok s \<and> (\<forall>e\<in>set (getEntries s). \<exists>p. getBranch s (Some (en_id e)) = Some p \<and>
    root_path p \<and> last p = e \<and> set p \<subseteq> set (getEntries s))"
proof
  show t: "tree_ok s" using reach_ok [OF assms] by (simp add: session_ok_def)
  show "\<forall>e\<in>set (getEntries s). \<exists>p. getBranch s (Some (en_id e)) = Some p \<and>
    root_path p \<and> last p = e \<and> set p \<subseteq> set (getEntries s)"
  proof
    fix e assume e: "e \<in> set (getEntries s)"
    let ?p = "path_to (getEntries s) (en_id e)"
    have ok: "parents_ok {} (getEntries s)" using t by (simp add: tree_ok_def)
    have r: "root_path ?p" "en_id (last ?p) = en_id e" "set ?p \<subseteq> set (getEntries s)"
      using path_to_root_path [OF ok] e by simp_all
    then have "last ?p \<in> set (getEntries s)" by (metis last_in_set root_path_def subsetD)
    then have "last ?p = e" using r(2) e parents_ok_distinct [OF ok] by (metis distinct_map inj_onD)
    then show "\<exists>p. getBranch s (Some (en_id e)) = Some p \<and>
      root_path p \<and> last p = e \<and> set p \<subseteq> set (getEntries s)"
      using branch_spec [OF t] e r by blast
  qed
qed

definition draws :: "string list \<Rightarrow> id_source" where
  "draws names = (\<lambda>i. js (if i < length names then names ! i else ''x''), js ''0000000000000001'')"

definition hello :: message where
  "hello = UserMessage (Plain (js ''hello''))"

definition two_messages :: session where
  "two_messages = appendMessage (appendMessage (newSession (js ''s'') None) (draws [''a'']) 1 hello) (draws [''b'']) 2 hello"

lemma two_messages_reach: "session_reach two_messages"
  unfolding two_messages_def appendMessage_def
proof (intro session_reach.Append session_reach.New)
  show "source_ok (draws [''a'']) (newSession (js ''s'') None)"
    by (simp add: source_ok_def draws_def newSession_def map_keys_def)
  show "source_ok (draws [''b'']) (append_kind (newSession (js ''s'') None) (draws [''a'']) 1 (Message hello))"
  proof -
    have "map_keys (sm_byId (append_kind (newSession (js ''s'') None) (draws [''a'']) 1 (Message hello))) = [js ''a'']"
      by code_simp
    then show ?thesis by (simp add: source_ok_def draws_def)
  qed
qed

theorem session_is_tree_witness:
  "tree_ok two_messages \<and>
   map_option (map en_id) (getBranch two_messages (Some (js ''b''))) = Some [js ''a'', js ''b'']"
proof
  show "tree_ok two_messages" using session_is_tree [OF two_messages_reach] by blast
qed code_simp

text \<open>
  Appending adds exactly one entry, which becomes the leaf; the active branch is the old
  one followed by it, and the branch of every older entry is unchanged.
\<close>

theorem append_extends_branch:
  assumes "session_reach s" "source_ok src s"
  shows "\<exists>e p. getEntries (append_kind s src now k) = getEntries s @ [e] \<and> en_kind e = k \<and>
    sm_leafId (append_kind s src now k) = Some (en_id e) \<and>
    getBranch s None = Some p \<and> getBranch (append_kind s src now k) None = Some (p @ [e]) \<and>
    (\<forall>f\<in>set (getEntries s). getBranch (append_kind s src now k) (Some (en_id f)) = getBranch s (Some (en_id f)))"
proof -
  let ?s = "append_kind s src now k"
  let ?e = "\<lparr>en_id = generateId src (map_keys (sm_byId s)), en_parentId = sm_leafId s, en_timestamp = now, en_kind = k\<rparr>"
  have t: "tree_ok s" using reach_ok [OF assms(1)] by (simp add: session_ok_def)
  have t': "tree_ok ?s" by (rule tree_append [OF t assms(2)])
  have es: "getEntries ?s = getEntries s @ [?e]" by simp
  have leaf: "sm_leafId ?s = Some (en_id ?e)" by (simp add: append_kind_def appendEntry_def)
  have "getBranch ?s None = Some ((case sm_leafId s of None \<Rightarrow> [] | Some l \<Rightarrow> path_to (getEntries s) l) @ [?e])"
    using leaf_branch [OF t'] leaf es by simp
  moreover have "getBranch ?s (Some (en_id f)) = getBranch s (Some (en_id f))" if f: "f \<in> set (getEntries s)" for f
  proof -
    have "path_to (getEntries ?s) (en_id f) = path_to (getEntries s) (en_id f)"
      unfolding es by (rule path_to_append) (use t' es f in \<open>simp_all only: tree_ok_def image_eqI\<close>)
    then show ?thesis using branch_spec [OF t', of "en_id f"] branch_spec [OF t, of "en_id f"] f by simp
  qed
  ultimately show ?thesis using leaf_branch [OF t] leaf es by (intro exI [of _ ?e]) simp
qed

theorem append_extends_branch_witness:
  "\<exists>e p. getEntries (append_kind two_messages (draws [''c'']) 3 (CustomEntry [])) = getEntries two_messages @ [e] \<and>
    getBranch (append_kind two_messages (draws [''c'']) 3 (CustomEntry [])) None = Some (p @ [e]) \<and> length p = 2"
proof -
  have "map_keys (sm_byId two_messages) = [js ''a'', js ''b'']" by code_simp
  then have "source_ok (draws [''c'']) two_messages" by (simp add: source_ok_def draws_def)
  moreover have "map_option length (getBranch two_messages None) = Some 2" by code_simp
  ultimately show ?thesis using append_extends_branch [OF two_messages_reach, of "draws [''c'']" 3 "CustomEntry []"] by auto
qed

text \<open>
  Pruning to the active branch keeps its entries and the labels of those entries, when
  labels only stand at the end of the branch: the new active branch is the old one without
  its label entries, followed by one new label entry for each label that is still in use.
\<close>

theorem prune_keeps_branch:
  assumes "session_reach s" "getBranch s None = Some (kept @ lbls)"
    and "list_all (\<lambda>e. \<not> is_label e) kept" "list_all is_label lbls" "kept \<noteq> []"
    and "distinct (map en_id (path_and_labels srcs now (sm_labelsById s) (kept @ lbls)))"
    and "[] \<notin> en_id ` set (path_and_labels srcs now (sm_labelsById s) (kept @ lbls))"
  shows "\<exists>n s' new. pruneToActiveBranch s srcs now = Some (n, s') \<and> tree_ok s' \<and>
    getBranch s' None = Some (kept @ new) \<and> list_all is_label new \<and>
    (\<forall>e\<in>set kept. getLabel s' (en_id e) = getLabel s (en_id e))"
proof -
  let ?path = "kept @ lbls"
  have ok: "session_ok s" by (rule reach_ok [OF assms(1)])
  have t: "tree_ok s" using ok by (simp add: session_ok_def)
  obtain l where l: "sm_leafId s = Some l" "?path = path_to (getEntries s) l" "l \<in> en_id ` set (getEntries s)"
    using assms(2,5) leaf_branch [OF t] t by (auto simp: tree_ok_def split: option.splits)
  have "root_path ?path" using path_to_root_path l t by (auto simp: tree_ok_def)
  then have rk: "root_path kept" using assms(5) by (auto simp: root_path_def successively_append_iff)
  have f: "filter (\<lambda>e. \<not> is_label e) ?path = kept"
    using assms(3,4) by (simp add: list_all_iff filter_empty_conv)
  define ls where "ls = filter (\<lambda>tl. fst tl \<in> set (map en_id kept)) (sm_labelsById s)"
  have p: "path_and_labels srcs now (sm_labelsById s) ?path =
      kept @ relabel srcs now (map en_id kept) (Some (en_id (last kept))) ls"
    unfolding path_and_labels_def f Let_def ls_def using assms(5) by simp
  let ?new = "relabel srcs now (map en_id kept) (Some (en_id (last kept))) ls"
  have rp: "root_path (path_and_labels srcs now (sm_labelsById s) ?path)"
    unfolding p by (rule relabel_path [OF rk])
  have new: "list_all is_label ?new"
    using relabel_labels [of srcs now "map en_id kept" "Some (en_id (last kept))" ls]
    by (simp add: filter_empty_conv list_all_iff)
  have k: "set kept \<subseteq> {e \<in> set ?path. \<not> is_label e}" using assms(3) by (auto simp: list_all_iff)
  from prune_spec [OF ok assms(2) _ rp assms(6,7)] obtain n s' where
    r: "pruneToActiveBranch s srcs now = Some (n, s')" "session_ok s'"
      "getBranch s' None = Some (kept @ ?new)"
      "\<forall>i\<in>en_id ` {e \<in> set ?path. \<not> is_label e}. getLabel s' i = getLabel s i"
    using assms(5) p by auto
  have "\<forall>e\<in>set kept. getLabel s' (en_id e) = getLabel s (en_id e)" using r(4) k by blast
  then show ?thesis using r new by (auto simp: session_ok_def)
qed

definition branched :: session where
  "branched = resetLeaf two_messages"

definition labelled :: session where
  "labelled = projr (appendLabelChange (projr (branch (append_kind branched (draws [''c'']) 3 (Message hello)) (js ''a'')))
     (draws [''d'']) 4 (js ''a'') (Some (js ''mark'')))"

lemma labelled_reach: "session_reach labelled"
proof -
  have a: "session_reach (append_kind branched (draws [''c'']) 3 (Message hello))"
  proof (rule session_reach.Append)
    show "session_reach branched" unfolding branched_def by (rule session_reach.Reset_Leaf [OF two_messages_reach])
    have "map_keys (sm_byId branched) = [js ''a'', js ''b'']" by code_simp
    then show "source_ok (draws [''c'']) branched" by (simp add: source_ok_def draws_def)
  qed
  let ?t = "projr (branch (append_kind branched (draws [''c'']) 3 (Message hello)) (js ''a''))"
  have "\<not> isl (branch (append_kind branched (draws [''c'']) 3 (Message hello)) (js ''a''))" by code_simp
  then have b: "session_reach ?t" by (intro session_reach.Move_Leaf [OF a]) (simp add: sum.collapse(2))
  have "\<not> isl (appendLabelChange ?t (draws [''d'']) 4 (js ''a'') (Some (js ''mark'')))" by code_simp
  moreover have "map_keys (sm_byId ?t) = [js ''a'', js ''b'', js ''c'']" by code_simp
  then have "source_ok (draws [''d'']) ?t" by (simp add: source_ok_def draws_def)
  ultimately show ?thesis unfolding labelled_def
    by (intro session_reach.Set_Label [OF b]) (simp_all add: sum.collapse(2))
qed

theorem prune_keeps_branch_witness:
  "\<exists>n s' p. pruneToActiveBranch labelled [draws [''e'']] 5 = Some (n, s') \<and> getBranch s' None = Some p \<and>
    take 1 (map en_id p) = [js ''a''] \<and> getLabel s' (js ''a'') = Some (js ''mark'') \<and> length (getEntries labelled) = 4"
proof -
  let ?b = "the (getBranch labelled None)"
  have b: "map_option (map en_id) (getBranch labelled None) = Some [js ''a'', js ''d'']" by code_simp
  then have len: "length ?b = 2" "getBranch labelled None = Some ?b" by auto
  then obtain x y where xy: "?b = [x] @ [y]" by (auto simp: length_Suc_conv numeral_2_eq_2)
  have "map is_label ?b = [False, True]" "map en_id ?b = [js ''a'', js ''d'']" by code_simp+
  then have l: "\<not> is_label x" "is_label y" "en_id x = js ''a''" unfolding xy by simp_all
  have i: "map en_id (path_and_labels [draws [''e'']] 5 (sm_labelsById labelled) ?b) = [js ''a'', js ''e'']" by code_simp
  then have i': "distinct (map en_id (path_and_labels [draws [''e'']] 5 (sm_labelsById labelled) ([x] @ [y])))"
    "[] \<notin> en_id ` set (path_and_labels [draws [''e'']] 5 (sm_labelsById labelled) ([x] @ [y]))"
    unfolding xy by (simp, metis (no_types, lifting) list.distinct(1) list.set_intros(1) set_ConsD set_map js_Cons list.set_cases empty_iff list.set(1))
  have "getLabel labelled (js ''a'') = Some (js ''mark'')" "length (getEntries labelled) = 4" by code_simp+
  then show ?thesis
    using prune_keeps_branch [OF labelled_reach, of "[x]" "[y]", OF _ _ _ _ i'] len(2) l unfolding xy by fastforce
qed

definition marked_session :: session where
  "marked_session = append_kind (projr (appendLabelChange
     (append_kind (newSession (js ''s'') None) (draws [''a'']) 1 (Message hello))
     (draws [''d'']) 4 (js ''a'') (Some (js ''mark'')))) (draws [''b'']) 5 (Message hello)"

lemma marked_reach: "session_reach marked_session"
proof -
  let ?n = "newSession (js ''s'') None"
  let ?a = "append_kind ?n (draws [''a'']) 1 (Message hello)"
  let ?l = "appendLabelChange ?a (draws [''d'']) 4 (js ''a'') (Some (js ''mark''))"
  have a: "session_reach ?a"
    by (rule session_reach.Append [OF session_reach.New])
       (simp add: source_ok_def draws_def newSession_def map_keys_def)
  have "map_keys (sm_byId ?a) = [js ''a'']" by code_simp
  then have d: "source_ok (draws [''d'']) ?a" by (simp add: source_ok_def draws_def)
  have "\<not> isl ?l" by code_simp
  then have "session_reach (projr ?l)"
    by (intro session_reach.Set_Label [OF a d]) (simp add: sum.collapse(2))
  moreover have "map_keys (sm_byId (projr ?l)) = [js ''a'', js ''d'']" by code_simp
  then have "source_ok (draws [''b'']) (projr ?l)" by (simp add: source_ok_def draws_def)
  ultimately show ?thesis unfolding marked_session_def by (rule session_reach.Append)
qed

text \<open>
  A label on the active branch costs the history before it: after a message, a label and
  another message, pruning to the active branch leaves the first message in the file but no
  longer on the active branch, because the second message hung under the removed label entry.
\<close>

theorem prune_loses_history_at_label:
  "\<exists>s n s' m. session_reach s \<and> getBranch s None = Some m \<and> map (is_label) m = [False, True, False] \<and>
    pruneToActiveBranch s [draws [''e'']] 5 = Some (n, s') \<and> hd m \<in> set (getEntries s') \<and>
    (\<exists>p. getBranch s' None = Some p \<and> hd m \<notin> set p \<and> \<not> tree_ok s')"
proof -
  let ?s = "marked_session" and ?r = "pruneToActiveBranch marked_session [draws [''e'']] 5"
  have "?r \<noteq> None" "getBranch ?s None \<noteq> None" by code_simp+
  then obtain n s' m where r: "?r = Some (n, s')" and m: "getBranch ?s None = Some m" by auto
  have c: "(case ?r of None \<Rightarrow> False | Some (n, s') \<Rightarrow> (case getBranch ?s None of None \<Rightarrow> False | Some m \<Rightarrow>
      map is_label m = [False, True, False] \<and> hd m \<in> set (getEntries s') \<and>
      (case getBranch s' None of None \<Rightarrow> False | Some p \<Rightarrow> hd m \<notin> set p) \<and>
      \<not> parents_ok {} (getEntries s')))"
    by code_simp
  then have "map is_label m = [False, True, False]" "hd m \<in> set (getEntries s')" "\<not> tree_ok s'"
    "\<exists>p. getBranch s' None = Some p \<and> hd m \<notin> set p"
    unfolding r m by (auto simp: tree_ok_def split: option.splits)
  then show ?thesis using marked_reach r m
    by (intro exI [of _ ?s] exI [of _ n] exI [of _ s'] exI [of _ m]) simp
qed

end
