(* ===== verification/Session_Context.thy ===== *)
theory Session_Context
  imports Session_Tree
begin

text \<open>
  What is sent to the model: \<open>buildSessionContext\<close> of
  \<open>packages/coding-agent/src/session/session-manager.ts\<close> resolves the branch of the leaf to
  settings and messages, with compactions replaced by their summaries and tool calls without
  a result removed.
\<close>

section \<open>The context\<close>

record session_context =
  cx_messages :: "message list"
  cx_thinkingLevel :: jstring
  cx_serviceTier :: "jstring option"
  cx_models :: "(jstring \<times> jstring) list"
  cx_injectedTtsrRules :: "jstring list"
  cx_selectedMCPToolNames :: "jstring list"
  cx_hasPersistedMCPToolSelection :: bool
  cx_mode :: jstring
  cx_modeData :: "json option"

definition empty_context :: session_context where
  "empty_context =
     \<lparr>cx_messages = [], cx_thinkingLevel = js ''off'', cx_serviceTier = None, cx_models = [],
      cx_injectedTtsrRules = [], cx_selectedMCPToolNames = [],
      cx_hasPersistedMCPToolSelection = False, cx_mode = js ''none'', cx_modeData = None\<rparr>"

section \<open>Settings along the path\<close>

record path_scan =
  ps_context :: session_context
  ps_compaction :: "(entry \<times> compaction) option"
  ps_explicitDefault :: bool

definition model_change :: "path_scan \<Rightarrow> jstring \<Rightarrow> jstring option \<Rightarrow> path_scan" where
  "model_change ps model role =
     (if model = [] then ps
      else let r = (case role of Some r \<Rightarrow> r | None \<Rightarrow> js ''default'')
           in ps\<lparr>ps_context := (ps_context ps)\<lparr>cx_models := map_set (cx_models (ps_context ps)) r model\<rparr>,
                 ps_explicitDefault := ps_explicitDefault ps \<or> r = js ''default''\<rparr>)"

definition scan_entry :: "path_scan \<Rightarrow> entry \<Rightarrow> path_scan" where
  "scan_entry ps e =
     (let c = ps_context ps
      in case en_kind e of
        ThinkingLevelChange level \<Rightarrow>
          ps\<lparr>ps_context := c\<lparr>cx_thinkingLevel := (case level of Some l \<Rightarrow> l | None \<Rightarrow> js ''off'')\<rparr>\<rparr>
      | ModelChange model role \<Rightarrow> model_change ps model role
      | ServiceTierChange tier \<Rightarrow> ps\<lparr>ps_context := c\<lparr>cx_serviceTier := tier\<rparr>\<rparr>
      | Message (AssistantMessage m) \<Rightarrow>
          (if ps_explicitDefault ps then ps
           else ps\<lparr>ps_context := c\<lparr>cx_models := map_set (cx_models c) (js ''default'')
                  (am_provider m @ js ''/'' @ am_model m)\<rparr>\<rparr>)
      | Compaction cp \<Rightarrow> ps\<lparr>ps_compaction := Some (e, cp)\<rparr>
      | TtsrInjection rules \<Rightarrow>
          ps\<lparr>ps_context := c\<lparr>cx_injectedTtsrRules := foldl set_add (cx_injectedTtsrRules c) rules\<rparr>\<rparr>
      | MCPToolSelection names \<Rightarrow>
          ps\<lparr>ps_context := c\<lparr>cx_selectedMCPToolNames := names, cx_hasPersistedMCPToolSelection := True\<rparr>\<rparr>
      | ModeChange mode data \<Rightarrow> ps\<lparr>ps_context := c\<lparr>cx_mode := mode, cx_modeData := data\<rparr>\<rparr>
      | _ \<Rightarrow> ps)"

definition scan_path :: "entry list \<Rightarrow> path_scan" where
  "scan_path path = foldl scan_entry
     \<lparr>ps_context = empty_context, ps_compaction = None, ps_explicitDefault = False\<rparr> path"

section \<open>Messages of the path\<close>

text \<open>The local function \<open>appendMessage\<close>.\<close>

definition context_messages :: "entry \<Rightarrow> message list" where
  "context_messages e =
     (case en_kind e of
        Message m \<Rightarrow> [m]
      | CustomMessageEntry customType content \<Rightarrow> [CustomMessage customType content]
      | BranchSummary fromId summary _ _ \<Rightarrow>
          (if summary = [] then [] else [BranchSummaryMessage summary fromId (en_timestamp e)])
      | _ \<Rightarrow> [])"

definition remote_payload :: "compaction \<Rightarrow> provider_payload option" where
  "remote_payload c =
     (case cp_preserveData c of
        None \<Rightarrow> None
      | Some kvs \<Rightarrow>
          (case map_of kvs (js ''openaiRemoteCompaction'') of
             None \<Rightarrow> None
           | Some candidate \<Rightarrow>
               (case (json_field candidate (js ''provider''), json_field candidate (js ''replacementHistory'')) of
                  (Some (JString (p # ps)), Some (JArray items)) \<Rightarrow>
                    Some \<lparr>pp_provider = p # ps, pp_items = items\<rparr>
                | _ \<Rightarrow> None)))"

definition compacted_messages :: "entry list \<Rightarrow> entry \<Rightarrow> compaction \<Rightarrow> message list" where
  "compacted_messages path e c =
     (let payload = remote_payload c;
          idx = length (takeWhile (\<lambda>f. \<not> (is_compaction f \<and> en_id f = en_id e)) path);
          summary = CompactionSummaryMessage (cp_summary c) (cp_tokensBefore c) (en_timestamp e)
            (cp_shortSummary c) payload;
          kept = (if payload = None
            then dropWhile (\<lambda>f. en_id f \<noteq> cp_firstKeptEntryId c) (take idx path) else [])
      in summary # concat (map context_messages kept) @
           concat (map context_messages (drop (idx + 1) path)))"

definition path_messages :: "entry list \<Rightarrow> (entry \<times> compaction) option \<Rightarrow> message list" where
  "path_messages path cp =
     (case cp of
        Some (e, c) \<Rightarrow> compacted_messages path e c
      | None \<Rightarrow> concat (map context_messages path))"

section \<open>Tool calls without a result\<close>

definition paired_ids :: "message list \<Rightarrow> jstring list" where
  "paired_ids ms = concat (map (\<lambda>m. case m of ToolResultMessage r \<Rightarrow> [tr_toolCallId r] | _ \<Rightarrow> []) ms)"

definition dangling :: "jstring list \<Rightarrow> assistant_block \<Rightarrow> bool" where
  "dangling ids b = (case b of ToolCall tc \<Rightarrow> tc_id tc \<notin> set ids | _ \<Rightarrow> False)"

definition is_redacted :: "assistant_block \<Rightarrow> bool" where
  "is_redacted b = (case b of RedactedThinking _ \<Rightarrow> True | _ \<Rightarrow> False)"

definition unsign :: "assistant_block \<Rightarrow> assistant_block" where
  "unsign b = (case b of ThinkingBlock t (Some (c # cs)) \<Rightarrow> ThinkingBlock t None | _ \<Rightarrow> b)"

definition strip_message :: "jstring list \<Rightarrow> message \<Rightarrow> message list" where
  "strip_message ids m =
     (case m of
        AssistantMessage a \<Rightarrow>
          (if \<not> list_ex (dangling ids) (am_content a) then [m]
           else let normalized = map unsign
                      (filter (\<lambda>b. \<not> dangling ids b \<and> \<not> is_redacted b) (am_content a))
                in if length normalized = 0 then []
                   else [AssistantMessage (a\<lparr>am_content := normalized\<rparr>)])
      | _ \<Rightarrow> [m])"

definition strip_dangling :: "message list \<Rightarrow> message list" where
  "strip_dangling ms = concat (map (strip_message (paired_ids ms)) ms)"

section \<open>The whole\<close>

definition context_of_path :: "entry list \<Rightarrow> session_context" where
  "context_of_path path =
     (let ps = scan_path path
      in (ps_context ps)\<lparr>cx_messages := strip_dangling (path_messages path (ps_compaction ps))\<rparr>)"

datatype leaf_arg = LeafUndefined | LeafNull | LeafId jstring

text \<open>The option is that of the walk to the root, which does not return on a cycle.\<close>

definition buildSessionContext ::
  "entry list \<Rightarrow> leaf_arg \<Rightarrow> (jstring \<times> entry) list option \<Rightarrow> session_context option" where
  "buildSessionContext entries leafId index =
     (let byId = (case index of Some m \<Rightarrow> m
            | None \<Rightarrow> foldl (\<lambda>m e. map_set m (en_id e) e) [] entries)
      in if leafId = LeafNull then Some empty_context
         else let found = (case leafId of LeafId (c # cs) \<Rightarrow> map_get byId (c # cs) | _ \<Rightarrow> None);
                  leaf = (case found of Some e \<Rightarrow> Some e
                    | None \<Rightarrow> if entries = [] then None else Some (last entries))
              in case leaf of
                   None \<Rightarrow> Some empty_context
                 | Some e \<Rightarrow> map_option context_of_path (walk byId e []))"

definition sessionContext :: "session \<Rightarrow> session_context option" where
  "sessionContext s =
     buildSessionContext (getEntries s)
       (case sm_leafId s of None \<Rightarrow> LeafNull | Some i \<Rightarrow> LeafId i) (Some (sm_byId s))"

section \<open>Further readers\<close>

definition getLatestCompactionEntry :: "entry list \<Rightarrow> entry option" where
  "getLatestCompactionEntry es = find is_compaction (rev es)"

definition getRestorableSessionModels :: "(jstring \<times> jstring) list \<Rightarrow> jstring option \<Rightarrow> jstring list" where
  "getRestorableSessionModels models role =
     (let only = (\<lambda>m. case m of Some (c # cs) \<Rightarrow> [c # cs] | _ \<Rightarrow> []);
          defaultModel = map_get models (js ''default'')
      in case role of
           Some (c # cs) \<Rightarrow>
             (if c # cs = js ''default'' \<or> c # cs = js ''temporary'' then only defaultModel
              else (case map_get models (c # cs) of
                 Some (r # rs) \<Rightarrow>
                   (if only defaultModel = [] \<or> Some (r # rs) = defaultModel then [r # rs]
                    else [r # rs, the defaultModel])
               | _ \<Rightarrow> only defaultModel))
         | _ \<Rightarrow> only defaultModel)"

text \<open>Reloaded assistant messages lose the replay payload and their thinking signatures.\<close>

definition sanitizeRehydratedAssistantMessage :: "assistant_message \<Rightarrow> assistant_message" where
  "sanitizeRehydratedAssistantMessage m =
     (if \<not> am_replay m then m
      else m\<lparr>am_content := map (\<lambda>b. case b of ThinkingBlock t (Some s) \<Rightarrow> ThinkingBlock t None | _ \<Rightarrow> b) (am_content m),
             am_replay := False\<rparr>)"

definition sanitize_entry :: "entry \<Rightarrow> entry" where
  "sanitize_entry e =
     (case en_kind e of
        Message (AssistantMessage m) \<Rightarrow>
          e\<lparr>en_kind := Message (AssistantMessage (sanitizeRehydratedAssistantMessage m))\<rparr>
      | _ \<Rightarrow> e)"

text \<open>The entries are shared by the file order and the index.\<close>

definition sanitizeLoadedReplayMetadata :: "session \<Rightarrow> bool \<times> session" where
  "sanitizeLoadedReplayMetadata s =
     (list_ex (\<lambda>e. case en_kind e of Message (AssistantMessage m) \<Rightarrow> am_replay m | _ \<Rightarrow> False) (getEntries s),
      s\<lparr>sm_fileEntries := map (\<lambda>f. case f of Entry e \<Rightarrow> Entry (sanitize_entry e) | _ \<Rightarrow> f) (sm_fileEntries s),
         sm_byId := map (\<lambda>(i, e). (i, sanitize_entry e)) (sm_byId s)\<rparr>)"

section \<open>Stripping\<close>

lemma paired_strip_message: "paired_ids (strip_message ids m) = paired_ids [m]"
  by (cases m) (auto simp: strip_message_def paired_ids_def Let_def)

lemma paired_concat: "paired_ids (concat mss) = concat (map paired_ids mss)"
  by (induction mss) (simp_all add: paired_ids_def)

lemma paired_strip: "paired_ids (strip_dangling ms) = paired_ids ms"
proof -
  have "map (paired_ids \<circ> strip_message (paired_ids ms)) xs = map (\<lambda>m. paired_ids [m]) xs" for xs
    by (simp add: paired_strip_message)
  moreover have "paired_ids ms = concat (map (\<lambda>m. paired_ids [m]) ms)" by (simp add: paired_ids_def)
  ultimately show ?thesis by (metis map_map paired_concat strip_dangling_def)
qed

definition calls_paired :: "message list \<Rightarrow> bool" where
  "calls_paired ms \<longleftrightarrow> (\<forall>a\<in>{a. AssistantMessage a \<in> set ms}. \<not> list_ex (dangling (paired_ids ms)) (am_content a))"

lemma dangling_unsign: "dangling ids (unsign b) = dangling ids b"
  by (cases b) (auto simp: unsign_def dangling_def split: option.splits list.splits)

lemma strip_message_paired:
  "AssistantMessage a \<in> set (strip_message ids m) \<Longrightarrow> \<not> list_ex (dangling ids) (am_content a)"
  by (cases m) (auto simp: strip_message_def Let_def list_ex_iff dangling_unsign split: if_splits)

lemma strip_paired: "calls_paired (strip_dangling ms)"
  unfolding calls_paired_def paired_strip using strip_message_paired by (auto simp: strip_dangling_def)

definition is_assistant :: "message \<Rightarrow> bool" where
  "is_assistant m = (case m of AssistantMessage _ \<Rightarrow> True | _ \<Rightarrow> False)"

lemma strip_others: "filter (\<lambda>m. \<not> is_assistant m) (strip_dangling ms) = filter (\<lambda>m. \<not> is_assistant m) ms"
proof -
  have "filter (\<lambda>m. \<not> is_assistant m) (strip_message ids m) = filter (\<lambda>m. \<not> is_assistant m) [m]" for ids m
    by (cases m) (simp_all add: strip_message_def is_assistant_def Let_def)
  note one = this
  have "filter (\<lambda>m. \<not> is_assistant m) (concat (map (strip_message ids) xs)) = filter (\<lambda>m. \<not> is_assistant m) xs" for ids xs
    by (induction xs) (simp_all add: one)
  then show ?thesis by (simp add: strip_dangling_def)
qed

lemma strip_id: "calls_paired ms \<Longrightarrow> strip_dangling ms = ms"
proof -
  assume ok: "calls_paired ms"
  have "strip_message (paired_ids ms) m = [m]" if "m \<in> set ms" for m
  proof (cases m)
    case (AssistantMessage a)
    then have "\<not> list_ex (dangling (paired_ids ms)) (am_content a)" using that ok by (simp add: calls_paired_def)
    then show ?thesis using AssistantMessage by (simp add: strip_message_def)
  qed (simp_all add: strip_message_def)
  then have "map (strip_message (paired_ids ms)) ms = map (\<lambda>m. [m]) ms" by simp
  then show ?thesis unfolding strip_dangling_def by (simp only: concat_map_singleton map_ident)
qed

section \<open>The compaction on the path\<close>

lemma scan_entry_compaction:
  "ps_compaction (scan_entry ps e) = (case en_kind e of Compaction cp \<Rightarrow> Some (e, cp) | _ \<Rightarrow> ps_compaction ps)"
  by (auto simp: scan_entry_def Let_def model_change_def split: entry_kind.splits message.splits)

lemma scan_none:
  "list_all (\<lambda>e. \<not> is_compaction e) p \<Longrightarrow> ps_compaction (foldl scan_entry ps p) = ps_compaction ps"
  by (induction p arbitrary: ps) (auto simp: scan_entry_compaction is_compaction_def split: entry_kind.splits)

lemma scan_last:
  assumes "list_all (\<lambda>e. \<not> is_compaction e) after" "en_kind e = Compaction c"
  shows "ps_compaction (scan_path (before @ e # after)) = Some (e, c)"
  by (simp add: scan_path_def scan_none [OF assms(1)] scan_entry_compaction assms(2))

lemma takeWhile_until: "x \<notin> set xs \<Longrightarrow> \<forall>y\<in>set xs. P y \<Longrightarrow> \<not> P x \<Longrightarrow> takeWhile P (xs @ x # ys) = xs"
  by (simp add: takeWhile_append2)

lemma compacted_path:
  assumes "distinct (map en_id (before @ e # after))" "en_kind e = Compaction c"
  shows "compacted_messages (before @ e # after) e c =
    CompactionSummaryMessage (cp_summary c) (cp_tokensBefore c) (en_timestamp e) (cp_shortSummary c) (remote_payload c)
    # (if remote_payload c = None
       then concat (map context_messages (dropWhile (\<lambda>f. en_id f \<noteq> cp_firstKeptEntryId c) before)) else [])
    @ concat (map context_messages after)"
proof -
  let ?P = "\<lambda>f. \<not> (is_compaction f \<and> en_id f = en_id e)"
  have "en_id e \<notin> en_id ` set before" using assms(1) by simp
  then have a: "\<forall>y\<in>set before. ?P y" by (metis image_eqI)
  have b: "\<not> ?P e" using assms(2) by (simp add: is_compaction_def)
  have c: "e \<notin> set before" using assms(1) by auto
  have "takeWhile ?P (before @ e # after) = before" by (rule takeWhile_until [where P = ?P, OF c a b])
  then show ?thesis unfolding compacted_messages_def Let_def by (cases "remote_payload c") simp_all
qed

text \<open>The messages a path stands for, told from its last compaction.\<close>

definition resolves :: "entry list \<Rightarrow> message list \<Rightarrow> bool" where
  "resolves p ms \<longleftrightarrow>
     list_all (\<lambda>e. \<not> is_compaction e) p \<and> ms = concat (map context_messages p) \<or>
     (\<exists>before e c after. p = before @ e # after \<and> en_kind e = Compaction c \<and>
        list_all (\<lambda>e. \<not> is_compaction e) after \<and>
        ms = CompactionSummaryMessage (cp_summary c) (cp_tokensBefore c) (en_timestamp e) (cp_shortSummary c) (remote_payload c)
          # (if remote_payload c = None
             then concat (map context_messages (dropWhile (\<lambda>f. en_id f \<noteq> cp_firstKeptEntryId c) before)) else [])
          @ concat (map context_messages after))"

lemma context_messages_of_path:
  "cx_messages (context_of_path p) = strip_dangling (path_messages p (ps_compaction (scan_path p)))"
  by (simp add: context_of_path_def Let_def)

lemma context_resolves:
  assumes "distinct (map en_id p)"
  shows "\<exists>ms. resolves p ms \<and> cx_messages (context_of_path p) = strip_dangling ms"
proof (cases "list_all (\<lambda>e. \<not> is_compaction e) p")
  case True
  then have "ps_compaction (scan_path p) = None" by (simp add: scan_path_def scan_none)
  then show ?thesis using True by (auto simp: context_messages_of_path path_messages_def resolves_def)
next
  case False
  then have "\<exists>e\<in>set p. is_compaction e" by (simp add: list_all_iff)
  then obtain before e after where p: "p = before @ e # after" "is_compaction e" "\<forall>x\<in>set after. \<not> is_compaction x"
    by (rule split_list_last_propE)
  then obtain c where c: "en_kind e = Compaction c" by (auto simp: is_compaction_def split: entry_kind.splits)
  have a: "list_all (\<lambda>e. \<not> is_compaction e) after" using p(3) by (simp add: list_all_iff)
  have "cx_messages (context_of_path p) = strip_dangling (compacted_messages p e c)"
    unfolding p(1) by (simp only: context_messages_of_path scan_last [OF a c] path_messages_def option.case prod.case)
  then show ?thesis
    using compacted_path [of before e after c] assms c a p(1) unfolding resolves_def by blast
qed

lemma session_context_spec:
  assumes "tree_ok s"
  shows "\<exists>p. getBranch s None = Some p \<and>
    sessionContext s = Some (if sm_leafId s = None then empty_context else context_of_path p)"
proof (cases "sm_leafId s")
  case None
  then show ?thesis using leaf_branch [OF assms] by (simp add: sessionContext_def buildSessionContext_def)
next
  case (Some l)
  then have "l \<in> en_id ` set (getEntries s)" using assms by (simp add: tree_ok_def)
  then obtain e where e: "e \<in> set (getEntries s)" "en_id e = l" by auto
  have ok: "parents_ok {} (getEntries s)" using assms by (simp add: tree_ok_def)
  have "l \<noteq> []" using parents_ok_distinct [OF ok] e by force
  then obtain c cs where l: "l = c # cs" by (cases l) auto
  have g: "map_get (sm_byId s) l = Some e" using byId_get [OF assms e(1)] e(2) by simp
  have "walk (sm_byId s) e [] = Some (path_to (getEntries s) l)"
    using walk_path_to [OF ok _ e(1), of "sm_byId s" "[]"] byId_get [OF assms] e(2) by simp
  then show ?thesis using leaf_branch [OF assms] Some g l
    by (simp add: sessionContext_def buildSessionContext_def Let_def)
qed

lemma path_to_missing: "i \<notin> en_id ` set es \<Longrightarrow> path_to es i = []"
  by (induction es rule: rev_induct) auto

lemma path_to_distinct:
  assumes "parents_ok {} es" shows "distinct (map en_id (path_to es i))"
  using assms
proof (induction es arbitrary: i rule: rev_induct)
  case (snoc x es)
  have ok: "parents_ok {} es" using snoc.prems by simp
  have "set (path_to es q) \<subseteq> set es" for q
    using path_to_root_path [OF ok, of q] path_to_missing [of q es] by (cases "q \<in> en_id ` set es") auto
  then have "en_id x \<notin> en_id ` set (path_to es q)" for q using snoc.prems by (metis imageE image_eqI parents_ok_snoc subsetD)
  then show ?case using snoc.IH [OF ok] by (auto split: option.splits)
qed simp

section \<open>Properties\<close>

text \<open>
  C17: in every context that is built, each tool call of an assistant message has a tool result
  with its id among the messages, whatever the entries, the leaf and the index.
\<close>

theorem context_calls_have_results:
  assumes "buildSessionContext entries leafId index = Some c" "AssistantMessage a \<in> set (cx_messages c)"
    and "ToolCall tc \<in> set (am_content a)"
  shows "\<exists>r. ToolResultMessage r \<in> set (cx_messages c) \<and> tr_toolCallId r = tc_id tc"
proof -
  have "c = empty_context \<or> (\<exists>p. c = context_of_path p)"
    using assms(1) by (auto simp: buildSessionContext_def Let_def split: if_splits option.splits)
  then have "calls_paired (cx_messages c)"
    by (auto simp: context_messages_of_path strip_paired) (simp add: calls_paired_def empty_context_def)
  then have "\<not> dangling (paired_ids (cx_messages c)) (ToolCall tc)"
    using assms(2,3) by (auto simp: calls_paired_def list_ex_iff)
  then show ?thesis by (auto simp: dangling_def paired_ids_def split: message.splits)
qed

definition zero_usage :: usage where
  "zero_usage = \<lparr>us_input = 0, us_output = 0, us_cacheRead = 0, us_cacheWrite = 0, us_totalTokens = 0,
     us_premiumRequests = None\<rparr>"

definition calling :: "string list \<Rightarrow> message" where
  "calling ids = AssistantMessage \<lparr>am_content = map (\<lambda>i. ToolCall \<lparr>tc_id = js i, tc_name = js ''read'', tc_arguments = []\<rparr>) ids,
     am_provider = js ''p'', am_model = js ''m'', am_usage = zero_usage, am_stopReason = StopToolUse, am_errorMessage = None,
     am_replay = False\<rparr>"

definition result_of_call :: "string \<Rightarrow> message" where
  "result_of_call i = ToolResultMessage \<lparr>tr_toolCallId = js i, tr_toolName = js ''read'', tr_content = [TextContent (js ''ok'')],
     tr_taskUsage = None, tr_isError = False, tr_prunedAt = None\<rparr>"

definition message_entry :: "string \<Rightarrow> string option \<Rightarrow> message \<Rightarrow> entry" where
  "message_entry i p m = \<lparr>en_id = js i, en_parentId = map_option js p, en_timestamp = 1, en_kind = Message m\<rparr>"

text \<open>Two calls, of which only the first has its result on the branch.\<close>

definition half_answered :: "entry list" where
  "half_answered = [message_entry ''a'' None (calling [''1'', ''2'']),
     message_entry ''b'' (Some ''a'') (result_of_call ''2''), message_entry ''c'' (Some ''a'') (result_of_call ''1'')]"

theorem context_calls_have_results_witness:
  "\<exists>c r. buildSessionContext half_answered (LeafId (js ''c'')) None = Some c \<and> length (cx_messages c) = 2 \<and>
     ToolResultMessage r \<in> set (cx_messages c) \<and> tr_toolCallId r = js ''1''"
proof -
  let ?b = "buildSessionContext half_answered (LeafId (js ''c'')) None"
  let ?tc = "\<lparr>tc_id = js ''1'', tc_name = js ''read'', tc_arguments = []\<rparr>"
  have "?b \<noteq> None" by code_simp
  then obtain c where c: "?b = Some c" by auto
  have "(case ?b of None \<Rightarrow> False | Some c \<Rightarrow> cx_messages c = [calling [''1''], result_of_call ''1''])" by code_simp
  then have m: "cx_messages c = [calling [''1''], result_of_call ''1'']" unfolding c by simp
  obtain a where a: "calling [''1''] = AssistantMessage a" "ToolCall ?tc \<in> set (am_content a)"
    by (simp add: calling_def)
  have "tc_id ?tc = js ''1''" "length (cx_messages c) = 2" using m by simp_all
  then show ?thesis using context_calls_have_results [OF c _ a(2)] a(1) c m by (metis list.set_intros(1))
qed

text \<open>
  The messages of a session's context are those of the active branch: without a compaction
  all of them; with one, the summary of the last compaction, then the messages from its first
  kept entry on, then those after it; a native replacement history takes the place of the kept
  ones.  Apart from that only assistant messages change, and only where a tool call has no
  result on the branch.
\<close>

theorem context_is_active_branch:
  assumes "session_reach s" "sm_leafId s \<noteq> None"
  shows "\<exists>p ms ctx. getBranch s None = Some p \<and> sessionContext s = Some ctx \<and> resolves p ms \<and>
    cx_messages ctx = strip_dangling ms \<and> (calls_paired ms \<longrightarrow> cx_messages ctx = ms) \<and>
    filter (\<lambda>m. \<not> is_assistant m) (cx_messages ctx) = filter (\<lambda>m. \<not> is_assistant m) ms"
proof -
  have t: "tree_ok s" using reach_ok [OF assms(1)] by (simp add: session_ok_def)
  obtain p where p: "getBranch s None = Some p" "sessionContext s = Some (context_of_path p)"
    using session_context_spec [OF t] assms(2) by auto
  obtain l where l: "sm_leafId s = Some l" "p = path_to (getEntries s) l"
    using p(1) leaf_branch [OF t] assms(2) by auto
  have d: "distinct (map en_id p)" using path_to_distinct t l(2) by (simp add: tree_ok_def)
  obtain ms where "resolves p ms" "cx_messages (context_of_path p) = strip_dangling ms"
    using context_resolves [OF d] by blast
  then show ?thesis using p strip_id strip_others by metis
qed

definition compacted_session :: session where
  "compacted_session = appendCompaction two_messages (draws [''c'']) 3
     \<lparr>cp_summary = js ''sum'', cp_shortSummary = None, cp_firstKeptEntryId = js ''b'', cp_tokensBefore = 10,
      cp_details = None, cp_preserveData = None, cp_fromExtension = False\<rparr>"

lemma compacted_reach: "session_reach compacted_session"
proof -
  have "map_keys (sm_byId two_messages) = [js ''a'', js ''b'']" by code_simp
  then have "source_ok (draws [''c'']) two_messages" by (simp add: source_ok_def draws_def)
  then show ?thesis unfolding compacted_session_def appendCompaction_def
    by (rule session_reach.Append [OF two_messages_reach])
qed

theorem context_is_active_branch_witness:
  "\<exists>p ms ctx. getBranch compacted_session None = Some p \<and> length p = 3 \<and>
    sessionContext compacted_session = Some ctx \<and> resolves p ms \<and>
    cx_messages ctx = [CompactionSummaryMessage (js ''sum'') 10 3 None None, hello]"
proof -
  have "sm_leafId compacted_session \<noteq> None" by code_simp
  from context_is_active_branch [OF compacted_reach this] obtain p ms ctx where
    r: "getBranch compacted_session None = Some p" "sessionContext compacted_session = Some ctx" "resolves p ms"
    by blast
  have "map_option length (getBranch compacted_session None) = Some 3"
    "map_option cx_messages (sessionContext compacted_session) =
      Some [CompactionSummaryMessage (js ''sum'') 10 3 None None, hello]"
    by code_simp+
  then show ?thesis using r by auto
qed

end
