(* ===== verification/Session_Migration.thy ===== *)
theory Session_Migration
  imports Session_Context
begin

text \<open>
  Loading older session files: \<open>migrateV1ToV2\<close>, \<open>migrateV2ToV3\<close> and
  \<open>migrateToCurrentVersion\<close> of \<open>packages/coding-agent/src/session/session-manager.ts\<close>.
  An entry of the first version has no id and no parent (the empty id and no parent here) and a
  compaction may name its first kept entry by its index in the file.
\<close>

section \<open>Migration\<close>

record legacy_entry =
  lg_entry :: file_entry
  lg_firstKeptEntryIndex :: "int option"

text \<open>The id of the entry an index names; the header and indices outside the file have none.\<close>

definition target_id :: "legacy_entry list \<Rightarrow> int \<Rightarrow> jstring option" where
  "target_id es k =
     (if k < 0 then None
      else case nth_opt es (nat k) of
        Some t \<Rightarrow> (case lg_entry t of Entry e \<Rightarrow> Some (en_id e) | Header _ \<Rightarrow> None) | None \<Rightarrow> None)"

definition migrate_compaction :: "legacy_entry list \<Rightarrow> nat \<Rightarrow> legacy_entry list" where
  "migrate_compaction es i =
     (case lg_entry (es ! i) of
        Entry e \<Rightarrow>
          (case (en_kind e, lg_firstKeptEntryIndex (es ! i)) of
             (Compaction c, Some k) \<Rightarrow>
               (let c' = (case target_id es k of Some t \<Rightarrow> c\<lparr>cp_firstKeptEntryId := t\<rparr> | None \<Rightarrow> c)
                in es[i := \<lparr>lg_entry = Entry (e\<lparr>en_kind := Compaction c'\<rparr>), lg_firstKeptEntryIndex = None\<rparr>])
           | _ \<Rightarrow> es)
      | Header _ \<Rightarrow> es)"

text \<open>One turn of the loop; the set of used ids is created empty and never filled.\<close>

definition v1_step :: "(nat \<Rightarrow> id_source) \<Rightarrow> legacy_entry list \<times> jstring option \<Rightarrow> nat \<Rightarrow> legacy_entry list \<times> jstring option" where
  "v1_step src = (\<lambda>(es, prevId) i.
     case lg_entry (es ! i) of
       Header h \<Rightarrow> (es[i := (es ! i)\<lparr>lg_entry := Header (h\<lparr>hd_version := Some 2\<rparr>)\<rparr>], prevId)
     | Entry e \<Rightarrow>
         (let newId = generateId (src i) [];
              es' = es[i := (es ! i)\<lparr>lg_entry := Entry (e\<lparr>en_id := newId, en_parentId := prevId\<rparr>)\<rparr>]
          in (migrate_compaction es' i, Some newId)))"

definition migrateV1ToV2 :: "(nat \<Rightarrow> id_source) \<Rightarrow> legacy_entry list \<Rightarrow> legacy_entry list" where
  "migrateV1ToV2 src es = fst (foldl (v1_step src) (es, None) [0..<length es])"

definition rename_hook :: "entry_kind \<Rightarrow> entry_kind" where
  "rename_hook kind = (case kind of Message (HookMessage t c) \<Rightarrow> Message (CustomMessage t c) | _ \<Rightarrow> kind)"

definition migrateV2ToV3 :: "legacy_entry list \<Rightarrow> legacy_entry list" where
  "migrateV2ToV3 es = map (\<lambda>l. case lg_entry l of
       Header h \<Rightarrow> l\<lparr>lg_entry := Header (h\<lparr>hd_version := Some 3\<rparr>)\<rparr>
     | Entry e \<Rightarrow> l\<lparr>lg_entry := Entry (e\<lparr>en_kind := rename_hook (en_kind e)\<rparr>)\<rparr>) es"

text \<open>The version of the first header, 1 where it has none or there is no header.\<close>

definition session_version :: "legacy_entry list \<Rightarrow> nat" where
  "session_version es =
     (case find (\<lambda>l. case lg_entry l of Header _ \<Rightarrow> True | _ \<Rightarrow> False) es of
        Some l \<Rightarrow> (case lg_entry l of Header h \<Rightarrow> (case hd_version h of Some v \<Rightarrow> v | None \<Rightarrow> 1) | _ \<Rightarrow> 1)
      | None \<Rightarrow> 1)"

definition migrateToCurrentVersion :: "(nat \<Rightarrow> id_source) \<Rightarrow> legacy_entry list \<Rightarrow> bool \<times> legacy_entry list" where
  "migrateToCurrentVersion src es =
     (let version = session_version es
      in if version \<ge> CURRENT_SESSION_VERSION then (False, es)
         else let es1 = (if version < 2 then migrateV1ToV2 src es else es);
                  es2 = (if version < 3 then migrateV2ToV3 es1 else es1)
              in (True, es2))"

text \<open>Loading: the entries are migrated, freed of replay metadata and indexed; blobs are already resolved.\<close>

definition load_entries :: "(nat \<Rightarrow> id_source) \<Rightarrow> jstring \<Rightarrow> legacy_entry list \<Rightarrow> session" where
  "load_entries src sid es =
     buildIndex (snd (sanitizeLoadedReplayMetadata
       ((newSession sid None)\<lparr>sm_fileEntries := map lg_entry (snd (migrateToCurrentVersion src es))\<rparr>)))"

section \<open>Migrated files\<close>

definition drawn :: "(nat \<Rightarrow> id_source) \<Rightarrow> nat \<Rightarrow> jstring" where
  "drawn src i = fst (src i) 0"

lemma generateId_unused: "generateId src [] = fst src 0"
  by (simp add: generateId_def upt_rec)

text \<open>An old file: its header, then entries; \<open>old\<close> gives the kind and index of each.\<close>

definition legacy_file :: "session_header \<Rightarrow> (entry \<times> int option) list \<Rightarrow> legacy_entry list" where
  "legacy_file h xs = \<lparr>lg_entry = Header h, lg_firstKeptEntryIndex = None\<rparr> #
     map (\<lambda>(e, k). \<lparr>lg_entry = Entry e, lg_firstKeptEntryIndex = k\<rparr>) xs"

text \<open>The migrated kind at position \<open>j\<close>; compactions name entries up to their own by their new ids.\<close>

definition migrated_kind :: "(nat \<Rightarrow> id_source) \<Rightarrow> nat \<Rightarrow> nat \<Rightarrow> entry_kind \<Rightarrow> int option \<Rightarrow> entry_kind \<Rightarrow> bool" where
  "migrated_kind src n j kind k kind' \<longleftrightarrow>
     (case (kind, k) of
        (Compaction c, Some k) \<Rightarrow>
          (\<exists>t. kind' = Compaction (c\<lparr>cp_firstKeptEntryId := t\<rparr>) \<and>
             (0 < k \<and> nat k \<le> j \<longrightarrow> t = drawn src (nat k)) \<and>
             (k \<le> 0 \<or> n < nat k \<longrightarrow> t = cp_firstKeptEntryId c))
      | _ \<Rightarrow> kind' = kind)"

lemma migrated_kind_intro:
  assumes "i \<le> length xs" "0 < i" "length es = Suc (length xs)" "\<exists>h'. lg_entry (es ! 0) = Header h'"
    and "\<And>j. 0 < j \<Longrightarrow> j \<le> i \<Longrightarrow> \<exists>e'. lg_entry (es ! j) = Entry e' \<and> en_id e' = drawn src j"
    and "lg_entry (es ! i) = Entry e" "lg_firstKeptEntryIndex (es ! i) = k"
  shows "\<exists>e'. lg_entry (migrate_compaction es i ! i) = Entry e' \<and> en_id e' = en_id e \<and>
    en_parentId e' = en_parentId e \<and> migrated_kind src (length xs) i (en_kind e) k (en_kind e') \<and>
    length (migrate_compaction es i) = length es \<and>
    (\<forall>j. j \<noteq> i \<longrightarrow> migrate_compaction es i ! j = es ! j)"
proof (cases "\<exists>c q. en_kind e = Compaction c \<and> k = Some q")
  case True
  then obtain c q where ck: "en_kind e = Compaction c" "k = Some q" by blast
  let ?c = "case target_id es q of Some t \<Rightarrow> c\<lparr>cp_firstKeptEntryId := t\<rparr> | None \<Rightarrow> c"
  have m: "migrate_compaction es i = es[i := \<lparr>lg_entry = Entry (e\<lparr>en_kind := Compaction ?c\<rparr>), lg_firstKeptEntryIndex = None\<rparr>]"
    using assms(6,7) ck by (simp add: migrate_compaction_def Let_def)
  have a: "target_id es q = Some (drawn src (nat q))" if q: "0 < q" "nat q \<le> i"
  proof -
    have "0 < nat q" using q(1) by simp
    then obtain e' where "lg_entry (es ! nat q) = Entry e'" "en_id e' = drawn src (nat q)"
      using assms(5) [of "nat q"] q by blast
    then show ?thesis using q assms(1,3) by (simp add: target_id_def)
  qed
  have b: "target_id es q = None" if "q \<le> 0 \<or> length xs < nat q"
    using that assms(3,4) by (cases "q = 0") (auto simp: target_id_def)
  have "\<exists>t. ?c = c\<lparr>cp_firstKeptEntryId := t\<rparr> \<and> (0 < q \<and> nat q \<le> i \<longrightarrow> t = drawn src (nat q)) \<and>
      (q \<le> 0 \<or> length xs < nat q \<longrightarrow> t = cp_firstKeptEntryId c)"
  proof (cases "target_id es q")
    case None
    then show ?thesis using a by (intro exI [of _ "cp_firstKeptEntryId c"]) auto
  next
    case (Some t)
    then show ?thesis using a b by (intro exI [of _ t]) auto
  qed
  then show ?thesis unfolding m using assms(1,3) ck by (auto simp: migrated_kind_def)
next
  case False
  then have "migrate_compaction es i = es" "migrated_kind src (length xs) i (en_kind e) k (en_kind e)"
    using assms(6,7) by (auto simp: migrate_compaction_def migrated_kind_def split: entry_kind.splits option.splits)
  then show ?thesis using assms(6) by simp
qed

text \<open>After \<open>n\<close> turns of the loop the first \<open>n\<close> positions are final.\<close>

definition v1_inv :: "(nat \<Rightarrow> id_source) \<Rightarrow> session_header \<Rightarrow> (entry \<times> int option) list \<Rightarrow> nat \<Rightarrow> legacy_entry list \<times> jstring option \<Rightarrow> bool" where
  "v1_inv src h xs n st \<longleftrightarrow>
     length (fst st) = Suc (length xs) \<and>
     (0 < n \<longrightarrow> lg_entry (fst st ! 0) = Header (h\<lparr>hd_version := Some 2\<rparr>)) \<and>
     (\<forall>j. 0 < j \<and> j < n \<longrightarrow> (\<exists>e'. lg_entry (fst st ! j) = Entry e' \<and> en_id e' = drawn src j \<and>
        en_parentId e' = (if j = 1 then None else Some (drawn src (j - 1))) \<and>
        migrated_kind src (length xs) j (en_kind (fst (xs ! (j - 1)))) (snd (xs ! (j - 1))) (en_kind e'))) \<and>
     (\<forall>j. n \<le> j \<and> j \<le> length xs \<longrightarrow> fst st ! j = legacy_file h xs ! j) \<and>
     snd st = (if n \<le> 1 then None else Some (drawn src (n - 1)))"

lemma v1_inv_step:
  assumes inv: "v1_inv src h xs n st" and n: "n \<le> length xs"
  shows "v1_inv src h xs (Suc n) (v1_step src st n)"
proof (cases "n = 0")
  case True
  have "fst st ! 0 = \<lparr>lg_entry = Header h, lg_firstKeptEntryIndex = None\<rparr>"
    using inv True by (simp add: v1_inv_def legacy_file_def)
  then have "v1_step src st n = ((fst st)[0 := \<lparr>lg_entry = Header (h\<lparr>hd_version := Some 2\<rparr>), lg_firstKeptEntryIndex = None\<rparr>], snd st)"
    using True by (simp add: v1_step_def case_prod_unfold)
  then show ?thesis using inv True by (auto simp: v1_inv_def)
next
  case False
  obtain e k where x: "xs ! (n - 1) = (e, k)" by (cases "xs ! (n - 1)")
  have st: "fst st ! n = \<lparr>lg_entry = Entry e, lg_firstKeptEntryIndex = k\<rparr>"
    using inv n False x by (simp add: v1_inv_def legacy_file_def nth_Cons')
  let ?es = "(fst st)[n := \<lparr>lg_entry = Entry (e\<lparr>en_id := drawn src n, en_parentId := snd st\<rparr>), lg_firstKeptEntryIndex = k\<rparr>]"
  have step: "v1_step src st n = (migrate_compaction ?es n, Some (drawn src n))"
    using st by (simp add: v1_step_def case_prod_unfold generateId_unused drawn_def Let_def)
  have len: "length (fst st) = Suc (length xs)" using inv by (simp add: v1_inv_def)
  have old: "\<exists>e'. lg_entry (?es ! j) = Entry e' \<and> en_id e' = drawn src j" if "0 < j" "j \<le> n" for j
    using that inv n len by (cases "j = n") (auto simp: v1_inv_def)
  have hdr: "\<exists>h'. lg_entry (?es ! 0) = Header h'" using inv False by (simp add: v1_inv_def)
  have lk: "lg_entry (?es ! n) = Entry (e\<lparr>en_id := drawn src n, en_parentId := snd st\<rparr>)" "lg_firstKeptEntryIndex (?es ! n) = k"
    using n len by simp_all
  obtain e' where e': "lg_entry (migrate_compaction ?es n ! n) = Entry e'" "en_id e' = drawn src n"
      "en_parentId e' = snd st" "migrated_kind src (length xs) n (en_kind e) k (en_kind e')"
      "length (migrate_compaction ?es n) = length ?es" "\<forall>j. j \<noteq> n \<longrightarrow> migrate_compaction ?es n ! j = ?es ! j"
    using migrated_kind_intro [OF n _ _ hdr old lk] False len by auto
  have prev: "snd st = (if n = 1 then None else Some (drawn src (n - 1)))" using inv False by (auto simp: v1_inv_def)
  let ?m = "migrate_compaction ?es n"
  have other: "?m ! j = fst st ! j" if "j \<noteq> n" for j using e'(6) that by simp
  have final: "\<exists>e'. lg_entry (?m ! j) = Entry e' \<and> en_id e' = drawn src j \<and>
      en_parentId e' = (if j = 1 then None else Some (drawn src (j - 1))) \<and>
      migrated_kind src (length xs) j (en_kind (fst (xs ! (j - 1)))) (snd (xs ! (j - 1))) (en_kind e')"
    if "0 < j" "j < Suc n" for j
  proof (cases "j = n")
    case True
    then show ?thesis using e'(1-4) prev x by simp
  next
    case False
    then have "j < n" using that(2) by simp
    then show ?thesis using inv that(1) other [OF False] by (simp add: v1_inv_def)
  qed
  have "lg_entry (?m ! 0) = Header (h\<lparr>hd_version := Some 2\<rparr>)" using other [of 0] inv False by (simp add: v1_inv_def)
  moreover have "?m ! j = legacy_file h xs ! j" if "Suc n \<le> j" "j \<le> length xs" for j
    using other [of j] inv that by (simp add: v1_inv_def)
  moreover have "length ?m = Suc (length xs)" using e'(5) len by simp
  ultimately show ?thesis unfolding step v1_inv_def fst_conv snd_conv using final False by simp
qed

lemma v1_result: "v1_inv src h xs (Suc (length xs)) (foldl (v1_step src) (legacy_file h xs, None) [0..<Suc (length xs)])"
proof -
  have "v1_inv src h xs n (foldl (v1_step src) (legacy_file h xs, None) [0..<n])" if "n \<le> Suc (length xs)" for n
    using that
  proof (induction n)
    case 0
    show ?case by (simp add: v1_inv_def legacy_file_def)
  next
    case (Suc n)
    then show ?case using v1_inv_step [of src h xs n] by simp
  qed
  then show ?thesis by blast
qed

section \<open>Chains\<close>

text \<open>Every entry hangs under the one before it.\<close>

definition chain :: "entry list \<Rightarrow> bool" where
  "chain es \<longleftrightarrow> distinct (map en_id es) \<and> [] \<notin> en_id ` set es \<and>
     (\<forall>j<length es. en_parentId (es ! j) = (if j = 0 then None else Some (en_id (es ! (j - 1)))))"

lemma chain_snoc:
  assumes "chain (es @ [e])"
  shows "chain es" "en_id e \<notin> en_id ` set es" "en_id e \<noteq> []"
    "en_parentId e = (if es = [] then None else Some (en_id (last es)))"
proof -
  have p: "en_parentId ((es @ [e]) ! j) = (if j = 0 then None else Some (en_id ((es @ [e]) ! (j - 1))))"
    if "j < Suc (length es)" for j using assms that by (simp add: chain_def)
  have "en_parentId (es ! j) = (if j = 0 then None else Some (en_id (es ! (j - 1))))" if "j < length es" for j
    using p [of j] that by (cases j) (simp_all add: nth_append)
  then show "chain es" using assms by (simp add: chain_def)
  show "en_id e \<notin> en_id ` set es" "en_id e \<noteq> []" using assms by (auto simp: chain_def)
  show "en_parentId e = (if es = [] then None else Some (en_id (last es)))"
    using p [of "length es"] by (auto simp: nth_append last_conv_nth)
qed

lemma chain_tree: "chain es \<Longrightarrow> parents_ok {} es \<and> (es \<noteq> [] \<longrightarrow> path_to es (en_id (last es)) = es)"
proof (induction es rule: rev_induct)
  case (snoc e es)
  note c = chain_snoc [OF snoc.prems]
  have "parents_ok {} es" "es \<noteq> [] \<longrightarrow> path_to es (en_id (last es)) = es" using snoc.IH c(1) by simp_all
  moreover have "es \<noteq> [] \<longrightarrow> en_id (last es) \<in> en_id ` set es" by simp
  ultimately show ?case using c(2-4) by (auto simp del: parents_ok.simps split: option.splits)
qed simp

lemma chain_branch:
  assumes "chain es" "sm_fileEntries s = Header h # map Entry es"
  shows "getBranch (buildIndex s) None = Some es" "session_ok (buildIndex s)" "getEntries (buildIndex s) = es"
proof -
  have ok: "parents_ok {} es" "es \<noteq> [] \<longrightarrow> path_to es (en_id (last es)) = es" using chain_tree [OF assms(1)] by simp_all
  show sok: "session_ok (buildIndex s)" by (rule ok_build [OF ok(1) assms(2)])
  have e: "getEntries s = es" using assms(2) by (simp add: getEntries_def)
  have b: "sm_leafId (buildIndex s) = (if es = [] then None else Some (en_id (last es)))" "getEntries (buildIndex s) = es"
    using build_spec [of s] assms(1) e by (simp_all add: chain_def)
  show "getEntries (buildIndex s) = es" by (fact b(2))
  show "getBranch (buildIndex s) None = Some es"
    using leaf_branch [of "buildIndex s"] sok b ok(2) by (auto simp: session_ok_def)
qed

section \<open>Walks that do not return\<close>

lemma walk_cycle_Some:
  assumes "walk byId e path = Some r"
  shows "e \<in> C \<longrightarrow> \<not> (\<forall>x\<in>C. \<exists>y\<in>C. parent_of byId x = Some y)"
proof (rule walk.raw_induct [where P = "\<lambda>m x p y. x \<in> C \<longrightarrow> \<not> (\<forall>x\<in>C. \<exists>y\<in>C. parent_of m x = Some y)", OF _ assms])
  fix w m x p y
  assume IH: "\<And>m x p y. w m x p = Some y \<Longrightarrow> x \<in> C \<longrightarrow> \<not> (\<forall>x\<in>C. \<exists>y\<in>C. parent_of m x = Some y)"
    and step: "(case parent_of m x of None \<Rightarrow> Some (x # p) | Some q \<Rightarrow> w m q (x # p)) = Some y"
  show "x \<in> C \<longrightarrow> \<not> (\<forall>x\<in>C. \<exists>y\<in>C. parent_of m x = Some y)"
  proof (intro impI notI)
    assume x: "x \<in> C" "\<forall>x\<in>C. \<exists>y\<in>C. parent_of m x = Some y"
    then obtain q where q: "q \<in> C" "parent_of m x = Some q" by blast
    then have "w m q (x # p) = Some y" using step by simp
    then show False using IH q(1) x(2) by blast
  qed
qed

lemma walk_cycle: "e \<in> C \<Longrightarrow> \<forall>x\<in>C. \<exists>y\<in>C. parent_of byId x = Some y \<Longrightarrow> walk byId e path = None"
  using walk_cycle_Some [of byId e path _ C] by (cases "walk byId e path") auto

lemma sanitize_fields [simp]: "en_id (sanitize_entry e) = en_id e" "en_parentId (sanitize_entry e) = en_parentId e"
  by (simp_all add: sanitize_entry_def split: entry_kind.splits message.splits)

lemma sanitize_session:
  "sm_fileEntries s = Header h # map Entry es \<Longrightarrow>
   sm_fileEntries (snd (sanitizeLoadedReplayMetadata s)) = Header h # map Entry (map sanitize_entry es)"
  by (simp add: sanitizeLoadedReplayMetadata_def)

section \<open>Properties\<close>

lemma v1_entries:
  assumes "v1_inv src h xs (Suc (length xs)) st"
  shows "\<exists>es. map lg_entry (fst st) = Header (h\<lparr>hd_version := Some 2\<rparr>) # map Entry es \<and> length es = length xs \<and>
    (\<forall>j<length xs. en_id (es ! j) = drawn src (Suc j) \<and>
      en_parentId (es ! j) = (if j = 0 then None else Some (drawn src j)) \<and>
      migrated_kind src (length xs) (Suc j) (en_kind (fst (xs ! j))) (snd (xs ! j)) (en_kind (es ! j)))"
proof -
  have len: "length (fst st) = Suc (length xs)" and h: "lg_entry (fst st ! 0) = Header (h\<lparr>hd_version := Some 2\<rparr>)"
    using assms by (simp_all add: v1_inv_def)
  have "\<exists>e'. lg_entry (fst st ! Suc j) = Entry e' \<and> en_id e' = drawn src (Suc j) \<and>
      en_parentId e' = (if j = 0 then None else Some (drawn src j)) \<and>
      migrated_kind src (length xs) (Suc j) (en_kind (fst (xs ! j))) (snd (xs ! j)) (en_kind e')"
    if "j < length xs" for j
  proof -
    have "0 < Suc j \<and> Suc j < Suc (length xs)" using that by simp
    then have "\<exists>e'. lg_entry (fst st ! Suc j) = Entry e' \<and> en_id e' = drawn src (Suc j) \<and>
        en_parentId e' = (if Suc j = 1 then None else Some (drawn src (Suc j - 1))) \<and>
        migrated_kind src (length xs) (Suc j) (en_kind (fst (xs ! (Suc j - 1)))) (snd (xs ! (Suc j - 1))) (en_kind e')"
      using assms unfolding v1_inv_def by blast
    then show ?thesis by (cases j) simp_all
  qed
  then obtain f where f: "\<And>j. j < length xs \<Longrightarrow> lg_entry (fst st ! Suc j) = Entry (f j) \<and> en_id (f j) = drawn src (Suc j) \<and>
      en_parentId (f j) = (if j = 0 then None else Some (drawn src j)) \<and>
      migrated_kind src (length xs) (Suc j) (en_kind (fst (xs ! j))) (snd (xs ! j)) (en_kind (f j))"
    by metis
  have "map lg_entry (fst st) = Header (h\<lparr>hd_version := Some 2\<rparr>) # map Entry (map f [0..<length xs])"
  proof (rule nth_equalityI)
    fix i assume "i < length (map lg_entry (fst st))"
    then show "map lg_entry (fst st) ! i = (Header (h\<lparr>hd_version := Some 2\<rparr>) # map Entry (map f [0..<length xs])) ! i"
      using h f len by (cases i) auto
  qed (use len in simp)
  then show ?thesis using f by (intro exI [of _ "map f [0..<length xs]"]) simp
qed

lemma v3_entries:
  assumes "map lg_entry ls = Header h # map Entry es"
  shows "map lg_entry (migrateV2ToV3 ls) = Header (h\<lparr>hd_version := Some 3\<rparr>) # map Entry (map (\<lambda>e. e\<lparr>en_kind := rename_hook (en_kind e)\<rparr>) es)"
proof -
  have "map lg_entry (migrateV2ToV3 ls) = map (\<lambda>f. case f of Header h \<Rightarrow> Header (h\<lparr>hd_version := Some 3\<rparr>)
      | Entry e \<Rightarrow> Entry (e\<lparr>en_kind := rename_hook (en_kind e)\<rparr>)) (map lg_entry ls)"
    by (induction ls) (simp_all add: migrateV2ToV3_def split: file_entry.splits)
  then show ?thesis unfolding assms by simp
qed

text \<open>
  C22: with distinct, non-empty random ids, a session file of the first version loads as one branch holding all its entries in file
  order, each under the one before it, whatever parents they had: kinds are unchanged except that
  hook messages become custom messages and compactions name their first kept entry by its new id.
  The result is a session like any other, and migrating it again changes nothing.  (What a repeated
  id does is \<open>repeated_id_hangs\<close>.)
\<close>

theorem migrated_session_is_one_branch:
  assumes "hd_version h = None \<or> hd_version h = Some 0 \<or> hd_version h = Some 1"
    and "inj_on (drawn src) {1..length xs}" "\<forall>j\<in>{1..length xs}. drawn src j \<noteq> []"
  shows "\<exists>es. session_reach (load_entries src sid (legacy_file h xs)) \<and>
    getBranch (load_entries src sid (legacy_file h xs)) None = Some es \<and>
    getEntries (load_entries src sid (legacy_file h xs)) = es \<and>
    length es = length xs \<and> chain es \<and>
    (\<forall>j<length xs. \<exists>e kind. es ! j = sanitize_entry e \<and> en_kind e = rename_hook kind \<and>
       migrated_kind src (length xs) (Suc j) (en_kind (fst (xs ! j))) (snd (xs ! j)) kind) \<and>
    (\<forall>src'. migrateToCurrentVersion src' (snd (migrateToCurrentVersion src (legacy_file h xs))) =
       (False, snd (migrateToCurrentVersion src (legacy_file h xs))))"
proof -
  let ?f = "legacy_file h xs" and ?s = "load_entries src sid (legacy_file h xs)"
  let ?v1 = "foldl (v1_step src) (?f, None) [0..<Suc (length xs)]"
  obtain es where es: "map lg_entry (fst ?v1) = Header (h\<lparr>hd_version := Some 2\<rparr>) # map Entry es" "length es = length xs"
    "\<forall>j<length xs. en_id (es ! j) = drawn src (Suc j) \<and> en_parentId (es ! j) = (if j = 0 then None else Some (drawn src j)) \<and>
      migrated_kind src (length xs) (Suc j) (en_kind (fst (xs ! j))) (snd (xs ! j)) (en_kind (es ! j))"
    by (rule exE [OF v1_entries [OF v1_result [of src h xs]]]) (elim conjE, rule that)
  let ?m = "map (\<lambda>e. e\<lparr>en_kind := rename_hook (en_kind e)\<rparr>) es"
  let ?es = "map sanitize_entry ?m"
  have "session_version ?f < 2" using assms(1) by (auto simp: session_version_def legacy_file_def)
  moreover have "migrateV1ToV2 src ?f = fst ?v1" by (simp add: migrateV1ToV2_def legacy_file_def)
  ultimately have m: "migrateToCurrentVersion src ?f = (True, migrateV2ToV3 (fst ?v1))"
    by (simp add: migrateToCurrentVersion_def CURRENT_SESSION_VERSION_def Let_def)
  have l: "map lg_entry (snd (migrateToCurrentVersion src ?f)) = Header (h\<lparr>hd_version := Some 3\<rparr>) # map Entry ?m"
    unfolding m snd_conv using v3_entries [OF es(1)] by simp
  have ids: "map en_id ?es = map (drawn src) (map Suc [0..<length xs])"
    by (rule nth_equalityI) (use es in simp_all)
  have range: "set (map Suc [0..<length xs]) = {1..length xs}"
    by (simp add: image_Suc_atLeastLessThan atLeastLessThanSuc_atLeastAtMost)
  have "distinct (map en_id ?es)" unfolding ids distinct_map range using assms(2) by simp
  moreover have "[] \<notin> en_id ` set ?es"
  proof -
    have "set (map en_id ?es) = drawn src ` {1..length xs}" unfolding ids set_map [of "drawn src"] range by (rule refl)
    then show ?thesis using assms(3) unfolding set_map by force
  qed
  moreover have "en_parentId (?es ! j) = (if j = 0 then None else Some (en_id (?es ! (j - 1))))" if "j < length ?es" for j
    using that es(2,3) by (cases j) simp_all
  ultimately have c: "chain ?es" unfolding chain_def by blast
  have s: "?s = buildIndex ((newSession sid None)\<lparr>sm_fileEntries := Header (h\<lparr>hd_version := Some 3\<rparr>) # map Entry ?es\<rparr>)"
    unfolding load_entries_def l
    by (simp add: sanitizeLoadedReplayMetadata_def newSession_def comp_def)
  have r: "session_reach ?s" unfolding s by (rule session_reach.Load) (use chain_tree [OF c] in simp)
  have b: "getBranch ?s None = Some ?es" unfolding s by (rule chain_branch(1) [OF c]) simp
  have e: "getEntries ?s = ?es" unfolding s by (rule chain_branch(3) [OF c]) simp
  have "session_version (snd (migrateToCurrentVersion src ?f)) = 3"
    using l by (cases "snd (migrateToCurrentVersion src ?f)") (auto simp: session_version_def)
  then have i: "migrateToCurrentVersion src' (snd (migrateToCurrentVersion src ?f)) = (False, snd (migrateToCurrentVersion src ?f))" for src'
    by (simp add: migrateToCurrentVersion_def [of src'] CURRENT_SESSION_VERSION_def Let_def)
  have k: "\<forall>j<length xs. \<exists>e kind. ?es ! j = sanitize_entry e \<and> en_kind e = rename_hook kind \<and>
       migrated_kind src (length xs) (Suc j) (en_kind (fst (xs ! j))) (snd (xs ! j)) kind"
  proof (intro allI impI)
    fix j assume j: "j < length xs"
    show "\<exists>e kind. ?es ! j = sanitize_entry e \<and> en_kind e = rename_hook kind \<and>
       migrated_kind src (length xs) (Suc j) (en_kind (fst (xs ! j))) (snd (xs ! j)) kind"
      by (rule exI [of _ "?m ! j"], rule exI [of _ "en_kind (es ! j)"]) (use j es(2,3) in simp)
  qed
  have "length ?es = length xs" using es(2) by simp
  then show ?thesis using r b e c i k by blast
qed

text \<open>An old file with a question, an answer and a compaction that keeps from the answer on.\<close>

definition old_entry :: "entry_kind \<Rightarrow> entry" where
  "old_entry k = \<lparr>en_id = [], en_parentId = None, en_timestamp = 1, en_kind = k\<rparr>"

definition old_header :: session_header where
  "old_header = \<lparr>hd_version = None, hd_id = js ''s'', hd_parentSession = None\<rparr>"

definition old_file :: "(entry \<times> int option) list" where
  "old_file = [(old_entry (Message hello), None), (old_entry (Message (HookMessage (js ''h'') (Plain (js ''hi'')))), None),
     (old_entry (Compaction \<lparr>cp_summary = js ''sum'', cp_shortSummary = None, cp_firstKeptEntryId = [], cp_tokensBefore = 9,
        cp_details = None, cp_preserveData = None, cp_fromExtension = False\<rparr>), Some 2)]"

definition numbered_draws :: "string \<Rightarrow> nat \<Rightarrow> id_source" where
  "numbered_draws names i = draws [[(''x'' @ names) ! i]]"

theorem migrated_session_is_one_branch_witness:
  "\<exists>es. getBranch (load_entries (numbered_draws ''abc'') (js ''s'') (legacy_file old_header old_file)) None = Some es \<and>
    length es = 3 \<and> chain es \<and>
    map_option cx_messages (sessionContext (load_entries (numbered_draws ''abc'') (js ''s'') (legacy_file old_header old_file))) =
      Some [CompactionSummaryMessage (js ''sum'') 9 1 None None, CustomMessage (js ''h'') (Plain (js ''hi''))]"
proof -
  have l: "length old_file = 3" by (simp add: old_file_def)
  have r: "{1..3::nat} = {1, 2, 3}" by auto
  have d: "drawn (numbered_draws ''abc'') 1 = js ''a'' \<and> drawn (numbered_draws ''abc'') 2 = js ''b'' \<and> drawn (numbered_draws ''abc'') 3 = js ''c''"
    by code_simp
  have "inj_on (drawn (numbered_draws ''abc'')) {1..length old_file}" "\<forall>j\<in>{1..length old_file}. drawn (numbered_draws ''abc'') j \<noteq> []"
    using d unfolding l r by (simp_all add: inj_on_def)
  from migrated_session_is_one_branch [of old_header, OF _ this, of "js ''s''"]
  obtain es where "getBranch (load_entries (numbered_draws ''abc'') (js ''s'') (legacy_file old_header old_file)) None = Some es"
    "length es = 3" "chain es" by (auto simp: l old_header_def)
  moreover have "map_option cx_messages (sessionContext (load_entries (numbered_draws ''abc'') (js ''s'') (legacy_file old_header old_file))) =
      Some [CompactionSummaryMessage (js ''sum'') 9 1 None None, CustomMessage (js ''h'') (Plain (js ''hi''))]" by code_simp
  ultimately show ?thesis by blast
qed

text \<open>
  What the code does when a random id comes twice: \<open>migrateV1ToV2\<close> hands \<open>generateId\<close> a set of
  used ids it never fills, so the second draw is taken although it is used, the parents form a
  cycle, and the walk to the root does not return.
\<close>

theorem repeated_id_hangs:
  "getBranch (load_entries (numbered_draws ''aba'') (js ''s'') (legacy_file old_header old_file)) None = None"
proof -
  let ?s = "load_entries (numbered_draws ''aba'') (js ''s'') (legacy_file old_header old_file)"
  have leaf: "sm_leafId ?s = Some (js ''a'')" by code_simp
  have keys: "map_keys (sm_byId ?s) = [js ''a'', js ''b'']" by code_simp
  have ids: "map_option en_parentId (map_get (sm_byId ?s) (js ''a'')) = Some (Some (js ''b''))"
    "map_option en_parentId (map_get (sm_byId ?s) (js ''b'')) = Some (Some (js ''a''))" by code_simp+
  then obtain x y where xy: "map_get (sm_byId ?s) (js ''a'') = Some x" "en_parentId x = Some (js ''b'')"
    "map_get (sm_byId ?s) (js ''b'') = Some y" "en_parentId y = Some (js ''a'')" by auto
  have "\<forall>z\<in>{x, y}. \<exists>w\<in>{x, y}. parent_of (sm_byId ?s) z = Some w" using xy by (simp add: parent_of_def)
  then have "walk (sm_byId ?s) x [] = None" by (intro walk_cycle [of x "{x, y}"]) simp
  then show ?thesis using leaf xy(1) by (simp add: getBranch_def)
qed

end
