(* ===== verification/Compaction.thy ===== *)
theory Compaction
  imports Session_Context "HOL-Library.List_Lexorder"
begin

text \<open>
  Preparing a compaction (\<open>packages/agent/src/compaction/compaction.ts\<close>, file operations from
  \<open>utils.ts\<close>): which entries are summarised, which are kept, and how the summaries are put
  together.  The native tokenizer \<open>countTokens\<close> and the rounding of the floating point
  expression \<open>Math.floor(keep / (prompt / estimated))\<close> are parameters; the calls of the model
  that write the summaries belong to the environment.
\<close>

section \<open>Token estimates\<close>

definition IMAGE_TOKEN_ESTIMATE :: nat where "IMAGE_TOKEN_ESTIMATE = 1200"

definition text_fragments :: "content list \<Rightarrow> jstring list" where
  "text_fragments bs = concat (map (\<lambda>b. case b of TextContent t \<Rightarrow> (if t = [] then [] else [t]) | _ \<Rightarrow> []) bs)"

definition image_extra :: "content list \<Rightarrow> nat" where
  "image_extra bs = sum_list (map (\<lambda>b. case b of ImageContent _ _ \<Rightarrow> IMAGE_TOKEN_ESTIMATE | _ \<Rightarrow> 0) bs)"

definition block_fragments :: "assistant_block \<Rightarrow> jstring list" where
  "block_fragments b =
     (case b of
        TextBlock t \<Rightarrow> [t]
      | ThinkingBlock t _ \<Rightarrow> [t]
      | ToolCall tc \<Rightarrow> [tc_name tc, stringify (JObject (tc_arguments tc))]
      | RedactedThinking _ \<Rightarrow> [])"

definition content_fragments :: "msg_content \<Rightarrow> jstring list \<times> nat" where
  "content_fragments c =
     (case c of Plain s \<Rightarrow> ([s], 0) | Blocks bs \<Rightarrow> (text_fragments bs, image_extra bs))"

text \<open>The fragments that are counted and the fixed charge; other roles count nothing.\<close>

definition message_fragments :: "message \<Rightarrow> jstring list \<times> nat" where
  "message_fragments m =
     (case m of
        BashExecution command out \<Rightarrow> ([command, out], 0)
      | UserMessage c \<Rightarrow> (fst (content_fragments c), 0)
      | AssistantMessage a \<Rightarrow> (concat (map block_fragments (am_content a)), 0)
      | HookMessage _ c \<Rightarrow> content_fragments c
      | ToolResultMessage r \<Rightarrow> content_fragments (Blocks (tr_content r))
      | BranchSummaryMessage summary _ _ \<Rightarrow> ([summary], 0)
      | CompactionSummaryMessage summary _ _ _ _ \<Rightarrow> ([summary], 0)
      | _ \<Rightarrow> ([], 0))"

definition estimateTokens :: "(jstring list \<Rightarrow> nat) \<Rightarrow> message \<Rightarrow> nat" where
  "estimateTokens countTokens m =
     (case message_fragments m of (fragments, extra) \<Rightarrow>
        if length fragments = 0 then extra else extra + countTokens fragments)"

definition getMessageFromEntry :: "entry \<Rightarrow> message option" where
  "getMessageFromEntry e =
     (case en_kind e of
        Message m \<Rightarrow> Some m
      | CustomMessageEntry customType content \<Rightarrow> Some (CustomMessage customType content)
      | BranchSummary fromId summary _ _ \<Rightarrow> Some (BranchSummaryMessage summary fromId (en_timestamp e))
      | _ \<Rightarrow> None)"

text \<open>The messages of the entries from \<open>a\<close> to before \<open>b\<close>.\<close>

definition messages_between :: "entry list \<Rightarrow> nat \<Rightarrow> nat \<Rightarrow> message list" where
  "messages_between es a b = List.map_filter getMessageFromEntry (slice es a b)"

definition estimateEntriesTokens :: "(jstring list \<Rightarrow> nat) \<Rightarrow> entry list \<Rightarrow> nat \<Rightarrow> nat \<Rightarrow> nat" where
  "estimateEntriesTokens countTokens es a b =
     sum_list (map (estimateTokens countTokens) (messages_between es a b))"

section \<open>Usage\<close>

definition calculateContextTokens :: "usage \<Rightarrow> nat" where
  "calculateContextTokens u =
     (if us_totalTokens u \<noteq> 0 then us_totalTokens u
      else us_input u + us_output u + us_cacheRead u + us_cacheWrite u)"

definition calculatePromptTokens :: "usage \<Rightarrow> nat" where
  "calculatePromptTokens u =
     (let promptTokens = us_input u + us_cacheRead u + us_cacheWrite u
      in if promptTokens > 0 then promptTokens else calculateContextTokens u)"

definition getAssistantUsage :: "message \<Rightarrow> usage option" where
  "getAssistantUsage m =
     (case m of
        AssistantMessage a \<Rightarrow>
          (if am_stopReason a \<noteq> StopAborted \<and> am_stopReason a \<noteq> StopError then Some (am_usage a) else None)
      | _ \<Rightarrow> None)"

fun first_usage :: "entry list \<Rightarrow> usage option" where
  "first_usage [] = None"
| "first_usage (e # es) =
     (case en_kind e of
        Message m \<Rightarrow> (case getAssistantUsage m of Some u \<Rightarrow> Some u | None \<Rightarrow> first_usage es)
      | _ \<Rightarrow> first_usage es)"

definition getLastAssistantUsage :: "entry list \<Rightarrow> usage option" where
  "getLastAssistantUsage es = first_usage (rev es)"

section \<open>The cut point\<close>

definition valid_cut :: "entry \<Rightarrow> bool" where
  "valid_cut e =
     (case en_kind e of
        Message m \<Rightarrow>
          (case m of
             BashExecution _ _ \<Rightarrow> True | HookMessage _ _ \<Rightarrow> True | BranchSummaryMessage _ _ _ \<Rightarrow> True
           | CompactionSummaryMessage _ _ _ _ _ \<Rightarrow> True | UserMessage _ \<Rightarrow> True | AssistantMessage _ \<Rightarrow> True
           | _ \<Rightarrow> False)
      | BranchSummary _ _ _ _ \<Rightarrow> True
      | CustomMessageEntry _ _ \<Rightarrow> True
      | _ \<Rightarrow> False)"

definition findValidCutPoints :: "entry list \<Rightarrow> nat \<Rightarrow> nat \<Rightarrow> nat list" where
  "findValidCutPoints es a b = filter (\<lambda>i. valid_cut (es ! i)) [a..<b]"

definition turn_start :: "entry \<Rightarrow> bool" where
  "turn_start e =
     (case en_kind e of
        BranchSummary _ _ _ _ \<Rightarrow> True
      | CustomMessageEntry _ _ \<Rightarrow> True
      | Message (UserMessage _) \<Rightarrow> True
      | Message (BashExecution _ _) \<Rightarrow> True
      | _ \<Rightarrow> False)"

text \<open>\<open>None\<close> stands for the index \<open>-1\<close>.\<close>

definition findTurnStartIndex :: "entry list \<Rightarrow> nat \<Rightarrow> nat \<Rightarrow> nat option" where
  "findTurnStartIndex es i a = find (\<lambda>j. turn_start (es ! j)) (rev [a..<Suc i])"

text \<open>The walk from the newest entry back, over the indices that are left.\<close>

fun scan_back ::
  "(jstring list \<Rightarrow> nat) \<Rightarrow> entry list \<Rightarrow> nat list \<Rightarrow> nat \<Rightarrow> nat list \<Rightarrow> nat \<Rightarrow> nat" where
  "scan_back countTokens es cutPoints keep [] acc = hd cutPoints"
| "scan_back countTokens es cutPoints keep (i # is) acc =
     (case en_kind (es ! i) of
        Message m \<Rightarrow>
          (let acc' = acc + estimateTokens countTokens m
           in if acc' \<ge> keep
              then (case find (\<lambda>c. c \<ge> i) cutPoints of Some c \<Rightarrow> c | None \<Rightarrow> hd cutPoints)
              else scan_back countTokens es cutPoints keep is acc')
      | _ \<Rightarrow> scan_back countTokens es cutPoints keep is acc)"

fun extend_back :: "entry list \<Rightarrow> nat \<Rightarrow> nat \<Rightarrow> nat" where
  "extend_back es a 0 = 0"
| "extend_back es a (Suc c) =
     (if Suc c > a \<and> \<not> is_compaction (es ! c) \<and> \<not> is_message (es ! c) then extend_back es a c else Suc c)"

record cut_point_result =
  ct_firstKeptEntryIndex :: nat
  ct_turnStartIndex :: "nat option"
  ct_isSplitTurn :: bool

definition is_user_entry :: "entry \<Rightarrow> bool" where
  "is_user_entry e = (case en_kind e of Message (UserMessage _) \<Rightarrow> True | _ \<Rightarrow> False)"

definition findCutPoint ::
  "(jstring list \<Rightarrow> nat) \<Rightarrow> entry list \<Rightarrow> nat \<Rightarrow> nat \<Rightarrow> nat \<Rightarrow> cut_point_result" where
  "findCutPoint countTokens es a b keep =
     (let cutPoints = findValidCutPoints es a b
      in if length cutPoints = 0
         then \<lparr>ct_firstKeptEntryIndex = a, ct_turnStartIndex = None, ct_isSplitTurn = False\<rparr>
         else let cutIndex = extend_back es a (scan_back countTokens es cutPoints keep (rev [a..<b]) 0);
                  isUserMessage = is_user_entry (es ! cutIndex);
                  turnStartIndex = (if isUserMessage then None else findTurnStartIndex es cutIndex a)
              in \<lparr>ct_firstKeptEntryIndex = cutIndex, ct_turnStartIndex = turnStartIndex,
                  ct_isSplitTurn = (\<not> isUserMessage \<and> turnStartIndex \<noteq> None)\<rparr>)"

section \<open>File operations\<close>

record file_operations =
  fo_read :: "jstring list"
  fo_written :: "jstring list"
  fo_edited :: "jstring list"

definition createFileOps :: file_operations where
  "createFileOps = \<lparr>fo_read = [], fo_written = [], fo_edited = []\<rparr>"

definition block_file_op :: "file_operations \<Rightarrow> assistant_block \<Rightarrow> file_operations" where
  "block_file_op ops b =
     (case b of
        ToolCall tc \<Rightarrow>
          (case map_of (tc_arguments tc) (js ''path'') of
             Some (JString (c # cs)) \<Rightarrow>
               (if tc_name tc = js ''read'' then ops\<lparr>fo_read := set_add (fo_read ops) (c # cs)\<rparr>
                else if tc_name tc = js ''write'' then ops\<lparr>fo_written := set_add (fo_written ops) (c # cs)\<rparr>
                else if tc_name tc = js ''edit'' then ops\<lparr>fo_edited := set_add (fo_edited ops) (c # cs)\<rparr>
                else ops)
           | _ \<Rightarrow> ops)
      | _ \<Rightarrow> ops)"

definition extractFileOpsFromMessage :: "file_operations \<Rightarrow> message \<Rightarrow> file_operations" where
  "extractFileOpsFromMessage ops m =
     (case m of AssistantMessage a \<Rightarrow> foldl block_file_op ops (am_content a) | _ \<Rightarrow> ops)"

definition extractFileOperations :: "message list \<Rightarrow> entry list \<Rightarrow> nat option \<Rightarrow> file_operations" where
  "extractFileOperations ms es prev =
     (let ops0 = (case prev of
            None \<Rightarrow> createFileOps
          | Some i \<Rightarrow>
              (case en_kind (es ! i) of
                 Compaction c \<Rightarrow>
                   (case (cp_fromExtension c, cp_details c) of
                      (False, Some (readFiles, modifiedFiles)) \<Rightarrow>
                        createFileOps\<lparr>fo_read := foldl set_add [] readFiles,
                          fo_edited := foldl set_add [] modifiedFiles\<rparr>
                    | _ \<Rightarrow> createFileOps)
               | _ \<Rightarrow> createFileOps))
      in foldl extractFileOpsFromMessage ops0 ms)"

definition computeFileLists :: "file_operations \<Rightarrow> jstring list \<times> jstring list" where
  "computeFileLists ops =
     (let modified = foldl set_add (fo_edited ops) (fo_written ops)
      in (sort (filter (\<lambda>f. f \<notin> set modified) (fo_read ops)), sort modified))"

section \<open>Preparation\<close>

record compaction_preparation =
  pn_firstKeptEntryId :: jstring
  pn_messagesToSummarize :: "message list"
  pn_turnPrefixMessages :: "message list"
  pn_recentMessages :: "message list"
  pn_isSplitTurn :: bool
  pn_tokensBefore :: nat
  pn_previousSummary :: "jstring option"
  pn_previousPreserveData :: "(jstring \<times> json) list option"
  pn_fileOps :: file_operations

definition last_compaction_index :: "entry list \<Rightarrow> nat option" where
  "last_compaction_index es = find (\<lambda>i. is_compaction (es ! i)) (rev [0..<length es])"

text \<open>The budget of tokens to keep, scaled down where the provider counted more than estimated.\<close>

definition keep_budget ::
  "(jstring list \<Rightarrow> nat) \<Rightarrow> (nat \<Rightarrow> nat \<Rightarrow> nat \<Rightarrow> nat) \<Rightarrow> entry list \<Rightarrow> nat \<Rightarrow> nat \<Rightarrow> nat" where
  "keep_budget countTokens scaled es boundaryStart keepRecentTokens =
     (case getLastAssistantUsage es of
        None \<Rightarrow> keepRecentTokens
      | Some u \<Rightarrow>
          (let estimated = estimateEntriesTokens countTokens es boundaryStart (length es);
               prompt = calculatePromptTokens u
           in if estimated > 0 \<and> prompt > estimated
              then max 1 (scaled keepRecentTokens prompt estimated) else keepRecentTokens))"

definition prepareCompaction ::
  "(jstring list \<Rightarrow> nat) \<Rightarrow> (nat \<Rightarrow> nat \<Rightarrow> nat \<Rightarrow> nat) \<Rightarrow> entry list \<Rightarrow> nat \<Rightarrow> compaction_preparation option" where
  "prepareCompaction countTokens scaled es keepRecentTokens =
     (if length es > 0 \<and> is_compaction (es ! (length es - 1)) then None
      else
        let prev = last_compaction_index es;
            boundaryStart = (case prev of Some i \<Rightarrow> i + 1 | None \<Rightarrow> 0);
            boundaryEnd = length es;
            tokensBefore = (case getLastAssistantUsage es of
              Some u \<Rightarrow> calculateContextTokens u | None \<Rightarrow> 0);
            keep = keep_budget countTokens scaled es boundaryStart keepRecentTokens;
            cut = findCutPoint countTokens es boundaryStart boundaryEnd keep;
            first = ct_firstKeptEntryIndex cut
        in case nth_opt es first of
             None \<Rightarrow> None
           | Some e \<Rightarrow>
               if en_id e = [] then None
               else
                 let historyEnd = (if ct_isSplitTurn cut then the (ct_turnStartIndex cut) else first);
                     toSummarize = messages_between es boundaryStart historyEnd;
                     turnPrefix = (if ct_isSplitTurn cut
                       then messages_between es (the (ct_turnStartIndex cut)) first else []);
                     recent = messages_between es first boundaryEnd;
                     prevCompaction = (case prev of
                       Some i \<Rightarrow> (case en_kind (es ! i) of Compaction c \<Rightarrow> Some c | _ \<Rightarrow> None) | None \<Rightarrow> None);
                     ops = extractFileOperations toSummarize es prev
                 in if length toSummarize = 0 \<and> length turnPrefix = 0 then None
                    else Some
                      \<lparr>pn_firstKeptEntryId = en_id e, pn_messagesToSummarize = toSummarize,
                       pn_turnPrefixMessages = turnPrefix, pn_recentMessages = recent,
                       pn_isSplitTurn = ct_isSplitTurn cut, pn_tokensBefore = tokensBefore,
                       pn_previousSummary = map_option cp_summary prevCompaction,
                       pn_previousPreserveData = (case prevCompaction of Some c \<Rightarrow> cp_preserveData c | None \<Rightarrow> None),
                       pn_fileOps = (if ct_isSplitTurn cut
                         then foldl extractFileOpsFromMessage ops turnPrefix else ops)\<rparr>)"

section \<open>The summary\<close>

text \<open>
  How \<open>compact\<close> puts the summary together.  \<open>summarize\<close> is what \<open>generateSummary\<close> answers for
  the messages and the previous summary, \<open>summarizePrefix\<close> what \<open>generateTurnPrefixSummary\<close>
  answers; the file lists that are appended afterwards are those of \<open>computeFileLists\<close>.
\<close>

definition no_history :: jstring where "no_history = js ''No prior history.''"

definition turn_context_heading :: jstring where
  "turn_context_heading = [LF, LF] @ js ''---'' @ [LF, LF] @ js ''**Turn Context (split turn):**'' @ [LF, LF]"

definition compact_summary ::
  "(message list \<Rightarrow> jstring option \<Rightarrow> jstring) \<Rightarrow> (message list \<Rightarrow> jstring) \<Rightarrow> compaction_preparation \<Rightarrow> jstring" where
  "compact_summary summarize summarizePrefix p =
     (if pn_isSplitTurn p \<and> length (pn_turnPrefixMessages p) > 0 then
        (if length (pn_messagesToSummarize p) > 0
         then summarize (pn_messagesToSummarize p) (pn_previousSummary p) else no_history)
        @ turn_context_heading @ summarizePrefix (pn_turnPrefixMessages p)
      else if length (pn_messagesToSummarize p) > 0 then
        summarize (pn_messagesToSummarize p) (pn_previousSummary p)
      else (case pn_previousSummary p of Some (c # cs) \<Rightarrow> c # cs | _ \<Rightarrow> no_history))"

text \<open>\<open>withOpenAiRemoteCompactionPreserveData\<close> without a new remote compaction.\<close>

definition without_remote :: "(jstring \<times> json) list option \<Rightarrow> (jstring \<times> json) list option" where
  "without_remote preserve =
     (case preserve of
        None \<Rightarrow> None
      | Some kvs \<Rightarrow>
          (if js ''openaiRemoteCompaction'' \<notin> fst ` set kvs then Some kvs
           else let rest = filter (\<lambda>kv. fst kv \<noteq> js ''openaiRemoteCompaction'') kvs
                in if rest = [] then None else Some rest))"

text \<open>The entry that records a compaction without a native replacement history.\<close>

definition compact_result ::
  "(message list \<Rightarrow> jstring option \<Rightarrow> jstring) \<Rightarrow> (message list \<Rightarrow> jstring) \<Rightarrow>
   (message list \<Rightarrow> jstring \<Rightarrow> jstring) \<Rightarrow> (jstring \<Rightarrow> jstring list \<times> jstring list \<Rightarrow> jstring) \<Rightarrow>
   compaction_preparation \<Rightarrow> compaction" where
  "compact_result summarize summarizePrefix shorten upsertFiles p =
     (let summary = compact_summary summarize summarizePrefix p;
          short = shorten (pn_recentMessages p) summary;
          files = computeFileLists (pn_fileOps p)
      in \<lparr>cp_summary = upsertFiles summary files, cp_shortSummary = Some short,
          cp_firstKeptEntryId = pn_firstKeptEntryId p, cp_tokensBefore = pn_tokensBefore p,
          cp_details = Some files, cp_preserveData = without_remote (pn_previousPreserveData p),
          cp_fromExtension = False\<rparr>)"

end
