(* ===== verification/Compaction_Correct.thy ===== *)
theory Compaction_Correct
  imports Compaction
begin

text \<open>
  What a compaction keeps: the preparation splits the messages since the last compaction at the cut
  without losing any, the kept part never opens with the result of a tool call whose call was
  summarised, and the context built after the entry is recorded is the summary followed by exactly
  the kept messages.  Three behaviours of the code that lose information are stated as what it does.
\<close>


section \<open>Segments of messages\<close>

lemma find_mem: "find P xs = Some x \<Longrightarrow> x \<in> set xs \<and> P x"
  by (induction xs) (auto split: if_splits)

lemma slice_append:
  assumes "a \<le> b" "b \<le> c"
  shows "slice xs a b @ slice xs b c = slice xs a c"
proof -
  have d: "slice xs i j = drop i (take j xs)" for i j by (simp add: slice_def drop_take)
  have t: "take c xs = take b xs @ drop b (take c xs)"
    using append_take_drop_id [of b "take c xs"] assms(2) by (simp add: min_def)
  have "drop a (take b xs @ drop b (take c xs)) = drop a (take b xs) @ drop b (take c xs)"
    using assms(1) by (cases "b \<le> length xs") simp_all
  then show ?thesis using t d by metis
qed

lemma map_filter_append: "List.map_filter f (xs @ ys) = List.map_filter f xs @ List.map_filter f ys"
  by (simp add: List.map_filter_def)

lemma messages_split:
  "a \<le> b \<Longrightarrow> b \<le> c \<Longrightarrow> messages_between es a b @ messages_between es b c = messages_between es a c"
  by (simp add: messages_between_def slice_append flip: map_filter_append)

section \<open>The cut\<close>

lemma extend_back_bounds:
  "a \<le> c \<Longrightarrow> a \<le> extend_back es a c \<and> extend_back es a c \<le> c \<and>
   (\<forall>i. extend_back es a c \<le> i \<and> i < c \<longrightarrow> \<not> is_message (es ! i) \<and> \<not> is_compaction (es ! i))"
proof (induction c)
  case (Suc c)
  then show ?case by (cases "a \<le> c") (auto simp: less_Suc_eq)
qed simp

lemma scan_back_cut:
  assumes "cutPoints \<noteq> []"
  shows "scan_back countTokens es cutPoints keep is acc \<in> set cutPoints"
proof (induction "is" arbitrary: acc)
  case (Cons i "is")
  have "(case find (\<lambda>c. c \<ge> i) cutPoints of Some c \<Rightarrow> c | None \<Rightarrow> hd cutPoints) \<in> set cutPoints"
    using assms by (auto simp: find_Some_iff split: option.splits)
  then show ?case using Cons.IH by (auto simp: Let_def split: entry_kind.splits)
qed (use assms in simp)

lemma turn_start_bounds:
  "findTurnStartIndex es i a = Some j \<Longrightarrow> a \<le> j \<and> j \<le> i \<and> turn_start (es ! j)"
proof -
  assume "findTurnStartIndex es i a = Some j"
  then have "j \<in> set (rev [a..<Suc i]) \<and> turn_start (es ! j)"
    unfolding findTurnStartIndex_def by (rule find_mem)
  then show "a \<le> j \<and> j \<le> i \<and> turn_start (es ! j)" by (auto split: if_splits)
qed

lemma cut_spec:
  assumes "a \<le> b" "findCutPoint countTokens es a b keep = cp"
  shows "a \<le> ct_firstKeptEntryIndex cp" "ct_firstKeptEntryIndex cp \<le> b"
    "ct_isSplitTurn cp \<Longrightarrow> \<exists>j. ct_turnStartIndex cp = Some j \<and> a \<le> j \<and> j \<le> ct_firstKeptEntryIndex cp \<and> turn_start (es ! j)"
    "ct_firstKeptEntryIndex cp = a \<and> \<not> ct_isSplitTurn cp \<or>
      (\<exists>c<b. ct_firstKeptEntryIndex cp \<le> c \<and> valid_cut (es ! c) \<and>
        (\<forall>i. ct_firstKeptEntryIndex cp \<le> i \<and> i < c \<longrightarrow> \<not> is_message (es ! i)))"
proof -
  let ?cuts = "findValidCutPoints es a b"
  let ?c0 = "scan_back countTokens es ?cuts keep (rev [a..<b]) 0"
  have *: "a \<le> ct_firstKeptEntryIndex cp \<and> ct_firstKeptEntryIndex cp \<le> b \<and>
    (ct_isSplitTurn cp \<longrightarrow> (\<exists>j. ct_turnStartIndex cp = Some j \<and> a \<le> j \<and> j \<le> ct_firstKeptEntryIndex cp \<and> turn_start (es ! j))) \<and>
    (ct_firstKeptEntryIndex cp = a \<and> \<not> ct_isSplitTurn cp \<or>
      (\<exists>c<b. ct_firstKeptEntryIndex cp \<le> c \<and> valid_cut (es ! c) \<and>
        (\<forall>i. ct_firstKeptEntryIndex cp \<le> i \<and> i < c \<longrightarrow> \<not> is_message (es ! i))))"
  proof (cases "?cuts = []")
    case True
    then show ?thesis using assms by (auto simp: findCutPoint_def Let_def)
  next
    case False
    have c0: "a \<le> ?c0" "?c0 < b" "valid_cut (es ! ?c0)"
      using scan_back_cut [OF False, of countTokens es keep "rev [a..<b]" 0]
      unfolding findValidCutPoints_def by auto
    let ?f = "extend_back es a ?c0"
    have f: "a \<le> ?f" "?f \<le> ?c0" "\<forall>i. ?f \<le> i \<and> i < ?c0 \<longrightarrow> \<not> is_message (es ! i)"
      using extend_back_bounds [OF c0(1), of es] by auto
    have cp: "ct_firstKeptEntryIndex cp = ?f"
      "ct_isSplitTurn cp \<longrightarrow> ct_turnStartIndex cp = findTurnStartIndex es ?f a \<and> ct_turnStartIndex cp \<noteq> None"
      using assms(2) False by (auto simp: findCutPoint_def Let_def)
    have "ct_isSplitTurn cp \<longrightarrow> (\<exists>j. ct_turnStartIndex cp = Some j \<and> a \<le> j \<and> j \<le> ?f \<and> turn_start (es ! j))"
    proof
      assume sp: "ct_isSplitTurn cp"
      then obtain j where "ct_turnStartIndex cp = Some j" "findTurnStartIndex es ?f a = Some j"
        using cp(2) by (cases "ct_turnStartIndex cp") simp_all
      then show "\<exists>j. ct_turnStartIndex cp = Some j \<and> a \<le> j \<and> j \<le> ?f \<and> turn_start (es ! j)"
        using turn_start_bounds [of es ?f a j] by blast
    qed
    moreover have "?f \<le> b" using f(2) c0(2) by simp
    moreover have "\<exists>c<b. ?f \<le> c \<and> valid_cut (es ! c) \<and> (\<forall>i. ?f \<le> i \<and> i < c \<longrightarrow> \<not> is_message (es ! i))"
      using c0 f by blast
    ultimately show ?thesis unfolding cp(1) using f(1) by blast
  qed
  then show "a \<le> ct_firstKeptEntryIndex cp" "ct_firstKeptEntryIndex cp \<le> b"
    "ct_isSplitTurn cp \<Longrightarrow> \<exists>j. ct_turnStartIndex cp = Some j \<and> a \<le> j \<and> j \<le> ct_firstKeptEntryIndex cp \<and> turn_start (es ! j)"
    "ct_firstKeptEntryIndex cp = a \<and> \<not> ct_isSplitTurn cp \<or>
      (\<exists>c<b. ct_firstKeptEntryIndex cp \<le> c \<and> valid_cut (es ! c) \<and>
        (\<forall>i. ct_firstKeptEntryIndex cp \<le> i \<and> i < c \<longrightarrow> \<not> is_message (es ! i)))"
    by blast+
qed

definition boundary_start :: "entry list \<Rightarrow> nat" where
  "boundary_start es = (case last_compaction_index es of Some i \<Rightarrow> i + 1 | None \<Rightarrow> 0)"

lemma last_compaction_spec:
  "last_compaction_index es = Some i \<Longrightarrow> i < length es \<and> is_compaction (es ! i) \<and>
     (\<forall>j. i < j \<and> j < length es \<longrightarrow> \<not> is_compaction (es ! j))"
proof -
  assume "last_compaction_index es = Some i"
  then obtain k where k: "k < length es" "i = length es - Suc k" "is_compaction (es ! i)"
    "\<forall>m<k. \<not> is_compaction (es ! (length es - Suc m))"
    by (auto simp: last_compaction_index_def find_Some_iff rev_nth)
  have "\<not> is_compaction (es ! j)" if "i < j" "j < length es" for j
    using k(4) [rule_format, of "length es - Suc j"] that k(1,2) by simp
  then show ?thesis using k by auto
qed

lemma last_compaction_None: "last_compaction_index es = None \<Longrightarrow> i < length es \<Longrightarrow> \<not> is_compaction (es ! i)"
  by (auto simp: last_compaction_index_def find_None_iff)

lemma boundary_le: "boundary_start es \<le> length es"
  using last_compaction_spec by (auto simp: boundary_start_def Suc_le_eq split: option.splits)

lemma after_boundary: "boundary_start es \<le> i \<Longrightarrow> i < length es \<Longrightarrow> \<not> is_compaction (es ! i)"
  using last_compaction_spec last_compaction_None by (fastforce simp: boundary_start_def split: option.splits)

text \<open>The preparation in terms of the indices of the cut.\<close>

lemma prepare_spec:
  assumes "prepareCompaction countTokens scaled es keep = Some p"
  obtains first start where
    "boundary_start es \<le> start" "start \<le> first" "first < length es"
    "pn_firstKeptEntryId p = en_id (es ! first)" "en_id (es ! first) \<noteq> []"
    "pn_messagesToSummarize p = messages_between es (boundary_start es) start"
    "pn_turnPrefixMessages p = messages_between es start first"
    "pn_recentMessages p = messages_between es first (length es)"
    "pn_messagesToSummarize p \<noteq> [] \<or> pn_turnPrefixMessages p \<noteq> []"
    "pn_isSplitTurn p \<longrightarrow> turn_start (es ! start)"
    "\<not> pn_isSplitTurn p \<longrightarrow> start = first"
    "\<exists>c<length es. first \<le> c \<and> valid_cut (es ! c) \<and> (\<forall>i. first \<le> i \<and> i < c \<longrightarrow> \<not> is_message (es ! i))"
    "pn_previousSummary p = (case last_compaction_index es of
       Some i \<Rightarrow> (case en_kind (es ! i) of Compaction c \<Rightarrow> Some (cp_summary c) | _ \<Rightarrow> None) | None \<Rightarrow> None)"
proof -
  define cp where "cp = findCutPoint countTokens es (boundary_start es) (length es)
      (keep_budget countTokens scaled es (boundary_start es) keep)"
  let ?a = "boundary_start es" and ?f = "ct_firstKeptEntryIndex cp"
  let ?s = "if ct_isSplitTurn cp then the (ct_turnStartIndex cp) else ?f"
  have b: "(case last_compaction_index es of Some i \<Rightarrow> i + 1 | None \<Rightarrow> 0) = ?a" by (simp add: boundary_start_def)
  have f: "?f < length es" "en_id (es ! ?f) \<noteq> []"
    and p: "pn_firstKeptEntryId p = en_id (es ! ?f)"
      "pn_messagesToSummarize p = messages_between es ?a ?s"
      "pn_turnPrefixMessages p = (if ct_isSplitTurn cp then messages_between es ?s ?f else [])"
      "pn_recentMessages p = messages_between es ?f (length es)"
      "pn_messagesToSummarize p \<noteq> [] \<or> pn_turnPrefixMessages p \<noteq> []"
      "pn_isSplitTurn p = ct_isSplitTurn cp"
      "pn_previousSummary p = map_option cp_summary (case last_compaction_index es of
         Some i \<Rightarrow> (case en_kind (es ! i) of Compaction c \<Rightarrow> Some c | _ \<Rightarrow> None) | None \<Rightarrow> None)"
    using assms unfolding prepareCompaction_def Let_def b
    by (auto simp flip: cp_def simp: nth_opt_Some split: if_splits option.splits)
  note cs = cut_spec [OF boundary_le [of es] cp_def [symmetric]]
  have s: "?a \<le> ?s" "?s \<le> ?f" "ct_isSplitTurn cp \<Longrightarrow> turn_start (es ! ?s)"
    using cs(1,2) cs(3) by auto
  have e: "messages_between es i i = []" for i by (simp add: messages_between_def slice_def List.map_filter_def)
  have "?f = ?a \<and> \<not> ct_isSplitTurn cp \<Longrightarrow> False" using p(2,3,5) e by auto
  then have v: "\<exists>c<length es. ?f \<le> c \<and> valid_cut (es ! c) \<and> (\<forall>i. ?f \<le> i \<and> i < c \<longrightarrow> \<not> is_message (es ! i))"
    using cs(4) by blast
  have prev: "pn_previousSummary p = (case last_compaction_index es of
       Some i \<Rightarrow> (case en_kind (es ! i) of Compaction c \<Rightarrow> Some (cp_summary c) | _ \<Rightarrow> None) | None \<Rightarrow> None)"
    using p(7) by (auto split: option.splits entry_kind.splits)
  show thesis
  proof (rule that [of ?s ?f])
    show "?a \<le> ?s" "?s \<le> ?f" by (fact s)+
    show "?f < length es" "en_id (es ! ?f) \<noteq> []" by (fact f)+
    show "pn_firstKeptEntryId p = en_id (es ! ?f)" "pn_messagesToSummarize p = messages_between es ?a ?s"
      "pn_recentMessages p = messages_between es ?f (length es)"
      "pn_messagesToSummarize p \<noteq> [] \<or> pn_turnPrefixMessages p \<noteq> []" by (fact p)+
    show "pn_turnPrefixMessages p = messages_between es ?s ?f" using p(3) e by simp
    show "pn_isSplitTurn p \<longrightarrow> turn_start (es ! ?s)" using p(6) s(3) by simp
    show "\<not> pn_isSplitTurn p \<longrightarrow> ?s = ?f" using p(6) by simp
  qed (fact v, fact prev)
qed

section \<open>Calls and results in the kept part\<close>

text \<open>
  A transcript in which every tool result stands after the assistant message with its call,
  with only other results in between.
\<close>

definition call_ids :: "assistant_message \<Rightarrow> jstring list" where
  "call_ids a = concat (map (\<lambda>b. case b of ToolCall tc \<Rightarrow> [tc_id tc] | _ \<Rightarrow> []) (am_content a))"

fun in_turn :: "jstring list \<Rightarrow> message list \<Rightarrow> bool" where
  "in_turn ids [] = True"
| "in_turn ids (m # ms) =
     (case m of
        AssistantMessage a \<Rightarrow> in_turn (call_ids a) ms
      | ToolResultMessage r \<Rightarrow> tr_toolCallId r \<in> set ids \<and> in_turn ids ms
      | _ \<Rightarrow> in_turn [] ms)"

lemma in_turn_suffix: "in_turn ids (xs @ ys) \<Longrightarrow> \<exists>ids'. in_turn ids' ys"
proof (induction xs arbitrary: ids)
  case (Cons x xs)
  from Cons.prems have "\<exists>i. in_turn i (xs @ ys)" by (cases x) auto
  then show ?case using Cons.IH by blast
qed auto

definition is_tool_result :: "message \<Rightarrow> bool" where
  "is_tool_result m = (case m of ToolResultMessage _ \<Rightarrow> True | _ \<Rightarrow> False)"

lemma in_turn_fresh: "in_turn ids (m # ms) \<Longrightarrow> \<not> is_tool_result m \<Longrightarrow> in_turn [] (m # ms)"
  by (cases m) (simp_all add: is_tool_result_def)

lemma messages_from:
  assumes "i < length es" "i \<le> b" "b \<le> length es"
  shows "messages_between es i b =
    (if i < b then (case getMessageFromEntry (es ! i) of Some m \<Rightarrow> [m] | None \<Rightarrow> []) @ messages_between es (Suc i) b else [])"
proof (cases "i < b")
  case True
  then have "slice es i b = es ! i # slice es (Suc i) b"
    using assms by (simp add: slice_def Cons_nth_drop_Suc [symmetric] Suc_diff_Suc [symmetric])
  then show ?thesis using True by (simp add: messages_between_def List.map_filter_simps split: option.splits)
qed (use assms in \<open>simp add: messages_between_def slice_def List.map_filter_simps\<close>)

lemma valid_cut_message: "valid_cut e \<Longrightarrow> \<exists>m. getMessageFromEntry e = Some m \<and> \<not> is_tool_result m"
  by (auto simp: valid_cut_def getMessageFromEntry_def is_tool_result_def split: entry_kind.splits message.splits)

lemma other_message:
  "getMessageFromEntry e = Some m \<Longrightarrow> \<not> is_message e \<Longrightarrow> \<not> is_tool_result m"
  by (auto simp: getMessageFromEntry_def is_tool_result_def is_message_def split: entry_kind.splits)

lemma kept_head:
  assumes "c < length es" "f \<le> c" "valid_cut (es ! c)" "\<forall>i. f \<le> i \<and> i < c \<longrightarrow> \<not> is_message (es ! i)"
  shows "\<exists>m ms. messages_between es f (length es) = m # ms \<and> \<not> is_tool_result m"
  using assms(2,4)
proof (induction f rule: inc_induct)
  case base
  obtain m where "getMessageFromEntry (es ! c) = Some m" "\<not> is_tool_result m" using valid_cut_message [OF assms(3)] by blast
  then show ?case using messages_from [of c es "length es"] assms(1) by simp
next
  case (step n)
  have n: "n < length es" using step.hyps assms(1) by simp
  have "\<not> is_message (es ! n)" using step by blast
  moreover have "\<exists>m ms. messages_between es (Suc n) (length es) = m # ms \<and> \<not> is_tool_result m" using step by simp
  ultimately show ?case
    using messages_from [of n es "length es"] n other_message [of "es ! n"]
    by (cases "getMessageFromEntry (es ! n)") auto
qed

lemma turn_start_message:
  "turn_start e \<Longrightarrow> \<exists>m. getMessageFromEntry e = Some m \<and> \<not> is_assistant m \<and> \<not> is_tool_result m"
  by (auto simp: turn_start_def getMessageFromEntry_def is_tool_result_def is_assistant_def
      split: entry_kind.splits message.splits)

section \<open>Properties\<close>

text \<open>
  C19: preparing a compaction loses no message: those to summarise, the prefix of a split turn
  and those that are kept are, in this order, all messages since the last compaction; something
  is summarised, and the id that is recorded is that of the entry the kept messages start at.
\<close>

theorem prepare_partitions:
  assumes "prepareCompaction countTokens scaled es keep = Some p"
  shows "pn_messagesToSummarize p @ pn_turnPrefixMessages p @ pn_recentMessages p =
      messages_between es (boundary_start es) (length es) \<and>
    \<not> (pn_messagesToSummarize p = [] \<and> pn_turnPrefixMessages p = []) \<and>
    (\<exists>i. boundary_start es \<le> i \<and> i < length es \<and> pn_firstKeptEntryId p = en_id (es ! i) \<and>
      pn_recentMessages p = messages_between es i (length es))"
proof (intro conjI)
  obtain first start where c: "boundary_start es \<le> start" "start \<le> first" "first < length es"
    "pn_firstKeptEntryId p = en_id (es ! first)"
    "pn_messagesToSummarize p = messages_between es (boundary_start es) start"
    "pn_turnPrefixMessages p = messages_between es start first"
    "pn_recentMessages p = messages_between es first (length es)"
    "pn_messagesToSummarize p \<noteq> [] \<or> pn_turnPrefixMessages p \<noteq> []"
    by (rule prepare_spec [OF assms])
  show "pn_messagesToSummarize p @ pn_turnPrefixMessages p @ pn_recentMessages p =
      messages_between es (boundary_start es) (length es)"
    unfolding c(5-7) using c(1-3) by (simp add: messages_split)
  show "\<not> (pn_messagesToSummarize p = [] \<and> pn_turnPrefixMessages p = [])" using c(8) by simp
  show "\<exists>i. boundary_start es \<le> i \<and> i < length es \<and> pn_firstKeptEntryId p = en_id (es ! i) \<and>
      pn_recentMessages p = messages_between es i (length es)"
    using c by (intro exI [of _ first]) simp
qed

text \<open>
  C20: a compaction never separates a tool result from its call: where every tool result follows
  the assistant message with its call, the same holds of the kept messages on their own.  The
  kept part is not empty, and a turn is split only behind the entry that starts it.
\<close>

theorem kept_results_have_calls:
  assumes "prepareCompaction countTokens scaled es keep = Some p"
    and "in_turn [] (messages_between es (boundary_start es) (length es))"
  shows "in_turn [] (pn_recentMessages p) \<and> pn_recentMessages p \<noteq> [] \<and>
    (pn_turnPrefixMessages p = [] \<or>
     pn_isSplitTurn p \<and> \<not> is_assistant (hd (pn_turnPrefixMessages p)) \<and> \<not> is_tool_result (hd (pn_turnPrefixMessages p)))"
proof -
  obtain first start where c: "boundary_start es \<le> start" "start \<le> first" "first < length es"
    "pn_turnPrefixMessages p = messages_between es start first"
    "pn_recentMessages p = messages_between es first (length es)"
    "pn_isSplitTurn p \<longrightarrow> turn_start (es ! start)" "\<not> pn_isSplitTurn p \<longrightarrow> start = first"
    "\<exists>c<length es. first \<le> c \<and> valid_cut (es ! c) \<and> (\<forall>i. first \<le> i \<and> i < c \<longrightarrow> \<not> is_message (es ! i))"
    by (rule prepare_spec [OF assms(1)])
  obtain m ms where m: "pn_recentMessages p = m # ms" "\<not> is_tool_result m"
    using c(5,8) kept_head [of _ es first] by metis
  have "in_turn [] (messages_between es (boundary_start es) first @ pn_recentMessages p)"
    using assms(2) c(1-3,5) by (simp add: messages_split)
  then have "in_turn [] (pn_recentMessages p)" using in_turn_suffix in_turn_fresh m by metis
  moreover have "pn_isSplitTurn p \<and> \<not> is_assistant (hd (pn_turnPrefixMessages p)) \<and> \<not> is_tool_result (hd (pn_turnPrefixMessages p))"
    if ne: "pn_turnPrefixMessages p \<noteq> []"
  proof -
    have "messages_between es first first = []" by (simp add: messages_between_def slice_def List.map_filter_simps)
    then have sp: "pn_isSplitTurn p" using ne c(4,7) by auto
    obtain m' where "getMessageFromEntry (es ! start) = Some m'" "\<not> is_assistant m'" "\<not> is_tool_result m'"
      using turn_start_message c(6) sp by blast
    then show ?thesis using sp messages_from [of start es first] c(2,3,4) ne by (auto split: if_splits)
  qed
  ultimately show ?thesis using m(1) by (cases "pn_turnPrefixMessages p") simp_all
qed

lemma summary_messages:
  assumes "\<forall>e\<in>set es. \<forall>i d x. en_kind e \<noteq> BranchSummary i [] d x" "list_all (\<lambda>e. \<not> is_compaction e) es"
  shows "List.map_filter getMessageFromEntry es = concat (map context_messages es)"
  using assms
proof (induction es)
  case (Cons e es)
  then show ?case
    by (cases "en_kind e") (auto simp: List.map_filter_simps getMessageFromEntry_def context_messages_def)
qed (simp add: List.map_filter_simps)

lemma dropWhile_at:
  assumes "distinct (map f xs)" "i < length xs"
  shows "dropWhile (\<lambda>x. f x \<noteq> f (xs ! i)) xs = drop i xs"
  using assms
proof (induction xs arbitrary: i)
  case (Cons x xs)
  then show ?case by (cases i) (auto simp: nth_mem)
qed simp

lemma without_remote_payload:
  "cp_preserveData c = without_remote d \<Longrightarrow> remote_payload c = None"
proof (cases "without_remote d")
  case (Some kvs)
  assume c: "cp_preserveData c = without_remote d"
  have "js ''openaiRemoteCompaction'' \<notin> fst ` set kvs"
    using Some unfolding without_remote_def Let_def by (auto split: option.splits if_splits)
  then have "map_of kvs (js ''openaiRemoteCompaction'') = None" by (simp only: map_of_eq_None_iff not_False_eq_True)
  then show ?thesis using c Some unfolding remote_payload_def by (simp only: option.case)
qed (simp add: remote_payload_def)

text \<open>
  C18: compacting a session composes as meant: after the entry with the result of the compaction is
  recorded, the context is the summary followed by the messages the preparation kept, less the
  tool calls without a result that every context drops (\<open>strip_dangling\<close>).  It is the path without a
  provider's remote compaction, which replaces the kept messages by its own and is not modelled,
  and no branch summary is empty.
\<close>

theorem context_after_compaction:
  assumes "session_reach s" "source_ok src s" "getBranch s None = Some es"
    and "prepareCompaction countTokens scaled es keep = Some p"
    and "\<forall>e\<in>set es. \<forall>i d x. en_kind e \<noteq> BranchSummary i [] d x"
    and c_def: "c = compact_result summarize summarizePrefix shorten upsertFiles p"
  shows "\<exists>ctx. sessionContext (appendCompaction s src now c) = Some ctx \<and>
    cx_messages ctx = strip_dangling
      (CompactionSummaryMessage (cp_summary c) (pn_tokensBefore p) now (cp_shortSummary c) None # pn_recentMessages p)"
proof -
  let ?s = "appendCompaction s src now c"
  let ?e = "\<lparr>en_id = generateId src (map_keys (sm_byId s)), en_parentId = sm_leafId s, en_timestamp = now, en_kind = Compaction c\<rparr>"
  have t: "tree_ok s" using reach_ok [OF assms(1)] by (simp add: session_ok_def)
  have t': "tree_ok ?s" unfolding appendCompaction_def by (rule tree_append [OF t assms(2)])
  have ents: "getEntries ?s = getEntries s @ [?e]" by (simp add: appendCompaction_def)
  have leaf: "sm_leafId ?s = Some (en_id ?e)" by (simp add: appendCompaction_def append_kind_def appendEntry_def)
  have es: "es = (case sm_leafId s of None \<Rightarrow> [] | Some l \<Rightarrow> path_to (getEntries s) l)"
    using leaf_branch [OF t] assms(3) by simp
  have br: "getBranch ?s None = Some (es @ [?e])" using leaf_branch [OF t'] leaf ents es by simp
  then have ctx: "sessionContext ?s = Some (context_of_path (es @ [?e]))"
    using session_context_spec [OF t'] leaf by auto
  have "es @ [?e] = path_to (getEntries ?s) (en_id ?e)" using leaf_branch [OF t'] leaf br by simp
  then have d: "distinct (map en_id (es @ [?e]))" using path_to_distinct t' by (simp add: tree_ok_def)
  have k: "en_kind ?e = Compaction c" by simp
  have sc: "ps_compaction (scan_path (es @ [?e])) = Some (?e, c)" using scan_last [of "[]" ?e c es] k by simp
  obtain first start where f: "boundary_start es \<le> start" "start \<le> first" "first < length es"
    "pn_firstKeptEntryId p = en_id (es ! first)" "pn_recentMessages p = messages_between es first (length es)"
    by (rule prepare_spec [OF assms(4)])
  have c: "cp_firstKeptEntryId c = en_id (es ! first)" "cp_tokensBefore c = pn_tokensBefore p" "remote_payload c = None"
    using f(4) by (simp_all add: c_def compact_result_def Let_def without_remote_payload)
  have nc: "list_all (\<lambda>e. \<not> is_compaction e) (drop first es)"
    using after_boundary [of es] f(1,2) by (auto simp: list_all_iff in_set_conv_nth)
  have ne: "\<forall>e\<in>set (drop first es). \<forall>i d x. en_kind e \<noteq> BranchSummary i [] d x" using assms(5) in_set_dropD by fast
  have "concat (map context_messages (dropWhile (\<lambda>g. en_id g \<noteq> cp_firstKeptEntryId c) es)) = pn_recentMessages p"
    using dropWhile_at [of en_id es first] d f(3) summary_messages [OF ne nc]
    by (simp add: c(1) f(5) messages_between_def slice_def)
  then have "compacted_messages (es @ [?e]) ?e c =
      CompactionSummaryMessage (cp_summary c) (pn_tokensBefore p) now (cp_shortSummary c) None # pn_recentMessages p"
    using compacted_path [OF d k] by (simp add: c(2,3))
  then show ?thesis using ctx sc by (simp add: context_messages_of_path path_messages_def)
qed

section \<open>Examples\<close>

text \<open>A tokenizer that counts one token per unit, and exact scaling.\<close>

definition unit_tokens :: "jstring list \<Rightarrow> nat" where "unit_tokens fs = length (concat fs)"

definition floor_scaled :: "nat \<Rightarrow> nat \<Rightarrow> nat \<Rightarrow> nat" where "floor_scaled keep prompt estimated = keep * estimated div prompt"

definition says :: "string \<Rightarrow> message" where
  "says t = AssistantMessage \<lparr>am_content = [TextBlock (js t)], am_provider = js ''p'', am_model = js ''m'',
     am_usage = zero_usage, am_stopReason = StopStop, am_errorMessage = None, am_replay = False\<rparr>"

definition asks :: "string \<Rightarrow> message" where "asks t = UserMessage (Plain (js t))"

definition compaction_at :: "string \<Rightarrow> string \<Rightarrow> string \<Rightarrow> entry" where
  "compaction_at i p kept = \<lparr>en_id = js i, en_parentId = Some (js p), en_timestamp = 1, en_kind = Compaction
     \<lparr>cp_summary = js ''sum'', cp_shortSummary = None, cp_firstKeptEntryId = js kept, cp_tokensBefore = 9,
      cp_details = None, cp_preserveData = None, cp_fromExtension = False\<rparr>\<rparr>"

text \<open>A question, a call with its result and an answer.\<close>

definition tool_turn :: "entry list" where
  "tool_turn = [message_entry ''a'' None (asks ''find''), message_entry ''b'' (Some ''a'') (says ''sure''),
     message_entry ''c'' (Some ''b'') (calling [''1'']), message_entry ''d'' (Some ''c'') (result_of_call ''1''),
     message_entry ''e'' (Some ''d'') (says ''done'')]"

definition tool_turn_prepared :: compaction_preparation where
  "tool_turn_prepared =
     \<lparr>pn_firstKeptEntryId = js ''c'', pn_messagesToSummarize = [],
      pn_turnPrefixMessages = [asks ''find'', says ''sure''],
      pn_recentMessages = [calling [''1''], result_of_call ''1'', says ''done''],
      pn_isSplitTurn = True, pn_tokensBefore = 0, pn_previousSummary = None, pn_previousPreserveData = None,
      pn_fileOps = createFileOps\<rparr>"

lemma tool_turn_prepare: "prepareCompaction unit_tokens floor_scaled tool_turn 8 = Some tool_turn_prepared"
  by code_simp

theorem prepare_partitions_witness:
  "\<exists>p. prepareCompaction unit_tokens floor_scaled tool_turn 8 = Some p \<and>
    pn_messagesToSummarize p @ pn_turnPrefixMessages p @ pn_recentMessages p = messages_between tool_turn 0 5"
proof -
  have "boundary_start tool_turn = 0" "length tool_turn = 5" by code_simp+
  then show ?thesis using prepare_partitions [OF tool_turn_prepare] tool_turn_prepare by auto
qed

theorem kept_results_have_calls_witness:
  "in_turn [] (pn_recentMessages tool_turn_prepared) \<and>
   pn_recentMessages tool_turn_prepared = [calling [''1''], result_of_call ''1'', says ''done'']"
proof -
  have "in_turn [] (messages_between tool_turn (boundary_start tool_turn) (length tool_turn))" by code_simp
  from kept_results_have_calls [OF tool_turn_prepare this] show ?thesis by (simp add: tool_turn_prepared_def)
qed

text \<open>Two greetings, of which the first is summarised.\<close>

definition greeting_compaction :: compaction where
  "greeting_compaction = compact_result (\<lambda>ms prev. js ''sum'') (\<lambda>ms. []) (\<lambda>ms t. js ''short'') (\<lambda>t files. t)
     (the (prepareCompaction unit_tokens floor_scaled (the (getBranch two_messages None)) 1))"

theorem context_after_compaction_witness:
  "\<exists>ctx. sessionContext (appendCompaction two_messages (draws [''c'']) 3 greeting_compaction) = Some ctx \<and>
    cx_messages ctx = [CompactionSummaryMessage (js ''sum'') 0 3 (Some (js ''short'')) None, hello]"
proof -
  have "map_keys (sm_byId two_messages) = [js ''a'', js ''b'']" by code_simp
  then have src: "source_ok (draws [''c'']) two_messages" by (simp add: source_ok_def draws_def)
  obtain es where es: "getBranch two_messages None = Some es" "es = the (getBranch two_messages None)"
    by (cases "getBranch two_messages None") (simp_all add: leaf_branch [OF conjunct1 [OF reach_ok [OF two_messages_reach, unfolded session_ok_def]]])
  have e2: "map en_kind (the (getBranch two_messages None)) = [Message hello, Message hello]" by code_simp
  have "\<forall>e\<in>set es. en_kind e \<in> set (map en_kind es)" by simp
  then have ne: "\<forall>e\<in>set es. \<forall>i d x. en_kind e \<noteq> BranchSummary i [] d x" unfolding es(2) e2 by force
  have "prepareCompaction unit_tokens floor_scaled (the (getBranch two_messages None)) 1 \<noteq> None" by code_simp
  then obtain p where p: "prepareCompaction unit_tokens floor_scaled es 1 = Some p"
    "p = the (prepareCompaction unit_tokens floor_scaled (the (getBranch two_messages None)) 1)"
    unfolding es(2) by auto
  have vals: "strip_dangling (CompactionSummaryMessage (cp_summary greeting_compaction) (pn_tokensBefore
      (the (prepareCompaction unit_tokens floor_scaled (the (getBranch two_messages None)) 1))) 3
      (cp_shortSummary greeting_compaction) None # pn_recentMessages
      (the (prepareCompaction unit_tokens floor_scaled (the (getBranch two_messages None)) 1))) =
    [CompactionSummaryMessage (js ''sum'') 0 3 (Some (js ''short'')) None, hello]" by code_simp
  show ?thesis
    using context_after_compaction [OF two_messages_reach src es(1) p(1) ne greeting_compaction_def [folded p(2)], of 3] vals
    unfolding p(2) by auto
qed

definition compacted_once :: "entry list" where
  "compacted_once = [message_entry ''a'' None (asks ''one''), message_entry ''b'' (Some ''a'') (says ''1''),
     message_entry ''c'' (Some ''b'') (asks ''two''), message_entry ''d'' (Some ''c'') (says ''2''),
     compaction_at ''e'' ''d'' ''c'',
     message_entry ''f'' (Some ''e'') (asks ''three''), message_entry ''g'' (Some ''f'') (says ''3''),
     message_entry ''h'' (Some ''g'') (asks ''four''), message_entry ''i'' (Some ''h'') (says ''4'')]"

text \<open>
  What the code does at the second compaction: the messages that the first compaction kept in
  full are neither summarised nor kept by the second.  Here the question \<open>two\<close> and its answer
  stand before the compaction entry and are in the context; the preparation covers only what
  follows that entry.
\<close>

theorem second_compaction_drops_kept:
  "cx_messages (context_of_path compacted_once) =
     [CompactionSummaryMessage (js ''sum'') 9 1 None None, asks ''two'', says ''2'', asks ''three'', says ''3'', asks ''four'', says ''4''] \<and>
   map_option (\<lambda>p. (pn_messagesToSummarize p, pn_turnPrefixMessages p, pn_recentMessages p))
     (prepareCompaction unit_tokens floor_scaled compacted_once 4) =
     Some ([asks ''three'', says ''3''], [], [asks ''four'', says ''4''])"
  by code_simp

text \<open>
  What the code does when the cut splits the first turn after a compaction: the summary of
  the earlier compaction is passed to no model call and replaced by the words \<open>No prior history.\<close>
\<close>

definition long_turn :: "entry list" where
  "long_turn = [message_entry ''a'' None (asks ''one''), message_entry ''b'' (Some ''a'') (says ''1''),
     compaction_at ''e'' ''b'' ''b'',
     message_entry ''f'' (Some ''e'') (asks ''two''), message_entry ''g'' (Some ''f'') (says ''2''),
     message_entry ''h'' (Some ''g'') (says ''3'')]"

theorem split_turn_drops_summary:
  "\<exists>p. prepareCompaction unit_tokens floor_scaled long_turn 1 = Some p \<and>
    pn_previousSummary p = Some (js ''sum'') \<and>
    (\<forall>summarize summarizePrefix. compact_summary summarize summarizePrefix p =
      js ''No prior history.'' @ turn_context_heading @ summarizePrefix [asks ''two'', says ''2''])"
proof -
  have "case prepareCompaction unit_tokens floor_scaled long_turn 1 of None \<Rightarrow> False
    | Some p \<Rightarrow> pn_previousSummary p = Some (js ''sum'') \<and> pn_isSplitTurn p \<and> pn_messagesToSummarize p = [] \<and>
        pn_turnPrefixMessages p = [asks ''two'', says ''2'']" by code_simp
  then show ?thesis
    by (auto simp: compact_summary_def no_history_def split: option.splits)
qed

text \<open>
  What the code does when a setting is changed right before the question the cut falls on: the
  cut moves back onto the change, which is no user message, and so the finished turn before it is
  treated as a split one: all of it becomes the prefix of the turn and nothing is left to summarise.
\<close>

definition setting_before_question :: "entry list" where
  "setting_before_question = [message_entry ''a'' None (asks ''one''), message_entry ''b'' (Some ''a'') (says ''1''),
     \<lparr>en_id = js ''t'', en_parentId = Some (js ''b''), en_timestamp = 1, en_kind = ThinkingLevelChange (Some (js ''high''))\<rparr>,
     message_entry ''c'' (Some ''t'') (asks ''two''), message_entry ''d'' (Some ''c'') (says ''2'')]"

theorem setting_makes_split_turn:
  "map_option (\<lambda>p. (pn_isSplitTurn p, pn_messagesToSummarize p, pn_turnPrefixMessages p))
     (prepareCompaction unit_tokens floor_scaled setting_before_question 4) =
     Some (True, [], [asks ''one'', says ''1'']) \<and>
   map_option (\<lambda>p. (pn_isSplitTurn p, pn_messagesToSummarize p, pn_turnPrefixMessages p))
     (prepareCompaction unit_tokens floor_scaled (filter is_message setting_before_question) 4) =
     Some (False, [asks ''one'', says ''1''], [])"
  by code_simp

end
