(* ===== verification/Branch_Summary.thy ===== *)
theory Branch_Summary
  imports Compaction_Correct
begin

text \<open>
  Leaving a branch: \<open>packages/agent/src/compaction/branch-summarization.ts\<close>.  The entries between
  the old leaf and the common ancestor with the new position are collected and reduced to a
  token budget; the call of the model that writes the summary is not modelled.
\<close>

section \<open>Collecting the entries\<close>

text \<open>The loop from the old leaf up; it stops at the ancestor, at the root and at a missing entry.\<close>

partial_function (option) collect_up :: "session \<Rightarrow> jstring option \<Rightarrow> jstring option \<Rightarrow> entry list \<Rightarrow> entry list option" where
  [code]: "collect_up s ancestor current acc =
     (case current of
        None \<Rightarrow> Some acc
      | Some i \<Rightarrow>
          (if i = [] \<or> current = ancestor then Some acc
           else case getEntry s i of
             None \<Rightarrow> Some acc
           | Some e \<Rightarrow> collect_up s ancestor (en_parentId e) (e # acc)))"

definition collectEntriesForBranchSummary ::
  "session \<Rightarrow> jstring option \<Rightarrow> jstring \<Rightarrow> (entry list \<times> jstring option) option" where
  "collectEntriesForBranchSummary s oldLeafId targetId =
     (case oldLeafId of
        Some (c # cs) \<Rightarrow>
          (case (getBranch s (Some (c # cs)), getBranch s (Some targetId)) of
             (Some oldPath, Some targetPath) \<Rightarrow>
               (let commonAncestorId = map_option en_id
                      (find (\<lambda>e. en_id e \<in> set (map en_id oldPath)) (rev targetPath))
                in map_option (\<lambda>es. (es, commonAncestorId)) (collect_up s commonAncestorId oldLeafId []))
           | _ \<Rightarrow> None)
      | _ \<Rightarrow> Some ([], None))"

section \<open>Reducing them to a budget\<close>

text \<open>The function of the same name as in \<open>compaction.ts\<close>: no tool results, but earlier compactions.\<close>

definition getMessageFromEntry' :: "entry \<Rightarrow> message option" where
  "getMessageFromEntry' e =
     (case en_kind e of
        Message m \<Rightarrow> (if is_tool_result m then None else Some m)
      | CustomMessageEntry customType content \<Rightarrow> Some (CustomMessage customType content)
      | BranchSummary fromId summary _ _ \<Rightarrow> Some (BranchSummaryMessage summary fromId (en_timestamp e))
      | Compaction c \<Rightarrow>
          Some (CompactionSummaryMessage (cp_summary c) (cp_tokensBefore c) (en_timestamp e) (cp_shortSummary c) None)
      | _ \<Rightarrow> None)"

definition nested_file_ops :: "file_operations \<Rightarrow> entry \<Rightarrow> file_operations" where
  "nested_file_ops ops e =
     (case en_kind e of
        BranchSummary fromId summary (Some (readFiles, modifiedFiles)) False \<Rightarrow>
          ops\<lparr>fo_read := foldl set_add (fo_read ops) readFiles,
              fo_edited := foldl set_add (fo_edited ops) modifiedFiles\<rparr>
      | _ \<Rightarrow> ops)"

definition is_summary_entry :: "entry \<Rightarrow> bool" where
  "is_summary_entry e = (case en_kind e of Compaction _ \<Rightarrow> True | BranchSummary _ _ _ _ \<Rightarrow> True | _ \<Rightarrow> False)"

record branch_preparation =
  bp_messages :: "message list"
  bp_fileOps :: file_operations
  bp_totalTokens :: nat

text \<open>
  The loop from the newest entry back over the entries that are left; \<open>total < budget * 0.9\<close>
  is \<open>10 * total < 9 * budget\<close>.
\<close>

fun prepare_back :: "(jstring list \<Rightarrow> nat) \<Rightarrow> nat \<Rightarrow> entry list \<Rightarrow> branch_preparation \<Rightarrow> branch_preparation" where
  "prepare_back countTokens budget [] p = p"
| "prepare_back countTokens budget (e # es) p =
     (case getMessageFromEntry' e of
        None \<Rightarrow> prepare_back countTokens budget es p
      | Some m \<Rightarrow>
          (let p1 = p\<lparr>bp_fileOps := extractFileOpsFromMessage (bp_fileOps p) m\<rparr>;
               tokens = estimateTokens countTokens m;
               p2 = p1\<lparr>bp_messages := m # bp_messages p1, bp_totalTokens := bp_totalTokens p1 + tokens\<rparr>
           in if budget > 0 \<and> bp_totalTokens p + tokens > budget
              then (if is_summary_entry e \<and> 10 * bp_totalTokens p < 9 * budget then p2 else p1)
              else prepare_back countTokens budget es p2))"

definition prepareBranchEntries :: "(jstring list \<Rightarrow> nat) \<Rightarrow> entry list \<Rightarrow> nat \<Rightarrow> branch_preparation" where
  "prepareBranchEntries countTokens es tokenBudget =
     prepare_back countTokens tokenBudget (rev es)
       \<lparr>bp_messages = [], bp_fileOps = foldl nested_file_ops createFileOps es, bp_totalTokens = 0\<rparr>"

section \<open>Prefixes of paths\<close>

lemma path_split:
  assumes "parents_ok {} es" "x \<in> set (path_to es i)"
  shows "\<exists>r. path_to es i = path_to es (en_id x) @ r"
  using assms
proof (induction es arbitrary: i rule: rev_induct)
  case (snoc y es)
  have ok: "parents_ok {} es" and new: "en_id y \<notin> en_id ` set es" using snoc.prems(1) by simp_all
  have sub: "set (path_to es q) \<subseteq> set es" for q
    using path_to_root_path [OF ok, of q] path_to_missing [of q es] by (cases "q \<in> en_id ` set es") auto
  have old: "\<exists>r. path_to es q = path_to (es @ [y]) (en_id x) @ r" if x: "x \<in> set (path_to es q)" for q
  proof -
    have "x \<in> set es" using x sub by blast
    then have "en_id x \<noteq> en_id y" using new by (metis image_eqI)
    then show ?thesis using snoc.IH [OF ok x] by simp
  qed
  show ?case
  proof (cases "en_id y = i")
    case False
    then show ?thesis using old [of i] snoc.prems(2) by simp
  next
    case True
    show ?thesis
    proof (cases "x = y")
      case True
      then show ?thesis using \<open>en_id y = i\<close> by (intro exI [of _ "[]"]) simp
    next
      case False
      then obtain q where "en_parentId y = Some q" "x \<in> set (path_to es q)"
        using snoc.prems(2) \<open>en_id y = i\<close> by (cases "en_parentId y") simp_all
      then show ?thesis using old [of q] \<open>en_id y = i\<close> by fastforce
    qed
  qed
qed simp

lemma path_prefix:
  assumes ok: "parents_ok {} es" and p: "path_to es i = p @ x # r"
  shows "path_to es (en_id x) = p @ [x]"
proof -
  have x: "x \<in> set (path_to es i)" using p by simp
  obtain r' where r': "path_to es i = path_to es (en_id x) @ r'" using path_split [OF ok x] by blast
  have i: "i \<in> en_id ` set es" using x path_to_missing [of i es] by fastforce
  then have "x \<in> set es" using path_to_root_path [OF ok i] x by blast
  then have "en_id (last (path_to es (en_id x))) = en_id x" "path_to es (en_id x) \<noteq> []" "set (path_to es (en_id x)) \<subseteq> set es"
    using path_to_root_path [OF ok, of "en_id x"] by (auto simp: root_path_def)
  then have l: "last (path_to es (en_id x)) = x"
    using parents_ok_distinct [OF ok] \<open>x \<in> set es\<close> by (metis distinct_map inj_onD last_in_set subsetD)
  then have b: "path_to es (en_id x) = butlast (path_to es (en_id x)) @ [x]"
    using \<open>path_to es (en_id x) \<noteq> []\<close> by (metis append_butlast_last_id)
  have "distinct (path_to es i)" using path_to_distinct [OF ok] by (simp add: distinct_map)
  then have "x \<notin> set p" "x \<notin> set r" using p by simp_all
  moreover have "p @ x # r = butlast (path_to es (en_id x)) @ x # r'"
    using p r' b by (metis append.assoc append_Cons append_Nil)
  ultimately have "p = butlast (path_to es (en_id x))" by (simp add: append_Cons_eq_iff)
  then show ?thesis using b by simp
qed

text \<open>The loop collects what the path has behind the ancestor.\<close>

lemma collect_up_path:
  assumes t: "tree_ok s" and "i \<in> en_id ` set (getEntries s)" "path_to (getEntries s) i = pre @ suf"
    and "pre = [] \<and> a = None \<or> pre \<noteq> [] \<and> a = Some (en_id (last pre))"
  shows "collect_up s a (Some i) acc = Some (suf @ acc)"
  using assms(2,3)
proof (induction suf arbitrary: i acc rule: rev_induct)
  case Nil
  have ok: "parents_ok {} (getEntries s)" using t by (simp add: tree_ok_def)
  have "a = Some i" using path_to_root_path [OF ok Nil(1)] Nil(2) assms(4) by (auto simp: root_path_def)
  then show ?case by (simp add: collect_up.simps)
next
  case (snoc e suf)
  have ok: "parents_ok {} (getEntries s)" using t by (simp add: tree_ok_def)
  have r: "root_path (path_to (getEntries s) i)" "en_id e = i" "e \<in> set (getEntries s)"
    using path_to_root_path [OF ok snoc.prems(1)] snoc.prems(2) by auto
  have "i \<noteq> []" using parents_ok_distinct [OF ok] r(2,3) by force
  moreover have "a \<noteq> Some i"
  proof
    assume "a = Some i"
    then have "pre \<noteq> []" "en_id (last pre) = en_id e" using assms(4) r(2) by auto
    then have "en_id e \<in> en_id ` set pre" by (metis image_eqI last_in_set)
    moreover have "distinct (map en_id (pre @ suf @ [e]))" using path_to_distinct [OF ok, of i] snoc.prems(2) by simp
    ultimately show False by auto
  qed
  moreover have "getEntry s i = Some e" using byId_get [OF t r(3)] r(2) by (simp add: getEntry_def)
  ultimately have step: "collect_up s a (Some i) acc = collect_up s a (en_parentId e) (e # acc)"
    by (subst collect_up.simps) auto
  show ?case
  proof (cases "pre @ suf = []")
    case True
    then have "en_parentId e = None" using r(1) snoc.prems(2) by (simp add: root_path_def)
    then show ?thesis using step True by (simp add: collect_up.simps)
  next
    case False
    let ?x = "last (pre @ suf)"
    have q: "path_to (getEntries s) i = (pre @ suf) @ [e]" using snoc.prems(2) by simp
    have par: "en_parentId e = Some (en_id ?x)"
      using r(1) False unfolding q root_path_snoc by simp
    have split: "path_to (getEntries s) i = butlast (pre @ suf) @ ?x # [e]"
      using q append_butlast_last_id [OF False] by (metis append.assoc append_Cons append_Nil)
    have "path_to (getEntries s) (en_id ?x) = pre @ suf"
      using path_prefix [OF ok split] append_butlast_last_id [OF False] by simp
    moreover have "en_id ?x \<in> en_id ` set (getEntries s)"
      using path_to_root_path [OF ok snoc.prems(1)] q last_in_set [OF False] by auto
    ultimately show ?thesis using snoc.IH step par by simp
  qed
qed

lemma find_rev_split:
  "find P (rev xs) = Some x \<Longrightarrow> \<exists>ys zs. xs = ys @ x # zs \<and> P x \<and> (\<forall>z\<in>set zs. \<not> P z)"
proof (induction xs rule: rev_induct)
  case (snoc y ys)
  show ?case
  proof (cases "P y")
    case True
    then show ?thesis using snoc.prems by (intro exI [of _ ys] exI [of _ "[]"]) simp
  next
    case False
    then obtain us vs where "ys = us @ x # vs" "P x" "\<forall>z\<in>set vs. \<not> P z" using snoc by auto
    then show ?thesis using False by (intro exI [of _ us] exI [of _ "vs @ [y]"]) auto
  qed
qed simp

section \<open>Properties\<close>

text \<open>
  When a session moves from one entry to another, the two branches have a common beginning, and
  the entries collected for the summary are exactly the rest of the old branch, in order; none of
  them is on the new branch, and the ancestor is the last entry of the common part.
\<close>

theorem branch_summary_entries:
  assumes "session_reach s" "old \<in> en_id ` set (getEntries s)" "target \<in> en_id ` set (getEntries s)"
  shows "\<exists>common es rest.
    getBranch s (Some old) = Some (common @ es) \<and> getBranch s (Some target) = Some (common @ rest) \<and>
    collectEntriesForBranchSummary s (Some old) target =
      Some (es, if common = [] then None else Some (en_id (last common))) \<and>
    set es \<inter> set rest = {}"
proof -
  have t: "tree_ok s" using reach_ok [OF assms(1)] by (simp add: session_ok_def)
  have ok: "parents_ok {} (getEntries s)" using t by (simp add: tree_ok_def)
  let ?o = "path_to (getEntries s) old" and ?t = "path_to (getEntries s) target"
  let ?P = "\<lambda>e. en_id e \<in> set (map en_id ?o)"
  have b: "getBranch s (Some old) = Some ?o" "getBranch s (Some target) = Some ?t"
    by (simp_all only: branch_spec [OF t] assms(2,3))
  have sub: "set ?o \<subseteq> set (getEntries s)" "set ?t \<subseteq> set (getEntries s)"
    using path_to_root_path [OF ok] assms(2,3) by simp_all
  have "[] \<notin> en_id ` set (getEntries s)" using parents_ok_distinct [OF ok] by simp
  then obtain c cs where old: "old = c # cs" using assms(2) by (cases old) auto
  have collect: "collectEntriesForBranchSummary s (Some old) target =
      map_option (\<lambda>es. (es, map_option en_id (find ?P (rev ?t)))) (collect_up s (map_option en_id (find ?P (rev ?t))) (Some old) [])"
    using b by (simp add: collectEntriesForBranchSummary_def old Let_def)
  show ?thesis
  proof (cases "find ?P (rev ?t)")
    case None
    then have "set ?o \<inter> set ?t = {}" by (force simp: find_None_iff)
    moreover have "collect_up s None (Some old) [] = Some (?o @ [])"
      by (rule collect_up_path [OF t assms(2), of "[]"]) simp_all
    ultimately show ?thesis using b collect None by (intro exI [of _ "[]"] exI [of _ ?o] exI [of _ ?t]) simp
  next
    case (Some x)
    then obtain t1 t2 where t12: "?t = t1 @ x # t2" "?P x" "\<forall>z\<in>set t2. \<not> ?P z"
      using find_rev_split [of ?P ?t x] by blast
    have "x \<in> set ?o"
    proof -
      obtain y where y: "y \<in> set ?o" "en_id y = en_id x" using t12(2) by auto
      moreover have "x \<in> set (getEntries s)" "y \<in> set (getEntries s)" using sub y(1) t12(1) by auto
      ultimately show ?thesis using parents_ok_distinct [OF ok] by (metis distinct_map inj_onD)
    qed
    then obtain o1 o2 where o12: "?o = o1 @ x # o2" by (meson split_list)
    have eq: "t1 = o1" using path_prefix [OF ok t12(1)] path_prefix [OF ok o12] by simp
    have up: "collect_up s (Some (en_id x)) (Some old) [] = Some (o2 @ [])"
      by (rule collect_up_path [OF t assms(2), of "o1 @ [x]"]) (simp_all add: o12)
    have "set o2 \<inter> set t2 = {}" using t12(3) o12 by auto
    then show ?thesis using b collect Some up o12 t12(1) eq
      by (intro exI [of _ "o1 @ [x]"] exI [of _ o2] exI [of _ t2]) simp
  qed
qed

text \<open>From the second message of the labelled session to the label on its first one.\<close>

theorem branch_summary_entries_witness:
  "\<exists>common es rest. getBranch labelled (Some (js ''b'')) = Some (common @ es) \<and>
    getBranch labelled (Some (js ''d'')) = Some (common @ rest) \<and> length common = 1 \<and> length es = 1 \<and>
    collectEntriesForBranchSummary labelled (Some (js ''b'')) (js ''d'') = Some (es, Some (js ''a''))"
proof -
  have ids: "map en_id (getEntries labelled) = [js ''a'', js ''b'', js ''c'', js ''d'']" by code_simp
  then have i: "js ''b'' \<in> en_id ` set (getEntries labelled)" "js ''d'' \<in> en_id ` set (getEntries labelled)"
    unfolding set_map [symmetric] by simp_all
  obtain common es rest where r: "getBranch labelled (Some (js ''b'')) = Some (common @ es)"
    "getBranch labelled (Some (js ''d'')) = Some (common @ rest)"
    "collectEntriesForBranchSummary labelled (Some (js ''b'')) (js ''d'') =
      Some (es, if common = [] then None else Some (en_id (last common)))"
    using branch_summary_entries [OF labelled_reach i] by blast
  have "map_option length (getBranch labelled (Some (js ''b''))) = Some 2"
    "map_option (\<lambda>r. (map en_id (fst r), snd r)) (collectEntriesForBranchSummary labelled (Some (js ''b'')) (js ''d'')) =
      Some ([js ''b''], Some (js ''a''))" by code_simp+
  then show ?thesis using r by (auto split: if_splits)
qed

definition branch_tokens :: "(jstring list \<Rightarrow> nat) \<Rightarrow> message list \<Rightarrow> nat" where
  "branch_tokens countTokens ms = sum_list (map (estimateTokens countTokens) ms)"

definition is_summary_message :: "message \<Rightarrow> bool" where
  "is_summary_message m =
     (case m of BranchSummaryMessage _ _ _ \<Rightarrow> True | CompactionSummaryMessage _ _ _ _ _ \<Rightarrow> True | _ \<Rightarrow> False)"

lemma summary_entry_message: "getMessageFromEntry' e = Some m \<Longrightarrow> is_summary_entry e \<Longrightarrow> is_summary_message m"
  by (auto simp: getMessageFromEntry'_def is_summary_entry_def is_summary_message_def split: entry_kind.splits)

lemma prepare_back_spec:
  assumes "budget = 0 \<or> bp_totalTokens p \<le> budget"
  shows "\<exists>pre taken. List.map_filter getMessageFromEntry' (rev es) = pre @ taken \<and>
    bp_messages (prepare_back countTokens budget es p) = taken @ bp_messages p \<and>
    bp_totalTokens (prepare_back countTokens budget es p) = bp_totalTokens p + branch_tokens countTokens taken \<and>
    (pre \<noteq> [] \<longrightarrow> 0 < budget \<and>
      budget < bp_totalTokens (prepare_back countTokens budget es p) + estimateTokens countTokens (last pre)) \<and>
    (budget = 0 \<or> bp_totalTokens p + branch_tokens countTokens taken \<le> budget \<or>
      (\<exists>m ms. taken = m # ms \<and> is_summary_message m \<and> 10 * (bp_totalTokens p + branch_tokens countTokens ms) < 9 * budget))"
  using assms
proof (induction es arbitrary: p)
  case Nil
  then show ?case by (simp add: branch_tokens_def List.map_filter_simps)
next
  case (Cons e es)
  show ?case
  proof (cases "getMessageFromEntry' e")
    case None
    then show ?thesis using Cons.IH [OF Cons.prems] by (simp add: map_filter_append List.map_filter_simps)
  next
    case (Some m)
    let ?t = "estimateTokens countTokens m"
    let ?p1 = "p\<lparr>bp_fileOps := extractFileOpsFromMessage (bp_fileOps p) m\<rparr>"
    let ?p2 = "?p1\<lparr>bp_messages := m # bp_messages p, bp_totalTokens := bp_totalTokens p + ?t\<rparr>"
    let ?all = "List.map_filter getMessageFromEntry' (rev es)"
    have ms: "List.map_filter getMessageFromEntry' (rev (e # es)) = ?all @ [m]"
      using Some by (simp add: map_filter_append List.map_filter_simps)
    show ?thesis
    proof (cases "budget > 0 \<and> bp_totalTokens p + ?t > budget")
      case over: True
      show ?thesis
      proof (cases "is_summary_entry e \<and> 10 * bp_totalTokens p < 9 * budget")
        case True
        then have "prepare_back countTokens budget (e # es) p = ?p2" using over Some by (simp add: Let_def)
        then show ?thesis using ms over True summary_entry_message [OF Some]
          by (intro exI [of _ ?all] exI [of _ "[m]"]) (simp add: branch_tokens_def)
      next
        case False
        then have "prepare_back countTokens budget (e # es) p = ?p1" using over Some by (auto simp: Let_def)
        then show ?thesis using ms over Cons.prems
          by (intro exI [of _ "?all @ [m]"] exI [of _ "[]"]) (simp add: branch_tokens_def)
      qed
    next
      case False
      then have eq: "prepare_back countTokens budget (e # es) p = prepare_back countTokens budget es ?p2"
        using Some by (cases "budget = 0") (simp_all add: Let_def)
      have "budget = 0 \<or> bp_totalTokens ?p2 \<le> budget" using False by auto
      from Cons.IH [OF this] obtain pre taken where r: "?all = pre @ taken"
        "bp_messages (prepare_back countTokens budget es ?p2) = taken @ bp_messages ?p2"
        "bp_totalTokens (prepare_back countTokens budget es ?p2) = bp_totalTokens ?p2 + branch_tokens countTokens taken"
        "pre \<noteq> [] \<longrightarrow> 0 < budget \<and> budget < bp_totalTokens (prepare_back countTokens budget es ?p2) + estimateTokens countTokens (last pre)"
        "budget = 0 \<or> bp_totalTokens ?p2 + branch_tokens countTokens taken \<le> budget \<or>
          (\<exists>m ms. taken = m # ms \<and> is_summary_message m \<and> 10 * (bp_totalTokens ?p2 + branch_tokens countTokens ms) < 9 * budget)"
        by blast
      have tok: "branch_tokens countTokens (xs @ [m]) = branch_tokens countTokens xs + ?t" for xs by (simp add: branch_tokens_def)
      have last: "budget = 0 \<or> bp_totalTokens p + branch_tokens countTokens (taken @ [m]) \<le> budget \<or>
          (\<exists>m' ms. taken @ [m] = m' # ms \<and> is_summary_message m' \<and> 10 * (bp_totalTokens p + branch_tokens countTokens ms) < 9 * budget)"
      proof (cases "\<exists>m' ms. taken = m' # ms \<and> is_summary_message m' \<and> 10 * (bp_totalTokens ?p2 + branch_tokens countTokens ms) < 9 * budget")
        case True
        then obtain m' ms where "taken = m' # ms" "is_summary_message m'" "10 * (bp_totalTokens ?p2 + branch_tokens countTokens ms) < 9 * budget" by blast
        then show ?thesis by (intro disjI2 exI [of _ m'] exI [of _ "ms @ [m]"]) (simp add: tok)
      next
        case False
        then have "budget = 0 \<or> bp_totalTokens ?p2 + branch_tokens countTokens taken \<le> budget" using r(5) by blast
        then show ?thesis by (elim disjE) (simp_all add: tok)
      qed
      show ?thesis unfolding eq
        by (intro exI [of _ pre] exI [of _ "taken @ [m]"] conjI) (use r ms last in \<open>simp_all add: tok\<close>)
    qed
  qed
qed

text \<open>
  The messages of a branch preparation are the newest ones of the entries, without gaps, and as
  many as the budget admits: only a summary that comes while a tenth of the budget is left may
  exceed it, and a message is left out only where it would exceed it.  The total is the sum of
  the estimates, and without a budget every message is taken.
\<close>

theorem branch_preparation_bounded:
  "\<exists>pre. List.map_filter getMessageFromEntry' es = pre @ bp_messages (prepareBranchEntries countTokens es budget) \<and>
    bp_totalTokens (prepareBranchEntries countTokens es budget) =
      branch_tokens countTokens (bp_messages (prepareBranchEntries countTokens es budget)) \<and>
    (if pre = [] then True else 0 < budget \<and>
      budget < bp_totalTokens (prepareBranchEntries countTokens es budget) + estimateTokens countTokens (last pre)) \<and>
    (budget = 0 \<or> bp_totalTokens (prepareBranchEntries countTokens es budget) \<le> budget \<or>
      (\<exists>m ms. bp_messages (prepareBranchEntries countTokens es budget) = m # ms \<and> is_summary_message m \<and>
        10 * branch_tokens countTokens ms < 9 * budget))"
proof -
  let ?p = "\<lparr>bp_messages = [], bp_fileOps = foldl nested_file_ops createFileOps es, bp_totalTokens = 0\<rparr>"
  have "budget = 0 \<or> bp_totalTokens ?p \<le> budget" by simp
  from prepare_back_spec [OF this, of "rev es" countTokens] obtain pre taken where r:
    "List.map_filter getMessageFromEntry' es = pre @ taken"
    "bp_messages (prepareBranchEntries countTokens es budget) = taken"
    "bp_totalTokens (prepareBranchEntries countTokens es budget) = branch_tokens countTokens taken"
    "pre \<noteq> [] \<longrightarrow> 0 < budget \<and> budget < branch_tokens countTokens taken + estimateTokens countTokens (last pre)"
    "budget = 0 \<or> branch_tokens countTokens taken \<le> budget \<or>
      (\<exists>m ms. taken = m # ms \<and> is_summary_message m \<and> 10 * branch_tokens countTokens ms < 9 * budget)"
    by (auto simp: prepareBranchEntries_def)
  show ?thesis unfolding r(2,3) by (rule exI [of _ pre]) (intro conjI, use r in simp_all)
qed

end
