(* ===== verification/Pruning.thy ===== *)
theory Pruning
  imports Compaction_Correct
begin

text \<open>
  Pruning old tool outputs: \<open>packages/agent/src/compaction/pruning.ts\<close> with the protection of
  \<open>tool-protection.ts\<close>.  The entries are mutated in place; here the updated list is returned.
\<close>

section \<open>Protection\<close>

datatype protected_matcher = ToolName jstring | Matcher "tool_result \<Rightarrow> tool_call option \<Rightarrow> bool"

definition collect_calls :: "(jstring \<times> tool_call) list \<Rightarrow> entry \<Rightarrow> (jstring \<times> tool_call) list" where
  "collect_calls calls e =
     (case en_kind e of
        Message (AssistantMessage a) \<Rightarrow>
          foldl (\<lambda>m b. case b of ToolCall tc \<Rightarrow> map_set m (tc_id tc) tc | _ \<Rightarrow> m) calls (am_content a)
      | _ \<Rightarrow> calls)"

definition collectToolCallsById :: "entry list \<Rightarrow> (jstring \<times> tool_call) list" where
  "collectToolCallsById es = foldl collect_calls [] es"

definition SKILL_INTERNAL_URL_PREFIX :: jstring where "SKILL_INTERNAL_URL_PREFIX = js ''skill://''"

definition isSkillReadToolResult :: "tool_result \<Rightarrow> tool_call option \<Rightarrow> bool" where
  "isSkillReadToolResult r call =
     (case call of
        None \<Rightarrow> False
      | Some tc \<Rightarrow>
          tr_toolName r = js ''read'' \<and> tc_name tc = js ''read'' \<and>
          (case map_of (tc_arguments tc) (js ''path'') of
             Some (JString p) \<Rightarrow> starts_with p SKILL_INTERNAL_URL_PREFIX | _ \<Rightarrow> False))"

definition isProtectedToolResult :: "tool_result \<Rightarrow> tool_call option \<Rightarrow> protected_matcher list \<Rightarrow> bool" where
  "isProtectedToolResult r call matchers =
     list_ex (\<lambda>m. case m of ToolName n \<Rightarrow> tr_toolName r = n | Matcher f \<Rightarrow> f r call) matchers"

section \<open>Pruning\<close>

record prune_config =
  pc_protectTokens :: nat
  pc_minimumSavings :: nat
  pc_protectedTools :: "protected_matcher list"

definition DEFAULT_PRUNE_CONFIG :: prune_config where
  "DEFAULT_PRUNE_CONFIG =
     \<lparr>pc_protectTokens = 40000, pc_minimumSavings = 20000,
      pc_protectedTools = [ToolName (js ''skill''), Matcher isSkillReadToolResult]\<rparr>"

definition createPrunedNotice :: "nat \<Rightarrow> jstring" where
  "createPrunedNotice tokens = js ''[Output truncated - '' @ dec tokens @ js '' tokens]''"

definition getToolResultMessage :: "entry \<Rightarrow> tool_result option" where
  "getToolResultMessage e = (case en_kind e of Message (ToolResultMessage r) \<Rightarrow> Some r | _ \<Rightarrow> None)"

text \<open>\<open>Math.ceil(n / 4)\<close> and the difference cut off at zero.\<close>

definition estimatePrunedSavings :: "nat \<Rightarrow> nat" where
  "estimatePrunedSavings tokens = tokens - (length (createPrunedNotice tokens) + 3) div 4"

text \<open>The loop from the newest entry back: the tokens seen so far and the candidates with their tokens.\<close>

fun prune_scan ::
  "(jstring list \<Rightarrow> nat) \<Rightarrow> prune_config \<Rightarrow> (jstring \<times> tool_call) list \<Rightarrow> entry list \<Rightarrow> nat list \<Rightarrow> nat \<Rightarrow> (nat \<times> nat) list" where
  "prune_scan countTokens config calls es [] acc = []"
| "prune_scan countTokens config calls es (i # is) acc =
     (case getToolResultMessage (es ! i) of
        None \<Rightarrow> prune_scan countTokens config calls es is acc
      | Some r \<Rightarrow>
          (let tokens = estimateTokens countTokens (ToolResultMessage r);
               isProtected = isProtectedToolResult r (map_get calls (tr_toolCallId r)) (pc_protectedTools config)
           in if tr_prunedAt r \<noteq> None then prune_scan countTokens config calls es is (acc + tokens)
              else if acc < pc_protectTokens config \<or> isProtected
              then prune_scan countTokens config calls es is (acc + tokens)
              else (i, tokens) # prune_scan countTokens config calls es is (acc + tokens)))"

definition prune_candidates :: "(jstring list \<Rightarrow> nat) \<Rightarrow> prune_config \<Rightarrow> entry list \<Rightarrow> (nat \<times> nat) list" where
  "prune_candidates countTokens config es =
     prune_scan countTokens config (collectToolCallsById es) es (rev [0..<length es]) 0"

definition prune_result :: "nat \<Rightarrow> tool_result \<Rightarrow> nat \<Rightarrow> tool_result" where
  "prune_result now r tokens = r\<lparr>tr_content := [TextContent (createPrunedNotice tokens)], tr_prunedAt := Some now\<rparr>"

definition prune_entry :: "nat \<Rightarrow> entry list \<Rightarrow> nat \<times> nat \<Rightarrow> entry list" where
  "prune_entry now es c =
     (case getToolResultMessage (es ! fst c) of
        Some r \<Rightarrow> es[fst c := (es ! fst c)\<lparr>en_kind := Message (ToolResultMessage (prune_result now r (snd c)))\<rparr>]
      | None \<Rightarrow> es)"

definition pruneToolOutputs ::
  "(jstring list \<Rightarrow> nat) \<Rightarrow> nat \<Rightarrow> entry list \<Rightarrow> prune_config \<Rightarrow> entry list \<times> nat \<times> nat" where
  "pruneToolOutputs countTokens now es config =
     (let candidates = prune_candidates countTokens config es;
          tokensSaved = sum_list (map (\<lambda>c. estimatePrunedSavings (snd c)) candidates)
      in if tokensSaved < pc_minimumSavings config \<or> length candidates = 0 then (es, 0, 0)
         else (foldl (prune_entry now) es candidates, length candidates, tokensSaved))"

section \<open>Candidates\<close>

definition result_tokens :: "(jstring list \<Rightarrow> nat) \<Rightarrow> entry \<Rightarrow> nat" where
  "result_tokens countTokens e =
     (case getToolResultMessage e of Some r \<Rightarrow> estimateTokens countTokens (ToolResultMessage r) | None \<Rightarrow> 0)"

text \<open>The tokens of the tool results between two positions.\<close>

definition tokens_between :: "(jstring list \<Rightarrow> nat) \<Rightarrow> entry list \<Rightarrow> nat \<Rightarrow> nat \<Rightarrow> nat" where
  "tokens_between countTokens es i k = sum_list (map (\<lambda>j. result_tokens countTokens (es ! j)) [i..<k])"

lemma tokens_between_Suc [simp]:
  "tokens_between countTokens es i (Suc k) =
     (if i \<le> k then tokens_between countTokens es i k + result_tokens countTokens (es ! k) else 0)"
  by (simp add: tokens_between_def)

lemma tokens_between_mono: "i \<le> j \<Longrightarrow> tokens_between countTokens es j k \<le> tokens_between countTokens es i k"
proof (cases "j \<le> k")
  case True
  assume "i \<le> j"
  then have "[i..<k] = [i..<j] @ [j..<k]" using True upt_add_eq_append [of i j "k - j"] by simp
  then show ?thesis by (simp add: tokens_between_def)
qed (simp add: tokens_between_def)

text \<open>A tool result that may be pruned: not protected and not pruned yet.\<close>

definition prunable :: "prune_config \<Rightarrow> (jstring \<times> tool_call) list \<Rightarrow> entry \<Rightarrow> bool" where
  "prunable config calls e =
     (case getToolResultMessage e of
        Some r \<Rightarrow> tr_prunedAt r = None \<and>
          \<not> isProtectedToolResult r (map_get calls (tr_toolCallId r)) (pc_protectedTools config)
      | None \<Rightarrow> False)"

lemma prune_scan_iff:
  "(i, t) \<in> set (prune_scan countTokens config calls es (rev [0..<k]) acc) \<longleftrightarrow>
   i < k \<and> prunable config calls (es ! i) \<and> t = result_tokens countTokens (es ! i) \<and>
   pc_protectTokens config \<le> acc + tokens_between countTokens es (Suc i) k"
proof (induction k arbitrary: acc)
  case (Suc k)
  have e: "rev [0..<Suc k] = k # rev [0..<k]" by simp
  show ?case
  proof (cases "getToolResultMessage (es ! k)")
    case None
    then show ?thesis using Suc.IH
      by (auto simp: e prunable_def result_tokens_def less_Suc_eq simp del: upt_Suc)
  next
    case (Some r)
    then have r: "result_tokens countTokens (es ! k) = estimateTokens countTokens (ToolResultMessage r)"
      by (simp add: result_tokens_def)
    show ?thesis
      using Suc.IH [of "acc + result_tokens countTokens (es ! k)"] Some
      by (cases "i = k") (auto simp: e r prunable_def Let_def add.assoc add.commute less_Suc_eq simp del: upt_Suc)
  qed
qed simp

lemma candidates_iff:
  "(i, t) \<in> set (prune_candidates countTokens config es) \<longleftrightarrow>
   i < length es \<and> prunable config (collectToolCallsById es) (es ! i) \<and> t = result_tokens countTokens (es ! i) \<and>
   pc_protectTokens config \<le> tokens_between countTokens es (Suc i) (length es)"
  by (simp add: prune_candidates_def prune_scan_iff)

lemma prune_scan_distinct:
  "distinct (map fst (prune_scan countTokens config calls es (rev [0..<k]) acc))"
proof (induction k arbitrary: acc)
  case (Suc k)
  have "k \<notin> fst ` set (prune_scan countTokens config calls es (rev [0..<k]) a)" for a
    using prune_scan_iff by fastforce
  then show ?case
    using Suc.IH by (cases "getToolResultMessage (es ! k)") (simp_all add: Let_def)
qed simp

lemma candidates_distinct: "distinct (map fst (prune_candidates countTokens config es))"
  by (simp add: prune_candidates_def prune_scan_distinct)

text \<open>The pruned form of one position.\<close>

definition pruned_at :: "nat \<Rightarrow> entry list \<Rightarrow> (nat \<times> nat) list \<Rightarrow> nat \<Rightarrow> entry" where
  "pruned_at now es cs i =
     (case map_of cs i of
        None \<Rightarrow> es ! i
      | Some t \<Rightarrow>
          (case getToolResultMessage (es ! i) of
             Some r \<Rightarrow> (es ! i)\<lparr>en_kind := Message (ToolResultMessage (prune_result now r t))\<rparr>
           | None \<Rightarrow> es ! i))"

lemma prune_fold:
  assumes "distinct (map fst cs)" "\<forall>c\<in>set cs. fst c < length es"
  shows "foldl (prune_entry now) es cs = map (pruned_at now es cs) [0..<length es]"
  using assms
proof (induction cs arbitrary: es)
  case Nil
  show ?case by (simp add: pruned_at_def map_nth)
next
  case (Cons c cs)
  let ?e = "prune_entry now es c"
  have len: "length ?e = length es" by (simp add: prune_entry_def split: option.splits)
  have nth: "?e ! i = (if i = fst c then pruned_at now es [c] i else es ! i)" if "i < length es" for i
    using that by (simp add: prune_entry_def pruned_at_def split: option.splits)
  have "pruned_at now ?e cs i = pruned_at now es (c # cs) i" if i: "i < length es" for i
  proof (cases "i = fst c")
    case True
    then have "map_of cs i = None" using Cons.prems(1) by (auto simp: map_of_eq_None_iff)
    then show ?thesis using True i nth [of i] by (cases c) (simp add: pruned_at_def)
  next
    case False
    then show ?thesis using i nth [of i] by (cases c) (simp add: pruned_at_def cong: option.case_cong)
  qed
  then show ?case using Cons.IH [of ?e] Cons.prems len by simp
qed

text \<open>The positions that are pruned: prunable, with enough tokens of tool results behind them.\<close>

definition to_prune :: "(jstring list \<Rightarrow> nat) \<Rightarrow> prune_config \<Rightarrow> entry list \<Rightarrow> nat \<Rightarrow> bool" where
  "to_prune countTokens config es i \<longleftrightarrow>
     i < length es \<and> prunable config (collectToolCallsById es) (es ! i) \<and>
     pc_protectTokens config \<le> tokens_between countTokens es (Suc i) (length es)"

lemma map_of_candidates:
  "map_of (prune_candidates countTokens config es) i =
     (if to_prune countTokens config es i then Some (result_tokens countTokens (es ! i)) else None)"
proof (cases "to_prune countTokens config es i")
  case True
  then have "(i, result_tokens countTokens (es ! i)) \<in> set (prune_candidates countTokens config es)"
    by (simp add: candidates_iff to_prune_def)
  then show ?thesis using True map_of_is_SomeI [OF candidates_distinct] by simp
next
  case False
  then have "i \<notin> fst ` set (prune_candidates countTokens config es)"
    by (auto simp: candidates_iff to_prune_def)
  then show ?thesis using False by (simp add: map_of_eq_None_iff)
qed

lemma length_candidates:
  "length (prune_candidates countTokens config es) = card {i. to_prune countTokens config es i}"
proof -
  have "dom (map_of (prune_candidates countTokens config es)) = {i. to_prune countTokens config es i}"
    by (auto simp: map_of_candidates split: if_splits)
  then have "fst ` set (prune_candidates countTokens config es) = {i. to_prune countTokens config es i}"
    by (simp add: dom_map_of_conv_image_fst)
  then show ?thesis using distinct_card [OF candidates_distinct] by (metis length_map set_map)
qed

text \<open>The tokens that pruning all of them saves.\<close>

definition prune_savings :: "(jstring list \<Rightarrow> nat) \<Rightarrow> prune_config \<Rightarrow> entry list \<Rightarrow> nat" where
  "prune_savings countTokens config es =
     (\<Sum>i | to_prune countTokens config es i. estimatePrunedSavings (result_tokens countTokens (es ! i)))"

lemma finite_to_prune: "finite {i. to_prune countTokens config es i}"
  by (rule finite_subset [of _ "{..<length es}"]) (auto simp: to_prune_def)

lemma candidates_savings:
  "sum_list (map (\<lambda>c. estimatePrunedSavings (snd c)) (prune_candidates countTokens config es)) =
     prune_savings countTokens config es"
proof -
  let ?cs = "prune_candidates countTokens config es" and ?P = "{i. to_prune countTokens config es i}"
  let ?f = "\<lambda>i. (i, result_tokens countTokens (es ! i))"
  have "set ?cs = ?f ` ?P" by (auto simp: candidates_iff to_prune_def)
  moreover have "distinct ?cs" using candidates_distinct distinct_map by blast
  moreover have "inj_on ?f ?P" by (auto simp: inj_on_def)
  ultimately show ?thesis
    by (simp add: sum_list_distinct_conv_sum_set sum.reindex prune_savings_def comp_def)
qed

text \<open>Whether there is something to prune and it is worth it.\<close>

definition worth_pruning :: "(jstring list \<Rightarrow> nat) \<Rightarrow> prune_config \<Rightarrow> entry list \<Rightarrow> bool" where
  "worth_pruning countTokens config es \<longleftrightarrow>
     {i. to_prune countTokens config es i} \<noteq> {} \<and> pc_minimumSavings config \<le> prune_savings countTokens config es"

lemma prune_counts:
  assumes "pruneToolOutputs countTokens now es config = (es', n, saved)"
  shows "n = (if worth_pruning countTokens config es then card {i. to_prune countTokens config es i} else 0)"
    and "saved = (if worth_pruning countTokens config es then prune_savings countTokens config es else 0)"
    and "0 < n \<longleftrightarrow> worth_pruning countTokens config es"
proof -
  have z: "prune_candidates countTokens config es = [] \<longleftrightarrow> {i. to_prune countTokens config es i} = {}"
    using length_candidates [of countTokens config es] finite_to_prune [of countTokens config es]
    by (metis card_eq_0_iff length_0_conv)
  show n: "n = (if worth_pruning countTokens config es then card {i. to_prune countTokens config es i} else 0)"
    and "saved = (if worth_pruning countTokens config es then prune_savings countTokens config es else 0)"
    using assms
    by (auto simp: pruneToolOutputs_def Let_def candidates_savings length_candidates z worth_pruning_def
        simp del: Collect_empty_eq split: if_splits)
  show "0 < n \<longleftrightarrow> worth_pruning countTokens config es"
    using n finite_to_prune [of countTokens config es]
    by (auto simp: worth_pruning_def card_gt_0_iff simp del: Collect_empty_eq)
qed

definition pruned_form :: "(jstring list \<Rightarrow> nat) \<Rightarrow> nat \<Rightarrow> entry \<Rightarrow> entry" where
  "pruned_form countTokens now e =
     (case getToolResultMessage e of
        Some r \<Rightarrow> e\<lparr>en_kind := Message (ToolResultMessage (prune_result now r (result_tokens countTokens e)))\<rparr>
      | None \<Rightarrow> e)"

lemma prune_entries:
  assumes "pruneToolOutputs countTokens now es config = (es', n, saved)" "0 < n"
  shows "es' = map (\<lambda>i. if to_prune countTokens config es i then pruned_form countTokens now (es ! i) else es ! i) [0..<length es]"
    and "n = length (prune_candidates countTokens config es)" "pc_minimumSavings config \<le> saved"
proof -
  have f: "foldl (prune_entry now) es (prune_candidates countTokens config es) =
      map (pruned_at now es (prune_candidates countTokens config es)) [0..<length es]"
    by (rule prune_fold [OF candidates_distinct]) (auto simp: candidates_iff)
  have "pruned_at now es (prune_candidates countTokens config es) =
      (\<lambda>i. if to_prune countTokens config es i then pruned_form countTokens now (es ! i) else es ! i)"
    by (rule ext) (simp add: pruned_at_def map_of_candidates pruned_form_def)
  note f = f [unfolded this]
  show "es' = map (\<lambda>i. if to_prune countTokens config es i then pruned_form countTokens now (es ! i) else es ! i) [0..<length es]"
    using assms by (auto simp: pruneToolOutputs_def Let_def f split: if_splits)
  show "n = length (prune_candidates countTokens config es)" "pc_minimumSavings config \<le> saved"
    using assms by (auto simp: pruneToolOutputs_def Let_def split: if_splits)
qed

lemma prune_zero: "pruneToolOutputs countTokens now es config = (es', 0, saved) \<Longrightarrow> es' = es \<and> saved = 0"
  by (auto simp: pruneToolOutputs_def Let_def split: if_splits)

text \<open>Pruning leaves the calls alone.\<close>

definition same_calls :: "entry \<Rightarrow> entry \<Rightarrow> bool" where
  "same_calls e e' \<longleftrightarrow> e' = e \<or> getToolResultMessage e \<noteq> None \<and> getToolResultMessage e' \<noteq> None"

lemma same_calls_collect: "same_calls e e' \<Longrightarrow> collect_calls c e' = collect_calls c e"
  by (auto simp: same_calls_def collect_calls_def getToolResultMessage_def split: entry_kind.splits message.splits)

lemma same_calls_all:
  "list_all2 same_calls es es' \<Longrightarrow> foldl collect_calls c es' = foldl collect_calls c es"
  by (induction es es' arbitrary: c rule: list_all2_induct) (simp_all add: same_calls_collect)

lemma pruned_form_result:
  "getToolResultMessage (pruned_form countTokens now e) =
     map_option (\<lambda>r. prune_result now r (result_tokens countTokens e)) (getToolResultMessage e)"
  by (auto simp: pruned_form_def getToolResultMessage_def split: entry_kind.splits message.splits)

lemma pruned_form_not_prunable: "\<not> prunable config calls (pruned_form countTokens now e)"
  by (simp add: prunable_def pruned_form_result prune_result_def split: option.splits)

lemma prune_calls:
  assumes "pruneToolOutputs countTokens now es config = (es', n, saved)"
  shows "collectToolCallsById es' = collectToolCallsById es"
proof (cases "n = 0")
  case True
  then show ?thesis using prune_zero assms by blast
next
  case False
  then have e: "es' = map (\<lambda>i. if to_prune countTokens config es i then pruned_form countTokens now (es ! i) else es ! i) [0..<length es]"
    using prune_entries(1) [OF assms] by simp
  have "same_calls x (pruned_form countTokens now x)" for x
  proof (cases "getToolResultMessage x")
    case None
    then show ?thesis by (simp add: same_calls_def pruned_form_def)
  qed (simp add: same_calls_def pruned_form_result)
  moreover have "same_calls x x" for x by (simp add: same_calls_def)
  ultimately have "list_all2 same_calls es es'" unfolding e by (simp add: list_all2_conv_all_nth)
  then show ?thesis by (simp add: collectToolCallsById_def same_calls_all)
qed

section \<open>Properties\<close>

text \<open>
  C23: pruning happens exactly when some tool result is to be pruned and the tokens saved
  reach the minimum, and then it replaces exactly the unprotected, unpruned tool results that
  have at least \<open>protectTokens\<close> tokens of newer tool results behind them; the counts reported
  are theirs.  Everything else, and the ids, the call and the error flag of a replaced result,
  stay as they are.  Pruning once more never changes anything.  Protected are the tools and the
  matchers of the configuration: by default the tool \<open>skill\<close> and the reads of a skill, not every
  \<open>read\<close>.
\<close>

theorem pruning_exact:
  assumes "pruneToolOutputs countTokens now es config = (es', n, saved)"
  shows "length es' = length es \<and>
    n = (if worth_pruning countTokens config es then card {i. to_prune countTokens config es i} else 0) \<and>
    saved = (if worth_pruning countTokens config es then prune_savings countTokens config es else 0) \<and>
    (i < length es \<longrightarrow> es' ! i = (if worth_pruning countTokens config es \<and> to_prune countTokens config es i
      then pruned_form countTokens now (es ! i) else es ! i)) \<and>
    pruneToolOutputs countTokens now' es' config = (es', 0, 0)"
proof (intro conjI impI)
  note z = prune_zero [of countTokens now es config es' saved]
  show "length es' = length es"
    using prune_entries(1) [OF assms] z assms by (cases "n = 0") auto
  show "n = (if worth_pruning countTokens config es then card {i. to_prune countTokens config es i} else 0)"
    "saved = (if worth_pruning countTokens config es then prune_savings countTokens config es else 0)"
    by (rule prune_counts [OF assms])+
  have nth: "es' ! i = (if 0 < n \<and> to_prune countTokens config es i then pruned_form countTokens now (es ! i) else es ! i)"
    if "i < length es" for i
    using prune_entries(1) [OF assms] z assms that by (cases "n = 0") auto
  then show "es' ! i = (if worth_pruning countTokens config es \<and> to_prune countTokens config es i
      then pruned_form countTokens now (es ! i) else es ! i)"
    if "i < length es" using that prune_counts(3) [OF assms] by simp
  show "pruneToolOutputs countTokens now' es' config = (es', 0, 0)"
  proof (cases "n = 0")
    case True
    then have "es' = es" using z assms by simp
    moreover have "pruneToolOutputs countTokens now' es config = (es, 0, 0)"
      using assms True by (auto simp: pruneToolOutputs_def Let_def split: if_splits)
    ultimately show ?thesis by simp
  next
    case False
    have len: "length es' = length es" using prune_entries(1) [OF assms] False by simp
    have "\<not> to_prune countTokens config es' i" for i
    proof
      assume t: "to_prune countTokens config es' i"
      then have i: "i < length es" by (simp add: to_prune_def len)
      have old: "es' ! i = es ! i"
        using t nth [OF i] pruned_form_not_prunable by (auto simp: to_prune_def split: if_splits)
      have p: "prunable config (collectToolCallsById es) (es ! i)"
        using t prune_calls [OF assms] by (simp add: to_prune_def old)
      have less: "tokens_between countTokens es (Suc i) (length es) < pc_protectTokens config"
      proof (rule ccontr)
        assume "\<not> tokens_between countTokens es (Suc i) (length es) < pc_protectTokens config"
        then have "to_prune countTokens config es i" using i p by (simp add: to_prune_def)
        then have "es ! i = pruned_form countTokens now (es ! i)" using nth [OF i] old False by simp
        then show False using p pruned_form_not_prunable by metis
      qed
      have "es' ! j = es ! j" if "j \<in> set [Suc i..<length es]" for j
      proof -
        have "tokens_between countTokens es (Suc j) (length es) \<le> tokens_between countTokens es (Suc i) (length es)"
          using that by (intro tokens_between_mono) simp
        then have "\<not> to_prune countTokens config es j" using less by (simp add: to_prune_def)
        then show ?thesis using nth [of j] that by simp
      qed
      then have "tokens_between countTokens es' (Suc i) (length es) = tokens_between countTokens es (Suc i) (length es)"
        unfolding tokens_between_def by (intro arg_cong [where f = sum_list] map_cong) simp_all
      then show False using t less by (simp add: to_prune_def len)
    qed
    then have "prune_candidates countTokens config es' = []"
      using length_candidates [of countTokens config es'] by simp
    then show ?thesis by (simp add: pruneToolOutputs_def)
  qed
qed

text \<open>A long result behind a short one, with room for the short one only.\<close>

definition long_output :: "entry list" where
  "long_output = [message_entry ''a'' None (calling [''1'', ''2'']),
     message_entry ''b'' (Some ''a'') (ToolResultMessage \<lparr>tr_toolCallId = js ''1'', tr_toolName = js ''read'',
        tr_content = [TextContent (replicate 40 97)], tr_taskUsage = None, tr_isError = False, tr_prunedAt = None\<rparr>),
     message_entry ''c'' (Some ''b'') (result_of_call ''2'')]"

definition small_config :: prune_config where
  "small_config = \<lparr>pc_protectTokens = 2, pc_minimumSavings = 1, pc_protectedTools = [ToolName (js ''skill'')]\<rparr>"

theorem pruning_exact_witness:
  "\<exists>es'. pruneToolOutputs unit_tokens 7 long_output small_config = (es', 1, 32) \<and>
    map (map_option tr_content \<circ> getToolResultMessage) es' =
      [None, Some [TextContent (js ''[Output truncated - 40 tokens]'')], Some [TextContent (js ''ok'')]] \<and>
    pruneToolOutputs unit_tokens 8 es' small_config = (es', 0, 0)"
proof -
  let ?r = "pruneToolOutputs unit_tokens 7 long_output small_config"
  have v: "snd ?r = (1, 32)" "map (map_option tr_content \<circ> getToolResultMessage) (fst ?r) =
      [None, Some [TextContent (js ''[Output truncated - 40 tokens]'')], Some [TextContent (js ''ok'')]]" by code_simp+
  have r: "?r = (fst ?r, 1, 32)" using v(1) by (metis prod.collapse)
  show ?thesis
    by (rule exI [of _ "fst ?r"]) (intro conjI r v(2) pruning_exact [OF r, of 0 8, THEN conjunct2, THEN conjunct2, THEN conjunct2, THEN conjunct2])
qed

end
