(* ===== verification/Shake.thy ===== *)
theory Shake
  imports Pruning
begin

text \<open>
  Dropping heavy content out of the context: \<open>packages/agent/src/compaction/shake.ts\<close>.  Tool results
  and large fenced or XML blocks are located and replaced by placeholders.  A region names its
  entry by the position in the list, where the code holds a reference to the entry; the tokenizer
  gets a text as a list of one fragment.
\<close>

section \<open>Locating blocks in a text\<close>

definition is_tag_char :: "nat \<Rightarrow> bool" where
  "is_tag_char c \<longleftrightarrow> 97 \<le> c \<and> c \<le> 122 \<or> c = 95 \<or> c = 45"

definition GT :: nat where "GT = 62"

text \<open>\<open>/^<([a-z_-]+)(?:\s+[^>]*)?>$/\<close>: the name of the tag.\<close>

definition opening_xml :: "jstring \<Rightarrow> jstring option" where
  "opening_xml s =
     (if \<not> starts_with s (js ''<'') then None
      else let name = takeWhile is_tag_char (drop 1 s);
               rest = dropWhile is_tag_char (drop 1 s)
           in if name = [] then None
              else if rest = [GT] then Some name
              else if rest \<noteq> [] \<and> is_js_space (hd rest) \<and> last rest = GT \<and> GT \<notin> set (butlast rest) then Some name
              else None)"

text \<open>\<open>/^<\/([a-z_-]+)>$/\<close>.\<close>

definition closing_xml :: "jstring \<Rightarrow> jstring option" where
  "closing_xml s =
     (if \<not> starts_with s (js ''</'') then None
      else let name = takeWhile is_tag_char (drop 2 s)
           in if name \<noteq> [] \<and> dropWhile is_tag_char (drop 2 s) = [GT] then Some name else None)"

record block_scan =
  bs_inFence :: bool
  bs_fenceStart :: nat
  bs_tagStack :: "jstring list"
  bs_xmlStart :: "nat option"
  bs_ranges :: "(nat \<times> nat) list"

definition is_fence_line :: "jstring \<Rightarrow> bool" where
  "is_fence_line line \<longleftrightarrow> starts_with (trim_start line) (js ''```'') \<or> starts_with (trim_start line) (js ''~~~'')"

text \<open>One line, from \<open>lineStart\<close> to before its line feed; the top of the stack is its head.\<close>

definition scan_line :: "block_scan \<Rightarrow> nat \<Rightarrow> jstring \<Rightarrow> block_scan" where
  "scan_line st lineStart line =
     (let lineEnd = lineStart + length line; trimmedStart = trim_start line
      in if is_fence_line line then
           (if \<not> bs_inFence st then st\<lparr>bs_inFence := True, bs_fenceStart := lineStart\<rparr>
            else st\<lparr>bs_inFence := False, bs_ranges := bs_ranges st @ [(bs_fenceStart st, lineEnd)]\<rparr>)
         else if bs_inFence st then st
         else case (if length line = length trimmedStart then opening_xml trimmedStart else None) of
           Some name \<Rightarrow>
             st\<lparr>bs_xmlStart := (if bs_tagStack st = [] then Some lineStart else bs_xmlStart st),
                bs_tagStack := name # bs_tagStack st\<rparr>
         | None \<Rightarrow>
             (case (closing_xml trimmedStart, bs_tagStack st) of
                (Some name, innermost # rest) \<Rightarrow>
                  (if innermost \<noteq> name then st
                   else case (rest, bs_xmlStart st) of
                     ([], Some xmlStart) \<Rightarrow>
                       st\<lparr>bs_tagStack := [], bs_ranges := bs_ranges st @ [(xmlStart, lineEnd)], bs_xmlStart := None\<rparr>
                   | _ \<Rightarrow> st\<lparr>bs_tagStack := rest\<rparr>)
              | _ \<Rightarrow> st))"

fun scan_lines :: "block_scan \<Rightarrow> nat \<Rightarrow> jstring list \<Rightarrow> block_scan" where
  "scan_lines st lineStart [] = st"
| "scan_lines st lineStart (line # lines) =
     scan_lines (scan_line st lineStart line) (lineStart + length line + 1) lines"

fun keep_outermost :: "nat \<Rightarrow> (nat \<times> nat) list \<Rightarrow> (nat \<times> nat) list" where
  "keep_outermost lastEnd [] = []"
| "keep_outermost lastEnd (r # rs) =
     (if fst r < lastEnd then keep_outermost lastEnd rs else r # keep_outermost (snd r) rs)"

text \<open>The initial \<open>lastEnd\<close> of \<open>-1\<close> drops nothing, like \<open>0\<close>.\<close>

definition mergeRanges :: "(nat \<times> nat) list \<Rightarrow> (nat \<times> nat) list" where
  "mergeRanges ranges = (if length ranges \<le> 1 then ranges else keep_outermost 0 (sort_key fst ranges))"

definition no_blocks :: block_scan where
  "no_blocks = \<lparr>bs_inFence = False, bs_fenceStart = 0, bs_tagStack = [], bs_xmlStart = None, bs_ranges = []\<rparr>"

definition scanTextForBlockRanges :: "jstring \<Rightarrow> (nat \<times> nat) list" where
  "scanTextForBlockRanges t = mergeRanges (bs_ranges (scan_lines no_blocks 0 (split_on LF t)))"

section \<open>Regions\<close>

record shake_config =
  sc_protectTokens :: nat
  sc_minSavings :: nat
  sc_protectedTools :: "protected_matcher list"
  sc_fenceMinTokens :: nat

definition DEFAULT_SHAKE_CONFIG :: shake_config where
  "DEFAULT_SHAKE_CONFIG = \<lparr>sc_protectTokens = 16000, sc_minSavings = 4000,
     sc_protectedTools = [ToolName (js ''skill''), Matcher isSkillReadToolResult], sc_fenceMinTokens = 400\<rparr>"

definition AGGRESSIVE_SHAKE_CONFIG :: shake_config where
  "AGGRESSIVE_SHAKE_CONFIG = \<lparr>sc_protectTokens = 0, sc_minSavings = 0,
     sc_protectedTools = [ToolName (js ''skill''), Matcher isSkillReadToolResult], sc_fenceMinTokens = 400\<rparr>"

definition PLACEHOLDER_TOKEN_ESTIMATE :: nat where "PLACEHOLDER_TOKEN_ESTIMATE = 16"

text \<open>The block index \<open>-1\<close>, for content that is a text, is \<open>None\<close>.\<close>

datatype shake_region =
    ToolResultShakeRegion (rg_entry: nat) (rg_tokens: nat) (rg_originalText: jstring) (rg_label: jstring)
  | BlockShakeRegion (rg_entry: nat) (rg_blockIndex: "nat option") (rg_start: nat) (rg_end: nat)
      (rg_tokens: nat) (rg_originalText: jstring) (rg_label: jstring)

definition toolResultText :: "tool_result \<Rightarrow> jstring" where
  "toolResultText r = join_with [LF] (concat (map (\<lambda>b. case b of TextContent t \<Rightarrow> [t] | _ \<Rightarrow> []) (tr_content r)))"

definition all_texts :: "content list \<Rightarrow> jstring list" where
  "all_texts bs = concat (map (\<lambda>b. case b of TextContent t \<Rightarrow> [t] | _ \<Rightarrow> []) bs)"

definition entryTokens :: "(jstring list \<Rightarrow> nat) \<Rightarrow> entry \<Rightarrow> nat" where
  "entryTokens countTokens e =
     (case en_kind e of
        Message m \<Rightarrow> estimateTokens countTokens m
      | CustomMessageEntry customType (Plain s) \<Rightarrow> (if length s = 0 then 0 else countTokens [s])
      | CustomMessageEntry customType (Blocks bs) \<Rightarrow>
          (if length (all_texts bs) = 0 then 0 else countTokens (all_texts bs))
      | _ \<Rightarrow> 0)"

definition pushBlockRegions ::
  "(jstring list \<Rightarrow> nat) \<Rightarrow> shake_config \<Rightarrow> nat \<Rightarrow> nat option \<Rightarrow> jstring \<Rightarrow> jstring \<Rightarrow> shake_region list" where
  "pushBlockRegions countTokens config i blockIndex t label =
     concat (map (\<lambda>(a, b).
       let part = slice t a b
       in if length part = 0 then []
          else if countTokens [part] < sc_fenceMinTokens config then []
          else [BlockShakeRegion i blockIndex a b (countTokens [part]) part label])
       (scanTextForBlockRanges t))"

definition scanContentBlocks ::
  "(jstring list \<Rightarrow> nat) \<Rightarrow> shake_config \<Rightarrow> nat \<Rightarrow> msg_content \<Rightarrow> jstring \<Rightarrow> shake_region list" where
  "scanContentBlocks countTokens config i content label =
     (case content of
        Plain t \<Rightarrow> pushBlockRegions countTokens config i None t label
      | Blocks bs \<Rightarrow> concat (map (\<lambda>bi. case bs ! bi of
            TextContent t \<Rightarrow> pushBlockRegions countTokens config i (Some bi) t label | _ \<Rightarrow> [])
          [0..<length bs]))"

definition collectBlockRegions ::
  "(jstring list \<Rightarrow> nat) \<Rightarrow> shake_config \<Rightarrow> nat \<Rightarrow> entry \<Rightarrow> shake_region list" where
  "collectBlockRegions countTokens config i e =
     (case en_kind e of
        Message (AssistantMessage a) \<Rightarrow>
          concat (map (\<lambda>bi. case am_content a ! bi of
              TextBlock t \<Rightarrow> pushBlockRegions countTokens config i (Some bi) t (js ''assistant'') | _ \<Rightarrow> [])
            [0..<length (am_content a)])
      | Message (UserMessage c) \<Rightarrow> scanContentBlocks countTokens config i c (js ''user'')
      | Message (DeveloperMessage c) \<Rightarrow> scanContentBlocks countTokens config i c (js ''developer'')
      | CustomMessageEntry customType c \<Rightarrow> scanContentBlocks countTokens config i c customType
      | _ \<Rightarrow> [])"

definition accumulatedAfter :: "(jstring list \<Rightarrow> nat) \<Rightarrow> entry list \<Rightarrow> nat \<Rightarrow> nat" where
  "accumulatedAfter countTokens es i = sum_list (map (entryTokens countTokens) (drop (Suc i) es))"

definition entry_regions ::
  "(jstring list \<Rightarrow> nat) \<Rightarrow> shake_config \<Rightarrow> entry list \<Rightarrow> nat \<Rightarrow> shake_region list" where
  "entry_regions countTokens config es i =
     (if accumulatedAfter countTokens es i < sc_protectTokens config then []
      else case getToolResultMessage (es ! i) of
        Some r \<Rightarrow>
          (if tr_prunedAt r \<noteq> None then []
           else if isProtectedToolResult r (map_get (collectToolCallsById es) (tr_toolCallId r)) (sc_protectedTools config) then []
           else if length (toolResultText r) = 0 then []
           else [ToolResultShakeRegion i (estimateTokens countTokens (ToolResultMessage r)) (toolResultText r) (tr_toolName r)])
      | None \<Rightarrow> collectBlockRegions countTokens config i (es ! i))"

definition collectShakeRegions ::
  "(jstring list \<Rightarrow> nat) \<Rightarrow> entry list \<Rightarrow> shake_config \<Rightarrow> shake_region list" where
  "collectShakeRegions countTokens es config =
     (let regions = concat (map (entry_regions countTokens config es) [0..<length es]);
          savings = sum_list (map (\<lambda>r. rg_tokens r - PLACEHOLDER_TOKEN_ESTIMATE) regions)
      in if savings < sc_minSavings config then [] else regions)"

section \<open>Replacing regions\<close>

definition content_get :: "msg_content \<Rightarrow> nat option \<Rightarrow> jstring option" where
  "content_get c bi =
     (case (c, bi) of
        (Plain t, None) \<Rightarrow> Some t
      | (Blocks bs, Some i) \<Rightarrow> (case nth_opt bs i of Some (TextContent t) \<Rightarrow> Some t | _ \<Rightarrow> None)
      | _ \<Rightarrow> None)"

definition content_set :: "msg_content \<Rightarrow> nat option \<Rightarrow> jstring \<Rightarrow> msg_content" where
  "content_set c bi v =
     (case (c, bi) of
        (Plain t, None) \<Rightarrow> Plain v
      | (Blocks bs, Some i) \<Rightarrow> Blocks (bs[i := TextContent v])
      | _ \<Rightarrow> c)"

text \<open>\<open>getBlockTextSlot\<close>: reading and writing a text of an entry.\<close>

definition slot_read :: "entry \<Rightarrow> nat option \<Rightarrow> jstring option" where
  "slot_read e bi =
     (case en_kind e of
        Message (UserMessage c) \<Rightarrow> content_get c bi
      | Message (DeveloperMessage c) \<Rightarrow> content_get c bi
      | Message (HookMessage _ c) \<Rightarrow> content_get c bi
      | Message (CustomMessage _ c) \<Rightarrow> content_get c bi
      | Message (ToolResultMessage r) \<Rightarrow> content_get (Blocks (tr_content r)) bi
      | Message (AssistantMessage a) \<Rightarrow>
          (case bi of None \<Rightarrow> None
           | Some i \<Rightarrow> (case nth_opt (am_content a) i of Some (TextBlock t) \<Rightarrow> Some t | _ \<Rightarrow> None))
      | CustomMessageEntry _ c \<Rightarrow> content_get c bi
      | _ \<Rightarrow> None)"

definition slot_write :: "entry \<Rightarrow> nat option \<Rightarrow> jstring \<Rightarrow> entry" where
  "slot_write e bi v =
     (if slot_read e bi = None then e
      else e\<lparr>en_kind := (case en_kind e of
        Message (UserMessage c) \<Rightarrow> Message (UserMessage (content_set c bi v))
      | Message (DeveloperMessage c) \<Rightarrow> Message (DeveloperMessage (content_set c bi v))
      | Message (HookMessage t c) \<Rightarrow> Message (HookMessage t (content_set c bi v))
      | Message (CustomMessage t c) \<Rightarrow> Message (CustomMessage t (content_set c bi v))
      | Message (ToolResultMessage r) \<Rightarrow> Message (ToolResultMessage (r\<lparr>tr_content := (tr_content r)[the bi := TextContent v]\<rparr>))
      | Message (AssistantMessage a) \<Rightarrow> Message (AssistantMessage (a\<lparr>am_content := (am_content a)[the bi := TextBlock v]\<rparr>))
      | CustomMessageEntry t c \<Rightarrow> CustomMessageEntry t (content_set c bi v)
      | k \<Rightarrow> k)\<rparr>)"

definition splice_text :: "jstring \<Rightarrow> nat \<Rightarrow> nat \<Rightarrow> jstring \<Rightarrow> jstring" where
  "splice_text t a b replacement = slice t 0 a @ replacement @ drop b t"

definition applyShakeRegion :: "nat \<Rightarrow> entry list \<Rightarrow> shake_region \<times> jstring \<Rightarrow> entry list" where
  "applyShakeRegion now es item =
     (case item of
        (ToolResultShakeRegion i _ _ _, replacement) \<Rightarrow>
          (case getToolResultMessage (es ! i) of
             Some r \<Rightarrow> es[i := (es ! i)\<lparr>en_kind := Message (ToolResultMessage
               (r\<lparr>tr_content := [TextContent replacement], tr_prunedAt := Some now\<rparr>))\<rparr>]
           | None \<Rightarrow> es)
      | (BlockShakeRegion i bi a b _ _ _, replacement) \<Rightarrow>
          (case slot_read (es ! i) bi of
             Some t \<Rightarrow> es[i := slot_write (es ! i) bi (splice_text t a b replacement)]
           | None \<Rightarrow> es))"

text \<open>The comparison of the sort: descending by start, tool results with start \<open>-1\<close>.\<close>

definition shake_key :: "shake_region \<times> jstring \<Rightarrow> int" where
  "shake_key item =
     (case fst item of BlockShakeRegion _ _ a _ _ _ _ \<Rightarrow> - int a | ToolResultShakeRegion _ _ _ _ \<Rightarrow> 1)"

definition applyShakeRegions :: "nat \<Rightarrow> entry list \<Rightarrow> (shake_region \<times> jstring) list \<Rightarrow> entry list" where
  "applyShakeRegions now es items = foldl (applyShakeRegion now) es (sort_key shake_key items)"

end
