(* ===== verification/Shake_Correct.thy ===== *)
theory Shake_Correct
  imports Shake
begin

text \<open>
  The ranges that are located are separated and lie on line boundaries, and replacing them in the
  order the code chooses puts each placeholder exactly where its range was; nothing else of the
  transcript changes.
\<close>

section \<open>Located ranges\<close>

definition line_start :: "jstring \<Rightarrow> nat \<Rightarrow> bool" where
  "line_start t a \<longleftrightarrow> a = 0 \<or> a \<le> length t \<and> t ! (a - 1) = LF"

definition line_end :: "jstring \<Rightarrow> nat \<Rightarrow> bool" where
  "line_end t b \<longleftrightarrow> b = length t \<or> b < length t \<and> t ! b = LF"

text \<open>Two ranges are apart, or one lies strictly later inside the other.\<close>

definition nested :: "nat \<times> nat \<Rightarrow> nat \<times> nat \<Rightarrow> bool" where
  "nested r q \<longleftrightarrow> r = q \<or> snd r < fst q \<or> snd q < fst r \<or> fst r < fst q \<and> snd q \<le> snd r \<or> fst q < fst r \<and> snd r \<le> snd q"

definition range_ok :: "jstring \<Rightarrow> nat \<Rightarrow> nat \<times> nat \<Rightarrow> bool" where
  "range_ok t pos r \<longleftrightarrow> fst r < snd r \<and> snd r < pos \<and> line_start t (fst r) \<and> line_end t (snd r)"

definition scan_ok :: "jstring \<Rightarrow> nat \<Rightarrow> block_scan \<Rightarrow> bool" where
  "scan_ok t pos st \<longleftrightarrow>
     (\<forall>r\<in>set (bs_ranges st). range_ok t pos r) \<and>
     (\<forall>r\<in>set (bs_ranges st). \<forall>q\<in>set (bs_ranges st). nested r q) \<and>
     (bs_inFence st \<longrightarrow> bs_fenceStart st < pos \<and> line_start t (bs_fenceStart st) \<and>
        (\<forall>r\<in>set (bs_ranges st). snd r < bs_fenceStart st)) \<and>
     (\<forall>x. bs_xmlStart st = Some x \<longrightarrow> x < pos \<and> line_start t x \<and>
        (\<forall>r\<in>set (bs_ranges st). snd r < x \<or> x < fst r) \<and> (bs_inFence st \<longrightarrow> x < bs_fenceStart st))"

lemma scan_ok_later: "scan_ok t pos st \<Longrightarrow> pos \<le> pos' \<Longrightarrow> scan_ok t pos' st"
  by (fastforce simp: scan_ok_def range_ok_def)

lemma scan_ok_add:
  assumes "scan_ok t pos st" "range_ok t pos r" "\<forall>q\<in>set (bs_ranges st). nested r q"
  shows "(\<forall>r'\<in>set (bs_ranges st @ [r]). range_ok t pos r') \<and>
    (\<forall>p\<in>set (bs_ranges st @ [r]). \<forall>q\<in>set (bs_ranges st @ [r]). nested p q)"
proof -
  have "nested r r" "\<forall>q\<in>set (bs_ranges st). nested q r" using assms(3) by (auto simp: nested_def)
  then show ?thesis using assms by (auto simp: scan_ok_def)
qed

lemma scan_line_ok:
  assumes ok: "scan_ok t pos st" and ls: "line_start t pos" and le: "line_end t (pos + length line)"
  shows "scan_ok t (pos + length line + 1) (scan_line st pos line)"
proof -
  let ?e = "pos + length line" and ?p = "pos + length line + 1"
  have ok': "scan_ok t ?p st" by (rule scan_ok_later [OF ok]) simp
  have before: "snd r < pos" if "r \<in> set (bs_ranges st)" for r using ok that by (simp add: scan_ok_def range_ok_def)
  show ?thesis
  proof (cases "is_fence_line line")
    case fence: True
    show ?thesis
    proof (cases "bs_inFence st")
      case False
      then have "scan_line st pos line = st\<lparr>bs_inFence := True, bs_fenceStart := pos\<rparr>" using fence by (simp add: scan_line_def Let_def)
      then show ?thesis using ok' ls before ok by (simp add: scan_ok_def)
    next
      case True
      let ?r = "(bs_fenceStart st, ?e)"
      have s: "scan_line st pos line = st\<lparr>bs_inFence := False, bs_ranges := bs_ranges st @ [?r]\<rparr>"
        using fence True by (simp add: scan_line_def Let_def)
      have f: "bs_fenceStart st < pos" "line_start t (bs_fenceStart st)" "\<forall>q\<in>set (bs_ranges st). snd q < bs_fenceStart st"
        using ok True by (simp_all add: scan_ok_def)
      have "range_ok t ?p ?r" using f(1,2) le by (simp add: range_ok_def)
      moreover have "\<forall>q\<in>set (bs_ranges st). nested ?r q" using f(3) by (simp add: nested_def)
      ultimately show ?thesis using scan_ok_add [OF ok', of ?r] ok' True unfolding s by (simp add: scan_ok_def)
    qed
  next
    case no_fence: False
    show ?thesis
    proof (cases "bs_inFence st")
      case True
      then show ?thesis using ok' no_fence by (simp add: scan_line_def Let_def)
    next
      case out: False
      show ?thesis
      proof (cases "if length line = length (trim_start line) then opening_xml (trim_start line) else None")
        case (Some name)
        then have s: "scan_line st pos line = st\<lparr>bs_xmlStart := (if bs_tagStack st = [] then Some pos else bs_xmlStart st),
            bs_tagStack := name # bs_tagStack st\<rparr>"
          using no_fence out unfolding scan_line_def Let_def by simp
        show ?thesis unfolding s using ok' ls before out by (auto simp: scan_ok_def)
      next
        case None
        show ?thesis
        proof (cases "\<exists>x. scan_line st pos line =
            st\<lparr>bs_tagStack := [], bs_ranges := bs_ranges st @ [(x, ?e)], bs_xmlStart := None\<rparr> \<and> bs_xmlStart st = Some x")
          case True
          then obtain x where s: "scan_line st pos line =
            st\<lparr>bs_tagStack := [], bs_ranges := bs_ranges st @ [(x, ?e)], bs_xmlStart := None\<rparr>" "bs_xmlStart st = Some x" by blast
          have x: "x < pos" "line_start t x" "\<forall>q\<in>set (bs_ranges st). snd q < x \<or> x < fst q" using ok s(2) by (simp_all add: scan_ok_def)
          have "range_ok t ?p (x, ?e)" using x(1,2) le by (simp add: range_ok_def)
          moreover have "\<forall>q\<in>set (bs_ranges st). nested (x, ?e) q" using x(3) before by (fastforce simp: nested_def)
          ultimately show ?thesis using scan_ok_add [OF ok', of "(x, ?e)"] out unfolding s(1) by (simp add: scan_ok_def)
        next
          case no_range: False
          have e: "scan_line st pos line =
             (case (closing_xml (trim_start line), bs_tagStack st) of
                (Some name, innermost # rest) \<Rightarrow>
                  (if innermost \<noteq> name then st
                   else case (rest, bs_xmlStart st) of
                     ([], Some xmlStart) \<Rightarrow>
                       st\<lparr>bs_tagStack := [], bs_ranges := bs_ranges st @ [(xmlStart, ?e)], bs_xmlStart := None\<rparr>
                   | _ \<Rightarrow> st\<lparr>bs_tagStack := rest\<rparr>)
              | _ \<Rightarrow> st)"
            using None no_fence out unfolding scan_line_def Let_def by simp
          have same: "\<exists>stack. st = st\<lparr>bs_tagStack := stack\<rparr>" by (rule exI [of _ "bs_tagStack st"]) simp
          have "\<exists>stack. scan_line st pos line = st\<lparr>bs_tagStack := stack\<rparr>"
          proof (cases "closing_xml (trim_start line)")
            case None
            then show ?thesis using same by (simp add: e)
          next
            case (Some name)
            show ?thesis
            proof (cases "bs_tagStack st")
              case Nil
              then show ?thesis using same Some by (simp add: e)
            next
              case (Cons innermost rest)
              show ?thesis
              proof (cases "innermost = name \<and> \<not> (rest = [] \<and> bs_xmlStart st \<noteq> None)")
                case True
                then show ?thesis using Some Cons by (cases rest; cases "bs_xmlStart st") (auto simp: e)
              next
                case other: False
                show ?thesis
                proof (cases "innermost = name")
                  case True
                  then obtain x where "rest = []" "bs_xmlStart st = Some x" using other by auto
                  then show ?thesis using no_range True Some Cons by (simp add: e)
                next
                  case False
                  then show ?thesis using same Some Cons by (simp add: e)
                qed
              qed
            qed
          qed
          then obtain stack where s: "scan_line st pos line = st\<lparr>bs_tagStack := stack\<rparr>" by blast
          show ?thesis unfolding s using ok' by (simp add: scan_ok_def)
        qed
      qed
    qed
  qed
qed

lemma scan_lines_ok:
  assumes "scan_ok t pos st" "ls \<noteq> []" "t = pre @ join_with [LF] ls" "length pre = pos" "line_start t pos"
  shows "scan_ok t (Suc (length t)) (scan_lines st pos ls)"
  using assms
proof (induction st pos ls arbitrary: pre rule: scan_lines.induct)
  case (2 st pos line ls)
  show ?case
  proof (cases ls)
    case Nil
    then have "line_end t (pos + length line)" using 2 by (simp add: line_end_def)
    then show ?thesis using scan_line_ok [OF 2(2,6), of line] 2(4,5) Nil by simp
  next
    case (Cons l ls')
    have t: "t = (pre @ line @ [LF]) @ join_with [LF] ls" using 2(4) Cons by (simp add: join_with_Cons)
    have "t ! (pos + length line) = LF" "pos + length line < length t" using t 2(5) by (simp_all add: nth_append)
    then have "line_end t (pos + length line)" "line_start t (pos + length line + 1)"
      by (simp_all add: line_end_def line_start_def)
    then show ?thesis using 2(1) [OF scan_line_ok [OF 2(2,6)], of "pre @ line @ [LF]"] Cons t 2(5) by simp
  qed
qed simp

lemma scanned_ok: "scan_ok t (Suc (length t)) (scan_lines no_blocks 0 (split_on LF t))"
  by (rule scan_lines_ok [where pre = "[]"]) (simp_all add: scan_ok_def no_blocks_def join_split line_start_def)

section \<open>Merged ranges\<close>

lemma keep_outermost_apart:
  assumes "\<forall>r\<in>set rs. fst r < snd r"
  shows "sorted_wrt (\<lambda>r q. snd r \<le> fst q) (keep_outermost l rs) \<and> (\<forall>q\<in>set (keep_outermost l rs). l \<le> fst q \<and> q \<in> set rs)"
  using assms
proof (induction l rs rule: keep_outermost.induct)
  case (2 l r rs)
  show ?case
  proof (cases "fst r < l")
    case True
    then show ?thesis using 2(1) [OF True] 2(3) by auto
  next
    case False
    have r: "l \<le> fst r" "fst r < snd r" using False 2(3) by simp_all
    have "sorted_wrt (\<lambda>r q. snd r \<le> fst q) (keep_outermost (snd r) rs)"
      "\<forall>q\<in>set (keep_outermost (snd r) rs). snd r \<le> fst q \<and> q \<in> set rs"
      using 2(2) [OF False] 2(3) by simp_all
    moreover from this r have "\<forall>q\<in>set (keep_outermost (snd r) rs). l \<le> fst q" by (meson le_trans less_imp_le)
    ultimately show ?thesis using False r by simp
  qed
qed simp

text \<open>A dropped range is inside a kept one.\<close>

lemma keep_outermost_cover:
  assumes "sorted (map fst rs)" "\<forall>r\<in>set rs. fst k \<le> fst r \<and> fst r < snd r" "\<forall>r\<in>set (k # rs). \<forall>q\<in>set (k # rs). nested r q"
    and "fst k < snd k" "q \<in> set rs"
  shows "\<exists>p\<in>insert k (set (keep_outermost (snd k) rs)). fst p \<le> fst q \<and> snd q \<le> snd p"
  using assms
proof (induction rs arbitrary: k)
  case (Cons r rs)
  show ?case
  proof (cases "fst r < snd k")
    case True
    have n: "nested k r" using Cons.prems(3) by simp
    have in_k: "fst k \<le> fst r \<and> snd r \<le> snd k"
      using n True Cons.prems(2,4) by (auto simp: nested_def)
    show ?thesis
    proof (cases "q = r")
      case True
      then show ?thesis using in_k by (intro bexI [of _ k]) simp_all
    next
      case False
      then show ?thesis using Cons.IH [of k] Cons.prems True by simp
    qed
  next
    case False
    then have k: "keep_outermost (snd k) (r # rs) = r # keep_outermost (snd r) rs" by simp
    show ?thesis
    proof (cases "q = r")
      case True
      then show ?thesis unfolding k by (intro bexI [of _ r]) simp_all
    next
      case False
      then have "\<exists>p\<in>insert r (set (keep_outermost (snd r) rs)). fst p \<le> fst q \<and> snd q \<le> snd p"
        using Cons.IH [of r] Cons.prems by simp
      then show ?thesis unfolding k by auto
    qed
  qed
qed simp

definition ranges_apart :: "(nat \<times> nat) list \<Rightarrow> bool" where
  "ranges_apart rs \<longleftrightarrow> sorted_wrt (\<lambda>r q. snd r \<le> fst q) rs \<and> (\<forall>r\<in>set rs. fst r < snd r)"

lemma mergeRanges_spec:
  assumes "\<forall>r\<in>set rs. fst r < snd r" "\<forall>r\<in>set rs. \<forall>q\<in>set rs. nested r q"
  shows "ranges_apart (mergeRanges rs)" "set (mergeRanges rs) \<subseteq> set rs"
    "\<forall>q\<in>set rs. \<exists>p\<in>set (mergeRanges rs). fst p \<le> fst q \<and> snd q \<le> snd p"
proof -
  have "length rs > 1 \<Longrightarrow> sort_key fst rs \<noteq> []" by (metis length_sort list.size(3) not_less_zero)
  then consider "length rs \<le> 1" | r ss where "length rs > 1" "sort_key fst rs = r # ss"
    by (cases "length rs \<le> 1"; cases "sort_key fst rs") simp_all
  then have "ranges_apart (mergeRanges rs) \<and> set (mergeRanges rs) \<subseteq> set rs \<and>
    (\<forall>q\<in>set rs. \<exists>p\<in>set (mergeRanges rs). fst p \<le> fst q \<and> snd q \<le> snd p)"
  proof cases
    case 1
    then show ?thesis using assms(1) by (cases rs) (auto simp: mergeRanges_def ranges_apart_def)
  next
    case 2
    have set: "set rs = insert r (set ss)" using 2(2) by (metis list.simps(15) set_sort)
    have m: "mergeRanges rs = r # keep_outermost (snd r) ss" using 2 by (simp add: mergeRanges_def)
    have srt: "sorted (map fst (r # ss))" using 2(2) sorted_sort_key [of fst rs] by simp
    have "\<forall>q\<in>set (r # ss). fst q < snd q" using assms(1) set by simp
    note k = keep_outermost_apart [of "r # ss" 0, OF this]
    have k0: "keep_outermost 0 (r # ss) = mergeRanges rs" using m by simp
    have "\<exists>p\<in>set (mergeRanges rs). fst p \<le> fst q \<and> snd q \<le> snd p" if "q \<in> set rs" for q
    proof (cases "q = r")
      case True
      then show ?thesis unfolding m by (intro bexI [of _ r]) simp_all
    next
      case False
      then have "q \<in> set ss" using that set by simp
      then show ?thesis unfolding m using keep_outermost_cover [of ss r q] srt assms set by simp
    qed
    then show ?thesis using k assms(1) set unfolding k0 ranges_apart_def by auto
  qed
  then show "ranges_apart (mergeRanges rs)" "set (mergeRanges rs) \<subseteq> set rs"
    "\<forall>q\<in>set rs. \<exists>p\<in>set (mergeRanges rs). fst p \<le> fst q \<and> snd q \<le> snd p" by blast+
qed

lemma scan_ranges_spec:
  "ranges_apart (scanTextForBlockRanges t)"
  "r \<in> set (scanTextForBlockRanges t) \<Longrightarrow> snd r \<le> length t \<and> line_start t (fst r) \<and> line_end t (snd r)"
  "q \<in> set (bs_ranges (scan_lines no_blocks 0 (split_on LF t))) \<Longrightarrow>
    \<exists>p\<in>set (scanTextForBlockRanges t). fst p \<le> fst q \<and> snd q \<le> snd p"
proof -
  let ?R = "bs_ranges (scan_lines no_blocks 0 (split_on LF t))"
  have R: "\<forall>r\<in>set ?R. range_ok t (Suc (length t)) r" "\<forall>r\<in>set ?R. \<forall>q\<in>set ?R. nested r q"
    using scanned_ok [of t] by (simp_all add: scan_ok_def)
  then have "\<forall>r\<in>set ?R. fst r < snd r" by (simp add: range_ok_def)
  note m = mergeRanges_spec [OF this R(2), folded scanTextForBlockRanges_def]
  show "ranges_apart (scanTextForBlockRanges t)" by (fact m(1))
  show "snd r \<le> length t \<and> line_start t (fst r) \<and> line_end t (snd r)" if "r \<in> set (scanTextForBlockRanges t)"
    using that m(2) R(1) by (force simp: range_ok_def)
  show "\<exists>p\<in>set (scanTextForBlockRanges t). fst p \<le> fst q \<and> snd q \<le> snd p" if "q \<in> set ?R"
    using that m(3) by blast
qed

section \<open>Filling ranges\<close>

text \<open>The text with every range replaced; the rest is copied.\<close>

fun fill_ranges :: "jstring \<Rightarrow> nat \<Rightarrow> ((nat \<times> nat) \<times> jstring) list \<Rightarrow> jstring" where
  "fill_ranges t p [] = drop p t"
| "fill_ranges t p (((a, b), replacement) # rs) = slice t p a @ replacement @ fill_ranges t b rs"

definition splice_item :: "(nat \<times> nat) \<times> jstring \<Rightarrow> jstring \<Rightarrow> jstring" where
  "splice_item x t = splice_text t (fst (fst x)) (snd (fst x)) (snd x)"

text \<open>Splicing from the last range to the first is filling them all at once.\<close>

lemma splice_fill:
  assumes "ranges_apart (map fst xs)" "\<forall>x\<in>set xs. p \<le> fst (fst x) \<and> snd (fst x) \<le> length t" "p \<le> length t"
  shows "foldr splice_item xs t = take p t @ fill_ranges t p xs"
  using assms
proof (induction xs arbitrary: p)
  case (Cons x xs)
  obtain a b r where x: "x = ((a, b), r)" by (metis prod.collapse)
  have ab: "p \<le> a" "a < b" "b \<le> length t" using Cons.prems x by (auto simp: ranges_apart_def)
  have ih: "foldr splice_item xs t = take b t @ fill_ranges t b xs"
    by (rule Cons.IH) (use Cons.prems x ab in \<open>auto simp: ranges_apart_def\<close>)
  have "slice (take b t @ fill_ranges t b xs) 0 a = take a t" using ab by (simp add: slice_def min_def)
  moreover have "drop b (take b t @ fill_ranges t b xs) = fill_ranges t b xs" using ab by simp
  moreover have "take a t = take p t @ slice t p a"
    using ab(1) by (metis le_add_diff_inverse slice_def take_add)
  moreover have "foldr splice_item (x # xs) t = splice_item x (foldr splice_item xs t)" by simp
  ultimately show ?case unfolding ih x splice_item_def splice_text_def fst_conv snd_conv by simp
qed simp

section \<open>Slots\<close>

lemma content_get_set:
  "content_get c bi = Some t \<Longrightarrow> content_get (content_set c bi v) b' = (if b' = bi then Some v else content_get c b')"
  by (cases c; cases bi; cases b') (auto simp: content_get_def content_set_def nth_opt_Some nth_opt_def split: option.splits content.splits if_splits)

lemma slot_read_write:
  assumes "slot_read e bi = Some t"
  shows "slot_read (slot_write e bi v) b' = (if b' = bi then Some v else slot_read e b')"
proof (cases "en_kind e")
  case (Message m)
  show ?thesis
  proof (cases m)
    case (AssistantMessage a)
    then obtain i where i: "bi = Some i" "nth_opt (am_content a) i = Some (TextBlock t)"
      using assms Message by (auto simp: slot_read_def split: option.splits assistant_block.splits)
    then have "i < length (am_content a)" by (simp add: nth_opt_Some)
    then show ?thesis using assms Message AssistantMessage i
      by (cases b') (auto simp: slot_write_def slot_read_def nth_opt_def split: option.splits)
  next
    case (ToolResultMessage r)
    then have "content_get (Blocks (tr_content r)) bi = Some t" using assms Message by (simp add: slot_read_def)
    from content_get_set [OF this, of v b'] this show ?thesis using assms Message ToolResultMessage
      by (cases bi) (simp_all add: slot_write_def slot_read_def content_set_def, simp add: content_get_def)
  qed (use assms Message in \<open>simp_all add: slot_write_def slot_read_def content_get_set\<close>)
next
  case (CustomMessageEntry ty c)
  then show ?thesis using assms by (simp add: slot_write_def slot_read_def content_get_set)
qed (use assms in \<open>simp_all add: slot_read_def\<close>)

definition text_at :: "entry list \<Rightarrow> nat \<times> nat option \<Rightarrow> jstring option" where
  "text_at es k = (if fst k < length es then slot_read (es ! fst k) (snd k) else None)"

fun region_slot :: "shake_region \<Rightarrow> (nat \<times> nat option) option" where
  "region_slot (ToolResultShakeRegion i _ _ _) = None"
| "region_slot (BlockShakeRegion i bi _ _ _ _ _) = Some (i, bi)"

definition region_ok :: "entry list \<Rightarrow> shake_region \<Rightarrow> bool" where
  "region_ok es r \<longleftrightarrow> rg_entry r < length es \<and>
     (case region_slot r of
        None \<Rightarrow> getToolResultMessage (es ! rg_entry r) \<noteq> None
      | Some k \<Rightarrow> getToolResultMessage (es ! rg_entry r) = None)"

lemma write_not_result: "getToolResultMessage e = None \<Longrightarrow> getToolResultMessage (slot_write e bi v) = None"
  by (auto simp: slot_write_def getToolResultMessage_def split: entry_kind.splits message.splits)

lemma write_fields:
  "en_id (slot_write e bi v) = en_id e" "en_parentId (slot_write e bi v) = en_parentId e"
  "en_timestamp (slot_write e bi v) = en_timestamp e"
  by (simp_all add: slot_write_def)

lemma apply_length [simp]: "length (applyShakeRegion now es item) = length es"
  by (cases item) (auto simp: applyShakeRegion_def split: shake_region.splits option.splits)

lemma apply_result_kind:
  assumes "region_ok es (fst item)"
  shows "getToolResultMessage (applyShakeRegion now es item ! i) = None \<longleftrightarrow> getToolResultMessage (es ! i) = None"
proof -
  obtain r v where item: "item = (r, v)" by (cases item)
  show ?thesis
  proof (cases r)
    case (ToolResultShakeRegion j a b c)
    then show ?thesis using assms item
      by (cases "i = j") (auto simp: applyShakeRegion_def region_ok_def nth_list_update getToolResultMessage_def split: option.splits)
  next
    case (BlockShakeRegion j bi a b c d e)
    then show ?thesis using assms item write_not_result
      by (cases "i = j") (auto simp: applyShakeRegion_def region_ok_def nth_list_update split: option.splits)
  qed
qed

lemma apply_region_ok: "region_ok es (fst item) \<Longrightarrow> region_ok es r \<Longrightarrow> region_ok (applyShakeRegion now es item) r"
  using apply_result_kind by (auto simp: region_ok_def split: option.splits)

text \<open>What one item does to a text slot outside the tool results.\<close>

definition hits :: "nat \<times> nat option \<Rightarrow> shake_region \<times> jstring \<Rightarrow> bool" where
  "hits k item \<longleftrightarrow> region_slot (fst item) = Some k"

definition item_range :: "shake_region \<times> jstring \<Rightarrow> (nat \<times> nat) \<times> jstring" where
  "item_range item = ((rg_start (fst item), rg_end (fst item)), snd item)"

lemma apply_text_at:
  assumes "region_ok es (fst item)" "getToolResultMessage (es ! fst k) = None"
  shows "text_at (applyShakeRegion now es item) k =
    (if hits k item then map_option (splice_item (item_range item)) (text_at es k) else text_at es k)"
proof -
  obtain r v where item: "item = (r, v)" by (cases item)
  show ?thesis
  proof (cases r)
    case (ToolResultShakeRegion j a b c)
    then have "fst k \<noteq> j" using assms item by (auto simp: region_ok_def)
    then show ?thesis using item ToolResultShakeRegion
      by (simp add: applyShakeRegion_def hits_def text_at_def split: option.splits)
  next
    case (BlockShakeRegion j bi a b c d e)
    show ?thesis
    proof (cases "slot_read (es ! j) bi")
      case None
      then show ?thesis using item BlockShakeRegion
        by (cases k) (auto simp: applyShakeRegion_def hits_def text_at_def)
    next
      case (Some t)
      have "j < length es" using assms(1) item BlockShakeRegion by (simp add: region_ok_def)
      then show ?thesis using item BlockShakeRegion Some
        by (cases k) (auto simp: applyShakeRegion_def hits_def text_at_def slot_read_write [OF Some] nth_list_update
            splice_item_def item_range_def)
    qed
  qed
qed

lemma apply_all_text_at:
  assumes "\<forall>item\<in>set items. region_ok es (fst item)" "getToolResultMessage (es ! fst k) = None"
  shows "text_at (foldl (applyShakeRegion now) es items) k =
    map_option (\<lambda>t. foldl (\<lambda>t x. splice_item x t) t (map item_range (filter (hits k) items))) (text_at es k)"
  using assms
proof (induction items arbitrary: es)
  case Nil
  then show ?case by (simp add: option.map_ident)
next
  case (Cons item items)
  have "\<forall>x\<in>set items. region_ok (applyShakeRegion now es item) (fst x)" "getToolResultMessage (applyShakeRegion now es item ! fst k) = None"
    using Cons.prems apply_region_ok apply_result_kind by auto
  from Cons.IH [OF this] show ?case
    using apply_text_at [of es item k now] Cons.prems by (simp add: option.map_comp comp_def)
qed

section \<open>The order of the splices\<close>

lemma insort_last: "\<forall>y\<in>set ys. f y < f x \<Longrightarrow> insort_key f x ys = ys @ [x]" for f :: "'a \<Rightarrow> int"
  by (induction ys) auto

lemma sort_key_rev: "sorted_wrt (\<lambda>x y. f y < f x) xs \<Longrightarrow> sort_key f xs = rev xs" for f :: "'a \<Rightarrow> int"
  by (induction xs) (auto simp: insort_last)

text \<open>Regions of one slot are apart and in order.\<close>

definition in_order :: "shake_region \<Rightarrow> shake_region \<Rightarrow> bool" where
  "in_order r q \<longleftrightarrow> (region_slot r \<noteq> None \<and> region_slot r = region_slot q \<longrightarrow> rg_end r \<le> rg_start q)"

definition region_in_text :: "entry list \<Rightarrow> shake_region \<Rightarrow> bool" where
  "region_in_text es r \<longleftrightarrow>
     (case region_slot r of None \<Rightarrow> True
      | Some k \<Rightarrow> (\<exists>t. text_at es k = Some t \<and> rg_start r < rg_end r \<and> rg_end r \<le> length t))"

lemma slot_items_apart:
  assumes "sorted_wrt in_order (map fst items)" "\<forall>item\<in>set items. region_in_text es (fst item)"
  shows "ranges_apart (map fst (map item_range (filter (hits k) items)))"
proof -
  have "sorted_wrt (\<lambda>x y. snd (fst (item_range x)) \<le> fst (fst (item_range y))) (filter (hits k) items)"
    using assms(1)
  proof (induction items)
    case (Cons x xs)
    then show ?case by (auto simp: in_order_def hits_def item_range_def)
  qed simp
  moreover have "fst (fst (item_range x)) < snd (fst (item_range x))" if "x \<in> set (filter (hits k) items)" for x
    using that assms(2) by (fastforce simp: hits_def region_in_text_def item_range_def)
  ultimately show ?thesis by (auto simp: ranges_apart_def sorted_wrt_map)
qed

lemma hit_key: "hits k item \<Longrightarrow> shake_key item = - int (fst (fst (item_range item)))"
  by (cases item; cases "fst item") (auto simp: hits_def shake_key_def item_range_def)

lemma sort_slot_items:
  assumes "ranges_apart (map fst (map item_range (filter (hits k) items)))"
  shows "filter (hits k) (sort_key shake_key items) = rev (filter (hits k) items)"
proof -
  let ?xs = "filter (hits k) items"
  have "sorted_wrt (\<lambda>x y. fst (fst (item_range x)) < fst (fst (item_range y))) ?xs"
  proof (rule sorted_wrt_mono_rel)
    show "sorted_wrt (\<lambda>x y. snd (fst (item_range x)) \<le> fst (fst (item_range y))) ?xs"
      using assms by (simp add: ranges_apart_def sorted_wrt_map)
    fix x y assume "x \<in> set ?xs" "snd (fst (item_range x)) \<le> fst (fst (item_range y))"
    moreover from this(1) have "fst (fst (item_range x)) < snd (fst (item_range x))"
      using assms unfolding ranges_apart_def set_map by blast
    ultimately show "fst (fst (item_range x)) < fst (fst (item_range y))" by simp
  qed
  then have "sorted_wrt (\<lambda>x y. shake_key y < shake_key x) ?xs"
    by (rule sorted_wrt_mono_rel [rotated]) (simp add: hit_key [of k])
  then show ?thesis by (simp add: filter_sort sort_key_rev)
qed

text \<open>Applying the items fills the ranges of every text.\<close>

lemma apply_fills:
  assumes "\<forall>item\<in>set items. region_ok es (fst item) \<and> region_in_text es (fst item)"
    and "sorted_wrt in_order (map fst items)" "getToolResultMessage (es ! fst k) = None"
  shows "text_at (applyShakeRegions now es items) k =
    map_option (\<lambda>t. fill_ranges t 0 (map item_range (filter (hits k) items))) (text_at es k)"
proof (cases "text_at es k")
  case None
  have "\<forall>item\<in>set (sort_key shake_key items). region_ok es (fst item)" using assms(1) by simp
  from apply_all_text_at [OF this assms(3)] None show ?thesis by (simp add: applyShakeRegions_def)
next
  case (Some t)
  have apart: "ranges_apart (map fst (map item_range (filter (hits k) items)))"
    by (rule slot_items_apart [OF assms(2)]) (use assms(1) in blast)
  have "\<forall>item\<in>set (sort_key shake_key items). region_ok es (fst item)" using assms(1) by simp
  from apply_all_text_at [OF this assms(3)] Some
  have a: "text_at (applyShakeRegions now es items) k =
      Some (foldl (\<lambda>t x. splice_item x t) t (rev (map item_range (filter (hits k) items))))"
    by (simp add: applyShakeRegions_def sort_slot_items [OF apart] rev_map)
  have "\<forall>x\<in>set (map item_range (filter (hits k) items)). 0 \<le> fst (fst x) \<and> snd (fst x) \<le> length t"
    using assms(1) Some by (fastforce simp: hits_def region_in_text_def item_range_def)
  from splice_fill [OF apart this] show ?thesis unfolding a Some by (simp add: foldl_conv_foldr)
qed

section \<open>The located regions\<close>

lemma sorted_wrt_concat_map:
  "\<forall>x\<in>set xs. sorted_wrt R (f x) \<Longrightarrow> sorted_wrt (\<lambda>x y. \<forall>a\<in>set (f x). \<forall>b\<in>set (f y). R a b) xs \<Longrightarrow>
   sorted_wrt R (concat (map f xs))"
  by (induction xs) (auto simp: sorted_wrt_append)

lemma concat_map_filter:
  "concat (map (\<lambda>x. if P x then [] else if Q x then [] else [f x]) xs) = map f (filter (\<lambda>x. \<not> P x \<and> \<not> Q x) xs)"
  by (induction xs) simp_all

lemma push_regions:
  "pushBlockRegions countTokens config i bi t label =
     map (\<lambda>r. BlockShakeRegion i bi (fst r) (snd r) (countTokens [slice t (fst r) (snd r)]) (slice t (fst r) (snd r)) label)
       (filter (\<lambda>r. \<not> length (slice t (fst r) (snd r)) = 0 \<and> \<not> countTokens [slice t (fst r) (snd r)] < sc_fenceMinTokens config)
         (scanTextForBlockRanges t))"
  unfolding pushBlockRegions_def Let_def case_prod_unfold by (rule concat_map_filter)

lemma push_spec:
  shows "sorted_wrt in_order (pushBlockRegions countTokens config i bi t label)"
    and "r \<in> set (pushBlockRegions countTokens config i bi t label) \<Longrightarrow>
      region_slot r = Some (i, bi) \<and> rg_entry r = i \<and> rg_start r < rg_end r \<and> rg_end r \<le> length t \<and>
      rg_originalText r = slice t (rg_start r) (rg_end r) \<and> (rg_start r, rg_end r) \<in> set (scanTextForBlockRanges t)"
proof -
  have "sorted_wrt (\<lambda>r q. snd r \<le> fst q) (scanTextForBlockRanges t)" using scan_ranges_spec(1) by (simp add: ranges_apart_def)
  then show "sorted_wrt in_order (pushBlockRegions countTokens config i bi t label)"
    unfolding push_regions sorted_wrt_map
    by (intro sorted_wrt_filter) (simp add: in_order_def)
  show "region_slot r = Some (i, bi) \<and> rg_entry r = i \<and> rg_start r < rg_end r \<and> rg_end r \<le> length t \<and>
      rg_originalText r = slice t (rg_start r) (rg_end r) \<and> (rg_start r, rg_end r) \<in> set (scanTextForBlockRanges t)"
    if r_in: "r \<in> set (pushBlockRegions countTokens config i bi t label)"
  proof -
    obtain q where q: "q \<in> set (scanTextForBlockRanges t)"
      "r = BlockShakeRegion i bi (fst q) (snd q) (countTokens [slice t (fst q) (snd q)]) (slice t (fst q) (snd q)) label"
      using r_in unfolding push_regions set_map set_filter by blast
    moreover have "fst q < snd q" "snd q \<le> length t"
      using scan_ranges_spec(1) [of t] scan_ranges_spec(2) [OF q(1)] q(1) by (auto simp: ranges_apart_def)
    ultimately show ?thesis by simp
  qed
qed

text \<open>The regions of one entry: where they are, and that they are in order.\<close>

definition regions_of :: "entry list \<Rightarrow> nat \<Rightarrow> shake_region list \<Rightarrow> bool" where
  "regions_of es i rs \<longleftrightarrow> sorted_wrt in_order rs \<and>
     (\<forall>r\<in>set rs. rg_entry r = i \<and> region_ok es r \<and> region_in_text es r)"

lemma regions_of_concat:
  assumes "\<forall>bi<n. regions_of es i (f bi) \<and> (\<forall>r\<in>set (f bi). region_slot r = Some (i, Some bi))"
  shows "regions_of es i (concat (map f [0..<n]))"
proof -
  have "sorted_wrt in_order (concat (map f [0..<n]))"
  proof (rule sorted_wrt_concat_map)
    show "\<forall>x\<in>set [0..<n]. sorted_wrt in_order (f x)" using assms by (simp add: regions_of_def)
    show "sorted_wrt (\<lambda>x y. \<forall>a\<in>set (f x). \<forall>b\<in>set (f y). in_order a b) [0..<n]"
    proof (rule sorted_wrt_mono_rel)
      show "sorted_wrt (<) [0..<n]" by simp
      fix x y assume "x \<in> set [0..<n]" "y \<in> set [0..<n]" "x < y"
      then have "region_slot a = Some (i, Some x)" "region_slot b = Some (i, Some y)" "x \<noteq> y"
        if "a \<in> set (f x)" "b \<in> set (f y)" for a b using assms that by simp_all
      then show "\<forall>a\<in>set (f x). \<forall>b\<in>set (f y). in_order a b" by (simp add: in_order_def)
    qed
  qed
  then show ?thesis using assms by (auto simp: regions_of_def)
qed

lemma regions_of_push:
  assumes "i < length es" "getToolResultMessage (es ! i) = None" "slot_read (es ! i) bi = Some t"
  shows "regions_of es i (pushBlockRegions countTokens config i bi t label)"
proof -
  have "rg_entry r = i \<and> region_ok es r \<and> region_in_text es r"
    if "r \<in> set (pushBlockRegions countTokens config i bi t label)" for r
  proof -
    note p = push_spec(2) [OF that]
    then have "text_at es (i, bi) = Some t" using assms by (simp add: text_at_def)
    then show ?thesis using p assms(1,2) by (simp add: region_ok_def region_in_text_def)
  qed
  then show ?thesis using push_spec(1) by (simp add: regions_of_def)
qed

lemma regions_of_Nil [simp]: "regions_of es i []"
  by (simp add: regions_of_def)

lemma regions_of_content:
  assumes "i < length es" "getToolResultMessage (es ! i) = None" "\<And>bi. slot_read (es ! i) bi = content_get c bi"
  shows "regions_of es i (scanContentBlocks countTokens config i c label)"
proof (cases c)
  case (Plain t)
  then have "slot_read (es ! i) None = Some t" using assms(3) [of None] by (simp add: content_get_def)
  then show ?thesis using regions_of_push [OF assms(1,2)] Plain by (simp add: scanContentBlocks_def)
next
  case (Blocks bs)
  have "regions_of es i (case bs ! bi of TextContent t \<Rightarrow> pushBlockRegions countTokens config i (Some bi) t label | _ \<Rightarrow> []) \<and>
      (\<forall>r\<in>set (case bs ! bi of TextContent t \<Rightarrow> pushBlockRegions countTokens config i (Some bi) t label | _ \<Rightarrow> []).
         region_slot r = Some (i, Some bi))" if "bi < length bs" for bi
  proof (cases "bs ! bi")
    case (TextContent t)
    have "slot_read (es ! i) (Some bi) = Some t" using assms(3) [of "Some bi"] Blocks TextContent that by (simp add: content_get_def)
    from regions_of_push [OF assms(1,2) this] show ?thesis using TextContent push_spec(2) by fastforce
  qed simp
  then show ?thesis unfolding scanContentBlocks_def Blocks msg_content.case by (intro regions_of_concat) blast
qed

lemma regions_of_assistant:
  assumes "i < length es" "en_kind (es ! i) = Message (AssistantMessage a)"
  shows "regions_of es i (collectBlockRegions countTokens config i (es ! i))"
proof -
  let ?f = "\<lambda>bi. case am_content a ! bi of
    TextBlock t \<Rightarrow> pushBlockRegions countTokens config i (Some bi) t (js ''assistant'') | _ \<Rightarrow> []"
  have n: "getToolResultMessage (es ! i) = None" using assms(2) by (simp add: getToolResultMessage_def)
  have "regions_of es i (?f bi) \<and> (\<forall>r\<in>set (?f bi). region_slot r = Some (i, Some bi))" if "bi < length (am_content a)" for bi
  proof (cases "am_content a ! bi")
    case (TextBlock t)
    have "slot_read (es ! i) (Some bi) = Some t" using assms(2) TextBlock that by (simp add: slot_read_def)
    from regions_of_push [OF assms(1) n this] show ?thesis using TextBlock push_spec(2) by fastforce
  qed simp_all
  then have "regions_of es i (concat (map ?f [0..<length (am_content a)]))" by (intro regions_of_concat) blast
  then show ?thesis using assms(2) by (simp add: collectBlockRegions_def)
qed

lemma regions_of_entry:
  assumes "i < length es"
  shows "regions_of es i (entry_regions countTokens config es i)"
proof (cases "getToolResultMessage (es ! i)")
  case (Some r)
  then show ?thesis using assms
    by (simp add: entry_regions_def regions_of_def region_ok_def region_in_text_def)
next
  case None
  have "regions_of es i (collectBlockRegions countTokens config i (es ! i))"
  proof (cases "en_kind (es ! i)")
    case (Message m)
    show ?thesis
    proof (cases m)
      case (AssistantMessage a)
      then show ?thesis using regions_of_assistant [OF assms] Message by simp
    next
      case (UserMessage c)
      have "regions_of es i (scanContentBlocks countTokens config i c (js ''user''))"
        by (rule regions_of_content [OF assms None]) (simp add: slot_read_def Message UserMessage)
      then show ?thesis using Message UserMessage by (simp add: collectBlockRegions_def)
    next
      case (DeveloperMessage c)
      have "regions_of es i (scanContentBlocks countTokens config i c (js ''developer''))"
        by (rule regions_of_content [OF assms None]) (simp add: slot_read_def Message DeveloperMessage)
      then show ?thesis using Message DeveloperMessage by (simp add: collectBlockRegions_def)
    qed (use Message in \<open>simp_all add: collectBlockRegions_def\<close>)
  next
    case (CustomMessageEntry ty c)
    have "regions_of es i (scanContentBlocks countTokens config i c ty)"
      by (rule regions_of_content [OF assms None]) (simp add: slot_read_def CustomMessageEntry)
    then show ?thesis using CustomMessageEntry by (simp add: collectBlockRegions_def)
  qed (simp_all add: collectBlockRegions_def)
  then show ?thesis using None by (simp add: entry_regions_def)
qed

lemma collected_regions:
  "sorted_wrt in_order (collectShakeRegions countTokens es config)"
  "r \<in> set (collectShakeRegions countTokens es config) \<Longrightarrow> region_ok es r \<and> region_in_text es r \<and>
     sc_protectTokens config \<le> accumulatedAfter countTokens es (rg_entry r)"
proof -
  let ?all = "concat (map (entry_regions countTokens config es) [0..<length es])"
  have e: "regions_of es i (entry_regions countTokens config es i)" if "i < length es" for i using regions_of_entry that by blast
  have "sorted_wrt in_order ?all"
  proof (rule sorted_wrt_concat_map)
    show "\<forall>x\<in>set [0..<length es]. sorted_wrt in_order (entry_regions countTokens config es x)"
      using e by (simp add: regions_of_def)
    show "sorted_wrt (\<lambda>x y. \<forall>a\<in>set (entry_regions countTokens config es x). \<forall>b\<in>set (entry_regions countTokens config es y). in_order a b) [0..<length es]"
    proof (rule sorted_wrt_mono_rel)
      show "sorted_wrt (<) [0..<length es]" by simp
      fix x y assume xy: "x \<in> set [0..<length es]" "y \<in> set [0..<length es]" "x < y"
      have slot: "region_slot r = Some k \<Longrightarrow> fst k = rg_entry r" for r k by (cases r) auto
      show "\<forall>a\<in>set (entry_regions countTokens config es x). \<forall>b\<in>set (entry_regions countTokens config es y). in_order a b"
        using xy e [of x] e [of y] slot unfolding regions_of_def in_order_def by (metis atLeastLessThan_iff less_irrefl not_None_eq set_upt)
    qed
  qed
  then show "sorted_wrt in_order (collectShakeRegions countTokens es config)"
    by (simp add: collectShakeRegions_def Let_def)
  show "region_ok es r \<and> region_in_text es r \<and> sc_protectTokens config \<le> accumulatedAfter countTokens es (rg_entry r)"
    if r_in: "r \<in> set (collectShakeRegions countTokens es config)"
  proof -
    obtain i where i: "i < length es" "r \<in> set (entry_regions countTokens config es i)"
      using r_in by (auto simp: collectShakeRegions_def Let_def split: if_splits)
    then have "sc_protectTokens config \<le> accumulatedAfter countTokens es i"
      by (simp add: entry_regions_def split: if_splits)
    then show ?thesis using e [OF i(1)] i(2) by (auto simp: regions_of_def)
  qed
qed

section \<open>Entries\<close>

lemma apply_fields [simp]:
  "en_id (applyShakeRegion now es item ! i) = en_id (es ! i)"
  "en_parentId (applyShakeRegion now es item ! i) = en_parentId (es ! i)"
proof -
  have upd: "en_id (es[j := e] ! i) = en_id (es ! i) \<and> en_parentId (es[j := e] ! i) = en_parentId (es ! i)"
    if "en_id e = en_id (es ! j)" "en_parentId e = en_parentId (es ! j)" for j e
    using that by (cases "i = j"; cases "j < length es") (simp_all add: not_less list_update_beyond)
  obtain r v where item: "item = (r, v)" by (cases item)
  have "en_id (applyShakeRegion now es item ! i) = en_id (es ! i) \<and>
      en_parentId (applyShakeRegion now es item ! i) = en_parentId (es ! i)"
  proof (cases r)
    case (ToolResultShakeRegion j a b c)
    then show ?thesis unfolding item
      by (cases "getToolResultMessage (es ! j)") (simp_all add: applyShakeRegion_def upd)
  next
    case (BlockShakeRegion j bi a b c d e)
    then show ?thesis unfolding item
      by (cases "slot_read (es ! j) bi") (simp_all add: applyShakeRegion_def upd write_fields)
  qed
  then show "en_id (applyShakeRegion now es item ! i) = en_id (es ! i)"
    "en_parentId (applyShakeRegion now es item ! i) = en_parentId (es ! i)" by simp_all
qed

lemma apply_other: "rg_entry (fst item) \<noteq> i \<Longrightarrow> applyShakeRegion now es item ! i = es ! i"
  by (cases item) (auto simp: applyShakeRegion_def split: shake_region.splits option.splits)

lemma apply_all_fields:
  "length (foldl (applyShakeRegion now) es items) = length es \<and>
   en_id (foldl (applyShakeRegion now) es items ! i) = en_id (es ! i) \<and>
   en_parentId (foldl (applyShakeRegion now) es items ! i) = en_parentId (es ! i)"
  by (induction items arbitrary: es) simp_all

lemma apply_all_other:
  "\<forall>item\<in>set items. rg_entry (fst item) \<noteq> i \<Longrightarrow> foldl (applyShakeRegion now) es items ! i = es ! i"
  by (induction items arbitrary: es) (simp_all add: apply_other)

definition replace_result :: "nat \<Rightarrow> tool_result \<Rightarrow> jstring \<Rightarrow> tool_result" where
  "replace_result now r v = r\<lparr>tr_content := [TextContent v], tr_prunedAt := Some now\<rparr>"

definition result_hit :: "nat \<Rightarrow> shake_region \<times> jstring \<Rightarrow> bool" where
  "result_hit i item \<longleftrightarrow> region_slot (fst item) = None \<and> rg_entry (fst item) = i"

lemma apply_result:
  assumes "region_ok es (fst item)"
  shows "getToolResultMessage (applyShakeRegion now es item ! i) =
    (if result_hit i item then map_option (\<lambda>r. replace_result now r (snd item)) (getToolResultMessage (es ! i))
     else getToolResultMessage (es ! i))"
proof -
  obtain r v where item: "item = (r, v)" by (cases item)
  show ?thesis
  proof (cases r)
    case (ToolResultShakeRegion j a b c)
    then show ?thesis using assms item
      by (cases "i = j") (auto simp: applyShakeRegion_def region_ok_def result_hit_def replace_result_def
          getToolResultMessage_def split: option.splits)
  next
    case (BlockShakeRegion j bi a b c d e)
    then show ?thesis using assms item write_not_result
      by (cases "i = j") (auto simp: applyShakeRegion_def region_ok_def result_hit_def split: option.splits)
  qed
qed

lemma apply_all_result:
  assumes "\<forall>item\<in>set items. region_ok es (fst item)"
  shows "getToolResultMessage (foldl (applyShakeRegion now) es items ! i) =
    map_option (\<lambda>r. foldl (\<lambda>r item. replace_result now r (snd item)) r (filter (result_hit i) items)) (getToolResultMessage (es ! i))"
  using assms
proof (induction items arbitrary: es)
  case Nil
  then show ?case by (simp add: option.map_ident)
next
  case (Cons item items)
  have "\<forall>x\<in>set items. region_ok (applyShakeRegion now es item) (fst x)" using Cons.prems apply_region_ok by auto
  from Cons.IH [OF this] show ?case
    using apply_result [of es item now i] Cons.prems by (simp add: option.map_comp comp_def)
qed

text \<open>There is one region per tool result.\<close>

definition one_result :: "shake_region \<Rightarrow> shake_region \<Rightarrow> bool" where
  "one_result r q \<longleftrightarrow> (region_slot r = None \<and> region_slot q = None \<longrightarrow> rg_entry r < rg_entry q)"

lemma entry_one_result:
  assumes "i < length es"
  shows "sorted_wrt one_result (entry_regions countTokens config es i)"
proof (cases "getToolResultMessage (es ! i)")
  case (Some r)
  then show ?thesis by (simp add: entry_regions_def)
next
  case None
  have r: "\<forall>r\<in>set (entry_regions countTokens config es i). region_slot r \<noteq> None"
    using regions_of_entry [OF assms, of countTokens config] None
    by (force simp: regions_of_def region_ok_def split: option.splits)
  have "sorted_wrt (\<lambda>_ _. True) xs" for xs :: "shake_region list" by (induction xs) simp_all
  then show ?thesis by (rule sorted_wrt_mono_rel [rotated]) (use r in \<open>auto simp: one_result_def\<close>)
qed

lemma collected_one_result: "sorted_wrt one_result (collectShakeRegions countTokens es config)"
proof -
  have "sorted_wrt one_result (concat (map (entry_regions countTokens config es) [0..<length es]))"
  proof (rule sorted_wrt_concat_map)
    show "\<forall>i\<in>set [0..<length es]. sorted_wrt one_result (entry_regions countTokens config es i)"
      using entry_one_result by simp
    show "sorted_wrt (\<lambda>x y. \<forall>a\<in>set (entry_regions countTokens config es x). \<forall>b\<in>set (entry_regions countTokens config es y). one_result a b) [0..<length es]"
    proof (rule sorted_wrt_mono_rel)
      show "sorted_wrt (<) [0..<length es]" by simp
      fix x y assume xy: "x \<in> set [0..<length es]" "y \<in> set [0..<length es]" "x < y"
      then have "rg_entry a = x" "rg_entry b = y"
        if "a \<in> set (entry_regions countTokens config es x)" "b \<in> set (entry_regions countTokens config es y)" for a b
        using that regions_of_entry [of x es countTokens config] regions_of_entry [of y es countTokens config] xy(1,2)
        unfolding regions_of_def by simp_all
      then show "\<forall>a\<in>set (entry_regions countTokens config es x). \<forall>b\<in>set (entry_regions countTokens config es y). one_result a b"
        using xy(3) by (simp add: one_result_def)
    qed
  qed
  then show ?thesis by (simp add: collectShakeRegions_def Let_def)
qed

lemma single_hit:
  assumes "sorted_wrt one_result (map fst items)" "(r, v) \<in> set items" "result_hit i (r, v)"
  shows "filter (result_hit i) items = [(r, v)]"
  using assms
proof (induction items)
  case (Cons x xs)
  have first: "\<not> result_hit i y" if "result_hit i x" "y \<in> set xs" for y
    using Cons.prems(1) that by (auto simp: one_result_def result_hit_def)
  show ?case
  proof (cases "result_hit i x")
    case True
    then have "filter (result_hit i) xs = []" using first by (simp add: filter_empty_conv)
    moreover have "x = (r, v)" using first [OF True] Cons.prems(2,3) by auto
    ultimately show ?thesis using True by simp
  next
    case False
    then show ?thesis using Cons by auto
  qed
qed simp

lemma collected_entry:
  assumes "r \<in> set (collectShakeRegions countTokens es config)"
  shows "r \<in> set (entry_regions countTokens config es (rg_entry r))"
proof -
  obtain j where "j < length es" "r \<in> set (entry_regions countTokens config es j)"
    using assms by (auto simp: collectShakeRegions_def Let_def split: if_splits)
  then show ?thesis using regions_of_entry [of j es countTokens config] by (auto simp: regions_of_def)
qed

text \<open>An entry that must stay: among the most recent tokens, or a protected or pruned tool result.\<close>

definition shielded :: "(jstring list \<Rightarrow> nat) \<Rightarrow> entry list \<Rightarrow> shake_config \<Rightarrow> nat \<Rightarrow> bool" where
  "shielded countTokens es config i \<longleftrightarrow>
     accumulatedAfter countTokens es i < sc_protectTokens config \<or>
     (\<exists>r. getToolResultMessage (es ! i) = Some r \<and> (tr_prunedAt r \<noteq> None \<or>
        isProtectedToolResult r (map_get (collectToolCallsById es) (tr_toolCallId r)) (sc_protectedTools config)))"

lemma shielded_regions: "shielded countTokens es config i \<Longrightarrow> entry_regions countTokens config es i = []"
  by (auto simp: shielded_def entry_regions_def)

section \<open>Properties\<close>

text \<open>
  The blocks that are located in a text are separated, in order, begin at the start of a line and
  end at the end of one, and cover every fenced or XML block that the scan closed, so that dropping
  the inner blocks drops nothing that is not inside a kept one.
\<close>

theorem located_blocks:
  "sorted_wrt (\<lambda>r q. snd r \<le> fst q) (scanTextForBlockRanges t) \<and>
   (\<forall>r\<in>set (scanTextForBlockRanges t).
      fst r < snd r \<and> snd r \<le> length t \<and> line_start t (fst r) \<and> line_end t (snd r)) \<and>
   (\<forall>q\<in>set (bs_ranges (scan_lines no_blocks 0 (split_on LF t))).
      \<exists>p\<in>set (scanTextForBlockRanges t). fst p \<le> fst q \<and> snd q \<le> snd p)"
proof (intro conjI ballI)
  show "sorted_wrt (\<lambda>r q. snd r \<le> fst q) (scanTextForBlockRanges t)"
    using scan_ranges_spec(1) by (simp add: ranges_apart_def)
  show "fst r < snd r" "snd r \<le> length t" "line_start t (fst r)" "line_end t (snd r)"
    if r: "r \<in> set (scanTextForBlockRanges t)" for r
    using scan_ranges_spec(1) [of t] scan_ranges_spec(2) [OF r] r by (simp_all add: ranges_apart_def)
  show "\<exists>p\<in>set (scanTextForBlockRanges t). fst p \<le> fst q \<and> snd q \<le> snd p"
    if "q \<in> set (bs_ranges (scan_lines no_blocks 0 (split_on LF t)))" for q
    using that by (rule scan_ranges_spec(3))
qed

text \<open>
  C24: shaking replaces exactly the located regions.  In every entry that is no tool result, each text
  is the old one with every region of that text replaced by its placeholder and all else copied,
  however many regions share the text; a located tool result gets its placeholder and keeps its
  call, name and error flag; entries among the protected tokens and protected or pruned tool results
  stay as they are, and so do all ids and parents.
\<close>

theorem shake_replaces_regions:
  assumes "map fst items = collectShakeRegions countTokens es config"
  shows "length (applyShakeRegions now es items) = length es \<and>
    (i < length es \<longrightarrow> en_id (applyShakeRegions now es items ! i) = en_id (es ! i) \<and>
      en_parentId (applyShakeRegions now es items ! i) = en_parentId (es ! i)) \<and>
    (i < length es \<longrightarrow> getToolResultMessage (es ! i) = None \<longrightarrow>
      slot_read (applyShakeRegions now es items ! i) bi =
        map_option (\<lambda>t. fill_ranges t 0 (map item_range (filter (hits (i, bi)) items))) (slot_read (es ! i) bi)) \<and>
    ((ToolResultShakeRegion i tokens original label, v) \<in> set items \<longrightarrow>
      (\<exists>r. getToolResultMessage (es ! i) = Some r \<and>
        getToolResultMessage (applyShakeRegions now es items ! i) = Some (r\<lparr>tr_content := [TextContent v], tr_prunedAt := Some now\<rparr>))) \<and>
    (i < length es \<longrightarrow> shielded countTokens es config i \<longrightarrow> applyShakeRegions now es items ! i = es ! i)"
proof (intro conjI impI)
  have ok: "region_ok es (fst item) \<and> region_in_text es (fst item)" if "item \<in> set items" for item
  proof -
    have "fst item \<in> set (collectShakeRegions countTokens es config)" using that assms by (metis image_eqI set_map)
    then show ?thesis using collected_regions(2) by blast
  qed
  have order: "sorted_wrt in_order (map fst items)" "sorted_wrt one_result (map fst items)"
    unfolding assms using collected_regions(1) collected_one_result by blast+
  show len: "length (applyShakeRegions now es items) = length es"
    using apply_all_fields by (simp add: applyShakeRegions_def)
  show "en_id (applyShakeRegions now es items ! i) = en_id (es ! i)"
    "en_parentId (applyShakeRegions now es items ! i) = en_parentId (es ! i)"
    using apply_all_fields by (simp_all add: applyShakeRegions_def)
  show "slot_read (applyShakeRegions now es items ! i) bi =
      map_option (\<lambda>t. fill_ranges t 0 (map item_range (filter (hits (i, bi)) items))) (slot_read (es ! i) bi)"
    if "i < length es" "getToolResultMessage (es ! i) = None"
    using apply_fills [of items es "(i, bi)" now] ok order(1) that len by (simp add: text_at_def)
  show "\<exists>r. getToolResultMessage (es ! i) = Some r \<and>
      getToolResultMessage (applyShakeRegions now es items ! i) = Some (r\<lparr>tr_content := [TextContent v], tr_prunedAt := Some now\<rparr>)"
    if hit: "(ToolResultShakeRegion i tokens original label, v) \<in> set items"
  proof -
    let ?it = "(ToolResultShakeRegion i tokens original label, v)"
    have "filter (result_hit i) items = [?it]" by (rule single_hit [OF order(2) hit]) (simp add: result_hit_def)
    then have f: "filter (result_hit i) (sort_key shake_key items) = [?it]" by (simp add: filter_sort)
    have "\<forall>item\<in>set (sort_key shake_key items). region_ok es (fst item)" using ok by simp
    from apply_all_result [OF this] f
    have "getToolResultMessage (applyShakeRegions now es items ! i) = map_option (\<lambda>r. replace_result now r v) (getToolResultMessage (es ! i))"
      by (simp add: applyShakeRegions_def)
    moreover have "getToolResultMessage (es ! i) \<noteq> None" using ok [OF hit] by (simp add: region_ok_def)
    ultimately show ?thesis by (auto simp: replace_result_def)
  qed
  show "applyShakeRegions now es items ! i = es ! i" if "shielded countTokens es config i"
  proof -
    have "rg_entry (fst item) \<noteq> i" if it: "item \<in> set items" for item
    proof
      assume "rg_entry (fst item) = i"
      moreover have "fst item \<in> set (collectShakeRegions countTokens es config)" using it assms by (metis image_eqI set_map)
      ultimately have "fst item \<in> set (entry_regions countTokens config es i)" using collected_entry by blast
      then show False using shielded_regions [OF \<open>shielded countTokens es config i\<close>] by simp
    qed
    then show ?thesis unfolding applyShakeRegions_def by (intro apply_all_other) simp
  qed
qed

text \<open>A question with two fenced blocks around a line, and an answer.\<close>

definition fence :: "string \<Rightarrow> jstring" where
  "fence body = js ''```'' @ [LF] @ js body @ [LF] @ js ''```''"

definition fenced_question :: "entry list" where
  "fenced_question = [message_entry ''a'' None (UserMessage (Blocks [TextContent (fence ''one'' @ [LF] @ js ''and'' @ [LF] @ fence ''two'')])),
     message_entry ''b'' (Some ''a'') (calling [''1'']), message_entry ''c'' (Some ''b'') (result_of_call ''1'')]"

definition eager_config :: shake_config where
  "eager_config = \<lparr>sc_protectTokens = 0, sc_minSavings = 0, sc_protectedTools = [ToolName (js ''skill'')], sc_fenceMinTokens = 1\<rparr>"

theorem located_blocks_witness:
  "scanTextForBlockRanges (fence ''one'' @ [LF] @ fence ''two'') = [(0, 11), (12, 23)] \<and>
   line_start (fence ''one'' @ [LF] @ fence ''two'') 12"
proof -
  have v: "scanTextForBlockRanges (fence ''one'' @ [LF] @ fence ''two'') = [(0, 11), (12, 23)]" by code_simp
  have "(12, 23) \<in> set (scanTextForBlockRanges (fence ''one'' @ [LF] @ fence ''two''))" unfolding v by simp
  with located_blocks [THEN conjunct2, THEN conjunct1] show ?thesis using v by fastforce
qed

theorem shake_replaces_regions_witness:
  "\<exists>items. map fst items = collectShakeRegions unit_tokens fenced_question eager_config \<and>
    slot_read (applyShakeRegions 7 fenced_question items ! 0) (Some 0) =
      Some (js ''[1]'' @ [LF] @ js ''and'' @ [LF] @ js ''[2]'') \<and> length items = 3"
proof -
  let ?rs = "collectShakeRegions unit_tokens fenced_question eager_config"
  let ?items = "zip ?rs [js ''[1]'', js ''[2]'', js ''[3]'']"
  have len: "length ?rs = 3" by code_simp
  then have m: "map fst ?items = ?rs" by simp
  have n: "getToolResultMessage (fenced_question ! 0) = None" "0 < length fenced_question" by code_simp+
  have "map_option (\<lambda>t. fill_ranges t 0 (map item_range (filter (hits (0, Some 0)) ?items))) (slot_read (fenced_question ! 0) (Some 0)) =
      Some (js ''[1]'' @ [LF] @ js ''and'' @ [LF] @ js ''[2]'')" by code_simp
  then have "slot_read (applyShakeRegions 7 fenced_question ?items ! 0) (Some 0) = Some (js ''[1]'' @ [LF] @ js ''and'' @ [LF] @ js ''[2]'')"
    using shake_replaces_regions [OF m, of 7 0 "Some 0"] n by simp
  then show ?thesis using m len by (intro exI [of _ ?items]) simp
qed

end
