(* ===== verification/Ring_Buffer.thy ===== *)
theory Ring_Buffer
  imports Prelude
begin

text \<open>
  The circular buffer of \<open>packages/utils/src/ring.ts\<close>, and the bounded queue with two ends that
  it implements.  An empty place of the array is \<open>None\<close>; the capacity is positive, as the
  constructor asks.
\<close>

section \<open>The buffer\<close>

record 'a ring =
  rb_buf :: "'a option list"
  rb_head :: nat
  rb_size :: nat
  rb_capacity :: nat

definition ring_new :: "nat \<Rightarrow> 'a ring" where
  "ring_new capacity = \<lparr>rb_buf = replicate capacity None, rb_head = 0, rb_size = 0, rb_capacity = capacity\<rparr>"

definition ring_length :: "'a ring \<Rightarrow> nat" where "ring_length b = rb_size b"

definition isFull :: "'a ring \<Rightarrow> bool" where "isFull b \<longleftrightarrow> rb_size b = rb_capacity b"

definition isEmpty :: "'a ring \<Rightarrow> bool" where "isEmpty b \<longleftrightarrow> rb_size b = 0"

definition ring_push :: "'a ring \<Rightarrow> 'a \<Rightarrow> 'a option \<times> 'a ring" where
  "ring_push b item =
     (let idx = (rb_head b + rb_size b) mod rb_capacity b;
          overwritten = (if rb_size b = rb_capacity b then rb_buf b ! idx else None);
          b1 = b\<lparr>rb_buf := (rb_buf b)[idx := Some item]\<rparr>
      in (overwritten,
          if rb_size b = rb_capacity b then b1\<lparr>rb_head := (rb_head b + 1) mod rb_capacity b\<rparr>
          else b1\<lparr>rb_size := rb_size b + 1\<rparr>))"

definition ring_shift :: "'a ring \<Rightarrow> 'a option \<times> 'a ring" where
  "ring_shift b =
     (if rb_size b = 0 then (None, b)
      else (rb_buf b ! rb_head b,
        b\<lparr>rb_buf := (rb_buf b)[rb_head b := None], rb_head := (rb_head b + 1) mod rb_capacity b,
          rb_size := rb_size b - 1\<rparr>))"

definition ring_pop :: "'a ring \<Rightarrow> 'a option \<times> 'a ring" where
  "ring_pop b =
     (if rb_size b = 0 then (None, b)
      else let idx = (rb_head b + rb_size b - 1) mod rb_capacity b
        in (rb_buf b ! idx, b\<lparr>rb_buf := (rb_buf b)[idx := None], rb_size := rb_size b - 1\<rparr>))"

text \<open>\<open>(head - 1 + capacity) % capacity\<close> is computed without going below zero.\<close>

definition ring_unshift :: "'a ring \<Rightarrow> 'a \<Rightarrow> 'a option \<times> 'a ring" where
  "ring_unshift b item =
     (let head = (rb_head b + rb_capacity b - 1) mod rb_capacity b;
          overwritten = (if rb_size b = rb_capacity b then rb_buf b ! head else None)
      in (overwritten,
          b\<lparr>rb_head := head, rb_buf := (rb_buf b)[head := Some item],
            rb_size := (if rb_size b < rb_capacity b then rb_size b + 1 else rb_size b)\<rparr>))"

definition ring_at :: "'a ring \<Rightarrow> int \<Rightarrow> 'a option" where
  "ring_at b index =
     (let index = (if index < 0 then index + int (rb_size b) else index)
      in if index < 0 \<or> index \<ge> int (rb_size b) then None
         else rb_buf b ! ((rb_head b + nat index) mod rb_capacity b))"

definition ring_peek :: "'a ring \<Rightarrow> 'a option" where "ring_peek b = ring_at b 0"

definition ring_peekBack :: "'a ring \<Rightarrow> 'a option" where "ring_peekBack b = ring_at b (int (rb_size b) - 1)"

definition ring_clear :: "'a ring \<Rightarrow> 'a ring" where
  "ring_clear b = b\<lparr>rb_buf := replicate (rb_capacity b) None, rb_head := 0, rb_size := 0\<rparr>"

definition ring_iterator :: "'a ring \<Rightarrow> 'a option list" where
  "ring_iterator b = map (\<lambda>i. rb_buf b ! ((rb_head b + i) mod rb_capacity b)) [0..<rb_size b]"

definition ring_toArray :: "'a ring \<Rightarrow> 'a option list" where
  "ring_toArray b =
     (if rb_head b + rb_size b \<le> rb_capacity b then slice (rb_buf b) (rb_head b) (rb_head b + rb_size b)
      else slice (rb_buf b) (rb_head b) (rb_capacity b) @
        slice (rb_buf b) 0 ((rb_head b + rb_size b) mod rb_capacity b))"

section \<open>A bounded queue with two ends\<close>

text \<open>
  The contract: a sequence of at most \<open>cap\<close> items; adding to a full one drops the item at the
  other end and answers it.
\<close>

locale bounded_deque =
  fixes ok :: "'b \<Rightarrow> bool"
    and items :: "'b \<Rightarrow> 'a list"
    and cap :: "'b \<Rightarrow> nat"
    and empty :: "nat \<Rightarrow> 'b"
    and push :: "'b \<Rightarrow> 'a \<Rightarrow> 'a option \<times> 'b"
    and shift :: "'b \<Rightarrow> 'a option \<times> 'b"
    and pop :: "'b \<Rightarrow> 'a option \<times> 'b"
    and unshift :: "'b \<Rightarrow> 'a \<Rightarrow> 'a option \<times> 'b"
  assumes bound: "ok b \<Longrightarrow> 0 < cap b \<and> length (items b) \<le> cap b"
    and empty_law: "0 < n \<Longrightarrow> ok (empty n) \<and> items (empty n) = [] \<and> cap (empty n) = n"
    and push_law: "ok b \<Longrightarrow> push b x = (v, b') \<Longrightarrow> ok b' \<and> cap b' = cap b \<and>
      (if length (items b) = cap b then v = Some (hd (items b)) \<and> items b' = tl (items b) @ [x]
       else v = None \<and> items b' = items b @ [x])"
    and shift_law: "ok b \<Longrightarrow> shift b = (v, b') \<Longrightarrow> ok b' \<and> cap b' = cap b \<and> items b' = tl (items b) \<and>
      v = (if items b = [] then None else Some (hd (items b)))"
    and pop_law: "ok b \<Longrightarrow> pop b = (v, b') \<Longrightarrow> ok b' \<and> cap b' = cap b \<and> items b' = butlast (items b) \<and>
      v = (if items b = [] then None else Some (last (items b)))"
    and unshift_law: "ok b \<Longrightarrow> unshift b x = (v, b') \<Longrightarrow> ok b' \<and> cap b' = cap b \<and>
      (if length (items b) = cap b then v = Some (last (items b)) \<and> items b' = x # butlast (items b)
       else v = None \<and> items b' = x # items b)"
begin

text \<open>Pushing a list: the items that fit are the last ones, and the dropped ones come out in order.\<close>

fun push_all :: "'b \<Rightarrow> 'a list \<Rightarrow> 'a list \<times> 'b" where
  "push_all b [] = ([], b)"
| "push_all b (x # xs) =
     (case push b x of (v, b') \<Rightarrow> case push_all b' xs of (vs, b'') \<Rightarrow>
        ((case v of Some y \<Rightarrow> y # vs | None \<Rightarrow> vs), b''))"

lemma push_all_window:
  "ok b \<Longrightarrow> push_all b xs = (dropped, b') \<Longrightarrow>
   ok b' \<and> cap b' = cap b \<and> dropped @ items b' = items b @ xs \<and>
   length (items b') = min (cap b) (length (items b) + length xs)"
proof (induction xs arbitrary: b dropped b')
  case Nil
  then show ?case using bound [of b] by auto
next
  case (Cons x xs)
  obtain v b1 where p: "push b x = (v, b1)" by (cases "push b x")
  obtain vs b2 where q: "push_all b1 xs = (vs, b2)" by (cases "push_all b1 xs")
  note l = push_law [OF Cons.prems(1) p]
  have r: "dropped = (case v of Some y \<Rightarrow> y # vs | None \<Rightarrow> vs)" "b' = b2" using Cons.prems(2) p q by auto
  have ih: "ok b2 \<and> cap b2 = cap b1 \<and> vs @ items b2 = items b1 @ xs \<and> length (items b2) = min (cap b1) (length (items b1) + length xs)"
    by (rule Cons.IH [OF _ q]) (use l in blast)
  show ?case
  proof (cases "length (items b) = cap b")
    case True
    then have "items b \<noteq> []" using bound [OF Cons.prems(1)] by auto
    then obtain y ys where y: "items b = y # ys" by (cases "items b") auto
    then show ?thesis using l ih r True by auto
  next
    case False
    then show ?thesis using l ih r bound [OF Cons.prems(1)] by auto
  qed
qed

lemma push_all_last:
  assumes "ok b" "push_all b xs = (dropped, b')"
  shows "items b' = drop (length dropped) (items b @ xs)" "length dropped = length (items b) + length xs - cap b"
proof -
  note w = push_all_window [OF assms]
  have "length dropped + length (items b') = length (items b) + length xs" using w by (metis length_append)
  then show "length dropped = length (items b) + length xs - cap b" using w by simp
  show "items b' = drop (length dropped) (items b @ xs)" using w by (metis append_eq_conv_conj)
qed

lemma push_all_foldl: "snd (push_all b xs) = foldl (\<lambda>b x. snd (push b x)) b xs"
proof (induction xs arbitrary: b)
  case (Cons x xs)
  then show ?case by (simp add: split_beta)
qed simp

text \<open>Only the last items survive in a fresh queue.\<close>

lemma fresh_window:
  assumes "0 < n"
  shows "ok (foldl (\<lambda>b x. snd (push b x)) (empty n) xs)"
    "items (foldl (\<lambda>b x. snd (push b x)) (empty n) xs) = drop (length xs - n) xs"
proof -
  obtain ds b where p: "push_all (empty n) xs = (ds, b)" by (cases "push_all (empty n) xs")
  note e = empty_law [OF assms]
  have b: "foldl (\<lambda>b x. snd (push b x)) (empty n) xs = b" using push_all_foldl [of "empty n" xs] p by simp
  show "ok (foldl (\<lambda>b x. snd (push b x)) (empty n) xs)" unfolding b using push_all_window [OF _ p] e by blast
  show "items (foldl (\<lambda>b x. snd (push b x)) (empty n) xs) = drop (length xs - n) xs"
    unfolding b using push_all_last [OF _ p] e by simp
qed

text \<open>Two inverse pairs, where there is room.\<close>

lemma pop_push: "ok b \<Longrightarrow> length (items b) < cap b \<Longrightarrow> push b x = (v, b1) \<Longrightarrow> pop b1 = (w, b2) \<Longrightarrow> w = Some x \<and> items b2 = items b"
  using push_law [of b x v b1] pop_law [of b1 w b2] by auto

lemma shift_unshift:
  "ok b \<Longrightarrow> length (items b) < cap b \<Longrightarrow> unshift b x = (v, b1) \<Longrightarrow> shift b1 = (w, b2) \<Longrightarrow> w = Some x \<and> items b2 = items b"
  using unshift_law [of b x v b1] shift_law [of b1 w b2] by auto

end

section \<open>The buffer implements it\<close>

definition ring_ok :: "'a ring \<Rightarrow> bool" where
  "ring_ok b \<longleftrightarrow> 0 < rb_capacity b \<and> length (rb_buf b) = rb_capacity b \<and> rb_head b < rb_capacity b \<and>
     rb_size b \<le> rb_capacity b \<and> None \<notin> set (ring_iterator b)"

definition ring_items :: "'a ring \<Rightarrow> 'a list" where
  "ring_items b = map the (ring_iterator b)"

lemma ring_length_items [simp]: "length (ring_items b) = rb_size b"
  by (simp add: ring_items_def ring_iterator_def)

lemma ring_nth: "i < rb_size b \<Longrightarrow> ring_ok b \<Longrightarrow>
    rb_buf b ! ((rb_head b + i) mod rb_capacity b) = Some (ring_items b ! i)"
  by (auto simp: ring_ok_def ring_items_def ring_iterator_def image_iff)
    (metis atLeast0LessThan lessThan_iff not_None_eq option.sel)

lemma iterator_items: "ring_ok b \<Longrightarrow> ring_iterator b = map Some (ring_items b)"
  by (rule nth_equalityI) (auto simp: ring_iterator_def ring_nth)

text \<open>A buffer is described by its items.\<close>

lemma ring_intro:
  assumes "0 < rb_capacity b" "length (rb_buf b) = rb_capacity b" "rb_head b < rb_capacity b"
    "rb_size b = length xs" "length xs \<le> rb_capacity b"
    "\<And>i. i < length xs \<Longrightarrow> rb_buf b ! ((rb_head b + i) mod rb_capacity b) = Some (xs ! i)"
  shows "ring_ok b \<and> ring_items b = xs"
proof -
  have "ring_iterator b = map Some xs" using assms(4,6) by (intro nth_equalityI) (simp_all add: ring_iterator_def)
  then show ?thesis using assms by (auto simp: ring_ok_def ring_items_def comp_def)
qed

text \<open>Positions of different offsets are different.\<close>

lemma ring_pos_less: "i < j \<Longrightarrow> j < c \<Longrightarrow> (h + i) mod c \<noteq> (h + j) mod c" for c :: nat
proof
  assume "i < j" "j < c" "(h + i) mod c = (h + j) mod c"
  then have "c dvd (h + j) - (h + i)" using mod_eq_dvd_iff_nat [of "h + i" "h + j" c] by simp
  then have "c \<le> j - i" using \<open>i < j\<close> by (auto dest: dvd_imp_le)
  then show False using \<open>j < c\<close> by simp
qed

lemma ring_pos_inj: "i < c \<Longrightarrow> j < c \<Longrightarrow> (h + i) mod c = (h + j) mod c \<longleftrightarrow> i = j" for c :: nat
  using ring_pos_less [of i j c h] ring_pos_less [of j i c h] by (cases i j rule: linorder_cases) auto

lemma ring_new_ok: "0 < n \<Longrightarrow> ring_ok (ring_new n) \<and> ring_items (ring_new n) = [] \<and> rb_capacity (ring_new n) = n"
  by (simp add: ring_new_def ring_ok_def ring_items_def ring_iterator_def)

lemma ring_parts:
  assumes "ring_ok b"
  shows "0 < rb_capacity b" "length (rb_buf b) = rb_capacity b" "rb_head b < rb_capacity b" "rb_size b \<le> rb_capacity b"
  using assms by (simp_all add: ring_ok_def)

lemma next_mod: "h < c \<Longrightarrow> ((h + 1) mod c + i) mod c = (h + Suc i) mod c" for c :: nat
  by (metis add.assoc add.commute mod_add_left_eq plus_1_eq_Suc)

lemma ring_push_spec:
  assumes ok: "ring_ok b" and p: "ring_push b x = (v, b')"
  shows "ring_ok b' \<and> rb_capacity b' = rb_capacity b \<and>
    (if rb_size b = rb_capacity b then v = Some (hd (ring_items b)) \<and> ring_items b' = tl (ring_items b) @ [x]
     else v = None \<and> ring_items b' = ring_items b @ [x])"
proof -
  note r = ring_parts [OF ok]
  let ?idx = "(rb_head b + rb_size b) mod rb_capacity b"
  have idx: "?idx < rb_capacity b" using r(1) by simp
  show ?thesis
  proof (cases "rb_size b = rb_capacity b")
    case True
    then have i0: "?idx = rb_head b" using r(3) by simp
    have b': "b' = b\<lparr>rb_buf := (rb_buf b)[rb_head b := Some x], rb_head := (rb_head b + 1) mod rb_capacity b\<rparr>"
      and v: "v = rb_buf b ! rb_head b" using p True i0 by (auto simp: ring_push_def Let_def)
    have "ring_items b \<noteq> []" using True r(1) by (metis less_irrefl list.size(3) ring_length_items)
    moreover have "v = Some (ring_items b ! 0)" using v ring_nth [of 0 b] ok True r(1,3) by simp
    ultimately have v': "v = Some (hd (ring_items b))" by (simp add: hd_conv_nth)
    have "ring_ok b' \<and> ring_items b' = tl (ring_items b) @ [x]"
    proof (rule ring_intro)
      fix i assume i: "i < length (tl (ring_items b) @ [x])"
      then have i': "i < rb_capacity b" using True r(1) by simp
      show "rb_buf b' ! ((rb_head b' + i) mod rb_capacity b') = Some ((tl (ring_items b) @ [x]) ! i)"
      proof (cases "Suc i = rb_capacity b")
        case last: True
        then have "((rb_head b + 1) mod rb_capacity b + i) mod rb_capacity b = rb_head b"
          using next_mod [OF r(3), of i] r(3) by simp
        moreover have "length (tl (ring_items b)) = i" using last True by simp
        ultimately show ?thesis using r by (simp add: b' nth_append)
      next
        case False
        then have s: "Suc i < rb_capacity b" "i < length (tl (ring_items b))" using i' True by simp_all
        have "(rb_head b + Suc i) mod rb_capacity b \<noteq> rb_head b"
          using ring_pos_inj [of "Suc i" "rb_capacity b" 0 "rb_head b"] s r by simp
        then show ?thesis using next_mod [OF r(3), of i] ring_nth [of "Suc i" b] ok True s(1) nth_append_left [OF s(2), of "[x]"] nth_tl [OF s(2)]
          by (simp add: b')
      qed
    qed (use b' r True in \<open>simp_all add: Suc_diff_le Suc_leI\<close>)
    then show ?thesis using v' True b' by simp
  next
    case False
    then have b': "b' = b\<lparr>rb_buf := (rb_buf b)[?idx := Some x], rb_size := rb_size b + 1\<rparr>" and v: "v = None"
      using p by (auto simp: ring_push_def Let_def)
    have "ring_ok b' \<and> ring_items b' = ring_items b @ [x]"
    proof (rule ring_intro)
      fix i assume i: "i < length (ring_items b @ [x])"
      show "rb_buf b' ! ((rb_head b' + i) mod rb_capacity b') = Some ((ring_items b @ [x]) ! i)"
      proof (cases "i = rb_size b")
        case True
        then show ?thesis using idx r by (simp add: b' nth_append)
      next
        case i_old: False
        then have i': "i < rb_size b" using i by simp
        have "(rb_head b + i) mod rb_capacity b \<noteq> ?idx"
          using ring_pos_inj [of i "rb_capacity b" "rb_size b" "rb_head b"] i' False r(4) by simp
        then show ?thesis using i' ring_nth [OF i' ok] by (simp add: b' nth_append)
      qed
    qed (use b' r False in simp_all)
    then show ?thesis using v False b' by simp
  qed
qed

lemma ring_shift_spec:
  assumes ok: "ring_ok b" and p: "ring_shift b = (v, b')"
  shows "ring_ok b' \<and> rb_capacity b' = rb_capacity b \<and> ring_items b' = tl (ring_items b) \<and>
    v = (if ring_items b = [] then None else Some (hd (ring_items b)))"
proof -
  note r = ring_parts [OF ok]
  show ?thesis
  proof (cases "rb_size b = 0")
    case True
    then have "ring_items b = []" by (metis length_0_conv ring_length_items)
    then show ?thesis using True p ok by (simp add: ring_shift_def)
  next
    case False
    then have ne: "ring_items b \<noteq> []" by (metis list.size(3) ring_length_items)
    have b': "b' = b\<lparr>rb_buf := (rb_buf b)[rb_head b := None], rb_head := (rb_head b + 1) mod rb_capacity b, rb_size := rb_size b - 1\<rparr>"
      and v: "v = rb_buf b ! rb_head b" using p False by (auto simp: ring_shift_def)
    have v': "v = Some (hd (ring_items b))" using v ring_nth [of 0 b] ok False r(3) ne by (simp add: hd_conv_nth)
    have "ring_ok b' \<and> ring_items b' = tl (ring_items b)"
    proof (rule ring_intro)
      fix i assume i: "i < length (tl (ring_items b))"
      then have s: "Suc i < rb_size b" "Suc i < rb_capacity b" using r(4) by simp_all
      have "(rb_head b + Suc i) mod rb_capacity b \<noteq> rb_head b"
        using ring_pos_inj [of "Suc i" "rb_capacity b" 0 "rb_head b"] s r by simp
      then show "rb_buf b' ! ((rb_head b' + i) mod rb_capacity b') = Some (tl (ring_items b) ! i)"
        using next_mod [OF r(3), of i] ring_nth [OF s(1) ok] i by (simp add: b' nth_tl)
    qed (use b' r in simp_all)
    then show ?thesis using v' b' ne by simp
  qed
qed

lemma ring_pop_spec:
  assumes ok: "ring_ok b" and p: "ring_pop b = (v, b')"
  shows "ring_ok b' \<and> rb_capacity b' = rb_capacity b \<and> ring_items b' = butlast (ring_items b) \<and>
    v = (if ring_items b = [] then None else Some (last (ring_items b)))"
proof -
  note r = ring_parts [OF ok]
  show ?thesis
  proof (cases "rb_size b = 0")
    case True
    then have "ring_items b = []" by (metis length_0_conv ring_length_items)
    then show ?thesis using True p ok by (simp add: ring_pop_def)
  next
    case False
    then have ne: "ring_items b \<noteq> []" by (metis list.size(3) ring_length_items)
    let ?idx = "(rb_head b + (rb_size b - 1)) mod rb_capacity b"
    have b': "b' = b\<lparr>rb_buf := (rb_buf b)[?idx := None], rb_size := rb_size b - 1\<rparr>" and v: "v = rb_buf b ! ?idx"
      using p False by (auto simp: ring_pop_def Let_def)
    have v': "v = Some (last (ring_items b))" using v ring_nth [of "rb_size b - 1" b] ok False ne by (simp add: last_conv_nth)
    have "ring_ok b' \<and> ring_items b' = butlast (ring_items b)"
    proof (rule ring_intro)
      fix i assume i: "i < length (butlast (ring_items b))"
      then have s: "i < rb_size b - 1" by simp
      have "(rb_head b + i) mod rb_capacity b \<noteq> ?idx"
        using ring_pos_inj [of i "rb_capacity b" "rb_size b - 1" "rb_head b"] s r(4) by simp
      then show "rb_buf b' ! ((rb_head b' + i) mod rb_capacity b') = Some (butlast (ring_items b) ! i)"
        using ring_nth [of i b] ok s i by (simp add: b' nth_butlast)
    qed (use b' r in simp_all)
    then show ?thesis using v' b' ne by simp
  qed
qed

lemma prev_mod: "h < c \<Longrightarrow> ((h + c - 1) mod c + Suc i) mod c = (h + i) mod c" for c :: nat
proof -
  assume "h < c"
  then have "(h + c - 1) + Suc i = h + i + c" by simp
  then show ?thesis by (metis mod_add_left_eq mod_add_self2)
qed

lemma ring_unshift_spec:
  assumes ok: "ring_ok b" and p: "ring_unshift b x = (v, b')"
  shows "ring_ok b' \<and> rb_capacity b' = rb_capacity b \<and>
    (if rb_size b = rb_capacity b then v = Some (last (ring_items b)) \<and> ring_items b' = x # butlast (ring_items b)
     else v = None \<and> ring_items b' = x # ring_items b)"
proof -
  note r = ring_parts [OF ok]
  let ?h = "(rb_head b + rb_capacity b - 1) mod rb_capacity b"
  let ?n = "if rb_size b < rb_capacity b then rb_size b + 1 else rb_size b"
  let ?xs = "if rb_size b = rb_capacity b then x # butlast (ring_items b) else x # ring_items b"
  have h: "?h < rb_capacity b" using r(1) by simp
  have b': "b' = b\<lparr>rb_head := ?h, rb_buf := (rb_buf b)[?h := Some x], rb_size := ?n\<rparr>"
    and v: "v = (if rb_size b = rb_capacity b then rb_buf b ! ?h else None)"
    using p by (auto simp: ring_unshift_def Let_def)
  have len: "length ?xs = ?n" using r by auto
  have "ring_ok b' \<and> ring_items b' = ?xs"
  proof (rule ring_intro)
    fix i assume i: "i < length ?xs"
    show "rb_buf b' ! ((rb_head b' + i) mod rb_capacity b') = Some (?xs ! i)"
    proof (cases i)
      case 0
      then show ?thesis using h r by (simp add: b')
    next
      case (Suc j)
      have j: "j < rb_size b" "Suc j < rb_capacity b" using i len Suc r(4) by (auto split: if_splits)
      have "(?h + Suc j) mod rb_capacity b \<noteq> ?h"
        using ring_pos_inj [of "Suc j" "rb_capacity b" 0 ?h] j(2) h by simp
      then have "rb_buf b' ! ((rb_head b' + i) mod rb_capacity b') = Some (ring_items b ! j)"
        using Suc prev_mod [OF r(3), of j] ring_nth [OF j(1) ok] by (simp add: b')
      moreover have "?xs ! i = ring_items b ! j"
        using Suc i j by (auto simp: nth_butlast)
      ultimately show ?thesis by simp
    qed
  qed (use b' r len in auto)
  moreover have "rb_size b = rb_capacity b \<Longrightarrow> v = Some (last (ring_items b))"
  proof -
    assume full: "rb_size b = rb_capacity b"
    then have "ring_items b \<noteq> []" using r(1) by (metis less_irrefl list.size(3) ring_length_items)
    moreover have "rb_head b + rb_capacity b - 1 = rb_head b + (rb_size b - 1)" using full r(1) by simp
    ultimately show ?thesis using v full ring_nth [of "rb_size b - 1" b] ok r(1) by (simp add: last_conv_nth)
  qed
  ultimately show ?thesis using v b' by auto
qed

interpretation ring_deque: bounded_deque ring_ok ring_items rb_capacity ring_new ring_push ring_shift ring_pop ring_unshift
proof (unfold_locales, goal_cases)
  case (1 b)
  then show ?case by (simp add: ring_parts)
next
  case (2 n)
  then show ?case by (rule ring_new_ok)
next
  case (3 b x v b')
  then show ?case unfolding ring_length_items by (rule ring_push_spec)
next
  case (4 b v b')
  then show ?case by (rule ring_shift_spec)
next
  case (5 b v b')
  then show ?case by (rule ring_pop_spec)
next
  case (6 b x v b')
  then show ?case unfolding ring_length_items by (rule ring_unshift_spec)
qed

section \<open>Reading\<close>

lemma slice_map_nth: "a \<le> b \<Longrightarrow> b \<le> length xs \<Longrightarrow> slice xs a b = map (\<lambda>i. xs ! (a + i)) [0..<b - a]"
  by (rule nth_equalityI) (auto simp: slice_def)

lemma ring_toArray_spec:
  assumes ok: "ring_ok b"
  shows "ring_toArray b = map Some (ring_items b)"
proof -
  note r = ring_parts [OF ok]
  have "ring_toArray b = ring_iterator b"
  proof (cases "rb_head b + rb_size b \<le> rb_capacity b")
    case True
    then have "rb_buf b ! (rb_head b + i) = rb_buf b ! ((rb_head b + i) mod rb_capacity b)" if "i < rb_size b" for i
      using that by simp
    then show ?thesis using True r by (simp add: ring_toArray_def ring_iterator_def slice_map_nth)
  next
    case False
    let ?k = "rb_capacity b - rb_head b" and ?m = "rb_head b + rb_size b - rb_capacity b"
    have m: "(rb_head b + rb_size b) mod rb_capacity b = ?m"
    proof -
      have "rb_head b + rb_size b = ?m + rb_capacity b" "?m < rb_capacity b" using False r by simp_all
      then show ?thesis by (metis mod_add_self2 mod_less)
    qed
    have "ring_toArray b = map (\<lambda>i. rb_buf b ! (rb_head b + i)) [0..<?k] @ map (\<lambda>i. rb_buf b ! i) [0..<?m]"
      using False r by (simp add: ring_toArray_def m slice_map_nth)
    also have "\<dots> = map (\<lambda>i. rb_buf b ! ((rb_head b + i) mod rb_capacity b)) [0..<?k] @
        map (\<lambda>i. rb_buf b ! ((rb_head b + i) mod rb_capacity b)) (map (\<lambda>i. i + ?k) [0..<?m])"
    proof (rule arg_cong2 [where f = append])
      show "map (\<lambda>i. rb_buf b ! (rb_head b + i)) [0..<?k] = map (\<lambda>i. rb_buf b ! ((rb_head b + i) mod rb_capacity b)) [0..<?k]"
        by (rule map_cong) simp_all
      have "(rb_head b + (i + ?k)) mod rb_capacity b = i" if "i < ?m" for i
      proof -
        have "rb_head b + (i + ?k) = i + rb_capacity b" "i < rb_capacity b" using that r by simp_all
        then show ?thesis by simp
      qed
      then show "map (\<lambda>i. rb_buf b ! i) [0..<?m] = map (\<lambda>i. rb_buf b ! ((rb_head b + i) mod rb_capacity b)) (map (\<lambda>i. i + ?k) [0..<?m])"
        by simp
    qed
    also have "\<dots> = ring_iterator b"
    proof -
      have "[0..<?k] @ map (\<lambda>i. i + ?k) [0..<?m] = [0..<?k + ?m]"
        unfolding map_add_upt using upt_add_eq_append [of 0 ?k ?m] by (simp add: add.commute)
      moreover have "?k + ?m = rb_size b" using False r by simp
      ultimately show ?thesis unfolding ring_iterator_def map_append [symmetric] by simp
    qed
    finally show ?thesis .
  qed
  then show ?thesis using iterator_items [OF ok] by simp
qed

lemma ring_at_spec:
  assumes ok: "ring_ok b"
  shows "ring_at b i =
    (if 0 \<le> i \<and> i < int (rb_size b) then Some (ring_items b ! nat i)
     else if i < 0 \<and> - int (rb_size b) \<le> i then Some (ring_items b ! nat (int (rb_size b) + i)) else None)"
  using ring_nth [OF _ ok, of "nat i"] ring_nth [OF _ ok, of "nat (i + int (rb_size b))"]
  by (auto simp: ring_at_def Let_def add.commute)

section \<open>Properties\<close>

text \<open>
  The circular buffer is a bounded queue with two ends: every operation keeps it well-formed and
  does to the list of its items what the operation says, dropping and answering the item at the
  other end exactly when it is full; the array, the iterator and the indexed reads show that list.
\<close>

theorem ring_refines_list:
  assumes "ring_ok b"
  shows "(ring_push b x = (v, b') \<longrightarrow> ring_ok b' \<and>
      (if isFull b then v = Some (hd (ring_items b)) \<and> ring_items b' = tl (ring_items b) @ [x]
       else v = None \<and> ring_items b' = ring_items b @ [x])) \<and>
    (ring_unshift b x = (v, b') \<longrightarrow> ring_ok b' \<and>
      (if isFull b then v = Some (last (ring_items b)) \<and> ring_items b' = x # butlast (ring_items b)
       else v = None \<and> ring_items b' = x # ring_items b)) \<and>
    (ring_shift b = (v, b') \<longrightarrow> ring_ok b' \<and> ring_items b' = tl (ring_items b) \<and>
      v = (if isEmpty b then None else Some (hd (ring_items b)))) \<and>
    (ring_pop b = (v, b') \<longrightarrow> ring_ok b' \<and> ring_items b' = butlast (ring_items b) \<and>
      v = (if isEmpty b then None else Some (last (ring_items b)))) \<and>
    ring_ok (ring_clear b) \<and> ring_items (ring_clear b) = [] \<and>
    ring_toArray b = map Some (ring_items b) \<and> ring_iterator b = map Some (ring_items b) \<and>
      ring_peek b = (if isEmpty b then None else Some (hd (ring_items b))) \<and>
      ring_peekBack b = (if isEmpty b then None else Some (last (ring_items b))) \<and>
      length (ring_items b) = ring_length b \<and> ring_length b \<le> rb_capacity b"
proof -
  have e: "isEmpty b \<longleftrightarrow> ring_items b = []" by (metis isEmpty_def length_0_conv ring_length_items)
  have law1: "ring_push b x = (v, b') \<Longrightarrow> ring_ok b' \<and>
      (if isFull b then v = Some (hd (ring_items b)) \<and> ring_items b' = tl (ring_items b) @ [x]
       else v = None \<and> ring_items b' = ring_items b @ [x])"
    using ring_deque.push_law [OF assms, of x v b'] by (simp add: isFull_def)
  have law2: "ring_unshift b x = (v, b') \<Longrightarrow> ring_ok b' \<and>
      (if isFull b then v = Some (last (ring_items b)) \<and> ring_items b' = x # butlast (ring_items b)
       else v = None \<and> ring_items b' = x # ring_items b)"
    using ring_deque.unshift_law [OF assms, of x v b'] by (simp add: isFull_def)
  have law3: "ring_shift b = (v, b') \<Longrightarrow> ring_ok b' \<and> ring_items b' = tl (ring_items b) \<and>
      v = (if isEmpty b then None else Some (hd (ring_items b)))"
    using ring_deque.shift_law [OF assms, of v b'] by (simp add: e)
  have law4: "ring_pop b = (v, b') \<Longrightarrow> ring_ok b' \<and> ring_items b' = butlast (ring_items b) \<and>
      v = (if isEmpty b then None else Some (last (ring_items b)))"
    using ring_deque.pop_law [OF assms, of v b'] by (simp add: e)
  have law5: "ring_ok (ring_clear b) \<and> ring_items (ring_clear b) = []"
    using ring_parts [OF assms] by (simp add: ring_clear_def ring_ok_def ring_items_def ring_iterator_def)
  have "ring_peek b = (if isEmpty b then None else Some (hd (ring_items b)))"
    "ring_peekBack b = (if isEmpty b then None else Some (last (ring_items b)))"
    using e by (auto simp: ring_peek_def ring_peekBack_def ring_at_spec [OF assms] isEmpty_def hd_conv_nth last_conv_nth nat_diff_distrib)
  then have law6: "ring_toArray b = map Some (ring_items b) \<and> ring_iterator b = map Some (ring_items b) \<and>
      ring_peek b = (if isEmpty b then None else Some (hd (ring_items b))) \<and>
      ring_peekBack b = (if isEmpty b then None else Some (last (ring_items b))) \<and>
      length (ring_items b) = ring_length b \<and> ring_length b \<le> rb_capacity b"
    using ring_toArray_spec [OF assms] iterator_items [OF assms] ring_parts(4) [OF assms] by (simp add: ring_length_def)
  show ?thesis using law1 law2 law3 law4 law5 law6 by blast
qed

theorem ring_refines_list_witness:
  "\<exists>b. ring_ok b \<and> isFull b \<and> ring_toArray b = [Some (2::nat), Some 3] \<and>
    ring_toArray (snd (ring_push b 4)) = [Some 3, Some 4] \<and> fst (ring_push b 4) = Some 2"
proof -
  let ?b = "foldl (\<lambda>b x. snd (ring_push b x)) (ring_new 2) [1::nat, 2, 3]"
  have ok: "ring_ok ?b" by (rule ring_deque.fresh_window(1)) simp
  have v: "isFull ?b" "ring_toArray ?b = [Some 2, Some 3]" "ring_items ?b = [2, 3]" by code_simp+
  obtain w b' where p: "ring_push ?b 4 = (w, b')" by (cases "ring_push ?b 4")
  from ring_refines_list [OF ok, of 4 w b'] p v have w: "ring_ok b'" "w = Some 2" "ring_items b' = [3, 4]" by simp_all
  then have "ring_toArray b' = [Some 3, Some 4]" using ring_refines_list [OF w(1), of 4 w b'] by simp
  then show ?thesis using ok v p w by (intro exI [of _ ?b]) simp
qed

text \<open>
  A buffer holds the most recent items: after pushing any list to a fresh buffer, reading it gives
  the last \<open>n\<close> items of the list in order.
\<close>

theorem ring_keeps_latest:
  assumes "0 < n"
  shows "ring_toArray (foldl (\<lambda>b x. snd (ring_push b x)) (ring_new n) xs) = map Some (drop (length xs - n) xs)"
  using ring_deque.fresh_window [OF assms, of xs] ring_toArray_spec by metis

theorem ring_keeps_latest_witness:
  "ring_toArray (foldl (\<lambda>b x. snd (ring_push b x)) (ring_new 2) [1::nat, 2, 3]) = [Some 2, Some 3]"
  using ring_keeps_latest [of 2 "[1::nat, 2, 3]"] by (simp add: numeral_2_eq_2)

end
