(* ===== verification/Append_Only.thy ===== *)
theory Append_Only
  imports Json "HOL-Library.Word"
begin

text \<open>
  The append-only context of \<open>packages/agent/src/append-only-context.ts\<close>: a frozen prefix of system
  prompt and tools, and a log of provider messages that only grows while the messages it was built
  from are unchanged.  The tools are normalised by \<open>normalizeTools\<close> of \<open>agent-loop.ts\<close>, which
  adds the intent field to their schemas.  A message is its JSON value.
\<close>

unbundle bit_operations_syntax

section \<open>Tools\<close>

text \<open>
  A parameter schema is JSON, or a Zod schema with its wire form and the JSON text of the schema
  object itself.
\<close>

datatype tool_schema = JsonSchema json | ZodSchema json json

datatype tool_intent = IntentUndefined | IntentRequire | IntentOptional | IntentOmit | IntentFunction

record tool =
  tl_name :: jstring
  tl_description :: "jstring option"
  tl_parameters :: tool_schema
  tl_intent :: tool_intent
  tl_strict :: "bool option"
  tl_customFormat :: "json option"
  tl_customWireName :: "jstring option"

definition INTENT_FIELD :: jstring where "INTENT_FIELD = js ''_i''"

definition object_of :: "json option \<Rightarrow> (jstring \<times> json) list" where
  "object_of v = (case v of Some (JObject kvs) \<Rightarrow> kvs | _ \<Rightarrow> [])"

definition strings_of :: "json option \<Rightarrow> jstring list" where
  "strings_of v =
     (case v of Some (JArray vs) \<Rightarrow> concat (map (\<lambda>v. case v of JString s \<Rightarrow> [s] | _ \<Rightarrow> []) vs) | _ \<Rightarrow> [])"

definition with_required :: "bool \<Rightarrow> jstring list \<Rightarrow> (jstring \<times> json) list \<Rightarrow> (jstring \<times> json) list" where
  "with_required needed required kvs =
     (if needed then map_set kvs (js ''required'') (JArray (map JString (required @ [INTENT_FIELD]))) else kvs)"

text \<open>\<open>require\<close> is the mode \<open>"require"\<close>, otherwise the mode is \<open>"optional"\<close>.\<close>

definition injectIntentIntoSchema :: "json \<Rightarrow> bool \<Rightarrow> json" where
  "injectIntentIntoSchema schema require =
     (case schema of
        JObject kvs \<Rightarrow>
          (let properties = object_of (map_of kvs (js ''properties''));
               required = strings_of (map_of kvs (js ''required''))
           in case map_of properties INTENT_FIELD of
                Some intentProp \<Rightarrow>
                  (let rest = filter (\<lambda>kv. fst kv \<noteq> INTENT_FIELD) properties;
                       needsReorder = (fst (hd properties) \<noteq> INTENT_FIELD);
                       needsRequired = (require \<and> INTENT_FIELD \<notin> set required)
                   in if \<not> needsReorder \<and> \<not> needsRequired then schema
                      else JObject (with_required needsRequired required
                        (if needsReorder then map_set kvs (js ''properties'') (JObject ((INTENT_FIELD, intentProp) # rest)) else kvs)))
              | None \<Rightarrow>
                  JObject (with_required require required
                    (map_set kvs (js ''properties'')
                      (JObject ((INTENT_FIELD, JObject [(js ''type'', JString (js ''string''))]) # properties)))))
      | _ \<Rightarrow> schema)"

text \<open>\<open>resolveIntentMode\<close>; \<open>None\<close> is the mode \<open>"omit"\<close>.\<close>

definition resolveIntentMode :: "tool_intent \<Rightarrow> bool option" where
  "resolveIntentMode intent =
     (case intent of IntentFunction \<Rightarrow> None | IntentOmit \<Rightarrow> None | IntentOptional \<Rightarrow> Some False | _ \<Rightarrow> Some True)"

definition normalize_tool :: "bool \<Rightarrow> tool \<Rightarrow> tool" where
  "normalize_tool injectIntent t =
     (let parameters =
        (case resolveIntentMode (tl_intent t) of
           Some require \<Rightarrow>
             (if injectIntent
              then (case tl_parameters t of
                 ZodSchema wire own \<Rightarrow> JsonSchema (injectIntentIntoSchema wire require)
               | JsonSchema s \<Rightarrow> JsonSchema (injectIntentIntoSchema s require))
              else tl_parameters t)
         | None \<Rightarrow> tl_parameters t)
      in t\<lparr>tl_parameters := parameters,
           tl_description := Some (case tl_description t of Some d \<Rightarrow> d | None \<Rightarrow> [])\<rparr>)"

text \<open>\<open>noIntent\<close>: the environment variable \<open>OA_NO_INTENT\<close> is \<open>1\<close>.\<close>

definition normalizeTools :: "bool \<Rightarrow> tool list option \<Rightarrow> bool \<Rightarrow> tool list option" where
  "normalizeTools noIntent tools injectIntent =
     map_option (map (normalize_tool (injectIntent \<and> \<not> noIntent))) tools"

section \<open>Digests\<close>

text \<open>\<open>hash = ((hash << 5) - hash + unit) | 0\<close> on 32 bits.\<close>

definition roll :: "32 word \<Rightarrow> jstring \<Rightarrow> 32 word" where
  "roll h s = foldl (\<lambda>h c. push_bit 5 h - h + of_nat c) h s"

definition digit36 :: "nat \<Rightarrow> nat" where "digit36 d = (if d < 10 then 48 + d else 87 + d)"

fun base36 :: "nat \<Rightarrow> jstring" where
  "base36 n = (if n < 36 then [digit36 n] else base36 (n div 36) @ [digit36 (n mod 36)])"

declare base36.simps [simp del]

definition opt_field :: "string \<Rightarrow> json option \<Rightarrow> (jstring \<times> json) list" where
  "opt_field k v = (case v of Some v \<Rightarrow> [(js k, v)] | None \<Rightarrow> [])"

definition schema_json :: "tool_schema \<Rightarrow> json" where
  "schema_json s = (case s of JsonSchema v \<Rightarrow> v | ZodSchema wire own \<Rightarrow> own)"

definition tool_json :: "tool \<Rightarrow> json" where
  "tool_json t = JObject ([(js ''n'', JString (tl_name t))] @ opt_field ''d'' (map_option JString (tl_description t)) @
     [(js ''p'', schema_json (tl_parameters t))] @ opt_field ''s'' (map_option JBool (tl_strict t)) @
     opt_field ''cf'' (tl_customFormat t) @ opt_field ''cw'' (map_option JString (tl_customWireName t)))"

definition computeFingerprint :: "jstring list \<Rightarrow> tool list \<Rightarrow> bool \<Rightarrow> jstring" where
  "computeFingerprint systemPrompt tools intentTracing =
     base36 (unat (roll 0 (stringify (JObject
       [(js ''s'', JArray (map JString systemPrompt)), (js ''t'', JArray (map tool_json tools)),
        (js ''i'', JBool intentTracing)]))))"

text \<open>A field of a message, \<open>null\<close> where it is missing.\<close>

definition field_or_null :: "json \<Rightarrow> string \<Rightarrow> json" where
  "field_or_null m k = (case json_field m (js k) of Some v \<Rightarrow> v | None \<Rightarrow> JNull)"

definition digest_payload :: "json \<Rightarrow> jstring" where
  "digest_payload m = stringify (JObject
     [(js ''r'', field_or_null m ''role''), (js ''c'', field_or_null m ''content''),
      (js ''tc'', if field_or_null m ''toolCalls'' \<noteq> JNull then field_or_null m ''toolCalls'' else field_or_null m ''tool_calls''),
      (js ''tcid'', field_or_null m ''tool_call_id''), (js ''n'', field_or_null m ''name''),
      (js ''id'', field_or_null m ''id'')])"

text \<open>Messages that are no objects are skipped.\<close>

definition digest_step :: "32 word \<Rightarrow> json \<Rightarrow> 32 word" where
  "digest_step h m =
     (case m of JObject _ \<Rightarrow> roll h (digest_payload m) | JArray _ \<Rightarrow> roll h (digest_payload m) | _ \<Rightarrow> h)"

definition computeDigest :: "json list \<Rightarrow> 32 word" where
  "computeDigest ms = foldl digest_step 0 ms"

section \<open>The stable prefix\<close>

record agent_context =
  ac_systemPrompt :: "jstring list"
  ac_tools :: "tool list option"

record prefix_snapshot =
  sn_systemPrompt :: "jstring list"
  sn_tools :: "tool list"
  sn_fingerprint :: jstring

definition takeSnapshot :: "bool \<Rightarrow> agent_context \<Rightarrow> bool \<Rightarrow> prefix_snapshot" where
  "takeSnapshot noIntent context intentTracing =
     (let tools = (case normalizeTools noIntent (ac_tools context) intentTracing of Some ts \<Rightarrow> ts | None \<Rightarrow> [])
      in \<lparr>sn_systemPrompt = ac_systemPrompt context, sn_tools = tools,
          sn_fingerprint = computeFingerprint (ac_systemPrompt context) tools intentTracing\<rparr>)"

record stable_prefix =
  sp_snapshot :: "prefix_snapshot option"
  sp_version :: nat

definition prefix_fingerprint :: "stable_prefix \<Rightarrow> jstring" where
  "prefix_fingerprint p = (case sp_snapshot p of Some s \<Rightarrow> sn_fingerprint s | None \<Rightarrow> js ''<unbuilt>'')"

definition prefix_built :: "stable_prefix \<Rightarrow> bool" where "prefix_built p \<longleftrightarrow> sp_snapshot p \<noteq> None"

definition prefix_build :: "bool \<Rightarrow> stable_prefix \<Rightarrow> agent_context \<Rightarrow> bool \<Rightarrow> bool \<times> stable_prefix" where
  "prefix_build noIntent p context intentTracing =
     (let snapshot = takeSnapshot noIntent context intentTracing
      in if (case sp_snapshot p of Some s \<Rightarrow> sn_fingerprint s = sn_fingerprint snapshot | None \<Rightarrow> False) then (False, p)
         else (True, \<lparr>sp_snapshot = Some snapshot, sp_version = sp_version p + 1\<rparr>))"

definition prefix_invalidate :: "stable_prefix \<Rightarrow> stable_prefix" where
  "prefix_invalidate p = p\<lparr>sp_snapshot := None\<rparr>"

datatype prefix_error = NotBuilt

definition prefix_toContext :: "stable_prefix \<Rightarrow> prefix_error + (jstring list \<times> tool list)" where
  "prefix_toContext p =
     (case sp_snapshot p of None \<Rightarrow> Inl NotBuilt | Some s \<Rightarrow> Inr (sn_systemPrompt s, sn_tools s))"

section \<open>The log\<close>

definition log_append :: "json list \<Rightarrow> json \<Rightarrow> json list" where "log_append l m = l @ [m]"

definition log_extend :: "json list \<Rightarrow> json list \<Rightarrow> json list" where "log_extend l ms = foldl log_append l ms"

definition log_replaceTail :: "json list \<Rightarrow> json \<Rightarrow> json list" where
  "log_replaceTail l m = (if length l > 0 then l[length l - 1 := m] else l)"

definition log_clear :: "json list \<Rightarrow> json list" where "log_clear l = []"

section \<open>The manager\<close>

record context_manager =
  cm_prefix :: stable_prefix
  cm_log :: "json list"
  cm_lastSyncCount :: nat
  cm_syncedDigest :: "32 word"

definition new_manager :: context_manager where
  "new_manager = \<lparr>cm_prefix = \<lparr>sp_snapshot = None, sp_version = 0\<rparr>, cm_log = [], cm_lastSyncCount = 0, cm_syncedDigest = 0\<rparr>"

definition manager_build ::
  "bool \<Rightarrow> context_manager \<Rightarrow> agent_context \<Rightarrow> bool \<Rightarrow> (prefix_error + jstring list \<times> json list \<times> tool list) \<times> context_manager" where
  "manager_build noIntent m context intentTracing =
     (let m' = m\<lparr>cm_prefix := snd (prefix_build noIntent (cm_prefix m) context intentTracing)\<rparr>
      in ((case prefix_toContext (cm_prefix m') of
             Inl e \<Rightarrow> Inl e | Inr (systemPrompt, tools) \<Rightarrow> Inr (systemPrompt, cm_log m', tools)), m'))"

definition syncMessages :: "context_manager \<Rightarrow> json list \<Rightarrow> context_manager" where
  "syncMessages m ms =
     (let m1 = (if cm_lastSyncCount m > 0 \<and> cm_lastSyncCount m \<le> length ms \<and>
                   computeDigest (take (cm_lastSyncCount m) ms) \<noteq> cm_syncedDigest m
                then m\<lparr>cm_log := log_clear (cm_log m), cm_lastSyncCount := 0\<rparr> else m);
          m2 = (if length ms < cm_lastSyncCount m1
                then m1\<lparr>cm_log := log_clear (cm_log m1), cm_lastSyncCount := 0\<rparr> else m1);
          newMsgs = drop (cm_lastSyncCount m2) ms
      in m2\<lparr>cm_log := foldl log_append (cm_log m2) newMsgs,
            cm_lastSyncCount := length ms, cm_syncedDigest := computeDigest ms\<rparr>)"

definition invalidateForModelChange :: "context_manager \<Rightarrow> context_manager" where
  "invalidateForModelChange m =
     m\<lparr>cm_prefix := prefix_invalidate (cm_prefix m), cm_log := log_clear (cm_log m), cm_lastSyncCount := 0, cm_syncedDigest := 0\<rparr>"

definition resetSyncCursor :: "context_manager \<Rightarrow> context_manager" where
  "resetSyncCursor m = m\<lparr>cm_log := log_clear (cm_log m), cm_lastSyncCount := 0, cm_syncedDigest := 0\<rparr>"

definition manager_appendMessage :: "context_manager \<Rightarrow> json \<Rightarrow> context_manager" where
  "manager_appendMessage m msg = m\<lparr>cm_log := log_append (cm_log m) msg\<rparr>"

definition replaceTailMessage :: "context_manager \<Rightarrow> json \<Rightarrow> context_manager" where
  "replaceTailMessage m msg = m\<lparr>cm_log := log_replaceTail (cm_log m) msg\<rparr>"

definition manager_invalidate :: "context_manager \<Rightarrow> context_manager" where
  "manager_invalidate m = m\<lparr>cm_prefix := prefix_invalidate (cm_prefix m)\<rparr>"

definition manager_reset :: "bool \<Rightarrow> context_manager \<Rightarrow> agent_context \<Rightarrow> bool \<Rightarrow> context_manager" where
  "manager_reset noIntent m context intentTracing =
     m\<lparr>cm_prefix := snd (prefix_build noIntent (prefix_invalidate (cm_prefix m)) context intentTracing),
       cm_log := log_clear (cm_log m), cm_lastSyncCount := 0, cm_syncedDigest := 0\<rparr>"

section \<open>The log follows the messages\<close>

lemma log_extend_append: "foldl log_append l ms = l @ ms"
  by (induction ms arbitrary: l) (simp_all add: log_append_def)

definition prefix_ok :: "stable_prefix \<Rightarrow> bool" where
  "prefix_ok p \<longleftrightarrow> (\<forall>s. sp_snapshot p = Some s \<longrightarrow>
     (\<exists>intent. sn_fingerprint s = computeFingerprint (sn_systemPrompt s) (sn_tools s) intent))"

definition manager_ok :: "context_manager \<Rightarrow> bool" where
  "manager_ok m \<longleftrightarrow> cm_lastSyncCount m = length (cm_log m) \<and> cm_syncedDigest m = computeDigest (cm_log m) \<and>
     prefix_ok (cm_prefix m)"

lemma digest_append: "computeDigest (xs @ ys) = foldl digest_step (computeDigest xs) ys"
  by (simp add: computeDigest_def)

lemma sync_log:
  assumes "manager_ok m"
  shows "cm_log (syncMessages m ms) =
    (if length (cm_log m) \<le> length ms \<and> computeDigest (take (length (cm_log m)) ms) = computeDigest (cm_log m)
     then cm_log m @ drop (length (cm_log m)) ms else ms)"
  using assms by (auto simp: syncMessages_def manager_ok_def Let_def log_extend_append log_clear_def computeDigest_def)

lemma sync_ok:
  assumes "manager_ok m"
  shows "manager_ok (syncMessages m ms)" "length (cm_log (syncMessages m ms)) = length ms"
proof -
  let ?k = "length (cm_log m)"
  show len: "length (cm_log (syncMessages m ms)) = length ms" using sync_log [OF assms, of ms] by auto
  have "computeDigest (cm_log (syncMessages m ms)) = computeDigest ms"
  proof (cases "?k \<le> length ms \<and> computeDigest (take ?k ms) = computeDigest (cm_log m)")
    case True
    then have "computeDigest (cm_log m @ drop ?k ms) = computeDigest (take ?k ms @ drop ?k ms)"
      unfolding digest_append by simp
    then show ?thesis using sync_log [OF assms, of ms] True by simp
  next
    case False
    then show ?thesis by (simp only: sync_log [OF assms] if_False)
  qed
  moreover have "cm_prefix (syncMessages m ms) = cm_prefix m" "cm_lastSyncCount (syncMessages m ms) = length ms"
    "cm_syncedDigest (syncMessages m ms) = computeDigest ms"
    by (auto simp: syncMessages_def Let_def)
  ultimately show "manager_ok (syncMessages m ms)" using assms len by (simp add: manager_ok_def)
qed

lemma build_prefix_ok:
  assumes "prefix_ok p"
  shows "prefix_ok (snd (prefix_build noIntent p ctx it))"
    "prefix_fingerprint (snd (prefix_build noIntent p ctx it)) = sn_fingerprint (takeSnapshot noIntent ctx it)"
    "sp_snapshot (snd (prefix_build noIntent p ctx it)) \<noteq> None"
proof -
  have fresh: "\<exists>intent. sn_fingerprint (takeSnapshot noIntent ctx it) =
      computeFingerprint (sn_systemPrompt (takeSnapshot noIntent ctx it)) (sn_tools (takeSnapshot noIntent ctx it)) intent"
    by (auto simp: takeSnapshot_def Let_def)
  consider s where "sp_snapshot p = Some s" "sn_fingerprint s = sn_fingerprint (takeSnapshot noIntent ctx it)"
      "snd (prefix_build noIntent p ctx it) = p"
    | "snd (prefix_build noIntent p ctx it) = \<lparr>sp_snapshot = Some (takeSnapshot noIntent ctx it), sp_version = sp_version p + 1\<rparr>"
  proof (cases "sp_snapshot p")
    case None
    then have "snd (prefix_build noIntent p ctx it) = \<lparr>sp_snapshot = Some (takeSnapshot noIntent ctx it), sp_version = sp_version p + 1\<rparr>"
      by (simp add: prefix_build_def Let_def)
    then show thesis by (rule that(2))
  next
    case (Some s)
    show thesis
    proof (cases "sn_fingerprint s = sn_fingerprint (takeSnapshot noIntent ctx it)")
      case True
      then show thesis using Some by (intro that(1) [of s]) (simp_all add: prefix_build_def Let_def)
    next
      case False
      then show thesis using Some by (intro that(2)) (simp add: prefix_build_def Let_def)
    qed
  qed
  then have "prefix_ok (snd (prefix_build noIntent p ctx it)) \<and>
    prefix_fingerprint (snd (prefix_build noIntent p ctx it)) = sn_fingerprint (takeSnapshot noIntent ctx it) \<and>
    sp_snapshot (snd (prefix_build noIntent p ctx it)) \<noteq> None"
    using assms fresh by cases (simp_all add: prefix_fingerprint_def prefix_ok_def)
  then show "prefix_ok (snd (prefix_build noIntent p ctx it))"
    "prefix_fingerprint (snd (prefix_build noIntent p ctx it)) = sn_fingerprint (takeSnapshot noIntent ctx it)"
    "sp_snapshot (snd (prefix_build noIntent p ctx it)) \<noteq> None" by blast+
qed

text \<open>The operations the agent loop and the session use; the log is not written past the manager.\<close>

inductive manager_reach :: "context_manager \<Rightarrow> bool" where
  New: "manager_reach new_manager"
| Sync: "manager_reach m \<Longrightarrow> manager_reach (syncMessages m ms)"
| Build: "manager_reach m \<Longrightarrow> manager_reach (snd (manager_build noIntent m ctx it))"
| Invalidate: "manager_reach m \<Longrightarrow> manager_reach (manager_invalidate m)"
| Model_Change: "manager_reach m \<Longrightarrow> manager_reach (invalidateForModelChange m)"
| Reset_Cursor: "manager_reach m \<Longrightarrow> manager_reach (resetSyncCursor m)"
| Reset: "manager_reach m \<Longrightarrow> manager_reach (manager_reset noIntent m ctx it)"

lemma manager_reach_ok: "manager_reach m \<Longrightarrow> manager_ok m"
proof (induction rule: manager_reach.induct)
  case New
  show ?case by (simp add: manager_ok_def new_manager_def computeDigest_def prefix_ok_def)
next
  case (Sync m ms)
  then show ?case by (simp add: sync_ok)
next
  case (Build m noIntent ctx it)
  then show ?case using build_prefix_ok(1) by (simp add: manager_ok_def manager_build_def Let_def)
next
  case (Reset m noIntent ctx it)
  have "prefix_ok (prefix_invalidate (cm_prefix m))" by (simp add: prefix_invalidate_def prefix_ok_def)
  then show ?case using build_prefix_ok(1) by (simp add: manager_ok_def manager_reset_def log_clear_def computeDigest_def)
qed (auto simp: manager_ok_def manager_invalidate_def invalidateForModelChange_def resetSyncCursor_def
    prefix_invalidate_def prefix_ok_def log_clear_def computeDigest_def)

section \<open>The intent field\<close>

lemma map_of_set: "map_of (map_set kvs k v) = (map_of kvs)(k \<mapsto> v)"
  using map_get_set [of kvs k v] by (simp add: map_get_def fun_eq_iff)

lemma strings_of_strings [simp]: "strings_of (Some (JArray (map JString xs))) = xs"
  by (induction xs) (simp_all add: strings_of_def)

lemma strings_of_snoc [simp]: "strings_of (Some (JArray (map JString xs @ [JString y]))) = xs @ [y]"
  using strings_of_strings [of "xs @ [y]"] by simp

lemma required_not_properties: "js ''required'' \<noteq> js ''properties''" by simp

definition properties_of :: "(jstring \<times> json) list \<Rightarrow> (jstring \<times> json) list" where
  "properties_of kvs = object_of (map_of kvs (js ''properties''))"

definition required_of :: "(jstring \<times> json) list \<Rightarrow> jstring list" where
  "required_of kvs = strings_of (map_of kvs (js ''required''))"

lemma with_required_fields:
  "properties_of (with_required n required kvs) = properties_of kvs"
  "required_of (with_required n required kvs) = (if n then required @ [INTENT_FIELD] else required_of kvs)"
  "k \<noteq> js ''required'' \<Longrightarrow> map_of (with_required n required kvs) k = map_of kvs k"
  by (simp_all add: with_required_def properties_of_def required_of_def map_of_set)

lemma set_properties_fields:
  "properties_of (map_set kvs (js ''properties'') (JObject ps)) = ps"
  "required_of (map_set kvs (js ''properties'') (JObject ps)) = required_of kvs"
  "k \<noteq> js ''properties'' \<Longrightarrow> map_of (map_set kvs (js ''properties'') (JObject ps)) k = map_of kvs k"
  by (simp_all add: properties_of_def required_of_def map_of_set object_of_def)

lemma inject_cases:
  obtains (keep) x where "injectIntentIntoSchema (JObject kvs) require = JObject kvs"
      "properties_of kvs = (INTENT_FIELD, x) # tl (properties_of kvs)" "require \<longrightarrow> INTENT_FIELD \<in> set (required_of kvs)"
  | (require) x where "injectIntentIntoSchema (JObject kvs) require = JObject (with_required True (required_of kvs) kvs)"
      "properties_of kvs = (INTENT_FIELD, x) # tl (properties_of kvs)"
  | (move) x n ps where "injectIntentIntoSchema (JObject kvs) require =
        JObject (with_required n (required_of kvs) (map_set kvs (js ''properties'') (JObject ((INTENT_FIELD, x) # ps))))"
      "ps = filter (\<lambda>kv. fst kv \<noteq> INTENT_FIELD) (properties_of kvs)" "require \<longrightarrow> n \<or> INTENT_FIELD \<in> set (required_of kvs)"
proof (cases "map_of (properties_of kvs) INTENT_FIELD")
  case None
  then have f: "filter (\<lambda>kv. fst kv \<noteq> INTENT_FIELD) (properties_of kvs) = properties_of kvs"
    by (force simp: map_of_eq_None_iff filter_id_conv)
  have "injectIntentIntoSchema (JObject kvs) require = JObject (with_required require (required_of kvs)
      (map_set kvs (js ''properties'') (JObject ((INTENT_FIELD, JObject [(js ''type'', JString (js ''string''))]) # properties_of kvs))))"
    using None unfolding injectIntentIntoSchema_def properties_of_def required_of_def Let_def by simp
  then show thesis using move [where n = require] f by simp
next
  case (Some x)
  then have ne: "properties_of kvs \<noteq> []" by auto
  let ?reorder = "fst (hd (properties_of kvs)) \<noteq> INTENT_FIELD"
  let ?n = "require \<and> INTENT_FIELD \<notin> set (required_of kvs)"
  have e: "injectIntentIntoSchema (JObject kvs) require = (if \<not> ?reorder \<and> \<not> ?n then JObject kvs
      else JObject (with_required ?n (required_of kvs)
        (if ?reorder then map_set kvs (js ''properties'')
           (JObject ((INTENT_FIELD, x) # filter (\<lambda>kv. fst kv \<noteq> INTENT_FIELD) (properties_of kvs))) else kvs)))"
    using Some unfolding injectIntentIntoSchema_def properties_of_def required_of_def Let_def by simp
  show thesis
  proof (cases ?reorder)
    case True
    then show thesis using move [where n = ?n and x = x] e by simp
  next
    case False
    then obtain y where y: "properties_of kvs = (INTENT_FIELD, y) # tl (properties_of kvs)"
      using ne by (cases "properties_of kvs") auto
    show thesis
    proof (cases ?n)
      case True
      then show thesis using "require" [OF _ y] e False by simp
    next
      case no: False
      then show thesis using keep [OF _ y] e False by simp
    qed
  qed
qed

section \<open>Properties\<close>

text \<open>
  The log follows the messages.  After a synchronisation it has as many messages as were given;
  where they continue the log it is only extended, so all earlier messages stay as they were sent;
  and it differs from the given messages only where a rewritten part has the digest of the part
  that was sent before.
\<close>

theorem log_follows_messages:
  assumes "manager_reach m"
  shows "length (cm_log (syncMessages m ms)) = length ms \<and>
    (take (length (cm_log m)) ms = cm_log m \<longrightarrow>
      cm_log (syncMessages m ms) = cm_log m @ drop (length (cm_log m)) ms \<and> cm_log (syncMessages m ms) = ms) \<and>
    (cm_log (syncMessages m ms) \<noteq> ms \<longrightarrow>
      take (length (cm_log m)) ms \<noteq> cm_log m \<and> computeDigest (take (length (cm_log m)) ms) = computeDigest (cm_log m) \<and>
      drop (length (cm_log m)) (cm_log (syncMessages m ms)) = drop (length (cm_log m)) ms)"
proof (rule conjI [OF _ conjI [OF impI impI]])
  have ok: "manager_ok m" by (rule manager_reach_ok [OF assms])
  show "length (cm_log (syncMessages m ms)) = length ms" by (rule sync_ok(2) [OF ok])
  show "cm_log (syncMessages m ms) = cm_log m @ drop (length (cm_log m)) ms \<and> cm_log (syncMessages m ms) = ms"
    if p: "take (length (cm_log m)) ms = cm_log m"
  proof -
    have "length (cm_log m) \<le> length ms" using arg_cong [OF p, of length] by (simp add: min_def split: if_splits)
    then have "cm_log (syncMessages m ms) = cm_log m @ drop (length (cm_log m)) ms" using sync_log [OF ok, of ms] p by simp
    then show ?thesis using p by (metis append_take_drop_id)
  qed
  show "take (length (cm_log m)) ms \<noteq> cm_log m \<and> computeDigest (take (length (cm_log m)) ms) = computeDigest (cm_log m) \<and>
      drop (length (cm_log m)) (cm_log (syncMessages m ms)) = drop (length (cm_log m)) ms"
    if d: "cm_log (syncMessages m ms) \<noteq> ms"
  proof -
    have c: "length (cm_log m) \<le> length ms" "computeDigest (take (length (cm_log m)) ms) = computeDigest (cm_log m)"
      "cm_log (syncMessages m ms) = cm_log m @ drop (length (cm_log m)) ms"
      using sync_log [OF ok, of ms] d by (auto split: if_splits)
    then have "take (length (cm_log m)) ms \<noteq> cm_log m" using d by (metis append_take_drop_id)
    then show ?thesis using c by simp
  qed
qed

lemma new_log: "cm_log new_manager = []"
  by (simp add: new_manager_def)

definition user_said :: "string \<Rightarrow> json" where
  "user_said t = JObject [(js ''role'', JString (js ''user'')), (js ''content'', JString (js t))]"

theorem log_follows_messages_witness:
  "manager_reach (syncMessages new_manager [user_said ''a'']) \<and>
   cm_log (syncMessages (syncMessages new_manager [user_said ''a'']) [user_said ''a'', user_said ''b'']) =
     [user_said ''a'', user_said ''b'']"
proof -
  have r: "manager_reach (syncMessages new_manager [user_said ''a''])" by (intro manager_reach.Sync manager_reach.New)
  have l: "cm_log (syncMessages new_manager [user_said ''a'']) = [user_said ''a'']"
    by (simp add: sync_log [OF manager_reach_ok [OF manager_reach.New]] new_log)
  show ?thesis using r log_follows_messages [OF r, of "[user_said ''a'', user_said ''b'']"] l by simp
qed

text \<open>
  What the code does with a rewritten tool result: the digest covers neither its call nor its error
  flag, so a result that is rewritten in place to another call or to an error stays unseen.
\<close>

definition result_json :: "string \<Rightarrow> bool \<Rightarrow> json" where
  "result_json call err = JObject [(js ''role'', JString (js ''toolResult'')), (js ''toolCallId'', JString (js call)),
     (js ''content'', JArray []), (js ''isError'', JBool err)]"

theorem result_rewrite_unseen:
  "cm_log (syncMessages (syncMessages new_manager [result_json ''a'' False]) [result_json ''b'' True]) = [result_json ''a'' False]"
proof -
  have ok: "manager_ok new_manager" by (rule manager_reach_ok [OF manager_reach.New])
  have l: "cm_log (syncMessages new_manager [result_json ''a'' False]) = [result_json ''a'' False]"
    by (simp add: sync_log [OF ok] new_log)
  have "digest_payload (result_json ''a'' False) = digest_payload (result_json ''b'' True)"
    by (simp add: digest_payload_def result_json_def field_or_null_def)
  then have "computeDigest [result_json ''b'' True] = computeDigest [result_json ''a'' False]"
    by (simp add: computeDigest_def digest_step_def result_json_def)
  then show ?thesis by (simp add: sync_log [OF sync_ok(1) [OF ok]] l)
qed

text \<open>
  The prefix that is sent is the one frozen by an earlier build as long as the fingerprint of the
  live system prompt and tools is the same, and the live one otherwise: what is sent always has the
  fingerprint of the live context, building never fails, and building again for the same context
  sends the same bytes.
\<close>

theorem prefix_is_current:
  assumes "manager_reach m" "manager_build noIntent m ctx it = (r, m')"
  shows "\<exists>systemPrompt tools intent. r = Inr (systemPrompt, cm_log m, tools) \<and>
    computeFingerprint systemPrompt tools intent = sn_fingerprint (takeSnapshot noIntent ctx it) \<and>
    manager_build noIntent m' ctx it = (r, m') \<and>
    (if prefix_fingerprint (cm_prefix m) = sn_fingerprint (takeSnapshot noIntent ctx it) \<and> prefix_built (cm_prefix m)
     then m' = m else sp_snapshot (cm_prefix m') = Some (takeSnapshot noIntent ctx it))"
proof -
  have ok: "prefix_ok (cm_prefix m)" using manager_reach_ok [OF assms(1)] by (simp add: manager_ok_def)
  let ?b = "snd (prefix_build noIntent (cm_prefix m) ctx it)"
  note b = build_prefix_ok [OF ok, of noIntent ctx it]
  have m': "m' = m\<lparr>cm_prefix := ?b\<rparr>" using assms(2) by (simp add: manager_build_def Let_def)
  obtain s where s: "sp_snapshot ?b = Some s" using b(3) by auto
  then have f: "sn_fingerprint s = sn_fingerprint (takeSnapshot noIntent ctx it)" using b(2) by (simp add: prefix_fingerprint_def)
  obtain intent where i: "sn_fingerprint s = computeFingerprint (sn_systemPrompt s) (sn_tools s) intent"
    using b(1) s by (auto simp: prefix_ok_def)
  have r: "r = Inr (sn_systemPrompt s, cm_log m, sn_tools s)"
    using assms(2) s by (simp add: manager_build_def Let_def prefix_toContext_def)
  have again: "snd (prefix_build noIntent ?b ctx it) = ?b" using s f by (simp add: prefix_build_def [of noIntent ?b] Let_def)
  have "manager_build noIntent m' ctx it = (r, m')"
    unfolding m' r by (simp add: manager_build_def Let_def again prefix_toContext_def s)
  moreover have "if prefix_fingerprint (cm_prefix m) = sn_fingerprint (takeSnapshot noIntent ctx it) \<and> prefix_built (cm_prefix m)
     then m' = m else sp_snapshot (cm_prefix m') = Some (takeSnapshot noIntent ctx it)"
    unfolding m' by (cases "sp_snapshot (cm_prefix m)")
      (auto simp: prefix_build_def Let_def prefix_fingerprint_def prefix_built_def)
  ultimately show ?thesis using r f i by (intro exI [of _ "sn_systemPrompt s"] exI [of _ "sn_tools s"] exI [of _ intent]) simp
qed

theorem prefix_is_current_witness:
  "\<exists>r m'. manager_build False new_manager \<lparr>ac_systemPrompt = [js ''hi''], ac_tools = None\<rparr> True = (r, m') \<and>
    r = Inr ([js ''hi''], [], []) \<and> manager_build False m' \<lparr>ac_systemPrompt = [js ''hi''], ac_tools = None\<rparr> True = (r, m')"
proof -
  let ?c = "\<lparr>ac_systemPrompt = [js ''hi''], ac_tools = None\<rparr>"
  obtain r m' where b: "manager_build False new_manager ?c True = (r, m')" by (cases "manager_build False new_manager ?c True")
  have "r = Inr ([js ''hi''], [], [])"
    using b by (simp add: manager_build_def new_manager_def prefix_build_def prefix_toContext_def takeSnapshot_def normalizeTools_def Let_def)
  then show ?thesis using b prefix_is_current [OF manager_reach.New b] by blast
qed

text \<open>
  The intent field.  Injecting it into an object schema puts the field first among the properties
  and keeps the others in order, makes it required in the mode that asks for it without dropping
  another required name, leaves every other key of the schema alone, and does nothing when it is
  done again.
\<close>

theorem intent_injected:
  assumes "injectIntentIntoSchema (JObject kvs) require = s" "distinct (map fst (properties_of kvs))"
  shows "\<exists>kvs' x. s = JObject kvs' \<and>
    properties_of kvs' = (INTENT_FIELD, x) # filter (\<lambda>kv. fst kv \<noteq> INTENT_FIELD) (properties_of kvs) \<and>
    set (required_of kvs) \<subseteq> set (required_of kvs') \<and> set (required_of kvs') \<subseteq> insert INTENT_FIELD (set (required_of kvs)) \<and>
    (require \<longrightarrow> INTENT_FIELD \<in> set (required_of kvs')) \<and>
    (\<forall>k. k \<noteq> js ''properties'' \<and> k \<noteq> js ''required'' \<longrightarrow> map_of kvs' k = map_of kvs k) \<and>
    injectIntentIntoSchema s require = s"
proof -
  have again: "injectIntentIntoSchema (JObject kvs') require = JObject kvs'"
    if p: "properties_of kvs' = (INTENT_FIELD, x) # ps" and q: "require \<longrightarrow> INTENT_FIELD \<in> set (required_of kvs')" for kvs' x ps
  proof -
    have "map_of (properties_of kvs') INTENT_FIELD = Some x" "fst (hd (properties_of kvs')) = INTENT_FIELD" using p by simp_all
    then show ?thesis using q unfolding injectIntentIntoSchema_def properties_of_def required_of_def Let_def by auto
  qed
  have rest: "tl (properties_of kvs) = filter (\<lambda>kv. fst kv \<noteq> INTENT_FIELD) (properties_of kvs)"
    if first: "properties_of kvs = (INTENT_FIELD, x) # tl (properties_of kvs)" for x
  proof -
    obtain ps where ps: "properties_of kvs = (INTENT_FIELD, x) # ps" using first by blast
    then have "INTENT_FIELD \<notin> fst ` set ps" using assms(2) by simp
    then have "filter (\<lambda>kv. fst kv \<noteq> INTENT_FIELD) ps = ps" by (force simp: filter_id_conv)
    then show ?thesis using ps by simp
  qed
  show ?thesis
  proof (cases rule: inject_cases [of kvs "require"])
    case (keep x)
    then show ?thesis using assms(1) rest [OF keep(2)] by (intro exI [of _ kvs] exI [of _ x]) auto
  next
    case (require x)
    let ?k = "with_required True (required_of kvs) kvs"
    have "injectIntentIntoSchema (JObject ?k) require = JObject ?k"
      by (rule again [of _ x "tl (properties_of kvs)"]) (use require(2) in \<open>simp_all add: with_required_fields\<close>)
    then show ?thesis using assms(1) require rest [OF require(2)]
      by (intro exI [of _ ?k] exI [of _ x]) (auto simp: with_required_fields)
  next
    case (move x n ps)
    let ?k = "with_required n (required_of kvs) (map_set kvs (js ''properties'') (JObject ((INTENT_FIELD, x) # ps)))"
    have "injectIntentIntoSchema (JObject ?k) require = JObject ?k"
      by (rule again [of _ x ps]) (simp_all only: with_required_fields(1,2) set_properties_fields(1,2), use move(3) in auto)
    moreover have "properties_of ?k = (INTENT_FIELD, x) # ps"
      "required_of ?k = (if n then required_of kvs @ [INTENT_FIELD] else required_of kvs)"
      by (simp_all only: with_required_fields(1,2) set_properties_fields(1,2))
    moreover have "k \<noteq> js ''properties'' \<and> k \<noteq> js ''required'' \<longrightarrow> map_of ?k k = map_of kvs k" for k
      using with_required_fields(3) [of k] set_properties_fields(3) [of k] by metis
    ultimately show ?thesis using assms(1) move by (intro exI [of _ ?k] exI [of _ x]) auto
  qed
qed

theorem intent_injected_witness:
  "\<exists>kvs'. injectIntentIntoSchema (JObject [(js ''properties'', JObject [(js ''path'', JNull)]), (js ''required'', JArray [JString (js ''path'')])]) True =
      JObject kvs' \<and> map fst (properties_of kvs') = [js ''_i'', js ''path''] \<and> INTENT_FIELD \<in> set (required_of kvs')"
proof -
  let ?kvs = "[(js ''properties'', JObject [(js ''path'', JNull)]), (js ''required'', JArray [JString (js ''path'')])]"
  have p: "properties_of ?kvs = [(js ''path'', JNull)]" by code_simp
  have d: "distinct (map fst (properties_of ?kvs))" unfolding p by simp
  from intent_injected [OF refl d, of True] obtain kvs' x where
    "injectIntentIntoSchema (JObject ?kvs) True = JObject kvs'"
    "properties_of kvs' = (INTENT_FIELD, x) # filter (\<lambda>kv. fst kv \<noteq> INTENT_FIELD) (properties_of ?kvs)"
    "INTENT_FIELD \<in> set (required_of kvs')" by blast
  then show ?thesis unfolding p by (intro exI [of _ kvs']) (simp add: INTENT_FIELD_def)
qed

end
