(* ===== verification/Tool_Batch.thy ===== *)
theory Tool_Batch
  imports Session_Types "HOL-Library.Multiset"
begin

text \<open>
  Running the tool calls of one assistant message: \<open>executeToolCalls\<close> of
  \<open>packages/agent/src/agent-loop.ts\<close>.  The calls are tasks that wait for the tasks before them
  as their concurrency demands, run in any interleaving, are interrupted when the user has queued
  a steering message, and each leave exactly one tool result.  What a tool answers, whether a hook
  blocks it and when a task throws are choices of the environment, so the batch is a step relation.
  Arguments and details other than task usage are left out.
\<close>

section \<open>Events\<close>

datatype agent_event =
    AgentStart
  | AgentEnd "message list"
  | TurnStart
  | TurnEnd message "tool_result list"
  | MessageStart message
  | MessageUpdate message
  | MessageEnd message
  | ToolExecutionStart jstring jstring
  | ToolExecutionUpdate jstring jstring
  | ToolExecutionEnd jstring jstring bool

text \<open>The messages that were reported as complete.\<close>

fun ended_messages :: "agent_event list \<Rightarrow> message list" where
  "ended_messages [] = []"
| "ended_messages (MessageEnd m # es) = m # ended_messages es"
| "ended_messages (_ # es) = ended_messages es"

section \<open>Tools\<close>

datatype model_tier = InterfaceTier | WorkerTier | CompactorTier

datatype concurrency = Shared | Exclusive

record agent_tool =
  at_name :: jstring
  at_customWireName :: "jstring option"
  at_concurrency :: "concurrency option"
  at_allowedTiers :: "model_tier list option"

definition isToolAllowedForTier :: "agent_tool option \<Rightarrow> model_tier \<Rightarrow> bool" where
  "isToolAllowedForTier tool tier =
     (case tool of
        None \<Rightarrow> True
      | Some t \<Rightarrow>
          (case at_allowedTiers t of
             None \<Rightarrow> True
           | Some allowed \<Rightarrow> allowed = [] \<or> tier \<in> set allowed))"

text \<open>The tool of a call: by its name, else by its name on the wire.\<close>

definition find_tool :: "agent_tool list \<Rightarrow> tool_call \<Rightarrow> agent_tool option" where
  "find_tool tools call =
     (case find (\<lambda>t. at_name t = tc_name call) tools of
        Some t \<Rightarrow> Some t
      | None \<Rightarrow> find (\<lambda>t. at_customWireName t = Some (tc_name call)) tools)"

definition tool_calls :: "assistant_message \<Rightarrow> tool_call list" where
  "tool_calls a = List.map_filter (\<lambda>b. case b of ToolCall tc \<Rightarrow> Some tc | _ \<Rightarrow> None) (am_content a)"

section \<open>State\<close>

record tool_record =
  rc_call :: tool_call
  rc_tool :: "agent_tool option"
  rc_started :: bool
  rc_skipped :: bool
  rc_message :: "tool_result option"
  rc_resultEmitted :: bool

text \<open>
  A task waits for its start promise, prepares the call (arguments, validation, hooks), executes
  the tool, checks for steering messages and returns; an exception rejects it.
\<close>

datatype task = Waiting | Preparing | Executing | Checking | Returning | Settled | Rejected

record batch =
  bt_records :: "tool_record list"
  bt_tasks :: "task list"
  bt_triggered :: bool
  bt_steering :: "message list option"
  bt_check :: "message list option"
  bt_emitted :: "tool_result list"
  bt_events :: "agent_event list"

text \<open>\<open>bt_check\<close>: the steering messages that the check in flight has taken from the queue.\<close>

definition new_record :: "agent_tool list \<Rightarrow> tool_call \<Rightarrow> tool_record" where
  "new_record tools call =
     \<lparr>rc_call = call, rc_tool = find_tool tools call, rc_started = False, rc_skipped = False,
      rc_message = None, rc_resultEmitted = False\<rparr>"

definition new_batch :: "agent_tool list \<Rightarrow> assistant_message \<Rightarrow> agent_event list \<Rightarrow> batch" where
  "new_batch tools a events =
     \<lparr>bt_records = map (new_record tools) (tool_calls a),
      bt_tasks = replicate (length (tool_calls a)) Waiting,
      bt_triggered = False, bt_steering = None, bt_check = None, bt_emitted = [], bt_events = events\<rparr>"

section \<open>Scheduling\<close>

text \<open>
  The loop that chains the tasks: an exclusive one waits for the last exclusive one and all shared
  ones since, a shared one for the last exclusive one.
\<close>

definition opt_list :: "'a option \<Rightarrow> 'a list" where
  "opt_list x = (case x of None \<Rightarrow> [] | Some y \<Rightarrow> [y])"

fun chain_tasks :: "bool list \<Rightarrow> nat \<Rightarrow> nat option \<Rightarrow> nat list \<Rightarrow> nat list list" where
  "chain_tasks [] i lastExclusive sharedTasks = []"
| "chain_tasks (exclusive # es) i lastExclusive sharedTasks =
     (if exclusive
      then (opt_list lastExclusive @ sharedTasks) # chain_tasks es (Suc i) (Some i) []
      else opt_list lastExclusive # chain_tasks es (Suc i) lastExclusive (sharedTasks @ [i]))"

definition is_exclusive :: "tool_record \<Rightarrow> bool" where
  "is_exclusive r =
     (case rc_tool r of
        None \<Rightarrow> False
      | Some t \<Rightarrow> (case at_concurrency t of Some Exclusive \<Rightarrow> True | _ \<Rightarrow> False))"

definition start_deps :: "batch \<Rightarrow> nat list list" where
  "start_deps b = chain_tasks (map is_exclusive (bt_records b)) 0 None []"

section \<open>Operations\<close>

definition createSkippedToolResult :: "content list" where
  "createSkippedToolResult = [TextContent (js ''Skipped due to queued user message.'')]"

definition result_message :: "tool_call \<Rightarrow> content list \<Rightarrow> usage option \<Rightarrow> bool \<Rightarrow> tool_result" where
  "result_message call content details isError =
     \<lparr>tr_toolCallId = tc_id call, tr_toolName = tc_name call, tr_content = content,
      tr_taskUsage = details, tr_isError = isError, tr_prunedAt = None\<rparr>"

definition push_event :: "agent_event \<Rightarrow> batch \<Rightarrow> batch" where
  "push_event e b = b\<lparr>bt_events := bt_events b @ [e]\<rparr>"

definition set_task :: "nat \<Rightarrow> task \<Rightarrow> batch \<Rightarrow> batch" where
  "set_task i t b = b\<lparr>bt_tasks := (bt_tasks b)[i := t]\<rparr>"

definition set_record :: "nat \<Rightarrow> (tool_record \<Rightarrow> tool_record) \<Rightarrow> batch \<Rightarrow> batch" where
  "set_record i f b = b\<lparr>bt_records := (bt_records b)[i := f (bt_records b ! i)]\<rparr>"

definition start_event :: "tool_call \<Rightarrow> agent_event" where
  "start_event call = ToolExecutionStart (tc_id call) (tc_name call)"

definition emitToolResult :: "nat \<Rightarrow> content list \<Rightarrow> usage option \<Rightarrow> bool \<Rightarrow> batch \<Rightarrow> batch" where
  "emitToolResult i content details isError b =
     (let r = bt_records b ! i; call = rc_call r; m = result_message call content details isError
      in if rc_resultEmitted r then b
         else (set_record i (\<lambda>r. r\<lparr>rc_message := Some m, rc_resultEmitted := True\<rparr>) b)
           \<lparr>bt_emitted := bt_emitted b @ [m],
            bt_events := bt_events b @ (if rc_started r then [] else [start_event call]) @
              [ToolExecutionEnd (tc_id call) (tc_name call) isError,
               MessageStart (ToolResultMessage m), MessageEnd (ToolResultMessage m)]\<rparr>)"

definition skip_record :: "nat \<Rightarrow> batch \<Rightarrow> batch" where
  "skip_record i b = set_record i (\<lambda>r. r\<lparr>rc_skipped := True\<rparr>) b"

text \<open>The beginning of \<open>runTool\<close>, once the start promise is there.\<close>

definition begin_tool :: "nat \<Rightarrow> batch \<Rightarrow> batch" where
  "begin_tool i b =
     (if bt_triggered b then set_task i Returning (skip_record i b)
      else push_event (start_event (rc_call (bt_records b ! i)))
        (set_task i Preparing (set_record i (\<lambda>r. r\<lparr>rc_started := True\<rparr>) b)))"

text \<open>Its end: the result, or the notice that the call was interrupted, then \<open>checkSteering\<close>.\<close>

definition finish_tool :: "bool \<Rightarrow> nat \<Rightarrow> content list \<Rightarrow> usage option \<Rightarrow> bool \<Rightarrow> batch \<Rightarrow> batch" where
  "finish_tool immediate i content details isError b =
     (if bt_triggered b
      then set_task i Returning (emitToolResult i createSkippedToolResult None True (skip_record i b))
      else set_task i (if immediate then Checking else Returning) (emitToolResult i content details isError b))"

definition after_check :: "task \<Rightarrow> batch \<Rightarrow> batch" where
  "after_check t b = b\<lparr>bt_tasks := map (\<lambda>u. if u = Checking then t else u) (bt_tasks b)\<rparr>"

text \<open>The check for steering messages answers.\<close>

definition resolve_check :: "message list \<Rightarrow> batch \<Rightarrow> batch" where
  "resolve_check steering b =
     after_check Returning
       (if steering = [] then b\<lparr>bt_check := None\<rparr>
        else b\<lparr>bt_check := None, bt_steering := Some steering, bt_triggered := True\<rparr>)"

definition all_done :: "batch \<Rightarrow> bool" where
  "all_done b = list_all (\<lambda>t. t = Settled \<or> t = Rejected) (bt_tasks b)"

text \<open>The loop after the tasks: a call without a result gets one.\<close>

definition sweep_record :: "batch \<Rightarrow> nat \<Rightarrow> batch" where
  "sweep_record b i =
     (if rc_message (bt_records b ! i) \<noteq> None then b
      else emitToolResult i createSkippedToolResult None True (skip_record i b))"

definition sweep :: "batch \<Rightarrow> batch" where
  "sweep b = foldl sweep_record b [0..<length (bt_records b)]"

section \<open>Steps\<close>

text \<open>
  A step may take steering messages from the queue: these are its label.  \<open>immediate\<close> is the
  interrupt mode, \<open>tier\<close> the active tier.
\<close>

inductive batch_step :: "bool \<Rightarrow> model_tier \<Rightarrow> batch \<Rightarrow> message list option \<Rightarrow> batch \<Rightarrow> bool"
  for immediate :: bool and tier :: model_tier where
  Begin: "\<lbrakk>i < length (bt_tasks b); bt_tasks b ! i = Waiting;
      \<forall>d\<in>set (start_deps b ! i). bt_tasks b ! d = Settled\<rbrakk> \<Longrightarrow>
    batch_step immediate tier b None (begin_tool i b)"
| Refuse: "\<lbrakk>i < length (bt_tasks b); bt_tasks b ! i = Waiting;
      \<forall>d\<in>set (start_deps b ! i). bt_tasks b ! d = Settled; \<not> bt_triggered b\<rbrakk> \<Longrightarrow>
    batch_step immediate tier b None (set_task i Rejected b)"
| Propagate: "\<lbrakk>i < length (bt_tasks b); bt_tasks b ! i = Waiting;
      d \<in> set (start_deps b ! i); bt_tasks b ! d = Rejected\<rbrakk> \<Longrightarrow>
    batch_step immediate tier b None (set_task i Rejected b)"
| Execute: "\<lbrakk>i < length (bt_tasks b); bt_tasks b ! i = Preparing;
      rc_tool (bt_records b ! i) = Some t; isToolAllowedForTier (Some t) tier\<rbrakk> \<Longrightarrow>
    batch_step immediate tier b None (set_task i Executing b)"
| Update: "\<lbrakk>i < length (bt_tasks b); bt_tasks b ! i = Preparing \<or> bt_tasks b ! i = Executing\<rbrakk> \<Longrightarrow>
    batch_step immediate tier b None
      (push_event (ToolExecutionUpdate (tc_id (rc_call (bt_records b ! i))) (tc_name (rc_call (bt_records b ! i)))) b)"
| Finish: "\<lbrakk>i < length (bt_tasks b); bt_tasks b ! i = Preparing \<or> bt_tasks b ! i = Executing\<rbrakk> \<Longrightarrow>
    batch_step immediate tier b None (finish_tool immediate i content details isError b)"
| Throws: "\<lbrakk>i < length (bt_tasks b); bt_tasks b ! i = Preparing \<or> bt_tasks b ! i = Executing\<rbrakk> \<Longrightarrow>
    batch_step immediate tier b None (set_task i Rejected b)"
| Poll: "\<lbrakk>Checking \<in> set (bt_tasks b); bt_check b = None\<rbrakk> \<Longrightarrow>
    batch_step immediate tier b (Some steering) (b\<lparr>bt_check := Some steering\<rparr>)"
| PollFails: "\<lbrakk>Checking \<in> set (bt_tasks b); bt_check b = None\<rbrakk> \<Longrightarrow>
    batch_step immediate tier b None (after_check Rejected b)"
| Resolve: "bt_check b = Some steering \<Longrightarrow> batch_step immediate tier b None (resolve_check steering b)"
| Settle: "\<lbrakk>i < length (bt_tasks b); bt_tasks b ! i = Returning\<rbrakk> \<Longrightarrow>
    batch_step immediate tier b None (set_task i Settled b)"

text \<open>The batches of one call of \<open>executeToolCalls\<close>, with the steering messages taken so far.\<close>

inductive batch_run :: "bool \<Rightarrow> model_tier \<Rightarrow> batch \<Rightarrow> message list \<Rightarrow> batch \<Rightarrow> bool"
  for immediate :: bool and tier :: model_tier and b0 :: batch where
  Start: "batch_run immediate tier b0 [] b0"
| Internal: "\<lbrakk>batch_run immediate tier b0 ms b; batch_step immediate tier b None b'\<rbrakk> \<Longrightarrow>
    batch_run immediate tier b0 ms b'"
| Taken: "\<lbrakk>batch_run immediate tier b0 ms b; batch_step immediate tier b (Some qs) b'\<rbrakk> \<Longrightarrow>
    batch_run immediate tier b0 (ms @ qs) b'"


section \<open>The chain of start promises\<close>

definition last_exclusive :: "bool list \<Rightarrow> nat option" where
  "last_exclusive es = find (\<lambda>k. es ! k) (rev [0..<length es])"

definition shared_since :: "bool list \<Rightarrow> nat list" where
  "shared_since es = filter (\<lambda>k. case last_exclusive es of None \<Rightarrow> True | Some m \<Rightarrow> m < k) [0..<length es]"

lemma find_nth_append:
  "find (\<lambda>k. (es @ fs) ! k) (rev [0..<length es]) = find (\<lambda>k. es ! k) (rev [0..<length es])"
  by (rule find_cong) (auto simp: nth_append)

lemma last_exclusive_snoc:
  "last_exclusive [] = None"
  "last_exclusive (es @ [True]) = Some (length es)"
  "last_exclusive (es @ [False]) = last_exclusive es"
  using find_nth_append [of es "[False]"] by (simp_all add: last_exclusive_def)

lemma shared_since_snoc:
  "shared_since [] = []"
  "shared_since (es @ [True]) = []"
  "shared_since (es @ [False]) = shared_since es @ [length es]"
proof -
  show "shared_since [] = []" by (simp add: shared_since_def)
  show "shared_since (es @ [True]) = []"
    by (simp add: shared_since_def last_exclusive_snoc filter_empty_conv)
  have "m < length es" if "last_exclusive es = Some m" for m
    using that by (auto simp: last_exclusive_def find_Some_iff) (metis (no_types, lifting) length_rev length_upt nth_mem set_rev atLeastLessThan_iff set_upt minus_nat.diff_0)
  then show "shared_since (es @ [False]) = shared_since es @ [length es]"
    by (auto simp: shared_since_def last_exclusive_snoc split: option.splits)
qed

lemma chain_tasks_nth:
  "k < length es \<Longrightarrow>
   chain_tasks es (length pre) (last_exclusive pre) (shared_since pre) ! k =
     opt_list (last_exclusive (pre @ take k es)) @ (if es ! k then shared_since (pre @ take k es) else [])"
proof (induction es arbitrary: pre k)
  case (Cons e es)
  show ?case
  proof (cases k)
    case 0
    then show ?thesis by simp
  next
    case (Suc k')
    have "chain_tasks (e # es) (length pre) (last_exclusive pre) (shared_since pre) ! k =
        chain_tasks es (length (pre @ [e])) (last_exclusive (pre @ [e])) (shared_since (pre @ [e])) ! k'"
      by (cases e) (simp_all add: Suc last_exclusive_snoc shared_since_snoc)
    then show ?thesis using Cons.IH [of k' "pre @ [e]"] Cons.prems Suc by simp
  qed
qed simp

lemma length_chain_tasks [simp]: "length (chain_tasks es i l s) = length es"
  by (induction es i l s rule: chain_tasks.induct) simp_all

text \<open>What task \<open>j\<close> waits for.\<close>

lemma last_exclusive_Some:
  "last_exclusive es = Some m \<longleftrightarrow> m < length es \<and> es ! m \<and> (\<forall>k. m < k \<and> k < length es \<longrightarrow> \<not> es ! k)"
proof (induction es rule: rev_induct)
  case (snoc e es)
  then show ?case by (cases e) (auto simp: last_exclusive_snoc nth_append less_Suc_eq)
qed (simp add: last_exclusive_snoc)

lemma last_exclusive_None: "last_exclusive es = None \<longleftrightarrow> (\<forall>k<length es. \<not> es ! k)"
  by (auto simp: last_exclusive_def find_None_iff)

lemma deps_iff:
  assumes "j < length es"
  shows "i \<in> set (chain_tasks es 0 None [] ! j) \<longleftrightarrow>
    i < j \<and> (es ! i \<or> es ! j) \<and> (\<forall>k. i < k \<and> k < j \<longrightarrow> \<not> es ! k)"
proof -
  have d: "chain_tasks es 0 None [] ! j =
      opt_list (last_exclusive (take j es)) @ (if es ! j then shared_since (take j es) else [])"
    using chain_tasks_nth [of j es "[]"] assms by (simp add: last_exclusive_snoc shared_since_snoc)
  show ?thesis
  proof (cases "last_exclusive (take j es)")
    case None
    then have "\<forall>k<j. \<not> es ! k" using assms by (simp add: last_exclusive_None)
    then show ?thesis using d None assms
      by (auto simp: opt_list_def shared_since_def)
  next
    case (Some m)
    then have "m < j" "es ! m" "\<forall>k. m < k \<and> k < j \<longrightarrow> \<not> es ! k"
      using assms by (auto simp: last_exclusive_Some)
    then show ?thesis using d Some assms
      by (auto simp: opt_list_def shared_since_def) (metis linorder_neqE_nat)+
  qed
qed


text \<open>Of two tasks one of which is exclusive, the later waits for the earlier, if through others.\<close>

lemma exclusive_before:
  assumes "i < j" "j < length es" "es ! i \<or> es ! j"
  shows "(i, j) \<in> {(d, k). k < length es \<and> d \<in> set (chain_tasks es 0 None [] ! k)}\<^sup>+"
  using assms
proof (induction j rule: less_induct)
  case (less j)
  let ?R = "{(d, k). k < length es \<and> d \<in> set (chain_tasks es 0 None [] ! k)}"
  show ?case
  proof (cases "\<forall>k. i < k \<and> k < j \<longrightarrow> \<not> es ! k")
    case True
    then have "(i, j) \<in> ?R" using less.prems by (simp add: deps_iff)
    then show ?thesis by blast
  next
    case False
    then obtain k where k: "i < k" "k < j" "es ! k" by blast
    obtain m where l: "last_exclusive (take j es) = Some m"
      using k less.prems by (cases "last_exclusive (take j es)") (auto simp: last_exclusive_None)
    then have m: "m < j" "es ! m" "\<forall>k. m < k \<and> k < j \<longrightarrow> \<not> es ! k"
      using less.prems by (auto simp: last_exclusive_Some)
    have "i < m" using m(3) k by (metis linorder_neqE_nat order_less_trans)
    then have "(i, m) \<in> ?R\<^sup>+" using m less.prems by (intro less.IH) auto
    moreover have "(m, j) \<in> ?R" using m less.prems by (simp add: deps_iff)
    ultimately show ?thesis by (rule trancl_into_trancl)
  qed
qed

lemma deps_less: "\<lbrakk>j < length es; i \<in> set (chain_tasks es 0 None [] ! j)\<rbrakk> \<Longrightarrow> i < j"
  by (simp add: deps_iff)


section \<open>Fields of the operations\<close>

lemma map_filter_upd_same:
  "\<lbrakk>i < length rs; g r' = g (rs ! i)\<rbrakk> \<Longrightarrow> List.map_filter g (rs[i := r']) = List.map_filter g rs"
proof (induction rs arbitrary: i)
  case (Cons r rs)
  then show ?case by (cases i) (auto simp: List.map_filter_simps split: option.split)
qed simp

lemma map_filter_upd_new:
  "\<lbrakk>i < length rs; g (rs ! i) = None; g r' = Some m\<rbrakk> \<Longrightarrow>
   mset (List.map_filter g (rs[i := r'])) = add_mset m (mset (List.map_filter g rs))"
proof (induction rs arbitrary: i)
  case (Cons r rs)
  then show ?case by (cases i) (auto simp: List.map_filter_simps split: option.split)
qed simp

lemma set_task_fields [simp]:
  "bt_tasks (set_task i t b) = (bt_tasks b)[i := t]" "bt_records (set_task i t b) = bt_records b"
  "bt_triggered (set_task i t b) = bt_triggered b" "bt_steering (set_task i t b) = bt_steering b"
  "bt_check (set_task i t b) = bt_check b" "bt_emitted (set_task i t b) = bt_emitted b"
  "bt_events (set_task i t b) = bt_events b"
  by (simp_all add: set_task_def)

lemma set_record_fields [simp]:
  "bt_tasks (set_record i f b) = bt_tasks b" "bt_records (set_record i f b) = (bt_records b)[i := f (bt_records b ! i)]"
  "bt_triggered (set_record i f b) = bt_triggered b" "bt_steering (set_record i f b) = bt_steering b"
  "bt_check (set_record i f b) = bt_check b" "bt_emitted (set_record i f b) = bt_emitted b"
  "bt_events (set_record i f b) = bt_events b"
  by (simp_all add: set_record_def)

lemma push_event_fields [simp]:
  "bt_tasks (push_event e b) = bt_tasks b" "bt_records (push_event e b) = bt_records b"
  "bt_triggered (push_event e b) = bt_triggered b" "bt_steering (push_event e b) = bt_steering b"
  "bt_check (push_event e b) = bt_check b" "bt_emitted (push_event e b) = bt_emitted b"
  "bt_events (push_event e b) = bt_events b @ [e]"
  by (simp_all add: push_event_def)

lemma emit_fields [simp]:
  "bt_tasks (emitToolResult i c d x b) = bt_tasks b" "bt_triggered (emitToolResult i c d x b) = bt_triggered b"
  "bt_steering (emitToolResult i c d x b) = bt_steering b" "bt_check (emitToolResult i c d x b) = bt_check b"
  by (simp_all add: emitToolResult_def Let_def)

text \<open>The call and the tool of a record never change.\<close>

definition frame :: "batch \<Rightarrow> (tool_call \<times> agent_tool option) list" where
  "frame b = map (\<lambda>r. (rc_call r, rc_tool r)) (bt_records b)"

lemma frame_update:
  "(rc_call r', rc_tool r') = (rc_call (rs ! i), rc_tool (rs ! i)) \<Longrightarrow>
   map (\<lambda>r. (rc_call r, rc_tool r)) (rs[i := r']) = map (\<lambda>r. (rc_call r, rc_tool r)) rs"
  by (metis (no_types, lifting) list_update_id map_update)

lemma frame_parts [simp]:
  "frame (set_task i t b) = frame b" "frame (push_event e b) = frame b"
  "frame (skip_record i b) = frame b" "frame (emitToolResult i c d x b) = frame b"
  "frame (set_record i (\<lambda>r. r\<lparr>rc_started := v\<rparr>) b) = frame b"
  "frame (after_check t b) = frame b" "frame (b\<lparr>bt_check := q\<rparr>) = frame b"
  by (simp_all add: frame_def skip_record_def emitToolResult_def after_check_def frame_update Let_def)

lemma frame_tool [simp]:
  "frame (begin_tool i b) = frame b" "frame (finish_tool im i c d x b) = frame b"
  "frame (resolve_check ms b) = frame b"
  by (simp_all add: begin_tool_def finish_tool_def resolve_check_def) (simp add: frame_def)

lemma frame_length: "frame b = frame b' \<Longrightarrow> length (bt_records b) = length (bt_records b')"
  by (metis frame_def length_map)

lemma frame_exclusive: "frame b = frame b' \<Longrightarrow> map is_exclusive (bt_records b) = map is_exclusive (bt_records b')"
proof -
  have "map is_exclusive (bt_records c) = map (\<lambda>p. case snd p of
      None \<Rightarrow> False | Some t \<Rightarrow> (case at_concurrency t of Some Exclusive \<Rightarrow> True | _ \<Rightarrow> False)) (frame c)" for c
    by (simp add: frame_def is_exclusive_def)
  then show "frame b = frame b' \<Longrightarrow> ?thesis" by simp
qed

lemma frame_deps: "frame b = frame b' \<Longrightarrow> start_deps b = start_deps b'"
  using frame_exclusive [of b b'] by (simp add: start_deps_def)

lemma step_frame:
  assumes "batch_step im tier b q b'"
  shows "frame b' = frame b"
  using assms by cases simp_all

lemma tasks_simps [simp]:
  "bt_tasks (skip_record i b) = bt_tasks b"
  "bt_tasks (begin_tool i b) = (bt_tasks b)[i := if bt_triggered b then Returning else Preparing]"
  "bt_tasks (finish_tool im i c d x b) =
     (bt_tasks b)[i := if bt_triggered b \<or> \<not> im then Returning else Checking]"
  "bt_tasks (after_check t b) = map (\<lambda>u. if u = Checking then t else u) (bt_tasks b)"
  "bt_tasks (resolve_check ms b) = map (\<lambda>u. if u = Checking then Returning else u) (bt_tasks b)"
  by (simp_all add: skip_record_def begin_tool_def finish_tool_def after_check_def resolve_check_def)

section \<open>Exclusive tools run alone\<close>

definition schedule_ok :: "batch \<Rightarrow> bool" where
  "schedule_ok b \<longleftrightarrow> length (bt_tasks b) = length (bt_records b) \<and>
     (\<forall>i<length (bt_tasks b). bt_tasks b ! i \<notin> {Waiting, Rejected} \<longrightarrow>
       (\<forall>d\<in>set (start_deps b ! i). bt_tasks b ! d = Settled))"

lemma deps_bound:
  "\<lbrakk>length (bt_tasks b) = length (bt_records b); i < length (bt_tasks b); d \<in> set (start_deps b ! i)\<rbrakk> \<Longrightarrow> d < i"
  using deps_less [of i "map is_exclusive (bt_records b)" d] by (simp add: start_deps_def)

lemma schedule_length: "schedule_ok b \<Longrightarrow> length (bt_tasks b) = length (bt_records b)"
  by (simp add: schedule_ok_def)

lemma scheduleD:
  "\<lbrakk>schedule_ok b; i < length (bt_tasks b); bt_tasks b ! i \<noteq> Waiting; bt_tasks b ! i \<noteq> Rejected;
    d \<in> set (start_deps b ! i)\<rbrakk> \<Longrightarrow> bt_tasks b ! d = Settled"
  unfolding schedule_ok_def by blast

lemma scheduleI:
  assumes "schedule_ok b" "frame b' = frame b" "length (bt_tasks b') = length (bt_tasks b)"
    and "\<And>i d. \<lbrakk>i < length (bt_tasks b); bt_tasks b' ! i \<noteq> Waiting; bt_tasks b' ! i \<noteq> Rejected;
      d \<in> set (start_deps b ! i); d < i\<rbrakk> \<Longrightarrow> bt_tasks b' ! d = Settled"
  shows "schedule_ok b'"
proof -
  have "start_deps b' = start_deps b" "length (bt_records b') = length (bt_records b)"
    using frame_deps [OF assms(2)] frame_length [OF assms(2)] by blast+
  moreover have "d < i" if "i < length (bt_tasks b)" "d \<in> set (start_deps b ! i)" for i d
    by (rule deps_bound [OF schedule_length [OF assms(1)] that])
  ultimately show ?thesis
    unfolding schedule_ok_def using assms(3,4) schedule_length [OF assms(1)] by (metis insertCI)
qed

lemma schedule_update:
  assumes "schedule_ok b" "i < length (bt_tasks b)" "bt_tasks b ! i \<noteq> Settled"
    and "bt_tasks b' = (bt_tasks b)[i := t]" "frame b' = frame b"
    and "t \<noteq> Rejected \<Longrightarrow> \<forall>d\<in>set (start_deps b ! i). bt_tasks b ! d = Settled"
  shows "schedule_ok b'"
proof (rule scheduleI [OF assms(1,5)])
  show "length (bt_tasks b') = length (bt_tasks b)" by (simp add: assms(4))
  fix k d assume k: "k < length (bt_tasks b)" "bt_tasks b' ! k \<noteq> Waiting" "bt_tasks b' ! k \<noteq> Rejected"
    "d \<in> set (start_deps b ! k)" "d < k"
  have "bt_tasks b ! d = Settled"
  proof (cases "k = i")
    case True
    then show ?thesis using k assms(2,4,6) by simp
  next
    case False
    then show ?thesis using k assms(1,4) by (intro scheduleD [of b k]) simp_all
  qed
  moreover from this have "d \<noteq> i" using assms(3) by blast
  ultimately show "bt_tasks b' ! d = Settled" by (simp add: assms(4))
qed

lemma schedule_map:
  assumes "schedule_ok b" "bt_tasks b' = map (\<lambda>u. if u = Checking then t else u) (bt_tasks b)" "frame b' = frame b"
  shows "schedule_ok b'"
proof (rule scheduleI [OF assms(1,3)])
  show "length (bt_tasks b') = length (bt_tasks b)" by (simp add: assms(2))
  fix k d assume k: "k < length (bt_tasks b)" "bt_tasks b' ! k \<noteq> Waiting" "bt_tasks b' ! k \<noteq> Rejected"
    "d \<in> set (start_deps b ! k)" "d < k"
  have "bt_tasks b ! k \<noteq> Waiting \<and> bt_tasks b ! k \<noteq> Rejected"
    using k(1-3) assms(2) by (cases "bt_tasks b ! k = Checking") simp_all
  then have "bt_tasks b ! d = Settled" using k by (intro scheduleD [OF assms(1), of k]) simp_all
  then show "bt_tasks b' ! d = Settled" using k by (simp add: assms(2))
qed

lemma schedule_same:
  assumes "schedule_ok b" "bt_tasks b' = bt_tasks b" "frame b' = frame b"
  shows "schedule_ok b'"
  by (rule scheduleI [OF assms(1,3)]) (use assms(2) scheduleD [OF assms(1)] in metis)+

lemma schedule_step:
  assumes "batch_step im tier b q b'" "schedule_ok b"
  shows "schedule_ok b'"
proof -
  note f = step_frame [OF assms(1)]
  have begun: "\<forall>d\<in>set (start_deps b ! i). bt_tasks b ! d = Settled"
    if "i < length (bt_tasks b)" "bt_tasks b ! i \<noteq> Waiting" "bt_tasks b ! i \<noteq> Rejected" for i
    using scheduleD [OF assms(2) that] by blast
  show ?thesis
    using assms(1)
  proof cases
    case (Begin i)
    show ?thesis by (rule schedule_update [OF assms(2), of i]) (use Begin f in simp_all)
  next
    case (Refuse i)
    show ?thesis by (rule schedule_update [OF assms(2), of i]) (use Refuse f in simp_all)
  next
    case (Propagate i)
    show ?thesis by (rule schedule_update [OF assms(2), of i]) (use Propagate f in auto)
  next
    case (Execute i)
    show ?thesis by (rule schedule_update [OF assms(2), of i]) (use Execute f begun [of i] in simp_all)
  next
    case (Finish i)
    show ?thesis by (rule schedule_update [OF assms(2), of i]) (use Finish f begun [of i] in auto)
  next
    case (Throws i)
    show ?thesis by (rule schedule_update [OF assms(2), of i]) (use Throws f in auto)
  next
    case (Settle i)
    show ?thesis by (rule schedule_update [OF assms(2), of i]) (use Settle f begun [of i] in simp_all)
  next
    case PollFails
    show ?thesis by (rule schedule_map [OF assms(2), of _ Rejected]) (use PollFails f in simp_all)
  next
    case (Resolve steering)
    show ?thesis by (rule schedule_map [OF assms(2), of _ Returning]) (use Resolve f in simp_all)
  qed (rule schedule_same [OF assms(2)], simp_all add: f)+
qed

lemma schedule_new: "schedule_ok (new_batch tools a events)"
  by (simp add: schedule_ok_def new_batch_def)

definition busy :: "task \<Rightarrow> bool" where "busy t \<longleftrightarrow> t = Preparing \<or> t = Executing"

lemma settled_before:
  assumes "schedule_ok b" "i < j" "j < length (bt_tasks b)" "bt_tasks b ! j \<noteq> Waiting" "bt_tasks b ! j \<noteq> Rejected"
    and "is_exclusive (bt_records b ! i) \<or> is_exclusive (bt_records b ! j)"
  shows "bt_tasks b ! i = Settled"
proof -
  let ?es = "map is_exclusive (bt_records b)"
  note l = schedule_length [OF assms(1)]
  have "(i, j) \<in> {(d, k). k < length ?es \<and> d \<in> set (chain_tasks ?es 0 None [] ! k)}\<^sup>+"
    using assms l by (intro exclusive_before) simp_all
  then show ?thesis using assms(3-5)
  proof (induction rule: converse_trancl_induct)
    case (base d)
    then show ?case using l by (intro scheduleD [OF assms(1), of j]) (simp_all add: start_deps_def)
  next
    case (step d k)
    then have k: "bt_tasks b ! k = Settled" "k < length (bt_tasks b)" "d \<in> set (start_deps b ! k)"
      using l by (simp_all add: start_deps_def)
    then show ?case by (intro scheduleD [OF assms(1), of k]) simp_all
  qed
qed


section \<open>Every call is answered once\<close>

definition result_key :: "tool_result \<Rightarrow> jstring \<times> jstring" where
  "result_key r = (tr_toolCallId r, tr_toolName r)"

definition call_key :: "tool_call \<Rightarrow> jstring \<times> jstring" where
  "call_key c = (tc_id c, tc_name c)"

lemma result_message_key [simp]: "result_key (result_message c content d x) = call_key c"
  by (simp add: result_key_def call_key_def result_message_def)

lemma ended_append [simp]: "ended_messages (xs @ ys) = ended_messages xs @ ended_messages ys"
  by (induction xs rule: ended_messages.induct) simp_all

definition record_ok :: "tool_record \<Rightarrow> bool" where
  "record_ok r \<longleftrightarrow> (rc_resultEmitted r \<longleftrightarrow> rc_message r \<noteq> None) \<and>
     (case rc_message r of None \<Rightarrow> True | Some m \<Rightarrow> result_key m = call_key (rc_call r))"

definition results_ok :: "message list \<Rightarrow> batch \<Rightarrow> bool" where
  "results_ok before b \<longleftrightarrow> (\<forall>r\<in>set (bt_records b). record_ok r) \<and>
     mset (bt_emitted b) = mset (List.map_filter rc_message (bt_records b)) \<and>
     ended_messages (bt_events b) = before @ map ToolResultMessage (bt_emitted b)"

lemma results_emit:
  assumes "results_ok before b" "i < length (bt_records b)"
  shows "results_ok before (emitToolResult i c d x b)"
proof (cases "rc_resultEmitted (bt_records b ! i)")
  case True
  then show ?thesis using assms(1) by (simp add: emitToolResult_def)
next
  case False
  let ?r = "bt_records b ! i" and ?m = "result_message (rc_call (bt_records b ! i)) c d x"
  have n: "rc_message ?r = None" using assms False unfolding results_ok_def record_ok_def by (metis nth_mem)
  have "\<forall>r\<in>set ((bt_records b)[i := ?r\<lparr>rc_message := Some ?m, rc_resultEmitted := True\<rparr>]). record_ok r"
    using assms by (auto simp: results_ok_def record_ok_def dest!: set_update_subset_insert [THEN subsetD])
  then show ?thesis
    using False assms n map_filter_upd_new [of i "bt_records b" rc_message "?r\<lparr>rc_message := Some ?m, rc_resultEmitted := True\<rparr>" ?m]
    by (simp add: results_ok_def emitToolResult_def Let_def start_event_def)
qed

lemma results_record:
  assumes "results_ok before b" "i < length (bt_records b)"
    and "\<And>r. rc_message (f r) = rc_message r \<and> rc_resultEmitted (f r) = rc_resultEmitted r \<and> rc_call (f r) = rc_call r"
  shows "results_ok before (set_record i f b)"
proof -
  have "record_ok (f (bt_records b ! i))"
    using assms unfolding results_ok_def record_ok_def by (metis nth_mem)
  then show ?thesis
    using assms map_filter_upd_same [of i "bt_records b" rc_message "f (bt_records b ! i)"]
    by (auto simp: results_ok_def dest!: set_update_subset_insert [THEN subsetD])
qed

lemma results_parts [simp]:
  "results_ok before (set_task i t b) = results_ok before b"
  "results_ok before (after_check t b) = results_ok before b"
  "results_ok before (resolve_check ms b) = results_ok before b"
  "results_ok before (b\<lparr>bt_check := q\<rparr>) = results_ok before b"
  "results_ok before (push_event (start_event c) b) = results_ok before b"
  "results_ok before (push_event (ToolExecutionUpdate ident name) b) = results_ok before b"
  by (simp_all add: results_ok_def after_check_def resolve_check_def start_event_def)

lemma results_skip: "\<lbrakk>results_ok before b; i < length (bt_records b)\<rbrakk> \<Longrightarrow> results_ok before (skip_record i b)"
  unfolding skip_record_def by (rule results_record) simp_all

lemma records_skip [simp]: "length (bt_records (skip_record i b)) = length (bt_records b)"
  by (simp add: skip_record_def)

lemma results_step:
  assumes "batch_step im tier b q b'" "results_ok before b" "schedule_ok b"
  shows "results_ok before b'"
  using assms(1)
  by cases (use assms(2,3) schedule_length [OF assms(3)] in
    \<open>auto simp: begin_tool_def finish_tool_def intro!: results_emit results_skip results_record\<close>)

text \<open>The steering messages that were taken are the ones that are returned.\<close>

definition taken_ok :: "message list \<Rightarrow> batch \<Rightarrow> bool" where
  "taken_ok ms b \<longleftrightarrow> ms = concat (opt_list (bt_steering b)) @ concat (opt_list (bt_check b)) \<and>
     bt_steering b \<noteq> Some [] \<and> (bt_triggered b \<longleftrightarrow> bt_steering b \<noteq> None) \<and>
     (bt_check b \<noteq> None \<longrightarrow> Checking \<in> set (bt_tasks b)) \<and>
     (bt_triggered b \<longrightarrow> Checking \<notin> set (bt_tasks b))"

lemma opt_list_simps [simp]: "opt_list None = []" "opt_list (Some x) = [x]"
  by (simp_all add: opt_list_def)

lemma taken_update:
  assumes "taken_ok ms b" "i < length (bt_tasks b)" "bt_tasks b ! i \<noteq> Checking"
    and "bt_tasks b' = (bt_tasks b)[i := t]" "t = Checking \<Longrightarrow> \<not> bt_triggered b"
    and "bt_steering b' = bt_steering b" "bt_check b' = bt_check b" "bt_triggered b' = bt_triggered b"
  shows "taken_ok ms b'"
proof -
  have "Checking \<in> set (bt_tasks b) \<Longrightarrow> Checking \<in> set (bt_tasks b')"
    using assms(2-4) by (metis in_set_conv_nth length_list_update nth_list_update_neq)
  moreover have "Checking \<in> set (bt_tasks b') \<Longrightarrow> Checking \<in> set (bt_tasks b) \<or> t = Checking"
    using assms(4) by (auto dest!: set_update_subset_insert [THEN subsetD])
  ultimately show ?thesis using assms(1,5-8) by (auto simp: taken_ok_def)
qed


lemma batch_extra_fields [simp]:
  "bt_steering (skip_record i b) = bt_steering b" "bt_check (skip_record i b) = bt_check b"
  "bt_triggered (skip_record i b) = bt_triggered b"
  "bt_steering (begin_tool i b) = bt_steering b" "bt_check (begin_tool i b) = bt_check b"
  "bt_triggered (begin_tool i b) = bt_triggered b"
  "bt_steering (finish_tool im i c d x b) = bt_steering b" "bt_check (finish_tool im i c d x b) = bt_check b"
  "bt_triggered (finish_tool im i c d x b) = bt_triggered b"
  by (simp_all add: skip_record_def begin_tool_def finish_tool_def)

lemma taken_step:
  assumes "batch_step im tier b q b'" "taken_ok ms b"
  shows "taken_ok (ms @ concat (opt_list q)) b'"
  using assms(1)
proof cases
  case (Begin i)
  then show ?thesis using taken_update [OF assms(2), of i b' "if bt_triggered b then Returning else Preparing"]
    by (cases "bt_triggered b") simp_all
next
  case (Refuse i)
  then show ?thesis using taken_update [OF assms(2), of i b' Rejected] by simp
next
  case (Propagate i)
  then show ?thesis using taken_update [OF assms(2), of i b' Rejected] by simp
next
  case (Execute i)
  then show ?thesis using taken_update [OF assms(2), of i b' Executing] by simp
next
  case (Finish i)
  then show ?thesis
    using taken_update [OF assms(2), of i b' "if bt_triggered b \<or> \<not> im then Returning else Checking"]
    by (cases "bt_triggered b"; cases im) auto
next
  case (Throws i)
  then show ?thesis using taken_update [OF assms(2), of i b' Rejected] by auto
next
  case (Settle i)
  then show ?thesis using taken_update [OF assms(2), of i b' Settled] by simp
next
  case (Resolve steering)
  then show ?thesis using assms(2) by (auto simp: taken_ok_def resolve_check_def after_check_def)
next
  case PollFails
  then show ?thesis using assms(2) by (auto simp: taken_ok_def after_check_def)
qed (use assms(2) in \<open>auto simp: taken_ok_def\<close>)

lemma run_invariant:
  assumes "batch_run im tier (new_batch tools a events) ms b"
  shows "schedule_ok b \<and> results_ok (ended_messages events) b \<and> taken_ok ms b \<and>
    frame b = frame (new_batch tools a events)"
  using assms
proof induction
  case Start
  have "\<forall>r\<in>set (bt_records (new_batch tools a events)). record_ok r"
    by (auto simp: new_batch_def new_record_def record_ok_def)
  moreover have "List.map_filter rc_message (bt_records (new_batch tools a events)) = []"
    by (simp add: new_batch_def new_record_def List.map_filter_def filter_empty_conv)
  ultimately show ?case
    using schedule_new [of tools a events]
    by (auto simp: results_ok_def taken_ok_def new_batch_def)
next
  case (Internal ms b b')
  then show ?case using schedule_step results_step step_frame taken_step [OF Internal(2), of ms] by (metis concat.simps(1) append_Nil2 opt_list_simps(1))
next
  case (Taken ms b qs b')
  then show ?case
    using schedule_step results_step step_frame taken_step [OF Taken(2), of ms]
    by (metis concat.simps(1,2) append_Nil2 opt_list_simps(2))
qed

text \<open>The sweep.\<close>

lemma sweep_record_ok:
  assumes "results_ok before b" "i < length (bt_records b)"
  shows "results_ok before (sweep_record b i)" "frame (sweep_record b i) = frame b"
    and "rc_message (bt_records (sweep_record b i) ! i) \<noteq> None"
    and "j \<noteq> i \<Longrightarrow> rc_message (bt_records (sweep_record b i) ! j) = rc_message (bt_records b ! j)"
    and "bt_steering (sweep_record b i) = bt_steering b"
proof -
  show "results_ok before (sweep_record b i)"
    using assms by (simp add: sweep_record_def results_emit results_skip)
  show "frame (sweep_record b i) = frame b" by (simp add: sweep_record_def)
  have e: "rc_message (bt_records b ! i) = None \<Longrightarrow> \<not> rc_resultEmitted (bt_records b ! i)"
    using assms unfolding results_ok_def record_ok_def by (metis nth_mem)
  show "rc_message (bt_records (sweep_record b i) ! i) \<noteq> None"
    using assms(2) e by (auto simp: sweep_record_def emitToolResult_def skip_record_def Let_def)
  show "j \<noteq> i \<Longrightarrow> rc_message (bt_records (sweep_record b i) ! j) = rc_message (bt_records b ! j)"
    by (simp add: sweep_record_def emitToolResult_def skip_record_def Let_def)
  show "bt_steering (sweep_record b i) = bt_steering b" by (simp add: sweep_record_def)
qed

lemma sweep_upto:
  assumes "results_ok before b" "n \<le> length (bt_records b)"
  shows "results_ok before (foldl sweep_record b [0..<n]) \<and> frame (foldl sweep_record b [0..<n]) = frame b \<and>
    bt_steering (foldl sweep_record b [0..<n]) = bt_steering b \<and>
    (\<forall>i<n. rc_message (bt_records (foldl sweep_record b [0..<n]) ! i) \<noteq> None)"
  using assms(2)
proof (induction n)
  case (Suc n)
  let ?b = "foldl sweep_record b [0..<n]"
  have ih: "results_ok before ?b" "frame ?b = frame b" "bt_steering ?b = bt_steering b"
    "\<forall>i<n. rc_message (bt_records ?b ! i) \<noteq> None" using Suc by simp_all
  have n: "n < length (bt_records ?b)" using frame_length [OF ih(2)] Suc.prems by simp
  note s = sweep_record_ok [OF ih(1) n]
  show ?case using ih s by (auto simp: less_Suc_eq)
qed (use assms(1) in simp)

lemma all_answered:
  assumes "\<forall>r\<in>set rs. record_ok r \<and> rc_message r \<noteq> None"
  shows "map result_key (List.map_filter rc_message rs) = map (\<lambda>r. call_key (rc_call r)) rs"
  using assms by (induction rs) (auto simp: List.map_filter_simps record_ok_def)

lemma frame_calls: "map rc_call (bt_records b) = map fst (frame b)"
  by (simp add: frame_def)

lemma frame_new: "map fst (frame (new_batch tools a events)) = tool_calls a"
  by (simp add: frame_def new_batch_def new_record_def comp_def)

lemma batch_results:
  assumes "batch_run im tier (new_batch tools a events) ms b" "all_done b"
  shows "mset (map result_key (bt_emitted (sweep b))) = mset (map call_key (tool_calls a)) \<and>
    ended_messages (bt_events (sweep b)) = ended_messages events @ map ToolResultMessage (bt_emitted (sweep b)) \<and>
    bt_steering (sweep b) = (if ms = [] then None else Some ms)"
proof -
  note inv = run_invariant [OF assms(1)]
  have s: "results_ok (ended_messages events) (sweep b) \<and> frame (sweep b) = frame b \<and> bt_steering (sweep b) = bt_steering b \<and>
      (\<forall>i<length (bt_records b). rc_message (bt_records (sweep b) ! i) \<noteq> None)"
    using sweep_upto [of "ended_messages events" b "length (bt_records b)"] inv by (simp add: sweep_def)
  then have l: "length (bt_records (sweep b)) = length (bt_records b)" using frame_length by metis
  have r: "\<forall>r\<in>set (bt_records (sweep b)). record_ok r \<and> rc_message r \<noteq> None"
    using s l by (metis in_set_conv_nth results_ok_def)
  have "mset (bt_emitted (sweep b)) = mset (List.map_filter rc_message (bt_records (sweep b)))"
    using s by (simp add: results_ok_def)
  then have "mset (map result_key (bt_emitted (sweep b))) =
      mset (map result_key (List.map_filter rc_message (bt_records (sweep b))))" by simp
  also have "\<dots> = mset (map (\<lambda>r. call_key (rc_call r)) (bt_records (sweep b)))"
    unfolding all_answered [OF r] by (rule refl)
  also have "map (\<lambda>r. call_key (rc_call r)) (bt_records (sweep b)) = map call_key (map rc_call (bt_records (sweep b)))"
    by simp
  also have "map rc_call (bt_records (sweep b)) = tool_calls a"
    using s inv frame_calls [of "sweep b"] frame_new [of tools a events] by simp
  finally have k: "mset (map result_key (bt_emitted (sweep b))) = mset (map call_key (tool_calls a))" .
  have "Checking \<notin> set (bt_tasks b)" using assms(2) by (auto simp: all_done_def list_all_iff)
  then have "bt_steering b = (if ms = [] then None else Some ms)"
    using inv by (cases "bt_steering b") (auto simp: taken_ok_def)
  then show ?thesis using k s by (simp add: results_ok_def)
qed


section \<open>Progress\<close>

fun task_rank :: "task \<Rightarrow> nat" where
  "task_rank Waiting = 6"
| "task_rank Preparing = 5"
| "task_rank Executing = 4"
| "task_rank Checking = 3"
| "task_rank Returning = 2"
| "task_rank Settled = 0"
| "task_rank Rejected = 0"

definition batch_cost :: "batch \<Rightarrow> nat" where
  "batch_cost b = 2 * sum_list (map task_rank (bt_tasks b)) + (if bt_check b = None then 1 else 0)"

lemma rank_update:
  "\<lbrakk>i < length ts; task_rank t < task_rank (ts ! i)\<rbrakk> \<Longrightarrow>
   sum_list (map task_rank (ts[i := t])) < sum_list (map task_rank ts)"
proof (induction ts arbitrary: i)
  case (Cons u ts)
  then show ?case by (cases i) auto
qed simp

lemma rank_check_le: "task_rank t \<le> 3 \<Longrightarrow>
   sum_list (map task_rank (map (\<lambda>u. if u = Checking then t else u) ts)) \<le> sum_list (map task_rank ts)"
  by (induction ts) auto

lemma rank_check:
  "\<lbrakk>Checking \<in> set ts; task_rank t < 3\<rbrakk> \<Longrightarrow>
   sum_list (map task_rank (map (\<lambda>u. if u = Checking then t else u) ts)) < sum_list (map task_rank ts)"
proof (induction ts)
  case (Cons u ts)
  then show ?case using rank_check_le [of t ts] by (cases "u = Checking") auto
qed simp

lemma cost_update:
  assumes "i < length (bt_tasks b)" "task_rank t < task_rank (bt_tasks b ! i)"
    and "bt_tasks b' = (bt_tasks b)[i := t]" "bt_check b' = bt_check b"
  shows "batch_cost b' < batch_cost b"
  using rank_update [OF assms(1,2)] assms(3,4) by (simp add: batch_cost_def)

text \<open>Every step but the report of a partial result brings the batch nearer to its end.\<close>

lemma step_cost:
  assumes "batch_step im tier b q b'" "taken_ok ms b"
  shows "batch_cost b' < batch_cost b \<or>
    (\<exists>c :: tool_call. b' = push_event (ToolExecutionUpdate (tc_id c) (tc_name c)) b)"
  using assms(1)
proof cases
  case (Begin i)
  then show ?thesis using cost_update [of i b "if bt_triggered b then Returning else Preparing" b'] by simp
next
  case (Refuse i)
  then show ?thesis using cost_update [of i b Rejected b'] by simp
next
  case (Propagate i)
  then show ?thesis using cost_update [of i b Rejected b'] by simp
next
  case (Execute i)
  then show ?thesis using cost_update [of i b Executing b'] by simp
next
  case (Finish i)
  then show ?thesis
    using cost_update [of i b "if bt_triggered b \<or> \<not> im then Returning else Checking" b'] by auto
next
  case (Throws i)
  then show ?thesis using cost_update [of i b Rejected b'] by auto
next
  case (Settle i)
  then show ?thesis using cost_update [of i b Settled b'] by simp
next
  case (Poll steering)
  then show ?thesis by (simp add: batch_cost_def)
next
  case PollFails
  then show ?thesis using rank_check [of "bt_tasks b" Rejected] by (simp add: batch_cost_def after_check_def)
next
  case (Resolve steering)
  then have "Checking \<in> set (bt_tasks b)" using assms(2) by (simp add: taken_ok_def)
  from rank_check [OF this, of Returning] show ?thesis using Resolve by (simp add: batch_cost_def resolve_check_def after_check_def)
next
  case (Update i)
  then show ?thesis by blast
qed

lemma batch_progress:
  assumes "schedule_ok b" "taken_ok ms b" "\<not> all_done b"
  shows "\<exists>q b'. batch_step im tier b q b' \<and> batch_cost b' < batch_cost b"
proof -
  let ?open = "\<lambda>i. i < length (bt_tasks b) \<and> bt_tasks b ! i \<noteq> Settled \<and> bt_tasks b ! i \<noteq> Rejected"
  have "\<exists>i. ?open i" using assms(3) by (auto simp: all_done_def list_all_length)
  define i where "i = (LEAST i. ?open i)"
  have i: "?open i" unfolding i_def by (rule LeastI_ex) fact
  have before: "bt_tasks b ! d = Settled \<or> bt_tasks b ! d = Rejected" if "d < i" for d
    using not_less_Least [of d ?open] that i unfolding i_def by auto
  have deps: "d < i" if "d \<in> set (start_deps b ! i)" for d
    using deps_bound [OF schedule_length [OF assms(1)] _ that] i by blast
  have other: "\<exists>q b'. batch_step im tier b q b' \<and> (\<forall>e. b' \<noteq> push_event e b)"
  proof (cases "bt_tasks b ! i")
    case Waiting
    show ?thesis
    proof (cases "\<exists>d\<in>set (start_deps b ! i). bt_tasks b ! d = Rejected")
      case True
      then obtain d where "d \<in> set (start_deps b ! i)" "bt_tasks b ! d = Rejected" by blast
      then have "batch_step im tier b None (set_task i Rejected b)" using i Waiting by (intro batch_step.Propagate) auto
      moreover have "set_task i Rejected b \<noteq> push_event e b" for e
        using i Waiting by (auto dest!: arg_cong [where f = "\<lambda>b. bt_tasks b ! i"])
      ultimately show ?thesis by blast
    next
      case False
      then have "batch_step im tier b None (begin_tool i b)"
        using i Waiting before deps by (intro batch_step.Begin) blast+
      moreover have "begin_tool i b \<noteq> push_event e b" for e
        using i Waiting by (auto dest!: arg_cong [where f = "\<lambda>b. bt_tasks b ! i"] split: if_splits)
      ultimately show ?thesis by blast
    qed
  next
    case Checking
    then have c: "Checking \<in> set (bt_tasks b)" using i by (metis nth_mem)
    show ?thesis
    proof (cases "bt_check b")
      case None
      have "batch_step im tier b (Some []) (b\<lparr>bt_check := Some []\<rparr>)" by (rule batch_step.Poll [OF c None])
      moreover have "b\<lparr>bt_check := Some []\<rparr> \<noteq> push_event e b" for e
        using None by (auto dest!: arg_cong [where f = bt_check])
      ultimately show ?thesis by blast
    next
      case (Some steering)
      have "resolve_check steering b \<noteq> push_event e b" for e
        using i Checking by (auto dest!: arg_cong [where f = "\<lambda>b. bt_tasks b ! i"])
      then show ?thesis using batch_step.Resolve [OF Some] by blast
    qed
  next
    case Returning
    then have "batch_step im tier b None (set_task i Settled b)" using i by (intro batch_step.Settle) auto
    moreover have "set_task i Settled b \<noteq> push_event e b" for e
      using i Returning by (auto dest!: arg_cong [where f = "\<lambda>b. bt_tasks b ! i"])
    ultimately show ?thesis by blast
  qed (use i in \<open>auto intro!: exI [of _ "finish_tool im i [] None False b"] exI [of _ None] batch_step.Finish
      dest!: arg_cong [where f = "\<lambda>b. bt_tasks b ! i"] split: if_splits\<close>)
  then show ?thesis using step_cost [OF _ assms(2)] by metis
qed


section \<open>Properties\<close>

definition tiers_ok :: "model_tier \<Rightarrow> batch \<Rightarrow> bool" where
  "tiers_ok tier b \<longleftrightarrow> (\<forall>i<length (bt_tasks b). bt_tasks b ! i = Executing \<longrightarrow>
     (\<exists>t. rc_tool (bt_records b ! i) = Some t \<and> isToolAllowedForTier (Some t) tier))"

lemma frame_tool_nth:
  assumes "frame b = frame b'" "i < length (bt_records b)"
  shows "rc_tool (bt_records b ! i) = rc_tool (bt_records b' ! i)"
proof -
  have "snd (frame b ! i) = snd (frame b' ! i)" using assms(1) by simp
  then show ?thesis using assms(2) frame_length [OF assms(1)] by (simp add: frame_def)
qed

lemma tiers_update:
  assumes "tiers_ok tier b" "schedule_ok b" "frame b' = frame b" "bt_tasks b' = (bt_tasks b)[i := t]"
    and "t = Executing \<Longrightarrow> \<exists>tool. rc_tool (bt_records b ! i) = Some tool \<and> isToolAllowedForTier (Some tool) tier"
  shows "tiers_ok tier b'"
  unfolding tiers_ok_def
proof (intro allI impI)
  fix k assume k: "k < length (bt_tasks b')" "bt_tasks b' ! k = Executing"
  have l: "k < length (bt_records b)" using k(1) assms(4) schedule_length [OF assms(2)] by simp
  have "\<exists>tool. rc_tool (bt_records b ! k) = Some tool \<and> isToolAllowedForTier (Some tool) tier"
    using k assms(1,4,5) by (cases "k = i") (auto simp: tiers_ok_def)
  then show "\<exists>tool. rc_tool (bt_records b' ! k) = Some tool \<and> isToolAllowedForTier (Some tool) tier"
    using frame_tool_nth [OF assms(3) [symmetric] l] by simp
qed

lemma tiers_map:
  assumes "tiers_ok tier b" "schedule_ok b" "frame b' = frame b"
    and "bt_tasks b' = map (\<lambda>u. if u = Checking then t else u) (bt_tasks b)" "t \<noteq> Executing"
  shows "tiers_ok tier b'"
  unfolding tiers_ok_def
proof (intro allI impI)
  fix k assume k: "k < length (bt_tasks b')" "bt_tasks b' ! k = Executing"
  have l: "k < length (bt_records b)" using k(1) assms(4) schedule_length [OF assms(2)] by simp
  have "bt_tasks b ! k = Executing" using k assms(4,5) by (simp split: if_splits)
  then show "\<exists>tool. rc_tool (bt_records b' ! k) = Some tool \<and> isToolAllowedForTier (Some tool) tier"
    using assms(1,4) k(1) frame_tool_nth [OF assms(3) [symmetric] l] unfolding tiers_ok_def by (metis length_map)
qed

lemma tiers_step:
  assumes "batch_step im tier b q b'" "tiers_ok tier b" "schedule_ok b"
  shows "tiers_ok tier b'"
proof -
  note u = tiers_update [OF assms(2,3) step_frame [OF assms(1)]]
  note m = tiers_map [OF assms(2,3) step_frame [OF assms(1)]]
  have same: "tiers_ok tier b'" if "bt_tasks b' = bt_tasks b" "length (bt_tasks b) > 0"
  proof -
    have "bt_tasks b' = (bt_tasks b)[length (bt_tasks b) := Settled]" using that(1) by (simp add: list_update_beyond)
    then show ?thesis by (rule u) simp
  qed
  show ?thesis
    using assms(1)
  proof cases
    case (Begin i)
    then show ?thesis using u [of i "if bt_triggered b then Returning else Preparing"]
      by (cases "bt_triggered b") auto
  next
    case (Finish i)
    then show ?thesis using u [of i "if bt_triggered b \<or> \<not> im then Returning else Checking"]
      by (cases "bt_triggered b"; cases im) auto
  next
    case (Execute i)
    then show ?thesis using u [of i Executing] by auto
  next
    case PollFails
    then show ?thesis using m [of Rejected] by simp
  next
    case (Resolve steering)
    then show ?thesis using m [of Returning] by simp
  next
    case (Poll steering)
    then show ?thesis using same by (cases "bt_tasks b") simp_all
  next
    case (Update i)
    then show ?thesis using same by (cases "bt_tasks b") simp_all
  qed (use u in auto)
qed

lemma run_tiers:
  assumes "batch_run im tier (new_batch tools a events) ms b"
  shows "tiers_ok tier b"
  using assms
proof induction
  case Start
  show ?case by (simp add: tiers_ok_def new_batch_def)
next
  case (Internal ms b b')
  then show ?case using tiers_step run_invariant by blast
next
  case (Taken ms b qs b')
  then show ?case using tiers_step run_invariant by blast
qed

text \<open>
  C16: the tools of one answer run as they ask to.  While an exclusive tool runs no other tool of the
  batch runs, whatever the interleaving, failures and interrupts; and a tool that the active tier may
  not use is never executed.
\<close>

theorem exclusive_tools_run_alone:
  assumes "batch_run im tier (new_batch tools a events) ms b" "i < length (bt_tasks b)" "busy (bt_tasks b ! i)"
  shows "(is_exclusive (bt_records b ! i) \<longrightarrow> (\<forall>j<length (bt_tasks b). j \<noteq> i \<longrightarrow> \<not> busy (bt_tasks b ! j))) \<and>
    (bt_tasks b ! i = Executing \<longrightarrow>
      (\<exists>tool. rc_tool (bt_records b ! i) = Some tool \<and> isToolAllowedForTier (Some tool) tier))"
proof (intro conjI impI allI)
  have s: "schedule_ok b" using run_invariant [OF assms(1)] by blast
  fix j assume j: "is_exclusive (bt_records b ! i)" "j < length (bt_tasks b)" "j \<noteq> i"
  show "\<not> busy (bt_tasks b ! j)"
  proof
    assume "busy (bt_tasks b ! j)"
    then have "bt_tasks b ! min i j = Settled"
      using assms(2,3) j settled_before [OF s, of "min i j" "max i j"]
      by (cases "i < j") (auto simp: busy_def min_def max_def)
    then show False using \<open>busy (bt_tasks b ! j)\<close> assms(3) by (auto simp: busy_def min_def split: if_splits)
  qed
next
  assume "bt_tasks b ! i = Executing"
  then show "\<exists>tool. rc_tool (bt_records b ! i) = Some tool \<and> isToolAllowedForTier (Some tool) tier"
    using run_tiers [OF assms(1)] assms(2) by (simp add: tiers_ok_def)
qed

text \<open>
  C15: every tool call is answered exactly once.  Whatever the tools, hooks and the user do, a batch
  that has come to its end has one result for each call, under its id and name, each reported as a
  complete message; the steering messages that were taken from the queue are handed on; and a batch
  that is not at its end can always go on, where only reports of partial results can be repeated.
\<close>

theorem every_call_answered_once:
  assumes "batch_run im tier (new_batch tools a events) ms b"
  shows "if all_done b then
      mset (map result_key (bt_emitted (sweep b))) = mset (map call_key (tool_calls a)) \<and>
      ended_messages (bt_events (sweep b)) = ended_messages events @ map ToolResultMessage (bt_emitted (sweep b)) \<and>
      bt_steering (sweep b) = (if ms = [] then None else Some ms)
    else (\<exists>q b'. batch_step im tier b q b' \<and> batch_cost b' < batch_cost b) \<and>
      (\<forall>q b'. batch_step im tier b q b' \<longrightarrow> batch_cost b' < batch_cost b \<or>
        (\<exists>c :: tool_call. b' = push_event (ToolExecutionUpdate (tc_id c) (tc_name c)) b))"
proof (cases "all_done b")
  case True
  then show ?thesis using batch_results [OF assms] by simp
next
  case False
  note inv = run_invariant [OF assms]
  show ?thesis
    using False batch_progress [of b ms im tier] inv step_cost [of im tier b _ _ ms] by (simp only: if_False) blast
qed

section \<open>Witnesses\<close>

definition shared_tool :: agent_tool where
  "shared_tool = \<lparr>at_name = js ''read'', at_customWireName = None, at_concurrency = None, at_allowedTiers = Some [WorkerTier]\<rparr>"

definition exclusive_tool :: agent_tool where
  "exclusive_tool = \<lparr>at_name = js ''edit'', at_customWireName = None, at_concurrency = Some Exclusive, at_allowedTiers = None\<rparr>"

definition call_of :: "string \<Rightarrow> string \<Rightarrow> tool_call" where
  "call_of i n = \<lparr>tc_id = js i, tc_name = js n, tc_arguments = []\<rparr>"

definition two_calls :: assistant_message where
  "two_calls = \<lparr>am_content = [ToolCall (call_of ''1'' ''edit''), ToolCall (call_of ''2'' ''read'')],
     am_provider = [], am_model = [], am_usage = \<lparr>us_input = 0, us_output = 0, us_cacheRead = 0, us_cacheWrite = 0,
       us_totalTokens = 0, us_premiumRequests = None\<rparr>,
     am_stopReason = StopToolUse, am_errorMessage = None, am_replay = False\<rparr>"

definition fresh_pair :: batch where
  "fresh_pair = new_batch [shared_tool, exclusive_tool] two_calls []"

definition edit_started :: batch where "edit_started = begin_tool 0 fresh_pair"

definition edit_executing :: batch where "edit_executing = set_task 0 Executing edit_started"

lemma edit_runs: "batch_run True WorkerTier fresh_pair [] edit_executing"
proof -
  have "batch_step True WorkerTier fresh_pair None edit_started"
    unfolding edit_started_def
  proof (rule batch_step.Begin)
    show "0 < length (bt_tasks fresh_pair)" "bt_tasks fresh_pair ! 0 = Waiting"
      "\<forall>d\<in>set (start_deps fresh_pair ! 0). bt_tasks fresh_pair ! d = Settled" by code_simp+
  qed
  moreover have "batch_step True WorkerTier edit_started None edit_executing"
    unfolding edit_executing_def
  proof (rule batch_step.Execute)
    show "0 < length (bt_tasks edit_started)" "bt_tasks edit_started ! 0 = Preparing"
      "rc_tool (bt_records edit_started ! 0) = Some exclusive_tool" "isToolAllowedForTier (Some exclusive_tool) WorkerTier"
      by code_simp+
  qed
  ultimately show ?thesis by (meson batch_run.intros)
qed

theorem exclusive_tools_run_alone_witness:
  "batch_run True WorkerTier fresh_pair [] edit_executing \<and> bt_tasks edit_executing = [Executing, Waiting] \<and>
   \<not> busy (bt_tasks edit_executing ! 1)"
proof -
  have v: "bt_tasks edit_executing = [Executing, Waiting]" "is_exclusive (bt_records edit_executing ! 0)" by code_simp+
  have "batch_run True WorkerTier (new_batch [shared_tool, exclusive_tool] two_calls []) [] edit_executing"
    using edit_runs by (simp add: fresh_pair_def)
  from exclusive_tools_run_alone [OF this, of 0] v have "\<not> busy (bt_tasks edit_executing ! 1)"
    by (simp add: busy_def)
  then show ?thesis using edit_runs v by simp
qed

definition interrupted_pair :: batch where
  "interrupted_pair = set_task 1 Settled (begin_tool 1 (set_task 0 Settled (resolve_check [UserMessage (Plain (js ''stop''))]
     ((finish_tool True 0 [] None False edit_executing)\<lparr>bt_check := Some [UserMessage (Plain (js ''stop''))]\<rparr>))))"

lemma pair_interrupted: "batch_run True WorkerTier fresh_pair [UserMessage (Plain (js ''stop''))] interrupted_pair"
proof -
  let ?m = "[UserMessage (Plain (js ''stop''))]"
  let ?b1 = "finish_tool True 0 [] None False edit_executing"
  let ?b2 = "?b1\<lparr>bt_check := Some ?m\<rparr>"
  let ?b3 = "resolve_check ?m ?b2"
  let ?b4 = "set_task 0 Settled ?b3"
  let ?b5 = "begin_tool 1 ?b4"
  have "batch_step True WorkerTier edit_executing None ?b1"
    by (rule batch_step.Finish) code_simp+
  with edit_runs have "batch_run True WorkerTier fresh_pair [] ?b1" by (rule batch_run.Internal)
  moreover have "batch_step True WorkerTier ?b1 (Some ?m) ?b2" by (rule batch_step.Poll) code_simp+
  ultimately have "batch_run True WorkerTier fresh_pair ([] @ ?m) ?b2" by (rule batch_run.Taken)
  then have "batch_run True WorkerTier fresh_pair ?m ?b2" by simp
  moreover have "batch_step True WorkerTier ?b2 None ?b3" by (rule batch_step.Resolve) simp
  ultimately have "batch_run True WorkerTier fresh_pair ?m ?b3" by (rule batch_run.Internal)
  moreover have "batch_step True WorkerTier ?b3 None ?b4" by (rule batch_step.Settle) code_simp+
  ultimately have "batch_run True WorkerTier fresh_pair ?m ?b4" by (rule batch_run.Internal)
  moreover have "batch_step True WorkerTier ?b4 None ?b5" by (rule batch_step.Begin) code_simp+
  ultimately have "batch_run True WorkerTier fresh_pair ?m ?b5" by (rule batch_run.Internal)
  moreover have "batch_step True WorkerTier ?b5 None interrupted_pair"
    unfolding interrupted_pair_def by (rule batch_step.Settle) code_simp+
  ultimately show ?thesis by (rule batch_run.Internal)
qed

theorem every_call_answered_once_witness:
  "all_done interrupted_pair \<and>
   mset (map result_key (bt_emitted (sweep interrupted_pair))) = {#(js ''1'', js ''edit''), (js ''2'', js ''read'')#} \<and>
   bt_steering (sweep interrupted_pair) = Some [UserMessage (Plain (js ''stop''))]"
proof -
  have d: "all_done interrupted_pair" by code_simp
  have k: "map call_key (tool_calls two_calls) = [(js ''1'', js ''edit''), (js ''2'', js ''read'')]" by code_simp
  have r: "batch_run True WorkerTier (new_batch [shared_tool, exclusive_tool] two_calls []) [UserMessage (Plain (js ''stop''))] interrupted_pair"
    using pair_interrupted by (simp add: fresh_pair_def)
  have "mset (map result_key (bt_emitted (sweep interrupted_pair))) = mset (map call_key (tool_calls two_calls)) \<and>
      bt_steering (sweep interrupted_pair) = Some [UserMessage (Plain (js ''stop''))]"
    using every_call_answered_once [OF r] d by simp
  then show ?thesis using d unfolding k by simp
qed

end
