(* ===== verification/Agent_Loop.thy ===== *)
theory Agent_Loop
  imports Tool_Batch
begin

text \<open>
  The agent loop: \<open>runLoopBody\<close>, \<open>streamAssistantResponse\<close> and the entry points of
  \<open>packages/agent/src/agent-loop.ts\<close>.  One turn injects the pending messages, streams the answer of
  the model, runs its tool calls and looks for steering messages; when nothing is left to do the
  loop asks for follow-up messages and ends.  The provider, the user and the hooks are the
  environment of a step relation.  Telemetry, the request itself (keys, sampling, tool choice) and
  the contents of leak reports are left out; whether an answer leaks is a choice of the environment.
\<close>

section \<open>The answer of the model\<close>

record loop_config =
  lc_immediate :: bool
  lc_tier :: model_tier
  lc_maxToolCallsPerTurn :: "int option"
  lc_provider :: jstring
  lc_model :: jstring

definition normalizeMaxToolCallsPerTurn :: "int option \<Rightarrow> nat option" where
  "normalizeMaxToolCallsPerTurn v =
     (case v of None \<Rightarrow> None | Some n \<Rightarrow> (if n > 0 then Some (nat n) else None))"

text \<open>
  What one iteration over the response sees: the first event with its partial message; an update,
  with whether it ends a tool call and whether its handler has aborted the run; the final event with
  the finished message and whether that leaks; the end of the iterator without a final event; the
  abort; an exception.
\<close>

datatype stream_item =
    EvStart assistant_message
  | EvUpdate assistant_message bool bool
  | EvFinal assistant_message bool
  | StreamEnded assistant_message bool
  | Cancelled
  | StreamThrows

datatype answer = Answered assistant_message | Leaked | Thrown

record turn =
  tn_context :: "message list"
  tn_events :: "agent_event list"
  tn_partial :: "assistant_message option"
  tn_added :: bool
  tn_completed :: nat
  tn_aborted :: bool

definition put_last :: "message \<Rightarrow> message list \<Rightarrow> message list" where
  "put_last m ms = ms[length ms - 1 := m]"

definition finish_message :: "assistant_message \<Rightarrow> turn \<Rightarrow> turn" where
  "finish_message a t =
     (if tn_added t
      then t\<lparr>tn_context := put_last (AssistantMessage a) (tn_context t),
             tn_events := tn_events t @ [MessageEnd (AssistantMessage a)]\<rparr>
      else t\<lparr>tn_context := tn_context t @ [AssistantMessage a],
             tn_events := tn_events t @ [MessageStart (AssistantMessage a), MessageEnd (AssistantMessage a)]\<rparr>)"

definition request_aborted :: jstring where "request_aborted = js ''Request was aborted''"

definition empty_answer :: "loop_config \<Rightarrow> assistant_message" where
  "empty_answer cfg =
     \<lparr>am_content = [], am_provider = lc_provider cfg, am_model = lc_model cfg,
      am_usage = \<lparr>us_input = 0, us_output = 0, us_cacheRead = 0, us_cacheWrite = 0, us_totalTokens = 0,
        us_premiumRequests = None\<rparr>,
      am_stopReason = StopAborted, am_errorMessage = Some request_aborted, am_replay = False\<rparr>"

definition emitAbortedAssistantMessage :: "loop_config \<Rightarrow> turn \<Rightarrow> answer \<times> turn" where
  "emitAbortedAssistantMessage cfg t =
     (let a = (case tn_partial t of
          Some p \<Rightarrow> p\<lparr>am_stopReason := StopAborted, am_errorMessage := Some request_aborted\<rparr>
        | None \<Rightarrow> empty_answer cfg)
      in (Answered a, finish_message a t))"

definition cloneAssistantMessageForToolCallCap :: "assistant_message \<Rightarrow> assistant_message" where
  "cloneAssistantMessageForToolCallCap a = a\<lparr>am_stopReason := StopToolUse, am_errorMessage := None\<rparr>"

text \<open>A leak takes the partial message back out of the context.\<close>

definition take_back :: "turn \<Rightarrow> turn" where
  "take_back t = (if tn_added t then t\<lparr>tn_context := butlast (tn_context t), tn_added := False\<rparr> else t)"

definition start_partial :: "assistant_message \<Rightarrow> turn \<Rightarrow> turn" where
  "start_partial p t =
     t\<lparr>tn_partial := Some p, tn_added := True, tn_context := tn_context t @ [AssistantMessage p],
       tn_events := tn_events t @ [MessageStart (AssistantMessage p)]\<rparr>"

definition update_partial :: "assistant_message \<Rightarrow> bool \<Rightarrow> turn \<Rightarrow> turn" where
  "update_partial p aborted t =
     t\<lparr>tn_partial := Some p, tn_context := put_last (AssistantMessage p) (tn_context t), tn_aborted := aborted,
       tn_events := (if aborted then tn_events t else tn_events t @ [MessageUpdate (AssistantMessage p)])\<rparr>"

text \<open>\<open>None\<close>: the items seen so far have not answered yet.\<close>

fun stream_items :: "loop_config \<Rightarrow> stream_item list \<Rightarrow> turn \<Rightarrow> (answer \<times> turn) option" where
  "stream_items cfg [] t = None"
| "stream_items cfg (it # its) t =
     (if tn_aborted t \<and> it \<noteq> StreamThrows then Some (emitAbortedAssistantMessage cfg t)
      else case it of
        EvStart p \<Rightarrow> stream_items cfg its (start_partial p t)
      | EvUpdate p ends aborted \<Rightarrow>
          (if tn_partial t = None then stream_items cfg its t
           else let t' = update_partial p aborted t
                in if aborted then stream_items cfg its t'
                   else case (ends, normalizeMaxToolCallsPerTurn (lc_maxToolCallsPerTurn cfg)) of
                     (True, Some n) \<Rightarrow>
                       (let t'' = t'\<lparr>tn_completed := tn_completed t' + 1\<rparr>
                        in if tn_completed t'' \<ge> n
                           then (let a = cloneAssistantMessageForToolCallCap p in Some (Answered a, finish_message a t''))
                           else stream_items cfg its t'')
                   | _ \<Rightarrow> stream_items cfg its t')
      | EvFinal a leaks \<Rightarrow> Some (if leaks then (Leaked, take_back t) else (Answered a, finish_message a t))
      | StreamEnded a leaks \<Rightarrow> Some (if leaks then (Leaked, take_back t) else (Answered a, t))
      | Cancelled \<Rightarrow> Some (emitAbortedAssistantMessage cfg t)
      | StreamThrows \<Rightarrow> Some (Thrown, t))"

definition streamAssistantResponse ::
  "loop_config \<Rightarrow> stream_item list \<Rightarrow> message list \<Rightarrow> agent_event list \<Rightarrow> (answer \<times> turn) option" where
  "streamAssistantResponse cfg its context events =
     stream_items cfg its \<lparr>tn_context = context, tn_events = events, tn_partial = None, tn_added = False,
       tn_completed = 0, tn_aborted = False\<rparr>"

section \<open>State of the loop\<close>

datatype phase =
    Polling
  | Deciding
  | Responding
  | Running assistant_message batch
  | Finished
  | Crashed

record loop_state =
  lp_context :: "message list"
  lp_newMessages :: "message list"
  lp_pendingMessages :: "message list"
  lp_hasMoreToolCalls :: bool
  lp_firstTurn :: bool
  lp_harmonyRetryAttempt :: nat
  lp_tools :: "agent_tool list"
  lp_events :: "agent_event list"
  lp_phase :: phase

definition message_events :: "message list \<Rightarrow> agent_event list" where
  "message_events ms = concat (map (\<lambda>m. [MessageStart m, MessageEnd m]) ms)"

definition agentLoop :: "message list \<Rightarrow> message list \<Rightarrow> agent_tool list \<Rightarrow> loop_state" where
  "agentLoop prompts context tools =
     \<lparr>lp_context = context @ prompts, lp_newMessages = prompts, lp_pendingMessages = [],
      lp_hasMoreToolCalls = True, lp_firstTurn = True, lp_harmonyRetryAttempt = 0, lp_tools = tools,
      lp_events = [AgentStart, TurnStart] @ message_events prompts, lp_phase = Polling\<rparr>"

definition is_assistant_role :: "message \<Rightarrow> bool" where
  "is_assistant_role m = (case m of AssistantMessage _ \<Rightarrow> True | _ \<Rightarrow> False)"

datatype continue_error = NoMessages | LastIsAssistant

definition agentLoopContinue :: "message list \<Rightarrow> agent_tool list \<Rightarrow> continue_error + loop_state" where
  "agentLoopContinue context tools =
     (if length context = 0 then Inl NoMessages
      else if is_assistant_role (last context) then Inl LastIsAssistant
      else Inr (agentLoop [] context tools))"

section \<open>One turn\<close>

text \<open>The top of the inner loop: the turn starts and the pending messages go in.\<close>

definition begin_turn :: "agent_tool list \<Rightarrow> loop_state \<Rightarrow> loop_state" where
  "begin_turn tools l =
     l\<lparr>lp_events := lp_events l @ (if lp_firstTurn l then [] else [TurnStart]) @ message_events (lp_pendingMessages l),
       lp_firstTurn := False,
       lp_context := lp_context l @ lp_pendingMessages l,
       lp_newMessages := lp_newMessages l @ lp_pendingMessages l,
       lp_pendingMessages := [], lp_tools := tools, lp_phase := Responding\<rparr>"

datatype abort_reason = ReasonAborted | ReasonError | ReasonSkipped

definition aborted_text :: "abort_reason \<Rightarrow> jstring option \<Rightarrow> jstring" where
  "aborted_text reason errorMessage =
     (let message = (case reason of
          ReasonAborted \<Rightarrow> js ''Tool execution was aborted''
        | ReasonSkipped \<Rightarrow> js ''Tool call was not executed because the assistant ended its turn''
        | ReasonError \<Rightarrow> js ''Tool execution failed due to an error'')
      in case errorMessage of
           Some (c # cs) \<Rightarrow> message @ js '': '' @ c # cs
         | _ \<Rightarrow> message @ js ''.'')"

definition aborted_result :: "abort_reason \<Rightarrow> jstring option \<Rightarrow> tool_call \<Rightarrow> tool_result" where
  "aborted_result reason errorMessage call =
     result_message call [TextContent (aborted_text reason errorMessage)] None True"

definition aborted_events :: "tool_call \<Rightarrow> tool_result \<Rightarrow> agent_event list" where
  "aborted_events call r =
     [start_event call, ToolExecutionEnd (tc_id call) (tc_name call) True,
      MessageStart (ToolResultMessage r), MessageEnd (ToolResultMessage r)]"

text \<open>\<open>createAbortedToolResult\<close> for every call of the message, recorded one after the other.\<close>

definition place_results :: "abort_reason \<Rightarrow> jstring option \<Rightarrow> assistant_message \<Rightarrow> loop_state \<Rightarrow> loop_state" where
  "place_results reason errorMessage a l =
     (let rs = map (aborted_result reason errorMessage) (tool_calls a)
      in l\<lparr>lp_context := lp_context l @ map ToolResultMessage rs,
           lp_newMessages := lp_newMessages l @ map ToolResultMessage rs,
           lp_events := lp_events l @ concat (map (\<lambda>c. aborted_events c (aborted_result reason errorMessage c)) (tool_calls a)) @
             [TurnEnd (AssistantMessage a) rs]\<rparr>)"

definition end_loop :: "loop_state \<Rightarrow> loop_state" where
  "end_loop l = l\<lparr>lp_events := lp_events l @ [AgentEnd (lp_newMessages l)], lp_phase := Finished\<rparr>"

definition after_answer :: "assistant_message \<Rightarrow> loop_state \<Rightarrow> loop_state" where
  "after_answer a l0 =
     (let l = l0\<lparr>lp_newMessages := lp_newMessages l0 @ [AssistantMessage a]\<rparr>;
          calls = tool_calls a
      in if am_stopReason a = StopError \<or> am_stopReason a = StopAborted
         then end_loop (place_results (if am_stopReason a = StopAborted then ReasonAborted else ReasonError) (am_errorMessage a) a l)
         else if (am_stopReason a = StopToolUse \<or> am_stopReason a = StopStop) \<and> length calls > 0
         then l\<lparr>lp_hasMoreToolCalls := True, lp_phase := Running a (new_batch (lp_tools l) a (lp_events l))\<rparr>
         else (place_results ReasonSkipped None a l)\<lparr>lp_hasMoreToolCalls := False, lp_phase := Polling\<rparr>)"

definition after_response :: "answer \<times> turn \<Rightarrow> loop_state \<Rightarrow> loop_state" where
  "after_response r l0 =
     (let l = l0\<lparr>lp_context := tn_context (snd r), lp_events := tn_events (snd r)\<rparr>
      in case fst r of
           Answered a \<Rightarrow> after_answer a (l\<lparr>lp_harmonyRetryAttempt := 0\<rparr>)
         | Leaked \<Rightarrow>
             (if lp_harmonyRetryAttempt l \<ge> 2 then l\<lparr>lp_phase := Crashed\<rparr>
              else l\<lparr>lp_harmonyRetryAttempt := lp_harmonyRetryAttempt l + 1, lp_phase := Deciding\<rparr>)
         | Thrown \<Rightarrow> l\<lparr>lp_phase := Crashed\<rparr>)"

text \<open>The end of \<open>executeToolCalls\<close>: its steering messages replace the poll.\<close>

definition after_batch :: "assistant_message \<Rightarrow> batch \<Rightarrow> loop_state \<Rightarrow> loop_state" where
  "after_batch a b0 l =
     (let b = sweep b0; rs = map ToolResultMessage (bt_emitted b);
          l' = l\<lparr>lp_context := lp_context l @ rs, lp_newMessages := lp_newMessages l @ rs,
                 lp_events := bt_events b @ [TurnEnd (AssistantMessage a) (bt_emitted b)]\<rparr>
      in case bt_steering b of
           Some ms \<Rightarrow> l'\<lparr>lp_pendingMessages := ms, lp_phase := Deciding\<rparr>
         | None \<Rightarrow> l'\<lparr>lp_phase := Polling\<rparr>)"

definition after_poll :: "message list \<Rightarrow> loop_state \<Rightarrow> loop_state" where
  "after_poll ms l = l\<lparr>lp_pendingMessages := ms, lp_phase := Deciding\<rparr>"

definition after_yield :: "message list \<Rightarrow> loop_state \<Rightarrow> loop_state" where
  "after_yield ms l =
     (if length ms > 0 then l\<lparr>lp_pendingMessages := ms, lp_hasMoreToolCalls := True\<rparr> else end_loop l)"

section \<open>Steps\<close>

datatype loop_label = Tau | TookSteering "message list" | TookFollowUps "message list"

definition batch_label :: "message list option \<Rightarrow> loop_label" where
  "batch_label q = (case q of None \<Rightarrow> Tau | Some ms \<Rightarrow> TookSteering ms)"

text \<open>
  \<open>answers\<close> are the responses that the provider can give.  A crash is an exception that ends the
  loop: of the hooks, of the queues, or of the request.
\<close>

inductive loop_step ::
  "loop_config \<Rightarrow> (stream_item list \<Rightarrow> bool) \<Rightarrow> loop_state \<Rightarrow> loop_label \<Rightarrow> loop_state \<Rightarrow> bool"
  for cfg :: loop_config and answers :: "stream_item list \<Rightarrow> bool" where
  Poll: "lp_phase l = Polling \<Longrightarrow> loop_step cfg answers l (TookSteering ms) (after_poll ms l)"
| Turn: "\<lbrakk>lp_phase l = Deciding; lp_hasMoreToolCalls l \<or> length (lp_pendingMessages l) > 0\<rbrakk> \<Longrightarrow>
    loop_step cfg answers l Tau (begin_turn tools l)"
| Respond: "\<lbrakk>lp_phase l = Responding; answers its;
      streamAssistantResponse cfg its (lp_context l) (lp_events l) = Some r\<rbrakk> \<Longrightarrow>
    loop_step cfg answers l Tau (after_response r l)"
| Tools: "\<lbrakk>lp_phase l = Running a b; batch_step (lc_immediate cfg) (lc_tier cfg) b q b'\<rbrakk> \<Longrightarrow>
    loop_step cfg answers l (batch_label q) (l\<lparr>lp_phase := Running a b'\<rparr>)"
| ToolsDone: "\<lbrakk>lp_phase l = Running a b; all_done b\<rbrakk> \<Longrightarrow>
    loop_step cfg answers l Tau (after_batch a b l)"
| Yield: "\<lbrakk>lp_phase l = Deciding; \<not> (lp_hasMoreToolCalls l \<or> length (lp_pendingMessages l) > 0)\<rbrakk> \<Longrightarrow>
    loop_step cfg answers l (TookFollowUps ms) (after_yield ms l)"
| Crash: "lp_phase l = Polling \<or> lp_phase l = Responding \<or>
      (lp_phase l = Deciding \<and> \<not> (lp_hasMoreToolCalls l \<or> length (lp_pendingMessages l) > 0)) \<Longrightarrow>
    loop_step cfg answers l Tau (l\<lparr>lp_phase := Crashed\<rparr>)"


definition label_messages :: "loop_label \<Rightarrow> message list" where
  "label_messages lab = (case lab of Tau \<Rightarrow> [] | TookSteering ms \<Rightarrow> ms | TookFollowUps ms \<Rightarrow> ms)"

text \<open>
  The states of a run, with the messages that it has taken from the queues.  \<open>sends\<close> are the messages
  that the user can queue.
\<close>

inductive loop_run ::
  "loop_config \<Rightarrow> (stream_item list \<Rightarrow> bool) \<Rightarrow> (message \<Rightarrow> bool) \<Rightarrow> loop_state \<Rightarrow> message list \<Rightarrow> loop_state \<Rightarrow> bool"
  for cfg :: loop_config and answers :: "stream_item list \<Rightarrow> bool" and sends :: "message \<Rightarrow> bool"
    and l0 :: loop_state where
  Start: "loop_run cfg answers sends l0 [] l0"
| Step: "\<lbrakk>loop_run cfg answers sends l0 taken l; loop_step cfg answers l lab l'; list_all sends (label_messages lab)\<rbrakk> \<Longrightarrow>
    loop_run cfg answers sends l0 (taken @ label_messages lab) l'"

section \<open>Answers\<close>

text \<open>
  What providers promise of a response: only its first event starts the message, and it ends with a
  final event, an abort or an exception.
\<close>

definition proper_stream :: "stream_item list \<Rightarrow> bool" where
  "proper_stream its \<longleftrightarrow> list_all (\<lambda>it. case it of EvStart _ \<Rightarrow> False | _ \<Rightarrow> True) (tl its) \<and>
     list_all (\<lambda>it. case it of StreamEnded _ _ \<Rightarrow> False | _ \<Rightarrow> True) its"

definition streaming :: "message list \<Rightarrow> message list \<Rightarrow> turn \<Rightarrow> bool" where
  "streaming base before t \<longleftrightarrow> ended_messages (tn_events t) = before \<and>
     (if tn_added t then (\<exists>p. tn_partial t = Some p \<and> tn_context t = base @ [AssistantMessage p])
      else tn_partial t = None \<and> tn_context t = base)"

definition answer_ok :: "message list \<Rightarrow> message list \<Rightarrow> answer \<times> turn \<Rightarrow> bool" where
  "answer_ok base before r \<longleftrightarrow>
     (case fst r of
        Answered a \<Rightarrow> tn_context (snd r) = base @ [AssistantMessage a] \<and>
          ended_messages (tn_events (snd r)) = before @ [AssistantMessage a]
      | Leaked \<Rightarrow> tn_context (snd r) = base \<and> ended_messages (tn_events (snd r)) = before
      | Thrown \<Rightarrow> ended_messages (tn_events (snd r)) = before)"

lemma put_last_snoc [simp]: "put_last m (ms @ [x]) = ms @ [m]"
  by (simp add: put_last_def)

lemma finish_ok:
  assumes "streaming base before t"
  shows "answer_ok base before (Answered a, finish_message a t)"
  using assms by (auto simp: streaming_def answer_ok_def finish_message_def split: if_splits)

lemma abort_ok: "streaming base before t \<Longrightarrow> answer_ok base before (emitAbortedAssistantMessage cfg t)"
  by (simp add: emitAbortedAssistantMessage_def finish_ok Let_def)

lemma take_back_ok: "streaming base before t \<Longrightarrow> answer_ok base before (Leaked, take_back t)"
  by (auto simp: streaming_def answer_ok_def take_back_def split: if_splits)

lemma update_ok: "\<lbrakk>streaming base before t; tn_partial t \<noteq> None\<rbrakk> \<Longrightarrow> streaming base before (update_partial p aborted t)"
  by (auto simp: streaming_def update_partial_def split: if_splits)

lemma count_ok [simp]: "streaming base before (t\<lparr>tn_completed := n\<rparr>) = streaming base before t"
  by (simp add: streaming_def)

lemma stream_items_ok:
  assumes "stream_items cfg its t = Some r" "streaming base before t"
    and "list_all (\<lambda>it. case it of EvStart _ \<Rightarrow> False | StreamEnded _ _ \<Rightarrow> False | _ \<Rightarrow> True) its"
  shows "answer_ok base before r"
  using assms
proof (induction its arbitrary: t)
  case (Cons it its)
  note ih = Cons.IH [OF _ _ Cons.prems(3) [simplified, THEN conjunct2]]
  show ?case
  proof (cases "tn_aborted t \<and> it \<noteq> StreamThrows")
    case True
    then show ?thesis using Cons.prems(1,2) abort_ok [of base before t cfg] by auto
  next
    case False
    then show ?thesis
    proof (cases it)
      case (EvUpdate p ends aborted)
      then show ?thesis
        using Cons.prems(1,2) False ih update_ok [of base before t p aborted] finish_ok
        by (auto simp: Let_def split: if_splits bool.splits option.splits)
    next
      case (EvFinal a leaks)
      then show ?thesis using Cons.prems(1,2) False finish_ok take_back_ok by (auto split: if_splits)
    next
      case StreamThrows
      then show ?thesis using Cons.prems(1,2) by (auto simp: answer_ok_def streaming_def)
    qed (use Cons.prems False abort_ok in auto)
  qed
qed simp

lemma response_ok:
  assumes "streamAssistantResponse cfg its base events = Some r" "proper_stream its"
  shows "answer_ok base (ended_messages events) r"
proof (cases its)
  case (Cons it rest)
  let ?t = "\<lparr>tn_context = base, tn_events = events, tn_partial = None, tn_added = False, tn_completed = 0, tn_aborted = False\<rparr>"
  have s: "streaming base (ended_messages events) ?t" by (simp add: streaming_def)
  have rest: "list_all (\<lambda>it. case it of EvStart _ \<Rightarrow> False | StreamEnded _ _ \<Rightarrow> False | _ \<Rightarrow> True) rest"
    using assms(2) Cons by (auto simp: proper_stream_def list_all_iff split: stream_item.splits)
  show ?thesis
  proof (cases "\<exists>p. it = EvStart p")
    case True
    then obtain p where p: "it = EvStart p" by blast
    have "streaming base (ended_messages events) (start_partial p ?t)" by (simp add: streaming_def start_partial_def)
    then show ?thesis using assms(1) Cons p stream_items_ok [OF _ _ rest] by (simp add: streamAssistantResponse_def)
  next
    case False
    then have "list_all (\<lambda>it. case it of EvStart _ \<Rightarrow> False | StreamEnded _ _ \<Rightarrow> False | _ \<Rightarrow> True) its"
      using rest Cons assms(2) by (auto simp: proper_stream_def split: stream_item.splits)
    then show ?thesis using assms(1) stream_items_ok [OF _ s] by (simp add: streamAssistantResponse_def)
  qed
qed (use assms in \<open>simp add: streamAssistantResponse_def\<close>)


section \<open>The transcript\<close>

text \<open>Behind every assistant message stand the results of its calls, each call answered once.\<close>

definition answered :: "message list \<Rightarrow> bool" where
  "answered ms \<longleftrightarrow> (\<forall>xs a ys. ms = xs @ AssistantMessage a # ys \<longrightarrow>
     (\<exists>rs zs. ys = map ToolResultMessage rs @ zs \<and>
       mset (map result_key rs) = mset (map call_key (tool_calls a))))"

lemma answered_append:
  assumes "answered xs" "answered ys"
  shows "answered (xs @ ys)"
  unfolding answered_def
proof (intro allI impI)
  fix us a vs assume e: "xs @ ys = us @ AssistantMessage a # vs"
  then consider w where "us = xs @ w" "ys = w @ AssistantMessage a # vs"
    | w where "xs = us @ w" "w @ ys = AssistantMessage a # vs"
    by (metis append_eq_append_conv2)
  then show "\<exists>rs zs. vs = map ToolResultMessage rs @ zs \<and> mset (map result_key rs) = mset (map call_key (tool_calls a))"
  proof cases
    case 1
    then show ?thesis using assms(2) unfolding answered_def by blast
  next
    case (2 w)
    show ?thesis
    proof (cases w)
      case Nil
      then have "ys = [] @ AssistantMessage a # vs" using 2 by simp
      then show ?thesis using assms(2) unfolding answered_def by blast
    next
      case (Cons m w')
      then have "xs = us @ AssistantMessage a # w'" "vs = w' @ ys" using 2 by simp_all
      then show ?thesis using assms(1) unfolding answered_def by (metis append.assoc)
    qed
  qed
qed

lemma answered_plain: "list_all (\<lambda>m. \<not> is_assistant_role m) ms \<Longrightarrow> answered ms"
  by (auto simp: answered_def is_assistant_role_def)

lemma answered_turn:
  assumes "mset (map result_key rs) = mset (map call_key (tool_calls a))"
  shows "answered (AssistantMessage a # map ToolResultMessage rs)"
  unfolding answered_def
proof (intro allI impI)
  fix us b vs assume e: "AssistantMessage a # map ToolResultMessage rs = us @ AssistantMessage b # vs"
  have "us = []"
  proof (rule ccontr)
    assume "us \<noteq> []"
    then have "AssistantMessage b \<in> set (map ToolResultMessage rs)"
      using e by (cases us) (metis list.sel(3) append_Cons in_set_conv_decomp)+
    then show False by auto
  qed
  then show "\<exists>rs zs. vs = map ToolResultMessage rs @ zs \<and> mset (map result_key rs) = mset (map call_key (tool_calls b))"
    using e assms by (intro exI [of _ rs] exI [of _ "[]"]) simp
qed

text \<open>What the user wrote.\<close>

definition from_user :: "message \<Rightarrow> bool" where
  "from_user m = (case m of AssistantMessage _ \<Rightarrow> False | ToolResultMessage _ \<Rightarrow> False | _ \<Rightarrow> True)"

lemma from_user_plain: "list_all from_user ms \<Longrightarrow> list_all (\<lambda>m. \<not> is_assistant_role m) ms \<and> filter from_user ms = ms"
  by (induction ms) (auto simp: from_user_def is_assistant_role_def split: message.splits)

lemma filter_results [simp]:
  "filter from_user (map ToolResultMessage rs) = []"
  "filter from_user (map (\<lambda>x. ToolResultMessage (f x)) xs) = []"
  by (simp_all add: filter_empty_conv from_user_def)

lemma from_user_assistant [simp]: "\<not> from_user (AssistantMessage a)"
  by (simp add: from_user_def)

lemma ended_message_events [simp]: "ended_messages (message_events ms) = ms"
  by (induction ms) (simp_all add: message_events_def)

definition quiet :: "message list \<Rightarrow> message list \<Rightarrow> message list \<Rightarrow> loop_state \<Rightarrow> bool" where
  "quiet ctx0 prompts taken l \<longleftrightarrow>
     ended_messages (lp_events l) = lp_newMessages l \<and> answered (lp_newMessages l) \<and>
     list_all from_user (lp_pendingMessages l) \<and>
     filter from_user (lp_newMessages l) @ lp_pendingMessages l = filter from_user prompts @ taken \<and>
     (lp_phase l \<noteq> Crashed \<longrightarrow> lp_context l = ctx0 @ lp_newMessages l) \<and>
     (lp_phase l \<noteq> Deciding \<longrightarrow> lp_pendingMessages l = []) \<and>
     (lp_phase l = Finished \<longrightarrow> (\<exists>es. lp_events l = es @ [AgentEnd (lp_newMessages l)]))"

definition loop_inv :: "loop_config \<Rightarrow> message list \<Rightarrow> message list \<Rightarrow> message list \<Rightarrow> loop_state \<Rightarrow> bool" where
  "loop_inv cfg ctx0 prompts taken l \<longleftrightarrow>
     (case lp_phase l of
        Running a b \<Rightarrow>
          (\<exists>xs ms tools. lp_newMessages l = xs @ [AssistantMessage a] \<and> answered xs \<and>
            batch_run (lc_immediate cfg) (lc_tier cfg) (new_batch tools a (lp_events l)) ms b \<and>
            list_all from_user ms \<and>
            ended_messages (lp_events l) = lp_newMessages l \<and> lp_context l = ctx0 @ lp_newMessages l \<and>
            lp_pendingMessages l = [] \<and>
            filter from_user (lp_newMessages l) @ ms = filter from_user prompts @ taken)
      | _ \<Rightarrow> quiet ctx0 prompts taken l)"

lemma inv_quiet: "(\<And>a b. lp_phase l \<noteq> Running a b) \<Longrightarrow> loop_inv cfg ctx0 prompts taken l = quiet ctx0 prompts taken l"
  by (auto simp: loop_inv_def split: phase.splits)

lemma kept_start:
  assumes "list_all from_user prompts"
  shows "loop_inv cfg ctx0 prompts [] (agentLoop prompts ctx0 tools)"
  using assms from_user_plain [of prompts] answered_plain [of prompts]
  by (simp add: inv_quiet quiet_def agentLoop_def)

lemma placed_results: "map result_key (map (aborted_result reason e) calls) = map call_key calls"
  by (simp add: aborted_result_def comp_def)

lemma ended_aborted [simp]:
  "ended_messages (concat (map (\<lambda>c. aborted_events c (f c)) calls)) = map ToolResultMessage (map f calls)"
  by (induction calls) (simp_all add: aborted_events_def start_event_def)


lemma answered_snoc_turn:
  assumes "answered xs" "mset (map result_key rs) = mset (map call_key (tool_calls a))"
  shows "answered (xs @ AssistantMessage a # map ToolResultMessage rs)"
  using answered_append [OF assms(1) answered_turn [OF assms(2)]] .

lemma inv_answer:
  assumes "ended_messages (lp_events l) = lp_newMessages l @ [AssistantMessage a]" "answered (lp_newMessages l)"
    and "lp_pendingMessages l = []" "filter from_user (lp_newMessages l) = filter from_user prompts @ taken"
    and "lp_context l = ctx0 @ lp_newMessages l @ [AssistantMessage a]"
  shows "loop_inv cfg ctx0 prompts taken (after_answer a l)"
proof -
  let ?calls = "tool_calls a"
  have p: "answered (lp_newMessages l @ AssistantMessage a # map ToolResultMessage (map (aborted_result reason e) ?calls))" for reason e
    by (rule answered_snoc_turn [OF assms(2)]) (simp only: placed_results)
  show ?thesis
  proof (cases "(am_stopReason a = StopToolUse \<or> am_stopReason a = StopStop) \<and> length ?calls > 0")
    case True
    then have "am_stopReason a \<noteq> StopError \<and> am_stopReason a \<noteq> StopAborted" by auto
    then have "after_answer a l = l\<lparr>lp_newMessages := lp_newMessages l @ [AssistantMessage a], lp_hasMoreToolCalls := True,
        lp_phase := Running a (new_batch (lp_tools l) a (lp_events l))\<rparr>"
      using True by (simp add: after_answer_def Let_def)
    then show ?thesis using assms batch_run.Start by (auto simp: loop_inv_def)
  next
    case False
    then show ?thesis
      using assms p by (auto simp: after_answer_def Let_def inv_quiet quiet_def end_loop_def place_results_def comp_def)
  qed
qed

lemma inv_response:
  assumes "quiet ctx0 prompts taken l" "lp_phase l = Responding" "answer_ok (lp_context l) (ended_messages (lp_events l)) r"
  shows "loop_inv cfg ctx0 prompts taken (after_response r l)"
proof (cases "fst r")
  case (Answered a)
  then show ?thesis
    using assms by (auto simp: after_response_def Let_def quiet_def answer_ok_def intro!: inv_answer)
next
  case Leaked
  then show ?thesis
    using assms by (auto simp: after_response_def Let_def quiet_def answer_ok_def inv_quiet)
next
  case Thrown
  then show ?thesis
    using assms by (auto simp: after_response_def Let_def quiet_def answer_ok_def inv_quiet)
qed

lemma inv_batch_done:
  assumes "loop_inv cfg ctx0 prompts taken l" "lp_phase l = Running a b" "all_done b"
  shows "loop_inv cfg ctx0 prompts taken (after_batch a b l)"
proof -
  obtain xs ms tools where x: "lp_newMessages l = xs @ [AssistantMessage a]" "answered xs"
    "batch_run (lc_immediate cfg) (lc_tier cfg) (new_batch tools a (lp_events l)) ms b" "list_all from_user ms"
    "ended_messages (lp_events l) = lp_newMessages l" "lp_context l = ctx0 @ lp_newMessages l" "lp_pendingMessages l = []"
    "filter from_user (lp_newMessages l) @ ms = filter from_user prompts @ taken"
    using assms(1,2) by (auto simp: loop_inv_def)
  note b = batch_results [OF x(3) assms(3)]
  let ?rs = "bt_emitted (sweep b)"
  have "answered (lp_newMessages l @ map ToolResultMessage ?rs)"
    using answered_snoc_turn [OF x(2), of ?rs a] b x(1) by simp
  then show ?thesis
    using x b by (cases "ms = []") (simp_all add: after_batch_def Let_def inv_quiet quiet_def)
qed

lemma kept_step:
  assumes "loop_step cfg answers l lab l'" "loop_inv cfg ctx0 prompts taken l"
    and "\<forall>its. answers its \<longrightarrow> proper_stream its" "list_all from_user (label_messages lab)"
  shows "loop_inv cfg ctx0 prompts (taken @ label_messages lab) l'"
  using assms(1)
proof cases
  case (Poll ms)
  then show ?thesis using assms(2,4) by (auto simp: inv_quiet quiet_def after_poll_def label_messages_def)
next
  case (Turn tools)
  have q: "quiet ctx0 prompts taken l" using Turn assms(2) by (simp add: inv_quiet)
  have a: "answered (lp_newMessages l)" "list_all from_user (lp_pendingMessages l)" using q by (simp_all add: quiet_def)
  have "answered (lp_newMessages l @ lp_pendingMessages l)"
    using from_user_plain [OF a(2)] by (intro answered_append a(1) answered_plain) simp
  then show ?thesis
    using Turn q from_user_plain [of "lp_pendingMessages l"]
    by (auto simp: inv_quiet quiet_def begin_turn_def label_messages_def)
next
  case (Respond its r)
  have q: "quiet ctx0 prompts taken l" using Respond assms(2) by (simp add: inv_quiet)
  have "answer_ok (lp_context l) (ended_messages (lp_events l)) r" using Respond assms(3) by (intro response_ok) auto
  then show ?thesis using Respond inv_response [OF q] by (simp add: label_messages_def)
next
  case (Tools a b q b')
  obtain xs ms tools where x: "lp_newMessages l = xs @ [AssistantMessage a]" "answered xs"
    "batch_run (lc_immediate cfg) (lc_tier cfg) (new_batch tools a (lp_events l)) ms b" "list_all from_user ms"
    "ended_messages (lp_events l) = lp_newMessages l" "lp_context l = ctx0 @ lp_newMessages l" "lp_pendingMessages l = []"
    "filter from_user (lp_newMessages l) @ ms = filter from_user prompts @ taken"
    using assms(2) Tools by (auto simp: loop_inv_def)
  have m: "label_messages lab = concat (opt_list q)"
    using Tools(1) by (simp add: label_messages_def batch_label_def split: option.splits)
  have "batch_run (lc_immediate cfg) (lc_tier cfg) (new_batch tools a (lp_events l)) (ms @ concat (opt_list q)) b'"
    using batch_run.Internal [OF x(3), of b'] batch_run.Taken [OF x(3), of _ b'] Tools(4) by (cases q) simp_all
  moreover have "list_all from_user (ms @ concat (opt_list q))" using x(4) assms(4) m by simp
  moreover have "filter from_user (lp_newMessages l) @ ms @ concat (opt_list q) = filter from_user prompts @ taken @ label_messages lab"
    using x(8) m by simp
  ultimately show ?thesis using x Tools(2) unfolding loop_inv_def by auto
next
  case (ToolsDone a b)
  then show ?thesis using inv_batch_done [OF assms(2)] by (simp add: label_messages_def)
next
  case (Yield ms)
  then show ?thesis using assms(2,4)
    by (auto simp: inv_quiet quiet_def after_yield_def end_loop_def label_messages_def)
next
  case Crash
  then have "quiet ctx0 prompts taken l" using assms(2) by (auto simp: inv_quiet)
  then show ?thesis using Crash by (auto simp: inv_quiet quiet_def label_messages_def)
qed

lemma run_inv:
  assumes "loop_run cfg answers sends (agentLoop prompts ctx0 tools) taken l"
    and "\<forall>its. answers its \<longrightarrow> proper_stream its" "\<forall>m. sends m \<longrightarrow> from_user m" "list_all from_user prompts"
  shows "loop_inv cfg ctx0 prompts taken l"
  using assms(1)
proof induction
  case Start
  show ?case by (rule kept_start [OF assms(4)])
next
  case (Step taken l lab l')
  have "list_all from_user (label_messages lab)" using Step(3) assms(3) by (auto simp: list_all_iff)
  from kept_step [OF Step(2) Step.IH assms(2) this] show ?case .
qed


section \<open>Properties\<close>

text \<open>
  C10: the transcript of a run.  Between the batches of tool calls, whatever the provider answers, the
  tools do and the user queues: behind every assistant message stand the results of its calls, each
  call answered once; the context is the old one with the new messages behind it, the messages
  reported as complete are exactly the new ones, in order; every message taken from the queues stands
  in it exactly once, in order, or waits for the next turn; and a run that ends reports them all.
\<close>

theorem run_keeps_transcript:
  assumes "loop_run cfg answers sends (agentLoop prompts ctx0 tools) taken l"
    and "\<forall>its. answers its \<longrightarrow> proper_stream its" "\<forall>m. sends m \<longrightarrow> from_user m" "list_all from_user prompts"
    and "\<And>a b. lp_phase l \<noteq> Running a b"
  shows "answered (lp_newMessages l) \<and> ended_messages (lp_events l) = lp_newMessages l \<and>
    filter from_user (lp_newMessages l) @ lp_pendingMessages l = prompts @ taken \<and>
    (lp_phase l \<noteq> Crashed \<longrightarrow> lp_context l = ctx0 @ lp_newMessages l) \<and>
    (lp_phase l \<noteq> Deciding \<longrightarrow> lp_pendingMessages l = []) \<and>
    (lp_phase l = Finished \<longrightarrow> last (lp_events l) = AgentEnd (lp_newMessages l))"
  using run_inv [OF assms(1-4)] assms(5) from_user_plain [OF assms(4)] by (auto simp: inv_quiet quiet_def)

definition plain_config :: loop_config where
  "plain_config = \<lparr>lc_immediate = True, lc_tier = WorkerTier, lc_maxToolCallsPerTurn = None, lc_provider = js ''p'', lc_model = js ''m''\<rparr>"

definition reply :: "stop_reason \<Rightarrow> assistant_block list \<Rightarrow> assistant_message" where
  "reply stop content = (empty_answer plain_config)\<lparr>am_content := content, am_stopReason := stop, am_errorMessage := None\<rparr>"

definition question :: "string \<Rightarrow> message" where
  "question s = UserMessage (Plain (js s))"

definition asked :: loop_state where
  "asked = begin_turn [] (after_poll [] (agentLoop [question ''one''] [] []))"

definition answered_one :: loop_state where
  "answered_one = after_response
     (the (streamAssistantResponse plain_config [EvFinal (reply StopStop []) False] (lp_context asked) (lp_events asked))) asked"

definition steered :: loop_state where
  "steered = begin_turn [] (after_poll [question ''two''] answered_one)"

lemma step_trans:
  "\<lbrakk>loop_run cfg answers sends l0 taken l; loop_step cfg answers l lab l'; list_all sends (label_messages lab);
    taken' = taken @ label_messages lab\<rbrakk> \<Longrightarrow> loop_run cfg answers sends l0 taken' l'"
  using loop_run.Step by metis

lemma steered_run:
  "loop_run plain_config proper_stream from_user (agentLoop [question ''one''] [] []) [question ''two''] steered"
proof -
  let ?l0 = "agentLoop [question ''one''] [] []"
  note t = step_trans [where sends = from_user]
  have "loop_run plain_config proper_stream from_user ?l0 [] (after_poll [] ?l0)"
    by (rule t [OF loop_run.Start loop_step.Poll]) (simp_all add: agentLoop_def label_messages_def)
  then have "loop_run plain_config proper_stream from_user ?l0 [] asked"
    unfolding asked_def by (rule t [OF _ loop_step.Turn]) (simp_all add: agentLoop_def after_poll_def label_messages_def)
  then have "loop_run plain_config proper_stream from_user ?l0 [] answered_one"
    unfolding answered_one_def
  proof (rule t [OF _ loop_step.Respond])
    show "lp_phase asked = Responding" by code_simp
    show "proper_stream [EvFinal (reply StopStop []) False]" by (simp add: proper_stream_def)
    show "streamAssistantResponse plain_config [EvFinal (reply StopStop []) False] (lp_context asked) (lp_events asked) =
      Some (the (streamAssistantResponse plain_config [EvFinal (reply StopStop []) False] (lp_context asked) (lp_events asked)))"
      by (simp add: streamAssistantResponse_def)
  qed (simp_all add: label_messages_def)
  then have "loop_run plain_config proper_stream from_user ?l0 [question ''two''] (after_poll [question ''two''] answered_one)"
  proof (rule t [OF _ loop_step.Poll])
    show "lp_phase answered_one = Polling" by code_simp
  qed (simp_all add: label_messages_def question_def from_user_def)
  then show ?thesis
    unfolding steered_def by (rule t [OF _ loop_step.Turn]) (simp_all add: after_poll_def label_messages_def)
qed

theorem run_keeps_transcript_witness:
  "\<exists>ms. lp_newMessages steered = [question ''one''] @ ms @ [question ''two''] \<and> answered (lp_newMessages steered) \<and>
    ended_messages (lp_events steered) = lp_newMessages steered \<and> lp_context steered = lp_newMessages steered"
proof -
  have p: "lp_phase steered = Responding" by code_simp
  have q: "list_all from_user [question ''one'']" by (simp add: question_def from_user_def)
  have n: "lp_newMessages steered = [question ''one''] @ [AssistantMessage (reply StopStop [])] @ [question ''two'']" by code_simp
  show ?thesis using run_keeps_transcript [OF steered_run _ _ q] p n by auto
qed

text \<open>
  What the code does when an answer to a steering message leaks.  The retry goes back to the top of
  the inner loop, whose condition is false again when the turn before it had no tool calls: the loop
  ends as if it had answered, with the user's message as the last one and the retry never made.
\<close>

theorem leaked_answer_not_retried:
  "\<exists>l. loop_run plain_config proper_stream from_user (agentLoop [question ''one''] [] []) [question ''two''] l \<and>
    lp_phase l = Finished \<and> last (lp_newMessages l) = question ''two'' \<and> lp_harmonyRetryAttempt l = 1"
proof -
  let ?its = "[EvStart (reply StopStop []), EvFinal (reply StopStop []) True]"
  let ?r = "the (streamAssistantResponse plain_config ?its (lp_context steered) (lp_events steered))"
  let ?l = "after_yield [] (after_response ?r steered)"
  note t = step_trans [where sends = from_user]
  have "loop_run plain_config proper_stream from_user (agentLoop [question ''one''] [] []) [question ''two''] (after_response ?r steered)"
  proof (rule t [OF steered_run loop_step.Respond])
    show "lp_phase steered = Responding" by code_simp
    show "proper_stream ?its" by (simp add: proper_stream_def)
    show "streamAssistantResponse plain_config ?its (lp_context steered) (lp_events steered) = Some ?r"
      by (simp add: streamAssistantResponse_def)
  qed (simp_all add: label_messages_def)
  then have "loop_run plain_config proper_stream from_user (agentLoop [question ''one''] [] []) [question ''two''] ?l"
  proof (rule t [OF _ loop_step.Yield])
    show "lp_phase (after_response ?r steered) = Deciding" by code_simp
    show "\<not> (lp_hasMoreToolCalls (after_response ?r steered) \<or> 0 < length (lp_pendingMessages (after_response ?r steered)))"
      by code_simp
  qed (simp_all add: label_messages_def)
  moreover have "lp_phase ?l = Finished" "last (lp_newMessages ?l) = question ''two''" "lp_harmonyRetryAttempt ?l = 1"
    by code_simp+
  ultimately show ?thesis by blast
qed

end
