(* ===== verification/Agent.thy ===== *)
theory Agent
  imports Agent_Loop "HOL-Library.Sublist"
begin

text \<open>
  The class \<open>Agent\<close> of \<open>packages/agent/src/agent.ts\<close>: the conversation that it holds, its two queues,
  \<open>prompt\<close>, \<open>continue\<close>, the run of a loop, the handling of its events, and the split of a message around
  tool results that the Cursor provider delivers while it streams.  The loop runs beside the agent,
  which consumes its events through an event stream; the two, with the user, are the composed
  step relation of this theory.  Setters that store one request option are left out, and so is
  \<open>popMessage\<close>, which compares object identities.
\<close>

section \<open>Queues\<close>

datatype queue_mode = AllAtOnce | OneAtATime

definition dequeue :: "queue_mode \<Rightarrow> 'a list \<Rightarrow> 'a list \<times> 'a list" where
  "dequeue mode q =
     (if mode = OneAtATime then (case q of first # rest \<Rightarrow> ([first], rest) | [] \<Rightarrow> ([], q))
      else (q, []))"

section \<open>State\<close>

record agent =
  ag_messages :: "message list"
  ag_isStreaming :: bool
  ag_streamMessage :: "message option"
  ag_pendingToolCalls :: "jstring list"
  ag_error :: "jstring option"
  ag_model :: "(jstring \<times> jstring) option"
  ag_tools :: "agent_tool list"
  ag_steeringQueue :: "message list"
  ag_followUpQueue :: "message list"
  ag_steeringMode :: queue_mode
  ag_followUpMode :: queue_mode
  ag_toolBuffer :: "(tool_result \<times> nat) list"
  ag_abortController :: "(nat \<times> bool) option"
  ag_runningPrompt :: "nat option"
  ag_resolved :: "nat list"
  ag_runs :: nat
  ag_emitted :: "agent_event list"

text \<open>
  \<open>ag_toolBuffer\<close>: \<open>#cursorToolResultBuffer\<close>.  Controllers and promises are objects made once per
  run, so they carry its number: \<open>ag_abortController\<close> with its \<open>aborted\<close> flag, \<open>ag_runningPrompt\<close> with
  its resolver, \<open>ag_resolved\<close> the promises that are resolved.  \<open>ag_emitted\<close> is what listeners were told.
\<close>

definition emit :: "agent_event \<Rightarrow> agent \<Rightarrow> agent" where
  "emit e ag = ag\<lparr>ag_emitted := ag_emitted ag @ [e]\<rparr>"

definition agent_appendMessage :: "message \<Rightarrow> agent \<Rightarrow> agent" where
  "agent_appendMessage m ag = ag\<lparr>ag_messages := ag_messages ag @ [m]\<rparr>"

definition replaceMessages :: "message list \<Rightarrow> agent \<Rightarrow> agent" where
  "replaceMessages ms ag = ag\<lparr>ag_messages := ms\<rparr>"

definition clearMessages :: "agent \<Rightarrow> agent" where
  "clearMessages ag = ag\<lparr>ag_messages := []\<rparr>"

definition steer :: "message \<Rightarrow> agent \<Rightarrow> agent" where
  "steer m ag = ag\<lparr>ag_steeringQueue := ag_steeringQueue ag @ [m]\<rparr>"

definition followUp :: "message \<Rightarrow> agent \<Rightarrow> agent" where
  "followUp m ag = ag\<lparr>ag_followUpQueue := ag_followUpQueue ag @ [m]\<rparr>"

definition clearSteeringQueue :: "agent \<Rightarrow> agent" where
  "clearSteeringQueue ag = ag\<lparr>ag_steeringQueue := []\<rparr>"

definition clearFollowUpQueue :: "agent \<Rightarrow> agent" where
  "clearFollowUpQueue ag = ag\<lparr>ag_followUpQueue := []\<rparr>"

definition clearAllQueues :: "agent \<Rightarrow> agent" where
  "clearAllQueues ag = ag\<lparr>ag_steeringQueue := [], ag_followUpQueue := []\<rparr>"

definition hasQueuedMessages :: "agent \<Rightarrow> bool" where
  "hasQueuedMessages ag \<longleftrightarrow> length (ag_steeringQueue ag) > 0 \<or> length (ag_followUpQueue ag) > 0"

definition dequeueSteeringMessages :: "agent \<Rightarrow> message list \<times> agent" where
  "dequeueSteeringMessages ag =
     (let (ms, rest) = dequeue (ag_steeringMode ag) (ag_steeringQueue ag) in (ms, ag\<lparr>ag_steeringQueue := rest\<rparr>))"

definition dequeueFollowUpMessages :: "agent \<Rightarrow> message list \<times> agent" where
  "dequeueFollowUpMessages ag =
     (let (ms, rest) = dequeue (ag_followUpMode ag) (ag_followUpQueue ag) in (ms, ag\<lparr>ag_followUpQueue := rest\<rparr>))"

definition pop_last :: "'a list \<Rightarrow> 'a option \<times> 'a list" where
  "pop_last q = (if q = [] then (None, q) else (Some (last q), butlast q))"

definition popLastSteer :: "agent \<Rightarrow> message option \<times> agent" where
  "popLastSteer ag = (let (m, q) = pop_last (ag_steeringQueue ag) in (m, ag\<lparr>ag_steeringQueue := q\<rparr>))"

definition popLastFollowUp :: "agent \<Rightarrow> message option \<times> agent" where
  "popLastFollowUp ag = (let (m, q) = pop_last (ag_followUpQueue ag) in (m, ag\<lparr>ag_followUpQueue := q\<rparr>))"

definition agent_abort :: "agent \<Rightarrow> agent" where
  "agent_abort ag = ag\<lparr>ag_abortController := map_option (\<lambda>(n, _). (n, True)) (ag_abortController ag)\<rparr>"

definition is_aborted :: "agent \<Rightarrow> bool" where
  "is_aborted ag = (case ag_abortController ag of Some (_, aborted) \<Rightarrow> aborted | None \<Rightarrow> False)"

text \<open>\<open>waitForIdle\<close>: the promise it returns, if it is not resolved already.\<close>

definition waitForIdle :: "agent \<Rightarrow> nat option" where
  "waitForIdle ag = ag_runningPrompt ag"

definition agent_reset :: "agent \<Rightarrow> agent" where
  "agent_reset ag =
     ag\<lparr>ag_messages := [], ag_isStreaming := False, ag_streamMessage := None, ag_pendingToolCalls := [],
        ag_error := None, ag_steeringQueue := [], ag_followUpQueue := []\<rparr>"

definition set_insert :: "'a \<Rightarrow> 'a list \<Rightarrow> 'a list" where
  "set_insert x xs = (if x \<in> set xs then xs else xs @ [x])"

definition emitExternalEvent :: "agent_event \<Rightarrow> agent \<Rightarrow> agent" where
  "emitExternalEvent e ag =
     emit e (case e of
        MessageStart m \<Rightarrow> ag\<lparr>ag_streamMessage := Some m\<rparr>
      | MessageUpdate m \<Rightarrow> ag\<lparr>ag_streamMessage := Some m\<rparr>
      | MessageEnd m \<Rightarrow> agent_appendMessage m (ag\<lparr>ag_streamMessage := None\<rparr>)
      | ToolExecutionStart i _ \<Rightarrow> ag\<lparr>ag_pendingToolCalls := set_insert i (ag_pendingToolCalls ag)\<rparr>
      | ToolExecutionEnd i _ _ \<Rightarrow> ag\<lparr>ag_pendingToolCalls := filter (\<lambda>x. x \<noteq> i) (ag_pendingToolCalls ag)\<rparr>
      | _ \<Rightarrow> ag)"

section \<open>Splitting a message around tool results\<close>

definition text_of_block :: "assistant_block \<Rightarrow> jstring" where
  "text_of_block b = (case b of TextBlock t \<Rightarrow> t | _ \<Rightarrow> [])"

definition full_text :: "assistant_message \<Rightarrow> jstring" where
  "full_text a = concat (map text_of_block (am_content a))"

definition getAssistantTextLength :: "message option \<Rightarrow> nat" where
  "getAssistantTextLength m = (case m of Some (AssistantMessage a) \<Rightarrow> length (full_text a) | _ \<Rightarrow> 0)"

text \<open>\<open>cursorOnToolResult\<close>, with the message that the user's handler has left.\<close>

definition cursorOnToolResult :: "tool_result \<Rightarrow> agent \<Rightarrow> agent" where
  "cursorOnToolResult r ag =
     ag\<lparr>ag_toolBuffer := ag_toolBuffer ag @ [(r, getAssistantTextLength (ag_streamMessage ag))]\<rparr>"

definition add_message :: "message \<Rightarrow> agent \<Rightarrow> agent" where
  "add_message m ag = emit (MessageEnd m) (agent_appendMessage m (emit (MessageStart m) ag))"

definition add_results :: "(tool_result \<times> nat) list \<Rightarrow> agent \<Rightarrow> agent" where
  "add_results buffer ag = foldl (\<lambda>ag (r, _). add_message (ToolResultMessage r) ag) ag buffer"

definition end_assistant :: "assistant_message \<Rightarrow> agent \<Rightarrow> agent" where
  "end_assistant a ag = emit (MessageEnd (AssistantMessage a)) (agent_appendMessage (AssistantMessage a) (ag\<lparr>ag_streamMessage := None\<rparr>))"

definition continuation_usage :: usage where
  "continuation_usage = \<lparr>us_input = 0, us_output = 0, us_cacheRead = 0, us_cacheWrite = 0, us_totalTokens = 0,
     us_premiumRequests = None\<rparr>"

definition emitCursorSplitAssistantMessage :: "assistant_message \<Rightarrow> agent \<Rightarrow> agent" where
  "emitCursorSplitAssistantMessage a ag0 =
     (let buffer = ag_toolBuffer ag0; ag = ag0\<lparr>ag_toolBuffer := []\<rparr>
      in if length buffer = 0 then end_assistant a ag
         else let splitPoint = Min (set (map snd buffer)); fullText = full_text a
           in if length fullText = 0 \<or> splitPoint \<le> 0 \<or> splitPoint \<ge> length fullText
              then add_results buffer (end_assistant a ag)
              else let preambleText = take splitPoint fullText; continuationText = drop splitPoint fullText;
                  preamble = a\<lparr>am_content := map (\<lambda>b. case b of TextBlock _ \<Rightarrow> TextBlock preambleText | _ \<Rightarrow> b) (am_content a)\<rparr>;
                  ag' = add_results buffer (end_assistant preamble ag)
                in if length (trim continuationText) > 0
                   then add_message (AssistantMessage (a\<lparr>am_content := [TextBlock continuationText], am_usage := continuation_usage\<rparr>)) ag'
                   else ag')"

section \<open>A run\<close>

record run =
  rn_loop :: loop_state
  rn_consumed :: nat
  rn_partial :: "message option"
  rn_skip :: bool

datatype agent_error = AgentBusy | NoModelConfigured | NoMessagesToContinue | CannotContinueFromAssistant

text \<open>The \<open>finally\<close> of \<open>#runLoop\<close>.\<close>

definition finally_run :: "agent \<Rightarrow> agent" where
  "finally_run ag =
     ag\<lparr>ag_isStreaming := False, ag_streamMessage := None, ag_pendingToolCalls := [], ag_abortController := None,
        ag_resolved := ag_resolved ag @ opt_list (ag_runningPrompt ag), ag_runningPrompt := None\<rparr>"

definition error_message :: "jstring \<Rightarrow> agent \<Rightarrow> assistant_message" where
  "error_message err ag =
     \<lparr>am_content = [TextBlock []], am_provider = fst (the (ag_model ag)), am_model = snd (the (ag_model ag)),
      am_usage = continuation_usage, am_stopReason = (if is_aborted ag then StopAborted else StopError),
      am_errorMessage = Some err, am_replay = False\<rparr>"

text \<open>Its \<open>catch\<close>, then \<open>finally\<close>.\<close>

definition fail_run :: "jstring \<Rightarrow> agent \<Rightarrow> agent" where
  "fail_run err ag =
     (let m = AssistantMessage (error_message err ag)
      in finally_run (emit (AgentEnd [m]) ((agent_appendMessage m ag)\<lparr>ag_error := Some err\<rparr>)))"

definition block_not_empty :: "assistant_block \<Rightarrow> bool" where
  "block_not_empty b =
     (case b of
        ThinkingBlock t _ \<Rightarrow> length (trim t) > 0
      | TextBlock t \<Rightarrow> length (trim t) > 0
      | ToolCall c \<Rightarrow> length (trim (tc_name c)) > 0
      | RedactedThinking _ \<Rightarrow> False)"

text \<open>After the last event: a partial message that is left over.\<close>

definition finish_run :: "message option \<Rightarrow> agent \<Rightarrow> agent" where
  "finish_run partial ag =
     (case partial of
        Some (AssistantMessage a) \<Rightarrow>
          (if length (am_content a) > 0
           then (if list_ex block_not_empty (am_content a) then finally_run (agent_appendMessage (AssistantMessage a) ag)
                 else if is_aborted ag then fail_run (js ''Request was aborted'') ag
                 else finally_run ag)
           else finally_run ag)
      | _ \<Rightarrow> finally_run ag)"

text \<open>
  The start of \<open>#runLoop\<close>.  Without messages \<open>agentLoopContinue\<close> may throw inside the \<open>try\<close>: then
  there is no run.
\<close>

definition start_run :: "message list option \<Rightarrow> bool \<Rightarrow> agent \<Rightarrow> (agent_error + run option) \<times> agent" where
  "start_run messages skip ag0 =
     (if ag_model ag0 = None then (Inl NoModelConfigured, ag0)
      else let ag = ag0\<lparr>ag_runningPrompt := Some (ag_runs ag0), ag_abortController := Some (ag_runs ag0, False),
                        ag_runs := ag_runs ag0 + 1, ag_isStreaming := True, ag_streamMessage := None,
                        ag_error := None, ag_toolBuffer := []\<rparr>;
               start = (\<lambda>l. \<lparr>rn_loop = l, rn_consumed = 0, rn_partial = None, rn_skip = skip\<rparr>)
        in case messages of
             Some ms \<Rightarrow> (Inr (Some (start (agentLoop ms (ag_messages ag) (ag_tools ag)))), ag)
           | None \<Rightarrow>
               (case agentLoopContinue (ag_messages ag) (ag_tools ag) of
                  Inr l \<Rightarrow> (Inr (Some (start l)), ag)
                | Inl NoMessages \<Rightarrow> (Inr None, fail_run (js ''Cannot continue: no messages in context'') ag)
                | Inl LastIsAssistant \<Rightarrow> (Inr None, fail_run (js ''Cannot continue from message role: assistant'') ag)))"

datatype prompt_input = PromptText jstring "content list" | PromptMessages "message list"

definition prompt_messages :: "prompt_input \<Rightarrow> message list" where
  "prompt_messages input =
     (case input of
        PromptText t images \<Rightarrow> [UserMessage (Blocks (TextContent t # images))]
      | PromptMessages ms \<Rightarrow> ms)"

definition prompt :: "prompt_input \<Rightarrow> agent \<Rightarrow> (agent_error + run option) \<times> agent" where
  "prompt input ag =
     (if ag_isStreaming ag then (Inl AgentBusy, ag)
      else if ag_model ag = None then (Inl NoModelConfigured, ag)
      else start_run (Some (prompt_messages input)) False ag)"

definition continue_run :: "agent \<Rightarrow> (agent_error + run option) \<times> agent" where
  "continue_run ag =
     (if ag_isStreaming ag then (Inl AgentBusy, ag)
      else if length (ag_messages ag) = 0 then (Inl NoMessagesToContinue, ag)
      else if is_assistant_role (last (ag_messages ag))
      then let (steering, ag1) = dequeueSteeringMessages ag
        in if length steering > 0 then start_run (Some steering) True ag1
           else let (followUps, ag2) = dequeueFollowUpMessages ag1
             in if length followUps > 0 then start_run (Some followUps) False ag2
                else (Inl CannotContinueFromAssistant, ag2)
      else start_run None False ag)"

text \<open>The body of the loop over the events.\<close>

definition on_event :: "agent_event \<Rightarrow> message option \<times> agent \<Rightarrow> message option \<times> agent" where
  "on_event e st =
     (let (partial, ag) = st
      in case e of
           MessageStart m \<Rightarrow> (Some m, emit e (ag\<lparr>ag_streamMessage := Some m\<rparr>))
         | MessageUpdate m \<Rightarrow> (Some m, emit e (ag\<lparr>ag_streamMessage := Some m\<rparr>))
         | MessageEnd m \<Rightarrow>
             (None,
              (if is_assistant_role m \<and> length (ag_toolBuffer ag) > 0
               then (case m of AssistantMessage a \<Rightarrow> emitCursorSplitAssistantMessage a ag | _ \<Rightarrow> ag)
               else emit e (agent_appendMessage m (ag\<lparr>ag_streamMessage := None\<rparr>))))
         | ToolExecutionStart i _ \<Rightarrow> (partial, emit e (ag\<lparr>ag_pendingToolCalls := set_insert i (ag_pendingToolCalls ag)\<rparr>))
         | ToolExecutionEnd i _ _ \<Rightarrow>
             (partial, emit e (ag\<lparr>ag_pendingToolCalls := filter (\<lambda>x. x \<noteq> i) (ag_pendingToolCalls ag)\<rparr>))
         | TurnEnd m _ \<Rightarrow>
             (partial, emit e
               (case m of
                  AssistantMessage a \<Rightarrow>
                    (case am_errorMessage a of Some (c # cs) \<Rightarrow> ag\<lparr>ag_error := Some (c # cs)\<rparr> | _ \<Rightarrow> ag)
                | _ \<Rightarrow> ag))
         | AgentEnd _ \<Rightarrow> (partial, emit e (ag\<lparr>ag_isStreaming := False, ag_streamMessage := None\<rparr>))
         | _ \<Rightarrow> (partial, emit e ag))"

section \<open>The agent, its loop and the user\<close>

text \<open>The events that the loop has pushed: a batch of tool calls pushes its own.\<close>

definition pushed_events :: "loop_state \<Rightarrow> agent_event list" where
  "pushed_events l = (case lp_phase l of Running a b \<Rightarrow> bt_events b | _ \<Rightarrow> lp_events l)"

text \<open>\<open>getSteeringMessages\<close> and \<open>getFollowUpMessages\<close> as \<open>#runLoop\<close> passes them, when they answer \<open>lab\<close>.\<close>

definition take_messages :: "loop_label \<Rightarrow> run \<times> agent \<Rightarrow> (run \<times> agent) option" where
  "take_messages lab st =
     (let (run, ag) = st
      in case lab of
           Tau \<Rightarrow> Some st
         | TookSteering ms \<Rightarrow>
             (if rn_skip run then (if ms = [] then Some (run\<lparr>rn_skip := False\<rparr>, ag) else None)
              else let (q, ag') = dequeueSteeringMessages ag in if q = ms then Some (run, ag') else None)
         | TookFollowUps ms \<Rightarrow>
             (let (q, ag') = dequeueFollowUpMessages ag in if q = ms then Some (run, ag') else None))"

text \<open>
  The label holds the messages that the user sends with the step; those of a call that is refused
  are not sent.  A new run starts when the one before it is over: left out are a prompt or a
  \<open>continue\<close> by a listener between \<open>agent_end\<close> and the end of the run (\<open>early_prompt_is_orphaned\<close>),
  and the results that Cursor hands in while a message streams.
\<close>

inductive agent_step ::
  "loop_config \<Rightarrow> (stream_item list \<Rightarrow> bool) \<Rightarrow> agent \<times> run option \<Rightarrow> message list \<Rightarrow> agent \<times> run option \<Rightarrow> bool"
  for cfg :: loop_config and answers :: "stream_item list \<Rightarrow> bool" where
  Steer: "agent_step cfg answers (ag, r) [m] (steer m ag, r)"
| FollowUp: "agent_step cfg answers (ag, r) [m] (followUp m ag, r)"
| Abort: "agent_step cfg answers (ag, r) [] (agent_abort ag, r)"
| Prompt: "prompt input ag = (Inr r, ag') \<Longrightarrow> agent_step cfg answers (ag, None) (prompt_messages input) (ag', r)"
| Continue: "continue_run ag = (Inr r, ag') \<Longrightarrow> agent_step cfg answers (ag, None) [] (ag', r)"
| Refused_Prompt: "prompt input ag = (Inl e, ag') \<Longrightarrow> agent_step cfg answers (ag, r) [] (ag', r)"
| Refused_Continue: "continue_run ag = (Inl e, ag') \<Longrightarrow> agent_step cfg answers (ag, r) [] (ag', r)"
| Loop: "\<lbrakk>loop_step cfg answers (rn_loop run) lab l'; take_messages lab (run, ag) = Some (run', ag')\<rbrakk> \<Longrightarrow>
    agent_step cfg answers (ag, Some run) [] (ag', Some (run'\<lparr>rn_loop := l'\<rparr>))"
| Consume: "\<lbrakk>rn_consumed run < length (pushed_events (rn_loop run));
      on_event (pushed_events (rn_loop run) ! rn_consumed run) (rn_partial run, ag) = (partial', ag')\<rbrakk> \<Longrightarrow>
    agent_step cfg answers (ag, Some run) []
      (ag', Some (run\<lparr>rn_consumed := rn_consumed run + 1, rn_partial := partial'\<rparr>))"
| Finish: "\<lbrakk>lp_phase (rn_loop run) = Finished; rn_consumed run = length (pushed_events (rn_loop run))\<rbrakk> \<Longrightarrow>
    agent_step cfg answers (ag, Some run) [] (finish_run (rn_partial run) ag, None)"
| Fail: "\<lbrakk>lp_phase (rn_loop run) = Crashed; rn_consumed run = length (pushed_events (rn_loop run))\<rbrakk> \<Longrightarrow>
    agent_step cfg answers (ag, Some run) [] (fail_run err ag, None)"

inductive agent_run ::
  "loop_config \<Rightarrow> (stream_item list \<Rightarrow> bool) \<Rightarrow> agent \<Rightarrow> message list \<Rightarrow> agent \<times> run option \<Rightarrow> bool"
  for cfg :: loop_config and answers :: "stream_item list \<Rightarrow> bool" and ag0 :: agent where
  Start: "agent_run cfg answers ag0 [] (ag0, None)"
| Step: "\<lbrakk>agent_run cfg answers ag0 sent s; agent_step cfg answers s ms s'; list_all from_user ms\<rbrakk> \<Longrightarrow>
    agent_run cfg answers ag0 (sent @ ms) s'"

section \<open>Events of a step\<close>

definition partial_after :: "message option \<Rightarrow> agent_event list \<Rightarrow> message option" where
  "partial_after p es =
     foldl (\<lambda>p e. case e of MessageStart m \<Rightarrow> Some m | MessageUpdate m \<Rightarrow> Some m | MessageEnd _ \<Rightarrow> None | _ \<Rightarrow> p) p es"

lemma partial_simps [simp]:
  "partial_after p [] = p"
  "partial_after p (xs @ ys) = partial_after (partial_after p xs) ys"
  "partial_after p (e # es) = partial_after
     (case e of MessageStart m \<Rightarrow> Some m | MessageUpdate m \<Rightarrow> Some m | MessageEnd _ \<Rightarrow> None | _ \<Rightarrow> p) es"
  by (simp_all add: partial_after_def)

text \<open>The events behind the first ones leave no message open.\<close>

definition extends :: "agent_event list \<Rightarrow> agent_event list \<Rightarrow> bool" where
  "extends es es' \<longleftrightarrow> (\<exists>ds. es' = es @ ds \<and> partial_after None ds = None)"

lemma extends_refl [simp]: "extends es es"
  by (simp add: extends_def)

lemma extends_append [simp]: "extends es (es @ ds) \<longleftrightarrow> partial_after None ds = None"
  by (auto simp: extends_def)

lemma extends_trans: "\<lbrakk>extends a b; extends b c\<rbrakk> \<Longrightarrow> extends a c"
  by (auto simp: extends_def)

lemma extends_more: "\<lbrakk>extends a b; partial_after None ds = None\<rbrakk> \<Longrightarrow> extends a (b @ ds)"
  by (auto simp: extends_def)

lemma extends_emit: "extends (bt_events b) (bt_events (emitToolResult i content details isError b))"
  by (simp add: emitToolResult_def Let_def start_event_def)

lemma batch_events:
  assumes "batch_step im tier b q b'"
  shows "extends (bt_events b) (bt_events b')"
  using assms
proof cases
  case (Finish i content details isError)
  then show ?thesis using extends_emit [of "skip_record i b"] extends_emit [of b]
    by (simp add: finish_tool_def skip_record_def)
qed (simp_all add: begin_tool_def skip_record_def push_event_def start_event_def resolve_check_def after_check_def)

lemma sweep_events: "extends (bt_events b) (bt_events (sweep b))"
proof -
  have "extends (bt_events b) (bt_events (sweep_record b i))" for b i
    using extends_emit [of "skip_record i b"] by (simp add: sweep_record_def skip_record_def)
  then have "extends (bt_events b) (bt_events (foldl sweep_record b is))" for "is"
    by (induction "is" arbitrary: b) (auto intro: extends_trans)
  then show ?thesis by (simp add: sweep_def)
qed

lemma message_events_partial [simp]: "partial_after None (message_events ms) = None"
  by (induction ms) (simp_all add: message_events_def)

lemma aborted_partial [simp]: "partial_after None (concat (map (\<lambda>c. aborted_events c (f c)) calls)) = None"
  by (induction calls) (simp_all add: aborted_events_def start_event_def)

definition no_leak :: "stream_item list \<Rightarrow> bool" where
  "no_leak its = list_all (\<lambda>it. case it of EvFinal _ leaks \<Rightarrow> \<not> leaks | StreamEnded _ leaks \<Rightarrow> \<not> leaks | _ \<Rightarrow> True) its"

lemma finish_events:
  assumes "tn_events t = es @ ds" "tn_added t \<or> partial_after None ds = None"
  shows "extends es (tn_events (finish_message a t))"
  using assms by (auto simp: finish_message_def)

lemma stream_events:
  assumes "stream_items cfg its t = Some r" "no_leak its"
    and "list_all (\<lambda>it. case it of StreamEnded _ _ \<Rightarrow> False | _ \<Rightarrow> True) its"
    and "tn_events t = es @ ds" "tn_added t \<or> partial_after None ds = None" "tn_partial t = None \<or> tn_added t"
  shows "(\<exists>ds'. tn_events (snd r) = es @ ds') \<and> fst r \<noteq> Leaked \<and>
    (case fst r of Answered a \<Rightarrow> extends es (tn_events (snd r)) | _ \<Rightarrow> True)"
  using assms
proof (induction its arbitrary: t ds)
  case (Cons it its)
  have ext: "extends es (tn_events (finish_message a t))" for a by (rule finish_events [OF Cons.prems(4,5)])
  then have ab: "extends es (tn_events (snd (emitAbortedAssistantMessage cfg t))) \<and>
      (\<exists>a. fst (emitAbortedAssistantMessage cfg t) = Answered a)"
    by (simp add: emitAbortedAssistantMessage_def Let_def)
  have n: "no_leak its" "list_all (\<lambda>it. case it of StreamEnded _ _ \<Rightarrow> False | _ \<Rightarrow> True) its"
    using Cons.prems(2,3) by (simp_all add: no_leak_def)
  note ih = Cons.IH [OF _ n]
  show ?case
  proof (cases "tn_aborted t \<and> it \<noteq> StreamThrows")
    case True
    then show ?thesis using Cons.prems(1) ab by (auto simp: extends_def)
  next
    case False
    show ?thesis
    proof (cases it)
      case (EvStart p)
      then show ?thesis using False Cons.prems(1,4)
        by (intro ih [of "start_partial p t" "ds @ [MessageStart (AssistantMessage p)]"]) (auto simp: start_partial_def)
    next
      case (EvUpdate p ends aborted)
      show ?thesis
      proof (cases "tn_partial t = None")
        case True
        then show ?thesis using EvUpdate False Cons.prems(1,4,5,6) by (intro ih [of t ds]) auto
      next
        case partial: False
        let ?t = "update_partial p aborted t"
        have a: "tn_added ?t" using partial Cons.prems(6) by (auto simp: update_partial_def)
        obtain ds' where d: "tn_events ?t = es @ ds'" using Cons.prems(4) by (cases aborted) (auto simp: update_partial_def)
        have e: "extends es (tn_events (finish_message x (?t\<lparr>tn_completed := k\<rparr>)))" for x k
          by (rule finish_events [where ds = ds']) (use a d in simp_all)
        have i: "stream_items cfg its (?t\<lparr>tn_completed := k\<rparr>) = Some r \<Longrightarrow> ?thesis" for k
          by (rule ih [of "?t\<lparr>tn_completed := k\<rparr>" ds']) (use a d in simp_all)
        have i': "stream_items cfg its ?t = Some r \<Longrightarrow> ?thesis"
          by (rule ih [of ?t ds']) (use a d in simp_all)
        have "stream_items cfg its ?t = Some r \<or> (\<exists>k. stream_items cfg its (?t\<lparr>tn_completed := k\<rparr>) = Some r) \<or>
            (\<exists>x k. r = (Answered x, finish_message x (?t\<lparr>tn_completed := k\<rparr>)))"
          using Cons.prems(1) EvUpdate partial False by (auto simp: Let_def split: if_splits bool.splits option.splits)
        moreover have "r = (Answered x, finish_message x (?t\<lparr>tn_completed := k\<rparr>)) \<Longrightarrow> ?thesis" for x k
          using e [of x k] by (auto simp: extends_def)
        ultimately show ?thesis using i i' by blast
      qed
    next
      case (EvFinal a leaks)
      then show ?thesis using Cons.prems(1,2) False ext [of a] by (auto simp: no_leak_def extends_def)
    next
      case Cancelled
      then show ?thesis using Cons.prems(1) False ab by (auto simp: extends_def)
    next
      case StreamThrows
      then show ?thesis using Cons.prems(1,4) by auto
    qed (use Cons.prems(3) in auto)
  qed
qed simp

lemma answer_events:
  assumes "streamAssistantResponse cfg its context es = Some r" "proper_stream its" "no_leak its"
  shows "(\<exists>ds. tn_events (snd r) = es @ ds) \<and> fst r \<noteq> Leaked \<and>
    (case fst r of Answered a \<Rightarrow> extends es (tn_events (snd r)) | _ \<Rightarrow> True)"
  using assms unfolding streamAssistantResponse_def proper_stream_def
  by (elim stream_events [where ds = "[]"]) auto

lemma place_events: "extends (lp_events l) (lp_events (place_results reason e a l))"
  by (simp add: place_results_def Let_def comp_def)

lemma after_answer_events: "extends (lp_events l) (pushed_events (after_answer a l)) \<and> lp_phase (after_answer a l) \<noteq> Crashed"
proof -
  have p: "extends (lp_events l) (lp_events (place_results reason e a (l\<lparr>lp_newMessages := ms\<rparr>)))" for reason e ms
    using place_events [of "l\<lparr>lp_newMessages := ms\<rparr>"] by simp
  have f: "pushed_events (end_loop x) = lp_events x @ [AgentEnd (lp_newMessages x)]" "lp_phase (end_loop x) = Finished" for x
    by (simp_all add: pushed_events_def end_loop_def)
  consider "am_stopReason a = StopError \<or> am_stopReason a = StopAborted"
    | "am_stopReason a \<noteq> StopError" "am_stopReason a \<noteq> StopAborted" "(am_stopReason a = StopToolUse \<or> am_stopReason a = StopStop) \<and> length (tool_calls a) > 0"
    | "am_stopReason a \<noteq> StopError" "am_stopReason a \<noteq> StopAborted" "\<not> ((am_stopReason a = StopToolUse \<or> am_stopReason a = StopStop) \<and> length (tool_calls a) > 0)"
    by blast
  then show ?thesis
  proof cases
    case 1
    then show ?thesis by (simp add: after_answer_def Let_def f extends_more p)
  next
    case 2
    then show ?thesis by (simp add: after_answer_def Let_def pushed_events_def new_batch_def)
  next
    case 3
    let ?l = "(place_results ReasonSkipped None a (l\<lparr>lp_newMessages := lp_newMessages l @ [AssistantMessage a]\<rparr>))
        \<lparr>lp_hasMoreToolCalls := False, lp_phase := Polling\<rparr>"
    have "after_answer a l = ?l" using 3 by (auto simp: after_answer_def Let_def)
    then show ?thesis by (simp add: pushed_events_def p)
  qed
qed

lemma loop_events:
  assumes "loop_step cfg answers l lab l'" "\<forall>its. answers its \<longrightarrow> proper_stream its \<and> no_leak its"
  shows "(\<exists>ds. pushed_events l' = pushed_events l @ ds) \<and>
    (lp_phase l' \<noteq> Crashed \<longrightarrow> extends (pushed_events l) (pushed_events l'))"
  using assms(1)
proof cases
  case (Poll ms)
  then show ?thesis by (simp add: pushed_events_def after_poll_def)
next
  case (Turn tools)
  then show ?thesis by (simp add: pushed_events_def begin_turn_def)
next
  case (Respond its r)
  have a: "(\<exists>ds. tn_events (snd r) = lp_events l @ ds) \<and> fst r \<noteq> Leaked \<and>
      (case fst r of Answered a \<Rightarrow> extends (lp_events l) (tn_events (snd r)) | _ \<Rightarrow> True)"
    using answer_events [OF Respond(5)] assms(2) Respond(4) by blast
  have p: "pushed_events l = lp_events l" using Respond(3) by (simp add: pushed_events_def)
  show ?thesis
  proof (cases "fst r")
    case (Answered x)
    let ?l = "l\<lparr>lp_context := tn_context (snd r), lp_events := tn_events (snd r), lp_harmonyRetryAttempt := 0\<rparr>"
    have "l' = after_answer x ?l" using Respond(2) Answered by (simp add: after_response_def Let_def)
    then have "extends (tn_events (snd r)) (pushed_events l')" using after_answer_events [of ?l x] by simp
    then have "extends (lp_events l) (pushed_events l')" using a Answered extends_trans by auto
    then show ?thesis using p by (auto simp: extends_def)
  next
    case Leaked
    then show ?thesis using a by simp
  next
    case Thrown
    then show ?thesis using a p Respond(2) by (auto simp: after_response_def pushed_events_def Let_def)
  qed
next
  case (Tools a b q b')
  then have "extends (bt_events b) (bt_events b')" using batch_events by blast
  then show ?thesis using Tools by (auto simp: pushed_events_def extends_def)
next
  case (ToolsDone a b)
  have "extends (bt_events (sweep b)) (pushed_events l')"
    using ToolsDone by (simp add: pushed_events_def after_batch_def Let_def split: option.split)
  then have "extends (bt_events b) (pushed_events l')" using sweep_events extends_trans by blast
  then show ?thesis using ToolsDone by (auto simp: pushed_events_def extends_def)
next
  case (Yield ms)
  then show ?thesis by (simp add: pushed_events_def after_yield_def end_loop_def)
next
  case Crash
  then show ?thesis by (auto simp: pushed_events_def)
qed

section \<open>The conversation\<close>

text \<open>A queue that is asked for messages now and then.\<close>

datatype 'a queue_op = Enqueue 'a | Serve

fun serve_ops :: "('a list \<Rightarrow> 'a list \<times> 'a list) \<Rightarrow> 'a queue_op list \<Rightarrow> 'a list \<Rightarrow> 'a list \<times> 'a list" where
  "serve_ops serve [] q = ([], q)"
| "serve_ops serve (Enqueue x # ops) q = serve_ops serve ops (q @ [x])"
| "serve_ops serve (Serve # ops) q =
     (let (xs, rest) = serve q; (served, q') = serve_ops serve ops rest in (xs @ served, q'))"

fun enqueued :: "'a queue_op list \<Rightarrow> 'a list" where
  "enqueued [] = []"
| "enqueued (Enqueue x # ops) = x # enqueued ops"
| "enqueued (Serve # ops) = enqueued ops"

locale message_queue =
  fixes serve :: "'a list \<Rightarrow> 'a list \<times> 'a list"
  assumes split_law: "serve q = (xs, rest) \<Longrightarrow> q = xs @ rest"
    and progress_law: "q \<noteq> [] \<Longrightarrow> fst (serve q) \<noteq> []"
begin

text \<open>However often it is asked in between, a queue serves what was put in, in order.\<close>

lemma fifo: "serve_ops serve ops q = (served, rest) \<Longrightarrow> served @ rest = q @ enqueued ops"
proof (induction ops arbitrary: q served)
  case (Cons op ops)
  show ?case
  proof (cases op)
    case (Enqueue x)
    then show ?thesis using Cons by simp
  next
    case Serve
    then show ?thesis using Cons.IH Cons.prems split_law [of q] by (auto split: prod.splits)
  qed
qed simp

lemma drains: "length q \<le> n \<Longrightarrow> snd (serve_ops serve (replicate n Serve) q) = []"
proof (induction n arbitrary: q)
  case (Suc n)
  obtain xs rest where s: "serve q = (xs, rest)" by fastforce
  have "q = [] \<or> xs \<noteq> []" using progress_law [of q] s by force
  then have "length rest \<le> n" using Suc.prems split_law [OF s] by (cases xs) auto
  then show ?case using Suc.IH [of rest] s
    by (cases "serve_ops serve (replicate n Serve) rest") simp
qed simp

end

interpretation message_queues: message_queue "dequeue mode" for mode
  by unfold_locales (auto simp: dequeue_def split: if_splits list.splits)

definition queued :: "agent \<Rightarrow> message multiset" where
  "queued ag = mset (ag_steeringQueue ag) + mset (ag_followUpQueue ag)"

definition user_queues :: "agent \<Rightarrow> bool" where
  "user_queues ag \<longleftrightarrow> list_all from_user (ag_steeringQueue ag) \<and> list_all from_user (ag_followUpQueue ag)"

definition same_talk :: "agent \<Rightarrow> agent \<Rightarrow> bool" where
  "same_talk ag ag' \<longleftrightarrow> ag_messages ag' = ag_messages ag \<and> ag_model ag' = ag_model ag \<and> ag_toolBuffer ag' = ag_toolBuffer ag"

lemma dequeue_steering:
  assumes "dequeueSteeringMessages ag = (ms, ag')"
  shows "same_talk ag ag' \<and> queued ag = mset ms + queued ag' \<and>
    (user_queues ag \<longrightarrow> user_queues ag' \<and> list_all from_user ms)"
  using assms message_queues.split_law [of "ag_steeringMode ag" "ag_steeringQueue ag"]
  by (cases "dequeue (ag_steeringMode ag) (ag_steeringQueue ag)")
    (auto simp: dequeueSteeringMessages_def same_talk_def queued_def user_queues_def)

lemma dequeue_followUp:
  assumes "dequeueFollowUpMessages ag = (ms, ag')"
  shows "same_talk ag ag' \<and> queued ag = mset ms + queued ag' \<and>
    (user_queues ag \<longrightarrow> user_queues ag' \<and> list_all from_user ms)"
  using assms message_queues.split_law [of "ag_followUpMode ag" "ag_followUpQueue ag"]
  by (cases "dequeue (ag_followUpMode ag) (ag_followUpQueue ag)")
    (auto simp: dequeueFollowUpMessages_def same_talk_def queued_def user_queues_def)

lemma taken_messages:
  assumes "take_messages lab (run, ag) = Some (run', ag')"
  shows "same_talk ag ag' \<and> queued ag = mset (label_messages lab) + queued ag' \<and>
    (user_queues ag \<longrightarrow> user_queues ag' \<and> list_all from_user (label_messages lab)) \<and>
    (\<exists>k. run' = run\<lparr>rn_skip := k\<rparr>)"
proof (cases lab)
  case Tau
  then show ?thesis using assms by (auto simp: take_messages_def label_messages_def same_talk_def intro: exI [of _ "rn_skip run"])
next
  case (TookSteering ms)
  then show ?thesis using assms dequeue_steering [of ag ms ag']
    by (auto simp: take_messages_def label_messages_def same_talk_def split: if_splits prod.splits intro: exI [of _ "rn_skip run"])
next
  case (TookFollowUps ms)
  then show ?thesis using assms dequeue_followUp [of ag ms ag']
    by (auto simp: take_messages_def label_messages_def split: if_splits prod.splits intro: exI [of _ "rn_skip run"])
qed

text \<open>What handling an event does to the conversation.\<close>

lemma event_talk:
  assumes "on_event e (partial, ag) = (partial', ag')" "ag_toolBuffer ag = []"
  shows "ag_messages ag' = ag_messages ag @ ended_messages [e] \<and> ag_model ag' = ag_model ag \<and>
    ag_toolBuffer ag' = [] \<and> queued ag' = queued ag \<and> (user_queues ag \<longrightarrow> user_queues ag') \<and>
    partial' = partial_after partial [e]"
proof (cases e)
  case (TurnEnd m rs)
  then show ?thesis using assms
    by (auto simp: on_event_def emit_def queued_def user_queues_def split: message.splits option.splits list.splits)
qed (use assms in \<open>auto simp: on_event_def emit_def agent_appendMessage_def queued_def user_queues_def\<close>)

definition talk_inv ::
  "loop_config \<Rightarrow> (stream_item list \<Rightarrow> bool) \<Rightarrow> agent \<Rightarrow> message list \<Rightarrow> agent \<times> run option \<Rightarrow> bool" where
  "talk_inv cfg answers ag0 sent s \<longleftrightarrow>
     ag_model (fst s) \<noteq> None \<and> user_queues (fst s) \<and>
     (case snd s of
        None \<Rightarrow> \<not> ag_isStreaming (fst s) \<and> answered (ag_messages (fst s)) \<and> prefix (ag_messages ag0) (ag_messages (fst s)) \<and>
          mset (filter from_user (ag_messages (fst s))) + queued (fst s) =
            mset (filter from_user (ag_messages ag0)) + queued ag0 + mset sent
      | Some run \<Rightarrow>
          (\<exists>ctx0 prompts tools taken.
            loop_run cfg answers from_user (agentLoop prompts ctx0 tools) taken (rn_loop run) \<and> list_all from_user prompts \<and>
            answered ctx0 \<and> prefix (ag_messages ag0) ctx0 \<and> ag_toolBuffer (fst s) = [] \<and>
            rn_consumed run \<le> length (pushed_events (rn_loop run)) \<and>
            ag_messages (fst s) = ctx0 @ ended_messages (take (rn_consumed run) (pushed_events (rn_loop run))) \<and>
            rn_partial run = partial_after None (take (rn_consumed run) (pushed_events (rn_loop run))) \<and>
            (lp_phase (rn_loop run) \<noteq> Crashed \<longrightarrow> partial_after None (pushed_events (rn_loop run)) = None) \<and>
            mset (filter from_user ctx0) + mset prompts + mset taken + queued (fst s) =
              mset (filter from_user (ag_messages ag0)) + queued ag0 + mset sent))"

lemma error_answered: "answered ms \<Longrightarrow> answered (ms @ [AssistantMessage (error_message err ag)])"
  using answered_snoc_turn [of ms "[]" "error_message err ag"] by (simp add: error_message_def tool_calls_def)

lemma finally_fields [simp]:
  "ag_messages (finally_run ag) = ag_messages ag" "ag_model (finally_run ag) = ag_model ag"
  "\<not> ag_isStreaming (finally_run ag)" "queued (finally_run ag) = queued ag" "user_queues (finally_run ag) = user_queues ag"
  by (simp_all add: finally_run_def queued_def user_queues_def)

lemma fail_fields_run [simp]:
  "ag_messages (fail_run err ag) = ag_messages ag @ [AssistantMessage (error_message err ag)]"
  "ag_model (fail_run err ag) = ag_model ag"
  "\<not> ag_isStreaming (fail_run err ag)" "queued (fail_run err ag) = queued ag" "user_queues (fail_run err ag) = user_queues ag"
  by (simp_all add: fail_run_def Let_def emit_def agent_appendMessage_def) (simp_all add: queued_def user_queues_def)

text \<open>A run starts.\<close>

lemma inv_start_run:
  assumes "start_run messages skip ag = (Inr r, ag')" "user_queues ag" "answered (ag_messages ag)"
    and "prefix (ag_messages ag0) (ag_messages ag)" "list_all from_user (case messages of Some ms \<Rightarrow> ms | None \<Rightarrow> [])"
    and "mset (filter from_user (ag_messages ag)) + mset (case messages of Some ms \<Rightarrow> ms | None \<Rightarrow> []) + queued ag =
      mset (filter from_user (ag_messages ag0)) + queued ag0 + mset sent"
  shows "talk_inv cfg answers ag0 sent (ag', r)"
proof -
  let ?ag = "ag\<lparr>ag_runningPrompt := Some (ag_runs ag), ag_abortController := Some (ag_runs ag, False),
      ag_runs := ag_runs ag + 1, ag_isStreaming := True, ag_streamMessage := None, ag_error := None, ag_toolBuffer := []\<rparr>"
  have m: "ag_model ag \<noteq> None" using assms(1) by (auto simp: start_run_def split: if_splits)
  have q: "queued ?ag = queued ag" "user_queues ?ag = user_queues ag" by (simp_all add: queued_def user_queues_def)
  let ?run = "\<lambda>ms. \<lparr>rn_loop = agentLoop ms (ag_messages ag) (ag_tools ag), rn_consumed = 0, rn_partial = None, rn_skip = skip\<rparr>"
  have run: "talk_inv cfg answers ag0 sent (?ag, Some (?run ms))"
    if "ms = (case messages of Some ms \<Rightarrow> ms | None \<Rightarrow> [])" for ms
  proof -
    let ?l = "agentLoop ms (ag_messages ag) (ag_tools ag)"
    have "loop_run cfg answers from_user ?l [] ?l" by (rule loop_run.Start)
    moreover have "pushed_events ?l = [AgentStart, TurnStart] @ message_events ms"
      by (simp add: pushed_events_def agentLoop_def)
    ultimately show ?thesis using m assms(2-6) q unfolding talk_inv_def that [symmetric]
      by (simp, intro exI [of _ "ag_messages ag"] exI [of _ ms] exI [of _ "ag_tools ag"] exI [of _ "[]"]) simp
  qed
  show ?thesis
  proof (cases messages)
    case (Some ms)
    then show ?thesis using run [of ms] assms(1) m by (auto simp: start_run_def Let_def)
  next
    case None
    then have r: "mset (filter from_user (ag_messages ag)) + queued ag =
        mset (filter from_user (ag_messages ag0)) + queued ag0 + mset sent" using assms(6) by simp
    have err: "talk_inv cfg answers ag0 sent (fail_run e ?ag, None)" for e
      using m assms(2-4) q r error_answered [OF assms(3), of e ?ag] by (simp add: talk_inv_def)
    show ?thesis
    proof (cases "agentLoopContinue (ag_messages ag) (ag_tools ag)")
      case (Inl e)
      then show ?thesis using None assms(1) m err by (cases e) (auto simp: start_run_def Let_def)
    next
      case (Inr l)
      then have "l = agentLoop [] (ag_messages ag) (ag_tools ag)" by (auto simp: agentLoopContinue_def split: if_splits)
      then show ?thesis using None Inr assms(1) m run [of "[]"] by (auto simp: start_run_def Let_def)
    qed
  qed
qed

lemma inv_prompt:
  assumes "prompt input ag = (Inr r, ag')" "talk_inv cfg answers ag0 sent (ag, None)" "list_all from_user (prompt_messages input)"
  shows "talk_inv cfg answers ag0 (sent @ prompt_messages input) (ag', r)"
proof -
  have "start_run (Some (prompt_messages input)) False ag = (Inr r, ag')"
    using assms(1) by (auto simp: prompt_def split: if_splits)
  then show ?thesis by (rule inv_start_run) (use assms(2,3) in \<open>simp_all add: talk_inv_def\<close>)
qed

lemma inv_continue:
  assumes "continue_run ag = (Inr r, ag')" "talk_inv cfg answers ag0 sent (ag, None)"
  shows "talk_inv cfg answers ag0 sent (ag', r)"
proof (cases "is_assistant_role (last (ag_messages ag))")
  case False
  then have "start_run None False ag = (Inr r, ag')"
    using assms(1) by (auto simp: continue_run_def split: if_splits)
  then show ?thesis by (rule inv_start_run) (use assms(2) in \<open>simp_all add: talk_inv_def\<close>)
next
  case True
  obtain ms ag1 where d: "dequeueSteeringMessages ag = (ms, ag1)" by fastforce
  obtain fs ag2 where f: "dequeueFollowUpMessages ag1 = (fs, ag2)" by fastforce
  note dd = dequeue_steering [OF d] and ff = dequeue_followUp [OF f]
  have "ms \<noteq> [] \<and> start_run (Some ms) True ag1 = (Inr r, ag') \<or> ms = [] \<and> start_run (Some fs) False ag2 = (Inr r, ag')"
    using assms(1) True by (auto simp: continue_run_def d f split: if_splits)
  then show ?thesis
  proof
    assume a: "ms \<noteq> [] \<and> start_run (Some ms) True ag1 = (Inr r, ag')"
    show ?thesis by (rule inv_start_run [OF a [THEN conjunct2]])
      (use assms(2) dd in \<open>simp_all add: talk_inv_def same_talk_def add.assoc\<close>)
  next
    assume a: "ms = [] \<and> start_run (Some fs) False ag2 = (Inr r, ag')"
    show ?thesis by (rule inv_start_run [OF a [THEN conjunct2]])
      (use assms(2) dd ff a in \<open>simp_all add: talk_inv_def same_talk_def add.assoc\<close>)
  qed
qed

lemma inv_loop:
  assumes "loop_step cfg answers (rn_loop run) lab l'" "take_messages lab (run, ag) = Some (run', ag')"
    and "talk_inv cfg answers ag0 sent (ag, Some run)" "\<forall>its. answers its \<longrightarrow> proper_stream its \<and> no_leak its"
  shows "talk_inv cfg answers ag0 sent (ag', Some (run'\<lparr>rn_loop := l'\<rparr>))"
proof -
  obtain ctx0 prompts tools taken where x:
    "loop_run cfg answers from_user (agentLoop prompts ctx0 tools) taken (rn_loop run)" "list_all from_user prompts"
    "answered ctx0" "prefix (ag_messages ag0) ctx0" "ag_toolBuffer ag = []"
    "rn_consumed run \<le> length (pushed_events (rn_loop run))"
    "ag_messages ag = ctx0 @ ended_messages (take (rn_consumed run) (pushed_events (rn_loop run)))"
    "rn_partial run = partial_after None (take (rn_consumed run) (pushed_events (rn_loop run)))"
    "lp_phase (rn_loop run) \<noteq> Crashed \<longrightarrow> partial_after None (pushed_events (rn_loop run)) = None"
    "mset (filter from_user ctx0) + mset prompts + mset taken + queued ag =
      mset (filter from_user (ag_messages ag0)) + queued ag0 + mset sent"
    "ag_model ag \<noteq> None" "user_queues ag"
    using assms(3) unfolding talk_inv_def by (simp, elim conjE exE) blast
  have t: "same_talk ag ag'" "queued ag = mset (label_messages lab) + queued ag'" "user_queues ag'"
      "list_all from_user (label_messages lab)" "\<exists>k. run' = run\<lparr>rn_skip := k\<rparr>"
    using taken_messages [OF assms(2)] x(12) by blast+
  have r: "loop_run cfg answers from_user (agentLoop prompts ctx0 tools) (taken @ label_messages lab) l'"
    by (rule loop_run.Step [OF x(1) assms(1) t(4)])
  obtain ds where ds: "pushed_events l' = pushed_events (rn_loop run) @ ds"
    using loop_events [OF assms(1,4)] by blast
  have "lp_phase (rn_loop run) \<noteq> Crashed" using assms(1) by cases auto
  then have "lp_phase l' \<noteq> Crashed \<longrightarrow> partial_after None (pushed_events l') = None"
    using loop_events [OF assms(1,4)] x(9) by (auto simp: extends_def)
  moreover have "rn_consumed run' = rn_consumed run" "rn_partial run' = rn_partial run" using t(5) by auto
  moreover have "mset (filter from_user ctx0) + mset prompts + mset (taken @ label_messages lab) + queued ag' =
      mset (filter from_user (ag_messages ag0)) + queued ag0 + mset sent"
    using x(10) t(2) by (simp add: ac_simps)
  ultimately show ?thesis
    using x r t(1,3) ds unfolding talk_inv_def same_talk_def
    by (simp, intro exI [of _ ctx0] exI [of _ prompts] conjI exI [of _ tools] exI [of _ "taken @ label_messages lab"])
      simp_all
qed

lemma inv_consume:
  assumes "rn_consumed run < length (pushed_events (rn_loop run))"
    and "on_event (pushed_events (rn_loop run) ! rn_consumed run) (rn_partial run, ag) = (partial', ag')"
    and "talk_inv cfg answers ag0 sent (ag, Some run)"
  shows "talk_inv cfg answers ag0 sent (ag', Some (run\<lparr>rn_consumed := rn_consumed run + 1, rn_partial := partial'\<rparr>))"
proof -
  have b: "ag_toolBuffer ag = []" using assms(3) by (auto simp: talk_inv_def)
  have t: "take (Suc (rn_consumed run)) (pushed_events (rn_loop run)) =
      take (rn_consumed run) (pushed_events (rn_loop run)) @ [pushed_events (rn_loop run) ! rn_consumed run]"
    by (rule take_Suc_conv_app_nth [OF assms(1)])
  note e = event_talk [OF assms(2) b]
  show ?thesis using assms(1,3) e unfolding talk_inv_def
    by (auto simp: t simp del: partial_simps(3)) blast
qed

lemma inv_over:
  assumes "talk_inv cfg answers ag0 sent (ag, Some run)" "\<forall>its. answers its \<longrightarrow> proper_stream its \<and> no_leak its"
    and "lp_phase (rn_loop run) = Finished \<or> lp_phase (rn_loop run) = Crashed"
    and "rn_consumed run = length (pushed_events (rn_loop run))"
  shows "answered (ag_messages ag) \<and> prefix (ag_messages ag0) (ag_messages ag) \<and>
    mset (filter from_user (ag_messages ag)) + queued ag =
      mset (filter from_user (ag_messages ag0)) + queued ag0 + mset sent \<and>
    (lp_phase (rn_loop run) = Finished \<longrightarrow> rn_partial run = None)"
proof -
  obtain ctx0 prompts tools taken where x:
    "loop_run cfg answers from_user (agentLoop prompts ctx0 tools) taken (rn_loop run)" "list_all from_user prompts"
    "answered ctx0" "prefix (ag_messages ag0) ctx0"
    "ag_messages ag = ctx0 @ ended_messages (pushed_events (rn_loop run))"
    "rn_partial run = partial_after None (pushed_events (rn_loop run))"
    "lp_phase (rn_loop run) \<noteq> Crashed \<longrightarrow> partial_after None (pushed_events (rn_loop run)) = None"
    "mset (filter from_user ctx0) + mset prompts + mset taken + queued ag =
      mset (filter from_user (ag_messages ag0)) + queued ag0 + mset sent"
    using assms(1,4) unfolding talk_inv_def by auto
  have "loop_inv cfg ctx0 prompts taken (rn_loop run)" by (rule run_inv [OF x(1) _ _ x(2)]) (use assms(2) in auto)
  then have q: "quiet ctx0 prompts taken (rn_loop run)" using assms(3) by (auto simp: inv_quiet)
  let ?new = "lp_newMessages (rn_loop run)"
  have p: "pushed_events (rn_loop run) = lp_events (rn_loop run)" using assms(3) by (auto simp: pushed_events_def)
  have n: "ag_messages ag = ctx0 @ ?new" "answered ?new" "filter from_user ?new = prompts @ taken"
    using q x(2,5) p assms(3) from_user_plain [OF x(2)] by (auto simp: quiet_def)
  have "mset (filter from_user (ag_messages ag)) = mset (filter from_user ctx0) + mset prompts + mset taken"
    by (simp only: n(1) filter_append n(3) mset_append add.assoc)
  then have "mset (filter from_user (ag_messages ag)) + queued ag =
      mset (filter from_user (ag_messages ag0)) + queued ag0 + mset sent"
    by (simp only: x(8))
  moreover have "answered (ag_messages ag)" unfolding n(1) by (rule answered_append [OF x(3) n(2)])
  moreover have "prefix (ag_messages ag0) (ag_messages ag)" unfolding n(1) using x(4) by simp
  ultimately show ?thesis using x(6,7) by simp
qed

lemma inv_fail_run:
  assumes "talk_inv cfg answers ag0 sent (ag, Some run)" "\<forall>its. answers its \<longrightarrow> proper_stream its \<and> no_leak its"
    and "lp_phase (rn_loop run) = Crashed" "rn_consumed run = length (pushed_events (rn_loop run))"
  shows "talk_inv cfg answers ag0 sent (fail_run err ag, None)"
proof -
  have o: "answered (ag_messages ag)" "prefix (ag_messages ag0) (ag_messages ag)"
      "mset (filter from_user (ag_messages ag)) + queued ag = mset (filter from_user (ag_messages ag0)) + queued ag0 + mset sent"
    using inv_over [OF assms(1,2) _ assms(4)] assms(3) by auto
  have "ag_model ag \<noteq> None" "user_queues ag" using assms(1) by (auto simp: talk_inv_def)
  then show ?thesis using o error_answered [OF o(1), of err ag] by (simp add: talk_inv_def)
qed

lemma inv_finish_run:
  assumes "talk_inv cfg answers ag0 sent (ag, Some run)" "\<forall>its. answers its \<longrightarrow> proper_stream its \<and> no_leak its"
    and "lp_phase (rn_loop run) = Finished" "rn_consumed run = length (pushed_events (rn_loop run))"
  shows "talk_inv cfg answers ag0 sent (finish_run (rn_partial run) ag, None)"
proof -
  have o: "answered (ag_messages ag)" "prefix (ag_messages ag0) (ag_messages ag)" "rn_partial run = None"
      "mset (filter from_user (ag_messages ag)) + queued ag = mset (filter from_user (ag_messages ag0)) + queued ag0 + mset sent"
    using inv_over [OF assms(1,2) _ assms(4)] assms(3) by auto
  have "ag_model ag \<noteq> None" "user_queues ag" using assms(1) by (auto simp: talk_inv_def)
  then show ?thesis using o by (simp add: talk_inv_def finish_run_def)
qed

lemma inv_user:
  assumes "talk_inv cfg answers ag0 sent (ag, r)" "same_talk ag ag'" "ag_isStreaming ag' = ag_isStreaming ag"
    and "queued ag' = queued ag + mset ms" "user_queues ag'"
  shows "talk_inv cfg answers ag0 (sent @ ms) (ag', r)"
proof (cases r)
  case None
  then show ?thesis using assms by (simp add: talk_inv_def same_talk_def add.assoc [symmetric])
next
  case (Some run)
  have "mset x + mset y + mset z + (queued ag + mset ms) = mset x + mset y + mset z + queued ag + mset ms" for x y z :: "message list"
    by (simp add: add.assoc)
  then show ?thesis using assms Some unfolding talk_inv_def same_talk_def
    by (auto simp: add.assoc [symmetric])
qed

lemma refused_prompt_same: "prompt input ag = (Inl e, ag') \<Longrightarrow> ag' = ag"
  by (auto simp: prompt_def start_run_def Let_def split: if_splits sum.splits continue_error.splits)

lemma dequeue_none: "dequeue mode q = ([], rest) \<Longrightarrow> rest = q"
  by (auto simp: dequeue_def split: if_splits list.splits)

lemma refused_continue_same:
  assumes "continue_run ag = (Inl e, ag')" "ag_model ag \<noteq> None"
  shows "ag' = ag"
proof -
  have started: "start_run ms skip x \<noteq> (Inl err, y)" if "ag_model x \<noteq> None" for ms skip x y err
    using that by (auto simp: start_run_def Let_def split: sum.splits continue_error.splits option.splits)
  obtain s ag1 where s: "dequeueSteeringMessages ag = (s, ag1)" by fastforce
  obtain f ag2 where f: "dequeueFollowUpMessages ag1 = (f, ag2)" by fastforce
  have m: "ag_model ag1 = ag_model ag" "ag_model ag2 = ag_model ag"
    using s f by (auto simp: dequeueSteeringMessages_def dequeueFollowUpMessages_def split: prod.splits)
  have none: "s = [] \<Longrightarrow> ag1 = ag" "f = [] \<Longrightarrow> ag2 = ag1"
    using s f by (auto simp: dequeueSteeringMessages_def dequeueFollowUpMessages_def dest: dequeue_none split: prod.splits)
  show ?thesis using assms s f m none started [of ag] started [of ag1] started [of ag2]
    by (auto simp: continue_run_def Let_def split: if_splits)
qed

lemma inv_agent_step:
  assumes "agent_step cfg answers s ms s'" "talk_inv cfg answers ag0 sent s" "list_all from_user ms"
    and "\<forall>its. answers its \<longrightarrow> proper_stream its \<and> no_leak its"
  shows "talk_inv cfg answers ag0 (sent @ ms) s'"
  using assms(1)
proof cases
  case (Steer ag r m)
  then have "user_queues ag" using assms(2) by (simp add: talk_inv_def)
  then show ?thesis using Steer assms(2,3)
    by (auto intro!: inv_user simp: same_talk_def steer_def queued_def user_queues_def)
next
  case (FollowUp ag r m)
  then have "user_queues ag" using assms(2) by (simp add: talk_inv_def)
  then show ?thesis using FollowUp assms(2,3)
    by (auto intro!: inv_user simp: same_talk_def followUp_def queued_def user_queues_def)
next
  case (Abort ag r)
  then have "user_queues ag" using assms(2) by (simp add: talk_inv_def)
  then have "talk_inv cfg answers ag0 (sent @ []) (agent_abort ag, r)" using Abort assms(2)
    by (intro inv_user [where ag = ag]) (simp_all add: same_talk_def agent_abort_def queued_def user_queues_def)
  then show ?thesis using Abort by simp
next
  case (Prompt input ag r ag')
  then show ?thesis using inv_prompt [OF Prompt(4)] assms(2,3) by simp
next
  case (Continue ag r ag')
  then show ?thesis using inv_continue [OF Continue(4)] assms(2) by simp
next
  case (Refused_Prompt input ag e ag' r)
  then show ?thesis using assms(2) refused_prompt_same by auto
next
  case (Refused_Continue ag e ag' r)
  moreover have "ag_model ag \<noteq> None" using Refused_Continue(1) assms(2) by (simp add: talk_inv_def)
  ultimately have "ag' = ag" using refused_continue_same by blast
  then show ?thesis using Refused_Continue assms(2) by simp
next
  case (Loop run lab l' ag run' ag')
  then show ?thesis using inv_loop [OF Loop(4,5) _ assms(4)] assms(2) by simp
next
  case (Consume run ag partial' ag')
  then show ?thesis using inv_consume [OF Consume(4,5)] assms(2) by simp
next
  case (Finish run ag)
  then show ?thesis using inv_finish_run [OF _ assms(4) Finish(4,5)] assms(2) by simp
next
  case (Fail run ag err)
  then show ?thesis using inv_fail_run [OF _ assms(4) Fail(4,5)] assms(2) by simp
qed

lemma talk_run:
  assumes "agent_run cfg answers ag0 sent s" "\<forall>its. answers its \<longrightarrow> proper_stream its \<and> no_leak its"
    and "talk_inv cfg answers ag0 [] (ag0, None)"
  shows "talk_inv cfg answers ag0 sent s"
  using assms(1)
proof induction
  case Start
  show ?case by (rule assms(3))
next
  case (Step sent s ms s')
  show ?case by (rule inv_agent_step [OF Step(2) Step.IH Step(3) assms(2)])
qed

section \<open>The split\<close>

definition message_text :: "message \<Rightarrow> jstring" where
  "message_text m = (case m of AssistantMessage a \<Rightarrow> full_text a | _ \<Rightarrow> [])"

definition is_text :: "assistant_block \<Rightarrow> bool" where
  "is_text b = (case b of TextBlock _ \<Rightarrow> True | _ \<Rightarrow> False)"

lemma add_results_fields:
  "ag_messages (add_results buffer ag) = ag_messages ag @ map (\<lambda>r. ToolResultMessage (fst r)) buffer"
  "ended_messages (ag_emitted (add_results buffer ag)) =
     ended_messages (ag_emitted ag) @ map (\<lambda>r. ToolResultMessage (fst r)) buffer"
  "ag_toolBuffer (add_results buffer ag) = ag_toolBuffer ag"
  unfolding add_results_def
  by (induction buffer arbitrary: ag) (auto simp: add_message_def emit_def agent_appendMessage_def split: prod.splits)

lemma end_assistant_fields [simp]:
  "ag_messages (end_assistant a ag) = ag_messages ag @ [AssistantMessage a]"
  "ended_messages (ag_emitted (end_assistant a ag)) = ended_messages (ag_emitted ag) @ [AssistantMessage a]"
  "ag_toolBuffer (end_assistant a ag) = ag_toolBuffer ag"
  by (simp_all add: end_assistant_def emit_def agent_appendMessage_def)

lemma preamble_text:
  "full_text (a\<lparr>am_content := map (\<lambda>b. case b of TextBlock _ \<Rightarrow> TextBlock t | _ \<Rightarrow> b) (am_content a)\<rparr>) =
     concat (replicate (length (filter is_text (am_content a))) t)"
proof -
  have "concat (map text_of_block (map (\<lambda>b. case b of TextBlock _ \<Rightarrow> TextBlock t | _ \<Rightarrow> b) bs)) =
      concat (replicate (length (filter is_text bs)) t)" for bs
    by (induction bs) (auto simp: is_text_def text_of_block_def split: assistant_block.split)
  then show ?thesis by (simp add: full_text_def)
qed

lemma preamble_calls:
  "tool_calls (a\<lparr>am_content := map (\<lambda>b. case b of TextBlock _ \<Rightarrow> TextBlock t | _ \<Rightarrow> b) (am_content a)\<rparr>) = tool_calls a"
proof -
  have "List.map_filter (\<lambda>b. case b of ToolCall c \<Rightarrow> Some c | _ \<Rightarrow> None)
      (map (\<lambda>b. case b of TextBlock _ \<Rightarrow> TextBlock t | _ \<Rightarrow> b) bs) =
    List.map_filter (\<lambda>b. case b of ToolCall c \<Rightarrow> Some c | _ \<Rightarrow> None) bs" for bs
    by (induction bs) (auto simp: List.map_filter_simps split: assistant_block.split)
  then show ?thesis by (simp add: tool_calls_def)
qed

lemma text_blocks: "full_text a \<noteq> [] \<Longrightarrow> filter is_text (am_content a) \<noteq> []"
proof -
  have "filter is_text bs = [] \<Longrightarrow> concat (map text_of_block bs) = []" for bs
    by (induction bs) (auto simp: is_text_def text_of_block_def split: assistant_block.splits if_splits)
  then show "full_text a \<noteq> [] \<Longrightarrow> filter is_text (am_content a) \<noteq> []" by (auto simp: full_text_def)
qed

text \<open>
  A message that is split around tool results.  Its first part, with all the calls, is followed by
  the buffered results in order and, if text is left, by the rest; listeners are told the same; and if
  the message has no more than one block of text, it keeps its text, but for white space at the end of
  it.  With more blocks of text the first part repeats its text in each of them
  (\<open>split_repeats_text\<close>): there nothing is said of the text.
\<close>

theorem split_keeps_order:
  assumes "ag_toolBuffer ag \<noteq> []"
  shows "\<exists>p rest. ag_messages (emitCursorSplitAssistantMessage a ag) =
      ag_messages ag @ [AssistantMessage p] @ map (\<lambda>r. ToolResultMessage (fst r)) (ag_toolBuffer ag) @ rest \<and>
    ended_messages (ag_emitted (emitCursorSplitAssistantMessage a ag)) = ended_messages (ag_emitted ag) @
      [AssistantMessage p] @ map (\<lambda>r. ToolResultMessage (fst r)) (ag_toolBuffer ag) @ rest \<and>
    ag_toolBuffer (emitCursorSplitAssistantMessage a ag) = [] \<and> tool_calls p = tool_calls a \<and>
    (length (filter is_text (am_content a)) \<le> 1 \<longrightarrow>
      (\<exists>blank. full_text p @ concat (map message_text rest) @ blank = full_text a \<and> trim blank = []))"
proof -
  let ?buffer = "ag_toolBuffer ag" and ?ag = "ag\<lparr>ag_toolBuffer := []\<rparr>" and ?r = "emitCursorSplitAssistantMessage a ag"
  define k where "k = Min (set (map snd (ag_toolBuffer ag)))"
  have nil: "trim [] = []" by (simp add: trim_Nil_iff)
  show ?thesis
  proof (cases "length (full_text a) = 0 \<or> k \<le> 0 \<or> k \<ge> length (full_text a)")
    case True
    then have "?r = add_results ?buffer (end_assistant a ?ag)"
      using assms by (auto simp: emitCursorSplitAssistantMessage_def Let_def k_def)
    then show ?thesis using nil
      by (intro exI [of _ a] exI [of _ "[]"]) (simp add: add_results_fields)
  next
    case False
    let ?t = "take k (full_text a)" and ?rest = "drop k (full_text a)"
    let ?p = "a\<lparr>am_content := map (\<lambda>b. case b of TextBlock _ \<Rightarrow> TextBlock ?t | _ \<Rightarrow> b) (am_content a)\<rparr>"
    let ?c = "AssistantMessage (a\<lparr>am_content := [TextBlock ?rest], am_usage := continuation_usage\<rparr>)"
    have p: "full_text ?p = ?t" if "length (filter is_text (am_content a)) \<le> 1"
    proof -
      have "length (filter is_text (am_content a)) = 1" using False text_blocks [of a] that
        by (cases "filter is_text (am_content a)") auto
      then show ?thesis by (simp add: preamble_text)
    qed
    have c: "message_text ?c = ?rest" by (simp add: message_text_def full_text_def text_of_block_def)
    have r: "?r = (if length (trim ?rest) > 0 then add_message ?c (add_results ?buffer (end_assistant ?p ?ag))
        else add_results ?buffer (end_assistant ?p ?ag))"
    proof -
      have "length ?buffer \<noteq> 0" using assms by simp
      then show ?thesis unfolding emitCursorSplitAssistantMessage_def Let_def k_def [symmetric]
        by (simp only: if_not_P [OF False] if_False)
    qed
    show ?thesis
    proof (cases "length (trim ?rest) > 0")
      case True
      have e: "length (filter is_text (am_content a)) \<le> 1 \<longrightarrow>
          (\<exists>blank. full_text ?p @ concat (map message_text [?c]) @ blank = full_text a \<and> trim blank = [])"
        using p c nil by (intro impI exI [of _ "[]"]) simp
      have r': "?r = add_message ?c (add_results ?buffer (end_assistant ?p ?ag))" using r True by simp
      show ?thesis unfolding r'
        by (rule exI [of _ ?p], rule exI [of _ "[?c]"], intro conjI e preamble_calls)
          (simp_all add: add_results_fields add_message_def emit_def agent_appendMessage_def)
    next
      case blank: False
      then show ?thesis using r p preamble_calls
        by (intro exI [of _ ?p] exI [of _ "[]"]) (simp add: add_results_fields, intro impI exI [of _ ?rest], simp)
    qed
  qed
qed

definition busy_agent :: agent where
  "busy_agent = \<lparr>ag_messages = [], ag_isStreaming = True, ag_streamMessage = None, ag_pendingToolCalls = [],
     ag_error = None, ag_model = Some (js ''p'', js ''m''), ag_tools = [], ag_steeringQueue = [], ag_followUpQueue = [],
     ag_steeringMode = OneAtATime, ag_followUpMode = OneAtATime, ag_toolBuffer = [],
     ag_abortController = Some (0, False), ag_runningPrompt = Some 0, ag_resolved = [], ag_runs = 1, ag_emitted = []\<rparr>"

definition read_result :: "string \<Rightarrow> tool_result" where
  "read_result i = result_message \<lparr>tc_id = js i, tc_name = js ''read'', tc_arguments = []\<rparr> [] None False"

definition spoken :: "string list \<Rightarrow> assistant_message" where
  "spoken ts = reply StopStop (map (\<lambda>t. TextBlock (js t)) ts)"

definition one_buffered :: agent where "one_buffered = busy_agent\<lparr>ag_toolBuffer := [(read_result ''c1'', 2)]\<rparr>"

theorem split_keeps_order_witness:
  "\<exists>p rest. ag_messages (emitCursorSplitAssistantMessage (spoken [''abcd'']) one_buffered) =
      [AssistantMessage p, ToolResultMessage (read_result ''c1'')] @ rest \<and>
    (\<exists>blank. full_text p @ concat (map message_text rest) @ blank = js ''abcd'')"
proof -
  have b: "ag_toolBuffer one_buffered \<noteq> []" "length (filter is_text (am_content (spoken [''abcd'']))) \<le> 1" by code_simp+
  from split_keeps_order [OF b(1), of "spoken [''abcd'']"] b(2) show ?thesis
    by (force simp: one_buffered_def busy_agent_def spoken_def reply_def full_text_def text_of_block_def)
qed

text \<open>
  What the code does to a message with two blocks of text: each of them becomes the whole text
  before the split, so that text is repeated.
\<close>

lemma split_repeats_text:
  "concat (map message_text (ag_messages (emitCursorSplitAssistantMessage (spoken [''ab'', ''cd'']) one_buffered))) =
     js ''ababcd''"
  by code_simp

section \<open>The conversation of an agent\<close>

text \<open>
  C11: the conversation that an agent holds.  Whatever the user sends and when, the provider answers, and
  the tools do, over any number of runs that end, fail or are aborted: between runs the old messages
  are still there in front, every tool call has its results behind it, every message of the user is
  in the conversation or in a queue exactly once, and the agent is ready for the next prompt.  The
  agent starts with a model, not streaming, and with an answered conversation; the providers end
  their responses, and none of them leaks (\<open>leaked_message_kept\<close> shows what a leak does); prompts
  that a listener makes before the run is over, and results handed in by Cursor, are not steps.
\<close>

theorem agent_keeps_conversation:
  assumes "agent_run cfg answers ag0 sent (ag, None)" "\<forall>its. answers its \<longrightarrow> proper_stream its \<and> no_leak its"
    and "ag_model ag0 \<noteq> None" "\<not> ag_isStreaming ag0" "answered (ag_messages ag0)" "user_queues ag0"
  shows "answered (ag_messages ag) \<and> prefix (ag_messages ag0) (ag_messages ag) \<and>
    mset (filter from_user (ag_messages ag)) + mset (ag_steeringQueue ag) + mset (ag_followUpQueue ag) =
      mset (filter from_user (ag_messages ag0)) + mset (ag_steeringQueue ag0) + mset (ag_followUpQueue ag0) + mset sent \<and>
    \<not> ag_isStreaming ag"
proof -
  have "talk_inv cfg answers ag0 [] (ag0, None)" using assms(3-6) by (simp add: talk_inv_def)
  from talk_run [OF assms(1,2) this] show ?thesis by (simp add: talk_inv_def queued_def add.assoc)
qed

lemma agent_more:
  "\<lbrakk>agent_run cfg answers ag0 sent s; agent_step cfg answers s ms s'; list_all from_user ms; sent' = sent @ ms\<rbrakk> \<Longrightarrow>
    agent_run cfg answers ag0 sent' s'"
  using agent_run.Step by metis

lemma agent_loop:
  assumes "agent_run cfg answers ag0 sent (ag, Some run)" "loop_step cfg answers (rn_loop run) lab l'"
    and "take_messages lab (run, ag) = Some (run', ag')" "run'' = run'\<lparr>rn_loop := l'\<rparr>"
  shows "agent_run cfg answers ag0 sent (ag', Some run'')"
  unfolding assms(4) by (rule agent_more [OF assms(1) agent_step.Loop [OF assms(2,3)]]) simp_all

text \<open>The agent handles all events that have been pushed.\<close>

definition catch_up :: "agent \<times> run \<Rightarrow> agent \<times> run" where
  "catch_up s =
     (let (ag, run) = s;
          (partial, ag') = fold on_event (drop (rn_consumed run) (pushed_events (rn_loop run))) (rn_partial run, ag)
      in (ag', run\<lparr>rn_consumed := length (pushed_events (rn_loop run)), rn_partial := partial\<rparr>))"

lemma agent_catches_up:
  assumes "agent_run cfg answers ag0 sent (ag, Some run)" "rn_consumed run \<le> length (pushed_events (rn_loop run))"
    and "catch_up (ag, run) = (ag', run')"
  shows "agent_run cfg answers ag0 sent (ag', Some run')"
  using assms
proof (induction "length (pushed_events (rn_loop run)) - rn_consumed run" arbitrary: ag run)
  case 0
  then have "run' = run" "ag' = ag" by (auto simp: catch_up_def)
  then show ?case using 0 by simp
next
  case (Suc n)
  let ?es = "pushed_events (rn_loop run)"
  have c: "rn_consumed run < length ?es" using Suc.hyps(2) by simp
  obtain p1 ag1 where e: "on_event (?es ! rn_consumed run) (rn_partial run, ag) = (p1, ag1)" by fastforce
  let ?run = "run\<lparr>rn_consumed := rn_consumed run + 1, rn_partial := p1\<rparr>"
  have "catch_up (ag1, ?run) = catch_up (ag, run)"
    using e by (simp add: catch_up_def Cons_nth_drop_Suc [OF c, symmetric] split: prod.split)
  moreover have "agent_run cfg answers ag0 sent (ag1, Some ?run)"
    by (rule agent_more [OF Suc.prems(1) agent_step.Consume [OF c e]]) simp_all
  ultimately show ?case using Suc.hyps(1) [of ?run ag1] Suc.hyps(2) Suc.prems(3) c by simp
qed

definition idle_agent :: agent where
  "idle_agent = busy_agent\<lparr>ag_isStreaming := False, ag_abortController := None, ag_runningPrompt := None, ag_runs := 0\<rparr>"

text \<open>One question is asked and answered.\<close>

definition agent_at :: "loop_state \<Rightarrow> run" where
  "agent_at l = \<lparr>rn_loop = l, rn_consumed = 0, rn_partial = None, rn_skip = False\<rparr>"

definition asked_agent :: agent where "asked_agent = snd (prompt (PromptMessages [question ''one'']) idle_agent)"

lemma take_nothing: "ag_steeringQueue ag = [] \<Longrightarrow> take_messages (TookSteering []) (agent_at l, ag) = Some (agent_at l, ag)"
  "ag_followUpQueue ag = [] \<Longrightarrow> take_messages (TookFollowUps []) (agent_at l, ag) = Some (agent_at l, ag)"
  "take_messages Tau (agent_at l, ag) = Some (agent_at l, ag)"
  by (simp_all add: take_messages_def dequeueSteeringMessages_def dequeueFollowUpMessages_def dequeue_def agent_at_def)

lemma agent_at_simps [simp]: "rn_loop (agent_at l) = l" "(agent_at l)\<lparr>rn_loop := l'\<rparr> = agent_at l'" "rn_consumed (agent_at l) = 0"
  by (simp_all add: agent_at_def)

lemma agent_tau:
  assumes "agent_run cfg answers ag0 sent (ag, Some (agent_at l))" "loop_step cfg answers l lab l'"
    and "lab = Tau \<or> lab = TookSteering [] \<and> ag_steeringQueue ag = [] \<or> lab = TookFollowUps [] \<and> ag_followUpQueue ag = []"
  shows "agent_run cfg answers ag0 sent (ag, Some (agent_at l'))"
  by (rule agent_loop [OF assms(1), where run' = "agent_at l" and lab = lab])
    (use assms(2,3) take_nothing in auto)

lemma agent_finishes:
  assumes "agent_run cfg answers ag0 sent (ag, Some (agent_at l))" "lp_phase l = Finished"
    and "final = catch_up (ag, agent_at l)"
  shows "agent_run cfg answers ag0 sent (finish_run (rn_partial (snd final)) (fst final), None)"
proof -
  obtain ag' run' where c: "catch_up (ag, agent_at l) = (ag', run')" by fastforce
  have r: "agent_run cfg answers ag0 sent (ag', Some run')" by (rule agent_catches_up [OF assms(1) _ c]) simp
  have "lp_phase (rn_loop run') = Finished" "rn_consumed run' = length (pushed_events (rn_loop run'))"
    using c assms(2) by (auto simp: catch_up_def split: prod.splits)
  from agent_more [OF r agent_step.Finish [OF this]] show ?thesis using c assms(3) by simp
qed

lemma asked_queues: "ag_steeringQueue asked_agent = []" "ag_followUpQueue asked_agent = []"
  by code_simp+

lemma agent_answered_one:
  assumes "answers [EvFinal (reply StopStop []) False]"
  shows "agent_run plain_config answers idle_agent [question ''one''] (asked_agent, Some (agent_at answered_one))"
proof -
  let ?l0 = "agentLoop [question ''one''] [] []"
  have "prompt (PromptMessages [question ''one'']) idle_agent = (Inr (Some (agent_at ?l0)), asked_agent)"
    unfolding asked_agent_def by (simp add: prompt_def start_run_def idle_agent_def busy_agent_def prompt_messages_def agent_at_def)
  then have "agent_run plain_config answers idle_agent [question ''one''] (asked_agent, Some (agent_at ?l0))"
    by (rule agent_more [OF agent_run.Start agent_step.Prompt]) (simp_all add: prompt_messages_def question_def from_user_def)
  then have "agent_run plain_config answers idle_agent [question ''one''] (asked_agent, Some (agent_at (after_poll [] ?l0)))"
    by (rule agent_tau [OF _ loop_step.Poll]) (simp_all add: agentLoop_def asked_queues)
  then have "agent_run plain_config answers idle_agent [question ''one''] (asked_agent, Some (agent_at asked))"
    unfolding asked_def by (rule agent_tau [OF _ loop_step.Turn]) (simp_all add: agentLoop_def after_poll_def)
  then show ?thesis unfolding answered_one_def
  proof (rule agent_tau [OF _ loop_step.Respond])
    show "lp_phase asked = Responding" by code_simp
    show "answers [EvFinal (reply StopStop []) False]" by (rule assms)
    show "streamAssistantResponse plain_config [EvFinal (reply StopStop []) False] (lp_context asked) (lp_events asked) =
      Some (the (streamAssistantResponse plain_config [EvFinal (reply StopStop []) False] (lp_context asked) (lp_events asked)))"
      by (simp add: streamAssistantResponse_def)
  qed simp
qed

definition done_loop :: loop_state where "done_loop = after_yield [] (after_poll [] answered_one)"

definition done_agent :: agent where
  "done_agent = (let s = catch_up (asked_agent, agent_at done_loop) in finish_run (rn_partial (snd s)) (fst s))"

lemma agent_done:
  assumes "answers [EvFinal (reply StopStop []) False]"
  shows "agent_run plain_config answers idle_agent [question ''one''] (done_agent, None)"
proof -
  have "agent_run plain_config answers idle_agent [question ''one''] (asked_agent, Some (agent_at (after_poll [] answered_one)))"
    by (rule agent_tau [OF agent_answered_one [where answers = answers, OF assms] loop_step.Poll]) (simp_all add: asked_queues, code_simp)
  then have "agent_run plain_config answers idle_agent [question ''one''] (asked_agent, Some (agent_at done_loop))"
    unfolding done_loop_def
  proof (rule agent_tau [OF _ loop_step.Yield])
    show "lp_phase (after_poll [] answered_one) = Deciding" by (simp add: after_poll_def)
    show "\<not> (lp_hasMoreToolCalls (after_poll [] answered_one) \<or> 0 < length (lp_pendingMessages (after_poll [] answered_one)))"
      by code_simp
  qed (simp add: asked_queues)
  moreover have "lp_phase done_loop = Finished" by code_simp
  ultimately show ?thesis unfolding done_agent_def Let_def by (rule agent_finishes) (rule refl)
qed

theorem agent_keeps_conversation_witness:
  "ag_messages done_agent = [question ''one'', AssistantMessage (reply StopStop [])] \<and>
    answered (ag_messages done_agent) \<and> mset (filter from_user (ag_messages done_agent)) = {#question ''one''#}"
proof -
  let ?answers = "\<lambda>its. its = [EvFinal (reply StopStop []) False]"
  have "ag_messages done_agent = [question ''one'', AssistantMessage (reply StopStop [])]" by code_simp
  moreover have "\<forall>its. ?answers its \<longrightarrow> proper_stream its \<and> no_leak its" by (simp add: proper_stream_def no_leak_def)
  ultimately show ?thesis
    using agent_keeps_conversation [OF agent_done [of ?answers]]
    by (simp add: idle_agent_def busy_agent_def answered_def user_queues_def question_def from_user_def)
qed

definition steered_agent :: agent where "steered_agent = steer (question ''two'') asked_agent"

definition leaked :: assistant_message where "leaked = reply StopStop [TextBlock (js ''<|channel|>'')]"

definition leaked_items :: "stream_item list" where "leaked_items = [EvStart leaked, EvFinal leaked True]"

definition leaked_loop :: loop_state where
  "leaked_loop = after_yield []
     (after_response (the (streamAssistantResponse plain_config leaked_items (lp_context steered) (lp_events steered))) steered)"

text \<open>
  What becomes of an answer that leaks.  The agent has the steering message in its context and
  streams the answer to it; the answer leaks and is taken back, the retry is not made, and at the end
  of the run the agent adds the message that was taken back to its conversation.
\<close>

theorem leaked_message_kept:
  "\<exists>ag. agent_run plain_config proper_stream idle_agent [question ''one'', question ''two''] (ag, None) \<and>
    ag_messages ag = [question ''one'', AssistantMessage (reply StopStop []), question ''two'', AssistantMessage leaked]"
proof -
  let ?run = "agent_run plain_config proper_stream idle_agent [question ''one'', question ''two'']"
  let ?ag = "snd (dequeueSteeringMessages steered_agent)"
  have "agent_run plain_config proper_stream idle_agent [question ''one''] (asked_agent, Some (agent_at answered_one))"
    by (rule agent_answered_one) (simp add: proper_stream_def)
  then have "?run (steered_agent, Some (agent_at answered_one))"
    unfolding steered_agent_def by (rule agent_more [OF _ agent_step.Steer]) (simp_all add: question_def from_user_def)
  then have "?run (?ag, Some (agent_at (after_poll [question ''two''] answered_one)))"
  proof (rule agent_loop [OF _ loop_step.Poll])
    show "take_messages (TookSteering [question ''two'']) (agent_at answered_one, steered_agent) = Some (agent_at answered_one, ?ag)"
      by (simp add: take_messages_def agent_at_def dequeueSteeringMessages_def steered_agent_def steer_def asked_queues
          dequeue_def split: prod.split)
  qed (simp_all, code_simp)
  then have "?run (?ag, Some (agent_at steered))"
    unfolding steered_def by (rule agent_tau [OF _ loop_step.Turn]) (simp_all add: after_poll_def)
  then have "?run (?ag, Some (agent_at (after_response
      (the (streamAssistantResponse plain_config leaked_items (lp_context steered) (lp_events steered))) steered)))"
  proof (rule agent_tau [OF _ loop_step.Respond])
    show "lp_phase steered = Responding" by code_simp
    show "proper_stream leaked_items" by (simp add: leaked_items_def proper_stream_def)
    show "streamAssistantResponse plain_config leaked_items (lp_context steered) (lp_events steered) =
        Some (the (streamAssistantResponse plain_config leaked_items (lp_context steered) (lp_events steered)))"
      by (simp add: streamAssistantResponse_def leaked_items_def)
  qed simp
  then have "?run (?ag, Some (agent_at leaked_loop))"
    unfolding leaked_loop_def
  proof (rule agent_tau [OF _ loop_step.Yield])
    let ?l = "after_response (the (streamAssistantResponse plain_config leaked_items (lp_context steered) (lp_events steered))) steered"
    show "lp_phase ?l = Deciding" by code_simp
    show "\<not> (lp_hasMoreToolCalls ?l \<or> 0 < length (lp_pendingMessages ?l))" by code_simp
    show "TookFollowUps [] = Tau \<or> TookFollowUps [] = TookSteering [] \<and> ag_steeringQueue ?ag = [] \<or>
        TookFollowUps [] = TookFollowUps [] \<and> ag_followUpQueue ?ag = []" by code_simp
  qed
  moreover have "lp_phase leaked_loop = Finished" by code_simp
  ultimately have "?run (finish_run (rn_partial (snd (catch_up (?ag, agent_at leaked_loop)))) (fst (catch_up (?ag, agent_at leaked_loop))), None)"
    by (rule agent_finishes) (rule refl)
  moreover have "ag_messages (finish_run (rn_partial (snd (catch_up (?ag, agent_at leaked_loop)))) (fst (catch_up (?ag, agent_at leaked_loop)))) =
      [question ''one'', AssistantMessage (reply StopStop []), question ''two'', AssistantMessage leaked]" by code_simp
  ultimately show ?thesis by blast
qed

definition ended_agent :: agent where "ended_agent = fst (catch_up (asked_agent, agent_at done_loop))"

definition overlapped_agent :: agent where
  "overlapped_agent = finish_run None (snd (prompt (PromptMessages [question ''two'']) ended_agent))"

text \<open>
  What the code does when a listener of \<open>agent_end\<close> prompts again.  \<open>isStreaming\<close> is cleared by the
  event, so the prompt is accepted while the first run has its \<open>finally\<close> still before it; that then
  takes away the controller of the second run, so that it cannot be aborted, resolves the second
  promise instead of its own, and leaves the agent open for a third prompt beside the second run.
\<close>

theorem early_prompt_is_orphaned:
  "\<not> ag_isStreaming ended_agent \<and> ag_runningPrompt ended_agent = Some 0 \<and>
    (case prompt (PromptMessages [question ''two'']) ended_agent of
       (Inr (Some run2), ag2) \<Rightarrow> ag_runningPrompt ag2 = Some 1 \<and> lp_phase (rn_loop run2) = Polling
     | _ \<Rightarrow> False) \<and>
    ag_resolved overlapped_agent = [1] \<and> agent_abort overlapped_agent = overlapped_agent \<and>
    \<not> ag_isStreaming overlapped_agent"
  by (intro conjI; code_simp)

end
