(* ===== verification/Event_Stream.thy ===== *)
theory Event_Stream
  imports "HOL-Library.Multiset"
begin

text \<open>
  The event stream that carries the events of a provider or of the agent loop to its consumers:
  \<open>EventStream\<close> and \<open>AssistantMessageEventStream\<close> of \<open>packages/ai/src/utils/event-stream.ts\<close>.  A producer
  pushes events and ends the stream; a consumer is a run of the asynchronous generator, which
  either waits in \<open>waiting\<close> or takes from \<open>queue\<close>.  What the generators have yielded is kept as a log.
\<close>

section \<open>The stream\<close>

text \<open>The promise of the final result: the resolve and reject functions work once.\<close>

datatype ('r, 'x) promise = Pending | Resolved 'r | RejectedWith 'x

definition settle :: "('r, 'x) promise \<Rightarrow> ('r, 'x) promise \<Rightarrow> ('r, 'x) promise" where
  "settle v p = (if p = Pending then v else p)"

text \<open>What the request of a consumer for the next event is answered with.\<close>

datatype ('e, 'x) reply_item = Yielded 'e | Returned | Threw 'x

record ('e, 'r, 'x) event_stream =
  es_queue :: "'e list"
  es_waiting :: "nat list"
  es_done :: bool
  es_error :: "'x option"
  es_final :: "('r, 'x) promise"
  es_replies :: "(nat \<times> ('e, 'x) reply_item) list"

text \<open>\<open>es_error\<close>: \<open>#failed\<close> with \<open>#error\<close>.\<close>

definition stream_new :: "('e, 'r, 'x) event_stream" where
  "stream_new = \<lparr>es_queue = [], es_waiting = [], es_done = False, es_error = None, es_final = Pending, es_replies = []\<rparr>"

section \<open>Operations\<close>

definition deliver :: "'e \<Rightarrow> ('e, 'r, 'x) event_stream \<Rightarrow> ('e, 'r, 'x) event_stream" where
  "deliver event s =
     (case es_waiting s of
        waiter # ws \<Rightarrow> s\<lparr>es_waiting := ws, es_replies := es_replies s @ [(waiter, Yielded event)]\<rparr>
      | [] \<Rightarrow> s\<lparr>es_queue := es_queue s @ [event]\<rparr>)"

definition stream_push ::
  "('e \<Rightarrow> bool) \<Rightarrow> ('e \<Rightarrow> 'r) \<Rightarrow> 'e \<Rightarrow> ('e, 'r, 'x) event_stream \<Rightarrow> ('e, 'r, 'x) event_stream" where
  "stream_push isComplete extractResult event s =
     (if es_done s then s
      else deliver event
        (if isComplete event
         then s\<lparr>es_done := True, es_final := settle (Resolved (extractResult event)) (es_final s)\<rparr>
         else s))"

text \<open>Every consumer that waits is answered, in order.\<close>

definition flush_waiting :: "('e, 'x) reply_item \<Rightarrow> ('e, 'r, 'x) event_stream \<Rightarrow> ('e, 'r, 'x) event_stream" where
  "flush_waiting answer s = s\<lparr>es_waiting := [], es_replies := es_replies s @ map (\<lambda>w. (w, answer)) (es_waiting s)\<rparr>"

definition stream_end :: "'r option \<Rightarrow> ('e, 'r, 'x) event_stream \<Rightarrow> ('e, 'r, 'x) event_stream" where
  "stream_end result s =
     flush_waiting Returned
       (s\<lparr>es_done := True,
          es_final := (case result of None \<Rightarrow> es_final s | Some r \<Rightarrow> settle (Resolved r) (es_final s))\<rparr>)"

definition stream_fail :: "'x \<Rightarrow> ('e, 'r, 'x) event_stream \<Rightarrow> ('e, 'r, 'x) event_stream" where
  "stream_fail err s =
     (if es_done s then s
      else flush_waiting (Threw err)
        (s\<lparr>es_done := True, es_error := Some err, es_final := settle (RejectedWith err) (es_final s)\<rparr>))"

text \<open>A generator that runs until its next \<open>yield\<close>, its end, or the promise in \<open>waiting\<close>.\<close>

definition stream_next :: "nat \<Rightarrow> ('e, 'r, 'x) event_stream \<Rightarrow> ('e, 'r, 'x) event_stream" where
  "stream_next c s =
     (case es_queue s of
        event # es \<Rightarrow> s\<lparr>es_queue := es, es_replies := es_replies s @ [(c, Yielded event)]\<rparr>
      | [] \<Rightarrow>
          (case es_error s of
             Some err \<Rightarrow> s\<lparr>es_replies := es_replies s @ [(c, Threw err)]\<rparr>
           | None \<Rightarrow>
               (if es_done s then s\<lparr>es_replies := es_replies s @ [(c, Returned)]\<rparr>
                else s\<lparr>es_waiting := es_waiting s @ [c]\<rparr>)))"

section \<open>Runs\<close>

datatype ('e, 'r, 'x) stream_op = Push 'e | End "'r option" | Fail 'x | Next nat

definition stream_do ::
  "('e \<Rightarrow> bool) \<Rightarrow> ('e \<Rightarrow> 'r) \<Rightarrow> ('e, 'r, 'x) stream_op \<Rightarrow> ('e, 'r, 'x) event_stream \<Rightarrow> ('e, 'r, 'x) event_stream" where
  "stream_do isComplete extractResult op s =
     (case op of
        Push event \<Rightarrow> stream_push isComplete extractResult event s
      | End result \<Rightarrow> stream_end result s
      | Fail err \<Rightarrow> stream_fail err s
      | Next c \<Rightarrow> stream_next c s)"

definition stream_ops ::
  "('e \<Rightarrow> bool) \<Rightarrow> ('e \<Rightarrow> 'r) \<Rightarrow> ('e, 'r, 'x) stream_op list \<Rightarrow> ('e, 'r, 'x) event_stream" where
  "stream_ops isComplete extractResult ops = foldl (\<lambda>s op. stream_do isComplete extractResult op s) stream_new ops"

text \<open>Abstractly a stream is the log of what was pushed before it was closed, and a cursor.\<close>

fun pushed :: "('e \<Rightarrow> bool) \<Rightarrow> ('e, 'r, 'x) stream_op list \<Rightarrow> 'e list" where
  "pushed isComplete [] = []"
| "pushed isComplete (Push event # ops) = event # (if isComplete event then [] else pushed isComplete ops)"
| "pushed isComplete (Next c # ops) = pushed isComplete ops"
| "pushed isComplete (_ # ops) = []"

text \<open>How the stream was closed.\<close>

fun closed_by :: "('e \<Rightarrow> bool) \<Rightarrow> ('e, 'r, 'x) stream_op list \<Rightarrow> ('e, 'r, 'x) stream_op option" where
  "closed_by isComplete [] = None"
| "closed_by isComplete (Push event # ops) =
     (if isComplete event then Some (Push event) else closed_by isComplete ops)"
| "closed_by isComplete (Next c # ops) = closed_by isComplete ops"
| "closed_by isComplete (op # ops) = Some op"

fun yields :: "(nat \<times> ('e, 'x) reply_item) list \<Rightarrow> 'e list" where
  "yields [] = []"
| "yields ((c, Yielded event) # rs) = event # yields rs"
| "yields (_ # rs) = yields rs"

text \<open>The requests of the consumers that have an answer or wait for one, in order.\<close>

fun asked_by :: "('e, 'r, 'x) stream_op list \<Rightarrow> nat list" where
  "asked_by [] = []"
| "asked_by (Next c # ops) = c # asked_by ops"
| "asked_by (_ # ops) = asked_by ops"

section \<open>The log\<close>

lemma closed_snoc:
  "closed_by isComplete (ops @ [op]) = (case closed_by isComplete ops of None \<Rightarrow> closed_by isComplete [op] | Some x \<Rightarrow> Some x)"
  by (induction isComplete ops rule: closed_by.induct) simp_all

lemma pushed_snoc:
  "pushed isComplete (ops @ [op]) =
     pushed isComplete ops @ (if closed_by isComplete ops = None then (case op of Push e \<Rightarrow> [e] | _ \<Rightarrow> []) else [])"
  by (induction isComplete ops rule: pushed.induct) (simp_all split: stream_op.splits)

lemma yields_append [simp]: "yields (rs @ rs') = yields rs @ yields rs'"
  by (induction rs rule: yields.induct) simp_all

lemma asked_append [simp]: "asked_by (ops @ ops') = asked_by ops @ asked_by ops'"
  by (induction ops rule: asked_by.induct) simp_all

definition is_yield :: "(nat \<times> ('e, 'x) reply_item) \<Rightarrow> bool" where
  "is_yield r = (case snd r of Yielded _ \<Rightarrow> True | _ \<Rightarrow> False)"

text \<open>What consumers are told once everything pushed has been yielded.\<close>

definition terminal :: "('e, 'r, 'x) stream_op option \<Rightarrow> ('e, 'x) reply_item" where
  "terminal c = (case c of Some (Fail err) \<Rightarrow> Threw err | _ \<Rightarrow> Returned)"

lemma yields_no: "list_all (\<lambda>r. snd r = terminal c) zs \<Longrightarrow> yields zs = []"
  by (induction zs rule: yields.induct) (auto simp: terminal_def split: option.splits stream_op.splits)

definition replies_ok :: "('e, 'r, 'x) stream_op option \<Rightarrow> ('e, 'r, 'x) event_stream \<Rightarrow> bool" where
  "replies_ok c s \<longleftrightarrow>
     (\<exists>ys zs. es_replies s = ys @ zs \<and> list_all is_yield ys \<and> list_all (\<lambda>r. snd r = terminal c) zs \<and>
       (zs \<noteq> [] \<longrightarrow> es_queue s = [] \<and> c \<noteq> None))"

definition final_ok :: "('e \<Rightarrow> 'r) \<Rightarrow> ('e, 'r, 'x) stream_op option \<Rightarrow> ('r, 'x) promise \<Rightarrow> bool" where
  "final_ok extractResult c p =
     (case c of
        None \<Rightarrow> p = Pending
      | Some (Push event) \<Rightarrow> p = Resolved (extractResult event)
      | Some (End (Some r)) \<Rightarrow> p = Resolved r
      | Some (Fail err) \<Rightarrow> p = RejectedWith err
      | _ \<Rightarrow> True)"

text \<open>Closed by a call that answers every consumer that waits.\<close>

definition flushed :: "('e, 'r, 'x) stream_op option \<Rightarrow> bool" where
  "flushed c = (case c of Some (End _) \<Rightarrow> True | Some (Fail _) \<Rightarrow> True | _ \<Rightarrow> False)"

definition stream_inv ::
  "('e \<Rightarrow> bool) \<Rightarrow> ('e \<Rightarrow> 'r) \<Rightarrow> ('e, 'r, 'x) stream_op list \<Rightarrow> ('e, 'r, 'x) event_stream \<Rightarrow> bool" where
  "stream_inv isComplete extractResult ops s \<longleftrightarrow>
     yields (es_replies s) @ es_queue s = pushed isComplete ops \<and>
     mset (map fst (es_replies s)) + mset (es_waiting s) = mset (asked_by ops) \<and>
     (es_waiting s \<noteq> [] \<longrightarrow> es_queue s = [] \<and> flushed (closed_by isComplete ops) = False) \<and>
     (es_done s \<longleftrightarrow> closed_by isComplete ops \<noteq> None) \<and>
     es_error s = (case closed_by isComplete ops of Some (Fail err) \<Rightarrow> Some err | _ \<Rightarrow> None) \<and>
     replies_ok (closed_by isComplete ops) s \<and>
     final_ok extractResult (closed_by isComplete ops) (es_final s)"

lemma replies_open: "replies_ok None s \<longleftrightarrow> list_all is_yield (es_replies s)"
  by (auto simp: replies_ok_def)

lemma replies_closes: "list_all is_yield (es_replies s) \<Longrightarrow> replies_ok c s"
  unfolding replies_ok_def by (intro exI [of _ "es_replies s"] exI [of _ "[]"]) simp

lemma replies_terminal:
  assumes "replies_ok c s" "list_all (\<lambda>r. snd r = terminal c) zs" "c \<noteq> None" "es_queue s = []"
    "es_replies s' = es_replies s @ zs" "es_queue s' = []"
  shows "replies_ok c s'"
proof -
  obtain ys zs' where "es_replies s = ys @ zs'" "list_all is_yield ys" "list_all (\<lambda>r. snd r = terminal c) zs'"
    using assms(1) by (auto simp: replies_ok_def)
  then show ?thesis using assms unfolding replies_ok_def
    by (intro exI [of _ ys] exI [of _ "zs' @ zs"]) simp
qed

lemma replies_flush:
  assumes "list_all is_yield (es_replies s)" "es_replies s' = es_replies s @ map (\<lambda>w. (w, terminal (Some c))) ws"
    "ws \<noteq> [] \<longrightarrow> es_queue s' = []"
  shows "replies_ok (Some c) s'"
  unfolding replies_ok_def using assms
  by (intro exI [of _ "es_replies s"] exI [of _ "map (\<lambda>w. (w, terminal (Some c))) ws"]) (simp add: list_all_iff)

lemma yields_flush [simp]:
  "yields (map (\<lambda>w. (w, Returned)) ws) = []" "yields (map (\<lambda>w. (w, Threw x)) ws) = []"
  by (induction ws) simp_all

lemma replies_yield:
  assumes "replies_ok c s" "es_queue s = e # es" "es_replies s' = es_replies s @ [(w, Yielded e)]"
  shows "replies_ok c s'"
  using assms unfolding replies_ok_def
  by (intro exI [of _ "es_replies s'"] exI [of _ "[]"]) (auto simp: is_yield_def)

lemma inv_push:
  assumes "stream_inv cmp ext ops s"
  shows "stream_inv cmp ext (ops @ [Push e]) (stream_push cmp ext e s)"
proof (cases "es_done s")
  case True
  then show ?thesis using assms
    by (auto simp: stream_inv_def stream_push_def pushed_snoc closed_snoc)
next
  case False
  then have c: "closed_by cmp ops = None" and r: "list_all is_yield (es_replies s)" and f: "es_final s = Pending"
    using assms by (auto simp: stream_inv_def replies_open final_ok_def)
  let ?f = "if cmp e then Resolved (ext e) else Pending"
  show ?thesis
  proof (cases "es_waiting s")
    case Nil
    then have "stream_push cmp ext e s = s\<lparr>es_done := cmp e, es_final := ?f, es_queue := es_queue s @ [e]\<rparr>"
      using False f by (simp add: stream_push_def deliver_def settle_def)
    moreover have "replies_ok c' (s\<lparr>es_done := cmp e, es_final := ?f, es_queue := es_queue s @ [e]\<rparr>)" for c'
      using r by (intro replies_closes) simp
    ultimately show ?thesis using assms False c Nil
      by (simp add: stream_inv_def pushed_snoc closed_snoc final_ok_def)
  next
    case (Cons w ws)
    let ?s = "s\<lparr>es_done := cmp e, es_final := ?f, es_waiting := ws, es_replies := es_replies s @ [(w, Yielded e)]\<rparr>"
    have "stream_push cmp ext e s = ?s"
      using False f Cons by (simp add: stream_push_def deliver_def settle_def)
    moreover have "replies_ok c' ?s" for c'
      using r by (intro replies_closes) (simp add: is_yield_def)
    moreover have "es_queue s = []" "mset (map fst (es_replies s @ [(w, Yielded e)])) + mset ws = mset (asked_by ops)"
      using assms Cons by (simp_all add: stream_inv_def)
    ultimately show ?thesis using assms c
      by (simp add: stream_inv_def pushed_snoc closed_snoc final_ok_def flushed_def)
  qed
qed

lemma invD:
  assumes "stream_inv cmp ext ops s"
  shows "yields (es_replies s) @ es_queue s = pushed cmp ops"
    and "mset (map fst (es_replies s)) + mset (es_waiting s) = mset (asked_by ops)"
    and "es_waiting s \<noteq> [] \<Longrightarrow> es_queue s = []"
    and "es_waiting s \<noteq> [] \<Longrightarrow> \<not> flushed (closed_by cmp ops)"
    and "es_done s \<longleftrightarrow> closed_by cmp ops \<noteq> None"
    and "es_error s = (case closed_by cmp ops of Some (Fail err) \<Rightarrow> Some err | _ \<Rightarrow> None)"
    and "replies_ok (closed_by cmp ops) s"
    and "final_ok ext (closed_by cmp ops) (es_final s)"
  using assms by (auto simp: stream_inv_def)

lemma flush_fields [simp]:
  "es_queue (flush_waiting a s) = es_queue s" "es_waiting (flush_waiting a s) = []"
  "es_done (flush_waiting a s) = es_done s" "es_error (flush_waiting a s) = es_error s"
  "es_final (flush_waiting a s) = es_final s"
  "es_replies (flush_waiting a s) = es_replies s @ map (\<lambda>w. (w, a)) (es_waiting s)"
  by (simp_all add: flush_waiting_def)

lemma end_fields [simp]:
  "es_queue (stream_end r s) = es_queue s" "es_waiting (stream_end r s) = []"
  "es_done (stream_end r s)" "es_error (stream_end r s) = es_error s"
  "es_final (stream_end r s) = (case r of None \<Rightarrow> es_final s | Some v \<Rightarrow> settle (Resolved v) (es_final s))"
  "es_replies (stream_end r s) = es_replies s @ map (\<lambda>w. (w, Returned)) (es_waiting s)"
  by (simp_all add: stream_end_def)

lemma final_settled:
  assumes "final_ok ext (Some c) p"
  shows "final_ok ext (Some c) (case r of None \<Rightarrow> p | Some v \<Rightarrow> settle (Resolved v) p)"
proof (cases c)
  case (End r')
  then show ?thesis using assms by (cases r'; cases r) (simp_all add: final_ok_def settle_def)
qed (use assms in \<open>cases r; simp add: final_ok_def settle_def\<close>)+

lemma inv_end:
  assumes "stream_inv cmp ext ops s"
  shows "stream_inv cmp ext (ops @ [End r]) (stream_end r s)"
proof (cases "closed_by cmp ops")
  case None
  then have "replies_ok (Some (End r)) (stream_end r s)" using assms
    by (intro replies_flush [where s = s and ws = "es_waiting s"]) (simp_all add: terminal_def stream_inv_def replies_open)
  moreover have "final_ok ext (Some (End r)) (es_final (stream_end r s))" using assms None
    by (simp add: stream_inv_def final_ok_def settle_def split: option.split)
  ultimately show ?thesis using assms None
    by (simp add: stream_inv_def pushed_snoc closed_snoc comp_def)
next
  case (Some c)
  have "replies_ok (Some c) (stream_end r s)"
  proof (cases "es_waiting s")
    case Nil
    then show ?thesis using assms Some by (simp add: stream_inv_def replies_ok_def)
  next
    case (Cons w ws)
    have "\<not> flushed (Some c)" using invD(4) [OF assms] Some Cons by simp
    then have t: "terminal (Some c) = Returned" by (auto simp: flushed_def terminal_def split: stream_op.splits)
    have q: "es_queue s = []" using invD(3) [OF assms] Cons by simp
    have "replies_ok (Some c) s" using invD(7) [OF assms] Some by simp
    then show ?thesis using t q
      by - (erule replies_terminal [where zs = "map (\<lambda>w. (w, Returned)) (es_waiting s)"], simp_all add: list_all_iff)
  qed
  moreover have "final_ok ext (Some c) (es_final (stream_end r s))"
    using final_settled invD(8) [OF assms] Some by simp
  ultimately show ?thesis using invD(1,2,5,6) [OF assms] Some
    by (simp add: stream_inv_def pushed_snoc closed_snoc comp_def)
qed

lemma fail_fields:
  "\<not> es_done s \<Longrightarrow> stream_fail x s =
     flush_waiting (Threw x) (s\<lparr>es_done := True, es_error := Some x, es_final := settle (RejectedWith x) (es_final s)\<rparr>)"
  by (simp add: stream_fail_def)

lemma inv_fail:
  assumes "stream_inv cmp ext ops s"
  shows "stream_inv cmp ext (ops @ [Fail x]) (stream_fail x s)"
proof (cases "closed_by cmp ops")
  case None
  then have d: "\<not> es_done s" "es_final s = Pending" "es_waiting s \<noteq> [] \<Longrightarrow> es_queue s = []" "list_all is_yield (es_replies s)"
    using invD [OF assms] by (simp_all add: final_ok_def replies_open)
  then have "replies_ok (Some (Fail x)) (stream_fail x s)"
    by (intro replies_flush [where s = s and ws = "es_waiting s"]) (simp_all add: fail_fields terminal_def)
  then show ?thesis using assms None d
    by (simp add: stream_inv_def fail_fields pushed_snoc closed_snoc comp_def final_ok_def settle_def)
next
  case (Some c)
  then show ?thesis using assms by (simp add: stream_inv_def stream_fail_def pushed_snoc closed_snoc)
qed

lemma inv_next:
  assumes "stream_inv cmp ext ops s"
  shows "stream_inv cmp ext (ops @ [Next w]) (stream_next w s)"
proof (cases "es_queue s")
  case (Cons e es)
  have n: "stream_next w s = s\<lparr>es_queue := es, es_replies := es_replies s @ [(w, Yielded e)]\<rparr>"
    using Cons by (simp add: stream_next_def)
  have "replies_ok (closed_by cmp ops) (stream_next w s)"
    by (rule replies_yield [OF invD(7) [OF assms] Cons]) (simp add: n)
  moreover have "es_waiting s = []" using invD(3) [OF assms] Cons by auto
  ultimately show ?thesis using invD [OF assms] Cons
    by (cases "closed_by cmp ops") (simp_all add: stream_inv_def n pushed_snoc closed_snoc)
next
  case Nil
  show ?thesis
  proof (cases "closed_by cmp ops")
    case None
    then have "stream_next w s = s\<lparr>es_waiting := es_waiting s @ [w]\<rparr>" using invD(5,6) [OF assms] Nil
      by (simp add: stream_next_def)
    then show ?thesis using invD [OF assms] None Nil
      by (simp add: stream_inv_def pushed_snoc closed_snoc replies_open flushed_def)
  next
    case (Some c)
    let ?s = "s\<lparr>es_replies := es_replies s @ [(w, terminal (Some c))]\<rparr>"
    have e: "stream_next w s = ?s" using invD(5,6) [OF assms] Some Nil
      by (auto simp: stream_next_def terminal_def split: stream_op.splits)
    have "replies_ok (Some c) s" using invD(7) [OF assms] Some by simp
    then have "replies_ok (Some c) ?s"
      by (rule replies_terminal [where zs = "[(w, terminal (Some c))]"]) (simp_all add: Nil)
    moreover have "yields [(w, terminal (Some c))] = []" using yields_no [of "Some c" "[(w, terminal (Some c))]"] by simp
    ultimately show ?thesis using invD [OF assms] Some Nil unfolding e
      by (simp add: stream_inv_def pushed_snoc closed_snoc)
  qed
qed

lemma stream_run_inv: "stream_inv isComplete extractResult ops (stream_ops isComplete extractResult ops)"
proof (induction ops rule: rev_induct)
  case Nil
  show ?case by (simp add: stream_inv_def stream_ops_def stream_new_def replies_open final_ok_def)
next
  case (snoc op ops)
  then show ?case unfolding stream_ops_def
    by (cases op) (simp_all add: stream_do_def inv_push inv_end inv_fail inv_next)
qed


section \<open>Properties\<close>

text \<open>
  C14: an event stream is a log with a cursor, for any sequence of calls of producers and consumers.  The
  events that were yielded followed by the queue are the events pushed until the stream was closed,
  in order, none lost or repeated; every request of a consumer was answered once or waits; only when
  the queue is empty does one wait; a consumer is told of the end, or of the failure, only after
  everything was yielded; and the final result is what closed the stream.  This is the code of
  \<open>event-stream.ts\<close>, also for \<open>AssistantMessageEventStream\<close>: it neither throttles nor merges deltas, as
  \<open>docs/provider-streaming-internals.md\<close> says it does.
\<close>

theorem stream_is_a_log:
  assumes "s = stream_ops isComplete extractResult ops"
  shows "yields (es_replies s) @ es_queue s = pushed isComplete ops \<and>
    mset (map fst (es_replies s)) + mset (es_waiting s) = mset (asked_by ops) \<and>
    (es_waiting s = [] \<or> es_queue s = [] \<and> \<not> flushed (closed_by isComplete ops)) \<and>
    replies_ok (closed_by isComplete ops) s \<and>
    final_ok extractResult (closed_by isComplete ops) (es_final s)"
  using stream_run_inv [of isComplete extractResult ops] unfolding assms stream_inv_def by blast

text \<open>A consumer waits, one event goes to it, one is queued, the stream fails: the queue is still drained.\<close>

definition drained :: "(nat, unit, nat) event_stream" where
  "drained = stream_ops (\<lambda>e. e = 0) (\<lambda>e. ()) [Next 0, Push 7, Push 8, Fail 404, Push 9, Next 0, Next 0]"

theorem stream_is_a_log_witness:
  "es_replies drained = [(0, Yielded 7), (0, Yielded 8), (0, Threw 404)] \<and>
    yields (es_replies drained) @ es_queue drained = [7, 8] \<and> es_final drained = RejectedWith 404"
  using stream_is_a_log [OF drained_def] by (simp add: drained_def stream_ops_def stream_do_def stream_new_def
      stream_next_def stream_push_def deliver_def stream_fail_def flush_waiting_def settle_def)

text \<open>
  With two consumers the event that completes the stream wakes one of them only; the other one waits
  until somebody calls \<open>end\<close>, though \<open>done\<close> is set and a new request would return at once.
\<close>

lemma second_consumer_left_waiting:
  "es_waiting (stream_ops (\<lambda>e. e = 0) (\<lambda>e. ()) [Next 0, Next 1, Push 0] :: (nat, unit, nat) event_stream) = [1]"
  by (simp add: stream_ops_def stream_do_def stream_new_def stream_next_def stream_push_def deliver_def)

end
