(* ===== verification/Tool_Outcome.thy ===== *)
theory Tool_Outcome
  imports Tool_Batch
begin

text \<open>
  What one tool call comes to: the middle of \<open>runTool\<close> in \<open>packages/agent/src/agent-loop.ts\<close>, from the
  validation of the arguments over the hooks and the tier to the result, with \<open>coerceToolResult\<close>
  and the text clean-up of \<open>packages/utils/src/sanitize-text.ts\<close>.  Tools, hooks and the validator
  are parameters that return a value or throw; an exception is carried as its message.
\<close>

section \<open>Clean text\<close>

text \<open>\<open>toWellFormed\<close> of the language: a lone surrogate becomes the replacement character.\<close>

definition REPLACEMENT :: nat where "REPLACEMENT = 0xFFFD"

fun toWellFormed :: "jstring \<Rightarrow> jstring" where
  "toWellFormed [] = []"
| "toWellFormed [c] = [if is_lead c \<or> is_trail c then REPLACEMENT else c]"
| "toWellFormed (c # d # s) =
     (if is_lead c \<and> is_trail d then c # d # toWellFormed s
      else (if is_lead c \<or> is_trail c then REPLACEMENT else c) # toWellFormed (d # s))"

definition is_control :: "nat \<Rightarrow> bool" where
  "is_control c \<longleftrightarrow> c \<le> 8 \<or> 0xB \<le> c \<and> c \<le> 0x1F \<or> 0x7F \<le> c \<and> c \<le> 0x9F"

definition ESC :: nat where "ESC = 0x1B"

text \<open>\<open>strip\<close>: the runtime's \<open>Bun.stripANSI\<close>.\<close>

definition sanitizeWellFormedText :: "(jstring \<Rightarrow> jstring) \<Rightarrow> jstring \<Rightarrow> jstring" where
  "sanitizeWellFormedText strip text =
     (if \<not> list_ex is_control text then text
      else let stripped = (if ESC \<notin> set text then text else strip text)
        in filter (\<lambda>c. \<not> is_control c) stripped)"

definition sanitizeText :: "(jstring \<Rightarrow> jstring) \<Rightarrow> jstring \<Rightarrow> jstring" where
  "sanitizeText strip text =
     (let wellFormed = toWellFormed text
      in if wellFormed \<noteq> text then sanitizeWellFormedText strip (filter (\<lambda>c. c \<noteq> REPLACEMENT) wellFormed)
         else sanitizeWellFormedText strip text)"

section \<open>Results\<close>

definition json_truthy :: "json \<Rightarrow> bool" where
  "json_truthy v = (case v of JNull \<Rightarrow> False | JBool b \<Rightarrow> b | JNum s \<Rightarrow> s \<noteq> js ''0'' \<and> s \<noteq> js ''-0'' \<and> s \<noteq> js ''NaN'' | JString s \<Rightarrow> s \<noteq> [] | _ \<Rightarrow> True)"

record tool_output =
  to_content :: "content list"
  to_details :: "json option"
  to_isError :: bool

definition coerce_block :: "(jstring \<Rightarrow> jstring) \<Rightarrow> json \<Rightarrow> content list" where
  "coerce_block strip block =
     (case json_field block (js ''type'') of
        Some (JString t) \<Rightarrow>
          (if t = js ''text''
           then (case json_field block (js ''text'') of Some (JString s) \<Rightarrow> [TextContent (sanitizeText strip s)] | _ \<Rightarrow> [])
           else if t = js ''image''
           then (case (json_field block (js ''data''), json_field block (js ''mimeType'')) of
                   (Some (JString d), Some (JString m)) \<Rightarrow> [ImageContent d m] | _ \<Rightarrow> [])
           else [])
      | _ \<Rightarrow> [])"

definition invalid_result :: jstring where
  "invalid_result = js ''Tool returned an invalid result: missing content array.''"

definition empty_details :: "json option" where "empty_details = Some (JObject [])"

text \<open>The result with whether it was malformed.\<close>

definition coerceToolResult :: "(jstring \<Rightarrow> jstring) \<Rightarrow> json \<Rightarrow> tool_output \<times> bool" where
  "coerceToolResult strip raw =
     (let details = (case json_field raw (js ''details'') of None \<Rightarrow> empty_details | d \<Rightarrow> d);
          explicitError = (case json_field raw (js ''isError'') of None \<Rightarrow> False | Some v \<Rightarrow> json_truthy v)
      in case json_field raw (js ''content'') of
           Some (JArray blocks) \<Rightarrow>
             (\<lparr>to_content = concat (map (coerce_block strip) blocks), to_details = details, to_isError = explicitError\<rparr>, False)
         | _ \<Rightarrow> (\<lparr>to_content = [TextContent invalid_result], to_details = details, to_isError = True\<rparr>, True))"

section \<open>One call\<close>

type_synonym call_args = "(jstring \<times> json) list"

record before_result =
  br_block :: bool
  br_reason :: "jstring option"

record after_result =
  ar_content :: "content list option"
  ar_details :: "json option"
  ar_isError :: "bool option"

text \<open>
  The functions around a call.  A hook before the call may change the arguments in place, so it also
  returns them.
\<close>

record call_hooks =
  ch_validate :: "call_args \<Rightarrow> jstring + call_args"
  ch_lenient :: bool
  ch_before :: "(call_args \<Rightarrow> (jstring + before_result option) \<times> call_args) option"
  ch_context :: "jstring + unit"
  ch_transform :: "call_args \<Rightarrow> jstring + call_args"
  ch_disallowed :: "(call_args \<Rightarrow> jstring + json option) option"
  ch_execute :: "call_args \<Rightarrow> jstring + json"
  ch_after :: "(call_args \<Rightarrow> tool_output \<Rightarrow> bool \<Rightarrow> jstring + after_result option) option"

datatype action = Validated call_args | AskedBefore call_args | Delegated call_args | Executed call_args | AskedAfter call_args

definition not_found :: "jstring \<Rightarrow> jstring" where
  "not_found name = js ''Tool '' @ name @ js '' not found''"

definition blocked_text :: "jstring option \<Rightarrow> jstring" where
  "blocked_text reason = (case reason of Some r \<Rightarrow> r | None \<Rightarrow> js ''Tool execution was blocked'')"

definition tierDeniedToolMessage :: "jstring \<Rightarrow> jstring" where
  "tierDeniedToolMessage name =
     js ''Tool '' @ [39] @ name @ [39] @ js '' requires the worker tier. Use the '' @ [39] @ js ''task'' @ [39] @
     js '' tool to delegate this work.''"

text \<open>\<open>effectiveArgs\<close> and the hook before the call: the arguments to go on with, and what was called.\<close>

definition check_call :: "call_hooks \<Rightarrow> call_args \<Rightarrow> (jstring + call_args) \<times> action list" where
  "check_call h args =
     (case (case ch_validate h args of Inr a \<Rightarrow> Inr a | Inl e \<Rightarrow> if ch_lenient h then Inr args else Inl e) of
        Inl e \<Rightarrow> (Inl e, [Validated args])
      | Inr effective \<Rightarrow>
          (case ch_before h of
             None \<Rightarrow> (Inr effective, [Validated args])
           | Some before \<Rightarrow>
               (case before effective of
                  (Inl e, _) \<Rightarrow> (Inl e, [Validated args, AskedBefore effective])
                | (Inr r, effective') \<Rightarrow>
                    (case r of
                       Some b \<Rightarrow>
                         (if br_block b then (Inl (blocked_text (br_reason b)), [Validated args, AskedBefore effective])
                          else (Inr effective', [Validated args, AskedBefore effective]))
                     | None \<Rightarrow> (Inr effective', [Validated args, AskedBefore effective])))))"

definition accept :: "(jstring \<Rightarrow> jstring) \<Rightarrow> json \<Rightarrow> tool_output \<times> bool" where
  "accept strip raw =
     (let (result, malformed) = coerceToolResult strip raw in (result, malformed \<or> to_isError result))"

text \<open>From the checked arguments to a result with \<open>isError\<close>, or an exception.\<close>

definition perform ::
  "(jstring \<Rightarrow> jstring) \<Rightarrow> call_hooks \<Rightarrow> model_tier \<Rightarrow> agent_tool \<Rightarrow> jstring \<Rightarrow> call_args \<Rightarrow> (jstring + tool_output \<times> bool) \<times> action list" where
  "perform strip h tier tool name effective =
     (case ch_context h of
        Inl e \<Rightarrow> (Inl e, [])
      | Inr _ \<Rightarrow>
          (case ch_transform h effective of
             Inl e \<Rightarrow> (Inl e, [])
           | Inr args \<Rightarrow>
               (if \<not> isToolAllowedForTier (Some tool) tier
                then (case ch_disallowed h of
                        None \<Rightarrow> (Inl (tierDeniedToolMessage name), [])
                      | Some delegate \<Rightarrow>
                          (case delegate args of
                             Inl e \<Rightarrow> (Inl e, [Delegated args])
                           | Inr None \<Rightarrow> (Inl (tierDeniedToolMessage name), [Delegated args])
                           | Inr (Some raw) \<Rightarrow> (Inr (accept strip raw), [Delegated args])))
                else (case ch_execute h args of
                        Inl e \<Rightarrow> (Inl e, [Executed args])
                      | Inr raw \<Rightarrow> (Inr (accept strip raw), [Executed args])))))"

definition error_output :: "jstring \<Rightarrow> tool_output" where
  "error_output e = \<lparr>to_content = [TextContent e], to_details = empty_details, to_isError = False\<rparr>"

record call_outcome =
  co_result :: tool_output
  co_isError :: bool
  co_args :: call_args
  co_actions :: "action list"

text \<open>The \<open>try\<close> with its \<open>catch\<close>: \<open>record.args\<close> is replaced once the hook before the call has agreed.\<close>

definition attempt ::
  "(jstring \<Rightarrow> jstring) \<Rightarrow> call_hooks \<Rightarrow> model_tier \<Rightarrow> agent_tool option \<Rightarrow> jstring \<Rightarrow> call_args \<Rightarrow> call_outcome" where
  "attempt strip h tier tool name args =
     (case tool of
        None \<Rightarrow> \<lparr>co_result = error_output (not_found name), co_isError = True, co_args = args, co_actions = []\<rparr>
      | Some t \<Rightarrow>
          (case check_call h args of
             (Inl e, acts) \<Rightarrow> \<lparr>co_result = error_output e, co_isError = True, co_args = args, co_actions = acts\<rparr>
           | (Inr effective, acts) \<Rightarrow>
               (case perform strip h tier t name effective of
                  (Inl e, acts') \<Rightarrow>
                    \<lparr>co_result = error_output e, co_isError = True, co_args = effective, co_actions = acts @ acts'\<rparr>
                | (Inr (result, isError), acts') \<Rightarrow>
                    \<lparr>co_result = result, co_isError = isError, co_args = effective, co_actions = acts @ acts'\<rparr>)))"

definition after_call :: "call_hooks \<Rightarrow> call_outcome \<Rightarrow> call_outcome" where
  "after_call h c =
     (case ch_after h of
        None \<Rightarrow> c
      | Some after \<Rightarrow>
          (let c' = c\<lparr>co_actions := co_actions c @ [AskedAfter (co_args c)]\<rparr>
           in case after (co_args c) (co_result c) (co_isError c) of
                Inl e \<Rightarrow> c'\<lparr>co_result := error_output e, co_isError := True\<rparr>
              | Inr None \<Rightarrow> c'
              | Inr (Some a) \<Rightarrow>
                  c'\<lparr>co_result :=
                       \<lparr>to_content = (case ar_content a of Some x \<Rightarrow> x | None \<Rightarrow> to_content (co_result c)),
                        to_details = (case ar_details a of Some x \<Rightarrow> Some x | None \<Rightarrow> to_details (co_result c)),
                        to_isError = (case ar_isError a of Some x \<Rightarrow> x | None \<Rightarrow> to_isError (co_result c))\<rparr>,
                     co_isError := (case ar_isError a of Some x \<Rightarrow> x | None \<Rightarrow> co_isError c)\<rparr>))"

definition run_call ::
  "(jstring \<Rightarrow> jstring) \<Rightarrow> call_hooks \<Rightarrow> model_tier \<Rightarrow> agent_tool option \<Rightarrow> jstring \<Rightarrow> call_args \<Rightarrow> call_outcome" where
  "run_call strip h tier tool name args = after_call h (attempt strip h tier tool name args)"

section \<open>Facts about clean text\<close>

definition surrogate :: "nat \<Rightarrow> bool" where "surrogate c \<longleftrightarrow> is_lead c \<or> is_trail c"

definition well_formed :: "jstring \<Rightarrow> bool" where "well_formed s \<longleftrightarrow> toWellFormed s = s"

lemma lead_trail [simp]: "is_lead c \<Longrightarrow> \<not> is_trail c"
  by (simp add: is_lead_def is_trail_def)

lemma toWellFormed_Cons: "\<not> surrogate c \<Longrightarrow> toWellFormed (c # s) = c # toWellFormed s"
  by (cases s) (auto simp: surrogate_def)

lemma toWellFormed_pair: "\<lbrakk>is_lead c; is_trail d\<rbrakk> \<Longrightarrow> toWellFormed (c # d # s) = c # d # toWellFormed s"
  by simp

lemma replacement_plain [simp]: "\<not> surrogate REPLACEMENT"
  by (simp add: surrogate_def REPLACEMENT_def is_lead_def is_trail_def)

text \<open>Well-formed text is built of plain units and pairs.\<close>

inductive wf_text :: "jstring \<Rightarrow> bool" where
  Empty: "wf_text []"
| Unit: "\<lbrakk>\<not> surrogate c; wf_text s\<rbrakk> \<Longrightarrow> wf_text (c # s)"
| Pair: "\<lbrakk>is_lead c; is_trail d; wf_text s\<rbrakk> \<Longrightarrow> wf_text (c # d # s)"

lemma wf_toWellFormed: "wf_text (toWellFormed s)"
proof (induction s rule: toWellFormed.induct)
  case (2 c)
  then show ?case using wf_text.Unit [OF _ wf_text.Empty, of c] wf_text.Unit [OF replacement_plain wf_text.Empty]
    by (auto simp: surrogate_def)
next
  case (3 c d s)
  show ?case
  proof (cases "is_lead c \<and> is_trail d")
    case True
    then show ?thesis using 3(1) by (simp add: wf_text.Pair)
  next
    case False
    then show ?thesis using 3(2) wf_text.Unit [OF replacement_plain] wf_text.Unit [of c] by (auto simp: surrogate_def)
  qed
qed (simp add: wf_text.Empty)

lemma wf_fixed: "wf_text s \<Longrightarrow> toWellFormed s = s"
  by (induction rule: wf_text.induct) (simp_all add: toWellFormed_Cons)

lemma well_formed_iff: "well_formed s \<longleftrightarrow> wf_text s"
  using wf_toWellFormed [of s] wf_fixed [of s] by (auto simp: well_formed_def)

lemma wf_filter: "\<lbrakk>wf_text s; \<And>c. surrogate c \<Longrightarrow> P c\<rbrakk> \<Longrightarrow> wf_text (filter P s)"
  by (induction rule: wf_text.induct) (auto simp: surrogate_def intro: wf_text.intros)

lemma control_plain: "surrogate c \<Longrightarrow> \<not> is_control c"
  by (auto simp: surrogate_def is_lead_def is_trail_def is_control_def)

lemma sanitize_wf:
  assumes "wf_text s" "\<forall>t. well_formed t \<longrightarrow> well_formed (strip t)"
  shows "wf_text (sanitizeWellFormedText strip s) \<and> \<not> list_ex is_control (sanitizeWellFormedText strip s)"
proof -
  have "wf_text (if ESC \<notin> set s then s else strip s)" using assms by (auto simp: well_formed_iff)
  then show ?thesis using assms(1) wf_filter control_plain
    by (auto simp: sanitizeWellFormedText_def Let_def list_ex_iff)
qed

section \<open>Properties\<close>

text \<open>
  Text from tools is clean.  Provided that the runtime's removal of escape sequences keeps text
  well-formed, the result holds no control character and no lone surrogate, cleaning it again
  changes nothing, and clean text is left as it is.
\<close>

theorem sanitized_text_is_clean:
  assumes "\<forall>t. well_formed t \<longrightarrow> well_formed (strip t)"
  shows "well_formed (sanitizeText strip s) \<and> \<not> list_ex is_control (sanitizeText strip s) \<and>
    sanitizeText strip (sanitizeText strip s) = sanitizeText strip s \<and>
    (well_formed s \<and> \<not> list_ex is_control s \<longrightarrow> sanitizeText strip s = s)"
proof -
  have "wf_text (filter (\<lambda>c. c \<noteq> REPLACEMENT) (toWellFormed s))"
    by (rule wf_filter [OF wf_toWellFormed]) (use replacement_plain in auto)
  then have c: "wf_text (sanitizeText strip s) \<and> \<not> list_ex is_control (sanitizeText strip s)"
    using sanitize_wf [OF _ assms] well_formed_iff [of s] by (auto simp: sanitizeText_def Let_def well_formed_def)
  have k: "sanitizeText strip t = t" if "wf_text t" "\<not> list_ex is_control t" for t
    using that wf_fixed [of t] by (simp add: sanitizeText_def sanitizeWellFormedText_def)
  show ?thesis using c k well_formed_iff by blast
qed

text \<open>A runtime that knows no escape sequence, and a string with a lone surrogate and a bell.\<close>

theorem sanitized_text_is_clean_witness:
  "sanitizeText (\<lambda>t. t) [0x61, 0xD83D, 0xDE00, 7, 0xD800, 0x62] = [0x61, 0xD83D, 0xDE00, 0x62] \<and>
    well_formed [0x61, 0xD83D, 0xDE00, 0x62]"
proof -
  have e: "sanitizeText (\<lambda>t. t) [0x61, 0xD83D, 0xDE00, 7, 0xD800, 0x62] = [0x61, 0xD83D, 0xDE00, 0x62]" by code_simp
  show ?thesis using sanitized_text_is_clean [of "\<lambda>t. t" "[0x61, 0xD83D, 0xDE00, 7, 0xD800, 0x62]"] unfolding e by simp
qed

text \<open>A carriage return alone is dropped, not turned into a line feed: the two lines become one.\<close>

lemma carriage_return_joins_lines: "sanitizeText strip (js ''one'' @ [13] @ js ''two'') = js ''onetwo''"
  by (simp add: sanitizeText_def sanitizeWellFormedText_def is_control_def ESC_def is_lead_def is_trail_def)

lemma check_passes:
  assumes "check_call h args = (Inr e, acts)"
  shows "\<exists>v. (ch_validate h args = Inr v \<or> ch_lenient h \<and> v = args) \<and>
    (case ch_before h of None \<Rightarrow> e = v
     | Some f \<Rightarrow> \<exists>r. f v = (Inr r, e) \<and> (\<forall>b. r = Some b \<longrightarrow> \<not> br_block b)) \<and>
    (\<forall>a. Executed a \<notin> set acts \<and> Delegated a \<notin> set acts)"
  using assms unfolding check_call_def
  by (cases "ch_validate h args"; cases "ch_before h") (auto split: if_splits prod.splits sum.splits option.splits)

lemma check_quiet: "check_call h args = (r, acts) \<Longrightarrow> Executed a \<notin> set acts \<and> Delegated a \<notin> set acts"
  unfolding check_call_def by (auto split: if_splits prod.splits sum.splits option.splits)

lemma perform_actions:
  assumes "perform strip h tier t name e = (r, acts)"
  shows "(\<forall>a. Executed a \<in> set acts \<longrightarrow> isToolAllowedForTier (Some t) tier \<and> ch_transform h e = Inr a \<and> acts = [Executed a]) \<and>
    (\<forall>res err. r = Inr (res, err) \<longrightarrow>
      (\<exists>raw a. (acts = [Executed a] \<and> ch_execute h a = Inr raw \<or>
          acts = [Delegated a] \<and> (\<exists>d. ch_disallowed h = Some d \<and> d a = Inr (Some raw))) \<and> (res, err) = accept strip raw))"
  using assms unfolding perform_def by (auto split: if_splits sum.splits option.splits)

lemma accepted:
  assumes "(res, False) = accept strip raw"
  shows "\<exists>blocks. json_field raw (js ''content'') = Some (JArray blocks) \<and> to_content res = concat (map (coerce_block strip) blocks) \<and>
    \<not> to_isError res"
  using assms unfolding accept_def coerceToolResult_def Let_def
  by (auto split: option.splits json.splits)

definition performed :: "action \<Rightarrow> bool" where
  "performed a = (case a of Executed _ \<Rightarrow> True | Delegated _ \<Rightarrow> True | _ \<Rightarrow> False)"

lemma check_not_performed: "check_call h args = (r, acts) \<Longrightarrow> filter performed acts = []"
  unfolding check_call_def by (auto simp: performed_def split: if_splits prod.splits sum.splits option.splits)

lemma perform_once: "perform strip h tier t name e = (r, acts) \<Longrightarrow> length (filter performed acts) \<le> 1"
  unfolding perform_def by (auto simp: performed_def split: if_splits sum.splits option.splits)

lemma attempt_cases:
  assumes "c = attempt strip h tier tool name args"
  obtains "co_isError c" "filter performed (co_actions c) = []" "\<forall>a. Executed a \<notin> set (co_actions c)"
  | t e acts r acts' where "tool = Some t" "check_call h args = (Inr e, acts)" "perform strip h tier t name e = (r, acts')"
      "co_actions c = acts @ acts'" "co_isError c = (case r of Inl _ \<Rightarrow> True | Inr (_, err) \<Rightarrow> err)"
      "co_result c = (case r of Inl m \<Rightarrow> error_output m | Inr (res, _) \<Rightarrow> res)"
proof (cases tool)
  case None
  then show thesis using assms that(1) by (simp add: attempt_def)
next
  case (Some t)
  obtain r acts where k: "check_call h args = (r, acts)" by fastforce
  show thesis
  proof (cases r)
    case (Inl m)
    then show thesis using assms Some k that(1) check_not_performed [OF k] check_quiet [OF k] by (simp add: attempt_def)
  next
    case (Inr e)
    obtain p acts' where p: "perform strip h tier t name e = (p, acts')" by fastforce
    then show thesis using that(2) [OF Some _ p] assms Some k Inr by (auto simp: attempt_def split: sum.splits prod.splits)
  qed
qed

lemma after_keeps:
  "filter performed (co_actions (after_call h c)) = filter performed (co_actions c)"
  "Executed a \<in> set (co_actions (after_call h c)) \<longleftrightarrow> Executed a \<in> set (co_actions c)"
  "ch_after h = None \<Longrightarrow> after_call h c = c"
  by (auto simp: after_call_def Let_def performed_def split: option.splits sum.splits)

text \<open>
  C12: one tool call.  The tool is executed at most once, and only when it was found, its arguments were
  valid or the tool is lenient, the hook before the call did not block it, and its tier allows it,
  with the arguments that came out of that; and, when there is no hook after the
  call (such a hook may set or clear the flag), the call is reported as a success only when the tool, or a delegate for it, has returned a well-formed result that carries
  no error flag.
\<close>

theorem tool_call_guarded:
  assumes "c = run_call strip h tier tool name args"
  shows "length (filter performed (co_actions c)) \<le> 1 \<and>
    (\<forall>a. Executed a \<in> set (co_actions c) \<longrightarrow>
      (\<exists>t v e. tool = Some t \<and> isToolAllowedForTier (Some t) tier \<and> (ch_validate h args = Inr v \<or> ch_lenient h \<and> v = args) \<and>
        (case ch_before h of None \<Rightarrow> e = v
         | Some f \<Rightarrow> \<exists>r. f v = (Inr r, e) \<and> (\<forall>b. r = Some b \<longrightarrow> \<not> br_block b)) \<and>
        ch_transform h e = Inr a)) \<and>
    (ch_after h = None \<and> \<not> co_isError c \<longrightarrow>
      (\<exists>raw a blocks. (Executed a \<in> set (co_actions c) \<and> ch_execute h a = Inr raw \<or>
          Delegated a \<in> set (co_actions c) \<and> (\<exists>d. ch_disallowed h = Some d \<and> d a = Inr (Some raw))) \<and>
        json_field raw (js ''content'') = Some (JArray blocks) \<and>
        to_content (co_result c) = concat (map (coerce_block strip) blocks) \<and> \<not> to_isError (co_result c)))"
proof (rule attempt_cases [OF refl [of "attempt strip h tier tool name args"]])
  let ?c = "attempt strip h tier tool name args"
  assume a: "co_isError ?c" "filter performed (co_actions ?c) = []" "\<forall>a. Executed a \<notin> set (co_actions ?c)"
  then show ?thesis by (auto simp: assms run_call_def after_keeps)
next
  let ?c = "attempt strip h tier tool name args"
  fix t e acts r acts'
  assume a: "tool = Some t" "check_call h args = (Inr e, acts)" "perform strip h tier t name e = (r, acts')"
    "co_actions ?c = acts @ acts'" "co_isError ?c = (case r of Inl _ \<Rightarrow> True | Inr (_, err) \<Rightarrow> err)"
    "co_result ?c = (case r of Inl m \<Rightarrow> error_output m | Inr (res, _) \<Rightarrow> res)"
  note p = perform_actions [OF a(3)] and k = check_passes [OF a(2)]
  have once: "length (filter performed (co_actions c)) \<le> 1"
    using perform_once [OF a(3)] check_not_performed [OF a(2)] a(4) by (simp add: assms run_call_def after_keeps)
  have guard: "isToolAllowedForTier (Some t) tier \<and> ch_transform h e = Inr x" if "Executed x \<in> set (co_actions c)" for x
    using that p k a(4) by (auto simp: assms run_call_def after_keeps)
  have success: "\<exists>raw x blocks. (Executed x \<in> set (co_actions c) \<and> ch_execute h x = Inr raw \<or>
          Delegated x \<in> set (co_actions c) \<and> (\<exists>d. ch_disallowed h = Some d \<and> d x = Inr (Some raw))) \<and>
        json_field raw (js ''content'') = Some (JArray blocks) \<and>
        to_content (co_result c) = concat (map (coerce_block strip) blocks) \<and> \<not> to_isError (co_result c)"
    if n: "ch_after h = None" "\<not> co_isError c"
  proof -
    have c: "c = ?c" using n(1) by (simp add: assms run_call_def after_keeps)
    obtain res where r: "r = Inr (res, False)" using n(2) a(5) c by (auto split: sum.splits prod.splits)
    then obtain raw x where x: "acts' = [Executed x] \<and> ch_execute h x = Inr raw \<or>
        acts' = [Delegated x] \<and> (\<exists>d. ch_disallowed h = Some d \<and> d x = Inr (Some raw))" "(res, False) = accept strip raw"
      using p by blast
    from accepted [OF x(2)] obtain blocks where "json_field raw (js ''content'') = Some (JArray blocks)"
      "to_content res = concat (map (coerce_block strip) blocks)" "\<not> to_isError res" by blast
    moreover have "co_result c = res" using a(6) r c by simp
    moreover have "Executed x \<in> set (co_actions c) \<and> ch_execute h x = Inr raw \<or>
        Delegated x \<in> set (co_actions c) \<and> (\<exists>d. ch_disallowed h = Some d \<and> d x = Inr (Some raw))"
      using x(1) a(4) c by auto
    ultimately show ?thesis by blast
  qed
  show ?thesis using once guard success k a(1) by blast
qed

text \<open>A lenient tool that answers with one block of text, and a hook that lets it pass.\<close>

definition echo_tool :: agent_tool where
  "echo_tool = \<lparr>at_name = js ''echo'', at_customWireName = None, at_concurrency = None, at_allowedTiers = None\<rparr>"

definition echo_hooks :: call_hooks where
  "echo_hooks = \<lparr>ch_validate = (\<lambda>_. Inl (js ''bad'')), ch_lenient = True,
     ch_before = Some (\<lambda>a. (Inr (Some \<lparr>br_block = False, br_reason = None\<rparr>), a)), ch_context = Inr (), ch_transform = Inr,
     ch_disallowed = None,
     ch_execute = (\<lambda>_. Inr (JObject [(js ''content'', JArray [JObject [(js ''type'', JString (js ''text'')), (js ''text'', JString (js ''hi''))], JNull])])),
     ch_after = None\<rparr>"

theorem tool_call_guarded_witness:
  "co_result (run_call id echo_hooks WorkerTier (Some echo_tool) (js ''echo'') []) =
     \<lparr>to_content = [TextContent (js ''hi'')], to_details = Some (JObject []), to_isError = False\<rparr> \<and>
   (\<exists>raw blocks. ch_execute echo_hooks [] = Inr raw \<and> json_field raw (js ''content'') = Some (JArray blocks) \<and>
     concat (map (coerce_block id) blocks) = [TextContent (js ''hi'')])"
proof -
  let ?c = "run_call id echo_hooks WorkerTier (Some echo_tool) (js ''echo'') []"
  have v: "co_result ?c = \<lparr>to_content = [TextContent (js ''hi'')], to_details = Some (JObject []), to_isError = False\<rparr>"
      "co_isError ?c = False" "co_actions ?c = [Validated [], AskedBefore [], Executed []]" by code_simp+
  have n: "ch_after echo_hooks = None" by (simp add: echo_hooks_def)
  show ?thesis using tool_call_guarded [OF refl, of id echo_hooks WorkerTier "Some echo_tool" "js ''echo''" "[]"] v n by auto
qed

end
