(* ===== verification/Tool_Args.thy ===== *)
theory Tool_Args
  imports Json
begin

text \<open>
  The repair of arguments that a model got wrong, before they are validated:
  \<open>packages/agent/src/tool-call-fixup.ts\<close>.  The schema is the one a tool has on the wire, an argument
  that is absent is \<open>None\<close>, and a correction is a value instead of its wording.  What the language
  makes of a numeric string (\<open>Number\<close>, where finite) is a parameter: the text that number prints as.
\<close>

section \<open>Expected types\<close>

fun json_items :: "json option \<Rightarrow> json list" where
  "json_items (Some (JArray vs)) = vs"
| "json_items _ = []"

fun json_entries :: "json option \<Rightarrow> (jstring \<times> json) list" where
  "json_entries (Some (JObject kvs)) = kvs"
| "json_entries _ = []"

definition isSchemaRecord :: "json \<Rightarrow> bool" where
  "isSchemaRecord v = (case v of JObject _ \<Rightarrow> True | _ \<Rightarrow> False)"

definition type_names :: "json list \<Rightarrow> jstring list" where
  "type_names vs = concat (map (\<lambda>v. case v of JString s \<Rightarrow> [s] | _ \<Rightarrow> []) vs)"

definition addTypes :: "json \<Rightarrow> jstring list" where
  "addTypes schema =
     (case json_field schema (js ''type'') of
        Some (JString t) \<Rightarrow> [t]
      | Some (JArray vs) \<Rightarrow> type_names vs
      | _ \<Rightarrow> [])"

text \<open>A set of types is the list of its members.\<close>

function collectExpectedTypes :: "json \<Rightarrow> nat \<Rightarrow> jstring list" where
  "collectExpectedTypes schema depth =
     (if \<not> isSchemaRecord schema \<or> depth > 8 then []
      else let types = addTypes schema @
          concat (map (\<lambda>branch. collectExpectedTypes branch (depth + 1)) (json_items (json_field schema (js ''anyOf'')))) @
          concat (map (\<lambda>branch. collectExpectedTypes branch (depth + 1)) (json_items (json_field schema (js ''oneOf'')))) @
          concat (map (\<lambda>branch. collectExpectedTypes branch (depth + 1)) (json_items (json_field schema (js ''allOf''))))
        in if types = [] \<and> json_field schema (js ''items'') \<noteq> None then [js ''array''] else types)"
  by pat_completeness auto
termination by (relation "measure (\<lambda>(_, depth). 9 - depth)") auto

declare collectExpectedTypes.simps [simp del]

definition expectsArray :: "jstring list \<Rightarrow> bool" where "expectsArray ts \<longleftrightarrow> js ''array'' \<in> set ts"

definition expectsString :: "jstring list \<Rightarrow> bool" where "expectsString ts \<longleftrightarrow> js ''string'' \<in> set ts"

definition expectsOnlyArray :: "jstring list \<Rightarrow> bool" where
  "expectsOnlyArray ts \<longleftrightarrow> js ''array'' \<in> set ts \<and> js ''string'' \<notin> set ts"

definition expectsOnlyString :: "jstring list \<Rightarrow> bool" where
  "expectsOnlyString ts \<longleftrightarrow> js ''string'' \<in> set ts \<and> js ''array'' \<notin> set ts"

definition expectsNumber :: "jstring list \<Rightarrow> bool" where
  "expectsNumber ts \<longleftrightarrow> js ''number'' \<in> set ts \<or> js ''integer'' \<in> set ts"

section \<open>One property\<close>

definition toolArrayDefault :: "jstring \<Rightarrow> jstring \<Rightarrow> json list option" where
  "toolArrayDefault tool key =
     (if (tool = js ''find'' \<or> tool = js ''search'') \<and> key = js ''paths'' then Some [JString (js ''.'')] else None)"

text \<open>\<open>String(value)\<close> of the language.\<close>

fun js_String :: "json \<Rightarrow> jstring" where
  "js_String JNull = js ''null''"
| "js_String (JBool b) = (if b then js ''true'' else js ''false'')"
| "js_String (JNum s) = s"
| "js_String (JString s) = s"
| "js_String (JArray vs) = join_with (js '','') (map (\<lambda>v. if v = JNull then [] else js_String v) vs)"
| "js_String (JObject kvs) = js ''[object Object]''"

definition joinArrayAsString :: "jstring \<Rightarrow> jstring \<Rightarrow> json list \<Rightarrow> jstring option" where
  "joinArrayAsString tool key items =
     (if tool = js ''bash'' \<and> key = js ''command'' then Some (join_with (js '' && '') (map js_String items)) else None)"

text \<open>The pattern: a sign, digits, a fraction and an exponent.\<close>

definition drop_sign :: "jstring \<Rightarrow> jstring" where
  "drop_sign s = (case s of c # cs \<Rightarrow> (if c = 43 \<or> c = 45 then cs else s) | [] \<Rightarrow> [])"

definition is_dec :: "nat \<Rightarrow> bool" where "is_dec c \<longleftrightarrow> 48 \<le> c \<and> c \<le> 57"

definition exponent_ok :: "jstring \<Rightarrow> bool" where
  "exponent_ok s =
     (case s of
        [] \<Rightarrow> True
      | c # cs \<Rightarrow> (c = 101 \<or> c = 69) \<and> drop_sign cs \<noteq> [] \<and> list_all is_dec (drop_sign cs))"

definition numeric_string :: "jstring \<Rightarrow> bool" where
  "numeric_string s =
     (let r = drop_sign s; int = takeWhile is_dec r; rest = dropWhile is_dec r
      in int \<noteq> [] \<and>
         (case rest of
            c # cs \<Rightarrow>
              (if c = 46 then takeWhile is_dec cs \<noteq> [] \<and> exponent_ok (dropWhile is_dec cs) else exponent_ok rest)
          | [] \<Rightarrow> True))"

definition tryParseNumericString :: "(jstring \<Rightarrow> jstring option) \<Rightarrow> jstring \<Rightarrow> jstring list \<Rightarrow> jstring option" where
  "tryParseNumericString number s types =
     (if \<not> expectsNumber types then None
      else let trimmed = trim s
        in if trimmed = [] \<or> \<not> numeric_string trimmed then None else number trimmed)"

datatype correction =
    MissingDefault jstring
  | MissingEmpty jstring
  | WrappedInArray jstring
  | StringToNumber jstring
  | ScalarToString jstring
  | ArrayJoined jstring
  | ArrayToFirst jstring

text \<open>The cases that do not go into the properties of an object.\<close>

definition fix_scalar ::
  "(jstring \<Rightarrow> jstring option) \<Rightarrow> jstring \<Rightarrow> jstring \<Rightarrow> json option \<Rightarrow> jstring list \<Rightarrow> jstring list \<Rightarrow> (json option \<times> correction list) option" where
  "fix_scalar number tool key value expected required =
     (if expected = [] then Some (value, [])
      else case value of
        None \<Rightarrow>
          (if \<not> expectsArray expected \<or> key \<notin> set required then Some (None, [])
           else case toolArrayDefault tool key of
             Some d \<Rightarrow> Some (Some (JArray d), [MissingDefault key])
           | None \<Rightarrow> Some (Some (JArray []), [MissingEmpty key]))
      | Some (JString s) \<Rightarrow>
          (if expectsOnlyArray expected then Some (Some (JArray [JString s]), [WrappedInArray key])
           else case tryParseNumericString number s expected of
             Some n \<Rightarrow>
               (if expectsNumber expected \<and> \<not> expectsString expected then Some (Some (JNum n), [StringToNumber key])
                else Some (value, []))
           | None \<Rightarrow> Some (value, []))
      | Some (JNum n) \<Rightarrow>
          (if expectsString expected \<and> \<not> expectsNumber expected then Some (Some (JString n), [ScalarToString key])
           else Some (value, []))
      | Some (JBool b) \<Rightarrow>
          (if expectsString expected \<and> \<not> expectsNumber expected
           then Some (Some (JString (js_String (JBool b))), [ScalarToString key])
           else Some (value, []))
      | Some (JArray items) \<Rightarrow>
          (if \<not> expectsString expected \<or> expectsArray expected then Some (value, [])
           else case joinArrayAsString tool key items of
             Some joined \<Rightarrow> Some (Some (JString joined), [ArrayJoined key])
           | None \<Rightarrow>
               (if expectsOnlyString expected \<and> length items > 0 then Some (Some (hd items), [ArrayToFirst key])
                else Some (value, [])))
      | Some JNull \<Rightarrow> Some (value, [])
      | Some (JObject _) \<Rightarrow> None)"

text \<open>
  \<open>fixPropertyValue\<close> and \<open>fixObjectProperties\<close>; the third function is the loop over the properties of a
  schema.
\<close>

lemma json_field_size: "json_field v k = Some w \<Longrightarrow> size w < size v"
proof (cases v)
  case (JObject kvs)
  assume "json_field v k = Some w"
  then have "(k, w) \<in> set kvs" using JObject by (simp add: map_of_SomeD)
  then have "size w < size_list (size_prod (\<lambda>x. 0) size) kvs"
    by (induction kvs) auto
  then show ?thesis using JObject by simp
qed auto

definition required_keys :: "json \<Rightarrow> jstring list" where
  "required_keys schema = type_names (json_items (json_field schema (js ''required'')))"

function (sequential) fixPropertyValue ::
    "(jstring \<Rightarrow> jstring option) \<Rightarrow> jstring \<Rightarrow> jstring \<Rightarrow> json option \<Rightarrow> json \<Rightarrow> jstring list \<Rightarrow> json option \<times> correction list"
  and fixObjectProperties ::
    "(jstring \<Rightarrow> jstring option) \<Rightarrow> jstring \<Rightarrow> (jstring \<times> json) list \<Rightarrow> jstring list \<Rightarrow> (jstring \<times> json) list \<Rightarrow>
      (jstring \<times> json) list \<times> correction list" where
  "fixPropertyValue number tool key value schema required =
     (case fix_scalar number tool key value (collectExpectedTypes schema 0) required of
        Some r \<Rightarrow> r
      | None \<Rightarrow>
          (case (value, json_field schema (js ''properties'')) of
             (Some (JObject args), Some (JObject props)) \<Rightarrow>
               (let (args', cs) = fixObjectProperties number tool props (required_keys schema) args in (Some (JObject args'), cs))
           | _ \<Rightarrow> (value, [])))"
| "fixObjectProperties number tool [] required args = (args, [])"
| "fixObjectProperties number tool ((key, schema) # props) required args =
     (let current = map_get args key;
          (fixed, cs) = fixPropertyValue number tool key current schema required;
          args' = (case fixed of Some v \<Rightarrow> (if fixed = current then args else map_set args key v) | None \<Rightarrow> args);
          (args'', cs') = fixObjectProperties number tool props required args'
      in (args'', cs @ cs'))"
  by pat_completeness auto
termination
proof (relation "measure (\<lambda>x. case x of
    Inl (number, tool, key, value, schema, required) \<Rightarrow> size schema
  | Inr (number, tool, props, required, args) \<Rightarrow> size_list (size_prod (\<lambda>_. 0) size) props)", goal_cases)
  case (2 number tool key val schema required x y x2 args x2a props)
  then have "json_field schema (js ''properties'') = Some (JObject props)" by simp
  from json_field_size [OF this] show ?case by simp
qed auto

declare fixPropertyValue.simps [simp del]

definition fixupToolArgs :: "(jstring \<Rightarrow> jstring option) \<Rightarrow> jstring \<Rightarrow> json \<Rightarrow> (jstring \<times> json) list \<Rightarrow> (jstring \<times> json) list \<times> correction list" where
  "fixupToolArgs number tool wire args =
     (case (json_field wire (js ''type''), json_field wire (js ''properties'')) of
        (Some (JString t), Some (JObject props)) \<Rightarrow>
          (if t = js ''object'' then fixObjectProperties number tool props (required_keys wire) args else (args, []))
      | _ \<Rightarrow> (args, []))"

section \<open>Properties\<close>

text \<open>Keys of an object are distinct, at every level.\<close>

fun json_ok :: "json \<Rightarrow> bool" where
  "json_ok (JArray vs) = list_all json_ok vs"
| "json_ok (JObject kvs) = (distinct (map fst kvs) \<and> list_all (\<lambda>kv. json_ok (snd kv)) kvs)"
| "json_ok _ = True"

lemma json_ok_field: "\<lbrakk>json_ok v; json_field v k = Some w\<rbrakk> \<Longrightarrow> json_ok w"
  by (cases v) (auto simp: list_all_iff dest!: map_of_SomeD)

lemma fix_scalar_changes:
  "fix_scalar number tool key v ts required = Some (v', cs) \<Longrightarrow> (cs = [] \<longleftrightarrow> v' = v) \<and> (v' = None \<longrightarrow> v = None)"
  by (auto simp: fix_scalar_def neq_Nil_conv split: if_splits option.splits json.splits dest: arg_cong [where f = size])

lemma fix_changes:
  "json_ok schema \<Longrightarrow> fixPropertyValue number tool key v schema required = (v', cs) \<Longrightarrow>
    (cs = [] \<longleftrightarrow> v' = v) \<and> (v' = None \<longrightarrow> v = None)"
  "distinct (map fst props) \<Longrightarrow> list_all (\<lambda>kv. json_ok (snd kv)) props \<Longrightarrow>
    fixObjectProperties number tool props required args = (args', cs) \<Longrightarrow>
    (cs = [] \<longleftrightarrow> args' = args) \<and> (\<forall>k. k \<notin> fst ` set props \<longrightarrow> map_get args' k = map_get args k)"
proof (induction number tool key v schema required and number tool props required args arbitrary: v' cs and args' cs
    rule: fixPropertyValue_fixObjectProperties.induct)
  case (1 number tool key v schema required)
  show ?case
  proof (cases "fix_scalar number tool key v (collectExpectedTypes schema 0) required")
    case None
    then show ?thesis using 1 json_ok_field [OF 1(2), of "js ''properties''"]
      by (fastforce simp: fixPropertyValue.simps split: option.splits json.splits prod.splits)
  next
    case (Some r)
    then show ?thesis using 1(3) fix_scalar_changes by (auto simp: fixPropertyValue.simps)
  qed
next
  case (2 number tool required args)
  then show ?case by simp
next
  case (3 number tool key schema props required args)
  let ?current = "map_get args key"
  obtain fixed cs1 where f: "fixPropertyValue number tool key ?current schema required = (fixed, cs1)" by fastforce
  let ?args = "case fixed of Some v \<Rightarrow> (if fixed = ?current then args else map_set args key v) | None \<Rightarrow> args"
  obtain args2 cs2 where g: "fixObjectProperties number tool props required ?args = (args2, cs2)" by fastforce
  have r: "args' = args2" "cs = cs1 @ cs2" using 3(5) f g by simp_all
  have a: "(cs1 = [] \<longleftrightarrow> fixed = ?current) \<and> (fixed = None \<longrightarrow> ?current = None)"
    using 3(1) [OF refl _ f] 3(4) by simp
  have b: "(cs2 = [] \<longleftrightarrow> args2 = ?args) \<and> (\<forall>k. k \<notin> fst ` set props \<longrightarrow> map_get args2 k = map_get ?args k)"
    using 3(2) [OF refl f [symmetric] refl refl _ _ g] 3(3,4) by simp
  show ?case
  proof (cases "fixed = ?current")
    case True
    then have "?args = args" by (simp split: option.split)
    then show ?thesis using a b r True by auto
  next
    case False
    then obtain v where v: "fixed = Some v" using a by auto
    then have n: "?args = map_set args key v" using False by simp
    have "key \<notin> fst ` set props" using 3(3) by simp
    then have "map_get args2 key = Some v" using b n by simp
    then have "args2 \<noteq> args" using False v by auto
    then show ?thesis using a b r n False by auto
  qed
qed

text \<open>
  C13: the repair says what it does.  The loop takes the repaired arguments only when corrections are
  reported: there are none exactly when the arguments are as they were, at every depth, and a key that
  the schema does not name keeps its value.
\<close>

theorem fixup_reports_changes:
  assumes "json_ok wire" "fixupToolArgs number tool wire args = (args', cs)"
  shows "(cs = [] \<longleftrightarrow> args' = args) \<and>
    (\<forall>k. k \<notin> fst ` set (json_entries (json_field wire (js ''properties''))) \<longrightarrow> map_get args' k = map_get args k)"
proof (cases "\<exists>props. json_field wire (js ''type'') = Some (JString (js ''object'')) \<and>
    json_field wire (js ''properties'') = Some (JObject props)")
  case True
  then obtain props where p: "json_field wire (js ''type'') = Some (JString (js ''object''))"
    "json_field wire (js ''properties'') = Some (JObject props)" by blast
  have "distinct (map fst props)" "list_all (\<lambda>kv. json_ok (snd kv)) props" using json_ok_field [OF assms(1) p(2)] by simp_all
  moreover have "fixObjectProperties number tool props (required_keys wire) args = (args', cs)"
    using assms(2) p by (simp add: fixupToolArgs_def)
  ultimately show ?thesis using fix_changes(2) [of props number tool "required_keys wire" args args' cs] p(2) by simp
next
  case False
  then have "(args', cs) = (args, [])" using assms(2)
    by (auto simp: fixupToolArgs_def split: option.splits json.splits if_splits)
  then show ?thesis by simp
qed

definition prop_of :: "string \<Rightarrow> json" where "prop_of t = JObject [(js ''type'', JString (js t))]"

definition search_schema :: json where
  "search_schema = JObject
     [(js ''type'', JString (js ''object'')),
      (js ''properties'', JObject [(js ''pattern'', prop_of ''string''), (js ''paths'', prop_of ''array''), (js ''limit'', prop_of ''integer'')]),
      (js ''required'', JArray [JString (js ''pattern''), JString (js ''paths'')])]"

theorem fixup_reports_changes_witness:
  "fixupToolArgs Some (js ''search'') search_schema [(js ''pattern'', JNum (js ''7'')), (js ''limit'', JString (js '' 10'')), (js ''x'', JNull)] =
     ([(js ''pattern'', JString (js ''7'')), (js ''limit'', JNum (js ''10'')), (js ''x'', JNull), (js ''paths'', JArray [JString (js ''.'')])],
      [ScalarToString (js ''pattern''), MissingDefault (js ''paths''), StringToNumber (js ''limit'')]) \<and>
   map_get [(js ''pattern'', JString (js ''7'')), (js ''limit'', JNum (js ''10'')), (js ''x'', JNull), (js ''paths'', JArray [JString (js ''.'')])]
     (js ''x'') = Some JNull"
proof -
  let ?args = "[(js ''pattern'', JNum (js ''7'')), (js ''limit'', JString (js '' 10'')), (js ''x'', JNull)]"
  have r: "fixupToolArgs Some (js ''search'') search_schema ?args =
     ([(js ''pattern'', JString (js ''7'')), (js ''limit'', JNum (js ''10'')), (js ''x'', JNull), (js ''paths'', JArray [JString (js ''.'')])],
      [ScalarToString (js ''pattern''), MissingDefault (js ''paths''), StringToNumber (js ''limit'')])" by code_simp
  have "json_ok search_schema" by code_simp
  moreover have "js ''x'' \<notin> fst ` set (json_entries (json_field search_schema (js ''properties'')))" by code_simp
  moreover have "map_get ?args (js ''x'') = Some JNull" by code_simp
  ultimately show ?thesis using fixup_reports_changes [OF _ r] r by metis
qed

text \<open>
  Arguments that are valid are not always left alone: where a string or a boolean is expected, the
  boolean becomes a string.  And a repair can leave what it must not: the first element of an array
  stands for a string, whatever it is.
\<close>

definition flag_schema :: json where
  "flag_schema = JObject
     [(js ''type'', JString (js ''object'')),
      (js ''properties'', JObject [(js ''flag'', JObject [(js ''type'', JArray [JString (js ''string''), JString (js ''boolean'')])])])]"

lemma valid_boolean_changed:
  "fixupToolArgs Some (js ''t'') flag_schema [(js ''flag'', JBool True)] =
     ([(js ''flag'', JString (js ''true''))], [ScalarToString (js ''flag'')])"
  by code_simp

lemma first_element_not_string:
  "fixupToolArgs Some (js ''search'') search_schema [(js ''pattern'', JArray [JNull]), (js ''paths'', JArray [])] =
     ([(js ''pattern'', JNull), (js ''paths'', JArray [])], [ArrayToFirst (js ''pattern'')])"
  by code_simp

end
