(* ===== verification/Snowflake.thy ===== *)
theory Snowflake
  imports Json "HOL-Library.Word" "HOL-Library.List_Lexorder" "HOL-Library.Product_Lexorder"
begin

text \<open>
  The identifiers of sessions and tasks: \<open>packages/utils/src/snowflake.ts\<close>.  A snowflake is sixteen
  hex digits with the milliseconds since an epoch in front of a sequence of 22 bits.  The bitwise
  operators of the language work on 32 bits, so they are operations on words; a time before the
  epoch is not modelled.
\<close>

unbundle bit_operations_syntax

section \<open>The code\<close>

definition EPOCH :: nat where "EPOCH = 1420070400000"

definition MAX_SEQ :: nat where "MAX_SEQ = 0x3fffff"

text \<open>\<open>hex_unit\<close> is an entry of the table \<open>HEX4\<close>.\<close>

definition formatParts :: "nat \<Rightarrow> nat \<Rightarrow> jstring" where
  "formatParts dt seq =
     (let dtLo = dt mod 1024;
          hi = (dt - dtLo) div 1024;
          lo = push_bit 22 (of_nat dtLo) OR of_nat seq :: 32 word;
          hi1 = drop_bit 16 (of_nat hi) AND 0xffff :: 32 word;
          hi2 = of_nat hi AND 0xffff :: 32 word;
          lo1 = drop_bit 16 lo AND 0xffff;
          lo2 = lo AND 0xffff
      in hex_unit (unat hi1) @ hex_unit (unat hi2) @ hex_unit (unat lo1) @ hex_unit (unat lo2))"

text \<open>\<open>Number.parseInt(s, 16)\<close> for a string of hex digits.\<close>

definition hex_digit_value :: "nat \<Rightarrow> nat" where
  "hex_digit_value c = (if c \<le> 57 then c - 48 else if c \<le> 70 then c - 55 else c - 87)"

definition parse_hex :: "jstring \<Rightarrow> nat" where
  "parse_hex s = foldl (\<lambda>n c. n * 16 + hex_digit_value c) 0 s"

definition toBigInt :: "jstring \<Rightarrow> nat" where
  "toBigInt v = (let hi = parse_hex (Prelude.slice v 0 8); lo = parse_hex (Prelude.slice v 8 16) in push_bit 32 hi OR lo)"

definition getSequence :: "jstring \<Rightarrow> nat" where
  "getSequence v = unat (of_nat (parse_hex (Prelude.slice v 8 16)) AND of_nat MAX_SEQ :: 32 word)"

definition getTimestamp :: "jstring \<Rightarrow> nat" where
  "getTimestamp v = drop_bit 22 (toBigInt v) + EPOCH"

definition snowflake_valid :: "jstring \<Rightarrow> bool" where
  "snowflake_valid v \<longleftrightarrow> length v = 16 \<and> list_all (\<lambda>c. 48 \<le> c \<and> c \<le> 57 \<or> 97 \<le> c \<and> c \<le> 102) v"

text \<open>\<open>Source\<close>: its state is the sequence number.\<close>

definition source_set :: "nat \<Rightarrow> nat" where
  "source_set v = unat (of_nat v AND of_nat MAX_SEQ :: 32 word)"

definition generate :: "nat \<Rightarrow> nat \<Rightarrow> jstring \<times> nat" where
  "generate timestamp sequence =
     (let seq = source_set (sequence + 1); dt = timestamp - EPOCH in (formatParts dt seq, seq))"

definition lowerbound :: "nat \<Rightarrow> jstring" where "lowerbound time = formatParts (time - EPOCH) 0"

definition upperbound :: "nat \<Rightarrow> jstring" where "upperbound time = formatParts (time - EPOCH) MAX_SEQ"

section \<open>Hex digits\<close>

lemma snowflake_digit_facts:
  assumes "n < 16"
  shows "hex_digit_value (hex_digit n) = n" "48 \<le> hex_digit n \<and> hex_digit n \<le> 57 \<or> 97 \<le> hex_digit n \<and> hex_digit n \<le> 102"
  using assms by (auto simp: hex_digit_def hex_digit_value_def)

lemma hex_digit_less: "\<lbrakk>m < 16; n < 16\<rbrakk> \<Longrightarrow> hex_digit m < hex_digit n \<longleftrightarrow> m < n"
  by (auto simp: hex_digit_def)

text \<open>The digits of a number, the most significant first.\<close>

fun hex_digits :: "nat \<Rightarrow> nat \<Rightarrow> jstring" where
  "hex_digits 0 n = []"
| "hex_digits (Suc k) n = hex_digit (n div 16 ^ k) # hex_digits k (n mod 16 ^ k)"

lemma length_hex_digits [simp]: "length (hex_digits k n) = k"
  by (induction k arbitrary: n) simp_all

lemma parse_acc: "foldl (\<lambda>n c. n * 16 + hex_digit_value c) a s = a * 16 ^ length s + parse_hex s"
proof (induction s arbitrary: a)
  case (Cons c s)
  have "foldl (\<lambda>n c. n * 16 + hex_digit_value c) a (c # s) = (a * 16 + hex_digit_value c) * 16 ^ length s + parse_hex s"
    using Cons [of "a * 16 + hex_digit_value c"] by simp
  moreover have "parse_hex (c # s) = hex_digit_value c * 16 ^ length s + parse_hex s"
    using Cons [of "hex_digit_value c"] by (simp add: parse_hex_def)
  ultimately show ?case by (simp add: algebra_simps)
qed (simp add: parse_hex_def)

lemma parse_Cons: "parse_hex (c # s) = hex_digit_value c * 16 ^ length s + parse_hex s"
  using parse_acc [of "hex_digit_value c" s] by (simp add: parse_hex_def)

lemma div_digit: "n < 16 ^ Suc k \<Longrightarrow> n div 16 ^ k < 16" for n k :: nat
  by (simp add: less_mult_imp_div_less)

lemma parse_hex_digits: "n < 16 ^ k \<Longrightarrow> parse_hex (hex_digits k n) = n"
proof (induction k arbitrary: n)
  case (Suc k)
  have "parse_hex (hex_digits k (n mod 16 ^ k)) = n mod 16 ^ k" by (rule Suc.IH) simp
  then show ?case using snowflake_digit_facts(1) [OF div_digit [OF Suc.prems]] by (simp add: parse_Cons div_mult_mod_eq)
qed (simp add: parse_hex_def)

lemma hex_digits_range:
  "n < 16 ^ k \<Longrightarrow> list_all (\<lambda>c. 48 \<le> c \<and> c \<le> 57 \<or> 97 \<le> c \<and> c \<le> 102) (hex_digits k n)"
proof (induction k arbitrary: n)
  case (Suc k)
  then show ?case using snowflake_digit_facts(2) [OF div_digit [OF Suc.prems]] by simp
qed simp

text \<open>Strings of the same length are ordered as the numbers they write.\<close>

lemma hex_digits_less: "\<lbrakk>m < 16 ^ k; n < 16 ^ k\<rbrakk> \<Longrightarrow> hex_digits k m < hex_digits k n \<longleftrightarrow> m < n"
proof (induction k arbitrary: m n)
  case (Suc k)
  let ?a = "m div 16 ^ k" and ?b = "n div 16 ^ k"
  have d: "?a < 16" "?b < 16" using Suc.prems div_digit by blast+
  have ih: "hex_digits k (m mod 16 ^ k) < hex_digits k (n mod 16 ^ k) \<longleftrightarrow> m mod 16 ^ k < n mod 16 ^ k"
    by (rule Suc.IH) simp_all
  have e: "hex_digit ?a = hex_digit ?b \<longleftrightarrow> ?a = ?b" using hex_digit_less d by (metis linorder_neq_iff)
  have "m < n \<longleftrightarrow> ?a < ?b \<or> ?a = ?b \<and> m mod 16 ^ k < n mod 16 ^ k"
  proof -
    have "m = ?a * 16 ^ k + m mod 16 ^ k" "n = ?b * 16 ^ k + n mod 16 ^ k" by (simp_all only: div_mult_mod_eq)
    moreover have "?a < ?b \<Longrightarrow> m < n" using div_less_mono by (metis div_le_mono leD leI)
    moreover have "?b < ?a \<Longrightarrow> n < m" by (metis div_le_mono leD leI)
    ultimately show ?thesis by (metis add_less_cancel_left linorder_neqE_nat order_less_asym)
  qed
  then show ?case using hex_digit_less [OF d] ih e by simp
qed simp

lemma hex_digits_append: "n < 16 ^ (j + k) \<Longrightarrow> hex_digits (j + k) n = hex_digits j (n div 16 ^ k) @ hex_digits k (n mod 16 ^ k)"
proof (induction j arbitrary: n)
  case (Suc j)
  have "n mod 16 ^ (j + k) div 16 ^ k = n div 16 ^ k mod 16 ^ j"
    by (simp add: power_add mult.commute [of "16 ^ j"] mod_mult2_eq)
  moreover have "n mod 16 ^ (j + k) mod 16 ^ k = n mod 16 ^ k"
    by (rule mod_mod_cancel) (simp add: power_add)
  moreover have "n div 16 ^ (j + k) = n div 16 ^ k div 16 ^ j"
    by (metis div_mult2_eq mult.commute power_add)
  ultimately show ?case using Suc.IH [of "n mod 16 ^ (j + k)"] by simp
qed simp

lemma hex_unit_digits: "n < 65536 \<Longrightarrow> hex_unit n = hex_digits 4 n"
proof -
  assume n: "n < 65536"
  have "hex_digits (Suc (Suc (Suc (Suc 0)))) n = [hex_digit (n div 4096), hex_digit (n mod 4096 div 256),
      hex_digit (n mod 4096 mod 256 div 16), hex_digit (n mod 4096 mod 256 mod 16)]" by simp
  moreover have "n mod 4096 div 256 = n div 256 mod 16"
    using mod_mult2_eq [of n 256 16] by simp
  moreover have "n mod 4096 mod 256 = n mod 256" "n mod 256 mod 16 = n mod 16"
    by (rule mod_mod_cancel, simp)+
  moreover have "n mod 256 div 16 = n div 16 mod 16"
    using mod_mult2_eq [of n 16 16] by simp
  moreover have "n div 4096 mod 16 = n div 4096" using n by simp
  moreover have "Suc (Suc (Suc (Suc 0))) = 4" by simp
  ultimately show ?thesis by (simp only: hex_unit_def)
qed

section \<open>The words\<close>

lemma low_half: "unat (w AND 0xffff) = unat w mod 65536" for w :: "32 word"
proof -
  have "w AND 0xffff = take_bit 16 w" by (simp add: take_bit_eq_mask mask_eq_exp_minus_1)
  then have "unat (w AND 0xffff) = take_bit 16 (unat w)" by (simp only: unsigned_take_bit_eq)
  then show ?thesis by (simp add: take_bit_eq_mod)
qed

lemma high_half: "unat (drop_bit 16 w AND 0xffff) = unat w div 65536" for w :: "32 word"
proof -
  have "unat (drop_bit 16 w) = unat w div 65536" by (simp only: unat_drop_bit_eq) (simp add: drop_bit_eq_div)
  moreover have "unat w < 65536 * 65536" using unsigned_less [of w] by simp
  then have "unat w div 65536 < 65536" by (simp add: less_mult_imp_div_less)
  ultimately show ?thesis by (simp add: low_half)
qed

lemma packed_low:
  assumes "a < 1024" "seq \<le> MAX_SEQ"
  shows "unat (push_bit 22 (of_nat a) OR of_nat seq :: 32 word) = a * 4194304 + seq"
proof -
  have s: "seq < 4194304" using assms(2) by (simp add: MAX_SEQ_def)
  have "push_bit 22 (of_nat a) OR of_nat seq = (of_nat (push_bit 22 a OR seq) :: 32 word)"
    by (simp only: of_nat_or_eq of_nat_push_bit)
  moreover have "push_bit 22 a OR seq = push_bit 22 a + seq"
  proof (rule disjunctive_add_eq_or [symmetric])
    have "take_bit 22 seq = seq" using s by (simp add: take_bit_nat_eq_self)
    then have b: "bit seq n \<Longrightarrow> n < 22" for n by (metis bit_take_bit_iff)
    show "push_bit 22 a AND seq = 0" by (rule bit_eqI) (auto simp: bit_simps dest: b)
  qed
  ultimately have "push_bit 22 (of_nat a) OR of_nat seq = (of_nat (a * 4194304 + seq) :: 32 word)"
    by (simp only: push_bit_eq_mult) simp
  moreover have "a * 4194304 + seq < 2 ^ 32" using assms(1) s by simp
  ultimately show ?thesis by (simp only: unat_of_nat) simp
qed

section \<open>A snowflake is one number\<close>

lemma hex_two_words:
  assumes "n = a * 4294967296 + b" "a < 4294967296" "b < 4294967296"
  shows "hex_digits 16 n = hex_digits 8 a @ hex_digits 8 b"
  using hex_digits_append [of n 8 8] assms by simp

text \<open>The bounds: 42 bits of milliseconds (until the year 2154) and 22 bits of sequence.\<close>

lemma formatParts_digits:
  assumes "dt < 2 ^ 42" "seq \<le> MAX_SEQ"
  shows "formatParts dt seq = hex_digits 16 (dt * 4194304 + seq)"
proof -
  let ?lo = "dt mod 1024 * 4194304 + seq" and ?hi = "dt div 1024"
  have s: "seq < 4194304" using assms(2) by (simp add: MAX_SEQ_def)
  have hi: "?hi < 4294967296" using assms(1) by (simp add: less_mult_imp_div_less)
  have "dt mod 1024 < 1024" by simp
  then have lo: "?lo < 4294967296" using s by simp
  have n: "dt * 4194304 + seq = ?hi * 4294967296 + ?lo"
  proof -
    show ?thesis using div_mult_mod_eq [of dt 1024] by linarith
  qed
  have whi: "unat (of_nat ?hi :: 32 word) = ?hi" using hi by (simp only: unat_of_nat) simp
  have half: "hex_digits (4 + 4) m = hex_unit (m div 65536) @ hex_unit (m mod 65536)" if "m < 4294967296" for m
    using hex_digits_append [of m 4 4] hex_unit_digits [of "m div 65536"] hex_unit_digits [of "m mod 65536"] that
    by (simp add: less_mult_imp_div_less)
  have h: "(dt - dt mod 1024) div 1024 = ?hi" by (simp add: minus_mod_eq_mult_div)
  have p: "unat (push_bit 22 (of_nat (dt mod 1024)) OR of_nat seq :: 32 word) = ?lo"
    by (rule packed_low [OF _ assms(2)]) simp
  have "formatParts dt seq =
      hex_unit (?hi div 65536) @ hex_unit (?hi mod 65536) @ hex_unit (?lo div 65536) @ hex_unit (?lo mod 65536)"
    unfolding formatParts_def Let_def high_half h whi p unfolding low_half whi p by (rule refl)
  also have "\<dots> = hex_digits (4 + 4) ?hi @ hex_digits (4 + 4) ?lo" using half [OF hi] half [OF lo] by simp
  also have "\<dots> = hex_digits 16 (dt * 4194304 + seq)"
    using hex_two_words [OF n hi lo] by simp
  finally show ?thesis by simp
qed

lemma part_bound: "\<lbrakk>dt < 2 ^ 42; seq \<le> MAX_SEQ\<rbrakk> \<Longrightarrow> dt * 4194304 + seq < 16 ^ 16"
  by (simp add: MAX_SEQ_def)

lemma slice_halves:
  assumes "n < 16 ^ 16"
  shows "parse_hex (Prelude.slice (hex_digits 16 n) 0 8) = n div 4294967296"
    and "parse_hex (Prelude.slice (hex_digits 16 n) 8 16) = n mod 4294967296"
proof -
  have d: "hex_digits 16 n = hex_digits 8 (n div 4294967296) @ hex_digits 8 (n mod 4294967296)"
    using hex_digits_append [of n 8 8] assms by simp
  have "n div 4294967296 < 16 ^ 8" using assms by (simp add: less_mult_imp_div_less)
  then show "parse_hex (Prelude.slice (hex_digits 16 n) 0 8) = n div 4294967296"
    unfolding d by (simp add: Prelude.slice_def parse_hex_digits)
  have "n mod 4294967296 < 16 ^ 8" by simp
  then show "parse_hex (Prelude.slice (hex_digits 16 n) 8 16) = n mod 4294967296"
    unfolding d by (simp add: Prelude.slice_def parse_hex_digits)
qed

lemma low_bits: "unat (of_nat n AND of_nat MAX_SEQ :: 32 word) = n mod 4194304"
proof -
  have "(of_nat n AND of_nat MAX_SEQ :: 32 word) = take_bit 22 (of_nat n)"
    by (simp add: take_bit_eq_mask mask_eq_exp_minus_1 MAX_SEQ_def)
  then have "unat (of_nat n AND of_nat MAX_SEQ :: 32 word) = take_bit 22 (unat (of_nat n :: 32 word))"
    by (simp only: unsigned_take_bit_eq)
  also have "\<dots> = n mod 2 ^ 32 mod 4194304" by (simp only: unat_of_nat) (simp add: take_bit_eq_mod)
  also have "\<dots> = n mod 4194304" by (rule mod_mod_cancel) simp
  finally show ?thesis .
qed

lemma joined_halves: "push_bit 32 (n div 4294967296) OR n mod 4294967296 = (n :: nat)"
proof -
  have "n mod 4294967296 = take_bit 32 n" "n div 4294967296 = drop_bit 32 n"
    by (simp_all add: take_bit_eq_mod drop_bit_eq_div)
  then show ?thesis by (simp only: bits_ident disjunctive_add_eq_or [symmetric])
      (rule bit_eqI, auto simp: bit_simps)
qed

text \<open>
  C32: a snowflake carries its time and its sequence number, for 139 years from the epoch.  It is sixteen
  lower case hex digits, both parts are read back, and snowflakes are ordered, as strings, by time
  and then by sequence number, between the bounds of their millisecond.
\<close>

theorem snowflake_roundtrip:
  assumes "dt < 2 ^ 42" "seq \<le> MAX_SEQ" "dt' < 2 ^ 42" "seq' \<le> MAX_SEQ"
  shows "snowflake_valid (formatParts dt seq) \<and> getSequence (formatParts dt seq) = seq \<and>
    getTimestamp (formatParts dt seq) = dt + EPOCH \<and>
    (formatParts dt seq < formatParts dt' seq' \<longleftrightarrow> dt < dt' \<or> dt = dt' \<and> seq < seq') \<and>
    lowerbound (dt + EPOCH) \<le> formatParts dt seq \<and> formatParts dt seq \<le> upperbound (dt + EPOCH)"
proof -
  have less: "formatParts a i < formatParts b j \<longleftrightarrow> a < b \<or> a = b \<and> i < j"
    if "a < 2 ^ 42" "i \<le> MAX_SEQ" "b < 2 ^ 42" "j \<le> MAX_SEQ" for a i b j
    using that hex_digits_less [OF part_bound part_bound, of a i b j]
    by (simp add: formatParts_digits MAX_SEQ_def) linarith
  let ?n = "dt * 4194304 + seq"
  have f: "formatParts dt seq = hex_digits 16 ?n" by (rule formatParts_digits [OF assms(1,2)])
  have b: "?n < 16 ^ 16" by (rule part_bound [OF assms(1,2)])
  have s: "seq < 4194304" using assms(2) by (simp add: MAX_SEQ_def)
  have "snowflake_valid (formatParts dt seq)" using hex_digits_range [OF b] by (simp add: snowflake_valid_def f)
  moreover have "getSequence (formatParts dt seq) = seq"
    using s by (simp add: getSequence_def f slice_halves [OF b] low_bits mod_mod_cancel)
  moreover have "getTimestamp (formatParts dt seq) = dt + EPOCH"
    using s by (simp only: getTimestamp_def toBigInt_def Let_def f slice_halves [OF b] joined_halves) (simp add: drop_bit_eq_div)
  moreover have "\<not> formatParts dt seq < lowerbound (dt + EPOCH)" "\<not> upperbound (dt + EPOCH) < formatParts dt seq"
    using less [OF assms(1,2,1), of 0] less [OF assms(1) _ assms(1,2), of MAX_SEQ] assms(2)
    by (simp_all add: lowerbound_def upperbound_def)
  ultimately show ?thesis using less [OF assms] by (meson leI)
qed

theorem snowflake_roundtrip_witness:
  "formatParts 1000 7 < formatParts 1000 8 \<and> getTimestamp (formatParts 1000 7) = 1420070401000 \<and>
    getSequence (formatParts 1000 7) = 7"
  using snowflake_roundtrip [of 1000 7 1000 8] by (simp add: MAX_SEQ_def EPOCH_def)

text \<open>When the sequence wraps within a millisecond the order is lost.\<close>

lemma wrapped_sequence: "snd (generate EPOCH MAX_SEQ) = 0 \<and> fst (generate EPOCH MAX_SEQ) < formatParts 0 MAX_SEQ"
  by code_simp

end
