(* ===== verification/Secrets.thy ===== *)
theory Secrets
  imports Session_Types "HOL-Library.Sublist"
begin

text \<open>
  The obfuscation of secrets in what is sent to a provider:
  \<open>packages/coding-agent/src/secrets/obfuscator.ts\<close>.  The two hash functions of the runtime and the
  matches that a compiled pattern finds in a text are parameters.  The entries come from
  \<open>packages/coding-agent/src/secrets/index.ts\<close>, with the parsed files and the environment as arguments.
\<close>

unbundle bit_operations_syntax

section \<open>Placeholders\<close>

definition HASH :: nat where "HASH = 35"

definition REPLACEMENT_CHARS :: jstring where
  "REPLACEMENT_CHARS = js ''ABCDEFGHIJKLMNOPQRSTUVWXYZabcdefghijklmnopqrstuvwxyz0123456789''"

text \<open>\<open>hash\<close> is \<open>Bun.hash\<close> as a natural number.\<close>

fun replacement_loop :: "nat \<Rightarrow> nat \<Rightarrow> nat \<Rightarrow> jstring" where
  "replacement_loop 0 i h = []"
| "replacement_loop (Suc n) i h =
     (let h' = h XOR ((i + 1) * 0x9e3779b97f4a7c15)
      in REPLACEMENT_CHARS ! (h' mod length REPLACEMENT_CHARS) # replacement_loop n (i + 1) h')"

definition generateDeterministicReplacement :: "(jstring \<Rightarrow> nat) \<Rightarrow> jstring \<Rightarrow> jstring" where
  "generateDeterministicReplacement hash secret = replacement_loop (length secret) 0 (hash secret)"

definition HASH_CHARS :: jstring where "HASH_CHARS = js ''ABCDEFGHIJKLMNOPQRSTUVWXYZ0123456789''"

fun tag_loop :: "nat \<Rightarrow> nat \<Rightarrow> jstring" where
  "tag_loop 0 v = []"
| "tag_loop (Suc n) v = HASH_CHARS ! (v mod length HASH_CHARS) # tag_loop n (v div length HASH_CHARS)"

text \<open>\<open>xx\<close> is \<open>Bun.hash.xxHash32\<close> of the index as text, with the seed of the code.\<close>

definition buildPlaceholder :: "(nat \<Rightarrow> nat) \<Rightarrow> nat \<Rightarrow> jstring" where
  "buildPlaceholder xx index = [HASH] @ tag_loop 4 (xx index) @ [HASH]"

section \<open>Replacing text\<close>

text \<open>\<open>result.indexOf(search, i)\<close>.\<close>

definition index_from :: "jstring \<Rightarrow> jstring \<Rightarrow> nat \<Rightarrow> nat option" where
  "index_from s w i = find (starts_with_at s w) [i..<Suc (length s)]"

lemma index_from_Some:
  "index_from s w i = Some k \<Longrightarrow> i \<le> k \<and> k \<le> length s \<and> take (length w) (drop k s) = w \<and>
    (\<forall>j. i \<le> j \<and> j < k \<longrightarrow> take (length w) (drop j s) \<noteq> w)"
  by (auto simp: index_from_def find_Some_iff starts_with_at_def nth_append simp del: upt_Suc)
    (metis add.commute add_less_cancel_left le_Suc_ex)

function replace_loop :: "jstring \<Rightarrow> jstring \<Rightarrow> jstring \<Rightarrow> nat \<Rightarrow> jstring" where
  "replace_loop result search replacement i =
     (if length search = 0 then result
      else case index_from result search i of
        None \<Rightarrow> result
      | Some idx \<Rightarrow>
          replace_loop (take idx result @ replacement @ drop (idx + length search) result) search replacement
            (idx + length replacement))"
  by pat_completeness auto
termination
proof (relation "measure (\<lambda>(result, search, replacement, i). length result - i)", goal_cases)
  case (2 result search replacement i idx)
  note k = index_from_Some [OF 2(2)]
  then have l: "idx + length search \<le> length result"
    by (metis add.commute le_diff_conv2 length_drop length_take min.cobounded1)
  have "i \<le> idx" using k by simp
  then have "length result - (idx + length search) < length result - i" using l 2(1) by linarith
  then show ?case using l by simp
qed simp

declare replace_loop.simps [simp del]

definition replaceAll :: "jstring \<Rightarrow> jstring \<Rightarrow> jstring \<Rightarrow> jstring" where
  "replaceAll text search replacement = replace_loop text search replacement 0"

section \<open>The obfuscator\<close>

datatype secret_mode = Obfuscate | Replace

record secret_entry =
  se_regex :: bool
  se_content :: jstring
  se_mode :: "secret_mode option"
  se_replacement :: "jstring option"
  se_flags :: "jstring option"

record regex_entry =
  re_matches :: "jstring \<Rightarrow> jstring list"
  re_mode :: secret_mode
  re_replacement :: "jstring option"

record obfuscator =
  ob_plainMappings :: "(jstring \<times> nat) list"
  ob_regexEntries :: "regex_entry list"
  ob_obfuscateMappings :: "(nat \<times> jstring \<times> jstring) list"
  ob_replaceMappings :: "(jstring \<times> jstring) list"
  ob_deobfuscateMap :: "(jstring \<times> jstring) list"
  ob_nextIndex :: nat
  ob_hasAny :: bool

text \<open>
  The runtime: its hashes and \<open>compileSecretRegex\<close>, which gives the texts that repeated \<open>exec\<close> matches,
  or fails.
\<close>

record runtime =
  rt_xx :: "nat \<Rightarrow> nat"
  rt_hash :: "jstring \<Rightarrow> nat"
  rt_compile :: "jstring \<Rightarrow> jstring option \<Rightarrow> (jstring \<Rightarrow> jstring list) option"

definition remember :: "runtime \<Rightarrow> nat \<Rightarrow> jstring \<Rightarrow> obfuscator \<Rightarrow> obfuscator" where
  "remember rt index secret ob =
     (let placeholder = buildPlaceholder (rt_xx rt) index
      in ob\<lparr>ob_obfuscateMappings := map_set (ob_obfuscateMappings ob) index (secret, placeholder),
            ob_deobfuscateMap := map_set (ob_deobfuscateMap ob) placeholder secret,
            ob_nextIndex := index + 1\<rparr>)"

definition add_entry :: "runtime \<Rightarrow> obfuscator \<Rightarrow> secret_entry \<Rightarrow> obfuscator" where
  "add_entry rt ob e =
     (let mode = (case se_mode e of Some m \<Rightarrow> m | None \<Rightarrow> Obfuscate)
      in if \<not> se_regex e
         then (if mode = Obfuscate
               then (remember rt (ob_nextIndex ob) (se_content e) ob)
                 \<lparr>ob_plainMappings := map_set (ob_plainMappings ob) (se_content e) (ob_nextIndex ob)\<rparr>
               else ob\<lparr>ob_replaceMappings := map_set (ob_replaceMappings ob) (se_content e)
                      (case se_replacement e of Some r \<Rightarrow> r
                       | None \<Rightarrow> generateDeterministicReplacement (rt_hash rt) (se_content e))\<rparr>)
         else (case rt_compile rt (se_content e) (se_flags e) of
                 Some f \<Rightarrow> ob\<lparr>ob_regexEntries := ob_regexEntries ob @
                     [\<lparr>re_matches = f, re_mode = mode, re_replacement = se_replacement e\<rparr>]\<rparr>
               | None \<Rightarrow> ob))"

definition new_obfuscator :: "runtime \<Rightarrow> secret_entry list \<Rightarrow> obfuscator" where
  "new_obfuscator rt entries =
     (foldl (add_entry rt)
        \<lparr>ob_plainMappings = [], ob_regexEntries = [], ob_obfuscateMappings = [], ob_replaceMappings = [],
         ob_deobfuscateMap = [], ob_nextIndex = 0, ob_hasAny = False\<rparr> entries)
       \<lparr>ob_hasAny := length entries > 0\<rparr>"

definition hasSecrets :: "obfuscator \<Rightarrow> bool" where "hasSecrets ob = ob_hasAny ob"

definition longest_first :: "(jstring \<times> 'a) list \<Rightarrow> (jstring \<times> 'a) list" where
  "longest_first m = sort_key (\<lambda>kv. - int (length (fst kv))) m"

definition findObfuscateIndex :: "obfuscator \<Rightarrow> jstring \<Rightarrow> nat option" where
  "findObfuscateIndex ob secret =
     (case map_get (ob_plainMappings ob) secret of
        Some i \<Rightarrow> Some i
      | None \<Rightarrow> map_option fst (find (\<lambda>m. fst (snd m) = secret) (ob_obfuscateMappings ob)))"

text \<open>One match of a pattern; an index that is found always has a mapping.\<close>

definition hide_match :: "runtime \<Rightarrow> regex_entry \<Rightarrow> jstring \<times> obfuscator \<Rightarrow> jstring \<Rightarrow> jstring \<times> obfuscator" where
  "hide_match rt e st matchValue =
     (let (result, ob) = st
      in if re_mode e = Replace
         then (replaceAll result matchValue
                 (case re_replacement e of Some r \<Rightarrow> r | None \<Rightarrow> generateDeterministicReplacement (rt_hash rt) matchValue), ob)
         else let (index, ob') = (case findObfuscateIndex ob matchValue of
                  Some i \<Rightarrow> (i, ob)
                | None \<Rightarrow> (ob_nextIndex ob, remember rt (ob_nextIndex ob) matchValue ob))
           in (replaceAll result matchValue (snd (the (map_get (ob_obfuscateMappings ob') index))), ob'))"

definition hide_regex :: "runtime \<Rightarrow> jstring \<times> obfuscator \<Rightarrow> regex_entry \<Rightarrow> jstring \<times> obfuscator" where
  "hide_regex rt st e =
     foldl (hide_match rt e) st (foldl set_add [] (filter (\<lambda>m. length m > 0) (re_matches e (fst st))))"

text \<open>The plain secrets: first those that are replaced for good, then those that get placeholders.\<close>

definition hide_plain :: "obfuscator \<Rightarrow> jstring \<Rightarrow> jstring" where
  "hide_plain ob text =
     (let replaced = foldl (\<lambda>r (secret, replacement). replaceAll r secret replacement) text (longest_first (ob_replaceMappings ob))
      in foldl (\<lambda>r (secret, index). replaceAll r secret (snd (the (map_get (ob_obfuscateMappings ob) index))))
           replaced (longest_first (ob_plainMappings ob)))"

definition obfuscate :: "runtime \<Rightarrow> jstring \<Rightarrow> obfuscator \<Rightarrow> jstring \<times> obfuscator" where
  "obfuscate rt text ob =
     (if \<not> ob_hasAny ob then (text, ob)
      else foldl (hide_regex rt) (hide_plain ob text, ob) (ob_regexEntries ob))"

definition tag_char :: "nat \<Rightarrow> bool" where
  "tag_char c \<longleftrightarrow> 65 \<le> c \<and> c \<le> 90 \<or> 48 \<le> c \<and> c \<le> 57"

text \<open>The pattern of a placeholder at the start of a text, and the replacement of all its matches.\<close>

definition placeholder_at :: "jstring \<Rightarrow> bool" where
  "placeholder_at s \<longleftrightarrow> length s \<ge> 6 \<and> s ! 0 = HASH \<and> list_all tag_char (take 4 (drop 1 s)) \<and> s ! 5 = HASH"

function restore_text :: "(jstring \<Rightarrow> jstring) \<Rightarrow> jstring \<Rightarrow> jstring" where
  "restore_text f s =
     (case s of
        [] \<Rightarrow> []
      | c # cs \<Rightarrow> (if placeholder_at s then f (take 6 s) @ restore_text f (drop 6 s) else c # restore_text f cs))"
  by pat_completeness auto
termination by (relation "measure (\<lambda>(f, s). length s)") (auto simp: placeholder_at_def)

declare restore_text.simps [simp del]

definition deobfuscate :: "obfuscator \<Rightarrow> jstring \<Rightarrow> jstring" where
  "deobfuscate ob text =
     (if \<not> ob_hasAny ob \<or> HASH \<notin> set text then text
      else restore_text (\<lambda>m. case map_get (ob_deobfuscateMap ob) m of Some s \<Rightarrow> s | None \<Rightarrow> m) text)"

fun deepWalkStrings :: "(jstring \<Rightarrow> jstring) \<Rightarrow> json \<Rightarrow> json" where
  "deepWalkStrings f (JString s) = JString (f s)"
| "deepWalkStrings f (JArray vs) = JArray (map (deepWalkStrings f) vs)"
| "deepWalkStrings f (JObject kvs) = JObject (map (\<lambda>kv. (fst kv, deepWalkStrings f (snd kv))) kvs)"
| "deepWalkStrings f v = v"

definition deobfuscateObject :: "obfuscator \<Rightarrow> json \<Rightarrow> json" where
  "deobfuscateObject ob v = (if \<not> ob_hasAny ob then v else deepWalkStrings (deobfuscate ob) v)"

text \<open>The content of an assistant message, every string of it restored.\<close>

fun deobfuscate_block :: "obfuscator \<Rightarrow> assistant_block \<Rightarrow> assistant_block" where
  "deobfuscate_block ob (TextBlock t) = TextBlock (deobfuscate ob t)"
| "deobfuscate_block ob (ThinkingBlock t sig) = ThinkingBlock (deobfuscate ob t) (map_option (deobfuscate ob) sig)"
| "deobfuscate_block ob (RedactedThinking d) = RedactedThinking (deobfuscate ob d)"
| "deobfuscate_block ob (ToolCall c) =
     ToolCall \<lparr>tc_id = deobfuscate ob (tc_id c), tc_name = deobfuscate ob (tc_name c),
       tc_arguments = map (\<lambda>kv. (fst kv, deobfuscateObject ob (snd kv))) (tc_arguments c)\<rparr>"

definition deobfuscate_blocks :: "obfuscator \<Rightarrow> assistant_block list \<Rightarrow> assistant_block list" where
  "deobfuscate_blocks ob bs = (if \<not> ob_hasAny ob then bs else map (deobfuscate_block ob) bs)"

section \<open>Loading the entries\<close>

text \<open>\<open>packages/coding-agent/src/secrets/index.ts\<close>; the parsed file is a JSON value.\<close>

definition string_or_absent :: "json option \<Rightarrow> bool" where
  "string_or_absent v = (case v of None \<Rightarrow> True | Some (JString _) \<Rightarrow> True | _ \<Rightarrow> False)"

definition json_string :: "json option \<Rightarrow> jstring option" where
  "json_string v = (case v of Some (JString s) \<Rightarrow> Some s | _ \<Rightarrow> None)"

definition validateEntry :: "runtime \<Rightarrow> json \<Rightarrow> bool" where
  "validateEntry rt entry =
     (case entry of
        JObject _ \<Rightarrow>
          (let type = json_field entry (js ''type''); content = json_string (json_field entry (js ''content''));
               mode = json_field entry (js ''mode'')
           in if type \<noteq> Some (JString (js ''plain'')) \<and> type \<noteq> Some (JString (js ''regex'')) then False
              else if content = None \<or> content = Some [] then False
              else if mode \<noteq> None \<and> mode \<noteq> Some (JString (js ''obfuscate'')) \<and> mode \<noteq> Some (JString (js ''replace'')) then False
              else if \<not> string_or_absent (json_field entry (js ''replacement'')) then False
              else if \<not> string_or_absent (json_field entry (js ''flags'')) then False
              else if type = Some (JString (js ''regex''))
              then rt_compile rt (the content) (json_string (json_field entry (js ''flags''))) \<noteq> None
              else True)
      | _ \<Rightarrow> False)"

definition entry_of_json :: "json \<Rightarrow> secret_entry" where
  "entry_of_json entry =
     \<lparr>se_regex = (json_field entry (js ''type'') = Some (JString (js ''regex''))),
      se_content = the (json_string (json_field entry (js ''content''))),
      se_mode = Some (if json_field entry (js ''mode'') = Some (JString (js ''replace'')) then Replace else Obfuscate),
      se_replacement = json_string (json_field entry (js ''replacement'')),
      se_flags = json_string (json_field entry (js ''flags''))\<rparr>"

text \<open>\<open>None\<close>: the file cannot be read or parsed.\<close>

definition loadSecretsFile :: "runtime \<Rightarrow> json option \<Rightarrow> secret_entry list" where
  "loadSecretsFile rt raw =
     (case raw of Some (JArray vs) \<Rightarrow> map entry_of_json (filter (validateEntry rt) vs) | _ \<Rightarrow> [])"

definition loadSecrets :: "runtime \<Rightarrow> json option \<Rightarrow> json option \<Rightarrow> secret_entry list" where
  "loadSecrets rt project global =
     (let globalEntries = loadSecretsFile rt global; projectEntries = loadSecretsFile rt project
      in if globalEntries = [] then projectEntries
         else if projectEntries = [] then globalEntries
         else filter (\<lambda>e. se_content e \<notin> set (map se_content projectEntries)) globalEntries @ projectEntries)"

definition MIN_ENV_VALUE_LENGTH :: nat where "MIN_ENV_VALUE_LENGTH = 8"

definition env_words :: "jstring list" where
  "env_words = map js [''KEY'', ''SECRET'', ''TOKEN'', ''PASSWORD'', ''PASS'', ''AUTH'', ''CREDENTIAL'', ''PRIVATE'', ''OAUTH'']"

text \<open>\<open>SECRET_ENV_PATTERNS.test(name)\<close>: one of the words in either case, before an underscore or the end.\<close>

definition ascii_upper :: "jstring \<Rightarrow> jstring" where
  "ascii_upper s = map (\<lambda>c. if 97 \<le> c \<and> c \<le> 122 then c - 32 else c) s"

definition secret_name :: "jstring \<Rightarrow> bool" where
  "secret_name name =
     list_ex (\<lambda>i. list_ex (\<lambda>w. starts_with_at (ascii_upper name) w i \<and>
       (i + length w = length name \<or> starts_with_at name (js ''_'') (i + length w))) env_words) [0..<length name]"

text \<open>The environment is the list of its names and values.\<close>

fun collect_env :: "jstring list \<Rightarrow> (jstring \<times> jstring) list \<Rightarrow> secret_entry list" where
  "collect_env seen [] = []"
| "collect_env seen ((name, v) # env) =
     (if length v < MIN_ENV_VALUE_LENGTH then collect_env seen env
      else if \<not> secret_name name then collect_env seen env
      else if v \<in> set seen then collect_env seen env
      else \<lparr>se_regex = False, se_content = v, se_mode = Some Obfuscate, se_replacement = None, se_flags = None\<rparr>
        # collect_env (set_add seen v) env)"

definition collectEnvSecrets :: "(jstring \<times> jstring) list \<Rightarrow> secret_entry list" where
  "collectEnvSecrets env = collect_env [] env"

section \<open>Messages\<close>

text \<open>\<open>obfuscateMessages\<close>: the obfuscator learns as it goes.\<close>

fun obfuscate_contents :: "runtime \<Rightarrow> content list \<Rightarrow> obfuscator \<Rightarrow> content list \<times> obfuscator" where
  "obfuscate_contents rt [] ob = ([], ob)"
| "obfuscate_contents rt (TextContent t # bs) ob =
     (let (t', ob1) = obfuscate rt t ob; (bs', ob2) = obfuscate_contents rt bs ob1 in (TextContent t' # bs', ob2))"
| "obfuscate_contents rt (b # bs) ob = (let (bs', ob') = obfuscate_contents rt bs ob in (b # bs', ob'))"

fun obfuscate_blocks :: "runtime \<Rightarrow> assistant_block list \<Rightarrow> obfuscator \<Rightarrow> assistant_block list \<times> obfuscator" where
  "obfuscate_blocks rt [] ob = ([], ob)"
| "obfuscate_blocks rt (TextBlock t # bs) ob =
     (let (t', ob1) = obfuscate rt t ob; (bs', ob2) = obfuscate_blocks rt bs ob1 in (TextBlock t' # bs', ob2))"
| "obfuscate_blocks rt (b # bs) ob = (let (bs', ob') = obfuscate_blocks rt bs ob in (b # bs', ob'))"

definition obfuscate_message :: "runtime \<Rightarrow> message \<Rightarrow> obfuscator \<Rightarrow> message \<times> obfuscator" where
  "obfuscate_message rt m ob =
     (case m of
        UserMessage (Blocks bs) \<Rightarrow> (let (bs', ob') = obfuscate_contents rt bs ob in (UserMessage (Blocks bs'), ob'))
      | DeveloperMessage (Blocks bs) \<Rightarrow> (let (bs', ob') = obfuscate_contents rt bs ob in (DeveloperMessage (Blocks bs'), ob'))
      | AssistantMessage a \<Rightarrow>
          (let (bs', ob') = obfuscate_blocks rt (am_content a) ob in (AssistantMessage (a\<lparr>am_content := bs'\<rparr>), ob'))
      | ToolResultMessage r \<Rightarrow>
          (let (bs', ob') = obfuscate_contents rt (tr_content r) ob in (ToolResultMessage (r\<lparr>tr_content := bs'\<rparr>), ob'))
      | _ \<Rightarrow> (m, ob))"

fun obfuscateMessages :: "runtime \<Rightarrow> message list \<Rightarrow> obfuscator \<Rightarrow> message list \<times> obfuscator" where
  "obfuscateMessages rt [] ob = ([], ob)"
| "obfuscateMessages rt (m # ms) ob =
     (let (m', ob1) = obfuscate_message rt m ob; (ms', ob2) = obfuscateMessages rt ms ob1 in (m' # ms', ob2))"

end
