(* ===== verification/Secrets_Correct.thy ===== *)
theory Secrets_Correct
  imports Secrets
begin

text \<open>
  What the obfuscation of \<open>Secrets\<close> guarantees: no text that is sent contains a hidden secret
  (\<open>no_secret_leaks\<close>), and a hidden text is restored (\<open>secrets_roundtrip\<close>).  Both rest on one view of
  \<open>replaceAll\<close>, the function \<open>rep\<close> that replaces from left to right, and on the shape of the placeholders:
  a mark cannot hold a part of a good secret.  The examples at the end show what the hypotheses exclude.
\<close>

section \<open>Replacing text, from left to right\<close>

function rep :: "jstring \<Rightarrow> jstring \<Rightarrow> jstring \<Rightarrow> jstring" where
  "rep w r s =
     (if w = [] then s
      else case s of
        [] \<Rightarrow> []
      | c # cs \<Rightarrow> (if take (length w) s = w then r @ rep w r (drop (length w) s) else c # rep w r cs))"
  by pat_completeness auto
termination by (relation "measure (\<lambda>(w, r, s). length s)") auto

declare rep.simps [simp del]

lemma rep_simps [simp]:
  "rep w r [] = []"
  "\<lbrakk>w \<noteq> []; take (length w) (c # cs) \<noteq> w\<rbrakk> \<Longrightarrow> rep w r (c # cs) = c # rep w r cs"
  by (simp_all add: rep.simps)

lemma rep_here: "w \<noteq> [] \<Longrightarrow> rep w r (w @ s) = r @ rep w r s"
  by (cases w) (simp_all add: rep.simps)

lemma rep_first:
  assumes "w \<noteq> []" "\<forall>j<k. take (length w) (drop j s) \<noteq> w" "take (length w) (drop k s) = w"
  shows "rep w r s = take k s @ r @ rep w r (drop (k + length w) s)"
  using assms(2,3)
proof (induction k arbitrary: s)
  case 0
  then have "s = w @ drop (length w) s" by (metis append_take_drop_id drop0)
  then show ?case using rep_here [OF assms(1), of r "drop (length w) s"] by simp
next
  case (Suc k)
  obtain c cs where s: "s = c # cs" using Suc.prems(2) assms(1) by (cases s) auto
  have "take (length w) (c # cs) \<noteq> w" using Suc.prems(1) s by force
  moreover have "\<forall>j<k. take (length w) (drop j cs) \<noteq> w" using Suc.prems(1) s by auto
  ultimately show ?case using Suc.IH [of cs] Suc.prems(2) s assms(1) by simp
qed

lemma rep_none: "\<lbrakk>w \<noteq> []; \<forall>j\<le>length s. take (length w) (drop j s) \<noteq> w\<rbrakk> \<Longrightarrow> rep w r s = s"
proof (induction s)
  case (Cons c cs)
  have "\<forall>j\<le>length cs. take (length w) (drop j cs) \<noteq> w" using Cons.prems(2) by auto
  moreover have "take (length w) (c # cs) \<noteq> w" using Cons.prems(2) by force
  ultimately show ?case using Cons by simp
qed simp

lemma index_from_None: "index_from s w i = None \<longleftrightarrow> (\<forall>j. i \<le> j \<and> j \<le> length s \<longrightarrow> take (length w) (drop j s) \<noteq> w)"
  by (auto simp: index_from_def find_None_iff starts_with_at_def simp del: upt_Suc)

lemma replace_loop_rep:
  "\<lbrakk>w \<noteq> []; i \<le> length s\<rbrakk> \<Longrightarrow> replace_loop s w r i = take i s @ rep w r (drop i s)"
proof (induction s w r i rule: replace_loop.induct)
  case (1 s w r i)
  show ?case
  proof (cases "index_from s w i")
    case None
    then have "\<forall>j\<le>length (drop i s). take (length w) (drop j (drop i s)) \<noteq> w"
      using 1(3) by (auto simp: index_from_None)
    then have "rep w r (drop i s) = drop i s" by (rule rep_none [OF 1(2)])
    then show ?thesis using None by (simp add: replace_loop.simps)
  next
    case (Some k)
    note f = index_from_Some [OF Some]
    let ?s = "take k s @ r @ drop (k + length w) s"
    have "replace_loop s w r i = replace_loop ?s w r (k + length r)" using Some 1(2) by (simp add: replace_loop.simps [of s])
    also have "\<dots> = take (k + length r) ?s @ rep w r (drop (k + length r) ?s)"
      using 1(1) [OF _ Some] 1(2) f by simp
    also have "\<dots> = take k s @ r @ rep w r (drop (k + length w) s)" using f by simp
    also have "\<dots> = take i s @ rep w r (drop i s)"
    proof -
      have "\<forall>j<k - i. take (length w) (drop j (drop i s)) \<noteq> w" using f by auto
      moreover have "take (length w) (drop (k - i) (drop i s)) = w" using f by simp
      ultimately have "rep w r (drop i s) = take (k - i) (drop i s) @ r @ rep w r (drop (k - i + length w) (drop i s))"
        by (rule rep_first [OF 1(2)])
      moreover have "take i s @ take (k - i) (drop i s) = take k s" using f by (metis le_add_diff_inverse take_add)
      moreover have "drop (k - i + length w) (drop i s) = drop (k + length w) s" using f by simp
      ultimately show ?thesis by (metis append.assoc)
    qed
    finally show ?thesis .
  qed
qed

lemma replaceAll_rep: "replaceAll s w r = rep w r s"
  using replace_loop_rep [of w 0 s r] by (cases "w = []") (simp_all add: replaceAll_def replace_loop.simps rep.simps)

section \<open>Marks\<close>

definition mark :: "jstring \<Rightarrow> bool" where
  "mark p \<longleftrightarrow> (\<exists>tag. p = HASH # tag @ [HASH] \<and> length tag = 4 \<and> list_all tag_char tag)"

text \<open>A secret that cannot be found inside a placeholder or across its ends.\<close>

definition good :: "jstring \<Rightarrow> bool" where
  "good w \<longleftrightarrow> w \<noteq> [] \<and> HASH \<notin> set w \<and> \<not> (length w \<le> 4 \<and> list_all tag_char w)"

lemma tag_loop_props: "length (tag_loop n v) = n \<and> list_all tag_char (tag_loop n v)"
proof (induction n arbitrary: v)
  case (Suc n)
  have "list_all tag_char HASH_CHARS" "length HASH_CHARS = 36" by code_simp+
  then have "tag_char (HASH_CHARS ! (v mod length HASH_CHARS))" by (simp add: list_all_length)
  then show ?case using Suc.IH by simp
qed simp

lemma mark_placeholder [simp]: "mark (buildPlaceholder xx i)"
  using tag_loop_props [of 4 "xx i"] by (auto simp: mark_def buildPlaceholder_def)

lemma hash_not_tag [simp]: "\<not> tag_char HASH"
  by (simp add: tag_char_def HASH_def)

lemma hash_split:
  assumes "sublist w (x @ HASH # y)" "HASH \<notin> set w"
  shows "sublist w x \<or> sublist w y"
proof -
  consider "sublist w x" | "sublist w (HASH # y)" | w1 w2 where "w = w1 @ w2" "suffix w1 x" "prefix w2 (HASH # y)"
    using assms(1) by (auto simp: sublist_append)
  then show ?thesis
  proof cases
    case 2
    then show ?thesis using assms(2) by (auto simp: sublist_Cons_right prefix_Cons)
  next
    case 3
    then have "w2 = []" using assms(2) by (auto simp: prefix_Cons)
    then show ?thesis using 3 by auto
  qed simp
qed

lemma mark_split:
  assumes "sublist w (x @ p @ y)" "good w" "mark p"
  shows "sublist w x \<or> sublist w y"
proof -
  obtain tag where t: "p = HASH # tag @ [HASH]" "length tag = 4" "list_all tag_char tag" using assms(3) by (auto simp: mark_def)
  have h: "HASH \<notin> set w" using assms(2) by (simp add: good_def)
  have "sublist w x \<or> sublist w (tag @ HASH # y)" using hash_split [OF _ h, of x "tag @ HASH # y"] assms(1) t by simp
  then have "sublist w x \<or> sublist w tag \<or> sublist w y" using hash_split [OF _ h] by blast
  moreover have "\<not> sublist w tag"
  proof
    assume "sublist w tag"
    then have "length w \<le> 4" "list_all tag_char w" using t sublist_length_le [of w tag] by (auto simp: list_all_iff dest: set_mono_sublist)
    then show False using assms(2) by (simp add: good_def)
  qed
  ultimately show ?thesis by blast
qed

lemma sublist_at: "sublist w s \<longleftrightarrow> (\<exists>j\<le>length s. take (length w) (drop j s) = w)"
proof
  assume "sublist w s"
  then obtain a b where "s = a @ w @ b" by (auto simp: sublist_def)
  then show "\<exists>j\<le>length s. take (length w) (drop j s) = w" by (intro exI [of _ "length a"]) simp
next
  assume "\<exists>j\<le>length s. take (length w) (drop j s) = w"
  then obtain j where "take (length w) (drop j s) = w" by blast
  then have "s = take j s @ w @ drop (length w) (drop j s)" by (metis append_take_drop_id)
  then show "sublist w s" by (metis sublist_appendI)
qed

text \<open>What is left between the marks is a part of the text without the replaced one.\<close>

lemma rep_pieces:
  assumes "good w" "mark p" "v \<noteq> []" "sublist w (rep v p s)"
  shows "\<exists>piece. sublist piece s \<and> sublist w piece \<and> \<not> sublist v piece"
  using assms(4)
proof (induction "length s" arbitrary: s rule: less_induct)
  case less
  show ?case
  proof (cases "index_from s v 0")
    case None
    then have "\<forall>j\<le>length s. take (length v) (drop j s) \<noteq> v" by (simp add: index_from_None)
    then have "rep v p s = s" "\<not> sublist v s" using rep_none [OF assms(3)] by (auto simp: sublist_at)
    then show ?thesis using less.prems by auto
  next
    case (Some k)
    note f = index_from_Some [OF Some]
    have r: "rep v p s = take k s @ p @ rep v p (drop (k + length v) s)"
      using rep_first [OF assms(3), of k s p] f by simp
    have n: "\<not> sublist v (take k s)"
    proof
      assume "sublist v (take k s)"
      then obtain a b where ab: "take k s = a @ v @ b" by (auto simp: sublist_def)
      have "s = a @ v @ b @ drop k s" by (metis ab append.assoc append_take_drop_id)
      then have "take (length v) (drop (length a) s) = v" by (metis append_eq_conv_conj)
      moreover have "length a < k" using arg_cong [OF ab, of length] assms(3) f by (cases v) auto
      ultimately show False using f by auto
    qed
    from mark_split [OF less.prems [unfolded r] assms(1,2)] show ?thesis
    proof
      assume "sublist w (take k s)"
      then show ?thesis using n by (intro exI [of _ "take k s"]) (simp add: sublist_take)
    next
      assume a: "sublist w (rep v p (drop (k + length v) s))"
      have "length (drop (k + length v) s) < length s"
        using f assms(3) by (metis add.commute add_leD2 diff_less drop_all length_drop length_greater_0_conv less_add_same_cancel1 list.size(3) not_less take_all_iff take_eq_Nil trans_le_add1 zero_less_diff)
      from less.hyps [OF this a] show ?thesis by (metis sublist_drop sublist_order.order.trans)
    qed
  qed
qed


lemma rep_clean:
  assumes "good w" "mark p" "v = w \<or> \<not> sublist w s"
  shows "\<not> sublist w (rep v p s)"
proof (cases "v = []")
  case True
  then show ?thesis using assms by (auto simp: rep.simps good_def)
next
  case False
  then show ?thesis using rep_pieces [OF assms(1,2) False, of s] assms(3) by (metis sublist_order.order.trans)
qed

lemma foldl_invariant:
  "\<lbrakk>P s; \<And>s x. \<lbrakk>P s; x \<in> set xs\<rbrakk> \<Longrightarrow> P (f s x)\<rbrakk> \<Longrightarrow> P (foldl f s xs)"
  by (induction xs arbitrary: s) auto

lemma fold_rep_clean:
  assumes "good w" "\<forall>(v, i)\<in>set ms. mark (p i)" "w \<in> fst ` set ms \<or> \<not> sublist w s"
  shows "\<not> sublist w (foldl (\<lambda>r (v, i). rep v (p i) r) s ms)"
  using assms(2,3)
proof (induction ms arbitrary: s)
  case (Cons m ms)
  obtain v i where m: "m = (v, i)" by fastforce
  have "w \<in> fst ` set ms \<or> \<not> sublist w (rep v (p i) s)"
    using Cons.prems rep_clean [OF assms(1), of "p i" v s] m by auto
  then show ?case using Cons.IH [of "rep v (p i) s"] Cons.prems(1) m by simp
qed simp

section \<open>What the obfuscator knows\<close>

definition ob_ok :: "runtime \<Rightarrow> obfuscator \<Rightarrow> bool" where
  "ob_ok rt ob \<longleftrightarrow>
     (\<forall>i s p. map_get (ob_obfuscateMappings ob) i = Some (s, p) \<longrightarrow>
        p = buildPlaceholder (rt_xx rt) i \<and> i < ob_nextIndex ob) \<and>
     (\<forall>s i. map_get (ob_plainMappings ob) s = Some i \<longrightarrow> (\<exists>p. map_get (ob_obfuscateMappings ob) i = Some (s, p))) \<and>
     distinct (map_keys (ob_obfuscateMappings ob)) \<and> distinct (map_keys (ob_plainMappings ob))"

lemma ob_okD:
  assumes "ob_ok rt ob"
  shows "map_get (ob_obfuscateMappings ob) i = Some (s, p) \<Longrightarrow> p = buildPlaceholder (rt_xx rt) i \<and> i < ob_nextIndex ob"
  using assms by (simp add: ob_ok_def)

lemma ob_plain:
  assumes "ob_ok rt ob" "map_get (ob_plainMappings ob) s = Some i"
  shows "map_get (ob_obfuscateMappings ob) i = Some (s, buildPlaceholder (rt_xx rt) i)"
proof -
  obtain p where "map_get (ob_obfuscateMappings ob) i = Some (s, p)" using assms unfolding ob_ok_def by blast
  then show ?thesis using ob_okD [OF assms(1)] by simp
qed

lemma remember_fields [simp]:
  "ob_plainMappings (remember rt i s ob) = ob_plainMappings ob"
  "ob_regexEntries (remember rt i s ob) = ob_regexEntries ob"
  "ob_replaceMappings (remember rt i s ob) = ob_replaceMappings ob"
  "ob_hasAny (remember rt i s ob) = ob_hasAny ob"
  "ob_nextIndex (remember rt i s ob) = i + 1"
  "ob_obfuscateMappings (remember rt i s ob) = map_set (ob_obfuscateMappings ob) i (s, buildPlaceholder (rt_xx rt) i)"
  "ob_deobfuscateMap (remember rt i s ob) = map_set (ob_deobfuscateMap ob) (buildPlaceholder (rt_xx rt) i) s"
  by (simp_all add: remember_def Let_def)

lemma fresh_index:
  assumes "ob_ok rt ob"
  shows "map_get (ob_obfuscateMappings ob) (ob_nextIndex ob) = None"
proof (rule ccontr)
  assume "map_get (ob_obfuscateMappings ob) (ob_nextIndex ob) \<noteq> None"
  then obtain s p where "map_get (ob_obfuscateMappings ob) (ob_nextIndex ob) = Some (s, p)" by auto
  then show False using ob_okD [OF assms] by blast
qed

lemma remember_ok:
  assumes "ob_ok rt ob"
  shows "ob_ok rt (remember rt (ob_nextIndex ob) s ob)"
  unfolding ob_ok_def
proof (intro conjI allI impI, goal_cases)
  case (1 i t p)
  then show ?case using ob_okD [OF assms, of i t p] by (simp add: map_get_set split: if_splits)
next
  case (2 i t p)
  then show ?case using ob_okD [OF assms, of i t p] by (simp add: map_get_set split: if_splits)
next
  case (3 t i)
  then have "map_get (ob_obfuscateMappings ob) i = Some (t, buildPlaceholder (rt_xx rt) i)" using ob_plain [OF assms] by simp
  then show ?case using fresh_index [OF assms] by (auto simp: map_get_set)
qed (use assms in \<open>simp_all add: ob_ok_def distinct_map_set\<close>)

lemma plain_ok:
  assumes "ob_ok rt ob" "map_get (ob_obfuscateMappings ob) i = Some (s, p)"
  shows "ob_ok rt (ob\<lparr>ob_plainMappings := map_set (ob_plainMappings ob) s i\<rparr>)"
  using assms by (simp add: ob_ok_def map_get_set distinct_map_set)

lemma add_entry_ok:
  assumes "ob_ok rt ob"
  shows "ob_ok rt (add_entry rt ob e)"
proof -
  let ?m = "remember rt (ob_nextIndex ob) (se_content e) ob"
  have "ob_ok rt (?m\<lparr>ob_plainMappings := map_set (ob_plainMappings ?m) (se_content e) (ob_nextIndex ob)\<rparr>)"
    by (rule plain_ok [OF remember_ok [OF assms]]) simp
  moreover have "ob_ok rt (ob\<lparr>ob_replaceMappings := ms\<rparr>)" "ob_ok rt (ob\<lparr>ob_regexEntries := rs\<rparr>)" for ms rs
    using assms by (simp_all add: ob_ok_def)
  ultimately show ?thesis using assms by (simp add: add_entry_def Let_def split: option.split)
qed

lemma find_index:
  assumes "ob_ok rt ob" "findObfuscateIndex ob s = Some i"
  shows "map_get (ob_obfuscateMappings ob) i = Some (s, buildPlaceholder (rt_xx rt) i)"
proof (cases "map_get (ob_plainMappings ob) s")
  case None
  then obtain m where m: "find (\<lambda>m. fst (snd m) = s) (ob_obfuscateMappings ob) = Some m" "i = fst m"
    using assms(2) by (auto simp: findObfuscateIndex_def)
  then have "m \<in> set (ob_obfuscateMappings ob)" "fst (snd m) = s" by (auto simp: find_Some_iff)
  then have "map_get (ob_obfuscateMappings ob) i = Some (s, snd (snd m))"
    using assms(1) m(2) by (cases m) (auto simp: ob_ok_def map_get_def map_keys_def)
  then show ?thesis using ob_okD [OF assms(1)] by metis
next
  case (Some j)
  then show ?thesis using assms ob_plain [OF assms(1)] by (simp add: findObfuscateIndex_def)
qed

text \<open>One match: either it was known, or it gets the next placeholder.\<close>

lemma hide_match_cases:
  assumes "ob_ok rt ob" "re_mode e \<noteq> Replace"
  obtains i where "hide_match rt e (r, ob) v = (rep v (buildPlaceholder (rt_xx rt) i) r, ob)"
      "map_get (ob_obfuscateMappings ob) i = Some (v, buildPlaceholder (rt_xx rt) i)"
  | "hide_match rt e (r, ob) v =
      (rep v (buildPlaceholder (rt_xx rt) (ob_nextIndex ob)) r, remember rt (ob_nextIndex ob) v ob)"
proof (cases "findObfuscateIndex ob v")
  case None
  then show ?thesis using that(2) assms by (simp add: hide_match_def replaceAll_rep)
next
  case (Some i)
  then show ?thesis using that(1) [of i] assms find_index [OF assms(1) Some] by (simp add: hide_match_def replaceAll_rep)
qed


lemma hide_match_hash: "re_mode e = Replace \<Longrightarrow> snd (hide_match rt e st v) = snd st"
  by (cases st) (simp add: hide_match_def)

lemma hide_match_ok:
  assumes "ob_ok rt (snd st)"
  shows "ob_ok rt (snd (hide_match rt e st v))"
proof (cases "re_mode e = Replace")
  case True
  then show ?thesis using assms by (simp add: hide_match_hash)
next
  case False
  obtain r ob where st: "st = (r, ob)" by fastforce
  have ok: "ob_ok rt ob" using assms st by simp
  show ?thesis by (cases rule: hide_match_cases [OF ok False, of r v]) (simp_all add: st ok remember_ok)
qed

lemma hide_match_entries: "ob_regexEntries (snd (hide_match rt e st v)) = ob_regexEntries (snd st) \<and>
    ob_hasAny (snd (hide_match rt e st v)) = ob_hasAny (snd st) \<and>
    ob_plainMappings (snd (hide_match rt e st v)) = ob_plainMappings (snd st) \<and>
    ob_replaceMappings (snd (hide_match rt e st v)) = ob_replaceMappings (snd st)"
  by (cases st) (auto simp: hide_match_def Let_def split: option.split)

lemma hide_regex_ok: "ob_ok rt (snd st) \<Longrightarrow> ob_ok rt (snd (hide_regex rt st e))"
  unfolding hide_regex_def by (rule foldl_invariant [where P = "\<lambda>st. ob_ok rt (snd st)"]) (auto intro: hide_match_ok)

lemma obfuscate_ok:
  assumes "ob_ok rt ob"
  shows "ob_ok rt (snd (obfuscate rt text ob))"
proof -
  have "ob_ok rt (snd (foldl (hide_regex rt) (r, ob) es))" for r es
    by (rule foldl_invariant [where P = "\<lambda>st. ob_ok rt (snd st)"]) (simp_all add: assms hide_regex_ok)
  then show ?thesis using assms by (simp add: obfuscate_def)
qed

definition same_entries :: "obfuscator \<Rightarrow> obfuscator \<Rightarrow> bool" where
  "same_entries ob ob' \<longleftrightarrow> ob_regexEntries ob' = ob_regexEntries ob \<and> ob_hasAny ob' = ob_hasAny ob \<and>
     ob_plainMappings ob' = ob_plainMappings ob \<and> ob_replaceMappings ob' = ob_replaceMappings ob"

lemma same_entries_trans: "\<lbrakk>same_entries a b; same_entries b c\<rbrakk> \<Longrightarrow> same_entries a c"
  by (simp add: same_entries_def)

lemma hide_regex_entries: "same_entries ob (snd st) \<Longrightarrow> same_entries ob (snd (hide_regex rt st e))"
  unfolding hide_regex_def
  by (rule foldl_invariant [where P = "\<lambda>st. same_entries ob (snd st)"]) (simp_all add: hide_match_entries same_entries_def)

lemma obfuscate_entries: "same_entries ob (snd (obfuscate rt text ob))"
proof -
  have o: "same_entries ob ob" by (simp add: same_entries_def)
  have "same_entries ob (snd (foldl (hide_regex rt) (r, ob) es))" for r es
    by (rule foldl_invariant [where P = "\<lambda>st. same_entries ob (snd st)"]) (simp_all add: o hide_regex_entries)
  then show ?thesis using o by (simp add: obfuscate_def)
qed

text \<open>The obfuscator after it has been used on some texts.\<close>

definition learned :: "runtime \<Rightarrow> secret_entry list \<Rightarrow> jstring list \<Rightarrow> obfuscator" where
  "learned rt entries texts = foldl (\<lambda>ob t. snd (obfuscate rt t ob)) (new_obfuscator rt entries) texts"

lemma new_ok: "ob_ok rt (new_obfuscator rt entries)"
proof -
  have any: "ob_ok rt (ob\<lparr>ob_hasAny := b\<rparr>) = ob_ok rt ob" for ob b by (simp add: ob_ok_def)
  have add: "ob_ok rt (foldl (add_entry rt) ob entries)" if "ob_ok rt ob" for ob
    using that by (rule foldl_invariant [where P = "ob_ok rt"]) (rule add_entry_ok)
  have start: "ob_ok rt \<lparr>ob_plainMappings = [], ob_regexEntries = [], ob_obfuscateMappings = [], ob_replaceMappings = [],
         ob_deobfuscateMap = [], ob_nextIndex = 0, ob_hasAny = False\<rparr>" by (simp add: ob_ok_def map_get_def map_keys_def)
  show ?thesis unfolding new_obfuscator_def any by (rule add [OF start])
qed

lemma learned_ok: "ob_ok rt (learned rt entries texts)"
  unfolding learned_def by (rule foldl_invariant) (auto intro: new_ok obfuscate_ok)

lemma learned_entries: "same_entries (new_obfuscator rt entries) (learned rt entries texts)"
  unfolding learned_def
proof (rule foldl_invariant [where P = "same_entries (new_obfuscator rt entries)"])
  show "same_entries (new_obfuscator rt entries) (new_obfuscator rt entries)" by (simp add: same_entries_def)
next
  fix ob t assume "same_entries (new_obfuscator rt entries) ob"
  then show "same_entries (new_obfuscator rt entries) (snd (obfuscate rt t ob))"
    by (rule same_entries_trans) (rule obfuscate_entries)
qed

definition obfuscates :: "secret_entry \<Rightarrow> bool" where
  "obfuscates e \<longleftrightarrow> se_mode e \<noteq> Some Replace"

lemma plain_added: "ob_plainMappings (add_entry rt ob e) =
    (if \<not> se_regex e \<and> obfuscates e then map_set (ob_plainMappings ob) (se_content e) (ob_nextIndex ob) else ob_plainMappings ob)"
  by (cases "se_mode e"; cases "the (se_mode e)") (simp_all add: add_entry_def Let_def obfuscates_def split: option.split)

lemma plain_entries:
  "set (map_keys (ob_plainMappings (foldl (add_entry rt) ob es))) =
    set (map_keys (ob_plainMappings ob)) \<union> se_content ` {e \<in> set es. \<not> se_regex e \<and> obfuscates e}"
  by (induction es arbitrary: ob) (auto simp: plain_added keys_map_set_set)

lemma new_plain:
  "set (map_keys (ob_plainMappings (new_obfuscator rt es))) = se_content ` {e \<in> set es. \<not> se_regex e \<and> obfuscates e}"
  using plain_entries [of rt _ es] by (simp add: new_obfuscator_def) (simp add: map_keys_def)

lemma new_regex:
  assumes "\<forall>e\<in>set es. se_regex e \<longrightarrow> obfuscates e"
  shows "\<forall>r\<in>set (ob_regexEntries (new_obfuscator rt es)). re_mode r \<noteq> Replace"
proof -
  have "\<forall>r\<in>set (ob_regexEntries (foldl (add_entry rt) ob es)). re_mode r \<noteq> Replace"
    if "\<forall>r\<in>set (ob_regexEntries ob). re_mode r \<noteq> Replace" for ob :: obfuscator
    using that
  proof (rule foldl_invariant)
    fix ob :: obfuscator and e assume o: "\<forall>r\<in>set (ob_regexEntries ob). re_mode r \<noteq> Replace" and "e \<in> set es"
    then have "se_regex e \<longrightarrow> obfuscates e" using assms by blast
    then show "\<forall>r\<in>set (ob_regexEntries (add_entry rt ob e)). re_mode r \<noteq> Replace"
      using o by (cases "se_mode e") (auto simp: add_entry_def Let_def obfuscates_def split: option.split)
  qed
  from this [of "\<lparr>ob_plainMappings = [], ob_regexEntries = [], ob_obfuscateMappings = [], ob_replaceMappings = [],
         ob_deobfuscateMap = [], ob_nextIndex = 0, ob_hasAny = False\<rparr>"]
  show ?thesis by (simp add: new_obfuscator_def)
qed

lemma set_longest_first [simp]: "set (longest_first m) = set m"
  by (simp add: longest_first_def)

lemma hide_regex_clean:
  assumes "good w" "ob_ok rt (snd st)" "\<not> sublist w (fst st)" "re_mode e \<noteq> Replace"
  shows "ob_ok rt (snd (hide_regex rt st e)) \<and> \<not> sublist w (fst (hide_regex rt st e))"
  unfolding hide_regex_def
proof (rule foldl_invariant)
  show "ob_ok rt (snd st) \<and> \<not> sublist w (fst st)" using assms by simp
next
  fix s v assume s: "ob_ok rt (snd s) \<and> \<not> sublist w (fst s)"
  obtain r ob where st: "s = (r, ob)" by fastforce
  have ok: "ob_ok rt ob" and n: "\<not> sublist w r" using s st by auto
  have "\<not> sublist w (rep v (buildPlaceholder (rt_xx rt) i) r)" for i
    using rep_clean [OF assms(1) mark_placeholder] n by blast
  then show "ob_ok rt (snd (hide_match rt e s v)) \<and> \<not> sublist w (fst (hide_match rt e s v))"
    by (cases rule: hide_match_cases [OF ok assms(4), of r v]) (simp_all add: st ok remember_ok)
qed

lemma hidden_plain:
  assumes "ob_ok rt ob"
  shows "foldl (\<lambda>r (secret, index). replaceAll r secret (snd (the (map_get (ob_obfuscateMappings ob) index)))) s (longest_first (ob_plainMappings ob))
    = foldl (\<lambda>r (v, i). rep v (buildPlaceholder (rt_xx rt) i) r) s (longest_first (ob_plainMappings ob))"
proof (rule foldl_cong [OF refl refl])
  fix r x assume x: "x \<in> set (longest_first (ob_plainMappings ob))"
  have "distinct (map_keys (ob_plainMappings ob))" using assms by (simp add: ob_ok_def)
  then have "map_get (ob_plainMappings ob) (fst x) = Some (snd x)"
    using x by (simp add: map_get_def map_keys_def)
  then show "(case x of (secret, index) \<Rightarrow> replaceAll r secret (snd (the (map_get (ob_obfuscateMappings ob) index)))) =
      (case x of (v, i) \<Rightarrow> rep v (buildPlaceholder (rt_xx rt) i) r)"
    using ob_plain [OF assms] by (cases x) (simp add: replaceAll_rep)
qed

lemma text_hidden:
  assumes "\<forall>e\<in>set entries. se_regex e \<longrightarrow> obfuscates e"
    and "e \<in> set entries" "\<not> se_regex e" "obfuscates e" "good (se_content e)"
  shows "\<not> sublist (se_content e) (fst (obfuscate rt text (learned rt entries texts)))"
proof -
  let ?ob = "learned rt entries texts"
  note k = learned_ok [of rt entries texts]
  note s = learned_entries [of rt entries texts, unfolded same_entries_def]
  define r0 where "r0 = foldl (\<lambda>r (secret, replacement). replaceAll r secret replacement) text (longest_first (ob_replaceMappings ?ob))"
  define r1 where "r1 = foldl (\<lambda>r (v, i). rep v (buildPlaceholder (rt_xx rt) i) r) r0 (longest_first (ob_plainMappings ?ob))"
  have any: "ob_hasAny ?ob" using s assms(2) by (cases entries) (simp_all add: new_obfuscator_def)
  have "se_content e \<in> set (map_keys (ob_plainMappings ?ob))" using s new_plain [of rt entries] assms by auto
  then have "\<not> sublist (se_content e) r1" unfolding r1_def
    by (intro fold_rep_clean [OF assms(5)]) (auto simp: map_keys_def)
  then have start: "ob_ok rt (snd (r1, ?ob)) \<and> \<not> sublist (se_content e) (fst (r1, ?ob))" using k by simp
  have step: "ob_ok rt (snd (hide_regex rt st f)) \<and> \<not> sublist (se_content e) (fst (hide_regex rt st f))"
    if "ob_ok rt (snd st) \<and> \<not> sublist (se_content e) (fst st)" "f \<in> set (ob_regexEntries ?ob)" for st f
  proof (rule hide_regex_clean [OF assms(5)])
    show "re_mode f \<noteq> Replace" using that(2) s new_regex [OF assms(1), of rt] by metis
  qed (use that in simp_all)
  have "\<not> sublist (se_content e) (fst (foldl (hide_regex rt) (r1, ?ob) (ob_regexEntries ?ob)))"
    using foldl_invariant [where P = "\<lambda>st. ob_ok rt (snd st) \<and> \<not> sublist (se_content e) (fst st)" and f = "hide_regex rt", OF start]
      step by blast
  then show ?thesis using any by (simp add: obfuscate_def hide_plain_def Let_def hidden_plain [OF k] r0_def r1_def)
qed


text \<open>The texts that are looked at in a message.\<close>

fun content_text :: "content \<Rightarrow> jstring list" where
  "content_text (TextContent t) = [t]"
| "content_text (ImageContent d m) = []"

fun assistant_text :: "assistant_block \<Rightarrow> jstring list" where
  "assistant_text (TextBlock t) = [t]"
| "assistant_text b = []"

definition sent_texts :: "message \<Rightarrow> jstring list" where
  "sent_texts m =
     (case m of
        UserMessage (Blocks bs) \<Rightarrow> concat (map content_text bs)
      | DeveloperMessage (Blocks bs) \<Rightarrow> concat (map content_text bs)
      | AssistantMessage a \<Rightarrow> concat (map assistant_text (am_content a))
      | ToolResultMessage r \<Rightarrow> concat (map content_text (tr_content r))
      | _ \<Rightarrow> [])"

definition hidden_by :: "runtime \<Rightarrow> secret_entry list \<Rightarrow> jstring \<Rightarrow> bool" where
  "hidden_by rt entries t' \<longleftrightarrow> (\<exists>t texts. t' = fst (obfuscate rt t (learned rt entries texts)))"

definition learner :: "runtime \<Rightarrow> secret_entry list \<Rightarrow> obfuscator \<Rightarrow> bool" where
  "learner rt entries ob \<longleftrightarrow> (\<exists>texts. ob = learned rt entries texts)"

lemma learner_step:
  assumes "learner rt entries ob" "obfuscate rt t ob = (t', ob')"
  shows "learner rt entries ob' \<and> hidden_by rt entries t'"
proof -
  obtain texts where o: "ob = learned rt entries texts" using assms(1) by (auto simp: learner_def)
  then have "ob' = learned rt entries (texts @ [t])" using assms(2) by (simp add: learned_def)
  moreover have "t' = fst (obfuscate rt t (learned rt entries texts))" using assms(2) o by simp
  ultimately show ?thesis unfolding learner_def hidden_by_def by blast
qed

lemma contents_hidden:
  "learner rt entries ob \<Longrightarrow> learner rt entries (snd (obfuscate_contents rt bs ob)) \<and>
    (\<forall>t\<in>set (concat (map content_text (fst (obfuscate_contents rt bs ob)))). hidden_by rt entries t)"
proof (induction rt bs ob rule: obfuscate_contents.induct)
  case (2 rt t bs ob)
  obtain t' ob1 where o: "obfuscate rt t ob = (t', ob1)" by fastforce
  show ?case using 2(1) [OF o [symmetric] refl] learner_step [OF 2(2) o] o by (auto split: prod.splits)
next
  case (3 rt d m bs ob)
  then show ?case by (auto split: prod.splits)
qed simp

lemma blocks_hidden:
  "learner rt entries ob \<Longrightarrow> learner rt entries (snd (obfuscate_blocks rt bs ob)) \<and>
    (\<forall>t\<in>set (concat (map assistant_text (fst (obfuscate_blocks rt bs ob)))). hidden_by rt entries t)"
proof (induction rt bs ob rule: obfuscate_blocks.induct)
  case (2 rt t bs ob)
  obtain t' ob1 where o: "obfuscate rt t ob = (t', ob1)" by fastforce
  show ?case using 2(1) [OF o [symmetric] refl] learner_step [OF 2(2) o] o by (auto split: prod.splits)
qed (auto split: prod.splits)

lemma message_hidden:
  assumes "learner rt entries ob"
  shows "learner rt entries (snd (obfuscate_message rt m ob)) \<and>
    (\<forall>t\<in>set (sent_texts (fst (obfuscate_message rt m ob))). hidden_by rt entries t)"
  using assms contents_hidden [OF assms] blocks_hidden [OF assms]
  by (cases m) (auto simp: obfuscate_message_def sent_texts_def split_beta split: msg_content.splits)

lemma messages_hidden:
  "learner rt entries ob \<Longrightarrow>
    \<forall>t\<in>set (concat (map sent_texts (fst (obfuscateMessages rt ms ob)))). hidden_by rt entries t"
proof (induction ms arbitrary: ob)
  case (Cons m ms)
  show ?case using message_hidden [OF Cons.prems, of m] Cons.IH by (fastforce split: prod.splits)
qed simp

text \<open>
  C26: A secret that is to be obfuscated, is not empty, has no hash sign and is not a run of at most four tag characters is in no
  text block of the messages that are sent, whatever the obfuscator has seen before and whatever the other entries
  are, as long as no pattern has a replacement.
\<close>

theorem no_secret_leaks:
  assumes "\<forall>e\<in>set entries. se_regex e \<longrightarrow> obfuscates e"
    and "e \<in> set entries" "\<not> se_regex e" "obfuscates e" "good (se_content e)"
    and "t \<in> set (concat (map sent_texts (fst (obfuscateMessages rt messages (learned rt entries texts)))))"
  shows "\<not> sublist (se_content e) t"
proof -
  have "learner rt entries (learned rt entries texts)" unfolding learner_def by blast
  then have "hidden_by rt entries t" using messages_hidden assms(6) by blast
  then show ?thesis using text_hidden [OF assms(1-5)] by (auto simp: hidden_by_def)
qed

text \<open>Secrets of the environment: long enough to be good, unless they have a hash sign.\<close>

lemma collect_env_entries:
  "e \<in> set (collect_env seen env) \<Longrightarrow> \<not> se_regex e \<and> obfuscates e \<and> MIN_ENV_VALUE_LENGTH \<le> length (se_content e)"
  by (induction seen env rule: collect_env.induct) (auto simp: obfuscates_def split: if_splits)

lemma env_secret_good: "\<lbrakk>e \<in> set (collectEnvSecrets env); HASH \<notin> set (se_content e)\<rbrakk> \<Longrightarrow> good (se_content e)"
  using collect_env_entries [of e "[]" env] by (auto simp: collectEnvSecrets_def good_def MIN_ENV_VALUE_LENGTH_def)

lemma collect_env_distinct: "distinct (map se_content (collect_env seen env)) \<and> set (map se_content (collect_env seen env)) \<inter> set seen = {}"
  by (induction seen env rule: collect_env.induct) auto

lemma project_entries_win:
  "e \<in> set (loadSecrets rt project global) \<Longrightarrow>
     e \<in> set (loadSecretsFile rt project) \<or>
     e \<in> set (loadSecretsFile rt global) \<and> (\<forall>p\<in>set (loadSecretsFile rt project). se_content p \<noteq> se_content e)"
  by (auto simp: loadSecrets_def Let_def image_iff split: if_splits)

section \<open>A text and its coded form\<close>

text \<open>\<open>coded m s t\<close>: \<open>t\<close> is \<open>s\<close> with some parts replaced by marks that \<open>m\<close> maps back to them.\<close>

inductive coded :: "(jstring \<Rightarrow> jstring option) \<Rightarrow> jstring \<Rightarrow> jstring \<Rightarrow> bool" for m where
  coded_Nil: "coded m [] []"
| coded_plain: "coded m s t \<Longrightarrow> coded m (c # s) (c # t)"
| coded_mark: "\<lbrakk>mark p; m p = Some v; coded m s t\<rbrakk> \<Longrightarrow> coded m (v @ s) (p @ t)"

lemma coded_refl: "coded m s s"
  by (induction s) (auto intro: coded.intros)

lemma coded_mono: "\<lbrakk>coded m s t; \<And>p v. m p = Some v \<Longrightarrow> m' p = Some v\<rbrakk> \<Longrightarrow> coded m' s t"
  by (induction rule: coded.induct) (auto intro: coded.intros)

lemma mark_Cons: "mark p \<Longrightarrow> \<exists>p'. p = HASH # p'"
  by (auto simp: mark_def)

lemma coded_no_hash: "\<lbrakk>coded m s t; HASH \<notin> set t\<rbrakk> \<Longrightarrow> s = t"
  by (induction rule: coded.induct) (auto dest: mark_Cons)

lemma coded_prefix:
  "\<lbrakk>coded m s (v @ t); HASH \<notin> set v\<rbrakk> \<Longrightarrow> \<exists>s'. s = v @ s' \<and> coded m s' t"
proof (induction v arbitrary: s)
  case (Cons c v)
  from Cons.prems(1) show ?case
  proof (cases rule: coded.cases)
    case (coded_plain s' t' c')
    then show ?thesis using Cons.IH [of s'] Cons.prems(2) by auto
  next
    case (coded_mark p v' s' t')
    then have "c = HASH" using mark_Cons by fastforce
    then show ?thesis using Cons.prems(2) by simp
  qed simp
qed simp

lemma rep_skip:
  "\<lbrakk>w \<noteq> []; \<forall>j<k. take (length w) (drop j s) \<noteq> w; k \<le> length s\<rbrakk> \<Longrightarrow> rep w r s = take k s @ rep w r (drop k s)"
proof (induction k arbitrary: s)
  case (Suc k)
  obtain c cs where s: "s = c # cs" using Suc.prems(3) by (cases s) auto
  have "take (length w) (c # cs) \<noteq> w" using Suc.prems(2) s by force
  moreover have "\<forall>j<k. take (length w) (drop j cs) \<noteq> w" using Suc.prems(2) s by auto
  ultimately show ?case using Suc.IH [of cs] Suc.prems s by simp
qed simp

lemma rep_mark:
  assumes "good w" "mark q"
  shows "rep w r (q @ t) = q @ rep w r t"
proof -
  obtain tag where q: "q = HASH # tag @ [HASH]" "length tag = 4" "list_all tag_char tag" using assms(2) by (auto simp: mark_def)
  have w: "w \<noteq> []" "HASH \<notin> set w" "\<not> (length w \<le> 4 \<and> list_all tag_char w)" using assms(1) by (auto simp: good_def)
  have "take (length w) (drop j (q @ t)) \<noteq> w" if "j < 6" for j
  proof
    assume a: "take (length w) (drop j (q @ t)) = w"
    consider "j = 0" | "j = 5" | i where "j = Suc i" "i < 4" using \<open>j < 6\<close> by (cases j) force+
    then show False
    proof cases
      case 3
      then have d: "drop j (q @ t) = drop i tag @ HASH # t" using q by simp
      show False
      proof (cases "length w \<le> 4 - i")
        case True
        then have "w = take (length w) (drop i tag)" using a d q by simp
        moreover have "list_all tag_char (take (length w) (drop i tag))"
          using q(3) by (auto simp: list_all_iff dest!: in_set_takeD in_set_dropD)
        ultimately show False using w(3) True by simp
      next
        case False
        then have "HASH \<in> set (take (length w) (drop i tag @ HASH # t))" using q by (auto simp: take_Cons')
        then have "HASH \<in> set (take (length w) (drop j (q @ t)))" by (simp only: d)
        then show False using a w(2) by (simp only: a)
      qed
    qed (use a w q in \<open>cases w; simp\<close>)+
  qed
  then have "rep w r (q @ t) = take 6 (q @ t) @ rep w r (drop 6 (q @ t))" using q by (intro rep_skip [OF w(1)]) auto
  then show ?thesis using q by simp
qed

lemma coded_rep:
  assumes "good v" "mark p" "m p = Some v"
  shows "coded m s t \<Longrightarrow> coded m s (rep v p t)"
proof (induction "length t" arbitrary: s t rule: less_induct)
  case less
  have v: "v \<noteq> []" "HASH \<notin> set v" using assms(1) by (auto simp: good_def)
  show ?case
  proof (cases "take (length v) t = v")
    case True
    then obtain t' where t: "t = v @ t'" by (metis append_take_drop_id)
    then obtain s' where s: "s = v @ s'" "coded m s' t'" using coded_prefix less.prems v(2) by blast
    have "coded m s' (rep v p t')" using less.hyps [OF _ s(2)] t v by simp
    then show ?thesis using t s v assms(2,3) by (simp add: rep_here coded_mark)
  next
    case False
    from less.prems show ?thesis
    proof (cases rule: coded.cases)
      case (coded_plain s' t' c)
      then have "coded m s' (rep v p t')" using less.hyps by simp
      then show ?thesis using coded_plain False v by (simp add: coded.coded_plain)
    next
      case (coded_mark q w s' t')
      then have "length t' < length t" using mark_Cons by fastforce
      then have "coded m s' (rep v p t')" using less.hyps coded_mark by simp
      then show ?thesis using coded_mark rep_mark [OF assms(1)] by (simp add: coded.coded_mark)
    qed (simp add: coded_Nil)
  qed
qed

text \<open>A text in which no hash sign is followed by the characters of a tag.\<close>

fun plain_hashes :: "jstring \<Rightarrow> bool" where
  "plain_hashes [] = True"
| "plain_hashes (c # cs) = (\<not> (c = HASH \<and> 4 \<le> length cs \<and> list_all tag_char (take 4 cs)) \<and> plain_hashes cs)"

lemma plain_hashes_suffix: "plain_hashes (v @ s) \<Longrightarrow> plain_hashes s"
  by (induction v) auto

lemma restore_plain: "\<not> placeholder_at (c # cs) \<Longrightarrow> restore_text f (c # cs) = c # restore_text f cs"
  by (simp add: restore_text.simps)

lemma restore_mark:
  assumes "mark p"
  shows "restore_text f (p @ t) = f p @ restore_text f t"
proof -
  obtain tag where q: "p = HASH # tag @ [HASH]" "length tag = 4" "list_all tag_char tag" using assms by (auto simp: mark_def)
  then have "placeholder_at (p @ t)" by (simp add: placeholder_at_def nth_append)
  then show ?thesis using q by (simp add: restore_text.simps)
qed

lemma restore_coded:
  "\<lbrakk>coded m s t; plain_hashes s\<rbrakk> \<Longrightarrow> restore_text (\<lambda>q. case m q of Some v \<Rightarrow> v | None \<Rightarrow> q) t = s"
proof (induction rule: coded.induct)
  case coded_Nil
  then show ?case by (simp add: restore_text.simps)
next
  case (coded_plain s t c)
  have "\<not> placeholder_at (c # t)"
  proof
    assume a: "placeholder_at (c # t)"
    then have t: "c = HASH" "4 \<le> length t" "list_all tag_char (take 4 t)" by (auto simp: placeholder_at_def)
    then have "HASH \<notin> set (take 4 t)" using hash_not_tag by (auto simp: list_all_iff)
    then obtain s' where "s = take 4 t @ s'" using coded_prefix [of m s "take 4 t" "drop 4 t"] coded_plain.hyps by auto
    then show False using coded_plain.prems t by simp
  qed
  then show ?case using coded_plain by (simp add: restore_plain)
next
  case (coded_mark p v s t)
  then show ?case using plain_hashes_suffix by (simp add: restore_mark)
qed


section \<open>The round trip\<close>

definition deob_ok :: "obfuscator \<Rightarrow> bool" where
  "deob_ok ob \<longleftrightarrow> (\<forall>i s p. map_get (ob_obfuscateMappings ob) i = Some (s, p) \<longrightarrow> map_get (ob_deobfuscateMap ob) p = Some s) \<and>
     (\<forall>p v. map_get (ob_deobfuscateMap ob) p = Some v \<longrightarrow> (\<exists>i. map_get (ob_obfuscateMappings ob) i = Some (v, p)))"

text \<open>As long as the first \<open>n\<close> placeholders differ, the two tables agree.\<close>

definition tables_ok :: "runtime \<Rightarrow> nat \<Rightarrow> obfuscator \<Rightarrow> bool" where
  "tables_ok rt n ob \<longleftrightarrow> ob_ok rt ob \<and> (ob_nextIndex ob \<le> n \<longrightarrow> deob_ok ob)"

text \<open>The placeholders of the first indices differ.\<close>

definition distinct_tags :: "runtime \<Rightarrow> nat \<Rightarrow> bool" where
  "distinct_tags rt n \<longleftrightarrow> inj_on (buildPlaceholder (rt_xx rt)) {..<n}"

lemma remember_tables:
  assumes distinct: "distinct_tags rt n" and known: "tables_ok rt n ob"
  shows "tables_ok rt n (remember rt (ob_nextIndex ob) s ob)"
proof -
  let ?i = "ob_nextIndex ob" and ?p = "buildPlaceholder (rt_xx rt) (ob_nextIndex ob)"
  have ok: "ob_ok rt ob" using known by (simp add: tables_ok_def)
  have "deob_ok (remember rt ?i s ob)" if "?i + 1 \<le> n"
  proof -
    have d: "deob_ok ob" using known that by (simp add: tables_ok_def)
    have new: "p \<noteq> ?p" if m: "map_get (ob_obfuscateMappings ob) i = Some (v, p)" for i v p
    proof -
      have "p = buildPlaceholder (rt_xx rt) i" "i < ?i" using ob_okD [OF ok m] by auto
      then show ?thesis using distinct [unfolded distinct_tags_def] \<open>?i + 1 \<le> n\<close> by (auto dest: inj_onD)
    qed
    show ?thesis
      unfolding deob_ok_def
    proof (intro conjI allI impI)
      fix i v p assume "map_get (ob_obfuscateMappings (remember rt ?i s ob)) i = Some (v, p)"
      then show "map_get (ob_deobfuscateMap (remember rt ?i s ob)) p = Some v"
        using d new [of i v p] by (simp add: map_get_set deob_ok_def split: if_splits)
    next
      fix p v assume a: "map_get (ob_deobfuscateMap (remember rt ?i s ob)) p = Some v"
      show "\<exists>i. map_get (ob_obfuscateMappings (remember rt ?i s ob)) i = Some (v, p)"
      proof (cases "p = ?p")
        case True
        then show ?thesis using a by (intro exI [of _ ?i]) (simp add: map_get_set)
      next
        case False
        then have "map_get (ob_deobfuscateMap ob) p = Some v" using a by (simp add: map_get_set)
        then obtain i where i: "map_get (ob_obfuscateMappings ob) i = Some (v, p)" using d unfolding deob_ok_def by blast
        then have "i \<noteq> ?i" using ob_okD [OF ok i] by simp
        then show ?thesis using i by (intro exI [of _ i]) (simp add: map_get_set)
      qed
    qed
  qed
  then show ?thesis using remember_ok [OF ok] by (simp add: tables_ok_def)
qed

lemma add_entry_tables:
  assumes distinct: "distinct_tags rt n" and known: "tables_ok rt n ob"
  shows "tables_ok rt n (add_entry rt ob e)"
proof -
  let ?m = "remember rt (ob_nextIndex ob) (se_content e) ob"
  have m: "tables_ok rt n ?m" by (rule remember_tables [OF distinct known])
  have "ob_ok rt (?m\<lparr>ob_plainMappings := map_set (ob_plainMappings ?m) (se_content e) (ob_nextIndex ob)\<rparr>)"
    using m by (intro plain_ok) (auto simp: tables_ok_def)
  then have "tables_ok rt n (?m\<lparr>ob_plainMappings := map_set (ob_plainMappings ?m) (se_content e) (ob_nextIndex ob)\<rparr>)"
    using m by (simp add: tables_ok_def deob_ok_def)
  moreover have "tables_ok rt n (ob\<lparr>ob_replaceMappings := ms\<rparr>)" "tables_ok rt n (ob\<lparr>ob_regexEntries := rs\<rparr>)" for ms rs
    using known by (simp_all add: tables_ok_def ob_ok_def deob_ok_def)
  ultimately show ?thesis using known by (simp add: add_entry_def Let_def split: option.split)
qed

lemma new_tables:
  assumes distinct: "distinct_tags rt n"
  shows "tables_ok rt n (new_obfuscator rt entries)"
proof -
  have any: "tables_ok rt n (ob\<lparr>ob_hasAny := b\<rparr>) = tables_ok rt n ob" for ob b by (simp add: tables_ok_def ob_ok_def deob_ok_def)
  have add: "tables_ok rt n (foldl (add_entry rt) ob entries)" if "tables_ok rt n ob" for ob
    using that by (rule foldl_invariant [where P = "tables_ok rt n"]) (rule add_entry_tables [OF distinct])
  have start: "tables_ok rt n \<lparr>ob_plainMappings = [], ob_regexEntries = [], ob_obfuscateMappings = [], ob_replaceMappings = [],
         ob_deobfuscateMap = [], ob_nextIndex = 0, ob_hasAny = False\<rparr>"
    by (simp add: tables_ok_def ob_ok_def deob_ok_def map_get_def map_keys_def)
  show ?thesis unfolding new_obfuscator_def any by (rule add [OF start])
qed

lemma hide_match_tables:
  assumes distinct: "distinct_tags rt n" and known: "tables_ok rt n (snd st)"
  shows "tables_ok rt n (snd (hide_match rt e st v))"
proof (cases "re_mode e = Replace")
  case True
  then show ?thesis using known by (simp add: hide_match_hash)
next
  case False
  obtain r ob where st: "st = (r, ob)" by fastforce
  have t: "tables_ok rt n ob" using known st by simp
  then have ok: "ob_ok rt ob" by (simp add: tables_ok_def)
  show ?thesis by (cases rule: hide_match_cases [OF ok False, of r v]) (simp_all add: st t remember_tables [OF distinct])
qed

lemma hide_regex_tables: "\<lbrakk>distinct_tags rt n; tables_ok rt n (snd st)\<rbrakk> \<Longrightarrow> tables_ok rt n (snd (hide_regex rt st e))"
  unfolding hide_regex_def
  by (rule foldl_invariant [where P = "\<lambda>st. tables_ok rt n (snd st)"]) (auto intro: hide_match_tables)

lemma obfuscate_tables:
  assumes distinct: "distinct_tags rt n" and known: "tables_ok rt n ob"
  shows "tables_ok rt n (snd (obfuscate rt text ob))"
proof -
  have "tables_ok rt n (snd (foldl (hide_regex rt) (r, ob) es))" for r es
    by (rule foldl_invariant [where P = "\<lambda>st. tables_ok rt n (snd st)"]) (simp_all add: known hide_regex_tables [OF distinct])
  then show ?thesis using known by (simp add: obfuscate_def)
qed

lemma learned_tables: "distinct_tags rt n \<Longrightarrow> tables_ok rt n (learned rt entries texts)"
  unfolding learned_def
  by (rule foldl_invariant [where P = "tables_ok rt n"]) (auto intro: new_tables obfuscate_tables)

text \<open>The text so far is a coding of the original one.\<close>

definition coding :: "runtime \<Rightarrow> nat \<Rightarrow> jstring \<Rightarrow> jstring \<times> obfuscator \<Rightarrow> bool" where
  "coding rt n text st \<longleftrightarrow> tables_ok rt n (snd st) \<and>
     (ob_nextIndex (snd st) \<le> n \<longrightarrow> coded (map_get (ob_deobfuscateMap (snd st))) text (fst st))"

lemma coding_match:
  assumes "coding rt n text st" "good v" "re_mode e \<noteq> Replace" and distinct: "distinct_tags rt n"
  shows "coding rt n text (hide_match rt e st v)"
proof -
  obtain r ob where st: "st = (r, ob)" by fastforce
  have t: "tables_ok rt n ob" and c: "ob_nextIndex ob \<le> n \<longrightarrow> coded (map_get (ob_deobfuscateMap ob)) text r"
    using assms(1) st by (auto simp: coding_def)
  then have ok: "ob_ok rt ob" by (simp add: tables_ok_def)
  show ?thesis
  proof (cases rule: hide_match_cases [OF ok assms(3), of r v])
    case (1 i)
    have "coded (map_get (ob_deobfuscateMap ob)) text (rep v (buildPlaceholder (rt_xx rt) i) r)" if "ob_nextIndex ob \<le> n"
      using coded_rep [OF assms(2) mark_placeholder] c that t 1(2) by (auto simp: tables_ok_def deob_ok_def)
    then show ?thesis using 1 st t by (simp add: coding_def)
  next
    case 2
    let ?ob = "remember rt (ob_nextIndex ob) v ob"
    have t': "tables_ok rt n ?ob" by (rule remember_tables [OF distinct t])
    have "coded (map_get (ob_deobfuscateMap ?ob)) text (rep v (buildPlaceholder (rt_xx rt) (ob_nextIndex ob)) r)"
      if "ob_nextIndex ?ob \<le> n"
    proof (rule coded_rep [OF assms(2) mark_placeholder])
      show "map_get (ob_deobfuscateMap ?ob) (buildPlaceholder (rt_xx rt) (ob_nextIndex ob)) = Some v" by simp
      have "coded (map_get (ob_deobfuscateMap ob)) text r" using c that by simp
      then show "coded (map_get (ob_deobfuscateMap ?ob)) text r"
      proof (rule coded_mono)
        fix p w assume "map_get (ob_deobfuscateMap ob) p = Some w"
        moreover have "deob_ok ob" "deob_ok ?ob" using t t' that by (auto simp: tables_ok_def)
        ultimately obtain i where i: "map_get (ob_obfuscateMappings ob) i = Some (w, p)" unfolding deob_ok_def by blast
        then have "map_get (ob_obfuscateMappings ?ob) i = Some (w, p)" using ob_okD [OF ok i] by (simp add: map_get_set)
        then show "map_get (ob_deobfuscateMap ?ob) p = Some w" using \<open>deob_ok ?ob\<close> unfolding deob_ok_def by blast
      qed
    qed
    then show ?thesis using 2 st t' by (simp add: coding_def)
  qed
qed

lemma plain_coding:
  assumes "ob_ok rt ob" "deob_ok ob" "\<forall>v\<in>set (map_keys (ob_plainMappings ob)). good v"
  shows "coded (map_get (ob_deobfuscateMap ob)) s
    (foldl (\<lambda>r (v, i). rep v (buildPlaceholder (rt_xx rt) i) r) s (longest_first (ob_plainMappings ob)))"
proof (rule foldl_invariant [where P = "coded (map_get (ob_deobfuscateMap ob)) s"])
  show "coded (map_get (ob_deobfuscateMap ob)) s s" by (rule coded_refl)
next
  fix r x assume r: "coded (map_get (ob_deobfuscateMap ob)) s r" and x: "x \<in> set (longest_first (ob_plainMappings ob))"
  obtain v i where vi: "x = (v, i)" by fastforce
  have "distinct (map_keys (ob_plainMappings ob))" using assms(1) by (simp add: ob_ok_def)
  then have "map_get (ob_plainMappings ob) v = Some i" using x vi by (simp add: map_get_def map_keys_def)
  then have "map_get (ob_deobfuscateMap ob) (buildPlaceholder (rt_xx rt) i) = Some v"
    using ob_plain [OF assms(1)] assms(2) unfolding deob_ok_def by blast
  moreover have "good v" using assms(3) x vi by (auto simp: map_keys_def rev_image_eqI)
  ultimately show "coded (map_get (ob_deobfuscateMap ob)) s (case x of (v, i) \<Rightarrow> rep v (buildPlaceholder (rt_xx rt) i) r)"
    using coded_rep r vi by simp
qed

lemma coding_regex:
  assumes "coding rt n text st" "\<forall>t. \<forall>v\<in>set (re_matches e t). v = [] \<or> good v" "re_mode e \<noteq> Replace" "distinct_tags rt n"
  shows "coding rt n text (hide_regex rt st e)"
  unfolding hide_regex_def
proof (rule foldl_invariant [where P = "coding rt n text", OF assms(1)])
  fix s v assume s: "coding rt n text s" and "v \<in> set (foldl set_add [] (filter (\<lambda>m. length m > 0) (re_matches e (fst st))))"
  then have "v \<in> set (filter (\<lambda>m. length m > 0) (re_matches e (fst st)))" by (simp add: foldl_set_add)
  then have "good v" using assms(2) by auto
  then show "coding rt n text (hide_match rt e s v)" by (rule coding_match [OF s _ assms(3,4)])
qed

text \<open>What a list of entries has to satisfy: nothing is replaced for good, and all that is hidden is good.\<close>

definition reversible :: "runtime \<Rightarrow> secret_entry list \<Rightarrow> bool" where
  "reversible rt entries \<longleftrightarrow> (\<forall>e\<in>set entries. obfuscates e \<and>
     (if se_regex e then (\<forall>f t. rt_compile rt (se_content e) (se_flags e) = Some f \<longrightarrow> (\<forall>v\<in>set (f t). v = [] \<or> good v))
      else good (se_content e)))"

lemma reversible_regex:
  assumes "reversible rt es"
  shows "\<forall>r\<in>set (ob_regexEntries (new_obfuscator rt es)). \<forall>t. \<forall>v\<in>set (re_matches r t). v = [] \<or> good v"
proof -
  have "\<forall>r\<in>set (ob_regexEntries (foldl (add_entry rt) ob es)). \<forall>t. \<forall>v\<in>set (re_matches r t). v = [] \<or> good v"
    if "\<forall>r\<in>set (ob_regexEntries ob). \<forall>t. \<forall>v\<in>set (re_matches r t). v = [] \<or> good v" for ob :: obfuscator
    using that
  proof (rule foldl_invariant)
    fix ob :: obfuscator and e assume o: "\<forall>r\<in>set (ob_regexEntries ob). \<forall>t. \<forall>v\<in>set (re_matches r t). v = [] \<or> good v"
      and e: "e \<in> set es"
    have "\<forall>t. \<forall>v\<in>set (f t). v = [] \<or> good v" if "se_regex e" "rt_compile rt (se_content e) (se_flags e) = Some f" for f
      using assms e that unfolding reversible_def by force
    then show "\<forall>r\<in>set (ob_regexEntries (add_entry rt ob e)). \<forall>t. \<forall>v\<in>set (re_matches r t). v = [] \<or> good v"
      using o by (auto simp: add_entry_def Let_def split: option.splits)
  qed
  from this [of "\<lparr>ob_plainMappings = [], ob_regexEntries = [], ob_obfuscateMappings = [], ob_replaceMappings = [],
         ob_deobfuscateMap = [], ob_nextIndex = 0, ob_hasAny = False\<rparr>"]
  show ?thesis by (simp add: new_obfuscator_def)
qed

lemma no_replacements:
  assumes "\<forall>e\<in>set es. obfuscates e"
  shows "ob_replaceMappings (new_obfuscator rt es) = []"
proof -
  have "ob_replaceMappings (foldl (add_entry rt) ob es) = []" if "ob_replaceMappings ob = []" for ob :: obfuscator
    using that
  proof (rule foldl_invariant)
    fix ob :: obfuscator and e assume o: "ob_replaceMappings ob = []" and "e \<in> set es"
    then have "obfuscates e" using assms by blast
    then show "ob_replaceMappings (add_entry rt ob e) = []"
      using o by (cases "se_mode e"; cases "the (se_mode e)") (simp_all add: add_entry_def Let_def obfuscates_def split: option.split)
  qed
  then show ?thesis by (simp add: new_obfuscator_def)
qed

text \<open>
  C27: A text is restored from its obfuscated form, with the secrets the patterns found on the way, when all entries
  are obfuscated and good, no hash sign of the text is followed by four tag characters, and the placeholders of the
  secrets known by then differ.
\<close>

theorem secrets_roundtrip:
  assumes "reversible rt entries" "plain_hashes text"
    and "obfuscate rt text (learned rt entries texts) = (hidden, ob)"
    and "inj_on (buildPlaceholder (rt_xx rt)) {..<ob_nextIndex ob}"
  shows "deobfuscate ob hidden = text"
proof (cases "ob_hasAny (learned rt entries texts)")
  case False
  then show ?thesis using assms(3) by (auto simp: obfuscate_def deobfuscate_def)
next
  case True
  let ?l = "learned rt entries texts" and ?n = "ob_nextIndex ob"
  have distinct: "distinct_tags rt ?n" using assms(4) by (simp add: distinct_tags_def)
  note s = learned_entries [of rt entries texts, unfolded same_entries_def]
  have l: "ob_ok rt ?l" "tables_ok rt ?n ?l" using learned_tables [OF distinct] by (auto simp: tables_ok_def)
  have all: "\<forall>e\<in>set entries. obfuscates e" "\<forall>v\<in>set (map_keys (ob_plainMappings ?l)). good v"
    using assms(1) s new_plain [of rt entries] by (auto simp: reversible_def)
  have "ob_replaceMappings ?l = []" using s no_replacements [OF all(1)] by simp
  then have h: "hide_plain ?l text = foldl (\<lambda>r (v, i). rep v (buildPlaceholder (rt_xx rt) i) r) text (longest_first (ob_plainMappings ?l))"
    using hidden_plain [OF l(1)] by (simp add: hide_plain_def longest_first_def)
  have "coding rt ?n text (hide_plain ?l text, ?l)"
    using l plain_coding [OF l(1) _ all(2)] by (simp add: coding_def h tables_ok_def)
  then have "coding rt ?n text (foldl (hide_regex rt) (hide_plain ?l text, ?l) (ob_regexEntries ?l))"
  proof (rule foldl_invariant [where P = "coding rt ?n text"])
    fix st f assume c: "coding rt ?n text st" and f: "f \<in> set (ob_regexEntries ?l)"
    show "coding rt ?n text (hide_regex rt st f)"
    proof (rule coding_regex [OF c _ _ distinct])
      show "\<forall>t. \<forall>v\<in>set (re_matches f t). v = [] \<or> good v" using f s reversible_regex [OF assms(1)] by metis
      show "re_mode f \<noteq> Replace" using f s new_regex [of entries rt] all(1) by metis
    qed
  qed
  then have "coded (map_get (ob_deobfuscateMap ob)) text hidden" using assms(3) True by (simp add: obfuscate_def coding_def)
  moreover have "ob_hasAny ob" using obfuscate_entries [of "?l" rt "text"] assms(3) True by (simp add: same_entries_def)
  ultimately show ?thesis using restore_coded [OF _ assms(2)] by (auto simp: deobfuscate_def dest: coded_no_hash)
qed


section \<open>Examples\<close>

definition numbers :: runtime where
  "numbers = \<lparr>rt_xx = (\<lambda>i. 1000 + i), rt_hash = length,
     rt_compile = (\<lambda>p fl. Some (\<lambda>t. if sublist p t then [p] else []))\<rparr>"

definition plain_secret :: "string \<Rightarrow> secret_entry" where
  "plain_secret s = \<lparr>se_regex = False, se_content = js s, se_mode = None, se_replacement = None, se_flags = None\<rparr>"

definition pattern_secret :: "string \<Rightarrow> secret_entry" where
  "pattern_secret s = (plain_secret s)\<lparr>se_regex := True\<rparr>"

lemma example_hidden:
  "fst (obfuscate numbers (js ''use hunter2 and tok-9'') (new_obfuscator numbers [plain_secret ''hunter2'', pattern_secret ''tok-9'']))
    = js ''use #21AA# and #31AA#''"
  by code_simp

definition there_and_back :: "runtime \<Rightarrow> secret_entry list \<Rightarrow> jstring \<Rightarrow> jstring" where
  "there_and_back rt entries text =
     (let (hidden, ob) = obfuscate rt text (new_obfuscator rt entries) in deobfuscate ob hidden)"

text \<open>
  A secret made of tag characters is replaced inside the placeholder of another one; a hash sign and four
  such characters before a secret take the first sign of its placeholder.  Neither text comes back.
\<close>

lemma short_secret_breaks_placeholder:
  "there_and_back numbers [plain_secret ''hunter2'', plain_secret ''A''] (js ''hunter2'') = js ''#21AA#''"
  by code_simp

lemma hash_before_secret_is_taken:
  "there_and_back numbers [plain_secret ''hunter2''] (js ''#2024hunter2'') = js ''#2024#21AA#''"
  by code_simp

text \<open>A hash sign stands in its own placeholder.\<close>

lemma hash_secret_stays:
  "sublist (js ''#'') (fst (obfuscate numbers (js ''a#b'') (new_obfuscator numbers [plain_secret ''#''])))"
  by code_simp

text \<open>A secret that is both obfuscated and replaced is replaced.\<close>

lemma replacement_comes_first:
  "fst (obfuscate numbers (js ''hunter2'')
      (new_obfuscator numbers [plain_secret ''hunter2'',
         (plain_secret ''hunter2'')\<lparr>se_mode := Some Replace, se_replacement := Some (js ''***'')\<rparr>])) = js ''***''"
  by code_simp

text \<open>Message content that is one string, and the arguments of tool calls, are sent as they are.\<close>

lemma string_content_is_sent: "obfuscateMessages rt [UserMessage (Plain t)] ob = ([UserMessage (Plain t)], ob)"
  by (simp add: obfuscate_message_def)

lemma tool_calls_are_sent:
  "obfuscateMessages rt [AssistantMessage (a\<lparr>am_content := [ToolCall c]\<rparr>)] ob = ([AssistantMessage (a\<lparr>am_content := [ToolCall c]\<rparr>)], ob)"
  by (simp add: obfuscate_message_def)

text \<open>So a call whose arguments have been restored for a resumed session is sent with the secret in it.\<close>

lemma restored_call_is_sent:
  "let ob = new_obfuscator numbers [plain_secret ''hunter2''];
       call = \<lparr>tc_id = js ''c1'', tc_name = js ''bash'', tc_arguments = [(js ''cmd'', JString (js ''login #21AA#''))]\<rparr>;
       restored = deobfuscate_blocks ob [ToolCall call]
   in restored = [ToolCall (call\<lparr>tc_arguments := [(js ''cmd'', JString (js ''login hunter2''))]\<rparr>)] \<and>
      fst (obfuscate_blocks numbers restored ob) = restored"
  by code_simp

lemma good_example: "good (js ''hunter2'') \<and> good (js ''tok-9'')"
  by code_simp

lemma no_secret_leaks_witness:
  "\<not> sublist (js ''hunter2'') (js ''login #21AA#'')"
proof -
  have "js ''login #21AA#'' \<in> set (concat (map sent_texts
      (fst (obfuscateMessages numbers [UserMessage (Blocks [TextContent (js ''login hunter2'')])] (learned numbers [plain_secret ''hunter2''] [])))))"
    by code_simp
  from no_secret_leaks [OF _ _ _ _ _ this, of "plain_secret ''hunter2''"] good_example
  show ?thesis by (simp add: plain_secret_def obfuscates_def)
qed

lemma reversible_example: "reversible numbers [plain_secret ''hunter2'', pattern_secret ''tok-9'']"
  using good_example by (simp add: reversible_def pattern_secret_def plain_secret_def obfuscates_def numbers_def)

lemma secrets_roundtrip_witness:
  "deobfuscate (snd (obfuscate numbers (js ''# use hunter2, tok-9'') (learned numbers [plain_secret ''hunter2'', pattern_secret ''tok-9''] [])))
     (js ''# use #21AA#, #31AA#'') = js ''# use hunter2, tok-9''"
proof -
  let ?r = "obfuscate numbers (js ''# use hunter2, tok-9'') (learned numbers [plain_secret ''hunter2'', pattern_secret ''tok-9''] [])"
  have "fst ?r = js ''# use #21AA#, #31AA#''" by code_simp
  then have r: "?r = (js ''# use #21AA#, #31AA#'', snd ?r)" by (metis prod.collapse)
  have "plain_hashes (js ''# use hunter2, tok-9'')" by code_simp
  moreover have "inj_on (buildPlaceholder (rt_xx numbers)) {..<ob_nextIndex (snd ?r)}"
  proof -
    have "ob_nextIndex (snd ?r) = 2" "buildPlaceholder (rt_xx numbers) 0 \<noteq> buildPlaceholder (rt_xx numbers) 1" by code_simp+
    moreover have "{..<2::nat} = {0, 1}" by auto
    ultimately show ?thesis by simp
  qed
  ultimately show ?thesis using secrets_roundtrip [OF reversible_example _ r] by blast
qed

end
