(* ===== verification/Sse_Stream.thy ===== *)
theory Sse_Stream
  imports Tokenizer
begin

text \<open>
  The line reader and the reader of server-sent events that the responses of the providers go through:
  \<open>packages/utils/src/stream.ts\<close> (\<open>ConcatSink\<close>, \<open>readLines\<close>, \<open>readSseEvents\<close>, \<open>readSseJson\<close>).  The source is the
  list of its chunks.  The buffers of a sink are kept in a store, since the lines it hands out are views of them.
\<close>

type_synonym bytes = "nat list"

section \<open>The sink\<close>

record sink =
  sk_bufs :: "bytes list"
  sk_space :: "nat option"
  sk_length :: nat

text \<open>A line that is handed out is a part of a chunk, or the beginning of a buffer of the sink.\<close>

datatype line_view = ChunkPart bytes | SpacePart nat nat

fun view_bytes :: "sink \<Rightarrow> line_view \<Rightarrow> bytes" where
  "view_bytes sk (ChunkPart bs) = bs"
| "view_bytes sk (SpacePart b n) = take n (sk_bufs sk ! b)"

definition new_sink :: sink where
  "new_sink = \<lparr>sk_bufs = [], sk_space = None, sk_length = 0\<rparr>"

text \<open>\<open>space.set(chunk, offset)\<close>.\<close>

definition copy_at :: "bytes \<Rightarrow> nat \<Rightarrow> bytes \<Rightarrow> bytes" where
  "copy_at space offset chunk = take offset space @ chunk @ drop (offset + length chunk) space"

text \<open>\<open>junk\<close> is what a new buffer holds, which \<open>Buffer.allocUnsafe\<close> does not promise anything about.\<close>

definition ensureCapacity :: "(nat \<Rightarrow> nat) \<Rightarrow> nat \<Rightarrow> sink \<Rightarrow> nat \<times> sink" where
  "ensureCapacity junk needed sk =
     (let old = map_option (\<lambda>b. sk_bufs sk ! b) (sk_space sk)
      in case (sk_space sk, old) of
           (Some b, Some space) \<Rightarrow>
             if length space \<ge> needed then (b, sk)
             else let nextSize = max needed (length space * 2);
                      fresh = map junk [0..<nextSize];
                      next = (if sk_length sk > 0 then copy_at fresh 0 (take (sk_length sk) space) else fresh)
               in (length (sk_bufs sk), sk\<lparr>sk_bufs := sk_bufs sk @ [next], sk_space := Some (length (sk_bufs sk))\<rparr>)
         | _ \<Rightarrow> (length (sk_bufs sk), sk\<lparr>sk_bufs := sk_bufs sk @ [map junk [0..<needed]], sk_space := Some (length (sk_bufs sk))\<rparr>))"

definition append_bytes :: "(nat \<Rightarrow> nat) \<Rightarrow> bytes \<Rightarrow> sink \<Rightarrow> sink" where
  "append_bytes junk chunk sk =
     (let n = length chunk
      in if n = 0 then sk
         else let offset = sk_length sk; (b, sk1) = ensureCapacity junk (offset + n) sk
           in sk1\<lparr>sk_bufs := (sk_bufs sk1)[b := copy_at (sk_bufs sk1 ! b) offset chunk], sk_length := sk_length sk1 + n\<rparr>)"

definition sink_isEmpty :: "sink \<Rightarrow> bool" where "sink_isEmpty sk = (sk_length sk = 0)"

definition sink_flush :: "sink \<Rightarrow> line_view option" where
  "sink_flush sk = (if sk_length sk = 0 then None else Some (SpacePart (the (sk_space sk)) (sk_length sk)))"

definition sink_clear :: "sink \<Rightarrow> sink" where "sink_clear sk = sk\<lparr>sk_length := 0\<rparr>"

text \<open>
  \<open>appendAndFlushLines\<close>: the lines with the state in which each is handed out, and the state at the end;
  \<open>rest\<close> is the chunk from \<open>pos\<close> on.
\<close>

function flush_lines :: "(nat \<Rightarrow> nat) \<Rightarrow> bytes \<Rightarrow> sink \<Rightarrow> (line_view \<times> sink) list \<times> sink" where
  "flush_lines junk rest sk =
     (if rest = [] then ([], sk)
      else if LF \<notin> set rest then ([], append_bytes junk rest sk)
      else let suffix = takeWhile (\<lambda>c. c \<noteq> LF) rest; rest' = drop (length suffix + 1) rest
        in if sink_isEmpty sk
           then let (ls, sk') = flush_lines junk rest' sk in ((ChunkPart suffix, sk) # ls, sk')
           else let sk1 = append_bytes junk suffix sk
             in case sink_flush sk1 of
                  None \<Rightarrow> flush_lines junk rest' sk1
                | Some payload \<Rightarrow> let (ls, sk') = flush_lines junk rest' (sink_clear sk1) in ((payload, sk1) # ls, sk'))"
  by pat_completeness auto
termination by (relation "measure (\<lambda>(junk, rest, sk). length rest)") auto

declare flush_lines.simps [simp del]

fun read_chunks :: "(nat \<Rightarrow> nat) \<Rightarrow> bytes list \<Rightarrow> sink \<Rightarrow> (line_view \<times> sink) list \<times> sink" where
  "read_chunks junk [] sk = ([], sk)"
| "read_chunks junk (chunk # chunks) sk =
     (let (ls, sk1) = flush_lines junk chunk sk; (ls', sk2) = read_chunks junk chunks sk1 in (ls @ ls', sk2))"

text \<open>\<open>readLines\<close>: the views handed out, each with the state at that time, and the state when the source has ended.\<close>

definition readLines :: "(nat \<Rightarrow> nat) \<Rightarrow> bytes list \<Rightarrow> (line_view \<times> sink) list \<times> sink" where
  "readLines junk chunks =
     (let (ls, sk) = read_chunks junk chunks new_sink
      in if sink_isEmpty sk then (ls, sk)
         else case sink_flush sk of
                None \<Rightarrow> (ls, sk)
              | Some tail \<Rightarrow> let sk1 = sink_clear sk in (ls @ [(tail, sk1)], sk1))"

text \<open>What a consumer sees that looks at each line when it is handed out.\<close>

definition lines_seen :: "(nat \<Rightarrow> nat) \<Rightarrow> bytes list \<Rightarrow> bytes list" where
  "lines_seen junk chunks = map (\<lambda>(v, sk). view_bytes sk v) (fst (readLines junk chunks))"

text \<open>What a consumer sees that keeps the lines and looks at them in the end.\<close>

definition lines_kept :: "(nat \<Rightarrow> nat) \<Rightarrow> bytes list \<Rightarrow> bytes list" where
  "lines_kept junk chunks = (let (ls, sk) = readLines junk chunks in map (\<lambda>(v, _). view_bytes sk v) ls)"

section \<open>Server-sent events\<close>

record sse_event =
  sse_event :: "jstring option"
  sse_data :: jstring
  sse_raw :: "jstring list"

record sse_state =
  ss_event :: "jstring option"
  ss_data :: "jstring option"
  ss_raw :: "jstring list"

definition flushSseEvent :: "sse_state \<Rightarrow> sse_event option \<times> sse_state" where
  "flushSseEvent st =
     (if ss_event st = None \<and> ss_data st = None then (None, st\<lparr>ss_raw := []\<rparr>)
      else (Some \<lparr>sse_event = ss_event st, sse_data = (case ss_data st of Some d \<Rightarrow> d | None \<Rightarrow> []), sse_raw = ss_raw st\<rparr>,
            \<lparr>ss_event = None, ss_data = None, ss_raw = []\<rparr>))"

definition COLON :: nat where "COLON = 58"

text \<open>A decoded line that is not a comment.\<close>

definition read_field :: "jstring \<Rightarrow> sse_state \<Rightarrow> sse_state" where
  "read_field text st =
     (let st1 = st\<lparr>ss_raw := ss_raw st @ [text]\<rparr>;
          fieldName = takeWhile (\<lambda>c. c \<noteq> COLON) text;
          value0 = (if COLON \<in> set text then drop (length fieldName + 1) text else []);
          val = (case value0 of c # cs \<Rightarrow> (if c = 32 then cs else value0) | [] \<Rightarrow> [])
      in if fieldName = js ''event'' then st1\<lparr>ss_event := Some val\<rparr>
         else if fieldName = js ''data''
           then st1\<lparr>ss_data := Some (case ss_data st1 of None \<Rightarrow> val | Some d \<Rightarrow> d @ [LF] @ val)\<rparr>
           else st1)"

text \<open>\<open>decode\<close> is the decoder of the runtime.\<close>

definition pushSseLine :: "(bytes \<Rightarrow> jstring) \<Rightarrow> bytes \<Rightarrow> sse_state \<Rightarrow> sse_event option \<times> sse_state" where
  "pushSseLine decode line st =
     (let end = (if length line > 0 \<and> line ! (length line - 1) = CR then length line - 1 else length line)
      in if end = 0 then flushSseEvent st
         else if line ! 0 = COLON then (None, st\<lparr>ss_raw := ss_raw st @ [decode (take end line)]\<rparr>)
         else (None, read_field (decode (take end line)) st))"

fun push_lines :: "(bytes \<Rightarrow> jstring) \<Rightarrow> bytes list \<Rightarrow> sse_state \<Rightarrow> sse_event list \<times> sse_state" where
  "push_lines decode [] st = ([], st)"
| "push_lines decode (l # ls) st =
     (let (e, st1) = pushSseLine decode l st; (es, st2) = push_lines decode ls st1
      in ((case e of Some x \<Rightarrow> x # es | None \<Rightarrow> es), st2))"

text \<open>Every line is looked at when it is handed out.\<close>

definition readSseEvents :: "(nat \<Rightarrow> nat) \<Rightarrow> (bytes \<Rightarrow> jstring) \<Rightarrow> bytes list \<Rightarrow> sse_event list" where
  "readSseEvents junk decode chunks =
     (let (es, st) = push_lines decode (lines_seen junk chunks) \<lparr>ss_event = None, ss_data = None, ss_raw = []\<rparr>;
          (trailing, _) = flushSseEvent st
      in es @ (case trailing of Some e \<Rightarrow> [e] | None \<Rightarrow> []))"

text \<open>The values handed out, and whether the parser failed.\<close>

fun sse_json :: "(jstring \<Rightarrow> 'a option) \<Rightarrow> sse_event list \<Rightarrow> 'a list \<times> bool" where
  "sse_json parse [] = ([], False)"
| "sse_json parse (e # es) =
     (if sse_data e = [] \<or> sse_data e = js ''[DONE]''
      then (if sse_data e = js ''[DONE]'' then ([], False) else sse_json parse es)
      else case parse (sse_data e) of
             None \<Rightarrow> ([], True)
           | Some v \<Rightarrow> let (vs, failed) = sse_json parse es in (v # vs, failed))"

definition readSseJson :: "(nat \<Rightarrow> nat) \<Rightarrow> (bytes \<Rightarrow> jstring) \<Rightarrow> (jstring \<Rightarrow> 'a option) \<Rightarrow> bytes list \<Rightarrow> 'a list \<times> bool" where
  "readSseJson junk decode parse chunks = sse_json parse (readSseEvents junk decode chunks)"

section \<open>The sink holds the bytes of the last line\<close>

definition sink_ok :: "sink \<Rightarrow> bool" where
  "sink_ok sk \<longleftrightarrow> (case sk_space sk of None \<Rightarrow> sk_length sk = 0
     | Some b \<Rightarrow> b < length (sk_bufs sk) \<and> sk_length sk \<le> length (sk_bufs sk ! b))"

definition pending :: "sink \<Rightarrow> bytes" where
  "pending sk = (case sk_space sk of None \<Rightarrow> [] | Some b \<Rightarrow> take (sk_length sk) (sk_bufs sk ! b))"

lemma new_sink_ok: "sink_ok new_sink \<and> pending new_sink = []"
  by (simp add: new_sink_def sink_ok_def pending_def)

lemma pending_length: "sink_ok sk \<Longrightarrow> length (pending sk) = sk_length sk"
  by (auto simp: sink_ok_def pending_def split: option.splits)

lemma ensureCapacity_spec:
  assumes "sink_ok sk" "sk_length sk < needed" "ensureCapacity junk needed sk = (b, sk1)"
  shows "b < length (sk_bufs sk1)" "sk_space sk1 = Some b" "sk_length sk1 = sk_length sk"
    "needed \<le> length (sk_bufs sk1 ! b)" "take (sk_length sk) (sk_bufs sk1 ! b) = pending sk"
  using assms
  by (auto simp: ensureCapacity_def sink_ok_def pending_def copy_at_def Let_def nth_append min_def split: option.splits if_splits)

lemma append_spec:
  assumes "sink_ok sk"
  shows "sink_ok (append_bytes junk chunk sk) \<and> pending (append_bytes junk chunk sk) = pending sk @ chunk"
proof (cases "chunk = []")
  case False
  obtain b sk1 where e: "ensureCapacity junk (sk_length sk + length chunk) sk = (b, sk1)" by fastforce
  note s = ensureCapacity_spec [OF assms _ e]
  show ?thesis using False e s pending_length [OF assms]
    by (simp add: append_bytes_def Let_def sink_ok_def pending_def copy_at_def min_def)
qed (use assms in \<open>simp add: append_bytes_def\<close>)

lemma clear_spec: "sink_ok sk \<Longrightarrow> sink_ok (sink_clear sk) \<and> pending (sink_clear sk) = []"
  by (auto simp: sink_clear_def sink_ok_def pending_def split: option.splits)

lemma flush_spec:
  assumes "sink_ok sk"
  shows "sink_flush sk = (if pending sk = [] then None else Some (SpacePart (the (sk_space sk)) (sk_length sk)))"
    "pending sk \<noteq> [] \<Longrightarrow> view_bytes sk (SpacePart (the (sk_space sk)) (sk_length sk)) = pending sk"
    "sink_isEmpty sk = (pending sk = [])"
  using pending_length [OF assms] assms
  by (auto simp: sink_flush_def pending_def sink_ok_def sink_isEmpty_def split: option.splits)

definition views :: "(line_view \<times> sink) list \<Rightarrow> bytes list" where
  "views ls = map (\<lambda>(v, sk). view_bytes sk v) ls"

lemma flush_lines_spec:
  "\<lbrakk>sink_ok sk; LF \<notin> set (pending sk); flush_lines junk rest sk = (ls, sk')\<rbrakk> \<Longrightarrow>
    sink_ok sk' \<and> views ls = complete_lines (pending sk @ rest) \<and> pending sk' = remainder (pending sk @ rest)"
proof (induction junk rest sk arbitrary: ls sk' rule: flush_lines.induct)
  case (1 junk rest sk)
  let ?suffix = "takeWhile (\<lambda>c. c \<noteq> LF) rest"
  let ?rest = "drop (length ?suffix + 1) rest"
  consider "rest = []" | "rest \<noteq> []" "LF \<notin> set rest" | "LF \<in> set rest" by fastforce
  then show ?case
  proof cases
    case 1
    then show ?thesis using "1.prems" complete_remainder_none by (simp add: flush_lines.simps views_def)
  next
    case 2
    then show ?thesis using "1.prems" complete_remainder_none [of "pending sk @ rest"] append_spec [of sk junk rest]
      by (simp add: flush_lines.simps views_def)
  next
    case 3
    then have ne: "rest \<noteq> []" by auto
    have n: "LF \<notin> set (pending sk @ ?suffix)" using "1.prems"(2) by (auto dest: set_takeWhileD)
    have r: "rest = ?suffix @ LF # ?rest"
    proof -
      have "dropWhile (\<lambda>c. c \<noteq> LF) rest = LF # ?rest" using 3
        by (metis (mono_tags, lifting) Cons_nth_drop_Suc Suc_eq_plus1 dropWhile_eq_drop dropWhile_eq_Nil_conv hd_dropWhile length_greater_0_conv drop_eq_Nil hd_drop_conv_nth leI)
      then show ?thesis by (metis takeWhile_dropWhile_id)
    qed
    have "split_lines (pending sk @ rest) = (pending sk @ ?suffix) # split_lines ?rest"
      using split_on_append_sep [OF n, of ?rest] r by (metis append.assoc append_Cons)
    then have c: "complete_lines (pending sk @ rest) = (pending sk @ ?suffix) # complete_lines ?rest"
        "remainder (pending sk @ rest) = remainder ?rest"
      by (simp_all add: complete_lines_def remainder_def)
    show ?thesis
    proof (cases "pending sk = []")
      case True
      then have "sink_isEmpty sk" using flush_spec(3) "1.prems"(1) by simp
      then show ?thesis using "1.prems" "1.IH"(1) [OF ne _ refl refl] 3 ne True c
        by (auto simp: flush_lines.simps [of junk rest] views_def Let_def split: prod.splits)
    next
      case False
      let ?sk = "append_bytes junk ?suffix sk"
      have a: "sink_ok ?sk" "pending ?sk = pending sk @ ?suffix" using append_spec "1.prems"(1) by auto
      have e: "\<not> sink_isEmpty sk" using flush_spec(3) "1.prems"(1) False by simp
      have f: "sink_flush ?sk = Some (SpacePart (the (sk_space ?sk)) (sk_length ?sk))"
          "view_bytes ?sk (SpacePart (the (sk_space ?sk)) (sk_length ?sk)) = pending sk @ ?suffix"
        using flush_spec [OF a(1)] a(2) False by auto
      show ?thesis
        using "1.prems" "1.IH"(3) [OF ne _ refl refl e refl f(1)] 3 ne e f a c clear_spec [OF a(1)]
        by (auto simp: flush_lines.simps [of junk rest] views_def Let_def split: prod.splits)
    qed
  qed
qed

lemma views_append: "views (a @ b) = views a @ views b"
  by (simp add: views_def)

lemma lines_split_append:
  "complete_lines (a @ b) = complete_lines a @ complete_lines (remainder a @ b) \<and> remainder (a @ b) = remainder (remainder a @ b)"
  using split_lines_append [of LF a b] by (simp add: complete_lines_def remainder_def butlast_append)

lemma read_chunks_spec:
  "\<lbrakk>sink_ok sk; LF \<notin> set (pending sk); read_chunks junk chunks sk = (ls, sk')\<rbrakk> \<Longrightarrow>
    sink_ok sk' \<and> views ls = complete_lines (pending sk @ concat chunks) \<and> pending sk' = remainder (pending sk @ concat chunks)"
proof (induction chunks arbitrary: sk ls)
  case Nil
  then show ?case using complete_remainder_none by (simp add: views_def)
next
  case (Cons chunk chunks)
  obtain la sk1 where a: "flush_lines junk chunk sk = (la, sk1)" by fastforce
  obtain lb where b: "read_chunks junk chunks sk1 = (lb, sk')" "ls = la @ lb"
    using Cons.prems(3) a by (auto split: prod.splits)
  have s: "sink_ok sk1" "views la = complete_lines (pending sk @ chunk)" "pending sk1 = remainder (pending sk @ chunk)"
    using flush_lines_spec [OF Cons.prems(1,2) a] by auto
  have "LF \<notin> set (pending sk1)" using s(3) remainder_no_LF by metis
  then have t: "sink_ok sk'" "views lb = complete_lines (pending sk1 @ concat chunks)"
      "pending sk' = remainder (pending sk1 @ concat chunks)"
    using Cons.IH [OF s(1) _ b(1)] by auto
  have "pending sk @ concat (chunk # chunks) = (pending sk @ chunk) @ concat chunks" by simp
  then show ?case using t s b(2) lines_split_append [of "pending sk @ chunk" "concat chunks"] by (simp add: views_append)
qed

lemma lines_seen_chunks:
  "lines_seen junk chunks =
    butlast (split_lines (concat chunks)) @
    (if last (split_lines (concat chunks)) = [] then [] else [last (split_lines (concat chunks))])"
proof -
  obtain ls sk where r: "read_chunks junk chunks new_sink = (ls, sk)" by fastforce
  then have s: "sink_ok sk" "views ls = complete_lines (concat chunks)" "pending sk = remainder (concat chunks)"
    using read_chunks_spec [OF _ _ r] new_sink_ok by auto
  show ?thesis
  proof (cases "pending sk = []")
    case True
    then have "lines_seen junk chunks = views ls"
      using r flush_spec(3) [OF s(1)] by (simp add: lines_seen_def readLines_def views_def)
    then show ?thesis using True s by (simp add: complete_lines_def remainder_def)
  next
    case False
    have "view_bytes (sink_clear sk) (SpacePart (the (sk_space sk)) (sk_length sk)) = pending sk"
      using flush_spec(2) [OF s(1) False] by (simp add: sink_clear_def)
    then have "lines_seen junk chunks = views ls @ [pending sk]"
      using r flush_spec [OF s(1)] False by (simp add: lines_seen_def readLines_def views_def Let_def)
    then show ?thesis using False s by (simp add: complete_lines_def remainder_def)
  qed
qed

text \<open>
  A consumer that looks at each line when it gets it sees the lines of the whole input, and the unfinished last
  line if there is one, however the input is cut into chunks.
\<close>

theorem lines_do_not_depend_on_chunks:
  "lines_seen junk chunks =
    butlast (split_lines (concat chunks)) @
    (if last (split_lines (concat chunks)) = [] then [] else [last (split_lines (concat chunks))])"
  by (rule lines_seen_chunks)

text \<open>A line that is kept is overwritten by the next one that is put together from chunks.\<close>

lemma kept_line_is_overwritten:
  "let chunks = map js [''ab'', [CHR ''c'', CHR 0x0A], ''x'', [CHR ''y'', CHR 0x0A]]
   in lines_seen id chunks = [js ''abc'', js ''xy''] \<and> lines_kept id chunks = [js ''xyc'', js ''xy'']"
  by code_simp

section \<open>Events that are sent are received\<close>

text \<open>
  What is relied on of a text encoding and its decoder, for the strings \<open>ok\<close> that it can carry: it is reversed, keeps
  line feeds apart from the rest, and shows a colon at the start and a carriage return at the end.
\<close>

definition codec :: "(jstring \<Rightarrow> bytes) \<Rightarrow> (bytes \<Rightarrow> jstring) \<Rightarrow> (jstring \<Rightarrow> bool) \<Rightarrow> bool" where
  "codec encode decode ok \<longleftrightarrow>
     (\<forall>s. ok s \<longrightarrow> decode (encode s) = s \<and> (LF \<in> set (encode s) \<longrightarrow> LF \<in> set s) \<and>
        (s \<noteq> [] \<longrightarrow> encode s \<noteq> [] \<and> (hd (encode s) = COLON \<longleftrightarrow> hd s = COLON) \<and> (last (encode s) = CR \<longleftrightarrow> last s = CR)))"

text \<open>The lines of an event, and its bytes with one of the two line ends.\<close>

definition event_line :: "jstring \<Rightarrow> jstring" where "event_line n = js ''event: '' @ n"

definition data_line :: "jstring \<Rightarrow> jstring" where "data_line d = js ''data: '' @ d"

definition event_lines :: "sse_event \<Rightarrow> jstring list" where
  "event_lines e =
     (case sse_event e of Some n \<Rightarrow> [event_line n] | None \<Rightarrow> []) @ map data_line (split_lines (sse_data e))"

definition render_event :: "(jstring \<Rightarrow> bytes) \<Rightarrow> bytes \<Rightarrow> sse_event \<Rightarrow> bytes" where
  "render_event encode cr e = concat (map (\<lambda>l. encode l @ cr @ [LF]) (event_lines e)) @ cr @ [LF]"

definition sendable :: "(jstring \<Rightarrow> bool) \<Rightarrow> sse_event \<Rightarrow> bool" where
  "sendable ok e \<longleftrightarrow> (\<forall>l\<in>set (event_lines e). ok l \<and> last l \<noteq> CR) \<and> (\<forall>n. sse_event e = Some n \<longrightarrow> LF \<notin> set n)"

abbreviation (input) no_event :: sse_state where
  "no_event \<equiv> \<lparr>ss_event = None, ss_data = None, ss_raw = []\<rparr>"

lemma push_lines_append:
  "push_lines decode (a @ b) st =
    (let (es, st1) = push_lines decode a st; (es', st2) = push_lines decode b st1 in (es @ es', st2))"
  by (induction a arbitrary: st) (auto split: prod.splits option.splits)

lemma push_text:
  assumes "codec encode decode ok" "ok l" "l \<noteq> []" "last l \<noteq> CR" "hd l \<noteq> COLON" "cr = [] \<or> cr = [CR]"
  shows "pushSseLine decode (encode l @ cr) st = (None, read_field l st)"
proof -
  have e: "decode (encode l) = l" "encode l \<noteq> []" "hd (encode l) \<noteq> COLON" "last (encode l) \<noteq> CR"
    using assms unfolding codec_def by auto
  then have "(encode l @ cr) ! 0 \<noteq> COLON" by (simp add: nth_append hd_conv_nth)
  moreover have "encode l ! (length (encode l) - 1) \<noteq> CR" using e by (simp add: last_conv_nth)
  ultimately show ?thesis using assms(6) e by (auto simp: nth_append pushSseLine_def)
qed

text \<open>A line with a field, and the two fields that are read.\<close>

lemma push_field:
  assumes "codec encode decode ok" "ok l" "last l \<noteq> CR" "cr = [] \<or> cr = [CR]"
    and "l = name @ COLON # 32 # v" "name \<noteq> []" "COLON \<notin> set name"
  shows "pushSseLine decode (encode l @ cr) st =
    (None, (if name = js ''event'' then st\<lparr>ss_event := Some v, ss_raw := ss_raw st @ [l]\<rparr>
      else if name = js ''data'' then st\<lparr>ss_data := Some (case ss_data st of None \<Rightarrow> v | Some x \<Rightarrow> x @ [LF] @ v), ss_raw := ss_raw st @ [l]\<rparr>
      else st\<lparr>ss_raw := ss_raw st @ [l]\<rparr>))"
proof -
  have t: "takeWhile (\<lambda>c. c \<noteq> COLON) l = name" using assms(5,7) by (subst assms(5), subst takeWhile_append2) auto
  have l: "hd l \<noteq> COLON" "l \<noteq> []" "drop (length name + 1) l = 32 # v" using assms(5-7) by (cases name; auto)+
  have c: "(if COLON \<in> set l then drop (length name + 1) l else []) = 32 # v" using assms(5) l(3) by simp
  have d: "js ''data'' \<noteq> js ''event''" by (simp add: js_def)
  have "read_field l st = (if name = js ''event'' then st\<lparr>ss_event := Some v, ss_raw := ss_raw st @ [l]\<rparr>
      else if name = js ''data'' then st\<lparr>ss_data := Some (case ss_data st of None \<Rightarrow> v | Some x \<Rightarrow> x @ [LF] @ v), ss_raw := ss_raw st @ [l]\<rparr>
      else st\<lparr>ss_raw := ss_raw st @ [l]\<rparr>)"
    unfolding read_field_def Let_def t c using d by (simp del: js_Cons js_Nil split: option.split)
  then show ?thesis using push_text [OF assms(1,2) l(2) assms(3) l(1) assms(4)] by simp
qed

lemma push_event_line:
  assumes "codec encode decode ok" "ok (event_line n)" "last (event_line n) \<noteq> CR" "cr = [] \<or> cr = [CR]"
  shows "pushSseLine decode (encode (event_line n) @ cr) st = (None, st\<lparr>ss_event := Some n, ss_raw := ss_raw st @ [event_line n]\<rparr>)"
  using push_field [OF assms, of "js ''event''" n] by (simp add: event_line_def COLON_def)

lemma push_data_line:
  assumes "codec encode decode ok" "ok (data_line d)" "last (data_line d) \<noteq> CR" "cr = [] \<or> cr = [CR]"
  shows "pushSseLine decode (encode (data_line d) @ cr) st =
    (None, st\<lparr>ss_data := Some (case ss_data st of None \<Rightarrow> d | Some x \<Rightarrow> x @ [LF] @ d), ss_raw := ss_raw st @ [data_line d]\<rparr>)"
  using push_field [OF assms, of "js ''data''" d] by (simp add: data_line_def COLON_def)

lemma push_data_lines:
  assumes "codec encode decode ok" "cr = [] \<or> cr = [CR]" "\<forall>d\<in>set ds. ok (data_line d) \<and> last (data_line d) \<noteq> CR" "ds \<noteq> []"
  shows "push_lines decode (map (\<lambda>d. encode (data_line d) @ cr) ds) st =
    ([], st\<lparr>ss_data := Some (join_lines ((case ss_data st of None \<Rightarrow> [] | Some x \<Rightarrow> [x]) @ ds)),
        ss_raw := ss_raw st @ map data_line ds\<rparr>)"
  using assms(3,4)
proof (induction ds arbitrary: st)
  case (Cons d ds)
  have j: "join_lines (x # d # ds) = join_lines ((x @ [LF] @ d) # ds)" for x by (cases ds) simp_all
  show ?case
  proof (cases "ds = []")
    case True
    then show ?thesis using push_data_line [OF assms(1) _ _ assms(2)] Cons.prems by (simp split: option.split)
  next
    case False
    then show ?thesis using push_data_line [OF assms(1) _ _ assms(2)] Cons.prems Cons.IH j by (simp split: option.split)
  qed
qed simp

lemma push_blank: "cr = [] \<or> cr = [CR] \<Longrightarrow> pushSseLine decode cr st = flushSseEvent st"
  by (auto simp: pushSseLine_def)

lemma push_sse_event:
  assumes "codec encode decode ok" "cr = [] \<or> cr = [CR]" "sendable ok e"
  shows "push_lines decode (map (\<lambda>l. encode l @ cr) (event_lines e) @ [cr]) no_event =
    ([e\<lparr>sse_raw := event_lines e\<rparr>], no_event)"
proof -
  have d: "\<forall>d\<in>set (split_lines (sse_data e)). ok (data_line d) \<and> last (data_line d) \<noteq> CR"
    using assms(3) by (auto simp: sendable_def event_lines_def)
  note ds = push_data_lines [OF assms(1,2) d split_on_not_Nil]
  have n: "pushSseLine decode (encode (event_line n) @ cr) st =
      (None, st\<lparr>ss_event := Some n, ss_raw := ss_raw st @ [event_line n]\<rparr>)" if "sse_event e = Some n" for n st
    using push_event_line [OF assms(1) _ _ assms(2)] assms(3) that by (simp add: sendable_def event_lines_def)
  show ?thesis
    by (cases "sse_event e") (simp_all add: event_lines_def push_lines_append comp_def ds n push_blank [OF assms(2)] flushSseEvent_def join_split)
qed

lemma push_events:
  assumes "codec encode decode ok" "cr = [] \<or> cr = [CR]" "\<forall>e\<in>set evs. sendable ok e"
  shows "push_lines decode (concat (map (\<lambda>e. map (\<lambda>l. encode l @ cr) (event_lines e) @ [cr]) evs)) no_event =
    (map (\<lambda>e. e\<lparr>sse_raw := event_lines e\<rparr>) evs, no_event)"
  using assms(3)
proof (induction evs)
  case (Cons e evs)
  then show ?case using push_sse_event [OF assms(1,2), of e]
    by (simp only: list.map concat.simps push_lines_append) simp
qed simp

lemma split_terminated: "\<forall>l\<in>set ls. LF \<notin> set l \<Longrightarrow> split_lines (concat (map (\<lambda>l. l @ [LF]) ls)) = ls @ [[]]"
  by (induction ls) (auto simp: split_on_append_sep)

text \<open>
  C28: Events that are written to a stream, with either line end, are read back in order, with their name, their data
  over any number of lines and their lines as they were written, however the bytes are cut into chunks.
\<close>

theorem sse_events_roundtrip:
  assumes "codec encode decode ok" "cr = [] \<or> cr = [CR]" "\<forall>e\<in>set evs. sendable ok e"
    and "concat chunks = concat (map (render_event encode cr) evs)"
  shows "readSseEvents junk decode chunks = map (\<lambda>e. e\<lparr>sse_raw := event_lines e\<rparr>) evs"
proof -
  let ?ls = "concat (map (\<lambda>e. map (\<lambda>l. encode l @ cr) (event_lines e) @ [cr]) evs)"
  have "concat (map (render_event encode cr) evs) = concat (map (\<lambda>l. l @ [LF]) ?ls)"
    by (induction evs) (simp_all add: render_event_def comp_def)
  moreover have "LF \<notin> set l" if "l \<in> set ?ls" for l
  proof -
    from that obtain m where "m \<in> set (map (\<lambda>e. map (\<lambda>l. encode l @ cr) (event_lines e) @ [cr]) evs)" "l \<in> set m"
      unfolding set_concat by blast
    then obtain e where e': "e \<in> set evs" "m = map (\<lambda>l. encode l @ cr) (event_lines e) @ [cr]" by auto
    with \<open>l \<in> set m\<close> have e: "e \<in> set evs" "l = cr \<or> (\<exists>x\<in>set (event_lines e). l = encode x @ cr)" by auto
    have "LF \<notin> set (encode x)" if x: "x \<in> set (event_lines e)" for x
    proof -
      have "LF \<notin> set x"
        using x assms(3) e(1) split_on_no_sep
        by (fastforce simp: event_lines_def sendable_def event_line_def data_line_def split: option.splits)
      moreover have "ok x" using x assms(3) e(1) by (auto simp: sendable_def)
      ultimately show ?thesis using assms(1) by (auto simp: codec_def)
    qed
    then show ?thesis using e(2) assms(2) by auto
  qed
  ultimately have "split_lines (concat chunks) = ?ls @ [[]]" using assms(4) split_terminated [of ?ls] by metis
  then have "lines_seen junk chunks = ?ls" unfolding lines_seen_chunks by simp
  then show ?thesis using push_events [OF assms(1-3)] by (simp add: readSseEvents_def flushSseEvent_def)
qed

definition ascii :: "jstring \<Rightarrow> bool" where "ascii s \<longleftrightarrow> list_all (\<lambda>c. c < 128) s"

lemma sse_events_roundtrip_witness:
  "readSseEvents id id (map js [''event: pi'', ''ng'', [CHR 0x0D, CHR 0x0A] @ ''data: a'' @ [CHR 0x0D], [CHR 0x0A] @ ''data: b'',
      [CHR 0x0D, CHR 0x0A, CHR 0x0D, CHR 0x0A]]) =
    [\<lparr>sse_event = Some (js ''ping''), sse_data = js ''a'' @ [LF] @ js ''b'', sse_raw = [js ''event: ping'', js ''data: a'', js ''data: b'']\<rparr>]"
proof -
  let ?e = "\<lparr>sse_event = Some (js ''ping''), sse_data = js ''a'' @ [LF] @ js ''b'', sse_raw = []\<rparr>"
  have c: "codec id id ascii" by (simp add: codec_def)
  have s: "\<forall>e\<in>set [?e]. sendable ascii e"
    by (simp add: sendable_def event_lines_def event_line_def data_line_def ascii_def js_def)
  have "concat (map js [''event: pi'', ''ng'', [CHR 0x0D, CHR 0x0A] @ ''data: a'' @ [CHR 0x0D], [CHR 0x0A] @ ''data: b'',
      [CHR 0x0D, CHR 0x0A, CHR 0x0D, CHR 0x0A]]) = concat (map (render_event id [CR]) [?e])" by code_simp
  from sse_events_roundtrip [OF c _ s this] show ?thesis by (simp add: event_lines_def event_line_def data_line_def js_def)
qed

text \<open>A value that begins with a byte order mark or ends with a carriage return is not such an event.\<close>

lemma trailing_return_is_lost:
  "map sse_data (readSseEvents id id [js ''data: a'' @ [CR, LF, LF]]) = [js ''a'']"
  by code_simp

end
