(* ===== verification/Apply_Patch.thy ===== *)
theory Apply_Patch
  imports Prelude "HOL-Library.Multiset"
begin

text \<open>
  The other edit format of the coding agent, the envelope of \<open>apply_patch\<close>:
  \<open>packages/coding-agent/src/edit/apply-patch/parser.ts\<close>, the record of affected files of \<open>index.ts\<close>, and from
  \<open>edit/modes/patch.ts\<close> the last steps of an update, the check for overlaps and the replacement of the lines.
\<close>

section \<open>The envelope\<close>

definition ENVELOPE_BEGIN :: jstring where "ENVELOPE_BEGIN = js ''*** Begin Patch''"
definition ENVELOPE_END :: jstring where "ENVELOPE_END = js ''*** End Patch''"
definition ADD_FILE_MARKER :: jstring where "ADD_FILE_MARKER = js ''*** Add File: ''"
definition DELETE_FILE_MARKER :: jstring where "DELETE_FILE_MARKER = js ''*** Delete File: ''"
definition UPDATE_FILE_MARKER :: jstring where "UPDATE_FILE_MARKER = js ''*** Update File: ''"
definition MOVE_TO_MARKER :: jstring where "MOVE_TO_MARKER = js ''*** Move to: ''"

datatype operation = CreateFile | DeleteFile | UpdateFile

record patch_input =
  pi_path :: jstring
  pi_op :: operation
  pi_rename :: "jstring option"
  pi_diff :: "jstring option"

datatype envelope_error =
    NoBeginMarker
  | NoEndMarker
  | EmptyUpdate jstring nat
  | InvalidHeader jstring nat

text \<open>The rows of a new file: its contents and how many rows they take.\<close>

fun added_rows :: "jstring list \<Rightarrow> jstring \<times> nat" where
  "added_rows [] = ([], 0)"
| "added_rows (line # rest) =
     (if starts_with line (js ''+'') then let (contents, n) = added_rows rest in (drop 1 line @ [LF] @ contents, n + 1)
      else ([], 0))"

definition is_file_marker :: "jstring \<Rightarrow> bool" where
  "is_file_marker line =
     (starts_with line (js ''*** Add File:'') \<or> starts_with line (js ''*** Delete File:'') \<or> starts_with line (js ''*** Update File:''))"

function parse_hunks :: "bool \<Rightarrow> jstring list \<Rightarrow> nat \<Rightarrow> envelope_error + patch_input list" where
  "parse_hunks streaming remaining lineNumber =
     (case remaining of
        [] \<Rightarrow> Inr []
      | row # rest \<Rightarrow>
          let firstLine = trim row
          in if firstLine = [] then parse_hunks streaming rest (lineNumber + 1)
             else if starts_with firstLine ADD_FILE_MARKER
             then let (contents, n) = added_rows rest
               in rbind (parse_hunks streaming (drop n rest) (lineNumber + (n + 1)))
                    (\<lambda>hs. Inr (\<lparr>pi_path = drop (length ADD_FILE_MARKER) firstLine, pi_op = CreateFile, pi_rename = None,
                                 pi_diff = Some contents\<rparr> # hs))
             else if starts_with firstLine DELETE_FILE_MARKER
             then rbind (parse_hunks streaming rest (lineNumber + 1))
                    (\<lambda>hs. Inr (\<lparr>pi_path = drop (length DELETE_FILE_MARKER) firstLine, pi_op = DeleteFile, pi_rename = None,
                                 pi_diff = None\<rparr> # hs))
             else if starts_with firstLine UPDATE_FILE_MARKER
             then let path = drop (length UPDATE_FILE_MARKER) firstLine;
                      (movePath, rest1, ln1) =
                        (case rest of
                           m # others \<Rightarrow> if starts_with m MOVE_TO_MARKER then (Some (drop (length MOVE_TO_MARKER) m), others, lineNumber + 2)
                                       else (None, rest, lineNumber + 1)
                         | [] \<Rightarrow> (None, rest, lineNumber + 1));
                      diffLines = takeWhile (\<lambda>l. \<not> is_file_marker l) rest1;
                      rest2 = drop (length diffLines) rest1;
                      ln2 = ln1 + length diffLines
               in if diffLines = [] \<and> \<not> streaming then Inl (EmptyUpdate path ln2)
                  else rbind (parse_hunks streaming rest2 ln2)
                         (\<lambda>hs. Inr (\<lparr>pi_path = path, pi_op = UpdateFile, pi_rename = movePath,
                                      pi_diff = Some (join_lines diffLines)\<rparr> # hs))
             else if streaming then Inr [] else Inl (InvalidHeader firstLine lineNumber))"
  by pat_completeness auto
termination
  by (relation "measure (\<lambda>(streaming, remaining, lineNumber). length remaining)") (auto split: list.splits if_splits)

declare parse_hunks.simps [simp del]

definition strip_heredoc :: "jstring list \<Rightarrow> jstring list" where
  "strip_heredoc lines =
     (if length lines \<ge> 2 \<and> hd lines \<in> set (map js [''<<EOF'', [CHR ''<'', CHR ''<'', CHR 0x27] @ ''EOF'' @ [CHR 0x27], ''<<\"EOF\"''])
         \<and> trim (last lines) = js ''EOF''
      then slice lines 1 (length lines - 1) else lines)"

definition parseApplyPatchWithOptions :: "bool \<Rightarrow> jstring \<Rightarrow> envelope_error + patch_input list" where
  "parseApplyPatchWithOptions streaming patchText =
     (let lines = strip_heredoc (split_lines (trim patchText))
      in if lines = [] \<or> trim (hd lines) \<noteq> ENVELOPE_BEGIN
         then (if streaming then Inr [] else Inl NoBeginMarker)
         else let hasEndMarker = (trim (last lines) = ENVELOPE_END)
           in if \<not> hasEndMarker \<and> \<not> streaming then Inl NoEndMarker
              else parse_hunks streaming (if hasEndMarker then slice lines 1 (length lines - 1) else drop 1 lines) 2)"

definition parseApplyPatch :: "jstring \<Rightarrow> envelope_error + patch_input list" where
  "parseApplyPatch patchText = parseApplyPatchWithOptions False patchText"

definition parseApplyPatchStreaming :: "jstring \<Rightarrow> envelope_error + patch_input list" where
  "parseApplyPatchStreaming patchText = parseApplyPatchWithOptions True patchText"

record affected =
  af_added :: "jstring list"
  af_modified :: "jstring list"
  af_deleted :: "jstring list"

definition recordAffected :: "affected \<Rightarrow> patch_input \<Rightarrow> affected" where
  "recordAffected af hunk =
     (case pi_op hunk of
        CreateFile \<Rightarrow> af\<lparr>af_added := af_added af @ [pi_path hunk]\<rparr>
      | DeleteFile \<Rightarrow> af\<lparr>af_deleted := af_deleted af @ [pi_path hunk]\<rparr>
      | UpdateFile \<Rightarrow> af\<lparr>af_modified := af_modified af @ [pi_path hunk]\<rparr>)"

definition formatApplyCodexPatchSummary :: "affected \<Rightarrow> jstring" where
  "formatApplyCodexPatchSummary af =
     join_lines ([js ''Success. Updated the following files:''] @ map (\<lambda>p. js ''A '' @ p) (af_added af)
       @ map (\<lambda>p. js ''M '' @ p) (af_modified af) @ map (\<lambda>p. js ''D '' @ p) (af_deleted af))"

section \<open>Replacing lines\<close>

record replacement =
  rp_startIndex :: nat
  rp_oldLen :: nat
  rp_newLines :: "jstring list"

definition splice_one :: "replacement \<Rightarrow> jstring list \<Rightarrow> jstring list" where
  "splice_one r result =
     take (rp_startIndex r) result @ rp_newLines r @ drop (rp_startIndex r + rp_oldLen r) result"

text \<open>From the last one to the first one.\<close>

definition applyReplacements :: "jstring list \<Rightarrow> replacement list \<Rightarrow> jstring list" where
  "applyReplacements lines replacements = foldr splice_one replacements lines"

text \<open>The end of \<open>computeReplacements\<close>: sorted by start, and rejected when two overlap.\<close>

fun find_overlap :: "replacement list \<Rightarrow> (replacement \<times> replacement) option" where
  "find_overlap (r # s # rs) =
     (if rp_startIndex s < rp_startIndex r + rp_oldLen r then Some (r, s) else find_overlap (s # rs))"
| "find_overlap _ = None"

definition order_replacements :: "replacement list \<Rightarrow> (replacement \<times> replacement) + replacement list" where
  "order_replacements rs =
     (let sorted = sort_key rp_startIndex rs
      in case find_overlap sorted of Some p \<Rightarrow> Inl p | None \<Rightarrow> Inr sorted)"

section \<open>All replacements at once\<close>

fun weave :: "nat \<Rightarrow> jstring list \<Rightarrow> replacement list \<Rightarrow> jstring list" where
  "weave pos lines [] = drop pos lines"
| "weave pos lines (r # rs) =
     slice lines pos (rp_startIndex r) @ rp_newLines r @ weave (rp_startIndex r + rp_oldLen r) lines rs"

lemma sorted_apart:
  "\<lbrakk>sorted (map rp_startIndex (r # rs)); find_overlap (r # rs) = None\<rbrakk> \<Longrightarrow>
     sorted (map rp_startIndex rs) \<and> find_overlap rs = None \<and> (\<forall>s\<in>set rs. rp_startIndex r + rp_oldLen r \<le> rp_startIndex s)"
  by (cases rs) (auto split: if_splits)

lemma apply_weave:
  assumes "sorted (map rp_startIndex rs)" "find_overlap rs = None"
    and "\<forall>r\<in>set rs. pos \<le> rp_startIndex r \<and> rp_startIndex r + rp_oldLen r \<le> length lines"
  shows "foldr splice_one rs lines = take pos lines @ weave pos lines rs"
  using assms
proof (induction rs arbitrary: pos)
  case (Cons r rs)
  let ?e = "rp_startIndex r + rp_oldLen r"
  have "foldr splice_one rs lines = take ?e lines @ weave ?e lines rs"
    using Cons.IH sorted_apart [OF Cons.prems(1,2)] Cons.prems(3) by auto
  moreover have "pos \<le> rp_startIndex r" "?e \<le> length lines" using Cons.prems(3) by auto
  moreover have "take (rp_startIndex r) lines = take pos lines @ slice lines pos (rp_startIndex r)"
    using \<open>pos \<le> rp_startIndex r\<close> by (metis le_add_diff_inverse slice_def take_add)
  ultimately show ?case unfolding foldr_Cons comp_def weave.simps
    by (simp add: splice_one_def [of r] min_def)
qed simp

text \<open>
  Replacements that are accepted are those of the hunks, ordered by their place and, at one place, as given; the
  result of making them from the last to the first has each at its place, between the unchanged lines of the file.
\<close>

theorem replacements_at_their_places:
  assumes "order_replacements rs = Inr sorted_rs" "\<forall>r\<in>set rs. rp_startIndex r + rp_oldLen r \<le> length lines"
  shows "applyReplacements lines sorted_rs = weave 0 lines sorted_rs \<and> mset sorted_rs = mset rs \<and>
    (\<forall>k. filter (\<lambda>r. rp_startIndex r = k) sorted_rs = filter (\<lambda>r. rp_startIndex r = k) rs)"
proof -
  have s: "sorted_rs = sort_key rp_startIndex rs" "find_overlap sorted_rs = None"
    using assms(1) by (auto simp: order_replacements_def Let_def split: option.splits)
  then have "applyReplacements lines sorted_rs = weave 0 lines sorted_rs"
    using apply_weave [of sorted_rs 0 lines] assms(2) by (simp add: applyReplacements_def)
  moreover have "filter (\<lambda>r. rp_startIndex r = k) sorted_rs = filter (\<lambda>r. rp_startIndex r = k) rs" for k
    unfolding s(1) by (rule sort_key_stable)
  ultimately show ?thesis using s(1) by simp
qed

section \<open>What is printed is read back\<close>

definition print_input :: "patch_input \<Rightarrow> jstring list" where
  "print_input p =
     (case pi_op p of
        CreateFile \<Rightarrow> (ADD_FILE_MARKER @ pi_path p) # map (\<lambda>l. js ''+'' @ l) (butlast (split_lines (the (pi_diff p))))
      | DeleteFile \<Rightarrow> [DELETE_FILE_MARKER @ pi_path p]
      | UpdateFile \<Rightarrow> (UPDATE_FILE_MARKER @ pi_path p) #
          (case pi_rename p of Some d \<Rightarrow> [MOVE_TO_MARKER @ d] | None \<Rightarrow> []) @ split_lines (the (pi_diff p)))"

definition print_patch :: "patch_input list \<Rightarrow> jstring" where
  "print_patch ps = join_lines (ENVELOPE_BEGIN # concat (map print_input ps) @ [ENVELOPE_END])"

definition printable :: "patch_input \<Rightarrow> bool" where
  "printable p \<longleftrightarrow> pi_path p \<noteq> [] \<and> LF \<notin> set (pi_path p) \<and> trim (pi_path p) = pi_path p \<and>
     (case pi_op p of
        CreateFile \<Rightarrow> pi_rename p = None \<and> (\<exists>d. pi_diff p = Some d \<and> (d = [] \<or> last d = LF))
      | DeleteFile \<Rightarrow> pi_rename p = None \<and> pi_diff p = None
      | UpdateFile \<Rightarrow> (\<exists>d. pi_diff p = Some d \<and> (\<forall>l\<in>set (split_lines d). \<not> is_file_marker l) \<and>
          (pi_rename p = None \<longrightarrow> \<not> starts_with (hd (split_lines d)) MOVE_TO_MARKER)) \<and>
          (\<forall>d. pi_rename p = Some d \<longrightarrow> LF \<notin> set d))"

lemma trim_keeps_end:
  assumes "\<not> is_js_space c" "path \<noteq> []" "trim path = path"
  shows "trim (c # m @ path) = c # m @ path"
proof -
  have "rev path = dropWhile is_js_space (rev (trim_start path))"
    using assms(3) unfolding trim_def trim_end_def by (metis rev_rev_ident)
  then have "\<not> is_js_space (hd (rev path))" using assms(2) by (metis hd_dropWhile rev_is_Nil_conv)
  then have "dropWhile is_js_space (rev path @ rev m @ [c]) = rev path @ rev m @ [c]"
    using assms(2) by (cases "rev path") auto
  then show ?thesis using assms(1) by (simp add: trim_def trim_end_def trim_start_def)
qed

lemma marker_facts:
  assumes "path \<noteq> []" "trim path = path" "m \<in> {ADD_FILE_MARKER, DELETE_FILE_MARKER, UPDATE_FILE_MARKER}"
  shows "trim (m @ path) = m @ path" "is_file_marker (m @ path)" "\<not> starts_with (m @ path) (js ''+'')"
proof -
  obtain c t where m: "m = c # t" "\<not> is_js_space c" using assms(3)
    by (auto simp: ADD_FILE_MARKER_def DELETE_FILE_MARKER_def UPDATE_FILE_MARKER_def js_def is_js_space_def)
  show "trim (m @ path) = m @ path" using trim_keeps_end [OF m(2) assms(1,2), of t] m(1) by simp
  show "is_file_marker (m @ path)" "\<not> starts_with (m @ path) (js ''+'')" using assms(3)
    by (auto simp: ADD_FILE_MARKER_def DELETE_FILE_MARKER_def UPDATE_FILE_MARKER_def js_def is_file_marker_def starts_with_def)
qed

lemma marker_starts:
  "starts_with (DELETE_FILE_MARKER @ p) ADD_FILE_MARKER = False"
  "starts_with (UPDATE_FILE_MARKER @ p) ADD_FILE_MARKER = False"
  "starts_with (UPDATE_FILE_MARKER @ p) DELETE_FILE_MARKER = False"
  "ADD_FILE_MARKER \<noteq> []" "DELETE_FILE_MARKER \<noteq> []" "UPDATE_FILE_MARKER \<noteq> []"
  by (simp_all add: ADD_FILE_MARKER_def DELETE_FILE_MARKER_def UPDATE_FILE_MARKER_def js_def starts_with_def)

lemma join_terminated: "join_lines (ls @ [[]]) = concat (map (\<lambda>l. l @ [LF]) ls)"
  by (induction ls) (simp_all add: join_with_Cons)

lemma terminated_contents:
  assumes "d = [] \<or> last d = LF"
  shows "concat (map (\<lambda>l. l @ [LF]) (butlast (split_lines d))) = d"
proof (cases "d = []")
  case False
  then have "d = butlast d @ [LF]" using assms by (metis append_butlast_last_id)
  then have "last (split_lines d) = []" using last_split_snoc [of LF "butlast d"] by metis
  then have "split_lines d = butlast (split_lines d) @ [[]]" by (metis append_butlast_last_id split_on_not_Nil)
  then show ?thesis using join_terminated [of "butlast (split_lines d)"] join_split [of LF d] by metis
qed simp

lemma added_rows_printed:
  "rest = [] \<or> \<not> starts_with (hd rest) (js ''+'') \<Longrightarrow>
    added_rows (map (\<lambda>l. js ''+'' @ l) ls @ rest) = (concat (map (\<lambda>l. l @ [LF]) ls), length ls)"
  by (induction ls) (cases rest; auto simp: starts_with_def js_def)+

text \<open>What a printed operation begins with.\<close>

lemma print_input_hd:
  assumes "printable p"
  obtains m where "m \<in> {ADD_FILE_MARKER, DELETE_FILE_MARKER, UPDATE_FILE_MARKER}" "hd (print_input p) = m @ pi_path p" "print_input p \<noteq> []"
  by (rule that [of "case pi_op p of CreateFile \<Rightarrow> ADD_FILE_MARKER | DeleteFile \<Rightarrow> DELETE_FILE_MARKER | UpdateFile \<Rightarrow> UPDATE_FILE_MARKER"])
    (simp_all add: print_input_def split: operation.split)

lemma printed_next:
  assumes "\<forall>p\<in>set ps. printable p"
  shows "concat (map print_input ps) = [] \<or>
    is_file_marker (hd (concat (map print_input ps))) \<and> \<not> starts_with (hd (concat (map print_input ps))) (js ''+'')"
proof (cases ps)
  case (Cons p qs)
  then have p: "printable p" using assms by simp
  obtain m where m: "m \<in> {ADD_FILE_MARKER, DELETE_FILE_MARKER, UPDATE_FILE_MARKER}" "hd (print_input p) = m @ pi_path p" "print_input p \<noteq> []"
    by (rule print_input_hd [OF p])
  have "pi_path p \<noteq> []" "trim (pi_path p) = pi_path p" using p by (simp_all add: printable_def)
  then show ?thesis using marker_facts(2,3) [OF _ _ m(1)] m Cons by simp
qed simp

lemma takeWhile_stop: "\<lbrakk>\<forall>x\<in>set xs. P x; ys = [] \<or> \<not> P (hd ys)\<rbrakk> \<Longrightarrow> takeWhile P (xs @ ys) = xs"
  by (cases ys) auto

lemma parse_printed: "\<forall>p\<in>set ps. printable p \<Longrightarrow> parse_hunks streaming (concat (map print_input ps)) n = Inr ps"
proof (induction ps arbitrary: n)
  case Nil
  then show ?case by (simp add: parse_hunks.simps)
next
  case (Cons p ps)
  let ?rest = "concat (map print_input ps)"
  have p: "printable p" "pi_path p \<noteq> []" "trim (pi_path p) = pi_path p" using Cons.prems by (auto simp: printable_def)
  note nx = printed_next [of ps]
  have IH: "parse_hunks streaming ?rest k = Inr ps" for k using Cons by simp
  show ?case
  proof (cases "pi_op p")
    case CreateFile
    then obtain d where d: "pi_diff p = Some d" "d = [] \<or> last d = LF" "pi_rename p = None" using p(1) by (auto simp: printable_def)
    have a: "added_rows (map (\<lambda>l. js ''+'' @ l) (butlast (split_lines d)) @ ?rest) = (d, length (butlast (split_lines d)))"
      using added_rows_printed [of ?rest "butlast (split_lines d)"] nx Cons.prems terminated_contents [OF d(2)] by auto
    show ?thesis using CreateFile d a IH marker_facts(1) [OF p(2,3), of ADD_FILE_MARKER]
      by (simp add: print_input_def [of p] parse_hunks.simps [of streaming "_ # _"] marker_starts Let_def del: js_Cons js_Nil)
  next
    case DeleteFile
    then have "pi_diff p = None" "pi_rename p = None" using p(1) by (auto simp: printable_def)
    then show ?thesis using DeleteFile IH marker_facts(1) [OF p(2,3), of DELETE_FILE_MARKER]
      by (simp add: print_input_def [of p] parse_hunks.simps [of streaming "_ # _"] marker_starts Let_def)
  next
    case UpdateFile
    then obtain d where d: "pi_diff p = Some d" "\<forall>l\<in>set (split_lines d). \<not> is_file_marker l"
        "pi_rename p = None \<longrightarrow> \<not> starts_with (hd (split_lines d)) MOVE_TO_MARKER" using p(1) by (auto simp: printable_def)
    have t: "takeWhile (\<lambda>l. \<not> is_file_marker l) (split_lines d @ ?rest) = split_lines d"
      using nx Cons.prems d(2) by (intro takeWhile_stop) auto
    obtain l ls where l: "split_lines d = l # ls" by (meson neq_Nil_conv split_on_not_Nil)
    show ?thesis
    proof (cases "pi_rename p")
      case None
      then have "\<not> starts_with l MOVE_TO_MARKER" using d(3) l by simp
      then show ?thesis using UpdateFile None d(1) IH t l join_split [of LF d] marker_facts(1) [OF p(2,3), of UPDATE_FILE_MARKER]
        by (simp add: print_input_def [of p] parse_hunks.simps [of streaming "_ # _"] marker_starts Let_def)
    next
      case (Some m)
      then show ?thesis using UpdateFile d(1) IH t l join_split [of LF d] marker_facts(1) [OF p(2,3), of UPDATE_FILE_MARKER]
        by (simp add: print_input_def [of p] parse_hunks.simps [of streaming "_ # _"] marker_starts Let_def)
    qed
  qed
qed

lemma printed_rows_clean:
  assumes "printable p" "l \<in> set (print_input p)"
  shows "LF \<notin> set l"
proof -
  have m: "LF \<notin> set ADD_FILE_MARKER" "LF \<notin> set DELETE_FILE_MARKER" "LF \<notin> set UPDATE_FILE_MARKER" "LF \<notin> set MOVE_TO_MARKER"
      "LF \<notin> set (js ''+'')"
    by (simp_all add: ADD_FILE_MARKER_def DELETE_FILE_MARKER_def UPDATE_FILE_MARKER_def MOVE_TO_MARKER_def js_def)
  have s: "LF \<notin> set x" if "x \<in> set (split_lines d)" for x d using that by (rule split_on_no_sep)
  show ?thesis using assms m s
    by (cases "pi_op p") (auto simp: print_input_def printable_def dest!: in_set_butlastD split: option.splits)
qed

lemma envelope_ends:
  "LF \<notin> set ENVELOPE_BEGIN" "LF \<notin> set ENVELOPE_END"
  "trim ENVELOPE_BEGIN = ENVELOPE_BEGIN" "trim ENVELOPE_END = ENVELOPE_END"
  "ENVELOPE_BEGIN \<notin> set (map js [''<<EOF'', [CHR ''<'', CHR ''<'', CHR 0x27] @ ''EOF'' @ [CHR 0x27], ''<<\"EOF\"''])"
  by code_simp+

lemma trim_print_patch: "trim (print_patch ps) = print_patch ps"
proof -
  have j: "join_lines (xs @ [y]) = (if xs = [] then [] else join_lines xs @ [LF]) @ y" for xs and y :: jstring
    by (induction xs) (simp_all add: join_with_Cons)
  have "ENVELOPE_BEGIN = 42 # drop 1 ENVELOPE_BEGIN" "ENVELOPE_END = butlast ENVELOPE_END @ [104]" by code_simp+
  then obtain b e where be: "ENVELOPE_BEGIN = 42 # b" "ENVELOPE_END = e @ [104]" by blast
  have "print_patch ps = 42 # b @ [LF] @ join_lines (concat (map print_input ps) @ [ENVELOPE_END])"
    using be by (simp add: print_patch_def join_with_Cons)
  then obtain mid where "print_patch ps = 42 # mid @ [104]"
    using be j [of "concat (map print_input ps)" ENVELOPE_END] by (metis append.assoc)
  then show ?thesis by (simp add: trim_def trim_start_def trim_end_def is_js_space_def)
qed

lemma parse_print_patch:
  assumes "\<forall>p\<in>set ps. printable p"
  shows "parseApplyPatchWithOptions streaming (print_patch ps) = Inr ps"
proof -
  let ?rows = "concat (map print_input ps)" and ?lines = "ENVELOPE_BEGIN # concat (map print_input ps) @ [ENVELOPE_END]"
  have "LF \<notin> set l" if "l \<in> set ?lines" for l
    using that envelope_ends(1,2) printed_rows_clean assms by auto
  then have l: "split_lines (trim (print_patch ps)) = ?lines"
    unfolding trim_print_patch unfolding print_patch_def by (intro split_join) auto
  have "strip_heredoc ?lines = ?lines" using envelope_ends(5) by (simp add: strip_heredoc_def)
  moreover have "slice ?lines 1 (length ?lines - 1) = ?rows" by (simp add: slice_def)
  moreover have "last ?lines = ENVELOPE_END" by simp
  ultimately show ?thesis using l envelope_ends(3,4) parse_printed [OF assms]
    by (simp add: parseApplyPatchWithOptions_def Let_def)
qed

text \<open>
  C29: The envelope that is printed for a list of file operations is read back as exactly these operations, with
  their paths, contents, renames and diffs, by the strict parser and by the one for previews.
\<close>

theorem apply_patch_roundtrip:
  assumes "\<forall>p\<in>set ps. printable p"
  shows "parseApplyPatch (print_patch ps) = Inr ps \<and> parseApplyPatchStreaming (print_patch ps) = Inr ps"
  unfolding parseApplyPatch_def parseApplyPatchStreaming_def using parse_print_patch [OF assms] by blast

lemma apply_patch_roundtrip_witness:
  "let ps = [\<lparr>pi_path = js ''a.txt'', pi_op = CreateFile, pi_rename = None, pi_diff = Some (js ''one'' @ [LF, LF])\<rparr>,
             \<lparr>pi_path = js ''b c.txt'', pi_op = DeleteFile, pi_rename = None, pi_diff = None\<rparr>,
             \<lparr>pi_path = js ''d'', pi_op = UpdateFile, pi_rename = Some (js ''e''), pi_diff = Some (js ''@@'' @ [LF] @ js ''-x'' @ [LF] @ js ''+y'')\<rparr>]
   in parseApplyPatch (print_patch ps) = Inr ps \<and> parseApplyPatchStreaming (print_patch ps) = Inr ps"
  unfolding Let_def
  by (rule apply_patch_roundtrip) (simp add: printable_def is_file_marker_def MOVE_TO_MARKER_def js_def starts_with_def
      trim_def trim_start_def trim_end_def is_js_space_def)

text \<open>The parser for previews never fails.\<close>

lemma streaming_parse_hunks: "parse_hunks True rows n \<noteq> Inl e"
proof (induction "length rows" arbitrary: rows n rule: less_induct)
  case less
  show ?case
  proof (cases rows)
    case (Cons row rest)
    have IH: "parse_hunks True (drop k rest) m \<noteq> Inl e" for k m using less Cons by simp
    have IH0: "parse_hunks True rest m \<noteq> Inl e" for m using IH [of 0] by simp
    have IH1: "parse_hunks True (drop k (tl rest)) m \<noteq> Inl e" for k m using IH [of "Suc k"] by (simp add: drop_Suc)
    obtain c k where a: "added_rows rest = (c, k)" by fastforce
    have IH2: "parse_hunks True (drop k y) m \<noteq> Inl e" if "rest = x # y" for x y k m using IH1 that by simp
    show ?thesis using IH IH0 IH2 a
      by (simp add: parse_hunks.simps [of True "row # rest"] Cons Let_def rbind_Inl_iff split: list.split) (use IH0 in auto)
  qed (simp add: parse_hunks.simps)
qed

lemma streaming_never_fails: "\<exists>ps. parseApplyPatchStreaming patchText = Inr ps"
proof (cases "parseApplyPatchStreaming patchText")
  case (Inl e)
  then show ?thesis using streaming_parse_hunks
    by (auto simp: parseApplyPatchStreaming_def parseApplyPatchWithOptions_def Let_def split: if_splits)
qed simp

lemma replacements_at_their_places_witness:
  "applyReplacements (map js [''a'', ''b'', ''c'', ''d''])
      [\<lparr>rp_startIndex = 1, rp_oldLen = 0, rp_newLines = [js ''x'']\<rparr>, \<lparr>rp_startIndex = 1, rp_oldLen = 2, rp_newLines = [js ''y'']\<rparr>] =
    map js [''a'', ''x'', ''y'', ''d'']"
proof -
  let ?rs = "[\<lparr>rp_startIndex = 1, rp_oldLen = 0, rp_newLines = [js ''x'']\<rparr>, \<lparr>rp_startIndex = 1, rp_oldLen = 2, rp_newLines = [js ''y'']\<rparr>]"
  have o: "order_replacements ?rs = Inr ?rs" by code_simp
  have "\<forall>r\<in>set ?rs. rp_startIndex r + rp_oldLen r \<le> length (map js [''a'', ''b'', ''c'', ''d''])" by simp
  from replacements_at_their_places [OF o this] show ?thesis by (simp add: slice_def)
qed

text \<open>An insertion that follows a replacement at the same place is rejected; in the other order both are made.\<close>

lemma insertion_order_matters:
  "\<exists>p. order_replacements [\<lparr>rp_startIndex = 1, rp_oldLen = 2, rp_newLines = y\<rparr>, \<lparr>rp_startIndex = 1, rp_oldLen = 0, rp_newLines = x\<rparr>] = Inl p"
  by (simp add: order_replacements_def)

end
