(* ===== verification/Replace_Text.thy ===== *)
theory Replace_Text
  imports Normalize Complex_Main
begin

text \<open>
  The replace mode of the edit tool: \<open>replaceText\<close> of \<open>packages/coding-agent/src/edit/diff.ts\<close>, the matching of
  \<open>edit/modes/replace.ts\<close> with its edit distance, the adjustment of the indentation of \<open>edit/normalize.ts\<close>, and
  the text that \<open>executeReplaceSingle\<close> writes.  Scores are rational numbers; \<open>fl\<close> rounds one to a double, and is a
  parameter of all definitions that compute with scores.
\<close>

section \<open>Edit distance\<close>

text \<open>One row of the table: the cells of \<open>curr\<close> from the cells of \<open>prev\<close> and the cell to the left.\<close>

fun lev_cells :: "nat \<Rightarrow> jstring \<Rightarrow> nat list \<Rightarrow> nat \<Rightarrow> nat list" where
  "lev_cells aCode (bCode # bs) (p0 # p1 # ps) left =
     (let cost = (if aCode = bCode then 0 else 1);
          deletion = p1 + 1; insertion = left + 1; substitution = p0 + cost;
          cell = min (min deletion insertion) substitution
      in cell # lev_cells aCode bs (p1 # ps) cell)"
| "lev_cells aCode _ _ left = []"

fun lev_rows :: "nat \<Rightarrow> jstring \<Rightarrow> jstring \<Rightarrow> nat list \<Rightarrow> nat list" where
  "lev_rows i [] b prev = prev"
| "lev_rows i (aCode # as) b prev = lev_rows (i + 1) as b (i # lev_cells aCode b prev i)"

definition levenshteinDistance :: "jstring \<Rightarrow> jstring \<Rightarrow> nat" where
  "levenshteinDistance a b =
     (if a = b then 0 else if length a = 0 then length b else if length b = 0 then length a
      else lev_rows 1 a b [0..<length b + 1] ! length b)"

definition similarity :: "(rat \<Rightarrow> rat) \<Rightarrow> jstring \<Rightarrow> jstring \<Rightarrow> rat" where
  "similarity fl a b =
     (if length a = 0 \<and> length b = 0 then 1
      else fl (1 - fl (of_nat (levenshteinDistance a b) / of_nat (max (length a) (length b)))))"

section \<open>White space\<close>

abbreviation (input) SPACE :: nat where "SPACE \<equiv> 32"
abbreviation (input) TAB :: nat where "TAB \<equiv> 9"

definition countLeadingWhitespace :: "jstring \<Rightarrow> nat" where
  "countLeadingWhitespace line = length (takeWhile (\<lambda>c. c = SPACE \<or> c = TAB) line)"

definition getLeadingWhitespace :: "jstring \<Rightarrow> jstring" where
  "getLeadingWhitespace line = take (countLeadingWhitespace line) line"

definition isNonEmptyLine :: "jstring \<Rightarrow> bool" where
  "isNonEmptyLine line = (length (trim line) > 0)"

definition detectIndentChar :: "jstring \<Rightarrow> nat" where
  "detectIndentChar text =
     (case find (\<lambda>line. length (getLeadingWhitespace line) > 0) (split_lines text) of
        Some line \<Rightarrow> getLeadingWhitespace line ! 0
      | None \<Rightarrow> SPACE)"

text \<open>A run of blanks becomes one space.\<close>

fun collapse_blanks :: "bool \<Rightarrow> jstring \<Rightarrow> jstring" where
  "collapse_blanks in_run [] = []"
| "collapse_blanks in_run (c # cs) =
     (if c = SPACE \<or> c = TAB then (if in_run then [] else [SPACE]) @ collapse_blanks True cs
      else c # collapse_blanks False cs)"

definition plain_mark :: "nat \<Rightarrow> nat" where
  "plain_mark c =
     (if c \<in> set [0x22, 0x201E, 0x201F, 0xAB, 0xBB] then 0x22
      else if c \<in> set [0x27, 0x201A, 0x201B, 0x60, 0xB4] then 0x27
      else if c \<in> set [0x2010, 0x2011, 0x2012, 0x2013, 0x2014, 0x2212] then 0x2D
      else c)"

definition normalizeForFuzzy :: "jstring \<Rightarrow> jstring" where
  "normalizeForFuzzy line =
     (let trimmed = trim line
      in if length trimmed = 0 then [] else collapse_blanks False (map plain_mark trimmed))"

section \<open>Indentation\<close>

record indent_profile =
  ip_lines :: "jstring list"
  ip_indentCounts :: "nat list"
  ip_char :: "nat option"
  ip_spaceOnly :: bool
  ip_tabOnly :: bool
  ip_mixed :: bool
  ip_unit :: nat
  ip_nonEmptyCount :: nat

fun euclid :: "nat \<Rightarrow> nat \<Rightarrow> nat" where
  "euclid x y = (if y = 0 then x else euclid y (x mod y))"

declare euclid.simps [simp del]

definition profile_line :: "indent_profile \<Rightarrow> jstring \<Rightarrow> indent_profile" where
  "profile_line p line =
     (if \<not> isNonEmptyLine line then p
      else let indent = getLeadingWhitespace line;
               p1 = p\<lparr>ip_nonEmptyCount := ip_nonEmptyCount p + 1, ip_indentCounts := ip_indentCounts p @ [length indent],
                      ip_tabOnly := ip_tabOnly p \<and> SPACE \<notin> set indent,
                      ip_spaceOnly := ip_spaceOnly p \<and> TAB \<notin> set indent,
                      ip_mixed := ip_mixed p \<or> (SPACE \<in> set indent \<and> TAB \<in> set indent)\<rparr>
           in case indent of
                [] \<Rightarrow> p1
              | c # _ \<Rightarrow> (case ip_char p1 of
                    None \<Rightarrow> p1\<lparr>ip_char := Some c\<rparr>
                  | Some d \<Rightarrow> if d \<noteq> c then p1\<lparr>ip_mixed := True\<rparr> else p1))"

definition buildIndentProfile :: "jstring \<Rightarrow> indent_profile" where
  "buildIndentProfile text =
     (let lines = split_lines text;
          p = foldl profile_line
            \<lparr>ip_lines = lines, ip_indentCounts = [], ip_char = None, ip_spaceOnly = True, ip_tabOnly = True, ip_mixed = False,
             ip_unit = 0, ip_nonEmptyCount = 0\<rparr> lines;
          p1 = (if ip_spaceOnly p \<and> ip_nonEmptyCount p > 0
                then p\<lparr>ip_unit := foldl (\<lambda>current count. if count = 0 then current
                         else if current = 0 then count else euclid current count) 0 (ip_indentCounts p)\<rparr>
                else p)
      in if ip_tabOnly p1 \<and> ip_nonEmptyCount p1 > 0 then p1\<lparr>ip_unit := 1\<rparr> else p1)"

definition convertLeadingTabsToSpaces :: "jstring \<Rightarrow> nat \<Rightarrow> jstring" where
  "convertLeadingTabsToSpaces text spacesPerTab =
     (if spacesPerTab = 0 then text
      else join_lines (map (\<lambda>line.
             let trimmed = trim_start line; leading = getLeadingWhitespace line
             in if length trimmed = 0 then line
                else if TAB \<notin> set leading \<or> SPACE \<in> set leading then line
                else replicate (length leading * spacesPerTab) SPACE @ trimmed) (split_lines text)))"

definition isIndentationOnlyRewrite :: "jstring \<Rightarrow> jstring \<Rightarrow> bool" where
  "isIndentationOnlyRewrite oldText newText = (map trim (split_lines oldText) = map trim (split_lines newText))"

text \<open>The pairs of lines that are not empty, as far as both texts go.\<close>

definition line_pairs :: "indent_profile \<Rightarrow> indent_profile \<Rightarrow> (jstring \<times> jstring) list" where
  "line_pairs oldProfile actualProfile =
     filter (\<lambda>(x, y). isNonEmptyLine x \<and> isNonEmptyLine y) (zip (ip_lines oldProfile) (ip_lines actualProfile))"

definition maybeConvertTabIndentation ::
  "indent_profile \<Rightarrow> indent_profile \<Rightarrow> indent_profile \<Rightarrow> jstring \<Rightarrow> jstring option" where
  "maybeConvertTabIndentation oldProfile actualProfile newProfile newText =
     (if \<not> ip_spaceOnly actualProfile \<or> \<not> ip_tabOnly oldProfile \<or> \<not> ip_tabOnly newProfile \<or> ip_unit actualProfile = 0 then None
      else if list_ex (\<lambda>(oldLine, actualLine).
             let oldIndent = getLeadingWhitespace oldLine; actualIndent = getLeadingWhitespace actualLine
             in length oldIndent \<noteq> 0 \<and> length actualIndent \<noteq> length oldIndent * ip_unit actualProfile)
           (line_pairs oldProfile actualProfile)
      then None
      else Some (convertLeadingTabsToSpaces newText (ip_unit actualProfile)))"

definition computeUniformIndentDelta :: "indent_profile \<Rightarrow> indent_profile \<Rightarrow> int option" where
  "computeUniformIndentDelta oldProfile actualProfile =
     (let deltas = map (\<lambda>(oldLine, actualLine). int (countLeadingWhitespace actualLine) - int (countLeadingWhitespace oldLine))
            (line_pairs oldProfile actualProfile)
      in case deltas of [] \<Rightarrow> None | delta # _ \<Rightarrow> if list_all (\<lambda>v. v = delta) deltas then Some delta else None)"

definition applyIndentDelta :: "jstring \<Rightarrow> int \<Rightarrow> nat \<Rightarrow> jstring" where
  "applyIndentDelta text delta indentChar =
     join_lines (map (\<lambda>line.
       if \<not> isNonEmptyLine line then line
       else if delta > 0 then replicate (nat delta) indentChar @ line
       else drop (min (nat (- delta)) (countLeadingWhitespace line)) line) (split_lines text))"

definition adjustIndentation :: "jstring \<Rightarrow> jstring \<Rightarrow> jstring \<Rightarrow> jstring" where
  "adjustIndentation oldText actualText newText =
     (if oldText = actualText then newText
      else if isIndentationOnlyRewrite oldText newText then newText
      else let oldProfile = buildIndentProfile oldText; actualProfile = buildIndentProfile actualText;
               newProfile = buildIndentProfile newText
        in if ip_nonEmptyCount oldProfile = 0 \<or> ip_nonEmptyCount actualProfile = 0 \<or> ip_nonEmptyCount newProfile = 0 then newText
           else if ip_mixed oldProfile \<or> ip_mixed actualProfile \<or> ip_mixed newProfile then newText
           else if ip_char oldProfile \<noteq> None \<and> ip_char actualProfile \<noteq> None \<and> ip_char oldProfile \<noteq> ip_char actualProfile
           then (case maybeConvertTabIndentation oldProfile actualProfile newProfile newText of
                   Some converted \<Rightarrow> converted | None \<Rightarrow> newText)
           else (case computeUniformIndentDelta oldProfile actualProfile of
                   None \<Rightarrow> newText
                 | Some delta \<Rightarrow>
                     if delta = 0 then newText
                     else if ip_char newProfile \<noteq> None \<and> ip_char actualProfile \<noteq> None \<and> ip_char newProfile \<noteq> ip_char actualProfile
                     then newText
                     else let indentChar = (case ip_char actualProfile of Some c \<Rightarrow> c
                             | None \<Rightarrow> (case ip_char oldProfile of Some c \<Rightarrow> c | None \<Rightarrow> detectIndentChar actualText))
                       in applyIndentDelta newText delta indentChar))"

section \<open>Matching\<close>

definition min_of :: "nat list \<Rightarrow> nat" where "min_of xs = foldl min (hd xs) (tl xs)"

text \<open>\<open>Math.round\<close> of a quotient of natural numbers.\<close>

definition round_div :: "nat \<Rightarrow> nat \<Rightarrow> nat" where "round_div a b = (2 * a + b) div (2 * b)"

definition computeRelativeIndentDepths :: "jstring list \<Rightarrow> nat list" where
  "computeRelativeIndentDepths lines =
     (let nonEmptyIndents = map countLeadingWhitespace (filter isNonEmptyLine lines);
          minIndent = (if length nonEmptyIndents > 0 then min_of nonEmptyIndents else 0);
          indentSteps = filter (\<lambda>s. s > 0) (map (\<lambda>i. i - minIndent) nonEmptyIndents);
          indentUnit = (if length indentSteps > 0 then min_of indentSteps else 1)
      in map (\<lambda>line. if length (trim line) = 0 then 0
                     else round_div (countLeadingWhitespace line - minIndent) indentUnit) lines)"

definition normalizeLines :: "jstring list \<Rightarrow> bool \<Rightarrow> jstring list" where
  "normalizeLines lines includeDepth =
     map (\<lambda>(line, depth).
       let trimmed = trim line; prefix = (if includeDepth then dec depth else []) @ js ''|''
       in if length trimmed = 0 then prefix else prefix @ normalizeForFuzzy trimmed)
       (zip lines (computeRelativeIndentDepths lines))"

fun computeLineOffsets :: "jstring list \<Rightarrow> nat \<Rightarrow> nat list" where
  "computeLineOffsets [] offset = []"
| "computeLineOffsets (l # ls) offset = offset # computeLineOffsets ls (offset + length l + (if ls = [] then 0 else 1))"

record fuzzy_match =
  fm_actualText :: jstring
  fm_startIndex :: nat
  fm_startLine :: nat
  fm_confidence :: rat

record best_state =
  bs_best :: "fuzzy_match option"
  bs_bestScore :: rat
  bs_secondBestScore :: rat
  bs_aboveThresholdCount :: nat

definition score_window :: "(rat \<Rightarrow> rat) \<Rightarrow> jstring list \<Rightarrow> jstring list \<Rightarrow> rat" where
  "score_window fl targetNormalized windowNormalized =
     fl (foldl (\<lambda>score (t, w). fl (score + similarity fl t w)) 0 (zip targetNormalized windowNormalized)
         / of_nat (length targetNormalized))"

definition findBestFuzzyMatchCore ::
  "(rat \<Rightarrow> rat) \<Rightarrow> jstring list \<Rightarrow> jstring list \<Rightarrow> nat list \<Rightarrow> rat \<Rightarrow> bool \<Rightarrow> best_state" where
  "findBestFuzzyMatchCore fl contentLines targetLines offsets threshold includeDepth =
     (let targetNormalized = normalizeLines targetLines includeDepth
      in foldl (\<lambda>st start.
           let windowLines = slice contentLines start (start + length targetLines);
               score = score_window fl targetNormalized (normalizeLines windowLines includeDepth);
               st1 = (if score \<ge> threshold then st\<lparr>bs_aboveThresholdCount := bs_aboveThresholdCount st + 1\<rparr> else st)
           in if score > bs_bestScore st1
              then st1\<lparr>bs_secondBestScore := bs_bestScore st1, bs_bestScore := score,
                       bs_best := Some \<lparr>fm_actualText = join_lines windowLines, fm_startIndex = offsets ! start,
                                        fm_startLine = start + 1, fm_confidence = score\<rparr>\<rparr>
              else if score > bs_secondBestScore st1 then st1\<lparr>bs_secondBestScore := score\<rparr> else st1)
         \<lparr>bs_best = None, bs_bestScore = -1, bs_secondBestScore = -1, bs_aboveThresholdCount = 0\<rparr>
         [0..<length contentLines + 1 - length targetLines])"

definition FALLBACK_THRESHOLD :: rat where "FALLBACK_THRESHOLD = 8 / 10"
definition DEFAULT_FUZZY_THRESHOLD :: rat where "DEFAULT_FUZZY_THRESHOLD = 95 / 100"
definition DOMINANT_FUZZY_MIN_CONFIDENCE :: rat where "DOMINANT_FUZZY_MIN_CONFIDENCE = 97 / 100"
definition DOMINANT_FUZZY_DELTA :: rat where "DOMINANT_FUZZY_DELTA = 8 / 100"

definition no_best :: best_state where
  "no_best = \<lparr>bs_best = None, bs_bestScore = 0, bs_secondBestScore = 0, bs_aboveThresholdCount = 0\<rparr>"

definition findBestFuzzyMatch :: "(rat \<Rightarrow> rat) \<Rightarrow> jstring \<Rightarrow> jstring \<Rightarrow> rat \<Rightarrow> best_state" where
  "findBestFuzzyMatch fl content target threshold =
     (let contentLines = split_lines content; targetLines = split_lines target
      in if length targetLines = 0 \<or> length target = 0 then no_best
         else if length targetLines > length contentLines then no_best
         else let offsets = computeLineOffsets contentLines 0;
                  result = findBestFuzzyMatchCore fl contentLines targetLines offsets threshold True
           in case bs_best result of
                None \<Rightarrow> result
              | Some best \<Rightarrow>
                  if fm_confidence best < threshold \<and> fm_confidence best \<ge> fl FALLBACK_THRESHOLD
                  then let noDepthResult = findBestFuzzyMatchCore fl contentLines targetLines offsets threshold False
                    in case bs_best noDepthResult of
                         Some nd \<Rightarrow> if fm_confidence nd > fm_confidence best then noDepthResult else result
                       | None \<Rightarrow> result
                  else result)"

record match_outcome =
  mo_match :: "fuzzy_match option"
  mo_closest :: "fuzzy_match option"
  mo_occurrences :: "nat option"
  mo_fuzzyMatches :: "nat option"
  mo_dominantFuzzy :: bool

definition no_match :: match_outcome where
  "no_match = \<lparr>mo_match = None, mo_closest = None, mo_occurrences = None, mo_fuzzyMatches = None, mo_dominantFuzzy = False\<rparr>"

text \<open>\<open>content.split(target)\<close> for a text that is not empty.\<close>

function split_str :: "jstring \<Rightarrow> jstring \<Rightarrow> jstring list" where
  "split_str target s =
     (if target = [] then [s]
      else case index_of s target of
             None \<Rightarrow> [s]
           | Some k \<Rightarrow> take k s # split_str target (drop (k + length target) s))"
  by pat_completeness auto
termination
proof (relation "measure (\<lambda>(t, s). length s)", goal_cases)
  case (2 t s k)
  then have "take (length t) (drop k s) = t" by (auto simp: index_of_Some starts_with_at_def)
  then have "k < length s" using 2(1) by (metis drop_all leI take_Nil)
  then show ?case using 2(1) by (cases t) auto
qed simp

declare split_str.simps [simp del]

definition findExactMatchOutcome :: "jstring \<Rightarrow> jstring \<Rightarrow> match_outcome option" where
  "findExactMatchOutcome content target =
     (case index_of content target of
        None \<Rightarrow> None
      | Some exactIndex \<Rightarrow>
          let occurrences = length (split_str target content) - 1
          in if occurrences > 1 then Some (no_match\<lparr>mo_occurrences := Some occurrences\<rparr>)
             else Some (no_match\<lparr>mo_match := Some \<lparr>fm_actualText = target, fm_startIndex = exactIndex,
                    fm_startLine = length (split_lines (take exactIndex content)), fm_confidence = 1\<rparr>\<rparr>))"

definition findMatch :: "(rat \<Rightarrow> rat) \<Rightarrow> jstring \<Rightarrow> jstring \<Rightarrow> bool \<Rightarrow> rat \<Rightarrow> match_outcome" where
  "findMatch fl content target allowFuzzy threshold =
     (if length target = 0 then no_match
      else case findExactMatchOutcome content target of
             Some exactMatch \<Rightarrow> exactMatch
           | None \<Rightarrow>
               let r = findBestFuzzyMatch fl content target threshold
               in case bs_best r of
                    None \<Rightarrow> no_match
                  | Some best \<Rightarrow>
                      let found = no_match\<lparr>mo_match := Some best, mo_closest := Some best\<rparr>;
                          closest = no_match\<lparr>mo_closest := Some best, mo_fuzzyMatches := Some (bs_aboveThresholdCount r)\<rparr>
                      in if allowFuzzy \<and> fm_confidence best \<ge> threshold
                         then (if bs_aboveThresholdCount r = 1 then found
                               else if bs_aboveThresholdCount r > 1 \<and> fm_confidence best \<ge> fl DOMINANT_FUZZY_MIN_CONFIDENCE \<and>
                                 fl (fm_confidence best - bs_secondBestScore r) \<ge> fl DOMINANT_FUZZY_DELTA
                               then found\<lparr>mo_fuzzyMatches := Some (bs_aboveThresholdCount r), mo_dominantFuzzy := True\<rparr>
                               else closest)
                         else closest)"

section \<open>Replacing\<close>

datatype replace_error = EmptyOldText | AmbiguousText nat | NoMatchFound | NoChangesMade

definition splice_match :: "jstring \<Rightarrow> fuzzy_match \<Rightarrow> jstring \<Rightarrow> jstring" where
  "splice_match content m new =
     take (fm_startIndex m) content @ new @ drop (fm_startIndex m + length (fm_actualText m)) content"

definition loop_match :: "(rat \<Rightarrow> rat) \<Rightarrow> bool \<Rightarrow> rat \<Rightarrow> jstring \<Rightarrow> jstring \<Rightarrow> fuzzy_match option" where
  "loop_match fl fuzzy threshold content old =
     (let mo = findMatch fl content old fuzzy threshold;
          shouldUseClosest = (fuzzy \<and> (case mo_closest mo of Some c \<Rightarrow> fm_confidence c \<ge> threshold | None \<Rightarrow> False) \<and>
            (case mo_fuzzyMatches mo of None \<Rightarrow> True | Some n \<Rightarrow> n \<le> 1))
      in case mo_match mo of Some m \<Rightarrow> Some m | None \<Rightarrow> if shouldUseClosest then mo_closest mo else None)"

text \<open>The loop that replaces one fuzzy match after another; it may run forever.\<close>

partial_function (option) fuzzy_loop ::
  "(rat \<Rightarrow> rat) \<Rightarrow> bool \<Rightarrow> rat \<Rightarrow> jstring \<Rightarrow> jstring \<Rightarrow> jstring \<Rightarrow> nat \<Rightarrow> (jstring \<times> nat) option" where
  "fuzzy_loop fl fuzzy threshold old new content count =
     (case loop_match fl fuzzy threshold content old of
        None \<Rightarrow> Some (content, count)
      | Some m \<Rightarrow>
          if adjustIndentation old (fm_actualText m) new = fm_actualText m then Some (content, count)
          else fuzzy_loop fl fuzzy threshold old new
                 (splice_match content m (adjustIndentation old (fm_actualText m) new)) (count + 1))"

definition replaceText ::
  "(rat \<Rightarrow> rat) \<Rightarrow> jstring \<Rightarrow> jstring \<Rightarrow> jstring \<Rightarrow> bool \<Rightarrow> bool \<Rightarrow> rat option \<Rightarrow> (replace_error + jstring \<times> nat) option" where
  "replaceText fl content0 oldText newText fuzzy all thresholdOpt =
     (if length oldText = 0 then Some (Inl EmptyOldText)
      else let threshold = (case thresholdOpt of Some t \<Rightarrow> t | None \<Rightarrow> fl DEFAULT_FUZZY_THRESHOLD);
               content = normalizeToLF content0; old = normalizeToLF oldText; new = normalizeToLF newText
        in if all
           then let exactCount = length (split_str old content) - 1
             in if exactCount > 0 then Some (Inr (join_with new (split_str old content), exactCount))
                else map_option Inr (fuzzy_loop fl fuzzy threshold old new content 0)
           else let mo = findMatch fl content old fuzzy threshold
             in case mo_occurrences mo of
                  Some n \<Rightarrow> if n > 1 then Some (Inl (AmbiguousText n)) else Some (Inr (content, 0))
                | None \<Rightarrow>
                    (case mo_match mo of
                       None \<Rightarrow> Some (Inr (content, 0))
                     | Some m \<Rightarrow> Some (Inr (splice_match content m (adjustIndentation old (fm_actualText m) new), 1))))"

text \<open>What \<open>executeReplaceSingle\<close> writes for the text that it has read.\<close>

definition replaceFileText ::
  "(rat \<Rightarrow> rat) \<Rightarrow> jstring \<Rightarrow> jstring \<Rightarrow> jstring \<Rightarrow> bool \<Rightarrow> bool \<Rightarrow> rat \<Rightarrow> (replace_error + jstring) option" where
  "replaceFileText fl rawContent old_text new_text allowFuzzy all fuzzyThreshold =
     (if length old_text = 0 then Some (Inl EmptyOldText)
      else let (bom, content) = stripBom rawContent;
               originalEnding = detectLineEnding content;
               normalizedContent = normalizeToLF content; normalizedOldText = normalizeToLF old_text;
               normalizedNewText = normalizeToLF new_text
        in case replaceText fl normalizedContent normalizedOldText normalizedNewText allowFuzzy all (Some fuzzyThreshold) of
             None \<Rightarrow> None
           | Some (Inl e) \<Rightarrow> Some (Inl e)
           | Some (Inr (result, count)) \<Rightarrow>
               if count = 0
               then (case mo_occurrences (findMatch fl normalizedContent normalizedOldText allowFuzzy fuzzyThreshold) of
                       Some n \<Rightarrow> if n > 1 then Some (Inl (AmbiguousText n)) else Some (Inl NoMatchFound)
                     | None \<Rightarrow> Some (Inl NoMatchFound))
               else if normalizedContent = result then Some (Inl NoChangesMade)
               else Some (Inr (bom @ restoreLineEndings result originalEnding)))"

end
