(* ===== verification/Replace_Correct.thy ===== *)
theory Replace_Correct
  imports Replace_Text "HOL-Library.Sublist"
begin

text \<open>
  The replace mode: the distance is the least number of edits (\<open>levenshtein_is_least\<close>), without fuzzy matching
  exactly the occurrences of the text are replaced (\<open>exact_replacement\<close>), and with it the loop over all
  matches can run forever (\<open>replace_all_never_returns\<close>).
\<close>

section \<open>The edit distance\<close>

text \<open>\<open>edits n a b\<close>: \<open>b\<close> is made of \<open>a\<close> with \<open>n\<close> insertions, deletions and substitutions of characters.\<close>

inductive edits :: "nat \<Rightarrow> jstring \<Rightarrow> jstring \<Rightarrow> bool" where
  edits_Nil: "edits 0 [] []"
| edits_keep: "edits n a b \<Longrightarrow> edits n (c # a) (c # b)"
| edits_substitute: "edits n a b \<Longrightarrow> edits (Suc n) (c # a) (d # b)"
| edits_delete: "edits n a b \<Longrightarrow> edits (Suc n) (c # a) b"
| edits_insert: "edits n a b \<Longrightarrow> edits (Suc n) a (c # b)"

fun dist :: "jstring \<Rightarrow> jstring \<Rightarrow> nat" where
  "dist [] b = length b"
| "dist a [] = length a"
| "dist (c # a) (d # b) = min (min (dist a (d # b) + 1) (dist (c # a) b + 1)) (dist a b + (if c = d then 0 else 1))"

lemma dist_Nil [simp]: "dist a [] = length a"
  by (cases a) simp_all

lemma edits_all: "edits (length b) [] b" "edits (length a) a []"
  by (induction b, auto intro: edits.intros) (induction a, auto intro: edits.intros)

lemma dist_edits: "edits (dist a b) a b"
proof (induction a b rule: dist.induct)
  case (3 c a d b)
  have "dist (c # a) (d # b) = dist a (d # b) + 1 \<or> dist (c # a) (d # b) = dist (c # a) b + 1 \<or>
      dist (c # a) (d # b) = dist a b + (if c = d then 0 else 1)" by (auto simp: min_def)
  then show ?case using 3 by (auto intro: edits.intros simp del: dist.simps split: if_splits)
next
  case (2 v va)
  then show ?case using edits_all(2) [of "v # va"] by simp
qed (use edits_all in auto)

lemma dist_least: "edits n a b \<Longrightarrow> dist a b \<le> n"
proof (induction rule: edits.induct)
  case (edits_delete n a b c)
  then show ?case by (cases b) (auto simp: min_le_iff_disj)
next
  case (edits_insert n a b c)
  then show ?case by (cases a) (auto simp: min_le_iff_disj)
qed (auto simp: min_le_iff_disj)

lemma edits_append: "\<lbrakk>edits n a b; edits m a' b'\<rbrakk> \<Longrightarrow> edits (n + m) (a @ a') (b @ b')"
  by (induction rule: edits.induct) (auto intro: edits.intros)

lemma edits_rev: "edits n a b \<Longrightarrow> edits n (rev a) (rev b)"
proof (induction rule: edits.induct)
  case (edits_keep n a b c)
  then show ?case using edits_append [of n "rev a" "rev b" 0 "[c]" "[c]"] by (auto intro: edits.intros)
next
  case (edits_substitute n a b c d)
  then show ?case using edits_append [of n "rev a" "rev b" 1 "[c]" "[d]"] edits.edits_substitute [OF edits_Nil, of c d] by auto
next
  case (edits_delete n a b c)
  then show ?case using edits_append [of n "rev a" "rev b" 1 "[c]" "[]"] edits.edits_delete [OF edits_Nil, of c] by auto
next
  case (edits_insert n a b c)
  then show ?case using edits_append [of n "rev a" "rev b" 1 "[]" "[c]"] edits.edits_insert [OF edits_Nil, of c] by auto
qed (auto intro: edits.intros)

lemma dist_rev: "dist (rev a) (rev b) = dist a b"
  using dist_least [OF edits_rev [OF dist_edits [of a b]]] dist_least [OF edits_rev [OF dist_edits [of "rev a" "rev b"]]] by simp

lemma dist_same: "dist a a = 0"
proof -
  have "edits 0 a a" by (induction a) (auto intro: edits.intros)
  then show ?thesis using dist_least by fastforce
qed

text \<open>A cell of the table: the distance of two prefixes.\<close>

definition cell :: "jstring \<Rightarrow> jstring \<Rightarrow> nat \<Rightarrow> nat" where
  "cell p b j = dist (rev p) (rev (take j b))"

lemma cell_step:
  assumes "j < length b"
  shows "cell (p @ [c]) b (Suc j) = min (min (cell p b (Suc j) + 1) (cell (p @ [c]) b j + 1)) (cell p b j + (if c = b ! j then 0 else 1))"
  using assms by (simp add: cell_def take_Suc_conv_app_nth)

lemma lev_cells_spec:
  "\<lbrakk>bs = drop j b; ps = map (cell p b) [j..<Suc (length b)]; left = cell (p @ [c]) b j; j \<le> length b\<rbrakk> \<Longrightarrow>
    lev_cells c bs ps left = map (cell (p @ [c]) b) [Suc j..<Suc (length b)]"
proof (induction bs arbitrary: j ps left)
  case Nil
  then show ?case by (simp del: upt_Suc)
next
  case (Cons x bs)
  then have j: "j < length b" "x = b ! j" "bs = drop (Suc j) b"
    by (metis drop_eq_Nil leI list.distinct(1), metis Cons.prems(1) nth_via_drop, metis Cons.prems(1) drop_Suc tl_drop list.sel(3))
  have u: "[j..<Suc (length b)] = j # Suc j # [Suc (Suc j)..<Suc (length b)]" "[Suc j..<Suc (length b)] = Suc j # [Suc (Suc j)..<Suc (length b)]"
    using j(1) by (simp_all add: upt_conv_Cons del: upt_Suc)
  have ps: "ps = cell p b j # cell p b (Suc j) # map (cell p b) [Suc (Suc j)..<Suc (length b)]"
    using Cons.prems(2) u(1) by simp
  have "lev_cells c bs (cell p b (Suc j) # map (cell p b) [Suc (Suc j)..<Suc (length b)]) (cell (p @ [c]) b (Suc j)) =
      map (cell (p @ [c]) b) [Suc (Suc j)..<Suc (length b)]"
    using Cons.IH [OF j(3) _ refl] j(1) by (simp add: u(2) del: upt_Suc)
  then show ?case using ps u(2) cell_step [OF j(1), of p c] Cons.prems(3) j(2) by (simp add: Let_def del: upt_Suc)
qed

lemma lev_rows_spec:
  "\<lbrakk>prev = map (cell p b) [0..<Suc (length b)]; i = Suc (length p)\<rbrakk> \<Longrightarrow>
    lev_rows i a b prev = map (cell (p @ a) b) [0..<Suc (length b)]"
proof (induction a arbitrary: p i prev)
  case (Cons c a)
  have "cell (p @ [c]) b 0 = i" using Cons.prems(2) by (simp add: cell_def)
  then have "i # lev_cells c b prev i = map (cell (p @ [c]) b) [0..<Suc (length b)]"
    using lev_cells_spec [of b 0 b prev p i c] Cons.prems by (simp add: upt_conv_Cons del: upt_Suc)
  then show ?case using Cons.IH [of "i # lev_cells c b prev i" "p @ [c]" "i + 1"] Cons.prems(2) by simp
qed simp

lemma levenshtein_dist: "levenshteinDistance a b = dist a b"
proof (cases "a = b \<or> a = [] \<or> b = []")
  case True
  then show ?thesis by (auto simp: levenshteinDistance_def dist_same)
next
  case False
  have "[0..<length b + 1] = map (cell [] b) [0..<Suc (length b)]"
    by (rule nth_equalityI) (simp_all add: cell_def del: upt_Suc)
  then have "lev_rows 1 a b [0..<length b + 1] = map (cell a b) [0..<Suc (length b)]"
    using lev_rows_spec [of "[0..<length b + 1]" "[]" b 1 a] by simp
  then show ?thesis using False by (simp add: levenshteinDistance_def cell_def dist_rev del: upt_Suc)
qed

text \<open>
  C31: The distance that the two rows of the table compute is the least number of insertions, deletions and
  substitutions of characters that turn the one text into the other.
\<close>

theorem levenshtein_is_least: "levenshteinDistance a b = (LEAST n. edits n a b) \<and> edits (levenshteinDistance a b) a b"
  unfolding levenshtein_dist by (metis LeastI_ex dist_edits dist_least Least_equality)

section \<open>Exact replacement\<close>

lemma index_of_sublist: "index_of s p = None \<longleftrightarrow> \<not> sublist p s"
proof -
  have "sublist p s \<longleftrightarrow> (\<exists>i\<le>length s. starts_with_at s p i)"
  proof
    assume "sublist p s"
    then obtain a b where "s = a @ p @ b" by (auto simp: sublist_def)
    then show "\<exists>i\<le>length s. starts_with_at s p i" by (intro exI [of _ "length a"]) (simp add: starts_with_at_def)
  next
    assume "\<exists>i\<le>length s. starts_with_at s p i"
    then obtain i where "take (length p) (drop i s) = p" by (auto simp: starts_with_at_def)
    then show "sublist p s" by (metis append_take_drop_id sublist_appendI)
  qed
  then show ?thesis by (auto simp: index_of_None)
qed

lemma index_of_pieces:
  assumes "index_of s t = Some k" "t \<noteq> []"
  shows "s = take k s @ t @ drop (k + length t) s" "\<not> sublist t (take k s)"
proof -
  note k = assms(1) [unfolded index_of_Some starts_with_at_def]
  then show "s = take k s @ t @ drop (k + length t) s" by (metis add.commute append_take_drop_id drop_drop)
  show "\<not> sublist t (take k s)"
  proof
    assume "sublist t (take k s)"
    then obtain a b where ab: "take k s = a @ t @ b" by (auto simp: sublist_def)
    have "s = a @ t @ b @ drop k s" by (metis ab append.assoc append_take_drop_id)
    then have "take (length t) (drop (length a) s) = t" by (metis append_eq_conv_conj)
    moreover have "length a < k" using arg_cong [OF ab, of length] assms(2) k by (cases t) auto
    ultimately show False using k by blast
  qed
qed

lemma split_str_not_Nil [simp]: "split_str t s \<noteq> []"
  by (subst split_str.simps) (simp split: option.split)

lemma split_str_spec:
  "t \<noteq> [] \<Longrightarrow> join_with t (split_str t s) = s \<and> (\<forall>p\<in>set (split_str t s). \<not> sublist t p)"
proof (induction t s rule: split_str.induct)
  case (1 t s)
  show ?case
  proof (cases "index_of s t")
    case None
    then show ?thesis using 1(2) index_of_sublist [of s t] by (simp add: split_str.simps)
  next
    case (Some k)
    then show ?thesis using 1(1) [OF 1(2) Some 1(2)] index_of_pieces [OF Some 1(2)] 1(2)
      by (subst (1 2) split_str.simps) (simp add: join_with_Cons)
  qed
qed

lemma split_str_two:
  assumes "index_of s t = Some k" "t \<noteq> []" "length (split_str t s) - 1 \<le> 1"
  shows "split_str t s = [take k s, drop (k + length t) s]"
proof -
  have r: "split_str t s = take k s # split_str t (drop (k + length t) s)" using assms(1,2) by (simp add: split_str.simps [of t s])
  then have "length (split_str t (drop (k + length t) s)) \<le> 1" using assms(3) by simp
  then have "index_of (drop (k + length t) s) t = None"
    using assms(2) by (subst (asm) split_str.simps) (auto split: option.splits)
  then have "split_str t (drop (k + length t) s) = [drop (k + length t) s]" by (simp add: split_str.simps)
  then show ?thesis using r by simp
qed

lemma findMatch_exact:
  assumes "old \<noteq> []"
  shows "mo_occurrences (findMatch fl content old False threshold) =
      (if length (split_str old content) - 1 > 1 then Some (length (split_str old content) - 1) else None)"
    "length (split_str old content) - 1 = 0 \<Longrightarrow> mo_match (findMatch fl content old False threshold) = None"
    "length (split_str old content) - 1 = 1 \<Longrightarrow> \<exists>k. index_of content old = Some k \<and> (\<forall>th. mo_match (findMatch fl content old False th) =
        Some \<lparr>fm_actualText = old, fm_startIndex = k, fm_startLine = length (split_lines (take k content)), fm_confidence = 1\<rparr>)"
proof -
  have n: "length (split_str old content) - 1 = 0" if "index_of content old = None"
    using that assms by (simp add: split_str.simps)
  have s: "length (split_str old content) - 1 \<noteq> 0" if "index_of content old = Some k" for k
    using that assms by (subst split_str.simps) simp
  show "mo_occurrences (findMatch fl content old False threshold) =
      (if length (split_str old content) - 1 > 1 then Some (length (split_str old content) - 1) else None)"
    using assms n by (auto simp: findMatch_def findExactMatchOutcome_def no_match_def Let_def split: option.split)
  show "mo_match (findMatch fl content old False threshold) = None" if "length (split_str old content) - 1 = 0"
  proof -
    have "index_of content old = None" using s that by (cases "index_of content old") auto
    then show ?thesis by (auto simp: findMatch_def findExactMatchOutcome_def no_match_def Let_def split: option.split)
  qed
  show "\<exists>k. index_of content old = Some k \<and> (\<forall>th. mo_match (findMatch fl content old False th) =
        Some \<lparr>fm_actualText = old, fm_startIndex = k, fm_startLine = length (split_lines (take k content)), fm_confidence = 1\<rparr>)"
    if "length (split_str old content) - 1 = 1"
    using assms n that by (cases "index_of content old") (auto simp: findMatch_def findExactMatchOutcome_def no_match_def Let_def)
qed

lemma adjust_same [simp]: "adjustIndentation t t new = new"
  by (simp add: adjustIndentation_def)

lemma loop_exact:
  assumes "old \<noteq> []" "length (split_str old content) - 1 = 0"
  shows "fuzzy_loop fl False threshold old new content count = Some (content, count)"
  using findMatch_exact(2) [OF assms] by (subst fuzzy_loop.simps) (simp add: loop_match_def)

lemma old_not_empty: "oldText \<noteq> [] \<Longrightarrow> normalizeToLF oldText \<noteq> []"
  by (cases oldText rule: normalizeToLF.cases) auto

lemma replaceText_split:
  assumes "oldText \<noteq> []"
  shows "replaceText fl content oldText newText False all threshold =
    (let ps = split_str (normalizeToLF oldText) (normalizeToLF content)
     in Some (if \<not> all \<and> length ps > 2 then Inl (AmbiguousText (length ps - 1))
              else Inr (join_with (normalizeToLF newText) ps, length ps - 1)))"
proof -
  let ?c = "normalizeToLF content" and ?o = "normalizeToLF oldText" and ?n = "normalizeToLF newText"
  let ?ps = "split_str ?o ?c"
  have o: "?o \<noteq> []" by (rule old_not_empty [OF assms])
  have r: "replaceText fl content oldText newText False all threshold =
      Some (if \<not> all \<and> length ?ps > 2 then Inl (AmbiguousText (length ?ps - 1)) else Inr (join_with ?n ?ps, length ?ps - 1))"
  proof (cases "length ?ps - 1 = 0")
    case True
    then have "?ps = [?c]" using split_str_spec [OF o, of ?c] by (cases ?ps) auto
    then show ?thesis using True loop_exact [OF o True] findMatch_exact(1,2) [OF o, where content = "?c" and fl = fl] assms
      by (simp add: replaceText_def Let_def)
  next
    case False
    show ?thesis
    proof (cases "all \<or> length ?ps - 1 > 1")
      case True
      then show ?thesis using False findMatch_exact(1) [OF o, where content = "?c" and fl = fl] assms by (auto simp: replaceText_def Let_def)
    next
      case False
      with \<open>length ?ps - 1 \<noteq> 0\<close> have one: "length ?ps - 1 = 1" "\<not> all" by auto
      from findMatch_exact(3) [OF o one(1), of fl] obtain k where
        m: "index_of ?c ?o = Some k" "\<And>th. mo_match (findMatch fl ?c ?o False th) =
          Some \<lparr>fm_actualText = ?o, fm_startIndex = k, fm_startLine = length (split_lines (take k ?c)), fm_confidence = 1\<rparr>"
        by blast
      have "?ps = [take k ?c, drop (k + length ?o) ?c]" using split_str_two [OF m(1) o] one by simp
      then show ?thesis using one m(2) findMatch_exact(1) [OF o, where content = "?c" and fl = fl] assms
        by (simp add: replaceText_def Let_def splice_match_def)
    qed
  qed
  then show ?thesis by (simp add: Let_def)
qed

text \<open>
  Without fuzzy matching the normalised content is cut at the occurrences of the text, from left to right and
  without overlap: with \<open>all\<close> every one of them is replaced, else the only one is, and more than one is an error.
\<close>

theorem exact_replacement:
  assumes "oldText \<noteq> []"
  shows "\<exists>pieces. pieces \<noteq> [] \<and> normalizeToLF content = join_with (normalizeToLF oldText) pieces \<and>
    (\<forall>p\<in>set pieces. \<not> sublist (normalizeToLF oldText) p) \<and>
    replaceText fl content oldText newText False all threshold =
      Some (if \<not> all \<and> length pieces > 2 then Inl (AmbiguousText (length pieces - 1))
            else Inr (join_with (normalizeToLF newText) pieces, length pieces - 1))"
  by (rule exI [of _ "split_str (normalizeToLF oldText) (normalizeToLF content)"])
    (use replaceText_split [OF assms] split_str_spec [OF old_not_empty [OF assms], of "normalizeToLF content"] in \<open>auto simp: Let_def\<close>)

lemma index_of_first:
  assumes "index_of s t = Some k" "t \<noteq> []"
  shows "\<not> sublist t (take k s @ butlast t)"
proof
  assume "sublist t (take k s @ butlast t)"
  then obtain a b where ab: "take k s @ butlast t = a @ t @ b" by (auto simp: sublist_def)
  note k = assms(1) [unfolded index_of_Some starts_with_at_def]
  have "s = take k s @ butlast t @ last t # drop (k + length t) s"
    using index_of_pieces(1) [OF assms] append_butlast_last_id [OF assms(2)] by (metis append_Cons append_Nil append_assoc)
  then have "s = a @ t @ b @ last t # drop (k + length t) s" using ab by (metis append_assoc)
  then have "take (length t) (drop (length a) s) = t" by (metis append_eq_conv_conj)
  moreover have "length a < k" proof -
    have "0 < length t" using assms(2) by simp
    then show ?thesis using arg_cong [OF ab, of length] k by (simp only: length_append length_butlast length_take)
  qed
  ultimately show False using k by blast
qed

lemma split_str_first:
  "t \<noteq> [] \<Longrightarrow> \<forall>p\<in>set (butlast (split_str t s)). \<not> sublist t (p @ butlast t)"
proof (induction t s rule: split_str.induct)
  case (1 t s)
  show ?case
  proof (cases "index_of s t")
    case None
    then show ?thesis by (simp add: split_str.simps)
  next
    case (Some k)
    then show ?thesis using 1(1) [OF 1(2) Some 1(2)] index_of_first [OF Some 1(2)] 1(2)
      by (subst split_str.simps) simp
  qed
qed

text \<open>
  A text cut at the occurrences of another from left to right and without overlap: no piece
  holds one, and none begins before the one that ends a piece.
\<close>

definition cut_at :: "jstring \<Rightarrow> jstring \<Rightarrow> jstring list \<Rightarrow> bool" where
  "cut_at old str pieces \<longleftrightarrow> pieces \<noteq> [] \<and> str = join_with old pieces \<and>
     (\<forall>p\<in>set pieces. \<not> sublist old p) \<and> (\<forall>p\<in>set (butlast pieces). \<not> sublist old (p @ butlast old))"

lemma cut_at_split: "old \<noteq> [] \<Longrightarrow> cut_at old str (split_str old str)"
  using split_str_spec split_str_first by (simp add: cut_at_def)

text \<open>
  C30: An edit without fuzzy matching of any file, whatever its line ends.  The file's text without byte order mark and
  with line feeds only is cut at the occurrences of the old text (with line feeds too), from left to right and without
  overlap.  None is an error, and so is more than one unless all are to be replaced, and a text that stays as it is;
  otherwise the file is written with the new text in their place, after its byte order mark, and with the line end that
  comes first in it for every line: a file of mixed line ends comes out with one kind.
\<close>

theorem exact_edit_of_file:
  assumes "oldText \<noteq> []"
  shows "\<exists>pieces. cut_at (normalizeToLF oldText) (normalizeToLF (snd (stripBom file))) pieces \<and>
    replaceFileText fl file oldText newText False all threshold =
      Some (if length pieces = 1 then Inl NoMatchFound
            else if \<not> all \<and> length pieces > 2 then Inl (AmbiguousText (length pieces - 1))
            else if normalizeToLF (snd (stripBom file)) = join_with (normalizeToLF newText) pieces then Inl NoChangesMade
            else Inr (fst (stripBom file) @ restoreLineEndings (join_with (normalizeToLF newText) pieces)
              (detectLineEnding (snd (stripBom file)))))"
proof -
  obtain bom content where strip: "stripBom file = (bom, content)" by (cases "stripBom file")
  let ?x = "normalizeToLF content" and ?o = "normalizeToLF oldText" and ?n = "normalizeToLF newText"
  let ?ps = "split_str ?o ?x"
  have o: "?o \<noteq> []" by (rule old_not_empty [OF assms])
  have twice: "normalizeToLF (normalizeToLF s) = normalizeToLF s" for s
    by (rule normalizeToLF_id [OF normalizeToLF_no_CR])
  have r: "replaceText fl ?x ?o ?n False all (Some threshold) =
      Some (if \<not> all \<and> length ?ps > 2 then Inl (AmbiguousText (length ?ps - 1)) else Inr (join_with ?n ?ps, length ?ps - 1))"
    using replaceText_split [OF o, of fl ?x ?n all "Some threshold"] by (simp add: Let_def twice)
  have occ: "mo_occurrences (findMatch fl ?x ?o False threshold) = None" if "length ?ps = 1"
    using findMatch_exact(1) [OF o, where content = ?x] that by simp
  have one: "length ?ps - 1 = 0 \<longleftrightarrow> length ?ps = 1" using split_str_not_Nil [of ?o ?x] by (cases ?ps) auto
  have "replaceFileText fl file oldText newText False all threshold =
      Some (if length ?ps = 1 then Inl NoMatchFound
            else if \<not> all \<and> length ?ps > 2 then Inl (AmbiguousText (length ?ps - 1))
            else if ?x = join_with ?n ?ps then Inl NoChangesMade
            else Inr (bom @ restoreLineEndings (join_with ?n ?ps) (detectLineEnding content)))"
    using assms strip r occ one by (auto simp: replaceFileText_def Let_def)
  then show ?thesis using cut_at_split [OF o, of ?x] strip by (intro exI [of _ ?ps]) auto
qed

text \<open>Occurrences that overlap are one: the edit is made although the text is not unique.\<close>

lemma overlapping_occurrences_accepted:
  "replaceText fl (js ''aaa'') (js ''aa'') (js ''b'') False False None = Some (Inr (js ''ba'', 1))"
proof -
  have "findMatch fl (js ''aaa'') (js ''aa'') False t = no_match\<lparr>mo_match := Some \<lparr>fm_actualText = js ''aa'', fm_startIndex = 0,
      fm_startLine = 1, fm_confidence = 1\<rparr>\<rparr>" for t
  proof -
    have "findExactMatchOutcome (js ''aaa'') (js ''aa'') = Some (no_match\<lparr>mo_match := Some
      \<lparr>fm_actualText = js ''aa'', fm_startIndex = 0, fm_startLine = 1, fm_confidence = 1\<rparr>\<rparr>)" by code_simp
    then show ?thesis by (simp add: findMatch_def)
  qed
  then show ?thesis by (simp add: replaceText_def no_match_def splice_match_def js_def)
qed

section \<open>Replacing all fuzzy matches\<close>

text \<open>
  A line that is to be replaced by a longer and deeper indented one.  Where the file has the new line already, it is
  close enough to the old one to be a match; each replacement indents it further, and never makes it different.
\<close>

definition old_line :: jstring where "old_line = js ''return total(order)''"
definition new_code :: jstring where "new_code = js ''return totals(order)''"

definition indented :: "nat \<Rightarrow> jstring" where "indented k = replicate k SPACE @ new_code"

lemma new_code_facts:
  "hd new_code = 114" "new_code \<noteq> []" "trim new_code = new_code" "LF \<notin> set new_code" "trim_start new_code = new_code"
  "new_code = 114 # tl new_code" "takeWhile (\<lambda>c. c = SPACE \<or> c = TAB) new_code = []" "length new_code = 20"
  by code_simp+

lemma indented_trim: "trim (indented k) = new_code"
proof -
  have "trim_start (indented k) = trim_start new_code"
    by (induction k) (simp_all add: indented_def trim_start_def is_js_space_def)
  then show ?thesis using new_code_facts(3,5) by (simp add: trim_def)
qed

lemma indented_white: "takeWhile (\<lambda>c. c = SPACE \<or> c = TAB) (indented k) = replicate k SPACE"
  unfolding indented_def using new_code_facts(7) by (induction k) simp_all

lemma indented_leading: "countLeadingWhitespace (indented k) = k" "getLeadingWhitespace (indented k) = replicate k SPACE"
  using indented_white by (simp_all add: countLeadingWhitespace_def getLeadingWhitespace_def) (simp add: indented_def)

lemma indented_line: "split_lines (indented k) = [indented k]" "isNonEmptyLine (indented k)"
proof -
  have "LF \<notin> set (indented k)" using new_code_facts(4) by (auto simp: indented_def)
  then show "split_lines (indented k) = [indented k]" by (rule split_on_none)
  show "isNonEmptyLine (indented k)" using indented_trim new_code_facts(2) by (simp add: isNonEmptyLine_def)
qed

lemma old_not_indented: "\<not> sublist old_line (indented k)"
proof (induction k)
  case 0
  show ?case by code_simp
next
  case (Suc k)
  obtain t where t: "old_line = 114 # t" by (rule that [of "tl old_line"]) code_simp
  have "\<not> prefix old_line (SPACE # indented k)" unfolding t by simp
  moreover have "indented (Suc k) = SPACE # indented k" by (simp add: indented_def)
  ultimately show ?case using Suc by (simp add: sublist_Cons_right)
qed

lemma indented_normal: "normalizeLines [indented k] True = [js ''0|'' @ new_code]"
proof -
  have "normalizeForFuzzy new_code = new_code" "dec 0 = js ''0''" by code_simp+
  then show ?thesis using new_code_facts(2) indented_trim indented_line(2)
    by (simp add: normalizeLines_def computeRelativeIndentDepths_def Let_def round_div_def min_of_def js_def)
qed

lemma old_normal: "normalizeLines [old_line] True = [js ''0|'' @ old_line]" "split_lines old_line = [old_line]"
  by code_simp+

lemma close_lines: "score_window (\<lambda>x. x) [js ''0|'' @ old_line] [js ''0|'' @ new_code] = 21 / 22"
proof -
  have "levenshteinDistance (js ''0|'' @ old_line) (js ''0|'' @ new_code) = 1" by code_simp
  moreover have "length (js ''0|'' @ old_line) = 21" "length (js ''0|'' @ new_code) = 22" by code_simp+
  ultimately show ?thesis by (simp add: score_window_def similarity_def)
qed

definition whole_line :: "nat \<Rightarrow> fuzzy_match" where
  "whole_line k = \<lparr>fm_actualText = indented k, fm_startIndex = 0, fm_startLine = 1, fm_confidence = 21 / 22\<rparr>"

lemma indented_match: "loop_match (\<lambda>x. x) True (95 / 100) (indented k) old_line = Some (whole_line k)"
proof -
  have e: "findExactMatchOutcome (indented k) old_line = None"
    using old_not_indented [of k] index_of_sublist [of "indented k" old_line] by (simp add: findExactMatchOutcome_def)
  have o: "length old_line \<noteq> 0" by code_simp
  have core: "findBestFuzzyMatchCore (\<lambda>x. x) [indented k] [old_line] [0] (95 / 100) True =
      \<lparr>bs_best = Some (whole_line k), bs_bestScore = 21 / 22, bs_secondBestScore = -1, bs_aboveThresholdCount = 1\<rparr>"
    by (simp add: findBestFuzzyMatchCore_def Let_def old_normal indented_normal close_lines slice_def whole_line_def del: js_Cons js_Nil)
  have "findBestFuzzyMatch (\<lambda>x. x) (indented k) old_line (95 / 100) =
      \<lparr>bs_best = Some (whole_line k), bs_bestScore = 21 / 22, bs_secondBestScore = -1, bs_aboveThresholdCount = 1\<rparr>"
    using o core by (simp add: findBestFuzzyMatch_def indented_line old_normal) (simp add: whole_line_def)
  then show ?thesis using e o by (simp add: loop_match_def findMatch_def Let_def no_match_def) (simp add: whole_line_def)
qed

lemma indented_profile:
  "buildIndentProfile (indented (Suc k)) =
    \<lparr>ip_lines = [indented (Suc k)], ip_indentCounts = [Suc k], ip_char = Some SPACE, ip_spaceOnly = True, ip_tabOnly = False,
     ip_mixed = False, ip_unit = Suc k, ip_nonEmptyCount = 1\<rparr>"
  by (simp add: buildIndentProfile_def indented_line indented_leading profile_line_def Let_def)

lemma indented_adjust: "adjustIndentation old_line (indented (Suc k)) (indented 2) = indented (k + 3)"
proof -
  have o: "buildIndentProfile old_line = \<lparr>ip_lines = [old_line], ip_indentCounts = [0], ip_char = None, ip_spaceOnly = True,
      ip_tabOnly = True, ip_mixed = False, ip_unit = 1, ip_nonEmptyCount = 1\<rparr>" by code_simp
  have n: "old_line \<noteq> indented (Suc k)" "\<not> isIndentationOnlyRewrite old_line (indented 2)"
    using old_not_indented [of "Suc k"] by auto code_simp
  have l: "line_pairs (buildIndentProfile old_line) (buildIndentProfile (indented (Suc k))) = [(old_line, indented (Suc k))]"
  proof -
    have "isNonEmptyLine old_line" by code_simp
    then show ?thesis by (simp add: line_pairs_def o indented_profile indented_line)
  qed
  have "countLeadingWhitespace old_line = 0" by code_simp
  then have d: "computeUniformIndentDelta (buildIndentProfile old_line) (buildIndentProfile (indented (Suc k))) = Some (int (Suc k))"
    by (simp add: computeUniformIndentDelta_def l indented_leading)
  have "applyIndentDelta (indented 2) (int (Suc k)) SPACE = replicate (Suc k) SPACE @ indented 2"
    using nat_int [of "Suc k"] by (simp add: applyIndentDelta_def indented_line del: of_nat_Suc replicate_Suc)
  also have "\<dots> = indented (k + 3)" by (simp add: indented_def replicate_add [symmetric] del: replicate_Suc)
  finally show ?thesis using n d indented_profile [of 1] unfolding adjustIndentation_def
    by (simp add: o indented_profile Let_def numeral_2_eq_2 del: replicate_Suc)
qed

lemma round_step:
  "loop_match (\<lambda>x. x) True (95 / 100) (indented k) old_line = Some (whole_line k)"
  "k > 0 \<Longrightarrow> adjustIndentation old_line (fm_actualText (whole_line k)) (indented 2) = indented (k + 2)"
  "splice_match (indented k) (whole_line k) (indented (k + 2)) = indented (k + 2)"
  "indented (k + 2) \<noteq> fm_actualText (whole_line k)"
proof -
  show "loop_match (\<lambda>x. x) True (95 / 100) (indented k) old_line = Some (whole_line k)" by (rule indented_match)
  show "adjustIndentation old_line (fm_actualText (whole_line k)) (indented 2) = indented (k + 2)" if "k > 0"
    using indented_adjust [of "k - 1"] that by (simp add: whole_line_def)
  show "splice_match (indented k) (whole_line k) (indented (k + 2)) = indented (k + 2)"
    by (simp add: splice_match_def whole_line_def)
  have "length (indented j) = j + 20" for j using new_code_facts(8) by (simp add: indented_def)
  then have "length (indented (k + 2)) \<noteq> length (indented k)" by simp
  then show "indented (k + 2) \<noteq> fm_actualText (whole_line k)" by (auto simp: whole_line_def)
qed

lemma loop_Some:
  assumes "fuzzy_loop fl fuzzy threshold old new content count = Some r"
  shows "\<not> (fl = (\<lambda>x. x) \<and> fuzzy \<and> threshold = 95 / 100 \<and> old = old_line \<and> new = indented 2 \<and> (\<exists>k>0. content = indented k))"
proof (rule fuzzy_loop.raw_induct [where P = "\<lambda>fl fuzzy threshold old new content count r.
    \<not> (fl = (\<lambda>x. x) \<and> fuzzy \<and> threshold = 95 / 100 \<and> old = old_line \<and> new = indented 2 \<and> (\<exists>k>0. content = indented k))", OF _ assms])
  fix loop fl fuzzy threshold old new content count r
  assume IH: "\<And>fl fuzzy threshold old new content count r. loop fl fuzzy threshold old new content count = Some r \<Longrightarrow>
      \<not> (fl = (\<lambda>x. x) \<and> fuzzy \<and> threshold = 95 / 100 \<and> old = old_line \<and> new = indented 2 \<and> (\<exists>k>0. content = indented k))"
    and step: "(case loop_match fl fuzzy threshold content old of
        None \<Rightarrow> Some (content, count)
      | Some m \<Rightarrow>
          if adjustIndentation old (fm_actualText m) new = fm_actualText m then Some (content, count)
          else loop fl fuzzy threshold old new (splice_match content m (adjustIndentation old (fm_actualText m) new)) (count + 1)) = Some r"
  show "\<not> (fl = (\<lambda>x. x) \<and> fuzzy \<and> threshold = 95 / 100 \<and> old = old_line \<and> new = indented 2 \<and> (\<exists>k>0. content = indented k))"
  proof
    assume "fl = (\<lambda>x. x) \<and> fuzzy \<and> threshold = 95 / 100 \<and> old = old_line \<and> new = indented 2 \<and> (\<exists>k>0. content = indented k)"
    then obtain k where a: "fl = (\<lambda>x. x)" "fuzzy = True" "threshold = 95 / 100" "old = old_line" "new = indented 2" "k > 0"
        "content = indented k" by blast
    have "loop (\<lambda>x. x) True (95 / 100) old_line (indented 2) (indented (k + 2)) (count + 1) = Some r"
      using step unfolding a(1-5,7) by (simp only: round_step(1) round_step(2) [OF a(6)] round_step(3) round_step(4) option.case if_False)
    from IH [OF this] show False by auto
  qed
qed

text \<open>
  C0: Replacing all occurrences with fuzzy matching runs forever on a file that already has the new text, where this
  is close to the old one and deeper indented: each round indents the line further.
\<close>

theorem replace_all_never_returns:
  "replaceText (\<lambda>x. x) (js ''  return totals(order)'') (js ''return total(order)'') (js ''  return totals(order)'') True True None = None"
proof -
  have n: "normalizeToLF (js ''  return totals(order)'') = indented 2" "normalizeToLF (js ''return total(order)'') = old_line" by code_simp+
  have o: "length (js ''return total(order)'') \<noteq> 0" by code_simp
  have "split_str old_line (indented 2) = [indented 2]"
    using old_not_indented [of 2] index_of_sublist [of "indented 2" old_line] by (simp add: split_str.simps)
  moreover have "fuzzy_loop (\<lambda>x. x) True (95 / 100) old_line (indented 2) (indented 2) 0 = None"
  proof (rule ccontr)
    assume "fuzzy_loop (\<lambda>x. x) True (95 / 100) old_line (indented 2) (indented 2) 0 \<noteq> None"
    then obtain r where "fuzzy_loop (\<lambda>x. x) True (95 / 100) old_line (indented 2) (indented 2) 0 = Some r" by blast
    from loop_Some [OF this] have "\<not> (\<exists>k>0. indented 2 = indented k)" by simp
    then show False by (metis zero_less_numeral)
  qed
  ultimately show ?thesis using o by (simp add: replaceText_def n Let_def DEFAULT_FUZZY_THRESHOLD_def del: js_Cons js_Nil)
qed

definition mixed_file :: jstring where
  "mixed_file = BOM @ js ''a-b'' @ [CR, LF] @ js ''c'' @ [LF]"

lemma exact_edit_of_file_witness:
  "replaceFileText (\<lambda>x. x) mixed_file (js ''-'') (js ''+'') False False (95 / 100) =
    Some (Inr (BOM @ js ''a+b'' @ [CR, LF] @ js ''c'' @ [CR, LF]))"
proof -
  let ?x = "js ''a-b'' @ [LF] @ js ''c'' @ [LF]"
  have f: "stripBom mixed_file = (BOM, js ''a-b'' @ [CR, LF] @ js ''c'' @ [LF])"
    "normalizeToLF (js ''a-b'' @ [CR, LF] @ js ''c'' @ [LF]) = ?x"
    "detectLineEnding (js ''a-b'' @ [CR, LF] @ js ''c'' @ [LF]) = CRLF"
    "normalizeToLF (js ''-'') = [45]" "normalizeToLF (js ''+'') = [43]" by code_simp+
  have cut: "split_on 45 ?x = [js ''a'', js ''b'' @ [LF] @ js ''c'' @ [LF]]" by code_simp
  have ne: "js ''-'' \<noteq> []" by (simp add: js_def)
  from exact_edit_of_file [OF ne, of mixed_file "\<lambda>x. x" "js ''+''" False "95 / 100", unfolded f fst_conv snd_conv]
  obtain ps where ps: "cut_at [45] ?x ps"
    "replaceFileText (\<lambda>x. x) mixed_file (js ''-'') (js ''+'') False False (95 / 100) =
      Some (if length ps = 1 then Inl NoMatchFound else if \<not> False \<and> length ps > 2 then Inl (AmbiguousText (length ps - 1))
            else if ?x = join_with [43] ps then Inl NoChangesMade
            else Inr (BOM @ restoreLineEndings (join_with [43] ps) CRLF))" by blast
  have "45 \<notin> set p" if "p \<in> set ps" for p
    using ps(1) that unfolding cut_at_def by (metis append_Cons append_Nil in_set_conv_decomp sublist_appendI)
  then have "ps = [js ''a'', js ''b'' @ [LF] @ js ''c'' @ [LF]]"
    using split_join [of ps 45] ps(1) cut unfolding cut_at_def by metis
  then show ?thesis using ps(2) by (simp add: js_def)
qed

text \<open>The typographic double quotes are not normalised: the class lists the plain one twice.\<close>

lemma curly_quotes_kept: "normalizeForFuzzy [0x201C, 97, 0x201D] \<noteq> normalizeForFuzzy (js [CHR 0x22, CHR ''a'', CHR 0x22])"
  by code_simp

end
