(* ===== verification/Spec2Isabelle.thy ===== *)
theory Spec2Isabelle
  imports Tool_Choice Patcher_Correct Mismatch Prefixes Hash_Stream Diff_Preview Swarm_Run
    Session_Migration Branch_Summary Pruning Compaction_Correct Shake_Correct Ring_Buffer Append_Only
    Agent Event_Stream Tool_Outcome Tool_Args Snowflake Secrets_Correct Sse_Stream Apply_Patch Replace_Correct
begin

text \<open>
  A verification library for the core of the open-agents repository: the hashline edit engine, the
  agent with its loop and tool batches, the session tree with everything that decides what a model
  is sent, and the swarm scheduler.

  \<^bold>\<open>The program.\<close>  A coding agent edits files through line-anchored patches.  The package
  \<open>packages/hashline\<close> reads a patch, checks the tag of each section against the file, applies the
  hunks and answers the new tag.  The agent (\<open>packages/agent/src/agent.ts\<close>) takes prompts, steering and
  follow-up messages and runs a loop (\<open>agent-loop.ts\<close>) that streams the answers of a model, runs the
  tool calls in them and reports events through a stream.  The conversation is kept in a tree of entries
  (\<open>packages/coding-agent/src/session/session-manager.ts\<close>); the package \<open>packages/agent\<close> turns the
  active branch into the messages of a request and keeps it small: compaction, pruning, shaking,
  summaries of branches that are left, and an append-only copy for the provider's cache.  The
  package \<open>packages/swarm-extension\<close> runs several agents along a dependency graph.

  \<^bold>\<open>Theories and sources.\<close>

  \<^item> \<open>Prelude\<close>: JavaScript strings (lists of UTF-16 code units), results with errors, ordered maps
    and sets, list lemmas.  \<open>JS_Regex\<close>: regular expressions as terms with a matcher and its laws.
    \<open>Json\<close>: JSON values and \<open>JSON.stringify\<close>.
  \<^item> \<open>Hl_Types\<close>, \<open>Hl_Format\<close>: \<open>hashline/src/types.ts\<close>, \<open>format.ts\<close>, \<open>messages.ts\<close>.
  \<^item> \<open>Tokenizer\<close> (\<open>tokenizer.ts\<close>): the line scanners and the streaming class, which is shown not to
    depend on how its input is cut.  \<open>Parser\<close> (\<open>parser.ts\<close>): the \<open>Executor\<close> state machine; printed
    hunks are read back, parsed edits are well-formed.
  \<^item> \<open>Block\<close> (\<open>block.ts\<close>), \<open>Apply\<close> (\<open>apply.ts\<close>), \<open>Edit_Semantics\<close>: the expansion of block edits, the
    bounds check, the repair of replacement boundaries and the splice loop, refined to a line-wise
    specification, and from there to what a hunk does to the list of lines.
  \<^item> \<open>Normalize\<close>, \<open>Snapshots\<close>, \<open>Fs\<close>, \<open>Recovery\<close>, \<open>Mismatch\<close>, \<open>Input\<close>, \<open>Prefixes\<close>, \<open>Hash_Stream\<close>: the files
    of the same names (\<open>Hash_Stream\<close> is \<open>stream.ts\<close>).
  \<^item> \<open>Patcher\<close>, \<open>Patcher_Correct\<close> (\<open>patcher.ts\<close>): prepare, commit and batches over a file system and a
    snapshot store, each given by the operations of its interface (the locales \<open>filesystem\<close> and
    \<open>snapshot_store\<close>, interpreted by \<open>InMemoryFilesystem\<close> and \<open>InMemorySnapshotStore\<close>).
  \<^item> \<open>Diff_Preview\<close>: \<open>hashline/src/diff-preview.ts\<close> and \<open>generateDiffString\<close> of
    \<open>coding-agent/src/edit/diff.ts\<close>.
  \<^item> \<open>Swarm_Schema\<close>, \<open>Swarm_Dag\<close>, \<open>Swarm_Pipeline\<close>, \<open>Swarm_Run\<close>: \<open>schema.ts\<close>, \<open>dag.ts\<close>, \<open>pipeline.ts\<close> with
    \<open>state.ts\<close> and \<open>executor.ts\<close>, and the start of a run in \<open>extension.ts\<close>.
  \<^item> \<open>Session_Types\<close> (\<open>ai/src/types.ts\<close>, the entry types), \<open>Session_Tree\<close>, \<open>Session_Context\<close>,
    \<open>Session_Migration\<close>: \<open>session-manager.ts\<close>; the record \<open>session\<close> has the fields \<open>#fileEntries\<close>,
    \<open>#byId\<close>, \<open>#labelsById\<close>, \<open>#leafId\<close> and the usage counters, one definition per method.
  \<^item> \<open>Compaction\<close>, \<open>Compaction_Correct\<close> (\<open>agent/src/compaction/compaction.ts\<close>, \<open>utils.ts\<close>), \<open>Pruning\<close>
    (\<open>pruning.ts\<close>, \<open>tool-protection.ts\<close>), \<open>Branch_Summary\<close> (\<open>branch-summarization.ts\<close>), \<open>Shake\<close> and
    \<open>Shake_Correct\<close> (\<open>shake.ts\<close>).
  \<^item> \<open>Apply_Patch\<close> (\<open>coding-agent/src/edit/apply-patch/\<close> and the end of \<open>edit/modes/patch.ts\<close>): the other edit
    format, its envelope and the replacement of lines.
  \<^item> \<open>Replace_Text\<close>, \<open>Replace_Correct\<close> (\<open>edit/modes/replace.ts\<close>, \<open>edit/normalize.ts\<close>, \<open>replaceText\<close> of
    \<open>edit/diff.ts\<close>): the replace mode, with edit distance, fuzzy matching and indentation.
  \<^item> \<open>Sse_Stream\<close> (\<open>utils/src/stream.ts\<close>): lines and server-sent events out of chunks of bytes.
  \<^item> \<open>Event_Stream\<close> (\<open>ai/src/utils/event-stream.ts\<close>): the queue between producers and consumers.
  \<^item> \<open>Tool_Batch\<close> and \<open>Agent_Loop\<close> (\<open>agent/src/agent-loop.ts\<close>): \<open>executeToolCalls\<close> as a step relation over
    the record \<open>batch\<close> (one task per call, the chain of start promises, interruption), and \<open>runLoop\<close> with
    \<open>streamAssistantResponse\<close> as a step relation over \<open>loop_state\<close>, a phase per point where it waits.
  \<^item> \<open>Tool_Args\<close> (\<open>tool-call-fixup.ts\<close>) and \<open>Tool_Outcome\<close> (the middle of \<open>runTool\<close>, \<open>coerceToolResult\<close> and
    \<open>utils/src/sanitize-text.ts\<close>): what happens to the arguments of one call and to its result.
  \<^item> \<open>Agent\<close> (\<open>agent/src/agent.ts\<close>): the record \<open>agent\<close> has the fields of \<open>#state\<close>, the queues, the controller
    and the promise of a run; \<open>agent_step\<close> composes it with its loop and the user.
  \<^item> \<open>Append_Only\<close> (\<open>agent/src/append-only-context.ts\<close>, \<open>normalizeTools\<close> of \<open>agent-loop.ts\<close>) and
    \<open>Ring_Buffer\<close> (\<open>utils/src/ring.ts\<close>, with the locale \<open>bounded_deque\<close>), \<open>Snowflake\<close>
    (\<open>utils/src/snowflake.ts\<close>): identifiers on 32 bit words.
  \<^item> \<open>Secrets\<close>, \<open>Secrets_Correct\<close> (\<open>coding-agent/src/secrets/\<close>): the record \<open>obfuscator\<close> has the fields of
    \<open>SecretObfuscator\<close>; what is sent has placeholders for secrets, and they are restored.
  \<^item> \<open>Tool_Choice\<close> (\<open>coding-agent/src/session/tool-choice-queue.ts\<close>, \<open>utils/tool-choice.ts\<close>,
    \<open>tools/resolve.ts\<close> and the places of \<open>agent-session.ts\<close> that drive the queue): the record
    \<open>choice_queue\<close> has the private fields of \<open>ToolChoiceQueue\<close>; a refinement (the locale
    \<open>functional_refinement\<close>) to a queue of single values, and the previews that wait in it.

  \<^bold>\<open>What is shown.\<close>
  For the edit engine: from the text of a patch to the bytes of the file (\<open>patch_text_edits_file\<close>),
  no write unless everything was prepared, a stale tag leads to guarded recovery only, and the tag
  of a result is live for the next patch.  Below that, refinement of the applier, round trips of
  the printers, and invariants of the parser and of the store.
  For the agent: in every interleaving a batch ends with one result per call, an exclusive tool runs
  alone, a run keeps its transcript (\<open>run_keeps_transcript\<close>), and over any number of runs the
  conversation has every call answered and every message of the user once
  (\<open>agent_keeps_conversation\<close>, for providers that do not leak); the event stream is a log with a cursor, and server-sent events
  are read back however their bytes are cut.  No text
  block that is sent has a hidden secret (\<open>no_secret_leaks\<close>), and a hidden text comes back.  The
  queue of tool choices is first in first out, and a preview survives turns that are aborted.
  For sessions: every sequence of operations yields a tree (\<open>session_reach\<close>; pruning and branching
  off belong to it where no label stands in the middle of the branch), a branch is what was
  appended, the context is the active branch, every tool call in it has its result; a compaction
  followed by building the context gives the summary and the kept messages, less the calls
  without result that every context drops; pruning and shaking replace exactly what they select;
  older files load as one branch when the ids drawn are distinct.  For the swarm: the waves are a
  schedule, every interleaving keeps the dependencies, and unless \<open>target_count\<close> is infinite it ends.
  The conditions of each property stand in the text before it.
  Where the code does something else than it means to, a closed theorem states what it does
  (\<open>replace_all_never_returns\<close>, \<open>restored_call_is_sent\<close>, \<open>kept_line_is_overwritten\<close>, \<open>leaked_message_kept\<close>, \<open>early_prompt_is_orphaned\<close>, \<open>split_repeats_text\<close>, \<open>second_compaction_drops_kept\<close>, \<open>prune_loses_history_at_label\<close>, \<open>split_turn_drops_summary\<close>,
  \<open>repeated_id_hangs\<close>, \<open>late_abort_reported_as_completed\<close>, \<open>infinite_run_never_completes\<close>, \<open>result_with_return_is_stale\<close>,
  \<open>hash_secret_stays\<close>, \<open>ignored_preview_is_dropped\<close>, \<open>replayed_force_is_not_recognised\<close>, \<open>echoed_header_blocks_stripping\<close>).

  \<^bold>\<open>Parameters.\<close>  Code outside the repository is an argument of the definitions that use it: the hash
  \<open>xxh\<close>, the LRU cache (by its documented laws), the \<open>diff\<close> package, the block resolver, the text
  decoder and byte length, the YAML reader, the working directory, the token counter
  \<open>countTokens\<close>, the rounding of floating point expressions (\<open>scaled\<close>, \<open>fl\<close>), the random ids
  (\<open>id_source\<close>), the clock, the models that write summaries, the Zod conversion and the variable
  \<open>OA_NO_INTENT\<close>, the removal of terminal escapes (\<open>strip\<close>), the number a numeric string stands for, and
  the functions around a tool call (\<open>call_hooks\<close>), and the hashes and patterns of the runtime (\<open>runtime\<close>).  The outcome of a subprocess is a choice of the environment in the step relation of
  the swarm; the responses of the providers (\<open>answers\<close>, with the promises \<open>proper_stream\<close> and \<open>no_leak\<close>
  as hypotheses), the results of tools and hooks and the messages of the user are choices in those
  of the agent.

  \<^bold>\<open>Termination.\<close>  No fuel is used: loops are structural, carry a measure, or, where a cyclic
  parent chain can make the code run forever (\<open>walk\<close> for \<open>getBranch\<close>), are \<open>partial_function\<close>s
  with \<open>None\<close> for not returning (so is \<open>fuzzy_loop\<close>, the replacement of all fuzzy matches, which need
  not return); for reachable sessions they are shown to return.

  \<^bold>\<open>Conventions.\<close>  Fields that no modelled operation reads are left out, and so is the wording of
  messages except where the program reads it back.  Numbers that are counters, sizes or offsets
  are natural numbers; the rolling digests and the parts of a snowflake are 32 bit words.

  \<^bold>\<open>Not modelled.\<close>  The providers and their streams and authentication (\<open>packages/ai\<close>), the terminal
  user interface (\<open>packages/tui\<close>, the interactive modes), the tools themselves and the settings of
  \<open>packages/coding-agent\<close>, \<open>packages/stats\<close>, \<open>packages/mnemopi\<close>, the native crates and Python code:
  mostly input and output, network protocols or layout.  Of the session manager: files, artifacts,
  titles and listing.  Of the agent: telemetry, the options of a request, the reports about leaks, the setters of single
  options, results that Cursor hands in while a message streams (defined, but no step of \<open>agent_step\<close>), prompts by a
  listener before a run is over, and \<open>popMessage\<close>, which compares object identities.  Of compaction: prompts, the calls of the model and the native
  (remote) form.  Of the swarm: the progress display, the
  log lines and a tracker whose writes fail before a subprocess starts.
\<close>

end
